(* ===== verification/Prelude.thy ===== *)
theory Prelude
  imports Main "HOL-Library.Word"
begin

text \<open>
  Shared vocabulary of the development.

  The Rust program is modelled for a 64-bit target: a \<open>usize\<close> is a natural number that
  the code's checked operations keep at or below \<open>usize_max\<close>; a \<open>Result<T, E>\<close> is the sum
  \<open>'e + 'a\<close> whose left side is the error; an operation that can panic (an index or a slice
  out of range, an \<open>unreachable!\<close>) returns an option whose \<open>None\<close> is the panic.
\<close>

unbundle bit_operations_syntax

section \<open>Machine integers\<close>

type_synonym u8 = "8 word"
type_synonym u16 = "16 word"
type_synonym u32 = "32 word"
type_synonym u64 = "64 word"
type_synonym byte = u8

lemma unat_bound: "unat (x :: 'i::len word) < 2 ^ LENGTH('i)"
  by (rule unsigned_less)

lemma unat_word_of_nat: "n < 2 ^ LENGTH('i) \<Longrightarrow> unat (word_of_nat n :: 'i::len word) = n"
  by (simp add: unsigned_of_nat take_bit_nat_eq_self)

lemma unat_byte_bound [simp]: "unat (b :: byte) < 256"
  using unat_bound [of b] by simp

text \<open>\<open>usize::MAX\<close> on a 64-bit target.\<close>

definition usize_max :: nat where
  "usize_max = 18446744073709551615"

lemma usize_max_eq: "usize_max = 2 ^ 64 - 1"
  by (simp add: usize_max_def)

text \<open>The checked and saturating operations on \<open>usize\<close> that the code calls.\<close>

definition checked_add :: "nat \<Rightarrow> nat \<Rightarrow> nat option" where
  "checked_add a b = (if a + b \<le> usize_max then Some (a + b) else None)"

definition checked_mul :: "nat \<Rightarrow> nat \<Rightarrow> nat option" where
  "checked_mul a b = (if a * b \<le> usize_max then Some (a * b) else None)"

lemma checked_add_Some_iff [simp]: "checked_add a b = Some c \<longleftrightarrow> c = a + b \<and> a + b \<le> usize_max"
  by (auto simp: checked_add_def)

lemma checked_add_None_iff [simp]: "checked_add a b = None \<longleftrightarrow> usize_max < a + b"
  by (auto simp: checked_add_def)

lemma checked_mul_Some_iff [simp]: "checked_mul a b = Some c \<longleftrightarrow> c = a * b \<and> a * b \<le> usize_max"
  by (auto simp: checked_mul_def)

lemma checked_mul_None_iff [simp]: "checked_mul a b = None \<longleftrightarrow> usize_max < a * b"
  by (auto simp: checked_mul_def)

text \<open>The same on a machine word of any width.\<close>

definition word_checked_add :: "'i::len word \<Rightarrow> 'i word \<Rightarrow> 'i word option" where
  "word_checked_add a b = (if unat a + unat b < 2 ^ LENGTH('i) then Some (a + b) else None)"

definition word_saturating_add :: "'i::len word \<Rightarrow> 'i word \<Rightarrow> 'i word" where
  "word_saturating_add a b = (case word_checked_add a b of Some c \<Rightarrow> c | None \<Rightarrow> - 1)"

definition word_saturating_mul :: "'i::len word \<Rightarrow> 'i word \<Rightarrow> 'i word" where
  "word_saturating_mul a b = (if unat a * unat b < 2 ^ LENGTH('i) then a * b else - 1)"

lemma unat_add_fits: "unat a + unat b < 2 ^ LENGTH('i) \<Longrightarrow> unat (a + b :: 'i::len word) = unat a + unat b"
  by (simp add: unat_word_ariths)

lemma unat_mult_fits: "unat a * unat b < 2 ^ LENGTH('i) \<Longrightarrow> unat (a * b :: 'i::len word) = unat a * unat b"
  by (simp add: unat_word_ariths)

lemma word_checked_add_Some_iff:
  "word_checked_add a b = Some c \<longleftrightarrow> unat a + unat b < 2 ^ LENGTH('i) \<and> unat (c :: 'i::len word) = unat a + unat b"
  by (auto simp: word_checked_add_def unat_add_fits) (metis unat_add_fits word_eq_iff_unsigned)

section \<open>Results\<close>

type_synonym ('e, 'a) result = "'e + 'a"

abbreviation Err :: "'e \<Rightarrow> ('e, 'a) result" where
  "Err \<equiv> Inl"

abbreviation Ok :: "'a \<Rightarrow> ('e, 'a) result" where
  "Ok \<equiv> Inr"

text \<open>The \<open>?\<close> operator: an error returns at once, a value goes on.\<close>

fun and_then :: "('e, 'a) result \<Rightarrow> ('a \<Rightarrow> ('e, 'b) result) \<Rightarrow> ('e, 'b) result" where
  "and_then (Inl e) f = Inl e"
| "and_then (Inr a) f = f a"

lemma and_then_Ok_iff [simp]:
  "and_then r f = Inr b \<longleftrightarrow> (\<exists>a. r = Inr a \<and> f a = Inr b)"
  by (cases r) auto

lemma and_then_Err_iff:
  "and_then r f = Inl e \<longleftrightarrow> r = Inl e \<or> (\<exists>a. r = Inr a \<and> f a = Inl e)"
  by (cases r) auto

fun map_err :: "('e \<Rightarrow> 'f) \<Rightarrow> ('e, 'a) result \<Rightarrow> ('f, 'a) result" where
  "map_err h (Inl e) = Inl (h e)"
| "map_err h (Inr a) = Inr a"

lemma map_err_Ok_iff [simp]: "map_err h r = Inr a \<longleftrightarrow> r = Inr a"
  by (cases r) auto

lemma map_err_Err_iff [simp]: "map_err h r = Inl f \<longleftrightarrow> (\<exists>e. r = Inl e \<and> f = h e)"
  by (cases r) auto

fun ok_or :: "'e \<Rightarrow> 'a option \<Rightarrow> ('e, 'a) result" where
  "ok_or e None = Inl e"
| "ok_or e (Some a) = Inr a"

lemma ok_or_Ok_iff [simp]: "ok_or e r = Inr a \<longleftrightarrow> r = Some a"
  by (cases r) auto

lemma ok_or_Err_iff [simp]: "ok_or e r = Inl f \<longleftrightarrow> r = None \<and> f = e"
  by (cases r) auto

text \<open>\<open>iter.map(f).collect::<Result<Vec<_>, _>>()\<close>: the first error wins.\<close>

fun collect_results :: "('e, 'a) result list \<Rightarrow> ('e, 'a list) result" where
  "collect_results [] = Inr []"
| "collect_results (r # rs) =
     and_then r (\<lambda>x. and_then (collect_results rs) (\<lambda>xs. Inr (x # xs)))"

lemma collect_results_map_Ok:
  assumes "\<And>x. x \<in> set xs \<Longrightarrow> f x = Inr (g x)"
  shows "collect_results (map f xs) = Inr (map g xs)"
  using assms by (induction xs) auto

lemma collect_results_Ok_length: "collect_results rs = Inr xs \<Longrightarrow> length xs = length rs"
  by (induction rs arbitrary: xs) auto

lemma collect_results_Ok_nth:
  "collect_results rs = Inr xs \<Longrightarrow> i < length rs \<Longrightarrow> rs ! i = Inr (xs ! i)"
proof (induction rs arbitrary: xs i)
  case Nil
  then show ?case by simp
next
  case (Cons r rs)
  then show ?case by (cases i) auto
qed

section \<open>Reads that can panic\<close>

definition index_or_panic :: "'a list \<Rightarrow> nat \<Rightarrow> 'a option" where
  "index_or_panic xs i = (if i < length xs then Some (xs ! i) else None)"

text \<open>\<open>&xs[start..end]\<close>: panics when the range is reversed or runs past the end.\<close>

definition slice_or_panic :: "'a list \<Rightarrow> nat \<Rightarrow> nat \<Rightarrow> 'a list option" where
  "slice_or_panic xs start stop =
     (if start \<le> stop \<and> stop \<le> length xs then Some (take (stop - start) (drop start xs)) else None)"

lemma index_or_panic_Some [simp]: "i < length xs \<Longrightarrow> index_or_panic xs i = Some (xs ! i)"
  by (simp add: index_or_panic_def)

lemma slice_or_panic_Some [simp]:
  "start \<le> stop \<Longrightarrow> stop \<le> length xs \<Longrightarrow>
     slice_or_panic xs start stop = Some (take (stop - start) (drop start xs))"
  by (simp add: slice_or_panic_def)

text \<open>
  A fallible computation that can also panic: \<open>None\<close> is the panic, \<open>Some (Err e)\<close> the returned
  error, \<open>Some (Ok a)\<close> the value. \<open>run_then\<close> sequences two of them.
\<close>

type_synonym ('e, 'a) run = "('e, 'a) result option"

fun run_then :: "('e, 'a) run \<Rightarrow> ('a \<Rightarrow> ('e, 'b) run) \<Rightarrow> ('e, 'b) run" where
  "run_then None f = None"
| "run_then (Some (Inl e)) f = Some (Inl e)"
| "run_then (Some (Inr a)) f = f a"

text \<open>A panicking read as a computation.\<close>

definition reading :: "'a option \<Rightarrow> ('e, 'a) run" where
  "reading r = map_option Inr r"

lemma reading_simps [simp]: "reading None = None" "reading (Some a) = Some (Inr a)"
  by (simp_all add: reading_def)

lemma run_then_assoc: "run_then (run_then r f) g = run_then r (\<lambda>a. run_then (f a) g)"
  by (induction r f rule: run_then.induct) auto

lemma run_then_Ok_iff [simp]:
  "run_then r f = Some (Inr b) \<longleftrightarrow> (\<exists>a. r = Some (Inr a) \<and> f a = Some (Inr b))"
  by (induction r f rule: run_then.induct) auto

lemma run_then_None_iff [simp]:
  "run_then r f = None \<longleftrightarrow> r = None \<or> (\<exists>a. r = Some (Inr a) \<and> f a = None)"
  by (induction r f rule: run_then.induct) auto

lemma run_then_Err_iff [simp]:
  "run_then r f = Some (Inl e) \<longleftrightarrow> r = Some (Inl e) \<or> (\<exists>a. r = Some (Inr a) \<and> f a = Some (Inl e))"
  by (induction r f rule: run_then.induct) auto

text \<open>\<open>xs[i] = x\<close>: panics out of range.\<close>

definition store_or_panic :: "'a list \<Rightarrow> nat \<Rightarrow> 'a \<Rightarrow> 'a list option" where
  "store_or_panic xs i x = (if i < length xs then Some (xs[i := x]) else None)"

lemma store_or_panic_Some [simp]: "i < length xs \<Longrightarrow> store_or_panic xs i x = Some (xs[i := x])"
  by (simp add: store_or_panic_def)

lemma store_or_panic_SomeD: "store_or_panic xs i x = Some ys \<Longrightarrow> ys = xs[i := x] \<and> i < length xs"
  by (auto simp: store_or_panic_def split: if_splits)

lemma reading_Ok_iff [simp]: "reading r = Some (Inr a) \<longleftrightarrow> r = Some a"
  by (cases r) auto

text \<open>A \<open>?\<close> on a plain result inside such a computation.\<close>

abbreviation trying :: "('e, 'a) result \<Rightarrow> ('e, 'a) run" where
  "trying r \<equiv> Some r"

section \<open>Byte ranges of a buffer\<close>

definition subrange :: "'a list \<Rightarrow> nat \<Rightarrow> nat \<Rightarrow> 'a list" where
  "subrange xs start len = take len (drop start xs)"

text \<open>\<open>buf[start..start + ys.len()].copy_from_slice(ys)\<close> for a range inside the buffer.\<close>

definition overwrite :: "'a list \<Rightarrow> nat \<Rightarrow> 'a list \<Rightarrow> 'a list" where
  "overwrite xs start ys = take start xs @ ys @ drop (start + length ys) xs"

text \<open>The same with the panic of a range past the end.\<close>

definition copy_or_panic :: "'a list \<Rightarrow> nat \<Rightarrow> 'a list \<Rightarrow> 'a list option" where
  "copy_or_panic xs start ys = (if start + length ys \<le> length xs then Some (overwrite xs start ys) else None)"

lemma copy_or_panic_Some [simp]:
  "start + length ys \<le> length xs \<Longrightarrow> copy_or_panic xs start ys = Some (overwrite xs start ys)"
  by (simp add: copy_or_panic_def)

lemma length_subrange [simp]: "start + len \<le> length xs \<Longrightarrow> length (subrange xs start len) = len"
  by (simp add: subrange_def)

lemma length_overwrite [simp]:
  "start + length ys \<le> length xs \<Longrightarrow> length (overwrite xs start ys) = length xs"
  by (simp add: overwrite_def)

lemma nth_overwrite:
  assumes "start + length ys \<le> length xs" and "i < length xs"
  shows "overwrite xs start ys ! i =
           (if start \<le> i \<and> i < start + length ys then ys ! (i - start) else xs ! i)"
  using assms by (auto simp: overwrite_def nth_append min_def)

lemma nth_subrange: "start + len \<le> length xs \<Longrightarrow> i < len \<Longrightarrow> subrange xs start len ! i = xs ! (start + i)"
  by (simp add: subrange_def)

lemma subrange_overwrite_same [simp]:
  "start + length ys \<le> length xs \<Longrightarrow> subrange (overwrite xs start ys) start (length ys) = ys"
  by (simp add: subrange_def overwrite_def)

lemma subrange_overwrite_disjoint:
  assumes "start + length ys \<le> length xs" and "s + n \<le> length xs"
    and "s + n \<le> start \<or> start + length ys \<le> s"
  shows "subrange (overwrite xs start ys) s n = subrange xs s n"
  by (rule nth_equalityI) (use assms in \<open>auto simp: nth_subrange nth_overwrite\<close>)

lemma subrange_append_left: "start + len \<le> length xs \<Longrightarrow> subrange (xs @ ys) start len = subrange xs start len"
  by (simp add: subrange_def)

lemma subrange_append_right [simp]: "subrange (xs @ ys) (length xs) (length ys) = ys"
  by (simp add: subrange_def)

lemma subrange_join [simp]:
  "t = s + m \<Longrightarrow> subrange xs s m @ subrange xs t n = subrange xs s (m + n)"
  by (simp add: subrange_def take_add add.commute)

lemma subrange_all: "length xs = n \<Longrightarrow> subrange xs 0 n = xs"
  by (simp add: subrange_def)

lemma subrange_append_skip:
  "length xs \<le> start \<Longrightarrow> subrange (xs @ ys) start len = subrange ys (start - length xs) len"
  by (simp add: subrange_def)

lemma subrange_subrange:
  "start' + len' \<le> len \<Longrightarrow> subrange (subrange xs start len) start' len' = subrange xs (start + start') len'"
  by (simp add: subrange_def drop_take min_def add.commute)

lemma subrange_concat_map_const:
  assumes "\<And>x. x \<in> set xs \<Longrightarrow> length (f x) = n" and "i < length xs"
  shows "subrange (concat (map f xs)) (i * n) n = f (xs ! i)"
  using assms
proof (induction xs arbitrary: i)
  case Nil
  then show ?case by simp
next
  case (Cons x xs)
  show ?case
  proof (cases i)
    case 0
    with Cons.prems show ?thesis by (simp add: subrange_def)
  next
    case (Suc j)
    with Cons.prems Cons.IH [of j] show ?thesis by (simp add: subrange_def)
  qed
qed

lemma length_concat_map_const:
  "(\<And>x. x \<in> set xs \<Longrightarrow> length (f x) = n) \<Longrightarrow> length (concat (map f xs)) = length xs * n"
  by (induction xs) auto

end
