(* ===== verification/Keys.thy ===== *)
theory Keys
  imports Prelude
begin

text \<open>
  The composite-key encoding of \<open>crates/oxgraph-layout-util/src/keys.rs\<close>. A Rust string is the
  list of its bytes, here a \<open>string\<close>; \<open>usize::to_string\<close> is the decimal numeral.
\<close>

section \<open>The code\<close>

fun digit_char :: "nat \<Rightarrow> char" where
  "digit_char d = char_of (48 + d)"

fun decimal :: "nat \<Rightarrow> string" where
  "decimal n = (if n < 10 then [digit_char n] else decimal (n div 10) @ [digit_char (n mod 10)])"

declare decimal.simps [simp del]

text \<open>The loop over the fields, with the key built so far.\<close>

fun encode_loop :: "string \<Rightarrow> string list \<Rightarrow> string" where
  "encode_loop key [] = key"
| "encode_loop key (field # fields) =
     encode_loop (((key @ decimal (length field)) @ '':'') @ field) fields"

definition encode_composite_key :: "string list \<Rightarrow> string" where
  "encode_composite_key fields = encode_loop [] fields"

section \<open>Decimal numerals\<close>

text \<open>Reading the numeral back shows that distinct lengths have distinct prefixes.\<close>

fun digit_value :: "char \<Rightarrow> nat" where
  "digit_value c = of_char c - 48"

definition decimal_value :: "string \<Rightarrow> nat" where
  "decimal_value s = foldl (\<lambda>v c. 10 * v + digit_value c) 0 s"

lemma digit_value_char: "d < 10 \<Longrightarrow> digit_value (digit_char d) = d"
  by simp

lemma decimal_value_decimal: "decimal_value (decimal n) = n"
proof (induction n rule: decimal.induct)
  case (1 n)
  show ?case
  proof (cases "n < 10")
    case True
    then show ?thesis by (simp add: decimal_value_def decimal.simps [of n] digit_value_char)
  next
    case False
    with 1 have "decimal_value (decimal (n div 10)) = n div 10" by simp
    moreover have "decimal n = decimal (n div 10) @ [digit_char (n mod 10)]"
      using False by (simp add: decimal.simps [of n])
    moreover have "digit_value (digit_char (n mod 10)) = n mod 10"
      by (rule digit_value_char) simp
    ultimately show ?thesis
      by (simp only: decimal_value_def foldl_append foldl.simps) simp
  qed
qed

lemma decimal_inject: "decimal m = decimal n \<longleftrightarrow> m = n"
  by (metis decimal_value_decimal)

lemma digit_char_not_colon: "d < 10 \<Longrightarrow> digit_char d \<noteq> CHR '':''"
proof
  assume "d < 10" and "digit_char d = CHR '':''"
  then have "of_char (digit_char d) = (of_char (CHR '':'') :: nat)" by simp
  with \<open>d < 10\<close> show False by simp
qed

lemma decimal_no_colon: "CHR '':'' \<notin> set (decimal n)"
proof (induction n rule: decimal.induct)
  case (1 n)
  show ?case
  proof (cases "n < 10")
    case True
    then show ?thesis using digit_char_not_colon [of n] by (auto simp: decimal.simps [of n])
  next
    case False
    with 1 digit_char_not_colon [of "n mod 10"] show ?thesis
      by (auto simp: decimal.simps [of n])
  qed
qed

section \<open>The encoding is a prefix-free code\<close>

lemma encode_loop_append: "encode_loop key fields = key @ encode_loop [] fields"
proof (induction fields arbitrary: key)
  case Nil
  then show ?case by simp
next
  case (Cons f fs)
  then show ?case by (metis append.assoc append.left_neutral encode_loop.simps(2))
qed

lemma encode_Nil: "encode_composite_key [] = []"
  by (simp add: encode_composite_key_def)

lemma encode_Cons:
  "encode_composite_key (f # fs) =
     decimal (length f) @ CHR '':'' # f @ encode_composite_key fs"
  by (simp add: encode_composite_key_def encode_loop_append [of "_ @ _"])

text \<open>A colon-free prefix is fixed by the first colon.\<close>

lemma colon_split:
  "c \<notin> set as \<Longrightarrow> c \<notin> set bs \<Longrightarrow> as @ c # xs = bs @ c # ys \<Longrightarrow> as = bs \<and> xs = ys"
proof (induction as arbitrary: bs)
  case Nil
  then show ?case by (cases bs) auto
next
  case (Cons a as)
  then show ?case by (cases bs) auto
qed

lemma encode_inject: "encode_composite_key fs = encode_composite_key gs \<Longrightarrow> fs = gs"
proof (induction fs arbitrary: gs)
  case Nil
  then show ?case by (cases gs) (auto simp: encode_Nil encode_Cons)
next
  case (Cons f fs)
  then obtain g gs' where gs: "gs = g # gs'"
    by (cases gs) (auto simp: encode_Nil encode_Cons)
  with Cons.prems have "decimal (length f) = decimal (length g)"
    and rest: "f @ encode_composite_key fs = g @ encode_composite_key gs'"
    using colon_split [OF decimal_no_colon decimal_no_colon] by (auto simp: encode_Cons)
  then have "length f = length g" by (simp add: decimal_inject)
  with rest have "f = g" and "encode_composite_key fs = encode_composite_key gs'" by auto
  with Cons.IH gs show ?case by auto
qed

section \<open>Properties\<close>

text \<open>
  The composite key identifies the field tuple: two tuples, of any arity and with any
  bytes in their fields (separators and digits included), have the same key exactly when
  they are equal.
\<close>

theorem encode_composite_key_injective:
  "encode_composite_key fs = encode_composite_key gs \<longleftrightarrow> fs = gs"
  by (auto dest: encode_inject)

end
