(* ===== verification/Layout.thy ===== *)
theory Layout
  imports Prelude
begin

text \<open>
  The index and word vocabulary of \<open>crates/oxgraph-layout-util/src/lib.rs\<close>.

  A \<open>LayoutIndex\<close> of width \<open>w\<close> is a \<open>w\<close>-bit word; \<open>u16\<close>, \<open>u32\<close>, \<open>u64\<close> and \<open>usize\<close> are its
  instances at 16, 32, 64 and (on this target) 64 bits. The trait's conversions are
  polymorphic in the width, so that the code's width-failure branches stay branches of the
  model. The zero-sized axis brand of \<open>LocalId\<close> carries no data and is erased: a node, edge
  or vertex handle is its raw index value. A little-endian storage word is the list of its bytes.
\<close>

section \<open>Index widths\<close>

definition to_usize :: "'i::len word \<Rightarrow> nat option" where
  "to_usize x = (if unat x \<le> usize_max then Some (unat x) else None)"

definition from_usize :: "nat \<Rightarrow> ('i::len) word option" where
  "from_usize n = (if n < 2 ^ LENGTH('i) then Some (word_of_nat n) else None)"

definition ZERO :: "('i::len) word" where
  "ZERO = 0"

lemma to_usize_Some_iff: "to_usize x = Some n \<longleftrightarrow> n = unat x \<and> n \<le> usize_max"
  by (auto simp: to_usize_def)

lemma from_usize_Some_iff:
  "from_usize n = Some (x :: 'i::len word) \<longleftrightarrow> n < 2 ^ LENGTH('i) \<and> unat x = n"
  by (auto simp: from_usize_def unat_word_of_nat)

lemma from_usize_to_usize: "to_usize x = Some n \<Longrightarrow> from_usize n = Some x"
  by (auto simp: to_usize_Some_iff from_usize_Some_iff)

lemma to_usize_from_usize: "from_usize n = Some x \<Longrightarrow> n \<le> usize_max \<Longrightarrow> to_usize x = Some n"
  by (auto simp: to_usize_Some_iff from_usize_Some_iff)

text \<open>On this target every width of at most 64 bits converts without loss.\<close>

lemma to_usize_narrow:
  assumes "LENGTH('i::len) \<le> 64"
  shows "to_usize (x :: 'i word) = Some (unat x)"
proof -
  have "unat x < 2 ^ LENGTH('i)" by (rule unat_bound)
  also have "\<dots> \<le> 2 ^ 64" using assms by (intro power_increasing) auto
  finally show ?thesis by (simp add: to_usize_def usize_max_def)
qed

section \<open>Little-endian bytes\<close>

text \<open>\<open>to_le_bytes\<close> of an unsigned integer of \<open>k\<close> bytes, and its inverse.\<close>

fun le_bytes :: "nat \<Rightarrow> nat \<Rightarrow> byte list" where
  "le_bytes 0 n = []"
| "le_bytes (Suc k) n = word_of_nat (n mod 256) # le_bytes k (n div 256)"

fun le_value :: "byte list \<Rightarrow> nat" where
  "le_value [] = 0"
| "le_value (b # bs) = unat b + 256 * le_value bs"

lemma length_le_bytes [simp]: "length (le_bytes k n) = k"
  by (induction k arbitrary: n) auto

lemma digit_bound: "(d::nat) < 256 \<Longrightarrow> v < p \<Longrightarrow> d + 256 * v < 256 * p"
  by linarith

lemma le_value_bound: "le_value bs < 256 ^ length bs"
  by (induction bs) (simp_all add: digit_bound)

lemma le_value_le_bytes: "le_value (le_bytes k n) = n mod 256 ^ k"
proof (induction k arbitrary: n)
  case 0
  then show ?case by simp
next
  case (Suc k)
  have "unat (word_of_nat (n mod 256) :: byte) = n mod 256"
    by (simp add: unat_of_nat)
  with Suc show ?case by (simp add: mod_mult2_eq)
qed

lemma le_bytes_le_value: "le_bytes (length bs) (le_value bs) = bs"
proof (induction bs)
  case Nil
  then show ?case by simp
next
  case (Cons b bs)
  have "unat b < 256" using unat_byte_bound [of b] by simp
  with Cons show ?case by simp
qed

lemma le_bytes_zero [simp]: "le_bytes k 0 = replicate k 0"
  by (induction k) auto

section \<open>Persisted widths\<close>

text \<open>
  \<open>SnapshotWidth\<close>: the two-bit discriminant of a width, and its bijection with the
  little-endian storage word. The trait is implemented for 16, 32 and 64 bits only; the
  fourth code is reserved.
\<close>

definition WIDTH_CODE :: "('i::len) itself \<Rightarrow> u32" where
  "WIDTH_CODE t = (if LENGTH('i) = 16 then 0 else if LENGTH('i) = 32 then 1
                   else if LENGTH('i) = 64 then 2 else 3)"

definition word_size :: "('i::len) itself \<Rightarrow> nat" where
  "word_size t = LENGTH('i) div 8"

definition to_le_word :: "'i::len word \<Rightarrow> byte list" where
  "to_le_word x = le_bytes (word_size TYPE('i)) (unat x)"

definition from_le_word :: "byte list \<Rightarrow> 'i::len word" where
  "from_le_word bs = word_of_nat (le_value bs)"

text \<open>\<open>slice_to_le\<close> of \<open>build.rs\<close>: the storage words of a native slice, one after the other.\<close>

definition slice_to_le :: "'i::len word list \<Rightarrow> byte list" where
  "slice_to_le values = concat (map to_le_word values)"

text \<open>
  The contract of a persisted width, which its three instances satisfy: the storage word
  is a whole, nonzero number of bytes that hold exactly the values of the width.
\<close>

locale snapshot_width =
  fixes T :: "('i::len) itself"
  assumes width_supported: "LENGTH('i) = 16 \<or> LENGTH('i) = 32 \<or> LENGTH('i) = 64"
begin

lemma word_size_pos: "0 < word_size T"
  using width_supported by (auto simp: word_size_def)

lemma bytes_hold_width: "(256::nat) ^ word_size T = 2 ^ LENGTH('i)"
  using width_supported by (auto simp: word_size_def)

lemma length_to_le_word: "length (to_le_word (x :: 'i word)) = word_size T"
  by (simp add: to_le_word_def word_size_def)

lemma from_to_le_word: "from_le_word (to_le_word (x :: 'i word)) = x"
proof -
  have "unat x mod 256 ^ word_size T = unat x"
    unfolding bytes_hold_width by (simp add: unat_bound)
  then show ?thesis
    by (simp add: from_le_word_def to_le_word_def le_value_le_bytes word_size_def)
qed

lemma to_from_le_word:
  assumes "length bs = word_size T"
  shows "to_le_word (from_le_word bs :: 'i word) = bs"
proof -
  have "le_value bs < 2 ^ LENGTH('i)"
    using le_value_bound [of bs] by (simp add: assms bytes_hold_width)
  then have "unat (from_le_word bs :: 'i word) = le_value bs"
    by (simp add: from_le_word_def unat_word_of_nat)
  moreover have "le_bytes (word_size T) (le_value bs) = bs"
    using le_bytes_le_value [of bs] by (simp add: assms)
  ultimately show ?thesis
    by (simp add: to_le_word_def word_size_def)
qed

lemma WIDTH_CODE_bound: "WIDTH_CODE T < 3"
  using width_supported by (auto simp: WIDTH_CODE_def word_less_nat_alt)

lemma to_usize_total: "to_usize (x :: 'i word) = Some (unat x)"
  using width_supported by (intro to_usize_narrow) auto

lemma length_slice_to_le: "length (slice_to_le (xs :: 'i word list)) = length xs * word_size T"
  unfolding slice_to_le_def by (rule length_concat_map_const) (rule length_to_le_word)

end

interpretation width16: snapshot_width "TYPE(16)"
  by unfold_locales simp

interpretation width32: snapshot_width "TYPE(32)"
  by unfold_locales simp

interpretation width64: snapshot_width "TYPE(64)"
  by unfold_locales simp

section \<open>Typed view of a byte run\<close>

text \<open>
  The cast behind a typed section: the payload cut into storage words, each read as its
  logical index. The view functions check first that the word size divides the length.
\<close>

fun read_le_words :: "nat \<Rightarrow> byte list \<Rightarrow> 'i::len word list" where
  "read_le_words 0 bs = []"
| "read_le_words (Suc n) bs =
     from_le_word (take (word_size TYPE('i)) bs) # read_le_words n (drop (word_size TYPE('i)) bs)"

lemma length_read_le_words [simp]: "length (read_le_words n bs) = n"
  by (induction n arbitrary: bs) auto

context snapshot_width
begin

lemma read_le_words_slice_to_le:
  "read_le_words (length xs) (slice_to_le (xs :: 'i word list)) = xs"
proof (induction xs)
  case Nil
  then show ?case by simp
next
  case (Cons x xs)
  have "length (to_le_word x) = word_size TYPE('i)"
    using length_to_le_word by (simp add: word_size_def)
  with Cons show ?case
    by (simp add: slice_to_le_def from_to_le_word)
qed

lemma slice_to_le_read_le_words:
  "length bs = n * word_size T \<Longrightarrow> slice_to_le (read_le_words n bs :: 'i word list) = bs"
proof (induction n arbitrary: bs)
  case 0
  then show ?case by (simp add: slice_to_le_def)
next
  case (Suc n)
  let ?w = "word_size T"
  have w: "word_size TYPE('i) = ?w" by (simp add: word_size_def)
  from Suc.prems have "length (take ?w bs) = ?w" and "length (drop ?w bs) = n * ?w"
    by auto
  then have "to_le_word (from_le_word (take ?w bs) :: 'i word) = take ?w bs"
    and "slice_to_le (read_le_words n (drop ?w bs) :: 'i word list) = drop ?w bs"
    by (auto intro: to_from_le_word Suc.IH)
  then show ?case by (simp add: slice_to_le_def w)
qed

end

end
