(* ===== verification/Integrity.thy ===== *)
theory Integrity
  imports Layout
begin

text \<open>
  Read-time offset integrity, \<open>crates/oxgraph-layout-util/src/integrity.rs\<close>: the walks that a
  view runs over borrowed offset and value arrays before it is handed out.
\<close>

section \<open>The code\<close>

datatype offset_integrity_issue =
    Length nat nat \<comment> \<open>expected, actual\<close>
  | CountOverflow nat
  | FirstNonZero nat
  | NonMonotonic nat nat nat \<comment> \<open>index, previous, actual\<close>
  | FinalMismatch nat nat \<comment> \<open>final offset, value length\<close>
  | ValueOutOfRange nat nat nat \<comment> \<open>index, value, bound\<close>
  | UsizeOverflow nat

definition index_to_usize_validated :: "'i::len word \<Rightarrow> nat option" where
  "index_to_usize_validated value = to_usize value"

definition usize_to_index_validated :: "nat \<Rightarrow> ('i::len) word option" where
  "usize_to_index_validated value = from_usize value"

text \<open>The loop of \<open>check_offsets_monotonic\<close>, entered at \<open>index\<close> with the previous offset.\<close>

fun monotonic_loop :: "nat \<Rightarrow> nat \<Rightarrow> 'i::len word list \<Rightarrow> (offset_integrity_issue, unit) result" where
  "monotonic_loop index previous [] = Ok ()"
| "monotonic_loop index previous (word # words) =
     (case to_usize word of
        None \<Rightarrow> Err (UsizeOverflow index)
      | Some offset \<Rightarrow>
          if index = 0 then
            if offset \<noteq> 0 then Err (FirstNonZero offset)
            else monotonic_loop (Suc index) offset words
          else if offset < previous then Err (NonMonotonic index previous offset)
          else monotonic_loop (Suc index) offset words)"

definition check_offsets_monotonic :: "'i::len word list \<Rightarrow> (offset_integrity_issue, unit) result" where
  "check_offsets_monotonic offsets = monotonic_loop 0 0 offsets"

fun value_range_loop :: "nat \<Rightarrow> nat \<Rightarrow> 'i::len word list \<Rightarrow> (offset_integrity_issue, unit) result" where
  "value_range_loop bound index [] = Ok ()"
| "value_range_loop bound index (word # words) =
     (case to_usize word of
        None \<Rightarrow> Err (UsizeOverflow index)
      | Some value \<Rightarrow>
          if bound \<le> value then Err (ValueOutOfRange index value bound)
          else value_range_loop bound (Suc index) words)"

definition check_value_range :: "'i::len word list \<Rightarrow> nat \<Rightarrow> (offset_integrity_issue, unit) result" where
  "check_value_range values bound = value_range_loop bound 0 values"

definition check_offset_section ::
    "'i::len word list \<Rightarrow> nat \<Rightarrow> nat \<Rightarrow> (offset_integrity_issue, unit) result" where
  "check_offset_section offsets expected_count value_len =
     (case checked_add expected_count 1 of
        None \<Rightarrow> Err (CountOverflow expected_count)
      | Some expected \<Rightarrow>
          if length offsets \<noteq> expected then Err (Length expected (length offsets))
          else and_then (check_offsets_monotonic offsets) (\<lambda>_.
            let final_index = length offsets - 1 in
            case to_usize (offsets ! final_index) of
              None \<Rightarrow> Err (UsizeOverflow final_index)
            | Some final_offset \<Rightarrow>
                if final_offset \<noteq> value_len then Err (FinalMismatch final_offset value_len)
                else Ok ()))"

section \<open>What an accepted array satisfies\<close>

text \<open>The well-formedness that the walks decide.\<close>

definition fits_usize :: "'i::len word list \<Rightarrow> bool" where
  "fits_usize ws \<longleftrightarrow> (\<forall>w \<in> set ws. unat w \<le> usize_max)"

definition offsets_ok :: "'i::len word list \<Rightarrow> nat \<Rightarrow> nat \<Rightarrow> bool" where
  "offsets_ok offsets count value_len \<longleftrightarrow>
     count < usize_max \<and> length offsets = count + 1 \<and> fits_usize offsets \<and>
     unat (offsets ! 0) = 0 \<and> sorted (map unat offsets) \<and> unat (offsets ! count) = value_len"

lemma fits_usize_narrow: "LENGTH('i::len) \<le> 64 \<Longrightarrow> fits_usize (ws :: 'i word list)"
  using to_usize_narrow by (fastforce simp: fits_usize_def to_usize_Some_iff)

lemma fits_usize_nth: "fits_usize ws \<Longrightarrow> i < length ws \<Longrightarrow> to_usize (ws ! i) = Some (unat (ws ! i))"
  by (simp add: fits_usize_def to_usize_def)

lemma monotonic_loop_Suc_Ok:
  "monotonic_loop (Suc index) previous ws = Ok () \<longleftrightarrow>
     fits_usize ws \<and> sorted (previous # map unat ws)"
proof (induction ws arbitrary: index previous)
  case Nil
  then show ?case by (simp add: fits_usize_def)
next
  case (Cons w ws)
  show ?case
    by (cases "to_usize w") (auto simp: Cons.IH fits_usize_def to_usize_def split: if_splits)
qed

lemma check_offsets_monotonic_Ok:
  "check_offsets_monotonic ws = Ok () \<longleftrightarrow>
     fits_usize ws \<and> sorted (map unat ws) \<and> (ws \<noteq> [] \<longrightarrow> unat (ws ! 0) = 0)"
proof (cases ws)
  case Nil
  then show ?thesis by (simp add: check_offsets_monotonic_def fits_usize_def)
next
  case (Cons w ws')
  then show ?thesis
    by (cases "to_usize w")
      (auto simp: check_offsets_monotonic_def monotonic_loop_Suc_Ok fits_usize_def to_usize_def
        split: if_splits)
qed

lemma value_range_loop_Ok:
  "value_range_loop bound index ws = Ok () \<longleftrightarrow> fits_usize ws \<and> (\<forall>w \<in> set ws. unat w < bound)"
proof (induction ws arbitrary: index)
  case Nil
  then show ?case by (simp add: fits_usize_def)
next
  case (Cons w ws)
  show ?case
    by (cases "to_usize w") (auto simp: Cons.IH fits_usize_def to_usize_def split: if_splits)
qed

lemma check_value_range_Ok:
  "check_value_range ws bound = Ok () \<longleftrightarrow> fits_usize ws \<and> (\<forall>w \<in> set ws. unat w < bound)"
  by (simp add: check_value_range_def value_range_loop_Ok)

lemma check_offset_section_Ok:
  "check_offset_section offsets count value_len = Ok () \<longleftrightarrow> offsets_ok offsets count value_len"
proof (cases "count < usize_max \<and> length offsets = count + 1")
  case False
  then show ?thesis
    by (auto simp: check_offset_section_def offsets_ok_def checked_add_def)
next
  case True
  then have "offsets \<noteq> []" and "length offsets - 1 = count" by auto
  with True show ?thesis
    by (cases "to_usize (offsets ! count)")
      (auto simp: check_offset_section_def offsets_ok_def checked_add_def Let_def
        check_offsets_monotonic_Ok to_usize_def fits_usize_def split: if_splits)
qed

text \<open>Consequences that the borrowed-view slicing relies on.\<close>

lemma offsets_ok_mono:
  "offsets_ok offsets count m \<Longrightarrow> i \<le> j \<Longrightarrow> j \<le> count \<Longrightarrow> unat (offsets ! i) \<le> unat (offsets ! j)"
  using sorted_nth_mono [of "map unat offsets" i j] by (simp add: offsets_ok_def)

lemma offsets_ok_interior:
  "offsets_ok offsets count m \<Longrightarrow> i \<le> count \<Longrightarrow> unat (offsets ! i) \<le> m"
  using offsets_ok_mono [of offsets count m i count] by (simp add: offsets_ok_def)

lemma offsets_ok_value_fits:
  "offsets_ok offsets count m \<Longrightarrow> m \<le> usize_max"
  by (auto simp: offsets_ok_def fits_usize_def)

section \<open>What an error says\<close>

lemma monotonic_loop_Suc_Err:
  "monotonic_loop (Suc index) previous ws = Err e \<Longrightarrow>
     \<exists>k < length ws. (\<forall>j < k. to_usize (ws ! j) \<noteq> None) \<and> sorted (previous # map unat (take k ws)) \<and>
       (case e of
          NonMonotonic i p a \<Rightarrow> i = Suc (index + k) \<and> p = (previous # map unat ws) ! k \<and>
            a = unat (ws ! k) \<and> a < p
        | UsizeOverflow i \<Rightarrow> i = Suc (index + k) \<and> usize_max < unat (ws ! k)
        | _ \<Rightarrow> False)"
proof (induction ws arbitrary: index previous)
  case Nil
  then show ?case by simp
next
  case (Cons w ws)
  show ?case
  proof (cases "to_usize w")
    case None
    with Cons.prems show ?thesis by (auto simp: to_usize_def split: if_splits intro!: exI [of _ 0])
  next
    case (Some offset)
    then have off: "offset = unat w" by (simp add: to_usize_Some_iff)
    show ?thesis
    proof (cases "offset < previous")
      case True
      with Some off Cons.prems show ?thesis by (auto intro!: exI [of _ 0])
    next
      case False
      with Some Cons.prems have "monotonic_loop (Suc (Suc index)) offset ws = Err e" by simp
      from Cons.IH [OF this] obtain k where k: "k < length ws"
        "\<forall>j < k. to_usize (ws ! j) \<noteq> None" "sorted (offset # map unat (take k ws))"
        "case e of
          NonMonotonic i p a \<Rightarrow> i = Suc (Suc index + k) \<and> p = (offset # map unat ws) ! k \<and>
            a = unat (ws ! k) \<and> a < p
        | UsizeOverflow i \<Rightarrow> i = Suc (Suc index + k) \<and> usize_max < unat (ws ! k)
        | _ \<Rightarrow> False" by blast
      have "\<forall>j < Suc k. to_usize ((w # ws) ! j) \<noteq> None"
        using k(2) Some by (auto simp: nth_Cons split: nat.splits)
      moreover have "sorted (previous # map unat (take (Suc k) (w # ws)))"
        using k(3) False off by auto
      ultimately show ?thesis using k(1,4) off
        by (intro exI [of _ "Suc k"]) (auto split: offset_integrity_issue.splits)
    qed
  qed
qed

section \<open>Properties\<close>

text \<open>
  The offset walk accepts exactly the well-formed sections: one more offset than rows, the
  first zero, never decreasing, each representable, the last equal to the number of values.
\<close>

theorem check_offset_section_accepts:
  "check_offset_section offsets count value_len = Ok () \<longleftrightarrow>
     count + 1 \<le> usize_max \<and> length offsets = count + 1 \<and>
     (\<forall>w \<in> set offsets. unat w \<le> usize_max) \<and> unat (offsets ! 0) = 0 \<and>
     (\<forall>i < count. unat (offsets ! i) \<le> unat (offsets ! (i + 1))) \<and>
     unat (offsets ! count) = value_len"
proof -
  have "sorted (map unat offsets) \<longleftrightarrow> (\<forall>i < count. unat (offsets ! i) \<le> unat (offsets ! (i + 1)))"
    if "length offsets = count + 1"
    using that by (auto simp: sorted_iff_nth_Suc)
  then show ?thesis
    unfolding check_offset_section_Ok by (auto simp: offsets_ok_def fits_usize_def)
qed

text \<open>
  When the monotonicity walk reports a decrease, it names the first one: all offsets before
  the reported index are in order, and the reported pair is the offset there and its predecessor.
\<close>

theorem check_offsets_monotonic_first_error:
  assumes "check_offsets_monotonic offsets = Err (NonMonotonic i p a)"
  shows "0 < i \<and> i < length offsets \<and> p = unat (offsets ! (i - 1)) \<and> a = unat (offsets ! i) \<and>
    a < p \<and> sorted (map unat (take i offsets))"
proof -
  from assms obtain w ws where ws: "offsets = w # ws"
    by (cases offsets) (auto simp: check_offsets_monotonic_def)
  with assms have loop: "monotonic_loop (Suc 0) (unat w) ws = Err (NonMonotonic i p a)"
    by (auto simp: check_offsets_monotonic_def to_usize_def split: if_splits)
  from monotonic_loop_Suc_Err [OF this] obtain k where "k < length ws"
    "sorted (unat w # map unat (take k ws))" "i = Suc k" "p = (unat w # map unat ws) ! k"
    "a = unat (ws ! k)" "a < p" by auto
  moreover from this have "(unat w # map unat ws) ! k = unat ((w # ws) ! k)"
    by (cases k) auto
  ultimately show ?thesis using ws by simp
qed

theorem check_offsets_monotonic_first_error_witness:
  "unat ([0, 5, 3 :: u32] ! 2) < 5 \<and> sorted (map unat (take 2 [0, 5, 3 :: u32]))"
proof -
  have "check_offsets_monotonic [0, 5, 3 :: u32] = Err (NonMonotonic 2 5 3)"
    by (simp add: check_offsets_monotonic_def to_usize_def usize_max_def)
  from check_offsets_monotonic_first_error [OF this] show ?thesis by simp
qed

theorem check_offset_section_accepts_witness:
  "check_offset_section [0, 1, 3 :: u16] 2 3 = Ok ()"
  by (subst check_offset_section_accepts) (auto simp: usize_max_def less_2_cases_iff)

end
