(* ===== verification/BuildIndex.thy ===== *)
theory BuildIndex
  imports Integrity
begin

text \<open>
  Build-time layout primitives, \<open>crates/oxgraph-layout-util/src/build.rs\<close>: dense ID validation,
  dense ID allocation, and the flattening of per-row buckets into an offset array and a value
  array. \<open>slice_to_le\<close> of the same file is in theory Layout.
\<close>

section \<open>The code\<close>

datatype id_out_of_bounds =
    IdUsizeOverflow
  | OutOfRange nat nat \<comment> \<open>slot, count\<close>

datatype offset_overflow = IndexOverflow nat

fun map_offset_overflow :: "offset_overflow \<Rightarrow> (nat \<Rightarrow> 'e) \<Rightarrow> 'e" where
  "map_offset_overflow (IndexOverflow value) on_overflow = on_overflow value"

text \<open>\<open>counter\<close> is passed by mutable reference: the result comes with its new value.\<close>

definition next_dense_index :: "nat \<Rightarrow> (nat \<Rightarrow> 'e) \<Rightarrow> ('e, ('i::len) word) result \<times> nat" where
  "next_dense_index counter on_overflow =
     (case from_usize counter of
        None \<Rightarrow> (Err (on_overflow counter), counter)
      | Some ident \<Rightarrow>
          (case checked_add counter 1 of
             None \<Rightarrow> (Err (on_overflow usize_max), counter)
           | Some counter' \<Rightarrow> (Ok ident, counter')))"

definition id_to_slot :: "'i::len word \<Rightarrow> nat \<Rightarrow> (id_out_of_bounds, nat) result" where
  "id_to_slot ident count =
     and_then (ok_or IdUsizeOverflow (to_usize ident)) (\<lambda>slot.
       if slot < count then Ok slot else Err (OutOfRange slot count))"

definition slot_or_max :: "'i::len word \<Rightarrow> nat" where
  "slot_or_max ident = (case to_usize ident of Some slot \<Rightarrow> slot | None \<Rightarrow> usize_max)"

definition index_from_usize :: "nat \<Rightarrow> (offset_overflow, ('i::len) word) result" where
  "index_from_usize value = ok_or (IndexOverflow value) (from_usize value)"

fun offset_index_loop ::
    "('o::len) word list \<Rightarrow> 'a list \<Rightarrow> 'a list list \<Rightarrow>
       (offset_overflow, 'o word list \<times> 'a list) result" where
  "offset_index_loop offsets items [] = Ok (offsets, items)"
| "offset_index_loop offsets items (bucket # buckets) =
     (let items' = items @ bucket in
      and_then (index_from_usize (length items')) (\<lambda>offset.
        offset_index_loop (offsets @ [offset]) items' buckets))"

definition build_offset_index ::
    "'a list list \<Rightarrow> (offset_overflow, ('o::len) word list \<times> 'a list) result" where
  "build_offset_index buckets =
     and_then (index_from_usize 0) (\<lambda>zero. offset_index_loop [zero] [] buckets)"

section \<open>Slots\<close>

lemma id_to_slot_Ok_iff: "id_to_slot ident count = Ok slot \<longleftrightarrow> to_usize ident = Some slot \<and> slot < count"
  by (auto simp: id_to_slot_def split: if_splits)

lemma slot_or_max_eq: "to_usize ident = Some slot \<Longrightarrow> slot_or_max ident = slot"
  by (simp add: slot_or_max_def)

lemma next_dense_index_Ok:
  "next_dense_index counter f = (Ok ident, counter') \<longleftrightarrow>
     from_usize counter = Some ident \<and> counter' = counter + 1 \<and> counter < usize_max"
  by (auto simp: next_dense_index_def split: option.splits)

lemma next_dense_index_Err:
  "next_dense_index counter f = (Err e, counter') \<Longrightarrow> counter' = counter"
  by (auto simp: next_dense_index_def split: option.splits)

section \<open>The flattened layout\<close>

text \<open>Cumulative bucket ends.\<close>

fun bucket_ends :: "nat \<Rightarrow> 'a list list \<Rightarrow> nat list" where
  "bucket_ends n [] = []"
| "bucket_ends n (b # bs) = (n + length b) # bucket_ends (n + length b) bs"

lemma length_bucket_ends [simp]: "length (bucket_ends n bs) = length bs"
  by (induction bs arbitrary: n) auto

lemma bucket_ends_nth: "i < length bs \<Longrightarrow> bucket_ends n bs ! i = n + length (concat (take (Suc i) bs))"
proof (induction bs arbitrary: n i)
  case Nil
  then show ?case by simp
next
  case (Cons b bs)
  then show ?case by (cases i) auto
qed

lemma offset_index_loop_Ok:
  "offset_index_loop offsets items buckets = Ok (offs, its) \<Longrightarrow>
     its = items @ concat buckets \<and>
     map unat offs = map unat offsets @ bucket_ends (length items) buckets"
proof (induction buckets arbitrary: offsets items)
  case Nil
  then show ?case by simp
next
  case (Cons b bs)
  then obtain offset where "from_usize (length (items @ b)) = Some offset"
    and "offset_index_loop (offsets @ [offset]) (items @ b) bs = Ok (offs, its)"
    by (auto simp: index_from_usize_def)
  with Cons.IH [of "offsets @ [offset]" "items @ b"] show ?case
    by (simp add: from_usize_Some_iff)
qed

lemma offset_index_loop_total:
  "length (items @ concat buckets) < 2 ^ LENGTH('o) \<Longrightarrow>
     \<exists>offs its. offset_index_loop (offsets :: 'o::len word list) items buckets = Ok (offs, its)"
  by (induction buckets arbitrary: offsets items) (auto simp: index_from_usize_def from_usize_def)

lemma build_offset_index_Ok:
  assumes "build_offset_index buckets = Ok (offsets, items)"
  shows "items = concat buckets" and "map unat offsets = 0 # bucket_ends 0 buckets"
proof -
  from assms obtain zero where "from_usize 0 = Some zero"
    and "offset_index_loop [zero] [] buckets = Ok (offsets, items)"
    by (auto simp: build_offset_index_def index_from_usize_def)
  then show "items = concat buckets" and "map unat offsets = 0 # bucket_ends 0 buckets"
    using offset_index_loop_Ok [of "[zero]" "[]" buckets offsets items]
    by (auto simp: from_usize_Some_iff)
qed

lemma build_offset_index_offset:
  assumes "build_offset_index buckets = Ok (offsets, items)" and "i \<le> length buckets"
  shows "unat (offsets ! i) = length (concat (take i buckets))"
proof -
  have len: "length offsets = length buckets + 1"
    using build_offset_index_Ok(2) [OF assms(1)] by (metis Suc_eq_plus1 length_Cons length_bucket_ends length_map)
  then have "unat (offsets ! i) = (0 # bucket_ends 0 buckets) ! i"
    using assms(2) by (simp flip: build_offset_index_Ok(2) [OF assms(1)])
  then show ?thesis using assms(2) by (cases i) (auto simp: bucket_ends_nth)
qed

lemma length_concat_take_le: "length (concat (take i bs)) \<le> length (concat bs)"
  by (metis append_take_drop_id concat_append length_append le_add1)

lemma length_concat_take_mono:
  "i \<le> j \<Longrightarrow> length (concat (take i bs)) \<le> length (concat (take j bs))"
  by (metis length_concat_take_le min.absorb1 take_take)

lemma length_build_offset_index:
  "build_offset_index buckets = Ok (offsets, items) \<Longrightarrow> length offsets = length buckets + 1"
  using build_offset_index_Ok(2) [of buckets offsets items]
  by (metis Suc_eq_plus1 length_Cons length_bucket_ends length_map)

lemma build_offset_index_bucket:
  assumes "build_offset_index buckets = Ok (offsets, items)" and "i < length buckets"
  shows "subrange items (unat (offsets ! i)) (unat (offsets ! (i + 1)) - unat (offsets ! i)) = buckets ! i"
proof -
  have split: "concat buckets = concat (take i buckets) @ buckets ! i @ concat (drop (Suc i) buckets)"
    using assms(2) by (metis append_take_drop_id Cons_nth_drop_Suc concat.simps(2) concat_append)
  have "unat (offsets ! (i + 1)) - unat (offsets ! i) = length (buckets ! i)"
    using assms by (simp add: build_offset_index_offset take_Suc_conv_app_nth)
  moreover have "unat (offsets ! i) = length (concat (take i buckets))"
    using assms by (simp add: build_offset_index_offset)
  ultimately show ?thesis
    unfolding build_offset_index_Ok(1) [OF assms(1)] by (subst split) (simp add: subrange_def)
qed

lemma build_offset_index_total:
  "length (concat buckets) < 2 ^ LENGTH('o) \<longleftrightarrow>
     (\<exists>offsets items. build_offset_index buckets = Ok (offsets :: 'o::len word list, items))"
proof
  assume "length (concat buckets) < 2 ^ LENGTH('o)"
  then show "\<exists>offsets items. build_offset_index buckets = Ok (offsets :: 'o word list, items)"
    using offset_index_loop_total [of "[]" buckets "[0]"]
    by (auto simp: build_offset_index_def index_from_usize_def from_usize_def)
next
  assume "\<exists>offsets items. build_offset_index buckets = Ok (offsets :: 'o word list, items)"
  then obtain offsets :: "'o word list" and items
    where b: "build_offset_index buckets = Ok (offsets, items)" by blast
  have "unat (offsets ! length buckets) = length (concat buckets)"
    using build_offset_index_offset [OF b, of "length buckets"] by simp
  then show "length (concat buckets) < 2 ^ LENGTH('o)"
    using unat_bound [of "offsets ! length buckets"] by simp
qed

lemma build_offset_index_wf:
  assumes b: "build_offset_index buckets = Ok (offsets, items)"
    and "length buckets + 1 \<le> usize_max" and "length (concat buckets) \<le> usize_max"
  shows "offsets_ok offsets (length buckets) (length items)"
proof -
  note len = length_build_offset_index [OF b]
  have off: "unat (offsets ! i) = length (concat (take i buckets))" if "i \<le> length buckets" for i
    using that by (rule build_offset_index_offset [OF b])
  have "fits_usize offsets"
    using assms(3) off length_concat_take_le [of _ buckets] len
    by (fastforce simp: fits_usize_def in_set_conv_nth intro: le_trans)
  moreover have "sorted (map unat offsets)"
    using len by (auto simp: sorted_iff_nth_Suc off length_concat_take_mono)
  ultimately show ?thesis
    using assms(2) len off [of 0] off [of "length buckets"] build_offset_index_Ok(1) [OF b]
    by (simp add: offsets_ok_def)
qed

section \<open>Properties\<close>

text \<open>
  The flattening keeps the buckets: the items are the buckets in order, and row \<open>i\<close> of the
  offset array delimits exactly bucket \<open>i\<close>.
\<close>

theorem build_offset_index_rows:
  assumes "build_offset_index buckets = Ok (offsets, items)" and "i < length buckets"
  shows "items = concat buckets \<and> length offsets = length buckets + 1 \<and>
    subrange items (unat (offsets ! i)) (unat (offsets ! (i + 1)) - unat (offsets ! i)) = buckets ! i"
  using build_offset_index_Ok(1) [OF assms(1)] length_build_offset_index [OF assms(1)]
    build_offset_index_bucket [OF assms] by blast

theorem build_offset_index_rows_witness:
  "subrange [10, 20, 30::nat] 0 2 = [10, 20]"
proof -
  have "build_offset_index [[10, 20], [30::nat]] = Ok ([0, 2, 3 :: u16], [10, 20, 30])"
    by (simp add: build_offset_index_def index_from_usize_def from_usize_def)
  from build_offset_index_rows [OF this, of 0] show ?thesis by simp
qed

text \<open>
  Flattening succeeds exactly when the total item count fits the offset width, and what it
  builds passes the read-time offset check with the same row and value counts.
\<close>

theorem build_offset_index_passes_check:
  assumes "length buckets + 1 \<le> usize_max" and "length (concat buckets) \<le> usize_max"
  shows "(\<exists>offsets items. build_offset_index buckets = Ok (offsets :: 'o::len word list, items) \<and>
            check_offset_section offsets (length buckets) (length items) = Ok ())
         \<longleftrightarrow> length (concat buckets) < 2 ^ LENGTH('o)"
  unfolding build_offset_index_total check_offset_section_Ok
  using build_offset_index_wf [OF _ assms, where 'a = 'o] by blast

theorem build_offset_index_passes_check_witness:
  "\<exists>offsets items. build_offset_index [[True], [], [False]] = Ok (offsets :: u16 list, items) \<and>
     check_offset_section offsets 3 (length items) = Ok ()"
  using build_offset_index_passes_check [of "[[True], [], [False]]", where 'o = 16]
  by (simp add: usize_max_def numeral_3_eq_3)

end
