(* ===== verification/Csr.thy ===== *)
theory Csr
  imports BuildIndex
begin

text \<open>
  The borrowed compressed-sparse-row view of \<open>crates/oxgraph-csr/src/lib.rs\<close>: validation of the
  two borrowed slices, and the accessors and iterators over a validated view. A slice of
  layout words is the list of the logical indices its words hold. Typestate markers carry no
  data; a checked slot is its raw index and its dense slot.
\<close>

section \<open>The view\<close>

record ('n, 'e) csr_graph =
  csr_node_count :: 'n
  csr_node_bound :: nat
  csr_offsets :: "'e list"
  csr_targets :: "'n list"

type_synonym ('n, 'e) csr_view = "('n word, 'e word) csr_graph"

record 'i slot =
  slot_raw :: 'i
  slot_index :: nat

record edge_range =
  range_start :: nat
  range_end :: nat

datatype ('n, 'e) csr_error =
    OffsetLengthOverflow 'n
  | OffsetLength nat nat \<comment> \<open>expected, actual\<close>
  | FirstOffset 'e
  | NonMonotonicOffset nat 'e 'e \<comment> \<open>index, previous, actual\<close>
  | FinalOffset 'e nat \<comment> \<open>final offset, target length\<close>
  | TargetOutOfRange nat 'n 'n \<comment> \<open>index, target, node count\<close>
  | TargetUsizeOverflow nat 'n
  | NodeUsizeOverflow 'n
  | EdgeUsizeOverflow 'e

section \<open>Validation\<close>

text \<open>The two error maps read the offending word back out of the slice.\<close>

fun map_offsets_issue ::
    "('e::len) word list \<Rightarrow> offset_integrity_issue \<Rightarrow> ('n::len word, 'e word) csr_error option" where
  "map_offsets_issue offsets (Length expected actual) = Some (OffsetLength expected actual)"
| "map_offsets_issue offsets (FirstNonZero _) = map_option FirstOffset (index_or_panic offsets 0)"
| "map_offsets_issue offsets (NonMonotonic index _ _) =
     (case index_or_panic offsets (index - 1) of
        None \<Rightarrow> None
      | Some previous \<Rightarrow>
          map_option (NonMonotonicOffset index previous) (index_or_panic offsets index))"
| "map_offsets_issue offsets (FinalMismatch _ value_len) =
     map_option (\<lambda>final_offset. FinalOffset final_offset value_len)
       (index_or_panic offsets (length offsets - 1))"
| "map_offsets_issue offsets (UsizeOverflow index) =
     map_option EdgeUsizeOverflow (index_or_panic offsets index)"
| "map_offsets_issue offsets (ValueOutOfRange _ _ _) = Some (EdgeUsizeOverflow ZERO)"
| "map_offsets_issue offsets (CountOverflow _) = Some (EdgeUsizeOverflow ZERO)"

definition map_targets_issue ::
    "('n::len) word list \<Rightarrow> 'n word \<Rightarrow> offset_integrity_issue \<Rightarrow> ('n word, 'e::len word) csr_error option" where
  "map_targets_issue targets node_count issue =
     (case issue of
        ValueOutOfRange index _ _ \<Rightarrow>
          map_option (\<lambda>target. TargetOutOfRange index target node_count) (index_or_panic targets index)
      | UsizeOverflow index \<Rightarrow>
          map_option (TargetUsizeOverflow index) (index_or_panic targets index)
      | _ \<Rightarrow> Some (TargetOutOfRange 0 ZERO node_count))"

definition csr_validate ::
    "('n::len) word \<Rightarrow> ('e::len) word list \<Rightarrow> 'n word list \<Rightarrow>
       (('n word, 'e word) csr_error, ('n, 'e) csr_view) result option" where
  "csr_validate node_count offsets targets =
     (case to_usize node_count of
        None \<Rightarrow> Some (Err (NodeUsizeOverflow node_count))
      | Some node_bound \<Rightarrow>
          if checked_add node_bound 1 = None then Some (Err (OffsetLengthOverflow node_count))
          else
            case check_offset_section offsets node_bound (length targets) of
              Inl issue \<Rightarrow> map_option Inl (map_offsets_issue offsets issue)
            | Inr _ \<Rightarrow>
                (case check_value_range targets node_bound of
                   Inl issue \<Rightarrow> map_option Inl (map_targets_issue targets node_count issue)
                 | Inr _ \<Rightarrow>
                     Some (Ok \<lparr>csr_node_count = node_count, csr_node_bound = node_bound,
                               csr_offsets = offsets, csr_targets = targets\<rparr>)))"

definition csr_from_validated_parts ::
    "('n::len) word \<Rightarrow> nat \<Rightarrow> ('e::len) word list \<Rightarrow> 'n word list \<Rightarrow> ('n, 'e) csr_view" where
  "csr_from_validated_parts node_count node_bound offsets targets =
     \<lparr>csr_node_count = node_count, csr_node_bound = node_bound,
      csr_offsets = offsets, csr_targets = targets\<rparr>"

section \<open>Slots\<close>

definition csr_check_node_slot :: "('n::len, 'e::len) csr_view \<Rightarrow> 'n word \<Rightarrow> 'n word slot option" where
  "csr_check_node_slot g raw =
     (case to_usize raw of
        None \<Rightarrow> None
      | Some s \<Rightarrow>
          if raw < csr_node_count g \<and> s < csr_node_bound g
          then Some \<lparr>slot_raw = raw, slot_index = s\<rparr> else None)"

definition csr_check_edge_slot :: "('n::len, 'e::len) csr_view \<Rightarrow> 'e word \<Rightarrow> 'e word slot option" where
  "csr_check_edge_slot g raw =
     (case to_usize raw of
        None \<Rightarrow> None
      | Some s \<Rightarrow>
          if s < length (csr_targets g) then Some \<lparr>slot_raw = raw, slot_index = s\<rparr> else None)"

definition csr_contains_node :: "('n::len, 'e::len) csr_view \<Rightarrow> 'n word \<Rightarrow> bool" where
  "csr_contains_node g node = (csr_check_node_slot g node \<noteq> None)"

definition csr_contains_edge :: "('n::len, 'e::len) csr_view \<Rightarrow> 'e word \<Rightarrow> bool" where
  "csr_contains_edge g edge = (csr_check_edge_slot g edge \<noteq> None)"

text \<open>
  \<open>checked_node_slot\<close> and \<open>checked_edge_slot\<close> panic on an invalid handle, as the slot checks
  above return \<open>None\<close> for it: the panicking accessors below bind them directly.
\<close>

definition csr_checked_node_slot :: "('n::len, 'e::len) csr_view \<Rightarrow> 'n word \<Rightarrow> 'n word slot option" where
  "csr_checked_node_slot g node = csr_check_node_slot g node"

definition csr_checked_edge_slot :: "('n::len, 'e::len) csr_view \<Rightarrow> 'e word \<Rightarrow> 'e word slot option" where
  "csr_checked_edge_slot g edge = csr_check_edge_slot g edge"

definition csr_element_count :: "('n::len, 'e::len) csr_view \<Rightarrow> nat" where
  "csr_element_count g = csr_node_bound g"

definition csr_relation_count :: "('n::len, 'e::len) csr_view \<Rightarrow> nat" where
  "csr_relation_count g = length (csr_targets g)"

definition csr_element_index :: "('n::len, 'e::len) csr_view \<Rightarrow> 'n word \<Rightarrow> nat option" where
  "csr_element_index g element = map_option slot_index (csr_checked_node_slot g element)"

definition csr_relation_index :: "('n::len, 'e::len) csr_view \<Rightarrow> 'e word \<Rightarrow> nat option" where
  "csr_relation_index g relation = map_option slot_index (csr_checked_edge_slot g relation)"

definition csr_target_node :: "('n::len, 'e::len) csr_view \<Rightarrow> 'e word slot \<Rightarrow> 'n word option" where
  "csr_target_node g edge = index_or_panic (csr_targets g) (slot_index edge)"

text \<open>\<open>try_target\<close>: the outer option is the panic, the inner one the method's own result.\<close>

definition csr_try_target :: "('n::len, 'e::len) csr_view \<Rightarrow> 'e word \<Rightarrow> 'n word option option" where
  "csr_try_target g edge =
     (case csr_check_edge_slot g edge of
        None \<Rightarrow> Some None
      | Some checked \<Rightarrow> map_option Some (csr_target_node g checked))"

definition csr_target :: "('n::len, 'e::len) csr_view \<Rightarrow> 'e word \<Rightarrow> 'n word option" where
  "csr_target g edge = Option.bind (csr_checked_edge_slot g edge) (csr_target_node g)"

section \<open>Rows\<close>

definition csr_checked_offset_slot :: "('e::len) word \<Rightarrow> nat option" where
  "csr_checked_offset_slot offset = index_to_usize_validated offset"

definition csr_outgoing_range :: "('n::len, 'e::len) csr_view \<Rightarrow> 'n word slot \<Rightarrow> edge_range option" where
  "csr_outgoing_range g node =
     Option.bind (index_or_panic (csr_offsets g) (slot_index node)) (\<lambda>first.
     Option.bind (csr_checked_offset_slot first) (\<lambda>start.
     Option.bind (index_or_panic (csr_offsets g) (slot_index node + 1)) (\<lambda>next.
     Option.bind (csr_checked_offset_slot next) (\<lambda>stop.
       Some \<lparr>range_start = start, range_end = stop\<rparr>))))"

text \<open>\<open>end - start\<close>: the subtraction overflows on a reversed range.\<close>

definition edge_range_len :: "edge_range \<Rightarrow> nat option" where
  "edge_range_len r =
     (if range_start r \<le> range_end r then Some (range_end r - range_start r) else None)"

definition csr_out_degree :: "('n::len, 'e::len) csr_view \<Rightarrow> 'n word \<Rightarrow> nat option" where
  "csr_out_degree g node =
     Option.bind (csr_checked_node_slot g node) (\<lambda>s.
     Option.bind (csr_outgoing_range g s) edge_range_len)"

definition csr_outgoing_edges :: "('n::len, 'e::len) csr_view \<Rightarrow> 'n word \<Rightarrow> edge_range option" where
  "csr_outgoing_edges g node =
     Option.bind (csr_checked_node_slot g node) (csr_outgoing_range g)"

text \<open>
  \<open>CsrOutEdges::next\<close>: the item (none at the end) and the advanced range. Rebuilding the edge
  handle from its position panics when the position does not fit the edge width.
\<close>

definition out_edges_next :: "edge_range \<Rightarrow> (('e::len) word option \<times> edge_range) option" where
  "out_edges_next r =
     (if range_start r = range_end r then Some (None, r)
      else
        case usize_to_index_validated (range_start r) of
          None \<Rightarrow> None
        | Some raw \<Rightarrow> Some (Some raw, r\<lparr>range_start := range_start r + 1\<rparr>))"

text \<open>Draining the iterator: one unit of fuel per item, which the range's length bounds.\<close>

fun out_edges_drain :: "nat \<Rightarrow> edge_range \<Rightarrow> ('e::len) word list option" where
  "out_edges_drain fuel r =
     (case out_edges_next r of
        None \<Rightarrow> None
      | Some (None, _) \<Rightarrow> Some []
      | Some (Some e, r') \<Rightarrow>
          (case fuel of 0 \<Rightarrow> None | Suc fuel' \<Rightarrow> map_option (Cons e) (out_edges_drain fuel' r')))"

declare out_edges_drain.simps [simp del]

definition csr_element_successors :: "('n::len, 'e::len) csr_view \<Rightarrow> 'n word \<Rightarrow> 'n word list option" where
  "csr_element_successors g node =
     Option.bind (csr_checked_node_slot g node) (\<lambda>s.
     Option.bind (csr_outgoing_range g s) (\<lambda>r.
       slice_or_panic (csr_targets g) (range_start r) (range_end r)))"

text \<open>The visitor of \<open>for_each_out_target\<close> threads its own state; true stops the walk.\<close>

fun visit_until :: "('s \<Rightarrow> 'a \<Rightarrow> bool \<times> 's) \<Rightarrow> 's \<Rightarrow> 'a list \<Rightarrow> bool \<times> 's" where
  "visit_until visit s [] = (False, s)"
| "visit_until visit s (x # xs) =
     (let (stop, s') = visit s x in if stop then (True, s') else visit_until visit s' xs)"

definition csr_for_each_out_target ::
    "('n::len, 'e::len) csr_view \<Rightarrow> 'n word \<Rightarrow> ('s \<Rightarrow> 'n word \<Rightarrow> bool \<times> 's) \<Rightarrow> 's \<Rightarrow> (bool \<times> 's) option" where
  "csr_for_each_out_target g source visit s =
     (case csr_check_node_slot g source of
        None \<Rightarrow> Some (False, s)
      | Some node \<Rightarrow>
          (case to_usize (slot_raw node) of
             None \<Rightarrow> Some (False, s)
           | Some index \<Rightarrow>
               (case index_or_panic (csr_offsets g) index of
                  None \<Rightarrow> None
                | Some first \<Rightarrow>
                    (case to_usize first of
                       None \<Rightarrow> Some (False, s)
                     | Some start \<Rightarrow>
                         (case index_or_panic (csr_offsets g) (index + 1) of
                            None \<Rightarrow> None
                          | Some next \<Rightarrow>
                              (case to_usize next of
                                 None \<Rightarrow> Some (False, s)
                               | Some stop \<Rightarrow>
                                   map_option (visit_until visit s)
                                     (slice_or_panic (csr_targets g) start stop)))))))"

section \<open>Well-formed views\<close>

definition csr_wf :: "('n::len, 'e::len) csr_view \<Rightarrow> bool" where
  "csr_wf g \<longleftrightarrow>
     csr_node_bound g = unat (csr_node_count g) \<and>
     offsets_ok (csr_offsets g) (csr_node_bound g) (length (csr_targets g)) \<and>
     fits_usize (csr_targets g) \<and>
     (\<forall>t \<in> set (csr_targets g). unat t < csr_node_bound g)"

text \<open>The abstract adjacency: row \<open>i\<close> of the flat target array.\<close>

definition csr_row :: "('n::len, 'e::len) csr_view \<Rightarrow> nat \<Rightarrow> 'n word list" where
  "csr_row g i =
     subrange (csr_targets g) (unat (csr_offsets g ! i))
       (unat (csr_offsets g ! (i + 1)) - unat (csr_offsets g ! i))"

lemma csr_wf_length: "csr_wf g \<Longrightarrow> length (csr_offsets g) = csr_node_bound g + 1"
  by (simp add: csr_wf_def offsets_ok_def)

lemma csr_wf_offset:
  "csr_wf g \<Longrightarrow> i \<le> csr_node_bound g \<Longrightarrow> to_usize (csr_offsets g ! i) = Some (unat (csr_offsets g ! i))"
  by (auto simp: csr_wf_def offsets_ok_def intro!: fits_usize_nth)

lemma csr_wf_mono:
  "csr_wf g \<Longrightarrow> i \<le> j \<Longrightarrow> j \<le> csr_node_bound g \<Longrightarrow> unat (csr_offsets g ! i) \<le> unat (csr_offsets g ! j)"
  by (auto simp: csr_wf_def intro: offsets_ok_mono)

lemma csr_wf_interior:
  "csr_wf g \<Longrightarrow> i \<le> csr_node_bound g \<Longrightarrow> unat (csr_offsets g ! i) \<le> length (csr_targets g)"
  by (auto simp: csr_wf_def intro: offsets_ok_interior)

lemma csr_wf_bound: "csr_wf g \<Longrightarrow> csr_node_bound g < usize_max"
  by (simp add: csr_wf_def offsets_ok_def)

lemma csr_contains_node_iff:
  assumes "csr_wf g"
  shows "csr_contains_node g node \<longleftrightarrow> unat node < csr_node_bound g"
  using assms csr_wf_bound [OF assms]
  by (auto simp: csr_contains_node_def csr_check_node_slot_def to_usize_def csr_wf_def word_less_nat_alt
      split: option.splits)

lemma csr_check_node_slot_wf:
  assumes "csr_wf g" and "unat node < csr_node_bound g"
  shows "csr_check_node_slot g node = Some \<lparr>slot_raw = node, slot_index = unat node\<rparr>"
  using assms csr_wf_bound [OF assms(1)]
  by (auto simp: csr_check_node_slot_def to_usize_def csr_wf_def word_less_nat_alt)

lemma csr_outgoing_range_wf:
  assumes "csr_wf g" and "s < csr_node_bound g"
  shows "csr_outgoing_range g \<lparr>slot_raw = node, slot_index = s\<rparr> =
    Some \<lparr>range_start = unat (csr_offsets g ! s), range_end = unat (csr_offsets g ! (s + 1))\<rparr>"
  using assms csr_wf_length [OF assms(1)] csr_wf_offset [OF assms(1), of s]
    csr_wf_offset [OF assms(1), of "Suc s"]
  by (simp add: csr_outgoing_range_def csr_checked_offset_slot_def index_to_usize_validated_def)

lemmas csr_node_access = csr_checked_node_slot_def csr_check_node_slot_wf csr_outgoing_range_wf

lemma csr_element_successors_row:
  assumes "csr_wf g" and "unat node < csr_node_bound g"
  shows "csr_element_successors g node = Some (csr_row g (unat node))"
  using assms csr_wf_mono [OF assms(1), of "unat node" "unat node + 1"]
    csr_wf_interior [OF assms(1), of "unat node + 1"]
  by (simp add: csr_element_successors_def csr_node_access csr_row_def subrange_def)

lemma csr_out_degree_row:
  assumes "csr_wf g" and "unat node < csr_node_bound g"
  shows "csr_out_degree g node = Some (length (csr_row g (unat node)))"
  using assms csr_wf_mono [OF assms(1), of "unat node" "unat node + 1"]
    csr_wf_interior [OF assms(1), of "unat node + 1"]
  by (simp add: csr_out_degree_def csr_node_access csr_row_def edge_range_len_def)

lemma csr_for_each_out_target_row:
  assumes wf: "csr_wf g" and node: "unat source < csr_node_bound g"
  shows "csr_for_each_out_target g source visit s = Some (visit_until visit s (csr_row g (unat source)))"
proof -
  have "to_usize source = Some (unat source)"
    using node csr_wf_bound [OF wf] by (simp add: to_usize_def)
  with wf node show ?thesis
    using csr_wf_offset [OF wf, of "unat source"] csr_wf_offset [OF wf, of "Suc (unat source)"]
      csr_wf_length [OF wf] csr_wf_mono [OF wf, of "unat source" "Suc (unat source)"]
      csr_wf_interior [OF wf, of "Suc (unat source)"]
    by (simp add: csr_for_each_out_target_def csr_check_node_slot_wf csr_row_def subrange_def)
qed

lemma csr_row_targets: "t \<in> set (csr_row g i) \<Longrightarrow> t \<in> set (csr_targets g)"
  by (auto simp: csr_row_def subrange_def dest: in_set_takeD in_set_dropD)

lemma out_edges_drain_range:
  assumes "start + n < 2 ^ LENGTH('e) \<or> n = 0"
  shows "out_edges_drain n \<lparr>range_start = start, range_end = start + n\<rparr> =
    Some (map word_of_nat [start..<start + n] :: 'e::len word list)"
  using assms
proof (induction n arbitrary: start)
  case 0
  then show ?case by (simp add: out_edges_drain.simps out_edges_next_def)
next
  case (Suc n)
  then have "out_edges_drain n \<lparr>range_start = Suc start, range_end = Suc start + n\<rparr> =
    Some (map word_of_nat [Suc start..<Suc start + n] :: 'e word list)"
    by (intro Suc.IH) auto
  with Suc.prems show ?case
    by (simp add: out_edges_drain.simps [of "Suc n"] out_edges_next_def usize_to_index_validated_def
        from_usize_def upt_rec)
qed

text \<open>The rows, in node order, make up the flat target array.\<close>

lemma csr_rows_take:
  assumes "csr_wf g" and "k \<le> csr_node_bound g"
  shows "concat (map (csr_row g) [0..<k]) = take (unat (csr_offsets g ! k)) (csr_targets g)"
  using assms(2)
proof (induction k)
  case 0
  from assms(1) show ?case by (simp add: csr_wf_def offsets_ok_def)
next
  case (Suc k)
  have "unat (csr_offsets g ! k) \<le> unat (csr_offsets g ! Suc k)"
    using csr_wf_mono [OF assms(1)] Suc.prems by simp
  then show ?case using Suc by (simp add: csr_row_def subrange_def flip: take_add)
qed

section \<open>Validation accepts exactly the well-formed inputs\<close>

lemma monotonic_issue_in_range:
  assumes "check_offsets_monotonic ws = Err issue"
  shows "(case issue of FirstNonZero _ \<Rightarrow> ws \<noteq> [] | NonMonotonic i _ _ \<Rightarrow> i < length ws
     | UsizeOverflow i \<Rightarrow> i < length ws | _ \<Rightarrow> False)"
proof -
  from assms obtain w ws' where ws: "ws = w # ws'"
    by (cases ws) (auto simp: check_offsets_monotonic_def)
  show ?thesis
  proof (cases "to_usize w = Some 0")
    case True
    then have "monotonic_loop (Suc 0) 0 ws' = Err issue"
      using assms ws by (simp add: check_offsets_monotonic_def)
    from monotonic_loop_Suc_Err [OF this] show ?thesis
      using ws by (cases issue) auto
  next
    case False
    then have "issue = UsizeOverflow 0 \<or> issue = FirstNonZero (unat w)"
      using assms ws by (auto simp: check_offsets_monotonic_def to_usize_def split: if_splits)
    then show ?thesis using ws by auto
  qed
qed

lemma map_offsets_issue_in_range:
  assumes "check_offset_section ws n m = Err issue"
  shows "map_offsets_issue ws issue \<noteq> None"
proof (cases "checked_add n 1 = None \<or> length ws \<noteq> n + 1")
  case True
  with assms show ?thesis
    by (auto simp: check_offset_section_def split: if_splits option.splits)
next
  case False
  then have len: "length ws = n + 1" and add: "checked_add n 1 = Some (n + 1)"
    by auto
  show ?thesis
  proof (cases "check_offsets_monotonic ws")
    case (Inl issue')
    with assms len add have "issue' = issue" by (simp add: check_offset_section_def checked_add_def)
    with monotonic_issue_in_range [OF Inl] show ?thesis
      by (auto simp: index_or_panic_def split: offset_integrity_issue.splits)
  next
    case (Inr u)
    with assms len add show ?thesis
      by (auto simp: check_offset_section_def checked_add_def Let_def index_or_panic_def
          split: option.splits if_splits)
  qed
qed

lemma value_range_loop_Err:
  "value_range_loop bound index ws = Err issue \<Longrightarrow>
     \<exists>k < length ws. (\<forall>j < k. unat (ws ! j) < bound) \<and>
       (issue = ValueOutOfRange (index + k) (unat (ws ! k)) bound \<and> bound \<le> unat (ws ! k) \<or>
        issue = UsizeOverflow (index + k) \<and> usize_max < unat (ws ! k))"
proof (induction ws arbitrary: index)
  case Nil
  then show ?case by simp
next
  case (Cons w ws)
  consider (over) "usize_max < unat w" "issue = UsizeOverflow index"
    | (out) "bound \<le> unat w" "issue = ValueOutOfRange index (unat w) bound"
    | (rest) "unat w < bound" "value_range_loop bound (Suc index) ws = Err issue"
    using Cons.prems by (auto simp: to_usize_def split: if_splits)
  then show ?case
  proof cases
    case rest
    from Cons.IH [OF rest(2)] obtain k where "k < length ws" "\<forall>j < k. unat (ws ! j) < bound"
      "issue = ValueOutOfRange (Suc index + k) (unat (ws ! k)) bound \<and> bound \<le> unat (ws ! k) \<or>
       issue = UsizeOverflow (Suc index + k) \<and> usize_max < unat (ws ! k)" by blast
    then show ?thesis using rest(1)
      by (intro exI [of _ "Suc k"]) (auto simp: nth_Cons split: nat.splits)
  qed (auto intro!: exI [of _ 0])
qed

lemma map_targets_issue_in_range:
  "check_value_range ws n = Err issue \<Longrightarrow> map_targets_issue ws count issue \<noteq> None"
  by (auto simp: check_value_range_def map_targets_issue_def index_or_panic_def
      dest!: value_range_loop_Err)

lemma csr_validate_Ok_iff:
  "csr_validate node_count offsets targets = Some (Ok g) \<longleftrightarrow>
     g = csr_from_validated_parts node_count (unat node_count) offsets targets \<and> csr_wf g"
proof (cases "to_usize node_count")
  case None
  then show ?thesis
    by (auto simp: csr_validate_def csr_from_validated_parts_def csr_wf_def offsets_ok_def to_usize_def
        split: if_splits)
next
  case (Some b)
  then have b: "b = unat node_count" by (simp add: to_usize_Some_iff)
  note fits = csr_wf_def csr_from_validated_parts_def
  show ?thesis
  proof (cases "checked_add b 1 = None")
    case True
    with Some b show ?thesis by (auto simp: csr_validate_def fits offsets_ok_def)
  next
    case add: False
    show ?thesis
    proof (cases "check_offset_section offsets b (length targets)")
      case (Inl issue)
      then have "\<not> offsets_ok offsets b (length targets)"
        by (metis Inl_Inr_False check_offset_section_Ok)
      with Inl add Some b show ?thesis by (auto simp: csr_validate_def fits)
    next
      case (Inr u)
      then have ok: "offsets_ok offsets b (length targets)" by (simp flip: check_offset_section_Ok)
      show ?thesis
      proof (cases "check_value_range targets b")
        case Inl': (Inl issue)
        then have "\<not> (fits_usize targets \<and> (\<forall>w \<in> set targets. unat w < b))"
          by (metis Inl_Inr_False check_value_range_Ok)
        with Inl' Inr add Some b show ?thesis by (auto simp: csr_validate_def fits)
      next
        case Inr': (Inr v)
        then have "fits_usize targets \<and> (\<forall>w \<in> set targets. unat w < b)"
          by (simp flip: check_value_range_Ok)
        with Inr' Inr add Some b ok show ?thesis by (auto simp: csr_validate_def fits)
      qed
    qed
  qed
qed

lemma csr_validate_OkD:
  assumes "csr_validate node_count offsets targets = Some (Ok g)"
  shows "csr_wf g" and "g = csr_from_validated_parts node_count (unat node_count) offsets targets"
  using assms csr_validate_Ok_iff by blast+

lemma csr_validate_no_panic: "csr_validate node_count offsets targets \<noteq> None"
  using map_offsets_issue_in_range map_targets_issue_in_range
  by (fastforce simp: csr_validate_def split: option.splits sum.splits)

section \<open>Properties\<close>

text \<open>
  C2: validation never panics, and returns a view exactly when the borrowed slices form a
  compressed-sparse-row graph over \<open>node_count\<close> nodes; the view then holds them unchanged.
\<close>

theorem csr_validate_decides:
  "csr_validate node_count offsets targets \<noteq> None \<and>
   (csr_validate node_count offsets targets = Some (Ok g) \<longleftrightarrow>
      g = csr_from_validated_parts node_count (unat node_count) offsets targets \<and>
      offsets_ok offsets (unat node_count) (length targets) \<and>
      (\<forall>t \<in> set targets. unat t < unat node_count))"
proof -
  have "csr_wf (csr_from_validated_parts node_count (unat node_count) offsets targets) \<longleftrightarrow>
      offsets_ok offsets (unat node_count) (length targets) \<and>
      (\<forall>t \<in> set targets. unat t < unat node_count)"
    by (auto simp: csr_wf_def csr_from_validated_parts_def offsets_ok_def fits_usize_def)
  then show ?thesis using csr_validate_no_panic [of node_count offsets targets]
    csr_validate_Ok_iff [of node_count offsets targets g] by metis
qed

text \<open>
  on a validated view no accessor of a contained node panics, and they agree: the successors
  are the targets of the outgoing edge handles, their number is the out-degree, each edge handle
  and each successor is itself contained in the view.
\<close>

theorem csr_traversal_agrees:
  assumes "csr_validate node_count offsets targets = Some (Ok g)" and "csr_contains_node g node"
  shows "\<exists>succs r edges. csr_element_successors g node = Some succs \<and>
    csr_outgoing_edges g node = Some r \<and> out_edges_drain (length succs) r = Some edges \<and>
    csr_out_degree g node = Some (length succs) \<and>
    map (csr_target g) edges = map Some succs \<and>
    (\<forall>e \<in> set edges. csr_contains_edge g e) \<and> (\<forall>t \<in> set succs. csr_contains_node g t)"
proof -
  from assms(1) have wf: "csr_wf g" by (rule csr_validate_OkD)
  with assms(2) have node: "unat node < csr_node_bound g" by (simp add: csr_contains_node_iff)
  let ?a = "unat (csr_offsets g ! unat node)" and ?b = "unat (csr_offsets g ! (unat node + 1))"
  let ?succs = "csr_row g (unat node)" and ?edges = "map word_of_nat [?a..<?b] :: 'b word list"
  have ab: "?a \<le> ?b" and b: "?b \<le> length (csr_targets g)"
    using csr_wf_mono [OF wf, of "unat node" "unat node + 1"] csr_wf_interior [OF wf, of "unat node + 1"] node
    by auto
  then have len: "length ?succs = ?b - ?a" by (simp add: csr_row_def)
  have fit: "?b < 2 ^ LENGTH('b)" by (rule unat_bound)
  have small: "length (csr_targets g) \<le> usize_max"
    using wf by (auto simp: csr_wf_def dest: offsets_ok_value_fits)
  have "out_edges_drain (length ?succs) \<lparr>range_start = ?a, range_end = ?b\<rparr> = Some ?edges"
    using out_edges_drain_range [of ?a "?b - ?a", where 'e = 'b] ab fit by (simp add: len)
  moreover have slot: "csr_check_edge_slot g (word_of_nat k) =
      Some \<lparr>slot_raw = word_of_nat k, slot_index = k\<rparr>" if "k < ?b" for k
  proof -
    from that fit have "unat (word_of_nat k :: 'b word) = k" by (intro unat_word_of_nat) linarith
    with that b small show ?thesis by (simp add: csr_check_edge_slot_def to_usize_def)
  qed
  moreover have "map (csr_target g) ?edges = map Some ?succs"
  proof (rule nth_equalityI)
    fix k assume "k < length (map (csr_target g) ?edges)"
    then have k: "?a + k < ?b" by simp
    with b slot [of "?a + k"] show "map (csr_target g) ?edges ! k = map Some ?succs ! k"
      by (simp add: csr_target_def csr_checked_edge_slot_def csr_target_node_def csr_row_def nth_subrange len
          index_or_panic_def)
  qed (simp add: len)
  moreover have "\<forall>t \<in> set ?succs. csr_contains_node g t"
    using wf by (auto simp: csr_contains_node_iff csr_wf_def dest: csr_row_targets)
  ultimately show ?thesis
    using csr_element_successors_row [OF wf node] csr_out_degree_row [OF wf node]
    by (auto simp: csr_outgoing_edges_def csr_node_access wf node csr_contains_edge_def)
qed

text \<open>
  The rows of a validated view partition its edges: listing the successors of every node in
  node order gives the flat target array back.
\<close>

theorem csr_rows_partition:
  assumes "csr_validate node_count offsets targets = Some (Ok g)"
  shows "\<exists>rows. map (csr_element_successors g) (map word_of_nat [0..<unat node_count]) = map Some rows \<and>
    concat rows = targets"
proof (intro exI conjI)
  from assms have wf: "csr_wf g" and g: "g = csr_from_validated_parts node_count (unat node_count) offsets targets"
    by (fact csr_validate_OkD)+
  then have bound: "csr_node_bound g = unat node_count" and tgt: "csr_targets g = targets"
    by (auto simp: csr_from_validated_parts_def)
  have "csr_element_successors g (word_of_nat i) = Some (csr_row g i)" if "i < unat node_count" for i
    using csr_element_successors_row [OF wf, of "word_of_nat i"] that bound unat_bound [of node_count]
    by (simp add: unat_word_of_nat)
  then show "map (csr_element_successors g) (map word_of_nat [0..<unat node_count]) =
      map Some (map (csr_row g) [0..<unat node_count])"
    by simp
  have "unat (csr_offsets g ! csr_node_bound g) = length (csr_targets g)"
    using wf unfolding csr_wf_def offsets_ok_def by blast
  then have "unat (csr_offsets g ! unat node_count) = length targets"
    by (simp only: bound tgt)
  then show "concat (map (csr_row g) [0..<unat node_count]) = targets"
    using csr_rows_take [OF wf, of "unat node_count"] bound tgt by simp
qed

text \<open>
  The adapter-free walk visits the successors in order and stops where the visitor says
  stop; a handle that is not in the view is not visited, and nothing panics.
\<close>

theorem csr_for_each_out_target_visits:
  assumes "csr_validate node_count offsets targets = Some (Ok g)"
  shows "csr_for_each_out_target g source visit s =
    (case csr_element_successors g source of
       Some succs \<Rightarrow> Some (visit_until visit s succs)
     | None \<Rightarrow> Some (False, s))"
proof (cases "csr_contains_node g source")
  case True
  from assms have wf: "csr_wf g" by (rule csr_validate_OkD)
  with True have "unat source < csr_node_bound g" by (simp add: csr_contains_node_iff)
  then show ?thesis
    by (simp add: csr_for_each_out_target_row [OF wf] csr_element_successors_row [OF wf])
next
  case False
  then show ?thesis
    by (simp add: csr_for_each_out_target_def csr_contains_node_def csr_element_successors_def
        csr_checked_node_slot_def)
qed

text \<open>A two-node graph with edges \<open>0 \<rightarrow> 1\<close> and \<open>1 \<rightarrow> 0\<close>, \<open>1 \<rightarrow> 1\<close>, used by the witnesses.\<close>

definition example_view :: "(16, 16) csr_view" where
  "example_view = csr_from_validated_parts 2 2 [0, 1, 3] [1, 0, 1]"

lemma example_view_validates: "csr_validate 2 [0, 1, 3] [1, 0, 1] = Some (Ok example_view)"
  by (simp add: example_view_def csr_validate_def csr_from_validated_parts_def to_usize_def usize_max_def
      checked_add_def check_offset_section_def check_offsets_monotonic_def check_value_range_def Let_def)

lemma example_view_contains: "csr_contains_node example_view 1"
  by (simp add: csr_contains_node_def csr_check_node_slot_def example_view_def csr_from_validated_parts_def
      to_usize_def usize_max_def)

lemma example_view_successors: "csr_element_successors example_view 1 = Some [0, 1]"
  by (simp add: csr_element_successors_def csr_checked_node_slot_def csr_check_node_slot_def
      example_view_def csr_from_validated_parts_def csr_outgoing_range_def csr_checked_offset_slot_def
      index_to_usize_validated_def to_usize_def usize_max_def index_or_panic_def slice_or_panic_def)

theorem csr_validate_decides_witness:
  "csr_validate 2 [0, 1, 3 :: u16] [1, 0, 1 :: u16] = Some (Ok (csr_from_validated_parts 2 2 [0, 1, 3] [1, 0, 1]))"
  using csr_validate_decides [of "2 :: u16" "[0, 1, 3 :: u16]" "[1, 0, 1]" example_view]
  by (simp add: example_view_def csr_from_validated_parts_def offsets_ok_def fits_usize_def usize_max_def
      less_2_cases_iff sorted_iff_nth_Suc)

theorem csr_traversal_agrees_witness:
  "csr_out_degree example_view 1 = Some 2"
  using csr_traversal_agrees [OF example_view_validates example_view_contains]
  by (auto simp: example_view_successors)

theorem csr_rows_partition_witness:
  "\<exists>rows. map (csr_element_successors example_view) [0, 1] = map Some rows \<and> concat rows = [1, 0, 1]"
  using csr_rows_partition [OF example_view_validates] by (simp add: upt_rec)

theorem csr_for_each_out_target_visits_witness:
  "csr_for_each_out_target example_view 1 (\<lambda>s t. (t = 0, s + 1)) (0::nat) = Some (True, 1)"
  using csr_for_each_out_target_visits [OF example_view_validates, of 1 "\<lambda>s t. (t = 0, s + 1)" "0::nat"]
  by (simp add: example_view_successors)

end
