(* ===== verification/Crc.thy ===== *)
theory Crc
  imports Layout
begin

text \<open>
  The CRC-32C (Castagnoli) fold of \<open>crates/oxgraph-layout-util/src/lib.rs\<close>: the table built at
  compile time, the table-driven continuation fold, and the reference it implements, which
  feeds every byte bit by bit. The interface \<open>checksum\<close> states what the snapshot container
  demands of an injected \<open>Checksum32\<close>.
\<close>

section \<open>The code\<close>

text \<open>One step of the inner loop: shift, and subtract the polynomial when a one falls out.\<close>

definition crc_bit_step :: "u32 \<Rightarrow> u32" where
  "crc_bit_step crc =
     (let mask = - (crc AND 1) in drop_bit 1 crc XOR (0x82F63B78 AND mask))"

text \<open>The inner \<open>while bit < 8\<close> loop, entered with \<open>n\<close> rounds left.\<close>

fun crc_bit_loop :: "nat \<Rightarrow> u32 \<Rightarrow> u32" where
  "crc_bit_loop 0 crc = crc"
| "crc_bit_loop (Suc n) crc = crc_bit_loop n (crc_bit_step crc)"

text \<open>The outer loop: \<open>index\<close> and \<open>seed\<close> advance together, one table slot per round.\<close>

definition build_crc32c_table :: "u32 list" where
  "build_crc32c_table = map (\<lambda>index. crc_bit_loop 8 (word_of_nat index)) [0..<256]"

definition crc32c_byte :: "u32 \<Rightarrow> byte \<Rightarrow> u32" where
  "crc32c_byte state b =
     drop_bit 8 state XOR build_crc32c_table ! unat ((ucast state :: byte) XOR b)"

definition crc32c_append :: "u32 \<Rightarrow> byte list \<Rightarrow> u32" where
  "crc32c_append crc bytes = NOT (foldl crc32c_byte (NOT crc) bytes)"

section \<open>The bit-serial reference\<close>

definition crc_byte_bits :: "u32 \<Rightarrow> byte \<Rightarrow> u32" where
  "crc_byte_bits state b = crc_bit_loop 8 (state XOR ucast b)"

definition crc_bits :: "u32 \<Rightarrow> byte list \<Rightarrow> u32" where
  "crc_bits crc bytes = NOT (foldl crc_byte_bits (NOT crc) bytes)"

section \<open>The bit step is linear and injective\<close>

lemma crc_bit_step_alt:
  "crc_bit_step x = drop_bit 1 x XOR (if bit x 0 then 0x82F63B78 else 0)"
proof -
  have "x AND 1 = (if bit x 0 then 1 else 0)"
    by (simp add: and_one_eq bit_0 odd_iff_mod_2_eq_one)
  then show ?thesis by (simp add: crc_bit_step_def)
qed

lemma crc_bit_step_xor: "crc_bit_step (x XOR y) = crc_bit_step x XOR crc_bit_step y"
  by (auto simp: crc_bit_step_alt bit_xor_iff drop_bit_xor xor.assoc xor.left_commute xor.commute)

lemma crc_bit_step_even: "\<not> bit x 0 \<Longrightarrow> crc_bit_step x = drop_bit 1 x"
  by (simp add: crc_bit_step_alt)

lemma crc_bit_loop_xor: "crc_bit_loop n (x XOR y) = crc_bit_loop n x XOR crc_bit_loop n y"
  by (induction n arbitrary: x y) (simp_all add: crc_bit_step_xor)

text \<open>Low zero bits only shift out.\<close>

lemma crc_bit_loop_shift:
  "(\<And>i. i < n \<Longrightarrow> \<not> bit x i) \<Longrightarrow> crc_bit_loop n x = drop_bit n x"
proof (induction n arbitrary: x)
  case 0
  then show ?case by simp
next
  case (Suc n)
  have "crc_bit_step x = drop_bit 1 x" using Suc.prems by (simp add: crc_bit_step_even)
  moreover have "crc_bit_loop n (drop_bit 1 x) = drop_bit n (drop_bit 1 x)"
    using Suc.prems by (intro Suc.IH) (simp add: bit_drop_bit_eq)
  ultimately show ?case by simp
qed

text \<open>The polynomial's top bit records the bit that fell out, so a step can be undone.\<close>

lemma xor_cancel_right: "(a :: 'a::len word) XOR c = b XOR c \<longleftrightarrow> a = b"
  by (metis xor.assoc xor.right_neutral xor_self_eq)

lemma crc_bit_step_inj: "crc_bit_step x = crc_bit_step y \<Longrightarrow> x = y"
proof -
  assume eq: "crc_bit_step x = crc_bit_step y"
  have top: "bit (crc_bit_step z) 31 = bit z 0" for z
    by (simp add: crc_bit_step_alt bit_xor_iff bit_drop_bit_eq bit_word_iff_drop_bit_and)
  have low: "bit x 0 = bit y 0" using eq top by metis
  then have "drop_bit 1 x = drop_bit 1 y"
    using eq by (auto simp: crc_bit_step_alt xor_cancel_right split: if_splits)
  show "x = y"
  proof (rule bit_word_eqI)
    fix i assume "i < LENGTH(32)"
    show "bit x i = bit y i"
    proof (cases i)
      case 0
      with low show ?thesis by simp
    next
      case (Suc j)
      from \<open>drop_bit 1 x = drop_bit 1 y\<close> have "bit (drop_bit 1 x) j = bit (drop_bit 1 y) j" by simp
      with Suc show ?thesis by (simp add: bit_drop_bit_eq)
    qed
  qed
qed

lemma crc_bit_loop_inj: "crc_bit_loop n x = crc_bit_loop n y \<Longrightarrow> x = y"
  by (induction n arbitrary: x y) (auto dest: crc_bit_step_inj)

section \<open>The table-driven fold computes the reference\<close>

lemma build_crc32c_table_nth:
  "i < 256 \<Longrightarrow> build_crc32c_table ! i = crc_bit_loop 8 (word_of_nat i)"
  by (simp add: build_crc32c_table_def)

lemma length_build_crc32c_table: "length build_crc32c_table = 256"
  by (simp add: build_crc32c_table_def)

lemma crc32c_byte_eq: "crc32c_byte state b = crc_byte_bits state b"
proof -
  let ?low = "(ucast state :: byte) XOR b"
  let ?hi = "state XOR ucast (ucast state :: byte)"
  have "unat ?low < 256" by simp
  then have "build_crc32c_table ! unat ?low = crc_bit_loop 8 (ucast ?low)"
    by (simp add: build_crc32c_table_nth unsigned_ucast_eq)
  moreover have "state XOR ucast b = ?hi XOR ucast ?low"
    by (rule bit_word_eqI) (auto simp: bit_simps)
  moreover have "crc_bit_loop 8 ?hi = drop_bit 8 ?hi"
    by (rule crc_bit_loop_shift) (simp add: bit_simps)
  moreover have "drop_bit 8 ?hi = drop_bit 8 state"
    by (rule bit_word_eqI) (auto simp: bit_simps)
  ultimately show ?thesis
    by (simp add: crc32c_byte_def crc_byte_bits_def crc_bit_loop_xor)
qed


theorem crc32c_append_eq_bits: "crc32c_append crc bytes = crc_bits crc bytes"
  by (simp add: crc32c_append_def crc_bits_def crc32c_byte_eq [abs_def])

lemma crc32c_byte_inj_state: "crc32c_byte s b = crc32c_byte t b \<Longrightarrow> s = t"
  by (auto simp: crc32c_byte_eq crc_byte_bits_def xor_cancel_right dest: crc_bit_loop_inj)

lemma crc32c_byte_inj_byte: "crc32c_byte s a = crc32c_byte s b \<Longrightarrow> a = b"
proof -
  assume "crc32c_byte s a = crc32c_byte s b"
  then have "ucast a XOR s = (ucast b XOR s :: u32)"
    by (auto simp: crc32c_byte_eq crc_byte_bits_def xor.commute dest: crc_bit_loop_inj)
  then have "(ucast a :: u32) = ucast b" by (simp add: xor_cancel_right)
  then have "(ucast (ucast a :: u32) :: byte) = ucast (ucast b :: u32)" by simp
  moreover have "(ucast (ucast x :: u32) :: byte) = x" for x
    by (rule bit_word_eqI) (simp add: bit_simps)
  ultimately show "a = b" by simp
qed

lemma crc32c_fold_inj: "foldl crc32c_byte s bs = foldl crc32c_byte t bs \<Longrightarrow> s = t"
  by (induction bs arbitrary: s t) (auto dest: crc32c_byte_inj_state)

section \<open>The contract of an injected checksum\<close>

text \<open>
  \<open>Checksum32\<close> of \<open>crates/oxgraph-snapshot/src/container.rs\<close>: a continuation-style fold, for which
  folding the empty run from seed zero gives zero.
\<close>

locale checksum32 =
  fixes checksum :: "u32 \<Rightarrow> byte list \<Rightarrow> u32"
  assumes continuation: "checksum (checksum 0 a) b = checksum 0 (a @ b)"
    and empty_run: "checksum 0 [] = 0"
begin

text \<open>A section's checksum may be folded in any number of writes.\<close>

lemma fold_chunks: "foldl checksum 0 chunks = checksum 0 (concat chunks)"
proof (induction chunks rule: rev_induct)
  case Nil
  then show ?case by (simp add: empty_run)
next
  case (snoc c cs)
  then show ?case by (simp add: continuation)
qed

end

lemma crc32c_append_continues:
  "crc32c_append (crc32c_append crc a) b = crc32c_append crc (a @ b)"
  by (simp add: crc32c_append_def)

lemma crc32c_append_Nil [simp]: "crc32c_append crc [] = crc"
  by (simp add: crc32c_append_def)

interpretation crc32c: checksum32 crc32c_append
  by unfold_locales (simp_all add: crc32c_append_continues)

lemma crc32c_single_byte:
  assumes "a \<noteq> b"
  shows "crc32c_append crc (pre @ a # post) \<noteq> crc32c_append crc (pre @ b # post)"
proof
  assume "crc32c_append crc (pre @ a # post) = crc32c_append crc (pre @ b # post)"
  then have "NOT (NOT (foldl crc32c_byte (crc32c_byte (foldl crc32c_byte (NOT crc) pre) a) post))
           = NOT (NOT (foldl crc32c_byte (crc32c_byte (foldl crc32c_byte (NOT crc) pre) b) post))"
    by (simp add: crc32c_append_def)
  then have "crc32c_byte (foldl crc32c_byte (NOT crc) pre) a
           = crc32c_byte (foldl crc32c_byte (NOT crc) pre) b"
    by (auto dest: crc32c_fold_inj)
  with assms show False by (auto dest: crc32c_byte_inj_byte)
qed

section \<open>Properties\<close>

text \<open>
  C1: the table-driven fold computes the bit-serial reflected CRC-32C of the bytes, from any
  seed.
\<close>

theorem crc32c_table_driven: "crc32c_append crc bytes = crc_bits crc bytes"
  by (rule crc32c_append_eq_bits)

text \<open>
  A corruption confined to one byte of a run is detected: it changes the run's checksum,
  wherever the byte stands and whatever the seed.
\<close>

theorem crc32c_detects_byte_error:
  assumes "a \<noteq> b"
  shows "crc32c_append crc (pre @ a # post) \<noteq> crc32c_append crc (pre @ b # post)"
  using assms by (rule crc32c_single_byte)

theorem crc32c_detects_byte_error_witness:
  "crc32c_append 0 ([1] @ 2 # [3]) \<noteq> crc32c_append 0 ([1] @ 7 # [3])"
  by (rule crc32c_detects_byte_error) simp

text \<open>The check vector of \<open>CRC32C_CHECK_INPUT\<close> and \<open>CRC32C_CHECK_VALUE\<close>.\<close>

definition CRC32C_CHECK_INPUT :: "byte list" where
  "CRC32C_CHECK_INPUT = [0x31, 0x32, 0x33, 0x34, 0x35, 0x36, 0x37, 0x38, 0x39]"

definition CRC32C_CHECK_VALUE :: u32 where
  "CRC32C_CHECK_VALUE = 0xE3069283"

lemma crc32c_check_vector: "crc32c_append 0 CRC32C_CHECK_INPUT = CRC32C_CHECK_VALUE"
  unfolding crc32c_append_eq_bits by code_simp

end
