(* ===== verification/SnapshotFormat.thy ===== *)
theory SnapshotFormat
  imports Layout Crc
begin

text \<open>
  The byte format of the snapshot container: the constants, the kind bands, the fixed header and
  the section-table entry of \<open>crates/oxgraph-snapshot/src/container.rs\<close>, and the errors of
  \<open>container_error.rs\<close>. A \<open>repr(C)\<close> struct of unaligned little-endian fields is a record together
  with its encoding as 32 bytes; borrowing the struct from bytes is decoding it.
\<close>

section \<open>Errors\<close>

datatype snapshot_error =
    TruncatedHeader nat nat \<comment> \<open>needed, actual\<close>
  | MalformedHeader
  | BadMagic "byte list"
  | FormatMajorMismatch u32 u32 \<comment> \<open>actual, supported\<close>
  | FormatMinorTooNew u32 u32 \<comment> \<open>actual, maximum supported\<close>
  | HeaderSizeMismatch u32 u32 \<comment> \<open>actual, expected\<close>
  | NonZeroHeaderReserved
  | SectionCountTooLarge u32 u32 \<comment> \<open>count, maximum\<close>
  | TruncatedSectionTable nat nat \<comment> \<open>needed, actual\<close>
  | MalformedSectionTable
  | NonZeroEntryReserved u32
  | UnsupportedFlags u32 u8
  | AlignmentLog2TooLarge u32 u8
  | SectionRangeOverflow u32
  | SectionOutOfBounds u32 u64 u64 u64 \<comment> \<open>kind, offset, length, snapshot length\<close>
  | UnsortedSectionTable nat
  | NonAscendingKind u32 u32 \<comment> \<open>kind, preceding kind\<close>
  | TableChecksumMismatch u32 u32 \<comment> \<open>expected, actual\<close>
  | SectionChecksumMismatch u32 u32 u32 \<comment> \<open>kind, expected, actual\<close>
  | SectionMissing u32
  | SnapshotUsizeOverflow u64

datatype section_view_error =
    ZeroSizedType
  | LengthNotMultipleOfSize nat nat \<comment> \<open>length, element size\<close>
  | AlignmentMismatch nat nat \<comment> \<open>address, required alignment\<close>
  | ChecksumMismatch u32 u32 u32 \<comment> \<open>kind, expected, actual\<close>

datatype section_bind_error =
    Missing u32
  | VersionMismatch u32 u32 u32 \<comment> \<open>kind, expected, actual\<close>
  | View u32 section_view_error

datatype plan_error =
    BufferTooSmall nat nat \<comment> \<open>needed, actual\<close>
  | AlignmentTooLarge u8
  | PayloadOverflow
  | TooManySections nat
  | NonAscendingPlanKind u32 u32 \<comment> \<open>kind, preceding kind\<close>

section \<open>Constants\<close>

text \<open>The ASCII bytes of \<open>OXGTOPO\<close> and a zero byte.\<close>

definition FORMAT_MAGIC :: "byte list" where
  "FORMAT_MAGIC = [0x4F, 0x58, 0x47, 0x54, 0x4F, 0x50, 0x4F, 0]"

definition FORMAT_MAJOR :: u32 where "FORMAT_MAJOR = 1"

definition FORMAT_MINOR :: u32 where "FORMAT_MINOR = 0"

definition MAX_SUPPORTED_MINOR :: u32 where "MAX_SUPPORTED_MINOR = 0"

definition HEADER_SIZE :: nat where "HEADER_SIZE = 32"

definition SECTION_ENTRY_SIZE :: nat where "SECTION_ENTRY_SIZE = 32"

definition MAX_ALIGNMENT_LOG2 :: u8 where "MAX_ALIGNMENT_LOG2 = 12"

definition MAX_SECTION_COUNT :: u32 where "MAX_SECTION_COUNT = 1024"

definition HEADER_SIZE_U32 :: u32 where "HEADER_SIZE_U32 = 32"

text \<open>The kind namespace: half-open bands, one per subsystem.\<close>

record kind_band =
  band_start :: u32
  band_end :: u32

definition CSR_BAND :: kind_band where "CSR_BAND = \<lparr>band_start = 0x0001, band_end = 0x0020\<rparr>"

definition BCSR_BAND :: kind_band where "BCSR_BAND = \<lparr>band_start = 0x0020, band_end = 0x0100\<rparr>"

definition PROPERTY_BAND :: kind_band where "PROPERTY_BAND = \<lparr>band_start = 0x0100, band_end = 0x0200\<rparr>"

definition POSTGRES_BAND :: kind_band where "POSTGRES_BAND = \<lparr>band_start = 0x0200, band_end = 0x0300\<rparr>"

definition DATABASE_BAND :: kind_band where "DATABASE_BAND = \<lparr>band_start = 0x0300, band_end = 0x0400\<rparr>"

definition CUSTOM_BASE :: u32 where "CUSTOM_BASE = 0x0400"

definition in_band :: "u32 \<Rightarrow> kind_band \<Rightarrow> bool" where
  "in_band kind band = (kind \<ge> band_start band \<and> kind < band_end band)"

lemma in_band_disjoint:
  "b < c \<Longrightarrow> b \<in> {0..4} \<Longrightarrow> c \<in> {0..4::nat} \<Longrightarrow>
     \<not> (in_band kind ([CSR_BAND, BCSR_BAND, PROPERTY_BAND, POSTGRES_BAND, DATABASE_BAND] ! b) \<and>
        in_band kind ([CSR_BAND, BCSR_BAND, PROPERTY_BAND, POSTGRES_BAND, DATABASE_BAND] ! c))"
  by (auto simp: in_band_def CSR_BAND_def BCSR_BAND_def PROPERTY_BAND_def POSTGRES_BAND_def
      DATABASE_BAND_def nth_Cons word_less_nat_alt word_le_nat_alt split: nat.splits)

section \<open>Header and section-table entry\<close>

record raw_header =
  hdr_magic :: "byte list"
  hdr_format_major :: u32
  hdr_format_minor :: u32
  hdr_header_size :: u32
  hdr_section_count :: u32
  hdr_table_crc32c :: u32
  hdr_reserved :: "byte list"

record raw_section_entry =
  ent_offset :: u64
  ent_length :: u64
  ent_kind :: u32
  ent_version :: u32
  ent_crc32c :: u32
  ent_alignment_log2 :: u8
  ent_flags :: u8
  ent_reserved :: "byte list"

definition header_as_bytes :: "raw_header \<Rightarrow> byte list" where
  "header_as_bytes h =
     hdr_magic h @ to_le_word (hdr_format_major h) @ to_le_word (hdr_format_minor h) @
     to_le_word (hdr_header_size h) @ to_le_word (hdr_section_count h) @
     to_le_word (hdr_table_crc32c h) @ hdr_reserved h"

definition header_from_bytes :: "byte list \<Rightarrow> raw_header" where
  "header_from_bytes bs =
     \<lparr>hdr_magic = subrange bs 0 8,
      hdr_format_major = from_le_word (subrange bs 8 4),
      hdr_format_minor = from_le_word (subrange bs 12 4),
      hdr_header_size = from_le_word (subrange bs 16 4),
      hdr_section_count = from_le_word (subrange bs 20 4),
      hdr_table_crc32c = from_le_word (subrange bs 24 4),
      hdr_reserved = subrange bs 28 4\<rparr>"

definition entry_as_bytes :: "raw_section_entry \<Rightarrow> byte list" where
  "entry_as_bytes e =
     to_le_word (ent_offset e) @ to_le_word (ent_length e) @ to_le_word (ent_kind e) @
     to_le_word (ent_version e) @ to_le_word (ent_crc32c e) @
     [ent_alignment_log2 e, ent_flags e] @ ent_reserved e"

definition entry_from_bytes :: "byte list \<Rightarrow> raw_section_entry" where
  "entry_from_bytes bs =
     \<lparr>ent_offset = from_le_word (subrange bs 0 8),
      ent_length = from_le_word (subrange bs 8 8),
      ent_kind = from_le_word (subrange bs 16 4),
      ent_version = from_le_word (subrange bs 20 4),
      ent_crc32c = from_le_word (subrange bs 24 4),
      ent_alignment_log2 = bs ! 28,
      ent_flags = bs ! 29,
      ent_reserved = subrange bs 30 2\<rparr>"

text \<open>A borrowed table is the entries of its 32-byte cells, in order.\<close>

definition entries_from_bytes :: "nat \<Rightarrow> byte list \<Rightarrow> raw_section_entry list" where
  "entries_from_bytes n bs =
     map (\<lambda>i. entry_from_bytes (subrange bs (i * SECTION_ENTRY_SIZE) SECTION_ENTRY_SIZE)) [0..<n]"

definition entries_as_bytes :: "raw_section_entry list \<Rightarrow> byte list" where
  "entries_as_bytes entries = concat (map entry_as_bytes entries)"

text \<open>The arrays of the two structs have fixed lengths.\<close>

definition header_shape :: "raw_header \<Rightarrow> bool" where
  "header_shape h \<longleftrightarrow> length (hdr_magic h) = 8 \<and> length (hdr_reserved h) = 4"

definition entry_shape :: "raw_section_entry \<Rightarrow> bool" where
  "entry_shape e \<longleftrightarrow> length (ent_reserved e) = 2"

section \<open>The codecs are inverse to each other\<close>

lemma length_le_u32 [simp]: "length (to_le_word (x :: u32)) = 4"
  using width32.length_to_le_word by (simp add: word_size_def)

lemma length_le_u64 [simp]: "length (to_le_word (x :: u64)) = 8"
  using width64.length_to_le_word by (simp add: word_size_def)

lemma u32_of_le [simp]: "from_le_word (to_le_word (x :: u32)) = x"
  by (rule width32.from_to_le_word)

lemma u64_of_le [simp]: "from_le_word (to_le_word (x :: u64)) = x"
  by (rule width64.from_to_le_word)

lemma u32_to_le [simp]: "length bs = 4 \<Longrightarrow> to_le_word (from_le_word bs :: u32) = bs"
  by (rule width32.to_from_le_word) (simp add: word_size_def)

lemma u64_to_le [simp]: "length bs = 8 \<Longrightarrow> to_le_word (from_le_word bs :: u64) = bs"
  by (rule width64.to_from_le_word) (simp add: word_size_def)

lemma length_header_as_bytes [simp]: "header_shape h \<Longrightarrow> length (header_as_bytes h) = HEADER_SIZE"
  by (simp add: header_as_bytes_def header_shape_def HEADER_SIZE_def)

lemma length_entry_as_bytes [simp]: "entry_shape e \<Longrightarrow> length (entry_as_bytes e) = SECTION_ENTRY_SIZE"
  by (simp add: entry_as_bytes_def entry_shape_def SECTION_ENTRY_SIZE_def)

lemma header_shape_from_bytes: "length bs = HEADER_SIZE \<Longrightarrow> header_shape (header_from_bytes bs)"
  by (simp add: header_from_bytes_def header_shape_def HEADER_SIZE_def)

lemma entry_shape_from_bytes: "length bs = SECTION_ENTRY_SIZE \<Longrightarrow> entry_shape (entry_from_bytes bs)"
  by (simp add: entry_from_bytes_def entry_shape_def SECTION_ENTRY_SIZE_def)

lemma header_from_as_bytes:
  assumes "header_shape h"
  shows "header_from_bytes (header_as_bytes h @ rest) = h"
  using assms
  by (simp add: header_from_bytes_def header_as_bytes_def header_shape_def subrange_def)

lemma entry_from_as_bytes:
  assumes "entry_shape e"
  shows "entry_from_bytes (entry_as_bytes e) = e"
  using assms
  by (simp add: entry_from_bytes_def entry_as_bytes_def entry_shape_def subrange_def nth_append)

lemma header_as_from_bytes:
  "length bs = HEADER_SIZE \<Longrightarrow> header_as_bytes (header_from_bytes bs) = bs"
  by (simp add: header_from_bytes_def header_as_bytes_def HEADER_SIZE_def subrange_all)

lemma entry_as_from_bytes:
  assumes "length bs = SECTION_ENTRY_SIZE"
  shows "entry_as_bytes (entry_from_bytes bs) = bs"
proof -
  from assms have len: "length bs = 32" by (simp add: SECTION_ENTRY_SIZE_def)
  have "[bs ! 28, bs ! 29] = subrange bs 28 2"
    by (rule nth_equalityI) (auto simp: len nth_subrange nth_Cons split: nat.splits)
  with len show ?thesis
    by (simp add: entry_from_bytes_def entry_as_bytes_def subrange_all del: append_Cons append_Nil)
qed

lemma entries_from_as_bytes:
  assumes "\<And>e. e \<in> set entries \<Longrightarrow> entry_shape e"
  shows "entries_from_bytes (length entries) (entries_as_bytes entries) = entries"
proof (rule nth_equalityI)
  fix i assume "i < length (entries_from_bytes (length entries) (entries_as_bytes entries))"
  then have "i < length entries" by (simp add: entries_from_bytes_def)
  then show "entries_from_bytes (length entries) (entries_as_bytes entries) ! i = entries ! i"
    using assms subrange_concat_map_const [of entries entry_as_bytes SECTION_ENTRY_SIZE i]
    by (simp add: entries_from_bytes_def entries_as_bytes_def entry_from_as_bytes)
qed (simp add: entries_from_bytes_def)

lemma entries_from_bytes_Suc:
  "entries_from_bytes (Suc n) bs = entries_from_bytes n bs @
     [entry_from_bytes (subrange bs (n * SECTION_ENTRY_SIZE) SECTION_ENTRY_SIZE)]"
  by (simp add: entries_from_bytes_def)

lemma entries_as_bytes_append [simp]:
  "entries_as_bytes (es @ fs) = entries_as_bytes es @ entries_as_bytes fs"
  "entries_as_bytes [e] = entry_as_bytes e"
  by (simp_all add: entries_as_bytes_def)

lemma entries_as_from_bytes:
  "length bs = n * SECTION_ENTRY_SIZE \<Longrightarrow> entries_as_bytes (entries_from_bytes n bs) = bs"
proof (induction n arbitrary: bs)
  case 0
  then show ?case by (simp add: entries_as_bytes_def entries_from_bytes_def)
next
  case (Suc n)
  let ?front = "take (n * SECTION_ENTRY_SIZE) bs"
  have cell: "subrange bs (i * SECTION_ENTRY_SIZE) SECTION_ENTRY_SIZE =
      subrange ?front (i * SECTION_ENTRY_SIZE) SECTION_ENTRY_SIZE" if "i < n" for i
  proof -
    from that have "Suc i * SECTION_ENTRY_SIZE \<le> n * SECTION_ENTRY_SIZE"
      by (intro mult_le_mono1) simp
    then show ?thesis by (simp add: subrange_def drop_take min_def add.commute)
  qed
  have "entries_from_bytes n bs = entries_from_bytes n ?front"
    unfolding entries_from_bytes_def by (rule map_cong) (simp_all add: cell)
  moreover have "entries_as_bytes (entries_from_bytes n ?front) = ?front"
    using Suc.prems by (intro Suc.IH) simp
  ultimately have "entries_as_bytes (entries_from_bytes n bs) = ?front" by simp
  moreover have "entry_as_bytes (entry_from_bytes (subrange bs (n * SECTION_ENTRY_SIZE) SECTION_ENTRY_SIZE)) =
      drop (n * SECTION_ENTRY_SIZE) bs"
    using Suc.prems by (subst entry_as_from_bytes) (simp_all add: subrange_def)
  ultimately show ?case by (simp add: entries_from_bytes_Suc)
qed

lemma length_entries_as_bytes:
  "(\<And>e. e \<in> set entries \<Longrightarrow> entry_shape e) \<Longrightarrow>
     length (entries_as_bytes entries) = length entries * SECTION_ENTRY_SIZE"
  unfolding entries_as_bytes_def by (rule length_concat_map_const) auto

lemma length_entries_from_bytes [simp]: "length (entries_from_bytes n bs) = n"
  by (simp add: entries_from_bytes_def)

end
