(* ===== verification/CsrBuild.thy ===== *)
theory CsrBuild
  imports Csr SnapshotFormat
begin

text \<open>
  The owned graph builders of \<open>crates/oxgraph-csr/src/build.rs\<close>: the append-only builders, the freeze into
  compressed-sparse-row order by counting sort, the frozen graphs with their accessors, the
  borrowed view and the transpose. The phantom edge marker of a builder is the result type of the
  methods that need it. A method taking \<open>&mut self\<close> returns its result with the new builder.
\<close>

section \<open>Builders\<close>

text \<open>The two property-layer errors exist only under a cargo feature and are not modelled.\<close>

datatype ('n, 'e) graph_build_error =
    InvalidNode 'n
  | InvalidEdge 'e
  | IdOverflow nat
  | SnapshotPlan plan_error

definition ensure_node :: "('n::len) word \<Rightarrow> nat \<Rightarrow> (('n word, 'e) graph_build_error, nat) result" where
  "ensure_node node node_count = map_err (\<lambda>_. InvalidNode node) (id_to_slot node node_count)"

definition ensure_edge :: "('e::len) word \<Rightarrow> nat \<Rightarrow> (('n, 'e word) graph_build_error, nat) result" where
  "ensure_edge edge edge_count = map_err (\<lambda>_. InvalidEdge edge) (id_to_slot edge edge_count)"

record 'n graph_builder =
  gb_node_count :: nat
  gb_sources :: "'n list"
  gb_targets :: "'n list"

definition graph_builder_new :: "'n graph_builder" where
  "graph_builder_new = \<lparr>gb_node_count = 0, gb_sources = [], gb_targets = []\<rparr>"

definition gb_add_node ::
    "('n::len) word graph_builder \<Rightarrow>
       (('n word, 'e) graph_build_error, 'n word) result \<times> 'n word graph_builder" where
  "gb_add_node b =
     (let (r, count) = next_dense_index (gb_node_count b) IdOverflow
      in (r, b\<lparr>gb_node_count := count\<rparr>))"

definition gb_add_edge ::
    "('n::len) word graph_builder \<Rightarrow> 'n word \<Rightarrow> 'n word \<Rightarrow>
       (('n word, ('e::len) word) graph_build_error, 'e word) result \<times> 'n word graph_builder" where
  "gb_add_edge b source target =
     (case and_then (ensure_node source (gb_node_count b)) (\<lambda>_.
           and_then (ensure_node target (gb_node_count b)) (\<lambda>_.
             ok_or (IdOverflow (length (gb_sources b))) (from_usize (length (gb_sources b))))) of
        Inl err \<Rightarrow> (Err err, b)
      | Inr edge \<Rightarrow>
          (Ok edge, b\<lparr>gb_sources := gb_sources b @ [source], gb_targets := gb_targets b @ [target]\<rparr>))"

definition gb_edge_count :: "'n graph_builder \<Rightarrow> nat" where
  "gb_edge_count b = length (gb_sources b)"

record ('n, 'ew, 'rw) weighted_graph_builder =
  wgb_node_count :: nat
  wgb_element_weights :: "'ew list"
  wgb_sources :: "'n list"
  wgb_targets :: "'n list"
  wgb_relation_weights :: "'rw list"

definition weighted_graph_builder_new :: "('n, 'ew, 'rw) weighted_graph_builder" where
  "weighted_graph_builder_new =
     \<lparr>wgb_node_count = 0, wgb_element_weights = [], wgb_sources = [], wgb_targets = [],
      wgb_relation_weights = []\<rparr>"

definition wgb_add_node ::
    "(('n::len) word, 'ew, 'rw) weighted_graph_builder \<Rightarrow> 'ew \<Rightarrow>
       (('n word, 'e) graph_build_error, 'n word) result \<times> ('n word, 'ew, 'rw) weighted_graph_builder" where
  "wgb_add_node b weight =
     (case next_dense_index (wgb_node_count b) IdOverflow of
        (Inl err, count) \<Rightarrow> (Err err, b\<lparr>wgb_node_count := count\<rparr>)
      | (Inr node, count) \<Rightarrow>
          (Ok node, b\<lparr>wgb_node_count := count, wgb_element_weights := wgb_element_weights b @ [weight]\<rparr>))"

definition wgb_add_edge ::
    "(('n::len) word, 'ew, 'rw) weighted_graph_builder \<Rightarrow> 'n word \<Rightarrow> 'n word \<Rightarrow> 'rw \<Rightarrow>
       (('n word, ('e::len) word) graph_build_error, 'e word) result \<times> ('n word, 'ew, 'rw) weighted_graph_builder" where
  "wgb_add_edge b source target weight =
     (case and_then (ensure_node source (wgb_node_count b)) (\<lambda>_.
           and_then (ensure_node target (wgb_node_count b)) (\<lambda>_.
             ok_or (IdOverflow (length (wgb_sources b))) (from_usize (length (wgb_sources b))))) of
        Inl err \<Rightarrow> (Err err, b)
      | Inr edge \<Rightarrow>
          (Ok edge, b\<lparr>wgb_sources := wgb_sources b @ [source], wgb_targets := wgb_targets b @ [target],
                      wgb_relation_weights := wgb_relation_weights b @ [weight]\<rparr>))"

text \<open>The stores into the weight vectors panic out of range: \<open>None\<close>.\<close>

definition wgb_set_element_weight ::
    "(('n::len) word, 'ew, 'rw) weighted_graph_builder \<Rightarrow> 'n word \<Rightarrow> 'ew \<Rightarrow>
       (('n word, 'e) graph_build_error, ('n word, 'ew, 'rw) weighted_graph_builder) run" where
  "wgb_set_element_weight b node weight =
     run_then (trying (ensure_node node (wgb_node_count b))) (\<lambda>slot.
     run_then (reading (store_or_panic (wgb_element_weights b) slot weight)) (\<lambda>weights.
       Some (Ok (b\<lparr>wgb_element_weights := weights\<rparr>))))"

definition wgb_set_relation_weight ::
    "('n, 'ew, 'rw) weighted_graph_builder \<Rightarrow> ('e::len) word \<Rightarrow> 'rw \<Rightarrow>
       (('n, 'e word) graph_build_error, ('n, 'ew, 'rw) weighted_graph_builder) run" where
  "wgb_set_relation_weight b edge weight =
     run_then (trying (ensure_edge edge (length (wgb_sources b)))) (\<lambda>slot.
     run_then (reading (store_or_panic (wgb_relation_weights b) slot weight)) (\<lambda>weights.
       Some (Ok (b\<lparr>wgb_relation_weights := weights\<rparr>))))"

definition wgb_edge_count :: "('n, 'ew, 'rw) weighted_graph_builder \<Rightarrow> nat" where
  "wgb_edge_count b = length (wgb_sources b)"

section \<open>Frozen topology\<close>

record ('n, 'e) frozen_topology =
  ft_node_count :: nat
  ft_offsets :: "'e list"
  ft_edge_ids :: "'e list"
  ft_targets :: "'n list"
  ft_sources :: "'n list"
  ft_edge_targets :: "'n list"

definition edge_zero :: "(('n, ('e::len) word) graph_build_error, 'e word) result" where
  "edge_zero = map_err (\<lambda>err. map_offset_overflow err IdOverflow) (index_from_usize 0)"

definition node_zero :: "((('n::len) word, 'e) graph_build_error, 'n word) result" where
  "node_zero = map_err (\<lambda>err. map_offset_overflow err IdOverflow) (index_from_usize 0)"

text \<open>Out-degrees, one place to the right: \<open>counts[slot + 1] += 1\<close>.\<close>

fun count_loop :: "nat list \<Rightarrow> ('n::len) word list \<Rightarrow> (('n word, 'e) graph_build_error, nat list) run" where
  "count_loop counts [] = Some (Ok counts)"
| "count_loop counts (source # rest) =
     run_then (trying (ok_or (IdOverflow usize_max) (to_usize source))) (\<lambda>slot.
     run_then (reading (checked_add slot 1)) (\<lambda>cell.
     run_then (reading (index_or_panic counts cell)) (\<lambda>old.
     run_then (trying (ok_or (IdOverflow usize_max) (checked_add old 1))) (\<lambda>new.
     run_then (reading (store_or_panic counts cell new)) (\<lambda>counts.
       count_loop counts rest)))))"

text \<open>Running sums in place, over \<open>1..counts.len()\<close>.\<close>

function prefix_loop :: "nat \<Rightarrow> nat list \<Rightarrow> (('n, 'e) graph_build_error, nat list) result" where
  "prefix_loop index counts =
     (if index < length counts then
        and_then (ok_or (IdOverflow usize_max) (checked_add (counts ! index) (counts ! (index - 1)))) (\<lambda>s.
          prefix_loop (index + 1) (counts[index := s]))
      else Ok counts)"
  by pat_completeness auto

termination
  by (relation "measure (\<lambda>(index, counts). length counts - index)") auto

declare prefix_loop.simps [simp del]

text \<open>The scatter pass over the edges in insertion order, with the row cursors.\<close>

fun scatter_loop ::
    "nat list \<Rightarrow> ('e::len) word list \<Rightarrow> ('n::len) word list \<Rightarrow> nat \<Rightarrow> ('n word \<times> 'n word) list \<Rightarrow>
       (('n word, 'e word) graph_build_error, 'e word list \<times> 'n word list) run" where
  "scatter_loop cursor edge_ids grouped edge_index [] = Some (Ok (edge_ids, grouped))"
| "scatter_loop cursor edge_ids grouped edge_index ((source, target) # rest) =
     run_then (trying (ok_or (IdOverflow usize_max) (to_usize source))) (\<lambda>slot.
     run_then (reading (index_or_panic cursor slot)) (\<lambda>position.
     run_then (trying (ok_or (IdOverflow usize_max) (checked_add position 1))) (\<lambda>next.
     run_then (reading (store_or_panic cursor slot next)) (\<lambda>cursor.
     run_then (trying (ok_or (IdOverflow edge_index) (from_usize edge_index))) (\<lambda>edge.
     run_then (reading (store_or_panic edge_ids position edge)) (\<lambda>edge_ids.
     run_then (reading (store_or_panic grouped position target)) (\<lambda>grouped.
       scatter_loop cursor edge_ids grouped (edge_index + 1) rest)))))))"

definition freeze_topology ::
    "nat \<Rightarrow> ('n::len) word list \<Rightarrow> 'n word list \<Rightarrow>
       (('n word, ('e::len) word) graph_build_error, ('n word, 'e word) frozen_topology) run" where
  "freeze_topology node_count sources targets =
     run_then (reading (checked_add node_count 1)) (\<lambda>slots.
     run_then (count_loop (replicate slots 0) sources) (\<lambda>counts.
     run_then (trying (prefix_loop 1 counts)) (\<lambda>counts.
     run_then (trying (collect_results (map (\<lambda>value. ok_or (IdOverflow value) (from_usize value)) counts))) (\<lambda>offsets.
     run_then (trying edge_zero) (\<lambda>zero_edge.
     run_then (trying node_zero) (\<lambda>zero_node.
     run_then (scatter_loop counts (replicate (length sources) zero_edge) (replicate (length targets) zero_node) 0
       (zip sources targets)) (\<lambda>(edge_ids, grouped).
       Some (Ok \<lparr>ft_node_count = node_count, ft_offsets = offsets, ft_edge_ids = edge_ids,
                 ft_targets = grouped, ft_sources = sources, ft_edge_targets = targets\<rparr>))))))))"

record ('n, 'e) frozen_graph =
  fg_topology :: "('n, 'e) frozen_topology"

record ('n, 'e, 'ew, 'rw) frozen_weighted_graph =
  fwg_topology :: "('n, 'e) frozen_topology"
  fwg_element_weights :: "'ew list"
  fwg_relation_weights :: "'rw list"

definition gb_freeze ::
    "('n::len) word graph_builder \<Rightarrow>
       (('n word, ('e::len) word) graph_build_error, ('n word, 'e word) frozen_graph) run" where
  "gb_freeze b =
     run_then (freeze_topology (gb_node_count b) (gb_sources b) (gb_targets b)) (\<lambda>topology.
       Some (Ok \<lparr>fg_topology = topology\<rparr>))"

definition wgb_freeze ::
    "(('n::len) word, 'ew, 'rw) weighted_graph_builder \<Rightarrow>
       (('n word, ('e::len) word) graph_build_error, ('n word, 'e word, 'ew, 'rw) frozen_weighted_graph) run" where
  "wgb_freeze b =
     run_then (freeze_topology (wgb_node_count b) (wgb_sources b) (wgb_targets b)) (\<lambda>topology.
       Some (Ok \<lparr>fwg_topology = topology, fwg_element_weights = wgb_element_weights b,
                 fwg_relation_weights = wgb_relation_weights b\<rparr>))"

section \<open>Accessors of a frozen topology\<close>

text \<open>The macro implements these once for both frozen graphs, on their shared topology.\<close>

definition ft_element_count :: "('n, 'e) frozen_topology \<Rightarrow> nat" where
  "ft_element_count t = ft_node_count t"

definition ft_relation_count :: "('n, 'e) frozen_topology \<Rightarrow> nat" where
  "ft_relation_count t = length (ft_sources t)"

definition ft_element_index :: "(('n::len) word, 'e) frozen_topology \<Rightarrow> 'n word \<Rightarrow> nat" where
  "ft_element_index t element = (case to_usize element of Some slot \<Rightarrow> slot | None \<Rightarrow> usize_max)"

definition ft_relation_index :: "('n, ('e::len) word) frozen_topology \<Rightarrow> 'e word \<Rightarrow> nat" where
  "ft_relation_index t relation = (case to_usize relation of Some slot \<Rightarrow> slot | None \<Rightarrow> usize_max)"

definition ft_contains_element :: "(('n::len) word, 'e) frozen_topology \<Rightarrow> 'n word \<Rightarrow> bool" where
  "ft_contains_element t element =
     (case to_usize element of Some slot \<Rightarrow> slot < ft_node_count t | None \<Rightarrow> False)"

definition ft_contains_relation :: "('n, ('e::len) word) frozen_topology \<Rightarrow> 'e word \<Rightarrow> bool" where
  "ft_contains_relation t relation =
     (case to_usize relation of Some slot \<Rightarrow> slot < length (ft_sources t) | None \<Rightarrow> False)"

definition node_slot :: "('n::len) word \<Rightarrow> nat" where
  "node_slot node = slot_or_max node"

definition edge_slot :: "('e::len) word \<Rightarrow> nat" where
  "edge_slot edge = slot_or_max edge"

definition ft_source :: "('n, ('e::len) word) frozen_topology \<Rightarrow> 'e word \<Rightarrow> 'n option" where
  "ft_source t edge = index_or_panic (ft_sources t) (edge_slot edge)"

definition ft_target :: "('n, ('e::len) word) frozen_topology \<Rightarrow> 'e word \<Rightarrow> 'n option" where
  "ft_target t edge = index_or_panic (ft_edge_targets t) (edge_slot edge)"

definition ft_outgoing_range :: "(('n::len) word, ('e::len) word) frozen_topology \<Rightarrow> 'n word \<Rightarrow> edge_range option" where
  "ft_outgoing_range t node =
     (let slot = node_slot node;
          position = (\<lambda>offset. case to_usize offset of Some p \<Rightarrow> p | None \<Rightarrow> length (ft_edge_ids t)) in
      Option.bind (index_or_panic (ft_offsets t) slot) (\<lambda>first.
      Option.bind (checked_add slot 1) (\<lambda>next_slot.
      Option.bind (index_or_panic (ft_offsets t) next_slot) (\<lambda>next.
        Some \<lparr>range_start = position first, range_end = position next\<rparr>))))"

text \<open>The iterator over a slice yields its items in order; \<open>Range::len\<close> of a reversed range is zero.\<close>

definition ft_outgoing_edges :: "(('n::len) word, ('e::len) word) frozen_topology \<Rightarrow> 'n word \<Rightarrow> 'e word list option" where
  "ft_outgoing_edges t node =
     Option.bind (ft_outgoing_range t node) (\<lambda>r.
       slice_or_panic (ft_edge_ids t) (range_start r) (range_end r))"

definition ft_out_degree :: "(('n::len) word, ('e::len) word) frozen_topology \<Rightarrow> 'n word \<Rightarrow> nat option" where
  "ft_out_degree t node = map_option (\<lambda>r. range_end r - range_start r) (ft_outgoing_range t node)"

text \<open>Draining the successor iterator: each edge handle is looked up in the target vector.\<close>

definition ft_element_successors :: "(('n::len) word, ('e::len) word) frozen_topology \<Rightarrow> 'n word \<Rightarrow> 'n word list option" where
  "ft_element_successors t node =
     Option.bind (ft_outgoing_edges t node) (\<lambda>edges.
       those (map (\<lambda>edge. index_or_panic (ft_edge_targets t)
         (case to_usize edge of Some slot \<Rightarrow> slot | None \<Rightarrow> usize_max)) edges))"

definition ft_local_element_id :: "(('n::len) word, 'e) frozen_topology \<Rightarrow> 'n word \<Rightarrow> 'n word option" where
  "ft_local_element_id t canonical = (if ft_contains_element t canonical then Some canonical else None)"

definition ft_local_relation_id :: "('n, ('e::len) word) frozen_topology \<Rightarrow> 'e word \<Rightarrow> 'e word option" where
  "ft_local_relation_id t canonical = (if ft_contains_relation t canonical then Some canonical else None)"

definition fwg_element_weight :: "(('n::len) word, 'e, 'ew, 'rw) frozen_weighted_graph \<Rightarrow> 'n word \<Rightarrow> 'ew option" where
  "fwg_element_weight g element = index_or_panic (fwg_element_weights g) (node_slot element)"

definition fwg_relation_weight :: "('n, ('e::len) word, 'ew, 'rw) frozen_weighted_graph \<Rightarrow> 'e word \<Rightarrow> 'rw option" where
  "fwg_relation_weight g relation = index_or_panic (fwg_relation_weights g) (edge_slot relation)"

text \<open>The zero-copy view, the same code on both frozen graphs, and the transpose.\<close>

definition ft_as_view ::
    "(('n::len) word, ('e::len) word) frozen_topology \<Rightarrow>
       (('n word, 'e word) graph_build_error, ('n, 'e) csr_view) result" where
  "ft_as_view t =
     and_then (ok_or (IdOverflow (ft_node_count t)) (from_usize (ft_node_count t))) (\<lambda>node_count.
       Ok (csr_from_validated_parts node_count (ft_node_count t) (ft_offsets t) (ft_targets t)))"

definition fg_transpose ::
    "(('n::len) word, ('e::len) word) frozen_graph \<Rightarrow>
       (('n word, 'e word) graph_build_error, ('n word, 'e word) frozen_graph) run" where
  "fg_transpose g =
     run_then (freeze_topology (ft_node_count (fg_topology g)) (ft_edge_targets (fg_topology g))
       (ft_sources (fg_topology g))) (\<lambda>topology. Some (Ok \<lparr>fg_topology = topology\<rparr>))"

section \<open>Positions of a counting sort\<close>

text \<open>
  The rows are the source slots of the edges in insertion order. \<open>below v\<close> counts the edges of the
  rows before \<open>v\<close>; \<open>spos\<close> is the position the sort gives an edge; \<open>row_edges v\<close> lists the edges of row
  \<open>v\<close> in insertion order.
\<close>

definition below :: "nat list \<Rightarrow> nat \<Rightarrow> nat" where
  "below rows v = length (filter (\<lambda>x. x < v) rows)"

definition spos :: "nat list \<Rightarrow> nat \<Rightarrow> nat" where
  "spos rows e = below rows (rows ! e) + count_list (take e rows) (rows ! e)"

definition row_edges :: "nat list \<Rightarrow> nat \<Rightarrow> nat list" where
  "row_edges rows v = filter (\<lambda>e. rows ! e = v) [0..<length rows]"

lemma below_0 [simp]: "below rows 0 = 0"
  by (simp add: below_def)

lemma below_Suc: "below rows (Suc v) = below rows v + count_list rows v"
  unfolding below_def by (induction rows) auto

lemma below_mono: "v \<le> w \<Longrightarrow> below rows v \<le> below rows w"
  by (induction w) (auto simp: below_Suc le_Suc_eq)

lemma below_le: "below rows v \<le> length rows"
  by (simp add: below_def)

lemma below_all: "(\<And>x. x \<in> set rows \<Longrightarrow> x < n) \<Longrightarrow> below rows n = length rows"
  by (simp add: below_def filter_id_conv)

lemma count_take_Suc:
  "e < length rows \<Longrightarrow> count_list (take (Suc e) rows) v = count_list (take e rows) v + (if rows ! e = v then 1 else 0)"
  by (simp add: take_Suc_conv_app_nth)

lemma count_take_mono: "d \<le> e \<Longrightarrow> count_list (take d rows) v \<le> count_list (take e rows) v"
proof -
  assume "d \<le> e"
  then have "take e rows = take d rows @ take (e - d) (drop d rows)" by (metis le_add_diff_inverse take_add)
  then show ?thesis by simp
qed

lemma count_take_less:
  assumes "d < e" "e \<le> length rows" "rows ! d = v"
  shows "count_list (take d rows) v < count_list (take e rows) v"
proof -
  have "count_list (take d rows) v < count_list (take (Suc d) rows) v"
    using assms by (simp add: count_take_Suc)
  also have "\<dots> \<le> count_list (take e rows) v" using assms(1) by (intro count_take_mono) simp
  finally show ?thesis .
qed

lemma spos_row:
  assumes "e < length rows"
  shows "below rows (rows ! e) \<le> spos rows e" and "spos rows e < below rows (Suc (rows ! e))"
  using count_take_less [OF assms order_refl refl] by (simp_all add: spos_def below_Suc)

lemma spos_less: "e < length rows \<Longrightarrow> spos rows e < length rows"
  using spos_row(2) [of e rows] below_le [of rows "Suc (rows ! e)"] by linarith

lemma spos_inj:
  assumes "d < length rows" "e < length rows" "spos rows d = spos rows e"
  shows "d = e"
proof (cases "rows ! d = rows ! e")
  case True
  show ?thesis
  proof (rule linorder_cases [of d e])
    assume "d < e"
    then have "spos rows d < spos rows e"
      using count_take_less [of d e rows "rows ! e"] assms True by (simp add: spos_def)
    then show ?thesis using assms(3) by simp
  next
    assume "e < d"
    then have "spos rows e < spos rows d"
      using count_take_less [of e d rows "rows ! e"] assms True by (simp add: spos_def)
    then show ?thesis using assms(3) by simp
  qed
next
  case False
  then consider "rows ! d < rows ! e" | "rows ! e < rows ! d" by linarith
  then show ?thesis
  proof cases
    case 1
    with below_mono [of "Suc (rows ! d)" "rows ! e" rows] spos_row [OF assms(1)] spos_row [OF assms(2)] assms(3)
    show ?thesis by simp
  next
    case 2
    with below_mono [of "Suc (rows ! e)" "rows ! d" rows] spos_row [OF assms(1)] spos_row [OF assms(2)] assms(3)
    show ?thesis by simp
  qed
qed

lemma row_edges_snoc:
  "row_edges (rows @ [x]) v = row_edges rows v @ (if x = v then [length rows] else [])"
proof -
  have "filter (\<lambda>e. (rows @ [x]) ! e = v) [0..<length rows] = filter (\<lambda>e. rows ! e = v) [0..<length rows]"
    by (rule filter_cong) (simp_all add: nth_append)
  then show ?thesis by (simp add: row_edges_def)
qed

lemma length_row_edges [simp]: "length (row_edges rows v) = count_list rows v"
proof (induction rows rule: rev_induct)
  case Nil
  then show ?case by (simp add: row_edges_def)
next
  case (snoc x rows)
  then show ?case by (simp add: row_edges_snoc)
qed

lemma row_edges_nth:
  assumes "i < count_list rows v"
  shows "row_edges rows v ! i < length rows" and "rows ! (row_edges rows v ! i) = v"
    and "count_list (take (row_edges rows v ! i) rows) v = i"
proof -
  have "row_edges rows v ! i < length rows \<and> rows ! (row_edges rows v ! i) = v \<and>
      count_list (take (row_edges rows v ! i) rows) v = i"
    using assms
  proof (induction rows rule: rev_induct)
    case Nil
    then show ?case by simp
  next
    case (snoc x rows)
    show ?case
    proof (cases "i < count_list rows v")
      case True
      with snoc.IH show ?thesis by (simp add: row_edges_snoc nth_append)
    next
      case False
      with snoc.prems have "x = v" "i = count_list rows v" by (auto split: if_splits)
      then show ?thesis by (simp add: row_edges_snoc nth_append)
    qed
  qed
  then show "row_edges rows v ! i < length rows" and "rows ! (row_edges rows v ! i) = v"
    and "count_list (take (row_edges rows v ! i) rows) v = i" by simp_all
qed

text \<open>A list that holds each edge's value at its position has the row of \<open>v\<close> where it belongs.\<close>

lemma scattered_row:
  assumes "length xs = length rows" and "\<And>e. e < length rows \<Longrightarrow> xs ! spos rows e = f e"
  shows "subrange xs (below rows v) (below rows (Suc v) - below rows v) = map f (row_edges rows v)"
proof (rule nth_equalityI)
  have bound: "below rows v + count_list rows v \<le> length xs"
    using below_le [of rows "Suc v"] assms(1) by (simp add: below_Suc)
  then show "length (subrange xs (below rows v) (below rows (Suc v) - below rows v)) = length (map f (row_edges rows v))"
    by (simp add: below_Suc)
  fix i assume "i < length (subrange xs (below rows v) (below rows (Suc v) - below rows v))"
  with bound have i: "i < count_list rows v" by (simp add: below_Suc)
  let ?e = "row_edges rows v ! i"
  have "spos rows ?e = below rows v + i"
    using row_edges_nth [OF i] by (simp add: spos_def)
  with assms(2) [of ?e] row_edges_nth(1) [OF i] have "xs ! (below rows v + i) = f ?e" by simp
  with i bound show "subrange xs (below rows v) (below rows (Suc v) - below rows v) ! i = map f (row_edges rows v) ! i"
    by (simp add: nth_subrange below_Suc)
qed

section \<open>The freeze loops\<close>

lemma index_or_panic_Some_iff [simp]: "index_or_panic xs i = Some x \<longleftrightarrow> i < length xs \<and> x = xs ! i"
  by (auto simp: index_or_panic_def)

lemma count_loop_Ok:
  fixes ss :: "('n::len) word list"
  assumes "\<And>s. s \<in> set ss \<Longrightarrow> unat s + 1 < length counts" and "length counts \<le> usize_max + 1"
    and "\<And>j. j < length counts \<Longrightarrow> counts ! j + length ss \<le> usize_max"
  shows "\<exists>counts'. (count_loop counts ss :: (('n word, 'e) graph_build_error, nat list) run) = Some (Ok counts') \<and> length counts' = length counts \<and>
    (\<forall>j < length counts. counts' ! j = counts ! j + (if j = 0 then 0 else count_list (map unat ss) (j - 1)))"
  using assms
proof (induction ss arbitrary: counts)
  case Nil
  then show ?case by simp
next
  case (Cons s ss)
  let ?cell = "unat s + 1"
  let ?counts = "counts[?cell := counts ! ?cell + 1]"
  have cell: "?cell < length counts" "?cell \<le> usize_max" using Cons.prems(1) [of s] Cons.prems(2) by auto
  have room: "counts ! ?cell + 1 \<le> usize_max" using Cons.prems(3) [OF cell(1)] by simp
  have step: "(count_loop counts (s # ss) :: (('n word, 'e) graph_build_error, nat list) run) = count_loop ?counts ss"
    using cell room by (simp add: to_usize_def checked_add_def store_or_panic_def index_or_panic_def)
  have "\<exists>counts'. (count_loop ?counts ss :: (('n word, 'e) graph_build_error, nat list) run) = Some (Ok counts') \<and> length counts' = length ?counts \<and>
    (\<forall>j < length ?counts. counts' ! j = ?counts ! j + (if j = 0 then 0 else count_list (map unat ss) (j - 1)))"
  proof (rule Cons.IH)
    show "?counts ! j + length ss \<le> usize_max" if "j < length ?counts" for j
      using Cons.prems(3) [of j] that by (cases "j = ?cell") auto
  qed (use Cons.prems in auto)
  then obtain counts' where c: "(count_loop ?counts ss :: (('n word, 'e) graph_build_error, nat list) run) = Some (Ok counts')" "length counts' = length counts"
    "\<And>j. j < length counts \<Longrightarrow> counts' ! j = ?counts ! j + (if j = 0 then 0 else count_list (map unat ss) (j - 1))"
    by auto
  have "counts' ! j = counts ! j + (if j = 0 then 0 else count_list (map unat (s # ss)) (j - 1))"
    if "j < length counts" for j
    using c(3) [OF that] that by (cases "j = ?cell") auto
  with step c(1,2) show ?case by auto
qed

lemma prefix_loop_Ok:
  assumes "1 \<le> index" and "length counts = n" and "\<And>j. j < n \<Longrightarrow> P j \<le> usize_max"
    and "\<And>j. j < index \<Longrightarrow> j < n \<Longrightarrow> counts ! j = P j"
    and "\<And>j. index \<le> j \<Longrightarrow> j < n \<Longrightarrow> counts ! j + P (j - 1) = P j"
  shows "(prefix_loop index counts :: (('n, 'e) graph_build_error, nat list) result) = Ok (map P [0..<n])"
  using assms
proof (induction "n - index" arbitrary: index counts)
  case 0
  then have "counts = map P [0..<n]" by (intro nth_equalityI) auto
  with 0 show ?case by (simp add: prefix_loop.simps)
next
  case (Suc k)
  then have index: "index < n" by simp
  have sum: "counts ! index + counts ! (index - 1) = P index"
    using Suc.prems(5) [of index] Suc.prems(4) [of "index - 1"] Suc.prems(1) index by simp
  have "(prefix_loop (Suc index) (counts[index := P index]) :: (('n, 'e) graph_build_error, nat list) result) = Ok (map P [0..<n])"
    by (rule Suc.hyps(1)) (use Suc index in \<open>auto simp: nth_list_update less_Suc_eq\<close>)
  with sum Suc.prems index show ?case by (subst prefix_loop.simps) (simp add: checked_add_def)
qed

lemma collect_offsets_Ok:
  assumes "\<And>v. v \<in> set xs \<Longrightarrow> v < 2 ^ LENGTH('e)"
  shows "collect_results (map (\<lambda>v. ok_or (IdOverflow v) (from_usize v)) xs) =
    Ok (map word_of_nat xs :: ('e::len) word list)"
  by (rule collect_results_map_Ok) (use assms in \<open>simp add: from_usize_def\<close>)

lemma collect_offsets_Err:
  assumes "v \<in> set xs" and "2 ^ LENGTH('e) \<le> v"
  shows "\<exists>w. (collect_results (map (\<lambda>v. ok_or (IdOverflow v) (from_usize v)) xs) ::
    (_, ('e::len) word list) result) = Err (IdOverflow w)"
  using assms
proof (induction xs)
  case Nil
  then show ?case by simp
next
  case (Cons x xs)
  then show ?case by (cases "(from_usize x :: 'e word option)") (auto simp: from_usize_def split: if_splits)
qed

definition scattered :: "nat list \<Rightarrow> 'a list \<Rightarrow> nat \<Rightarrow> (nat \<Rightarrow> 'a) \<Rightarrow> bool" where
  "scattered rows xs k f \<longleftrightarrow> length xs = length rows \<and> (\<forall>e < k. xs ! spos rows e = f e)"

lemma scattered_step:
  assumes "scattered rows xs k f" and "k < length rows"
  shows "scattered rows (xs[spos rows k := f k]) (Suc k) f"
proof -
  have "xs[spos rows k := f k] ! spos rows e = f e" if "e < Suc k" for e
  proof (cases "e = k")
    case False
    with that have "spos rows k \<noteq> spos rows e" using spos_inj [of k rows e] assms(2) by auto
    with False that assms(1) show ?thesis by (simp add: scattered_def)
  qed (use assms spos_less [of k rows] in \<open>simp add: scattered_def\<close>)
  with assms(1) show ?thesis by (simp add: scattered_def)
qed

lemma scatter_loop_Ok:
  fixes sources targets :: "('n::len) word list"
  defines "rows \<equiv> map unat sources"
  assumes len: "length targets = length sources" and fits: "length sources \<le> 2 ^ LENGTH('e)" "length sources \<le> usize_max"
    and slots: "\<And>s. s \<in> set sources \<Longrightarrow> unat s < n" and n: "n \<le> usize_max"
    and cur: "n \<le> length cursor" "\<And>v. v < n \<Longrightarrow> cursor ! v = below rows v + count_list (take k rows) v"
    and ids: "scattered rows ids k (\<lambda>e. word_of_nat e :: ('e::len) word)"
    and grouped: "scattered rows grouped k (\<lambda>e. targets ! e)" and k: "k \<le> length sources"
  shows "\<exists>ids' grouped'. scatter_loop cursor ids grouped k (drop k (zip sources targets)) = Some (Ok (ids', grouped')) \<and>
    scattered rows ids' (length sources) (\<lambda>e. word_of_nat e) \<and> scattered rows grouped' (length sources) (\<lambda>e. targets ! e)"
  using cur ids grouped k
proof (induction "length sources - k" arbitrary: cursor ids grouped k)
  case 0
  then show ?case by simp
next
  case (Suc d)
  then have k: "k < length sources" by simp
  let ?v = "unat (sources ! k)"
  have v: "?v < n" using slots k by simp
  have row: "rows ! k = ?v" using k by (simp add: rows_def)
  have len_rows: "length rows = length sources" by (simp add: rows_def)
  have pos: "cursor ! ?v = spos rows k" using Suc.prems(2) [OF v] by (simp add: spos_def row)
  have posl: "spos rows k < length rows" using k spos_less [of k rows] by (simp add: len_rows)
  let ?cursor = "cursor[?v := spos rows k + 1]"
  have "\<exists>ids' grouped'. scatter_loop ?cursor (ids[spos rows k := word_of_nat k]) (grouped[spos rows k := targets ! k]) (Suc k)
      (drop (Suc k) (zip sources targets)) = Some (Ok (ids', grouped')) \<and>
    scattered rows ids' (length sources) (\<lambda>e. word_of_nat e) \<and> scattered rows grouped' (length sources) (\<lambda>e. targets ! e)"
  proof (rule Suc.hyps(1))
    show "d = length sources - Suc k" using Suc.hyps(2) by simp
    show "?cursor ! w = below rows w + count_list (take (Suc k) rows) w" if "w < n" for w
      using Suc.prems(1,2) that v k count_take_Suc [of k rows w] pos
      by (auto simp: nth_list_update len_rows row)
    show "scattered rows (ids[spos rows k := word_of_nat k]) (Suc k) (\<lambda>e. word_of_nat e)"
      using scattered_step [OF Suc.prems(3)] k by (simp add: len_rows)
    show "scattered rows (grouped[spos rows k := targets ! k]) (Suc k) (\<lambda>e. targets ! e)"
      using scattered_step [OF Suc.prems(4)] k by (simp add: len_rows)
  qed (use Suc.prems k in auto)
  moreover have "drop k (zip sources targets) = (sources ! k, targets ! k) # drop (Suc k) (zip sources targets)"
    using k len by (simp flip: Cons_nth_drop_Suc)
  moreover have "length ids = length rows" "length grouped = length rows"
    using Suc.prems(3,4) by (simp_all add: scattered_def)
  ultimately show ?case
    using v Suc.prems(1) n pos posl k fits
    by (simp add: to_usize_def checked_add_def from_usize_def len_rows)
qed

section \<open>What a freeze returns\<close>

definition edges_ok :: "nat \<Rightarrow> ('n::len) word list \<Rightarrow> 'n word list \<Rightarrow> bool" where
  "edges_ok n sources targets \<longleftrightarrow>
     n < usize_max \<and> length targets = length sources \<and> length sources \<le> usize_max \<and>
     (\<forall>s \<in> set sources. unat s < n) \<and> (\<forall>t \<in> set targets. unat t < n)"

definition frozen_wf :: "nat \<Rightarrow> ('n::len) word list \<Rightarrow> 'n word list \<Rightarrow> ('n word, ('e::len) word) frozen_topology \<Rightarrow> bool" where
  "frozen_wf n sources targets t \<longleftrightarrow>
     edges_ok n sources targets \<and> length sources < 2 ^ LENGTH('e) \<and>
     ft_node_count t = n \<and> ft_sources t = sources \<and> ft_edge_targets t = targets \<and>
     ft_offsets t = map (\<lambda>v. word_of_nat (below (map unat sources) v)) [0..<n + 1] \<and>
     scattered (map unat sources) (ft_edge_ids t) (length sources) (\<lambda>e. word_of_nat e) \<and>
     scattered (map unat sources) (ft_targets t) (length sources) (\<lambda>e. targets ! e)"

lemma freeze_counts:
  fixes sources targets :: "('n::len) word list" and f :: "nat list \<Rightarrow> (('n word, 'e) graph_build_error, 'a) run"
  assumes "edges_ok n sources targets"
  shows "run_then (count_loop (replicate (n + 1) 0) sources) (\<lambda>counts. run_then (trying (prefix_loop 1 counts)) f) =
    f (map (below (map unat sources)) [0..<n + 1])"
proof -
  let ?rows = "map unat sources"
  have "\<exists>counts. (count_loop (replicate (n + 1) 0) sources :: (('n word, 'e) graph_build_error, nat list) run) =
      Some (Ok counts) \<and> length counts = length (replicate (n + 1) (0::nat)) \<and>
      (\<forall>j < length (replicate (n + 1) (0::nat)). counts ! j = replicate (n + 1) 0 ! j +
        (if j = 0 then 0 else count_list ?rows (j - 1)))"
    by (rule count_loop_Ok) (use assms in \<open>auto simp: edges_ok_def simp del: replicate.simps\<close>)
  then obtain counts where
    counts: "(count_loop (replicate (n + 1) 0) sources :: (('n word, 'e) graph_build_error, nat list) run) = Some (Ok counts)"
    "length counts = n + 1"
    "\<And>j. j < n + 1 \<Longrightarrow> counts ! j = (if j = 0 then 0 else count_list ?rows (j - 1))"
    by (auto simp del: replicate.simps)
  have "(prefix_loop 1 counts :: (('n word, 'e) graph_build_error, nat list) result) = Ok (map (below ?rows) [0..<n + 1])"
  proof (rule prefix_loop_Ok)
    show "below ?rows j \<le> usize_max" for j
      using below_le [of ?rows j] assms by (simp add: edges_ok_def)
    show "counts ! j + below ?rows (j - 1) = below ?rows j" if "1 \<le> j" "j < n + 1" for j
      using counts(3) [OF that(2)] that(1) below_Suc [of ?rows "j - 1"] by simp
  qed (use counts in auto)
  with counts(1) show ?thesis by simp
qed

lemma zeros_Ok: "edge_zero = Ok (0 :: ('e::len) word)" "node_zero = Ok (0 :: ('n::len) word)"
  by (simp_all add: edge_zero_def node_zero_def index_from_usize_def from_usize_def)

lemma freeze_topology_Ok:
  fixes sources targets :: "('n::len) word list"
  assumes ok: "edges_ok n sources targets" and small: "length sources < 2 ^ LENGTH('e)"
  shows "\<exists>t. freeze_topology n sources targets = Some (Ok t) \<and>
    frozen_wf n sources targets (t :: ('n word, ('e::len) word) frozen_topology)"
proof -
  let ?rows = "map unat sources"
  let ?counts = "map (below ?rows) [0..<n + 1]"
  have "below ?rows v < 2 ^ LENGTH('e)" for v
    using below_le [of ?rows v] small by simp
  then have offsets: "collect_results (map (\<lambda>v. ok_or (IdOverflow v) (from_usize v)) ?counts) =
      (Ok (map (\<lambda>v. word_of_nat (below ?rows v)) [0..<n + 1]) :: (('n word, 'e word) graph_build_error, 'e word list) result)"
    using collect_offsets_Ok [of ?counts, where 'e = 'e] by (auto simp: comp_def)
  have "\<exists>ids' grouped'. scatter_loop ?counts (replicate (length sources) 0) (replicate (length targets) 0) 0
      (drop 0 (zip sources targets)) = Some (Ok (ids' :: 'e word list, grouped')) \<and>
    scattered ?rows ids' (length sources) (\<lambda>e. word_of_nat e) \<and>
    scattered ?rows grouped' (length sources) (\<lambda>e. targets ! e)"
    by (rule scatter_loop_Ok [where n = n])
      (use ok small in \<open>auto simp: edges_ok_def scattered_def nth_append\<close>)
  then obtain ids grouped where scatter:
    "scatter_loop ?counts (replicate (length sources) 0) (replicate (length targets) 0) 0 (zip sources targets) =
      Some (Ok (ids :: 'e word list, grouped))"
    "scattered ?rows ids (length sources) (\<lambda>e. word_of_nat e)" "scattered ?rows grouped (length sources) (\<lambda>e. targets ! e)"
    by auto
  let ?t = "\<lparr>ft_node_count = n, ft_offsets = map (\<lambda>v. word_of_nat (below ?rows v)) [0..<n + 1], ft_edge_ids = ids,
      ft_targets = grouped, ft_sources = sources, ft_edge_targets = targets\<rparr>"
  have "checked_add n 1 = Some (n + 1)" using ok by (simp add: edges_ok_def)
  then have "freeze_topology n sources targets = Some (Ok ?t)"
    unfolding freeze_topology_def
    by (simp only: reading_simps run_then.simps freeze_counts [OF ok] offsets zeros_Ok scatter(1) prod.case)
  moreover have "frozen_wf n sources targets ?t"
    using ok small scatter by (simp add: frozen_wf_def)
  ultimately show ?thesis by blast
qed

lemma freeze_topology_Err:
  fixes sources targets :: "('n::len) word list"
  assumes ok: "edges_ok n sources targets" and big: "2 ^ LENGTH('e) \<le> length sources"
  shows "\<exists>w. (freeze_topology n sources targets ::
    (('n word, 'e word) graph_build_error, ('n word, ('e::len) word) frozen_topology) run) = Some (Err (IdOverflow w))"
proof -
  let ?rows = "map unat sources"
  let ?counts = "map (below ?rows) [0..<n + 1]"
  have "below ?rows n = length sources"
    using below_all [of ?rows n] ok by (auto simp: edges_ok_def)
  then have "length sources \<in> set ?counts" by (auto simp: image_iff intro!: bexI [of _ n])
  from collect_offsets_Err [OF this big] obtain w where
    offsets: "(collect_results (map (\<lambda>v. ok_or (IdOverflow v) (from_usize v)) ?counts) ::
      (('n word, 'e word) graph_build_error, 'e word list) result) = Err (IdOverflow w)" by blast
  have "checked_add n 1 = Some (n + 1)" using ok by (simp add: edges_ok_def)
  then have "(freeze_topology n sources targets ::
    (('n word, 'e word) graph_build_error, ('n word, 'e word) frozen_topology) run) = Some (Err (IdOverflow w))"
    unfolding freeze_topology_def
    by (simp only: reading_simps run_then.simps freeze_counts [OF ok] offsets)
  then show ?thesis ..
qed

lemma freeze_topology_wf:
  assumes "edges_ok n sources targets" and "freeze_topology n sources targets = Some (Ok t)"
  shows "frozen_wf n sources targets (t :: ('n::len word, ('e::len) word) frozen_topology)"
proof (cases "length sources < 2 ^ LENGTH('e)")
  case True
  with freeze_topology_Ok [OF assms(1), where 'e = 'e] assms(2) show ?thesis by auto
next
  case False
  then show ?thesis using freeze_topology_Err [OF assms(1), where 'e = 'e] assms(2) by auto
qed

section \<open>Accessors of a frozen graph\<close>

lemma those_map_Some: "(\<And>x. x \<in> set xs \<Longrightarrow> f x = Some (g x)) \<Longrightarrow> those (map f xs) = Some (map g xs)"
  by (induction xs) auto

lemma node_slot_eq: "unat node \<le> usize_max \<Longrightarrow> node_slot node = unat node"
  by (simp add: node_slot_def slot_or_max_def to_usize_def)

lemma edge_slot_eq: "unat edge \<le> usize_max \<Longrightarrow> edge_slot edge = unat edge"
  by (simp add: edge_slot_def slot_or_max_def to_usize_def)

lemma frozen_contains:
  "frozen_wf n sources targets t \<Longrightarrow> ft_contains_element t node \<longleftrightarrow> unat node < n"
  by (auto simp: ft_contains_element_def frozen_wf_def edges_ok_def to_usize_def)

lemma frozen_range:
  assumes wf: "frozen_wf n sources targets (t :: (('n::len) word, ('e::len) word) frozen_topology)"
    and v: "unat node < n"
  shows "ft_outgoing_range t node =
    Some \<lparr>range_start = below (map unat sources) (unat node), range_end = below (map unat sources) (Suc (unat node))\<rparr>"
proof -
  let ?rows = "map unat sources"
  have fits: "unat (word_of_nat (below ?rows v) :: 'e word) = below ?rows v" "below ?rows v \<le> usize_max" for v
    using below_le [of ?rows v] wf by (auto intro!: unat_word_of_nat simp: frozen_wf_def edges_ok_def)
  have offset: "ft_offsets t ! v = word_of_nat (below ?rows v)" if "v < n + 1" for v
    using wf that unfolding frozen_wf_def by (simp del: upt_Suc)
  have "length (ft_offsets t) = n + 1" "unat node \<le> usize_max" "unat node + 1 \<le> usize_max"
    using wf v by (auto simp: frozen_wf_def edges_ok_def)
  with v offset fits show ?thesis
    by (simp add: ft_outgoing_range_def node_slot_eq Let_def to_usize_def checked_add_def)
qed

lemma frozen_row_bounds:
  assumes "frozen_wf n sources targets t"
  shows "below (map unat sources) v \<le> below (map unat sources) (Suc v)"
    and "below (map unat sources) v \<le> length (ft_edge_ids t)"
  using assms below_mono [of v "Suc v" "map unat sources"] below_le [of "map unat sources" v]
  by (simp_all add: frozen_wf_def scattered_def)

lemma frozen_access:
  assumes wf: "frozen_wf n sources targets (t :: (('n::len) word, ('e::len) word) frozen_topology)"
    and v: "unat node < n"
  defines "row \<equiv> row_edges (map unat sources) (unat node)"
  shows "ft_outgoing_edges t node = Some (map word_of_nat row)"
    and "ft_out_degree t node = Some (length row)"
    and "ft_element_successors t node = Some (map (\<lambda>e. targets ! e) row)"
proof -
  let ?rows = "map unat sources" and ?v = "unat node"
  note range = frozen_range [OF wf v] and bounds = frozen_row_bounds [OF wf, of "?v"] frozen_row_bounds(2) [OF wf, of "Suc ?v"]
  have m: "length sources < 2 ^ LENGTH('e)" "length sources \<le> usize_max"
    and tgts: "ft_edge_targets t = targets" "length targets = length sources"
    using wf by (auto simp: frozen_wf_def edges_ok_def)
  have ids: "subrange (ft_edge_ids t) (below ?rows ?v) (below ?rows (Suc ?v) - below ?rows ?v) = map word_of_nat row"
    unfolding row_def by (rule scattered_row) (use wf in \<open>auto simp: frozen_wf_def scattered_def\<close>)
  show edges: "ft_outgoing_edges t node = Some (map word_of_nat row)"
    using bounds ids by (simp add: ft_outgoing_edges_def range subrange_def)
  show "ft_out_degree t node = Some (length row)"
    by (simp add: ft_out_degree_def range below_Suc row_def)
  have "index_or_panic targets (case to_usize (word_of_nat e :: 'e word) of Some slot \<Rightarrow> slot | None \<Rightarrow> usize_max) =
      Some (targets ! e)" if "e \<in> set row" for e
  proof -
    have "e < length sources" using that by (simp add: row_def row_edges_def)
    then have "unat (word_of_nat e :: 'e word) = e" using m by (intro unat_word_of_nat) simp
    with \<open>e < length sources\<close> m tgts show ?thesis by (simp add: to_usize_def)
  qed
  then show "ft_element_successors t node = Some (map (\<lambda>e. targets ! e) row)"
    by (simp add: ft_element_successors_def edges tgts comp_def those_map_Some)
qed

text \<open>The rows written in terms of the edges: the edges out of a node, in insertion order.\<close>

lemma row_edges_sources:
  "row_edges (map unat sources) (unat (node :: 'n::len word)) =
     filter (\<lambda>e. sources ! e = node) [0..<length sources]"
  unfolding row_edges_def by (rule filter_cong) (auto simp: word_unat_eq_iff)

lemma row_targets:
  "length targets = length sources \<Longrightarrow>
     map (\<lambda>e. targets ! e) (filter (\<lambda>e. P (sources ! e)) [0..<length sources]) =
     map snd (filter (\<lambda>(s, t). P s) (zip sources targets))"
proof (induction sources arbitrary: targets rule: rev_induct)
  case Nil
  then show ?case by simp
next
  case (snoc s sources)
  from snoc.prems obtain targets' u where targets: "targets = targets' @ [u]" "length targets' = length sources"
    by (cases targets rule: rev_cases) auto
  have "map (\<lambda>e. targets ! e) (filter (\<lambda>e. P ((sources @ [s]) ! e)) [0..<length sources]) =
      map (\<lambda>e. targets' ! e) (filter (\<lambda>e. P (sources ! e)) [0..<length sources])"
    by (rule map_cong [OF filter_cong]) (auto simp: targets nth_append)
  with snoc.IH [OF targets(2)] targets show ?case by (simp add: nth_append)
qed

section \<open>Builder runs\<close>

text \<open>
  The builders reached from \<open>new\<close> by any calls, successful or not, with the edges added so far, for
  a chosen edge width.
\<close>

inductive builder_run ::
    "('e::len) itself \<Rightarrow> ('n::len) word graph_builder \<Rightarrow> ('n word \<times> 'n word) list \<Rightarrow> bool"
  for T :: "('e::len) itself" where
  build_new: "builder_run T graph_builder_new []"
| build_node: "builder_run T b edges \<Longrightarrow>
    (gb_add_node b :: (('n word, 'e word) graph_build_error, 'n word) result \<times> 'n word graph_builder) = (r, b') \<Longrightarrow>
    builder_run T b' edges"
| build_edge: "builder_run T b edges \<Longrightarrow>
    (gb_add_edge b source target :: (('n word, 'e word) graph_build_error, 'e word) result \<times> 'n word graph_builder) =
      (Ok edge, b') \<Longrightarrow> builder_run T b' (edges @ [(source, target)])"
| build_rejected: "builder_run T b edges \<Longrightarrow>
    (gb_add_edge b source target :: (('n word, 'e word) graph_build_error, 'e word) result \<times> 'n word graph_builder) =
      (Err err, b') \<Longrightarrow> builder_run T b' edges"

lemma add_node_count:
  assumes "gb_add_node b = (r, b')"
  shows "gb_node_count b \<le> gb_node_count b'"
    and "gb_sources b' = gb_sources b" and "gb_targets b' = gb_targets b"
  using assms by (auto simp: gb_add_node_def next_dense_index_def split: option.splits prod.splits)

lemma ensure_node_Ok_iff: "ensure_node node count = Ok slot \<longleftrightarrow> slot = unat node \<and> slot < count \<and> slot \<le> usize_max"
  by (auto simp: ensure_node_def id_to_slot_Ok_iff to_usize_Some_iff)

lemma add_edge_Ok:
  assumes "gb_add_edge b source target = (Ok (edge :: 'e::len word), b')"
  shows "unat source < gb_node_count b" and "unat target < gb_node_count b"
    and "length (gb_sources b) < 2 ^ LENGTH('e)" and "unat edge = length (gb_sources b)"
    and "b' = b\<lparr>gb_sources := gb_sources b @ [source], gb_targets := gb_targets b @ [target]\<rparr>"
  using assms by (auto simp: gb_add_edge_def ensure_node_Ok_iff from_usize_Some_iff split: sum.splits)

lemma add_edge_Err: "gb_add_edge b source target = (Err err, b') \<Longrightarrow> b' = b"
  by (auto simp: gb_add_edge_def split: sum.splits)

lemma builder_run_inv:
  assumes "builder_run T b edges"
  shows "gb_sources b = map fst edges" and "gb_targets b = map snd edges"
    and "\<forall>(s, t) \<in> set edges. unat s < gb_node_count b \<and> unat t < gb_node_count b"
proof -
  from assms have "gb_sources b = map fst edges \<and> gb_targets b = map snd edges \<and>
    (\<forall>(s, t) \<in> set edges. unat s < gb_node_count b \<and> unat t < gb_node_count b)"
  proof (induction rule: builder_run.induct)
    case build_new
    then show ?case by (simp add: graph_builder_new_def)
  next
    case (build_node b edges r b')
    from build_node.hyps(2) add_node_count [OF build_node.hyps(2)] build_node.IH show ?case
      by (auto simp: split_beta intro: less_le_trans)
  next
    case (build_edge b edges source target edge b')
    then show ?case using add_edge_Ok [OF build_edge.hyps(2)] by auto
  next
    case (build_rejected b edges source target err b')
    then show ?case using add_edge_Err [OF build_rejected.hyps(2)] by simp
  qed
  then show "gb_sources b = map fst edges" and "gb_targets b = map snd edges"
    and "\<forall>(s, t) \<in> set edges. unat s < gb_node_count b \<and> unat t < gb_node_count b" by simp_all
qed

lemma builder_run_edges_ok:
  assumes "builder_run T b edges" and "gb_node_count b < usize_max" and "length edges \<le> usize_max"
  shows "edges_ok (gb_node_count b) (gb_sources b) (gb_targets b)"
  using builder_run_inv [OF assms(1)] assms(2,3) by (auto simp: edges_ok_def)

lemma zip_fst_snd: "zip (map fst xs) (map snd xs) = xs"
  by (induction xs) auto

lemma spos_onto: "p < length rows \<Longrightarrow> \<exists>e < length rows. spos rows e = p"
proof -
  assume p: "p < length rows"
  have "spos rows ` {..<length rows} = {..<length rows}"
    by (rule endo_inj_surj) (auto simp: spos_less inj_on_def dest: spos_inj)
  with p show ?thesis by (metis (no_types, lifting) imageE lessThan_iff)
qed

text \<open>A frozen graph as seen through its zero-copy view.\<close>

lemma frozen_view:
  assumes wf: "frozen_wf n sources targets (t :: (('n::len) word, ('e::len) word) frozen_topology)"
    and n: "n < 2 ^ LENGTH('n)"
  defines "view \<equiv> csr_from_validated_parts (word_of_nat n) n (ft_offsets t) (ft_targets t)"
  shows "csr_wf view" and "unat node < n \<Longrightarrow> csr_row view (unat node) =
    map (\<lambda>e. targets ! e) (row_edges (map unat sources) (unat node))"
proof -
  let ?rows = "map unat sources"
  have m: "length sources < 2 ^ LENGTH('e)" "length sources \<le> usize_max" "n < usize_max"
    and len: "length (ft_targets t) = length sources" "length (ft_offsets t) = n + 1" "length targets = length sources"
    and in_range: "\<And>x. x \<in> set targets \<Longrightarrow> unat x < n" "\<And>x. x \<in> set sources \<Longrightarrow> unat x < n"
    using wf by (auto simp: frozen_wf_def edges_ok_def scattered_def)
  have scat: "ft_targets t ! spos ?rows e = targets ! e" if "e < length sources" for e
    using wf that by (simp add: frozen_wf_def scattered_def)
  have fits: "unat (word_of_nat (below ?rows v) :: 'e word) = below ?rows v" for v
    using below_le [of ?rows v] m by (intro unat_word_of_nat) simp
  have offset: "unat (ft_offsets t ! v) = below ?rows v" if "v < n + 1" for v
    using wf that fits unfolding frozen_wf_def by (simp del: upt_Suc)
  have offsets: "map unat (ft_offsets t) = map (below ?rows) [0..<n + 1]"
    by (rule nth_equalityI) (use len offset in \<open>auto simp del: upt_Suc\<close>)
  have small: "unat x < n" if "x \<in> set (ft_targets t)" for x
  proof -
    from that obtain p where "p < length ?rows" "x = ft_targets t ! p" by (auto simp: in_set_conv_nth len)
    moreover from spos_onto [OF this(1)] obtain e where "e < length sources" "spos ?rows e = p" by auto
    ultimately show ?thesis using scat in_range(1) len by auto
  qed
  have last: "below ?rows n = length sources"
    using below_all [of ?rows n] in_range(2) by auto
  have "sorted (map (below ?rows) [0..<n + 1])"
    by (auto simp: sorted_iff_nth_mono below_mono simp del: upt_Suc)
  moreover have "fits_usize (ft_offsets t)"
    unfolding fits_usize_def
  proof
    fix x assume "x \<in> set (ft_offsets t)"
    then obtain v where "v < n + 1" "x = ft_offsets t ! v" by (auto simp: in_set_conv_nth len)
    then show "unat x \<le> usize_max" using offset [of v] below_le [of ?rows v] m by simp
  qed
  moreover have "fits_usize (ft_targets t)"
    using small m by (fastforce simp: fits_usize_def)
  ultimately show "csr_wf view"
    using m len offset [of 0] offset [of n] last small n unat_word_of_nat [OF n]
    by (auto simp: csr_wf_def offsets_ok_def view_def csr_from_validated_parts_def offsets simp del: upt_Suc)
  show "csr_row view (unat node) = map (\<lambda>e. targets ! e) (row_edges ?rows (unat node))" if "unat node < n"
  proof -
    have "csr_row view (unat node) =
        subrange (ft_targets t) (below ?rows (unat node)) (below ?rows (Suc (unat node)) - below ?rows (unat node))"
      using that offset by (simp add: csr_row_def view_def csr_from_validated_parts_def)
    also have "\<dots> = map (\<lambda>e. targets ! e) (row_edges ?rows (unat node))"
      by (rule scattered_row) (use len scat in auto)
    finally show ?thesis .
  qed
qed

section \<open>Weighted builders refine unweighted ones\<close>

definition strip_weights :: "('n, 'ew, 'rw) weighted_graph_builder \<Rightarrow> 'n graph_builder" where
  "strip_weights b =
     \<lparr>gb_node_count = wgb_node_count b, gb_sources = wgb_sources b, gb_targets = wgb_targets b\<rparr>"

inductive weighted_run ::
    "('e::len) itself \<Rightarrow> (('n::len) word, 'ew, 'rw) weighted_graph_builder \<Rightarrow> bool"
  for T :: "('e::len) itself" where
  weighted_new: "weighted_run T weighted_graph_builder_new"
| weighted_node: "weighted_run T b \<Longrightarrow>
    (wgb_add_node b ew :: (('n word, 'e word) graph_build_error, 'n word) result \<times> _) = (rn, b') \<Longrightarrow>
    weighted_run T b'"
| weighted_edge: "weighted_run T b \<Longrightarrow>
    (wgb_add_edge b source target rw :: (('n word, 'e word) graph_build_error, 'e word) result \<times> _) = (re, b') \<Longrightarrow>
    weighted_run T b'"
| weighted_set_element: "weighted_run T b \<Longrightarrow>
    (wgb_set_element_weight b node ew :: (('n word, 'e word) graph_build_error, _) run) = Some (Ok b') \<Longrightarrow>
    weighted_run T b'"
| weighted_set_relation: "weighted_run T b \<Longrightarrow> wgb_set_relation_weight b (edge :: 'e word) rw = Some (Ok b') \<Longrightarrow>
    weighted_run T b'"

lemma weighted_add_node:
  assumes "(wgb_add_node b w :: (('n word, 'e) graph_build_error, ('n::len) word) result \<times> _) = (r, b')"
  shows "(gb_add_node (strip_weights b) :: (('n word, 'e) graph_build_error, 'n word) result \<times> _) = (r, strip_weights b')"
    and "length (wgb_element_weights b) = wgb_node_count b \<Longrightarrow> length (wgb_element_weights b') = wgb_node_count b'"
    and "wgb_sources b' = wgb_sources b" and "wgb_relation_weights b' = wgb_relation_weights b"
  using assms
  by (auto simp: wgb_add_node_def gb_add_node_def strip_weights_def next_dense_index_def
      split: sum.splits prod.splits option.splits)

lemma weighted_add_edge:
  assumes "wgb_add_edge b source target w = (r, b')"
  shows "gb_add_edge (strip_weights b) source target = (r, strip_weights b')"
    and "length (wgb_relation_weights b) = length (wgb_sources b) \<Longrightarrow>
      length (wgb_relation_weights b') = length (wgb_sources b')"
    and "wgb_element_weights b' = wgb_element_weights b" and "wgb_node_count b' = wgb_node_count b"
  using assms by (auto simp: wgb_add_edge_def gb_add_edge_def strip_weights_def split: sum.splits)

lemma weighted_set_element_eq:
  assumes "length (wgb_element_weights b) = wgb_node_count b" and "wgb_node_count b \<le> usize_max"
  shows "wgb_set_element_weight b node w =
    Some (if unat node < wgb_node_count b
          then Ok (b\<lparr>wgb_element_weights := (wgb_element_weights b)[unat node := w]\<rparr>)
          else Err (InvalidNode node))"
  using assms
  by (auto simp: wgb_set_element_weight_def ensure_node_def id_to_slot_def to_usize_def)

lemma weighted_set_relation_eq:
  assumes "length (wgb_relation_weights b) = length (wgb_sources b)" and "length (wgb_sources b) \<le> usize_max"
  shows "wgb_set_relation_weight b edge w =
    Some (if unat edge < length (wgb_sources b)
          then Ok (b\<lparr>wgb_relation_weights := (wgb_relation_weights b)[unat edge := w]\<rparr>)
          else Err (InvalidEdge edge))"
  using assms
  by (auto simp: wgb_set_relation_weight_def ensure_edge_def id_to_slot_def to_usize_def)

lemma weighted_run_inv:
  assumes "weighted_run T b"
  shows "\<exists>edges. builder_run T (strip_weights b) edges" and "length (wgb_element_weights b) = wgb_node_count b"
    and "length (wgb_relation_weights b) = length (wgb_sources b)"
proof -
  from assms have "(\<exists>edges. builder_run T (strip_weights b) edges) \<and>
    length (wgb_element_weights b) = wgb_node_count b \<and> length (wgb_relation_weights b) = length (wgb_sources b)"
  proof (induction rule: weighted_run.induct)
    case weighted_new
    have "strip_weights weighted_graph_builder_new = graph_builder_new"
      by (simp add: strip_weights_def weighted_graph_builder_new_def graph_builder_new_def)
    then have "\<exists>edges. builder_run T (strip_weights weighted_graph_builder_new) edges"
      using build_new [of T] by metis
    then show ?case by (simp add: weighted_graph_builder_new_def)
  next
    case (weighted_node b ew rn b')
    note step = weighted_add_node [OF weighted_node.hyps(2)]
    from weighted_node.IH step(1) have "\<exists>edges. builder_run T (strip_weights b') edges"
      by (blast intro: build_node)
    with weighted_node.IH step show ?case by simp
  next
    case (weighted_edge b source target rw re b')
    note step = weighted_add_edge [OF weighted_edge.hyps(2)]
    from weighted_edge.IH step(1) have "\<exists>edges. builder_run T (strip_weights b') edges"
      by (cases re) (blast intro: build_edge build_rejected)+
    with weighted_edge.IH step show ?case by simp
  next
    case (weighted_set_element b node ew b')
    then have "strip_weights b' = strip_weights b" "wgb_node_count b' = wgb_node_count b"
      "length (wgb_element_weights b') = length (wgb_element_weights b)"
      "wgb_relation_weights b' = wgb_relation_weights b" "wgb_sources b' = wgb_sources b"
      by (auto simp: wgb_set_element_weight_def strip_weights_def dest!: store_or_panic_SomeD)
    with weighted_set_element.IH show ?case by simp
  next
    case (weighted_set_relation b edge rw b')
    then have "strip_weights b' = strip_weights b" "wgb_node_count b' = wgb_node_count b"
      "length (wgb_relation_weights b') = length (wgb_relation_weights b)"
      "wgb_element_weights b' = wgb_element_weights b" "wgb_sources b' = wgb_sources b"
      by (auto simp: wgb_set_relation_weight_def strip_weights_def dest!: store_or_panic_SomeD)
    with weighted_set_relation.IH show ?case by simp
  qed
  then show "\<exists>edges. builder_run T (strip_weights b) edges" and "length (wgb_element_weights b) = wgb_node_count b"
    and "length (wgb_relation_weights b) = length (wgb_sources b)" by simp_all
qed

lemma wgb_freeze_eq:
  "wgb_freeze b = run_then (gb_freeze (strip_weights b)) (\<lambda>g.
     Some (Ok \<lparr>fwg_topology = fg_topology g, fwg_element_weights = wgb_element_weights b,
               fwg_relation_weights = wgb_relation_weights b\<rparr>))"
  by (simp add: wgb_freeze_def gb_freeze_def strip_weights_def run_then_assoc)

section \<open>Properties\<close>

lemma gb_freeze_wf:
  assumes run: "builder_run TYPE('e::len) b edges" and "gb_node_count b < usize_max" and "length edges \<le> usize_max"
    and "gb_freeze b = Some (Ok (g :: (('n::len) word, 'e word) frozen_graph))"
  shows "frozen_wf (gb_node_count b) (map fst edges) (map snd edges) (fg_topology g)"
    and "edges_ok (gb_node_count b) (map fst edges) (map snd edges)"
  using freeze_topology_wf [OF builder_run_edges_ok [OF assms(1-3)]] builder_run_edges_ok [OF assms(1-3)]
    builder_run_inv [OF run] assms(4)
  by (auto simp: gb_freeze_def)

lemma row_of_edges:
  "row_edges (map unat (map fst edges)) (unat (node :: 'n::len word)) =
     filter (\<lambda>e. fst (edges ! e) = node) [0..<length edges]"
  unfolding row_edges_sources [of "map fst edges"] by (rule filter_cong) simp_all

lemma row_of_targets:
  "map (\<lambda>e. map snd edges ! e) (filter (\<lambda>e. fst (edges ! e) = node) [0..<length edges]) =
     map snd (filter (\<lambda>(s, t). s = node) edges)"
proof -
  have "filter (\<lambda>e. fst (edges ! e) = node) [0..<length edges] =
      filter (\<lambda>e. map fst edges ! e = node) [0..<length (map fst edges)]"
    unfolding length_map by (rule filter_cong) simp_all
  then show ?thesis
    using row_targets [of "map snd edges" "map fst edges" "\<lambda>s. s = node"]
    by (simp only: zip_fst_snd length_map refl if_True)
qed

text \<open>
  C6: freezing what a builder holds never panics, and fails only when the edge count does not fit
  the edge width; otherwise the frozen graph has exactly the builder's nodes, and the outgoing
  edges of each are the edges added with that source, in insertion order, with their
  insertion-order handles, their targets and their number.
\<close>

theorem builder_freeze_rows:
  assumes "builder_run TYPE('e::len) b edges" and "gb_node_count b < usize_max" and "length edges \<le> usize_max"
  shows "if length edges < 2 ^ LENGTH('e) then
      \<exists>g :: (('n::len) word, 'e word) frozen_graph. gb_freeze b = Some (Ok g) \<and>
        (\<forall>node. ft_contains_element (fg_topology g) node \<longleftrightarrow> unat node < gb_node_count b) \<and>
        (\<forall>node. unat node < gb_node_count b \<longrightarrow>
          (let row = filter (\<lambda>e. fst (edges ! e) = node) [0..<length edges] in
           ft_outgoing_edges (fg_topology g) node = Some (map word_of_nat row) \<and>
           ft_out_degree (fg_topology g) node = Some (length row) \<and>
           ft_element_successors (fg_topology g) node = Some (map snd (filter (\<lambda>(s, t). s = node) edges))))
    else \<exists>w. (gb_freeze b :: (_, ('n word, 'e word) frozen_graph) run) = Some (Err (IdOverflow w))"
proof (cases "length edges < 2 ^ LENGTH('e)")
  case True
  note inv = builder_run_inv [OF assms(1)] and ok = builder_run_edges_ok [OF assms]
  from True freeze_topology_Ok [OF ok, where 'e = 'e] inv obtain t :: "('n word, 'e word) frozen_topology" where
    t: "freeze_topology (gb_node_count b) (gb_sources b) (gb_targets b) = Some (Ok t)"
    "frozen_wf (gb_node_count b) (map fst edges) (map snd edges) t" by auto
  then have g: "gb_freeze b = Some (Ok \<lparr>fg_topology = t\<rparr>)" by (simp add: gb_freeze_def)
  show ?thesis
    unfolding if_P [OF True]
    by (rule exI [of _ "\<lparr>fg_topology = t\<rparr>"])
      (simp add: g frozen_contains [OF t(2)] frozen_access [OF t(2), unfolded row_of_edges row_of_targets] Let_def)
next
  case False
  note inv = builder_run_inv [OF assms(1)]
  from False inv obtain w where "(freeze_topology (gb_node_count b) (gb_sources b) (gb_targets b) ::
      (('n word, 'e word) graph_build_error, ('n word, 'e word) frozen_topology) run) = Some (Err (IdOverflow w))"
    using freeze_topology_Err [OF builder_run_edges_ok [OF assms], where 'e = 'e] by auto
  then have "(gb_freeze b :: (_, ('n word, 'e word) frozen_graph) run) = Some (Err (IdOverflow w))"
    by (simp add: gb_freeze_def)
  with False show ?thesis by auto
qed

text \<open>
  The zero-copy view of a frozen graph, built without validation, is one that validation
  accepts, and it agrees with the graph on containment, counts, degrees and successors; it is
  refused only when the node count does not fit the node width.
\<close>

theorem frozen_view_agrees:
  assumes "builder_run TYPE('e::len) b edges" and "gb_node_count b < usize_max" and "length edges \<le> usize_max"
    and "gb_freeze b = Some (Ok (g :: (('n::len) word, 'e word) frozen_graph))"
  shows "case ft_as_view (fg_topology g) of
      Inr view \<Rightarrow>
        csr_validate (csr_node_count view) (csr_offsets view) (csr_targets view) = Some (Ok view) \<and>
        csr_element_count view = ft_element_count (fg_topology g) \<and>
        csr_relation_count view = ft_relation_count (fg_topology g) \<and>
        (\<forall>node. csr_contains_node view node = ft_contains_element (fg_topology g) node) \<and>
        (\<forall>node. csr_contains_node view node \<longrightarrow>
           csr_element_successors view node = ft_element_successors (fg_topology g) node \<and>
           csr_out_degree view node = ft_out_degree (fg_topology g) node)
    | Inl err \<Rightarrow> err = IdOverflow (gb_node_count b) \<and> 2 ^ LENGTH('n) \<le> gb_node_count b"
proof -
  let ?n = "gb_node_count b" and ?t = "fg_topology g"
  note wf = gb_freeze_wf(1) [OF assms]
  have n: "ft_node_count ?t = ?n" and len: "length (ft_targets ?t) = length edges" "length (ft_sources ?t) = length edges"
    using wf by (simp_all add: frozen_wf_def scattered_def)
  show ?thesis
  proof (cases "?n < 2 ^ LENGTH('n)")
    case True
    let ?view = "csr_from_validated_parts (word_of_nat ?n) ?n (ft_offsets ?t) (ft_targets ?t)"
    note view = frozen_view [OF wf True] and acc = frozen_access [OF wf]
    have fields: "csr_node_count ?view = word_of_nat ?n" "csr_node_bound ?view = ?n"
      "csr_offsets ?view = ft_offsets ?t" "csr_targets ?view = ft_targets ?t"
      by (simp_all add: csr_from_validated_parts_def)
    have "csr_validate (word_of_nat ?n) (ft_offsets ?t) (ft_targets ?t) = Some (Ok ?view)"
      using view(1) unat_word_of_nat [OF True] by (simp add: csr_validate_Ok_iff)
    moreover have "csr_contains_node ?view node \<longleftrightarrow> unat node < ?n" for node
      using csr_contains_node_iff [OF view(1)] by (simp add: fields)
    moreover have "csr_element_successors ?view node = ft_element_successors ?t node"
      "csr_out_degree ?view node = ft_out_degree ?t node" if "unat node < ?n" for node
      using csr_element_successors_row [OF view(1), of node] csr_out_degree_row [OF view(1), of node]
        view(2) [OF that] acc [OF that] that by (simp_all add: fields)
    moreover have "ft_as_view ?t = Ok ?view"
      using True by (simp add: ft_as_view_def n from_usize_def)
    ultimately show ?thesis
      by (simp add: fields n len frozen_contains [OF wf] csr_element_count_def csr_relation_count_def
          ft_element_count_def ft_relation_count_def)
  next
    case False
    then show ?thesis by (simp add: ft_as_view_def n from_usize_def)
  qed
qed

text \<open>
  the transpose of a frozen graph succeeds, has the edges into each node as its outgoing edges,
  keeps their canonical handles, and transposing it again gives the graph back.
\<close>

theorem transpose_reverses:
  assumes "builder_run TYPE('e::len) b edges" and "gb_node_count b < usize_max" and "length edges \<le> usize_max"
    and "gb_freeze b = Some (Ok (g :: (('n::len) word, 'e word) frozen_graph))"
  shows "\<exists>h. fg_transpose g = Some (Ok h) \<and> fg_transpose h = Some (Ok g) \<and>
    (\<forall>edge. ft_source (fg_topology h) edge = ft_target (fg_topology g) edge \<and>
            ft_target (fg_topology h) edge = ft_source (fg_topology g) edge) \<and>
    (\<forall>node. unat node < gb_node_count b \<longrightarrow>
       ft_outgoing_edges (fg_topology h) node =
         Some (map word_of_nat (filter (\<lambda>e. snd (edges ! e) = node) [0..<length edges])) \<and>
       ft_element_successors (fg_topology h) node = Some (map fst (filter (\<lambda>(s, t). t = node) edges)))"
proof -
  let ?n = "gb_node_count b" and ?swap = "map (\<lambda>(s, t). (t, s)) edges"
  note wf = gb_freeze_wf(1) [OF assms] and ok = gb_freeze_wf(2) [OF assms]
  have swap: "map fst ?swap = map snd edges" "map snd ?swap = map fst edges" by auto
  from ok have ok': "edges_ok ?n (map snd edges) (map fst edges)" by (auto simp: edges_ok_def)
  have t: "ft_node_count (fg_topology g) = ?n" "ft_sources (fg_topology g) = map fst edges"
    "ft_edge_targets (fg_topology g) = map snd edges" "length edges < 2 ^ LENGTH('e)"
    using wf by (simp_all add: frozen_wf_def)
  from freeze_topology_Ok [OF ok', where 'e = 'e] t(4) obtain t' :: "('n word, 'e word) frozen_topology" where
    t1: "freeze_topology ?n (map snd edges) (map fst edges) = Some (Ok t')"
    and t2: "frozen_wf ?n (map snd edges) (map fst edges) t'" by auto
  have t': "frozen_wf ?n (map fst ?swap) (map snd ?swap) t'" unfolding swap by (rule t2)
  let ?h = "\<lparr>fg_topology = t'\<rparr>"
  have swapped: "ft_node_count t' = ?n" "ft_sources t' = map snd edges" "ft_edge_targets t' = map fst edges"
    using t2 by (simp_all add: frozen_wf_def)
  have once: "fg_transpose g = Some (Ok ?h)" by (simp add: fg_transpose_def t t1)
  have "(gb_freeze b :: (_, ('n word, 'e word) frozen_graph) run) =
      run_then (freeze_topology ?n (map fst edges) (map snd edges)) (\<lambda>t. Some (Ok \<lparr>fg_topology = t\<rparr>))"
    using builder_run_inv [OF assms(1)] by (simp add: gb_freeze_def)
  then have twice: "fg_transpose ?h = Some (Ok g)"
    using assms(4) by (simp add: fg_transpose_def swapped)
  have rows: "filter (\<lambda>e. fst (?swap ! e) = node) [0..<length ?swap] = filter (\<lambda>e. snd (edges ! e) = node) [0..<length edges]"
    for node by (rule filter_cong) (auto simp: split_beta)
  have incoming: "map snd (filter (\<lambda>(s, t). s = node) ?swap) = map fst (filter (\<lambda>(s, t). t = node) edges)" for node
    by (induction edges) auto
  note acc = frozen_access [OF t', unfolded row_of_edges row_of_targets, unfolded rows incoming]
  show ?thesis
    by (rule exI [of _ ?h])
      (simp add: once twice acc ft_source_def ft_target_def t swapped)
qed

text \<open>
  A weighted builder is an unweighted one with weights beside it: whatever calls it went through,
  its nodes and edges are those of an unweighted builder after such calls, it freezes exactly
  like that one, and its two weight updates never panic, refuse exactly the handles that are not
  visible, and otherwise change one weight, which the frozen graph then returns.
\<close>

theorem weighted_builder_refines:
  assumes "weighted_run TYPE('e::len) b" and "wgb_node_count b < usize_max" and "length (wgb_sources b) \<le> usize_max"
  shows "(\<exists>edges. builder_run TYPE('e) (strip_weights b) edges) \<and>
    wgb_freeze b = run_then (gb_freeze (strip_weights b)) (\<lambda>g.
      Some (Ok \<lparr>fwg_topology = fg_topology (g :: (('n::len) word, 'e word) frozen_graph),
                fwg_element_weights = wgb_element_weights b, fwg_relation_weights = wgb_relation_weights b\<rparr>)) \<and>
    (wgb_set_element_weight b node ew :: (('n word, 'e word) graph_build_error, _) run) =
      Some (if unat node < wgb_node_count b
            then Ok (b\<lparr>wgb_element_weights := (wgb_element_weights b)[unat node := ew]\<rparr>)
            else Err (InvalidNode node)) \<and>
    wgb_set_relation_weight b edge rw =
      Some (if unat edge < length (wgb_sources b)
            then Ok (b\<lparr>wgb_relation_weights := (wgb_relation_weights b)[unat edge := rw]\<rparr>)
            else Err (InvalidEdge edge)) \<and>
    (unat node < wgb_node_count b \<longrightarrow>
      fwg_element_weight \<lparr>fwg_topology = topology,
        fwg_element_weights = (wgb_element_weights b)[unat node := ew],
        fwg_relation_weights = wgb_relation_weights b\<rparr> node = Some ew)"
proof -
  note inv = weighted_run_inv [OF assms(1)]
  have "wgb_node_count b \<le> usize_max" using assms(2) by simp
  note element = weighted_set_element_eq [OF inv(2) this] and relation = weighted_set_relation_eq [OF inv(3) assms(3)]
  have "unat node < wgb_node_count b \<longrightarrow>
      fwg_element_weight \<lparr>fwg_topology = topology,
        fwg_element_weights = (wgb_element_weights b)[unat node := ew],
        fwg_relation_weights = wgb_relation_weights b\<rparr> node = Some ew"
    using inv(2) assms(2) by (simp add: fwg_element_weight_def node_slot_eq)
  with inv(1) show ?thesis
    by (intro conjI) (rule wgb_freeze_eq element relation | assumption)+
qed

text \<open>Two nodes and the edges \<open>0 \<rightarrow> 1\<close>, \<open>1 \<rightarrow> 0\<close>, \<open>1 \<rightarrow> 1\<close>, of 16-bit handles.\<close>

definition example_builder :: "16 word graph_builder" where
  "example_builder = \<lparr>gb_node_count = 2, gb_sources = [0, 1, 1], gb_targets = [1, 0, 1]\<rparr>"

lemma example_builder_run: "builder_run TYPE(16) example_builder [(0, 1), (1, 0), (1, 1)]"
proof -
  have n1: "(gb_add_node graph_builder_new :: ((16 word, 16 word) graph_build_error, 16 word) result \<times> _) =
      (Ok 0, \<lparr>gb_node_count = 1, gb_sources = [], gb_targets = []\<rparr>)"
    by (simp add: gb_add_node_def graph_builder_new_def next_dense_index_def from_usize_def checked_add_def usize_max_def)
  have n2: "(gb_add_node \<lparr>gb_node_count = 1, gb_sources = [], gb_targets = []\<rparr> ::
      ((16 word, 16 word) graph_build_error, 16 word) result \<times> _) =
      (Ok 1, \<lparr>gb_node_count = 2, gb_sources = [], gb_targets = []\<rparr>)"
    by (simp add: gb_add_node_def next_dense_index_def from_usize_def checked_add_def usize_max_def)
  have e: "gb_add_edge \<lparr>gb_node_count = 2, gb_sources = ss, gb_targets = ts\<rparr> s t =
      (Ok (word_of_nat (length ss) :: 16 word), \<lparr>gb_node_count = 2, gb_sources = ss @ [s], gb_targets = ts @ [t]\<rparr>)"
    if "s = 0 \<or> s = 1" "t = 0 \<or> t = 1" "length ss < 3" for ss ts and s t :: "16 word"
    using that by (auto simp: gb_add_edge_def ensure_node_def id_to_slot_def to_usize_def usize_max_def from_usize_def)
  note run = build_node [OF build_node [OF build_new n1] n2]
  have "builder_run TYPE(16) \<lparr>gb_node_count = 2, gb_sources = [] @ [0 :: 16 word], gb_targets = [] @ [1]\<rparr> ([] @ [(0, 1)])"
    by (rule build_edge [OF run e]) simp_all
  then have "builder_run TYPE(16) \<lparr>gb_node_count = 2, gb_sources = [0 :: 16 word] @ [1], gb_targets = [1] @ [0]\<rparr>
      ([(0, 1)] @ [(1, 0)])"
    by (intro build_edge [OF _ e]) simp_all
  then have "builder_run TYPE(16) \<lparr>gb_node_count = 2, gb_sources = [0 :: 16 word, 1] @ [1], gb_targets = [1, 0] @ [1]\<rparr>
      ([(0, 1), (1, 0)] @ [(1, 1)])"
    by (intro build_edge [OF _ e]) simp_all
  then show ?thesis by (simp add: example_builder_def)
qed

lemma example_builder_small: "gb_node_count example_builder < usize_max" "length [(0 :: nat, 1 :: nat), (1, 0), (1, 1)] \<le> usize_max"
  by (simp_all add: example_builder_def usize_max_def)

lemma example_builder_freezes: "\<exists>g :: (16 word, 16 word) frozen_graph. gb_freeze example_builder = Some (Ok g)"
proof -
  have "edges_ok 2 [0, 1, 1 :: 16 word] [1, 0, 1]" by (simp add: edges_ok_def usize_max_def)
  from freeze_topology_Ok [OF this, where 'e = 16] show ?thesis
    by (auto simp: gb_freeze_def example_builder_def)
qed

theorem builder_freeze_rows_witness:
  "\<exists>g :: (16 word, 16 word) frozen_graph. gb_freeze example_builder = Some (Ok g) \<and>
     ft_element_successors (fg_topology g) 1 = Some [0, 1] \<and> ft_outgoing_edges (fg_topology g) 1 = Some [1, 2]"
  using builder_freeze_rows [OF example_builder_run] example_builder_small
  by (auto simp: example_builder_def Let_def upt_rec)

theorem frozen_view_agrees_witness:
  "\<exists>g :: (16 word, 16 word) frozen_graph. gb_freeze example_builder = Some (Ok g) \<and>
     (\<exists>view. ft_as_view (fg_topology g) = Ok view \<and>
        csr_validate (csr_node_count view) (csr_offsets view) (csr_targets view) = Some (Ok view))"
proof -
  obtain g :: "(16 word, 16 word) frozen_graph" where g: "gb_freeze example_builder = Some (Ok g)"
    using example_builder_freezes by blast
  with frozen_view_agrees [OF example_builder_run _ _ g] example_builder_small show ?thesis
    by (cases "ft_as_view (fg_topology g)") (auto simp: example_builder_def)
qed

theorem transpose_reverses_witness:
  "\<exists>g h :: (16 word, 16 word) frozen_graph. gb_freeze example_builder = Some (Ok g) \<and>
     fg_transpose g = Some (Ok h) \<and> ft_element_successors (fg_topology h) 1 = Some [0, 1]"
proof -
  obtain g :: "(16 word, 16 word) frozen_graph" where g: "gb_freeze example_builder = Some (Ok g)"
    using example_builder_freezes by blast
  with transpose_reverses [OF example_builder_run _ _ g] example_builder_small show ?thesis
    by (auto simp: example_builder_def)
qed

theorem weighted_builder_refines_witness:
  "wgb_set_element_weight (weighted_graph_builder_new :: (16 word, nat, nat) weighted_graph_builder) 3 5 =
     Some (Err (InvalidNode 3 :: (16 word, 16 word) graph_build_error))"
  using weighted_builder_refines [OF weighted_new [of "TYPE(16)"], where node = "3 :: 16 word" and ew = "5 :: nat"
      and rw = "0 :: nat" and edge = "0 :: 16 word"]
  by (simp add: weighted_graph_builder_new_def usize_max_def)

end
