(* ===== verification/SliceSearch.thy ===== *)
theory SliceSearch
  imports Prelude
begin

text \<open>
  \<open>slice::binary_search_by\<close> of the standard library, which the code calls on tables whose keys are
  strictly ascending, and the interface of such a table: what a lookup by key returns.
\<close>

datatype ordering = Less | Equal | Greater

definition cmp :: "'k::linorder \<Rightarrow> 'k \<Rightarrow> ordering" where
  "cmp a b = (if a < b then Less else if a = b then Equal else Greater)"

lemma cmp_iff [simp]:
  "cmp a b = Less \<longleftrightarrow> a < b" "cmp a b = Equal \<longleftrightarrow> a = b" "cmp a b = Greater \<longleftrightarrow> b < a"
  by (auto simp: cmp_def)

function binary_search_loop :: "(nat \<Rightarrow> ordering) \<Rightarrow> nat \<Rightarrow> nat \<Rightarrow> nat" where
  "binary_search_loop f base left =
     (if 1 < left then
        let half = left div 2; mid = base + half
        in binary_search_loop f (if f mid = Greater then base else mid) (left - half)
      else base)"
  by pat_completeness auto

termination
  by (relation "measure (\<lambda>(f, base, left). left)") auto

declare binary_search_loop.simps [simp del]

definition binary_search_by :: "('a \<Rightarrow> ordering) \<Rightarrow> 'a list \<Rightarrow> (nat, nat) result" where
  "binary_search_by f xs =
     (if xs = [] then Err 0
      else
        let base = binary_search_loop (\<lambda>i. f (xs ! i)) 0 (length xs)
        in case f (xs ! base) of
             Equal \<Rightarrow> Ok base
           | Less \<Rightarrow> Err (base + 1)
           | Greater \<Rightarrow> Err base)"

lemma binary_search_loop_step:
  "1 < left \<Longrightarrow> binary_search_loop f base left =
     binary_search_loop f (if f (base + left div 2) = Greater then base else base + left div 2)
       (left - left div 2)"
  by (subst binary_search_loop.simps) (simp add: Let_def)

lemma binary_search_loop_stop: "left \<le> 1 \<Longrightarrow> binary_search_loop f base left = base"
  by (subst binary_search_loop.simps) simp

lemma binary_search_loop_spec:
  assumes "\<And>i j. i < j \<Longrightarrow> j < n \<Longrightarrow> f i = Greater \<Longrightarrow> f j = Greater"
    and "0 < left" "base + left \<le> n" "base = 0 \<or> f base \<noteq> Greater"
    and "\<And>j. base + left \<le> j \<Longrightarrow> j < n \<Longrightarrow> f j = Greater"
  shows "let r = binary_search_loop f base left in
    r < n \<and> (r = 0 \<or> f r \<noteq> Greater) \<and> (\<forall>j. r < j \<longrightarrow> j < n \<longrightarrow> f j = Greater)"
  using assms
proof (induction f base left rule: binary_search_loop.induct)
  case (1 f base left)
  show ?case
  proof (cases "1 < left")
    case False
    with 1(3) have "left = 1" by simp
    with 1(4,5,6) show ?thesis by (simp add: binary_search_loop_stop)
  next
    case True
    let ?mid = "base + left div 2" and ?rest = "left - left div 2"
    let ?base = "if f ?mid = Greater then base else ?mid"
    from True have half: "0 < left div 2" "left div 2 \<le> ?rest" "left div 2 < left" by auto
    have above: "f j = Greater" if "?base + ?rest \<le> j" "j < n" for j
    proof (cases "f ?mid = Greater")
      case True
      with that half have "?mid \<le> j" by simp
      with True that 1(2) [of ?mid j] show ?thesis by (cases "?mid = j") auto
    next
      case False
      with that half have "base + left \<le> j" by simp
      with that 1(6) show ?thesis by blast
    qed
    have inside: "?base + ?rest \<le> n" using 1(4) half by auto
    have start: "?base = 0 \<or> f ?base \<noteq> Greater" using 1(5) by auto
    have left: "0 < ?rest" using half by simp
    show ?thesis
      unfolding binary_search_loop_step [OF True]
      by (rule 1(1) [OF True refl refl 1(2) left inside start above])
  qed
qed

lemma binary_search_by_Ok_iff:
  assumes "sorted_wrt (<) (map key xs)"
  shows "binary_search_by (\<lambda>x. cmp (key x) k) xs = Ok i \<longleftrightarrow> i < length xs \<and> key (xs ! i) = k"
proof (cases "xs = []")
  case True
  then show ?thesis by (simp add: binary_search_by_def)
next
  case False
  let ?f = "\<lambda>i. cmp (key (xs ! i)) k"
  have less: "key (xs ! i) < key (xs ! j)" if "i < j" "j < length xs" for i j
    using assms that by (auto simp: sorted_wrt_iff_nth_less)
  define r where "r = binary_search_loop ?f 0 (length xs)"
  have "let r = binary_search_loop ?f 0 (length xs) in
      r < length xs \<and> (r = 0 \<or> ?f r \<noteq> Greater) \<and> (\<forall>j. r < j \<longrightarrow> j < length xs \<longrightarrow> ?f j = Greater)"
    by (rule binary_search_loop_spec) (use False less in \<open>auto intro: less_trans\<close>)
  then have r: "r < length xs" "r = 0 \<or> key (xs ! r) \<le> k"
    and above: "\<And>j. r < j \<Longrightarrow> j < length xs \<Longrightarrow> k < key (xs ! j)"
    by (auto simp: r_def Let_def)
  have unfolded: "binary_search_by (\<lambda>x. cmp (key x) k) xs =
      (case ?f r of Equal \<Rightarrow> Ok r | Less \<Rightarrow> Err (r + 1) | Greater \<Rightarrow> Err r)"
    unfolding binary_search_by_def Let_def r_def [symmetric] using False by simp
  have only: "i = r" if "i < length xs" "key (xs ! i) = k" for i
  proof (rule ccontr)
    assume "i \<noteq> r"
    with that above have "i < r" by (metis less_irrefl linorder_neqE_nat)
    with less [of i r] r that show False by auto
  qed
  have "binary_search_by (\<lambda>x. cmp (key x) k) xs = Ok i \<longleftrightarrow> i = r \<and> key (xs ! r) = k"
    unfolding unfolded by (auto simp: cmp_def)
  then show ?thesis using r(1) only by blast
qed

lemma binary_search_by_Err:
  assumes "sorted_wrt (<) (map key xs)"
  shows "(\<exists>p. binary_search_by (\<lambda>x. cmp (key x) k) xs = Err p) \<longleftrightarrow> k \<notin> key ` set xs"
proof -
  have "k \<in> key ` set xs \<longleftrightarrow> (\<exists>i. binary_search_by (\<lambda>x. cmp (key x) k) xs = Ok i)"
    unfolding binary_search_by_Ok_iff [OF assms] set_map [symmetric] in_set_conv_nth by auto
  then show ?thesis by (cases "binary_search_by (\<lambda>x. cmp (key x) k) xs") auto
qed

section \<open>A comparator that can panic\<close>

text \<open>The same search with a closure that can panic: only the probes it makes matter.\<close>

function binary_search_probe :: "(nat \<Rightarrow> ordering option) \<Rightarrow> nat \<Rightarrow> nat \<Rightarrow> nat option" where
  "binary_search_probe f base left =
     (if 1 < left then
        let half = left div 2; mid = base + half
        in case f mid of
             None \<Rightarrow> None
           | Some order \<Rightarrow>
               binary_search_probe f (if order = Greater then base else mid) (left - half)
      else Some base)"
  by pat_completeness auto

termination
  by (relation "measure (\<lambda>(f, base, left). left)") auto

declare binary_search_probe.simps [simp del]

definition binary_search_or_panic :: "('a \<Rightarrow> ordering option) \<Rightarrow> 'a list \<Rightarrow> (nat, nat) result option" where
  "binary_search_or_panic f xs =
     (if xs = [] then Some (Err 0)
      else
        Option.bind (binary_search_probe (\<lambda>i. f (xs ! i)) 0 (length xs)) (\<lambda>base.
        Option.bind (f (xs ! base)) (\<lambda>order.
          case order of
            Equal \<Rightarrow> Some (Ok base)
          | Less \<Rightarrow> Some (Err (base + 1))
          | Greater \<Rightarrow> Some (Err base))))"

lemma binary_search_probe_total:
  assumes "\<And>i. base \<le> i \<Longrightarrow> i < base + left \<Longrightarrow> f i = Some (g i)"
  shows "binary_search_probe f base left = Some (binary_search_loop g base left)"
  using assms
proof (induction g base left rule: binary_search_loop.induct)
  case (1 g base left)
  show ?case
  proof (cases "1 < left")
    case False
    then show ?thesis by (simp add: binary_search_probe.simps [of f base left] binary_search_loop_stop)
  next
    case True
    let ?mid = "base + left div 2"
    let ?base = "if g ?mid = Greater then base else ?mid"
    have mid: "f ?mid = Some (g ?mid)" using True by (intro 1(2)) auto
    have "binary_search_probe f ?base (left - left div 2) = Some (binary_search_loop g ?base (left - left div 2))"
      by (rule 1(1) [OF True refl refl]) (use True in \<open>auto intro: 1(2) split: if_splits\<close>)
    then show ?thesis
      using True mid
      by (simp add: binary_search_probe.simps [of f base left] binary_search_loop_step Let_def)
  qed
qed

lemma binary_search_loop_bound:
  "0 < left \<Longrightarrow> binary_search_loop g base left < base + left"
proof (induction g base left rule: binary_search_loop.induct)
  case (1 g base left)
  show ?case
  proof (cases "1 < left")
    case False
    then show ?thesis using 1(2) by (simp add: binary_search_loop_stop)
  next
    case True
    let ?base = "if g (base + left div 2) = Greater then base else base + left div 2"
    have "binary_search_loop g ?base (left - left div 2) < ?base + (left - left div 2)"
      by (rule 1(1) [OF True refl refl]) (use True in auto)
    also have "\<dots> \<le> base + left" by auto
    finally show ?thesis by (simp add: binary_search_loop_step [OF True])
  qed
qed

lemma binary_search_or_panic_total:
  assumes "\<And>x. x \<in> set xs \<Longrightarrow> f x = Some (g x)"
  shows "binary_search_or_panic f xs = Some (binary_search_by g xs)"
proof (cases "xs = []")
  case True
  then show ?thesis by (simp add: binary_search_or_panic_def binary_search_by_def)
next
  case False
  define base where "base = binary_search_loop (\<lambda>i. g (xs ! i)) 0 (length xs)"
  have "binary_search_probe (\<lambda>i. f (xs ! i)) 0 (length xs) = Some base"
    unfolding base_def by (rule binary_search_probe_total) (simp add: assms)
  moreover have "base < length xs"
    unfolding base_def using binary_search_loop_bound [of "length xs" "\<lambda>i. g (xs ! i)" 0] False by simp
  then have "f (xs ! base) = Some (g (xs ! base))" by (simp add: assms)
  ultimately show ?thesis using False
    by (simp add: binary_search_or_panic_def binary_search_by_def Let_def flip: base_def split: ordering.splits)
qed

section \<open>Tables looked up by key\<close>

locale keyed_table =
  fixes keys :: "'t \<Rightarrow> 'k list"
    and find_index :: "'t \<Rightarrow> 'k \<Rightarrow> nat option"
    and inv :: "'t \<Rightarrow> bool"
  assumes keys_distinct: "inv t \<Longrightarrow> distinct (keys t)"
    and find_hit: "inv t \<Longrightarrow> find_index t k = Some i \<Longrightarrow> i < length (keys t) \<and> keys t ! i = k"
    and find_miss: "inv t \<Longrightarrow> find_index t k = None \<Longrightarrow> k \<notin> set (keys t)"
begin

lemma find_Some_iff:
  assumes "inv t"
  shows "find_index t k = Some i \<longleftrightarrow> i < length (keys t) \<and> keys t ! i = k"
proof
  assume i: "i < length (keys t) \<and> keys t ! i = k"
  then obtain j where "find_index t k = Some j"
    using find_miss [OF assms, of k] by (cases "find_index t k") auto
  with i assms show "find_index t k = Some i"
    using find_hit [OF assms, of k j] keys_distinct [OF assms] by (metis nth_eq_iff_index_eq)
qed (use assms find_hit in blast)

lemma find_None_iff: "inv t \<Longrightarrow> find_index t k = None \<longleftrightarrow> k \<notin> set (keys t)"
  using find_hit [of t k] find_miss [of t k] nth_mem [of _ "keys t"]
  by (cases "find_index t k") auto

text \<open>A lookup is the map the table lists.\<close>

lemma find_is_map:
  assumes "inv t" and "length vs = length (keys t)"
  shows "map_option (nth vs) (find_index t k) = map_of (zip (keys t) vs) k"
proof (cases "find_index t k")
  case None
  with assms have "k \<notin> set (keys t)" by (simp add: find_None_iff)
  with assms None show ?thesis by (metis map_of_zip_is_None option.map_disc_iff)
next
  case (Some i)
  then have i: "i < length (keys t)" and k: "keys t ! i = k"
    using find_hit [OF assms(1)] by auto
  have "map_of (zip (keys t) vs) (keys t ! i) = Some (vs ! i)"
    by (rule map_of_zip_nth) (use assms i keys_distinct in auto)
  with Some show ?thesis by (simp add: k)
qed

end

end
