(* ===== verification/SnapshotRead.thy ===== *)
theory SnapshotRead
  imports SnapshotFormat SliceSearch
begin

text \<open>
  The snapshot reader of \<open>crates/oxgraph-snapshot/src/container.rs\<close>: header parsing, the validation of
  the section table at its two levels, the opened snapshot with its sections, lookup by kind,
  typed sections, and the checksum checks. A borrowed snapshot is its whole byte list; the
  checksum is a parameter, as in the code.
\<close>

section \<open>Header\<close>

definition parse_header :: "byte list \<Rightarrow> (snapshot_error, raw_header \<times> byte list) result" where
  "parse_header bytes =
     (if length bytes < HEADER_SIZE then Err (TruncatedHeader HEADER_SIZE (length bytes))
      else Ok (header_from_bytes (take HEADER_SIZE bytes), drop HEADER_SIZE bytes))"

definition validate_magic_versions_reserved :: "raw_header \<Rightarrow> (snapshot_error, unit) result" where
  "validate_magic_versions_reserved h =
     (if hdr_magic h \<noteq> FORMAT_MAGIC then Err (BadMagic (hdr_magic h))
      else if hdr_format_major h \<noteq> FORMAT_MAJOR then
        Err (FormatMajorMismatch (hdr_format_major h) FORMAT_MAJOR)
      else if hdr_format_minor h > MAX_SUPPORTED_MINOR then
        Err (FormatMinorTooNew (hdr_format_minor h) MAX_SUPPORTED_MINOR)
      else if hdr_header_size h \<noteq> HEADER_SIZE_U32 then
        Err (HeaderSizeMismatch (hdr_header_size h) HEADER_SIZE_U32)
      else if hdr_reserved h \<noteq> [0, 0, 0, 0] then Err NonZeroHeaderReserved
      else Ok ())"

section \<open>Sections\<close>

record snap_section =
  sec_payload :: "byte list"
  sec_kind :: u32
  sec_version :: u32
  sec_crc32c :: u32
  sec_alignment_log2 :: u8

text \<open>\<open>u64_to_usize_validated\<close>: \<open>None\<close> is the \<open>unreachable!\<close> branch.\<close>

definition u64_to_usize_validated :: "u64 \<Rightarrow> nat option" where
  "u64_to_usize_validated value = to_usize value"

definition section_from_entry :: "byte list \<Rightarrow> raw_section_entry \<Rightarrow> snap_section option" where
  "section_from_entry bytes e =
     Option.bind (u64_to_usize_validated (ent_offset e)) (\<lambda>offset.
     Option.bind (u64_to_usize_validated (ent_length e)) (\<lambda>len.
     Option.bind (checked_add offset len) (\<lambda>stop.
     Option.bind (slice_or_panic bytes offset stop) (\<lambda>payload.
       Some \<lparr>sec_payload = payload, sec_kind = ent_kind e, sec_version = ent_version e,
             sec_crc32c = ent_crc32c e, sec_alignment_log2 = ent_alignment_log2 e\<rparr>))))"

definition section_declared_alignment :: "snap_section \<Rightarrow> nat" where
  "section_declared_alignment s = 2 ^ unat (sec_alignment_log2 s)"

definition section_verify ::
    "(u32 \<Rightarrow> byte list \<Rightarrow> u32) \<Rightarrow> snap_section \<Rightarrow> (section_view_error, unit) result" where
  "section_verify checksum s =
     (let actual = checksum 0 (sec_payload s)
      in if actual = sec_crc32c s then Ok ()
         else Err (ChecksumMismatch (sec_kind s) (sec_crc32c s) actual))"

text \<open>
  \<open>try_as_slice\<close> of an element type of the given size and alignment, for a payload at the given
  address: the bytes of each element. With the two checks passed the cast itself succeeds.
\<close>

definition try_as_slice ::
    "nat \<Rightarrow> nat \<Rightarrow> nat \<Rightarrow> snap_section \<Rightarrow> (section_view_error, byte list list) result" where
  "try_as_slice elem_size required ptr_addr s =
     (let len = length (sec_payload s)
      in if elem_size = 0 then Err ZeroSizedType
         else if len mod elem_size \<noteq> 0 then Err (LengthNotMultipleOfSize len elem_size)
         else if ptr_addr mod required \<noteq> 0 then Err (AlignmentMismatch ptr_addr required)
         else Ok (map (\<lambda>i. subrange (sec_payload s) (i * elem_size) elem_size) [0..<len div elem_size]))"

section \<open>The section table\<close>

datatype validation_level = SectionTable | LayoutLevel

text \<open>The walk run at every level; \<open>prev\<close> is the kind of the preceding entry.\<close>

fun entry_walk :: "u64 \<Rightarrow> u32 option \<Rightarrow> raw_section_entry list \<Rightarrow> (snapshot_error, unit) result" where
  "entry_walk snapshot_len prev [] = Ok ()"
| "entry_walk snapshot_len prev (e # es) =
     (let kind = ent_kind e in
      if (case prev of Some p \<Rightarrow> kind \<le> p | None \<Rightarrow> False) then Err (NonAscendingKind kind (the prev))
      else if ent_flags e \<noteq> 0 then Err (UnsupportedFlags kind (ent_flags e))
      else if ent_reserved e \<noteq> [0, 0] then Err (NonZeroEntryReserved kind)
      else if ent_alignment_log2 e > MAX_ALIGNMENT_LOG2 then
        Err (AlignmentLog2TooLarge kind (ent_alignment_log2 e))
      else
        case word_checked_add (ent_offset e) (ent_length e) of
          None \<Rightarrow> Err (SectionRangeOverflow kind)
        | Some stop \<Rightarrow>
            if stop > snapshot_len
            then Err (SectionOutOfBounds kind (ent_offset e) (ent_length e) snapshot_len)
            else entry_walk snapshot_len (Some kind) es)"

text \<open>The layout walk: no section starts before its predecessor ends.\<close>

fun layout_walk :: "nat \<Rightarrow> u64 \<Rightarrow> raw_section_entry list \<Rightarrow> (snapshot_error, unit) result" where
  "layout_walk index prev_end [] = Ok ()"
| "layout_walk index prev_end (e # es) =
     (if ent_offset e < prev_end then Err (UnsortedSectionTable index)
      else layout_walk (index + 1) (word_saturating_add (ent_offset e) (ent_length e)) es)"

definition validate_section_table ::
    "byte list \<Rightarrow> raw_section_entry list \<Rightarrow> validation_level \<Rightarrow> (snapshot_error, unit) result" where
  "validate_section_table bytes entries level =
     and_then (entry_walk (word_of_nat (length bytes)) None entries) (\<lambda>_.
       if level = SectionTable then Ok ()
       else
         case word_checked_add (word_of_nat HEADER_SIZE)
                (word_saturating_mul (word_of_nat (length entries)) (word_of_nat SECTION_ENTRY_SIZE)) of
           None \<Rightarrow> Err (SectionRangeOverflow 0)
         | Some header_plus_table \<Rightarrow> layout_walk 0 header_plus_table entries)"

definition table_checksum :: "byte list \<Rightarrow> (u32 \<Rightarrow> byte list \<Rightarrow> u32) \<Rightarrow> u32" where
  "table_checksum table_bytes checksum = checksum 0 table_bytes"

section \<open>Opening\<close>

record header_only_snapshot =
  ho_bytes :: "byte list"
  ho_format_major :: u32
  ho_format_minor :: u32

definition header_only_open :: "byte list \<Rightarrow> (snapshot_error, header_only_snapshot) result" where
  "header_only_open bytes =
     and_then (parse_header bytes) (\<lambda>(h, _).
     and_then (validate_magic_versions_reserved h) (\<lambda>_.
       Ok \<lparr>ho_bytes = bytes, ho_format_major = hdr_format_major h, ho_format_minor = hdr_format_minor h\<rparr>))"

record snapshot =
  snap_bytes :: "byte list"
  snap_format_major :: u32
  snap_format_minor :: u32
  snap_table_crc32c :: u32
  snap_entries :: "raw_section_entry list"

definition snapshot_open_with :: "byte list \<Rightarrow> validation_level \<Rightarrow> (snapshot_error, snapshot) result" where
  "snapshot_open_with bytes level =
     and_then (parse_header bytes) (\<lambda>(h, after_header).
     and_then (validate_magic_versions_reserved h) (\<lambda>_.
       if hdr_section_count h > MAX_SECTION_COUNT
       then Err (SectionCountTooLarge (hdr_section_count h) MAX_SECTION_COUNT)
       else
         and_then (ok_or (SnapshotUsizeOverflow (ucast (hdr_section_count h)))
                     (to_usize (hdr_section_count h))) (\<lambda>section_count.
         and_then (ok_or (SectionCountTooLarge (hdr_section_count h) MAX_SECTION_COUNT)
                     (checked_mul section_count SECTION_ENTRY_SIZE)) (\<lambda>table_len.
           if length after_header < table_len
           then Err (TruncatedSectionTable table_len (length after_header))
           else
             let entries = entries_from_bytes section_count (take table_len after_header)
             in and_then (validate_section_table bytes entries level) (\<lambda>_.
                  Ok \<lparr>snap_bytes = bytes, snap_format_major = hdr_format_major h,
                      snap_format_minor = hdr_format_minor h,
                      snap_table_crc32c = hdr_table_crc32c h, snap_entries = entries\<rparr>)))))"

definition snapshot_open :: "byte list \<Rightarrow> (snapshot_error, snapshot) result" where
  "snapshot_open bytes = snapshot_open_with bytes LayoutLevel"

definition snapshot_open_checked ::
    "byte list \<Rightarrow> (u32 \<Rightarrow> byte list \<Rightarrow> u32) \<Rightarrow> (snapshot_error, snapshot) result" where
  "snapshot_open_checked bytes checksum =
     and_then (snapshot_open bytes) (\<lambda>s.
       let actual = table_checksum (entries_as_bytes (snap_entries s)) checksum
       in if actual \<noteq> snap_table_crc32c s then Err (TableChecksumMismatch (snap_table_crc32c s) actual)
          else Ok s)"

section \<open>Sections of an opened snapshot\<close>

text \<open>\<open>SectionIter::next\<close>: the iterator is the bytes and the remaining entries.\<close>

definition section_iter_next ::
    "byte list \<times> raw_section_entry list \<Rightarrow>
       (snap_section option \<times> (byte list \<times> raw_section_entry list)) option" where
  "section_iter_next it =
     (case snd it of
        [] \<Rightarrow> Some (None, it)
      | e # es \<Rightarrow> map_option (\<lambda>s. (Some s, (fst it, es))) (section_from_entry (fst it) e))"

definition snapshot_sections :: "snapshot \<Rightarrow> byte list \<times> raw_section_entry list" where
  "snapshot_sections s = (snap_bytes s, snap_entries s)"

definition snapshot_section_count :: "snapshot \<Rightarrow> nat" where
  "snapshot_section_count s = length (snap_entries s)"

text \<open>Draining the iterator: one unit of fuel per section.\<close>

fun section_iter_drain ::
    "nat \<Rightarrow> byte list \<times> raw_section_entry list \<Rightarrow> snap_section list option" where
  "section_iter_drain fuel it =
     (case section_iter_next it of
        None \<Rightarrow> None
      | Some (None, _) \<Rightarrow> Some []
      | Some (Some sec, it') \<Rightarrow>
          (case fuel of 0 \<Rightarrow> None | Suc fuel' \<Rightarrow> map_option (Cons sec) (section_iter_drain fuel' it')))"

declare section_iter_drain.simps [simp del]

text \<open>\<open>verify_all\<close>: the loop over the iterator; the remaining entries bound the iterations.\<close>

fun verify_loop ::
    "(u32 \<Rightarrow> byte list \<Rightarrow> u32) \<Rightarrow> byte list \<Rightarrow> raw_section_entry list \<Rightarrow> (snapshot_error, unit) run" where
  "verify_loop checksum bytes [] = Some (Ok ())"
| "verify_loop checksum bytes (e # es) =
     run_then (reading (section_from_entry bytes e)) (\<lambda>sec.
       let actual = checksum 0 (sec_payload sec)
       in if actual \<noteq> sec_crc32c sec
          then Some (Err (SectionChecksumMismatch (sec_kind sec) (sec_crc32c sec) actual))
          else verify_loop checksum bytes es)"

definition snapshot_verify_all ::
    "snapshot \<Rightarrow> (u32 \<Rightarrow> byte list \<Rightarrow> u32) \<Rightarrow> (snapshot_error, unit) run" where
  "snapshot_verify_all s checksum = verify_loop checksum (snap_bytes s) (snap_entries s)"

definition snapshot_entry_index :: "snapshot \<Rightarrow> u32 \<Rightarrow> nat option" where
  "snapshot_entry_index s kind =
     (case binary_search_by (\<lambda>e. cmp (ent_kind e) kind) (snap_entries s) of
        Inr index \<Rightarrow> Some index
      | Inl _ \<Rightarrow> None)"

text \<open>\<open>Snapshot::section\<close>: the outer option is the panic.\<close>

definition snapshot_section :: "snapshot \<Rightarrow> u32 \<Rightarrow> snap_section option option" where
  "snapshot_section s kind =
     (case snapshot_entry_index s kind of
        None \<Rightarrow> Some None
      | Some index \<Rightarrow>
          Option.bind (index_or_panic (snap_entries s) index) (\<lambda>e.
            map_option Some (section_from_entry (snap_bytes s) e)))"

text \<open>
  \<open>typed_section\<close>: a little-endian storage word has alignment one, so the payload's address
  plays no part; each word is read as its logical value.
\<close>

definition snapshot_typed_section ::
    "snapshot \<Rightarrow> u32 \<Rightarrow> u32 \<Rightarrow> (section_bind_error, ('w::len) word list) run" where
  "snapshot_typed_section s kind expected_version =
     (case snapshot_section s kind of
        None \<Rightarrow> None
      | Some None \<Rightarrow> Some (Err (Missing kind))
      | Some (Some sec) \<Rightarrow>
          if sec_version sec \<noteq> expected_version
          then Some (Err (VersionMismatch kind expected_version (sec_version sec)))
          else
            Some (map_err (View kind)
              (and_then (try_as_slice (word_size TYPE('w)) 1 0 sec) (\<lambda>words.
                Ok (map from_le_word words)))))"

section \<open>Well-formed snapshots\<close>

definition entry_end :: "raw_section_entry \<Rightarrow> nat" where
  "entry_end e = unat (ent_offset e) + unat (ent_length e)"

definition entry_ok :: "nat \<Rightarrow> raw_section_entry \<Rightarrow> bool" where
  "entry_ok bound e \<longleftrightarrow>
     ent_flags e = 0 \<and> ent_reserved e = [0, 0] \<and> ent_alignment_log2 e \<le> MAX_ALIGNMENT_LOG2 \<and>
     entry_end e \<le> bound"

definition table_ok :: "nat \<Rightarrow> raw_section_entry list \<Rightarrow> bool" where
  "table_ok bound es \<longleftrightarrow> sorted_wrt (<) (map ent_kind es) \<and> (\<forall>e \<in> set es. entry_ok bound e)"

definition layout_ok :: "nat \<Rightarrow> raw_section_entry list \<Rightarrow> bool" where
  "layout_ok start es \<longleftrightarrow>
     sorted_wrt (\<lambda>e f. entry_end e \<le> unat (ent_offset f)) es \<and> (\<forall>e \<in> set es. start \<le> unat (ent_offset e))"

text \<open>The header a snapshot with these entries has.\<close>

definition snapshot_header :: "snapshot \<Rightarrow> raw_header" where
  "snapshot_header s =
     \<lparr>hdr_magic = FORMAT_MAGIC, hdr_format_major = FORMAT_MAJOR, hdr_format_minor = FORMAT_MINOR,
      hdr_header_size = HEADER_SIZE_U32, hdr_section_count = word_of_nat (length (snap_entries s)),
      hdr_table_crc32c = snap_table_crc32c s, hdr_reserved = [0, 0, 0, 0]\<rparr>"

definition snapshot_wf :: "snapshot \<Rightarrow> bool" where
  "snapshot_wf s \<longleftrightarrow>
     (\<exists>rest. snap_bytes s =
        header_as_bytes (snapshot_header s) @ entries_as_bytes (snap_entries s) @ rest) \<and>
     snap_format_major s = FORMAT_MAJOR \<and> snap_format_minor s = FORMAT_MINOR \<and>
     length (snap_entries s) \<le> unat MAX_SECTION_COUNT \<and>
     table_ok (length (snap_bytes s)) (snap_entries s) \<and>
     layout_ok (HEADER_SIZE + length (snap_entries s) * SECTION_ENTRY_SIZE) (snap_entries s)"

lemma entry_ok_shape: "entry_ok bound e \<Longrightarrow> entry_shape e"
  by (simp add: entry_ok_def entry_shape_def)

lemma table_ok_Cons:
  "table_ok bound (e # es) \<longleftrightarrow>
     entry_ok bound e \<and> (\<forall>f \<in> set es. ent_kind e < ent_kind f) \<and> table_ok bound es"
  by (auto simp: table_ok_def)

lemma layout_ok_Cons:
  "layout_ok start (e # es) \<longleftrightarrow> start \<le> unat (ent_offset e) \<and> layout_ok (entry_end e) es"
  by (fastforce simp: layout_ok_def entry_end_def)

lemma entry_walk_Ok_iff:
  assumes "n < 2 ^ 64"
  shows "entry_walk (word_of_nat n) prev es = Ok () \<longleftrightarrow>
    table_ok n es \<and> (\<forall>p. prev = Some p \<longrightarrow> (\<forall>e \<in> set es. p < ent_kind e))"
proof (induction es arbitrary: prev)
  case Nil
  then show ?case by (simp add: table_ok_def)
next
  case (Cons e es)
  have len: "unat (word_of_nat n :: u64) = n" using assms by (simp add: unat_word_of_nat)
  have range: "(case word_checked_add (ent_offset e) (ent_length e) of
         None \<Rightarrow> Err (SectionRangeOverflow k)
       | Some stop \<Rightarrow> if stop > word_of_nat n then Err (f stop) else r) = Ok () \<longleftrightarrow>
      entry_end e \<le> n \<and> r = Ok ()" for k f and r :: "(snapshot_error, unit) result"
    using assms len
    by (auto simp: word_checked_add_def entry_end_def word_less_nat_alt unat_add_fits split: if_splits)
  show ?case
    by (cases prev) (auto simp: Let_def range Cons.IH table_ok_Cons entry_ok_def not_le)
qed

lemma layout_walk_Ok_iff:
  assumes "\<And>e. e \<in> set es \<Longrightarrow> entry_end e < 2 ^ 64"
  shows "layout_walk i p es = Ok () \<longleftrightarrow> layout_ok (unat p) es"
  using assms
proof (induction es arbitrary: i p)
  case Nil
  then show ?case by (simp add: layout_ok_def)
next
  case (Cons e es)
  have "unat (word_saturating_add (ent_offset e) (ent_length e)) = entry_end e"
    using Cons.prems [of e]
    by (simp add: word_saturating_add_def word_checked_add_def entry_end_def unat_add_fits)
  with Cons show ?case by (simp add: layout_ok_Cons word_less_nat_alt not_less)
qed

lemma validate_section_table_Ok_iff:
  assumes "length bytes \<le> usize_max" and "length es \<le> unat MAX_SECTION_COUNT"
  shows "validate_section_table bytes es LayoutLevel = Ok () \<longleftrightarrow>
    table_ok (length bytes) es \<and> layout_ok (HEADER_SIZE + length es * SECTION_ENTRY_SIZE) es"
proof -
  from assms have n: "length bytes < 2 ^ 64" and k: "length es \<le> 1024"
    by (simp_all add: usize_max_def MAX_SECTION_COUNT_def)
  have "word_checked_add (word_of_nat HEADER_SIZE) (word_saturating_mul (word_of_nat (length es))
      (word_of_nat SECTION_ENTRY_SIZE)) = Some (word_of_nat (HEADER_SIZE + length es * SECTION_ENTRY_SIZE) :: u64)"
    using k by (simp add: word_checked_add_def word_saturating_mul_def unat_mult_fits unat_word_of_nat
        HEADER_SIZE_def SECTION_ENTRY_SIZE_def)
  moreover have "unat (word_of_nat (HEADER_SIZE + length es * SECTION_ENTRY_SIZE) :: u64) =
      HEADER_SIZE + length es * SECTION_ENTRY_SIZE"
    using k by (intro unat_word_of_nat) (simp add: HEADER_SIZE_def SECTION_ENTRY_SIZE_def)
  moreover have "entry_end e < 2 ^ 64" if "table_ok (length bytes) es" "e \<in> set es" for e
    using that n by (fastforce simp: table_ok_def entry_ok_def)
  ultimately show ?thesis
    using entry_walk_Ok_iff [OF n, of None es] layout_walk_Ok_iff [of es 0]
    by (fastforce simp: validate_section_table_def)
qed

lemma table_ok_shapes: "table_ok bound es \<Longrightarrow> e \<in> set es \<Longrightarrow> entry_shape e"
  by (auto simp: table_ok_def dest: entry_ok_shape)

lemma header_shape_snapshot_header: "header_shape (snapshot_header s)"
  by (simp add: header_shape_def snapshot_header_def FORMAT_MAGIC_def)

lemma validate_magic_Ok_iff:
  "validate_magic_versions_reserved h = Ok () \<longleftrightarrow>
     hdr_magic h = FORMAT_MAGIC \<and> hdr_format_major h = FORMAT_MAJOR \<and> hdr_format_minor h = FORMAT_MINOR \<and>
     hdr_header_size h = HEADER_SIZE_U32 \<and> hdr_reserved h = [0, 0, 0, 0]"
  by (auto simp: validate_magic_versions_reserved_def MAX_SUPPORTED_MINOR_def FORMAT_MINOR_def not_less)

lemma parse_header_Ok_iff:
  "parse_header bytes = Ok (h, rest) \<longleftrightarrow> header_shape h \<and> bytes = header_as_bytes h @ rest"
proof
  assume "parse_header bytes = Ok (h, rest)"
  then have "HEADER_SIZE \<le> length bytes" "h = header_from_bytes (take HEADER_SIZE bytes)"
    and "rest = drop HEADER_SIZE bytes"
    by (auto simp: parse_header_def split: if_splits)
  then show "header_shape h \<and> bytes = header_as_bytes h @ rest"
    by (simp add: header_as_from_bytes header_shape_from_bytes)
next
  assume a: "header_shape h \<and> bytes = header_as_bytes h @ rest"
  then have "header_from_bytes (take HEADER_SIZE bytes) = h"
    using header_from_as_bytes [of h "[]"] by simp
  with a show "parse_header bytes = Ok (h, rest)" by (simp add: parse_header_def)
qed

lemma count_converts:
  "n \<le> unat MAX_SECTION_COUNT \<Longrightarrow>
     to_usize (word_of_nat n :: u32) = Some n \<and> (word_of_nat n :: u32) \<le> MAX_SECTION_COUNT \<and>
     checked_mul n SECTION_ENTRY_SIZE = Some (n * SECTION_ENTRY_SIZE)"
  by (simp add: to_usize_def unat_word_of_nat usize_max_def MAX_SECTION_COUNT_def SECTION_ENTRY_SIZE_def
      word_le_nat_alt)

text \<open>The open at the layout level, its checks read off in order.\<close>

lemma snapshot_open_unfold:
  assumes "parse_header bytes = Ok (h, after)" and "validate_magic_versions_reserved h = Ok ()"
    and "hdr_section_count h = word_of_nat n" and "n \<le> unat MAX_SECTION_COUNT"
    and "n * SECTION_ENTRY_SIZE \<le> length after"
  shows "snapshot_open bytes = Ok s \<longleftrightarrow>
    s = \<lparr>snap_bytes = bytes, snap_format_major = FORMAT_MAJOR, snap_format_minor = FORMAT_MINOR,
         snap_table_crc32c = hdr_table_crc32c h,
         snap_entries = entries_from_bytes n (take (n * SECTION_ENTRY_SIZE) after)\<rparr> \<and>
    validate_section_table bytes (entries_from_bytes n (take (n * SECTION_ENTRY_SIZE) after)) LayoutLevel = Ok ()"
  using assms count_converts [OF assms(4)]
  by (auto simp: snapshot_open_def snapshot_open_with_def Let_def validate_magic_Ok_iff not_less)

lemma snapshot_open_count:
  assumes "snapshot_open bytes = Ok s"
  obtains h after n where "parse_header bytes = Ok (h, after)"
    "validate_magic_versions_reserved h = Ok ()" "hdr_section_count h = word_of_nat n"
    "n \<le> unat MAX_SECTION_COUNT" "n * SECTION_ENTRY_SIZE \<le> length after"
proof -
  from assms obtain h after where h: "parse_header bytes = Ok (h, after)"
    "validate_magic_versions_reserved h = Ok ()" "\<not> hdr_section_count h > MAX_SECTION_COUNT"
    "to_usize (hdr_section_count h) = Some (unat (hdr_section_count h))"
    "\<not> length after < unat (hdr_section_count h) * SECTION_ENTRY_SIZE"
    by (auto simp: snapshot_open_def snapshot_open_with_def to_usize_Some_iff Let_def split: if_splits)
  show thesis
    by (rule that [OF h(1,2), of "unat (hdr_section_count h)"])
      (use h in \<open>auto simp: not_less word_le_nat_alt\<close>)
qed

lemma snapshot_open_Ok_iff:
  assumes "length bytes \<le> usize_max"
  shows "snapshot_open bytes = Ok s \<longleftrightarrow> snap_bytes s = bytes \<and> snapshot_wf s"
proof
  assume ok: "snapshot_open bytes = Ok s"
  from snapshot_open_count [OF ok] obtain h after n where h: "parse_header bytes = Ok (h, after)"
    "validate_magic_versions_reserved h = Ok ()" "hdr_section_count h = word_of_nat n"
    and n: "n \<le> unat MAX_SECTION_COUNT" "n * SECTION_ENTRY_SIZE \<le> length after" .
  from ok have s: "s = \<lparr>snap_bytes = bytes, snap_format_major = FORMAT_MAJOR,
      snap_format_minor = FORMAT_MINOR, snap_table_crc32c = hdr_table_crc32c h,
      snap_entries = entries_from_bytes n (take (n * SECTION_ENTRY_SIZE) after)\<rparr>"
    and valid: "validate_section_table bytes (snap_entries s) LayoutLevel = Ok ()"
    unfolding snapshot_open_unfold [OF h n] by auto
  then have len: "length (snap_entries s) = n" by simp
  with h have hdr: "h = snapshot_header s"
    by (simp add: snapshot_header_def s validate_magic_Ok_iff)
  have "entries_as_bytes (snap_entries s) = take (n * SECTION_ENTRY_SIZE) after"
    using n by (simp add: s entries_as_from_bytes)
  then have "after = entries_as_bytes (snap_entries s) @ drop (n * SECTION_ENTRY_SIZE) after" by simp
  with h(1) hdr have "bytes = header_as_bytes (snapshot_header s) @
      entries_as_bytes (snap_entries s) @ drop (n * SECTION_ENTRY_SIZE) after"
    by (simp add: parse_header_Ok_iff)
  moreover have fields: "snap_bytes s = bytes" "snap_format_major s = FORMAT_MAJOR"
    "snap_format_minor s = FORMAT_MINOR" by (simp_all add: s)
  moreover have "table_ok (length bytes) (snap_entries s) \<and>
      layout_ok (HEADER_SIZE + n * SECTION_ENTRY_SIZE) (snap_entries s)"
    using valid n len validate_section_table_Ok_iff [OF assms, of "snap_entries s"] by simp
  ultimately show "snap_bytes s = bytes \<and> snapshot_wf s"
    unfolding snapshot_wf_def fields len using n(1) by blast
next
  assume wf: "snap_bytes s = bytes \<and> snapshot_wf s"
  let ?h = "snapshot_header s" and ?n = "length (snap_entries s)"
  from wf obtain rest where bytes:
      "bytes = header_as_bytes ?h @ entries_as_bytes (snap_entries s) @ rest"
    by (auto simp: snapshot_wf_def)
  have shapes: "e \<in> set (snap_entries s) \<Longrightarrow> entry_shape e" for e
    using wf by (auto simp: snapshot_wf_def dest: table_ok_shapes)
  then have len: "length (entries_as_bytes (snap_entries s)) = ?n * SECTION_ENTRY_SIZE"
    by (rule length_entries_as_bytes)
  have parsed: "parse_header bytes = Ok (?h, entries_as_bytes (snap_entries s) @ rest)"
    by (simp add: parse_header_Ok_iff bytes header_shape_snapshot_header)
  have magic: "validate_magic_versions_reserved ?h = Ok ()"
    by (simp add: validate_magic_Ok_iff snapshot_header_def)
  have count: "hdr_section_count ?h = word_of_nat ?n" by (simp add: snapshot_header_def)
  have n: "?n \<le> unat MAX_SECTION_COUNT" using wf by (simp add: snapshot_wf_def)
  have entries: "entries_from_bytes ?n (take (?n * SECTION_ENTRY_SIZE) (entries_as_bytes (snap_entries s) @ rest)) =
      snap_entries s"
    using len entries_from_as_bytes [OF shapes] by simp
  have valid: "validate_section_table bytes (snap_entries s) LayoutLevel = Ok ()"
    using wf validate_section_table_Ok_iff [OF assms n] by (auto simp: snapshot_wf_def)
  show "snapshot_open bytes = Ok s"
    by (subst snapshot_open_unfold [OF parsed magic count n])
      (use wf valid len entries in \<open>auto simp: snapshot_wf_def snapshot_header_def\<close>)
qed

section \<open>Accessors of a well-formed snapshot\<close>

text \<open>The section an in-bounds entry describes.\<close>

definition entry_section :: "byte list \<Rightarrow> raw_section_entry \<Rightarrow> snap_section" where
  "entry_section bytes e =
     \<lparr>sec_payload = subrange bytes (unat (ent_offset e)) (unat (ent_length e)), sec_kind = ent_kind e,
      sec_version = ent_version e, sec_crc32c = ent_crc32c e, sec_alignment_log2 = ent_alignment_log2 e\<rparr>"

lemma entry_section_fields [simp]:
  "sec_kind (entry_section bytes e) = ent_kind e"
  "sec_version (entry_section bytes e) = ent_version e"
  "sec_crc32c (entry_section bytes e) = ent_crc32c e"
  "sec_payload (entry_section bytes e) = subrange bytes (unat (ent_offset e)) (unat (ent_length e))"
  by (simp_all add: entry_section_def)

lemma section_from_entry_Some:
  assumes "entry_end e \<le> length bytes" and "length bytes \<le> usize_max"
  shows "section_from_entry bytes e = Some (entry_section bytes e)"
  using assms
  by (simp add: section_from_entry_def u64_to_usize_validated_def to_usize_narrow checked_add_def
      entry_end_def entry_section_def subrange_def)

lemma snapshot_wf_entry:
  "snapshot_wf s \<Longrightarrow> e \<in> set (snap_entries s) \<Longrightarrow> entry_end e \<le> length (snap_bytes s)"
  by (simp add: snapshot_wf_def table_ok_def entry_ok_def)

lemma section_iter_drain_wf:
  assumes "\<And>e. e \<in> set es \<Longrightarrow> entry_end e \<le> length bytes" and "length bytes \<le> usize_max"
  shows "section_iter_drain (length es) (bytes, es) = Some (map (entry_section bytes) es)"
  using assms
  by (induction es)
    (simp_all add: section_iter_drain.simps section_iter_next_def section_from_entry_Some)

text \<open>The lookup by kind is an instance of the keyed-table interface.\<close>

interpretation sections: keyed_table "\<lambda>s. map ent_kind (snap_entries s)" snapshot_entry_index snapshot_wf
proof unfold_locales
  fix s k i
  assume "snapshot_wf s"
  then have sorted: "sorted_wrt (<) (map ent_kind (snap_entries s))"
    by (simp add: snapshot_wf_def table_ok_def)
  then show "distinct (map ent_kind (snap_entries s))"
    by (simp add: strict_sorted_iff)
  note search = binary_search_by_Ok_iff [OF sorted, of k]
  show "i < length (map ent_kind (snap_entries s)) \<and> map ent_kind (snap_entries s) ! i = k"
    if "snapshot_entry_index s k = Some i"
    using that search by (auto simp: snapshot_entry_index_def split: sum.splits)
  show "k \<notin> set (map ent_kind (snap_entries s))" if "snapshot_entry_index s k = None"
    using that binary_search_by_Err [OF sorted, of k]
    by (auto simp: snapshot_entry_index_def split: sum.splits)
qed

lemma find_map_of:
  "map_of (zip (map g xs) (map f xs)) k = map_option f (find (\<lambda>x. g x = k) xs)"
  by (induction xs) auto

lemma find_map: "find P (map f xs) = map_option f (find (P \<circ> f) xs)"
  by (induction xs) auto

lemma snapshot_section_wf:
  assumes "snapshot_wf s" and "length (snap_bytes s) \<le> usize_max"
  shows "snapshot_section s kind =
    Some (map_option (entry_section (snap_bytes s)) (find (\<lambda>e. ent_kind e = kind) (snap_entries s)))"
proof -
  have "snapshot_section s kind =
      Some (map_option (nth (map (entry_section (snap_bytes s)) (snap_entries s))) (snapshot_entry_index s kind))"
  proof (cases "snapshot_entry_index s kind")
    case (Some i)
    with assms(1) have i: "i < length (snap_entries s)" using sections.find_hit by fastforce
    with assms Some show ?thesis
      by (simp add: snapshot_section_def section_from_entry_Some snapshot_wf_entry)
  qed (simp add: snapshot_section_def)
  with sections.find_is_map [OF assms(1), of "map (entry_section (snap_bytes s)) (snap_entries s)" kind]
  show ?thesis by (simp add: find_map_of)
qed

lemma verify_loop_Ok_iff:
  assumes "\<And>e. e \<in> set es \<Longrightarrow> entry_end e \<le> length bytes" and "length bytes \<le> usize_max"
  shows "verify_loop checksum bytes es = Some (Ok ()) \<longleftrightarrow>
    (\<forall>e \<in> set es. checksum 0 (sec_payload (entry_section bytes e)) = ent_crc32c e)"
  using assms by (induction es) (auto simp: section_from_entry_Some Let_def)

lemma verify_loop_mismatch:
  assumes "\<And>f. f \<in> set (pre @ [e]) \<Longrightarrow> entry_end f \<le> length bytes" and "length bytes \<le> usize_max"
    and "\<And>f. f \<in> set pre \<Longrightarrow> checksum 0 (sec_payload (entry_section bytes f)) = ent_crc32c f"
    and "checksum 0 (sec_payload (entry_section bytes e)) \<noteq> ent_crc32c e"
  shows "verify_loop checksum bytes (pre @ e # post) =
    Some (Err (SectionChecksumMismatch (ent_kind e) (ent_crc32c e)
      (checksum 0 (sec_payload (entry_section bytes e)))))"
  using assms by (induction pre) (auto simp: section_from_entry_Some Let_def)

section \<open>Corruption\<close>

lemma snapshot_wf_bytes:
  assumes "snapshot_wf s"
  obtains rest where "snap_bytes s = header_as_bytes (snapshot_header s) @ entries_as_bytes (snap_entries s) @ rest"
    and "length (header_as_bytes (snapshot_header s)) = HEADER_SIZE"
    and "length (entries_as_bytes (snap_entries s)) = length (snap_entries s) * SECTION_ENTRY_SIZE"
proof -
  have "length (entries_as_bytes (snap_entries s)) = length (snap_entries s) * SECTION_ENTRY_SIZE"
    by (rule length_entries_as_bytes) (use assms table_ok_shapes in \<open>auto simp: snapshot_wf_def\<close>)
  with assms that show thesis
    by (auto simp: snapshot_wf_def header_shape_snapshot_header)
qed

lemma snapshot_header_update [simp]: "snapshot_header (s\<lparr>snap_bytes := bytes\<rparr>) = snapshot_header s"
  by (simp add: snapshot_header_def)

lemma snapshot_wf_update:
  "snapshot_wf (s\<lparr>snap_bytes := bytes\<rparr>) \<longleftrightarrow>
     (\<exists>rest. bytes = header_as_bytes (snapshot_header s) @ entries_as_bytes (snap_entries s) @ rest) \<and>
     snap_format_major s = FORMAT_MAJOR \<and> snap_format_minor s = FORMAT_MINOR \<and>
     length (snap_entries s) \<le> unat MAX_SECTION_COUNT \<and>
     table_ok (length bytes) (snap_entries s) \<and>
     layout_ok (HEADER_SIZE + length (snap_entries s) * SECTION_ENTRY_SIZE) (snap_entries s)"
  by (simp add: snapshot_wf_def)

text \<open>Changing a byte behind the table keeps a snapshot well-formed.\<close>

lemma snapshot_wf_payload_update:
  assumes wf: "snapshot_wf s" and i: "HEADER_SIZE + length (snap_entries s) * SECTION_ENTRY_SIZE \<le> i"
  shows "snapshot_wf (s\<lparr>snap_bytes := (snap_bytes s)[i := b]\<rparr>)"
proof -
  from snapshot_wf_bytes [OF wf] obtain rest where bytes: "snap_bytes s =
      header_as_bytes (snapshot_header s) @ entries_as_bytes (snap_entries s) @ rest"
    and len: "length (header_as_bytes (snapshot_header s)) = HEADER_SIZE"
      "length (entries_as_bytes (snap_entries s)) = length (snap_entries s) * SECTION_ENTRY_SIZE" .
  have upd: "(snap_bytes s)[i := b] = header_as_bytes (snapshot_header s) @ entries_as_bytes (snap_entries s) @
      rest[i - (HEADER_SIZE + length (snap_entries s) * SECTION_ENTRY_SIZE) := b]"
    using i len list_update_append [of "header_as_bytes (snapshot_header s) @ entries_as_bytes (snap_entries s)"
        rest i b] by (simp add: bytes)
  have rest: "snap_format_major s = FORMAT_MAJOR \<and> snap_format_minor s = FORMAT_MINOR \<and>
     length (snap_entries s) \<le> unat MAX_SECTION_COUNT \<and>
     table_ok (length ((snap_bytes s)[i := b])) (snap_entries s) \<and>
     layout_ok (HEADER_SIZE + length (snap_entries s) * SECTION_ENTRY_SIZE) (snap_entries s)"
    using wf by (simp add: snapshot_wf_def)
  show ?thesis
    unfolding snapshot_wf_update using upd rest by blast
qed

lemma layout_ok_split:
  "layout_ok start (pre @ e # post) \<longleftrightarrow>
     layout_ok start pre \<and> start \<le> unat (ent_offset e) \<and> layout_ok start post \<and>
     (\<forall>f \<in> set pre. entry_end f \<le> unat (ent_offset e) \<and> (\<forall>g \<in> set post. entry_end f \<le> unat (ent_offset g))) \<and>
     (\<forall>g \<in> set post. entry_end e \<le> unat (ent_offset g))"
  by (auto simp: layout_ok_def sorted_wrt_append)

lemma subrange_update_outside:
  "i < s \<or> s + n \<le> i \<Longrightarrow> subrange (xs[i := b]) s n = subrange xs s n"
  by (cases "i < s") (simp_all add: subrange_def drop_update_swap take_update_swap list_update_beyond)

lemma subrange_update_split:
  assumes "s \<le> i" "i < s + n" "s + n \<le> length xs"
  shows "\<exists>pre post. subrange xs s n = pre @ xs ! i # post \<and> subrange (xs[i := b]) s n = pre @ b # post"
proof -
  let ?ys = "subrange xs s n"
  from assms have k: "i - s < length ?ys" by simp
  have "subrange (xs[i := b]) s n = ?ys[i - s := b]"
    using assms by (simp add: subrange_def drop_update_swap take_update_swap)
  moreover have "?ys ! (i - s) = xs ! i" using assms by (simp add: nth_subrange)
  ultimately show ?thesis
    using id_take_nth_drop [OF k] upd_conv_take_nth_drop [OF k, of b] by metis
qed

lemma crc_update_differs:
  assumes "s \<le> i" "i < s + n" "s + n \<le> length xs" "b \<noteq> xs ! i"
  shows "crc32c_append 0 (subrange (xs[i := b]) s n) \<noteq> crc32c_append 0 (subrange xs s n)"
  using subrange_update_split [OF assms(1-3), of b] crc32c_single_byte assms(4) by metis

lemma verify_all_corrupted:
  assumes wf: "snapshot_wf s" and small: "length (snap_bytes s) \<le> usize_max"
    and ok: "snapshot_verify_all s crc32c_append = Some (Ok ())"
    and e: "e \<in> set (snap_entries s)" and i: "unat (ent_offset e) \<le> i" "i < entry_end e"
    and b: "b \<noteq> snap_bytes s ! i"
  shows "\<exists>actual. snapshot_verify_all (s\<lparr>snap_bytes := (snap_bytes s)[i := b]\<rparr>) crc32c_append =
    Some (Err (SectionChecksumMismatch (ent_kind e) (ent_crc32c e) actual))"
proof -
  let ?bytes = "snap_bytes s" and ?bytes' = "(snap_bytes s)[i := b]"
  from e obtain pre post where es: "snap_entries s = pre @ e # post" by (auto dest: split_list)
  have bounds: "entry_end f \<le> length ?bytes" if "f \<in> set (snap_entries s)" for f
    using snapshot_wf_entry [OF wf that] .
  have good: "crc32c_append 0 (sec_payload (entry_section ?bytes f)) = ent_crc32c f"
    if "f \<in> set (snap_entries s)" for f
    using ok verify_loop_Ok_iff [OF bounds small, of "snap_entries s" crc32c_append] that
    by (simp add: snapshot_verify_all_def)
  have "entry_end f \<le> unat (ent_offset e)" if "f \<in> set pre" for f
    using wf that by (auto simp: snapshot_wf_def es layout_ok_split)
  then have "sec_payload (entry_section ?bytes' f) = sec_payload (entry_section ?bytes f)" if "f \<in> set pre" for f
    using that i by (fastforce simp: entry_end_def intro!: subrange_update_outside)
  then have before: "crc32c_append 0 (sec_payload (entry_section ?bytes' f)) = ent_crc32c f"
    if "f \<in> set pre" for f using that good [of f] by (simp add: es del: entry_section_fields(4))
  have "crc32c_append 0 (sec_payload (entry_section ?bytes' e)) \<noteq> ent_crc32c e"
    using crc_update_differs [of "unat (ent_offset e)" i "unat (ent_length e)" ?bytes b] i b bounds [OF e] good [OF e]
    by (simp add: entry_end_def)
  then have "verify_loop crc32c_append ?bytes' (pre @ e # post) =
      Some (Err (SectionChecksumMismatch (ent_kind e) (ent_crc32c e)
        (crc32c_append 0 (sec_payload (entry_section ?bytes' e)))))"
    by (rule verify_loop_mismatch [rotated 3]) (use bounds small before es in auto)
  then show ?thesis by (simp add: snapshot_verify_all_def es)
qed

text \<open>Two headers with the same count and table checksum are the same.\<close>

lemma snapshot_header_eqI:
  "length (snap_entries s) = length (snap_entries s') \<Longrightarrow> snap_table_crc32c s = snap_table_crc32c s' \<Longrightarrow>
     snapshot_header s = snapshot_header s'"
  by (simp add: snapshot_header_def)

lemma header_bytes_count:
  "subrange (header_as_bytes (snapshot_header s) @ rest) 20 4 =
     to_le_word (word_of_nat (length (snap_entries s)) :: u32)"
  "subrange (header_as_bytes (snapshot_header s) @ rest) 24 4 = to_le_word (snap_table_crc32c s)"
  by (simp_all add: header_as_bytes_def snapshot_header_def FORMAT_MAGIC_def subrange_def)

lemma snapshot_wf_count:
  assumes "snapshot_wf s" and "snapshot_wf s'"
    and "subrange (snap_bytes s) 20 4 = subrange (snap_bytes s') 20 4"
  shows "length (snap_entries s) = length (snap_entries s')"
proof -
  have fits: "unat (word_of_nat (length (snap_entries t)) :: u32) = length (snap_entries t)" if "snapshot_wf t" for t
    using that by (intro unat_word_of_nat) (simp add: snapshot_wf_def MAX_SECTION_COUNT_def)
  have "subrange (snap_bytes t) 20 4 = to_le_word (word_of_nat (length (snap_entries t)) :: u32)"
    if "snapshot_wf t" for t
    using snapshot_wf_bytes [OF that] header_bytes_count(1) by metis
  with assms have "to_le_word (word_of_nat (length (snap_entries s)) :: u32) =
      to_le_word (word_of_nat (length (snap_entries s')) :: u32)" by simp
  then have "(word_of_nat (length (snap_entries s)) :: u32) = word_of_nat (length (snap_entries s'))"
    by (metis u32_of_le)
  then show ?thesis using fits assms(1,2) by metis
qed

lemma snapshot_open_checked_OkD:
  assumes "snapshot_open_checked bytes checksum = Ok s" and "length bytes \<le> usize_max"
  shows "snapshot_wf s" and "snap_bytes s = bytes"
    and "checksum 0 (entries_as_bytes (snap_entries s)) = snap_table_crc32c s"
  using assms snapshot_open_Ok_iff [OF assms(2)]
  by (auto simp: snapshot_open_checked_def Let_def table_checksum_def split: if_splits)

lemma front_corrupted:
  assumes s: "snapshot_wf s" "crc32c_append 0 (entries_as_bytes (snap_entries s)) = snap_table_crc32c s"
    and s': "snapshot_wf s'" "crc32c_append 0 (entries_as_bytes (snap_entries s')) = snap_table_crc32c s'"
    and upd: "snap_bytes s' = (snap_bytes s)[i := b]" "b \<noteq> snap_bytes s ! i"
    and i: "i < HEADER_SIZE + length (snap_entries s) * SECTION_ENTRY_SIZE" "i < 20 \<or> 24 \<le> i"
  shows False
proof -
  let ?table = "length (snap_entries s) * SECTION_ENTRY_SIZE"
  have count: "length (snap_entries s) = length (snap_entries s')"
    by (rule snapshot_wf_count [OF s(1) s'(1)]) (use upd i in \<open>simp add: subrange_update_outside\<close>)
  from snapshot_wf_bytes [OF s(1)] obtain rest where
    bytes: "snap_bytes s = header_as_bytes (snapshot_header s) @ entries_as_bytes (snap_entries s) @ rest"
    and len: "length (header_as_bytes (snapshot_header s)) = HEADER_SIZE"
      "length (entries_as_bytes (snap_entries s)) = ?table" .
  from snapshot_wf_bytes [OF s'(1)] obtain rest' where
    bytes': "snap_bytes s' = header_as_bytes (snapshot_header s') @ entries_as_bytes (snap_entries s') @ rest'"
    and len': "length (header_as_bytes (snapshot_header s')) = HEADER_SIZE"
      "length (entries_as_bytes (snap_entries s')) = ?table" unfolding count .
  have table: "entries_as_bytes (snap_entries s) = subrange (snap_bytes s) HEADER_SIZE ?table"
    "entries_as_bytes (snap_entries s') = subrange (snap_bytes s') HEADER_SIZE ?table"
    using len len' by (simp_all add: bytes bytes' subrange_def)
  have front: "header_as_bytes (snapshot_header s) = subrange (snap_bytes s) 0 HEADER_SIZE"
    "header_as_bytes (snapshot_header s') = subrange (snap_bytes s') 0 HEADER_SIZE"
    using len len' by (simp_all add: bytes bytes' subrange_def)
  have total: "HEADER_SIZE + ?table \<le> length (snap_bytes s)" using len by (simp add: bytes)
  show False
  proof (cases "HEADER_SIZE \<le> i")
    case True
    have "snap_table_crc32c s = snap_table_crc32c s'"
    proof -
      have "subrange (snap_bytes s) 24 4 = subrange (snap_bytes s') 24 4"
        using upd True by (simp add: subrange_update_outside HEADER_SIZE_def)
      then have "to_le_word (snap_table_crc32c s) = to_le_word (snap_table_crc32c s')"
        unfolding bytes bytes' header_bytes_count .
      then show ?thesis by (metis u32_of_le)
    qed
    then show False
      using s(2) s'(2) crc_update_differs [OF True i(1) total upd(2)] by (simp add: table upd)
  next
    case False
    have "entries_as_bytes (snap_entries s) = entries_as_bytes (snap_entries s')"
      using upd False by (simp add: table subrange_update_outside)
    then have "snapshot_header s = snapshot_header s'"
      using s(2) s'(2) by (intro snapshot_header_eqI count) simp
    then have "subrange (snap_bytes s) 0 HEADER_SIZE = subrange (snap_bytes s') 0 HEADER_SIZE"
      by (simp flip: front)
    then have "snap_bytes s ! i = snap_bytes s' ! i"
      using False total upd(1) nth_subrange [of 0 HEADER_SIZE "snap_bytes s" i]
        nth_subrange [of 0 HEADER_SIZE "snap_bytes s'" i] by simp
    with upd total False show False by simp
  qed
qed

section \<open>Properties\<close>

text \<open>
  C3: opening accepts exactly the well-formed encodings, and keeps the bytes: the header with the
  fixed fields, then the entries with strictly ascending kinds, zero flags and reserved bytes,
  a permitted alignment, ranges inside the bytes, behind the table and not overlapping.
\<close>

theorem snapshot_open_accepts:
  assumes "length bytes \<le> usize_max"
  shows "snapshot_open bytes = Ok s \<longleftrightarrow>
    snap_bytes s = bytes \<and>
    (\<exists>rest. bytes = header_as_bytes (snapshot_header s) @ entries_as_bytes (snap_entries s) @ rest) \<and>
    snap_format_major s = FORMAT_MAJOR \<and> snap_format_minor s = FORMAT_MINOR \<and>
    length (snap_entries s) \<le> 1024 \<and>
    sorted_wrt (<) (map ent_kind (snap_entries s)) \<and>
    (\<forall>e \<in> set (snap_entries s).
       ent_flags e = 0 \<and> ent_reserved e = [0, 0] \<and> ent_alignment_log2 e \<le> MAX_ALIGNMENT_LOG2 \<and>
       32 + length (snap_entries s) * 32 \<le> unat (ent_offset e) \<and> entry_end e \<le> length bytes) \<and>
    sorted_wrt (\<lambda>e f. entry_end e \<le> unat (ent_offset f)) (snap_entries s)"
  unfolding snapshot_open_Ok_iff [OF assms]
  by (auto simp: snapshot_wf_def table_ok_def entry_ok_def layout_ok_def HEADER_SIZE_def SECTION_ENTRY_SIZE_def
      MAX_SECTION_COUNT_def)

text \<open>
  On an opened snapshot no section access panics, and the binary search by kind finds the
  section the iterator lists: looking a kind up gives the first listed section of that kind.
\<close>

theorem snapshot_section_finds:
  assumes "snapshot_open bytes = Ok s" and "length bytes \<le> usize_max"
  shows "\<exists>secs. section_iter_drain (snapshot_section_count s) (snapshot_sections s) = Some secs \<and>
    snapshot_section s kind = Some (find (\<lambda>sec. sec_kind sec = kind) secs)"
proof -
  from assms have wf: "snapshot_wf s" and small: "length (snap_bytes s) \<le> usize_max"
    by (auto simp: snapshot_open_Ok_iff)
  let ?secs = "map (entry_section (snap_bytes s)) (snap_entries s)"
  have "section_iter_drain (snapshot_section_count s) (snapshot_sections s) = Some ?secs"
    unfolding snapshot_section_count_def snapshot_sections_def
    by (rule section_iter_drain_wf) (use wf small snapshot_wf_entry in auto)
  then show ?thesis
    by (simp add: snapshot_section_wf [OF wf small] find_map comp_def)
qed

text \<open>
  C4: damage to a payload is caught: when an opened snapshot passes \<open>verify_all\<close> with CRC-32C, and one
  byte inside some section's payload changes, the bytes still open, and \<open>verify_all\<close> then
  reports a checksum mismatch of exactly that section.
\<close>

theorem snapshot_verify_all_catches:
  assumes "snapshot_open bytes = Ok s" and "length bytes \<le> usize_max"
    and "snapshot_verify_all s crc32c_append = Some (Ok ())"
    and "e \<in> set (snap_entries s)" and "unat (ent_offset e) \<le> i" and "i < entry_end e"
    and "b \<noteq> bytes ! i"
  shows "\<exists>s' actual. snapshot_open (bytes[i := b]) = Ok s' \<and>
    snapshot_verify_all s' crc32c_append =
      Some (Err (SectionChecksumMismatch (ent_kind e) (ent_crc32c e) actual))"
proof (intro exI conjI)
  from assms(1,2) have wf: "snapshot_wf s" and bytes: "snap_bytes s = bytes"
    by (auto simp: snapshot_open_Ok_iff)
  let ?s' = "s\<lparr>snap_bytes := (snap_bytes s)[i := b]\<rparr>"
  have "HEADER_SIZE + length (snap_entries s) * SECTION_ENTRY_SIZE \<le> i"
    using wf assms(4,5) by (force simp: snapshot_wf_def layout_ok_def)
  with wf have "snapshot_wf ?s'" by (rule snapshot_wf_payload_update)
  then show "snapshot_open (bytes[i := b]) = Ok ?s'"
    using assms(2) by (simp add: snapshot_open_Ok_iff bytes)
  show "snapshot_verify_all ?s' crc32c_append = Some (Err (SectionChecksumMismatch (ent_kind e) (ent_crc32c e)
      (SOME actual. snapshot_verify_all ?s' crc32c_append =
        Some (Err (SectionChecksumMismatch (ent_kind e) (ent_crc32c e) actual)))))"
    by (rule someI_ex) (rule verify_all_corrupted; use wf assms in \<open>simp add: bytes\<close>)
qed

text \<open>
  damage to the front is caught: when a snapshot opens under \<open>open_checked\<close> with CRC-32C and one
  byte of its header (other than the section count) or of its section table changes, the
  checked open of the changed bytes fails.
\<close>

theorem snapshot_open_checked_catches:
  assumes "snapshot_open_checked bytes crc32c_append = Ok s" and "length bytes \<le> usize_max"
    and "i < HEADER_SIZE + snapshot_section_count s * SECTION_ENTRY_SIZE" and "i < 20 \<or> 24 \<le> i"
    and "b \<noteq> bytes ! i"
  shows "\<exists>err. snapshot_open_checked (bytes[i := b]) crc32c_append = Err err"
proof (cases "snapshot_open_checked (bytes[i := b]) crc32c_append")
  case (Inr s')
  have small: "length (bytes[i := b]) \<le> usize_max" using assms(2) by simp
  note s = snapshot_open_checked_OkD [OF assms(1,2)] and s' = snapshot_open_checked_OkD [OF Inr small]
  have False
    by (rule front_corrupted [OF s(1,3) s'(1,3), of i b])
      (use assms(3-5) s(2) s'(2) in \<open>auto simp: snapshot_section_count_def\<close>)
  then show ?thesis ..
qed auto

text \<open>A snapshot with one section of kind 1 holding the byte 7.\<close>

definition example_entry :: raw_section_entry where
  "example_entry =
     \<lparr>ent_offset = 64, ent_length = 1, ent_kind = 1, ent_version = 0, ent_crc32c = crc32c_append 0 [7],
      ent_alignment_log2 = 0, ent_flags = 0, ent_reserved = [0, 0]\<rparr>"

definition example_bytes :: "byte list" where
  "example_bytes =
     header_as_bytes
       \<lparr>hdr_magic = FORMAT_MAGIC, hdr_format_major = 1, hdr_format_minor = 0, hdr_header_size = 32,
        hdr_section_count = 1, hdr_table_crc32c = crc32c_append 0 (entry_as_bytes example_entry),
        hdr_reserved = [0, 0, 0, 0]\<rparr> @ entry_as_bytes example_entry @ [7]"

definition example_snapshot :: snapshot where
  "example_snapshot =
     \<lparr>snap_bytes = example_bytes, snap_format_major = 1, snap_format_minor = 0,
      snap_table_crc32c = crc32c_append 0 (entry_as_bytes example_entry), snap_entries = [example_entry]\<rparr>"

lemma example_entry_length: "length (entry_as_bytes example_entry) = 32"
  by (simp add: entry_as_bytes_def example_entry_def)

lemma example_bytes_length: "length example_bytes = 65"
  by (simp add: example_bytes_def example_entry_length header_as_bytes_def FORMAT_MAGIC_def)

lemma example_wf: "snapshot_wf example_snapshot"
proof -
  have "snap_bytes example_snapshot =
      header_as_bytes (snapshot_header example_snapshot) @ entries_as_bytes (snap_entries example_snapshot) @ [7]"
    by (simp add: example_snapshot_def snapshot_header_def example_bytes_def FORMAT_MAJOR_def FORMAT_MINOR_def
        HEADER_SIZE_U32_def)
  then show ?thesis
    unfolding snapshot_wf_def
    by (auto simp: example_snapshot_def example_bytes_length FORMAT_MAJOR_def FORMAT_MINOR_def MAX_SECTION_COUNT_def
        table_ok_def layout_ok_def entry_ok_def entry_end_def example_entry_def MAX_ALIGNMENT_LOG2_def
        HEADER_SIZE_def SECTION_ENTRY_SIZE_def)
qed

lemma example_small: "length example_bytes \<le> usize_max"
  by (simp add: example_bytes_length usize_max_def)

lemma example_opens: "snapshot_open example_bytes = Ok example_snapshot"
  using example_wf by (simp add: snapshot_open_Ok_iff [OF example_small] example_snapshot_def)

lemma example_opens_checked: "snapshot_open_checked example_bytes crc32c_append = Ok example_snapshot"
  by (simp add: snapshot_open_checked_def example_opens table_checksum_def example_snapshot_def)

lemma example_payload: "entry_section example_bytes example_entry =
    \<lparr>sec_payload = [7], sec_kind = 1, sec_version = 0, sec_crc32c = crc32c_append 0 [7], sec_alignment_log2 = 0\<rparr>"
  by (simp add: entry_section_def example_entry_def example_bytes_def subrange_def header_as_bytes_def
      FORMAT_MAGIC_def entry_as_bytes_def)

lemma example_verifies: "snapshot_verify_all example_snapshot crc32c_append = Some (Ok ())"
  using verify_loop_Ok_iff [of "[example_entry]" example_bytes crc32c_append] example_payload example_small
  by (simp add: snapshot_verify_all_def example_snapshot_def example_bytes_length entry_end_def example_entry_def
      entry_section_def)

theorem snapshot_open_accepts_witness:
  "snapshot_open example_bytes = Ok example_snapshot \<and>
     (\<exists>rest. example_bytes = header_as_bytes (snapshot_header example_snapshot) @
        entries_as_bytes (snap_entries example_snapshot) @ rest)"
  using snapshot_open_accepts [OF example_small, of example_snapshot] example_opens by blast

lemma example_drain: "section_iter_drain (snapshot_section_count example_snapshot) (snapshot_sections example_snapshot) =
    Some [entry_section example_bytes example_entry]"
  using section_iter_drain_wf [of "[example_entry]" example_bytes] example_small
  by (simp add: snapshot_section_count_def snapshot_sections_def example_snapshot_def example_bytes_length
      entry_end_def example_entry_def)

theorem snapshot_section_finds_witness:
  "snapshot_section example_snapshot 1 = Some (Some
     \<lparr>sec_payload = [7], sec_kind = 1, sec_version = 0, sec_crc32c = crc32c_append 0 [7], sec_alignment_log2 = 0\<rparr>)"
  using snapshot_section_finds [OF example_opens example_small, of 1]
  by (simp add: example_drain example_payload)

theorem snapshot_verify_all_catches_witness:
  "\<exists>s' actual. snapshot_open (example_bytes[64 := 8]) = Ok s' \<and>
    snapshot_verify_all s' crc32c_append = Some (Err (SectionChecksumMismatch 1 (crc32c_append 0 [7]) actual))"
proof -
  have "example_bytes ! 64 = 7"
    by (simp add: example_bytes_def nth_append example_entry_length header_as_bytes_def FORMAT_MAGIC_def)
  then show ?thesis
    using snapshot_verify_all_catches [OF example_opens example_small example_verifies, of example_entry 64 8]
    by (simp add: example_snapshot_def example_entry_def entry_end_def)
qed

theorem snapshot_open_checked_catches_witness:
  "\<exists>err. snapshot_open_checked (example_bytes[0 := 8]) crc32c_append = Err err"
proof -
  have "example_bytes ! 0 = 0x4F"
    by (simp add: example_bytes_def header_as_bytes_def FORMAT_MAGIC_def)
  then show ?thesis
    using snapshot_open_checked_catches [OF example_opens_checked example_small, of 0 8]
    by (simp add: HEADER_SIZE_def)
qed

end
