(* ===== verification/SnapshotWrite.thy ===== *)
theory SnapshotWrite
  imports SnapshotRead
begin

text \<open>
  The snapshot encoders of \<open>crates/oxgraph-snapshot/src/container.rs\<close>: the planner that fills a caller's
  buffer, the write-through writer with its section sink, and the patch of one section's
  checksum. An encoder method that returns an error leaves the caller's value as it was, except
  where noted; a consumed or exclusively borrowed value is passed in and returned.
\<close>

section \<open>Alignment\<close>

text \<open>
  \<open>align_up_checked\<close>: the callers have checked \<open>alignment_log2\<close> against \<open>MAX_ALIGNMENT_LOG2\<close>, so the shift
  does not overflow.
\<close>

definition align_up_checked :: "nat \<Rightarrow> u8 \<Rightarrow> (plan_error, nat) result" where
  "align_up_checked value alignment_log2 =
     (let alignment = push_bit (unat alignment_log2) (1 :: u64);
          mask = alignment - 1
      in and_then (ok_or PayloadOverflow (checked_add value (unat mask))) (\<lambda>added.
           Ok (unat ((word_of_nat added :: u64) AND NOT mask))))"

section \<open>The planner\<close>

record pending_section =
  pend_kind :: u32
  pend_version :: u32
  pend_alignment_log2 :: u8
  pend_payload :: "byte list"

record snapshot_plan =
  plan_sections :: "pending_section list"

fun plan_walk :: "u32 option \<Rightarrow> pending_section list \<Rightarrow> (plan_error, unit) result" where
  "plan_walk prev [] = Ok ()"
| "plan_walk prev (p # ps) =
     (if pend_alignment_log2 p > MAX_ALIGNMENT_LOG2 then Err (AlignmentTooLarge (pend_alignment_log2 p))
      else if (case prev of Some k \<Rightarrow> pend_kind p \<le> k | None \<Rightarrow> False)
      then Err (NonAscendingPlanKind (pend_kind p) (the prev))
      else plan_walk (Some (pend_kind p)) ps)"

definition plan_new :: "pending_section list \<Rightarrow> (plan_error, snapshot_plan) result" where
  "plan_new sections =
     (if length sections > unat MAX_SECTION_COUNT then Err (TooManySections (length sections))
      else and_then (plan_walk None sections) (\<lambda>_. Ok \<lparr>plan_sections = sections\<rparr>))"

fun encoded_len_loop :: "nat \<Rightarrow> pending_section list \<Rightarrow> (plan_error, nat) result" where
  "encoded_len_loop so_far [] = Ok so_far"
| "encoded_len_loop so_far (p # ps) =
     and_then (align_up_checked so_far (pend_alignment_log2 p)) (\<lambda>aligned.
     and_then (ok_or PayloadOverflow (checked_add aligned (length (pend_payload p)))) (\<lambda>next.
       encoded_len_loop next ps))"

definition plan_encoded_len :: "snapshot_plan \<Rightarrow> (plan_error, nat) result" where
  "plan_encoded_len plan =
     and_then (ok_or PayloadOverflow (checked_mul (length (plan_sections plan)) SECTION_ENTRY_SIZE)) (\<lambda>table_len.
     and_then (ok_or PayloadOverflow (checked_add HEADER_SIZE table_len)) (\<lambda>start.
     and_then (encoded_len_loop start (plan_sections plan)) (\<lambda>needed.
     and_then (ok_or PayloadOverflow (from_usize needed :: u64 option)) (\<lambda>_. Ok needed))))"

definition plan_entry :: "(u32 \<Rightarrow> byte list \<Rightarrow> u32) \<Rightarrow> pending_section \<Rightarrow> u64 \<Rightarrow> u64 \<Rightarrow> raw_section_entry" where
  "plan_entry checksum p offset len =
     \<lparr>ent_offset = offset, ent_length = len, ent_kind = pend_kind p, ent_version = pend_version p,
      ent_crc32c = checksum 0 (pend_payload p), ent_alignment_log2 = pend_alignment_log2 p,
      ent_flags = 0, ent_reserved = [0, 0]\<rparr>"

fun plan_write_loop ::
    "(u32 \<Rightarrow> byte list \<Rightarrow> u32) \<Rightarrow> nat \<Rightarrow> nat \<Rightarrow> byte list \<Rightarrow> pending_section list \<Rightarrow>
       (plan_error, byte list) run" where
  "plan_write_loop checksum index cursor prefix [] = Some (Ok prefix)"
| "plan_write_loop checksum index cursor prefix (p # ps) =
     run_then (trying (align_up_checked cursor (pend_alignment_log2 p))) (\<lambda>cursor.
     run_then (trying (ok_or PayloadOverflow (checked_add cursor (length (pend_payload p))))) (\<lambda>payload_end.
     run_then (trying (ok_or PayloadOverflow (from_usize cursor))) (\<lambda>offset.
     run_then (trying (ok_or PayloadOverflow (from_usize (length (pend_payload p))))) (\<lambda>len.
     run_then (trying (ok_or PayloadOverflow (checked_mul index SECTION_ENTRY_SIZE))) (\<lambda>cell.
     run_then (trying (ok_or PayloadOverflow (checked_add HEADER_SIZE cell))) (\<lambda>entry_offset.
     run_then (reading (copy_or_panic prefix entry_offset
       (entry_as_bytes (plan_entry checksum p offset len)))) (\<lambda>prefix.
     run_then (reading (copy_or_panic prefix cursor (pend_payload p))) (\<lambda>prefix.
       plan_write_loop checksum (index + 1) payload_end prefix ps))))))))"

definition encoded_header :: "u32 \<Rightarrow> u32 \<Rightarrow> raw_header" where
  "encoded_header section_count table_crc =
     \<lparr>hdr_magic = FORMAT_MAGIC, hdr_format_major = FORMAT_MAJOR, hdr_format_minor = FORMAT_MINOR,
      hdr_header_size = HEADER_SIZE_U32, hdr_section_count = section_count,
      hdr_table_crc32c = table_crc, hdr_reserved = [0, 0, 0, 0]\<rparr>"

text \<open>
  \<open>write_into\<close>: the number of bytes written and the buffer with its new contents, which are not
  tracked after an error.
\<close>

definition plan_write_into ::
    "snapshot_plan \<Rightarrow> byte list \<Rightarrow> (u32 \<Rightarrow> byte list \<Rightarrow> u32) \<Rightarrow> (plan_error, nat \<times> byte list) run" where
  "plan_write_into plan out checksum =
     (let count = length (plan_sections plan) in
      run_then (trying (plan_encoded_len plan)) (\<lambda>needed.
      if length out < needed then Some (Err (BufferTooSmall needed (length out)))
      else
      run_then (trying (ok_or (TooManySections count) (from_usize count))) (\<lambda>section_count.
      run_then (trying (ok_or PayloadOverflow (checked_mul count SECTION_ENTRY_SIZE))) (\<lambda>table_len.
      run_then (trying (ok_or PayloadOverflow (checked_add HEADER_SIZE table_len))) (\<lambda>payload_start.
      run_then (plan_write_loop checksum 0 payload_start (replicate needed 0) (plan_sections plan)) (\<lambda>prefix.
      run_then (reading (slice_or_panic prefix HEADER_SIZE payload_start)) (\<lambda>table_bytes.
      run_then (reading (copy_or_panic prefix 0
        (header_as_bytes (encoded_header section_count (table_checksum table_bytes checksum))))) (\<lambda>prefix.
        Some (Ok (needed, prefix @ drop needed out))))))))))"

section \<open>The writer\<close>

record snapshot_writer =
  wr_buf :: "byte list"
  wr_entries :: "raw_section_entry list"
  wr_max_sections :: nat
  wr_checksum :: "u32 \<Rightarrow> byte list \<Rightarrow> u32"

record section_sink =
  sink_writer :: snapshot_writer
  sink_start :: nat
  sink_kind :: u32
  sink_version :: u32
  sink_crc :: u32
  sink_alignment_log2 :: u8

text \<open>The requested payload capacity only sizes the allocation.\<close>

definition writer_with_payload_capacity ::
    "nat \<Rightarrow> nat \<Rightarrow> (u32 \<Rightarrow> byte list \<Rightarrow> u32) \<Rightarrow> (plan_error, snapshot_writer) result" where
  "writer_with_payload_capacity max_sections payload_capacity checksum =
     (if max_sections > unat MAX_SECTION_COUNT then Err (TooManySections max_sections)
      else
        and_then (ok_or PayloadOverflow (checked_mul max_sections SECTION_ENTRY_SIZE)) (\<lambda>table_len.
        and_then (ok_or PayloadOverflow (checked_add HEADER_SIZE table_len)) (\<lambda>reserved.
          Ok \<lparr>wr_buf = replicate reserved 0, wr_entries = [], wr_max_sections = max_sections,
              wr_checksum = checksum\<rparr>)))"

definition writer_new :: "nat \<Rightarrow> (u32 \<Rightarrow> byte list \<Rightarrow> u32) \<Rightarrow> (plan_error, snapshot_writer) result" where
  "writer_new max_sections checksum = writer_with_payload_capacity max_sections 0 checksum"

definition writer_begin_section ::
    "snapshot_writer \<Rightarrow> u32 \<Rightarrow> u32 \<Rightarrow> u8 \<Rightarrow> (plan_error, section_sink) result" where
  "writer_begin_section w kind version alignment_log2 =
     (if alignment_log2 > MAX_ALIGNMENT_LOG2 then Err (AlignmentTooLarge alignment_log2)
      else if length (wr_entries w) \<ge> wr_max_sections w then Err (TooManySections (length (wr_entries w) + 1))
      else if wr_entries w \<noteq> [] \<and> kind \<le> ent_kind (last (wr_entries w))
      then Err (NonAscendingPlanKind kind (ent_kind (last (wr_entries w))))
      else
        and_then (align_up_checked (length (wr_buf w)) alignment_log2) (\<lambda>aligned.
          Ok \<lparr>sink_writer =
                w\<lparr>wr_buf := take aligned (wr_buf w) @ replicate (aligned - length (wr_buf w)) 0\<rparr>,
              sink_start = aligned, sink_kind = kind, sink_version = version, sink_crc = 0,
              sink_alignment_log2 = alignment_log2\<rparr>))"

definition sink_write :: "section_sink \<Rightarrow> byte list \<Rightarrow> section_sink" where
  "sink_write sink bytes =
     (let w = sink_writer sink
      in sink\<lparr>sink_crc := wr_checksum w (sink_crc sink) bytes,
              sink_writer := w\<lparr>wr_buf := wr_buf w @ bytes\<rparr>\<rparr>)"

text \<open>Typed records are written as their bytes.\<close>

definition sink_write_typed :: "section_sink \<Rightarrow> byte list list \<Rightarrow> section_sink" where
  "sink_write_typed sink records = sink_write sink (concat records)"

text \<open>\<open>end\<close> consumes the sink and releases the writer with the section's entry recorded.\<close>

definition sink_end :: "section_sink \<Rightarrow> (plan_error, snapshot_writer) result" where
  "sink_end sink =
     (let w = sink_writer sink in
      and_then (ok_or PayloadOverflow (from_usize (sink_start sink))) (\<lambda>offset.
      and_then (ok_or PayloadOverflow (from_usize (length (wr_buf w) - sink_start sink))) (\<lambda>len.
        Ok (w\<lparr>wr_entries := wr_entries w @
              [\<lparr>ent_offset = offset, ent_length = len, ent_kind = sink_kind sink,
                ent_version = sink_version sink, ent_crc32c = sink_crc sink,
                ent_alignment_log2 = sink_alignment_log2 sink, ent_flags = 0,
                ent_reserved = [0, 0]\<rparr>]\<rparr>))))"

text \<open>Dropping the sink releases the writer without an entry.\<close>

definition sink_drop :: "section_sink \<Rightarrow> snapshot_writer" where
  "sink_drop sink = sink_writer sink"

definition writer_section_bytes ::
    "snapshot_writer \<Rightarrow> u32 \<Rightarrow> u32 \<Rightarrow> u8 \<Rightarrow> byte list \<Rightarrow> (plan_error, snapshot_writer) result" where
  "writer_section_bytes w kind version alignment_log2 bytes =
     and_then (writer_begin_section w kind version alignment_log2) (\<lambda>sink.
       sink_end (sink_write sink bytes))"

text \<open>\<open>usize::trailing_zeros\<close>, and a section of records of a type with the given alignment.\<close>

fun trailing_zeros :: "nat \<Rightarrow> nat" where
  "trailing_zeros n = (if n = 0 then 64 else if odd n then 0 else Suc (trailing_zeros (n div 2)))"

declare trailing_zeros.simps [simp del]

definition writer_section_typed ::
    "nat \<Rightarrow> snapshot_writer \<Rightarrow> u32 \<Rightarrow> u32 \<Rightarrow> byte list list \<Rightarrow> (plan_error, snapshot_writer) result" where
  "writer_section_typed alignment w kind version records =
     (case from_usize (trailing_zeros alignment) of
        None \<Rightarrow> Err (AlignmentTooLarge (- 1))
      | Some alignment_log2 \<Rightarrow>
          and_then (writer_begin_section w kind version alignment_log2) (\<lambda>sink.
            sink_end (sink_write_typed sink records)))"

definition writer_section_little_endian ::
    "nat \<Rightarrow> snapshot_writer \<Rightarrow> u32 \<Rightarrow> u32 \<Rightarrow> byte list list \<Rightarrow> (plan_error, snapshot_writer) result" where
  "writer_section_little_endian alignment w kind version records =
     writer_section_typed alignment w kind version records"

text \<open>The storage words of a persisted width are unaligned: their alignment is one.\<close>

definition writer_section_widths ::
    "snapshot_writer \<Rightarrow> u32 \<Rightarrow> u32 \<Rightarrow> ('w::len) word list \<Rightarrow> (plan_error, snapshot_writer) result" where
  "writer_section_widths w kind version values =
     writer_section_little_endian 1 w kind version (map to_le_word values)"

fun finish_loop :: "nat \<Rightarrow> byte list \<Rightarrow> raw_section_entry list \<Rightarrow> byte list option" where
  "finish_loop index buf [] = Some buf"
| "finish_loop index buf (e # es) =
     Option.bind (copy_or_panic buf (HEADER_SIZE + index * SECTION_ENTRY_SIZE) (entry_as_bytes e)) (\<lambda>buf.
       finish_loop (index + 1) buf es)"

definition writer_finish :: "snapshot_writer \<Rightarrow> (plan_error, byte list) run" where
  "writer_finish w =
     run_then (trying (ok_or PayloadOverflow (from_usize (length (wr_buf w)) :: u64 option))) (\<lambda>_.
     run_then (trying (ok_or (TooManySections (length (wr_entries w))) (from_usize (length (wr_entries w))))) (\<lambda>count.
     run_then (reading (finish_loop 0 (wr_buf w) (wr_entries w))) (\<lambda>buf.
     run_then (reading (slice_or_panic buf HEADER_SIZE
       (HEADER_SIZE + length (wr_entries w) * SECTION_ENTRY_SIZE))) (\<lambda>table_bytes.
     run_then (reading (copy_or_panic buf 0
       (header_as_bytes (encoded_header count (table_checksum table_bytes (wr_checksum w)))))) (\<lambda>buf.
       Some (Ok buf))))))"

section \<open>Patching a section's checksum\<close>

definition patch_section_crc ::
    "byte list \<Rightarrow> u32 \<Rightarrow> (u32 \<Rightarrow> byte list \<Rightarrow> u32) \<Rightarrow> (snapshot_error, byte list) run" where
  "patch_section_crc bytes kind checksum =
     run_then (trying (snapshot_open bytes)) (\<lambda>s.
     run_then (trying (ok_or (SectionMissing kind) (snapshot_entry_index s kind))) (\<lambda>index.
     run_then (reading (index_or_panic (snap_entries s) index)) (\<lambda>e.
     run_then (reading (section_from_entry (snap_bytes s) e)) (\<lambda>sec.
       let entry_offset = HEADER_SIZE + index * SECTION_ENTRY_SIZE;
           payload_crc = checksum 0 (sec_payload sec);
           table_end = HEADER_SIZE + length (snap_entries s) * SECTION_ENTRY_SIZE in
       run_then (reading (copy_or_panic bytes (entry_offset + 24) (to_le_word payload_crc))) (\<lambda>bytes.
       run_then (reading (slice_or_panic bytes HEADER_SIZE table_end)) (\<lambda>table_bytes.
       run_then (reading (copy_or_panic bytes 24
         (to_le_word (table_checksum table_bytes checksum)))) (\<lambda>bytes.
         Some (Ok bytes))))))))"

section \<open>Alignment rounds up\<close>

definition aligned_up :: "nat \<Rightarrow> nat \<Rightarrow> nat" where
  "aligned_up value a = (value + (2 ^ a - 1)) div 2 ^ a * 2 ^ a"

lemma and_not_mask: "w AND NOT (mask n) = push_bit n (drop_bit n (w :: 'i::len word))"
  by (rule bit_word_eqI) (auto simp: bit_simps)

lemma unat_and_not_mask: "unat (w AND NOT (mask n) :: u64) = unat w div 2 ^ n * 2 ^ n"
proof -
  have "unat w div 2 ^ n * 2 ^ n < 2 ^ LENGTH(64)"
    by (rule le_less_trans [OF div_times_less_eq_dividend unat_bound])
  then show ?thesis
    unfolding and_not_mask unsigned_push_bit_eq unsigned_drop_bit_eq
    using unat_bound [of w] by (simp add: take_bit_nat_eq_self push_bit_eq_mult drop_bit_eq_div)
qed

lemma align_up_checked_Ok_iff:
  assumes "a \<le> MAX_ALIGNMENT_LOG2"
  shows "align_up_checked value a = Ok r \<longleftrightarrow>
    value + (2 ^ unat a - 1) \<le> usize_max \<and> r = aligned_up value (unat a)"
proof -
  have small: "unat a \<le> 12" using assms by (simp add: MAX_ALIGNMENT_LOG2_def word_le_nat_alt)
  have m: "push_bit (unat a) (1 :: u64) - 1 = mask (unat a)"
    by (simp add: push_bit_eq_mult mask_eq_exp_minus_1)
  have "mask (unat a) < (2 :: nat) ^ 64"
  proof -
    have "mask (unat a) < (2 :: nat) ^ unat a" by (simp add: mask_eq_exp_minus_1)
    also have "\<dots> \<le> 2 ^ 64" using small by (intro power_increasing) auto
    finally show ?thesis .
  qed
  then have "unat (word_of_nat (mask (unat a)) :: u64) = mask (unat a)" by (intro unat_word_of_nat) simp
  then have "unat (mask (unat a) :: u64) = 2 ^ unat a - 1"
    by (simp add: of_nat_mask_eq mask_eq_exp_minus_1)
  then have "align_up_checked value a =
      and_then (ok_or PayloadOverflow (checked_add value (2 ^ unat a - 1))) (\<lambda>added.
        Ok (unat ((word_of_nat added :: u64) AND NOT (mask (unat a)))))"
    unfolding align_up_checked_def Let_def m by (simp only:)
  then show ?thesis
    by (auto simp: aligned_up_def unat_and_not_mask unat_word_of_nat usize_max_def)
qed

lemma aligned_up_bounds: "value \<le> aligned_up value a" "aligned_up value a \<le> value + (2 ^ a - 1)"
proof -
  have pos: "(0::nat) < 2 ^ a" by simp
  then have "value + (2 ^ a - 1) < aligned_up value a + 2 ^ a"
    unfolding aligned_up_def
    using dividend_less_div_times [OF pos, of "value + (2 ^ a - 1)"] by (simp add: add.commute)
  then show "value \<le> aligned_up value a" using pos by linarith
  show "aligned_up value a \<le> value + (2 ^ a - 1)"
    unfolding aligned_up_def by (rule div_times_less_eq_dividend)
qed

lemma aligned_up_dvd: "2 ^ a dvd aligned_up value a"
  by (simp add: aligned_up_def)

section \<open>Writer runs\<close>

text \<open>
  The states a writer goes through: owned by the caller, or exclusively borrowed by a sink. The
  log of a run lists the sections ended so far; while a section streams, the run also keeps
  the bytes written to it.
\<close>

datatype writer_state = Idle snapshot_writer | Streaming section_sink "byte list"

inductive writer_run ::
    "(u32 \<Rightarrow> byte list \<Rightarrow> u32) \<Rightarrow> writer_state \<Rightarrow> pending_section list \<Rightarrow> bool" for checksum where
  run_new: "writer_with_payload_capacity max_sections capacity checksum = Ok w \<Longrightarrow>
    writer_run checksum (Idle w) []"
| run_begin: "writer_run checksum (Idle w) log \<Longrightarrow> writer_begin_section w kind version a = Ok sink \<Longrightarrow>
    writer_run checksum (Streaming sink []) log"
| run_write: "writer_run checksum (Streaming sink written) log \<Longrightarrow>
    writer_run checksum (Streaming (sink_write sink bytes) (written @ bytes)) log"
| run_end: "writer_run checksum (Streaming sink written) log \<Longrightarrow> sink_end sink = Ok w \<Longrightarrow>
    writer_run checksum (Idle w)
      (log @ [\<lparr>pend_kind = sink_kind sink, pend_version = sink_version sink,
               pend_alignment_log2 = sink_alignment_log2 sink, pend_payload = written\<rparr>])"
| run_drop: "writer_run checksum (Streaming sink written) log \<Longrightarrow>
    writer_run checksum (Idle (sink_drop sink)) log"

text \<open>The section an entry describes in a buffer, as the caller asked for it.\<close>

definition described :: "byte list \<Rightarrow> raw_section_entry \<Rightarrow> pending_section" where
  "described buf e =
     \<lparr>pend_kind = ent_kind e, pend_version = ent_version e, pend_alignment_log2 = ent_alignment_log2 e,
      pend_payload = subrange buf (unat (ent_offset e)) (unat (ent_length e))\<rparr>"

definition writer_wf :: "(u32 \<Rightarrow> byte list \<Rightarrow> u32) \<Rightarrow> snapshot_writer \<Rightarrow> bool" where
  "writer_wf checksum w \<longleftrightarrow>
     wr_checksum w = checksum \<and>
     length (wr_entries w) \<le> wr_max_sections w \<and> wr_max_sections w \<le> unat MAX_SECTION_COUNT \<and>
     HEADER_SIZE + wr_max_sections w * SECTION_ENTRY_SIZE \<le> length (wr_buf w) \<and>
     table_ok (length (wr_buf w)) (wr_entries w) \<and>
     layout_ok (HEADER_SIZE + wr_max_sections w * SECTION_ENTRY_SIZE) (wr_entries w) \<and>
     (\<forall>e \<in> set (wr_entries w). 2 ^ unat (ent_alignment_log2 e) dvd unat (ent_offset e) \<and>
        checksum 0 (pend_payload (described (wr_buf w) e)) = ent_crc32c e)"

definition sink_wf :: "(u32 \<Rightarrow> byte list \<Rightarrow> u32) \<Rightarrow> section_sink \<Rightarrow> byte list \<Rightarrow> bool" where
  "sink_wf checksum sink written \<longleftrightarrow>
     (let w = sink_writer sink in
      writer_wf checksum w \<and> length (wr_entries w) < wr_max_sections w \<and>
      HEADER_SIZE + wr_max_sections w * SECTION_ENTRY_SIZE \<le> sink_start sink \<and>
      sink_start sink \<le> length (wr_buf w) \<and> written = drop (sink_start sink) (wr_buf w) \<and>
      (\<forall>e \<in> set (wr_entries w). entry_end e \<le> sink_start sink \<and> ent_kind e < sink_kind sink) \<and>
      sink_crc sink = checksum 0 written \<and> sink_alignment_log2 sink \<le> MAX_ALIGNMENT_LOG2 \<and>
      2 ^ unat (sink_alignment_log2 sink) dvd sink_start sink)"

fun state_wf :: "(u32 \<Rightarrow> byte list \<Rightarrow> u32) \<Rightarrow> writer_state \<Rightarrow> pending_section list \<Rightarrow> bool" where
  "state_wf checksum (Idle w) log \<longleftrightarrow>
     writer_wf checksum w \<and> map (described (wr_buf w)) (wr_entries w) = log"
| "state_wf checksum (Streaming sink written) log \<longleftrightarrow>
     sink_wf checksum sink written \<and>
     map (described (wr_buf (sink_writer sink))) (wr_entries (sink_writer sink)) = log"

lemma described_extend:
  "entry_end e \<le> length buf \<Longrightarrow> described (buf @ ys) e = described buf e"
  by (simp add: described_def entry_end_def subrange_append_left)

lemma table_ok_mono: "table_ok n es \<Longrightarrow> n \<le> m \<Longrightarrow> table_ok m es"
  by (auto simp: table_ok_def entry_ok_def)

lemma table_ok_end: "table_ok n es \<Longrightarrow> e \<in> set es \<Longrightarrow> entry_end e \<le> n"
  by (simp add: table_ok_def entry_ok_def)

lemma writer_wf_extend:
  assumes "writer_wf checksum w"
  shows "writer_wf checksum (w\<lparr>wr_buf := wr_buf w @ ys\<rparr>)"
    and "map (described (wr_buf w @ ys)) (wr_entries w) = map (described (wr_buf w)) (wr_entries w)"
  using assms
  by (auto simp: writer_wf_def table_ok_end described_extend intro: table_ok_mono)

lemma sorted_kinds_last:
  assumes "sorted_wrt (<) (map ent_kind es)" and "e \<in> set es"
  shows "ent_kind e \<le> ent_kind (last es)"
  using assms by (induction es) (auto simp: less_imp_le)

lemma begin_wf:
  assumes wf: "writer_wf checksum w" and ok: "writer_begin_section w kind version a = Ok sink"
    and empty: "checksum 0 [] = 0"
  shows "sink_wf checksum sink []"
    and "map (described (wr_buf (sink_writer sink))) (wr_entries (sink_writer sink)) =
      map (described (wr_buf w)) (wr_entries w)"
proof -
  let ?start = "aligned_up (length (wr_buf w)) (unat a)"
  let ?buf = "wr_buf w @ replicate (?start - length (wr_buf w)) 0"
  from ok have a: "a \<le> MAX_ALIGNMENT_LOG2" and room: "length (wr_entries w) < wr_max_sections w"
    and kind: "wr_entries w \<noteq> [] \<Longrightarrow> ent_kind (last (wr_entries w)) < kind"
    by (auto simp: writer_begin_section_def split: if_splits)
  from aligned_up_bounds(1) have start: "length (wr_buf w) \<le> ?start" .
  then have sink: "sink = \<lparr>sink_writer = w\<lparr>wr_buf := ?buf\<rparr>, sink_start = ?start, sink_kind = kind,
      sink_version = version, sink_crc = 0, sink_alignment_log2 = a\<rparr>"
    using ok by (auto simp: writer_begin_section_def align_up_checked_Ok_iff [OF a] split: if_splits)
  have below: "ent_kind e < kind" if "e \<in> set (wr_entries w)" for e
  proof -
    have "sorted_wrt (<) (map ent_kind (wr_entries w))" using wf by (simp add: writer_wf_def table_ok_def)
    then show ?thesis using sorted_kinds_last that kind by fastforce
  qed
  have ends: "entry_end e \<le> ?start" if "e \<in> set (wr_entries w)" for e
    using wf that start by (fastforce simp: writer_wf_def dest: table_ok_end)
  show "sink_wf checksum sink []"
    using writer_wf_extend(1) [OF wf, of "replicate (?start - length (wr_buf w)) 0"] wf a room below ends start
    by (simp add: sink_wf_def sink empty aligned_up_dvd) (auto simp: writer_wf_def)
  show "map (described (wr_buf (sink_writer sink))) (wr_entries (sink_writer sink)) =
      map (described (wr_buf w)) (wr_entries w)"
    using writer_wf_extend(2) [OF wf] by (simp add: sink)
qed

lemma write_wf:
  assumes wf: "sink_wf checksum sink written"
    and cont: "checksum (checksum 0 written) bytes = checksum 0 (written @ bytes)"
  shows "sink_wf checksum (sink_write sink bytes) (written @ bytes)"
    and "map (described (wr_buf (sink_writer (sink_write sink bytes)))) (wr_entries (sink_writer (sink_write sink bytes))) =
      map (described (wr_buf (sink_writer sink))) (wr_entries (sink_writer sink))"
proof -
  let ?w = "sink_writer sink"
  from wf have w: "writer_wf checksum ?w" and crc: "sink_crc sink = checksum 0 written"
    and start: "sink_start sink \<le> length (wr_buf ?w)" by (simp_all add: sink_wf_def Let_def)
  then have "wr_checksum ?w = checksum" by (simp add: writer_wf_def)
  with wf crc cont start show "sink_wf checksum (sink_write sink bytes) (written @ bytes)"
    using writer_wf_extend(1) [OF w, of bytes]
    by (simp add: sink_wf_def sink_write_def Let_def)
  show "map (described (wr_buf (sink_writer (sink_write sink bytes)))) (wr_entries (sink_writer (sink_write sink bytes))) =
      map (described (wr_buf ?w)) (wr_entries ?w)"
    using writer_wf_extend(2) [OF w, of bytes] by (simp add: sink_write_def Let_def)
qed

lemma sorted_wrt_snoc: "sorted_wrt P (xs @ [x]) \<longleftrightarrow> sorted_wrt P xs \<and> (\<forall>y \<in> set xs. P y x)"
  by (simp add: sorted_wrt_append)

lemma end_wf:
  assumes wf: "sink_wf checksum sink written" and ok: "sink_end sink = Ok w"
  shows "writer_wf checksum w"
    and "map (described (wr_buf w)) (wr_entries w) =
      map (described (wr_buf (sink_writer sink))) (wr_entries (sink_writer sink)) @
      [\<lparr>pend_kind = sink_kind sink, pend_version = sink_version sink,
        pend_alignment_log2 = sink_alignment_log2 sink, pend_payload = written\<rparr>]"
proof -
  let ?w = "sink_writer sink" and ?start = "sink_start sink"
  let ?len = "length (wr_buf ?w) - ?start"
  let ?e = "\<lparr>ent_offset = word_of_nat ?start, ent_length = word_of_nat ?len, ent_kind = sink_kind sink,
    ent_version = sink_version sink, ent_crc32c = sink_crc sink, ent_alignment_log2 = sink_alignment_log2 sink,
    ent_flags = 0, ent_reserved = [0, 0]\<rparr>"
  from wf have parts: "writer_wf checksum ?w" "length (wr_entries ?w) < wr_max_sections ?w"
    "HEADER_SIZE + wr_max_sections ?w * SECTION_ENTRY_SIZE \<le> ?start" "?start \<le> length (wr_buf ?w)"
    "written = drop ?start (wr_buf ?w)" "sink_crc sink = checksum 0 written"
    "sink_alignment_log2 sink \<le> MAX_ALIGNMENT_LOG2" "2 ^ unat (sink_alignment_log2 sink) dvd ?start"
    and below: "\<And>f. f \<in> set (wr_entries ?w) \<Longrightarrow> entry_end f \<le> ?start \<and> ent_kind f < sink_kind sink"
    by (simp_all add: sink_wf_def Let_def)
  from ok have fits: "?start < 2 ^ 64" "?len < 2 ^ 64"
    and w: "w = ?w\<lparr>wr_entries := wr_entries ?w @ [?e]\<rparr>"
    by (auto simp: sink_end_def Let_def from_usize_def split: if_splits)
  have off: "unat (ent_offset ?e) = ?start" and len: "unat (ent_length ?e) = ?len"
    using fits by (simp_all add: unat_word_of_nat)
  have payload: "described (wr_buf ?w) ?e =
      \<lparr>pend_kind = sink_kind sink, pend_version = sink_version sink,
       pend_alignment_log2 = sink_alignment_log2 sink, pend_payload = written\<rparr>"
    unfolding described_def off len using parts(4,5) by (simp add: subrange_def)
  have stop: "entry_end ?e = length (wr_buf ?w)"
    unfolding entry_end_def off len using parts(4) by simp
  have "table_ok (length (wr_buf ?w)) (wr_entries ?w @ [?e])"
    using parts(1,7) below stop
    by (auto simp: writer_wf_def table_ok_def sorted_wrt_snoc entry_ok_def)
  moreover have "layout_ok (HEADER_SIZE + wr_max_sections ?w * SECTION_ENTRY_SIZE) (wr_entries ?w @ [?e])"
    using parts(1,3) below off by (auto simp: writer_wf_def layout_ok_def sorted_wrt_snoc)
  ultimately show "writer_wf checksum w"
    using parts payload off by (auto simp: writer_wf_def w)
  show "map (described (wr_buf w)) (wr_entries w) = map (described (wr_buf ?w)) (wr_entries ?w) @
      [\<lparr>pend_kind = sink_kind sink, pend_version = sink_version sink,
        pend_alignment_log2 = sink_alignment_log2 sink, pend_payload = written\<rparr>]"
    using payload by (simp add: w)
qed

lemma new_wf:
  assumes "writer_with_payload_capacity max_sections capacity checksum = Ok w"
  shows "writer_wf checksum w" and "wr_entries w = []"
proof -
  from assms have "max_sections \<le> unat MAX_SECTION_COUNT"
    "w = \<lparr>wr_buf = replicate (HEADER_SIZE + max_sections * SECTION_ENTRY_SIZE) 0, wr_entries = [],
          wr_max_sections = max_sections, wr_checksum = checksum\<rparr>"
    by (auto simp: writer_with_payload_capacity_def split: if_splits)
  then show "writer_wf checksum w" and "wr_entries w = []"
    by (simp_all add: writer_wf_def table_ok_def layout_ok_def)
qed

context checksum32
begin

lemma run_wf: "writer_run checksum st log \<Longrightarrow> state_wf checksum st log"
proof (induction rule: writer_run.induct)
  case (run_new max_sections capacity w)
  then show ?case using new_wf [OF run_new] by simp
next
  case (run_begin w log kind version a sink)
  then show ?case using begin_wf [of checksum w kind version a sink] empty_run by simp
next
  case (run_write sink written log bytes)
  then show ?case using write_wf [of checksum sink written bytes] continuation by simp
next
  case (run_end sink written log w)
  then show ?case using end_wf [of checksum sink written w] by simp
next
  case (run_drop sink written log)
  then show ?case by (simp add: sink_wf_def sink_drop_def Let_def)
qed

end

section \<open>Finishing\<close>

lemma finish_loop_Some:
  assumes "\<And>e. e \<in> set es \<Longrightarrow> entry_shape e"
    and "HEADER_SIZE + (index + length es) * SECTION_ENTRY_SIZE \<le> length buf"
  shows "finish_loop index buf es =
    Some (take (HEADER_SIZE + index * SECTION_ENTRY_SIZE) buf @ entries_as_bytes es @
          drop (HEADER_SIZE + (index + length es) * SECTION_ENTRY_SIZE) buf)"
  using assms
proof (induction es arbitrary: index buf)
  case Nil
  then show ?case by (simp add: entries_as_bytes_def)
next
  case (Cons e es)
  let ?k = "HEADER_SIZE + index * SECTION_ENTRY_SIZE"
  let ?buf = "overwrite buf ?k (entry_as_bytes e)"
  have len: "length (entry_as_bytes e) = SECTION_ENTRY_SIZE" using Cons.prems(1) [of e] by simp
  have room: "?k + SECTION_ENTRY_SIZE + length es * SECTION_ENTRY_SIZE \<le> length buf"
    using Cons.prems(2) by (simp add: algebra_simps)
  then have fits: "?k + length (entry_as_bytes e) \<le> length buf" by (simp add: len)
  have "finish_loop (Suc index) ?buf es =
      Some (take (?k + SECTION_ENTRY_SIZE) ?buf @ entries_as_bytes es @
            drop (?k + SECTION_ENTRY_SIZE + length es * SECTION_ENTRY_SIZE) ?buf)"
    using Cons.IH [of "Suc index" ?buf] Cons.prems fits room by (simp add: algebra_simps)
  moreover have "take (?k + SECTION_ENTRY_SIZE) ?buf = take ?k buf @ entry_as_bytes e"
    using room len by (simp add: overwrite_def)
  moreover have "drop (?k + SECTION_ENTRY_SIZE + length es * SECTION_ENTRY_SIZE) ?buf =
      drop (?k + SECTION_ENTRY_SIZE + length es * SECTION_ENTRY_SIZE) buf"
    using room len by (simp add: overwrite_def algebra_simps)
  ultimately show ?case
    using fits by (simp add: entries_as_bytes_def algebra_simps)
qed

lemma slice_or_panic_middle: "slice_or_panic (xs @ ys @ zs) (length xs) (length xs + length ys) = Some ys"
  by (simp add: slice_or_panic_def)

lemma writer_wf_shapes: "writer_wf checksum w \<Longrightarrow> e \<in> set (wr_entries w) \<Longrightarrow> entry_shape e"
  by (auto simp: writer_wf_def dest: table_ok_shapes)

text \<open>What \<open>finish\<close> returns: the header, the entries, and the rest of the buffer unchanged.\<close>

definition finished :: "snapshot_writer \<Rightarrow> byte list" where
  "finished w =
     header_as_bytes (encoded_header (word_of_nat (length (wr_entries w)))
       (wr_checksum w 0 (entries_as_bytes (wr_entries w)))) @
     entries_as_bytes (wr_entries w) @
     drop (HEADER_SIZE + length (wr_entries w) * SECTION_ENTRY_SIZE) (wr_buf w)"

lemma length_encoded_header [simp]: "length (header_as_bytes (encoded_header n crc)) = HEADER_SIZE"
  by (simp add: encoded_header_def header_as_bytes_def FORMAT_MAGIC_def HEADER_SIZE_def)

lemma writer_finish_shape:
  assumes n: "length (wr_entries w) \<le> 1024"
    and room: "HEADER_SIZE + length (wr_entries w) * SECTION_ENTRY_SIZE \<le> length (wr_buf w)"
    and shapes: "\<And>e. e \<in> set (wr_entries w) \<Longrightarrow> entry_shape e"
  shows "writer_finish w =
    Some (if length (wr_buf w) < 2 ^ 64 then Ok (finished w) else Err PayloadOverflow)"
proof -
  let ?n = "length (wr_entries w)" and ?buf = "wr_buf w"
  let ?t = "HEADER_SIZE + ?n * SECTION_ENTRY_SIZE"
  have count: "from_usize ?n = Some (word_of_nat ?n :: u32)" using n by (simp add: from_usize_def)
  have loop: "finish_loop 0 ?buf (wr_entries w) =
      Some (take HEADER_SIZE ?buf @ entries_as_bytes (wr_entries w) @ drop ?t ?buf)"
    using finish_loop_Some [of "wr_entries w" 0 ?buf] room shapes by simp
  have len: "length (entries_as_bytes (wr_entries w)) = ?n * SECTION_ENTRY_SIZE"
    using length_entries_as_bytes shapes by blast
  have "slice_or_panic (take HEADER_SIZE ?buf @ entries_as_bytes (wr_entries w) @ drop ?t ?buf) HEADER_SIZE ?t =
      Some (entries_as_bytes (wr_entries w))"
    using slice_or_panic_middle [of "take HEADER_SIZE ?buf" "entries_as_bytes (wr_entries w)" "drop ?t ?buf"]
      room by (simp add: len)
  moreover have "copy_or_panic (take HEADER_SIZE ?buf @ entries_as_bytes (wr_entries w) @ drop ?t ?buf) 0
      (header_as_bytes (encoded_header c crc)) =
      Some (header_as_bytes (encoded_header c crc) @ entries_as_bytes (wr_entries w) @ drop ?t ?buf)" for c crc
    using room by (simp add: copy_or_panic_def overwrite_def)
  moreover have "ok_or PayloadOverflow (from_usize (length ?buf) :: u64 option) =
      (if length ?buf < 2 ^ 64 then Ok (word_of_nat (length ?buf)) else Err PayloadOverflow)"
    by (simp add: from_usize_def)
  ultimately show ?thesis
    by (simp add: writer_finish_def count loop table_checksum_def finished_def)
qed

lemma writer_finish_eq:
  assumes wf: "writer_wf checksum w"
  shows "writer_finish w =
    Some (if length (wr_buf w) < 2 ^ 64 then Ok (finished w) else Err PayloadOverflow)"
proof (rule writer_finish_shape)
  have n: "length (wr_entries w) \<le> wr_max_sections w" "wr_max_sections w \<le> 1024"
    and room: "HEADER_SIZE + wr_max_sections w * SECTION_ENTRY_SIZE \<le> length (wr_buf w)"
    using wf by (simp_all add: writer_wf_def MAX_SECTION_COUNT_def)
  show "length (wr_entries w) \<le> 1024" using n by linarith
  have "length (wr_entries w) * SECTION_ENTRY_SIZE \<le> wr_max_sections w * SECTION_ENTRY_SIZE"
    using n(1) by (rule mult_le_mono1)
  with room show "HEADER_SIZE + length (wr_entries w) * SECTION_ENTRY_SIZE \<le> length (wr_buf w)"
    by linarith
qed (use wf writer_wf_shapes in blast)

text \<open>The snapshot a finished writer opens as.\<close>

definition finished_snapshot :: "snapshot_writer \<Rightarrow> snapshot" where
  "finished_snapshot w =
     \<lparr>snap_bytes = finished w, snap_format_major = FORMAT_MAJOR, snap_format_minor = FORMAT_MINOR,
      snap_table_crc32c = wr_checksum w 0 (entries_as_bytes (wr_entries w)), snap_entries = wr_entries w\<rparr>"

lemma writer_wf_entries_len:
  "writer_wf checksum w \<Longrightarrow> length (entries_as_bytes (wr_entries w)) = length (wr_entries w) * SECTION_ENTRY_SIZE"
  using length_entries_as_bytes writer_wf_shapes by blast

lemma writer_wf_room:
  assumes "writer_wf checksum w"
  shows "HEADER_SIZE + length (wr_entries w) * SECTION_ENTRY_SIZE \<le> HEADER_SIZE + wr_max_sections w * SECTION_ENTRY_SIZE"
    and "HEADER_SIZE + wr_max_sections w * SECTION_ENTRY_SIZE \<le> length (wr_buf w)"
    and "HEADER_SIZE + length (wr_entries w) * SECTION_ENTRY_SIZE \<le> length (wr_buf w)"
proof -
  show a: "HEADER_SIZE + length (wr_entries w) * SECTION_ENTRY_SIZE \<le> HEADER_SIZE + wr_max_sections w * SECTION_ENTRY_SIZE"
    and b: "HEADER_SIZE + wr_max_sections w * SECTION_ENTRY_SIZE \<le> length (wr_buf w)"
    using assms by (simp_all add: writer_wf_def)
  from a b show "HEADER_SIZE + length (wr_entries w) * SECTION_ENTRY_SIZE \<le> length (wr_buf w)"
    by (rule order_trans)
qed

lemma layout_ok_mono: "layout_ok b es \<Longrightarrow> a \<le> b \<Longrightarrow> layout_ok a es"
  by (force simp: layout_ok_def)

lemma length_finished: "writer_wf checksum w \<Longrightarrow> length (finished w) = length (wr_buf w)"
  using writer_wf_room(3) [of checksum w] by (simp add: finished_def writer_wf_entries_len)

lemma subrange_finished:
  assumes "writer_wf checksum w" and "HEADER_SIZE + wr_max_sections w * SECTION_ENTRY_SIZE \<le> start"
  shows "subrange (finished w) start n = subrange (wr_buf w) start n"
proof -
  let ?front = "header_as_bytes (encoded_header (word_of_nat (length (wr_entries w)))
       (wr_checksum w 0 (entries_as_bytes (wr_entries w)))) @ entries_as_bytes (wr_entries w)"
  let ?t = "HEADER_SIZE + length (wr_entries w) * SECTION_ENTRY_SIZE"
  have "length ?front = ?t" using writer_wf_entries_len [OF assms(1)] by simp
  moreover have "?t \<le> start" using writer_wf_room(1) [OF assms(1)] assms(2) by linarith
  moreover have "finished w = ?front @ drop ?t (wr_buf w)" by (simp add: finished_def)
  ultimately show ?thesis
    using subrange_append_skip [of ?front start "drop ?t (wr_buf w)" n] by (simp add: subrange_def)
qed

lemma described_finished:
  assumes "writer_wf checksum w" and "e \<in> set (wr_entries w)"
  shows "described (finished w) e = described (wr_buf w) e"
proof -
  have "HEADER_SIZE + wr_max_sections w * SECTION_ENTRY_SIZE \<le> unat (ent_offset e)"
    using assms by (simp add: writer_wf_def layout_ok_def)
  then show ?thesis using subrange_finished [OF assms(1)] by (simp add: described_def)
qed

lemma finished_snapshot_wf:
  assumes "writer_wf checksum w"
  shows "snapshot_wf (finished_snapshot w)"
proof -
  have "snapshot_header (finished_snapshot w) = encoded_header (word_of_nat (length (wr_entries w)))
      (wr_checksum w 0 (entries_as_bytes (wr_entries w)))"
    by (simp add: snapshot_header_def finished_snapshot_def encoded_header_def)
  then have "snap_bytes (finished_snapshot w) = header_as_bytes (snapshot_header (finished_snapshot w)) @
      entries_as_bytes (snap_entries (finished_snapshot w)) @
      drop (HEADER_SIZE + length (wr_entries w) * SECTION_ENTRY_SIZE) (wr_buf w)"
    by (simp add: finished_snapshot_def finished_def)
  moreover have "layout_ok (HEADER_SIZE + length (wr_entries w) * SECTION_ENTRY_SIZE) (wr_entries w)"
    using assms writer_wf_room(1) [OF assms] by (auto simp: writer_wf_def intro: layout_ok_mono)
  ultimately show ?thesis
    using assms length_finished [OF assms] unfolding snapshot_wf_def
    by (auto simp: finished_snapshot_def writer_wf_def)
qed

definition section_as_pending :: "snap_section \<Rightarrow> pending_section" where
  "section_as_pending sec =
     \<lparr>pend_kind = sec_kind sec, pend_version = sec_version sec,
      pend_alignment_log2 = sec_alignment_log2 sec, pend_payload = sec_payload sec\<rparr>"

lemma section_as_pending_entry: "section_as_pending (entry_section bytes e) = described bytes e"
  by (simp add: section_as_pending_def entry_section_def described_def)

lemma writer_roundtrip:
  assumes wf: "writer_wf checksum w" and small: "length (wr_buf w) < 2 ^ 64"
  shows "snapshot_open_checked (finished w) checksum = Ok (finished_snapshot w)"
    and "snapshot_verify_all (finished_snapshot w) checksum = Some (Ok ())"
    and "section_iter_drain (snapshot_section_count (finished_snapshot w)) (snapshot_sections (finished_snapshot w)) =
      Some (map (entry_section (finished w)) (wr_entries w))"
    and "map section_as_pending (map (entry_section (finished w)) (wr_entries w)) =
      map (described (wr_buf w)) (wr_entries w)"
proof -
  let ?s = "finished_snapshot w"
  have fits: "length (finished w) \<le> usize_max"
    using small by (simp add: length_finished [OF wf] usize_max_def)
  have ends: "entry_end e \<le> length (finished w)" if "e \<in> set (wr_entries w)" for e
    using wf that by (auto simp: length_finished [OF wf] writer_wf_def dest: table_ok_end)
  have sum: "wr_checksum w = checksum" using wf by (simp add: writer_wf_def)
  have "snapshot_open (finished w) = Ok ?s"
    using finished_snapshot_wf [OF wf] by (simp add: snapshot_open_Ok_iff [OF fits] finished_snapshot_def)
  then show "snapshot_open_checked (finished w) checksum = Ok ?s"
    by (simp add: snapshot_open_checked_def table_checksum_def finished_snapshot_def sum)
  have payload: "sec_payload (entry_section (finished w) e) = pend_payload (described (wr_buf w) e)"
    if "e \<in> set (wr_entries w)" for e
    using described_finished [OF wf that] by (simp add: described_def)
  have "verify_loop checksum (finished w) (wr_entries w) = Some (Ok ())"
    using verify_loop_Ok_iff [of "wr_entries w" "finished w" checksum] ends fits wf payload
    by (simp add: writer_wf_def del: entry_section_fields)
  then show "snapshot_verify_all ?s checksum = Some (Ok ())"
    by (simp add: snapshot_verify_all_def finished_snapshot_def)
  show "section_iter_drain (snapshot_section_count ?s) (snapshot_sections ?s) =
      Some (map (entry_section (finished w)) (wr_entries w))"
    unfolding snapshot_section_count_def snapshot_sections_def
    using section_iter_drain_wf [OF ends fits] by (simp add: finished_snapshot_def)
  show "map section_as_pending (map (entry_section (finished w)) (wr_entries w)) =
      map (described (wr_buf w)) (wr_entries w)"
    by (simp add: section_as_pending_entry described_finished [OF wf])
qed

section \<open>The planner and the writer lay out the same bytes\<close>

text \<open>Writing a list of sections through the writer, one \<open>section_bytes\<close> each.\<close>

fun write_all :: "snapshot_writer \<Rightarrow> pending_section list \<Rightarrow> (plan_error, snapshot_writer) result" where
  "write_all w [] = Ok w"
| "write_all w (p # ps) =
     and_then (writer_section_bytes w (pend_kind p) (pend_version p) (pend_alignment_log2 p) (pend_payload p))
       (\<lambda>w. write_all w ps)"

text \<open>The reference layout: entries and payload region of sections laid out from a cursor.\<close>

fun lay_out ::
    "(u32 \<Rightarrow> byte list \<Rightarrow> u32) \<Rightarrow> nat \<Rightarrow> pending_section list \<Rightarrow> raw_section_entry list \<times> byte list" where
  "lay_out checksum cursor [] = ([], [])"
| "lay_out checksum cursor (p # ps) =
     (let start = aligned_up cursor (unat (pend_alignment_log2 p));
          rest = lay_out checksum (start + length (pend_payload p)) ps
      in (plan_entry checksum p (word_of_nat start) (word_of_nat (length (pend_payload p))) # fst rest,
          replicate (start - cursor) 0 @ pend_payload p @ snd rest))"

lemma plan_entry_shape [simp]: "entry_shape (plan_entry checksum p offset len)"
  by (simp add: entry_shape_def plan_entry_def)

lemma lay_out_shapes: "e \<in> set (fst (lay_out checksum cursor ps)) \<Longrightarrow> entry_shape e"
  by (induction ps arbitrary: cursor) (auto simp: Let_def)

lemma length_lay_out [simp]: "length (fst (lay_out checksum cursor ps)) = length ps"
  by (induction ps arbitrary: cursor) (auto simp: Let_def)

lemma plan_walk_Cons:
  "plan_walk prev (p # ps) = Ok () \<longleftrightarrow>
     pend_alignment_log2 p \<le> MAX_ALIGNMENT_LOG2 \<and> (\<forall>k. prev = Some k \<longrightarrow> k < pend_kind p) \<and>
     plan_walk (Some (pend_kind p)) ps = Ok ()"
  by (auto simp: not_le not_less split: option.splits)

lemma encoded_len_Cons:
  assumes "pend_alignment_log2 p \<le> MAX_ALIGNMENT_LOG2"
  shows "encoded_len_loop cursor (p # ps) = Ok needed \<longleftrightarrow>
    cursor + (2 ^ unat (pend_alignment_log2 p) - 1) \<le> usize_max \<and>
    aligned_up cursor (unat (pend_alignment_log2 p)) + length (pend_payload p) \<le> usize_max \<and>
    encoded_len_loop (aligned_up cursor (unat (pend_alignment_log2 p)) + length (pend_payload p)) ps = Ok needed"
  by (simp add: align_up_checked_Ok_iff [OF assms])

lemma encoded_len_bounds:
  assumes "plan_walk prev ps = Ok ()" and "encoded_len_loop cursor ps = Ok needed" and "cursor \<le> usize_max"
  shows "cursor \<le> needed \<and> needed \<le> usize_max \<and> length (snd (lay_out checksum cursor ps)) = needed - cursor"
  using assms
proof (induction ps arbitrary: prev cursor)
  case Nil
  then show ?case by simp
next
  case (Cons p ps)
  let ?start = "aligned_up cursor (unat (pend_alignment_log2 p))"
  from Cons.prems(1) have a: "pend_alignment_log2 p \<le> MAX_ALIGNMENT_LOG2"
    and walk: "plan_walk (Some (pend_kind p)) ps = Ok ()"
    by (simp_all only: plan_walk_Cons)
  from Cons.prems(2) have len: "?start + length (pend_payload p) \<le> usize_max"
    and rest: "encoded_len_loop (?start + length (pend_payload p)) ps = Ok needed"
    by (simp_all only: encoded_len_Cons [OF a])
  from Cons.IH [OF walk rest len] aligned_up_bounds(1) [of cursor "unat (pend_alignment_log2 p)"]
  show ?case by (auto simp: Let_def)
qed

lemma section_bytes_Ok:
  fixes p :: pending_section
  defines "start w \<equiv> aligned_up (length (wr_buf w)) (unat (pend_alignment_log2 p))"
  assumes a: "pend_alignment_log2 p \<le> MAX_ALIGNMENT_LOG2" and room: "length (wr_entries w) < wr_max_sections w"
    and kind: "wr_entries w \<noteq> [] \<Longrightarrow> ent_kind (last (wr_entries w)) < pend_kind p"
    and fits: "length (wr_buf w) + (2 ^ unat (pend_alignment_log2 p) - 1) \<le> usize_max"
      "start w + length (pend_payload p) \<le> usize_max"
  shows "writer_section_bytes w (pend_kind p) (pend_version p) (pend_alignment_log2 p) (pend_payload p) =
    Ok (w\<lparr>wr_buf := wr_buf w @ replicate (start w - length (wr_buf w)) 0 @ pend_payload p,
          wr_entries := wr_entries w @
            [plan_entry (wr_checksum w) p (word_of_nat (start w)) (word_of_nat (length (pend_payload p)))]\<rparr>)"
proof -
  have up: "length (wr_buf w) \<le> start w"
    unfolding start_def by (rule aligned_up_bounds)
  have opened: "writer_begin_section w (pend_kind p) (pend_version p) (pend_alignment_log2 p) =
      Ok \<lparr>sink_writer = w\<lparr>wr_buf := wr_buf w @ replicate (start w - length (wr_buf w)) 0\<rparr>,
          sink_start = start w, sink_kind = pend_kind p, sink_version = pend_version p, sink_crc = 0,
          sink_alignment_log2 = pend_alignment_log2 p\<rparr>"
  proof -
    have "align_up_checked (length (wr_buf w)) (pend_alignment_log2 p) = Ok (start w)"
      using fits(1) by (simp add: align_up_checked_Ok_iff [OF a] start_def)
    then show ?thesis using a room kind up by (auto simp: writer_begin_section_def not_le not_less)
  qed
  have conv: "from_usize (start w) = Some (word_of_nat (start w) :: u64)"
    "from_usize (length (pend_payload p)) = Some (word_of_nat (length (pend_payload p)) :: u64)"
    using fits by (simp_all add: from_usize_def usize_max_def)
  show ?thesis
    using up by (simp add: writer_section_bytes_def opened sink_write_def sink_end_def conv plan_entry_def)
qed

lemma write_all_lays_out:
  assumes "plan_walk (if wr_entries w = [] then None else Some (ent_kind (last (wr_entries w)))) ps = Ok ()"
    and "length (wr_entries w) + length ps \<le> wr_max_sections w"
    and "encoded_len_loop (length (wr_buf w)) ps = Ok needed"
  shows "write_all w ps =
    Ok (w\<lparr>wr_buf := wr_buf w @ snd (lay_out (wr_checksum w) (length (wr_buf w)) ps),
          wr_entries := wr_entries w @ fst (lay_out (wr_checksum w) (length (wr_buf w)) ps)\<rparr>)"
  using assms
proof (induction ps arbitrary: w)
  case Nil
  then show ?case by simp
next
  case (Cons p ps)
  let ?start = "aligned_up (length (wr_buf w)) (unat (pend_alignment_log2 p))"
  let ?w = "w\<lparr>wr_buf := wr_buf w @ replicate (?start - length (wr_buf w)) 0 @ pend_payload p,
          wr_entries := wr_entries w @
            [plan_entry (wr_checksum w) p (word_of_nat ?start) (word_of_nat (length (pend_payload p)))]\<rparr>"
  from Cons.prems(1) have a: "pend_alignment_log2 p \<le> MAX_ALIGNMENT_LOG2"
    and kind: "wr_entries w \<noteq> [] \<Longrightarrow> ent_kind (last (wr_entries w)) < pend_kind p"
    and walk: "plan_walk (Some (pend_kind p)) ps = Ok ()"
    by (simp_all only: plan_walk_Cons) (auto split: if_splits)
  from Cons.prems(3) have fits: "length (wr_buf w) + (2 ^ unat (pend_alignment_log2 p) - 1) \<le> usize_max"
      "?start + length (pend_payload p) \<le> usize_max"
    and rest: "encoded_len_loop (?start + length (pend_payload p)) ps = Ok needed"
    by (simp_all only: encoded_len_Cons [OF a])
  have up: "length (wr_buf w) \<le> ?start" by (rule aligned_up_bounds)
  then have len: "length (wr_buf ?w) = ?start + length (pend_payload p)" by simp
  have step: "writer_section_bytes w (pend_kind p) (pend_version p) (pend_alignment_log2 p) (pend_payload p) = Ok ?w"
    by (rule section_bytes_Ok [OF a _ kind fits]) (use Cons.prems(2) in simp_all)
  have "write_all ?w ps = Ok (?w\<lparr>wr_buf := wr_buf ?w @ snd (lay_out (wr_checksum ?w) (length (wr_buf ?w)) ps),
      wr_entries := wr_entries ?w @ fst (lay_out (wr_checksum ?w) (length (wr_buf ?w)) ps)\<rparr>)"
    by (rule Cons.IH) (use walk Cons.prems(2) rest up in \<open>simp_all add: plan_entry_def\<close>)
  with step up show ?case by (simp add: Let_def)
qed

lemma copy_middle:
  "length ys' = length ys \<Longrightarrow> copy_or_panic (xs @ ys @ zs) (length xs) ys' = Some (xs @ ys' @ zs)"
  by (simp add: copy_or_panic_def overwrite_def)

lemma plan_write_loop_lays_out:
  assumes "plan_walk prev ps = Ok ()" and "encoded_len_loop cursor ps = Ok needed"
    and "length front = HEADER_SIZE + index * SECTION_ENTRY_SIZE" and "length table = length ps * SECTION_ENTRY_SIZE"
    and "length front + length table + length middle = cursor" and "cursor \<le> usize_max"
  shows "plan_write_loop checksum index cursor (front @ table @ middle @ replicate (needed - cursor) 0) ps =
    Some (Ok (front @ entries_as_bytes (fst (lay_out checksum cursor ps)) @ middle @ snd (lay_out checksum cursor ps)))"
  using assms
proof (induction ps arbitrary: prev index cursor front table middle)
  case Nil
  then show ?case by (simp add: entries_as_bytes_def)
next
  case (Cons p ps)
  let ?start = "aligned_up cursor (unat (pend_alignment_log2 p))"
  let ?len = "length (pend_payload p)" and ?pad = "replicate (aligned_up cursor (unat (pend_alignment_log2 p)) - cursor) 0"
  let ?e = "plan_entry checksum p (word_of_nat ?start) (word_of_nat ?len)"
  let ?cell = "take SECTION_ENTRY_SIZE table" and ?table = "drop SECTION_ENTRY_SIZE table"
  let ?zeros = "replicate (needed - (?start + ?len)) (0 :: byte)"
  from Cons.prems(1) have a: "pend_alignment_log2 p \<le> MAX_ALIGNMENT_LOG2"
    and walk: "plan_walk (Some (pend_kind p)) ps = Ok ()"
    by (simp_all only: plan_walk_Cons)
  from Cons.prems(2) have fits: "cursor + (2 ^ unat (pend_alignment_log2 p) - 1) \<le> usize_max"
      "?start + ?len \<le> usize_max"
    and rest: "encoded_len_loop (?start + ?len) ps = Ok needed"
    by (simp_all only: encoded_len_Cons [OF a])
  have up: "cursor \<le> ?start" by (rule aligned_up_bounds)
  have bound: "?start + ?len \<le> needed"
    using encoded_len_bounds [OF walk rest fits(2)] by simp
  have e: "length (entry_as_bytes ?e) = SECTION_ENTRY_SIZE" by simp
  have cell: "length ?cell = SECTION_ENTRY_SIZE" and table: "table = ?cell @ ?table"
    using Cons.prems(4) by simp_all
  have zeros: "replicate (needed - cursor) 0 = ?pad @ replicate ?len 0 @ ?zeros"
    using up bound by (simp flip: replicate_add)
  have conv: "from_usize ?start = Some (word_of_nat ?start :: u64)" "from_usize ?len = Some (word_of_nat ?len :: u64)"
    using fits by (simp_all add: from_usize_def usize_max_def)
  have front: "length front \<le> usize_max" "index * SECTION_ENTRY_SIZE \<le> usize_max"
    using Cons.prems(3,5,6) by linarith+
  have first: "copy_or_panic (front @ table @ middle @ replicate (needed - cursor) 0) (length front) (entry_as_bytes ?e) =
      Some (front @ entry_as_bytes ?e @ ?table @ middle @ replicate (needed - cursor) 0)"
    using copy_middle [of "entry_as_bytes ?e" ?cell front "?table @ middle @ replicate (needed - cursor) 0"] e cell table
    by (metis append_assoc)
  have "length (front @ entry_as_bytes ?e @ ?table @ middle @ ?pad) = ?start"
    using Cons.prems(4,5) e up by simp
  then have second: "copy_or_panic (front @ entry_as_bytes ?e @ ?table @ middle @ replicate (needed - cursor) 0)
      ?start (pend_payload p) =
      Some ((front @ entry_as_bytes ?e) @ ?table @ (middle @ ?pad @ pend_payload p) @ ?zeros)"
    using copy_middle [of "pend_payload p" "replicate ?len 0" "front @ entry_as_bytes ?e @ ?table @ middle @ ?pad" ?zeros]
    by (simp add: zeros)
  have third: "plan_write_loop checksum (Suc index) (?start + ?len)
      ((front @ entry_as_bytes ?e) @ ?table @ (middle @ ?pad @ pend_payload p) @ ?zeros) ps =
      Some (Ok ((front @ entry_as_bytes ?e) @ entries_as_bytes (fst (lay_out checksum (?start + ?len) ps)) @
        (middle @ ?pad @ pend_payload p) @ snd (lay_out checksum (?start + ?len) ps)))"
    by (rule Cons.IH [OF walk rest]) (use Cons.prems(3,4,5) e up fits(2) in simp_all)
  have align: "align_up_checked cursor (pend_alignment_log2 p) = Ok ?start"
    using fits(1) by (simp add: align_up_checked_Ok_iff [OF a])
  have offset: "HEADER_SIZE + index * SECTION_ENTRY_SIZE = length front" using Cons.prems(3) by simp
  show ?case
    using first second third front fits(2)
    by (simp add: align conv checked_mul_def checked_add_def offset Let_def entries_as_bytes_def)
qed

lemma plan_new_Ok_iff:
  "plan_new ps = Ok plan \<longleftrightarrow>
     length ps \<le> 1024 \<and> plan_walk None ps = Ok () \<and> plan = \<lparr>plan_sections = ps\<rparr>"
  by (auto simp: plan_new_def MAX_SECTION_COUNT_def)

lemma plan_encoded_len_Ok_iff:
  assumes "length ps \<le> 1024"
  shows "plan_encoded_len \<lparr>plan_sections = ps\<rparr> = Ok needed \<longleftrightarrow>
    encoded_len_loop (HEADER_SIZE + length ps * SECTION_ENTRY_SIZE) ps = Ok needed \<and> needed < 2 ^ 64"
  using assms
  by (auto simp: plan_encoded_len_def checked_mul_def checked_add_def usize_max_def HEADER_SIZE_def
      SECTION_ENTRY_SIZE_def from_usize_def)

lemma planned_write:
  fixes checksum :: "u32 \<Rightarrow> byte list \<Rightarrow> u32"
  assumes "plan_new ps = Ok plan" and "plan_encoded_len plan = Ok needed" and "needed \<le> length out"
  defines "w0 \<equiv> \<lparr>wr_buf = replicate (HEADER_SIZE + length ps * SECTION_ENTRY_SIZE) 0, wr_entries = [],
    wr_max_sections = length ps, wr_checksum = checksum\<rparr>"
  defines "w \<equiv> w0\<lparr>wr_buf := wr_buf w0 @ snd (lay_out checksum (length (wr_buf w0)) ps),
    wr_entries := fst (lay_out checksum (length (wr_buf w0)) ps)\<rparr>"
  shows "writer_new (length ps) checksum = Ok w0" and "write_all w0 ps = Ok w"
    and "writer_finish w = Some (Ok (finished w))" and "length (finished w) = needed"
    and "plan_write_into plan out checksum = Some (Ok (needed, finished w @ drop needed out))"
proof -
  let ?start = "HEADER_SIZE + length ps * SECTION_ENTRY_SIZE"
  let ?es = "fst (lay_out checksum ?start ps)" and ?region = "snd (lay_out checksum ?start ps)"
  from assms(1) have n: "length ps \<le> 1024" and walk: "plan_walk None ps = Ok ()"
    and plan: "plan = \<lparr>plan_sections = ps\<rparr>" by (simp_all only: plan_new_Ok_iff)
  from assms(2) have loop: "encoded_len_loop ?start ps = Ok needed" and big: "needed < 2 ^ 64"
    unfolding plan plan_encoded_len_Ok_iff [OF n] by simp_all
  have start: "?start \<le> usize_max" using n by (simp add: HEADER_SIZE_def SECTION_ENTRY_SIZE_def usize_max_def)
  from encoded_len_bounds [OF walk loop start, of checksum]
  have below: "?start \<le> needed" and region: "length ?region = needed - ?start" by simp_all
  have len0: "length (wr_buf w0) = ?start" by (simp add: w0_def)
  have max: "length ps \<le> unat MAX_SECTION_COUNT" using n by (simp add: MAX_SECTION_COUNT_def)
  have count: "checked_mul (length ps) SECTION_ENTRY_SIZE = Some (length ps * SECTION_ENTRY_SIZE)"
    "checked_add HEADER_SIZE (length ps * SECTION_ENTRY_SIZE) = Some ?start"
    "from_usize (length ps) = Some (word_of_nat (length ps) :: u32)"
    using start n by (simp_all add: from_usize_def)
  show "writer_new (length ps) checksum = Ok w0"
    using max count by (simp add: writer_new_def writer_with_payload_capacity_def w0_def not_less)
  show "write_all w0 ps = Ok w"
    using write_all_lays_out [of w0 ps needed] walk loop by (simp add: w0_def w_def)
  have wbuf: "wr_buf w = replicate ?start 0 @ ?region" and went: "wr_entries w = ?es"
    and wsum: "wr_checksum w = checksum" by (simp_all add: w_def w0_def)
  have wlen: "length (wr_buf w) = needed" using below region by (simp add: wbuf)
  have elen: "length (entries_as_bytes ?es) = length ps * SECTION_ENTRY_SIZE"
    using length_entries_as_bytes [of ?es] lay_out_shapes by simp
  show "writer_finish w = Some (Ok (finished w))"
    using writer_finish_shape [of w] n below big lay_out_shapes by (simp add: went wlen)
  have fin: "finished w = header_as_bytes (encoded_header (word_of_nat (length ps)) (checksum 0 (entries_as_bytes ?es))) @
      entries_as_bytes ?es @ ?region"
    by (simp add: finished_def went wbuf wsum)
  show "length (finished w) = needed"
    using elen below region by (simp add: fin)
  have written: "plan_write_loop checksum 0 ?start (replicate needed 0) ps =
      Some (Ok (replicate HEADER_SIZE 0 @ entries_as_bytes ?es @ ?region))"
  proof -
    have "replicate needed 0 = replicate HEADER_SIZE 0 @ replicate (length ps * SECTION_ENTRY_SIZE) 0 @
        [] @ replicate (needed - ?start) (0 :: byte)"
      using below by (simp flip: replicate_add)
    with plan_write_loop_lays_out [OF walk loop, of "replicate HEADER_SIZE 0" 0
        "replicate (length ps * SECTION_ENTRY_SIZE) 0" "[]" checksum] start
    show ?thesis by simp
  qed
  have table: "slice_or_panic (replicate HEADER_SIZE 0 @ entries_as_bytes ?es @ ?region) HEADER_SIZE ?start =
      Some (entries_as_bytes ?es)"
    using slice_or_panic_middle [of "replicate HEADER_SIZE 0" "entries_as_bytes ?es" ?region] by (simp add: elen)
  have header: "copy_or_panic (replicate HEADER_SIZE 0 @ entries_as_bytes ?es @ ?region) 0
      (header_as_bytes (encoded_header c crc)) =
      Some (header_as_bytes (encoded_header c crc) @ entries_as_bytes ?es @ ?region)" for c crc
    using copy_middle [of "header_as_bytes (encoded_header c crc)" "replicate HEADER_SIZE 0" "[]"] by simp
  have len: "plan_encoded_len plan = Ok needed" by (rule assms(2))
  show "plan_write_into plan out checksum = Some (Ok (needed, finished w @ drop needed out))"
    using assms(3) by (simp add: plan_write_into_def len [unfolded plan] plan Let_def count written table header
        table_checksum_def fin)
qed

section \<open>Patching restores the checksums\<close>

lemma patch_entry_bytes:
  assumes "length front = HEADER_SIZE" and "\<And>e. e \<in> set es \<Longrightarrow> entry_shape e" and "i < length es"
  shows "copy_or_panic (front @ entries_as_bytes es @ rest) (HEADER_SIZE + i * SECTION_ENTRY_SIZE + 24) (to_le_word crc) =
    Some (front @ entries_as_bytes (es[i := (es ! i)\<lparr>ent_crc32c := crc\<rparr>]) @ rest)"
proof -
  define pre e post where "pre = take i es" and "e = es ! i" and "post = drop (Suc i) es"
  have es: "es = pre @ e # post" and len: "length pre = i"
    using assms(3) by (simp_all add: pre_def e_def post_def id_take_nth_drop)
  have pre: "length (entries_as_bytes pre) = i * SECTION_ENTRY_SIZE"
    using length_entries_as_bytes [of pre] assms(2) len by (simp add: es)
  let ?head = "to_le_word (ent_offset e) @ to_le_word (ent_length e) @ to_le_word (ent_kind e) @ to_le_word (ent_version e)"
  let ?tail = "[ent_alignment_log2 e, ent_flags e] @ ent_reserved e"
  have cut: "entries_as_bytes es = entries_as_bytes pre @ ?head @ to_le_word (ent_crc32c e) @ ?tail @ entries_as_bytes post"
    by (simp add: es entries_as_bytes_def entry_as_bytes_def)
  have "es[i := e\<lparr>ent_crc32c := crc\<rparr>] = pre @ e\<lparr>ent_crc32c := crc\<rparr> # post"
    unfolding es len [symmetric] by simp
  then have cut': "entries_as_bytes (es[i := e\<lparr>ent_crc32c := crc\<rparr>]) =
      entries_as_bytes pre @ ?head @ to_le_word crc @ ?tail @ entries_as_bytes post"
    by (simp add: entries_as_bytes_def entry_as_bytes_def)
  show ?thesis
    using copy_middle [of "to_le_word crc" "to_le_word (ent_crc32c e)" "front @ entries_as_bytes pre @ ?head"
        "?tail @ entries_as_bytes post @ rest"]
    by (simp add: cut cut' e_def [symmetric] assms(1) pre add.assoc)
qed

lemma patch_header_bytes:
  "copy_or_panic (header_as_bytes (encoded_header n crc) @ rest) 24 (to_le_word crc') =
     Some (header_as_bytes (encoded_header n crc') @ rest)"
proof -
  let ?head = "FORMAT_MAGIC @ to_le_word FORMAT_MAJOR @ to_le_word FORMAT_MINOR @ to_le_word HEADER_SIZE_U32 @ to_le_word n"
  have "length ?head = 24" by (simp add: FORMAT_MAGIC_def)
  then show ?thesis
    using copy_middle [of "to_le_word crc'" "to_le_word crc" ?head "[0, 0, 0, 0] @ rest"]
    by (simp add: header_as_bytes_def encoded_header_def)
qed

lemma entry_crc_update [simp]:
  "entry_shape (e\<lparr>ent_crc32c := crc\<rparr>) = entry_shape e" "entry_end (e\<lparr>ent_crc32c := crc\<rparr>) = entry_end e"
  "entry_ok bound (e\<lparr>ent_crc32c := crc\<rparr>) = entry_ok bound e"
  by (simp_all add: entry_shape_def entry_end_def entry_ok_def)

lemma patched_table:
  assumes "i < length es"
  shows "table_ok bound (es[i := (es ! i)\<lparr>ent_crc32c := crc\<rparr>]) \<longleftrightarrow> table_ok bound es"
    and "layout_ok start (es[i := (es ! i)\<lparr>ent_crc32c := crc\<rparr>]) \<longleftrightarrow> layout_ok start es"
proof -
  define pre e post where "pre = take i es" and "e = es ! i" and "post = drop (Suc i) es"
  have es: "es = pre @ e # post" and len: "length pre = i"
    using assms by (simp_all add: pre_def e_def post_def id_take_nth_drop)
  have upd: "es[i := (es ! i)\<lparr>ent_crc32c := crc\<rparr>] = pre @ e\<lparr>ent_crc32c := crc\<rparr> # post"
    unfolding es len [symmetric] by simp
  show "table_ok bound (es[i := (es ! i)\<lparr>ent_crc32c := crc\<rparr>]) \<longleftrightarrow> table_ok bound es"
    unfolding upd by (simp add: es table_ok_def)
  show "layout_ok start (es[i := (es ! i)\<lparr>ent_crc32c := crc\<rparr>]) \<longleftrightarrow> layout_ok start es"
    unfolding upd by (simp add: es layout_ok_split)
qed

text \<open>The snapshot after the patch: one entry's checksum and the table checksum are recomputed.\<close>

definition patched :: "snapshot \<Rightarrow> nat \<Rightarrow> (u32 \<Rightarrow> byte list \<Rightarrow> u32) \<Rightarrow> snapshot" where
  "patched s i checksum =
     (let e = snap_entries s ! i;
          es = (snap_entries s)[i := e\<lparr>ent_crc32c := checksum 0 (sec_payload (entry_section (snap_bytes s) e))\<rparr>];
          crc = checksum 0 (entries_as_bytes es)
      in s\<lparr>snap_entries := es, snap_table_crc32c := crc,
           snap_bytes := header_as_bytes (encoded_header (word_of_nat (length es)) crc) @ entries_as_bytes es @
             drop (HEADER_SIZE + length es * SECTION_ENTRY_SIZE) (snap_bytes s)\<rparr>)"

lemma snapshot_header_encoded:
  "snapshot_header s = encoded_header (word_of_nat (length (snap_entries s))) (snap_table_crc32c s)"
  by (simp add: snapshot_header_def encoded_header_def)

lemma all_update:
  "(\<And>y. y \<in> set ys \<Longrightarrow> P y) \<Longrightarrow> P x \<Longrightarrow> y \<in> set (ys[i := x]) \<Longrightarrow> P y"
  using set_update_subset_insert [of ys i x] by blast

lemma patch_section_crc_eq:
  assumes opened: "snapshot_open bytes = Ok s" and small: "length bytes \<le> usize_max"
    and i: "snapshot_entry_index s kind = Some i"
  shows "patch_section_crc bytes kind checksum = Some (Ok (snap_bytes (patched s i checksum)))"
    and "snapshot_open_checked (snap_bytes (patched s i checksum)) checksum = Ok (patched s i checksum)"
    and "length (snap_bytes (patched s i checksum)) = length bytes"
proof -
  from opened small have wf: "snapshot_wf s" and bytes: "snap_bytes s = bytes"
    by (auto simp: snapshot_open_Ok_iff)
  from wf i have idx: "i < length (snap_entries s)" using sections.find_hit by fastforce
  let ?e = "snap_entries s ! i" and ?n = "length (snap_entries s)"
  let ?crc = "checksum 0 (sec_payload (entry_section bytes ?e))"
  let ?es = "(snap_entries s)[i := ?e\<lparr>ent_crc32c := ?crc\<rparr>]"
  let ?t = "HEADER_SIZE + ?n * SECTION_ENTRY_SIZE"
  let ?header = "\<lambda>crc. header_as_bytes (encoded_header (word_of_nat ?n) crc)"
  from snapshot_wf_bytes [OF wf] obtain rest where
    cut: "bytes = ?header (snap_table_crc32c s) @ entries_as_bytes (snap_entries s) @ rest"
    and len: "length (entries_as_bytes (snap_entries s)) = ?n * SECTION_ENTRY_SIZE"
    unfolding bytes snapshot_header_encoded .
  have rest: "drop ?t bytes = rest" by (simp add: cut len)
  have shapes: "entry_shape e" if "e \<in> set (snap_entries s)" for e
    using wf that by (auto simp: snapshot_wf_def dest: table_ok_shapes)
  have "entry_shape e" if "e \<in> set ?es" for e
    by (rule all_update [OF _ _ that]) (use shapes idx in simp_all)
  then have elen: "length (entries_as_bytes ?es) = ?n * SECTION_ENTRY_SIZE"
    using length_entries_as_bytes [of ?es] by simp
  have sec: "section_from_entry bytes ?e = Some (entry_section bytes ?e)"
    using section_from_entry_Some [of ?e bytes] snapshot_wf_entry [OF wf] idx small by (simp add: bytes)
  have first: "copy_or_panic bytes (HEADER_SIZE + i * SECTION_ENTRY_SIZE + 24) (to_le_word ?crc) =
      Some (?header (snap_table_crc32c s) @ entries_as_bytes ?es @ rest)"
    using patch_entry_bytes [of "?header (snap_table_crc32c s)" "snap_entries s" i rest ?crc] shapes idx
    by (simp flip: cut)
  have second: "slice_or_panic (?header (snap_table_crc32c s) @ entries_as_bytes ?es @ rest) HEADER_SIZE ?t =
      Some (entries_as_bytes ?es)"
    using slice_or_panic_middle [of "?header (snap_table_crc32c s)" "entries_as_bytes ?es" rest]
    by (simp add: elen del: entry_section_fields)
  have result: "snap_bytes (patched s i checksum) = ?header (checksum 0 (entries_as_bytes ?es)) @ entries_as_bytes ?es @ rest"
    by (simp add: patched_def Let_def bytes rest)
  show "patch_section_crc bytes kind checksum = Some (Ok (snap_bytes (patched s i checksum)))"
    unfolding patch_section_crc_def result
    using idx first second
    by (simp add: opened i bytes sec table_checksum_def patch_header_bytes Let_def del: entry_section_fields)
  have blen: "length bytes = HEADER_SIZE + (?n * SECTION_ENTRY_SIZE + length rest)"
    by (subst cut) (simp add: len)
  show same: "length (snap_bytes (patched s i checksum)) = length bytes"
    unfolding result blen by (simp add: elen del: entry_section_fields)
  have "snapshot_wf (patched s i checksum)"
    unfolding snapshot_wf_def same unfolding snapshot_header_encoded result
    using wf patched_table [OF idx] by (simp add: snapshot_wf_def patched_def Let_def bytes)
  then have "snapshot_open (snap_bytes (patched s i checksum)) = Ok (patched s i checksum)"
    using small same by (simp add: snapshot_open_Ok_iff)
  then show "snapshot_open_checked (snap_bytes (patched s i checksum)) checksum = Ok (patched s i checksum)"
    by (simp add: snapshot_open_checked_def table_checksum_def) (simp add: patched_def Let_def)
qed

lemma subrange_behind_front:
  "length front \<le> start \<Longrightarrow> subrange (front @ drop (length front) xs) start n = subrange xs start n"
  by (simp add: subrange_def)

lemma patched_section:
  assumes wf: "snapshot_wf s" and small: "length (snap_bytes s) \<le> usize_max"
    and i: "snapshot_entry_index s kind = Some i"
    and wf': "snapshot_wf (patched s i checksum)"
    and same: "length (snap_bytes (patched s i checksum)) = length (snap_bytes s)"
  shows "snapshot_section s kind = Some (Some (entry_section (snap_bytes s) (snap_entries s ! i)))"
    and "snapshot_section (patched s i checksum) kind =
      Some (Some ((entry_section (snap_bytes s) (snap_entries s ! i))
        \<lparr>sec_crc32c := checksum 0 (sec_payload (entry_section (snap_bytes s) (snap_entries s ! i)))\<rparr>))"
proof -
  let ?e = "snap_entries s ! i" and ?p = "patched s i checksum"
  let ?crc = "checksum 0 (sec_payload (entry_section (snap_bytes s) ?e))"
  from wf i have idx: "i < length (snap_entries s)" and kind: "ent_kind ?e = kind"
    using sections.find_hit by fastforce+
  have ends: "entry_end ?e \<le> length (snap_bytes s)" using wf idx by (simp add: snapshot_wf_entry)
  show "snapshot_section s kind = Some (Some (entry_section (snap_bytes s) ?e))"
    using idx i ends small by (simp add: snapshot_section_def section_from_entry_Some)
  have es: "snap_entries ?p = (snap_entries s)[i := ?e\<lparr>ent_crc32c := ?crc\<rparr>]"
    by (simp add: patched_def Let_def)
  have "map ent_kind (snap_entries ?p) = map ent_kind (snap_entries s)"
    by (rule nth_equalityI) (use idx in \<open>auto simp: es nth_list_update\<close>)
  then have i': "snapshot_entry_index ?p kind = Some i"
    using sections.find_Some_iff [OF wf', of kind i] idx kind by simp
  have e': "snap_entries ?p ! i = ?e\<lparr>ent_crc32c := ?crc\<rparr>" using idx by (simp add: es)
  have count: "length (snap_entries ?p) = length (snap_entries s)" by (simp add: es)
  from snapshot_wf_bytes [OF wf'] obtain rest
    where "length (header_as_bytes (snapshot_header ?p)) = HEADER_SIZE"
      and "length (entries_as_bytes (snap_entries ?p)) = length (snap_entries s) * SECTION_ENTRY_SIZE"
    unfolding count .
  then have front: "length (header_as_bytes (snapshot_header ?p) @ entries_as_bytes (snap_entries ?p)) =
      HEADER_SIZE + length (snap_entries s) * SECTION_ENTRY_SIZE" by simp
  have "snap_bytes ?p = (header_as_bytes (snapshot_header ?p) @ entries_as_bytes (snap_entries ?p)) @
      drop (HEADER_SIZE + length (snap_entries s) * SECTION_ENTRY_SIZE) (snap_bytes s)"
    unfolding snapshot_header_encoded by (simp add: patched_def Let_def)
  then have "subrange (snap_bytes ?p) (unat (ent_offset ?e)) n = subrange (snap_bytes s) (unat (ent_offset ?e)) n" for n
    using subrange_behind_front [of "header_as_bytes (snapshot_header ?p) @ entries_as_bytes (snap_entries ?p)"
        "unat (ent_offset ?e)" "snap_bytes s" n] wf idx
    unfolding front by (simp add: snapshot_wf_def layout_ok_def)
  then have "entry_section (snap_bytes ?p) (?e\<lparr>ent_crc32c := ?crc\<rparr>) =
      (entry_section (snap_bytes s) ?e)\<lparr>sec_crc32c := ?crc\<rparr>"
    by (simp add: entry_section_def)
  then show "snapshot_section ?p kind = Some (Some ((entry_section (snap_bytes s) ?e)\<lparr>sec_crc32c := ?crc\<rparr>))"
    using idx i' ends small same
    by (simp add: snapshot_section_def section_from_entry_Some e' es del: entry_section_fields)
qed

section \<open>Properties\<close>

text \<open>
  C5: whatever sequence of sections, streamed writes and dropped sinks a writer goes through, \<open>finish\<close>
  does not panic and fails only when the buffer exceeds \<open>u64\<close>; the bytes it returns pass the checked
  open and \<open>verify_all\<close>, and their sections are, in order, exactly the ended ones, with the
  concatenation of what was written to each as its payload.
\<close>

theorem snapshot_writer_roundtrip:
  assumes "writer_run crc32c_append (Idle w) log"
  shows "if length (wr_buf w) < 2 ^ 64 then
      \<exists>bytes s secs. writer_finish w = Some (Ok bytes) \<and>
        snapshot_open_checked bytes crc32c_append = Ok s \<and>
        snapshot_verify_all s crc32c_append = Some (Ok ()) \<and>
        section_iter_drain (snapshot_section_count s) (snapshot_sections s) = Some secs \<and>
        map section_as_pending secs = log
    else writer_finish w = Some (Err PayloadOverflow)"
proof -
  from crc32c.run_wf [OF assms] have wf: "writer_wf crc32c_append w"
    and log: "map (described (wr_buf w)) (wr_entries w) = log" by simp_all
  show ?thesis
    using writer_finish_eq [OF wf] writer_roundtrip [OF wf] log by auto
qed

text \<open>
  Once a plan is accepted and its length fits, \<open>write_into\<close> succeeds on every buffer that is
  long enough, touches only the encoded prefix, and the prefix is byte for byte what the writer
  produces for the same sections when it reserves exactly that many.
\<close>

theorem snapshot_plan_matches_writer:
  assumes "plan_new ps = Ok plan" and "plan_encoded_len plan = Ok needed" and "needed \<le> length out"
  shows "\<exists>w0 w bytes. writer_new (length ps) checksum = Ok w0 \<and> write_all w0 ps = Ok w \<and>
    writer_finish w = Some (Ok bytes) \<and> length bytes = needed \<and>
    plan_write_into plan out checksum = Some (Ok (needed, bytes @ drop needed out))"
  using planned_write [OF assms] by blast

text \<open>
  Patching a section of an opened snapshot repairs its checksums: the patched bytes have the
  same length, pass the checked open, and hold the same payload for the kind, which now verifies;
  for a kind that is absent the patch reports \<open>SectionMissing\<close>.
\<close>

theorem patch_section_crc_repairs:
  assumes "snapshot_open bytes = Ok s" and "length bytes \<le> usize_max"
  shows "case snapshot_section s kind of
      Some (Some sec) \<Rightarrow>
        \<exists>bytes' s' sec'. patch_section_crc bytes kind checksum = Some (Ok bytes') \<and>
          length bytes' = length bytes \<and> snapshot_open_checked bytes' checksum = Ok s' \<and>
          snapshot_section s' kind = Some (Some sec') \<and> sec_payload sec' = sec_payload sec \<and>
          section_verify checksum sec' = Ok ()
    | Some None \<Rightarrow> patch_section_crc bytes kind checksum = Some (Err (SectionMissing kind))
    | None \<Rightarrow> False"
proof (cases "snapshot_entry_index s kind")
  case None
  then show ?thesis by (simp add: snapshot_section_def patch_section_crc_def assms(1))
next
  case (Some i)
  from assms have wf: "snapshot_wf s" and bytes: "snap_bytes s = bytes" by (auto simp: snapshot_open_Ok_iff)
  note patch = patch_section_crc_eq [OF assms Some, of checksum]
  have small: "length (snap_bytes (patched s i checksum)) \<le> usize_max" using patch(3) assms(2) by simp
  have "snapshot_wf (patched s i checksum)" by (rule snapshot_open_checked_OkD(1) [OF patch(2) small])
  note sec = patched_section [OF wf _ Some this, unfolded bytes, OF assms(2) patch(3)]
  show ?thesis
    unfolding sec(1) option.case
    by (intro exI conjI, rule patch(1), rule patch(3), rule patch(2), rule sec(2))
      (simp_all add: section_verify_def Let_def)
qed

text \<open>One section of kind 1, streamed in two writes.\<close>

definition example_writer :: snapshot_writer where
  "example_writer =
     \<lparr>wr_buf = replicate 64 0, wr_entries = [], wr_max_sections = 1, wr_checksum = crc32c_append\<rparr>"

definition example_sink :: section_sink where
  "example_sink =
     \<lparr>sink_writer = example_writer, sink_start = 64, sink_kind = 1, sink_version = 0, sink_crc = 0,
      sink_alignment_log2 = 0\<rparr>"

definition example_pending :: "pending_section list" where
  "example_pending = [\<lparr>pend_kind = 1, pend_version = 0, pend_alignment_log2 = 0, pend_payload = [7, 8]\<rparr>]"

lemma example_begin: "writer_begin_section example_writer 1 0 0 = Ok example_sink"
proof -
  have "align_up_checked 64 0 = Ok 64"
    by (subst align_up_checked_Ok_iff) (simp_all add: MAX_ALIGNMENT_LOG2_def usize_max_def aligned_up_def)
  then show ?thesis
    by (simp add: writer_begin_section_def example_writer_def example_sink_def MAX_ALIGNMENT_LOG2_def)
qed

lemma example_run:
  "\<exists>w. writer_run crc32c_append (Idle w) example_pending \<and> length (wr_buf w) < 2 ^ 64"
proof -
  have "writer_with_payload_capacity 1 0 crc32c_append = Ok example_writer"
    by (simp add: writer_with_payload_capacity_def MAX_SECTION_COUNT_def checked_mul_def checked_add_def
        HEADER_SIZE_def SECTION_ENTRY_SIZE_def usize_max_def example_writer_def)
  then have "writer_run crc32c_append (Idle example_writer) []" by (rule run_new)
  then have "writer_run crc32c_append (Streaming example_sink []) []"
    using example_begin by (rule run_begin)
  from run_write [OF run_write [OF this, of "[7]"], of "[8]"]
  have run: "writer_run crc32c_append (Streaming (sink_write (sink_write example_sink [7]) [8]) [7, 8]) []"
    by simp
  have buf: "length (wr_buf (sink_writer (sink_write (sink_write example_sink [7]) [8]))) = 66"
    by (simp add: sink_write_def example_sink_def example_writer_def)
  obtain w where ended: "sink_end (sink_write (sink_write example_sink [7]) [8]) = Ok w" "length (wr_buf w) = 66"
    by (simp add: sink_end_def from_usize_def buf Let_def sink_write_def example_sink_def example_writer_def)
  from run_end [OF run ended(1)] show ?thesis
    using ended(2) by (auto simp: example_pending_def sink_write_def example_sink_def)
qed

theorem snapshot_writer_roundtrip_witness:
  "\<exists>w bytes s secs. writer_run crc32c_append (Idle w) example_pending \<and> writer_finish w = Some (Ok bytes) \<and>
     snapshot_open_checked bytes crc32c_append = Ok s \<and>
     section_iter_drain (snapshot_section_count s) (snapshot_sections s) = Some secs \<and>
     map section_as_pending secs = example_pending"
proof -
  obtain w where "writer_run crc32c_append (Idle w) example_pending" "length (wr_buf w) < 2 ^ 64"
    using example_run by blast
  with snapshot_writer_roundtrip [OF this(1)] show ?thesis by (simp only: if_True) blast
qed

theorem snapshot_plan_matches_writer_witness:
  "\<exists>w0 w bytes. writer_new 1 crc32c_append = Ok w0 \<and> write_all w0 example_pending = Ok w \<and>
    writer_finish w = Some (Ok bytes) \<and> length bytes = 66 \<and>
    plan_write_into \<lparr>plan_sections = example_pending\<rparr> (replicate 70 9) crc32c_append =
      Some (Ok (66, bytes @ replicate 4 9))"
proof -
  have align: "align_up_checked 64 0 = Ok 64"
    by (subst align_up_checked_Ok_iff) (simp_all add: MAX_ALIGNMENT_LOG2_def usize_max_def aligned_up_def)
  have plan: "plan_new example_pending = Ok \<lparr>plan_sections = example_pending\<rparr>"
    by (simp add: plan_new_def example_pending_def MAX_SECTION_COUNT_def MAX_ALIGNMENT_LOG2_def)
  have len: "plan_encoded_len \<lparr>plan_sections = example_pending\<rparr> = Ok 66"
    by (simp add: plan_encoded_len_def example_pending_def checked_mul_def checked_add_def HEADER_SIZE_def
        SECTION_ENTRY_SIZE_def usize_max_def align from_usize_def)
  show ?thesis
    using snapshot_plan_matches_writer [OF plan len, of "replicate 70 9" crc32c_append]
    by (simp add: example_pending_def)
qed

theorem patch_section_crc_repairs_witness:
  "\<exists>bytes' s'. patch_section_crc example_bytes 1 crc32c_append = Some (Ok bytes') \<and>
     snapshot_open_checked bytes' crc32c_append = Ok s' \<and> length bytes' = 65"
proof -
  have "snapshot_section example_snapshot 1 = Some (Some (entry_section example_bytes example_entry))"
    using snapshot_section_wf [OF example_wf, of 1] example_small
    by (simp add: example_snapshot_def example_entry_def)
  then show ?thesis
    using patch_section_crc_repairs [OF example_opens example_small, of 1 crc32c_append]
    by (auto simp: example_bytes_length)
qed

end
