(* ===== verification/SnapshotTyped.thy ===== *)
theory SnapshotTyped
  imports SnapshotWrite
begin

text \<open>
  What the exporters of the graph layouts share: sections of machine words written through
  \<open>section_widths\<close> and read through \<open>typed_section\<close> of \<open>crates/oxgraph-snapshot/src/container.rs\<close>.
\<close>

section \<open>Typed sections of a written snapshot\<close>

lemma widths_are_bytes:
  "writer_section_widths w kind version values = writer_section_bytes w kind version 0 (slice_to_le values)"
proof -
  have "trailing_zeros 1 = 0" by (simp add: trailing_zeros.simps)
  then have "from_usize (trailing_zeros 1) = Some (0 :: u8)" by (simp add: from_usize_def)
  then show ?thesis
    by (simp only: writer_section_widths_def writer_section_little_endian_def writer_section_typed_def
        writer_section_bytes_def sink_write_typed_def slice_to_le_def option.case)
qed

lemma section_bytes_run:
  assumes "writer_run checksum (Idle w) log" and "writer_section_bytes w kind version a bytes = Ok w'"
  shows "writer_run checksum (Idle w')
    (log @ [\<lparr>pend_kind = kind, pend_version = version, pend_alignment_log2 = a, pend_payload = bytes\<rparr>])"
proof -
  from assms(2) obtain sink where begin_ok: "writer_begin_section w kind version a = Ok sink"
    and end_ok: "sink_end (sink_write sink bytes) = Ok w'" by (auto simp: writer_section_bytes_def)
  from begin_ok have fields: "sink_kind sink = kind" "sink_version sink = version" "sink_alignment_log2 sink = a"
    by (auto simp: writer_begin_section_def split: if_splits)
  have kept: "sink_kind (sink_write sink bytes) = kind" "sink_version (sink_write sink bytes) = version"
    "sink_alignment_log2 (sink_write sink bytes) = a"
    by (simp_all add: sink_write_def Let_def fields)
  from run_end [OF run_write [OF run_begin [OF assms(1) begin_ok], of bytes] end_ok] show ?thesis
    by (simp add: kept)
qed

lemma typed_words_read:
  assumes "snapshot_width TYPE('w::len)" and "sec_payload sec = slice_to_le (xs :: 'w word list)"
  shows "and_then (try_as_slice (word_size TYPE('w)) 1 0 sec) (\<lambda>words. Ok (map from_le_word words)) = Ok xs"
proof -
  let ?n = "word_size TYPE('w)"
  note len = snapshot_width.length_to_le_word [OF assms(1)] and pos = snapshot_width.word_size_pos [OF assms(1)]
  have bytes: "length (sec_payload sec) = length xs * ?n"
    using snapshot_width.length_slice_to_le [OF assms(1), of xs] by (simp add: assms(2))
  have words: "subrange (sec_payload sec) (i * ?n) ?n = to_le_word (xs ! i)" if "i < length xs" for i
    unfolding assms(2) slice_to_le_def by (rule subrange_concat_map_const) (use len that in simp_all)
  have "map (\<lambda>i. from_le_word (subrange (sec_payload sec) (i * ?n) ?n)) [0..<length xs] = xs"
    by (rule nth_equalityI) (use snapshot_width.from_to_le_word [OF assms(1)] words in simp_all)
  moreover have "try_as_slice ?n 1 0 sec = Ok (map (\<lambda>i. subrange (sec_payload sec) (i * ?n) ?n) [0..<length xs])"
    using pos [of "TYPE('w)"] by (simp add: try_as_slice_def bytes Let_def)
  ultimately show ?thesis by (simp add: comp_def)
qed

lemma find_distinct_key: "distinct (map f xs) \<Longrightarrow> x \<in> set xs \<Longrightarrow> find (\<lambda>y. f y = f x) xs = Some x"
  by (induction xs) (auto simp: image_iff)

text \<open>A typed section whose entry is listed reads back the words that were written.\<close>

lemma typed_section_reads:
  assumes width: "snapshot_width TYPE('w::len)"
    and wf: "snapshot_wf s" and small: "length (snap_bytes s) \<le> usize_max"
    and e: "e \<in> set (snap_entries s)" "described (snap_bytes s) e =
      \<lparr>pend_kind = kind, pend_version = version, pend_alignment_log2 = 0, pend_payload = slice_to_le (xs :: 'w word list)\<rparr>"
  shows "snapshot_typed_section s kind version = Some (Ok xs)"
proof -
  from e(2) have fields: "ent_kind e = kind" "ent_version e = version"
    "sec_payload (entry_section (snap_bytes s) e) = slice_to_le xs"
    by (simp_all add: described_def)
  have "distinct (map ent_kind (snap_entries s))"
    using wf by (simp add: snapshot_wf_def table_ok_def strict_sorted_iff)
  then have "find (\<lambda>f. ent_kind f = kind) (snap_entries s) = Some e"
    using find_distinct_key e(1) fields(1) by metis
  then have "snapshot_section s kind = Some (Some (entry_section (snap_bytes s) e))"
    by (simp add: snapshot_section_wf [OF wf small])
  then show ?thesis
    using typed_words_read [OF width fields(3)] fields(2) by (simp add: snapshot_typed_section_def)
qed

lemma aligned_up_0 [simp]: "aligned_up value 0 = value"
  by (simp add: aligned_up_def)

section \<open>Writing sections without alignment\<close>

text \<open>The sections an exporter asks for: ascending kinds, no alignment.\<close>

definition plain_section :: "u32 \<Rightarrow> u32 \<Rightarrow> byte list \<Rightarrow> pending_section" where
  "plain_section kind version payload =
     \<lparr>pend_kind = kind, pend_version = version, pend_alignment_log2 = 0, pend_payload = payload\<rparr>"

lemma plain_section_simps [simp]:
  "pend_kind (plain_section k v p) = k" "pend_version (plain_section k v p) = v"
  "pend_alignment_log2 (plain_section k v p) = 0" "pend_payload (plain_section k v p) = p"
  by (simp_all add: plain_section_def)

definition payload_total :: "pending_section list \<Rightarrow> nat" where
  "payload_total ps = sum_list (map (\<lambda>p. length (pend_payload p)) ps)"

lemma plan_walk_plain:
  assumes "\<forall>p \<in> set ps. pend_alignment_log2 p = 0" and "sorted_wrt (<) (map pend_kind ps)"
    and "\<forall>k p. prev = Some k \<longrightarrow> p \<in> set ps \<longrightarrow> k < pend_kind p"
  shows "plan_walk prev ps = Ok ()"
  using assms by (induction ps arbitrary: prev) (auto simp: not_le not_less split: option.splits)

lemma encoded_len_plain:
  assumes "\<forall>p \<in> set ps. pend_alignment_log2 p = 0" and "cursor + payload_total ps \<le> usize_max"
  shows "encoded_len_loop cursor ps = Ok (cursor + payload_total ps)"
  using assms
  by (induction ps arbitrary: cursor)
    (simp_all add: align_up_checked_Ok_iff encoded_len_Cons payload_total_def add.assoc del: encoded_len_loop.simps(2))

lemma write_all_run:
  assumes "writer_run checksum (Idle w) log" and "write_all w ps = Ok w'"
  shows "writer_run checksum (Idle w') (log @ ps)"
  using assms
proof (induction ps arbitrary: w log)
  case Nil
  then show ?case by simp
next
  case (Cons p ps)
  from Cons.prems(2) obtain w1 where
    step: "writer_section_bytes w (pend_kind p) (pend_version p) (pend_alignment_log2 p) (pend_payload p) = Ok w1"
    and rest: "write_all w1 ps = Ok w'" by auto
  from Cons.IH [OF section_bytes_run [OF Cons.prems(1) step] rest] show ?case by (cases p) simp
qed

text \<open>Ascending sections without alignment are written, finish, and the file opens to them.\<close>

lemma plain_export:
  assumes "\<forall>p \<in> set ps. pend_alignment_log2 p = 0" and "sorted_wrt (<) (map pend_kind ps)"
    and "length ps \<le> 1024" and "len = 32 + 32 * length ps + payload_total ps" and "len \<le> usize_max"
  shows "\<exists>w0 w. writer_new (length ps) crc32c_append = Ok w0 \<and> write_all w0 ps = Ok w \<and>
    writer_finish w = Some (Ok (finished w)) \<and> length (finished w) = len \<and> length (wr_buf w) = len \<and>
    writer_run crc32c_append (Idle w) ps"
proof -
  have plan: "plan_new ps = Ok \<lparr>plan_sections = ps\<rparr>"
    unfolding plan_new_Ok_iff using plan_walk_plain [OF assms(1,2), of None] assms(3) by simp
  have needed: "plan_encoded_len \<lparr>plan_sections = ps\<rparr> = Ok len"
    unfolding plan_encoded_len_Ok_iff [OF assms(3)]
    using encoded_len_plain [OF assms(1), of "HEADER_SIZE + length ps * SECTION_ENTRY_SIZE"] assms(4,5)
    by (simp add: HEADER_SIZE_def SECTION_ENTRY_SIZE_def usize_max_def)
  from planned_write(1-4) [OF plan needed, of "replicate len 0" crc32c_append] obtain w0 w where
    w: "writer_new (length ps) crc32c_append = Ok w0" "write_all w0 ps = Ok w"
      "writer_finish w = Some (Ok (finished w))" "length (finished w) = len" by auto
  from w(1) have "writer_run crc32c_append (Idle w0) []" unfolding writer_new_def by (rule run_new)
  from write_all_run [OF this w(2)] have run: "writer_run crc32c_append (Idle w) ps" by simp
  from crc32c.run_wf [OF run] have wf: "writer_wf crc32c_append w" by simp
  from w run length_finished [OF wf] show ?thesis by auto
qed

text \<open>Each section of such a file, read as words.\<close>

lemma plain_section_reads:
  assumes width: "snapshot_width TYPE('w::len)" and run: "writer_run crc32c_append (Idle w) ps"
    and small: "length (wr_buf w) \<le> usize_max" and p: "plain_section kind version (slice_to_le (xs :: 'w word list)) \<in> set ps"
  shows "snapshot_typed_section (finished_snapshot w) kind version = Some (Ok xs)"
proof -
  let ?s = "finished_snapshot w"
  from crc32c.run_wf [OF run] have wf: "writer_wf crc32c_append w"
    and log: "map (described (wr_buf w)) (wr_entries w) = ps" by simp_all
  have small: "length (snap_bytes ?s) \<le> usize_max"
    using small by (simp add: finished_snapshot_def length_finished [OF wf])
  from p obtain e where "e \<in> set (snap_entries ?s)"
    "described (snap_bytes ?s) e = plain_section kind version (slice_to_le xs)"
    unfolding log [symmetric] using described_finished [OF wf] by (auto simp: finished_snapshot_def)
  then show ?thesis
    using typed_section_reads [OF width finished_snapshot_wf [OF wf] small] by (simp add: plain_section_def)
qed

section \<open>What a typed lookup accepts\<close>

lemma concat_subranges: "n * k \<le> length bs \<Longrightarrow> concat (map (\<lambda>i. subrange bs (i * k) k) [0..<n]) = subrange bs 0 (n * k)"
proof (induction n)
  case 0
  then show ?case by (simp add: subrange_def)
next
  case (Suc n)
  then show ?case by (simp add: add.commute [of k])
qed

lemma typed_words_Ok_iff:
  assumes width: "snapshot_width TYPE('w::len)"
  shows "and_then (try_as_slice (word_size TYPE('w)) 1 0 sec) (\<lambda>words. Ok (map from_le_word words)) = Ok xs \<longleftrightarrow>
    sec_payload sec = slice_to_le (xs :: 'w word list)"
proof
  let ?k = "word_size TYPE('w)" and ?bs = "sec_payload sec"
  let ?cut = "\<lambda>i. subrange ?bs (i * ?k) ?k"
  assume "and_then (try_as_slice ?k 1 0 sec) (\<lambda>words. Ok (map from_le_word words)) = Ok xs"
  then have "length ?bs mod ?k = 0"
    and xs: "xs = map from_le_word (map ?cut [0..<length ?bs div ?k])"
    by (auto simp: try_as_slice_def Let_def split: if_splits)
  then have len: "length ?bs div ?k * ?k = length ?bs" by auto
  have "i * ?k + ?k \<le> length ?bs" if "i < length ?bs div ?k" for i
  proof -
    from that have "Suc i * ?k \<le> length ?bs div ?k * ?k" by (intro mult_le_mono1) simp
    with len show ?thesis by simp
  qed
  then have "to_le_word (from_le_word (?cut i) :: 'w word) = ?cut i" if "i < length ?bs div ?k" for i
    using snapshot_width.to_from_le_word [OF width, of "?cut i"] that
    by (simp add: word_size_def)
  then have "slice_to_le xs = concat (map ?cut [0..<length ?bs div ?k])"
    unfolding slice_to_le_def xs by (auto intro!: arg_cong [where f = concat])
  then show "?bs = slice_to_le xs"
    using concat_subranges [of "length ?bs div ?k" ?k ?bs] by (simp add: len subrange_all)
qed (rule typed_words_read [OF width])

lemma typed_section_Ok_iff:
  assumes width: "snapshot_width TYPE('w::len)"
  shows "snapshot_typed_section s kind version = Some (Ok (xs :: 'w word list)) \<longleftrightarrow>
    (\<exists>sec. snapshot_section s kind = Some (Some sec) \<and> sec_version sec = version \<and> sec_payload sec = slice_to_le xs)"
  using typed_words_Ok_iff [OF width]
  by (auto simp: snapshot_typed_section_def split: option.splits)

lemma typed_section_returns:
  assumes "snapshot_wf s" and "length (snap_bytes s) \<le> usize_max"
  shows "snapshot_typed_section s kind version \<noteq> None"
  by (auto simp: snapshot_typed_section_def snapshot_section_wf [OF assms] split: option.splits)

text \<open>Twice, as the instances for node and edge widths.\<close>

lemma example_widths: "snapshot_width TYPE(16)" "snapshot_width TYPE(16)"
  by (unfold_locales; simp)+

end
