(* ===== verification/CsrSnapshot.thy ===== *)
theory CsrSnapshot
  imports CsrBuild SnapshotTyped
begin

text \<open>
  The snapshot side of a CSR graph: the section kinds and the snapshot-backed view of
  \<open>crates/oxgraph-csr/src/lib.rs\<close>, the topology export of \<open>crates/oxgraph-csr/src/build.rs\<close>, and the
  inbound view of \<open>crates/oxgraph-csc/src/lib.rs\<close>, which reads the same layout of reversed edges.
\<close>

section \<open>Section kinds\<close>

definition SNAPSHOT_KIND_CSR_OFFSETS_BASE :: u32 where
  "SNAPSHOT_KIND_CSR_OFFSETS_BASE = 0x0004"

definition SNAPSHOT_KIND_CSR_TARGETS_BASE :: u32 where
  "SNAPSHOT_KIND_CSR_TARGETS_BASE = 0x0008"

definition SNAPSHOT_CSR_SECTION_VERSION :: u32 where
  "SNAPSHOT_CSR_SECTION_VERSION = 1"

definition OFFSETS_KIND :: "('e::len) itself \<Rightarrow> u32" where
  "OFFSETS_KIND t = SNAPSHOT_KIND_CSR_OFFSETS_BASE OR WIDTH_CODE t"

definition TARGETS_KIND :: "('n::len) itself \<Rightarrow> u32" where
  "TARGETS_KIND t = SNAPSHOT_KIND_CSR_TARGETS_BASE OR WIDTH_CODE t"

definition SECTION_VERSION :: "('i::len) itself \<Rightarrow> u32" where
  "SECTION_VERSION t = SNAPSHOT_CSR_SECTION_VERSION"

section \<open>Binding a view\<close>

datatype ('n, 'e) csr_snapshot_error =
    MissingOffsets
  | MissingTargets
  | OffsetsVersion u32 u32 u32 \<comment> \<open>kind, expected, actual\<close>
  | TargetsVersion u32 u32 u32 \<comment> \<open>kind, expected, actual\<close>
  | OffsetsView section_view_error
  | TargetsView section_view_error
  | OffsetsEmpty
  | NodeCountOverflow nat
  | CsrLayout "('n, 'e) csr_error"

fun map_offsets_bind :: "u32 \<Rightarrow> section_bind_error \<Rightarrow> ('n, 'e) csr_snapshot_error" where
  "map_offsets_bind kind (Missing _) = MissingOffsets"
| "map_offsets_bind kind (VersionMismatch _ expected actual) = OffsetsVersion kind expected actual"
| "map_offsets_bind kind (View _ error) = OffsetsView error"

fun map_targets_bind :: "u32 \<Rightarrow> section_bind_error \<Rightarrow> ('n, 'e) csr_snapshot_error" where
  "map_targets_bind kind (Missing _) = MissingTargets"
| "map_targets_bind kind (VersionMismatch _ expected actual) = TargetsVersion kind expected actual"
| "map_targets_bind kind (View _ error) = TargetsView error"

definition csr_from_snapshot_with_kinds ::
    "snapshot \<Rightarrow> u32 \<Rightarrow> u32 \<Rightarrow> u32 \<Rightarrow>
       ((('n::len) word, ('e::len) word) csr_snapshot_error, ('n, 'e) csr_view) run" where
  "csr_from_snapshot_with_kinds s offsets_kind targets_kind version =
     run_then (map_option (map_err (map_offsets_bind offsets_kind))
       (snapshot_typed_section s offsets_kind version)) (\<lambda>offsets.
     run_then (map_option (map_err (map_targets_bind targets_kind))
       (snapshot_typed_section s targets_kind version)) (\<lambda>targets.
       if offsets = [] then Some (Err OffsetsEmpty)
       else
         run_then (trying (ok_or (NodeCountOverflow (length offsets)) (from_usize (length offsets - 1)))) (\<lambda>node_count.
           map_option (map_err CsrLayout) (csr_validate node_count offsets targets))))"

definition csr_from_snapshot ::
    "snapshot \<Rightarrow> ((('n::len) word, ('e::len) word) csr_snapshot_error, ('n, 'e) csr_view) run" where
  "csr_from_snapshot s =
     csr_from_snapshot_with_kinds s (OFFSETS_KIND TYPE('e)) (TARGETS_KIND TYPE('n)) (SECTION_VERSION TYPE('e))"

section \<open>Exporting a frozen graph\<close>

definition export_topology_snapshot ::
    "(('n::len) word, ('e::len) word) frozen_topology \<Rightarrow> (('n word, 'e word) graph_build_error, byte list) run" where
  "export_topology_snapshot t =
     run_then (trying (map_err SnapshotPlan (writer_new 2 crc32c_append))) (\<lambda>writer.
     run_then (trying (map_err SnapshotPlan
       (writer_section_widths writer (OFFSETS_KIND TYPE('e)) (SECTION_VERSION TYPE('e)) (ft_offsets t)))) (\<lambda>writer.
     run_then (trying (map_err SnapshotPlan
       (writer_section_widths writer (TARGETS_KIND TYPE('n)) (SECTION_VERSION TYPE('n)) (ft_targets t)))) (\<lambda>writer.
       map_option (map_err SnapshotPlan) (writer_finish writer))))"

definition export_csr_snapshot ::
    "(('n::len) word, ('e::len) word) frozen_graph \<Rightarrow> (('n word, 'e word) graph_build_error, byte list) run" where
  "export_csr_snapshot g = export_topology_snapshot (fg_topology g)"

definition export_weighted_csr_snapshot ::
    "(('n::len) word, ('e::len) word, 'ew, 'rw) frozen_weighted_graph \<Rightarrow>
       (('n word, 'e word) graph_build_error, byte list) run" where
  "export_weighted_csr_snapshot g = export_topology_snapshot (fwg_topology g)"

section \<open>The inbound view\<close>

datatype ('n, 'e) csc_snapshot_error = InboundLayout "('n, 'e) csr_snapshot_error"

record ('n, 'e) csc_graph =
  csc_inner :: "('n, 'e) csr_graph"

definition csc_from_snapshot_with_kinds ::
    "snapshot \<Rightarrow> u32 \<Rightarrow> u32 \<Rightarrow> u32 \<Rightarrow>
       ((('n::len) word, ('e::len) word) csc_snapshot_error, ('n word, 'e word) csc_graph) run" where
  "csc_from_snapshot_with_kinds s offsets_kind targets_kind version =
     run_then (map_option (map_err InboundLayout)
       (csr_from_snapshot_with_kinds s offsets_kind targets_kind version)) (\<lambda>inner.
       Some (Ok \<lparr>csc_inner = inner\<rparr>))"

definition csc_node_count :: "(('n::len) word, ('e::len) word) csc_graph \<Rightarrow> nat" where
  "csc_node_count g = csr_element_count (csc_inner g)"

definition csc_relation_count :: "(('n::len) word, ('e::len) word) csc_graph \<Rightarrow> nat" where
  "csc_relation_count g = csr_relation_count (csc_inner g)"

text \<open>
  The neighbors of the inner graph are its element successors, as the blanket implementation of
  \<open>OutgoingNeighborsGraph\<close> has it; re-branding the handles of the iterator changes no value.
\<close>

definition csc_predecessors :: "(('n::len) word, ('e::len) word) csc_graph \<Rightarrow> 'n word \<Rightarrow> 'n word list option" where
  "csc_predecessors g target = csr_element_successors (csc_inner g) target"

definition csc_for_each_predecessor ::
    "(('n::len) word, ('e::len) word) csc_graph \<Rightarrow> 'n word \<Rightarrow> ('s \<Rightarrow> 'n word \<Rightarrow> bool \<times> 's) \<Rightarrow> 's \<Rightarrow> (bool \<times> 's) option" where
  "csc_for_each_predecessor g target visit s = csr_for_each_out_target (csc_inner g) target visit s"

definition csc_element_predecessors :: "(('n::len) word, ('e::len) word) csc_graph \<Rightarrow> 'n word \<Rightarrow> 'n word list option" where
  "csc_element_predecessors g element = csr_element_successors (csc_inner g) element"

text \<open>The two sections of a topology, as the exporter asks for them.\<close>

definition topology_sections :: "(('n::len) word, ('e::len) word) frozen_topology \<Rightarrow> pending_section list" where
  "topology_sections t =
     [plain_section (OFFSETS_KIND TYPE('e)) SNAPSHOT_CSR_SECTION_VERSION (slice_to_le (ft_offsets t)),
      plain_section (TARGETS_KIND TYPE('n)) SNAPSHOT_CSR_SECTION_VERSION (slice_to_le (ft_targets t))]"

definition topology_size :: "(('n::len) word, ('e::len) word) frozen_topology \<Rightarrow> nat" where
  "topology_size t = 96 + length (slice_to_le (ft_offsets t)) + length (slice_to_le (ft_targets t))"

lemma kinds_ascend:
  assumes "snapshot_width TYPE('n::len)" and "snapshot_width TYPE('e::len)"
  shows "OFFSETS_KIND TYPE('e) < TARGETS_KIND TYPE('n)"
  using snapshot_width.width_supported [OF assms(1)] snapshot_width.width_supported [OF assms(2)]
  by (auto simp: OFFSETS_KIND_def TARGETS_KIND_def WIDTH_CODE_def SNAPSHOT_KIND_CSR_OFFSETS_BASE_def
      SNAPSHOT_KIND_CSR_TARGETS_BASE_def)

lemma export_topology_Ok:
  fixes t :: "(('n::len) word, ('e::len) word) frozen_topology"
  assumes widths: "snapshot_width TYPE('n)" "snapshot_width TYPE('e)" and fits: "topology_size t \<le> usize_max"
  shows "\<exists>w. export_topology_snapshot t = Some (Ok (finished w)) \<and>
    writer_run crc32c_append (Idle w) (topology_sections t) \<and> length (wr_buf w) = topology_size t"
proof -
  have "\<exists>w0 w. writer_new (length (topology_sections t)) crc32c_append = Ok w0 \<and> write_all w0 (topology_sections t) = Ok w \<and>
    writer_finish w = Some (Ok (finished w)) \<and> length (finished w) = topology_size t \<and>
    length (wr_buf w) = topology_size t \<and> writer_run crc32c_append (Idle w) (topology_sections t)"
    using plain_export [of "topology_sections t" "topology_size t"] kinds_ascend [OF widths] fits
    by (simp add: topology_sections_def topology_size_def payload_total_def)
  then show ?thesis
    by (auto simp: export_topology_snapshot_def widths_are_bytes topology_sections_def SECTION_VERSION_def
        numeral_2_eq_2)
qed

lemma snapshot_reads_topology:
  fixes t :: "(('n::len) word, ('e::len) word) frozen_topology"
  assumes widths: "snapshot_width TYPE('n)" "snapshot_width TYPE('e)"
    and run: "writer_run crc32c_append (Idle w) (topology_sections t)" and small: "length (wr_buf w) \<le> usize_max"
  shows "snapshot_typed_section (finished_snapshot w) (OFFSETS_KIND TYPE('e)) SNAPSHOT_CSR_SECTION_VERSION =
      Some (Ok (ft_offsets t))"
    and "snapshot_typed_section (finished_snapshot w) (TARGETS_KIND TYPE('n)) SNAPSHOT_CSR_SECTION_VERSION =
      Some (Ok (ft_targets t))"
  using plain_section_reads [OF widths(2) run small] plain_section_reads [OF widths(1) run small]
  by (auto simp: topology_sections_def)

lemma exported_view:
  fixes t :: "(('n::len) word, ('e::len) word) frozen_topology"
  assumes widths: "snapshot_width TYPE('n)" "snapshot_width TYPE('e)"
    and wf: "frozen_wf n sources targets t" and fits: "topology_size t \<le> usize_max"
  shows "\<exists>bytes s. export_topology_snapshot t = Some (Ok bytes) \<and> length bytes = topology_size t \<and>
    snapshot_open_checked bytes crc32c_append = Ok s \<and> snapshot_verify_all s crc32c_append = Some (Ok ()) \<and>
    csr_from_snapshot s = Some (case ft_as_view t of Inr view \<Rightarrow> Ok view | Inl _ \<Rightarrow> Err (NodeCountOverflow (n + 1)))"
proof -
  from export_topology_Ok [OF widths fits] obtain w where
    export: "export_topology_snapshot t = Some (Ok (finished w))"
    and run: "writer_run crc32c_append (Idle w) (topology_sections t)"
    and len: "length (wr_buf w) = topology_size t" by blast
  let ?s = "finished_snapshot w"
  from crc32c.run_wf [OF run] have wwf: "writer_wf crc32c_append w" by simp
  have small: "length (wr_buf w) < 2 ^ 64" "length (wr_buf w) \<le> usize_max"
    using len fits by (simp_all add: usize_max_def)
  note read = snapshot_reads_topology [OF widths run small(2)]
  have n: "ft_node_count t = n" "length (ft_offsets t) = n + 1"
    using wf by (simp_all add: frozen_wf_def)
  have offsets: "ft_offsets t \<noteq> []" using n(2) by auto
  have "csr_from_snapshot ?s =
      Some (case ft_as_view t of Inr view \<Rightarrow> Ok view | Inl _ \<Rightarrow> Err (NodeCountOverflow (n + 1)))"
  proof (cases "n < 2 ^ LENGTH('n)")
    case True
    have "csr_validate (word_of_nat n) (ft_offsets t) (ft_targets t) =
        Some (Ok (csr_from_validated_parts (word_of_nat n) n (ft_offsets t) (ft_targets t)))"
      using frozen_view(1) [OF wf True] unat_word_of_nat [OF True] by (simp add: csr_validate_Ok_iff)
    moreover have "from_usize n = Some (word_of_nat n :: 'n word)" using True by (simp add: from_usize_def)
    ultimately show ?thesis
      by (simp add: csr_from_snapshot_def csr_from_snapshot_with_kinds_def SECTION_VERSION_def read n offsets
          ft_as_view_def)
  next
    case False
    then have "from_usize n = (None :: 'n word option)" by (simp add: from_usize_def)
    then show ?thesis
      by (simp add: csr_from_snapshot_def csr_from_snapshot_with_kinds_def SECTION_VERSION_def read n offsets
          ft_as_view_def)
  qed
  then show ?thesis
    using export len writer_roundtrip(1,2) [OF wwf small(1)] length_finished [OF wwf] by auto
qed

section \<open>What binding accepts\<close>

lemma from_snapshot_returns:
  assumes "snapshot_wf s" and "length (snap_bytes s) \<le> usize_max"
  shows "csr_from_snapshot_with_kinds s offsets_kind targets_kind version \<noteq> None"
  by (simp add: csr_from_snapshot_with_kinds_def typed_section_returns [OF assms] csr_validate_no_panic
      del: not_None_eq)

lemma from_snapshot_Ok_iff:
  assumes widths: "snapshot_width TYPE('n::len)" "snapshot_width TYPE('e::len)"
  shows "csr_from_snapshot_with_kinds s offsets_kind targets_kind version = Some (Ok (view :: ('n, 'e) csr_view)) \<longleftrightarrow>
    csr_wf view \<and>
    (\<exists>o_sec. snapshot_section s offsets_kind = Some (Some o_sec) \<and> sec_version o_sec = version \<and>
       sec_payload o_sec = slice_to_le (csr_offsets view)) \<and>
    (\<exists>t_sec. snapshot_section s targets_kind = Some (Some t_sec) \<and> sec_version t_sec = version \<and>
       sec_payload t_sec = slice_to_le (csr_targets view))"
proof -
  have shape: "view = csr_from_validated_parts (csr_node_count view) (unat (csr_node_count view)) (csr_offsets view) (csr_targets view)
      \<and> length (csr_offsets view) = unat (csr_node_count view) + 1 \<and> csr_offsets view \<noteq> []"
    if "csr_wf view"
    using that csr_wf_length [OF that] by (auto simp: csr_wf_def csr_from_validated_parts_def)
  have "csr_from_snapshot_with_kinds s offsets_kind targets_kind version = Some (Ok view) \<longleftrightarrow>
      csr_wf view \<and> snapshot_typed_section s offsets_kind version = Some (Ok (csr_offsets view)) \<and>
      snapshot_typed_section s targets_kind version = Some (Ok (csr_targets view))"
    (is "?bound \<longleftrightarrow> ?read")
  proof
    assume ?bound
    then show ?read
      by (auto simp: csr_from_snapshot_with_kinds_def csr_validate_Ok_iff csr_from_validated_parts_def split: if_splits)
  next
    assume ?read
    with shape show ?bound
      by (auto simp: csr_from_snapshot_with_kinds_def csr_validate_Ok_iff from_usize_def unat_bound)
  qed
  then show ?thesis by (simp add: typed_section_Ok_iff [OF widths(1)] typed_section_Ok_iff [OF widths(2)])
qed

lemma topology_size_frozen:
  assumes "snapshot_width TYPE('n::len)" and "snapshot_width TYPE('e::len)"
    and "frozen_wf n sources targets (t :: ('n word, 'e word) frozen_topology)"
  shows "topology_size t = 96 + (n + 1) * word_size TYPE('e) + length sources * word_size TYPE('n)"
proof -
  have "length (ft_offsets t) = n + 1" "length (ft_targets t) = length sources"
    using assms(3) by (simp_all add: frozen_wf_def scattered_def)
  then show ?thesis
    using snapshot_width.length_slice_to_le [OF assms(1), of "ft_targets t" "TYPE('n)"]
      snapshot_width.length_slice_to_le [OF assms(2), of "ft_offsets t" "TYPE('e)"]
    by (simp only: topology_size_def)
qed

lemma transposed_view:
  assumes "builder_run TYPE('e::len) b edges" and "gb_node_count b < usize_max" and "length edges \<le> usize_max"
    and "gb_freeze b = Some (Ok (g :: (('n::len) word, 'e word) frozen_graph))" and n: "gb_node_count b < 2 ^ LENGTH('n)"
  shows "\<exists>h view. fg_transpose g = Some (Ok h) \<and> ft_as_view (fg_topology h) = Ok view \<and>
    frozen_wf (gb_node_count b) (map snd edges) (map fst edges) (fg_topology h) \<and>
    csr_wf view \<and> csr_node_bound view = gb_node_count b \<and> csr_relation_count view = length edges \<and>
    (\<forall>node. unat node < gb_node_count b \<longrightarrow>
      csr_row view (unat node) = map fst (filter (\<lambda>(s, t). t = node) edges))"
proof -
  let ?n = "gb_node_count b" and ?swap = "map (\<lambda>(s, t). (t, s)) edges"
  note wf = gb_freeze_wf(1) [OF assms(1-4)] and ok = gb_freeze_wf(2) [OF assms(1-4)]
  have swap: "map snd edges = map fst ?swap" "map fst edges = map snd ?swap" by auto
  from ok have "edges_ok ?n (map snd edges) (map fst edges)" by (auto simp: edges_ok_def)
  moreover have t: "ft_node_count (fg_topology g) = ?n" "ft_sources (fg_topology g) = map fst edges"
    "ft_edge_targets (fg_topology g) = map snd edges" "length edges < 2 ^ LENGTH('e)"
    using wf by (simp_all add: frozen_wf_def)
  ultimately obtain t' :: "('n word, 'e word) frozen_topology" where
    t1: "freeze_topology ?n (map snd edges) (map fst edges) = Some (Ok t')"
    and t2: "frozen_wf ?n (map snd edges) (map fst edges) t'"
    using freeze_topology_Ok [of ?n "map snd edges" "map fst edges", where 'e = 'e] by auto
  let ?view = "csr_from_validated_parts (word_of_nat ?n) ?n (ft_offsets t') (ft_targets t')"
  have fields: "csr_node_bound ?view = ?n" "csr_relation_count ?view = length edges"
    using t2 by (simp_all add: csr_from_validated_parts_def csr_relation_count_def frozen_wf_def scattered_def)
  note view = frozen_view [OF t2 n]
  have "csr_row ?view (unat node) = map fst (filter (\<lambda>(s, t). t = node) edges)" if "unat node < ?n" for node
  proof -
    have "csr_row ?view (unat node) = map snd (filter (\<lambda>(s, t). s = node) ?swap)"
      unfolding view(2) [OF that] swap row_of_edges row_of_targets ..
    also have "\<dots> = map fst (filter (\<lambda>(s, t). t = node) edges)" by (induction edges) auto
    finally show ?thesis .
  qed
  moreover have "ft_as_view t' = Ok ?view"
    using t2 n by (simp add: ft_as_view_def frozen_wf_def from_usize_def)
  moreover have "fg_transpose g = Some (Ok \<lparr>fg_topology = t'\<rparr>)" by (simp add: fg_transpose_def t t1)
  ultimately show ?thesis using t2 view(1) fields by (intro exI [of _ "\<lparr>fg_topology = t'\<rparr>"] exI [of _ ?view]) simp
qed

section \<open>Properties\<close>

text \<open>
  Binding a view to an opened snapshot never panics, whatever the kinds and the version, and
  returns a view exactly when that view is well formed and the two sections are present at that
  version with the little-endian words of its two arrays as their payloads.
\<close>

theorem csr_from_snapshot_decides:
  assumes "snapshot_width TYPE('n::len)" and "snapshot_width TYPE('e::len)"
    and "snapshot_open bytes = Ok s" and "length bytes \<le> usize_max"
  shows "(csr_from_snapshot_with_kinds s offsets_kind targets_kind version ::
      (('n word, 'e word) csr_snapshot_error, ('n, 'e) csr_view) run) \<noteq> None \<and>
    (\<forall>view :: ('n, 'e) csr_view. csr_from_snapshot_with_kinds s offsets_kind targets_kind version = Some (Ok view) \<longleftrightarrow>
      csr_validate (csr_node_count view) (csr_offsets view) (csr_targets view) = Some (Ok view) \<and>
      (\<exists>o_sec t_sec. snapshot_section s offsets_kind = Some (Some o_sec) \<and>
         snapshot_section s targets_kind = Some (Some t_sec) \<and>
         sec_version o_sec = version \<and> sec_version t_sec = version \<and>
         sec_payload o_sec = slice_to_le (csr_offsets view) \<and> sec_payload t_sec = slice_to_le (csr_targets view)))"
proof -
  from assms(3,4) have wf: "snapshot_wf s" "length (snap_bytes s) \<le> usize_max"
    by (auto simp: snapshot_open_Ok_iff)
  have "csr_wf view \<longleftrightarrow> csr_validate (csr_node_count view) (csr_offsets view) (csr_targets view) = Some (Ok view)"
    for view :: "('n, 'e) csr_view"
    unfolding csr_validate_Ok_iff by (auto simp: csr_wf_def csr_from_validated_parts_def)
  then show ?thesis
    using from_snapshot_returns [OF wf] from_snapshot_Ok_iff [OF assms(1,2)] by auto
qed

text \<open>
  Exporting a frozen graph and binding the exported bytes gives back the graph's own zero-copy
  view: the bytes have the computed size, open and verify, and the bound view is \<open>as_view\<close>'s, or
  the node count overflow that \<open>as_view\<close> also refuses.
\<close>

theorem csr_snapshot_roundtrip:
  assumes "snapshot_width TYPE('n::len)" and "snapshot_width TYPE('e::len)"
    and "builder_run TYPE('e) b edges" and "gb_node_count b < usize_max" and "length edges \<le> usize_max"
    and "gb_freeze b = Some (Ok (g :: ('n word, 'e word) frozen_graph))"
    and "96 + (gb_node_count b + 1) * word_size TYPE('e) + length edges * word_size TYPE('n) \<le> usize_max"
  shows "\<exists>bytes s. export_csr_snapshot g = Some (Ok bytes) \<and>
    length bytes = 96 + (gb_node_count b + 1) * word_size TYPE('e) + length edges * word_size TYPE('n) \<and>
    snapshot_open_checked bytes crc32c_append = Ok s \<and> snapshot_verify_all s crc32c_append = Some (Ok ()) \<and>
    csr_from_snapshot s =
      Some (case ft_as_view (fg_topology g) of
              Inr view \<Rightarrow> Ok view
            | Inl _ \<Rightarrow> Err (NodeCountOverflow (gb_node_count b + 1)))"
proof -
  note wf = gb_freeze_wf(1) [OF assms(3-6)]
  have size: "topology_size (fg_topology g) =
      96 + (gb_node_count b + 1) * word_size TYPE('e) + length edges * word_size TYPE('n)"
    using topology_size_frozen [OF assms(1,2) wf] by simp
  show ?thesis
    using exported_view [OF assms(1,2) wf] assms(7) unfolding size export_csr_snapshot_def by blast
qed

text \<open>
  A graph's incoming edges survive the trip through storage: the transpose of a frozen graph,
  exported and bound as an inbound view, lists as predecessors of a node exactly the sources of the
  edges into it, and visits them in that order.
\<close>

theorem csc_reads_incoming:
  assumes "snapshot_width TYPE('n::len)" and "snapshot_width TYPE('e::len)"
    and "builder_run TYPE('e) b edges" and "gb_node_count b < usize_max" and "length edges \<le> usize_max"
    and "gb_freeze b = Some (Ok (g :: ('n word, 'e word) frozen_graph))"
    and "96 + (gb_node_count b + 1) * word_size TYPE('e) + length edges * word_size TYPE('n) \<le> usize_max"
    and "gb_node_count b < 2 ^ LENGTH('n)"
  shows "\<exists>h bytes s csc. fg_transpose g = Some (Ok h) \<and> export_csr_snapshot h = Some (Ok bytes) \<and>
    snapshot_open_checked bytes crc32c_append = Ok s \<and>
    csc_from_snapshot_with_kinds s (OFFSETS_KIND TYPE('e)) (TARGETS_KIND TYPE('n)) SNAPSHOT_CSR_SECTION_VERSION =
      Some (Ok (csc :: ('n word, 'e word) csc_graph)) \<and>
    csc_node_count csc = gb_node_count b \<and> csc_relation_count csc = length edges \<and>
    (\<forall>node visit st. unat node < gb_node_count b \<longrightarrow>
      csc_predecessors csc node = Some (map fst (filter (\<lambda>(s, t). t = node) edges)) \<and>
      csc_for_each_predecessor csc node visit (st :: 's) =
        Some (visit_until visit st (map fst (filter (\<lambda>(s, t). t = node) edges))))"
proof -
  let ?n = "gb_node_count b"
  from transposed_view [OF assms(3-6,8)] obtain h view where
    h: "fg_transpose g = Some (Ok h)" "ft_as_view (fg_topology h) = Ok view"
      "frozen_wf ?n (map snd edges) (map fst edges) (fg_topology h)"
    and view: "csr_wf view" "csr_node_bound view = ?n" "csr_relation_count view = length edges"
      "\<And>node. unat node < ?n \<Longrightarrow> csr_row view (unat node) = map fst (filter (\<lambda>(s, t). t = node) edges)" by blast
  have size: "topology_size (fg_topology h) \<le> usize_max"
    using topology_size_frozen [OF assms(1,2) h(3)] assms(7) by simp
  from exported_view [OF assms(1,2) h(3) size] obtain bytes s where
    stored: "export_csr_snapshot h = Some (Ok bytes)" "snapshot_open_checked bytes crc32c_append = Ok s"
      "csr_from_snapshot s = Some (Ok view)"
    by (auto simp: h(2) export_csr_snapshot_def)
  have bound: "csc_from_snapshot_with_kinds s (OFFSETS_KIND TYPE('e)) (TARGETS_KIND TYPE('n)) SNAPSHOT_CSR_SECTION_VERSION =
      Some (Ok \<lparr>csc_inner = view\<rparr>)"
    using stored(3) by (simp add: csc_from_snapshot_with_kinds_def csr_from_snapshot_def SECTION_VERSION_def)
  have rows: "csr_element_successors view node = Some (map fst (filter (\<lambda>(s, t). t = node) edges))"
    if "unat node < ?n" for node
    using csr_element_successors_row [OF view(1)] view(2,4) that by simp
  moreover have "csr_for_each_out_target view node visit st =
      Some (visit_until visit st (map fst (filter (\<lambda>(s, t). t = node) edges)))"
    if "unat node < ?n" for node visit and st :: 's
    using csr_for_each_out_target_row [OF view(1)] view(2,4) that by simp
  ultimately show ?thesis
    using h(1) stored(1,2) bound view(2,3)
    by (intro exI [of _ h] exI [of _ bytes] exI [of _ s] exI [of _ "\<lparr>csc_inner = view\<rparr>"])
      (simp add: csc_node_count_def csc_relation_count_def csr_element_count_def csc_predecessors_def
        csc_for_each_predecessor_def)
qed

text \<open>The small graph of 16-bit handles, exported and read back.\<close>

lemma example_room: "96 + (gb_node_count example_builder + 1) * word_size TYPE(16) +
    length [(0 :: 16 word, 1 :: 16 word), (1, 0), (1, 1)] * word_size TYPE(16) \<le> usize_max"
  by (simp add: example_builder_def word_size_def usize_max_def)

lemma example_exported:
  "\<exists>(t :: (16 word, 16 word) frozen_topology) bytes s view. export_topology_snapshot t = Some (Ok bytes) \<and>
     length bytes \<le> usize_max \<and> snapshot_open bytes = Ok s \<and> csr_from_snapshot s = Some (Ok (view :: (16, 16) csr_view))"
proof -
  obtain g :: "(16 word, 16 word) frozen_graph" where g: "gb_freeze example_builder = Some (Ok g)"
    using example_builder_freezes by blast
  from transposed_view [OF example_builder_run _ _ g] obtain h view where
    h: "ft_as_view (fg_topology h) = Ok view"
      "frozen_wf 2 (map snd [(0, 1), (1, 0), (1, 1)]) (map fst [(0, 1), (1, 0), (1, 1)]) (fg_topology (h :: (16 word, 16 word) frozen_graph))"
    using example_builder_small by (auto simp: example_builder_def)
  have "topology_size (fg_topology h) \<le> usize_max"
    using topology_size_frozen [OF example_widths h(2)] by (simp add: word_size_def usize_max_def)
  with exported_view [OF example_widths h(2)] obtain bytes s where
    x: "export_topology_snapshot (fg_topology h) = Some (Ok bytes)" "length bytes \<le> usize_max"
      "snapshot_open_checked bytes crc32c_append = Ok s" "csr_from_snapshot s = Some (Ok view)"
    by (auto simp: h(1))
  moreover from x(3) have "snapshot_open bytes = Ok s" by (auto simp: snapshot_open_checked_def Let_def split: if_splits)
  ultimately show ?thesis by blast
qed

theorem csr_from_snapshot_decides_witness:
  "\<exists>bytes s (view :: (16, 16) csr_view) t_sec. snapshot_open bytes = Ok s \<and> csr_from_snapshot s = Some (Ok view) \<and>
     snapshot_section s (TARGETS_KIND TYPE(16)) = Some (Some t_sec) \<and> sec_payload t_sec = slice_to_le (csr_targets view)"
proof -
  obtain t :: "(16 word, 16 word) frozen_topology" and bytes s and view :: "(16, 16) csr_view" where
    x: "length bytes \<le> usize_max" "snapshot_open bytes = Ok s" "csr_from_snapshot s = Some (Ok view)"
    using example_exported by blast
  with csr_from_snapshot_decides [OF example_widths x(2,1), of "OFFSETS_KIND TYPE(16)" "TARGETS_KIND TYPE(16)" "SECTION_VERSION TYPE(16)"]
  show ?thesis unfolding csr_from_snapshot_def by blast
qed

theorem csr_snapshot_roundtrip_witness:
  "\<exists>(g :: (16 word, 16 word) frozen_graph) bytes s. gb_freeze example_builder = Some (Ok g) \<and>
     export_csr_snapshot g = Some (Ok bytes) \<and> length bytes = 108 \<and>
     snapshot_open_checked bytes crc32c_append = Ok s"
proof -
  obtain g :: "(16 word, 16 word) frozen_graph" where g: "gb_freeze example_builder = Some (Ok g)"
    using example_builder_freezes by blast
  have "96 + (gb_node_count example_builder + 1) * word_size TYPE(16) +
      length [(0 :: 16 word, 1 :: 16 word), (1, 0), (1, 1)] * word_size TYPE(16) = 108"
    by (simp add: example_builder_def word_size_def)
  with g csr_snapshot_roundtrip [OF example_widths example_builder_run _ _ g example_room] example_builder_small
  show ?thesis by auto
qed

theorem csc_reads_incoming_witness:
  "\<exists>(h :: (16 word, 16 word) frozen_graph) bytes s csc. export_csr_snapshot h = Some (Ok bytes) \<and>
     snapshot_open_checked bytes crc32c_append = Ok s \<and>
     csc_from_snapshot_with_kinds s (OFFSETS_KIND TYPE(16)) (TARGETS_KIND TYPE(16)) SNAPSHOT_CSR_SECTION_VERSION =
       Some (Ok (csc :: (16 word, 16 word) csc_graph)) \<and> csc_predecessors csc 1 = Some [0, 1]"
proof -
  obtain g :: "(16 word, 16 word) frozen_graph" where g: "gb_freeze example_builder = Some (Ok g)"
    using example_builder_freezes by blast
  have one: "unat (1 :: 16 word) < gb_node_count example_builder" by (simp add: example_builder_def)
  have small: "gb_node_count example_builder < 2 ^ LENGTH(16)" by (simp add: example_builder_def)
  from csc_reads_incoming [OF example_widths example_builder_run example_builder_small(1) _ g example_room small]
    example_builder_small(2) one
  show ?thesis by fastforce
qed

end
