(* ===== verification/Topology.thy ===== *)
theory Topology
  imports CsrSnapshot
begin

text \<open>
  The capability traits of \<open>crates/oxgraph-topology/src/lib.rs\<close> that the algorithms bind to, as a
  record of functions, their documented contract as a locale, and its instances: the borrowed CSR
  view and the frozen graphs.
\<close>

section \<open>Views\<close>

text \<open>
  \<open>DenseElementIndex\<close>, \<open>ContainsElement\<close>, \<open>ElementSuccessors\<close> and \<open>ElementPredecessors\<close> of a view.
  \<open>None\<close> is a panic of the method; a capability that a view does not implement is never called on it
  and is \<open>None\<close> everywhere.
\<close>

record 'n topology_view =
  element_bound :: nat
  element_index :: "'n \<Rightarrow> nat option"
  contains_element :: "'n \<Rightarrow> bool"
  element_successors :: "'n \<Rightarrow> 'n list option"
  element_predecessors :: "'n \<Rightarrow> 'n list option"

datatype direction = Forward | Reverse

fun expand :: "direction \<Rightarrow> 'n topology_view \<Rightarrow> 'n \<Rightarrow> 'n list option" where
  "expand Forward g element = element_successors g element"
| "expand Reverse g element = element_predecessors g element"

section \<open>The contract\<close>

text \<open>
  What the trait documentation asks of an implementation: contained elements have distinct indexes
  below the bound, a \<open>usize\<close>, and the elements a contained one expands to are contained.
\<close>

definition topology_ok :: "direction \<Rightarrow> 'n topology_view \<Rightarrow> bool" where
  "topology_ok dir g \<longleftrightarrow> element_bound g \<le> usize_max \<and>
     (\<forall>x. contains_element g x \<longrightarrow> (\<exists>i < element_bound g. element_index g x = Some i)) \<and>
     (\<forall>x y. contains_element g x \<longrightarrow> contains_element g y \<longrightarrow> element_index g x = element_index g y \<longrightarrow> x = y) \<and>
     (\<forall>x. contains_element g x \<longrightarrow> (\<exists>ys. expand dir g x = Some ys \<and> (\<forall>y \<in> set ys. contains_element g y)))"

text \<open>The edges an expansion follows.\<close>

definition steps :: "direction \<Rightarrow> 'n topology_view \<Rightarrow> ('n \<times> 'n) set" where
  "steps dir g = {(x, y). contains_element g x \<and> (\<exists>ys. expand dir g x = Some ys \<and> y \<in> set ys)}"

text \<open>A provider gives such a view for each of its well-formed values.\<close>

locale dense_topology =
  fixes dir :: direction and wf :: "'g \<Rightarrow> bool" and view :: "'g \<Rightarrow> 'n topology_view"
  assumes bound_usize: "wf G \<Longrightarrow> element_bound (view G) \<le> usize_max"
    and index_total: "wf G \<Longrightarrow> contains_element (view G) x \<Longrightarrow>
      \<exists>i < element_bound (view G). element_index (view G) x = Some i"
    and index_distinct: "wf G \<Longrightarrow> contains_element (view G) x \<Longrightarrow> contains_element (view G) y \<Longrightarrow>
      element_index (view G) x = element_index (view G) y \<Longrightarrow> x = y"
    and expand_closed: "wf G \<Longrightarrow> contains_element (view G) x \<Longrightarrow>
      \<exists>ys. expand dir (view G) x = Some ys \<and> (\<forall>y \<in> set ys. contains_element (view G) y)"
begin

lemma ok: "wf G \<Longrightarrow> topology_ok dir (view G)"
  unfolding topology_ok_def using bound_usize index_total index_distinct expand_closed by blast

end

lemma topology_ok_bound: "topology_ok dir g \<Longrightarrow> element_bound g \<le> usize_max"
  by (simp add: topology_ok_def)

lemma topology_ok_index:
  "topology_ok dir g \<Longrightarrow> contains_element g x \<Longrightarrow> \<exists>i < element_bound g. element_index g x = Some i"
  by (simp add: topology_ok_def)

lemma topology_ok_distinct:
  "topology_ok dir g \<Longrightarrow> contains_element g x \<Longrightarrow> contains_element g y \<Longrightarrow>
     element_index g x = element_index g y \<Longrightarrow> x = y"
  unfolding topology_ok_def by blast

lemma topology_ok_expand:
  "topology_ok dir g \<Longrightarrow> contains_element g x \<Longrightarrow>
     \<exists>ys. expand dir g x = Some ys \<and> (\<forall>y \<in> set ys. contains_element g y)"
  by (simp add: topology_ok_def)

lemma contained_finite:
  assumes ok: "topology_ok dir g"
  shows "finite {x. contains_element g x}" and "card {x. contains_element g x} \<le> element_bound g"
proof -
  let ?C = "{x. contains_element g x}" and ?f = "\<lambda>x. the (element_index g x)"
  have inj: "inj_on ?f ?C"
  proof (rule inj_onI)
    fix x y
    assume "x \<in> ?C" "y \<in> ?C" "?f x = ?f y"
    with topology_ok_index [OF ok, of x] topology_ok_index [OF ok, of y] show "x = y"
      using topology_ok_distinct [OF ok, of x y] by force
  qed
  have range: "?f ` ?C \<subseteq> {..<element_bound g}" using topology_ok_index [OF ok] by force
  from inj range show "finite ?C" by (rule inj_on_finite) simp
  from card_inj_on_le [OF inj range] show "card ?C \<le> element_bound g" by simp
qed

lemma contained_bound:
  assumes ok: "topology_ok dir g" and "distinct xs" and "\<forall>x \<in> set xs. contains_element g x"
  shows "length xs \<le> element_bound g"
proof -
  have "card (set xs) \<le> card {x. contains_element g x}"
    using assms(3) by (intro card_mono contained_finite(1) [OF ok]) auto
  also note contained_finite(2) [OF ok]
  finally show ?thesis using assms(2) by (simp add: distinct_card)
qed

lemma steps_contained:
  "topology_ok dir g \<Longrightarrow> (x, y) \<in> steps dir g \<Longrightarrow> contains_element g x \<and> contains_element g y"
  using topology_ok_expand by (fastforce simp: steps_def)

section \<open>The providers\<close>

definition csr_element_bound :: "('n::len, 'e::len) csr_view \<Rightarrow> nat" where
  "csr_element_bound g = csr_node_bound g"

definition ft_element_bound :: "('n, 'e) frozen_topology \<Rightarrow> nat" where
  "ft_element_bound t = ft_node_count t"

definition csr_topology :: "('n::len, 'e::len) csr_view \<Rightarrow> 'n word topology_view" where
  "csr_topology g =
     \<lparr>element_bound = csr_element_bound g, element_index = csr_element_index g,
      contains_element = csr_contains_node g, element_successors = csr_element_successors g,
      element_predecessors = (\<lambda>_. None)\<rparr>"

definition frozen_view_of :: "(('n::len) word, ('e::len) word) frozen_topology \<Rightarrow> 'n word topology_view" where
  "frozen_view_of t =
     \<lparr>element_bound = ft_element_bound t, element_index = (\<lambda>element. Some (ft_element_index t element)),
      contains_element = ft_contains_element t, element_successors = ft_element_successors t,
      element_predecessors = (\<lambda>_. None)\<rparr>"

interpretation csr_dense: dense_topology Forward csr_wf csr_topology
proof unfold_locales
  fix G :: "('n::len, 'e::len) csr_view" and x y
  assume wf: "csr_wf G"
  note node = csr_contains_node_iff [OF wf] csr_check_node_slot_wf [OF wf]
  have index: "element_index (csr_topology G) x = Some (unat x)" if "contains_element (csr_topology G) x" for x
    using that node by (simp add: csr_topology_def csr_element_index_def csr_checked_node_slot_def)
  show "element_bound (csr_topology G) \<le> usize_max"
    using csr_wf_bound [OF wf] by (simp add: csr_topology_def csr_element_bound_def)
  show "\<exists>i < element_bound (csr_topology G). element_index (csr_topology G) x = Some i"
    if "contains_element (csr_topology G) x"
    using index [OF that] that node by (simp add: csr_topology_def csr_element_bound_def)
  show "x = y" if "contains_element (csr_topology G) x" "contains_element (csr_topology G) y"
    "element_index (csr_topology G) x = element_index (csr_topology G) y"
    using index [OF that(1)] index [OF that(2)] that(3) by (simp add: word_unat_eq_iff)
  show "\<exists>ys. expand Forward (csr_topology G) x = Some ys \<and> (\<forall>y \<in> set ys. contains_element (csr_topology G) y)"
    if "contains_element (csr_topology G) x"
    using that node csr_element_successors_row [OF wf, of x] wf
    by (auto simp: csr_topology_def csr_wf_def dest: csr_row_targets)
qed

definition frozen_ok :: "(('n::len) word, ('e::len) word) frozen_topology \<Rightarrow> bool" where
  "frozen_ok t \<longleftrightarrow> frozen_wf (ft_node_count t) (ft_sources t) (ft_edge_targets t) t"

interpretation frozen_dense: dense_topology Forward frozen_ok frozen_view_of
proof unfold_locales
  fix G :: "(('n::len) word, ('e::len) word) frozen_topology" and x y
  assume "frozen_ok G"
  then have wf: "frozen_wf (ft_node_count G) (ft_sources G) (ft_edge_targets G) G" by (simp add: frozen_ok_def)
  then have count: "ft_node_count G < usize_max" and targets: "\<And>x. x \<in> set (ft_edge_targets G) \<Longrightarrow> unat x < ft_node_count G"
    "length (ft_edge_targets G) = length (ft_sources G)"
    by (auto simp: frozen_wf_def edges_ok_def)
  have contains: "contains_element (frozen_view_of G) x \<longleftrightarrow> unat x < ft_node_count G" for x
    using frozen_contains [OF wf] by (simp add: frozen_view_of_def)
  have index: "element_index (frozen_view_of G) x = Some (unat x)" if "contains_element (frozen_view_of G) x" for x
    using that count by (simp add: contains) (simp add: frozen_view_of_def ft_element_index_def to_usize_def)
  show "element_bound (frozen_view_of G) \<le> usize_max"
    using count by (simp add: frozen_view_of_def ft_element_bound_def)
  show "\<exists>i < element_bound (frozen_view_of G). element_index (frozen_view_of G) x = Some i"
    if "contains_element (frozen_view_of G) x"
    using index [OF that] that by (simp add: contains) (simp add: frozen_view_of_def ft_element_bound_def)
  show "x = y" if "contains_element (frozen_view_of G) x" "contains_element (frozen_view_of G) y"
    "element_index (frozen_view_of G) x = element_index (frozen_view_of G) y"
    using index [OF that(1)] index [OF that(2)] that(3) by (simp add: word_unat_eq_iff)
  show "\<exists>ys. expand Forward (frozen_view_of G) x = Some ys \<and> (\<forall>y \<in> set ys. contains_element (frozen_view_of G) y)"
    if "contains_element (frozen_view_of G) x"
    using that frozen_access(3) [OF wf, of x] targets
    by (auto simp: contains) (auto simp: frozen_view_of_def row_edges_def)
qed

end
