(* ===== verification/Layers.thy ===== *)
theory Layers
  imports Main
begin

text \<open>
  The specification that every breadth-first traversal of \<open>crates/oxgraph-algo\<close> is measured against: the
  elements reachable from a set of seeds, each with its hop distance, listed by distance. The
  reference traversal keeps the visited elements as a set and the frontier as a list.
\<close>

section \<open>Distance\<close>

definition within :: "('a \<times> 'a) set \<Rightarrow> 'a set \<Rightarrow> nat \<Rightarrow> 'a \<Rightarrow> bool" where
  "within E S d x \<longleftrightarrow> (\<exists>s \<in> S. (s, x) \<in> E ^^ d)"

definition at_distance :: "('a \<times> 'a) set \<Rightarrow> 'a set \<Rightarrow> nat \<Rightarrow> 'a \<Rightarrow> bool" where
  "at_distance E S d x \<longleftrightarrow> within E S d x \<and> (\<forall>k < d. \<not> within E S k x)"

lemma within_0 [simp]: "within E S 0 x \<longleftrightarrow> x \<in> S"
  by (auto simp: within_def)

lemma within_Suc: "within E S (Suc d) y \<longleftrightarrow> (\<exists>x. within E S d x \<and> (x, y) \<in> E)"
  by (auto simp: within_def)

lemma within_reachable: "(\<exists>d. within E S d x) \<longleftrightarrow> (\<exists>s \<in> S. (s, x) \<in> E\<^sup>*)"
  unfolding within_def rtrancl_power by blast

lemma at_distance_unique: "at_distance E S d x \<Longrightarrow> at_distance E S e x \<Longrightarrow> d = e"
  unfolding at_distance_def by (meson linorder_neqE_nat)

lemma within_at_distance: "within E S k x \<Longrightarrow> \<exists>d \<le> k. at_distance E S d x"
  using exists_least_iff [of "\<lambda>d. within E S d x"]
  unfolding at_distance_def by (meson not_le)

lemma at_distance_pred:
  assumes "at_distance E S (Suc k) z"
  shows "\<exists>y. at_distance E S k y \<and> (y, z) \<in> E"
proof -
  from assms obtain y where y: "within E S k y" "(y, z) \<in> E" by (auto simp: at_distance_def within_Suc)
  have "\<not> within E S j y" if "j < k" for j
    using assms that y(2) by (auto simp: at_distance_def within_Suc dest: spec [of _ "Suc j"])
  with y(1) have "at_distance E S k y" by (simp add: at_distance_def)
  with y(2) show ?thesis by blast
qed

section \<open>The reference traversal\<close>

text \<open>The unvisited elements of a list, once each, in order.\<close>

fun fresh :: "'a set \<Rightarrow> 'a list \<Rightarrow> 'a list" where
  "fresh V [] = []"
| "fresh V (x # xs) = (if x \<in> V then fresh V xs else x # fresh (insert x V) xs)"

lemma set_fresh: "set (fresh V xs) = set xs - V"
  by (induction xs arbitrary: V) auto

lemma distinct_fresh: "distinct (fresh V xs)"
  by (induction xs arbitrary: V) (auto simp: set_fresh)

lemma fresh_snoc: "fresh V (xs @ [x]) = fresh V xs @ (if x \<in> V \<union> set xs then [] else [x])"
  by (induction xs arbitrary: V) auto

lemma fresh_Nil: "set xs \<subseteq> V \<Longrightarrow> fresh V xs = []"
  by (induction xs) auto

text \<open>
  One step yields the first element of the frontier and appends its fresh neighbors, one hop
  further away; elements at a depth that is not expanded contribute none.
\<close>

definition discovered :: "('a \<Rightarrow> 'a list) \<Rightarrow> (nat \<Rightarrow> bool) \<Rightarrow> 'a set \<Rightarrow> 'a \<Rightarrow> nat \<Rightarrow> 'a list" where
  "discovered succs expands V x d = (if expands d then fresh V (succs x) else [])"

lemma set_discovered: "set (discovered succs expands V x d) = (if expands d then set (succs x) - V else {})"
  unfolding discovered_def by (cases "expands d") (simp_all only: set_fresh if_True if_False list.set)

lemma distinct_discovered: "distinct (discovered succs expands V x d)"
  unfolding discovered_def by (cases "expands d") (simp_all only: distinct_fresh if_True if_False distinct.simps)

primrec layers :: "('a \<Rightarrow> 'a list) \<Rightarrow> (nat \<Rightarrow> bool) \<Rightarrow> nat \<Rightarrow> 'a set \<Rightarrow> ('a \<times> nat) list \<Rightarrow> ('a \<times> nat) list" where
  "layers succs expands 0 V Q = []"
| "layers succs expands (Suc fuel) V Q =
     (case Q of
        [] \<Rightarrow> []
      | (x, d) # Q' \<Rightarrow>
          (x, d) # layers succs expands fuel (V \<union> set (discovered succs expands V x d))
                     (Q' @ map (\<lambda>y. (y, Suc d)) (discovered succs expands V x d)))"

section \<open>Its correctness\<close>

text \<open>
  The invariant: what was yielded, \<open>D\<close>, and the frontier \<open>Q\<close> carry their distances and are sorted by
  them, the frontier spans at most two layers, and the layers up to the frontier's are visited.
\<close>

definition layered ::
    "('a \<times> 'a) set \<Rightarrow> 'a set \<Rightarrow> (nat \<Rightarrow> bool) \<Rightarrow> ('a \<times> nat) list \<Rightarrow> 'a set \<Rightarrow> ('a \<times> nat) list \<Rightarrow> bool" where
  "layered E S expands D V Q \<longleftrightarrow>
     distinct (map fst (D @ Q)) \<and> V = fst ` set (D @ Q) \<and>
     (\<forall>x d. (x, d) \<in> set (D @ Q) \<longrightarrow> at_distance E S d x \<and> (\<forall>k < d. expands k)) \<and>
     sorted (map snd (D @ Q)) \<and>
     (\<forall>x d y. (x, d) \<in> set D \<longrightarrow> expands d \<longrightarrow> (x, y) \<in> E \<longrightarrow> y \<in> V) \<and>
     (\<forall>x d y e. (x, d) \<in> set Q \<longrightarrow> (y, e) \<in> set (D @ Q) \<longrightarrow> e \<le> Suc d) \<and>
     S \<subseteq> V"

lemma layeredD:
  assumes "layered E S expands D V Q"
  shows "y \<in> V \<longleftrightarrow> (\<exists>e. (y, e) \<in> set (D @ Q))" and "distinct (map fst (D @ Q))" and "S \<subseteq> V"
    and "(y, e) \<in> set (D @ Q) \<Longrightarrow> at_distance E S e y" and "(y, e) \<in> set (D @ Q) \<Longrightarrow> k < e \<Longrightarrow> expands k"
    and "sorted (map snd (D @ Q))" and "(y, e) \<in> set D \<Longrightarrow> expands e \<Longrightarrow> (y, z) \<in> E \<Longrightarrow> z \<in> V"
    and "(y, e) \<in> set Q \<Longrightarrow> (z, f) \<in> set (D @ Q) \<Longrightarrow> f \<le> Suc e"
    and "(y, e) \<in> set D \<Longrightarrow> (z, f) \<in> set Q \<Longrightarrow> e \<le> f"
proof -
  from assms have parts: "distinct (map fst (D @ Q))" "V = fst ` set (D @ Q)"
      "sorted (map snd (D @ Q))" "S \<subseteq> V"
    and dist: "\<And>x d k. (x, d) \<in> set (D @ Q) \<Longrightarrow> at_distance E S d x \<and> (\<forall>k < d. expands k)"
    and closed: "\<And>x d y. (x, d) \<in> set D \<Longrightarrow> expands d \<Longrightarrow> (x, y) \<in> E \<Longrightarrow> y \<in> V"
    and span: "\<And>x d y e. (x, d) \<in> set Q \<Longrightarrow> (y, e) \<in> set (D @ Q) \<Longrightarrow> e \<le> Suc d"
    unfolding layered_def by iprover+
  show "y \<in> V \<longleftrightarrow> (\<exists>e. (y, e) \<in> set (D @ Q))" unfolding parts(2) by force
  show "distinct (map fst (D @ Q))" "S \<subseteq> V" "sorted (map snd (D @ Q))" by (fact parts)+
  show "at_distance E S e y" if "(y, e) \<in> set (D @ Q)" using dist [OF that] by simp
  show "expands k" if "(y, e) \<in> set (D @ Q)" "k < e" using dist [OF that(1)] that(2) by simp
  show "z \<in> V" if "(y, e) \<in> set D" "expands e" "(y, z) \<in> E" using that by (rule closed)
  show "f \<le> Suc e" if "(y, e) \<in> set Q" "(z, f) \<in> set (D @ Q)" using that by (rule span)
  show "e \<le> f" if "(y, e) \<in> set D" "(z, f) \<in> set Q"
  proof -
    have "sorted (map snd D @ map snd Q)" using parts(3) by simp
    moreover have "e \<in> set (map snd D)" "f \<in> set (map snd Q)" using that by force+
    ultimately show ?thesis unfolding sorted_append by blast
  qed
qed

lemma layered_visited:
  assumes inv: "layered E S expands D V Q" and "at_distance E S k y" and "\<forall>j < k. expands j"
    and "\<forall>(x, d) \<in> set Q. k \<le> d"
  shows "y \<in> V"
  using assms(2-4)
proof (induction k arbitrary: y)
  case 0
  then have "y \<in> S" by (simp add: at_distance_def)
  with layeredD(3) [OF inv] show ?case by blast
next
  case (Suc k)
  from at_distance_pred [OF Suc.prems(1)] obtain x where dist: "at_distance E S k x" and x: "(x, y) \<in> E" by blast
  have "x \<in> V"
    using Suc.prems(2,3) by (intro Suc.IH [OF dist]) (auto dest: Suc_leD)
  then obtain d where d: "(x, d) \<in> set (D @ Q)" using layeredD(1) [OF inv] by blast
  then have "at_distance E S d x" by (rule layeredD(4) [OF inv])
  with dist have "d = k" by (rule at_distance_unique [symmetric])
  with d Suc.prems(3) have "(x, k) \<in> set D" by auto
  with Suc.prems(2) x show ?case using layeredD(7) [OF inv] by blast
qed

lemma layered_step:
  assumes inv: "layered E S expands D V ((x, d) # Q)" and succs: "\<And>y. (x, y) \<in> E \<longleftrightarrow> y \<in> set (succs x)"
  defines "new \<equiv> discovered succs expands V x d"
  shows "layered E S expands (D @ [(x, d)]) (V \<union> set new) (Q @ map (\<lambda>y. (y, Suc d)) new)"
proof -
  have dist: "at_distance E S d x" using layeredD(4) [OF inv] by simp
  have deeper: "\<forall>k < d. expands k" using layeredD(5) [OF inv] by fastforce
  have below: "e \<le> d" if "(z, e) \<in> set D" for z e
    using layeredD(9) [OF inv that] by fastforce
  have sorted: "sorted (map snd (D @ (x, d) # Q))" by (rule layeredD(6) [OF inv])
  then have "sorted (d # map snd Q)" by (simp add: sorted_append)
  then have above: "d \<le> e \<and> e \<le> Suc d" if "(z, e) \<in> set Q" for z e
    using that layeredD(8) [OF inv, of x d z e] by force
  have set_new: "set new = (if expands d then set (succs x) - V else {})"
    unfolding new_def by (rule set_discovered)
  then have fresh_new: "y \<notin> V" "(x, y) \<in> E" "expands d" if "y \<in> set new" for y
    using that succs [of y] by (cases "expands d"; simp)+
  have new_dist: "at_distance E S (Suc d) y" if "y \<in> set new" for y
  proof -
    have "within E S (Suc d) y"
      using dist fresh_new [OF that] by (auto simp: at_distance_def within_Suc)
    moreover have "\<not> within E S k y" if "k < Suc d" for k
    proof
      assume "within E S k y"
      from within_at_distance [OF this] obtain j where j: "j \<le> k" "at_distance E S j y" by (elim exE conjE)
      from j(2) have "y \<in> V"
      proof (rule layered_visited [OF inv])
        show "\<forall>i < j. expands i" using deeper j(1) that by simp
        show "\<forall>(z, e) \<in> set ((x, d) # Q). j \<le> e" using above j(1) that by fastforce
      qed
      with fresh_new(1) [OF \<open>y \<in> set new\<close>] show False by contradiction
    qed
    ultimately show ?thesis by (simp add: at_distance_def)
  qed
  let ?layer = "map (\<lambda>y. (y, Suc d)) new"
  have "distinct new" by (simp add: new_def distinct_discovered)
  moreover have "set new \<inter> fst ` set (D @ (x, d) # Q) = {}"
    using fresh_new(1) layeredD(1) [OF inv] by fastforce
  ultimately have "distinct (map fst (D @ (x, d) # Q) @ map fst ?layer)"
    using layeredD(2) [OF inv] by (simp only: distinct_append map_map comp_def fst_conv map_ident) auto
  then have "distinct (map fst ((D @ [(x, d)]) @ Q @ ?layer))" by simp
  moreover have "V \<union> set new = fst ` set ((D @ [(x, d)]) @ Q @ ?layer)"
    using layeredD(1) [OF inv] by force
  moreover have "at_distance E S e z \<and> (\<forall>k < e. expands k)" if "(z, e) \<in> set ((D @ [(x, d)]) @ Q @ ?layer)" for z e
  proof (cases "(z, e) \<in> set ?layer")
    case True
    with new_dist fresh_new(3) deeper show ?thesis by (auto simp: less_Suc_eq)
  next
    case False
    with that have "(z, e) \<in> set (D @ (x, d) # Q)" by auto
    then show ?thesis using layeredD(4,5) [OF inv] by blast
  qed
  moreover have "sorted (map snd ((D @ [(x, d)]) @ Q @ ?layer))"
  proof -
    have "sorted (map snd ?layer)" by (simp add: comp_def sorted_iff_nth_mono)
    then have "sorted (map snd (D @ (x, d) # Q) @ map snd ?layer)"
      using sorted below above by (subst sorted_append) (fastforce)
    then show ?thesis by simp
  qed
  moreover have "y \<in> V \<union> set new" if "(z, e) \<in> set (D @ [(x, d)])" "expands e" "(z, y) \<in> E" for z e y
    using that layeredD(7) [OF inv, of z e y] succs [of y] set_new by auto
  moreover have "f \<le> Suc e" if "(y, e) \<in> set (Q @ ?layer)" "(z, f) \<in> set ((D @ [(x, d)]) @ Q @ ?layer)" for y e z f
  proof -
    have "d \<le> e" using that(1) above by auto
    moreover have "f \<le> Suc d" using that(2) below [of z f] above [of z f] by auto
    ultimately show ?thesis by linarith
  qed
  moreover have "S \<subseteq> V \<union> set new" using layeredD(3) [OF inv] by blast
  ultimately show ?thesis unfolding layered_def by (intro conjI allI impI) iprover+
qed

lemma layered_start:
  assumes "distinct seeds"
  shows "layered E (set seeds) expands [] (set seeds) (map (\<lambda>s. (s, 0)) seeds)"
  using assms unfolding layered_def
  by (auto simp: comp_def at_distance_def sorted_iff_nth_mono image_image)

lemma layered_length:
  assumes "layered E S expands D V Q" and "V \<subseteq> C" and "finite C"
  shows "length D + length Q \<le> card C"
proof -
  have "length (map fst (D @ Q)) = card (set (map fst (D @ Q)))"
    using layeredD(2) [OF assms(1)] by (rule distinct_card [symmetric])
  also have "set (map fst (D @ Q)) \<subseteq> C" using layeredD(1) [OF assms(1)] assms(2) by fastforce
  then have "card (set (map fst (D @ Q))) \<le> card C" by (rule card_mono [OF assms(3)])
  finally show ?thesis by simp
qed

lemma layers_complete:
  assumes "layered E S expands D V Q" and "V \<subseteq> C" and "finite C" and "card C \<le> length D + fuel"
    and succs: "\<And>x y. x \<in> C \<Longrightarrow> (x, y) \<in> E \<longleftrightarrow> y \<in> set (succs x)" and closed: "\<And>x y. x \<in> C \<Longrightarrow> (x, y) \<in> E \<Longrightarrow> y \<in> C"
  shows "\<exists>W. layered E S expands (D @ layers succs expands fuel V Q) W []"
  using assms(1-4)
proof (induction fuel arbitrary: D V Q)
  case 0
  with layered_length [OF 0(1-3)] have "length Q = 0" by linarith
  then have "Q = []" by simp
  with 0 show ?case by auto
next
  case (Suc fuel)
  show ?case
  proof (cases Q)
    case Nil
    with Suc.prems show ?thesis by auto
  next
    case (Cons q Q')
    obtain x d where q: "q = (x, d)" by (cases q)
    let ?new = "discovered succs expands V x d"
    have x: "x \<in> C" using Suc.prems(1,2) layeredD(1) [OF Suc.prems(1), of x] by (auto simp: Cons q)
    note step = layered_step [OF Suc.prems(1) [unfolded Cons q], of succs, OF succs [OF x]]
    have "set ?new \<subseteq> C" using succs [OF x] closed [OF x] by (auto simp: set_discovered split: if_splits)
    with Suc.prems(2) have "V \<union> set ?new \<subseteq> C" by blast
    from Suc.IH [OF step this] Suc.prems(3,4) show ?thesis by (simp add: Cons q)
  qed
qed

lemma layered_final:
  assumes "layered E S expands R V []"
  shows "(x, d) \<in> set R \<longleftrightarrow> at_distance E S d x \<and> (\<forall>k < d. expands k)"
proof
  assume "(x, d) \<in> set R"
  with layeredD(4,5) [OF assms, of x d] show "at_distance E S d x \<and> (\<forall>k < d. expands k)" by simp
next
  assume dist: "at_distance E S d x \<and> (\<forall>k < d. expands k)"
  with layered_visited [OF assms, of d x] have "x \<in> V" by simp
  then obtain e where e: "(x, e) \<in> set R" using layeredD(1) [OF assms] by auto
  with layeredD(4) [OF assms, of x e] dist have "e = d" using at_distance_unique [of E S d x e] by simp
  with e show "(x, d) \<in> set R" by simp
qed

text \<open>
  The reference traversal from distinct seeds lists, once each and by distance, exactly the elements
  whose distance is reached through expanded depths.
\<close>

lemma layers_correct:
  fixes expands :: "nat \<Rightarrow> bool"
  assumes "distinct seeds" and "set seeds \<subseteq> C" and "finite C" and "card C \<le> fuel"
    and "\<And>x y. x \<in> C \<Longrightarrow> (x, y) \<in> E \<longleftrightarrow> y \<in> set (succs x)" and "\<And>x y. x \<in> C \<Longrightarrow> (x, y) \<in> E \<Longrightarrow> y \<in> C"
  defines "R \<equiv> layers succs expands fuel (set seeds) (map (\<lambda>s. (s, 0)) seeds)"
  shows "distinct (map fst R)" and "sorted (map snd R)"
    and "(x, d) \<in> set R \<longleftrightarrow> at_distance E (set seeds) d x \<and> (\<forall>k < d. expands k)"
proof -
  have "card C \<le> length [] + fuel" using assms(4) by simp
  with layered_start [OF assms(1)] assms(2,3)
  have "\<exists>W. layered E (set seeds) expands ([] @ R) W []"
    unfolding R_def by (rule layers_complete) (use assms(5,6) in blast)+
  then obtain W where W: "layered E (set seeds) expands R W []" by auto
  from layeredD(2,6) [OF W] show "distinct (map fst R)" "sorted (map snd R)" by simp_all
  show "(x, d) \<in> set R \<longleftrightarrow> at_distance E (set seeds) d x \<and> (\<forall>k < d. expands k)"
    by (rule layered_final [OF W])
qed

lemma layers_take: "take k (layers succs expands (k + n) V Q) = layers succs expands k V Q"
proof (induction k arbitrary: V Q)
  case (Suc k)
  then show ?case by (auto split: list.splits)
qed simp

lemma layers_enough:
  assumes "distinct seeds" and "set seeds \<subseteq> C" and "finite C" and "card C \<le> n"
    and "\<And>x y. x \<in> C \<Longrightarrow> (x, y) \<in> E \<longleftrightarrow> y \<in> set (succs x)" and "\<And>x y. x \<in> C \<Longrightarrow> (x, y) \<in> E \<Longrightarrow> y \<in> C"
  shows "layers succs expands k (set seeds) (map (\<lambda>s. (s, 0)) seeds) =
    take k (layers succs expands n (set seeds) (map (\<lambda>s. (s, 0)) seeds))"
proof (cases "k \<le> n")
  case True
  with layers_take [of k succs expands "n - k" "set seeds" "map (\<lambda>s. (s, 0)) seeds"] show ?thesis by simp
next
  case False
  let ?L = "\<lambda>n. layers succs expands n (set seeds) (map (\<lambda>s. (s, 0)) seeds)"
  from False assms(4) have big: "card C \<le> k" by simp
  have "length (?L k) \<le> n"
  proof -
    have within: "x \<in> C" if "within E (set seeds) d x" for x d
      using that assms(2,6) by (induction d arbitrary: x) (auto simp: within_Suc)
    have "fst ` set (?L k) \<subseteq> C"
      using layers_correct(3) [OF assms(1,2,3) big assms(5,6), where expands = expands] within
      by (auto simp: at_distance_def)
    then have "card (set (map fst (?L k))) \<le> card C" by (simp add: card_mono assms(3))
    moreover have "card (set (map fst (?L k))) = length (?L k)"
      using distinct_card [OF layers_correct(1) [OF assms(1,2,3) big assms(5,6), where expands = expands]] by simp
    ultimately show ?thesis using assms(4) by simp
  qed
  then have "take n (?L k) = ?L k" by simp
  moreover have "take n (?L k) = ?L n" using layers_take [of n succs expands "k - n"] False by simp
  ultimately show ?thesis using False \<open>length (?L k) \<le> n\<close> by simp
qed

lemma at_distance_exists:
  "(\<exists>d. at_distance E S d x) \<longleftrightarrow> (\<exists>s \<in> S. (s, x) \<in> E\<^sup>*)"
  unfolding within_reachable [symmetric] using within_at_distance [of E S _ x]
  by (auto simp: at_distance_def)

text \<open>A distance is smaller than the number of elements around.\<close>

lemma at_distance_between:
  assumes "at_distance E S d x" and "k \<le> d"
  shows "\<exists>y. at_distance E S k y"
  using assms
proof (induction "d - k" arbitrary: k)
  case 0
  then show ?case by auto
next
  case (Suc n)
  then have "d - Suc k = n" "Suc k \<le> d" by simp_all
  from Suc.hyps(1) [OF this(1) [symmetric] Suc.prems(1) this(2)] obtain z where "at_distance E S (Suc k) z" by (elim exE)
  from at_distance_pred [OF this] show ?case by (elim exE conjE) (rule exI)
qed

lemma at_distance_card:
  assumes "at_distance E S d x" and "finite C" and "\<And>y k. within E S k y \<Longrightarrow> y \<in> C"
  shows "d < card C"
proof -
  define f where "f k = (SOME y. at_distance E S k y)" for k
  have f: "at_distance E S k (f k)" if "k \<le> d" for k
    unfolding f_def using at_distance_between [OF assms(1) that] by (rule someI_ex)
  then have "inj_on f {..d}" by (intro inj_onI) (metis at_distance_unique atMost_iff)
  moreover have "f ` {..d} \<subseteq> C" using f assms(3) by (auto simp: at_distance_def)
  ultimately have "card {..d} \<le> card C" using assms(2) by (rule card_inj_on_le)
  then show ?thesis by simp
qed

end
