(* ===== verification/Bfs.thy ===== *)
theory Bfs
  imports Topology Layers
begin

text \<open>
  Breadth-first search: \<open>crates/oxgraph-algo/src/bfs/core.rs\<close> and the entry points of \<open>scratch.rs\<close>, \<open>epoch.rs\<close>,
  \<open>workspace.rs\<close>, \<open>indexed.rs\<close> and \<open>generic_set.rs\<close> beside it. A storage policy is a record of its two
  methods; the direction is an argument. Forward and reverse entry points differ in it alone.
\<close>

section \<open>Validation\<close>

datatype bfs_error =
    StartElementNotContained
  | VisitedTooSmall nat nat \<comment> \<open>needed, actual\<close>
  | QueueTooSmall nat nat \<comment> \<open>needed, actual\<close>
  | StartIndexOutOfBounds nat nat \<comment> \<open>index, bound\<close>
  | NeighborIndexOutOfBounds nat nat \<comment> \<open>index, bound\<close>

text \<open>The witnesses: the start index and the bound.\<close>

definition validated_start_new :: "'n topology_view \<Rightarrow> 'n \<Rightarrow> (bfs_error, nat \<times> nat) run" where
  "validated_start_new g start =
     (let bound = element_bound g in
      if \<not> contains_element g start then Some (Err StartElementNotContained)
      else
        run_then (reading (element_index g start)) (\<lambda>start_index.
          if start_index \<ge> bound then Some (Err (StartIndexOutOfBounds start_index bound))
          else Some (Ok (start_index, bound))))"

definition validated_scratch_new ::
    "'n topology_view \<Rightarrow> 'n \<Rightarrow> nat \<Rightarrow> nat \<Rightarrow> (bfs_error, nat \<times> nat) run" where
  "validated_scratch_new g start visited_len queue_len =
     (let bound = element_bound g in
      if visited_len < bound then Some (Err (VisitedTooSmall bound visited_len))
      else if queue_len < bound then Some (Err (QueueTooSmall bound queue_len))
      else if \<not> contains_element g start then Some (Err StartElementNotContained)
      else
        run_then (reading (element_index g start)) (\<lambda>start_index.
          if start_index \<ge> bound then Some (Err (StartIndexOutOfBounds start_index bound))
          else Some (Ok (start_index, bound))))"

section \<open>The traversal loop\<close>

text \<open>\<open>BfsStep\<close>: \<open>None\<close> is a panic.\<close>

record ('s, 'n) bfs_step =
  step_pop :: "'s \<Rightarrow> ('n option \<times> 's) option"
  step_visit :: "'n topology_view \<Rightarrow> 's \<Rightarrow> 'n \<Rightarrow> 's option"

fun visit_targets :: "('s, 'n) bfs_step \<Rightarrow> 'n topology_view \<Rightarrow> 's \<Rightarrow> 'n list \<Rightarrow> 's option" where
  "visit_targets step g s [] = Some s"
| "visit_targets step g s (t # ts) = Option.bind (step_visit step g s t) (\<lambda>s. visit_targets step g s ts)"

definition bfs_next ::
    "('s, 'n) bfs_step \<Rightarrow> direction \<Rightarrow> 'n topology_view \<Rightarrow> 's \<Rightarrow> ('n option \<times> 's) option" where
  "bfs_next step dir g s =
     Option.bind (step_pop step s) (\<lambda>(popped, s).
       case popped of
         None \<Rightarrow> Some (None, s)
       | Some element \<Rightarrow>
           Option.bind (expand dir g element) (\<lambda>targets.
             map_option (Pair (Some element)) (visit_targets step g s targets)))"

text \<open>Up to \<open>k\<close> calls of \<open>next\<close>: the elements yielded and the state left behind.\<close>

primrec bfs_take ::
    "('s, 'n) bfs_step \<Rightarrow> direction \<Rightarrow> 'n topology_view \<Rightarrow> nat \<Rightarrow> 's \<Rightarrow> ('n list \<times> 's) option" where
  "bfs_take step dir g 0 s = Some ([], s)"
| "bfs_take step dir g (Suc k) s =
     Option.bind (bfs_next step dir g s) (\<lambda>(yielded, s).
       case yielded of
         None \<Rightarrow> Some ([], s)
       | Some element \<Rightarrow> map_option (apfst (Cons element)) (bfs_take step dir g k s))"

section \<open>Storage policies\<close>

text \<open>Byte flags in a caller's slices. Cursors stay below the queue's length once an access succeeded.\<close>

record 'n byte_flag_frontier =
  bf_visited :: "u8 list"
  bf_queue :: "'n list"
  bf_head :: nat
  bf_tail :: nat

definition byte_flag_new :: "u8 list \<Rightarrow> 'n list \<Rightarrow> 'n \<Rightarrow> nat \<times> nat \<Rightarrow> 'n byte_flag_frontier option" where
  "byte_flag_new visited queue start witness =
     (case witness of (start_index, bound) \<Rightarrow>
        Option.bind (copy_or_panic visited 0 (replicate bound 0)) (\<lambda>visited.
        Option.bind (store_or_panic visited start_index 1) (\<lambda>visited.
        Option.bind (store_or_panic queue 0 start) (\<lambda>queue.
          Some \<lparr>bf_visited = visited, bf_queue = queue, bf_head = 0, bf_tail = 1\<rparr>))))"

definition byte_flag_pop :: "'n byte_flag_frontier \<Rightarrow> ('n option \<times> 'n byte_flag_frontier) option" where
  "byte_flag_pop s =
     (if bf_head s = bf_tail s then Some (None, s)
      else Option.bind (index_or_panic (bf_queue s) (bf_head s)) (\<lambda>element.
        Some (Some element, s\<lparr>bf_head := bf_head s + 1\<rparr>)))"

text \<open>A target outside the visited storage panics through \<open>neighbor_oob\<close>.\<close>

definition byte_flag_visit :: "'n topology_view \<Rightarrow> 'n byte_flag_frontier \<Rightarrow> 'n \<Rightarrow> 'n byte_flag_frontier option" where
  "byte_flag_visit g s target =
     Option.bind (element_index g target) (\<lambda>target_index.
     Option.bind (index_or_panic (bf_visited s) target_index) (\<lambda>flag.
       if flag = 0 then
         Option.bind (store_or_panic (bf_queue s) (bf_tail s) target) (\<lambda>queue.
           Some (s\<lparr>bf_visited := (bf_visited s)[target_index := 1], bf_queue := queue, bf_tail := bf_tail s + 1\<rparr>))
       else Some s))"

definition byte_flag_step :: "('n byte_flag_frontier, 'n) bfs_step" where
  "byte_flag_step = \<lparr>step_pop = byte_flag_pop, step_visit = byte_flag_visit\<rparr>"

text \<open>Epoch marks in a caller's slices.\<close>

record 'n epoch_frontier =
  ef_marks :: "u32 list"
  ef_queue :: "'n list"
  ef_epoch :: u32
  ef_head :: nat
  ef_tail :: nat

definition epoch_new :: "u32 list \<Rightarrow> 'n list \<Rightarrow> u32 \<Rightarrow> 'n \<Rightarrow> nat \<times> nat \<Rightarrow> 'n epoch_frontier option" where
  "epoch_new marks queue epoch start witness =
     (case witness of (start_index, _) \<Rightarrow>
        Option.bind (store_or_panic marks start_index epoch) (\<lambda>marks.
        Option.bind (store_or_panic queue 0 start) (\<lambda>queue.
          Some \<lparr>ef_marks = marks, ef_queue = queue, ef_epoch = epoch, ef_head = 0, ef_tail = 1\<rparr>)))"

definition epoch_pop :: "'n epoch_frontier \<Rightarrow> ('n option \<times> 'n epoch_frontier) option" where
  "epoch_pop s =
     (if ef_head s = ef_tail s then Some (None, s)
      else Option.bind (index_or_panic (ef_queue s) (ef_head s)) (\<lambda>element.
        Some (Some element, s\<lparr>ef_head := ef_head s + 1\<rparr>)))"

definition epoch_visit :: "'n topology_view \<Rightarrow> 'n epoch_frontier \<Rightarrow> 'n \<Rightarrow> 'n epoch_frontier option" where
  "epoch_visit g s target =
     Option.bind (element_index g target) (\<lambda>target_index.
     Option.bind (index_or_panic (ef_marks s) target_index) (\<lambda>mark.
       if mark \<noteq> ef_epoch s then
         Option.bind (store_or_panic (ef_queue s) (ef_tail s) target) (\<lambda>queue.
           Some (s\<lparr>ef_marks := (ef_marks s)[target_index := ef_epoch s], ef_queue := queue, ef_tail := ef_tail s + 1\<rparr>))
       else Some s))"

definition epoch_step :: "('n epoch_frontier, 'n) bfs_step" where
  "epoch_step = \<lparr>step_pop = epoch_pop, step_visit = epoch_visit\<rparr>"

text \<open>Epoch marks of a reusable workspace with a growing queue.\<close>

record 'n workspace_frontier =
  wf_marks :: "u32 list"
  wf_queue :: "'n list"
  wf_epoch :: u32
  wf_head :: nat

definition workspace_new :: "u32 list \<Rightarrow> u32 \<Rightarrow> 'n \<Rightarrow> nat \<times> nat \<Rightarrow> 'n workspace_frontier option" where
  "workspace_new marks epoch start witness =
     (case witness of (start_index, _) \<Rightarrow>
        Option.bind (store_or_panic marks start_index epoch) (\<lambda>marks.
          Some \<lparr>wf_marks = marks, wf_queue = [start], wf_epoch = epoch, wf_head = 0\<rparr>))"

definition workspace_pop :: "'n workspace_frontier \<Rightarrow> ('n option \<times> 'n workspace_frontier) option" where
  "workspace_pop s =
     (if wf_head s < length (wf_queue s) then Some (Some (wf_queue s ! wf_head s), s\<lparr>wf_head := wf_head s + 1\<rparr>)
      else Some (None, s))"

definition workspace_visit :: "'n topology_view \<Rightarrow> 'n workspace_frontier \<Rightarrow> 'n \<Rightarrow> 'n workspace_frontier option" where
  "workspace_visit g s target =
     Option.bind (element_index g target) (\<lambda>target_index.
     Option.bind (index_or_panic (wf_marks s) target_index) (\<lambda>mark.
       if mark \<noteq> wf_epoch s then
         Some (s\<lparr>wf_marks := (wf_marks s)[target_index := wf_epoch s], wf_queue := wf_queue s @ [target]\<rparr>)
       else Some s))"

definition workspace_step :: "('n workspace_frontier, 'n) bfs_step" where
  "workspace_step = \<lparr>step_pop = workspace_pop, step_visit = workspace_visit\<rparr>"

text \<open>Owned byte flags and queue.\<close>

record 'n owned_frontier =
  of_visited :: "u8 list"
  of_queue :: "'n list"
  of_head :: nat

definition owned_new :: "'n \<Rightarrow> nat \<times> nat \<Rightarrow> 'n owned_frontier option" where
  "owned_new start witness =
     (case witness of (start_index, bound) \<Rightarrow>
        Option.bind (store_or_panic (replicate bound 0) start_index 1) (\<lambda>visited.
          Some \<lparr>of_visited = visited, of_queue = [start], of_head = 0\<rparr>))"

definition owned_pop :: "'n owned_frontier \<Rightarrow> ('n option \<times> 'n owned_frontier) option" where
  "owned_pop s =
     (if of_head s < length (of_queue s) then Some (Some (of_queue s ! of_head s), s\<lparr>of_head := of_head s + 1\<rparr>)
      else Some (None, s))"

definition owned_visit :: "'n topology_view \<Rightarrow> 'n owned_frontier \<Rightarrow> 'n \<Rightarrow> 'n owned_frontier option" where
  "owned_visit g s target =
     Option.bind (element_index g target) (\<lambda>target_index.
     Option.bind (index_or_panic (of_visited s) target_index) (\<lambda>flag.
       if flag = 0 then
         Some (s\<lparr>of_visited := (of_visited s)[target_index := 1], of_queue := of_queue s @ [target]\<rparr>)
       else Some s))"

definition owned_step :: "('n owned_frontier, 'n) bfs_step" where
  "owned_step = \<lparr>step_pop = owned_pop, step_visit = owned_visit\<rparr>"

text \<open>A deque with a set of the elements themselves; \<open>insert\<close> reports whether the element is new.\<close>

record 'n generic_state =
  gs_queue :: "'n list"
  gs_visited :: "'n set"

definition visited_insert :: "'n set \<Rightarrow> 'n \<Rightarrow> bool \<times> 'n set" where
  "visited_insert visited value = (value \<notin> visited, insert value visited)"

definition generic_new :: "'n \<Rightarrow> 'n generic_state" where
  "generic_new start = \<lparr>gs_queue = [start], gs_visited = snd (visited_insert {} start)\<rparr>"

definition generic_pop :: "'n generic_state \<Rightarrow> ('n option \<times> 'n generic_state) option" where
  "generic_pop s =
     (case gs_queue s of
        [] \<Rightarrow> Some (None, s)
      | element # rest \<Rightarrow> Some (Some element, s\<lparr>gs_queue := rest\<rparr>))"

definition generic_visit :: "'n topology_view \<Rightarrow> 'n generic_state \<Rightarrow> 'n \<Rightarrow> 'n generic_state option" where
  "generic_visit g s target =
     (let (added, visited) = visited_insert (gs_visited s) target; s = s\<lparr>gs_visited := visited\<rparr>
      in Some (if added then s\<lparr>gs_queue := gs_queue s @ [target]\<rparr> else s))"

definition generic_step :: "('n generic_state, 'n) bfs_step" where
  "generic_step = \<lparr>step_pop = generic_pop, step_visit = generic_visit\<rparr>"

section \<open>Epochs, scratch and workspace\<close>

text \<open>\<open>EpochCounter::advance\<close>: the new epoch and the marks, cleared when the counter wraps.\<close>

definition epoch_advance :: "u32 \<Rightarrow> u32 list \<Rightarrow> u32 \<times> u32 list" where
  "epoch_advance epoch marks =
     (if epoch = - 1 then (1, replicate (length marks) 0) else (epoch + 1, marks))"

record 'n epoch_scratch =
  es_marks :: "u32 list"
  es_queue :: "'n list"
  es_epoch :: u32

definition epoch_scratch_new :: "u32 list \<Rightarrow> 'n list \<Rightarrow> 'n epoch_scratch" where
  "epoch_scratch_new marks queue =
     \<lparr>es_marks = replicate (length marks) 0, es_queue = queue, es_epoch = 0\<rparr>"

record 'n bfs_workspace =
  ws_marks :: "u32 list"
  ws_queue :: "'n list"
  ws_epoch :: u32

definition workspace_empty :: "'n bfs_workspace" where
  "workspace_empty = \<lparr>ws_marks = [], ws_queue = [], ws_epoch = 0\<rparr>"

definition workspace_with_element_bound :: "nat \<Rightarrow> 'n bfs_workspace" where
  "workspace_with_element_bound bound = \<lparr>ws_marks = replicate bound 0, ws_queue = [], ws_epoch = 0\<rparr>"

text \<open>Growing keeps the marks and appends zeros; reserved capacity is not modelled.\<close>

definition ensure_element_bound :: "'n bfs_workspace \<Rightarrow> nat \<Rightarrow> 'n bfs_workspace" where
  "ensure_element_bound w bound =
     (if length (ws_marks w) < bound
      then w\<lparr>ws_marks := ws_marks w @ replicate (bound - length (ws_marks w)) 0\<rparr> else w)"

section \<open>Entry points\<close>

definition breadth_first_search_with_scratch ::
    "'n topology_view \<Rightarrow> 'n \<Rightarrow> u8 list \<Rightarrow> 'n list \<Rightarrow> (bfs_error, 'n byte_flag_frontier) run" where
  "breadth_first_search_with_scratch g start visited queue =
     run_then (validated_scratch_new g start (length visited) (length queue)) (\<lambda>witness.
       reading (byte_flag_new visited queue start witness))"

text \<open>The traversal borrows the scratch; the pair is the traversal and the scratch's new epoch.\<close>

definition breadth_first_search_with_epoch_scratch ::
    "'n topology_view \<Rightarrow> 'n \<Rightarrow> 'n epoch_scratch \<Rightarrow> (bfs_error, 'n epoch_frontier \<times> 'n epoch_scratch) run" where
  "breadth_first_search_with_epoch_scratch g start scratch =
     run_then (validated_scratch_new g start (length (es_marks scratch)) (length (es_queue scratch))) (\<lambda>witness.
       let (epoch, marks) = epoch_advance (es_epoch scratch) (es_marks scratch) in
       run_then (reading (epoch_new marks (es_queue scratch) epoch start witness)) (\<lambda>frontier.
         Some (Ok (frontier, scratch\<lparr>es_marks := marks, es_epoch := epoch\<rparr>))))"

text \<open>When the borrow ends the scratch holds what the traversal wrote.\<close>

definition epoch_scratch_release :: "'n epoch_frontier \<Rightarrow> 'n epoch_scratch \<Rightarrow> 'n epoch_scratch" where
  "epoch_scratch_release frontier scratch =
     scratch\<lparr>es_marks := ef_marks frontier, es_queue := ef_queue frontier\<rparr>"

definition breadth_first_search_with_workspace ::
    "'n topology_view \<Rightarrow> 'n \<Rightarrow> 'n bfs_workspace \<Rightarrow> (bfs_error, 'n workspace_frontier \<times> 'n bfs_workspace) run" where
  "breadth_first_search_with_workspace g start workspace =
     run_then (validated_start_new g start) (\<lambda>witness.
       let workspace = ensure_element_bound workspace (snd witness);
           (epoch, marks) = epoch_advance (ws_epoch workspace) (ws_marks workspace) in
       run_then (reading (workspace_new marks epoch start witness)) (\<lambda>frontier.
         Some (Ok (frontier, workspace\<lparr>ws_marks := marks, ws_epoch := epoch\<rparr>))))"

definition workspace_release :: "'n workspace_frontier \<Rightarrow> 'n bfs_workspace \<Rightarrow> 'n bfs_workspace" where
  "workspace_release frontier workspace =
     workspace\<lparr>ws_marks := wf_marks frontier, ws_queue := wf_queue frontier\<rparr>"

definition breadth_first_search :: "'n topology_view \<Rightarrow> 'n \<Rightarrow> (bfs_error, 'n owned_frontier) run" where
  "breadth_first_search g start =
     run_then (validated_start_new g start) (\<lambda>witness. reading (owned_new start witness))"

definition breadth_first_search_generic :: "'n \<Rightarrow> 'n generic_state" where
  "breadth_first_search_generic start = generic_new start"

section \<open>Refinement of the reference traversal\<close>

text \<open>The neighbors of a contained element, and the order the reference traversal yields.\<close>

definition neighbors :: "direction \<Rightarrow> 'n topology_view \<Rightarrow> 'n \<Rightarrow> 'n list" where
  "neighbors dir g x = (case expand dir g x of Some ys \<Rightarrow> ys | None \<Rightarrow> [])"

definition bfs_order :: "direction \<Rightarrow> 'n topology_view \<Rightarrow> 'n \<Rightarrow> 'n list" where
  "bfs_order dir g start =
     map fst (layers (neighbors dir g) (\<lambda>_. True) (element_bound g) {start} [(start, 0)])"

lemma expand_neighbors:
  assumes "topology_ok dir g" and "contains_element g x"
  shows "expand dir g x = Some (neighbors dir g x)" and "y \<in> set (neighbors dir g x) \<Longrightarrow> contains_element g y"
    and "(x, y) \<in> steps dir g \<longleftrightarrow> y \<in> set (neighbors dir g x)"
proof -
  from topology_ok_expand [OF assms] obtain ys where
    ys: "expand dir g x = Some ys" "\<forall>y \<in> set ys. contains_element g y" by blast
  then have eq: "neighbors dir g x = ys" by (simp add: neighbors_def)
  show "expand dir g x = Some (neighbors dir g x)" and "y \<in> set (neighbors dir g x) \<Longrightarrow> contains_element g y"
    and "(x, y) \<in> steps dir g \<longleftrightarrow> y \<in> set (neighbors dir g x)"
    unfolding eq using ys assms(2) by (simp_all add: steps_def)
qed

lemma bfs_order_layers:
  assumes ok: "topology_ok dir g" and start: "contains_element g start"
  shows "distinct (bfs_order dir g start)"
    and "set (bfs_order dir g start) = {x. (start, x) \<in> (steps dir g)\<^sup>*}"
    and "\<exists>depths. sorted depths \<and> length depths = length (bfs_order dir g start) \<and>
      (\<forall>i < length depths. at_distance (steps dir g) {start} (depths ! i) (bfs_order dir g start ! i))"
    and "map fst (layers (neighbors dir g) (\<lambda>_. True) k {start} [(start, 0)]) = take k (bfs_order dir g start)"
proof -
  let ?C = "{x. contains_element g x}" and ?R = "layers (neighbors dir g) (\<lambda>_. True) (element_bound g) {start} [(start, 0)]"
  have base: "distinct [start]" "set [start] \<subseteq> ?C" "finite ?C" "card ?C \<le> element_bound g"
    using start contained_finite [OF ok] by simp_all
  have succs: "(x, y) \<in> steps dir g \<longleftrightarrow> y \<in> set (neighbors dir g x)" if "x \<in> ?C" for x y
    using expand_neighbors(3) [OF ok] that by simp
  have closed: "y \<in> ?C" if "x \<in> ?C" "(x, y) \<in> steps dir g" for x y
    using steps_contained [OF ok that(2)] by simp
  have correct: "distinct (map fst ?R)" "sorted (map snd ?R)"
    "(x, d) \<in> set ?R \<longleftrightarrow> at_distance (steps dir g) {start} d x" for x d
    using layers_correct [OF base, where E = "steps dir g" and succs = "neighbors dir g" and expands = "\<lambda>_. True"] succs closed by simp_all
  show "distinct (bfs_order dir g start)" using correct(1) by (simp add: bfs_order_def)
  have "x \<in> fst ` set ?R \<longleftrightarrow> (\<exists>d. at_distance (steps dir g) {start} d x)" for x
    using correct(3) by force
  then show "set (bfs_order dir g start) = {x. (start, x) \<in> (steps dir g)\<^sup>*}"
    by (auto simp: bfs_order_def at_distance_exists)
  have "at_distance (steps dir g) {start} (map snd ?R ! i) (map fst ?R ! i)" if "i < length ?R" for i
    using correct(3) [of "fst (?R ! i)" "snd (?R ! i)"] that by simp
  then show "\<exists>depths. sorted depths \<and> length depths = length (bfs_order dir g start) \<and>
      (\<forall>i < length depths. at_distance (steps dir g) {start} (depths ! i) (bfs_order dir g start ! i))"
    using correct(2) by (intro exI [of _ "map snd ?R"]) (simp add: bfs_order_def)
  show "map fst (layers (neighbors dir g) (\<lambda>_. True) k {start} [(start, 0)]) = take k (bfs_order dir g start)"
    using layers_enough [OF base, where E = "steps dir g" and succs = "neighbors dir g" and expands = "\<lambda>_. True" and k = k] succs closed
    by (simp add: bfs_order_def take_map)
qed

text \<open>
  What the loop asks of a storage policy: its state stands for a set of visited elements and a
  frontier; popping takes the frontier's first element, visiting appends an element that is new.
\<close>

locale bfs_storage =
  fixes step :: "('s, 'n) bfs_step" and repr :: "'n topology_view \<Rightarrow> 's \<Rightarrow> 'n set \<Rightarrow> 'n list \<Rightarrow> bool"
  assumes pop_empty: "repr g s V [] \<Longrightarrow> step_pop step s = Some (None, s)"
    and pop_first: "repr g s V (x # Q) \<Longrightarrow> \<exists>s'. step_pop step s = Some (Some x, s') \<and> repr g s' V Q"
    and visit: "topology_ok dir g \<Longrightarrow> repr g s V Q \<Longrightarrow> contains_element g x \<Longrightarrow>
      \<exists>s'. step_visit step g s x = Some s' \<and> repr g s' (insert x V) (if x \<in> V then Q else Q @ [x])"
begin

lemma visit_all:
  assumes "topology_ok dir g" and "repr g s V Q" and "\<forall>x \<in> set xs. contains_element g x"
  shows "\<exists>s'. visit_targets step g s xs = Some s' \<and> repr g s' (V \<union> set xs) (Q @ fresh V xs)"
  using assms(2,3)
proof (induction xs arbitrary: s V Q)
  case Nil
  then show ?case by simp
next
  case (Cons x xs)
  from visit [OF assms(1) Cons.prems(1), of x] Cons.prems(2) obtain s1 where
    s1: "step_visit step g s x = Some s1" "repr g s1 (insert x V) (if x \<in> V then Q else Q @ [x])" by auto
  from Cons.IH [OF s1(2)] Cons.prems(2) obtain s2 where
    s2: "visit_targets step g s1 xs = Some s2"
      "repr g s2 (insert x V \<union> set xs) ((if x \<in> V then Q else Q @ [x]) @ fresh (insert x V) xs)" by auto
  have "(if x \<in> V then Q else Q @ [x]) @ fresh (insert x V) xs = Q @ fresh V (x # xs)"
    by (simp add: insert_absorb)
  with s1(1) s2 show ?case by simp
qed

lemma next_step:
  assumes ok: "topology_ok dir g" and r: "repr g s V (x # Q)" and x: "contains_element g x"
  shows "\<exists>s'. bfs_next step dir g s = Some (Some x, s') \<and>
    repr g s' (V \<union> set (fresh V (neighbors dir g x))) (Q @ fresh V (neighbors dir g x))"
proof -
  from pop_first [OF r] obtain s1 where s1: "step_pop step s = Some (Some x, s1)" "repr g s1 V Q" by blast
  from visit_all [OF ok s1(2), of "neighbors dir g x"] expand_neighbors(2) [OF ok x] obtain s2 where
    "visit_targets step g s1 (neighbors dir g x) = Some s2"
    "repr g s2 (V \<union> set (neighbors dir g x)) (Q @ fresh V (neighbors dir g x))" by auto
  then show ?thesis
    using s1(1) expand_neighbors(1) [OF ok x] by (simp add: bfs_next_def set_fresh)
qed

lemma take_refines:
  assumes "topology_ok dir g" and "repr g s V (map fst Q)" and "\<forall>x \<in> fst ` set Q. contains_element g x"
  shows "\<exists>s' V' Q'. bfs_take step dir g k s = Some (map fst (layers (neighbors dir g) (\<lambda>_. True) k V Q), s') \<and> repr g s' V' Q'"
  using assms(2,3)
proof (induction k arbitrary: s V Q)
  case 0
  then show ?case by auto
next
  case (Suc k)
  show ?case
  proof (cases Q)
    case Nil
    with Suc.prems(1) have "repr g s V []" by simp
    with pop_empty [OF this] show ?thesis by (auto simp: bfs_next_def Nil)
  next
    case (Cons q Q')
    obtain x d where q: "q = (x, d)" by (cases q)
    let ?new = "fresh V (neighbors dir g x)"
    have x: "contains_element g x" using Suc.prems(2) by (simp add: Cons q)
    from next_step [OF assms(1) _ x] Suc.prems(1) obtain s1 where
      s1: "bfs_next step dir g s = Some (Some x, s1)" "repr g s1 (V \<union> set ?new) (map fst (Q' @ map (\<lambda>y. (y, Suc d)) ?new))"
      by (force simp: Cons q comp_def)
    have "\<forall>y \<in> fst ` set (Q' @ map (\<lambda>y. (y, Suc d)) ?new). contains_element g y"
      using Suc.prems(2) expand_neighbors(2) [OF assms(1) x] by (auto simp: Cons q set_fresh)
    from Suc.IH [OF s1(2) this] obtain s2 V2 Q2 where
      "bfs_take step dir g k s1 = Some (map fst (layers (neighbors dir g) (\<lambda>_. True) k (V \<union> set ?new)
         (Q' @ map (\<lambda>y. (y, Suc d)) ?new)), s2)" "repr g s2 V2 Q2" by blast
    with s1(1) show ?thesis by (auto simp: Cons q discovered_def)
  qed
qed

lemma search_order:
  assumes "topology_ok dir g" and "contains_element g start" and "repr g s {start} [start]"
  shows "\<exists>s' V Q. bfs_take step dir g k s = Some (take k (bfs_order dir g start), s') \<and> repr g s' V Q"
  using take_refines [OF assms(1), of s "{start}" "[(start, 0)]" k] assms(2,3)
  by (simp add: bfs_order_layers(4) [OF assms(1,2)])

end

section \<open>The policies implement it\<close>

text \<open>Flags, one per index, that hold exactly of the visited elements; a queue with its two cursors.\<close>

definition marked :: "'n topology_view \<Rightarrow> bool list \<Rightarrow> 'n set \<Rightarrow> bool" where
  "marked g flags V \<longleftrightarrow> element_bound g \<le> length flags \<and>
     (\<forall>x i. contains_element g x \<longrightarrow> element_index g x = Some i \<longrightarrow> (flags ! i \<longleftrightarrow> x \<in> V))"

definition queued :: "'n topology_view \<Rightarrow> 'n list \<Rightarrow> nat \<Rightarrow> nat \<Rightarrow> 'n set \<Rightarrow> 'n list \<Rightarrow> bool" where
  "queued g queue head tail V Q \<longleftrightarrow> head \<le> tail \<and> tail \<le> length queue \<and> drop head (take tail queue) = Q \<and>
     distinct (take tail queue) \<and> set (take tail queue) = V \<and> (\<forall>x \<in> V. contains_element g x)"

lemma marked_visit:
  assumes "topology_ok dir g" and "marked g flags V" and "contains_element g x"
  obtains i where "element_index g x = Some i" and "i < length flags" and "flags ! i \<longleftrightarrow> x \<in> V"
    and "marked g (flags[i := True]) (insert x V)"
proof -
  from topology_ok_index [OF assms(1,3)] obtain i where i: "i < element_bound g" "element_index g x = Some i" by blast
  moreover from i assms(2,3) have len: "i < length flags" and flag: "flags ! i \<longleftrightarrow> x \<in> V" by (auto simp: marked_def)
  moreover have "marked g (flags[i := True]) (insert x V)"
    unfolding marked_def
  proof (intro conjI allI impI)
    fix y j
    assume y: "contains_element g y" "element_index g y = Some j"
    then have "j < length flags" "flags ! j \<longleftrightarrow> y \<in> V"
      using assms(2) topology_ok_index [OF assms(1), of y] by (auto simp: marked_def)
    moreover have "j = i \<longleftrightarrow> y = x" using topology_ok_distinct [OF assms(1) y(1) assms(3)] y(2) i(2) by auto
    ultimately show "flags[i := True] ! j \<longleftrightarrow> y \<in> insert x V" by (auto simp: nth_list_update)
  qed (use assms(2) in \<open>simp add: marked_def\<close>)
  ultimately show ?thesis using that by blast
qed

lemma queued_Nil: "queued g queue head tail V [] \<Longrightarrow> head = tail"
  by (auto simp: queued_def)

lemma queued_Cons:
  assumes "queued g queue head tail V (x # Q)"
  shows "head < tail" and "tail \<le> length queue" and "queue ! head = x" and "queued g queue (head + 1) tail V Q"
proof -
  from assms have cut: "drop head (take tail queue) = x # Q" and bounds: "head \<le> tail" "tail \<le> length queue"
    by (simp_all add: queued_def)
  from cut have "head < length (take tail queue)" by (metis drop_all list.distinct(1) not_le)
  then show head: "head < tail" and "tail \<le> length queue" using bounds by simp_all
  have "drop head (take tail queue) = take tail queue ! head # drop (Suc head) (take tail queue)"
    using Cons_nth_drop_Suc [of head "take tail queue"] head bounds by simp
  with cut head show "queue ! head = x" and "queued g queue (head + 1) tail V Q"
    using assms by (simp_all add: queued_def)
qed

lemma queued_store:
  assumes ok: "topology_ok dir g" and q: "queued g queue head tail V Q" and room: "element_bound g \<le> length queue"
    and x: "contains_element g x" "x \<notin> V"
  shows "tail < length queue" and "queued g (queue[tail := x]) head (tail + 1) (insert x V) (Q @ [x])"
proof -
  have "length (x # take tail queue) \<le> element_bound g"
    using q x by (intro contained_bound [OF ok]) (auto simp: queued_def)
  then show tail: "tail < length queue" using q room by (simp add: queued_def)
  then have "take (tail + 1) (queue[tail := x]) = take tail queue @ [x]"
    by (simp add: take_Suc_conv_app_nth)
  with q tail x show "queued g (queue[tail := x]) head (tail + 1) (insert x V) (Q @ [x])"
    unfolding queued_def by auto
qed

lemma queued_push:
  assumes "queued g queue head (length queue) V Q" and "contains_element g x" "x \<notin> V"
  shows "queued g (queue @ [x]) head (length (queue @ [x])) (insert x V) (Q @ [x])"
  using assms by (auto simp: queued_def)

definition byte_flag_repr :: "'n topology_view \<Rightarrow> 'n byte_flag_frontier \<Rightarrow> 'n set \<Rightarrow> 'n list \<Rightarrow> bool" where
  "byte_flag_repr g s V Q \<longleftrightarrow> marked g (map (\<lambda>f. f \<noteq> 0) (bf_visited s)) V \<and>
     element_bound g \<le> length (bf_queue s) \<and> queued g (bf_queue s) (bf_head s) (bf_tail s) V Q"

interpretation byte_flags: bfs_storage byte_flag_step byte_flag_repr
proof unfold_locales
  show "step_pop byte_flag_step s = Some (None, s)" if "byte_flag_repr g s V []" for g s V
    using that by (auto simp: byte_flag_repr_def byte_flag_step_def byte_flag_pop_def dest: queued_Nil)
  show "\<exists>s'. step_pop byte_flag_step s = Some (Some x, s') \<and> byte_flag_repr g s' V Q"
    if "byte_flag_repr g s V (x # Q)" for g s V x Q
    using that queued_Cons [of g "bf_queue s" "bf_head s" "bf_tail s" V x Q]
    by (auto simp: byte_flag_repr_def byte_flag_step_def byte_flag_pop_def)
  show "\<exists>s'. step_visit byte_flag_step g s x = Some s' \<and>
      byte_flag_repr g s' (insert x V) (if x \<in> V then Q else Q @ [x])"
    if ok: "topology_ok dir g" and r: "byte_flag_repr g s V Q" and x: "contains_element g x" for dir g s V Q x
  proof -
    from r have m: "marked g (map (\<lambda>f. f \<noteq> 0) (bf_visited s)) V" by (simp add: byte_flag_repr_def)
    from marked_visit [OF ok m x] obtain i where i: "element_index g x = Some i" "i < length (bf_visited s)"
      "bf_visited s ! i \<noteq> 0 \<longleftrightarrow> x \<in> V" "marked g (map (\<lambda>f. f \<noteq> 0) ((bf_visited s)[i := 1])) (insert x V)"
      by (auto simp: map_update)
    then show ?thesis
      using r queued_store [OF ok _ _ x, of "bf_queue s" "bf_head s" "bf_tail s" V Q]
      by (cases "x \<in> V") (auto simp: byte_flag_step_def byte_flag_visit_def byte_flag_repr_def insert_absorb)
  qed
qed

definition epoch_repr :: "'n topology_view \<Rightarrow> 'n epoch_frontier \<Rightarrow> 'n set \<Rightarrow> 'n list \<Rightarrow> bool" where
  "epoch_repr g s V Q \<longleftrightarrow> marked g (map (\<lambda>m. m = ef_epoch s) (ef_marks s)) V \<and>
     element_bound g \<le> length (ef_queue s) \<and> queued g (ef_queue s) (ef_head s) (ef_tail s) V Q"

interpretation epochs: bfs_storage epoch_step epoch_repr
proof unfold_locales
  show "step_pop epoch_step s = Some (None, s)" if "epoch_repr g s V []" for g s V
    using that by (auto simp: epoch_repr_def epoch_step_def epoch_pop_def dest: queued_Nil)
  show "\<exists>s'. step_pop epoch_step s = Some (Some x, s') \<and> epoch_repr g s' V Q"
    if "epoch_repr g s V (x # Q)" for g s V x Q
    using that queued_Cons [of g "ef_queue s" "ef_head s" "ef_tail s" V x Q]
    by (auto simp: epoch_repr_def epoch_step_def epoch_pop_def)
  show "\<exists>s'. step_visit epoch_step g s x = Some s' \<and> epoch_repr g s' (insert x V) (if x \<in> V then Q else Q @ [x])"
    if ok: "topology_ok dir g" and r: "epoch_repr g s V Q" and x: "contains_element g x" for dir g s V Q x
  proof -
    from r have m: "marked g (map (\<lambda>m. m = ef_epoch s) (ef_marks s)) V" by (simp add: epoch_repr_def)
    from marked_visit [OF ok m x] obtain i where i: "element_index g x = Some i" "i < length (ef_marks s)"
      "ef_marks s ! i = ef_epoch s \<longleftrightarrow> x \<in> V" "marked g (map (\<lambda>m. m = ef_epoch s) ((ef_marks s)[i := ef_epoch s])) (insert x V)"
      by (auto simp: map_update)
    then show ?thesis
      using r queued_store [OF ok _ _ x, of "ef_queue s" "ef_head s" "ef_tail s" V Q]
      by (cases "x \<in> V") (auto simp: epoch_step_def epoch_visit_def epoch_repr_def insert_absorb)
  qed
qed

definition workspace_repr :: "'n topology_view \<Rightarrow> 'n workspace_frontier \<Rightarrow> 'n set \<Rightarrow> 'n list \<Rightarrow> bool" where
  "workspace_repr g s V Q \<longleftrightarrow> marked g (map (\<lambda>m. m = wf_epoch s) (wf_marks s)) V \<and>
     queued g (wf_queue s) (wf_head s) (length (wf_queue s)) V Q"

interpretation workspaces: bfs_storage workspace_step workspace_repr
proof unfold_locales
  show "step_pop workspace_step s = Some (None, s)" if "workspace_repr g s V []" for g s V
    using that by (auto simp: workspace_repr_def workspace_step_def workspace_pop_def dest: queued_Nil)
  show "\<exists>s'. step_pop workspace_step s = Some (Some x, s') \<and> workspace_repr g s' V Q"
    if "workspace_repr g s V (x # Q)" for g s V x Q
    using that queued_Cons [of g "wf_queue s" "wf_head s" "length (wf_queue s)" V x Q]
    by (auto simp: workspace_repr_def workspace_step_def workspace_pop_def)
  show "\<exists>s'. step_visit workspace_step g s x = Some s' \<and> workspace_repr g s' (insert x V) (if x \<in> V then Q else Q @ [x])"
    if ok: "topology_ok dir g" and r: "workspace_repr g s V Q" and x: "contains_element g x" for dir g s V Q x
  proof -
    from r have m: "marked g (map (\<lambda>m. m = wf_epoch s) (wf_marks s)) V" by (simp add: workspace_repr_def)
    from marked_visit [OF ok m x] obtain i where i: "element_index g x = Some i" "i < length (wf_marks s)"
      "wf_marks s ! i = wf_epoch s \<longleftrightarrow> x \<in> V" "marked g (map (\<lambda>m. m = wf_epoch s) ((wf_marks s)[i := wf_epoch s])) (insert x V)"
      by (auto simp: map_update)
    then show ?thesis
      using r queued_push [of g "wf_queue s" "wf_head s" V Q x] x
      by (cases "x \<in> V") (auto simp: workspace_step_def workspace_visit_def workspace_repr_def insert_absorb)
  qed
qed

definition owned_repr :: "'n topology_view \<Rightarrow> 'n owned_frontier \<Rightarrow> 'n set \<Rightarrow> 'n list \<Rightarrow> bool" where
  "owned_repr g s V Q \<longleftrightarrow> marked g (map (\<lambda>f. f \<noteq> 0) (of_visited s)) V \<and>
     queued g (of_queue s) (of_head s) (length (of_queue s)) V Q"

interpretation owned: bfs_storage owned_step owned_repr
proof unfold_locales
  show "step_pop owned_step s = Some (None, s)" if "owned_repr g s V []" for g s V
    using that by (auto simp: owned_repr_def owned_step_def owned_pop_def dest: queued_Nil)
  show "\<exists>s'. step_pop owned_step s = Some (Some x, s') \<and> owned_repr g s' V Q"
    if "owned_repr g s V (x # Q)" for g s V x Q
    using that queued_Cons [of g "of_queue s" "of_head s" "length (of_queue s)" V x Q]
    by (auto simp: owned_repr_def owned_step_def owned_pop_def)
  show "\<exists>s'. step_visit owned_step g s x = Some s' \<and> owned_repr g s' (insert x V) (if x \<in> V then Q else Q @ [x])"
    if ok: "topology_ok dir g" and r: "owned_repr g s V Q" and x: "contains_element g x" for dir g s V Q x
  proof -
    from r have m: "marked g (map (\<lambda>f. f \<noteq> 0) (of_visited s)) V" by (simp add: owned_repr_def)
    from marked_visit [OF ok m x] obtain i where i: "element_index g x = Some i" "i < length (of_visited s)"
      "of_visited s ! i \<noteq> 0 \<longleftrightarrow> x \<in> V" "marked g (map (\<lambda>f. f \<noteq> 0) ((of_visited s)[i := 1])) (insert x V)"
      by (auto simp: map_update)
    then show ?thesis
      using r queued_push [of g "of_queue s" "of_head s" V Q x] x
      by (cases "x \<in> V") (auto simp: owned_step_def owned_visit_def owned_repr_def insert_absorb)
  qed
qed

definition generic_repr :: "'n topology_view \<Rightarrow> 'n generic_state \<Rightarrow> 'n set \<Rightarrow> 'n list \<Rightarrow> bool" where
  "generic_repr g s V Q \<longleftrightarrow> gs_visited s = V \<and> gs_queue s = Q"

interpretation generic: bfs_storage generic_step generic_repr
  by unfold_locales
    (auto simp: generic_repr_def generic_step_def generic_pop_def generic_visit_def visited_insert_def Let_def)

section \<open>Starting a traversal\<close>

lemma validated_start:
  assumes "topology_ok dir g" and "contains_element g start"
  obtains i where "i < element_bound g" and "element_index g start = Some i"
    and "validated_start_new g start = Some (Ok (i, element_bound g))"
    and "element_bound g \<le> m \<Longrightarrow> element_bound g \<le> n \<Longrightarrow>
      validated_scratch_new g start m n = Some (Ok (i, element_bound g))"
  using topology_ok_index [OF assms] assms(2) that
  by (auto simp: validated_start_new_def validated_scratch_new_def Let_def)

lemma marked_start:
  assumes "topology_ok dir g" and "contains_element g start" and "element_index g start = Some i"
    and "element_bound g \<le> length flags" and "\<And>j. j < element_bound g \<Longrightarrow> \<not> flags ! j"
  shows "marked g (flags[i := True]) {start}"
proof -
  have "marked g flags {}"
    using assms(4,5) topology_ok_index [OF assms(1)] by (force simp: marked_def)
  from marked_visit [OF assms(1) this assms(2)] assms(3) show ?thesis by auto
qed

lemma queued_start:
  assumes "queue \<noteq> []" and "contains_element g start"
  shows "queued g (queue[0 := start]) 0 1 {start} [start]"
  using assms by (cases queue) (simp_all add: queued_def)

lemma scratch_search_starts:
  assumes ok: "topology_ok dir g" and start: "contains_element g start"
    and room: "element_bound g \<le> length visited" "element_bound g \<le> length queue"
  shows "\<exists>s. breadth_first_search_with_scratch g start visited queue = Some (Ok s) \<and> byte_flag_repr g s {start} [start]"
proof -
  from validated_start [OF ok start, of "length visited" "length queue"] room obtain i where
    i: "i < element_bound g" "element_index g start = Some i"
    "validated_scratch_new g start (length visited) (length queue) = Some (Ok (i, element_bound g))" by metis
  let ?visited = "(overwrite visited 0 (replicate (element_bound g) 0))[i := 1]" and ?queue = "queue[0 := start]"
  have len: "length ?visited = length visited" "queue \<noteq> []" using room i(1) by auto
  have "marked g ((map (\<lambda>f. f \<noteq> 0) (overwrite visited 0 (replicate (element_bound g) 0)))[i := True]) {start}"
    using room by (intro marked_start [OF ok start i(2)]) (simp_all add: nth_overwrite)
  then have "byte_flag_repr g \<lparr>bf_visited = ?visited, bf_queue = ?queue, bf_head = 0, bf_tail = 1\<rparr> {start} [start]"
    using queued_start [OF len(2) start] room by (simp add: byte_flag_repr_def map_update)
  then show ?thesis
    using i room len by (simp add: breadth_first_search_with_scratch_def byte_flag_new_def)
qed

lemma owned_search_starts:
  assumes ok: "topology_ok dir g" and start: "contains_element g start"
  shows "\<exists>s. breadth_first_search g start = Some (Ok s) \<and> owned_repr g s {start} [start]"
proof -
  from validated_start [OF ok start] obtain i where i: "i < element_bound g" "element_index g start = Some i"
    "validated_start_new g start = Some (Ok (i, element_bound g))" by metis
  have "marked g ((map (\<lambda>f. f \<noteq> 0) (replicate (element_bound g) (0 :: u8)))[i := True]) {start}"
    by (intro marked_start [OF ok start i(2)]) simp_all
  then have "owned_repr g \<lparr>of_visited = (replicate (element_bound g) 0)[i := 1], of_queue = [start], of_head = 0\<rparr> {start} [start]"
    using start by (simp add: owned_repr_def map_update queued_def)
  then show ?thesis using i by (simp add: breadth_first_search_def owned_new_def)
qed

text \<open>Marks at most the epoch are below the advanced one, also when the counter wraps.\<close>

lemma epoch_advance_fresh:
  assumes "\<forall>m \<in> set marks. m \<le> epoch" and "epoch_advance epoch marks = (epoch', marks')"
  shows "\<forall>m \<in> set marks'. m < epoch'" and "length marks' = length marks"
proof -
  have "epoch < epoch + 1" if "epoch \<noteq> - 1"
  proof -
    from that have "1 + epoch \<noteq> 0" by (metis add_eq_0_iff minus_minus)
    then have "unat (1 + epoch) = Suc (unat epoch)" by (rule unatSuc)
    then show ?thesis by (simp add: word_less_nat_alt add.commute)
  qed
  then show "\<forall>m \<in> set marks'. m < epoch'"
    using assms by (auto simp: epoch_advance_def split: if_splits)
  show "length marks' = length marks" using assms(2) by (auto simp: epoch_advance_def split: if_splits)
qed

lemma marked_fresh:
  assumes "topology_ok dir g" and "contains_element g start" and "element_index g start = Some i"
    and "element_bound g \<le> length marks" and "\<forall>m \<in> set marks. m < (epoch :: u32)"
  shows "marked g (map (\<lambda>m. m = epoch) (marks[i := epoch])) {start}"
proof -
  have "marks ! j \<noteq> epoch" if "j < element_bound g" for j
  proof -
    from that assms(4) have "marks ! j \<in> set marks" by simp
    with assms(5) show ?thesis by fastforce
  qed
  then have "marked g ((map (\<lambda>m. m = epoch) marks)[i := True]) {start}"
    using assms(4) by (intro marked_start [OF assms(1-3)]) simp_all
  then show ?thesis by (simp add: map_update)
qed

definition scratch_wf :: "'n epoch_scratch \<Rightarrow> bool" where
  "scratch_wf sc \<longleftrightarrow> (\<forall>m \<in> set (es_marks sc). m \<le> es_epoch sc)"

definition workspace_wf :: "'n bfs_workspace \<Rightarrow> bool" where
  "workspace_wf w \<longleftrightarrow> (\<forall>m \<in> set (ws_marks w). m \<le> ws_epoch w)"

lemma epoch_search_starts:
  assumes ok: "topology_ok dir g" and start: "contains_element g start" and wf: "scratch_wf sc"
    and room: "element_bound g \<le> length (es_marks sc)" "element_bound g \<le> length (es_queue sc)"
  shows "\<exists>s sc'. breadth_first_search_with_epoch_scratch g start sc = Some (Ok (s, sc')) \<and> epoch_repr g s {start} [start]"
proof -
  obtain epoch marks where adv: "epoch_advance (es_epoch sc) (es_marks sc) = (epoch, marks)" by fastforce
  note fresh = epoch_advance_fresh [OF _ adv] 
  from validated_start [OF ok start, of "length (es_marks sc)" "length (es_queue sc)"] room obtain i where
    i: "i < element_bound g" "element_index g start = Some i"
    "validated_scratch_new g start (length (es_marks sc)) (length (es_queue sc)) = Some (Ok (i, element_bound g))" by metis
  have len: "length marks = length (es_marks sc)" "es_queue sc \<noteq> []" "\<forall>m \<in> set marks. m < epoch"
    using fresh wf room i(1) by (auto simp: scratch_wf_def)
  have "epoch_repr g \<lparr>ef_marks = marks[i := epoch], ef_queue = (es_queue sc)[0 := start], ef_epoch = epoch,
      ef_head = 0, ef_tail = 1\<rparr> {start} [start]"
    using marked_fresh [OF ok start i(2), of marks epoch] queued_start [OF len(2) start] len room
    by (simp add: epoch_repr_def)
  then show ?thesis
    using i room len by (simp add: breadth_first_search_with_epoch_scratch_def adv epoch_new_def)
qed

lemma workspace_search_starts:
  assumes ok: "topology_ok dir g" and start: "contains_element g start" and wf: "workspace_wf w"
  shows "\<exists>s w'. breadth_first_search_with_workspace g start w = Some (Ok (s, w')) \<and> workspace_repr g s {start} [start]"
proof -
  let ?w = "ensure_element_bound w (element_bound g)"
  obtain epoch marks where adv: "epoch_advance (ws_epoch ?w) (ws_marks ?w) = (epoch, marks)" by fastforce
  note fresh = epoch_advance_fresh [OF _ adv]
  from validated_start [OF ok start] obtain i where i: "i < element_bound g" "element_index g start = Some i"
    "validated_start_new g start = Some (Ok (i, element_bound g))" by metis
  have grown: "\<forall>m \<in> set (ws_marks ?w). m \<le> ws_epoch ?w" "element_bound g \<le> length (ws_marks ?w)"
    using wf by (auto simp: workspace_wf_def ensure_element_bound_def)
  have len: "element_bound g \<le> length marks" "\<forall>m \<in> set marks. m < epoch"
    using fresh [OF grown(1)] grown(2) by simp_all
  have "workspace_repr g \<lparr>wf_marks = marks[i := epoch], wf_queue = [start], wf_epoch = epoch, wf_head = 0\<rparr> {start} [start]"
    using marked_fresh [OF ok start i(2) len] start by (simp add: workspace_repr_def queued_def)
  then show ?thesis
    using i len by (simp add: breadth_first_search_with_workspace_def adv workspace_new_def)
qed

section \<open>Reusing scratch storage\<close>

text \<open>What the steps of a policy keep, a partial traversal keeps.\<close>

lemma visit_targets_keeps:
  assumes "\<And>s t s'. P s \<Longrightarrow> step_visit step g s t = Some s' \<Longrightarrow> P s'"
  shows "P s \<Longrightarrow> visit_targets step g s ts = Some s' \<Longrightarrow> P s'"
  using assms by (induction ts arbitrary: s) (auto split: Option.bind_splits)

lemma bfs_take_keeps:
  assumes "\<And>s r s'. P s \<Longrightarrow> step_pop step s = Some (r, s') \<Longrightarrow> P s'"
    and "\<And>s t s'. P s \<Longrightarrow> step_visit step g s t = Some s' \<Longrightarrow> P s'"
  shows "P s \<Longrightarrow> bfs_take step dir g k s = Some (xs, s') \<Longrightarrow> P s'"
proof (induction k arbitrary: s xs)
  case (Suc k)
  from Suc.prems(2) obtain r s1 where s1: "bfs_next step dir g s = Some (r, s1)"
    by (cases "bfs_next step dir g s") auto
  then obtain r' s2 where s2: "step_pop step s = Some (r', s2)"
    by (cases "step_pop step s") (auto simp: bfs_next_def)
  have "P s2" by (rule assms(1) [OF Suc.prems(1) s2])
  moreover have "s1 = s2 \<or> (\<exists>ts. visit_targets step g s2 ts = Some s1)"
    using s1 s2 by (auto simp: bfs_next_def bind_eq_Some_conv split: option.splits)
  moreover have "P s1" if "visit_targets step g s2 ts = Some s1" for ts
    by (rule visit_targets_keeps [of P, OF _ \<open>P s2\<close> that]) (rule assms(2))
  ultimately have "P s1" by blast
  moreover have "s' = s1 \<or> (\<exists>ys. bfs_take step dir g k s1 = Some (ys, s'))"
    using Suc.prems(2) s1 by (auto split: option.splits)
  ultimately show ?case using Suc.IH by blast
qed simp

inductive scratch_history :: "'n epoch_scratch \<Rightarrow> bool" where
  scratch_created: "scratch_history (epoch_scratch_new marks queue)"
| scratch_searched: "scratch_history sc \<Longrightarrow>
    breadth_first_search_with_epoch_scratch g start sc = Some (Ok (s, sc')) \<Longrightarrow>
    bfs_take epoch_step dir g k s = Some (xs, s') \<Longrightarrow> scratch_history (epoch_scratch_release s' sc')"

inductive workspace_history :: "'n bfs_workspace \<Rightarrow> bool" where
  workspace_created: "workspace_history workspace_empty"
| workspace_sized: "workspace_history (workspace_with_element_bound bound)"
| workspace_searched: "workspace_history w \<Longrightarrow>
    breadth_first_search_with_workspace g start w = Some (Ok (s, w')) \<Longrightarrow>
    bfs_take workspace_step dir g k s = Some (xs, s') \<Longrightarrow> workspace_history (workspace_release s' w')"

lemma le_list_update: "\<forall>m \<in> set xs. m \<le> e \<Longrightarrow> \<forall>m \<in> set (xs[i := (e :: u32)]). m \<le> e"
  using set_update_subset_insert [of xs i e] by auto

lemma scratch_history_wf: "scratch_history sc \<Longrightarrow> scratch_wf sc"
proof (induction rule: scratch_history.induct)
  case (scratch_created marks queue)
  then show ?case by (simp add: scratch_wf_def epoch_scratch_new_def)
next
  case (scratch_searched sc g start s sc' dir k xs s')
  obtain epoch marks where adv: "epoch_advance (es_epoch sc) (es_marks sc) = (epoch, marks)" by fastforce
  let ?inv = "\<lambda>s. ef_epoch s = epoch \<and> (\<forall>m \<in> set (ef_marks s). m \<le> epoch)"
  have "\<forall>m \<in> set marks. m \<le> epoch"
    using scratch_searched.IH epoch_advance_fresh(1) [OF _ adv] by (auto simp: scratch_wf_def less_imp_le)
  then have "?inv s" and sc': "es_epoch sc' = epoch"
    using scratch_searched.hyps(2) le_list_update
    by (auto simp: breadth_first_search_with_epoch_scratch_def adv epoch_new_def store_or_panic_def
        split: Option.bind_splits if_splits)
  moreover have "?inv s2" if "?inv s1" "step_pop epoch_step s1 = Some (r, s2)" for s1 s2 r
    using that by (auto simp: epoch_step_def epoch_pop_def split: if_splits Option.bind_splits)
  moreover have "?inv s2" if "?inv s1" "step_visit epoch_step g s1 t = Some s2" for s1 s2 t
    using that le_list_update
    by (auto simp: epoch_step_def epoch_visit_def split: if_splits Option.bind_splits)
  ultimately have "?inv s'"
    using bfs_take_keeps [of ?inv epoch_step g s dir k xs s'] scratch_searched.hyps(3) by blast
  with sc' show ?case by (simp add: scratch_wf_def epoch_scratch_release_def)
qed

lemma workspace_history_wf: "workspace_history w \<Longrightarrow> workspace_wf w"
proof (induction rule: workspace_history.induct)
  case (workspace_searched w g start s w' dir k xs s')
  let ?w = "ensure_element_bound w (element_bound g)"
  obtain epoch marks where adv: "epoch_advance (ws_epoch ?w) (ws_marks ?w) = (epoch, marks)" by fastforce
  let ?inv = "\<lambda>s. wf_epoch s = epoch \<and> (\<forall>m \<in> set (wf_marks s). m \<le> epoch)"
  have "\<forall>m \<in> set marks. m \<le> epoch"
    using workspace_searched.IH epoch_advance_fresh(1) [OF _ adv]
    by (auto simp: workspace_wf_def ensure_element_bound_def less_imp_le split: if_splits)
  moreover obtain i where "validated_start_new g start = Some (Ok (i, element_bound g))"
    using workspace_searched.hyps(2)
    by (auto simp: breadth_first_search_with_workspace_def validated_start_new_def Let_def split: if_splits)
  ultimately have "?inv s" and w': "ws_epoch w' = epoch"
    using workspace_searched.hyps(2) le_list_update
    by (auto simp: breadth_first_search_with_workspace_def adv workspace_new_def store_or_panic_def
        split: Option.bind_splits if_splits)
  moreover have "?inv s2" if "?inv s1" "step_pop workspace_step s1 = Some (r, s2)" for s1 s2 r
    using that by (auto simp: workspace_step_def workspace_pop_def split: if_splits Option.bind_splits)
  moreover have "?inv s2" if "?inv s1" "step_visit workspace_step g s1 t = Some s2" for s1 s2 t
    using that le_list_update
    by (auto simp: workspace_step_def workspace_visit_def split: if_splits Option.bind_splits)
  ultimately have "?inv s'"
    using bfs_take_keeps [of ?inv workspace_step g s dir k xs s'] workspace_searched.hyps(3) by blast
  with w' show ?case by (simp add: workspace_wf_def workspace_release_def)
qed (simp_all add: workspace_wf_def workspace_empty_def workspace_with_element_bound_def)

text \<open>The checks of the entry points, in the order of their documentation.\<close>

definition first_failing_check :: "'n topology_view \<Rightarrow> 'n \<Rightarrow> nat \<Rightarrow> nat \<Rightarrow> bfs_error option" where
  "first_failing_check g start visited_len queue_len =
     (if visited_len < element_bound g then Some (VisitedTooSmall (element_bound g) visited_len)
      else if queue_len < element_bound g then Some (QueueTooSmall (element_bound g) queue_len)
      else if \<not> contains_element g start then Some StartElementNotContained else None)"

fun answers :: "('e, 'a) run \<Rightarrow> 'e option \<Rightarrow> bool" where
  "answers r (Some err) \<longleftrightarrow> r = Some (Err err)"
| "answers r None \<longleftrightarrow> (\<exists>a. r = Some (Ok a))"

section \<open>Properties\<close>

text \<open>
  C7: a breadth-first search from a contained element, over any view that keeps the trait contract,
  starts, never panics, and yields exactly the elements reachable in its direction, each once and in
  order of hop distance from the start; drained one call at a time it ends after them.
\<close>

theorem breadth_first_search_reaches:
  assumes "topology_ok dir g" and "contains_element g start"
  shows "\<exists>s xs depths. breadth_first_search g start = Some (Ok s) \<and>
    (\<forall>k. \<exists>s'. bfs_take owned_step dir g k s = Some (take k xs, s')) \<and>
    distinct xs \<and> set xs = {x. (start, x) \<in> (steps dir g)\<^sup>*} \<and> length xs \<le> element_bound g \<and>
    sorted depths \<and> length depths = length xs \<and>
    (\<forall>i < length xs. at_distance (steps dir g) {start} (depths ! i) (xs ! i))"
proof -
  let ?xs = "bfs_order dir g start"
  note order = bfs_order_layers [OF assms]
  from owned_search_starts [OF assms] obtain s where
    s: "breadth_first_search g start = Some (Ok s)" "owned_repr g s {start} [start]" by blast
  from order(3) obtain depths where depths: "sorted depths" "length depths = length ?xs"
    "\<forall>i < length ?xs. at_distance (steps dir g) {start} (depths ! i) (?xs ! i)" by auto
  have "contains_element g x" if "(start, x) \<in> (steps dir g)\<^sup>*" for x
    using that assms(2) by (induction rule: rtrancl_induct) (auto dest: steps_contained [OF assms(1)])
  then have "length ?xs \<le> element_bound g"
    using order(1,2) by (intro contained_bound [OF assms(1)]) auto
  moreover have "\<exists>s'. bfs_take owned_step dir g k s = Some (take k ?xs, s')" for k
    using owned.search_order [OF assms s(2)] by blast
  ultimately show ?thesis using s(1) order(1,2) depths by blast
qed

text \<open>
  C8: the storage policies are interchangeable: over caller-provided byte flags, over a fresh or a
  reused epoch scratch, over a fresh or a reused workspace, over owned storage and over a set, the
  search yields the same elements in the same order, at every prefix.
\<close>

theorem bfs_variants_agree:
  assumes "topology_ok dir g" and "contains_element g start"
    and "element_bound g \<le> length visited" and "element_bound g \<le> length queue"
    and "scratch_history scratch" and "element_bound g \<le> length (es_marks scratch)"
    and "element_bound g \<le> length (es_queue scratch)" and "workspace_history workspace"
  shows "\<exists>owned byte_flags epochs scratch' marks workspace' order.
    breadth_first_search g start = Some (Ok owned) \<and>
    breadth_first_search_with_scratch g start visited queue = Some (Ok byte_flags) \<and>
    breadth_first_search_with_epoch_scratch g start scratch = Some (Ok (epochs, scratch')) \<and>
    breadth_first_search_with_workspace g start workspace = Some (Ok (marks, workspace')) \<and>
    (\<forall>k. map_option fst (bfs_take owned_step dir g k owned) = Some (take k order) \<and>
         map_option fst (bfs_take byte_flag_step dir g k byte_flags) = Some (take k order) \<and>
         map_option fst (bfs_take epoch_step dir g k epochs) = Some (take k order) \<and>
         map_option fst (bfs_take workspace_step dir g k marks) = Some (take k order) \<and>
         map_option fst (bfs_take generic_step dir g k (breadth_first_search_generic start)) = Some (take k order))"
proof -
  note start = assms(1,2)
  from owned_search_starts [OF start] obtain s1 where
    s1: "breadth_first_search g start = Some (Ok s1)" "owned_repr g s1 {start} [start]" by blast
  from scratch_search_starts [OF start assms(3,4)] obtain s2 where
    s2: "breadth_first_search_with_scratch g start visited queue = Some (Ok s2)" "byte_flag_repr g s2 {start} [start]" by blast
  from epoch_search_starts [OF start scratch_history_wf [OF assms(5)] assms(6,7)] obtain s3 sc where
    s3: "breadth_first_search_with_epoch_scratch g start scratch = Some (Ok (s3, sc))" "epoch_repr g s3 {start} [start]" by blast
  from workspace_search_starts [OF start workspace_history_wf [OF assms(8)]] obtain s4 w where
    s4: "breadth_first_search_with_workspace g start workspace = Some (Ok (s4, w))" "workspace_repr g s4 {start} [start]" by blast
  have s5: "generic_repr g (breadth_first_search_generic start) {start} [start]"
    by (simp add: generic_repr_def breadth_first_search_generic_def generic_new_def visited_insert_def)
  have "map_option fst (bfs_take owned_step dir g k s1) = Some (take k (bfs_order dir g start))"
    "map_option fst (bfs_take byte_flag_step dir g k s2) = Some (take k (bfs_order dir g start))"
    "map_option fst (bfs_take epoch_step dir g k s3) = Some (take k (bfs_order dir g start))"
    "map_option fst (bfs_take workspace_step dir g k s4) = Some (take k (bfs_order dir g start))"
    "map_option fst (bfs_take generic_step dir g k (breadth_first_search_generic start)) = Some (take k (bfs_order dir g start))"
    for k
    using owned.search_order [OF start s1(2), of k] byte_flags.search_order [OF start s2(2), of k]
      epochs.search_order [OF start s3(2), of k] workspaces.search_order [OF start s4(2), of k]
      generic.search_order [OF start s5, of k] by auto
  with s1(1) s2(1) s3(1) s4(1) show ?thesis by blast
qed

text \<open>
  C9: no entry point panics, and each refuses exactly the starts that are not contained and, for
  caller-provided storage, the slices shorter than the bound, with the first failing check's error.
\<close>

theorem bfs_entry_errors:
  assumes "topology_ok dir g" and "scratch_history scratch" and "workspace_history workspace"
  shows "answers (breadth_first_search_with_scratch g start visited queue)
      (first_failing_check g start (length visited) (length queue)) \<and>
    answers (breadth_first_search_with_epoch_scratch g start scratch)
      (first_failing_check g start (length (es_marks scratch)) (length (es_queue scratch))) \<and>
    answers (breadth_first_search_with_workspace g start workspace)
      (first_failing_check g start (element_bound g) (element_bound g)) \<and>
    answers (breadth_first_search g start) (first_failing_check g start (element_bound g) (element_bound g))"
proof -
  note defs = validated_scratch_new_def validated_start_new_def Let_def first_failing_check_def
  have "answers (breadth_first_search_with_scratch g start visited queue)
      (first_failing_check g start (length visited) (length queue))"
    using scratch_search_starts [OF assms(1), of start visited queue]
    by (cases "first_failing_check g start (length visited) (length queue)")
      (auto simp: breadth_first_search_with_scratch_def defs split: if_splits)
  moreover have "answers (breadth_first_search_with_epoch_scratch g start scratch)
      (first_failing_check g start (length (es_marks scratch)) (length (es_queue scratch)))"
  proof (cases "first_failing_check g start (length (es_marks scratch)) (length (es_queue scratch))")
    case None
    then show ?thesis
      using epoch_search_starts [OF assms(1) _ scratch_history_wf [OF assms(2)], of start]
      by (simp add: first_failing_check_def not_less split: if_splits) blast
  next
    case (Some err)
    then show ?thesis
      by (simp add: breadth_first_search_with_epoch_scratch_def defs split: if_splits)
  qed
  moreover have "answers (breadth_first_search_with_workspace g start workspace)
      (first_failing_check g start (element_bound g) (element_bound g))"
  proof (cases "contains_element g start")
    case True
    then show ?thesis
      using workspace_search_starts [OF assms(1) _ workspace_history_wf [OF assms(3)], of start]
      by (simp add: first_failing_check_def) blast
  qed (simp add: breadth_first_search_with_workspace_def defs)
  moreover have "answers (breadth_first_search g start) (first_failing_check g start (element_bound g) (element_bound g))"
  proof (cases "contains_element g start")
    case True
    then show ?thesis using owned_search_starts [OF assms(1), of start] by (simp add: first_failing_check_def) blast
  qed (simp add: breadth_first_search_def defs)
  ultimately show ?thesis by blast
qed

text \<open>The two-node CSR example, searched from node 1 with a new scratch and an empty workspace.\<close>

lemma example_topology: "topology_ok Forward (csr_topology example_view)"
  using csr_dense.ok csr_validate_OkD [OF example_view_validates] by blast

lemma example_start: "contains_element (csr_topology example_view) 1"
  using example_view_contains by (simp add: csr_topology_def)

lemma example_bound: "element_bound (csr_topology example_view) = 2"
  by (simp add: csr_topology_def csr_element_bound_def example_view_def csr_from_validated_parts_def)

theorem breadth_first_search_reaches_witness:
  "\<exists>s xs. breadth_first_search (csr_topology example_view) 1 = Some (Ok s) \<and>
     set xs = {x. (1, x) \<in> (steps Forward (csr_topology example_view))\<^sup>*} \<and> length xs \<le> 2 \<and>
     (\<exists>s'. bfs_take owned_step Forward (csr_topology example_view) 3 s = Some (take 3 xs, s'))"
  using breadth_first_search_reaches [OF example_topology example_start] unfolding example_bound by blast

theorem bfs_variants_agree_witness:
  "\<exists>owned epochs scratch'. breadth_first_search (csr_topology example_view) 1 = Some (Ok owned) \<and>
     breadth_first_search_with_epoch_scratch (csr_topology example_view) 1 (epoch_scratch_new [7, 7] [0, 0]) =
       Some (Ok (epochs, scratch')) \<and>
     map_option fst (bfs_take owned_step Forward (csr_topology example_view) 2 owned) =
       map_option fst (bfs_take epoch_step Forward (csr_topology example_view) 2 epochs)"
proof -
  have room: "element_bound (csr_topology example_view) \<le> length (es_marks (epoch_scratch_new [7, 7] [0 :: 16 word, 0]))"
    "element_bound (csr_topology example_view) \<le> length (es_queue (epoch_scratch_new [7, 7] [0 :: 16 word, 0]))"
    "element_bound (csr_topology example_view) \<le> length [1 :: u8, 1]"
    "element_bound (csr_topology example_view) \<le> length [0 :: 16 word, 0]"
    unfolding example_bound by (simp_all add: epoch_scratch_new_def)
  from bfs_variants_agree [OF example_topology example_start room(3,4) scratch_created room(1,2) workspace_created]
  obtain owned epochs scratch' order where
    "breadth_first_search (csr_topology example_view) 1 = Some (Ok owned)"
    "breadth_first_search_with_epoch_scratch (csr_topology example_view) 1 (epoch_scratch_new [7, 7] [0, 0]) =
       Some (Ok (epochs, scratch'))"
    "\<forall>k. map_option fst (bfs_take owned_step Forward (csr_topology example_view) k owned) = Some (take k order) \<and>
       map_option fst (bfs_take epoch_step Forward (csr_topology example_view) k epochs) = Some (take k order)"
    by blast
  note found = this
  from spec [OF found(3), of 2] show ?thesis
    by (intro exI [of _ owned] exI [of _ epochs] exI [of _ scratch']) (simp only: found(1,2))
qed

theorem bfs_entry_errors_witness:
  "breadth_first_search_with_scratch (csr_topology example_view) 1 [0] [0, 0] = Some (Err (VisitedTooSmall 2 1))"
  using bfs_entry_errors [OF example_topology scratch_created workspace_created, where start = 1 and visited = "[0]" and queue = "[0, 0]"]
  by (simp add: first_failing_check_def example_bound)

end
