(* ===== verification/Induced.thy ===== *)
theory Induced
  imports Bfs
begin

text \<open>
  What the whole-graph algorithms of \<open>crates/oxgraph-algo\<close> share: the membership flags of the requested
  elements, and the subgraph they induce. \<open>shortest_path_lengths\<close> of \<open>sssp.rs\<close> is modelled here.
\<close>

section \<open>Requested elements\<close>

text \<open>The loop that marks the requested elements and collects them once each, in input order.\<close>

fun collect_members ::
    "'n topology_view \<Rightarrow> bool list \<Rightarrow> 'n list \<Rightarrow> 'n list \<Rightarrow> (bool list \<times> 'n list) option" where
  "collect_members g member nodes [] = Some (member, nodes)"
| "collect_members g member nodes (element # rest) =
     Option.bind (element_index g element) (\<lambda>index.
       if index < element_bound g then
         Option.bind (index_or_panic member index) (\<lambda>marked.
           if marked then collect_members g member nodes rest
           else collect_members g (member[index := True]) (nodes @ [element]) rest)
       else collect_members g member nodes rest)"

text \<open>The loop of \<open>shortest_path_lengths\<close>, which only marks them.\<close>

fun mark_members :: "'n topology_view \<Rightarrow> bool list \<Rightarrow> 'n list \<Rightarrow> bool list option" where
  "mark_members g member [] = Some member"
| "mark_members g member (element # rest) =
     Option.bind (element_index g element) (\<lambda>index.
       if index < element_bound g then
         Option.bind (store_or_panic member index True) (\<lambda>member. mark_members g member rest)
       else mark_members g member rest)"

definition induced_steps :: "'n topology_view \<Rightarrow> 'n set \<Rightarrow> ('n \<times> 'n) set" where
  "induced_steps g M = {(x, y) \<in> steps Forward g. x \<in> M \<and> y \<in> M}"

definition induced_succs :: "'n topology_view \<Rightarrow> 'n set \<Rightarrow> 'n \<Rightarrow> 'n list" where
  "induced_succs g M x = filter (\<lambda>y. y \<in> M) (neighbors Forward g x)"

lemma marked_index:
  assumes "topology_ok dir g" and "marked g flags V" and "contains_element g x"
  obtains i where "element_index g x = Some i" and "i < element_bound g" and "i < length flags"
    and "flags ! i \<longleftrightarrow> x \<in> V" and "marked g (flags[i := True]) (insert x V)"
  using marked_visit [OF assms] topology_ok_index [OF assms(1,3)] that by force

lemma collect_members_Some:
  assumes ok: "topology_ok dir g" and "marked g member V" and "\<forall>x \<in> set elements. contains_element g x"
  shows "\<exists>member'. collect_members g member nodes elements = Some (member', nodes @ fresh V elements) \<and>
    length member' = length member \<and> marked g member' (V \<union> set elements)"
  using assms(2,3)
proof (induction elements arbitrary: member V nodes)
  case Nil
  then show ?case by simp
next
  case (Cons x xs)
  from Cons.prems(2) have "contains_element g x" by simp
  from marked_index [OF ok Cons.prems(1) this] obtain i where
    i: "element_index g x = Some i" "i < element_bound g" "i < length member" "member ! i \<longleftrightarrow> x \<in> V"
      "marked g (member[i := True]) (insert x V)" by metis
  show ?case
  proof (cases "x \<in> V")
    case True
    with Cons.IH [OF Cons.prems(1), of nodes] Cons.prems(2) i show ?thesis by (auto simp: insert_absorb)
  next
    case False
    with Cons.IH [OF i(5), of "nodes @ [x]"] Cons.prems(2) i show ?thesis by auto
  qed
qed

lemma mark_members_Some:
  assumes ok: "topology_ok dir g" and "marked g member V" and "\<forall>x \<in> set elements. contains_element g x"
  shows "\<exists>member'. mark_members g member elements = Some member' \<and>
    length member' = length member \<and> marked g member' (V \<union> set elements)"
  using assms(2,3)
proof (induction elements arbitrary: member V)
  case Nil
  then show ?case by simp
next
  case (Cons x xs)
  from Cons.prems(2) have "contains_element g x" by simp
  from marked_index [OF ok Cons.prems(1) this] obtain i where
    i: "element_index g x = Some i" "i < element_bound g" "i < length member"
      "marked g (member[i := True]) (insert x V)" by metis
  with Cons.IH [OF i(4)] Cons.prems(2) show ?case by auto
qed

lemma marked_none: "topology_ok dir g \<Longrightarrow> marked g (replicate (element_bound g) False) {}"
  using topology_ok_index by (fastforce simp: marked_def)

lemma induced_succs_steps:
  assumes "topology_ok Forward g" and "x \<in> M" and "\<forall>x \<in> M. contains_element g x"
  shows "(x, y) \<in> induced_steps g M \<longleftrightarrow> y \<in> set (induced_succs g M x)"
  using expand_neighbors(3) [OF assms(1)] assms(2,3) by (auto simp: induced_steps_def induced_succs_def)

section \<open>Shortest path lengths\<close>

text \<open>The successor loop; \<open>distance + 1\<close> panics on overflow of \<open>u64\<close>.\<close>

fun sssp_targets ::
    "'n topology_view \<Rightarrow> bool list \<Rightarrow> u64 \<Rightarrow> bool list \<Rightarrow> ('n \<times> u64) list \<Rightarrow> 'n list \<Rightarrow>
       (bool list \<times> ('n \<times> u64) list) option" where
  "sssp_targets g member distance visited queue [] = Some (visited, queue)"
| "sssp_targets g member distance visited queue (successor # rest) =
     Option.bind (element_index g successor) (\<lambda>target.
       if target < element_bound g then
         Option.bind (index_or_panic member target) (\<lambda>requested.
         if requested then
           Option.bind (index_or_panic visited target) (\<lambda>seen.
           if seen then sssp_targets g member distance visited queue rest
           else
             Option.bind (word_checked_add distance 1) (\<lambda>next.
               sssp_targets g member distance (visited[target := True]) (queue @ [(successor, next)]) rest))
         else sssp_targets g member distance visited queue rest)
       else sssp_targets g member distance visited queue rest)"

partial_function (option) sssp_loop ::
    "'n topology_view \<Rightarrow> bool list \<Rightarrow> bool list \<Rightarrow> ('n \<times> u64) list \<Rightarrow> ('n \<times> u64) list \<Rightarrow> ('n \<times> u64) list option" where
  "sssp_loop g member visited queue distances =
     (case queue of
        [] \<Rightarrow> Some distances
      | (node, distance) # rest \<Rightarrow>
          Option.bind (element_successors g node) (\<lambda>successors.
          Option.bind (sssp_targets g member distance visited rest successors) (\<lambda>(visited, queue).
            sssp_loop g member visited queue (distances @ [(node, distance)]))))"

definition shortest_path_lengths :: "'n topology_view \<Rightarrow> 'n \<Rightarrow> 'n list \<Rightarrow> ('n \<times> u64) list option" where
  "shortest_path_lengths g source elements =
     (let bound = element_bound g in
      Option.bind (mark_members g (replicate bound False) elements) (\<lambda>member.
      Option.bind (element_index g source) (\<lambda>source_index.
        if source_index \<ge> bound then Some []
        else
          Option.bind (index_or_panic member source_index) (\<lambda>requested.
            if \<not> requested then Some []
            else
              Option.bind (store_or_panic (replicate bound False) source_index True) (\<lambda>visited.
                sssp_loop g member visited [(source, 0)] [])))))"

lemma sssp_targets_Some:
  assumes ok: "topology_ok Forward g" and member: "marked g member M" and distance: "unat distance + 1 < 2 ^ 64"
    and "marked g visited V" and "\<forall>x \<in> set ts. contains_element g x"
  shows "\<exists>visited'. sssp_targets g member distance visited queue ts =
      Some (visited', queue @ map (\<lambda>y. (y, distance + 1)) (fresh V (filter (\<lambda>y. y \<in> M) ts))) \<and>
    marked g visited' (V \<union> set (filter (\<lambda>y. y \<in> M) ts))"
  using assms(4,5)
proof (induction ts arbitrary: visited V queue)
  case Nil
  then show ?case by simp
next
  case (Cons x xs)
  from Cons.prems(2) have x: "contains_element g x" by simp
  from marked_index [OF ok Cons.prems(1) x] obtain i where
    i: "element_index g x = Some i" "i < element_bound g" "i < length visited" "visited ! i \<longleftrightarrow> x \<in> V"
      "marked g (visited[i := True]) (insert x V)" by metis
  from marked_index [OF ok member x] i(1) have m: "i < length member" "member ! i \<longleftrightarrow> x \<in> M" by auto
  have step: "word_checked_add distance 1 = Some (distance + 1)"
    using distance by (simp add: word_checked_add_def)
  show ?case
  proof (cases "x \<in> M \<and> x \<notin> V")
    case True
    with Cons.IH [OF i(5), of "queue @ [(x, distance + 1)]"] Cons.prems(2) i m step show ?thesis by auto
  next
    case False
    with Cons.IH [OF Cons.prems(1), of queue] Cons.prems(2) i m show ?thesis
      by (auto simp: insert_absorb)
  qed
qed

definition as_distance :: "'n \<times> nat \<Rightarrow> 'n \<times> u64" where
  "as_distance = apsnd word_of_nat"

lemma sssp_loop_Some:
  assumes ok: "topology_ok Forward g" and M: "\<forall>x \<in> M. contains_element g x" and member: "marked g member M"
    and small: "\<And>x d. at_distance (induced_steps g M) S d x \<Longrightarrow> Suc d < 2 ^ 64"
    and "layered (induced_steps g M) S (\<lambda>_. True) D V Q" and "marked g visited V" and "V \<subseteq> M" and "card M \<le> length D + n"
  shows "sssp_loop g member visited (map as_distance Q) distances =
    Some (distances @ map as_distance (layers (induced_succs g M) (\<lambda>_. True) n V Q))"
  using assms(5-8)
proof (induction n arbitrary: D V Q visited distances)
  case 0
  have "finite M" by (rule finite_subset [OF _ contained_finite(1) [OF ok]]) (use M in auto)
  from layered_length [OF 0(1,3) this] 0(4) have "length Q = 0" by linarith
  then have "Q = []" by simp
  then show ?case by (simp add: sssp_loop.simps)
next
  case (Suc n)
  show ?case
  proof (cases Q)
    case Nil
    then show ?thesis by (simp add: sssp_loop.simps)
  next
    case (Cons q Q')
    obtain x d where q: "q = (x, d)" by (cases q)
    have inv: "layered (induced_steps g M) S (\<lambda>_. True) D V ((x, d) # Q')" using Suc.prems(1) by (simp add: Cons q)
    have x: "x \<in> M" "contains_element g x" using layeredD(1) [OF inv, of x] Suc.prems(3) M by auto
    let ?new = "discovered (induced_succs g M) (\<lambda>_. True) V x d"
    have new: "?new = fresh V (filter (\<lambda>y. y \<in> M) (neighbors Forward g x))"
      by (simp add: discovered_def induced_succs_def)
    have d: "Suc d < 2 ^ 64" using small layeredD(4) [OF inv, of x d] by simp
    then have "unat (word_of_nat d :: u64) = d" by (intro unat_word_of_nat) simp
    then have "\<exists>visited'. sssp_targets g member (word_of_nat d) visited (map as_distance Q') (neighbors Forward g x) =
        Some (visited', map as_distance Q' @ map (\<lambda>y. (y, word_of_nat d + 1)) ?new) \<and>
        marked g visited' (V \<union> set (filter (\<lambda>y. y \<in> M) (neighbors Forward g x)))"
      unfolding new using expand_neighbors(2) [OF ok x(2)] d Suc.prems(2)
      by (intro sssp_targets_Some [OF ok member]) simp_all
    then obtain visited' where targets: "sssp_targets g member (word_of_nat d) visited (map as_distance Q') (neighbors Forward g x) =
        Some (visited', map as_distance (Q' @ map (\<lambda>y. (y, Suc d)) ?new))"
      and marked': "marked g visited' (V \<union> set ?new)"
      by (auto simp: as_distance_def comp_def new set_fresh add.commute)
    note succs = induced_succs_steps [OF ok x(1) M]
    have inv': "layered (induced_steps g M) S (\<lambda>_. True) (D @ [(x, d)]) (V \<union> set ?new) (Q' @ map (\<lambda>y. (y, Suc d)) ?new)"
      by (rule layered_step [OF inv]) (rule succs)
    have "V \<union> set ?new \<subseteq> M" using Suc.prems(3) by (auto simp: new set_fresh)
    from Suc.IH [OF inv' marked' this, of "distances @ [as_distance (x, d)]"] Suc.prems(4)
    show ?thesis
      using targets expand_neighbors(1) [OF ok x(2)]
      by (simp add: Cons q sssp_loop.simps [of g member visited] as_distance_def)
  qed
qed

lemma within_induced: "within (induced_steps g M) S d x \<Longrightarrow> S \<subseteq> M \<Longrightarrow> x \<in> M"
  by (cases d) (auto simp: within_Suc induced_steps_def)

section \<open>Property\<close>

text \<open>
  C10: the shortest path lengths over contained elements never panic nor loop: a source outside the
  requested elements gives nothing; otherwise the result lists, each once and by distance, exactly
  the requested elements reachable inside the induced subgraph with their hop distance in it.
\<close>

theorem shortest_path_lengths_correct:
  assumes "topology_ok Forward g" and "\<forall>x \<in> set elements. contains_element g x" and "contains_element g source"
  shows "\<exists>result. shortest_path_lengths g source elements = Some result \<and>
    (source \<notin> set elements \<longrightarrow> result = []) \<and>
    (source \<in> set elements \<longrightarrow>
       distinct (map fst result) \<and> sorted (map (\<lambda>(x, d). unat d) result) \<and>
       (\<forall>x d. (x, d) \<in> set result \<longleftrightarrow> at_distance (induced_steps g (set elements)) {source} (unat d) x) \<and>
       fst ` set result = {x. (source, x) \<in> (induced_steps g (set elements))\<^sup>*})"
proof -
  let ?M = "set elements" and ?bound = "element_bound g"
  let ?E = "induced_steps g ?M" and ?succs = "induced_succs g ?M"
  note ok = assms(1)
  from mark_members_Some [OF ok marked_none [OF ok] assms(2)] obtain member where
    member: "mark_members g (replicate ?bound False) elements = Some member" "marked g member ?M" by auto
  from marked_index [OF ok member(2) assms(3)] obtain i where
    i: "element_index g source = Some i" "i < ?bound" "i < length member" "member ! i \<longleftrightarrow> source \<in> ?M" by metis
  show ?thesis
  proof (cases "source \<in> ?M")
    case False
    then show ?thesis using member(1) i by (simp add: shortest_path_lengths_def)
  next
    case True
    let ?R = "layers ?succs (\<lambda>_. True) (card ?M) {source} [(source, 0)]"
    have visited: "marked g ((replicate ?bound False)[i := True]) {source}"
      by (rule marked_start [OF ok assms(3) i(1)]) simp_all
    have "card ?M \<le> ?bound"
      using contained_finite [OF ok] assms(2) by (metis card_mono le_trans mem_Collect_eq subsetI)
    then have small: "Suc d < 2 ^ 64" if "at_distance ?E {source} d x" for x d
      using at_distance_card [OF that, of ?M] within_induced [of g ?M "{source}"] True topology_ok_bound [OF ok]
      by (fastforce simp: usize_max_def)
    have "sssp_loop g member ((replicate ?bound False)[i := True]) (map as_distance [(source, 0)]) [] =
        Some ([] @ map as_distance ?R)"
      by (rule sssp_loop_Some [OF ok assms(2) member(2) small])
        (use layered_start [of "[source]"] visited True in simp_all)
    then have result: "shortest_path_lengths g source elements = Some (map as_distance ?R)"
      using member(1) i True by (simp add: shortest_path_lengths_def as_distance_def)
    have base: "distinct [source]" "set [source] \<subseteq> ?M" "finite ?M" "card ?M \<le> card ?M" using True by simp_all
    have correct: "distinct (map fst ?R)" "sorted (map snd ?R)"
      "(x, d) \<in> set ?R \<longleftrightarrow> at_distance ?E {source} d x" for x d
    proof -
      have succs: "(x, y) \<in> ?E \<longleftrightarrow> y \<in> set (?succs x)" if "x \<in> ?M" for x y by (rule induced_succs_steps [OF ok that assms(2)])
      have closed: "y \<in> ?M" if "x \<in> ?M" "(x, y) \<in> ?E" for x y using that by (simp add: induced_steps_def)
      note facts = layers_correct [OF base, where E = ?E and succs = ?succs and expands = "\<lambda>_. True", simplified,
          unfolded list.set]
      show "distinct (map fst ?R)" by (rule facts(1)) (blast intro: closed succs [THEN iffD1] succs [THEN iffD2])+
      show "sorted (map snd ?R)" by (rule facts(2)) (blast intro: closed succs [THEN iffD1] succs [THEN iffD2])+
      show "(x, d) \<in> set ?R \<longleftrightarrow> at_distance ?E {source} d x"
        by (rule facts(3)) (blast intro: closed succs [THEN iffD1] succs [THEN iffD2])+
    qed
    have unat: "unat (word_of_nat d :: u64) = d" if "(x, d) \<in> set ?R" for x d
    proof (rule unat_word_of_nat)
      from that have "at_distance ?E {source} d x" by (simp only: correct(3))
      from small [OF this] show "d < 2 ^ LENGTH(64)" by simp
    qed
    have "map (\<lambda>(x, d). unat d) (map as_distance ?R) = map snd ?R"
      by (auto simp: as_distance_def unat)
    moreover have "map fst (map as_distance ?R) = map fst ?R" by (simp add: as_distance_def)
    moreover have "(x, d) \<in> set (map as_distance ?R) \<longleftrightarrow> at_distance ?E {source} (unat d) x" for x d
    proof
      assume "(x, d) \<in> set (map as_distance ?R)"
      then show "at_distance ?E {source} (unat d) x" using correct(3) unat by (auto simp: as_distance_def)
    next
      assume "at_distance ?E {source} (unat d) x"
      then have "(x, unat d) \<in> set ?R" using correct(3) by simp
      then show "(x, d) \<in> set (map as_distance ?R)" by (force simp: as_distance_def)
    qed
    moreover have "fst ` set (map as_distance ?R) = {x. (source, x) \<in> ?E\<^sup>*}"
    proof -
      have "x \<in> fst ` set ?R \<longleftrightarrow> (\<exists>d. at_distance ?E {source} d x)" for x
        using correct(3) by force
      then show ?thesis by (auto simp: as_distance_def at_distance_exists image_image)
    qed
    ultimately show ?thesis using result True correct(1,2) by (intro exI [of _ "map as_distance ?R"]) (simp only: simp_thms)
  qed
qed

theorem shortest_path_lengths_correct_witness:
  "\<exists>result. shortest_path_lengths (csr_topology example_view) 1 [1] = Some result \<and>
     fst ` set result = {x. (1, x) \<in> (induced_steps (csr_topology example_view) {1})\<^sup>*}"
  using shortest_path_lengths_correct [OF example_topology, of "[1]" 1] example_start by auto

end
