(* ===== verification/Toposort.thy ===== *)
theory Toposort
  imports Induced
begin

text \<open>
  \<open>topological_sort\<close> of \<open>crates/oxgraph-algo/src/toposort.rs\<close>, Kahn's algorithm over the subgraph induced by
  the requested elements, and \<open>longest_path_dag\<close> of \<open>longest_path_dag.rs\<close> on top of it.
\<close>

section \<open>The algorithm\<close>

datatype toposort_error = ToposortCycle

text \<open>\<open>indegree[target] += 1\<close> for each participating entry.\<close>

fun count_targets :: "'n topology_view \<Rightarrow> bool list \<Rightarrow> nat list \<Rightarrow> 'n list \<Rightarrow> nat list option" where
  "count_targets g member indegree [] = Some indegree"
| "count_targets g member indegree (successor # rest) =
     Option.bind (element_index g successor) (\<lambda>target.
       if target < element_bound g then
         Option.bind (index_or_panic member target) (\<lambda>requested.
           if requested then
             Option.bind (index_or_panic indegree target) (\<lambda>old.
             Option.bind (checked_add old 1) (\<lambda>new.
               count_targets g member (indegree[target := new]) rest))
           else count_targets g member indegree rest)
       else count_targets g member indegree rest)"

fun count_indegrees :: "'n topology_view \<Rightarrow> bool list \<Rightarrow> nat list \<Rightarrow> 'n list \<Rightarrow> nat list option" where
  "count_indegrees g member indegree [] = Some indegree"
| "count_indegrees g member indegree (node # rest) =
     Option.bind (element_successors g node) (\<lambda>successors.
     Option.bind (count_targets g member indegree successors) (\<lambda>indegree.
       count_indegrees g member indegree rest))"

fun seed_queue :: "'n topology_view \<Rightarrow> nat list \<Rightarrow> 'n list \<Rightarrow> 'n list \<Rightarrow> 'n list option" where
  "seed_queue g indegree queue [] = Some queue"
| "seed_queue g indegree queue (node # rest) =
     Option.bind (element_index g node) (\<lambda>index.
     Option.bind (index_or_panic indegree index) (\<lambda>degree.
       seed_queue g indegree (if degree = 0 then queue @ [node] else queue) rest))"

text \<open>\<open>indegree[target] -= 1\<close> panics at zero.\<close>

fun release_targets ::
    "'n topology_view \<Rightarrow> bool list \<Rightarrow> nat list \<Rightarrow> 'n list \<Rightarrow> 'n list \<Rightarrow> (nat list \<times> 'n list) option" where
  "release_targets g member indegree queue [] = Some (indegree, queue)"
| "release_targets g member indegree queue (successor # rest) =
     Option.bind (element_index g successor) (\<lambda>target.
       if target \<ge> element_bound g then release_targets g member indegree queue rest
       else
         Option.bind (index_or_panic member target) (\<lambda>requested.
           if \<not> requested then release_targets g member indegree queue rest
           else
             Option.bind (index_or_panic indegree target) (\<lambda>old.
               if old = 0 then None
               else
                 release_targets g member (indegree[target := old - 1])
                   (if old - 1 = 0 then queue @ [successor] else queue) rest)))"

partial_function (option) kahn_loop ::
    "'n topology_view \<Rightarrow> bool list \<Rightarrow> nat list \<Rightarrow> 'n list \<Rightarrow> 'n list \<Rightarrow> 'n list option" where
  "kahn_loop g member indegree queue order =
     (case queue of
        [] \<Rightarrow> Some order
      | node # rest \<Rightarrow>
          Option.bind (element_successors g node) (\<lambda>successors.
          Option.bind (release_targets g member indegree rest successors) (\<lambda>(indegree, queue).
            kahn_loop g member indegree queue (order @ [node]))))"

definition topological_sort :: "'n topology_view \<Rightarrow> 'n list \<Rightarrow> (toposort_error, 'n list) run" where
  "topological_sort g elements =
     (let bound = element_bound g in
      Option.bind (collect_members g (replicate bound False) [] elements) (\<lambda>(member, nodes).
      Option.bind (count_indegrees g member (replicate bound 0) nodes) (\<lambda>indegree.
      Option.bind (seed_queue g indegree [] nodes) (\<lambda>queue.
      Option.bind (kahn_loop g member indegree queue []) (\<lambda>order.
        Some (if length order = length nodes then Ok order else Err ToposortCycle))))))"

datatype longest_path_error = LongestPathCycle

fun relax_targets ::
    "'n topology_view \<Rightarrow> 'n \<Rightarrow> nat \<Rightarrow> nat list \<Rightarrow> 'n option list \<Rightarrow> 'n list \<Rightarrow> (nat list \<times> 'n option list) option" where
  "relax_targets g node node_length lengths predecessor [] = Some (lengths, predecessor)"
| "relax_targets g node node_length lengths predecessor (successor # rest) =
     Option.bind (element_index g successor) (\<lambda>target.
       if target < element_bound g then
         Option.bind (index_or_panic lengths target) (\<lambda>old.
         Option.bind (checked_add node_length 1) (\<lambda>candidate.
           if old < candidate then
             Option.bind (store_or_panic predecessor target (Some node)) (\<lambda>predecessor.
               relax_targets g node node_length (lengths[target := candidate]) predecessor rest)
           else relax_targets g node node_length lengths predecessor rest))
       else relax_targets g node node_length lengths predecessor rest)"

fun longest_pass ::
    "'n topology_view \<Rightarrow> nat list \<Rightarrow> 'n option list \<Rightarrow> 'n option \<Rightarrow> nat \<Rightarrow> 'n list \<Rightarrow> ('n option list \<times> 'n option) option" where
  "longest_pass g lengths predecessor best_end best_length [] = Some (predecessor, best_end)"
| "longest_pass g lengths predecessor best_end best_length (node # rest) =
     Option.bind (element_index g node) (\<lambda>node_index.
     Option.bind (index_or_panic lengths node_index) (\<lambda>node_length.
       let better = best_end = None \<or> node_length > best_length in
       Option.bind (element_successors g node) (\<lambda>successors.
       Option.bind (relax_targets g node node_length lengths predecessor successors) (\<lambda>(lengths, predecessor).
         longest_pass g lengths predecessor (if better then Some node else best_end)
           (if better then node_length else best_length) rest))))"

partial_function (option) path_loop ::
    "'n topology_view \<Rightarrow> 'n option list \<Rightarrow> 'n option \<Rightarrow> 'n list \<Rightarrow> 'n list option" where
  "path_loop g predecessor cursor path =
     (case cursor of
        None \<Rightarrow> Some path
      | Some node \<Rightarrow>
          Option.bind (element_index g node) (\<lambda>index.
          Option.bind (index_or_panic predecessor index) (\<lambda>cursor.
            path_loop g predecessor cursor (path @ [node]))))"

definition longest_path_dag :: "'n topology_view \<Rightarrow> 'n list \<Rightarrow> (longest_path_error, 'n list) run" where
  "longest_path_dag g elements =
     run_then (map_option (map_err (\<lambda>_. LongestPathCycle)) (topological_sort g elements)) (\<lambda>order.
       if order = [] then Some (Ok [])
       else
         let bound = element_bound g in
         Option.bind (longest_pass g (replicate bound 0) (replicate bound None) None 0 order)
           (\<lambda>(predecessor, best_end).
         Option.bind (path_loop g predecessor best_end []) (\<lambda>path. Some (Ok (rev path)))))"

section \<open>Tables\<close>

text \<open>A per-index table that holds the value of each contained element.\<close>

definition tabulated :: "'n topology_view \<Rightarrow> 'a list \<Rightarrow> ('n \<Rightarrow> 'a) \<Rightarrow> bool" where
  "tabulated g table f \<longleftrightarrow> element_bound g \<le> length table \<and>
     (\<forall>x i. contains_element g x \<longrightarrow> element_index g x = Some i \<longrightarrow> table ! i = f x)"

lemma tabulated_index:
  assumes "topology_ok dir g" and "tabulated g table f" and "contains_element g x"
  obtains i where "element_index g x = Some i" and "i < element_bound g" and "i < length table"
    and "table ! i = f x" and "\<And>v. tabulated g (table[i := v]) (f(x := v))"
proof -
  from topology_ok_index [OF assms(1,3)] obtain i where i: "i < element_bound g" "element_index g x = Some i" by blast
  moreover from i assms(2,3) have len: "i < length table" and "table ! i = f x" by (auto simp: tabulated_def)
  moreover have "tabulated g (table[i := v]) (f(x := v))" for v
    unfolding tabulated_def
  proof (intro conjI allI impI)
    fix y j
    assume y: "contains_element g y" "element_index g y = Some j"
    moreover have "j = i \<longleftrightarrow> y = x" using topology_ok_distinct [OF assms(1) y(1) assms(3)] y(2) i(2) by auto
    ultimately show "table[i := v] ! j = (f(x := v)) y" using assms(2) len by (auto simp: tabulated_def nth_list_update)
  qed (use assms(2) in \<open>simp add: tabulated_def\<close>)
  ultimately show ?thesis using that by blast
qed

lemma tabulated_const: "topology_ok dir g \<Longrightarrow> tabulated g (replicate (element_bound g) v) (\<lambda>_. v)"
  using topology_ok_index by (fastforce simp: tabulated_def)

lemma marked_lookup:
  assumes "topology_ok dir g" and "marked g member M" and "contains_element g x" and "element_index g x = Some i"
  shows "i < length member" and "member ! i \<longleftrightarrow> x \<in> M"
  using marked_index [OF assms(1-3)] assms(4) by auto

lemma tabulated_cong: "tabulated g table f \<Longrightarrow> (\<And>x. contains_element g x \<Longrightarrow> f x = f' x) \<Longrightarrow> tabulated g table f'"
  by (simp add: tabulated_def)

section \<open>In-degrees\<close>

text \<open>The entries into an element from the requested elements outside a set.\<close>

definition entries_into :: "'n topology_view \<Rightarrow> 'n set \<Rightarrow> 'n \<Rightarrow> nat" where
  "entries_into g U y = (\<Sum>u \<in> U. count_list (neighbors Forward g u) y)"

lemma count_targets_Some:
  assumes ok: "topology_ok Forward g" and member: "marked g member M"
    and "tabulated g indegree deg" and "\<forall>x \<in> set ts. contains_element g x"
    and "\<And>x. x \<in> M \<Longrightarrow> deg x + count_list ts x \<le> usize_max"
  shows "\<exists>indegree'. count_targets g member indegree ts = Some indegree' \<and>
    tabulated g indegree' (\<lambda>y. if y \<in> M then deg y + count_list ts y else deg y)"
  using assms(3-5)
proof (induction ts arbitrary: indegree deg)
  case Nil
  then show ?case by (auto elim!: tabulated_cong)
next
  case (Cons x xs)
  from Cons.prems(2) have x: "contains_element g x" by simp
  from tabulated_index [OF ok Cons.prems(1) x] obtain i where
    i: "element_index g x = Some i" "i < element_bound g" "i < length indegree" "indegree ! i = deg x"
      "tabulated g (indegree[i := deg x + 1]) (deg(x := deg x + 1))" by metis
  note m = marked_lookup [OF ok member x i(1)]
  show ?case
  proof (cases "x \<in> M")
    case True
    have "\<exists>indegree'. count_targets g member (indegree[i := deg x + 1]) xs = Some indegree' \<and>
        tabulated g indegree' (\<lambda>y. if y \<in> M then (deg(x := deg x + 1)) y + count_list xs y else (deg(x := deg x + 1)) y)"
    proof (rule Cons.IH [OF i(5)])
      show "(deg(x := deg x + 1)) y + count_list xs y \<le> usize_max" if "y \<in> M" for y
        using Cons.prems(3) [OF that] by (auto split: if_splits)
    qed (use Cons.prems(2) in simp)
    moreover have "deg x + 1 \<le> usize_max" using Cons.prems(3) [OF True] by simp
    ultimately show ?thesis
      using True i m by (auto simp: checked_add_def elim!: tabulated_cong)
  next
    case False
    have "\<exists>indegree'. count_targets g member indegree xs = Some indegree' \<and>
        tabulated g indegree' (\<lambda>y. if y \<in> M then deg y + count_list xs y else deg y)"
    proof (rule Cons.IH [OF Cons.prems(1)])
      show "deg y + count_list xs y \<le> usize_max" if "y \<in> M" for y
        using Cons.prems(3) [OF that] by (auto split: if_splits)
    qed (use Cons.prems(2) in simp)
    with False i m show ?thesis by (auto elim!: tabulated_cong)
  qed
qed


lemma count_indegrees_Some:
  assumes ok: "topology_ok Forward g" and member: "marked g member M"
    and "tabulated g indegree deg" and "\<forall>x \<in> set nodes. contains_element g x" and "distinct nodes"
    and "\<And>x. x \<in> M \<Longrightarrow> deg x + entries_into g (set nodes) x \<le> usize_max"
  shows "\<exists>indegree'. count_indegrees g member indegree nodes = Some indegree' \<and>
    tabulated g indegree' (\<lambda>y. if y \<in> M then deg y + entries_into g (set nodes) y else deg y)"
  using assms(3-6)
proof (induction nodes arbitrary: indegree deg)
  case Nil
  then show ?case by (auto simp: entries_into_def elim!: tabulated_cong)
next
  case (Cons u us)
  from Cons.prems(2) have u: "contains_element g u" by simp
  note succs = expand_neighbors(1,2) [OF ok u]
  let ?ts = "neighbors Forward g u"
  have split: "entries_into g (set (u # us)) y = count_list ?ts y + entries_into g (set us) y" for y
    using Cons.prems(3) by (simp add: entries_into_def)
  have "\<exists>indegree'. count_targets g member indegree ?ts = Some indegree' \<and>
      tabulated g indegree' (\<lambda>y. if y \<in> M then deg y + count_list ?ts y else deg y)"
  proof (rule count_targets_Some [OF ok member Cons.prems(1)])
    show "deg x + count_list ?ts x \<le> usize_max" if "x \<in> M" for x
      using Cons.prems(4) [OF that] split [of x] by simp
  qed (use succs(2) in blast)
  then obtain indegree1 where one: "count_targets g member indegree ?ts = Some indegree1"
      "tabulated g indegree1 (\<lambda>y. if y \<in> M then deg y + count_list ?ts y else deg y)" by blast
  have "\<exists>indegree'. count_indegrees g member indegree1 us = Some indegree' \<and>
      tabulated g indegree' (\<lambda>y. if y \<in> M then (if y \<in> M then deg y + count_list ?ts y else deg y) + entries_into g (set us) y
        else (if y \<in> M then deg y + count_list ?ts y else deg y))"
  proof (rule Cons.IH [OF one(2)])
    show "(if x \<in> M then deg x + count_list ?ts x else deg x) + entries_into g (set us) x \<le> usize_max" if "x \<in> M" for x
      using Cons.prems(4) [OF that] split [of x] that by simp
  qed (use Cons.prems in simp_all)
  then obtain indegree2 where two: "count_indegrees g member indegree1 us = Some indegree2"
      "tabulated g indegree2 (\<lambda>y. if y \<in> M then (if y \<in> M then deg y + count_list ?ts y else deg y) + entries_into g (set us) y
        else (if y \<in> M then deg y + count_list ?ts y else deg y))" by blast
  have "tabulated g indegree2 (\<lambda>y. if y \<in> M then deg y + entries_into g (set (u # us)) y else deg y)"
    by (rule tabulated_cong [OF two(2)]) (simp only: split if_True if_False ac_simps cong: if_cong)
  with one(1) two(1) succs(1) show ?case by simp
qed

lemma seed_queue_Some:
  assumes ok: "topology_ok dir g" and "tabulated g indegree deg" and "\<forall>x \<in> set nodes. contains_element g x"
  shows "seed_queue g indegree queue nodes = Some (queue @ filter (\<lambda>x. deg x = 0) nodes)"
  using assms(3)
proof (induction nodes arbitrary: queue)
  case (Cons x xs)
  from Cons.prems have x: "contains_element g x" by simp
  from tabulated_index [OF ok assms(2) x] obtain i where
    "element_index g x = Some i" "i < length indegree" "indegree ! i = deg x" by metis
  with Cons show ?case by simp
qed simp

lemma release_targets_Some:
  assumes ok: "topology_ok Forward g" and member: "marked g member M"
    and "tabulated g indegree deg" and "\<forall>x \<in> set ts. contains_element g x"
    and "\<And>x. x \<in> M \<Longrightarrow> count_list ts x \<le> deg x"
  shows "\<exists>indegree' new. release_targets g member indegree queue ts = Some (indegree', queue @ new) \<and>
    tabulated g indegree' (\<lambda>y. if y \<in> M then deg y - count_list ts y else deg y) \<and>
    distinct new \<and> set new = {y \<in> M. y \<in> set ts \<and> deg y = count_list ts y}"
  using assms(3-5)
proof (induction ts arbitrary: indegree deg queue)
  case Nil
  then show ?case by (auto elim!: tabulated_cong)
next
  case (Cons x xs)
  from Cons.prems(2) have x: "contains_element g x" by simp
  from tabulated_index [OF ok Cons.prems(1) x] obtain i where
    i: "element_index g x = Some i" "i < element_bound g" "i < length indegree" "indegree ! i = deg x"
      "tabulated g (indegree[i := deg x - 1]) (deg(x := deg x - 1))" by metis
  note m = marked_lookup [OF ok member x i(1)]
  show ?case
  proof (cases "x \<in> M")
    case True
    let ?deg = "deg(x := deg x - 1)" and ?queue = "if deg x - 1 = 0 then queue @ [x] else queue"
    from Cons.prems(3) [OF True] have pos: "0 < deg x" "count_list xs x \<le> deg x - 1" by simp_all
    have "\<exists>indegree' new. release_targets g member (indegree[i := deg x - 1]) ?queue xs = Some (indegree', ?queue @ new) \<and>
        tabulated g indegree' (\<lambda>y. if y \<in> M then ?deg y - count_list xs y else ?deg y) \<and>
        distinct new \<and> set new = {y \<in> M. y \<in> set xs \<and> ?deg y = count_list xs y}"
    proof (rule Cons.IH [OF i(5)])
      show "count_list xs y \<le> ?deg y" if "y \<in> M" for y
        using Cons.prems(3) [OF that] pos by (auto split: if_splits)
    qed (use Cons.prems(2) in simp)
    then obtain indegree' new where
      rec: "release_targets g member (indegree[i := deg x - 1]) ?queue xs = Some (indegree', ?queue @ new)"
        "tabulated g indegree' (\<lambda>y. if y \<in> M then ?deg y - count_list xs y else ?deg y)"
        "distinct new" "set new = {y \<in> M. y \<in> set xs \<and> ?deg y = count_list xs y}" by blast
    let ?new = "(if deg x - 1 = 0 then [x] else []) @ new"
    have "tabulated g indegree' (\<lambda>y. if y \<in> M then deg y - count_list (x # xs) y else deg y)"
      by (rule tabulated_cong [OF rec(2)]) (auto simp: True)
    moreover have "distinct ?new \<and> set ?new = {y \<in> M. y \<in> set (x # xs) \<and> deg y = count_list (x # xs) y}"
    proof (cases "deg x = 1")
      case one: True
      with pos(2) have out: "x \<notin> set xs" and zero: "count_list xs x = 0" by (simp_all add: count_list_0_iff)
      have "y \<in> set ([x] @ new) \<longleftrightarrow> y \<in> {y \<in> M. y \<in> set (x # xs) \<and> deg y = count_list (x # xs) y}" for y
        using out zero one True by (cases "y = x") (simp_all add: rec(4))
      then have "set ([x] @ new) = {y \<in> M. y \<in> set (x # xs) \<and> deg y = count_list (x # xs) y}" by blast
      then show ?thesis using rec(3,4) one out by simp
    next
      case False
      have "x \<in> set xs" if "deg x = Suc (count_list xs x)"
        using that False by (metis One_nat_def count_list_0_iff)
      then have "set new = {y \<in> M. y \<in> set (x # xs) \<and> deg y = count_list (x # xs) y}"
        unfolding rec(4) using pos True by (intro Collect_cong) auto
      then show ?thesis using rec(3) False pos by simp
    qed
    moreover have "release_targets g member indegree queue (x # xs) = Some (indegree', queue @ ?new)"
      using i(1-4) m True pos rec(1) by simp
    ultimately show ?thesis by blast
  next
    case False
    have "\<exists>indegree' new. release_targets g member indegree queue xs = Some (indegree', queue @ new) \<and>
        tabulated g indegree' (\<lambda>y. if y \<in> M then deg y - count_list xs y else deg y) \<and>
        distinct new \<and> set new = {y \<in> M. y \<in> set xs \<and> deg y = count_list xs y}"
    proof (rule Cons.IH [OF Cons.prems(1)])
      show "count_list xs y \<le> deg y" if "y \<in> M" for y
        using Cons.prems(3) [OF that] by (auto split: if_splits)
    qed (use Cons.prems(2) in simp)
    then obtain indegree' new where
      rec: "release_targets g member indegree queue xs = Some (indegree', queue @ new)"
        "tabulated g indegree' (\<lambda>y. if y \<in> M then deg y - count_list xs y else deg y)"
        "distinct new" "set new = {y \<in> M. y \<in> set xs \<and> deg y = count_list xs y}" by blast
    have "tabulated g indegree' (\<lambda>y. if y \<in> M then deg y - count_list (x # xs) y else deg y)"
      by (rule tabulated_cong [OF rec(2)]) (use False in auto)
    moreover have "set new = {y \<in> M. y \<in> set (x # xs) \<and> deg y = count_list (x # xs) y}"
      using rec(4) False by auto
    moreover have "release_targets g member indegree queue (x # xs) = Some (indegree', queue @ new)"
      using i(1-4) m False rec(1) by simp
    ultimately show ?thesis using rec(3) by blast
  qed
qed


section \<open>Kahn's invariant\<close>

text \<open>An order in which every element comes after its predecessors.\<close>

definition prefix_closed :: "('n \<times> 'n) set \<Rightarrow> 'n list \<Rightarrow> bool" where
  "prefix_closed E xs \<longleftrightarrow> (\<forall>i < length xs. \<forall>u. (u, xs ! i) \<in> E \<longrightarrow> u \<in> set (take i xs))"

definition kahn_inv :: "'n topology_view \<Rightarrow> 'n set \<Rightarrow> nat list \<Rightarrow> 'n list \<Rightarrow> 'n list \<Rightarrow> bool" where
  "kahn_inv g M indegree queue order \<longleftrightarrow>
     distinct (order @ queue) \<and> set (order @ queue) \<subseteq> M \<and>
     tabulated g indegree (\<lambda>y. if y \<in> M then entries_into g (M - set order) y else 0) \<and>
     (\<forall>x \<in> M. x \<in> set (order @ queue) \<longleftrightarrow> entries_into g (M - set order) x = 0) \<and>
     prefix_closed (induced_steps g M) order"

lemma prefix_closed_snoc:
  "prefix_closed E (xs @ [x]) \<longleftrightarrow> prefix_closed E xs \<and> (\<forall>u. (u, x) \<in> E \<longrightarrow> u \<in> set xs)"
  by (auto simp: prefix_closed_def nth_append less_Suc_eq all_conj_distrib)

lemma prefix_closed_forward:
  assumes "prefix_closed E xs" and "distinct xs" and "i < length xs" and "j < length xs" and "(xs ! i, xs ! j) \<in> E"
  shows "i < j"
proof -
  from assms have "xs ! i \<in> set (take j xs)" by (auto simp: prefix_closed_def)
  then obtain k where "k < j" "k < length xs" "xs ! i = xs ! k" by (auto simp: in_set_conv_nth)
  with assms(2,3) show ?thesis by (simp add: nth_eq_iff_index_eq)
qed

lemma prefix_closed_acyclic:
  assumes "prefix_closed E xs" and "distinct xs" and "\<And>x y. (x, y) \<in> E \<Longrightarrow> x \<in> set xs \<and> y \<in> set xs"
  shows "acyclic E"
proof -
  define pos where "pos x = (THE i. i < length xs \<and> xs ! i = x)" for x
  have pos: "pos (xs ! i) = i" if "i < length xs" for i
    unfolding pos_def using that assms(2) by (auto simp: nth_eq_iff_index_eq)
  have "pos x < pos y" if "(x, y) \<in> E" for x y
  proof -
    from assms(3) [OF that] obtain i j where ij: "i < length xs" "j < length xs" "x = xs ! i" "y = xs ! j"
      by (metis in_set_conv_nth)
    with prefix_closed_forward [OF assms(1,2) ij(1,2)] that show ?thesis by (simp add: pos)
  qed
  then have "acyclic (E\<inverse>)" by (intro acyclicI_order [of _ pos]) simp
  then show ?thesis by simp
qed

lemma entries_into_0_iff:
  assumes "topology_ok Forward g" and "\<forall>x \<in> U. contains_element g x"
  shows "entries_into g U y = 0 \<longleftrightarrow> (\<forall>u \<in> U. (u, y) \<notin> steps Forward g)"
proof -
  have "finite U" by (rule finite_subset [OF _ contained_finite(1) [OF assms(1)]]) (use assms(2) in auto)
  then show ?thesis
    using expand_neighbors(3) [OF assms(1)] assms(2) by (simp add: entries_into_def count_list_0_iff)
qed

lemma entries_into_remove:
  assumes "topology_ok Forward g" and "\<forall>x \<in> U. contains_element g x" and "x \<in> U"
  shows "entries_into g U y = count_list (neighbors Forward g x) y + entries_into g (U - {x}) y"
proof -
  have "finite U" by (rule finite_subset [OF _ contained_finite(1) [OF assms(1)]]) (use assms(2) in auto)
  then show ?thesis unfolding entries_into_def by (rule sum.remove) (rule assms(3))
qed

lemma kahn_step:
  assumes ok: "topology_ok Forward g" and M: "\<forall>x \<in> M. contains_element g x" and member: "marked g member M"
    and inv: "kahn_inv g M indegree (x # rest) order"
  shows "\<exists>indegree' new. release_targets g member indegree rest (neighbors Forward g x) = Some (indegree', rest @ new) \<and>
    kahn_inv g M indegree' (rest @ new) (order @ [x])"
proof -
  let ?R = "M - set order" and ?R' = "M - set (order @ [x])" and ?ts = "neighbors Forward g x"
  let ?deg = "\<lambda>y. if y \<in> M then entries_into g ?R y else 0"
  note invD = inv [unfolded kahn_inv_def]
  from invD have dist: "distinct (order @ x # rest)" and sub: "set (order @ x # rest) \<subseteq> M"
    and tab: "tabulated g indegree ?deg" and prefix: "prefix_closed (induced_steps g M) order" by blast+
  from invD have iff: "y \<in> set (order @ x # rest) \<longleftrightarrow> entries_into g ?R y = 0" if "y \<in> M" for y using that by blast
  have x: "x \<in> ?R" "x \<in> M" "contains_element g x" using dist sub M by auto
  have R': "?R' = ?R - {x}" by auto
  have split: "entries_into g ?R y = count_list ?ts y + entries_into g ?R' y" for y
    unfolding R' by (rule entries_into_remove [OF ok _ x(1)]) (use M in blast)
  have "\<exists>indegree' new. release_targets g member indegree rest ?ts = Some (indegree', rest @ new) \<and>
      tabulated g indegree' (\<lambda>y. if y \<in> M then ?deg y - count_list ?ts y else ?deg y) \<and>
      distinct new \<and> set new = {y \<in> M. y \<in> set ?ts \<and> ?deg y = count_list ?ts y}"
    by (rule release_targets_Some [OF ok member tab]) (use expand_neighbors(2) [OF ok x(3)] split in auto)
  then obtain indegree' new where run: "release_targets g member indegree rest ?ts = Some (indegree', rest @ new)"
    and tab': "tabulated g indegree' (\<lambda>y. if y \<in> M then ?deg y - count_list ?ts y else ?deg y)"
    and new: "distinct new" "set new = {y \<in> M. y \<in> set ?ts \<and> ?deg y = count_list ?ts y}" by blast
  have fresh: "y \<in> set new \<longleftrightarrow> y \<in> M \<and> y \<in> set ?ts \<and> entries_into g ?R' y = 0" for y
    unfolding new(2) using split [of y] by auto
  have old: "y \<notin> set ?ts" "entries_into g ?R' y = 0" if "y \<in> set (order @ x # rest)" for y
  proof -
    from that sub iff have "entries_into g ?R y = 0" by blast
    with split [of y] show "y \<notin> set ?ts" "entries_into g ?R' y = 0" by (simp_all add: count_list_0_iff)
  qed
  have "tabulated g indegree' (\<lambda>y. if y \<in> M then entries_into g ?R' y else 0)"
    by (rule tabulated_cong [OF tab']) (simp add: split)
  moreover have "distinct ((order @ [x]) @ rest @ new)"
    using dist new(1) old(1) fresh by auto
  moreover have "set ((order @ [x]) @ rest @ new) \<subseteq> M" using sub fresh by auto
  moreover have "y \<in> set ((order @ [x]) @ rest @ new) \<longleftrightarrow> entries_into g ?R' y = 0" if "y \<in> M" for y
  proof
    assume "y \<in> set ((order @ [x]) @ rest @ new)"
    then have "y \<in> set (order @ x # rest) \<or> y \<in> set new" by auto
    then show "entries_into g ?R' y = 0" using old(2) fresh by blast
  next
    assume "entries_into g ?R' y = 0"
    then have "y \<in> set new \<or> entries_into g ?R y = 0"
      using fresh [of y] that split [of y] by (cases "y \<in> set ?ts") (auto simp: count_list_0_iff)
    then show "y \<in> set ((order @ [x]) @ rest @ new)" using iff [OF that] by auto
  qed
  moreover have "prefix_closed (induced_steps g M) (order @ [x])"
  proof (unfold prefix_closed_snoc, intro conjI allI impI)
    fix u assume "(u, x) \<in> induced_steps g M"
    then have u: "u \<in> M" "(u, x) \<in> steps Forward g" by (auto simp: induced_steps_def)
    have "entries_into g ?R x = 0" using iff [OF x(2)] by simp
    then have "u \<notin> ?R" using entries_into_0_iff [OF ok, of ?R x] M u(2) by blast
    with u(1) show "u \<in> set order" by blast
  qed (rule prefix)
  ultimately have "kahn_inv g M indegree' (rest @ new) (order @ [x])" unfolding kahn_inv_def by blast
  with run show ?thesis by blast
qed

lemma kahn_loop_Some:
  assumes ok: "topology_ok Forward g" and M: "\<forall>x \<in> M. contains_element g x" and member: "marked g member M"
    and "kahn_inv g M indegree queue order" and "card M \<le> length order + n"
  shows "\<exists>order' indegree'. kahn_loop g member indegree queue order = Some order' \<and> kahn_inv g M indegree' [] order'"
  using assms(4,5)
proof (induction n arbitrary: indegree queue order)
  case 0
  have "finite M" by (rule finite_subset [OF _ contained_finite(1) [OF ok]]) (use M in auto)
  then have "card (set (order @ queue)) \<le> card M" using 0(1) by (intro card_mono) (auto simp: kahn_inv_def)
  moreover have "card (set (order @ queue)) = length order + length queue"
    using 0(1) distinct_card [of "order @ queue"] by (simp add: kahn_inv_def)
  ultimately have "length queue = 0" using 0(2) by linarith
  with 0(1) show ?case by (auto simp: kahn_loop.simps)
next
  case (Suc n)
  show ?case
  proof (cases queue)
    case Nil
    with Suc.prems(1) show ?thesis by (auto simp: kahn_loop.simps)
  next
    case (Cons x rest)
    with Suc.prems(1) have inv: "kahn_inv g M indegree (x # rest) order" by simp
    then have "contains_element g x" using M by (auto simp: kahn_inv_def)
    note succs = expand_neighbors(1) [OF ok this]
    from kahn_step [OF ok M member inv] obtain indegree' new where
      step: "release_targets g member indegree rest (neighbors Forward g x) = Some (indegree', rest @ new)"
        "kahn_inv g M indegree' (rest @ new) (order @ [x])" by blast
    from Suc.IH [OF step(2)] Suc.prems(2) obtain order' indegree'' where
      "kahn_loop g member indegree' (rest @ new) (order @ [x]) = Some order'" "kahn_inv g M indegree'' [] order'" by auto
    with step(1) succs Cons show ?thesis by (auto simp: kahn_loop.simps [of g member indegree])
  qed
qed

text \<open>When the queue runs dry, either every element is ordered or those left over contain a cycle.\<close>

lemma kahn_final:
  assumes ok: "topology_ok Forward g" and M: "\<forall>x \<in> M. contains_element g x" and inv: "kahn_inv g M indegree [] order"
  shows "acyclic (induced_steps g M) \<longleftrightarrow> set order = M"
proof
  assume "set order = M"
  with inv show "acyclic (induced_steps g M)"
    by (intro prefix_closed_acyclic [of _ order]) (auto simp: kahn_inv_def induced_steps_def)
next
  assume acyclic: "acyclic (induced_steps g M)"
  have fin: "finite M" by (rule finite_subset [OF _ contained_finite(1) [OF ok]]) (use M in auto)
  have "finite (induced_steps g M)"
    by (rule finite_subset [of _ "M \<times> M"]) (use fin in \<open>auto simp: induced_steps_def\<close>)
  then have wf: "wf (induced_steps g M)" using acyclic by (rule finite_acyclic_wf)
  have "M - set order = {}"
  proof (rule ccontr)
    assume "M - set order \<noteq> {}"
    from wfE_min' [OF wf this] obtain x where
      x: "x \<in> M - set order" "\<And>u. (u, x) \<in> induced_steps g M \<Longrightarrow> u \<notin> M - set order" by blast
    then have "\<forall>u \<in> M - set order. (u, x) \<notin> steps Forward g" by (auto simp: induced_steps_def)
    then have "entries_into g (M - set order) x = 0" using entries_into_0_iff [OF ok, of "M - set order"] M by blast
    with inv x(1) show False by (auto simp: kahn_inv_def)
  qed
  with inv show "set order = M" by (auto simp: kahn_inv_def)
qed


lemma topological_sort_runs:
  assumes ok: "topology_ok Forward g" and M: "\<forall>x \<in> set elements. contains_element g x"
    and fits: "\<And>x. x \<in> set elements \<Longrightarrow> entries_into g (set elements) x \<le> usize_max"
  obtains order where
    "topological_sort g elements =
      Some (if acyclic (induced_steps g (set elements)) then Ok order else Err ToposortCycle)"
    and "distinct order" and "set order \<subseteq> set elements"
    and "acyclic (induced_steps g (set elements)) \<Longrightarrow> set order = set elements"
    and "prefix_closed (induced_steps g (set elements)) order"
proof -
  let ?M = "set elements" and ?nodes = "fresh {} elements" and ?bound = "element_bound g"
  let ?E = "induced_steps g ?M"
  have nodes: "set ?nodes = ?M" "distinct ?nodes" by (simp_all add: set_fresh distinct_fresh)
  from collect_members_Some [OF ok marked_none [OF ok] M, of "[]"] obtain member where
    member: "collect_members g (replicate ?bound False) [] elements = Some (member, ?nodes)" "marked g member ?M" by auto
  have "\<exists>indegree. count_indegrees g member (replicate ?bound 0) ?nodes = Some indegree \<and>
      tabulated g indegree (\<lambda>y. if y \<in> ?M then 0 + entries_into g (set ?nodes) y else 0)"
    by (rule count_indegrees_Some [OF ok member(2) tabulated_const [OF ok]]) (use M fits nodes in auto)
  then obtain indegree where
    count: "count_indegrees g member (replicate ?bound 0) ?nodes = Some indegree"
      "tabulated g indegree (\<lambda>y. if y \<in> ?M then entries_into g ?M y else 0)"
    unfolding nodes(1) add_0 by blast
  let ?queue = "filter (\<lambda>x. (if x \<in> ?M then entries_into g ?M x else 0) = 0) ?nodes"
  have seed: "seed_queue g indegree [] ?nodes = Some ?queue"
    using seed_queue_Some [OF ok count(2), of ?nodes "[]"] M nodes(1) by simp
  have "kahn_inv g ?M indegree ?queue []"
    using count(2) nodes unfolding kahn_inv_def prefix_closed_def list.set Diff_empty append_Nil by simp
  from kahn_loop_Some [OF ok M member(2) this, of "card ?M"] obtain order indegree' where
    loop: "kahn_loop g member indegree ?queue [] = Some order" "kahn_inv g ?M indegree' [] order" by auto
  note acyclic = kahn_final [OF ok M loop(2)]
  from loop(2) have order: "distinct order" "set order \<subseteq> ?M" "prefix_closed ?E order" by (simp_all add: kahn_inv_def)
  have "length order = length ?nodes \<longleftrightarrow> set order = ?M"
    using order(1,2) nodes by (metis List.finite_set card_subset_eq distinct_card)
  with acyclic have "topological_sort g elements = Some (if acyclic ?E then Ok order else Err ToposortCycle)"
    using member(1) count(1) seed loop(1) by (simp add: topological_sort_def)
  with order acyclic show ?thesis using that by blast
qed

section \<open>Longest chains\<close>

lemma relax_targets_Some:
  assumes ok: "topology_ok dir g" and n: "n + 1 \<le> usize_max"
    and "tabulated g lengths len" and "tabulated g predecessor pred" and "\<forall>x \<in> set ts. contains_element g x"
  shows "\<exists>lengths' predecessor'. relax_targets g x n lengths predecessor ts = Some (lengths', predecessor') \<and>
    tabulated g lengths' (\<lambda>y. if y \<in> set ts \<and> len y < n + 1 then n + 1 else len y) \<and>
    tabulated g predecessor' (\<lambda>y. if y \<in> set ts \<and> len y < n + 1 then Some x else pred y)"
  using assms(3-5)
proof (induction ts arbitrary: lengths len predecessor pred)
  case Nil
  then show ?case by simp
next
  case (Cons y ys)
  from Cons.prems(3) have y: "contains_element g y" and ys: "\<forall>x \<in> set ys. contains_element g x" by simp_all
  from tabulated_index [OF ok Cons.prems(1) y] obtain i where
    i: "element_index g y = Some i" "i < element_bound g" "i < length lengths" "lengths ! i = len y"
      "tabulated g (lengths[i := n + 1]) (len(y := n + 1))" by metis
  from tabulated_index [OF ok Cons.prems(2) y] i(1) have
    p: "i < length predecessor" "tabulated g (predecessor[i := Some x]) (pred(y := Some x))" by auto
  show ?case
  proof (cases "len y < n + 1")
    case True
    from Cons.IH [OF i(5) p(2) ys] obtain lengths' predecessor' where
      rec: "relax_targets g x n (lengths[i := n + 1]) (predecessor[i := Some x]) ys = Some (lengths', predecessor')"
        "tabulated g lengths' (\<lambda>z. if z \<in> set ys \<and> (len(y := n + 1)) z < n + 1 then n + 1 else (len(y := n + 1)) z)"
        "tabulated g predecessor' (\<lambda>z. if z \<in> set ys \<and> (len(y := n + 1)) z < n + 1 then Some x else (pred(y := Some x)) z)"
      by blast
    have "tabulated g lengths' (\<lambda>z. if z \<in> set (y # ys) \<and> len z < n + 1 then n + 1 else len z)"
      by (rule tabulated_cong [OF rec(2)]) (use True in auto)
    moreover have "tabulated g predecessor' (\<lambda>z. if z \<in> set (y # ys) \<and> len z < n + 1 then Some x else pred z)"
      by (rule tabulated_cong [OF rec(3)]) (use True in auto)
    moreover have "relax_targets g x n lengths predecessor (y # ys) = Some (lengths', predecessor')"
      using i p(1) True n rec(1) by (simp add: checked_add_def)
    ultimately show ?thesis by blast
  next
    case False
    from Cons.IH [OF Cons.prems(1,2) ys] obtain lengths' predecessor' where
      rec: "relax_targets g x n lengths predecessor ys = Some (lengths', predecessor')"
        "tabulated g lengths' (\<lambda>z. if z \<in> set ys \<and> len z < n + 1 then n + 1 else len z)"
        "tabulated g predecessor' (\<lambda>z. if z \<in> set ys \<and> len z < n + 1 then Some x else pred z)" by blast
    have "tabulated g lengths' (\<lambda>z. if z \<in> set (y # ys) \<and> len z < n + 1 then n + 1 else len z)"
      by (rule tabulated_cong [OF rec(2)]) (use False in auto)
    moreover have "tabulated g predecessor' (\<lambda>z. if z \<in> set (y # ys) \<and> len z < n + 1 then Some x else pred z)"
      by (rule tabulated_cong [OF rec(3)]) (use False in auto)
    moreover have "relax_targets g x n lengths predecessor (y # ys) = Some (lengths', predecessor')"
      using i p(1) False n rec(1) by (simp add: checked_add_def)
    ultimately show ?thesis by blast
  qed
qed

text \<open>
  The tables after the elements of \<open>seen\<close> were processed: chain lengths and predecessors of the
  requested elements, and the best end so far.
\<close>

definition chain_inv :: "('n \<times> 'n) set \<Rightarrow> 'n list \<Rightarrow> ('n \<Rightarrow> nat) \<Rightarrow> ('n \<Rightarrow> 'n option) \<Rightarrow> 'n set \<Rightarrow> bool" where
  "chain_inv E seen len pred M \<longleftrightarrow>
     (\<forall>y \<in> M. len y \<le> length seen \<and>
        (case pred y of None \<Rightarrow> len y = 0 | Some u \<Rightarrow> u \<in> set seen \<and> (u, y) \<in> E \<and> len y = len u + 1) \<and>
        (\<forall>u \<in> set seen. (u, y) \<in> E \<longrightarrow> len u + 1 \<le> len y))"

definition best_inv :: "'n list \<Rightarrow> ('n \<Rightarrow> nat) \<Rightarrow> 'n option \<Rightarrow> nat \<Rightarrow> bool" where
  "best_inv seen len best_end best_length \<longleftrightarrow>
     (case best_end of None \<Rightarrow> seen = [] | Some b \<Rightarrow> b \<in> set seen \<and> len b = best_length) \<and>
     (\<forall>u \<in> set seen. len u \<le> best_length)"

lemma chain_inv_step:
  assumes inv: "chain_inv E seen len pred M" and closed: "\<And>u v. (u, v) \<in> E \<Longrightarrow> u \<in> M \<and> v \<in> M"
    and x: "x \<in> M" and ts: "\<And>y. y \<in> M \<Longrightarrow> y \<in> set ts \<longleftrightarrow> (x, y) \<in> E"
    and forward: "\<And>u. u \<in> set (seen @ [x]) \<Longrightarrow> (x, u) \<notin> E" and seen: "set seen \<subseteq> M"
  defines "len' \<equiv> \<lambda>y. if y \<in> set ts \<and> len y < len x + 1 then len x + 1 else len y"
    and "pred' \<equiv> \<lambda>y. if y \<in> set ts \<and> len y < len x + 1 then Some x else pred y"
  shows "chain_inv E (seen @ [x]) len' pred' M" and "u \<in> set (seen @ [x]) \<Longrightarrow> len' u = len u"
proof -
  have same: "len' u = len u" if "u \<in> set (seen @ [x])" for u
  proof -
    from that seen x have "u \<in> M" by auto
    then show ?thesis using forward [OF that] ts by (simp add: len'_def)
  qed
  show "u \<in> set (seen @ [x]) \<Longrightarrow> len' u = len u" by (rule same)
  show "chain_inv E (seen @ [x]) len' pred' M"
    unfolding chain_inv_def
  proof (intro ballI conjI impI)
    fix y assume y: "y \<in> M"
    have invy: "len y \<le> length seen"
      "case pred y of None \<Rightarrow> len y = 0 | Some u \<Rightarrow> u \<in> set seen \<and> (u, y) \<in> E \<and> len y = len u + 1"
      "\<And>u. u \<in> set seen \<Longrightarrow> (u, y) \<in> E \<Longrightarrow> len u + 1 \<le> len y"
      using inv y by (auto simp: chain_inv_def)
    have lenx: "len x \<le> length seen" using inv x by (auto simp: chain_inv_def)
    show "len' y \<le> length (seen @ [x])" using invy(1) lenx by (simp add: len'_def)
    show "case pred' y of None \<Rightarrow> len' y = 0 | Some u \<Rightarrow> u \<in> set (seen @ [x]) \<and> (u, y) \<in> E \<and> len' y = len' u + 1"
    proof (cases "y \<in> set ts \<and> len y < len x + 1")
      case True
      then show ?thesis using same [of x] ts [OF y] by (simp add: pred'_def len'_def)
    next
      case False
      then have eq: "pred' y = pred y" "len' y = len y" by (auto simp: pred'_def len'_def)
      show ?thesis using invy(2) same by (auto simp: eq split: option.splits)
    qed
    show "len' u + 1 \<le> len' y" if u: "u \<in> set (seen @ [x])" and E: "(u, y) \<in> E" for u
    proof (cases "u = x")
      case True
      then show ?thesis using same [OF u] ts [OF y] E by (simp add: len'_def)
    next
      case False
      with u have "u \<in> set seen" by simp
      from invy(3) [OF this E] show ?thesis using same [OF u] by (simp add: len'_def)
    qed
  qed
qed


lemma best_inv_step:
  assumes "best_inv seen len best_end best_length" and "\<And>u. u \<in> set (seen @ [x]) \<Longrightarrow> len' u = len u"
  shows "best_inv (seen @ [x]) len' (if best_end = None \<or> len x > best_length then Some x else best_end)
    (if best_end = None \<or> len x > best_length then len x else best_length)"
proof (cases best_end)
  case None
  then show ?thesis using assms by (simp add: best_inv_def)
next
  case (Some b)
  then have b: "b \<in> set seen" "len b = best_length" "\<And>u. u \<in> set seen \<Longrightarrow> len u \<le> best_length"
    using assms(1) by (auto simp: best_inv_def)
  from b(3) assms(2) have "\<forall>u \<in> set seen. len' u \<le> best_length" by simp
  then show ?thesis using Some b(1,2) assms(2) by (force simp: best_inv_def)
qed

lemma longest_pass_Some:
  assumes ok: "topology_ok Forward g" and M: "\<forall>x \<in> M. contains_element g x"
    and order: "distinct order" "set order = M" "prefix_closed (induced_steps g M) order"
    and "order = seen @ rest" and "tabulated g lengths len" and "tabulated g predecessor pred"
    and "chain_inv (induced_steps g M) seen len pred M" and "best_inv seen len best_end best_length"
  shows "\<exists>predecessor' best' len' pred' best_length'.
    longest_pass g lengths predecessor best_end best_length rest = Some (predecessor', best') \<and>
    tabulated g predecessor' pred' \<and> chain_inv (induced_steps g M) order len' pred' M \<and>
    best_inv order len' best' best_length'"
  using assms(6-10)
proof (induction rest arbitrary: seen lengths len predecessor pred best_end best_length)
  case Nil
  then show ?case by auto
next
  case (Cons x rest)
  let ?E = "induced_steps g M" and ?ts = "neighbors Forward g x"
  have x: "x \<in> M" "contains_element g x" and seen: "set seen \<subseteq> M" using Cons.prems(1) order(2) M by auto
  have "length order \<le> element_bound g"
    using contained_finite [OF ok] M order(1,2)
    by (metis (no_types, lifting) card_mono distinct_card le_trans mem_Collect_eq subsetI)
  moreover have "len x \<le> length seen" using Cons.prems(4) x(1) by (auto simp: chain_inv_def)
  ultimately have small: "len x + 1 \<le> usize_max" using topology_ok_bound [OF ok] Cons.prems(1) by simp
  from tabulated_index [OF ok Cons.prems(2) x(2)] obtain i where
    i: "element_index g x = Some i" "i < length lengths" "lengths ! i = len x" by metis
  have forward: "(x, u) \<notin> ?E" if "u \<in> set (seen @ [x])" for u
  proof
    assume E: "(x, u) \<in> ?E"
    from that obtain j where j: "j \<le> length seen" "(seen @ [x]) ! j = u"
      by (metis in_set_conv_nth length_append_singleton less_Suc_eq_le)
    have "order ! j = u" using j Cons.prems(1) by (auto simp: nth_append split: if_splits)
    moreover have "order ! length seen = x" "j < length order" "length seen < length order"
      using Cons.prems(1) j(1) by auto
    ultimately have "length seen < j"
      using prefix_closed_forward [OF order(3,1), of "length seen" j] E by simp
    with j(1) show False by simp
  qed
  have ts: "y \<in> set ?ts \<longleftrightarrow> (x, y) \<in> ?E" if "y \<in> M" for y
    using induced_succs_steps [OF ok x(1) M, of y] that by (simp add: induced_succs_def)
  let ?len = "\<lambda>y. if y \<in> set ?ts \<and> len y < len x + 1 then len x + 1 else len y"
  let ?pred = "\<lambda>y. if y \<in> set ?ts \<and> len y < len x + 1 then Some x else pred y"
  have "\<forall>y \<in> set ?ts. contains_element g y" using expand_neighbors(2) [OF ok x(2)] by blast
  from relax_targets_Some [OF ok small Cons.prems(2,3) this, of x] obtain lengths' predecessor' where
    relax: "relax_targets g x (len x) lengths predecessor ?ts = Some (lengths', predecessor')"
      "tabulated g lengths' ?len" "tabulated g predecessor' ?pred" by blast
  have closed: "u \<in> M \<and> v \<in> M" if "(u, v) \<in> ?E" for u v using that by (simp add: induced_steps_def)
  note step = chain_inv_step [OF Cons.prems(4) closed x(1) ts forward seen]
  from step(1) have chain: "chain_inv ?E (seen @ [x]) ?len ?pred M" .
  have best: "best_inv (seen @ [x]) ?len (if best_end = None \<or> len x > best_length then Some x else best_end)
      (if best_end = None \<or> len x > best_length then len x else best_length)"
    by (rule best_inv_step [OF Cons.prems(5) step(2)])
  have "order = (seen @ [x]) @ rest" using Cons.prems(1) by simp
  from Cons.IH [OF this relax(2,3) chain best] show ?case
    using i relax(1) expand_neighbors(1) [OF ok x(2)] by (simp add: Let_def)
qed

lemma path_loop_Some:
  assumes ok: "topology_ok dir g" and M: "\<forall>x \<in> M. contains_element g x" and tab: "tabulated g predecessor pred"
    and inv: "chain_inv E order len pred M" and order: "set order \<subseteq> M" and "x \<in> M"
  shows "\<exists>ys. path_loop g predecessor (Some x) path = Some (path @ x # ys) \<and> length ys = len x \<and>
    set ys \<subseteq> M \<and> successively (\<lambda>a b. (b, a) \<in> E) (x # ys)"
  using assms(6)
proof (induction "len x" arbitrary: x path)
  case 0
  from tabulated_index [OF ok tab] M 0(2) obtain i where
    "element_index g x = Some i" "i < length predecessor" "predecessor ! i = pred x" by metis
  moreover have "pred x = None"
    using inv 0 by (auto simp: chain_inv_def split: option.splits)
  ultimately show ?case
    using 0(1) by (simp add: path_loop.simps [of g predecessor "Some x"] path_loop.simps [of g predecessor None])
next
  case (Suc n)
  from tabulated_index [OF ok tab] M Suc(3) obtain i where
    i: "element_index g x = Some i" "i < length predecessor" "predecessor ! i = pred x" by metis
  have "case pred x of None \<Rightarrow> len x = 0 | Some u \<Rightarrow> u \<in> set order \<and> (u, x) \<in> E \<and> len x = len u + 1"
    using inv Suc(3) by (simp add: chain_inv_def)
  with Suc(2) obtain u where u: "pred x = Some u" "u \<in> set order" "(u, x) \<in> E" "len u = n"
    by (auto split: option.splits)
  with order have "u \<in> M" by blast
  from Suc(1) [OF u(4) [symmetric] this, of "path @ [x]"] obtain ys where
    "path_loop g predecessor (Some u) (path @ [x]) = Some ((path @ [x]) @ u # ys)" "length ys = len u"
    "set ys \<subseteq> M" "successively (\<lambda>a b. (b, a) \<in> E) (u # ys)" by blast
  then show ?case
    using i u \<open>u \<in> M\<close> Suc(2) by (auto simp: path_loop.simps [of g predecessor "Some x"] intro!: exI [of _ "u # ys"])
qed

lemma chain_length:
  assumes "chain_inv E order len pred M" and "set ys \<subseteq> M" and "M \<subseteq> set order"
    and "successively (\<lambda>a b. (a, b) \<in> E) ys" and "ys \<noteq> []"
  shows "length ys \<le> len (last ys) + 1"
  using assms(2,4,5)
proof (induction ys rule: rev_induct)
  case (snoc y ys)
  show ?case
  proof (cases "ys = []")
    case False
    with snoc have IH: "length ys \<le> len (last ys) + 1" and E: "(last ys, y) \<in> E"
      by (auto simp: successively_append_iff)
    have "last ys \<in> set order" "y \<in> M" using snoc.prems(1) last_in_set [OF False] assms(3) by auto
    with assms(1) E have "len (last ys) + 1 \<le> len y" by (auto simp: chain_inv_def)
    with IH show ?thesis by simp
  qed simp
qed simp

section \<open>Properties\<close>

text \<open>
  C11: over contained elements whose in-degrees fit \<open>usize\<close>, the topological sort returns: on an acyclic
  induced subgraph an order that lists each requested element once with every edge pointing
  forward, otherwise the cycle error.
\<close>

theorem topological_sort_correct:
  assumes "topology_ok Forward g" and "\<forall>x \<in> set elements. contains_element g x"
    and "\<forall>x \<in> set elements. entries_into g (set elements) x \<le> usize_max"
  shows "if acyclic (induced_steps g (set elements))
    then \<exists>order. topological_sort g elements = Some (Ok order) \<and> distinct order \<and> set order = set elements \<and>
      (\<forall>i < length order. \<forall>j < length order.
         (order ! i, order ! j) \<in> induced_steps g (set elements) \<longrightarrow> i < j)
    else topological_sort g elements = Some (Err ToposortCycle)"
proof -
  from topological_sort_runs [OF assms(1,2)] assms(3) obtain order where
    order: "topological_sort g elements =
      Some (if acyclic (induced_steps g (set elements)) then Ok order else Err ToposortCycle)"
      "distinct order" "acyclic (induced_steps g (set elements)) \<Longrightarrow> set order = set elements"
      "prefix_closed (induced_steps g (set elements)) order" by metis
  then show ?thesis using prefix_closed_forward [OF order(4,2)] by auto
qed

text \<open>
  C12: under the same conditions the longest path returns a chain of requested elements along edges that no
  other chain of the induced subgraph exceeds, nothing for no elements, and the cycle error when
  the induced subgraph has a cycle.
\<close>

theorem longest_path_dag_correct:
  assumes "topology_ok Forward g" and "\<forall>x \<in> set elements. contains_element g x"
    and "\<forall>x \<in> set elements. entries_into g (set elements) x \<le> usize_max"
  shows "longest_path_dag g elements =
      Some (Err LongestPathCycle) \<and> \<not> acyclic (induced_steps g (set elements)) \<or>
    acyclic (induced_steps g (set elements)) \<and>
    (\<exists>path. longest_path_dag g elements = Some (Ok path) \<and> set path \<subseteq> set elements \<and>
       (elements \<noteq> [] \<longrightarrow> path \<noteq> []) \<and>
       successively (\<lambda>x y. (x, y) \<in> induced_steps g (set elements)) path \<and>
       (\<forall>ys. set ys \<subseteq> set elements \<longrightarrow>
          successively (\<lambda>x y. (x, y) \<in> induced_steps g (set elements)) ys \<longrightarrow> length ys \<le> length path))"
proof -
  let ?M = "set elements" and ?E = "induced_steps g (set elements)" and ?bound = "element_bound g"
  note ok = assms(1) and M = assms(2)
  from topological_sort_runs [OF ok M] assms(3) obtain order where
    order: "topological_sort g elements = Some (if acyclic ?E then Ok order else Err ToposortCycle)"
      "distinct order" "acyclic ?E \<Longrightarrow> set order = ?M" "prefix_closed ?E order" by metis
  show ?thesis
  proof (cases "acyclic ?E")
    case False
    then show ?thesis using order(1) by (simp add: longest_path_dag_def)
  next
    case True
    note set = order(3) [OF True]
    show ?thesis
    proof (cases "elements = []")
      case empty: True
      with set True order(1) show ?thesis by (simp add: longest_path_dag_def)
    next
      case False
      have start: "chain_inv ?E [] (\<lambda>_. 0) (\<lambda>_. None) ?M" "best_inv [] (\<lambda>_. 0) None 0"
        by (simp_all add: chain_inv_def best_inv_def)
      from longest_pass_Some [OF ok M order(2) set order(4) _ tabulated_const [OF ok] tabulated_const [OF ok] start]
      obtain predecessor best_end len pred best_length where
        pass: "longest_pass g (replicate ?bound 0) (replicate ?bound None) None 0 order = Some (predecessor, best_end)"
          "tabulated g predecessor pred" "chain_inv ?E order len pred ?M" "best_inv order len best_end best_length"
        by fastforce
      have "order \<noteq> []" using False set by auto
      with pass(4) obtain b where b: "best_end = Some b" "b \<in> ?M" "\<And>u. u \<in> ?M \<Longrightarrow> len u \<le> len b"
        by (auto simp: best_inv_def set split: option.splits)
      from path_loop_Some [OF ok M pass(2,3) _ b(2), of "[]"] set obtain ys where
        ys: "path_loop g predecessor (Some b) [] = Some (b # ys)" "length ys = len b" "set ys \<subseteq> ?M"
          "successively (\<lambda>a b. (b, a) \<in> ?E) (b # ys)" by auto
      have "longest_path_dag g elements = Some (Ok (rev (b # ys)))"
        using order(1) True \<open>order \<noteq> []\<close> pass(1) b(1) ys(1) by (simp add: longest_path_dag_def)
      moreover have "successively (\<lambda>x y. (x, y) \<in> ?E) (rev (b # ys))"
        using ys(4) by (simp only: successively_rev)
      moreover have "length zs \<le> length (rev (b # ys))"
        if zs: "set zs \<subseteq> ?M" "successively (\<lambda>x y. (x, y) \<in> ?E) zs" for zs
      proof (cases "zs = []")
        case False
        have "len (last zs) \<le> len b" by (rule b(3)) (use zs(1) last_in_set [OF False] in blast)
        with chain_length [OF pass(3) zs(1) _ zs(2) False] set ys(2) show ?thesis by simp
      qed simp
      moreover have "set (rev (b # ys)) \<subseteq> ?M" using ys(3) b(2) by simp
      ultimately show ?thesis using True by blast
    qed
  qed
qed


text \<open>Three nodes with the edges 0 to 1 (twice), 0 to 2 and 1 to 2.\<close>

definition example_dag :: "nat topology_view" where
  "example_dag = \<lparr>element_bound = 3, element_index = (\<lambda>x. Some x), contains_element = (\<lambda>x. x < 3),
     element_successors = (\<lambda>x. Some (if x = 0 then [1, 2, 1] else if x = 1 then [2] else [])),
     element_predecessors = (\<lambda>_. None)\<rparr>"

lemma example_dag_ok: "topology_ok Forward example_dag"
  by (simp add: topology_ok_def example_dag_def usize_max_def)

lemma example_dag_contains: "\<forall>x \<in> set [2, 1, 0]. contains_element example_dag x"
  by (simp add: example_dag_def)

lemma example_dag_fits: "\<forall>x \<in> set [2, 1, 0]. entries_into example_dag (set [2, 1, 0]) x \<le> usize_max"
  by (simp add: entries_into_def neighbors_def example_dag_def usize_max_def)

lemma example_dag_acyclic: "acyclic (induced_steps example_dag (set [2, 1, 0]))"
proof (rule acyclicI_order [of _ "\<lambda>x. 3 - x"])
  show "3 - b < 3 - a" if "(a, b) \<in> induced_steps example_dag (set [2, 1, 0])" for a b
    using that by (auto simp: induced_steps_def steps_def example_dag_def split: if_splits)
qed

theorem topological_sort_correct_witness:
  "\<exists>order. topological_sort example_dag [2, 1, 0] = Some (Ok order) \<and> distinct order \<and> set order = {0, 1, 2}"
proof -
  have "set [2, 1, 0] = {0, 1, 2 :: nat}" by auto
  with topological_sort_correct [OF example_dag_ok example_dag_contains example_dag_fits] example_dag_acyclic
  show ?thesis by (simp only: if_True) blast
qed

theorem longest_path_dag_correct_witness:
  "\<exists>path. longest_path_dag example_dag [2, 1, 0] = Some (Ok path) \<and> path \<noteq> [] \<and> 3 \<le> length path"
proof -
  have "successively (\<lambda>x y. (x, y) \<in> induced_steps example_dag (set [2, 1, 0])) [0, 1, 2]"
    by (simp add: induced_steps_def steps_def example_dag_def)
  moreover have "set [0, 1, 2] \<subseteq> set [2, 1, 0 :: nat]" by simp
  moreover obtain path where "longest_path_dag example_dag [2, 1, 0] = Some (Ok path)" "path \<noteq> []"
    "\<And>ys. set ys \<subseteq> set [2, 1, 0] \<Longrightarrow>
       successively (\<lambda>x y. (x, y) \<in> induced_steps example_dag (set [2, 1, 0])) ys \<Longrightarrow> length ys \<le> length path"
    using longest_path_dag_correct [OF example_dag_ok example_dag_contains example_dag_fits] example_dag_acyclic
    by blast
  ultimately have "length [0, 1, 2 :: nat] \<le> length path" by blast
  with \<open>longest_path_dag example_dag [2, 1, 0] = Some (Ok path)\<close> \<open>path \<noteq> []\<close> show ?thesis by auto
qed

end
