(* ===== verification/Bounded.thy ===== *)
theory Bounded
  imports Bfs
begin

text \<open>
  The depth-bounded multi-seed breadth-first search of \<open>crates/oxgraph-algo/src/bfs/bounded.rs\<close>, which the
  database and the Postgres engine drive. The three entry points differ in how they expand an
  element.
\<close>

section \<open>Runs\<close>

record bfs_bounds =
  max_depth :: "u32 option"
  result_limit :: nat
  include_seeds :: bool

definition expands :: "bfs_bounds \<Rightarrow> u32 \<Rightarrow> bool" where
  "expands bounds depth = (case max_depth bounds of Some limit \<Rightarrow> depth < limit | None \<Rightarrow> True)"

text \<open>A visitor: \<open>True\<close> is \<open>ControlFlow::Break\<close>.\<close>

type_synonym ('n, 'v) bfs_visitor = "'v \<Rightarrow> 'n \<Rightarrow> u32 \<Rightarrow> bool \<times> 'v"

text \<open>The bounds, the element bound and the graph are arguments of the methods.\<close>

record ('n, 'v) bounded_run =
  br_marks :: "u32 list"
  br_queue :: "'n list"
  br_epoch :: u32
  br_head :: nat
  br_tail :: nat
  br_wave_end :: nat
  br_depth :: u32
  br_emitted :: nat
  br_visitor :: 'v

text \<open>What a method leaves behind and what it returns; the result \<open>True\<close> is \<open>Break\<close>, \<open>None\<close> a panic.\<close>

type_synonym ('n, 'v) bounded_outcome = "(('n, 'v) bounded_run \<times> (bfs_error, bool) result) option"

definition run_pop :: "('n, 'v) bounded_run \<Rightarrow> (('n \<times> u32) option \<times> ('n, 'v) bounded_run) option" where
  "run_pop run =
     (if br_head run = br_tail run then Some (None, run)
      else
        let run = (if br_head run = br_wave_end run
                   then run\<lparr>br_depth := word_saturating_add (br_depth run) 1, br_wave_end := br_tail run\<rparr> else run) in
        Option.bind (index_or_panic (br_queue run) (br_head run)) (\<lambda>element.
          Some (Some (element, br_depth run), run\<lparr>br_head := br_head run + 1\<rparr>)))"

definition run_emit ::
    "('n, 'v) bfs_visitor \<Rightarrow> bfs_bounds \<Rightarrow> ('n, 'v) bounded_run \<Rightarrow> 'n \<Rightarrow> u32 \<Rightarrow> ('n, 'v) bounded_outcome" where
  "run_emit visit bounds run element depth =
     (case visit (br_visitor run) element depth of (stop, v) \<Rightarrow>
        let run = run\<lparr>br_visitor := v\<rparr> in
        if stop then Some (run, Ok True)
        else
          Option.bind (checked_add (br_emitted run) 1) (\<lambda>emitted.
            Some (run\<lparr>br_emitted := emitted\<rparr>, Ok (emitted \<ge> result_limit bounds))))"

definition run_discover ::
    "('n, 'v) bfs_visitor \<Rightarrow> bfs_bounds \<Rightarrow> nat \<Rightarrow> ('n, 'v) bounded_run \<Rightarrow> 'n \<Rightarrow> nat \<Rightarrow> u32 \<Rightarrow> ('n, 'v) bounded_outcome" where
  "run_discover visit bounds bound run target index depth =
     (if index \<ge> bound then Some (run, Err (NeighborIndexOutOfBounds index bound))
      else
        Option.bind (index_or_panic (br_marks run) index) (\<lambda>mark.
          if mark = br_epoch run then Some (run, Ok False)
          else
            Option.bind (store_or_panic (br_queue run) (br_tail run) target) (\<lambda>queue.
              run_emit visit bounds
                (run\<lparr>br_marks := (br_marks run)[index := br_epoch run], br_queue := queue, br_tail := br_tail run + 1\<rparr>)
                target depth)))"

text \<open>The loop over the targets of one element; a break or an error leaves it.\<close>

fun discover_all ::
    "'n topology_view \<Rightarrow> ('n, 'v) bfs_visitor \<Rightarrow> bfs_bounds \<Rightarrow> u32 \<Rightarrow> ('n, 'v) bounded_run \<Rightarrow> 'n list \<Rightarrow> ('n, 'v) bounded_outcome" where
  "discover_all g visit bounds depth run [] = Some (run, Ok False)"
| "discover_all g visit bounds depth run (target # rest) =
     Option.bind (element_index g target) (\<lambda>index.
     Option.bind (word_checked_add depth 1) (\<lambda>next.
     Option.bind (run_discover visit bounds (element_bound g) run target index next) (\<lambda>(run, result).
       if result = Ok False then discover_all g visit bounds depth run rest else Some (run, result))))"

text \<open>The loop over the seeds in \<open>start_run\<close>; \<open>Ok True\<close> is \<open>Ok(None)\<close>.\<close>

fun seed_all ::
    "'n topology_view \<Rightarrow> ('n, 'v) bfs_visitor \<Rightarrow> bfs_bounds \<Rightarrow> ('n, 'v) bounded_run \<Rightarrow> 'n list \<Rightarrow> ('n, 'v) bounded_outcome" where
  "seed_all g visit bounds run [] = Some (run\<lparr>br_wave_end := br_tail run\<rparr>, Ok False)"
| "seed_all g visit bounds run (seed # rest) =
     (if \<not> contains_element g seed then Some (run, Err StartElementNotContained)
      else
        Option.bind (element_index g seed) (\<lambda>index.
          if index \<ge> element_bound g then Some (run, Err (StartIndexOutOfBounds index (element_bound g)))
          else
            Option.bind (index_or_panic (br_marks run) index) (\<lambda>mark.
              if mark = br_epoch run then seed_all g visit bounds run rest
              else
                Option.bind (store_or_panic (br_queue run) (br_tail run) seed) (\<lambda>queue.
                  let run = run\<lparr>br_marks := (br_marks run)[index := br_epoch run], br_queue := queue,
                    br_tail := br_tail run + 1\<rparr> in
                  if include_seeds bounds then
                    Option.bind (run_emit visit bounds run seed 0) (\<lambda>(run, result).
                      if result = Ok False then seed_all g visit bounds run rest else Some (run, result))
                  else seed_all g visit bounds run rest))))"

datatype expansion = Successors | Predecessors | BothWays

text \<open>The loops of one popped element.\<close>

fun expand_run ::
    "expansion \<Rightarrow> 'n topology_view \<Rightarrow> ('n, 'v) bfs_visitor \<Rightarrow> bfs_bounds \<Rightarrow> u32 \<Rightarrow> ('n, 'v) bounded_run \<Rightarrow> 'n \<Rightarrow> ('n, 'v) bounded_outcome" where
  "expand_run Successors g visit bounds depth run element =
     Option.bind (element_successors g element) (discover_all g visit bounds depth run)"
| "expand_run Predecessors g visit bounds depth run element =
     Option.bind (element_predecessors g element) (discover_all g visit bounds depth run)"
| "expand_run BothWays g visit bounds depth run element =
     Option.bind (Option.bind (element_successors g element) (discover_all g visit bounds depth run)) (\<lambda>(run, result).
       if result = Ok False
       then Option.bind (element_predecessors g element) (discover_all g visit bounds depth run)
       else Some (run, result))"

partial_function (option) bounded_loop ::
    "expansion \<Rightarrow> 'n topology_view \<Rightarrow> ('n, 'v) bfs_visitor \<Rightarrow> bfs_bounds \<Rightarrow> ('n, 'v) bounded_run \<Rightarrow> ('n, 'v) bounded_outcome" where
  "bounded_loop mode g visit bounds run =
     Option.bind (run_pop run) (\<lambda>(popped, run).
       case popped of
         None \<Rightarrow> Some (run, Ok False)
       | Some (element, depth) \<Rightarrow>
           if \<not> expands bounds depth then bounded_loop mode g visit bounds run
           else
             Option.bind (expand_run mode g visit bounds depth run element) (\<lambda>(run, result).
               if result = Ok False then bounded_loop mode g visit bounds run else Some (run, result)))"

text \<open>
  The entry points: the scratch and the visitor afterwards and the result, which does not tell a break
  from the end.
\<close>

definition breadth_first_search_bounded ::
    "expansion \<Rightarrow> 'n topology_view \<Rightarrow> 'n list \<Rightarrow> bfs_bounds \<Rightarrow> 'n epoch_scratch \<Rightarrow> ('n, 'v) bfs_visitor \<Rightarrow> 'v \<Rightarrow>
       ('n epoch_scratch \<times> 'v \<times> (bfs_error, unit) result) option" where
  "breadth_first_search_bounded mode g seeds bounds scratch visit v =
     (let bound = element_bound g in
      if length (es_marks scratch) < bound
      then Some (scratch, v, Err (VisitedTooSmall bound (length (es_marks scratch))))
      else if length (es_queue scratch) < bound
      then Some (scratch, v, Err (QueueTooSmall bound (length (es_queue scratch))))
      else
        let (epoch, marks) = epoch_advance (es_epoch scratch) (es_marks scratch);
            run = \<lparr>br_marks = marks, br_queue = es_queue scratch, br_epoch = epoch, br_head = 0, br_tail = 0,
              br_wave_end = 0, br_depth = 0, br_emitted = 0, br_visitor = v\<rparr> in
        Option.bind (seed_all g visit bounds run seeds) (\<lambda>(run, result).
        Option.bind (if result = Ok False then bounded_loop mode g visit bounds run else Some (run, result)) (\<lambda>(run, result).
          Some (\<lparr>es_marks = br_marks run, es_queue = br_queue run, es_epoch = br_epoch run\<rparr>, br_visitor run,
            and_then result (\<lambda>_. Ok ())))))"

section \<open>What the visitor sees\<close>

text \<open>Feeding a visitor until it breaks or the cap is reached: whether it stopped, the visitor, and the count.\<close>

fun feed :: "('n, 'v) bfs_visitor \<Rightarrow> nat \<Rightarrow> 'v \<Rightarrow> nat \<Rightarrow> ('n \<times> u32) list \<Rightarrow> bool \<times> 'v \<times> nat" where
  "feed visit limit v emitted [] = (False, v, emitted)"
| "feed visit limit v emitted ((x, d) # rest) =
     (case visit v x d of (stop, v) \<Rightarrow>
        if stop then (True, v, emitted)
        else if emitted + 1 \<ge> limit then (True, v, emitted + 1)
        else feed visit limit v (emitted + 1) rest)"

lemma feed_append:
  "feed visit limit v emitted (xs @ ys) =
     (case feed visit limit v emitted xs of (stop, v, emitted) \<Rightarrow>
        if stop then (True, v, emitted) else feed visit limit v emitted ys)"
  by (induction visit limit v emitted xs rule: feed.induct) (auto split: prod.splits)

lemma feed_first:
  "feed visit limit v emitted (x # ys) =
     (case feed visit limit v emitted [x] of (stop, v, emitted) \<Rightarrow>
        if stop then (True, v, emitted) else feed visit limit v emitted ys)"
  using feed_append [of visit limit v emitted "[x]" ys] by (simp only: append_Cons append_Nil)

text \<open>A visitor that collects what it is shown receives at most the cap, but one element when the cap is zero.\<close>

definition collecting :: "('n, ('n \<times> u32) list) bfs_visitor" where
  "collecting v x d = (False, v @ [(x, d)])"

lemma feed_collecting:
  "emitted < max 1 limit \<Longrightarrow>
     fst (snd (feed collecting limit v emitted xs)) = v @ take (max 1 limit - emitted) xs"
proof (induction xs arbitrary: v emitted)
  case (Cons p xs)
  obtain x d where p: "p = (x, d)" by (cases p)
  show ?case
  proof (cases "limit \<le> emitted + 1")
    case True
    then have "max 1 limit - emitted = 1" using Cons.prems by auto
    then show ?thesis using True by (simp add: p collecting_def)
  next
    case False
    then have eq: "max 1 limit - emitted = Suc (max 1 limit - (emitted + 1))" and "emitted + 1 < max 1 limit" by auto
    from Cons.IH [OF this(2), of "v @ [(x, d)]"] show ?thesis using False by (simp add: p collecting_def take_Cons')
  qed
qed simp


lemma feed_cap_zero: "fst (snd (feed collecting 0 v 0 (x # xs))) = v @ [x]"
  by (simp add: feed_collecting)

section \<open>Refinement of the reference traversal\<close>

text \<open>The run stands for visited elements and a frontier, of which the first \<open>wave\<close> belong to the current depth.\<close>

definition run_repr :: "'n topology_view \<Rightarrow> ('n, 'v) bounded_run \<Rightarrow> 'n set \<Rightarrow> 'n list \<Rightarrow> bool" where
  "run_repr g run V Q \<longleftrightarrow> marked g (map (\<lambda>m. m = br_epoch run) (br_marks run)) V \<and>
     element_bound g \<le> length (br_queue run) \<and> queued g (br_queue run) (br_head run) (br_tail run) V Q \<and>
     br_emitted run \<le> br_tail run"

definition run_wave :: "('n, 'v) bounded_run \<Rightarrow> ('n \<times> nat) list \<Rightarrow> bool" where
  "run_wave run Q \<longleftrightarrow> br_head run \<le> br_wave_end run \<and> br_wave_end run \<le> br_tail run \<and>
     (\<forall>i < length Q. snd (Q ! i) = (if br_head run + i < br_wave_end run then unat (br_depth run) else unat (br_depth run) + 1))"

text \<open>Reused scratch stays usable.\<close>

definition run_marks_ok :: "('n, 'v) bounded_run \<Rightarrow> bool" where
  "run_marks_ok run \<longleftrightarrow> (\<forall>m \<in> set (br_marks run). m \<le> br_epoch run)"

text \<open>What a step of the run may change besides the frontier.\<close>

definition run_kept :: "('n, 'v) bounded_run \<Rightarrow> ('n, 'v) bounded_run \<Rightarrow> bool" where
  "run_kept run run' \<longleftrightarrow> br_epoch run' = br_epoch run \<and> length (br_marks run') = length (br_marks run) \<and>
     length (br_queue run') = length (br_queue run) \<and> (run_marks_ok run \<longrightarrow> run_marks_ok run')"

definition wave_kept :: "('n, 'v) bounded_run \<Rightarrow> ('n, 'v) bounded_run \<Rightarrow> bool" where
  "wave_kept run run' \<longleftrightarrow> br_head run' = br_head run \<and> br_wave_end run' = br_wave_end run \<and> br_depth run' = br_depth run"

lemma run_kept_refl [simp]: "run_kept run run" and wave_kept_refl [simp]: "wave_kept run run"
  by (simp_all add: run_kept_def wave_kept_def)

lemma run_kept_trans: "run_kept a b \<Longrightarrow> run_kept b c \<Longrightarrow> run_kept a c"
  and wave_kept_trans: "wave_kept a b \<Longrightarrow> wave_kept b c \<Longrightarrow> wave_kept a c"
  by (simp_all add: run_kept_def wave_kept_def)

lemma run_emit_feed:
  assumes "br_emitted run < usize_max" and "feed visit (result_limit bounds) (br_visitor run) (br_emitted run) [(x, d)] = (stop, v, e)"
  shows "run_emit visit bounds run x d = Some (run\<lparr>br_visitor := v, br_emitted := e\<rparr>, Ok stop)"
    and "e \<le> br_emitted run + 1"
  using assms by (auto simp: run_emit_def checked_add_def split: prod.splits if_splits)

text \<open>Marking, queueing and emitting an element that is new.\<close>

lemma run_visit_new:
  assumes ok: "topology_ok dir g" and r: "run_repr g run V Q" and x: "contains_element g x" "x \<notin> V"
    and i: "element_index g x = Some i"
  defines "run' \<equiv> run\<lparr>br_marks := (br_marks run)[i := br_epoch run], br_queue := (br_queue run)[br_tail run := x],
      br_tail := br_tail run + 1\<rparr>"
  shows "br_tail run < length (br_queue run)" and "br_emitted run < usize_max"
    and "e \<le> br_emitted run + 1 \<Longrightarrow> run_repr g (run'\<lparr>br_visitor := v, br_emitted := e\<rparr>) (insert x V) (Q @ [x])"
    and "run_repr g run' (insert x V) (Q @ [x])"
    and "run_kept run (run'\<lparr>br_visitor := v, br_emitted := e\<rparr>)" and "run_kept run run'"
    and "wave_kept run (run'\<lparr>br_visitor := v, br_emitted := e\<rparr>)" and "wave_kept run run'"
proof -
  from r have m: "marked g (map (\<lambda>m. m = br_epoch run) (br_marks run)) V"
    and q: "queued g (br_queue run) (br_head run) (br_tail run) V Q" and room: "element_bound g \<le> length (br_queue run)"
    and e: "br_emitted run \<le> br_tail run" by (simp_all add: run_repr_def)
  from marked_visit [OF ok m x(1)] i have marks: "i < length (br_marks run)"
    "marked g (map (\<lambda>m. m = br_epoch run) ((br_marks run)[i := br_epoch run])) (insert x V)" by (auto simp: map_update)
  note q' = queued_store [OF ok q room x]
  show "br_tail run < length (br_queue run)" by (rule q'(1))
  have "length (x # take (br_tail run) (br_queue run)) \<le> element_bound g"
    using q x by (intro contained_bound [OF ok]) (auto simp: queued_def)
  then have "br_tail run < element_bound g" using q by (simp add: queued_def)
  with e topology_ok_bound [OF ok] show "br_emitted run < usize_max" by simp
  show "run_repr g run' (insert x V) (Q @ [x])"
    "e \<le> br_emitted run + 1 \<Longrightarrow> run_repr g (run'\<lparr>br_visitor := v, br_emitted := e\<rparr>) (insert x V) (Q @ [x])"
    using marks(2) q'(2) room e by (simp_all add: run_repr_def run'_def)
  show "run_kept run run'" "run_kept run (run'\<lparr>br_visitor := v, br_emitted := e\<rparr>)"
    by (auto simp: run_kept_def run'_def run_marks_ok_def dest!: set_update_subset_insert [THEN subsetD])
  show "wave_kept run run'" "wave_kept run (run'\<lparr>br_visitor := v, br_emitted := e\<rparr>)"
    by (simp_all add: wave_kept_def run'_def)
qed

lemma run_index:
  assumes "topology_ok dir g" and "run_repr g run V Q" and "contains_element g x"
  obtains i where "element_index g x = Some i" and "i < element_bound g" and "i < length (br_marks run)"
    and "br_marks run ! i = br_epoch run \<longleftrightarrow> x \<in> V"
proof -
  from assms(2) have "marked g (map (\<lambda>m. m = br_epoch run) (br_marks run)) V" by (simp add: run_repr_def)
  from marked_visit [OF assms(1) this assms(3)] topology_ok_index [OF assms(1,3)] that show ?thesis by force
qed

lemma discover_all_feed:
  assumes ok: "topology_ok dir g" and "run_repr g run V Q" and "\<forall>x \<in> set ts. contains_element g x"
    and depth: "word_checked_add depth 1 = Some d"
    and "feed visit (result_limit bounds) (br_visitor run) (br_emitted run) (map (\<lambda>y. (y, d)) (fresh V ts)) = (stop, v, e)"
  shows "\<exists>run'. discover_all g visit bounds depth run ts = Some (run', Ok stop) \<and> br_visitor run' = v \<and> br_emitted run' = e \<and>
    run_kept run run' \<and> (\<not> stop \<longrightarrow> wave_kept run run' \<and> run_repr g run' (V \<union> set ts) (Q @ fresh V ts))"
  using assms(2,3,5)
proof (induction ts arbitrary: run V Q)
  case Nil
  then show ?case by auto
next
  case (Cons x ts)
  from Cons.prems(2) have x: "contains_element g x" and ts: "\<forall>x \<in> set ts. contains_element g x" by simp_all
  from run_index [OF ok Cons.prems(1) x] obtain i where
    i: "element_index g x = Some i" "i < element_bound g" "i < length (br_marks run)" "br_marks run ! i = br_epoch run \<longleftrightarrow> x \<in> V"
    by metis
  show ?case
  proof (cases "x \<in> V")
    case True
    then have "run_discover visit bounds (element_bound g) run x i d = Some (run, Ok False)"
      using i by (simp add: run_discover_def)
    with Cons.IH [OF Cons.prems(1) ts] Cons.prems(3) True i(1) depth show ?thesis by (simp add: insert_absorb)
  next
    case False
    let ?run = "run\<lparr>br_marks := (br_marks run)[i := br_epoch run], br_queue := (br_queue run)[br_tail run := x],
        br_tail := br_tail run + 1\<rparr>"
    note new = run_visit_new [OF ok Cons.prems(1) x False i(1)]
    obtain stop1 v1 e1 where one: "feed visit (result_limit bounds) (br_visitor run) (br_emitted run) [(x, d)] = (stop1, v1, e1)"
      by (metis prod_cases3)
    have rest: "(if stop1 then (True, v1, e1) else
        feed visit (result_limit bounds) v1 e1 (map (\<lambda>y. (y, d)) (fresh (insert x V) ts))) = (stop, v, e)"
      using trans [OF feed_first [symmetric] Cons.prems(3) [unfolded fresh.simps if_not_P [OF False] list.map]]
      by (simp only: one prod.case)
    let ?run1 = "?run\<lparr>br_visitor := v1, br_emitted := e1\<rparr>"
    have emit: "run_emit visit bounds ?run x d = Some (?run1, Ok stop1)" and e1: "e1 \<le> br_emitted run + 1"
      using run_emit_feed [of ?run visit bounds x d stop1 v1 e1] new(2) one by simp_all
    have disc: "run_discover visit bounds (element_bound g) run x i d = Some (?run1, Ok stop1)"
      using emit i False new(1) by (simp add: run_discover_def)
    show ?thesis
    proof (cases stop1)
      case True
      then show ?thesis using disc rest i(1) depth new(5) by auto
    next
      case no_stop: False
      have "feed visit (result_limit bounds) (br_visitor ?run1) (br_emitted ?run1)
          (map (\<lambda>y. (y, d)) (fresh (insert x V) ts)) = (stop, v, e)" using rest no_stop by simp
      from Cons.IH [OF new(3) [OF e1] ts this] obtain run' where
        run': "discover_all g visit bounds depth ?run1 ts = Some (run', Ok stop)" "br_visitor run' = v" "br_emitted run' = e"
          "run_kept ?run1 run'" "\<not> stop \<longrightarrow> wave_kept ?run1 run' \<and> run_repr g run' (insert x V \<union> set ts) ((Q @ [x]) @ fresh (insert x V) ts)"
        by blast
      have "discover_all g visit bounds depth run (x # ts) = Some (run', Ok stop)"
        using disc no_stop i(1) depth run'(1) by simp
      moreover have "run_kept run run'" by (rule run_kept_trans [OF new(5) run'(4)])
      moreover have "wave_kept run run'" if "\<not> stop" using run'(5) that wave_kept_trans [OF new(7)] by blast
      moreover have "run_repr g run' (V \<union> set (x # ts)) (Q @ fresh V (x # ts))" if "\<not> stop"
        using run'(5) that False by simp
      ultimately show ?thesis using run'(2,3) by blast
    qed
  qed
qed


section \<open>Expansion modes\<close>

fun targets_of :: "expansion \<Rightarrow> 'n topology_view \<Rightarrow> 'n \<Rightarrow> 'n list" where
  "targets_of Successors g x = neighbors Forward g x"
| "targets_of Predecessors g x = neighbors Reverse g x"
| "targets_of BothWays g x = neighbors Forward g x @ neighbors Reverse g x"

fun mode_ok :: "expansion \<Rightarrow> 'n topology_view \<Rightarrow> bool" where
  "mode_ok Successors g \<longleftrightarrow> topology_ok Forward g"
| "mode_ok Predecessors g \<longleftrightarrow> topology_ok Reverse g"
| "mode_ok BothWays g \<longleftrightarrow> topology_ok Forward g \<and> topology_ok Reverse g"

fun mode_steps :: "expansion \<Rightarrow> 'n topology_view \<Rightarrow> ('n \<times> 'n) set" where
  "mode_steps Successors g = steps Forward g"
| "mode_steps Predecessors g = steps Reverse g"
| "mode_steps BothWays g = steps Forward g \<union> steps Reverse g"

lemma mode_topology: "mode_ok mode g \<Longrightarrow> \<exists>dir. topology_ok dir g"
  by (cases mode) auto

lemma mode_targets:
  assumes "mode_ok mode g" and "contains_element g x"
  shows "(x, y) \<in> mode_steps mode g \<longleftrightarrow> y \<in> set (targets_of mode g x)"
    and "y \<in> set (targets_of mode g x) \<Longrightarrow> contains_element g y"
proof -
  have "topology_ok Forward g \<Longrightarrow> (x, y) \<in> steps Forward g \<longleftrightarrow> y \<in> set (neighbors Forward g x)"
    "topology_ok Reverse g \<Longrightarrow> (x, y) \<in> steps Reverse g \<longleftrightarrow> y \<in> set (neighbors Reverse g x)"
    using expand_neighbors(3) assms(2) by metis+
  with assms(1) show "(x, y) \<in> mode_steps mode g \<longleftrightarrow> y \<in> set (targets_of mode g x)" by (cases mode) simp_all
  have "topology_ok Forward g \<Longrightarrow> y \<in> set (neighbors Forward g x) \<Longrightarrow> contains_element g y"
    "topology_ok Reverse g \<Longrightarrow> y \<in> set (neighbors Reverse g x) \<Longrightarrow> contains_element g y"
    using expand_neighbors(2) assms(2) by metis+
  with assms(1) show "y \<in> set (targets_of mode g x) \<Longrightarrow> contains_element g y" by (cases mode) auto
qed

lemma discover_all_append:
  "discover_all g visit bounds depth run (ts @ us) =
     Option.bind (discover_all g visit bounds depth run ts) (\<lambda>(run, result).
       if result = Ok False then discover_all g visit bounds depth run us else Some (run, result))"
proof (induction ts arbitrary: run)
  case (Cons x ts)
  then show ?case by (auto simp: Cons.IH split: bind_splits)
qed simp

lemma expand_run_targets:
  assumes "mode_ok mode g" and "contains_element g x"
  shows "expand_run mode g visit bounds depth run x = discover_all g visit bounds depth run (targets_of mode g x)"
  using assms expand_neighbors(1) [of Forward g x] expand_neighbors(1) [of Reverse g x]
  by (cases mode) (simp_all add: discover_all_append cong: if_cong)

section \<open>The wave counters\<close>

lemma run_repr_tail: "run_repr g run V Q \<Longrightarrow> br_tail run = br_head run + length Q"
  by (auto simp: run_repr_def queued_def)

lemma run_wave_append:
  assumes "run_wave run Q" and "br_tail run = br_head run + length Q" and "wave_kept run run'" and "br_tail run \<le> br_tail run'"
  shows "run_wave run' (Q @ map (\<lambda>y. (y, unat (br_depth run) + 1)) new)"
  using assms by (auto simp: run_wave_def wave_kept_def nth_append)

lemma unat_saturating_add: "unat (a :: u32) + 1 < 2 ^ 32 \<Longrightarrow> unat (word_saturating_add a 1) = unat a + 1"
  by (simp add: word_saturating_add_def word_checked_add_def unat_add_fits)

lemma run_pop_wave:
  assumes "run_repr g run V (x # map fst Q)" and "run_wave run ((x, d) # Q)" and "d < 2 ^ 32"
  obtains run' where "run_pop run = Some (Some (x, word_of_nat d), run')" and "run_repr g run' V (map fst Q)"
    and "run_wave run' Q" and "unat (br_depth run') = d" and "br_visitor run' = br_visitor run"
    and "br_emitted run' = br_emitted run" and "run_kept run run'"
proof -
  let ?run = "if br_head run = br_wave_end run
      then run\<lparr>br_depth := word_saturating_add (br_depth run) 1, br_wave_end := br_tail run\<rparr> else run"
  let ?run' = "?run\<lparr>br_head := br_head run + 1\<rparr>"
  from assms(1) have q: "queued g (br_queue run) (br_head run) (br_tail run) V (x # map fst Q)" by (simp add: run_repr_def)
  note pop = queued_Cons [OF q]
  have tail: "br_tail run = br_head run + Suc (length Q)" using run_repr_tail [OF assms(1)] by simp
  have wave: "br_head run \<le> br_wave_end run" "br_wave_end run \<le> br_tail run"
    and snds: "\<And>i. i < length ((x, d) # Q) \<Longrightarrow> snd (((x, d) # Q) ! i) =
      (if br_head run + i < br_wave_end run then unat (br_depth run) else unat (br_depth run) + 1)"
    using assms(2) unfolding run_wave_def by blast+
  have depth: "unat (br_depth ?run) = d"
    using snds [of 0] assms(3) wave(1) by (auto simp: unat_saturating_add)
  have "w = word_of_nat (unat w)" for w :: u32 by simp
  then have word: "br_depth ?run = word_of_nat d" unfolding depth [symmetric] .
  have "snd (Q ! i) = (if br_head ?run' + i < br_wave_end ?run' then unat (br_depth ?run') else unat (br_depth ?run') + 1)"
    if "i < length Q" for i
    using snds [of "Suc i"] snds [of 0] that depth wave tail by auto
  then have "run_wave ?run' Q" using wave tail by (auto simp: run_wave_def)
  moreover have "run_repr g ?run' V (map fst Q)" using assms(1) pop(4) by (auto simp: run_repr_def)
  moreover have "run_pop run = Some (Some (x, word_of_nat d), ?run')"
    using pop word by (auto simp: run_pop_def Let_def)
  ultimately show ?thesis using that [of ?run'] depth by (simp add: run_kept_def run_marks_ok_def)
qed

lemma run_pop_empty: "run_repr g run V [] \<Longrightarrow> run_pop run = Some (None, run)"
  by (auto simp: run_repr_def run_pop_def dest: queued_Nil)

lemma layers_prefix: "m \<le> length Q \<Longrightarrow> m \<le> n \<Longrightarrow> take m (layers succs exp n V Q) = take m Q"
proof (induction n arbitrary: m V Q)
  case (Suc n)
  show ?case
  proof (cases m)
    case (Suc k)
    with Suc.prems obtain x d Q' where Q: "Q = (x, d) # Q'" by (cases Q) auto
    with Suc Suc.prems Suc.IH [of k "Q' @ map (\<lambda>y. (y, Suc d)) (discovered succs exp V x d)"]
    show ?thesis by simp
  qed simp
qed simp


section \<open>The loop\<close>

definition as_depth :: "'n \<times> nat \<Rightarrow> 'n \<times> u32" where
  "as_depth = apsnd word_of_nat"

lemma as_depth_eq: "as_depth = (\<lambda>(x, d). (x, word_of_nat d))"
  by (auto simp: as_depth_def)

lemma as_depth_step:
  assumes "Suc d < 2 ^ 32"
  shows "word_checked_add (word_of_nat d :: u32) 1 = Some (word_of_nat (Suc d))"
    and "map as_depth (map (\<lambda>y. (y, Suc d)) ys) = map (\<lambda>y. (y, word_of_nat (Suc d))) ys"
proof -
  have "unat (word_of_nat d :: u32) = d" using assms by (intro unat_word_of_nat) simp
  then have "unat (word_of_nat d :: u32) + unat (1 :: u32) < 2 ^ LENGTH(32)" using assms by simp
  moreover have "word_of_nat d + 1 = (word_of_nat (Suc d) :: u32)" by (simp only: of_nat_Suc add.commute)
  ultimately show "word_checked_add (word_of_nat d :: u32) 1 = Some (word_of_nat (Suc d))"
    unfolding word_checked_add_def by (simp only: if_True)
qed (simp add: as_depth_def)

abbreviation expands_at :: "bfs_bounds \<Rightarrow> nat \<Rightarrow> bool" where
  "expands_at bounds d \<equiv> expands bounds (word_of_nat d)"

lemma bounded_loop_feed:
  assumes mode: "mode_ok mode g" and small: "\<And>x d. at_distance (mode_steps mode g) S d x \<Longrightarrow> Suc d < 2 ^ 32"
    and "layered (mode_steps mode g) S (expands_at bounds) D V Q" and "run_repr g run V (map fst Q)" and "run_wave run Q"
    and "card {x. contains_element g x} \<le> length D + n"
    and "feed visit (result_limit bounds) (br_visitor run) (br_emitted run)
      (map as_depth (drop (length Q) (layers (targets_of mode g) (expands_at bounds) n V Q))) = (stop, v, e)"
  shows "\<exists>run'. bounded_loop mode g visit bounds run = Some (run', Ok stop) \<and> br_visitor run' = v \<and> run_kept run run'"
  using assms(3-7)
proof (induction n arbitrary: D V Q run)
  case 0
  from mode_topology [OF mode] obtain dir where ok: "topology_ok dir g" ..
  have "V \<subseteq> {x. contains_element g x}" using 0(2) by (auto simp: run_repr_def queued_def)
  from layered_length [OF 0(1) this contained_finite(1) [OF ok]] 0(4) have "length Q = 0" by linarith
  then have "Q = []" by simp
  with 0 show ?case by (auto simp: bounded_loop.simps run_pop_empty)
next
  case (Suc n)
  from mode_topology [OF mode] obtain dir where ok: "topology_ok dir g" ..
  let ?E = "mode_steps mode g" and ?succs = "targets_of mode g" and ?C = "{x. contains_element g x}"
  show ?case
  proof (cases Q)
    case Nil
    with Suc.prems show ?thesis by (auto simp: bounded_loop.simps run_pop_empty)
  next
    case (Cons q Q')
    obtain x d where q: "q = (x, d)" by (cases q)
    have inv: "layered ?E S (expands_at bounds) D V ((x, d) # Q')" using Suc.prems(1) by (simp add: Cons q)
    have d: "Suc d < 2 ^ 32" using small layeredD(4) [OF inv, of x d] by simp
    have V: "V \<subseteq> ?C" using Suc.prems(2) by (auto simp: run_repr_def queued_def)
    have x: "contains_element g x" using layeredD(1) [OF inv, of x] V by auto
    have repr: "run_repr g run V (x # map fst Q')" and wave: "run_wave run ((x, d) # Q')"
      using Suc.prems(2,3) by (simp_all add: Cons q)
    from run_pop_wave [OF repr wave] d obtain run1 where
      pop: "run_pop run = Some (Some (x, word_of_nat d), run1)" "run_repr g run1 V (map fst Q')" "run_wave run1 Q'"
        "unat (br_depth run1) = d" "br_visitor run1 = br_visitor run" "br_emitted run1 = br_emitted run" "run_kept run run1"
      by auto
    let ?new = "discovered ?succs (expands_at bounds) V x d"
    let ?Q = "Q' @ map (\<lambda>y. (y, Suc d)) ?new"
    have inv': "layered ?E S (expands_at bounds) (D @ [(x, d)]) (V \<union> set ?new) ?Q"
      by (rule layered_step [OF inv]) (rule mode_targets(1) [OF mode x])
    have fuel: "card ?C \<le> length (D @ [(x, d)]) + n" using Suc.prems(4) by simp
    have V': "V \<union> set ?new \<subseteq> ?C"
      using V mode_targets(2) [OF mode x] by (auto simp: set_discovered split: if_splits)
    from layered_length [OF inv' V' contained_finite(1) [OF ok]] fuel have "length ?Q \<le> n" by linarith
    let ?rest = "drop (length ?Q) (layers ?succs (expands_at bounds) n (V \<union> set ?new) ?Q)"
    have "layers ?succs (expands_at bounds) n (V \<union> set ?new) ?Q = ?Q @ ?rest"
      using layers_prefix [of "length ?Q" ?Q n ?succs "expands_at bounds" "V \<union> set ?new"] \<open>length ?Q \<le> n\<close>
      by (metis append_take_drop_id order_refl take_all)
    from arg_cong [OF this, of "drop (length Q')"]
    have "drop (length Q') (layers ?succs (expands_at bounds) n (V \<union> set ?new) ?Q) = map (\<lambda>y. (y, Suc d)) ?new @ ?rest"
      by (simp only: append_assoc drop_append drop_all diff_self_eq_0 diff_0_eq_0 drop_0 append_Nil order_refl)
    then have "drop (length Q) (layers ?succs (expands_at bounds) (Suc n) V Q) = map (\<lambda>y. (y, Suc d)) ?new @ ?rest"
      by (simp only: Cons q layers.simps list.case prod.case list.size drop_Suc_Cons add_Suc_right add_0_right)
    then have feed: "feed visit (result_limit bounds) (br_visitor run1) (br_emitted run1)
        (map (\<lambda>y. (y, word_of_nat (Suc d))) ?new @ map as_depth ?rest) = (stop, v, e)"
      using Suc.prems(5) pop(5,6) as_depth_step(2) [OF d, of ?new] by (metis map_append)
    show ?thesis
    proof (cases "expands_at bounds d")
      case False
      then have new: "?new = []" by (simp add: discovered_def)
      from Suc.IH [OF inv' _ _ fuel, of run1] pop(2,3) feed obtain run' where
        "bounded_loop mode g visit bounds run1 = Some (run', Ok stop)" "br_visitor run' = v" "run_kept run1 run'"
        unfolding new by auto
      then show ?thesis
        using pop(1) False run_kept_trans [OF pop(7)] by (auto simp: bounded_loop.simps [of mode g visit bounds run])
    next
      case True
      then have new: "?new = fresh V (?succs x)" by (simp add: discovered_def)
      obtain stop1 v1 e1 where one: "feed visit (result_limit bounds) (br_visitor run1) (br_emitted run1)
          (map (\<lambda>y. (y, word_of_nat (Suc d))) ?new) = (stop1, v1, e1)" by (metis prod_cases3)
      have rest: "(if stop1 then (True, v1, e1) else feed visit (result_limit bounds) v1 e1 (map as_depth ?rest)) = (stop, v, e)"
        using feed unfolding feed_append one by simp
      have "\<forall>y \<in> set (?succs x). contains_element g y" using mode_targets(2) [OF mode x] by blast
      from discover_all_feed [OF ok pop(2) this as_depth_step(1) [OF d] one [unfolded new]] obtain run2 where
        run2: "discover_all g visit bounds (word_of_nat d) run1 (?succs x) = Some (run2, Ok stop1)"
          "br_visitor run2 = v1" "br_emitted run2 = e1" "run_kept run1 run2"
          "\<not> stop1 \<longrightarrow> wave_kept run1 run2 \<and> run_repr g run2 (V \<union> set (?succs x)) (map fst Q' @ fresh V (?succs x))" by blast
      have kept: "run_kept run run2" by (rule run_kept_trans [OF pop(7) run2(4)])
      have step: "bounded_loop mode g visit bounds run =
          (if stop1 then Some (run2, Ok True) else bounded_loop mode g visit bounds run2)"
        using pop(1) True run2(1) unfolding expand_run_targets [OF mode x, symmetric]
        by (simp add: bounded_loop.simps [of mode g visit bounds run])
      show ?thesis
      proof (cases stop1)
        case True
        then show ?thesis using step rest run2(2) kept by simp
      next
        case False
        with run2(5) have w: "wave_kept run1 run2" and r: "run_repr g run2 (V \<union> set ?new) (map fst ?Q)"
          by (simp_all add: new set_fresh comp_def)
        have "br_tail run1 = br_head run1 + length Q'" using run_repr_tail [OF pop(2)] by simp
        moreover have "br_tail run1 \<le> br_tail run2"
          using run_repr_tail [OF r] w calculation by (simp add: wave_kept_def)
        ultimately have "run_wave run2 ?Q"
          using run_wave_append [OF pop(3) _ w, of ?new] pop(4) by simp
        from Suc.IH [OF inv' r this fuel] rest False run2(2,3) obtain run' where
          "bounded_loop mode g visit bounds run2 = Some (run', Ok stop)" "br_visitor run' = v" "run_kept run2 run'" by auto
        then show ?thesis using step False run_kept_trans [OF kept] by auto
      qed
    qed
  qed
qed

lemma seed_all_feed:
  assumes ok: "topology_ok dir g" and "run_repr g run V Q" and "\<forall>x \<in> set seeds. contains_element g x"
    and "feed visit (result_limit bounds) (br_visitor run) (br_emitted run)
      (if include_seeds bounds then map (\<lambda>y. (y, 0)) (fresh V seeds) else []) = (stop, v, e)"
  shows "\<exists>run'. seed_all g visit bounds run seeds = Some (run', Ok stop) \<and> br_visitor run' = v \<and> br_emitted run' = e \<and>
    run_kept run run' \<and>
    (\<not> stop \<longrightarrow> run_repr g run' (V \<union> set seeds) (Q @ fresh V seeds) \<and> br_head run' = br_head run \<and>
       br_depth run' = br_depth run \<and> br_wave_end run' = br_tail run')"
  using assms(2-4)
proof (induction seeds arbitrary: run V Q)
  case Nil
  then show ?case by (cases "include_seeds bounds") (auto simp: run_kept_def run_marks_ok_def run_repr_def)
next
  case (Cons x xs)
  from Cons.prems(2) have x: "contains_element g x" and xs: "\<forall>x \<in> set xs. contains_element g x" by simp_all
  from run_index [OF ok Cons.prems(1) x] obtain i where
    i: "element_index g x = Some i" "i < element_bound g" "i < length (br_marks run)" "br_marks run ! i = br_epoch run \<longleftrightarrow> x \<in> V"
    by metis
  show ?case
  proof (cases "x \<in> V")
    case True
    then have skip: "fresh V (x # xs) = fresh V xs" "V \<union> set (x # xs) = V \<union> set xs" by auto
    have "seed_all g visit bounds run (x # xs) = seed_all g visit bounds run xs" using True i x by simp
    with Cons.IH [OF Cons.prems(1) xs Cons.prems(3) [unfolded skip(1)]] show ?thesis unfolding skip by simp
  next
    case False
    let ?run = "run\<lparr>br_marks := (br_marks run)[i := br_epoch run], br_queue := (br_queue run)[br_tail run := x],
        br_tail := br_tail run + 1\<rparr>"
    let ?more = "if include_seeds bounds then map (\<lambda>y. (y, 0)) (fresh (insert x V) xs) else []"
    note new = run_visit_new [OF ok Cons.prems(1) x False i(1)]
    obtain stop1 v1 e1 where one: "feed visit (result_limit bounds) (br_visitor run) (br_emitted run)
        (if include_seeds bounds then [(x, 0)] else []) = (stop1, v1, e1)" by (metis prod_cases3)
    have "(if include_seeds bounds then map (\<lambda>y. (y, 0)) (fresh V (x # xs)) else []) =
        (if include_seeds bounds then [(x, 0)] else []) @ ?more" using False by simp
    from Cons.prems(3) [unfolded this feed_append one]
    have rest: "(if stop1 then (True, v1, e1) else feed visit (result_limit bounds) v1 e1 ?more) = (stop, v, e)" by simp
    let ?run1 = "if include_seeds bounds then ?run\<lparr>br_visitor := v1, br_emitted := e1\<rparr> else ?run"
    have step: "seed_all g visit bounds run (x # xs) =
        (if stop1 then Some (?run1, Ok True) else seed_all g visit bounds ?run1 xs)"
      and e1: "e1 \<le> br_emitted run + 1" and same: "\<not> include_seeds bounds \<Longrightarrow> \<not> stop1 \<and> v1 = br_visitor run \<and> e1 = br_emitted run"
      using one x i False new(1,2) run_emit_feed [of ?run visit bounds x 0 stop1 v1 e1]
      by (auto simp: Let_def split: if_splits)
    have r: "run_repr g ?run1 (insert x V) (Q @ [x])" and k: "run_kept run ?run1"
      and ve: "br_visitor ?run1 = v1" "br_emitted ?run1 = e1" and h: "br_head ?run1 = br_head run" "br_depth ?run1 = br_depth run"
      using new(3) [where e = e1 and v = v1] new(5) [where e = e1 and v = v1] new(4,6) e1 same by auto
    show ?thesis
    proof (cases stop1)
      case True
      then show ?thesis using step rest k ve by auto
    next
      case no_stop: False
      have "feed visit (result_limit bounds) (br_visitor ?run1) (br_emitted ?run1) ?more = (stop, v, e)"
        using rest no_stop unfolding ve by simp
      from Cons.IH [OF r xs this] obtain run' where
        run': "seed_all g visit bounds ?run1 xs = Some (run', Ok stop)" "br_visitor run' = v" "br_emitted run' = e"
          "run_kept ?run1 run'" "\<not> stop \<longrightarrow> run_repr g run' (insert x V \<union> set xs) ((Q @ [x]) @ fresh (insert x V) xs) \<and>
             br_head run' = br_head ?run1 \<and> br_depth run' = br_depth ?run1 \<and> br_wave_end run' = br_tail run'" by blast
      have "seed_all g visit bounds run (x # xs) = Some (run', Ok stop)" using step no_stop run'(1) by simp
      moreover have "run_kept run run'" by (rule run_kept_trans [OF k run'(4)])
      ultimately show ?thesis using run'(2,3,5) False unfolding h by auto
    qed
  qed
qed


section \<open>Property\<close>

text \<open>The elements within the depth bound and their distances, in the order of their discovery.\<close>

definition bounded_layers :: "expansion \<Rightarrow> 'n topology_view \<Rightarrow> bfs_bounds \<Rightarrow> 'n list \<Rightarrow> ('n \<times> nat) list" where
  "bounded_layers mode g bounds seeds =
     layers (targets_of mode g) (expands_at bounds) (element_bound g) (set seeds) (map (\<lambda>s. (s, 0)) (fresh {} seeds))"

lemma expands_below:
  assumes "d < 2 ^ 32"
  shows "(\<forall>k < d. expands_at bounds k) \<longleftrightarrow> (case max_depth bounds of Some limit \<Rightarrow> d \<le> unat limit | None \<Rightarrow> True)"
proof (cases "max_depth bounds")
  case (Some limit)
  have "expands_at bounds k \<longleftrightarrow> k < unat limit" if "k < d" for k
  proof -
    have "unat (word_of_nat k :: u32) = k" using that assms by (intro unat_word_of_nat) simp
    then show ?thesis by (simp only: expands_def Some word_less_nat_alt option.case)
  qed
  then have "(\<forall>k < d. expands_at bounds k) \<longleftrightarrow> (\<forall>k < d. k < unat limit)" by blast
  also have "\<dots> \<longleftrightarrow> d \<le> unat limit" by (meson less_le_trans less_irrefl not_le)
  finally show ?thesis using Some by simp
qed (simp add: expands_def)

lemma bounded_layers_correct:
  assumes mode: "mode_ok mode g" and seeds: "\<forall>x \<in> set seeds. contains_element g x" and small: "element_bound g < 2 ^ 32"
  shows "distinct (map fst (bounded_layers mode g bounds seeds))" and "sorted (map snd (bounded_layers mode g bounds seeds))"
    and "(x, d) \<in> set (bounded_layers mode g bounds seeds) \<longleftrightarrow> at_distance (mode_steps mode g) (set seeds) d x \<and>
      (case max_depth bounds of Some limit \<Rightarrow> d \<le> unat limit | None \<Rightarrow> True)"
    and "at_distance (mode_steps mode g) (set seeds) d x \<Longrightarrow> Suc d < 2 ^ 32"
proof -
  from mode_topology [OF mode] obtain dir where ok: "topology_ok dir g" ..
  let ?C = "{x. contains_element g x}" and ?E = "mode_steps mode g" and ?succs = "targets_of mode g"
  let ?R = "bounded_layers mode g bounds seeds" and ?seeds = "fresh {} seeds"
  have set: "set ?seeds = set seeds" by (simp add: set_fresh)
  have base: "distinct ?seeds" "set ?seeds \<subseteq> ?C" "finite ?C" "card ?C \<le> element_bound g"
    using seeds contained_finite [OF ok] by (auto simp: set_fresh distinct_fresh)
  have succs: "(x, y) \<in> ?E \<longleftrightarrow> y \<in> set (?succs x)" if "x \<in> ?C" for x y using mode_targets(1) [OF mode] that by simp
  have closed: "y \<in> ?C" if "x \<in> ?C" "(x, y) \<in> ?E" for x y using mode_targets [OF mode] that by simp
  have small': "Suc d < 2 ^ 32" if "at_distance ?E (set seeds) d x" for d x
  proof -
    have "d < card ?C"
    proof (rule at_distance_card [OF that base(3)])
      show "y \<in> ?C" if "within ?E (set seeds) k y" for y k
        using that by (induction k arbitrary: y) (use seeds closed in \<open>auto simp: within_Suc\<close>)
    qed
    with base(4) small show ?thesis by simp
  qed
  then show "at_distance ?E (set seeds) d x \<Longrightarrow> Suc d < 2 ^ 32" .
  note facts = layers_correct [OF base, where E = ?E and succs = ?succs and expands = "expands_at bounds", unfolded set,
      folded bounded_layers_def]
  show "distinct (map fst ?R)" by (rule facts(1)) (use succs closed in blast)+
  show "sorted (map snd ?R)" by (rule facts(2)) (use succs closed in blast)+
  have "(x, d) \<in> set ?R \<longleftrightarrow> at_distance ?E (set seeds) d x \<and> (\<forall>k < d. expands_at bounds k)"
    by (rule facts(3)) (use succs closed in blast)+
  then show "(x, d) \<in> set ?R \<longleftrightarrow> at_distance ?E (set seeds) d x \<and>
      (case max_depth bounds of Some limit \<Rightarrow> d \<le> unat limit | None \<Rightarrow> True)"
    using small' [of d x] expands_below [of d bounds] by auto
qed

text \<open>The search shows the visitor the layers.\<close>

lemma bounded_search_runs:
  assumes "mode_ok mode g" and "\<forall>x \<in> set seeds. contains_element g x" and "element_bound g < 2 ^ 32"
    and "scratch_wf scratch" and "element_bound g \<le> length (es_marks scratch)" and "element_bound g \<le> length (es_queue scratch)"
  shows "\<exists>scratch'. breadth_first_search_bounded mode g seeds bounds scratch visit v =
      Some (scratch', fst (snd (feed visit (result_limit bounds) v 0
        (map (\<lambda>(x, d). (x, word_of_nat d)) (filter (\<lambda>(x, d). include_seeds bounds \<or> 0 < d) (bounded_layers mode g bounds seeds))))), Ok ()) \<and>
    scratch_wf scratch' \<and> length (es_marks scratch') = length (es_marks scratch) \<and>
    length (es_queue scratch') = length (es_queue scratch)"
proof -
  from mode_topology [OF assms(1)] obtain dir where ok: "topology_ok dir g" ..
  let ?E = "mode_steps mode g" and ?succs = "targets_of mode g" and ?limit = "result_limit bounds"
  let ?R = "bounded_layers mode g bounds seeds" and ?Q = "map (\<lambda>s. (s, 0 :: nat)) (fresh {} seeds)"
  let ?rest = "drop (length ?Q) ?R"
  note R = bounded_layers_correct(1-3) [OF assms(1-3), where bounds = bounds] bounded_layers_correct(4) [OF assms(1-3)]
  obtain epoch marks where adv: "epoch_advance (es_epoch scratch) (es_marks scratch) = (epoch, marks)" by fastforce
  have "\<forall>m \<in> set (es_marks scratch). m \<le> es_epoch scratch" using assms(4) by (simp add: scratch_wf_def)
  note fresh_marks = epoch_advance_fresh [OF this adv]
  let ?run = "\<lparr>br_marks = marks, br_queue = es_queue scratch, br_epoch = epoch, br_head = 0, br_tail = 0,
      br_wave_end = 0, br_depth = 0, br_emitted = 0, br_visitor = v\<rparr>"
  have "\<not> (map (\<lambda>m. m = epoch) marks) ! i" if "i < length marks" for i
    using fresh_marks(1) that nth_mem [OF that] by (metis (mono_tags, lifting) less_irrefl nth_map)
  then have "marked g (map (\<lambda>m. m = epoch) marks) {}"
    using topology_ok_index [OF ok] assms(5) fresh_marks(2) by (fastforce simp: marked_def)
  then have repr: "run_repr g ?run {} []" using assms(6) by (simp add: run_repr_def queued_def)
  have "set ?Q \<subseteq> set ?Q" "length ?Q \<le> element_bound g"
    using contained_bound [OF ok, of "fresh {} seeds"] assms(2) by (auto simp: distinct_fresh set_fresh)
  then have split: "?R = ?Q @ ?rest"
    using layers_prefix [of "length ?Q" ?Q "element_bound g" ?succs "expands_at bounds" "set seeds"]
    by (metis append_take_drop_id bounded_layers_def order_refl take_all)
  have kept_marks: "scratch_wf \<lparr>es_marks = br_marks run', es_queue = br_queue run', es_epoch = br_epoch run'\<rparr> \<and>
      length (br_marks run') = length (es_marks scratch) \<and> length (br_queue run') = length (es_queue scratch)"
    if "run_kept ?run run'" for run'
    using that fresh_marks by (auto simp: run_kept_def run_marks_ok_def scratch_wf_def intro: less_imp_le)
  have positive: "0 < d" if "(x, d) \<in> set ?rest" for x d
  proof (rule ccontr)
    assume "\<not> 0 < d"
    with that R(3) [of x d] set_drop_subset [of "length ?Q" ?R] have "x \<in> set seeds" by (auto simp: at_distance_def)
    then have "x \<in> set (map fst ?Q)" by (force simp: set_fresh)
    moreover have "x \<in> set (map fst ?rest)" using that by force
    moreover have "distinct (map fst ?Q @ map fst ?rest)" using R(1) split by (metis map_append)
    ultimately show False by (meson disjoint_iff distinct_append)
  qed
  have emitted: "map (\<lambda>(x, d). (x, word_of_nat d)) (filter (\<lambda>(x, d). include_seeds bounds \<or> 0 < d) ?R) =
      (if include_seeds bounds then map (\<lambda>y. (y, 0 :: u32)) (fresh {} seeds) else []) @ map as_depth ?rest"
  proof -
    have "filter (\<lambda>(x, d). include_seeds bounds \<or> 0 < d) ?rest = ?rest"
      using positive by (auto intro: filter_True)
    moreover have "filter (\<lambda>(x, d). include_seeds bounds \<or> 0 < d) ?Q = (if include_seeds bounds then ?Q else [])"
      by (auto simp: filter_map comp_def)
    moreover have "filter (\<lambda>(x, d). include_seeds bounds \<or> 0 < d) ?R =
        filter (\<lambda>(x, d). include_seeds bounds \<or> 0 < d) ?Q @ filter (\<lambda>(x, d). include_seeds bounds \<or> 0 < d) ?rest"
      unfolding filter_append [symmetric] split [symmetric] ..
    ultimately have "filter (\<lambda>(x, d). include_seeds bounds \<or> 0 < d) ?R = (if include_seeds bounds then ?Q else []) @ ?rest"
      by (simp only:)
    moreover have "map (\<lambda>(x, d). (x, word_of_nat d)) ?Q = map (\<lambda>y. (y, 0 :: u32)) (fresh {} seeds)" by simp
    ultimately show ?thesis by (cases "include_seeds bounds") (simp_all only: as_depth_eq if_True if_False map_append list.map)
  qed
  obtain stop0 v0 e0 where one: "feed visit ?limit v 0
      (if include_seeds bounds then map (\<lambda>y. (y, 0)) (fresh {} seeds) else []) = (stop0, v0, e0)" by (metis prod_cases3)
  from seed_all_feed [OF ok repr assms(2), of visit bounds stop0 v0 e0] one obtain run1 where
    run1: "seed_all g visit bounds ?run seeds = Some (run1, Ok stop0)" "br_visitor run1 = v0" "br_emitted run1 = e0"
      "run_kept ?run run1" "\<not> stop0 \<longrightarrow> run_repr g run1 (set seeds) (fresh {} seeds) \<and> br_head run1 = 0 \<and>
         br_depth run1 = 0 \<and> br_wave_end run1 = br_tail run1" by auto
  obtain stop v' e where two: "feed visit ?limit v0 e0 (map as_depth ?rest) = (stop, v', e)" by (metis prod_cases3)
  have fed: "fst (snd (feed visit ?limit v 0
      (map (\<lambda>(x, d). (x, word_of_nat d)) (filter (\<lambda>(x, d). include_seeds bounds \<or> 0 < d) ?R)))) = (if stop0 then v0 else v')"
    unfolding emitted feed_append one prod.case two by simp
  have "\<exists>run' result. (if stop0 then Some (run1, Ok True) else bounded_loop mode g visit bounds run1) = Some (run', Ok result) \<and>
      br_visitor run' = (if stop0 then v0 else v') \<and> run_kept ?run run'"
  proof (cases stop0)
    case True
    then show ?thesis using run1(2,4) by auto
  next
    case False
    with run1(5) have r: "run_repr g run1 (set seeds) (map fst ?Q)" and w: "br_head run1 = 0" "br_depth run1 = 0"
      "br_wave_end run1 = br_tail run1" by (simp_all add: comp_def)
    have wave: "run_wave run1 ?Q" using w run_repr_tail [OF r] by (simp add: run_wave_def)
    have layered: "layered ?E (set seeds) (expands_at bounds) [] (set seeds) ?Q"
      using layered_start [OF distinct_fresh, of ?E "{}" seeds "expands_at bounds"] by (simp add: set_fresh)
    have card: "card {x. contains_element g x} \<le> length [] + element_bound g" using contained_finite(2) [OF ok] by simp
    have "\<exists>run'. bounded_loop mode g visit bounds run1 = Some (run', Ok stop) \<and> br_visitor run' = v' \<and> run_kept run1 run'"
      by (rule bounded_loop_feed [OF assms(1) _ layered r wave card])
        (rule R(4), assumption, use two run1(2,3) in \<open>simp only: bounded_layers_def\<close>)
    then obtain run' where
      "bounded_loop mode g visit bounds run1 = Some (run', Ok stop)" "br_visitor run' = v'" "run_kept run1 run'" by blast
    then show ?thesis using False run_kept_trans [OF run1(4)] by auto
  qed
  then obtain run' result where final: "(if stop0 then Some (run1, Ok True) else bounded_loop mode g visit bounds run1) = Some (run', Ok result)"
    "br_visitor run' = (if stop0 then v0 else v')" "run_kept ?run run'" by blast
  then have "breadth_first_search_bounded mode g seeds bounds scratch visit v =
      Some (\<lparr>es_marks = br_marks run', es_queue = br_queue run', es_epoch = br_epoch run'\<rparr>, (if stop0 then v0 else v'), Ok ())"
    using assms(5,6) run1(1) adv by (cases stop0) (simp_all add: breadth_first_search_bounded_def Let_def)
  with kept_marks [OF final(3)] fed show ?thesis
    by (intro exI [of _ "\<lparr>es_marks = br_marks run', es_queue = br_queue run', es_epoch = br_epoch run'\<rparr>"]) simp
qed



end
