(* ===== verification/Components.thy ===== *)
theory Components
  imports Induced
begin

text \<open>
  Weakly connected components of \<open>crates/oxgraph-algo/src/components.rs\<close>: a union-find forest with union by
  rank and path halving over the dense indexes, and the grouping of the requested elements by root.
\<close>

section \<open>The algorithm\<close>

text \<open>\<open>find\<close> returns the halved parents with the root.\<close>

partial_function (option) find_root :: "nat list \<Rightarrow> nat \<Rightarrow> (nat list \<times> nat) option" where
  "find_root parent cursor =
     Option.bind (index_or_panic parent cursor) (\<lambda>up.
       if up = cursor then Some (parent, cursor)
       else Option.bind (index_or_panic parent up) (\<lambda>halved. find_root (parent[cursor := halved]) halved))"

text \<open>The rank is a byte; its increment panics on overflow.\<close>

definition union_sets :: "nat list \<Rightarrow> u8 list \<Rightarrow> nat \<Rightarrow> nat \<Rightarrow> (nat list \<times> u8 list) option" where
  "union_sets parent rank left right =
     Option.bind (find_root parent left) (\<lambda>(parent, left_root).
     Option.bind (find_root parent right) (\<lambda>(parent, right_root).
       if left_root = right_root then Some (parent, rank)
       else
         Option.bind (index_or_panic rank left_root) (\<lambda>left_rank.
         Option.bind (index_or_panic rank right_root) (\<lambda>right_rank.
           if left_rank < right_rank then
             Option.bind (store_or_panic parent left_root right_root) (\<lambda>parent. Some (parent, rank))
           else
             Option.bind (store_or_panic parent right_root left_root) (\<lambda>parent.
               if left_rank > right_rank then Some (parent, rank)
               else Option.bind (word_checked_add left_rank 1) (\<lambda>next. Some (parent, rank[left_root := next])))))))"

fun union_targets ::
    "'n topology_view \<Rightarrow> bool list \<Rightarrow> nat \<Rightarrow> nat list \<times> u8 list \<Rightarrow> 'n list \<Rightarrow> (nat list \<times> u8 list) option" where
  "union_targets g member source forest [] = Some forest"
| "union_targets g member source forest (successor # rest) =
     Option.bind (element_index g successor) (\<lambda>target.
       if target < element_bound g then
         Option.bind (index_or_panic member target) (\<lambda>requested.
           if requested then
             Option.bind (union_sets (fst forest) (snd forest) source target) (\<lambda>forest.
               union_targets g member source forest rest)
           else union_targets g member source forest rest)
       else union_targets g member source forest rest)"

fun union_nodes :: "'n topology_view \<Rightarrow> bool list \<Rightarrow> nat list \<times> u8 list \<Rightarrow> 'n list \<Rightarrow> (nat list \<times> u8 list) option" where
  "union_nodes g member forest [] = Some forest"
| "union_nodes g member forest (node # rest) =
     Option.bind (element_index g node) (\<lambda>source.
     Option.bind (element_successors g node) (\<lambda>successors.
     Option.bind (union_targets g member source forest successors) (\<lambda>forest.
       union_nodes g member forest rest)))"

text \<open>\<open>groups.entry(root).or_default().push(node)\<close> on the map in key order.\<close>

fun groups_push :: "nat \<Rightarrow> 'n \<Rightarrow> (nat \<times> 'n list) list \<Rightarrow> (nat \<times> 'n list) list" where
  "groups_push root node [] = [(root, [node])]"
| "groups_push root node ((key, nodes) # rest) =
     (if root < key then (root, [node]) # (key, nodes) # rest
      else if root = key then (key, nodes @ [node]) # rest
      else (key, nodes) # groups_push root node rest)"

fun group_nodes :: "'n topology_view \<Rightarrow> nat list \<Rightarrow> (nat \<times> 'n list) list \<Rightarrow> 'n list \<Rightarrow> (nat \<times> 'n list) list option" where
  "group_nodes g parent groups [] = Some groups"
| "group_nodes g parent groups (node # rest) =
     Option.bind (element_index g node) (\<lambda>index.
     Option.bind (find_root parent index) (\<lambda>(parent, root).
       group_nodes g parent (groups_push root node groups) rest))"

definition connected_components :: "'n topology_view \<Rightarrow> 'n list \<Rightarrow> 'n list list option" where
  "connected_components g elements =
     (let bound = element_bound g in
      Option.bind (collect_members g (replicate bound False) [] elements) (\<lambda>(member, nodes).
      Option.bind (union_nodes g member ([0..<bound], replicate bound 0) nodes) (\<lambda>(parent, rank).
      Option.bind (group_nodes g parent [] nodes) (\<lambda>groups.
        Some (map snd groups)))))"

section \<open>The forest\<close>

text \<open>
  A forest stands for the function \<open>r\<close> from each index to its root. Ranks rise along parents, and the tree
  of a root of rank \<open>k\<close> has at least \<open>2 ^ k\<close> members.
\<close>

definition parents_ok :: "nat \<Rightarrow> nat list \<Rightarrow> u8 list \<Rightarrow> (nat \<Rightarrow> nat) \<Rightarrow> bool" where
  "parents_ok n parent rank r \<longleftrightarrow> length parent = n \<and> length rank = n \<and>
     (\<forall>i < n. parent ! i < n \<and> r i < n \<and> r (r i) = r i \<and> r (parent ! i) = r i \<and>
        (parent ! i = i \<longleftrightarrow> r i = i) \<and> (parent ! i \<noteq> i \<longrightarrow> rank ! i < rank ! (parent ! i)))"

definition forest_ok :: "nat \<Rightarrow> nat list \<Rightarrow> u8 list \<Rightarrow> (nat \<Rightarrow> nat) \<Rightarrow> bool" where
  "forest_ok n parent rank r \<longleftrightarrow> parents_ok n parent rank r \<and>
     (\<forall>i < n. r i = i \<longrightarrow> 2 ^ unat (rank ! i) \<le> card {j. j < n \<and> r j = i})"

lemma parents_okD:
  assumes "parents_ok n parent rank r" and "i < n"
  shows "i < length parent" and "i < length rank" and "parent ! i < n" and "r i < n" and "r (r i) = r i"
    and "r (parent ! i) = r i" and "parent ! i = i \<longleftrightarrow> r i = i" and "parent ! i \<noteq> i \<Longrightarrow> rank ! i < rank ! (parent ! i)"
  using assms by (simp_all add: parents_ok_def)

lemma halve_ok:
  assumes ok: "parents_ok n parent rank r" and i: "i < n" "parent ! i \<noteq> i"
  shows "parents_ok n (parent[i := parent ! (parent ! i)]) rank r"
    and "rank ! i < rank ! (parent ! (parent ! i))"
proof -
  note up = parents_okD [OF ok i(1)] and upup = parents_okD [OF ok parents_okD(3) [OF ok i(1)]]
  have "rank ! (parent ! i) \<le> rank ! (parent ! (parent ! i))"
    using upup(8) by (cases "parent ! (parent ! i) = parent ! i") (auto intro: less_imp_le)
  with up(8) i(2) show rank: "rank ! i < rank ! (parent ! (parent ! i))" by simp
  then have "parent ! (parent ! i) \<noteq> i" by auto
  moreover have "r (parent ! (parent ! i)) = r i" using up(6) upup(6) by simp
  ultimately show "parents_ok n (parent[i := parent ! (parent ! i)]) rank r"
    using ok i up upup rank unfolding parents_ok_def by (auto simp: nth_list_update)
qed

lemma find_root_Some:
  assumes "parents_ok n parent rank r" and "i < n"
  shows "\<exists>parent'. find_root parent i = Some (parent', r i) \<and> parents_ok n parent' rank r"
  using assms
proof (induction "256 - unat (rank ! i)" arbitrary: parent i rule: less_induct)
  case less
  note okD = parents_okD [OF less.prems]
  show ?case
  proof (cases "parent ! i = i")
    case True
    then have "r i = i" using okD(7) by simp
    with True less.prems(1) okD(1) show ?thesis by (simp add: find_root.simps)
  next
    case False
    let ?up = "parent ! (parent ! i)"
    note halved = halve_ok [OF less.prems False]
    note upD = parents_okD [OF less.prems(1) okD(3)]
    have "unat (rank ! i) < unat (rank ! ?up)" using halved(2) by (simp add: word_less_nat_alt)
    moreover have "unat (rank ! ?up) < 256" by simp
    ultimately have "256 - unat (rank ! ?up) < 256 - unat (rank ! i)" by linarith
    from less.hyps [OF this halved(1) upD(3)] obtain parent' where
      "find_root (parent[i := ?up]) ?up = Some (parent', r ?up)" "parents_ok n parent' rank r" by blast
    moreover have "r ?up = r i" using okD(6) upD(6) by simp
    ultimately show ?thesis
      using False okD(1) upD(1) by (simp add: find_root.simps [of parent i])
  qed
qed

lemma forest_find:
  assumes "forest_ok n parent rank r" and "i < n"
  shows "\<exists>parent'. find_root parent i = Some (parent', r i) \<and> forest_ok n parent' rank r"
  using find_root_Some [of n parent rank r i] assms by (auto simp: forest_ok_def)


text \<open>Linking the root \<open>c\<close> below the root \<open>w\<close>.\<close>

definition link :: "(nat \<Rightarrow> nat) \<Rightarrow> nat \<Rightarrow> nat \<Rightarrow> nat \<Rightarrow> nat" where
  "link r c w x = (if r x = c then w else r x)"

lemma link_merges:
  assumes "if r i = r j then r' = r else r' = link r (r i) (r j) \<or> r' = link r (r j) (r i)"
  shows "r' x = r' y \<longleftrightarrow> r x = r y \<or> r x = r i \<and> r y = r j \<or> r x = r j \<and> r y = r i"
proof (cases "r i = r j")
  case True
  with assms show ?thesis by auto
next
  case False
  with assms consider "r' = link r (r i) (r j)" | "r' = link r (r j) (r i)" by (simp only: if_False) blast
  then show ?thesis by cases (auto simp: link_def)
qed

lemma link_parents:
  assumes ok: "parents_ok n parent rank r" and roots: "c < n" "r c = c" "w < n" "r w = w" "c \<noteq> w"
    and k: "rank ! w \<le> k" "rank ! c < k"
  shows "parents_ok n (parent[c := w]) (rank[w := k]) (link r c w)"
  unfolding parents_ok_def
proof (intro conjI allI impI)
  show "length (parent[c := w]) = n" "length (rank[w := k]) = n" using ok by (simp_all add: parents_ok_def)
  fix i assume i: "i < n"
  note okD = parents_okD [OF ok i]
  have len: "length parent = n" "length rank = n" using ok by (simp_all add: parents_ok_def)
  have "parent ! c = c" "parent ! w = w" using parents_okD(7) [OF ok] roots by auto
  show "parent[c := w] ! i < n" "link r c w i < n" "link r c w (link r c w i) = link r c w i"
    "link r c w (parent[c := w] ! i) = link r c w i" "parent[c := w] ! i = i \<longleftrightarrow> link r c w i = i"
    using okD i roots len by (auto simp: link_def nth_list_update)
  assume moved: "parent[c := w] ! i \<noteq> i"
  show "rank[w := k] ! i < rank[w := k] ! (parent[c := w] ! i)"
  proof (cases "i = c")
    case True
    then show ?thesis using k(2) roots len by simp
  next
    case False
    with moved have up: "parent ! i \<noteq> i" by simp
    with \<open>parent ! w = w\<close> have "i \<noteq> w" by auto
    with False up okD(8) k(1) len roots(3) show ?thesis by (auto simp: nth_list_update)
  qed
qed

lemma link_size:
  assumes "c < n" and "w < n" and "r c = c" and "r w = w" and "c \<noteq> w"
  shows "card {j. j < n \<and> link r c w j = w} = card {j. j < n \<and> r j = w} + card {j. j < n \<and> r j = c}"
proof -
  have "{j. j < n \<and> link r c w j = w} = {j. j < n \<and> r j = w} \<union> {j. j < n \<and> r j = c}"
    by (auto simp: link_def)
  moreover have "{j. j < n \<and> r j = w} \<inter> {j. j < n \<and> r j = c} = {}" using assms(5) by auto
  ultimately show ?thesis by (simp add: card_Un_disjoint)
qed

lemma link_forest:
  assumes ok: "forest_ok n parent rank r" and roots: "c < n" "r c = c" "w < n" "r w = w" "c \<noteq> w"
    and k: "rank ! w \<le> k" "rank ! c < k" and size: "2 ^ unat k \<le> card {j. j < n \<and> r j = w} + card {j. j < n \<and> r j = c}"
  shows "forest_ok n (parent[c := w]) (rank[w := k]) (link r c w)"
  unfolding forest_ok_def
proof (intro conjI allI impI)
  from ok have parents: "parents_ok n parent rank r" by (simp add: forest_ok_def)
  then show "parents_ok n (parent[c := w]) (rank[w := k]) (link r c w)" by (rule link_parents [OF _ roots k])
  fix i assume i: "i < n" "link r c w i = i"
  show "2 ^ unat (rank[w := k] ! i) \<le> card {j. j < n \<and> link r c w j = i}"
  proof (cases "i = w")
    case True
    have "rank[w := k] ! i = k" using True i parents by (simp add: parents_ok_def)
    then show ?thesis using True size link_size [OF roots(1,3,2,4,5)] by simp
  next
    case False
    with i have ri: "r i = i" "i \<noteq> c" using roots by (auto simp: link_def split: if_splits)
    then have "{j. j < n \<and> link r c w j = i} = {j. j < n \<and> r j = i}" using False by (auto simp: link_def)
    then show ?thesis using ok i(1) ri(1) False by (simp add: forest_ok_def)
  qed
qed

lemma union_sets_Some:
  assumes ok: "forest_ok n parent rank r" and i: "i < n" "j < n" and n: "n < 2 ^ 64"
  shows "\<exists>parent' rank' r'. union_sets parent rank i j = Some (parent', rank') \<and> forest_ok n parent' rank' r' \<and>
    (if r i = r j then r' = r else r' = link r (r i) (r j) \<or> r' = link r (r j) (r i))"
proof -
  from forest_find [OF ok i(1)] obtain parent1 where
    p1: "find_root parent i = Some (parent1, r i)" "forest_ok n parent1 rank r" by blast
  from forest_find [OF p1(2) i(2)] obtain parent2 where
    p2: "find_root parent1 j = Some (parent2, r j)" "forest_ok n parent2 rank r" by blast
  show ?thesis
  proof (cases "r i = r j")
    case True
    then show ?thesis using p1(1) p2 by (auto simp: union_sets_def)
  next
    case False
    have parents: "parents_ok n parent2 rank r" using p2(2) by (simp add: forest_ok_def)
    note a = parents_okD(4,5) [OF parents i(1)] and b = parents_okD(4,5) [OF parents i(2)]
    have lens: "r i < length parent2" "r j < length parent2" "r i < length rank" "r j < length rank"
      using a b parents by (simp_all add: parents_ok_def)
    have size: "2 ^ unat (rank ! (r x)) \<le> card {y. y < n \<and> r y = r x}" if "x < n" for x
      using p2(2) parents_okD(4,5) [OF parents that] by (simp add: forest_ok_def)
    have same: "rank[x := rank ! x] = rank" for x by simp
    consider (less) "rank ! r i < rank ! r j" | (greater) "rank ! r j < rank ! r i" | (equal) "rank ! r i = rank ! r j"
      by fastforce
    then show ?thesis
    proof cases
      case less
      have "forest_ok n (parent2[r i := r j]) (rank[r j := rank ! r j]) (link r (r i) (r j))"
        by (rule link_forest [OF p2(2) a b False]) (use less size [OF i(2)] in auto)
      then show ?thesis using p1(1) p2(1) False less lens by (auto simp: union_sets_def)
    next
      case greater
      have "forest_ok n (parent2[r j := r i]) (rank[r i := rank ! r i]) (link r (r j) (r i))"
        by (rule link_forest [OF p2(2) b a]) (use False greater size [OF i(1)] in auto)
      then show ?thesis using p1(1) p2(1) False greater lens by (auto simp: union_sets_def)
    next
      case equal
      let ?k = "rank ! r i + 1"
      have "card {y. y < n \<and> r y = r i} \<le> card {..<n}" by (rule card_mono) auto
      with size [OF i(1)] n have "(2 :: nat) ^ unat (rank ! r i) < 2 ^ 64" by simp
      then have small: "unat (rank ! r i) < 64" by (rule power_less_imp_less_exp [rotated]) simp
      then have unat: "unat ?k = unat (rank ! r i) + 1" using unat_add_fits [of "rank ! r i" 1] by simp
      have step: "word_checked_add (rank ! r i) 1 = Some ?k" using small by (simp add: word_checked_add_def)
      have "forest_ok n (parent2[r j := r i]) (rank[r i := ?k]) (link r (r j) (r i))"
      proof (rule link_forest [OF p2(2) b a])
        show "rank ! r i \<le> ?k" "rank ! r j < ?k" using unat equal by (simp_all add: word_le_nat_alt word_less_nat_alt)
        show "2 ^ unat ?k \<le> card {y. y < n \<and> r y = r i} + card {y. y < n \<and> r y = r j}"
          using size [OF i(1)] size [OF i(2)] equal unfolding unat by simp
      qed (use False in simp)
      then show ?thesis using p1(1) p2(1) False equal lens step by (auto simp: union_sets_def)
    qed
  qed
qed


section \<open>Classes\<close>

definition linked :: "('n \<times> 'n) set \<Rightarrow> ('n \<times> 'n) set" where
  "linked P = (P \<union> P\<inverse>)\<^sup>*"

definition classes :: "'n set \<Rightarrow> ('n \<times> 'n) set \<Rightarrow> ('n \<Rightarrow> nat) \<Rightarrow> bool" where
  "classes M P f \<longleftrightarrow> P \<subseteq> M \<times> M \<and> (\<forall>x \<in> M. \<forall>y \<in> M. f x = f y \<longleftrightarrow> (x, y) \<in> linked P)"

lemma linked_sym: "(x, y) \<in> linked P \<Longrightarrow> (y, x) \<in> linked P"
  unfolding linked_def by (rule symD [OF sym_rtrancl]) (auto simp: sym_def)

lemma linked_trans: "(x, y) \<in> linked P \<Longrightarrow> (y, z) \<in> linked P \<Longrightarrow> (x, z) \<in> linked P"
  unfolding linked_def by (rule rtrancl_trans)

lemma linked_mono: "P \<subseteq> P' \<Longrightarrow> linked P \<subseteq> linked P'"
  unfolding linked_def by (rule rtrancl_mono) auto

lemma linked_edge: "(x, y) \<in> P \<Longrightarrow> (x, y) \<in> linked P"
  unfolding linked_def by auto

lemma linked_equal:
  assumes "(x, y) \<in> linked P" and "\<And>u v. (u, v) \<in> P \<Longrightarrow> f u = f v"
  shows "f x = f y"
  using assms(1) unfolding linked_def by (induction rule: rtrancl_induct) (use assms(2) in auto)

lemma classes_edge:
  assumes f: "classes M P f" and "u \<in> M" and "t \<in> M"
    and merged: "\<And>x y. f' x = f' y \<longleftrightarrow> f x = f y \<or> f x = f u \<and> f y = f t \<or> f x = f t \<and> f y = f u"
  shows "classes M (insert (u, t) P) f'"
proof -
  let ?P = "insert (u, t) P"
  have sub: "P \<subseteq> M \<times> M" using f by (simp add: classes_def)
  with assms(2,3) have sub': "?P \<subseteq> M \<times> M" by blast
  have iff: "f x = f y \<longleftrightarrow> (x, y) \<in> linked P" if "x \<in> M" "y \<in> M" for x y using f that by (simp add: classes_def)
  have edge: "f' u = f' t" unfolding merged by blast
  have "f' x = f' y \<longleftrightarrow> (x, y) \<in> linked ?P" if xy: "x \<in> M" "y \<in> M" for x y
  proof
    assume "(x, y) \<in> linked ?P"
    then show "f' x = f' y"
    proof (rule linked_equal)
      fix a b assume "(a, b) \<in> ?P"
      then consider "a = u" "b = t" | "(a, b) \<in> P" by auto
      then show "f' a = f' b"
      proof cases
        case 2
        with sub have "a \<in> M" "b \<in> M" by auto
        from iff [OF this] linked_edge [OF 2] have "f a = f b" by simp
        then show ?thesis unfolding merged by blast
      qed (simp add: edge)
    qed
  next
    assume eq: "f' x = f' y"
    have near: "(a, b) \<in> linked ?P" if "f a = f b" "a \<in> M" "b \<in> M" for a b
      using iff [OF that(2,3)] that(1) subsetD [OF linked_mono [of P ?P]] by blast
    have ut: "(u, t) \<in> linked ?P" by (rule linked_edge) simp
    from eq [unfolded merged] consider "f x = f y" | "f x = f u" "f y = f t" | "f x = f t" "f y = f u" by blast
    then show "(x, y) \<in> linked ?P"
    proof cases
      case 1
      then show ?thesis using near xy by blast
    next
      case 2
      then have "(x, u) \<in> linked ?P" "(t, y) \<in> linked ?P" using near xy assms(2,3) by auto
      with ut show ?thesis by (blast intro: linked_trans)
    next
      case 3
      then have "(x, t) \<in> linked ?P" "(u, y) \<in> linked ?P" using near xy assms(2,3) by auto
      with linked_sym [OF ut] show ?thesis by (blast intro: linked_trans)
    qed
  qed
  with sub' show ?thesis unfolding classes_def by blast
qed

section \<open>Uniting along the edges\<close>

abbreviation index_of :: "'n topology_view \<Rightarrow> 'n \<Rightarrow> nat" where
  "index_of g x \<equiv> the (element_index g x)"

definition forest_classes :: "'n topology_view \<Rightarrow> 'n set \<Rightarrow> ('n \<times> 'n) set \<Rightarrow> nat list \<Rightarrow> u8 list \<Rightarrow> (nat \<Rightarrow> nat) \<Rightarrow> bool" where
  "forest_classes g M P parent rank r \<longleftrightarrow> forest_ok (element_bound g) parent rank r \<and> classes M P (\<lambda>x. r (index_of g x))"

lemma union_sets_classes:
  assumes ok: "topology_ok Forward g" and M: "\<forall>x \<in> M. contains_element g x" and f: "forest_classes g M P parent rank r"
    and u: "u \<in> M" and t: "t \<in> M"
  shows "\<exists>parent' rank' r'. union_sets parent rank (index_of g u) (index_of g t) = Some (parent', rank') \<and>
    forest_classes g M (insert (u, t) P) parent' rank' r'"
proof -
  have index: "index_of g x < element_bound g" if "x \<in> M" for x
    using topology_ok_index [OF ok] M that by (metis option.sel)
  have n: "element_bound g < 2 ^ 64" using topology_ok_bound [OF ok] by (simp add: usize_max_def)
  from f have "forest_ok (element_bound g) parent rank r" and c: "classes M P (\<lambda>x. r (index_of g x))"
    by (simp_all add: forest_classes_def)
  from union_sets_Some [OF this(1) index [OF u] index [OF t] n] obtain parent' rank' r' where
    run: "union_sets parent rank (index_of g u) (index_of g t) = Some (parent', rank')" "forest_ok (element_bound g) parent' rank' r'"
    and r': "if r (index_of g u) = r (index_of g t) then r' = r
      else r' = link r (r (index_of g u)) (r (index_of g t)) \<or> r' = link r (r (index_of g t)) (r (index_of g u))" by blast
  have "classes M (insert (u, t) P) (\<lambda>x. r' (index_of g x))"
  proof (rule classes_edge [OF c u t])
    show "r' (index_of g x) = r' (index_of g y) \<longleftrightarrow> r (index_of g x) = r (index_of g y) \<or>
        r (index_of g x) = r (index_of g u) \<and> r (index_of g y) = r (index_of g t) \<or>
        r (index_of g x) = r (index_of g t) \<and> r (index_of g y) = r (index_of g u)" for x y
      by (rule link_merges [OF r'])
  qed
  with run show ?thesis by (auto simp: forest_classes_def)
qed

lemma union_targets_classes:
  assumes ok: "topology_ok Forward g" and M: "\<forall>x \<in> M. contains_element g x" and member: "marked g member M"
    and "forest_classes g M P parent rank r" and u: "u \<in> M" and "\<forall>x \<in> set ts. contains_element g x"
  shows "\<exists>parent' rank' r'. union_targets g member (index_of g u) (parent, rank) ts = Some (parent', rank') \<and>
    forest_classes g M (P \<union> {u} \<times> (set ts \<inter> M)) parent' rank' r'"
  using assms(4,6)
proof (induction ts arbitrary: P parent rank r)
  case Nil
  then show ?case by auto
next
  case (Cons t ts)
  from Cons.prems(2) have t: "contains_element g t" and ts: "\<forall>x \<in> set ts. contains_element g x" by simp_all
  from marked_index [OF ok member t] obtain i where
    i: "element_index g t = Some i" "i < element_bound g" "i < length member" "member ! i \<longleftrightarrow> t \<in> M" by metis
  show ?case
  proof (cases "t \<in> M")
    case True
    from union_sets_classes [OF ok M Cons.prems(1) u True] obtain parent1 rank1 r1 where
      one: "union_sets parent rank (index_of g u) i = Some (parent1, rank1)" "forest_classes g M (insert (u, t) P) parent1 rank1 r1"
      by (auto simp: i(1))
    have "insert (u, t) P \<union> {u} \<times> (set ts \<inter> M) = P \<union> {u} \<times> (set (t # ts) \<inter> M)" using True by auto
    with Cons.IH [OF one(2) ts] one(1) i True show ?thesis by auto
  next
    case False
    then have "P \<union> {u} \<times> (set (t # ts) \<inter> M) = P \<union> {u} \<times> (set ts \<inter> M)" by auto
    with Cons.IH [OF Cons.prems(1) ts] i False show ?thesis by auto
  qed
qed

lemma union_nodes_classes:
  assumes ok: "topology_ok Forward g" and M: "\<forall>x \<in> M. contains_element g x" and member: "marked g member M"
    and "forest_classes g M P parent rank r" and "set nodes \<subseteq> M"
  shows "\<exists>parent' rank' r'. union_nodes g member (parent, rank) nodes = Some (parent', rank') \<and>
    forest_classes g M (P \<union> {(x, y) \<in> induced_steps g M. x \<in> set nodes}) parent' rank' r'"
  using assms(4,5)
proof (induction nodes arbitrary: P parent rank r)
  case Nil
  then show ?case by auto
next
  case (Cons u us)
  from Cons.prems(2) have u: "u \<in> M" "contains_element g u" and us: "set us \<subseteq> M" using M by auto
  note succs = expand_neighbors(1,2) [OF ok u(2)]
  from topology_ok_index [OF ok u(2)] obtain i where i: "element_index g u = Some i" by blast
  have "\<forall>x \<in> set (neighbors Forward g u). contains_element g x" using succs(2) by blast
  from union_targets_classes [OF ok M member Cons.prems(1) u(1) this] obtain parent1 rank1 r1 where
    one: "union_targets g member i (parent, rank) (neighbors Forward g u) = Some (parent1, rank1)"
      "forest_classes g M (P \<union> {u} \<times> (set (neighbors Forward g u) \<inter> M)) parent1 rank1 r1" by (auto simp: i)
  have "{u} \<times> (set (neighbors Forward g u) \<inter> M) = {(x, y) \<in> induced_steps g M. x = u}"
    using expand_neighbors(3) [OF ok u(2)] u(1) by (auto simp: induced_steps_def)
  then have "P \<union> {u} \<times> (set (neighbors Forward g u) \<inter> M) \<union> {(x, y) \<in> induced_steps g M. x \<in> set us} =
      P \<union> {(x, y) \<in> induced_steps g M. x \<in> set (u # us)}" by auto
  with Cons.IH [OF one(2) us] one(1) i succs(1) show ?case by auto
qed

section \<open>Grouping by root\<close>

definition groups_ok :: "('n \<Rightarrow> nat) \<Rightarrow> 'n list \<Rightarrow> (nat \<times> 'n list) list \<Rightarrow> bool" where
  "groups_ok f nodes groups \<longleftrightarrow> sorted_wrt (<) (map fst groups) \<and> fst ` set groups = f ` set nodes \<and>
     (\<forall>(k, xs) \<in> set groups. xs = filter (\<lambda>x. f x = k) nodes)"

lemma groups_push_keys: "fst ` set (groups_push k x groups) = insert k (fst ` set groups)"
  by (induction k x groups rule: groups_push.induct) auto

lemma groups_push_sorted: "sorted_wrt (<) (map fst groups) \<Longrightarrow> sorted_wrt (<) (map fst (groups_push k x groups))"
proof (induction k x groups rule: groups_push.induct)
  case (2 root node key nodes rest)
  have "\<forall>j \<in> set (map fst (groups_push root node rest)). j = root \<or> j \<in> set (map fst rest)"
    using groups_push_keys [of root node rest] by auto
  with 2 show ?case by fastforce
qed simp

lemma groups_push_entries:
  assumes "sorted_wrt (<) (map fst groups)"
  shows "(j, ys) \<in> set (groups_push k x groups) \<longleftrightarrow>
    (if j = k then (\<exists>xs. (k, xs) \<in> set groups \<and> ys = xs @ [x]) \<or> k \<notin> fst ` set groups \<and> ys = [x]
     else (j, ys) \<in> set groups)"
  using assms
proof (induction k x groups rule: groups_push.induct)
  case (2 root node key nodes rest)
  then show ?case by (force split: if_splits)
qed auto

lemma groups_push_ok:
  assumes "groups_ok f nodes groups"
  shows "groups_ok f (nodes @ [x]) (groups_push (f x) x groups)"
proof -
  from assms have sorted: "sorted_wrt (<) (map fst groups)" and keys: "fst ` set groups = f ` set nodes"
    and entries: "\<And>k xs. (k, xs) \<in> set groups \<Longrightarrow> xs = filter (\<lambda>y. f y = k) nodes" by (auto simp: groups_ok_def)
  have "ys = filter (\<lambda>y. f y = j) (nodes @ [x])" if "(j, ys) \<in> set (groups_push (f x) x groups)" for j ys
  proof (cases "j = f x")
    case True
    have "filter (\<lambda>y. f y = f x) nodes = []" if "f x \<notin> fst ` set groups"
      using that unfolding keys filter_empty_conv by (metis imageI)
    then show ?thesis using that groups_push_entries [OF sorted] entries True by (auto split: if_splits)
  next
    case False
    then show ?thesis using that groups_push_entries [OF sorted] entries by (auto split: if_splits)
  qed
  then show ?thesis
    using groups_push_sorted [OF sorted] groups_push_keys [of "f x" x groups] keys by (auto simp: groups_ok_def)
qed


lemma groups_distinct:
  assumes "groups_ok f nodes groups" and "distinct nodes"
  shows "distinct (concat (map snd groups))"
proof (rule distinct_concat)
  from assms(1) have sorted: "sorted_wrt (<) (map fst groups)" and keys: "fst ` set groups = f ` set nodes"
    and entries: "\<And>k xs. (k, xs) \<in> set groups \<Longrightarrow> xs = filter (\<lambda>x. f x = k) nodes" by (auto simp: groups_ok_def)
  have "distinct (map fst groups)" using sorted by (simp add: strict_sorted_iff)
  then have dist: "distinct groups" by (simp add: distinct_map)
  have "k = k'" if "(k, xs) \<in> set groups" "(k', xs) \<in> set groups" for k k' xs
  proof -
    have "k \<in> f ` set nodes" using that(1) keys by force
    then obtain x where "x \<in> set nodes" "f x = k" by blast
    then have "x \<in> set xs" using entries [OF that(1)] by simp
    then have "f x = k'" using arg_cong [OF entries [OF that(2)], of set] by simp
    with \<open>f x = k\<close> show ?thesis by simp
  qed
  then have "inj_on snd (set groups)" by (intro inj_onI) auto
  with dist show "distinct (map snd groups)" by (simp add: distinct_map)
  show "distinct ys" if "ys \<in> set (map snd groups)" for ys
  proof -
    from that obtain k where "(k, ys) \<in> set groups" by auto
    from entries [OF this] assms(2) show ?thesis by simp
  qed
  show "set ys \<inter> set zs = {}" if yz: "ys \<in> set (map snd groups)" "zs \<in> set (map snd groups)" "ys \<noteq> zs" for ys zs
  proof -
    from yz obtain k j where kj: "(k, ys) \<in> set groups" "(j, zs) \<in> set groups" by auto
    with yz(3) entries have "k \<noteq> j" by blast
    with entries [OF kj(1)] entries [OF kj(2)] show ?thesis by auto
  qed
qed

lemma group_nodes_Some:
  assumes ok: "topology_ok Forward g" and "forest_ok (element_bound g) parent rank r"
    and "\<forall>x \<in> set nodes. contains_element g x" and "groups_ok (\<lambda>x. r (index_of g x)) seen groups"
  shows "\<exists>groups'. group_nodes g parent groups nodes = Some groups' \<and> groups_ok (\<lambda>x. r (index_of g x)) (seen @ nodes) groups'"
  using assms(2-4)
proof (induction nodes arbitrary: parent groups seen)
  case (Cons x xs)
  from Cons.prems(2) have "contains_element g x" by simp
  from topology_ok_index [OF ok this] obtain i where i: "element_index g x = Some i" "i < element_bound g" by blast
  from forest_find [OF Cons.prems(1) i(2)] obtain parent' where
    p: "find_root parent i = Some (parent', r i)" "forest_ok (element_bound g) parent' rank r" by blast
  have "groups_ok (\<lambda>x. r (index_of g x)) (seen @ [x]) (groups_push (r i) x groups)"
    using groups_push_ok [OF Cons.prems(3), of x] i(1) by simp
  from Cons.IH [OF p(2) _ this] Cons.prems(2) i(1) p(1) show ?case by simp
qed simp

lemma forest_start: "forest_ok n [0..<n] (replicate n 0) (\<lambda>i. i)"
proof -
  have "{j. j < n \<and> j = i} = {i}" if "i < n" for i using that by auto
  then show ?thesis by (simp add: forest_ok_def parents_ok_def)
qed

section \<open>Property\<close>

text \<open>
  C19: over contained elements the components are computed without a panic, an endless search or an overflow of
  a rank: they are non-empty, list each requested element once, in input order within a component,
  and two elements share a component exactly when edges of the induced subgraph, taken in either
  direction, connect them.
\<close>

theorem connected_components_correct:
  assumes "topology_ok Forward g" and "\<forall>x \<in> set elements. contains_element g x"
  shows "\<exists>components. connected_components g elements = Some components \<and>
    distinct (concat components) \<and> set (concat components) = set elements \<and>
    (\<forall>c \<in> set components. c \<noteq> [] \<and>
       (\<forall>x \<in> set c. c = filter (\<lambda>y. (x, y) \<in> (induced_steps g (set elements) \<union> (induced_steps g (set elements))\<inverse>)\<^sup>*) (fresh {} elements)))"
proof -
  let ?M = "set elements" and ?nodes = "fresh {} elements" and ?bound = "element_bound g"
  let ?E = "induced_steps g ?M"
  note ok = assms(1) and M = assms(2)
  have nodes: "set ?nodes = ?M" "distinct ?nodes" by (simp_all add: set_fresh distinct_fresh)
  from collect_members_Some [OF ok marked_none [OF ok] M, of "[]"] obtain member where
    member: "collect_members g (replicate ?bound False) [] elements = Some (member, ?nodes)" "marked g member ?M" by auto
  have "index_of g x = index_of g y \<longleftrightarrow> (x, y) \<in> linked {}" if "x \<in> ?M" "y \<in> ?M" for x y
  proof -
    have "contains_element g x" "contains_element g y" using that M by auto
    with topology_ok_index [OF ok] have "element_index g x = element_index g y \<longleftrightarrow> index_of g x = index_of g y" by (metis option.sel)
    with topology_ok_distinct [OF ok \<open>contains_element g x\<close> \<open>contains_element g y\<close>] show ?thesis by (auto simp: linked_def)
  qed
  then have "forest_classes g ?M {} [0..<?bound] (replicate ?bound 0) (\<lambda>i. i)"
    using forest_start by (simp add: forest_classes_def classes_def)
  from union_nodes_classes [OF ok M member(2) this, of ?nodes] nodes(1) obtain parent rank r where
    run: "union_nodes g member ([0..<?bound], replicate ?bound 0) ?nodes = Some (parent, rank)"
    and f: "forest_classes g ?M ({} \<union> {(x, y) \<in> ?E. x \<in> ?M}) parent rank r" by auto
  have "{} \<union> {(x, y) \<in> ?E. x \<in> ?M} = ?E" by (auto simp: induced_steps_def)
  with f have forest: "forest_ok ?bound parent rank r" and classes: "classes ?M ?E (\<lambda>x. r (index_of g x))"
    by (simp_all add: forest_classes_def)
  have "groups_ok (\<lambda>x. r (index_of g x)) [] []" by (simp add: groups_ok_def)
  from group_nodes_Some [OF ok forest _ this, of ?nodes] M nodes(1) obtain groups where
    groups: "group_nodes g parent [] ?nodes = Some groups" "groups_ok (\<lambda>x. r (index_of g x)) ?nodes groups" by auto
  have result: "connected_components g elements = Some (map snd groups)"
    using member(1) run groups(1) by (simp add: connected_components_def)
  from groups(2) have sorted: "sorted_wrt (<) (map fst groups)" and keys: "fst ` set groups = (\<lambda>x. r (index_of g x)) ` ?M"
    and entries: "\<And>k xs. (k, xs) \<in> set groups \<Longrightarrow> xs = filter (\<lambda>x. r (index_of g x) = k) ?nodes"
    by (auto simp: groups_ok_def nodes(1))
  have one: "c \<noteq> []" "x \<in> set c \<Longrightarrow> c = filter (\<lambda>y. (x, y) \<in> (?E \<union> ?E\<inverse>)\<^sup>*) ?nodes" if "c \<in> set (map snd groups)" for c x
  proof -
    from that obtain k where k: "(k, c) \<in> set groups" by auto
    note c = entries [OF k]
    from k have "k \<in> fst ` set groups" by force
    then obtain z where "z \<in> ?M" "r (index_of g z) = k" unfolding keys by blast
    with nodes(1) show "c \<noteq> []" unfolding c by (auto simp: filter_empty_conv)
    assume "x \<in> set c"
    then have x: "x \<in> ?M" "r (index_of g x) = k" unfolding c by (auto simp: nodes(1))
    have "r (index_of g y) = k \<longleftrightarrow> (x, y) \<in> (?E \<union> ?E\<inverse>)\<^sup>*" if "y \<in> set ?nodes" for y
      using classes x that nodes(1) unfolding classes_def linked_def by metis
    then show "c = filter (\<lambda>y. (x, y) \<in> (?E \<union> ?E\<inverse>)\<^sup>*) ?nodes" unfolding c by (rule filter_cong [OF refl])
  qed
  have "set (concat (map snd groups)) = ?M"
  proof (intro equalityI subsetI)
    fix x assume "x \<in> set (concat (map snd groups))"
    then obtain k xs where "(k, xs) \<in> set groups" "x \<in> set xs" by auto
    then have "x \<in> set (filter (\<lambda>x. r (index_of g x) = k) ?nodes)" using entries by metis
    with nodes(1) show "x \<in> ?M" by simp
  next
    fix x assume x: "x \<in> ?M"
    then have "r (index_of g x) \<in> fst ` set groups" unfolding keys by (rule imageI)
    then obtain xs where xs: "(r (index_of g x), xs) \<in> set groups" by force
    from entries [OF xs] x nodes(1) have "x \<in> set xs" by simp
    with xs show "x \<in> set (concat (map snd groups))" by force
  qed
  moreover have "distinct (concat (map snd groups))" by (rule groups_distinct [OF groups(2) nodes(2)])
  ultimately show ?thesis using result one by blast
qed


theorem connected_components_correct_witness:
  "\<exists>components. connected_components (csr_topology example_view) [1] = Some components \<and>
     distinct (concat components) \<and> set (concat components) = {1}"
  using connected_components_correct [OF example_topology, of "[1]"] example_start by auto

end
