(* ===== verification/Wal.thy ===== *)
theory Wal
  imports SnapshotFormat
begin

text \<open>
  The delta-log of the embedded database: \<open>crates/oxgraph-db/src/wal.rs\<close> with the record layouts of
  \<open>wire.rs\<close> that it reads and writes. The checksum crate behind \<open>crc.rs\<close> is the parameter \<open>crc\<close>, the
  crate's \<open>crc32c_append\<close>; its \<open>crc32c\<close> starts from seed zero.
\<close>

section \<open>Errors and record layouts\<close>

text \<open>The operating system's error inside \<open>Io\<close> is not kept.\<close>

datatype storage_error =
    AlreadyExists
  | NotFound
  | Io string
  | InvalidStore string
  | UnsupportedFormat u32 u32 \<comment> \<open>found, expected\<close>
  | LogCorrupt u64 string
  | BaseGenerationMismatch u64 u64 \<comment> \<open>expected, found\<close>

record log_record_header =
  lrh_base_generation :: u64
  lrh_lsn :: u64
  lrh_txn_id :: u64
  lrh_magic :: u32
  lrh_len :: u32
  lrh_op_count :: u32
  lrh_crc32c :: u32

record mutation_op =
  op_kind :: u32
  op_flags :: u32
  op_payload :: "u64 list"

definition MUTATION_OP_PAYLOAD_WORDS :: nat where "MUTATION_OP_PAYLOAD_WORDS = 9"

definition OXGLOGR :: u32 where "OXGLOGR = 0x4F584C47"

definition HEADER_LEN :: nat where "HEADER_LEN = 40"

definition OP_LEN :: nat where "OP_LEN = 80"

definition HEADER_CRC_OFFSET :: nat where "HEADER_CRC_OFFSET = HEADER_LEN - 4"

definition log_header_as_bytes :: "log_record_header \<Rightarrow> byte list" where
  "log_header_as_bytes h =
     to_le_word (lrh_base_generation h) @ to_le_word (lrh_lsn h) @ to_le_word (lrh_txn_id h) @
     to_le_word (lrh_magic h) @ to_le_word (lrh_len h) @ to_le_word (lrh_op_count h) @ to_le_word (lrh_crc32c h)"

text \<open>\<open>read_from_bytes\<close> fails exactly on a slice of another size.\<close>

definition log_header_read_from_bytes :: "byte list \<Rightarrow> log_record_header option" where
  "log_header_read_from_bytes bs =
     (if length bs = HEADER_LEN then
        Some \<lparr>lrh_base_generation = from_le_word (subrange bs 0 8), lrh_lsn = from_le_word (subrange bs 8 8),
          lrh_txn_id = from_le_word (subrange bs 16 8), lrh_magic = from_le_word (subrange bs 24 4),
          lrh_len = from_le_word (subrange bs 28 4), lrh_op_count = from_le_word (subrange bs 32 4),
          lrh_crc32c = from_le_word (subrange bs 36 4)\<rparr>
      else None)"

definition op_as_bytes :: "mutation_op \<Rightarrow> byte list" where
  "op_as_bytes p = to_le_word (op_kind p) @ to_le_word (op_flags p) @ slice_to_le (op_payload p)"

definition op_read_from_bytes :: "byte list \<Rightarrow> mutation_op option" where
  "op_read_from_bytes bs =
     (if length bs = OP_LEN then
        Some \<lparr>op_kind = from_le_word (subrange bs 0 4), op_flags = from_le_word (subrange bs 4 4),
          op_payload = read_le_words MUTATION_OP_PAYLOAD_WORDS (subrange bs 8 72)\<rparr>
      else None)"

text \<open>The payload array has its fixed length.\<close>

definition op_shape :: "mutation_op \<Rightarrow> bool" where
  "op_shape p \<longleftrightarrow> length (op_payload p) = MUTATION_OP_PAYLOAD_WORDS"

section \<open>Encoding\<close>

definition record_crc :: "(u32 \<Rightarrow> byte list \<Rightarrow> u32) \<Rightarrow> byte list \<Rightarrow> u32 option" where
  "record_crc crc record =
     Option.bind (slice_or_panic record 0 HEADER_CRC_OFFSET) (\<lambda>prefix.
     Option.bind (slice_or_panic record (HEADER_CRC_OFFSET + 4) (length record)) (\<lambda>suffix.
       Some (crc (crc 0 prefix) suffix)))"

text \<open>The length sum panics past \<open>usize::MAX\<close>.\<close>

definition encode_commit ::
    "(u32 \<Rightarrow> byte list \<Rightarrow> u32) \<Rightarrow> u64 \<Rightarrow> u64 \<Rightarrow> u64 \<Rightarrow> mutation_op list \<Rightarrow> byte list \<Rightarrow> (storage_error, byte list) run" where
  "encode_commit crc lsn txn_id base_generation ops blob =
     run_then (reading (Option.bind (checked_mul (length ops) OP_LEN) (\<lambda>ops_bytes.
       Option.bind (checked_add HEADER_LEN ops_bytes) (\<lambda>n. checked_add n (length blob))))) (\<lambda>len.
     run_then (trying (ok_or (InvalidStore ''delta-log record too large'') (from_usize len))) (\<lambda>len_u32.
     run_then (trying (ok_or (InvalidStore ''delta-log op count too large'') (from_usize (length ops)))) (\<lambda>op_count_u32.
       let header = \<lparr>lrh_base_generation = base_generation, lrh_lsn = lsn, lrh_txn_id = txn_id, lrh_magic = OXGLOGR,
             lrh_len = len_u32, lrh_op_count = op_count_u32, lrh_crc32c = 0\<rparr>;
           record = log_header_as_bytes header @ concat (map op_as_bytes ops) @ blob in
       run_then (reading (record_crc crc record)) (\<lambda>value.
         reading (copy_or_panic record HEADER_CRC_OFFSET (to_le_word value))))))"

section \<open>Replay\<close>

record commit_frame =
  cf_lsn :: u64
  cf_txn_id :: u64
  cf_base_generation :: u64
  cf_ops :: "mutation_op list"
  cf_blob :: "byte list"

record replay_outcome =
  ro_frames :: "commit_frame list"
  ro_valid_len :: nat
  ro_last_lsn :: u64
  ro_last_txn :: u64

datatype record_parse =
    Stop
  | Loud storage_error
  | Frame commit_frame nat

record lsn_cursor =
  lc_last_lsn :: u64
  lc_seen :: bool

definition chunks_exact :: "nat \<Rightarrow> 'a list \<Rightarrow> 'a list list" where
  "chunks_exact n xs = map (\<lambda>i. subrange xs (i * n) n) [0..<length xs div n]"

fun decode_chunks :: "byte list list \<Rightarrow> mutation_op list" where
  "decode_chunks [] = []"
| "decode_chunks (chunk # rest) =
     (case op_read_from_bytes chunk of None \<Rightarrow> [] | Some p \<Rightarrow> p # decode_chunks rest)"

definition decode_ops :: "byte list \<Rightarrow> nat \<Rightarrow> (mutation_op list \<times> byte list) option" where
  "decode_ops record framed_min =
     Option.bind (slice_or_panic record HEADER_LEN framed_min) (\<lambda>ops_bytes.
     Option.bind (slice_or_panic record framed_min (length record)) (\<lambda>blob.
       Some (decode_chunks (chunks_exact OP_LEN ops_bytes), blob)))"

definition tail_or_loud :: "bool \<Rightarrow> storage_error \<Rightarrow> record_parse" where
  "tail_or_loud is_last err = (if is_last then Stop else Loud err)"

text \<open>The outer option is a panic.\<close>

definition parse_one_record ::
    "(u32 \<Rightarrow> byte list \<Rightarrow> u32) \<Rightarrow> u64 \<Rightarrow> byte list \<Rightarrow> lsn_cursor \<Rightarrow> record_parse option" where
  "parse_one_record crc base_generation remaining cursor =
     (if length remaining < HEADER_LEN then Some Stop
      else
        Option.bind (slice_or_panic remaining 0 HEADER_LEN) (\<lambda>header_bytes.
        case log_header_read_from_bytes header_bytes of
          None \<Rightarrow> Some Stop
        | Some header \<Rightarrow>
            let len = unat (lrh_len header);
                op_count = unat (lrh_op_count header);
                lsn = lrh_lsn header;
                body_len = Option.bind (checked_mul op_count OP_LEN) (\<lambda>ops_bytes. checked_add ops_bytes HEADER_LEN);
                frame_well_framed = ((case body_len of Some body_bytes \<Rightarrow> body_bytes \<le> len | None \<Rightarrow> False) \<and>
                  len \<le> length remaining \<and> len \<ge> HEADER_LEN);
                is_last = (\<not> frame_well_framed \<or> len \<ge> length remaining);
                record_generation = lrh_base_generation header in
            if lrh_magic header \<noteq> OXGLOGR then
              Some (tail_or_loud is_last (LogCorrupt lsn ''delta-log record magic mismatch''))
            else if record_generation \<noteq> base_generation then
              Some (tail_or_loud is_last (BaseGenerationMismatch base_generation record_generation))
            else
              (case body_len of
                 None \<Rightarrow> Some Stop
               | Some framed_min \<Rightarrow>
                   if len < framed_min \<or> len < HEADER_LEN then
                     Some (tail_or_loud is_last (LogCorrupt lsn ''delta-log record length undershoots its framing''))
                   else if len > length remaining then Some Stop
                   else
                     Option.bind (slice_or_panic remaining 0 len) (\<lambda>record.
                     Option.bind (record_crc crc record) (\<lambda>value.
                       if value \<noteq> lrh_crc32c header then
                         Some (tail_or_loud is_last (LogCorrupt lsn ''delta-log record checksum mismatch''))
                       else if lc_seen cursor \<and> lsn \<le> lc_last_lsn cursor then
                         Some (Loud (LogCorrupt lsn ''delta-log record LSN not strictly ascending''))
                       else
                         Option.bind (decode_ops record framed_min) (\<lambda>(ops, blob).
                           Some (Frame \<lparr>cf_lsn = lsn, cf_txn_id = lrh_txn_id header,
                             cf_base_generation = record_generation, cf_ops = ops, cf_blob = blob\<rparr> len)))))))"

text \<open>
  The walk by record length. \<open>None\<close> is a panic or a loop that does not end; that neither happens is
  part of the properties.
\<close>

partial_function (option) replay_loop ::
    "(u32 \<Rightarrow> byte list \<Rightarrow> u32) \<Rightarrow> u64 \<Rightarrow> byte list \<Rightarrow> nat \<Rightarrow> replay_outcome \<Rightarrow> bool \<Rightarrow> (storage_error, replay_outcome) run" where
  "replay_loop crc base_generation log offset out seen_lsn =
     (if offset < length log then
        Option.bind (parse_one_record crc base_generation (drop offset log)
            \<lparr>lc_last_lsn = ro_last_lsn out, lc_seen = seen_lsn\<rparr>) (\<lambda>parsed.
          case parsed of
            Stop \<Rightarrow> Some (Ok out)
          | Loud err \<Rightarrow> Some (Err err)
          | Frame frame len \<Rightarrow>
              replay_loop crc base_generation log (offset + len)
                \<lparr>ro_frames = ro_frames out @ [frame], ro_valid_len = offset + len, ro_last_lsn = cf_lsn frame,
                  ro_last_txn = cf_txn_id frame\<rparr> True)
      else Some (Ok out))"

definition replay :: "(u32 \<Rightarrow> byte list \<Rightarrow> u32) \<Rightarrow> u64 \<Rightarrow> byte list \<Rightarrow> (storage_error, replay_outcome) run" where
  "replay crc base_generation log =
     replay_loop crc base_generation log 0 \<lparr>ro_frames = [], ro_valid_len = 0, ro_last_lsn = 0, ro_last_txn = 0\<rparr> False"

section \<open>Appending\<close>

text \<open>
  How the calls on the log file turn out: whether seeking succeeds, after how many bytes \<open>write_all\<close>
  fails if it does, and whether the sync and the truncation succeed.
\<close>

record append_io =
  io_seek :: bool
  io_write_fails :: "nat option"
  io_sync :: bool
  io_truncate :: bool

text \<open>Errors of the rollback are swallowed.\<close>

definition rollback_to :: "append_io \<Rightarrow> byte list \<Rightarrow> nat \<Rightarrow> byte list" where
  "rollback_to io file eof = (if io_truncate io then take eof file else file)"

text \<open>The file afterwards and the result.\<close>

definition append_commit :: "append_io \<Rightarrow> byte list \<Rightarrow> byte list \<Rightarrow> byte list \<times> (storage_error, unit) result" where
  "append_commit io file frame =
     (if \<not> io_seek io then (file, Err (Io ''seek delta-log end''))
      else
        let eof = length file in
        case io_write_fails io of
          Some k \<Rightarrow> (rollback_to io (file @ take k frame) eof, Err (Io ''append delta-log record''))
        | None \<Rightarrow>
            if \<not> io_sync io then (rollback_to io (file @ frame) eof, Err (Io ''sync delta-log''))
            else (file @ frame, Ok ()))"

section \<open>Codecs\<close>

lemmas wal_sizes = HEADER_LEN_def OP_LEN_def HEADER_CRC_OFFSET_def MUTATION_OP_PAYLOAD_WORDS_def

lemma OP_LEN_pos [simp]: "0 < OP_LEN"
  by (simp add: OP_LEN_def)

lemma length_log_header_as_bytes [simp]: "length (log_header_as_bytes h) = HEADER_LEN"
  by (simp add: log_header_as_bytes_def HEADER_LEN_def)

lemma log_header_read_as_bytes [simp]: "log_header_read_from_bytes (log_header_as_bytes h) = Some h"
  by (simp add: log_header_read_from_bytes_def) (simp add: log_header_as_bytes_def subrange_def)

lemma log_header_read_Some_iff:
  "log_header_read_from_bytes bs = Some h \<longleftrightarrow> length bs = HEADER_LEN \<and> bs = log_header_as_bytes h"
proof
  assume "log_header_read_from_bytes bs = Some h"
  then have len: "length bs = HEADER_LEN" and h: "h = \<lparr>lrh_base_generation = from_le_word (subrange bs 0 8),
      lrh_lsn = from_le_word (subrange bs 8 8), lrh_txn_id = from_le_word (subrange bs 16 8),
      lrh_magic = from_le_word (subrange bs 24 4), lrh_len = from_le_word (subrange bs 28 4),
      lrh_op_count = from_le_word (subrange bs 32 4), lrh_crc32c = from_le_word (subrange bs 36 4)\<rparr>"
    by (simp_all add: log_header_read_from_bytes_def split: if_splits)
  have "log_header_as_bytes h = bs"
    using len unfolding h by (simp add: log_header_as_bytes_def HEADER_LEN_def subrange_all)
  with len show "length bs = HEADER_LEN \<and> bs = log_header_as_bytes h" by simp
qed auto

lemma length_op_as_bytes [simp]: "op_shape p \<Longrightarrow> length (op_as_bytes p) = OP_LEN"
  using width64.length_slice_to_le [of "op_payload p"]
  by (simp add: op_as_bytes_def op_shape_def wal_sizes word_size_def)

lemma op_read_as_bytes [simp]: "op_shape p \<Longrightarrow> op_read_from_bytes (op_as_bytes p) = Some p"
proof -
  assume p: "op_shape p"
  have len: "length (slice_to_le (op_payload p)) = 72"
    using width64.length_slice_to_le [of "op_payload p"] p by (simp add: op_shape_def wal_sizes word_size_def)
  have "read_le_words 9 (slice_to_le (op_payload p)) = op_payload p"
    using width64.read_le_words_slice_to_le [of "op_payload p"] p by (simp add: op_shape_def wal_sizes)
  then show ?thesis
    using p len by (simp add: op_read_from_bytes_def) (simp add: op_as_bytes_def subrange_def wal_sizes)
qed

lemma op_as_read_bytes:
  assumes "length bs = OP_LEN"
  obtains p where "op_read_from_bytes bs = Some p" and "op_shape p" and "op_as_bytes p = bs"
proof -
  let ?p = "\<lparr>op_kind = from_le_word (subrange bs 0 4), op_flags = from_le_word (subrange bs 4 4),
      op_payload = read_le_words MUTATION_OP_PAYLOAD_WORDS (subrange bs 8 72) :: u64 list\<rparr>"
  have "slice_to_le (read_le_words 9 (subrange bs 8 72) :: u64 list) = subrange bs 8 72"
    by (rule width64.slice_to_le_read_le_words) (use assms in \<open>simp add: wal_sizes word_size_def\<close>)
  then have "op_as_bytes ?p = bs"
    using assms by (simp add: op_as_bytes_def wal_sizes subrange_all)
  then show ?thesis using that [of ?p] assms by (simp add: op_read_from_bytes_def op_shape_def)
qed

text \<open>A run of ops decodes to itself, and every run of whole chunks is one.\<close>

lemma chunks_exact_Cons:
  assumes "0 < n" and "length x = n"
  shows "chunks_exact n (x @ xs) = x # chunks_exact n xs"
proof -
  have "(n + length xs) div n = Suc (length xs div n)" using div_add_self1 [of n "length xs"] assms(1) by simp
  then have "chunks_exact n (x @ xs) = subrange (x @ xs) 0 n # map (\<lambda>i. subrange (x @ xs) (Suc i * n) n) [0..<length xs div n]"
    using assms(2) by (simp add: chunks_exact_def upt_rec [of 0] map_Suc_upt [symmetric] comp_def del: upt_Suc)
  then show ?thesis using assms(2) by (simp add: chunks_exact_def subrange_def)
qed

lemma chunks_exact_Nil [simp]: "chunks_exact n [] = []"
  by (simp add: chunks_exact_def)

lemma decode_chunks_as_bytes:
  "\<forall>p \<in> set ops. op_shape p \<Longrightarrow> decode_chunks (chunks_exact OP_LEN (concat (map op_as_bytes ops))) = ops"
  by (induction ops) (simp_all add: chunks_exact_Cons)


lemma decode_chunks_whole:
  assumes "length bs = n * OP_LEN"
  obtains ops where "length ops = n" and "\<forall>p \<in> set ops. op_shape p" and "concat (map op_as_bytes ops) = bs"
  using assms
proof (induction n arbitrary: bs thesis)
  case 0
  then show ?case by (metis concat.simps(1) length_0_conv list.set(1) list.simps(8) mult_0 ball_empty)
next
  case (Suc n)
  from Suc.prems(2) have "length (take OP_LEN bs) = OP_LEN" and rest: "length (drop OP_LEN bs) = n * OP_LEN" by auto
  then obtain p where p: "op_shape p" "op_as_bytes p = take OP_LEN bs" by (metis op_as_read_bytes)
  obtain ops where "length ops = n" "\<forall>p \<in> set ops. op_shape p" "concat (map op_as_bytes ops) = drop OP_LEN bs"
    using Suc.IH [OF _ rest] by blast
  with p Suc.prems(1) [of "p # ops"] show ?case by simp
qed

section \<open>Records as bytes\<close>

definition frame_shape :: "commit_frame \<Rightarrow> bool" where
  "frame_shape f \<longleftrightarrow> (\<forall>p \<in> set (cf_ops f). op_shape p)"

definition frame_len :: "commit_frame \<Rightarrow> nat" where
  "frame_len f = HEADER_LEN + length (cf_ops f) * OP_LEN + length (cf_blob f)"

definition frame_body :: "commit_frame \<Rightarrow> byte list" where
  "frame_body f = concat (map op_as_bytes (cf_ops f)) @ cf_blob f"

definition frame_header :: "commit_frame \<Rightarrow> u32 \<Rightarrow> log_record_header" where
  "frame_header f value =
     \<lparr>lrh_base_generation = cf_base_generation f, lrh_lsn = cf_lsn f, lrh_txn_id = cf_txn_id f, lrh_magic = OXGLOGR,
       lrh_len = word_of_nat (frame_len f), lrh_op_count = word_of_nat (length (cf_ops f)), lrh_crc32c = value\<rparr>"

definition frame_crc :: "(u32 \<Rightarrow> byte list \<Rightarrow> u32) \<Rightarrow> commit_frame \<Rightarrow> u32" where
  "frame_crc crc f = crc (crc 0 (take HEADER_CRC_OFFSET (log_header_as_bytes (frame_header f 0)))) (frame_body f)"

definition frame_bytes :: "(u32 \<Rightarrow> byte list \<Rightarrow> u32) \<Rightarrow> commit_frame \<Rightarrow> byte list" where
  "frame_bytes crc f = log_header_as_bytes (frame_header f (frame_crc crc f)) @ frame_body f"

definition encode_frame :: "(u32 \<Rightarrow> byte list \<Rightarrow> u32) \<Rightarrow> commit_frame \<Rightarrow> (storage_error, byte list) run" where
  "encode_frame crc f = encode_commit crc (cf_lsn f) (cf_txn_id f) (cf_base_generation f) (cf_ops f) (cf_blob f)"

lemma length_frame_body: "frame_shape f \<Longrightarrow> HEADER_LEN + length (frame_body f) = frame_len f"
  unfolding frame_body_def frame_len_def frame_shape_def
  using length_concat_map_const [of "cf_ops f" op_as_bytes OP_LEN] by simp

lemma length_frame_bytes: "frame_shape f \<Longrightarrow> length (frame_bytes crc f) = frame_len f"
  using length_frame_body by (simp add: frame_bytes_def)

lemma take_log_header_crc:
  "take HEADER_CRC_OFFSET (log_header_as_bytes (h\<lparr>lrh_crc32c := v\<rparr>)) = take HEADER_CRC_OFFSET (log_header_as_bytes h)"
  by (simp add: log_header_as_bytes_def wal_sizes)

lemma overwrite_log_header_crc:
  "overwrite (log_header_as_bytes h @ body) HEADER_CRC_OFFSET (to_le_word v) =
     log_header_as_bytes (h\<lparr>lrh_crc32c := v\<rparr>) @ body"
  by (simp add: log_header_as_bytes_def overwrite_def wal_sizes)

lemma record_crc_header:
  "record_crc crc (log_header_as_bytes h @ body) =
     Some (crc (crc 0 (take HEADER_CRC_OFFSET (log_header_as_bytes h))) body)"
proof -
  have "HEADER_CRC_OFFSET \<le> HEADER_LEN" "HEADER_CRC_OFFSET + 4 = HEADER_LEN" by (simp_all add: wal_sizes)
  then show ?thesis by (simp add: record_crc_def)
qed

lemma encode_commit_frame:
  assumes "frame_shape f" and "frame_len f < 2 ^ 32"
  shows "encode_frame crc f = Some (Ok (frame_bytes crc f))"
proof -
  have small: "length (cf_ops f) < 2 ^ 32" using assms(2) by (simp add: frame_len_def OP_LEN_def)
  have len: "Option.bind (checked_mul (length (cf_ops f)) OP_LEN) (\<lambda>ops_bytes.
       Option.bind (checked_add HEADER_LEN ops_bytes) (\<lambda>n. checked_add n (length (cf_blob f)))) = Some (frame_len f)"
    using assms(2) by (simp add: checked_mul_def checked_add_def frame_len_def usize_max_def)
  have words: "from_usize (frame_len f) = Some (word_of_nat (frame_len f) :: u32)"
    "from_usize (length (cf_ops f)) = Some (word_of_nat (length (cf_ops f)) :: u32)"
    using assms(2) small by (simp_all add: from_usize_def)
  have header: "\<lparr>lrh_base_generation = cf_base_generation f, lrh_lsn = cf_lsn f, lrh_txn_id = cf_txn_id f, lrh_magic = OXGLOGR,
      lrh_len = word_of_nat (frame_len f), lrh_op_count = word_of_nat (length (cf_ops f)), lrh_crc32c = 0\<rparr> = frame_header f 0"
    by (simp add: frame_header_def)
  have room: "HEADER_CRC_OFFSET + length (to_le_word (v :: u32)) \<le> length (log_header_as_bytes h @ body)" for v h body
    by (simp add: wal_sizes)
  show ?thesis
    unfolding encode_frame_def encode_commit_def len reading_simps run_then.simps words ok_or.simps Let_def header
      frame_body_def [symmetric] record_crc_header copy_or_panic_Some [OF room] overwrite_log_header_crc
    by (simp add: frame_bytes_def frame_crc_def) (simp add: frame_header_def)
qed


lemma encode_frame_large:
  assumes "2 ^ 32 \<le> frame_len f" and "frame_len f \<le> usize_max"
  shows "encode_frame crc f = Some (Err (InvalidStore ''delta-log record too large''))"
proof -
  have len: "Option.bind (checked_mul (length (cf_ops f)) OP_LEN) (\<lambda>ops_bytes.
       Option.bind (checked_add HEADER_LEN ops_bytes) (\<lambda>n. checked_add n (length (cf_blob f)))) = Some (frame_len f)"
    using assms(2) by (simp add: checked_mul_def checked_add_def frame_len_def)
  have "from_usize (frame_len f) = (None :: u32 option)" using assms(1) by (simp add: from_usize_def)
  then show ?thesis unfolding encode_frame_def encode_commit_def len by simp
qed

section \<open>Parsing one record\<close>

text \<open>What the parser reads off the head of a buffer that holds a whole header.\<close>

definition framed :: "log_record_header \<Rightarrow> nat \<Rightarrow> bool" where
  "framed h n \<longleftrightarrow> HEADER_LEN + unat (lrh_op_count h) * OP_LEN \<le> unat (lrh_len h) \<and> unat (lrh_len h) \<le> n"

lemma op_count_fits: "Option.bind (checked_mul (unat (w :: u32)) OP_LEN) (\<lambda>ops_bytes. checked_add ops_bytes HEADER_LEN) =
    Some (HEADER_LEN + unat w * OP_LEN)"
proof -
  have "unat w < 2 ^ 32" using unat_bound [of w] by simp
  then show ?thesis by (simp add: checked_mul_def checked_add_def wal_sizes usize_max_def)
qed

lemma parse_header:
  "parse_one_record crc generation (log_header_as_bytes h @ rest) cursor =
     (let record = take (unat (lrh_len h)) (log_header_as_bytes h @ rest);
          is_last = (\<not> framed h (HEADER_LEN + length rest) \<or> HEADER_LEN + length rest \<le> unat (lrh_len h)) in
      if lrh_magic h \<noteq> OXGLOGR then
        Some (tail_or_loud is_last (LogCorrupt (lrh_lsn h) ''delta-log record magic mismatch''))
      else if lrh_base_generation h \<noteq> generation then
        Some (tail_or_loud is_last (BaseGenerationMismatch generation (lrh_base_generation h)))
      else if \<not> framed h (HEADER_LEN + length rest) then Some Stop
      else
        Option.bind (record_crc crc record) (\<lambda>value.
          if value \<noteq> lrh_crc32c h then
            Some (tail_or_loud is_last (LogCorrupt (lrh_lsn h) ''delta-log record checksum mismatch''))
          else if lc_seen cursor \<and> lrh_lsn h \<le> lc_last_lsn cursor then
            Some (Loud (LogCorrupt (lrh_lsn h) ''delta-log record LSN not strictly ascending''))
          else
            Option.bind (decode_ops record (HEADER_LEN + unat (lrh_op_count h) * OP_LEN)) (\<lambda>(ops, blob).
              Some (Frame \<lparr>cf_lsn = lrh_lsn h, cf_txn_id = lrh_txn_id h,
                cf_base_generation = lrh_base_generation h, cf_ops = ops, cf_blob = blob\<rparr> (unat (lrh_len h))))))"
proof -
  have head: "\<not> length (log_header_as_bytes h @ rest) < HEADER_LEN" "slice_or_panic (log_header_as_bytes h @ rest) 0 HEADER_LEN = Some (log_header_as_bytes h)"
    by simp_all
  have min: "HEADER_LEN \<le> HEADER_LEN + unat (lrh_op_count h) * OP_LEN" by simp
  show ?thesis
  proof (cases "framed h (HEADER_LEN + length rest)")
    case True
    then have "HEADER_LEN + unat (lrh_op_count h) * OP_LEN \<le> unat (lrh_len h)" "unat (lrh_len h) \<le> HEADER_LEN + length rest"
      "HEADER_LEN \<le> unat (lrh_len h)" by (simp_all add: framed_def)
    then show ?thesis
      unfolding parse_one_record_def Let_def op_count_fits head if_False
      by (simp add: True tail_or_loud_def record_crc_header not_less [THEN iffD2])
  next
    case False
    then consider (short) "unat (lrh_len h) < HEADER_LEN + unat (lrh_op_count h) * OP_LEN"
      | (long) "\<not> unat (lrh_len h) < HEADER_LEN + unat (lrh_op_count h) * OP_LEN" "\<not> unat (lrh_len h) < HEADER_LEN"
          "HEADER_LEN + length rest < unat (lrh_len h)"
      using min by (fastforce simp: framed_def)
    then show ?thesis
      unfolding parse_one_record_def Let_def op_count_fits head if_False
      by cases (simp_all add: False tail_or_loud_def)
  qed
qed

text \<open>The record of a frame parses back to it whatever follows.\<close>

lemma frame_header_words:
  assumes "frame_shape f" and "frame_len f < 2 ^ 32"
  shows "unat (lrh_len (frame_header f v)) = frame_len f" and "unat (lrh_op_count (frame_header f v)) = length (cf_ops f)"
proof -
  have "length (cf_ops f) < 2 ^ 32" using assms(2) by (simp add: frame_len_def OP_LEN_def)
  then show "unat (lrh_len (frame_header f v)) = frame_len f" and "unat (lrh_op_count (frame_header f v)) = length (cf_ops f)"
    using assms(2) unat_word_of_nat [where 'i = 32, of "frame_len f"] unat_word_of_nat [where 'i = 32, of "length (cf_ops f)"]
    by (simp_all add: frame_header_def)
qed

lemma frame_header_simps [simp]:
  "lrh_base_generation (frame_header f v) = cf_base_generation f" "lrh_lsn (frame_header f v) = cf_lsn f"
  "lrh_txn_id (frame_header f v) = cf_txn_id f" "lrh_magic (frame_header f v) = OXGLOGR" "lrh_crc32c (frame_header f v) = v"
  "(frame_header f 0)\<lparr>lrh_crc32c := v\<rparr> = frame_header f v"
  by (simp_all add: frame_header_def)

lemma record_crc_frame: "record_crc crc (log_header_as_bytes (frame_header f v) @ frame_body f) = Some (frame_crc crc f)"
  unfolding record_crc_header frame_crc_def using take_log_header_crc [where h = "frame_header f 0" and v = v] by simp

lemma decode_ops_frame:
  assumes "frame_shape f"
  shows "decode_ops (log_header_as_bytes h @ frame_body f) (HEADER_LEN + length (cf_ops f) * OP_LEN) = Some (cf_ops f, cf_blob f)"
proof -
  have "length (concat (map op_as_bytes (cf_ops f))) = length (cf_ops f) * OP_LEN"
    using assms by (intro length_concat_map_const) (simp add: frame_shape_def)
  then show ?thesis
    using assms decode_chunks_as_bytes [of "cf_ops f"]
    by (simp add: decode_ops_def frame_body_def frame_shape_def)
qed

lemma parse_frame:
  assumes "frame_shape f" and "frame_len f < 2 ^ 32"
  shows "parse_one_record crc (cf_base_generation f) (frame_bytes crc f @ rest) cursor =
    Some (if lc_seen cursor \<and> cf_lsn f \<le> lc_last_lsn cursor
          then Loud (LogCorrupt (cf_lsn f) ''delta-log record LSN not strictly ascending'')
          else Frame f (frame_len f))"
proof -
  let ?h = "frame_header f (frame_crc crc f)"
  note words = frame_header_words [OF assms]
  have len: "HEADER_LEN + length (frame_body f) = frame_len f" by (rule length_frame_body [OF assms(1)])
  have "take (frame_len f) (log_header_as_bytes ?h @ frame_body f @ rest) = log_header_as_bytes ?h @ frame_body f"
    by (simp add: len [symmetric])
  moreover have "framed ?h (HEADER_LEN + length (frame_body f @ rest))"
    using len by (simp add: framed_def words) (simp add: frame_len_def)
  ultimately show ?thesis
    unfolding frame_bytes_def append_assoc parse_header Let_def words
    by (simp add: record_crc_frame decode_ops_frame [OF assms(1)])
qed


text \<open>Conversely a well-framed header with its magic stands at the head of the record of some frame, but for the checksum.\<close>

lemma framed_is_frame:
  assumes "framed h (HEADER_LEN + length rest)" and "lrh_magic h = OXGLOGR"
  obtains f where "frame_shape f" and "frame_len f < 2 ^ 32" and "h = frame_header f (lrh_crc32c h)"
    and "take (unat (lrh_len h)) (log_header_as_bytes h @ rest) = log_header_as_bytes h @ frame_body f"
    and "unat (lrh_len h) = frame_len f"
proof -
  let ?n = "unat (lrh_op_count h)" and ?body = "take (unat (lrh_len h) - HEADER_LEN) rest"
  from assms(1) have fits: "HEADER_LEN + ?n * OP_LEN \<le> unat (lrh_len h)" "unat (lrh_len h) \<le> HEADER_LEN + length rest"
    by (simp_all add: framed_def)
  have "length (take (?n * OP_LEN) ?body) = ?n * OP_LEN" using fits by simp
  then obtain ops where ops: "length ops = ?n" "\<forall>p \<in> set ops. op_shape p"
      "concat (map op_as_bytes ops) = take (?n * OP_LEN) ?body" by (metis decode_chunks_whole)
  let ?f = "\<lparr>cf_lsn = lrh_lsn h, cf_txn_id = lrh_txn_id h, cf_base_generation = lrh_base_generation h,
      cf_ops = ops, cf_blob = drop (?n * OP_LEN) ?body\<rparr>"
  have shape: "frame_shape ?f" using ops(2) by (simp add: frame_shape_def)
  have body: "frame_body ?f = ?body" by (simp only: frame_body_def commit_frame.simps ops(3) append_take_drop_id)
  have len: "frame_len ?f = unat (lrh_len h)"
    using length_frame_body [OF shape] body fits by simp
  moreover have "unat (lrh_len h) < 2 ^ 32" using unat_bound [of "lrh_len h"] by simp
  moreover have "h = frame_header ?f (lrh_crc32c h)"
    by (rule log_record_header.equality) (simp_all add: frame_header_def len ops(1) assms(2))
  moreover have "take (unat (lrh_len h)) (log_header_as_bytes h @ rest) = log_header_as_bytes h @ frame_body ?f"
    using fits by (simp add: body)
  ultimately show ?thesis using that [OF shape] by simp
qed

lemma header_split:
  assumes "HEADER_LEN \<le> length remaining"
  obtains h rest where "remaining = log_header_as_bytes h @ rest"
proof -
  have "length (take HEADER_LEN remaining) = HEADER_LEN" using assms by simp
  then obtain h where "log_header_read_from_bytes (take HEADER_LEN remaining) = Some h"
    by (simp add: log_header_read_from_bytes_def)
  then have "take HEADER_LEN remaining = log_header_as_bytes h" by (simp add: log_header_read_Some_iff)
  then show ?thesis using that [of h "drop HEADER_LEN remaining"] by (metis append_take_drop_id)
qed

lemma parse_short: "length remaining < HEADER_LEN \<Longrightarrow> parse_one_record crc generation remaining cursor = Some Stop"
  by (simp add: parse_one_record_def)

text \<open>Parsing never panics, and a frame it returns is exactly the bytes it stands for.\<close>

lemma parse_cases:
  obtains (stop) "parse_one_record crc generation remaining cursor = Some Stop"
  | (loud) err where "parse_one_record crc generation remaining cursor = Some (Loud err)"
  | (frame) f rest where "parse_one_record crc generation remaining cursor = Some (Frame f (frame_len f))"
      and "frame_shape f" and "frame_len f < 2 ^ 32" and "cf_base_generation f = generation"
      and "remaining = frame_bytes crc f @ rest" and "lc_seen cursor \<longrightarrow> lc_last_lsn cursor < cf_lsn f"
proof (cases "length remaining < HEADER_LEN")
  case True
  then show ?thesis using stop parse_short by blast
next
  case False
  then obtain h rest where split: "remaining = log_header_as_bytes h @ rest" using header_split by (metis not_less)
  let ?is_last = "\<not> framed h (HEADER_LEN + length rest) \<or> HEADER_LEN + length rest \<le> unat (lrh_len h)"
  have tail: "tail_or_loud b err = Stop \<or> tail_or_loud b err = Loud err" for b err by (simp add: tail_or_loud_def)
  show ?thesis
  proof (cases "lrh_magic h = OXGLOGR \<and> lrh_base_generation h = generation \<and> framed h (HEADER_LEN + length rest)")
    case False
    then have "\<exists>b err. parse_one_record crc generation remaining cursor = Some (tail_or_loud b err)"
      unfolding split parse_header Let_def tail_or_loud_def by auto
    then show ?thesis using tail stop loud by metis
  next
    case True
    then obtain f where f: "frame_shape f" "frame_len f < 2 ^ 32" "h = frame_header f (lrh_crc32c h)"
        "take (unat (lrh_len h)) (log_header_as_bytes h @ rest) = log_header_as_bytes h @ frame_body f"
        "unat (lrh_len h) = frame_len f"
      by (metis framed_is_frame)
    have gen: "cf_base_generation f = generation" using True f(3) by (metis frame_header_simps(1))
    show ?thesis
    proof (cases "lrh_crc32c h = frame_crc crc f")
      case crc: True
      have "log_header_as_bytes h @ frame_body f = frame_bytes crc f"
        unfolding frame_bytes_def using f(3) crc by simp
      then have rem: "remaining = frame_bytes crc f @ drop (unat (lrh_len h)) remaining"
        using f(4) unfolding split by (metis append_take_drop_id)
      from parse_frame [OF f(1,2), of crc "drop (unat (lrh_len h)) remaining" cursor]
      have parsed: "parse_one_record crc generation remaining cursor =
          Some (if lc_seen cursor \<and> cf_lsn f \<le> lc_last_lsn cursor
            then Loud (LogCorrupt (cf_lsn f) ''delta-log record LSN not strictly ascending'') else Frame f (frame_len f))"
        using rem gen by metis
      show ?thesis
      proof (cases "lc_seen cursor \<and> cf_lsn f \<le> lc_last_lsn cursor")
        case True
        with parsed loud show ?thesis by simp
      next
        case False
        with parsed show ?thesis using frame [OF _ f(1,2) gen rem] by (simp add: not_le)
      qed
    next
      case crc: False
      have "record_crc crc (log_header_as_bytes h @ frame_body f) = Some (frame_crc crc f)"
        using record_crc_frame [of crc f "lrh_crc32c h"] f(3) by simp
      then have "\<exists>b err. parse_one_record crc generation remaining cursor = Some (tail_or_loud b err)"
        unfolding split parse_header Let_def f(4) using True crc by auto
      then show ?thesis using tail stop loud by metis
    qed
  qed
qed

text \<open>A strict prefix of a record is a torn tail.\<close>

lemma parse_torn:
  assumes "frame_shape f" and "frame_len f < 2 ^ 32" and "torn @ missing = frame_bytes crc f" and "missing \<noteq> []"
  shows "parse_one_record crc (cf_base_generation f) torn cursor = Some Stop"
proof (cases "length torn < HEADER_LEN")
  case True
  then show ?thesis by (rule parse_short)
next
  case False
  let ?h = "frame_header f (frame_crc crc f)"
  from False have "torn = take (length torn) (frame_bytes crc f)" using assms(3) by (metis append_eq_conv_conj)
  with False have torn: "torn = log_header_as_bytes ?h @ take (length torn - HEADER_LEN) (frame_body f)"
    by (simp add: frame_bytes_def)
  let ?rest = "take (length torn - HEADER_LEN) (frame_body f)"
  have "length torn < frame_len f"
    using arg_cong [OF assms(3), of length] assms(4) length_frame_bytes [OF assms(1)] by (cases missing) simp_all
  moreover have "HEADER_LEN + length ?rest = length torn" using torn by (metis length_append length_log_header_as_bytes)
  ultimately have "\<not> framed ?h (HEADER_LEN + length ?rest)"
    by (simp add: framed_def frame_header_words [OF assms(1,2)])
  then have "parse_one_record crc (cf_base_generation f) (log_header_as_bytes ?h @ ?rest) cursor = Some Stop"
    unfolding parse_header Let_def by simp
  then show ?thesis using torn by simp
qed


section \<open>The walk over a log\<close>

lemma encode_frame_Ok_iff:
  assumes "frame_shape f"
  shows "encode_frame crc f = Some (Ok r) \<longleftrightarrow> frame_len f < 2 ^ 32 \<and> r = frame_bytes crc f"
proof -
  consider (small) "frame_len f < 2 ^ 32" | (large) "2 ^ 32 \<le> frame_len f" "frame_len f \<le> usize_max" | (huge) "usize_max < frame_len f"
    by linarith
  then show ?thesis
  proof cases
    case small
    then show ?thesis using encode_commit_frame [OF assms] by auto
  next
    case large
    then show ?thesis using encode_frame_large [OF large] by auto
  next
    case huge
    then have "Option.bind (checked_mul (length (cf_ops f)) OP_LEN) (\<lambda>ops_bytes.
        Option.bind (checked_add HEADER_LEN ops_bytes) (\<lambda>n. checked_add n (length (cf_blob f)))) = None"
      by (simp add: checked_mul_def checked_add_def frame_len_def)
    then have "encode_frame crc f = None" unfolding encode_frame_def encode_commit_def by simp
    moreover have "\<not> frame_len f < 2 ^ 32" using huge by (simp add: usize_max_def)
    ultimately show ?thesis by simp
  qed
qed

text \<open>The commits of one generation, in the order of their sequence numbers, and what replaying them gives.\<close>

definition commits_ok :: "u64 \<Rightarrow> commit_frame list \<Rightarrow> bool" where
  "commits_ok generation fs \<longleftrightarrow> (\<forall>f \<in> set fs. frame_shape f \<and> cf_base_generation f = generation) \<and>
     sorted_wrt (<) (map cf_lsn fs)"

definition replayed :: "commit_frame list \<Rightarrow> byte list list \<Rightarrow> replay_outcome" where
  "replayed fs records =
     \<lparr>ro_frames = fs, ro_valid_len = length (concat records), ro_last_lsn = (if fs = [] then 0 else cf_lsn (last fs)),
       ro_last_txn = (if fs = [] then 0 else cf_txn_id (last fs))\<rparr>"

definition encodes :: "(u32 \<Rightarrow> byte list \<Rightarrow> u32) \<Rightarrow> commit_frame list \<Rightarrow> byte list list \<Rightarrow> bool" where
  "encodes crc fs records \<longleftrightarrow> map (encode_frame crc) fs = map (\<lambda>r. Some (Ok r)) records"

abbreviation cursor_after :: "commit_frame list \<Rightarrow> lsn_cursor" where
  "cursor_after fs \<equiv> \<lparr>lc_last_lsn = (if fs = [] then 0 else cf_lsn (last fs)), lc_seen = (fs \<noteq> [])\<rparr>"

lemma encodes_Nil [simp]: "encodes crc [] records \<longleftrightarrow> records = []"
  by (simp add: encodes_def)

lemma encodes_snoc [simp]:
  "encodes crc (fs @ [f]) (records @ [r]) \<longleftrightarrow> encodes crc fs records \<and> encode_frame crc f = Some (Ok r)"
  by (auto simp: encodes_def)

lemma commits_ok_snoc:
  "commits_ok generation (fs @ [f]) \<longleftrightarrow> commits_ok generation fs \<and> frame_shape f \<and> cf_base_generation f = generation \<and>
     (fs \<noteq> [] \<longrightarrow> cf_lsn (last fs) < cf_lsn f)"
proof -
  have "(\<forall>x \<in> set fs. cf_lsn x < cf_lsn f) \<longleftrightarrow> (fs \<noteq> [] \<longrightarrow> cf_lsn (last fs) < cf_lsn f)"
    if "sorted_wrt (<) (map cf_lsn fs)"
    using that by (cases fs rule: rev_cases) (auto simp: sorted_wrt_append)
  then show ?thesis unfolding commits_ok_def by (auto simp: sorted_wrt_append)
qed

lemma replay_loop_step:
  "replay_loop crc generation (concat records @ tail) (length (concat records)) (replayed fs records) (fs \<noteq> []) =
     (if tail = [] then Some (Ok (replayed fs records))
      else Option.bind (parse_one_record crc generation tail (cursor_after fs)) (\<lambda>parsed.
        case parsed of
          Stop \<Rightarrow> Some (Ok (replayed fs records))
        | Loud err \<Rightarrow> Some (Err err)
        | Frame frame len \<Rightarrow>
            replay_loop crc generation (concat records @ tail) (length (concat records) + len)
              \<lparr>ro_frames = fs @ [frame], ro_valid_len = length (concat records) + len, ro_last_lsn = cf_lsn frame,
                ro_last_txn = cf_txn_id frame\<rparr> True))"
  by (subst replay_loop.simps) (simp add: replayed_def)

lemma replay_loop_frame:
  assumes "encode_frame crc f = Some (Ok r)" and "frame_shape f" and "cf_base_generation f = generation"
    and "fs \<noteq> [] \<longrightarrow> cf_lsn (last fs) < cf_lsn f"
  shows "replay_loop crc generation (concat records @ r @ rest) (length (concat records)) (replayed fs records) (fs \<noteq> []) =
    replay_loop crc generation (concat (records @ [r]) @ rest) (length (concat (records @ [r]))) (replayed (fs @ [f]) (records @ [r]))
      (fs @ [f] \<noteq> [])"
proof -
  from assms(1,2) have small: "frame_len f < 2 ^ 32" and r: "r = frame_bytes crc f" by (simp_all add: encode_frame_Ok_iff)
  have len: "length r = frame_len f" unfolding r by (rule length_frame_bytes [OF assms(2)])
  have nonempty: "r \<noteq> []" using len by (auto simp: frame_len_def HEADER_LEN_def)
  have parsed: "parse_one_record crc generation (r @ rest) (cursor_after fs) = Some (Frame f (frame_len f))"
    using parse_frame [OF assms(2) small, of crc rest "cursor_after fs"] assms(3,4) by (auto simp: r)
  show ?thesis
    unfolding replay_loop_step [of crc generation records "r @ rest"] parsed
    using nonempty len by (simp add: replayed_def)
qed

text \<open>Walking a log of encoded commits comes to what follows them.\<close>

lemma replay_walk:
  assumes "commits_ok generation fs" and "encodes crc fs records"
  shows "replay crc generation (concat records @ tail) =
    replay_loop crc generation (concat records @ tail) (length (concat records)) (replayed fs records) (fs \<noteq> [])"
  using assms
proof (induction fs arbitrary: records tail rule: rev_induct)
  case Nil
  then show ?case by (simp add: replay_def replayed_def)
next
  case (snoc f fs)
  have "length records = length (fs @ [f])" using snoc.prems(2) by (metis encodes_def length_map)
  then obtain rs r where records: "records = rs @ [r]" by (cases records rule: rev_cases) auto
  with snoc.prems have f: "commits_ok generation fs" "encodes crc fs rs" "encode_frame crc f = Some (Ok r)"
    "frame_shape f" "cf_base_generation f = generation" "fs \<noteq> [] \<longrightarrow> cf_lsn (last fs) < cf_lsn f"
    by (auto simp: commits_ok_snoc)
  from snoc.IH [OF f(1,2), of "r @ tail"] replay_loop_frame [OF f(3-6), of rs tail]
  show ?case by (simp add: records)
qed

lemma replay_stops:
  assumes "commits_ok generation fs" and "encodes crc fs records"
    and "tail = [] \<or> parse_one_record crc generation tail (cursor_after fs) = Some Stop"
  shows "replay crc generation (concat records @ tail) = Some (Ok (replayed fs records))"
  unfolding replay_walk [OF assms(1,2)] replay_loop_step using assms(3) by auto

lemma replay_loud:
  assumes "commits_ok generation fs" and "encodes crc fs records" and "tail \<noteq> []"
    and "parse_one_record crc generation tail (cursor_after fs) = Some (Loud err)"
  shows "replay crc generation (concat records @ tail) = Some (Err err)"
  unfolding replay_walk [OF assms(1,2)] replay_loop_step using assms(3,4) by auto

text \<open>Every log is such commits followed by bytes that are no record of the generation.\<close>

lemma log_split:
  assumes "commits_ok generation fs" and "encodes crc fs records" and "log = concat records @ tail"
  shows "\<exists>fs records tail. commits_ok generation fs \<and> encodes crc fs records \<and> log = concat records @ tail \<and>
    (tail = [] \<or> (\<exists>p. parse_one_record crc generation tail (cursor_after fs) = Some p \<and> (\<forall>f n. p \<noteq> Frame f n)))"
  using assms
proof (induction "length tail" arbitrary: fs records tail rule: less_induct)
  case less
  show ?case
  proof (cases rule: parse_cases [of crc generation tail "cursor_after fs"])
    case stop
    with less.prems show ?thesis by (metis record_parse.distinct(3))
  next
    case (loud err)
    with less.prems show ?thesis by (metis record_parse.distinct(5))
  next
    case (frame f rest)
    then have r: "encode_frame crc f = Some (Ok (frame_bytes crc f))" by (simp add: encode_frame_Ok_iff)
    have ok: "commits_ok generation (fs @ [f])" using less.prems(1) frame by (auto simp: commits_ok_snoc)
    have enc: "encodes crc (fs @ [f]) (records @ [frame_bytes crc f])" using less.prems(2) r by simp
    have "length rest < length tail"
      using frame(5) length_frame_bytes [OF frame(2), of crc] by (simp add: frame_len_def HEADER_LEN_def)
    from less.hyps [OF this ok enc] less.prems(3) frame(5) show ?thesis by simp
  qed
qed

section \<open>Recovery\<close>

text \<open>
  C13: replaying a log of encoded commits of one generation with ascending sequence numbers, cut off anywhere
  inside the record of a further commit, gives back exactly the commits, the byte length they
  occupy, and the last sequence and transaction numbers.
\<close>

theorem replay_recovers_commits:
  assumes "commits_ok generation fs" and "encodes crc fs records"
    and "frame_shape f" and "cf_base_generation f = generation" and "encode_frame crc f = Some (Ok (torn @ missing))"
    and "missing \<noteq> []"
  shows "replay crc generation (concat records @ torn) = Some (Ok (replayed fs records))"
proof (rule replay_stops [OF assms(1,2)])
  from assms(3,5) have "frame_len f < 2 ^ 32" "torn @ missing = frame_bytes crc f" by (simp_all add: encode_frame_Ok_iff)
  from parse_torn [OF assms(3) this assms(6)] assms(4)
  show "torn = [] \<or> parse_one_record crc generation torn (cursor_after fs) = Some Stop" by simp
qed




text \<open>One commit that creates element 7, in generation 9.\<close>

definition example_frame :: commit_frame where
  "example_frame = \<lparr>cf_lsn = 3, cf_txn_id = 5, cf_base_generation = 9,
     cf_ops = [\<lparr>op_kind = 1, op_flags = 0, op_payload = [7, 0, 0, 0, 0, 0, 0, 0, 0]\<rparr>], cf_blob = [104, 105]\<rparr>"

definition example_next :: commit_frame where
  "example_next = example_frame\<lparr>cf_lsn := 4\<rparr>"

lemma example_frame_shape: "frame_shape example_frame" "frame_shape example_next"
  by (simp_all add: example_next_def example_frame_def frame_shape_def op_shape_def wal_sizes)

lemma example_frame_encodes:
  "encode_frame crc example_frame = Some (Ok (frame_bytes crc example_frame))"
  "encode_frame crc example_next = Some (Ok (frame_bytes crc example_next))"
  by (simp_all add: encode_frame_Ok_iff example_frame_shape)
    (simp_all add: example_next_def example_frame_def frame_len_def wal_sizes)

lemma example_frame_commits: "commits_ok 9 [example_frame]" "commits_ok 9 [example_frame, example_next]"
  using example_frame_shape by (simp_all add: commits_ok_def example_next_def example_frame_def)

lemma example_frame_length: "length (frame_bytes crc example_frame) = 122" "length (frame_bytes crc example_next) = 122"
  by (simp_all add: length_frame_bytes example_frame_shape)
    (simp_all add: example_next_def example_frame_def frame_len_def wal_sizes)

theorem replay_recovers_commits_witness:
  "replay crc32c_append 9 (frame_bytes crc32c_append example_frame @ take 50 (frame_bytes crc32c_append example_next)) =
     Some (Ok (replayed [example_frame] [frame_bytes crc32c_append example_frame]))"
  using replay_recovers_commits [OF example_frame_commits(1), of crc32c_append "[frame_bytes crc32c_append example_frame]"
      example_next "take 50 (frame_bytes crc32c_append example_next)" "drop 50 (frame_bytes crc32c_append example_next)"]
  using example_frame_encodes example_frame_shape example_frame_length(2) [of crc32c_append]
  by (simp add: encodes_def example_next_def) (simp add: example_frame_def)

section \<open>Corruption\<close>

text \<open>The documented behaviour of the checksum crate: its fold is the CRC-32C of the bytes.\<close>

definition computes_crc32c :: "(u32 \<Rightarrow> byte list \<Rightarrow> u32) \<Rightarrow> bool" where
  "computes_crc32c crc \<longleftrightarrow> (\<forall>seed bytes. crc seed bytes = crc_bits seed bytes)"

lemma computes_crc32c_eq: "computes_crc32c crc \<Longrightarrow> crc = crc32c_append"
  by (rule ext)+ (simp add: computes_crc32c_def crc32c_append_eq_bits)

lemma crc32c_update:
  assumes "i < length xs" and "b \<noteq> xs ! i"
  shows "crc32c_append seed (xs[i := b]) \<noteq> crc32c_append seed xs"
  using crc32c_single_byte [OF assms(2), of seed "take i xs" "drop (Suc i) xs"]
  by (simp add: upd_conv_take_nth_drop assms(1) id_take_nth_drop [OF assms(1), symmetric])

lemma subrange_update: "i < s \<or> s + n \<le> i \<Longrightarrow> subrange (xs[i := b]) s n = subrange xs s n"
  by (auto simp: subrange_def drop_update_swap drop_update_cancel take_update_cancel)

lemma subrange_log_header:
  "subrange (log_header_as_bytes h @ rest) 28 4 = to_le_word (lrh_len h)"
  "subrange (log_header_as_bytes h @ rest) 32 4 = to_le_word (lrh_op_count h)"
  "subrange (log_header_as_bytes h @ rest) 36 4 = to_le_word (lrh_crc32c h)"
  by (simp_all add: log_header_as_bytes_def subrange_def)

lemma to_le_word_u32_inject: "to_le_word (x :: u32) = to_le_word y \<longleftrightarrow> x = y"
  by (metis u32_of_le)

text \<open>A record's checksum field holds the checksum of its other bytes.\<close>

lemma frame_bytes_crc:
  "subrange (frame_bytes crc32c_append f) 36 4 =
     to_le_word (crc32c_append 0 (take 36 (frame_bytes crc32c_append f) @ drop 40 (frame_bytes crc32c_append f)))"
proof -
  let ?h = "frame_header f (frame_crc crc32c_append f)"
  have "take 36 (log_header_as_bytes ?h) = take 36 (log_header_as_bytes (frame_header f 0))"
    using take_log_header_crc [where h = "frame_header f 0" and v = "frame_crc crc32c_append f"] by (simp add: wal_sizes)
  then have "crc32c_append 0 (take 36 (log_header_as_bytes ?h) @ frame_body f) = frame_crc crc32c_append f"
    by (simp add: frame_crc_def crc32c_append_continues wal_sizes)
  then show ?thesis unfolding frame_bytes_def subrange_log_header by (simp add: wal_sizes)
qed

lemma frame_bytes_isolated:
  assumes "frame_bytes crc32c_append f = (frame_bytes crc32c_append g)[i := b]" and "i < length (frame_bytes crc32c_append g)"
  shows "b = frame_bytes crc32c_append g ! i"
proof (rule ccontr)
  let ?r = "frame_bytes crc32c_append g"
  let ?covered = "\<lambda>x. take 36 x @ drop 40 x"
  assume b: "b \<noteq> ?r ! i"
  note crcs = frame_bytes_crc [of f, unfolded assms(1)] frame_bytes_crc [of g]
  have len: "40 \<le> length ?r" by (simp add: frame_bytes_def HEADER_LEN_def)
  consider (low) "i < 36" | (mid) "36 \<le> i" "i < 40" | (high) "40 \<le> i" by linarith
  then show False
  proof cases
    case low
    then have "?covered (?r[i := b]) = (?covered ?r)[i := b]"
      using len by (simp add: take_update_swap drop_update_cancel list_update_append1)
    moreover have "crc32c_append 0 ((?covered ?r)[i := b]) \<noteq> crc32c_append 0 (?covered ?r)"
      by (rule crc32c_update) (use low len b in \<open>simp_all add: nth_append\<close>)
    moreover have "subrange (?r[i := b]) 36 4 = subrange ?r 36 4" by (rule subrange_update) (use low in simp)
    ultimately show False using crcs by (simp add: to_le_word_u32_inject)
  next
    case mid
    then have "?covered (?r[i := b]) = ?covered ?r" by (simp add: take_update_cancel drop_update_cancel)
    with crcs have same: "subrange (?r[i := b]) 36 4 = subrange ?r 36 4" by simp
    have "subrange (?r[i := b]) 36 4 ! (i - 36) = b" "subrange ?r 36 4 ! (i - 36) = ?r ! i"
      using mid len by (simp_all add: nth_subrange)
    with same b show False by simp
  next
    case high
    then have skip: "\<not> i - 4 < 36" by simp
    then have "?covered (?r[i := b]) = (?covered ?r)[i - 4 := b]"
      using high len by (simp add: take_update_cancel drop_update_swap list_update_append)
    moreover have "crc32c_append 0 ((?covered ?r)[i - 4 := b]) \<noteq> crc32c_append 0 (?covered ?r)"
      by (rule crc32c_update) (use high skip len b assms(2) in \<open>simp_all add: nth_append\<close>)
    moreover have "subrange (?r[i := b]) 36 4 = subrange ?r 36 4" by (rule subrange_update) (use high in simp)
    ultimately show False using crcs by (simp add: to_le_word_u32_inject)
  qed
qed


lemma frame_bytes_len: "subrange (frame_bytes crc f @ rest) 28 4 = to_le_word (word_of_nat (frame_len f) :: u32)"
  unfolding frame_bytes_def append_assoc subrange_log_header by (simp add: frame_header_def)

lemma frame_bytes_op_count:
  "subrange (frame_bytes crc f @ rest) 32 4 = to_le_word (word_of_nat (length (cf_ops f)) :: u32)"
  unfolding frame_bytes_def append_assoc subrange_log_header by (simp add: frame_header_def)

lemma unat_word_of_nat_u32: "n < 2 ^ 32 \<Longrightarrow> unat (word_of_nat n :: u32) = n"
  by (rule unat_word_of_nat) simp

lemma frame_len_inject:
  "frame_len f < 2 ^ 32 \<Longrightarrow> frame_len g < 2 ^ 32 \<Longrightarrow> word_of_nat (frame_len f) = (word_of_nat (frame_len g) :: u32) \<Longrightarrow>
     frame_len f = frame_len g"
  by (metis unat_word_of_nat_u32)

text \<open>A byte changed outside the length field leaves nothing that parses as a frame.\<close>

lemma parse_corrupt:
  assumes "frame_shape f" and "frame_len f < 2 ^ 32" and "i < frame_len f" and "i < 28 \<or> 32 \<le> i"
    and "b \<noteq> frame_bytes crc32c_append f ! i"
  shows "parse_one_record crc32c_append generation ((frame_bytes crc32c_append f)[i := b] @ rest) cursor \<noteq> Some (Frame g n)"
proof
  let ?r = "frame_bytes crc32c_append f"
  assume "parse_one_record crc32c_append generation (?r[i := b] @ rest) cursor = Some (Frame g n)"
  then obtain rest' where g: "frame_shape g" "frame_len g < 2 ^ 32" "?r[i := b] @ rest = frame_bytes crc32c_append g @ rest'"
    by (cases rule: parse_cases [of crc32c_append generation "?r[i := b] @ rest" cursor]) auto
  have len: "length ?r = frame_len f" "length (frame_bytes crc32c_append g) = frame_len g"
    by (simp_all add: length_frame_bytes assms(1) g(1))
  have "40 \<le> frame_len f" by (simp add: frame_len_def HEADER_LEN_def)
  then have "subrange (?r[i := b] @ rest) 28 4 = subrange (?r @ rest) 28 4"
    using assms(4) len by (simp add: subrange_append_left subrange_update)
  then have "to_le_word (word_of_nat (frame_len g) :: u32) = to_le_word (word_of_nat (frame_len f) :: u32)"
    unfolding g(3) frame_bytes_len .
  then have "frame_len g = frame_len f" using frame_len_inject [OF g(2) assms(2)] by (simp only: to_le_word_u32_inject)
  then have "frame_bytes crc32c_append g = ?r[i := b]" using g(3) len by (metis append_eq_append_conv length_list_update)
  from frame_bytes_isolated [OF this] assms(3,5) len show False by simp
qed

text \<open>With bytes after the record and its framing intact it is reported.\<close>

lemma parse_corrupt_loud:
  assumes "frame_shape f" and "frame_len f < 2 ^ 32" and "i < frame_len f" and "i < 28 \<or> 36 \<le> i"
    and "rest \<noteq> []"
  shows "parse_one_record crc generation ((frame_bytes crc f)[i := b] @ rest) cursor \<noteq> Some Stop"
proof -
  let ?r = "frame_bytes crc f" and ?buffer = "(frame_bytes crc f)[i := b] @ rest"
  have len: "length ?r = frame_len f" by (rule length_frame_bytes [OF assms(1)])
  have min: "40 \<le> frame_len f" by (simp add: frame_len_def HEADER_LEN_def)
  then have "HEADER_LEN \<le> length ?buffer" by (simp add: len HEADER_LEN_def)
  then obtain h rest' where split: "?buffer = log_header_as_bytes h @ rest'" by (metis header_split)
  have "subrange ?buffer 28 4 = subrange (?r @ rest) 28 4" "subrange ?buffer 32 4 = subrange (?r @ rest) 32 4"
    using assms(4) len min subrange_update [of i 28 4 ?r b] subrange_update [of i 32 4 ?r b]
    by (auto simp: subrange_append_left)
  then have h: "lrh_len h = word_of_nat (frame_len f)" "lrh_op_count h = word_of_nat (length (cf_ops f))"
    unfolding split subrange_log_header frame_bytes_len frame_bytes_op_count by (simp_all only: to_le_word_u32_inject)
  have "length (cf_ops f) < 2 ^ 32" using assms(2) by (simp add: frame_len_def OP_LEN_def)
  then have words: "unat (lrh_len h) = frame_len f" "unat (lrh_op_count h) = length (cf_ops f)"
    unfolding h by (simp_all only: unat_word_of_nat_u32 assms(2))
  have "HEADER_LEN + length rest' = frame_len f + length rest"
    using arg_cong [OF split, of length] len by simp
  then have "framed h (HEADER_LEN + length rest')" "\<not> HEADER_LEN + length rest' \<le> unat (lrh_len h)"
    using assms(5) by (simp_all add: framed_def words) (simp add: frame_len_def)
  then show ?thesis
    unfolding split parse_header Let_def
    by (auto simp: tail_or_loud_def bind_eq_Some_conv split: if_splits)
qed

text \<open>
  C15: with the checksum the crate documents, a byte of one record of a log changed outside its length field never
  yields other commits: replay either fails or reports exactly the commits before that record. It
  fails when records follow and the byte lies outside the operation count as well.
\<close>

theorem replay_detects_byte_error:
  assumes "computes_crc32c crc" and "commits_ok generation (fs @ f # gs)"
    and "encodes crc fs records" and "encode_frame crc f = Some (Ok r)" and "encodes crc gs later"
    and "i < length r" and "b \<noteq> r ! i" and "i < 28 \<or> 32 \<le> i"
  shows "(replay crc generation (concat records @ r[i := b] @ concat later) = Some (Ok (replayed fs records)) \<or>
      (\<exists>err. replay crc generation (concat records @ r[i := b] @ concat later) = Some (Err err))) \<and>
    (gs \<noteq> [] \<and> (i < 28 \<or> 36 \<le> i) \<longrightarrow>
      (\<exists>err. replay crc generation (concat records @ r[i := b] @ concat later) = Some (Err err)))"
proof -
  let ?tail = "r[i := b] @ concat later"
  note crc = computes_crc32c_eq [OF assms(1)]
  from assms(2) have ok: "commits_ok generation fs" and f: "frame_shape f" and gs: "\<forall>g \<in> set gs. frame_shape g"
    by (auto simp: commits_ok_def sorted_wrt_append)
  from assms(4) f have small: "frame_len f < 2 ^ 32" and r: "r = frame_bytes crc32c_append f"
    by (simp_all add: encode_frame_Ok_iff crc)
  have i: "i < frame_len f" using assms(6) length_frame_bytes [OF f] by (simp add: r)
  have nonempty: "?tail \<noteq> []" using assms(6) by auto
  have no_frame: "parse_one_record crc generation ?tail (cursor_after fs) \<noteq> Some (Frame g n)" for g n
    unfolding crc r by (rule parse_corrupt [OF f small i assms(8)]) (use assms(7) in \<open>simp add: r\<close>)
  have no_stop: "parse_one_record crc generation ?tail (cursor_after fs) \<noteq> Some Stop"
    if "gs \<noteq> []" "i < 28 \<or> 36 \<le> i"
  proof -
    from that(1) obtain g gs' where g: "gs = g # gs'" by (cases gs) auto
    with assms(5) obtain r' later' where "later = r' # later'" "encode_frame crc g = Some (Ok r')"
      by (auto simp: encodes_def)
    then have "concat later \<noteq> []"
      using gs g length_frame_bytes [of g crc] by (auto simp: encode_frame_Ok_iff frame_len_def HEADER_LEN_def)
    from parse_corrupt_loud [OF f small i that(2) this] show ?thesis unfolding r crc .
  qed
  show ?thesis
  proof (cases rule: parse_cases [of crc generation ?tail "cursor_after fs"])
    case stop
    then show ?thesis using replay_stops [OF ok assms(3), of ?tail] no_stop by blast
  next
    case (loud err)
    then show ?thesis using replay_loud [OF ok assms(3) nonempty] by blast
  next
    case (frame g rest)
    with no_frame show ?thesis by blast
  qed
qed

lemma computes_crc32c_append: "computes_crc32c crc32c_append"
  by (simp add: computes_crc32c_def crc32c_append_eq_bits)

theorem replay_detects_byte_error_witness:
  "\<exists>err. replay crc32c_append 9 ((frame_bytes crc32c_append example_frame)
     [60 := frame_bytes crc32c_append example_frame ! 60 + 1] @ frame_bytes crc32c_append example_next) = Some (Err err)"
  using replay_detects_byte_error [OF computes_crc32c_append, of 9 "[]" example_frame "[example_next]" "[]"
      "frame_bytes crc32c_append example_frame" "[frame_bytes crc32c_append example_next]" 60
      "frame_bytes crc32c_append example_frame ! 60 + 1"]
    example_frame_commits example_frame_encodes example_frame_length
  by (simp add: encodes_def)

text \<open>
  The length field is the exception: a record whose declared length runs past the log counts as a torn
  tail, so the commits after it are dropped without an error.
\<close>

lemma replay_drops_commits_after_long_length:
  assumes "commits_ok generation fs" and "encodes crc fs records"
    and "lrh_magic h = OXGLOGR" and "lrh_base_generation h = generation"
    and "HEADER_LEN + length rest < unat (lrh_len h)"
  shows "replay crc generation (concat records @ log_header_as_bytes h @ rest) = Some (Ok (replayed fs records))"
proof (rule replay_stops [OF assms(1,2)])
  have "\<not> framed h (HEADER_LEN + length rest)" using assms(5) by (simp add: framed_def)
  then show "log_header_as_bytes h @ rest = [] \<or>
      parse_one_record crc generation (log_header_as_bytes h @ rest) (cursor_after fs) = Some Stop"
    unfolding parse_header Let_def using assms(3,4) by simp
qed

section \<open>Appending is atomic\<close>

text \<open>
  C16: however the calls on the log file turn out, and wherever after the old log a crash cuts the file, the log
  replays to the commits before the append or to those and the new one. A successful append has
  made the new commit visible; a failed one whose rollback succeeds leaves the file as it was.
\<close>

theorem append_commit_atomic:
  assumes "commits_ok generation (fs @ [f])" and "encodes crc fs records" and "encode_frame crc f = Some (Ok r)"
    and "append_commit io (concat records) r = (file, result)"
  shows "(\<forall>m \<ge> length (concat records).
      replay crc generation (take m file) \<in>
        {Some (Ok (replayed fs records)), Some (Ok (replayed (fs @ [f]) (records @ [r])))}) \<and>
    (result = Ok () \<longrightarrow> replay crc generation file = Some (Ok (replayed (fs @ [f]) (records @ [r])))) \<and>
    (result \<noteq> Ok () \<longrightarrow> io_truncate io \<longrightarrow> file = concat records)"
proof -
  from assms(1) have ok: "commits_ok generation fs" and f: "frame_shape f" "cf_base_generation f = generation"
    by (simp_all add: commits_ok_snoc)
  from assms(3) f(1) have small: "frame_len f < 2 ^ 32" and r: "r = frame_bytes crc f" by (simp_all add: encode_frame_Ok_iff)
  have all: "replay crc generation (concat records @ r) = Some (Ok (replayed (fs @ [f]) (records @ [r])))"
    using replay_stops [OF assms(1), of crc "records @ [r]" "[]"] assms(2,3) by simp
  have some: "replay crc generation (concat records @ take k r) \<in>
      {Some (Ok (replayed fs records)), Some (Ok (replayed (fs @ [f]) (records @ [r])))}" for k
  proof (cases "k < length r")
    case True
    then have "take k r @ drop k r = frame_bytes crc f" "drop k r \<noteq> []" by (simp_all add: r)
    from parse_torn [OF f(1) small this] f(2) replay_stops [OF ok assms(2), of "take k r"] show ?thesis by simp
  next
    case False
    then show ?thesis using all by simp
  qed
  have files: "file \<in> {concat records, concat records @ r} \<or> (\<exists>k. file = concat records @ take k r)"
    "result = Ok () \<Longrightarrow> file = concat records @ r" "result \<noteq> Ok () \<Longrightarrow> io_truncate io \<Longrightarrow> file = concat records"
    using assms(4) by (auto simp: append_commit_def rollback_to_def Let_def split: if_splits option.splits)
  from files(1) have "\<exists>k. file = concat records @ take k r"
    by (metis append.right_neutral insertE order_refl singletonD take_0 take_all)
  then obtain k where k: "file = concat records @ take k r" by blast
  have "replay crc generation (take m file) \<in>
      {Some (Ok (replayed fs records)), Some (Ok (replayed (fs @ [f]) (records @ [r])))}"
    if "length (concat records) \<le> m" for m
    using some [of "min k (m - length (concat records))"] that by (simp add: k min.commute)
  with all files(2,3) show ?thesis by blast
qed

theorem append_commit_atomic_witness:
  "replay crc32c_append 9 (fst (append_commit \<lparr>io_seek = True, io_write_fails = Some 70, io_sync = True, io_truncate = False\<rparr>
       (frame_bytes crc32c_append example_frame) (frame_bytes crc32c_append example_next))) \<in>
     {Some (Ok (replayed [example_frame] [frame_bytes crc32c_append example_frame])),
      Some (Ok (replayed [example_frame, example_next]
        [frame_bytes crc32c_append example_frame, frame_bytes crc32c_append example_next]))}"
proof -
  let ?io = "\<lparr>io_seek = True, io_write_fails = Some 70, io_sync = True, io_truncate = False\<rparr>"
  let ?run = "append_commit ?io (concat [frame_bytes crc32c_append example_frame]) (frame_bytes crc32c_append example_next)"
  have "commits_ok 9 ([example_frame] @ [example_next])" using example_frame_commits(2) by simp
  moreover have "encodes crc32c_append [example_frame] [frame_bytes crc32c_append example_frame]"
    using example_frame_encodes by (simp add: encodes_def)
  moreover have "?run = (fst ?run, snd ?run)" by simp
  ultimately have "\<forall>m \<ge> length (concat [frame_bytes crc32c_append example_frame]).
      replay crc32c_append 9 (take m (fst ?run)) \<in>
        {Some (Ok (replayed [example_frame] [frame_bytes crc32c_append example_frame])),
         Some (Ok (replayed ([example_frame] @ [example_next])
           ([frame_bytes crc32c_append example_frame] @ [frame_bytes crc32c_append example_next])))}"
    using append_commit_atomic [OF _ _ example_frame_encodes(2)] by blast
  from this [rule_format, of "length (concat [frame_bytes crc32c_append example_frame]) + length (fst ?run)"]
  show ?thesis by simp
qed

end
