(* ===== verification/Superblock.thy ===== *)
theory Superblock
  imports Wal
begin

text \<open>
  The superblock of the embedded database: the manifest record of \<open>crates/oxgraph-db/src/wire.rs\<close> and
  \<open>read_superblock\<close> and \<open>write_superblock\<close> of \<open>wal.rs\<close>.
\<close>

section \<open>The record\<close>

record superblock_record =
  sb_magic :: "byte list"
  sb_base_generation :: u64
  sb_checkpoint_lsn :: u64
  sb_log_byte_offset :: u64
  sb_commit_seq :: u64
  sb_transaction_id :: u64
  sb_format_version :: u32
  sb_flags :: u32
  sb_crc32c :: u32
  sb_pad :: u32

text \<open>\<open>b"OXGSUPER"\<close>.\<close>

definition SUPERBLOCK_MAGIC :: "byte list" where
  "SUPERBLOCK_MAGIC = [0x4F, 0x58, 0x47, 0x53, 0x55, 0x50, 0x45, 0x52]"

definition OXGDB_FORMAT_VERSION :: u32 where "OXGDB_FORMAT_VERSION = 1"

definition SUPERBLOCK_LEN :: nat where "SUPERBLOCK_LEN = 64"

definition SUPERBLOCK_CRC_PREFIX_LEN :: nat where "SUPERBLOCK_CRC_PREFIX_LEN = SUPERBLOCK_LEN - 4 - 4"

definition superblock_as_bytes :: "superblock_record \<Rightarrow> byte list" where
  "superblock_as_bytes sb =
     sb_magic sb @ to_le_word (sb_base_generation sb) @ to_le_word (sb_checkpoint_lsn sb) @
     to_le_word (sb_log_byte_offset sb) @ to_le_word (sb_commit_seq sb) @ to_le_word (sb_transaction_id sb) @
     to_le_word (sb_format_version sb) @ to_le_word (sb_flags sb) @ to_le_word (sb_crc32c sb) @ to_le_word (sb_pad sb)"

definition superblock_read_from_bytes :: "byte list \<Rightarrow> superblock_record option" where
  "superblock_read_from_bytes bs =
     (if length bs = SUPERBLOCK_LEN then
        Some \<lparr>sb_magic = subrange bs 0 8, sb_base_generation = from_le_word (subrange bs 8 8),
          sb_checkpoint_lsn = from_le_word (subrange bs 16 8), sb_log_byte_offset = from_le_word (subrange bs 24 8),
          sb_commit_seq = from_le_word (subrange bs 32 8), sb_transaction_id = from_le_word (subrange bs 40 8),
          sb_format_version = from_le_word (subrange bs 48 4), sb_flags = from_le_word (subrange bs 52 4),
          sb_crc32c = from_le_word (subrange bs 56 4), sb_pad = from_le_word (subrange bs 60 4)\<rparr>
      else None)"

section \<open>Reading\<close>

text \<open>What opening and reading \<open>super.oxgdb\<close> gives.\<close>

datatype superblock_file =
    SuperblockMissing
  | SuperblockOpenFails
  | SuperblockReadFails
  | SuperblockBytes "byte list"

definition check_superblock :: "(u32 \<Rightarrow> byte list \<Rightarrow> u32) \<Rightarrow> byte list \<Rightarrow> (storage_error, superblock_record) run" where
  "check_superblock crc bytes =
     (case superblock_read_from_bytes bytes of
        None \<Rightarrow> Some (Err (InvalidStore ''superblock size mismatch''))
      | Some record \<Rightarrow>
          if sb_magic record \<noteq> SUPERBLOCK_MAGIC then Some (Err (InvalidStore ''superblock magic mismatch''))
          else
            Option.bind (slice_or_panic bytes 0 SUPERBLOCK_CRC_PREFIX_LEN) (\<lambda>covered.
              if sb_crc32c record \<noteq> crc 0 covered then Some (Err (InvalidStore ''superblock checksum mismatch''))
              else if sb_format_version record \<noteq> OXGDB_FORMAT_VERSION then
                Some (Err (InvalidStore ''superblock format version unsupported''))
              else if sb_flags record \<noteq> 0 \<or> sb_pad record \<noteq> 0 then
                Some (Err (InvalidStore ''superblock reserved word not zero''))
              else Some (Ok record)))"

definition read_superblock :: "(u32 \<Rightarrow> byte list \<Rightarrow> u32) \<Rightarrow> superblock_file \<Rightarrow> (storage_error, superblock_record) run" where
  "read_superblock crc file =
     (case file of
        SuperblockMissing \<Rightarrow> Some (Err NotFound)
      | SuperblockOpenFails \<Rightarrow> Some (Err (Io ''open superblock''))
      | SuperblockReadFails \<Rightarrow> Some (Err (Io ''read superblock''))
      | SuperblockBytes bytes \<Rightarrow> check_superblock crc bytes)"

section \<open>Writing\<close>

text \<open>
  The directory: the published file and the temporary one. The calls of the publication in their
  order; \<open>WriteTemp k\<close> fails after \<open>k\<close> bytes.
\<close>

record database_root =
  root_super :: "byte list option"
  root_temp :: "byte list option"

datatype publish_call = CreateDir | CreateTemp | WriteTemp nat | FlushTemp | SyncTemp | RenameTemp | OpenRoot | SyncRoot

text \<open>The checksum is computed over the record with a zero in its place.\<close>

definition stamp_superblock :: "(u32 \<Rightarrow> byte list \<Rightarrow> u32) \<Rightarrow> superblock_record \<Rightarrow> superblock_record option" where
  "stamp_superblock crc sb =
     Option.bind (slice_or_panic (superblock_as_bytes (sb\<lparr>sb_crc32c := 0\<rparr>)) 0 SUPERBLOCK_CRC_PREFIX_LEN) (\<lambda>covered.
       Some (sb\<lparr>sb_crc32c := crc 0 covered\<rparr>))"

text \<open>The directory when the call \<open>failing\<close> fails, and the result. A crash before that call leaves the same directory.\<close>

definition publish :: "publish_call option \<Rightarrow> byte list \<Rightarrow> database_root \<Rightarrow> database_root \<times> (storage_error, unit) result" where
  "publish failing bytes root =
     (if failing = Some CreateDir then (root, Err (Io ''create database directory''))
      else if failing = Some CreateTemp then (root, Err (Io ''create superblock''))
      else
        let root = root\<lparr>root_temp := Some []\<rparr> in
        (case failing of
           Some (WriteTemp k) \<Rightarrow> (root\<lparr>root_temp := Some (take k bytes)\<rparr>, Err (Io ''write superblock''))
         | _ \<Rightarrow>
             let root = root\<lparr>root_temp := Some bytes\<rparr> in
             if failing = Some FlushTemp then (root, Err (Io ''flush superblock''))
             else if failing = Some SyncTemp then (root, Err (Io ''sync superblock''))
             else if failing = Some RenameTemp then (root, Err (Io ''publish superblock''))
             else
               let root = \<lparr>root_super = root_temp root, root_temp = None\<rparr> in
               if failing = Some OpenRoot then (root, Err (Io ''open database directory''))
               else if failing = Some SyncRoot then (root, Err (Io ''sync database directory''))
               else (root, Ok ())))"

definition write_superblock ::
    "(u32 \<Rightarrow> byte list \<Rightarrow> u32) \<Rightarrow> publish_call option \<Rightarrow> superblock_record \<Rightarrow> database_root \<Rightarrow>
       (database_root \<times> (storage_error, unit) result) option" where
  "write_superblock crc failing sb root =
     Option.bind (stamp_superblock crc sb) (\<lambda>record. Some (publish failing (superblock_as_bytes record) root))"

section \<open>Properties\<close>

definition superblock_valid :: "superblock_record \<Rightarrow> bool" where
  "superblock_valid sb \<longleftrightarrow> sb_magic sb = SUPERBLOCK_MAGIC \<and> sb_format_version sb = OXGDB_FORMAT_VERSION \<and>
     sb_flags sb = 0 \<and> sb_pad sb = 0"

lemmas superblock_sizes = SUPERBLOCK_LEN_def SUPERBLOCK_CRC_PREFIX_LEN_def

lemma superblock_valid_magic: "superblock_valid sb \<Longrightarrow> length (sb_magic sb) = 8"
  by (simp add: superblock_valid_def SUPERBLOCK_MAGIC_def)

lemma length_superblock_as_bytes: "length (sb_magic sb) = 8 \<Longrightarrow> length (superblock_as_bytes sb) = SUPERBLOCK_LEN"
  by (simp add: superblock_as_bytes_def superblock_sizes)

lemma superblock_read_as_bytes:
  assumes "length (sb_magic sb) = 8"
  shows "superblock_read_from_bytes (superblock_as_bytes sb) = Some sb"
  unfolding superblock_read_from_bytes_def
  using length_superblock_as_bytes [OF assms] assms by (simp add: superblock_as_bytes_def subrange_def)

lemma superblock_as_read_bytes:
  assumes "superblock_read_from_bytes bs = Some sb"
  shows "superblock_as_bytes sb = bs"
proof -
  from assms have len: "length bs = SUPERBLOCK_LEN" and sb: "sb = \<lparr>sb_magic = subrange bs 0 8,
      sb_base_generation = from_le_word (subrange bs 8 8),
      sb_checkpoint_lsn = from_le_word (subrange bs 16 8), sb_log_byte_offset = from_le_word (subrange bs 24 8),
      sb_commit_seq = from_le_word (subrange bs 32 8), sb_transaction_id = from_le_word (subrange bs 40 8),
      sb_format_version = from_le_word (subrange bs 48 4), sb_flags = from_le_word (subrange bs 52 4),
      sb_crc32c = from_le_word (subrange bs 56 4), sb_pad = from_le_word (subrange bs 60 4)\<rparr>"
    by (simp_all add: superblock_read_from_bytes_def split: if_splits)
  show ?thesis using len unfolding sb by (simp add: superblock_as_bytes_def superblock_sizes subrange_all)
qed

lemma superblock_covered:
  assumes "length (sb_magic sb) = 8"
  shows "take SUPERBLOCK_CRC_PREFIX_LEN (superblock_as_bytes (sb\<lparr>sb_crc32c := v\<rparr>)) =
    take SUPERBLOCK_CRC_PREFIX_LEN (superblock_as_bytes sb)"
  using assms by (simp add: superblock_as_bytes_def superblock_sizes)

text \<open>Exactly the records with the format's words and the right checksum are accepted.\<close>

lemma check_superblock_Ok_iff:
  "check_superblock crc bytes = Some (Ok sb) \<longleftrightarrow>
     superblock_valid sb \<and> bytes = superblock_as_bytes sb \<and>
     sb_crc32c sb = crc 0 (take SUPERBLOCK_CRC_PREFIX_LEN bytes)" (is "?lhs \<longleftrightarrow> ?rhs")
proof
  assume ?lhs
  then have read: "superblock_read_from_bytes bytes = Some sb" and "length bytes = SUPERBLOCK_LEN"
    by (auto simp: check_superblock_def superblock_read_from_bytes_def bind_eq_Some_conv split: option.splits if_splits)
  then have "slice_or_panic bytes 0 SUPERBLOCK_CRC_PREFIX_LEN = Some (take SUPERBLOCK_CRC_PREFIX_LEN bytes)"
    by (simp add: superblock_sizes)
  with \<open>?lhs\<close> read superblock_as_read_bytes [OF read] show ?rhs
    by (auto simp: check_superblock_def superblock_valid_def split: if_splits)
next
  assume rhs: ?rhs
  then have "superblock_read_from_bytes bytes = Some sb" "length bytes = SUPERBLOCK_LEN"
    using superblock_read_as_bytes length_superblock_as_bytes superblock_valid_magic by blast+
  with rhs show ?lhs by (simp add: check_superblock_def superblock_valid_def superblock_sizes)
qed

lemma check_superblock_returns: "check_superblock crc bytes \<noteq> None"
proof (cases "superblock_read_from_bytes bytes")
  case (Some sb)
  then have "length bytes = SUPERBLOCK_LEN" by (simp add: superblock_read_from_bytes_def split: if_splits)
  then show ?thesis using Some by (simp add: check_superblock_def superblock_sizes)
qed (simp add: check_superblock_def)

lemma stamp_superblock_Some:
  assumes "length (sb_magic sb) = 8"
  shows "stamp_superblock crc sb = Some (sb\<lparr>sb_crc32c := crc 0 (take SUPERBLOCK_CRC_PREFIX_LEN (superblock_as_bytes sb))\<rparr>)"
proof -
  have "length (superblock_as_bytes (sb\<lparr>sb_crc32c := 0\<rparr>)) = SUPERBLOCK_LEN"
    using assms by (intro length_superblock_as_bytes) simp
  then show ?thesis
    using superblock_covered [OF assms, of 0] by (simp add: stamp_superblock_def superblock_sizes)
qed

lemma check_superblock_Err: "check_superblock crc bytes = Some (Err err) \<Longrightarrow> \<exists>message. err = InvalidStore message"
  by (auto simp: check_superblock_def bind_eq_Some_conv split: option.splits if_splits)

lemma subrange_superblock:
  assumes "length (sb_magic sb) = 8"
  shows "subrange (superblock_as_bytes sb) 56 4 = to_le_word (sb_crc32c sb)"
    and "subrange (superblock_as_bytes sb) 60 4 = to_le_word (sb_pad sb)"
  using assms by (simp_all add: superblock_as_bytes_def subrange_def)

text \<open>The accepted superblocks are isolated: no two differ in a single byte.\<close>

lemma check_superblock_isolated:
  assumes "check_superblock crc32c_append bytes = Some (Ok sb)"
    and "check_superblock crc32c_append (bytes[i := b]) = Some (Ok sb')" and "i < length bytes"
  shows "b = bytes ! i"
proof (rule ccontr)
  assume b: "b \<noteq> bytes ! i"
  from assms(1) have sb: "superblock_valid sb" "bytes = superblock_as_bytes sb"
    "sb_crc32c sb = crc32c_append 0 (take 56 bytes)" by (simp_all add: check_superblock_Ok_iff superblock_sizes)
  from assms(2) have sb': "superblock_valid sb'" "bytes[i := b] = superblock_as_bytes sb'"
    "sb_crc32c sb' = crc32c_append 0 (take 56 (bytes[i := b]))" by (simp_all add: check_superblock_Ok_iff superblock_sizes)
  have len: "length bytes = 64"
    using length_superblock_as_bytes [OF superblock_valid_magic [OF sb(1)]] sb(2) by (simp add: superblock_sizes)
  note fields = subrange_superblock [OF superblock_valid_magic [OF sb(1)], folded sb(2)]
    subrange_superblock [OF superblock_valid_magic [OF sb'(1)], folded sb'(2)]
  consider (covered) "i < 56" | (field) "56 \<le> i" "i < 60" | (pad) "60 \<le> i" by linarith
  then show False
  proof cases
    case covered
    then have "subrange (bytes[i := b]) 56 4 = subrange bytes 56 4" by (intro subrange_update) simp
    then have "sb_crc32c sb' = sb_crc32c sb" using fields by (simp add: to_le_word_u32_inject)
    moreover have "crc32c_append 0 ((take 56 bytes)[i := b]) \<noteq> crc32c_append 0 (take 56 bytes)"
      by (rule crc32c_update) (use covered len b in simp_all)
    ultimately show False using sb(3) sb'(3) by (simp add: take_update_swap)
  next
    case field
    then have "sb_crc32c sb' = sb_crc32c sb" using sb(3) sb'(3) by (simp add: take_update_cancel)
    then have "subrange (bytes[i := b]) 56 4 ! (i - 56) = subrange bytes 56 4 ! (i - 56)" using fields by simp
    with field len b show False by (simp add: nth_subrange)
  next
    case pad
    have "sb_pad sb' = sb_pad sb" using sb(1) sb'(1) by (simp add: superblock_valid_def)
    then have "subrange (bytes[i := b]) 60 4 ! (i - 60) = subrange bytes 60 4 ! (i - 60)" using fields by simp
    with pad len b assms(3) show False by (simp add: nth_subrange)
  qed
qed

lemma publish_states:
  "publish failing bytes root = (root', result) \<Longrightarrow>
     (root_super root' = root_super root \<or> root_super root' = Some bytes) \<and> (result = Ok () \<longrightarrow> root_super root' = Some bytes)"
  by (auto simp: publish_def Let_def split: if_splits option.splits publish_call.splits)

text \<open>
  C17: publishing a valid superblock never panics, and whichever call of the publication fails the published file
  is the old one or complete: reading it gives the new record with its checksum. Success means the
  latter. No other bytes differing from the new file in one place are accepted.
\<close>

theorem write_superblock_atomic:
  assumes "superblock_valid sb" and "computes_crc32c crc"
  shows "\<exists>root' result new. write_superblock crc failing sb root = Some (root', result) \<and>
    read_superblock crc (SuperblockBytes new) =
      Some (Ok (sb\<lparr>sb_crc32c := crc 0 (take SUPERBLOCK_CRC_PREFIX_LEN (superblock_as_bytes sb))\<rparr>)) \<and>
    (root_super root' = root_super root \<or> root_super root' = Some new) \<and>
    (result = Ok () \<longrightarrow> root_super root' = Some new) \<and>
    (\<forall>i < length new. \<forall>b. b \<noteq> new ! i \<longrightarrow>
       (\<exists>message. read_superblock crc (SuperblockBytes (new[i := b])) = Some (Err (InvalidStore message))))"
proof -
  let ?sb = "sb\<lparr>sb_crc32c := crc 0 (take SUPERBLOCK_CRC_PREFIX_LEN (superblock_as_bytes sb))\<rparr>"
  let ?new = "superblock_as_bytes ?sb"
  note magic = superblock_valid_magic [OF assms(1)] and crc = computes_crc32c_eq [OF assms(2)]
  obtain root' result where root': "publish failing ?new root = (root', result)" by (cases "publish failing ?new root") auto
  then have "write_superblock crc failing sb root = Some (root', result)"
    by (simp add: write_superblock_def stamp_superblock_Some [OF magic])
  moreover have accepted: "check_superblock crc ?new = Some (Ok ?sb)"
    using assms(1) superblock_covered [OF magic] by (simp add: check_superblock_Ok_iff superblock_valid_def)
  moreover have "\<exists>message. check_superblock crc (?new[i := b]) = Some (Err (InvalidStore message))"
    if "i < length ?new" "b \<noteq> ?new ! i" for i b
  proof -
    have "check_superblock crc (?new[i := b]) \<noteq> Some (Ok sb')" for sb'
      using check_superblock_isolated [OF accepted [unfolded crc], of i b sb'] that by (auto simp: crc)
    then obtain err where "check_superblock crc (?new[i := b]) = Some (Err err)"
      using check_superblock_returns [of crc "?new[i := b]"] by (metis not_Some_eq sum.exhaust)
    with check_superblock_Err show ?thesis by blast
  qed
  ultimately show ?thesis
    using publish_states [OF root'] by (intro exI [of _ root'] exI [of _ result] exI [of _ ?new]) (simp add: read_superblock_def)
qed

theorem write_superblock_atomic_witness:
  "\<exists>root' result new. write_superblock crc32c_append (Some (WriteTemp 10))
       \<lparr>sb_magic = SUPERBLOCK_MAGIC, sb_base_generation = 1, sb_checkpoint_lsn = 2, sb_log_byte_offset = 3,
        sb_commit_seq = 4, sb_transaction_id = 5, sb_format_version = 1, sb_flags = 0, sb_crc32c = 0, sb_pad = 0\<rparr>
       \<lparr>root_super = None, root_temp = None\<rparr> = Some (root', result) \<and>
     (root_super root' = None \<or> root_super root' = Some new)"
proof -
  let ?sb = "\<lparr>sb_magic = SUPERBLOCK_MAGIC, sb_base_generation = 1, sb_checkpoint_lsn = 2, sb_log_byte_offset = 3,
      sb_commit_seq = 4, sb_transaction_id = 5, sb_format_version = 1, sb_flags = 0, sb_crc32c = 0, sb_pad = 0\<rparr>"
  have "superblock_valid ?sb" by (simp add: superblock_valid_def OXGDB_FORMAT_VERSION_def)
  from write_superblock_atomic [OF this computes_crc32c_append, of "Some (WriteTemp 10)" "\<lparr>root_super = None, root_temp = None\<rparr>"]
  show ?thesis by auto
qed

end
