(* ===== verification/Bcsr.thy ===== *)
theory Bcsr
  imports BuildIndex SliceSearch
begin

text \<open>
  The bipartite compressed-sparse-row hypergraph of \<open>crates/oxgraph-hyper-bcsr/src/internal\<close>: the
  eight borrowed sections and their validation (\<open>validation.rs\<close>), the borrowed view (\<open>view.rs\<close>). A
  slice of layout words is the list of the logical indices its words hold. Each of the two role sides
  stores the same incidences twice: by hyperedge (head or tail participants) and by vertex (outgoing
  or incoming hyperedges).
\<close>

section \<open>Sections and errors\<close>

datatype bcsr_section =
    HeadOffsets
  | HeadParticipants
  | TailOffsets
  | TailParticipants
  | VertexOutgoingOffsets
  | VertexOutgoingHyperedges
  | VertexIncomingOffsets
  | VertexIncomingHyperedges

datatype bcsr_role_side = OutgoingSide | IncomingSide

datatype bcsr_error =
    BcsrOffsetLengthOverflow nat
  | BcsrOffsetLength bcsr_section nat nat \<comment> \<open>section, expected, actual\<close>
  | HyperedgeOffsetLengthMismatch nat nat \<comment> \<open>head, tail\<close>
  | VertexOffsetLengthMismatch nat nat \<comment> \<open>outgoing, incoming\<close>
  | BcsrFirstOffset bcsr_section nat
  | BcsrNonMonotonicOffset bcsr_section nat nat nat \<comment> \<open>section, index, previous, actual\<close>
  | BcsrFinalOffset bcsr_section nat nat \<comment> \<open>section, final offset, value length\<close>
  | VertexOutOfRange bcsr_section nat nat nat \<comment> \<open>section, index, vertex, vertex count\<close>
  | HyperedgeOutOfRange bcsr_section nat nat nat \<comment> \<open>section, index, hyperedge, hyperedge count\<close>
  | OutgoingTotalMismatch nat nat \<comment> \<open>head participants, outgoing hyperedges\<close>
  | IncomingTotalMismatch nat nat \<comment> \<open>tail participants, incoming hyperedges\<close>
  | NotStrictlyAscending bcsr_section nat nat nat \<comment> \<open>section, index, previous, actual\<close>
  | BcsrUsizeOverflow nat
  | TotalIncidenceCountOverflow nat nat \<comment> \<open>head, tail\<close>
  | CrossDirectionMismatch bcsr_role_side nat nat \<comment> \<open>side, hyperedge, vertex\<close>

record ('i, 'v, 'r) bcsr_sections =
  head_offsets :: "'i list"
  head_participants :: "'v list"
  tail_offsets :: "'i list"
  tail_participants :: "'v list"
  vertex_outgoing_offsets :: "'i list"
  vertex_outgoing_hyperedges :: "'r list"
  vertex_incoming_offsets :: "'i list"
  vertex_incoming_hyperedges :: "'r list"

type_synonym ('i, 'v, 'r) bcsr_words = "('i word, 'v word, 'r word) bcsr_sections"

datatype bcsr_validation = LayoutLevel | StrictLevel

record derived_counts =
  dc_vertex_count :: nat
  dc_hyperedge_count :: nat
  dc_p_outgoing :: nat
  dc_p_incoming :: nat
  dc_total_incidences :: nat

section \<open>Validation\<close>

definition bcsr_index_to_usize :: "('i::len) word \<Rightarrow> (bcsr_error, nat) result" where
  "bcsr_index_to_usize value = ok_or (BcsrUsizeOverflow usize_max) (to_usize value)"

text \<open>The value an overflow error reports: the offending word where it converts, the maximum otherwise.\<close>

definition bcsr_overflow_at :: "('i::len) word list \<Rightarrow> nat \<Rightarrow> bcsr_error" where
  "bcsr_overflow_at words index =
     BcsrUsizeOverflow
       (case Option.bind (if index < length words then Some (words ! index) else None) to_usize of
          Some value \<Rightarrow> value
        | None \<Rightarrow> usize_max)"

fun bcsr_map_offsets_issue ::
    "bcsr_section \<Rightarrow> ('i::len) word list \<Rightarrow> offset_integrity_issue \<Rightarrow> bcsr_error" where
  "bcsr_map_offsets_issue section_id offsets (Length expected actual) = BcsrOffsetLength section_id expected actual"
| "bcsr_map_offsets_issue section_id offsets (FirstNonZero actual) = BcsrFirstOffset section_id actual"
| "bcsr_map_offsets_issue section_id offsets (NonMonotonic index previous actual) =
     BcsrNonMonotonicOffset section_id index previous actual"
| "bcsr_map_offsets_issue section_id offsets (FinalMismatch final_offset value_len) =
     BcsrFinalOffset section_id final_offset value_len"
| "bcsr_map_offsets_issue section_id offsets (UsizeOverflow index) = bcsr_overflow_at offsets index"
| "bcsr_map_offsets_issue section_id offsets (CountOverflow _) = BcsrUsizeOverflow usize_max"
| "bcsr_map_offsets_issue section_id offsets (ValueOutOfRange _ _ _) = BcsrUsizeOverflow usize_max"

definition map_vertex_value_issue ::
    "bcsr_section \<Rightarrow> ('v::len) word list \<Rightarrow> offset_integrity_issue \<Rightarrow> bcsr_error" where
  "map_vertex_value_issue section_id values issue =
     (case issue of
        ValueOutOfRange index value bound \<Rightarrow> VertexOutOfRange section_id index value bound
      | UsizeOverflow index \<Rightarrow> bcsr_overflow_at values index
      | _ \<Rightarrow> BcsrUsizeOverflow usize_max)"

definition map_hyperedge_value_issue ::
    "bcsr_section \<Rightarrow> ('r::len) word list \<Rightarrow> offset_integrity_issue \<Rightarrow> bcsr_error" where
  "map_hyperedge_value_issue section_id values issue =
     (case issue of
        ValueOutOfRange index value bound \<Rightarrow> HyperedgeOutOfRange section_id index value bound
      | UsizeOverflow index \<Rightarrow> bcsr_overflow_at values index
      | _ \<Rightarrow> BcsrUsizeOverflow usize_max)"

definition derive_count_from_offsets :: "nat \<Rightarrow> bcsr_section \<Rightarrow> (bcsr_error, nat) result" where
  "derive_count_from_offsets offsets_len section_id =
     (if offsets_len = 0 then Err (BcsrOffsetLength section_id 1 0) else Ok (offsets_len - 1))"

text \<open>The debug assertions restate the subtraction of \<open>derive_count_from_offsets\<close> and always hold.\<close>

definition derive_counts :: "('i, 'v, 'r) bcsr_sections \<Rightarrow> (bcsr_error, derived_counts) result" where
  "derive_counts s =
     (let head_len = length (head_offsets s); tail_len = length (tail_offsets s) in
      if head_len \<noteq> tail_len then Err (HyperedgeOffsetLengthMismatch head_len tail_len)
      else
        let outgoing_len = length (vertex_outgoing_offsets s);
            incoming_len = length (vertex_incoming_offsets s) in
        if outgoing_len \<noteq> incoming_len then Err (VertexOffsetLengthMismatch outgoing_len incoming_len)
        else
          and_then (derive_count_from_offsets head_len HeadOffsets) (\<lambda>hyperedge_count.
          and_then (derive_count_from_offsets outgoing_len VertexOutgoingOffsets) (\<lambda>vertex_count.
          let p_outgoing = length (vertex_outgoing_hyperedges s);
              p_incoming = length (vertex_incoming_hyperedges s) in
          and_then (ok_or (TotalIncidenceCountOverflow p_outgoing p_incoming)
              (checked_add p_outgoing p_incoming)) (\<lambda>total_incidences.
            Ok \<lparr>dc_vertex_count = vertex_count, dc_hyperedge_count = hyperedge_count,
                dc_p_outgoing = p_outgoing, dc_p_incoming = p_incoming,
                dc_total_incidences = total_incidences\<rparr>))))"

definition validate_one_offsets ::
    "('i::len) word list \<Rightarrow> bcsr_section \<Rightarrow> nat \<Rightarrow> nat \<Rightarrow> (bcsr_error, unit) result" where
  "validate_one_offsets offsets section_id count value_len =
     (if checked_add count 1 = None then Err (BcsrOffsetLengthOverflow count)
      else map_err (bcsr_map_offsets_issue section_id offsets) (check_offset_section offsets count value_len))"

definition validate_all_offsets ::
    "('i::len, 'v, 'r) bcsr_words \<Rightarrow> derived_counts \<Rightarrow> (bcsr_error, unit) result" where
  "validate_all_offsets s counts =
     and_then (validate_one_offsets (head_offsets s) HeadOffsets (dc_hyperedge_count counts)
       (length (head_participants s))) (\<lambda>_.
     and_then (validate_one_offsets (tail_offsets s) TailOffsets (dc_hyperedge_count counts)
       (length (tail_participants s))) (\<lambda>_.
     and_then (validate_one_offsets (vertex_outgoing_offsets s) VertexOutgoingOffsets (dc_vertex_count counts)
       (length (vertex_outgoing_hyperedges s))) (\<lambda>_.
     validate_one_offsets (vertex_incoming_offsets s) VertexIncomingOffsets (dc_vertex_count counts)
       (length (vertex_incoming_hyperedges s)))))"

definition validate_total_lengths :: "('i, 'v, 'r) bcsr_sections \<Rightarrow> (bcsr_error, unit) result" where
  "validate_total_lengths s =
     (if length (head_participants s) \<noteq> length (vertex_outgoing_hyperedges s)
      then Err (OutgoingTotalMismatch (length (head_participants s)) (length (vertex_outgoing_hyperedges s)))
      else if length (tail_participants s) \<noteq> length (vertex_incoming_hyperedges s)
      then Err (IncomingTotalMismatch (length (tail_participants s)) (length (vertex_incoming_hyperedges s)))
      else Ok ())"

definition check_vertex_values ::
    "('v::len) word list \<Rightarrow> bcsr_section \<Rightarrow> nat \<Rightarrow> (bcsr_error, unit) result" where
  "check_vertex_values values section_id vertex_count =
     map_err (map_vertex_value_issue section_id values) (check_value_range values vertex_count)"

definition check_hyperedge_values ::
    "('r::len) word list \<Rightarrow> bcsr_section \<Rightarrow> nat \<Rightarrow> (bcsr_error, unit) result" where
  "check_hyperedge_values values section_id hyperedge_count =
     map_err (map_hyperedge_value_issue section_id values) (check_value_range values hyperedge_count)"

definition validate_value_ranges ::
    "('i, 'v::len, 'r::len) bcsr_words \<Rightarrow> derived_counts \<Rightarrow> (bcsr_error, unit) result" where
  "validate_value_ranges s counts =
     and_then (check_vertex_values (head_participants s) HeadParticipants (dc_vertex_count counts)) (\<lambda>_.
     and_then (check_vertex_values (tail_participants s) TailParticipants (dc_vertex_count counts)) (\<lambda>_.
     and_then (check_hyperedge_values (vertex_outgoing_hyperedges s) VertexOutgoingHyperedges
       (dc_hyperedge_count counts)) (\<lambda>_.
     check_hyperedge_values (vertex_incoming_hyperedges s) VertexIncomingHyperedges (dc_hyperedge_count counts))))"

text \<open>The loop of \<open>check_strictly_ascending_range\<close> over the remaining indices.\<close>

fun ascending_loop ::
    "('w::len) word list \<Rightarrow> bcsr_section \<Rightarrow> nat \<Rightarrow> nat list \<Rightarrow> (bcsr_error, unit) run" where
  "ascending_loop values section_id previous [] = Some (Ok ())"
| "ascending_loop values section_id previous (index # indices) =
     run_then (reading (index_or_panic values index)) (\<lambda>word.
     run_then (trying (bcsr_index_to_usize word)) (\<lambda>actual.
       if actual \<le> previous then Some (Err (NotStrictlyAscending section_id index previous actual))
       else ascending_loop values section_id actual indices))"

definition check_strictly_ascending_range ::
    "('w::len) word list \<Rightarrow> nat \<Rightarrow> nat \<Rightarrow> bcsr_section \<Rightarrow> (bcsr_error, unit) run" where
  "check_strictly_ascending_range values start stop section_id =
     run_then (reading (checked_add start 1)) (\<lambda>next.
       if stop \<le> next then Some (Ok ())
       else
         run_then (reading (index_or_panic values start)) (\<lambda>word.
         run_then (trying (bcsr_index_to_usize word)) (\<lambda>previous.
           ascending_loop values section_id previous [next..<stop])))"

text \<open>The loop over \<open>offsets.windows(2)\<close>.\<close>

fun ascending_windows ::
    "('i::len) word list \<Rightarrow> ('w::len) word list \<Rightarrow> bcsr_section \<Rightarrow> (bcsr_error, unit) run" where
  "ascending_windows (first # second # rest) values section_id =
     run_then (trying (bcsr_index_to_usize first)) (\<lambda>start.
     run_then (trying (bcsr_index_to_usize second)) (\<lambda>stop.
     run_then (check_strictly_ascending_range values start stop section_id) (\<lambda>_.
       ascending_windows (second # rest) values section_id)))"
| "ascending_windows _ values section_id = Some (Ok ())"

definition check_strictly_ascending_buckets ::
    "('i::len) word list \<Rightarrow> ('w::len) word list \<Rightarrow> bcsr_section \<Rightarrow> (bcsr_error, unit) run" where
  "check_strictly_ascending_buckets offsets values section_id =
     (if length offsets < 2 then Some (Ok ()) else ascending_windows offsets values section_id)"

definition validate_within_range_sorted ::
    "('i::len, 'v::len, 'r::len) bcsr_words \<Rightarrow> (bcsr_error, unit) run" where
  "validate_within_range_sorted s =
     run_then (check_strictly_ascending_buckets (head_offsets s) (head_participants s) HeadParticipants) (\<lambda>_.
     run_then (check_strictly_ascending_buckets (tail_offsets s) (tail_participants s) TailParticipants) (\<lambda>_.
     run_then (check_strictly_ascending_buckets (vertex_outgoing_offsets s) (vertex_outgoing_hyperedges s)
       VertexOutgoingHyperedges) (\<lambda>_.
     check_strictly_ascending_buckets (vertex_incoming_offsets s) (vertex_incoming_hyperedges s)
       VertexIncomingHyperedges)))"

definition bucket_contains :: "('w::len) word list \<Rightarrow> nat \<Rightarrow> nat \<Rightarrow> nat \<Rightarrow> bool option" where
  "bucket_contains values start stop needle =
     Option.bind (slice_or_panic values start stop) (\<lambda>bucket.
     Option.bind (binary_search_or_panic
       (\<lambda>word. map_option (\<lambda>value. cmp value needle) (index_to_usize_validated word)) bucket) (\<lambda>found.
       Some (case found of Inr _ \<Rightarrow> True | Inl _ \<Rightarrow> False)))"

text \<open>
  The two walks over the incidences of one bucket: \<open>cross_direction_check_bucket\<close> from a hyperedge
  to its vertices, and the inner loop of \<open>converse_direction_walk\<close> from a vertex to its hyperedges.
\<close>

fun cross_direction_check_bucket ::
    "('v::len) word list \<Rightarrow> ('i::len) word list \<Rightarrow> ('r::len) word list \<Rightarrow> nat \<Rightarrow> bcsr_role_side \<Rightarrow>
       (bcsr_error, unit) run" where
  "cross_direction_check_bucket [] vertex_offsets vertex_values hyperedge side = Some (Ok ())"
| "cross_direction_check_bucket (word # words) vertex_offsets vertex_values hyperedge side =
     run_then (trying (bcsr_index_to_usize word)) (\<lambda>vertex.
     run_then (reading (index_or_panic vertex_offsets vertex)) (\<lambda>first.
     run_then (trying (bcsr_index_to_usize first)) (\<lambda>bucket_start.
     run_then (reading (Option.bind (checked_add vertex 1) (index_or_panic vertex_offsets))) (\<lambda>second.
     run_then (trying (bcsr_index_to_usize second)) (\<lambda>bucket_end.
     run_then (reading (bucket_contains vertex_values bucket_start bucket_end hyperedge)) (\<lambda>found.
       if \<not> found then Some (Err (CrossDirectionMismatch side hyperedge vertex))
       else cross_direction_check_bucket words vertex_offsets vertex_values hyperedge side))))))"

fun cross_direction_loop ::
    "nat list \<Rightarrow> ('i::len) word list \<Rightarrow> ('v::len) word list \<Rightarrow> 'i word list \<Rightarrow> ('r::len) word list \<Rightarrow>
       bcsr_role_side \<Rightarrow> (bcsr_error, unit) run" where
  "cross_direction_loop [] edge_offsets edge_values vertex_offsets vertex_values side = Some (Ok ())"
| "cross_direction_loop (hyperedge # hyperedges) edge_offsets edge_values vertex_offsets vertex_values side =
     run_then (reading (index_or_panic edge_offsets hyperedge)) (\<lambda>first.
     run_then (trying (bcsr_index_to_usize first)) (\<lambda>start.
     run_then (reading (index_or_panic edge_offsets (hyperedge + 1))) (\<lambda>second.
     run_then (trying (bcsr_index_to_usize second)) (\<lambda>stop.
     run_then (cross_direction_check_bucket (drop start (take stop edge_values)) vertex_offsets vertex_values
       hyperedge side) (\<lambda>_.
       cross_direction_loop hyperedges edge_offsets edge_values vertex_offsets vertex_values side)))))"

definition cross_direction_walk ::
    "('i::len) word list \<Rightarrow> ('v::len) word list \<Rightarrow> 'i word list \<Rightarrow> ('r::len) word list \<Rightarrow> bcsr_role_side \<Rightarrow>
       (bcsr_error, unit) run" where
  "cross_direction_walk edge_offsets edge_values vertex_offsets vertex_values side =
     (if length edge_offsets < 2 then Some (Ok ())
      else cross_direction_loop [0..<length edge_offsets - 1] edge_offsets edge_values vertex_offsets vertex_values side)"

fun converse_check_bucket ::
    "('r::len) word list \<Rightarrow> ('i::len) word list \<Rightarrow> ('v::len) word list \<Rightarrow> nat \<Rightarrow> bcsr_role_side \<Rightarrow>
       (bcsr_error, unit) run" where
  "converse_check_bucket [] edge_offsets edge_values vertex side = Some (Ok ())"
| "converse_check_bucket (word # words) edge_offsets edge_values vertex side =
     run_then (trying (bcsr_index_to_usize word)) (\<lambda>hyperedge.
     run_then (reading (index_or_panic edge_offsets hyperedge)) (\<lambda>first.
     run_then (trying (bcsr_index_to_usize first)) (\<lambda>bucket_start.
     run_then (reading (Option.bind (checked_add hyperedge 1) (index_or_panic edge_offsets))) (\<lambda>second.
     run_then (trying (bcsr_index_to_usize second)) (\<lambda>bucket_end.
     run_then (reading (bucket_contains edge_values bucket_start bucket_end vertex)) (\<lambda>found.
       if \<not> found then Some (Err (CrossDirectionMismatch side hyperedge vertex))
       else converse_check_bucket words edge_offsets edge_values vertex side))))))"

fun converse_direction_loop ::
    "nat list \<Rightarrow> ('i::len) word list \<Rightarrow> ('r::len) word list \<Rightarrow> 'i word list \<Rightarrow> ('v::len) word list \<Rightarrow>
       bcsr_role_side \<Rightarrow> (bcsr_error, unit) run" where
  "converse_direction_loop [] vertex_offsets vertex_values edge_offsets edge_values side = Some (Ok ())"
| "converse_direction_loop (vertex # vertices) vertex_offsets vertex_values edge_offsets edge_values side =
     run_then (reading (index_or_panic vertex_offsets vertex)) (\<lambda>first.
     run_then (trying (bcsr_index_to_usize first)) (\<lambda>start.
     run_then (reading (index_or_panic vertex_offsets (vertex + 1))) (\<lambda>second.
     run_then (trying (bcsr_index_to_usize second)) (\<lambda>stop.
     run_then (converse_check_bucket (drop start (take stop vertex_values)) edge_offsets edge_values
       vertex side) (\<lambda>_.
       converse_direction_loop vertices vertex_offsets vertex_values edge_offsets edge_values side)))))"

definition converse_direction_walk ::
    "('i::len) word list \<Rightarrow> ('r::len) word list \<Rightarrow> 'i word list \<Rightarrow> ('v::len) word list \<Rightarrow> bcsr_role_side \<Rightarrow>
       (bcsr_error, unit) run" where
  "converse_direction_walk vertex_offsets vertex_values edge_offsets edge_values side =
     (if length vertex_offsets < 2 then Some (Ok ())
      else converse_direction_loop [0..<length vertex_offsets - 1] vertex_offsets vertex_values
        edge_offsets edge_values side)"

definition validate_cross_direction ::
    "('i::len, 'v::len, 'r::len) bcsr_words \<Rightarrow> (bcsr_error, unit) run" where
  "validate_cross_direction s =
     run_then (cross_direction_walk (head_offsets s) (head_participants s) (vertex_outgoing_offsets s)
       (vertex_outgoing_hyperedges s) OutgoingSide) (\<lambda>_.
     run_then (cross_direction_walk (tail_offsets s) (tail_participants s) (vertex_incoming_offsets s)
       (vertex_incoming_hyperedges s) IncomingSide) (\<lambda>_.
     run_then (converse_direction_walk (vertex_outgoing_offsets s) (vertex_outgoing_hyperedges s)
       (head_offsets s) (head_participants s) OutgoingSide) (\<lambda>_.
     converse_direction_walk (vertex_incoming_offsets s) (vertex_incoming_hyperedges s)
       (tail_offsets s) (tail_participants s) IncomingSide)))"

definition validate_sections ::
    "('i::len, 'v::len, 'r::len) bcsr_words \<Rightarrow> bcsr_validation \<Rightarrow> (bcsr_error, derived_counts) run" where
  "validate_sections s level =
     run_then (trying (derive_counts s)) (\<lambda>counts.
     run_then (trying (validate_all_offsets s counts)) (\<lambda>_.
     run_then (trying (validate_total_lengths s)) (\<lambda>_.
     run_then (trying (validate_value_ranges s counts)) (\<lambda>_.
     run_then (validate_within_range_sorted s) (\<lambda>_.
     run_then (if level = StrictLevel then validate_cross_direction s else Some (Ok ())) (\<lambda>_.
       Some (Ok counts)))))))"

section \<open>The view\<close>

record ('i, 'v, 'r) bcsr_hypergraph =
  bh_counts :: derived_counts
  bh_sections :: "('i, 'v, 'r) bcsr_sections"

type_synonym ('i, 'v, 'r) bcsr_view = "('i word, 'v word, 'r word) bcsr_hypergraph"

definition bcsr_open_with ::
    "('i::len, 'v::len, 'r::len) bcsr_words \<Rightarrow> bcsr_validation \<Rightarrow> (bcsr_error, ('i, 'v, 'r) bcsr_view) run" where
  "bcsr_open_with s level =
     run_then (validate_sections s level) (\<lambda>counts. Some (Ok \<lparr>bh_counts = counts, bh_sections = s\<rparr>))"

definition bcsr_open ::
    "('i::len, 'v::len, 'r::len) bcsr_words \<Rightarrow> (bcsr_error, ('i, 'v, 'r) bcsr_view) run" where
  "bcsr_open s = bcsr_open_with s LayoutLevel"

definition bcsr_from_validated_sections :: "('i, 'v, 'r) bcsr_sections \<Rightarrow> ('i, 'v, 'r) bcsr_hypergraph" where
  "bcsr_from_validated_sections s =
     (let p_outgoing = length (vertex_outgoing_hyperedges s);
          p_incoming = length (vertex_incoming_hyperedges s) in
      \<lparr>bh_counts =
         \<lparr>dc_vertex_count = length (vertex_outgoing_offsets s) - 1,
          dc_hyperedge_count = length (head_offsets s) - 1,
          dc_p_outgoing = p_outgoing, dc_p_incoming = p_incoming,
          dc_total_incidences = min (p_outgoing + p_incoming) usize_max\<rparr>,
       bh_sections = s\<rparr>)"

definition bcsr_vertex_count :: "('i, 'v, 'r) bcsr_hypergraph \<Rightarrow> nat" where
  "bcsr_vertex_count g = dc_vertex_count (bh_counts g)"

definition bcsr_hyperedge_count :: "('i, 'v, 'r) bcsr_hypergraph \<Rightarrow> nat" where
  "bcsr_hyperedge_count g = dc_hyperedge_count (bh_counts g)"

definition bcsr_outgoing_incidence_count :: "('i, 'v, 'r) bcsr_hypergraph \<Rightarrow> nat" where
  "bcsr_outgoing_incidence_count g = dc_p_outgoing (bh_counts g)"

definition bcsr_incoming_incidence_count :: "('i, 'v, 'r) bcsr_hypergraph \<Rightarrow> nat" where
  "bcsr_incoming_incidence_count g = dc_p_incoming (bh_counts g)"

section \<open>Checks that decide a predicate\<close>

text \<open>A check decides a predicate when it never panics and accepts exactly where the predicate holds.\<close>

definition decides :: "('e, unit) run \<Rightarrow> bool \<Rightarrow> bool" where
  "decides r P \<longleftrightarrow> r \<noteq> None \<and> (r = Some (Ok ()) \<longleftrightarrow> P)"

lemma decides_then:
  assumes "decides r P" and "P \<Longrightarrow> decides (f ()) Q"
  shows "decides (run_then r f) (P \<and> Q)"
  using assms by (cases r; cases "the r") (auto simp: decides_def)

lemma decides_trying [simp]: "decides (Some r) (r = Ok ())"
  by (simp add: decides_def)

lemma decides_Ok [simp]: "decides (Some (Ok ())) P \<longleftrightarrow> P"
  by (simp add: decides_def)

lemma decides_Err [simp]: "decides (Some (Err e)) P \<longleftrightarrow> \<not> P"
  by (simp add: decides_def)

lemma decides_cong: "decides r P \<Longrightarrow> P = Q \<Longrightarrow> decides r Q"
  by simp

section \<open>Well-formed sections\<close>

definition bucket :: "('i::len) word list \<Rightarrow> 'a list \<Rightarrow> nat \<Rightarrow> 'a list" where
  "bucket offsets values i =
     subrange values (unat (offsets ! i)) (unat (offsets ! (i + 1)) - unat (offsets ! i))"

definition bucket_ids :: "('i::len) word list \<Rightarrow> ('w::len) word list \<Rightarrow> nat \<Rightarrow> nat list" where
  "bucket_ids offsets values i = map unat (bucket offsets values i)"

text \<open>One direction of a side: \<open>count\<close> buckets of strictly ascending ids below \<open>bound\<close>.\<close>

definition direction_ok :: "('i::len) word list \<Rightarrow> nat \<Rightarrow> ('w::len) word list \<Rightarrow> nat \<Rightarrow> bool" where
  "direction_ok offsets count values bound \<longleftrightarrow>
     offsets_ok offsets count (length values) \<and> fits_usize values \<and> (\<forall>w \<in> set values. unat w < bound) \<and>
     (\<forall>i < count. sorted_wrt (<) (bucket_ids offsets values i))"

definition bcsr_layout_ok :: "('i::len, 'v::len, 'r::len) bcsr_words \<Rightarrow> nat \<Rightarrow> nat \<Rightarrow> bool" where
  "bcsr_layout_ok s vertices hyperedges \<longleftrightarrow>
     direction_ok (head_offsets s) hyperedges (head_participants s) vertices \<and>
     direction_ok (tail_offsets s) hyperedges (tail_participants s) vertices \<and>
     direction_ok (vertex_outgoing_offsets s) vertices (vertex_outgoing_hyperedges s) hyperedges \<and>
     direction_ok (vertex_incoming_offsets s) vertices (vertex_incoming_hyperedges s) hyperedges \<and>
     length (head_participants s) = length (vertex_outgoing_hyperedges s) \<and>
     length (tail_participants s) = length (vertex_incoming_hyperedges s) \<and>
     length (vertex_outgoing_hyperedges s) + length (vertex_incoming_hyperedges s) \<le> usize_max"

text \<open>The two directions of a side list the same incidences.\<close>

definition same_incidences ::
    "('i::len) word list \<Rightarrow> ('v::len) word list \<Rightarrow> 'i word list \<Rightarrow> ('r::len) word list \<Rightarrow> nat \<Rightarrow> nat \<Rightarrow> bool" where
  "same_incidences edge_offsets edge_values vertex_offsets vertex_values vertices hyperedges \<longleftrightarrow>
     (\<forall>h < hyperedges. \<forall>v < vertices.
        v \<in> set (bucket_ids edge_offsets edge_values h) \<longleftrightarrow> h \<in> set (bucket_ids vertex_offsets vertex_values v))"

definition bcsr_cross_ok :: "('i::len, 'v::len, 'r::len) bcsr_words \<Rightarrow> nat \<Rightarrow> nat \<Rightarrow> bool" where
  "bcsr_cross_ok s vertices hyperedges \<longleftrightarrow>
     same_incidences (head_offsets s) (head_participants s) (vertex_outgoing_offsets s)
       (vertex_outgoing_hyperedges s) vertices hyperedges \<and>
     same_incidences (tail_offsets s) (tail_participants s) (vertex_incoming_offsets s)
       (vertex_incoming_hyperedges s) vertices hyperedges"

definition bcsr_counts :: "('i, 'v, 'r) bcsr_sections \<Rightarrow> nat \<Rightarrow> nat \<Rightarrow> derived_counts" where
  "bcsr_counts s vertices hyperedges =
     \<lparr>dc_vertex_count = vertices, dc_hyperedge_count = hyperedges,
      dc_p_outgoing = length (vertex_outgoing_hyperedges s), dc_p_incoming = length (vertex_incoming_hyperedges s),
      dc_total_incidences = length (vertex_outgoing_hyperedges s) + length (vertex_incoming_hyperedges s)\<rparr>"

text \<open>
  A slice of nonzero-size words is shorter than the address space; the one sum of two slice positions
  that the code leaves unchecked needs this.
\<close>

definition bcsr_addressable :: "('i, 'v, 'r) bcsr_sections \<Rightarrow> bool" where
  "bcsr_addressable s \<longleftrightarrow>
     length (head_participants s) < usize_max \<and> length (tail_participants s) < usize_max \<and>
     length (vertex_outgoing_hyperedges s) < usize_max \<and> length (vertex_incoming_hyperedges s) < usize_max"

lemma bucket_eq_drop_take:
  "bucket offsets values i = drop (unat (offsets ! i)) (take (unat (offsets ! (i + 1))) values)"
  by (simp add: bucket_def subrange_def drop_take)

lemma bucket_Cons_Suc [simp]: "bucket (w # offsets) values (Suc i) = bucket offsets values i"
  by (simp add: bucket_def)

lemma set_bucket: "set (bucket offsets values i) \<subseteq> set values"
  by (auto simp: bucket_def subrange_def dest: in_set_takeD in_set_dropD)

lemma direction_ok_bounds:
  assumes "direction_ok offsets count values bound" "i < count"
  shows "unat (offsets ! i) \<le> unat (offsets ! (i + 1))" "unat (offsets ! (i + 1)) \<le> length values"
    "i + 1 < length offsets" "count < usize_max"
    "to_usize (offsets ! i) = Some (unat (offsets ! i))"
    "to_usize (offsets ! (i + 1)) = Some (unat (offsets ! (i + 1)))"
proof -
  from assms have ok: "offsets_ok offsets count (length values)" by (simp add: direction_ok_def)
  then have len: "length offsets = count + 1" and fits: "fits_usize offsets" and "count < usize_max"
    by (simp_all add: offsets_ok_def)
  then show "i + 1 < length offsets" "count < usize_max"
    "to_usize (offsets ! i) = Some (unat (offsets ! i))"
    "to_usize (offsets ! (i + 1)) = Some (unat (offsets ! (i + 1)))"
    using assms(2) by (simp_all add: fits_usize_nth)
  show "unat (offsets ! i) \<le> unat (offsets ! (i + 1))"
    by (rule offsets_ok_mono [OF ok]) (use assms(2) in simp_all)
  show "unat (offsets ! (i + 1)) \<le> length values"
    by (rule offsets_ok_interior [OF ok]) (use assms(2) in simp)
qed

section \<open>What the walks decide\<close>

lemma validate_one_offsets_Ok:
  "validate_one_offsets offsets section_id count value_len = Ok () \<longleftrightarrow> offsets_ok offsets count value_len"
  by (auto simp: validate_one_offsets_def check_offset_section_Ok offsets_ok_def)

lemma check_vertex_values_Ok:
  "check_vertex_values values section_id bound = Ok () \<longleftrightarrow> fits_usize values \<and> (\<forall>w \<in> set values. unat w < bound)"
  by (simp add: check_vertex_values_def check_value_range_Ok)

lemma check_hyperedge_values_Ok:
  "check_hyperedge_values values section_id bound = Ok () \<longleftrightarrow> fits_usize values \<and> (\<forall>w \<in> set values. unat w < bound)"
  by (simp add: check_hyperedge_values_def check_value_range_Ok)

lemma derive_counts_Ok:
  "derive_counts s = Ok c \<longleftrightarrow>
     (\<exists>vertices hyperedges. length (head_offsets s) = hyperedges + 1 \<and> length (tail_offsets s) = hyperedges + 1 \<and>
        length (vertex_outgoing_offsets s) = vertices + 1 \<and> length (vertex_incoming_offsets s) = vertices + 1 \<and>
        length (vertex_outgoing_hyperedges s) + length (vertex_incoming_hyperedges s) \<le> usize_max \<and>
        c = bcsr_counts s vertices hyperedges)"
  by (cases "length (vertex_outgoing_offsets s)"; cases "length (head_offsets s)")
    (auto simp: derive_counts_def Let_def derive_count_from_offsets_def bcsr_counts_def)

lemma ascending_loop_decides:
  assumes "fits_usize values" and "\<And>i. i \<in> set indices \<Longrightarrow> i < length values"
  shows "decides (ascending_loop values section_id previous indices)
    (sorted_wrt (<) (previous # map (\<lambda>i. unat (values ! i)) indices))"
  using assms(2)
proof (induction indices arbitrary: previous)
  case Nil
  then show ?case by simp
next
  case (Cons i indices)
  then have i: "i < length values" and to: "to_usize (values ! i) = Some (unat (values ! i))"
    using assms(1) by (simp_all add: fits_usize_nth)
  show ?case
  proof (cases "unat (values ! i) \<le> previous")
    case True
    with i to show ?thesis by (simp add: bcsr_index_to_usize_def)
  next
    case False
    have "decides (ascending_loop values section_id (unat (values ! i)) indices)
        (sorted_wrt (<) (unat (values ! i) # map (\<lambda>i. unat (values ! i)) indices))"
      by (rule Cons.IH) (use Cons.prems in simp)
    moreover have "sorted_wrt (<) (previous # map (\<lambda>i. unat (values ! i)) (i # indices)) \<longleftrightarrow>
        sorted_wrt (<) (unat (values ! i) # map (\<lambda>i. unat (values ! i)) indices)"
      using False by (auto intro: less_trans)
    ultimately show ?thesis using i to False
      by (simp add: bcsr_index_to_usize_def del: sorted_wrt.simps)
  qed
qed

lemma check_strictly_ascending_range_decides:
  assumes "fits_usize values" "start \<le> stop" "stop \<le> length values" "length values < usize_max"
  shows "decides (check_strictly_ascending_range values start stop section_id)
    (sorted_wrt (<) (map unat (subrange values start (stop - start))))"
proof (cases "stop \<le> start + 1")
  case True
  then have "length (subrange values start (stop - start)) \<le> 1" using assms by simp
  then have "sorted_wrt (<) (map unat (subrange values start (stop - start)))"
    by (cases "subrange values start (stop - start)") auto
  with True assms show ?thesis by (simp add: check_strictly_ascending_range_def checked_add_def)
next
  case False
  let ?f = "\<lambda>i. unat (values ! i)"
  have "map unat (subrange values start (stop - start)) = map ?f [start..<stop]"
    by (rule nth_equalityI) (use assms False in \<open>auto simp: nth_subrange\<close>)
  also have "\<dots> = ?f start # map ?f [start + 1..<stop]"
    using False by (simp add: upt_conv_Cons)
  finally have "map unat (subrange values start (stop - start)) = ?f start # map ?f [start + 1..<stop]" .
  moreover have "decides (ascending_loop values section_id (?f start) [start + 1..<stop])
      (sorted_wrt (<) (?f start # map ?f [start + 1..<stop]))"
    by (rule ascending_loop_decides) (use assms in auto)
  moreover have "to_usize (values ! start) = Some (?f start)" "start < length values"
    using False assms by (auto intro: fits_usize_nth)
  ultimately show ?thesis
    using False assms
    by (simp add: check_strictly_ascending_range_def checked_add_def bcsr_index_to_usize_def
        del: sorted_wrt.simps upt_Suc)
qed

lemma ascending_windows_decides:
  assumes "fits_usize offsets" "sorted (map unat offsets)" "\<And>w. w \<in> set offsets \<Longrightarrow> unat w \<le> length values"
    and "fits_usize values" "length values < usize_max"
  shows "decides (ascending_windows offsets values section_id)
    (\<forall>i < length offsets - 1. sorted_wrt (<) (bucket_ids offsets values i))"
  using assms(1-3)
proof (induction offsets)
  case Nil
  then show ?case by simp
next
  case (Cons first offsets)
  note ih = Cons.IH and prems = Cons.prems
  show ?case
  proof (cases offsets)
    case Nil
    then show ?thesis by simp
  next
    case (Cons second rest)
    let ?P = "\<lambda>i. sorted_wrt (<) (bucket_ids (first # offsets) values i)"
    have "decides (check_strictly_ascending_range values (unat first) (unat second) section_id) (?P 0)"
      using check_strictly_ascending_range_decides [of "values" "unat first" "unat second" section_id] prems assms(4,5)
      by (simp add: bucket_ids_def bucket_def Cons)
    moreover have "decides (ascending_windows offsets values section_id)
        (\<forall>i < length offsets - 1. sorted_wrt (<) (bucket_ids offsets values i))"
      by (rule ih) (use prems in \<open>auto simp: fits_usize_def\<close>)
    ultimately have "decides (run_then (check_strictly_ascending_range values (unat first) (unat second) section_id)
        (\<lambda>_. ascending_windows offsets values section_id))
        (?P 0 \<and> (\<forall>i < length offsets - 1. sorted_wrt (<) (bucket_ids offsets values i)))"
      by (rule decides_then)
    moreover have "(\<forall>i < length (first # offsets) - 1. ?P i) \<longleftrightarrow>
        ?P 0 \<and> (\<forall>i < length offsets - 1. sorted_wrt (<) (bucket_ids offsets values i))"
      by (auto simp: bucket_ids_def less_Suc_eq_0_disj Cons)
    moreover have "to_usize first = Some (unat first)" "to_usize second = Some (unat second)"
      using prems(1) by (simp_all add: fits_usize_def to_usize_def Cons)
    ultimately show ?thesis by (simp add: Cons bcsr_index_to_usize_def)
  qed
qed

lemma check_strictly_ascending_buckets_decides:
  assumes "offsets_ok offsets count (length values)" "fits_usize values" "length values < usize_max"
  shows "decides (check_strictly_ascending_buckets offsets values section_id)
    (\<forall>i < count. sorted_wrt (<) (bucket_ids offsets values i))"
proof -
  have le: "unat w \<le> length values" if "w \<in> set offsets" for w
    using that assms(1) offsets_ok_interior [OF assms(1)] by (auto simp: in_set_conv_nth offsets_ok_def)
  have "decides (ascending_windows offsets values section_id)
      (\<forall>i < length offsets - 1. sorted_wrt (<) (bucket_ids offsets values i))"
    by (rule ascending_windows_decides) (use assms le in \<open>simp_all add: offsets_ok_def\<close>)
  then show ?thesis
    using assms(1) by (auto simp: check_strictly_ascending_buckets_def offsets_ok_def)
qed

lemma bucket_contains_eq:
  assumes "direction_ok offsets count values bound" "i < count"
  shows "bucket_contains values (unat (offsets ! i)) (unat (offsets ! (i + 1))) needle =
    Some (needle \<in> set (bucket_ids offsets values i))"
proof -
  let ?b = "bucket offsets values i"
  have slice: "slice_or_panic values (unat (offsets ! i)) (unat (offsets ! (i + 1))) = Some ?b"
    using direction_ok_bounds [OF assms] by (simp add: bucket_def subrange_def)
  have fits: "to_usize w = Some (unat w)" if "w \<in> set ?b" for w
    using that set_bucket assms(1) by (fastforce simp: direction_ok_def fits_usize_def to_usize_def)
  have asc: "sorted_wrt (<) (map unat ?b)" using assms by (simp add: direction_ok_def bucket_ids_def)
  have "binary_search_or_panic (\<lambda>word. map_option (\<lambda>value. cmp value needle) (index_to_usize_validated word)) ?b =
      Some (binary_search_by (\<lambda>word. cmp (unat word) needle) ?b)"
    by (rule binary_search_or_panic_total) (simp add: fits index_to_usize_validated_def)
  then show ?thesis
    using binary_search_by_Err [OF asc, of needle] slice
    by (cases "binary_search_by (\<lambda>word. cmp (unat word) needle) ?b") (auto simp: bucket_contains_def bucket_ids_def)
qed

text \<open>The shared step of the two cross-direction loops: one incidence looked up in its other bucket.\<close>

lemma lookup_step:
  assumes "direction_ok offsets count values bound" "unat word < count"
  shows "run_then (trying (bcsr_index_to_usize word)) (\<lambda>i.
     run_then (reading (index_or_panic offsets i)) (\<lambda>first.
     run_then (trying (bcsr_index_to_usize first)) (\<lambda>start.
     run_then (reading (Option.bind (checked_add i 1) (index_or_panic offsets))) (\<lambda>second.
     run_then (trying (bcsr_index_to_usize second)) (\<lambda>stop.
     run_then (reading (bucket_contains values start stop needle)) (k i)))))) =
   k (unat word) (needle \<in> set (bucket_ids offsets values (unat word)))"
proof -
  note b = direction_ok_bounds [OF assms]
  from assms(2) b(4) have "to_usize word = Some (unat word)" "checked_add (unat word) 1 = Some (unat word + 1)"
    by (auto simp: to_usize_def)
  then show ?thesis
    using b(3,5,6) bucket_contains_eq [OF assms, of needle]
    by (simp add: bcsr_index_to_usize_def checked_add_def)
qed

lemma cross_direction_check_bucket_decides:
  assumes "direction_ok vertex_offsets vertices vertex_values bound" "\<And>w. w \<in> set words \<Longrightarrow> unat w < vertices"
  shows "decides (cross_direction_check_bucket words vertex_offsets vertex_values hyperedge side)
    (\<forall>w \<in> set words. hyperedge \<in> set (bucket_ids vertex_offsets vertex_values (unat w)))"
  using assms(2)
proof (induction words)
  case Nil
  then show ?case by simp
next
  case (Cons w words)
  have "unat w < vertices" using Cons.prems by simp
  with Cons show ?case
    by (simp only: cross_direction_check_bucket.simps lookup_step [OF assms(1)]) simp
qed

lemma converse_check_bucket_decides:
  assumes "direction_ok edge_offsets hyperedges edge_values bound" "\<And>w. w \<in> set words \<Longrightarrow> unat w < hyperedges"
  shows "decides (converse_check_bucket words edge_offsets edge_values vertex side)
    (\<forall>w \<in> set words. vertex \<in> set (bucket_ids edge_offsets edge_values (unat w)))"
  using assms(2)
proof (induction words)
  case Nil
  then show ?case by simp
next
  case (Cons w words)
  have "unat w < hyperedges" using Cons.prems by simp
  with Cons show ?case
    by (simp only: converse_check_bucket.simps lookup_step [OF assms(1)]) simp
qed

lemma cross_direction_loop_decides:
  assumes edge: "direction_ok edge_offsets hyperedges edge_values vertices"
    and vertex: "direction_ok vertex_offsets vertices vertex_values hyperedges"
    and "\<And>h. h \<in> set hs \<Longrightarrow> h < hyperedges"
  shows "decides (cross_direction_loop hs edge_offsets edge_values vertex_offsets vertex_values side)
    (\<forall>h \<in> set hs. \<forall>v \<in> set (bucket_ids edge_offsets edge_values h).
       h \<in> set (bucket_ids vertex_offsets vertex_values v))"
  using assms(3)
proof (induction hs)
  case Nil
  then show ?case by simp
next
  case (Cons h hs)
  then have h: "h < hyperedges" by simp
  note b = direction_ok_bounds [OF edge h]
  have below: "unat w < vertices" if "w \<in> set (bucket edge_offsets edge_values h)" for w
    using that set_bucket edge by (fastforce simp: direction_ok_def)
  have "decides (cross_direction_check_bucket (bucket edge_offsets edge_values h) vertex_offsets vertex_values h side)
      (\<forall>v \<in> set (bucket_ids edge_offsets edge_values h). h \<in> set (bucket_ids vertex_offsets vertex_values v))"
    by (rule decides_cong [OF cross_direction_check_bucket_decides [OF vertex below]]) (simp_all add: bucket_ids_def)
  then have "decides (run_then
      (cross_direction_check_bucket (bucket edge_offsets edge_values h) vertex_offsets vertex_values h side)
      (\<lambda>_. cross_direction_loop hs edge_offsets edge_values vertex_offsets vertex_values side))
    ((\<forall>v \<in> set (bucket_ids edge_offsets edge_values h). h \<in> set (bucket_ids vertex_offsets vertex_values v)) \<and>
     (\<forall>h \<in> set hs. \<forall>v \<in> set (bucket_ids edge_offsets edge_values h).
       h \<in> set (bucket_ids vertex_offsets vertex_values v)))"
    by (rule decides_then) (rule Cons.IH, simp add: Cons.prems)
  then show ?case using b(3,5,6) by (simp add: bcsr_index_to_usize_def bucket_eq_drop_take)
qed

lemma converse_direction_loop_decides:
  assumes vertex: "direction_ok vertex_offsets vertices vertex_values hyperedges"
    and edge: "direction_ok edge_offsets hyperedges edge_values vertices"
    and "\<And>v. v \<in> set vs \<Longrightarrow> v < vertices"
  shows "decides (converse_direction_loop vs vertex_offsets vertex_values edge_offsets edge_values side)
    (\<forall>v \<in> set vs. \<forall>h \<in> set (bucket_ids vertex_offsets vertex_values v).
       v \<in> set (bucket_ids edge_offsets edge_values h))"
  using assms(3)
proof (induction vs)
  case Nil
  then show ?case by simp
next
  case (Cons v vs)
  then have v: "v < vertices" by simp
  note b = direction_ok_bounds [OF vertex v]
  have below: "unat w < hyperedges" if "w \<in> set (bucket vertex_offsets vertex_values v)" for w
    using that set_bucket vertex by (fastforce simp: direction_ok_def)
  have "decides (converse_check_bucket (bucket vertex_offsets vertex_values v) edge_offsets edge_values v side)
      (\<forall>h \<in> set (bucket_ids vertex_offsets vertex_values v). v \<in> set (bucket_ids edge_offsets edge_values h))"
    by (rule decides_cong [OF converse_check_bucket_decides [OF edge below]]) (simp_all add: bucket_ids_def)
  then have "decides (run_then
      (converse_check_bucket (bucket vertex_offsets vertex_values v) edge_offsets edge_values v side)
      (\<lambda>_. converse_direction_loop vs vertex_offsets vertex_values edge_offsets edge_values side))
    ((\<forall>h \<in> set (bucket_ids vertex_offsets vertex_values v). v \<in> set (bucket_ids edge_offsets edge_values h)) \<and>
     (\<forall>v \<in> set vs. \<forall>h \<in> set (bucket_ids vertex_offsets vertex_values v).
       v \<in> set (bucket_ids edge_offsets edge_values h)))"
    by (rule decides_then) (rule Cons.IH, simp add: Cons.prems)
  then show ?case using b(3,5,6) by (simp add: bcsr_index_to_usize_def bucket_eq_drop_take)
qed

text \<open>Containment of one direction in the other, and the two walks.\<close>

definition contained ::
    "('i::len) word list \<Rightarrow> ('v::len) word list \<Rightarrow> 'i word list \<Rightarrow> ('r::len) word list \<Rightarrow> nat \<Rightarrow> bool" where
  "contained edge_offsets edge_values vertex_offsets vertex_values count \<longleftrightarrow>
     (\<forall>h < count. \<forall>v \<in> set (bucket_ids edge_offsets edge_values h).
        h \<in> set (bucket_ids vertex_offsets vertex_values v))"

lemma cross_direction_walk_decides:
  assumes "direction_ok edge_offsets hyperedges edge_values vertices"
    "direction_ok vertex_offsets vertices vertex_values hyperedges"
  shows "decides (cross_direction_walk edge_offsets edge_values vertex_offsets vertex_values side)
    (contained edge_offsets edge_values vertex_offsets vertex_values hyperedges)"
proof -
  have len: "length edge_offsets = hyperedges + 1" using assms(1) by (simp add: direction_ok_def offsets_ok_def)
  with cross_direction_loop_decides [OF assms, of "[0..<hyperedges]" side] show ?thesis
    by (simp add: cross_direction_walk_def contained_def Ball_def)
qed

lemma converse_direction_walk_decides:
  assumes "direction_ok vertex_offsets vertices vertex_values hyperedges"
    "direction_ok edge_offsets hyperedges edge_values vertices"
  shows "decides (converse_direction_walk vertex_offsets vertex_values edge_offsets edge_values side)
    (contained vertex_offsets vertex_values edge_offsets edge_values vertices)"
proof -
  have len: "length vertex_offsets = vertices + 1" using assms(1) by (simp add: direction_ok_def offsets_ok_def)
  with converse_direction_loop_decides [OF assms, of "[0..<vertices]" side] show ?thesis
    by (simp add: converse_direction_walk_def contained_def Ball_def)
qed

lemma direction_ok_ids_below:
  "direction_ok offsets count values bound \<Longrightarrow> x \<in> set (bucket_ids offsets values i) \<Longrightarrow> x < bound"
  using set_bucket by (fastforce simp: direction_ok_def bucket_ids_def)

lemma same_incidences_contained:
  assumes "direction_ok edge_offsets hyperedges edge_values vertices"
    "direction_ok vertex_offsets vertices vertex_values hyperedges"
  shows "same_incidences edge_offsets edge_values vertex_offsets vertex_values vertices hyperedges \<longleftrightarrow>
    contained edge_offsets edge_values vertex_offsets vertex_values hyperedges \<and>
    contained vertex_offsets vertex_values edge_offsets edge_values vertices"
  unfolding same_incidences_def contained_def
  using direction_ok_ids_below [OF assms(1)] direction_ok_ids_below [OF assms(2)] by blast

lemma validate_cross_direction_decides:
  assumes "bcsr_layout_ok s vertices hyperedges"
  shows "decides (validate_cross_direction s) (bcsr_cross_ok s vertices hyperedges)"
proof -
  from assms have d: "direction_ok (head_offsets s) hyperedges (head_participants s) vertices"
    "direction_ok (tail_offsets s) hyperedges (tail_participants s) vertices"
    "direction_ok (vertex_outgoing_offsets s) vertices (vertex_outgoing_hyperedges s) hyperedges"
    "direction_ok (vertex_incoming_offsets s) vertices (vertex_incoming_hyperedges s) hyperedges"
    by (simp_all add: bcsr_layout_ok_def)
  note walks = cross_direction_walk_decides [OF d(1,3)] cross_direction_walk_decides [OF d(2,4)]
    converse_direction_walk_decides [OF d(3,1)] converse_direction_walk_decides [OF d(4,2)]
  show ?thesis
    unfolding validate_cross_direction_def bcsr_cross_ok_def same_incidences_contained [OF d(1,3)]
      same_incidences_contained [OF d(2,4)]
    by (rule decides_cong, (rule decides_then walks)+) blast
qed

text \<open>What the walks before the order check have established.\<close>

definition bcsr_shape_ok :: "('i::len, 'v::len, 'r::len) bcsr_words \<Rightarrow> nat \<Rightarrow> nat \<Rightarrow> bool" where
  "bcsr_shape_ok s vertices hyperedges \<longleftrightarrow>
     offsets_ok (head_offsets s) hyperedges (length (head_participants s)) \<and>
     offsets_ok (tail_offsets s) hyperedges (length (tail_participants s)) \<and>
     offsets_ok (vertex_outgoing_offsets s) vertices (length (vertex_outgoing_hyperedges s)) \<and>
     offsets_ok (vertex_incoming_offsets s) vertices (length (vertex_incoming_hyperedges s)) \<and>
     length (head_participants s) = length (vertex_outgoing_hyperedges s) \<and>
     length (tail_participants s) = length (vertex_incoming_hyperedges s) \<and>
     fits_usize (head_participants s) \<and> (\<forall>w \<in> set (head_participants s). unat w < vertices) \<and>
     fits_usize (tail_participants s) \<and> (\<forall>w \<in> set (tail_participants s). unat w < vertices) \<and>
     fits_usize (vertex_outgoing_hyperedges s) \<and> (\<forall>w \<in> set (vertex_outgoing_hyperedges s). unat w < hyperedges) \<and>
     fits_usize (vertex_incoming_hyperedges s) \<and> (\<forall>w \<in> set (vertex_incoming_hyperedges s). unat w < hyperedges)"

definition bcsr_order_ok :: "('i::len, 'v::len, 'r::len) bcsr_words \<Rightarrow> nat \<Rightarrow> nat \<Rightarrow> bool" where
  "bcsr_order_ok s vertices hyperedges \<longleftrightarrow>
     (\<forall>i < hyperedges. sorted_wrt (<) (bucket_ids (head_offsets s) (head_participants s) i)) \<and>
     (\<forall>i < hyperedges. sorted_wrt (<) (bucket_ids (tail_offsets s) (tail_participants s) i)) \<and>
     (\<forall>i < vertices. sorted_wrt (<) (bucket_ids (vertex_outgoing_offsets s) (vertex_outgoing_hyperedges s) i)) \<and>
     (\<forall>i < vertices. sorted_wrt (<) (bucket_ids (vertex_incoming_offsets s) (vertex_incoming_hyperedges s) i))"

lemma bcsr_layout_ok_split:
  "bcsr_layout_ok s vertices hyperedges \<longleftrightarrow>
     bcsr_shape_ok s vertices hyperedges \<and> bcsr_order_ok s vertices hyperedges \<and>
     length (vertex_outgoing_hyperedges s) + length (vertex_incoming_hyperedges s) \<le> usize_max"
  unfolding bcsr_layout_ok_def bcsr_shape_ok_def bcsr_order_ok_def direction_ok_def by blast

lemma validate_shape_Ok:
  assumes "c = bcsr_counts s vertices hyperedges"
  shows "validate_all_offsets s c = Ok () \<and> validate_total_lengths s = Ok () \<and> validate_value_ranges s c = Ok () \<longleftrightarrow>
    bcsr_shape_ok s vertices hyperedges"
  unfolding assms validate_all_offsets_def validate_total_lengths_def validate_value_ranges_def bcsr_shape_ok_def
  by (auto simp: validate_one_offsets_Ok check_vertex_values_Ok check_hyperedge_values_Ok bcsr_counts_def)

lemma validate_within_range_sorted_decides:
  assumes "bcsr_shape_ok s vertices hyperedges" "bcsr_addressable s"
  shows "decides (validate_within_range_sorted s) (bcsr_order_ok s vertices hyperedges)"
  unfolding validate_within_range_sorted_def bcsr_order_ok_def
  by (intro decides_then check_strictly_ascending_buckets_decides)
    (use assms in \<open>unfold bcsr_shape_ok_def bcsr_addressable_def, blast+\<close>)

lemma bcsr_layout_ok_lengths:
  assumes "bcsr_layout_ok s vertices hyperedges"
  shows "length (head_offsets s) = hyperedges + 1" "length (tail_offsets s) = hyperedges + 1"
    "length (vertex_outgoing_offsets s) = vertices + 1" "length (vertex_incoming_offsets s) = vertices + 1"
    "length (vertex_outgoing_hyperedges s) + length (vertex_incoming_hyperedges s) \<le> usize_max"
  using assms by (auto simp: bcsr_layout_ok_def direction_ok_def offsets_ok_def)

text \<open>The walks after the counts are known.\<close>

definition validate_walks ::
    "('i::len, 'v::len, 'r::len) bcsr_words \<Rightarrow> bcsr_validation \<Rightarrow> derived_counts \<Rightarrow> (bcsr_error, unit) run" where
  "validate_walks s level counts =
     run_then (trying (validate_all_offsets s counts)) (\<lambda>_.
     run_then (trying (validate_total_lengths s)) (\<lambda>_.
     run_then (trying (validate_value_ranges s counts)) (\<lambda>_.
     run_then (validate_within_range_sorted s) (\<lambda>_.
       if level = StrictLevel then validate_cross_direction s else Some (Ok ())))))"

lemma validate_sections_walks:
  "validate_sections s level =
     run_then (trying (derive_counts s)) (\<lambda>c. run_then (validate_walks s level c) (\<lambda>_. Some (Ok c)))"
  unfolding validate_sections_def validate_walks_def run_then_assoc ..

lemma validate_walks_decides:
  assumes "bcsr_addressable s"
    and small: "length (vertex_outgoing_hyperedges s) + length (vertex_incoming_hyperedges s) \<le> usize_max"
  shows "decides (validate_walks s level (bcsr_counts s vertices hyperedges))
    (bcsr_layout_ok s vertices hyperedges \<and> (level = StrictLevel \<longrightarrow> bcsr_cross_ok s vertices hyperedges))"
proof -
  have cross: "decides (if level = StrictLevel then validate_cross_direction s else Some (Ok ()))
      (level = StrictLevel \<longrightarrow> bcsr_cross_ok s vertices hyperedges)" if "bcsr_layout_ok s vertices hyperedges"
    using validate_cross_direction_decides [OF that] by simp
  have "decides (validate_walks s level (bcsr_counts s vertices hyperedges))
      (bcsr_shape_ok s vertices hyperedges \<and> bcsr_order_ok s vertices hyperedges \<and>
       (level = StrictLevel \<longrightarrow> bcsr_cross_ok s vertices hyperedges))"
    unfolding validate_shape_Ok [OF refl, symmetric] conj_assoc validate_walks_def
    by (intro decides_then decides_trying validate_within_range_sorted_decides cross)
      (use assms in \<open>auto simp: bcsr_layout_ok_split validate_shape_Ok [OF refl, symmetric]\<close>)
  then show ?thesis
    by (rule decides_cong) (use small in \<open>auto simp: bcsr_layout_ok_split\<close>)
qed

lemma validate_sections_total: "bcsr_addressable s \<Longrightarrow> validate_sections s level \<noteq> None"
  using validate_walks_decides [of s level] unfolding validate_sections_walks decides_def
  by (auto simp: derive_counts_Ok)

lemma validate_sections_Ok:
  assumes "bcsr_addressable s"
  shows "validate_sections s level = Some (Ok c) \<longleftrightarrow>
    (\<exists>vertices hyperedges. bcsr_layout_ok s vertices hyperedges \<and>
       (level = StrictLevel \<longrightarrow> bcsr_cross_ok s vertices hyperedges) \<and> c = bcsr_counts s vertices hyperedges)"
proof -
  note walks = validate_walks_decides [OF assms, unfolded decides_def, THEN conjunct2]
  have "validate_sections s level = Some (Ok c) \<longleftrightarrow> derive_counts s = Ok c \<and> validate_walks s level c = Some (Ok ())"
    unfolding validate_sections_walks by (cases "derive_counts s") auto
  then show ?thesis
    unfolding derive_counts_Ok using walks [of level] bcsr_layout_ok_lengths [of s] by blast
qed

section \<open>Properties\<close>

text \<open>
  C20: opening a hypergraph view never panics. At the layout level it accepts exactly the sections
  whose eight arrays are well-formed: offsets that cut each value array into one bucket per hyperedge
  or vertex, buckets of strictly ascending ids in range, equal totals on the two sides. At the strict
  level it accepts exactly those in which, besides, a vertex is in a hyperedge's head (tail) if and
  only if the hyperedge is among the vertex's outgoing (incoming) ones. The view keeps the sections
  and their counts.
\<close>

theorem bcsr_open_decides:
  assumes "bcsr_addressable s"
  shows "bcsr_open_with s level \<noteq> None \<and>
    (bcsr_open_with s level = Some (Ok g) \<longleftrightarrow>
       (\<exists>vertices hyperedges. bcsr_layout_ok s vertices hyperedges \<and>
          (level = StrictLevel \<longrightarrow> bcsr_cross_ok s vertices hyperedges) \<and>
          g = \<lparr>bh_counts = bcsr_counts s vertices hyperedges, bh_sections = s\<rparr>))"
proof
  show "bcsr_open_with s level \<noteq> None"
    using validate_sections_total [OF assms] by (auto simp: bcsr_open_with_def)
  have "bcsr_open_with s level = Some (Ok g) \<longleftrightarrow>
      (\<exists>c. validate_sections s level = Some (Ok c) \<and> g = \<lparr>bh_counts = c, bh_sections = s\<rparr>)"
    by (auto simp: bcsr_open_with_def)
  then show "bcsr_open_with s level = Some (Ok g) \<longleftrightarrow>
       (\<exists>vertices hyperedges. bcsr_layout_ok s vertices hyperedges \<and>
          (level = StrictLevel \<longrightarrow> bcsr_cross_ok s vertices hyperedges) \<and>
          g = \<lparr>bh_counts = bcsr_counts s vertices hyperedges, bh_sections = s\<rparr>)"
    unfolding validate_sections_Ok [OF assms] by blast
qed

text \<open>The hyperedges \<open>{0, 1} \<rightarrow> {2}\<close> and \<open>{0} \<rightarrow> {1, 2}\<close> over three vertices.\<close>

definition example_sections :: "(16, 16, 16) bcsr_words" where
  "example_sections =
     \<lparr>head_offsets = [0, 2, 3], head_participants = [0, 1, 0], tail_offsets = [0, 1, 3],
      tail_participants = [2, 1, 2], vertex_outgoing_offsets = [0, 2, 3, 3],
      vertex_outgoing_hyperedges = [0, 1, 0], vertex_incoming_offsets = [0, 0, 1, 3],
      vertex_incoming_hyperedges = [1, 0, 1]\<rparr>"

lemma all_below_small:
  "(\<forall>i < 2. P i) \<longleftrightarrow> P 0 \<and> P (1::nat)" "(\<forall>i < 3. Q i) \<longleftrightarrow> Q 0 \<and> Q 1 \<and> Q (2::nat)"
  by (auto simp: numeral_2_eq_2 numeral_3_eq_3 less_Suc_eq)

lemma example_sections_ok: "bcsr_layout_ok example_sections 3 2" "bcsr_cross_ok example_sections 3 2"
  by (simp_all add: bcsr_layout_ok_def bcsr_cross_ok_def same_incidences_def direction_ok_def offsets_ok_def
      fits_usize_def usize_max_def bucket_ids_def bucket_def subrange_def example_sections_def
      all_below_small)

lemma example_sections_addressable: "bcsr_addressable example_sections"
  by (simp add: bcsr_addressable_def example_sections_def usize_max_def)

theorem bcsr_open_decides_witness:
  "bcsr_open_with example_sections StrictLevel =
     Some (Ok \<lparr>bh_counts = bcsr_counts example_sections 3 2, bh_sections = example_sections\<rparr>)"
  using bcsr_open_decides [OF example_sections_addressable] example_sections_ok by blast

end
