(* ===== verification/BcsrTraverse.thy ===== *)
theory BcsrTraverse
  imports Bcsr
begin

text \<open>
  Traversal of a bipartite-CSR view: the iterators of
  \<open>crates/oxgraph-hyper-bcsr/src/internal/iter.rs\<close> and the topology and hypergraph traits that
  \<open>internal/traits.rs\<close> implements on the view. An iterator is its state and a \<open>next\<close> that returns the
  item, if any, and the new state; \<open>None\<close> outside is a panic. Iterators over a borrowed slice of ids are
  the remaining ids.
\<close>

section \<open>Iterators\<close>

text \<open>Collecting an iterator, with at most \<open>fuel\<close> items.\<close>

fun drain :: "('s \<Rightarrow> ('a option \<times> 's) option) \<Rightarrow> nat \<Rightarrow> 's \<Rightarrow> 'a list option" where
  "drain next_item fuel st =
     (case next_item st of
        None \<Rightarrow> None
      | Some (None, _) \<Rightarrow> Some []
      | Some (Some x, st') \<Rightarrow>
          (case fuel of 0 \<Rightarrow> None | Suc fuel' \<Rightarrow> map_option (Cons x) (drain next_item fuel' st')))"

declare drain.simps [simp del]

text \<open>\<open>Iterator::chain\<close>: the first iterator until it ends, then the second.\<close>

definition chain_next ::
    "('s \<Rightarrow> ('a option \<times> 's) option) \<Rightarrow> ('t \<Rightarrow> ('a option \<times> 't) option) \<Rightarrow>
       's option \<times> 't \<Rightarrow> ('a option \<times> ('s option \<times> 't)) option" where
  "chain_next next_a next_b st =
     (case st of
        (Some a, b) \<Rightarrow>
          Option.bind (next_a a) (\<lambda>(r, a').
            case r of
              Some x \<Rightarrow> Some (Some x, (Some a', b))
            | None \<Rightarrow> Option.bind (next_b b) (\<lambda>(r, b'). Some (r, (None, b'))))
      | (None, b) \<Rightarrow> Option.bind (next_b b) (\<lambda>(r, b'). Some (r, (None, b'))))"

text \<open>\<open>BcsrIdSlice\<close>: the remaining words.\<close>

definition id_slice_next :: "'a list \<Rightarrow> ('a option \<times> 'a list) option" where
  "id_slice_next xs = Some (case xs of [] \<Rightarrow> (None, []) | x # rest \<Rightarrow> (Some x, rest))"

definition id_slice_next_back :: "'a list \<Rightarrow> ('a option \<times> 'a list) option" where
  "id_slice_next_back xs = Some (if xs = [] then (None, []) else (Some (last xs), butlast xs))"

definition id_slice_len :: "'a list \<Rightarrow> nat" where
  "id_slice_len xs = length xs"

record participant_slice =
  ps_cursor :: nat
  ps_end :: nat
  ps_base :: nat

text \<open>The \<open>?\<close> on the checked sum ends the iteration; the width conversion panics.\<close>

definition participant_slice_next :: "participant_slice \<Rightarrow> (('i::len) word option \<times> participant_slice) option" where
  "participant_slice_next p =
     (if ps_cursor p = ps_end p then Some (None, p)
      else case checked_add (ps_base p) (ps_cursor p) of
        None \<Rightarrow> Some (None, p)
      | Some ident \<Rightarrow>
          map_option (\<lambda>index. (Some index, p\<lparr>ps_cursor := ps_cursor p + 1\<rparr>)) (usize_to_index_validated ident))"

definition participant_slice_next_back :: "participant_slice \<Rightarrow> (('i::len) word option \<times> participant_slice) option" where
  "participant_slice_next_back p =
     (if ps_cursor p = ps_end p then Some (None, p)
      else if ps_end p = 0 then None
      else
        let p' = p\<lparr>ps_end := ps_end p - 1\<rparr> in
        case checked_add (ps_base p') (ps_end p') of
          None \<Rightarrow> Some (None, p')
        | Some ident \<Rightarrow> map_option (\<lambda>index. (Some index, p')) (usize_to_index_validated ident))"

definition participant_slice_len :: "participant_slice \<Rightarrow> nat option" where
  "participant_slice_len p = (if ps_cursor p \<le> ps_end p then Some (ps_end p - ps_cursor p) else None)"

text \<open>The two bounds of a bucket as positions, and the bucket.\<close>

definition bucket_range :: "('i::len) word list \<Rightarrow> nat \<Rightarrow> (nat \<times> nat) option" where
  "bucket_range offsets index =
     Option.bind (index_or_panic offsets index) (\<lambda>first.
     Option.bind (index_to_usize_validated first) (\<lambda>start.
     Option.bind (checked_add index 1) (\<lambda>following.
     Option.bind (index_or_panic offsets following) (\<lambda>second.
     Option.bind (index_to_usize_validated second) (\<lambda>stop. Some (start, stop))))))"

definition vertex_bucket :: "('i::len) word list \<Rightarrow> 'a list \<Rightarrow> nat \<Rightarrow> 'a list option" where
  "vertex_bucket offsets values index =
     Option.bind (bucket_range offsets index) (\<lambda>(start, stop). slice_or_panic values start stop)"

text \<open>The position of a vertex among the participants of one hyperedge, if it is there.\<close>

definition locate_in_bucket ::
    "('i::len) word list \<Rightarrow> ('v::len) word list \<Rightarrow> nat \<Rightarrow> nat \<Rightarrow> nat option option" where
  "locate_in_bucket offsets participants hyperedge vertex =
     Option.bind (bucket_range offsets hyperedge) (\<lambda>(bucket_start, bucket_end).
     Option.bind (slice_or_panic participants bucket_start bucket_end) (\<lambda>bucket.
     Option.bind (binary_search_or_panic
       (\<lambda>word. map_option (\<lambda>value. cmp value vertex) (index_to_usize_validated word)) bucket) (\<lambda>found.
       Some (case found of
               Inl _ \<Rightarrow> None
             | Inr local \<Rightarrow> checked_add bucket_start local))))"

record ('i, 'v, 'r) element_incidences =
  ei_vertex :: nat
  ei_p_head :: nat
  ei_outgoing :: "'r list"
  ei_incoming :: "'r list"
  ei_head_offsets :: "'i list"
  ei_head_participants :: "'v list"
  ei_tail_offsets :: "'i list"
  ei_tail_participants :: "'v list"

definition element_incidences_new ::
    "nat \<Rightarrow> nat \<Rightarrow> 'r list \<Rightarrow> 'r list \<Rightarrow> ('i, 'v, 'r) bcsr_sections \<Rightarrow> ('i, 'v, 'r) element_incidences" where
  "element_incidences_new vertex p_head outgoing_slice incoming_slice s =
     \<lparr>ei_vertex = vertex, ei_p_head = p_head, ei_outgoing = outgoing_slice, ei_incoming = incoming_slice,
      ei_head_offsets = head_offsets s, ei_head_participants = head_participants s,
      ei_tail_offsets = tail_offsets s, ei_tail_participants = tail_participants s\<rparr>"

text \<open>The loops of the two pulls return the item and the words they left in the slice iterator.\<close>

fun pull_outgoing ::
    "('i::len) word list \<Rightarrow> ('v::len) word list \<Rightarrow> nat \<Rightarrow> ('r::len) word list \<Rightarrow>
       ('i word option \<times> 'r word list) option" where
  "pull_outgoing offsets participants vertex [] = Some (None, [])"
| "pull_outgoing offsets participants vertex (word # words) =
     Option.bind (index_to_usize_validated word) (\<lambda>hyperedge.
     Option.bind (locate_in_bucket offsets participants hyperedge vertex) (\<lambda>found.
       case found of
         Some position \<Rightarrow> map_option (\<lambda>index. (Some index, words)) (usize_to_index_validated position)
       | None \<Rightarrow> pull_outgoing offsets participants vertex words))"

fun pull_incoming ::
    "('i::len) word list \<Rightarrow> ('v::len) word list \<Rightarrow> nat \<Rightarrow> nat \<Rightarrow> ('r::len) word list \<Rightarrow>
       ('i word option \<times> 'r word list) option" where
  "pull_incoming offsets participants p_head vertex [] = Some (None, [])"
| "pull_incoming offsets participants p_head vertex (word # words) =
     Option.bind (index_to_usize_validated word) (\<lambda>hyperedge.
     Option.bind (locate_in_bucket offsets participants hyperedge vertex) (\<lambda>found.
       case found of
         Some position \<Rightarrow>
           (case checked_add p_head position of
              None \<Rightarrow> Some (None, words)
            | Some ident \<Rightarrow> map_option (\<lambda>index. (Some index, words)) (usize_to_index_validated ident))
       | None \<Rightarrow> pull_incoming offsets participants p_head vertex words))"

definition element_incidences_next ::
    "(('i::len) word, ('v::len) word, ('r::len) word) element_incidences \<Rightarrow>
       ('i word option \<times> ('i word, 'v word, 'r word) element_incidences) option" where
  "element_incidences_next it =
     Option.bind (pull_outgoing (ei_head_offsets it) (ei_head_participants it) (ei_vertex it) (ei_outgoing it))
       (\<lambda>(r, outgoing).
         case r of
           Some ident \<Rightarrow> Some (Some ident, it\<lparr>ei_outgoing := outgoing\<rparr>)
         | None \<Rightarrow>
             Option.bind (pull_incoming (ei_tail_offsets it) (ei_tail_participants it) (ei_p_head it) (ei_vertex it)
               (ei_incoming it)) (\<lambda>(r, incoming).
               Some (r, it\<lparr>ei_outgoing := outgoing, ei_incoming := incoming\<rparr>)))"

record ('i, 'v, 'r) neighbor_vertices =
  nv_relations :: "'r list"
  nv_current_bucket :: "'v list"
  nv_bucket_offsets :: "'i list"
  nv_bucket_participants :: "'v list"

definition neighbor_vertices_new :: "'r list \<Rightarrow> 'i list \<Rightarrow> 'v list \<Rightarrow> ('i, 'v, 'r) neighbor_vertices" where
  "neighbor_vertices_new relations bucket_offsets bucket_participants =
     \<lparr>nv_relations = relations, nv_current_bucket = [], nv_bucket_offsets = bucket_offsets,
      nv_bucket_participants = bucket_participants\<rparr>"

definition advance_outer ::
    "(('i::len) word, ('v::len) word, ('r::len) word) neighbor_vertices \<Rightarrow>
       (bool \<times> ('i word, 'v word, 'r word) neighbor_vertices) option" where
  "advance_outer it =
     (case nv_relations it of
        [] \<Rightarrow> Some (False, it)
      | word # words \<Rightarrow>
          Option.bind (index_to_usize_validated word) (\<lambda>hyperedge.
          Option.bind (bucket_range (nv_bucket_offsets it) hyperedge) (\<lambda>(start, stop).
          Option.bind (slice_or_panic (nv_bucket_participants it) start stop) (\<lambda>bucket.
            Some (True, it\<lparr>nv_relations := words, nv_current_bucket := bucket\<rparr>)))))"

lemma advance_outer_True:
  "advance_outer it = Some (True, it') \<Longrightarrow> length (nv_relations it') < length (nv_relations it)"
  by (auto simp: advance_outer_def split: list.splits bind_splits)

text \<open>The loop of \<open>next\<close> runs at most once per remaining relation.\<close>

function neighbor_vertices_next ::
    "(('i::len) word, ('v::len) word, ('r::len) word) neighbor_vertices \<Rightarrow>
       ('v word option \<times> ('i word, 'v word, 'r word) neighbor_vertices) option" where
  "neighbor_vertices_next it =
     (case nv_current_bucket it of
        word # words \<Rightarrow> Some (Some word, it\<lparr>nv_current_bucket := words\<rparr>)
      | [] \<Rightarrow>
          (case advance_outer it of
             None \<Rightarrow> None
           | Some (advanced, it') \<Rightarrow> if advanced then neighbor_vertices_next it' else Some (None, it')))"
  by pat_completeness auto

termination
  by (relation "measure (\<lambda>it. length (nv_relations it))") (auto dest: advance_outer_True)

declare neighbor_vertices_next.simps [simp del]

section \<open>The traits of the view\<close>

definition bcsr_contains_element :: "('i, ('v::len) word, 'r) bcsr_hypergraph \<Rightarrow> 'v word \<Rightarrow> bool option" where
  "bcsr_contains_element g element =
     map_option (\<lambda>slot. slot < dc_vertex_count (bh_counts g)) (index_to_usize_validated element)"

definition bcsr_contains_relation :: "('i, 'v, ('r::len) word) bcsr_hypergraph \<Rightarrow> 'r word \<Rightarrow> bool option" where
  "bcsr_contains_relation g relation =
     map_option (\<lambda>slot. slot < dc_hyperedge_count (bh_counts g)) (index_to_usize_validated relation)"

definition bcsr_contains_incidence :: "(('i::len) word, 'v, 'r) bcsr_hypergraph \<Rightarrow> 'i word \<Rightarrow> bool option" where
  "bcsr_contains_incidence g incidence =
     map_option (\<lambda>slot. slot < dc_total_incidences (bh_counts g)) (index_to_usize_validated incidence)"

definition bcsr_incidence_count :: "('i, 'v, 'r) bcsr_hypergraph \<Rightarrow> nat" where
  "bcsr_incidence_count g = dc_total_incidences (bh_counts g)"

definition bcsr_source_participants ::
    "('i::len, 'v::len, 'r::len) bcsr_view \<Rightarrow> 'r word \<Rightarrow> 'v word list option" where
  "bcsr_source_participants g hyperedge =
     Option.bind (index_to_usize_validated hyperedge) (\<lambda>h_index.
       vertex_bucket (head_offsets (bh_sections g)) (head_participants (bh_sections g)) h_index)"

definition bcsr_target_participants ::
    "('i::len, 'v::len, 'r::len) bcsr_view \<Rightarrow> 'r word \<Rightarrow> 'v word list option" where
  "bcsr_target_participants g hyperedge =
     Option.bind (index_to_usize_validated hyperedge) (\<lambda>h_index.
       vertex_bucket (tail_offsets (bh_sections g)) (tail_participants (bh_sections g)) h_index)"

definition bcsr_hyperedge_participants ::
    "('i::len, 'v::len, 'r::len) bcsr_view \<Rightarrow> 'r word \<Rightarrow> ('v word list option \<times> 'v word list) option" where
  "bcsr_hyperedge_participants g hyperedge =
     Option.bind (index_to_usize_validated hyperedge) (\<lambda>h_index.
     Option.bind (vertex_bucket (head_offsets (bh_sections g)) (head_participants (bh_sections g)) h_index) (\<lambda>head.
     Option.bind (vertex_bucket (tail_offsets (bh_sections g)) (tail_participants (bh_sections g)) h_index) (\<lambda>tail.
       Some (Some head, tail))))"

definition bcsr_outgoing_hyperedges ::
    "('i::len, 'v::len, 'r::len) bcsr_view \<Rightarrow> 'v word \<Rightarrow> 'r word list option" where
  "bcsr_outgoing_hyperedges g vertex =
     Option.bind (index_to_usize_validated vertex) (\<lambda>v_index.
       vertex_bucket (vertex_outgoing_offsets (bh_sections g)) (vertex_outgoing_hyperedges (bh_sections g)) v_index)"

definition bcsr_incoming_hyperedges ::
    "('i::len, 'v::len, 'r::len) bcsr_view \<Rightarrow> 'v word \<Rightarrow> 'r word list option" where
  "bcsr_incoming_hyperedges g vertex =
     Option.bind (index_to_usize_validated vertex) (\<lambda>v_index.
       vertex_bucket (vertex_incoming_offsets (bh_sections g)) (vertex_incoming_hyperedges (bh_sections g)) v_index)"

definition bcsr_incident_hyperedges ::
    "('i::len, 'v::len, 'r::len) bcsr_view \<Rightarrow> 'v word \<Rightarrow> ('r word list option \<times> 'r word list) option" where
  "bcsr_incident_hyperedges g vertex =
     Option.bind (index_to_usize_validated vertex) (\<lambda>v_index.
     Option.bind (vertex_bucket (vertex_outgoing_offsets (bh_sections g))
       (vertex_outgoing_hyperedges (bh_sections g)) v_index) (\<lambda>outgoing.
     Option.bind (vertex_bucket (vertex_incoming_offsets (bh_sections g))
       (vertex_incoming_hyperedges (bh_sections g)) v_index) (\<lambda>incoming.
       Some (Some outgoing, incoming))))"

definition bcsr_element_successors ::
    "('i::len, 'v::len, 'r::len) bcsr_view \<Rightarrow> 'v word \<Rightarrow> ('i word, 'v word, 'r word) neighbor_vertices option" where
  "bcsr_element_successors g vertex =
     Option.bind (index_to_usize_validated vertex) (\<lambda>v_index.
     Option.bind (vertex_bucket (vertex_outgoing_offsets (bh_sections g))
       (vertex_outgoing_hyperedges (bh_sections g)) v_index) (\<lambda>outgoing.
       Some (neighbor_vertices_new outgoing (tail_offsets (bh_sections g)) (tail_participants (bh_sections g)))))"

definition bcsr_element_predecessors ::
    "('i::len, 'v::len, 'r::len) bcsr_view \<Rightarrow> 'v word \<Rightarrow> ('i word, 'v word, 'r word) neighbor_vertices option" where
  "bcsr_element_predecessors g vertex =
     Option.bind (index_to_usize_validated vertex) (\<lambda>v_index.
     Option.bind (vertex_bucket (vertex_incoming_offsets (bh_sections g))
       (vertex_incoming_hyperedges (bh_sections g)) v_index) (\<lambda>incoming.
       Some (neighbor_vertices_new incoming (head_offsets (bh_sections g)) (head_participants (bh_sections g)))))"

definition bcsr_element_incidences ::
    "('i::len, 'v::len, 'r::len) bcsr_view \<Rightarrow> 'v word \<Rightarrow> ('i word, 'v word, 'r word) element_incidences option" where
  "bcsr_element_incidences g element =
     Option.bind (index_to_usize_validated element) (\<lambda>v_index.
     Option.bind (vertex_bucket (vertex_outgoing_offsets (bh_sections g))
       (vertex_outgoing_hyperedges (bh_sections g)) v_index) (\<lambda>outgoing.
     Option.bind (vertex_bucket (vertex_incoming_offsets (bh_sections g))
       (vertex_incoming_hyperedges (bh_sections g)) v_index) (\<lambda>incoming.
       Some (element_incidences_new v_index (dc_p_outgoing (bh_counts g)) outgoing incoming (bh_sections g)))))"

definition bcsr_incidence_element ::
    "('i::len, 'v::len, 'r::len) bcsr_view \<Rightarrow> 'i word \<Rightarrow> 'v word option" where
  "bcsr_incidence_element g incidence =
     Option.bind (index_to_usize_validated incidence) (\<lambda>incidence_index.
       if incidence_index < dc_p_outgoing (bh_counts g)
       then index_or_panic (head_participants (bh_sections g)) incidence_index
       else index_or_panic (tail_participants (bh_sections g)) (incidence_index - dc_p_outgoing (bh_counts g)))"

text \<open>The bisection of \<open>locate_owning_bucket\<close>.\<close>

function owning_loop :: "('i::len) word list \<Rightarrow> nat \<Rightarrow> nat \<Rightarrow> nat \<Rightarrow> nat option" where
  "owning_loop offsets target low high =
     (if low + 1 < high then
        let mid = low + (high - low) div 2 in
        case Option.bind (index_or_panic offsets mid) index_to_usize_validated of
          None \<Rightarrow> None
        | Some offset \<Rightarrow>
            if offset \<le> target then owning_loop offsets target mid high
            else owning_loop offsets target low mid
      else Some low)"
  by pat_completeness auto

termination
  by (relation "measure (\<lambda>(offsets, target, low, high). high - low)") auto

declare owning_loop.simps [simp del]

definition locate_owning_bucket :: "('i::len) word list \<Rightarrow> nat \<Rightarrow> ('r::len) word option" where
  "locate_owning_bucket offsets target =
     (if offsets = [] then None
      else Option.bind (owning_loop offsets target 0 (length offsets - 1)) usize_to_index_validated)"

definition bcsr_incidence_relation ::
    "('i::len, 'v::len, 'r::len) bcsr_view \<Rightarrow> 'i word \<Rightarrow> 'r word option" where
  "bcsr_incidence_relation g incidence =
     Option.bind (index_to_usize_validated incidence) (\<lambda>incidence_index.
       if incidence_index < dc_p_outgoing (bh_counts g)
       then locate_owning_bucket (head_offsets (bh_sections g)) incidence_index
       else locate_owning_bucket (tail_offsets (bh_sections g)) (incidence_index - dc_p_outgoing (bh_counts g)))"

datatype bcsr_role = Head | Tail

definition bcsr_incidence_role :: "(('i::len) word, 'v, 'r) bcsr_hypergraph \<Rightarrow> 'i word \<Rightarrow> bcsr_role option" where
  "bcsr_incidence_role g incidence =
     map_option (\<lambda>index. if index < dc_p_outgoing (bh_counts g) then Head else Tail)
       (index_to_usize_validated incidence)"

definition bcsr_source_incidences ::
    "('i::len, 'v::len, 'r::len) bcsr_view \<Rightarrow> 'r word \<Rightarrow> participant_slice option" where
  "bcsr_source_incidences g hyperedge =
     Option.bind (index_to_usize_validated hyperedge) (\<lambda>h_index.
     Option.bind (bucket_range (head_offsets (bh_sections g)) h_index) (\<lambda>(head_start, head_end).
       Some \<lparr>ps_cursor = head_start, ps_end = head_end, ps_base = 0\<rparr>))"

definition bcsr_target_incidences ::
    "('i::len, 'v::len, 'r::len) bcsr_view \<Rightarrow> 'r word \<Rightarrow> participant_slice option" where
  "bcsr_target_incidences g hyperedge =
     Option.bind (index_to_usize_validated hyperedge) (\<lambda>h_index.
     Option.bind (bucket_range (tail_offsets (bh_sections g)) h_index) (\<lambda>(tail_start, tail_end).
       Some \<lparr>ps_cursor = tail_start, ps_end = tail_end, ps_base = dc_p_outgoing (bh_counts g)\<rparr>))"

definition bcsr_relation_incidences ::
    "('i::len, 'v::len, 'r::len) bcsr_view \<Rightarrow> 'r word \<Rightarrow> (participant_slice option \<times> participant_slice) option" where
  "bcsr_relation_incidences g relation =
     Option.bind (index_to_usize_validated relation) (\<lambda>h_index.
     Option.bind (bucket_range (head_offsets (bh_sections g)) h_index) (\<lambda>(head_start, head_end).
     Option.bind (bucket_range (tail_offsets (bh_sections g)) h_index) (\<lambda>(tail_start, tail_end).
       Some (Some \<lparr>ps_cursor = head_start, ps_end = head_end, ps_base = 0\<rparr>,
             \<lparr>ps_cursor = tail_start, ps_end = tail_end, ps_base = dc_p_outgoing (bh_counts g)\<rparr>))))"

text \<open>The sizes of two buckets of one index, added; a subtraction below zero panics.\<close>

definition bucket_sizes :: "('i::len) word list \<Rightarrow> 'i word list \<Rightarrow> nat \<Rightarrow> nat option" where
  "bucket_sizes first_offsets second_offsets index =
     Option.bind (bucket_range first_offsets index) (\<lambda>(start, stop).
     Option.bind (if start \<le> stop then Some (stop - start) else None) (\<lambda>first_size.
     Option.bind (bucket_range second_offsets index) (\<lambda>(start, stop).
     Option.bind (if start \<le> stop then Some (stop - start) else None) (\<lambda>second_size.
       checked_add first_size second_size))))"

definition bcsr_relation_incidence_count :: "('i::len, 'v::len, 'r::len) bcsr_view \<Rightarrow> 'r word \<Rightarrow> nat option" where
  "bcsr_relation_incidence_count g relation =
     Option.bind (index_to_usize_validated relation) (\<lambda>h_index.
       bucket_sizes (head_offsets (bh_sections g)) (tail_offsets (bh_sections g)) h_index)"

definition bcsr_element_incidence_count :: "('i::len, 'v::len, 'r::len) bcsr_view \<Rightarrow> 'v word \<Rightarrow> nat option" where
  "bcsr_element_incidence_count g element =
     Option.bind (index_to_usize_validated element) (\<lambda>v_index.
       bucket_sizes (vertex_outgoing_offsets (bh_sections g)) (vertex_incoming_offsets (bh_sections g)) v_index)"

definition bcsr_element_index :: "('i, ('v::len) word, 'r) bcsr_hypergraph \<Rightarrow> 'v word \<Rightarrow> nat option" where
  "bcsr_element_index g element = index_to_usize_validated element"

definition bcsr_relation_index :: "('i, 'v, ('r::len) word) bcsr_hypergraph \<Rightarrow> 'r word \<Rightarrow> nat option" where
  "bcsr_relation_index g relation = index_to_usize_validated relation"

definition bcsr_incidence_index :: "(('i::len) word, 'v, 'r) bcsr_hypergraph \<Rightarrow> 'i word \<Rightarrow> nat option" where
  "bcsr_incidence_index g incidence = index_to_usize_validated incidence"

section \<open>What an iterator yields\<close>

fun yields :: "('s \<Rightarrow> ('a option \<times> 's) option) \<Rightarrow> 's \<Rightarrow> 'a list \<Rightarrow> bool" where
  "yields next_item st [] \<longleftrightarrow> (\<exists>st'. next_item st = Some (None, st'))"
| "yields next_item st (x # xs) \<longleftrightarrow> (\<exists>st'. next_item st = Some (Some x, st') \<and> yields next_item st' xs)"

lemma drain_yields: "yields next_item st xs \<Longrightarrow> length xs \<le> fuel \<Longrightarrow> drain next_item fuel st = Some xs"
proof (induction xs arbitrary: st fuel)
  case Nil
  then show ?case by (auto simp: drain.simps [of next_item fuel])
next
  case (Cons x xs)
  then obtain fuel' where "fuel = Suc fuel'" by (cases fuel) auto
  with Cons show ?case by (auto simp: drain.simps [of next_item "Suc fuel'"])
qed

lemma id_slice_yields: "yields id_slice_next xs xs"
  by (induction xs) (auto simp: id_slice_next_def)

lemma chain_next_simps:
  "next_a a = Some (Some x, a') \<Longrightarrow> chain_next next_a next_b (Some a, b) = Some (Some x, (Some a', b))"
  "next_a a = Some (None, a') \<Longrightarrow> next_b b = Some (r, b') \<Longrightarrow>
     chain_next next_a next_b (Some a, b) = Some (r, (None, b'))"
  "next_b b = Some (r, b') \<Longrightarrow> chain_next next_a next_b (None, b) = Some (r, (None, b'))"
  by (simp_all add: chain_next_def)

lemma chain_yields_second: "yields next_b b ys \<Longrightarrow> yields (chain_next next_a next_b) (None, b) ys"
  by (induction ys arbitrary: b) (fastforce simp: chain_next_simps)+

lemma chain_yields:
  assumes "yields next_a a xs" "yields next_b b ys"
  shows "yields (chain_next next_a next_b) (Some a, b) (xs @ ys)"
  using assms(1)
proof (induction xs arbitrary: a)
  case Nil
  then obtain a' where a': "next_a a = Some (None, a')" by auto
  show ?case
  proof (cases ys)
    case Nil
    with a' assms(2) show ?thesis by (auto simp: chain_next_simps)
  next
    case (Cons y ys')
    with assms(2) obtain b' where "next_b b = Some (Some y, b')" "yields next_b b' ys'" by auto
    with a' Cons chain_yields_second [of next_b b' ys' next_a] show ?thesis by (simp add: chain_next_simps)
  qed
next
  case (Cons x xs)
  then obtain a' where "next_a a = Some (Some x, a')" and "yields next_a a' xs" by auto
  with Cons.IH [of a'] show ?case by (simp add: chain_next_simps)
qed

lemma participant_slice_yields:
  assumes "base + stop \<le> 2 ^ LENGTH('i)" "base + stop \<le> usize_max" "start \<le> stop"
  shows "yields participant_slice_next \<lparr>ps_cursor = start, ps_end = stop, ps_base = base\<rparr>
    (map word_of_nat [base + start..<base + stop] :: ('i::len) word list)"
  using assms(3)
proof (induction "stop - start" arbitrary: start)
  case 0
  then show ?case by (simp add: participant_slice_next_def)
next
  case (Suc n)
  then have less: "start < stop" by simp
  have "yields participant_slice_next \<lparr>ps_cursor = Suc start, ps_end = stop, ps_base = base\<rparr>
      (map word_of_nat [base + Suc start..<base + stop] :: 'i word list)"
    using Suc.hyps(2) less by (intro Suc.hyps(1)) auto
  with less assms show ?case
    by (simp add: participant_slice_next_def checked_add_def usize_to_index_validated_def from_usize_def
        upt_conv_Cons)
qed

section \<open>Buckets of a well-formed direction\<close>

lemma bucket_range_ok:
  assumes "direction_ok offsets count values bound" "i < count"
  shows "bucket_range offsets i = Some (unat (offsets ! i), unat (offsets ! (i + 1)))"
  using direction_ok_bounds [OF assms] assms(2)
  by (simp add: bucket_range_def index_to_usize_validated_def checked_add_def)

lemma vertex_bucket_ok:
  assumes "direction_ok offsets count values bound" "i < count"
  shows "vertex_bucket offsets values i = Some (bucket offsets values i)"
  using direction_ok_bounds [OF assms]
  by (simp add: vertex_bucket_def bucket_range_ok [OF assms] bucket_def subrange_def)

lemma length_bucket:
  assumes "direction_ok offsets count values bound" "i < count"
  shows "length (bucket offsets values i) = unat (offsets ! (i + 1)) - unat (offsets ! i)"
  using direction_ok_bounds [OF assms] by (simp add: bucket_def)

lemma nth_bucket:
  assumes "direction_ok offsets count values bound" "i < count" "j < length (bucket offsets values i)"
  shows "bucket offsets values i ! j = values ! (unat (offsets ! i) + j)"
  using direction_ok_bounds [OF assms(1,2)] assms(3) length_bucket [OF assms(1,2)]
  by (simp add: bucket_def nth_subrange)

lemma bucket_sizes_ok:
  assumes "direction_ok first_offsets count first_values bound" "i < count"
    and "direction_ok second_offsets count second_values bound'"
    and "length first_values + length second_values \<le> usize_max"
  shows "bucket_sizes first_offsets second_offsets i =
    Some (length (bucket first_offsets first_values i) + length (bucket second_offsets second_values i))"
  using direction_ok_bounds [OF assms(1,2)] direction_ok_bounds [OF assms(3,2)] assms(4)
  by (simp add: bucket_sizes_def bucket_range_ok [OF assms(1,2)] bucket_range_ok [OF assms(3,2)]
      length_bucket [OF assms(1,2)] length_bucket [OF assms(3,2)] checked_add_def)

text \<open>The position that the search finds.\<close>

definition sits_at :: "('i::len) word list \<Rightarrow> ('v::len) word list \<Rightarrow> nat \<Rightarrow> nat \<Rightarrow> nat \<Rightarrow> bool" where
  "sits_at offsets values h v p \<longleftrightarrow>
     unat (offsets ! h) \<le> p \<and> p < unat (offsets ! (h + 1)) \<and> p < length values \<and> unat (values ! p) = v"

lemma locate_in_bucket_hit:
  assumes d: "direction_ok offsets count values bound" "h < count" and v: "v \<in> set (bucket_ids offsets values h)"
  obtains p where "locate_in_bucket offsets values h v = Some (Some p)" "sits_at offsets values h v p"
proof -
  let ?b = "bucket offsets values h" and ?start = "unat (offsets ! h)"
  have fits: "to_usize w = Some (unat w)" if "w \<in> set ?b" for w
    using that set_bucket d(1) by (fastforce simp: direction_ok_def fits_usize_def to_usize_def)
  have asc: "sorted_wrt (<) (map unat ?b)" using d by (simp add: direction_ok_def bucket_ids_def)
  have search: "binary_search_or_panic (\<lambda>word. map_option (\<lambda>value. cmp value v) (index_to_usize_validated word)) ?b =
      Some (binary_search_by (\<lambda>word. cmp (unat word) v) ?b)"
    by (rule binary_search_or_panic_total) (simp add: fits index_to_usize_validated_def)
  from v obtain j where j: "j < length ?b" "unat (?b ! j) = v"
    by (auto simp: bucket_ids_def in_set_conv_nth)
  then have found: "binary_search_by (\<lambda>word. cmp (unat word) v) ?b = Ok j"
    using binary_search_by_Ok_iff [OF asc] by blast
  note bounds = direction_ok_bounds [OF d] and len = length_bucket [OF d]
  have max: "length values \<le> usize_max"
    using d(1) by (auto simp: direction_ok_def dest: offsets_ok_value_fits)
  have "slice_or_panic values ?start (unat (offsets ! (h + 1))) = Some ?b"
    using bounds by (simp add: bucket_def subrange_def)
  then have "locate_in_bucket offsets values h v = Some (Some (?start + j))"
    using search found j bounds len max by (simp add: locate_in_bucket_def bucket_range_ok [OF d] checked_add_def)
  moreover have "sits_at offsets values h v (?start + j)"
    using j bounds(1,2) len nth_bucket [OF d j(1)] unfolding sits_at_def by (intro conjI) (linarith | simp)+
  ultimately show thesis by (rule that)
qed

section \<open>The owner of a position\<close>

lemma owning_loop_spec:
  assumes "direction_ok offsets count values bound"
  shows "low < high \<Longrightarrow> high \<le> count \<Longrightarrow> unat (offsets ! low) \<le> target \<Longrightarrow> target < unat (offsets ! high) \<Longrightarrow>
    \<exists>h < count. owning_loop offsets target low high = Some h \<and>
      unat (offsets ! h) \<le> target \<and> target < unat (offsets ! (h + 1))"
proof (induction "high - low" arbitrary: low high rule: less_induct)
  case less
  show ?case
  proof (cases "low + 1 < high")
    case False
    with less.prems have "high = low + 1" by simp
    with less.prems show ?thesis by (auto simp: owning_loop.simps)
  next
    case True
    let ?mid = "low + (high - low) div 2"
    have mid: "low < ?mid" "?mid < high" using True by auto
    have "?mid < length offsets"
      using mid less.prems(2) assms by (simp add: direction_ok_def offsets_ok_def)
    then have read: "Option.bind (index_or_panic offsets ?mid) index_to_usize_validated = Some (unat (offsets ! ?mid))"
      using assms by (simp add: index_to_usize_validated_def direction_ok_def offsets_ok_def fits_usize_nth)
    have step: "owning_loop offsets target low high =
        (if unat (offsets ! ?mid) \<le> target then owning_loop offsets target ?mid high
         else owning_loop offsets target low ?mid)"
      using True read by (simp add: owning_loop.simps [of offsets target low high] Let_def)
    show ?thesis
    proof (cases "unat (offsets ! ?mid) \<le> target")
      case above: True
      have "\<exists>h < count. owning_loop offsets target ?mid high = Some h \<and>
          unat (offsets ! h) \<le> target \<and> target < unat (offsets ! (h + 1))"
        by (rule less.hyps) (use mid less.prems above in linarith)+
      with above show ?thesis unfolding step by simp
    next
      case below: False
      have "\<exists>h < count. owning_loop offsets target low ?mid = Some h \<and>
          unat (offsets ! h) \<le> target \<and> target < unat (offsets ! (h + 1))"
        by (rule less.hyps) (use mid less.prems below in linarith)+
      with below show ?thesis unfolding step by simp
    qed
  qed
qed

lemma owner_unique:
  assumes "direction_ok offsets count values bound" "h < count" "k < count"
    and "unat (offsets ! h) \<le> p" "p < unat (offsets ! (h + 1))"
    and "unat (offsets ! k) \<le> p" "p < unat (offsets ! (k + 1))"
  shows "h = k"
proof -
  have ok: "offsets_ok offsets count (length values)" using assms(1) by (simp add: direction_ok_def)
  have "\<not> h < k" using offsets_ok_mono [OF ok, of "h + 1" k] assms by auto
  moreover have "\<not> k < h" using offsets_ok_mono [OF ok, of "k + 1" h] assms by auto
  ultimately show ?thesis by simp
qed

lemma locate_owning_bucket_ok:
  assumes d: "direction_ok offsets count values bound" and h: "unat (hyperedge :: ('r::len) word) < count"
    and at: "unat (offsets ! unat hyperedge) \<le> p" "p < unat (offsets ! (unat hyperedge + 1))"
  shows "locate_owning_bucket offsets p = Some hyperedge"
proof -
  have ok: "offsets_ok offsets count (length values)" using d by (simp add: direction_ok_def)
  have "p < unat (offsets ! count)"
    using at(2) offsets_ok_mono [OF ok, of "unat hyperedge + 1" count] h by auto
  then obtain k where k: "k < count" "owning_loop offsets p 0 count = Some k"
    "unat (offsets ! k) \<le> p" "p < unat (offsets ! (k + 1))"
    using owning_loop_spec [OF d, of 0 count p] ok h by (auto simp: offsets_ok_def)
  with owner_unique [OF d h k(1) at] have "k = unat hyperedge" by simp
  with k(2) ok show ?thesis
    by (auto simp: locate_owning_bucket_def offsets_ok_def usize_to_index_validated_def from_usize_Some_iff unat_bound)
qed

section \<open>Views that passed validation\<close>

definition view_ok :: "('i::len, 'v::len, 'r::len) bcsr_view \<Rightarrow> nat \<Rightarrow> nat \<Rightarrow> bool" where
  "view_ok g vertices hyperedges \<longleftrightarrow>
     bcsr_layout_ok (bh_sections g) vertices hyperedges \<and> bh_counts g = bcsr_counts (bh_sections g) vertices hyperedges"

lemma bcsr_open_with_OkD:
  assumes "bcsr_open_with s level = Some (Ok g)" "bcsr_addressable s"
  obtains vertices hyperedges where "view_ok g vertices hyperedges" "bh_sections g = s"
    "level = StrictLevel \<longrightarrow> bcsr_cross_ok s vertices hyperedges"
proof -
  from assms(1) obtain c where "validate_sections s level = Some (Ok c)" and g: "g = \<lparr>bh_counts = c, bh_sections = s\<rparr>"
    by (auto simp: bcsr_open_with_def)
  then obtain vertices hyperedges where "bcsr_layout_ok s vertices hyperedges" "c = bcsr_counts s vertices hyperedges"
    "level = StrictLevel \<longrightarrow> bcsr_cross_ok s vertices hyperedges"
    unfolding validate_sections_Ok [OF assms(2)] by blast
  with g show thesis by (intro that [of vertices hyperedges]) (simp_all add: view_ok_def)
qed

lemma view_ok_directions:
  assumes "view_ok g vertices hyperedges"
  shows "direction_ok (head_offsets (bh_sections g)) hyperedges (head_participants (bh_sections g)) vertices"
    "direction_ok (tail_offsets (bh_sections g)) hyperedges (tail_participants (bh_sections g)) vertices"
    "direction_ok (vertex_outgoing_offsets (bh_sections g)) vertices (vertex_outgoing_hyperedges (bh_sections g)) hyperedges"
    "direction_ok (vertex_incoming_offsets (bh_sections g)) vertices (vertex_incoming_hyperedges (bh_sections g)) hyperedges"
  using assms by (simp_all add: view_ok_def bcsr_layout_ok_def)

lemma view_ok_counts:
  assumes "view_ok g vertices hyperedges"
  shows "dc_vertex_count (bh_counts g) = vertices" "dc_hyperedge_count (bh_counts g) = hyperedges"
    "dc_p_outgoing (bh_counts g) = length (head_participants (bh_sections g))"
    "dc_p_incoming (bh_counts g) = length (tail_participants (bh_sections g))"
    "dc_total_incidences (bh_counts g) =
       length (head_participants (bh_sections g)) + length (tail_participants (bh_sections g))"
    "length (head_participants (bh_sections g)) + length (tail_participants (bh_sections g)) \<le> usize_max"
    "length (vertex_outgoing_hyperedges (bh_sections g)) + length (vertex_incoming_hyperedges (bh_sections g)) \<le> usize_max"
    "vertices < usize_max" "hyperedges < usize_max"
  using assms by (simp_all add: view_ok_def bcsr_layout_ok_def bcsr_counts_def direction_ok_def offsets_ok_def)

lemma word_below: "unat w < n \<Longrightarrow> n \<le> usize_max \<Longrightarrow> index_to_usize_validated w = Some (unat w)"
  by (simp add: index_to_usize_validated_def to_usize_def)

text \<open>An incidence handle resolves to its participant, its hyperedge and its role.\<close>

lemma head_incidence:
  assumes "view_ok g vertices hyperedges" "unat h < hyperedges"
    and "sits_at (head_offsets (bh_sections g)) (head_participants (bh_sections g)) (unat h) v p" "unat ident = p"
  shows "bcsr_incidence_element g ident = Some (head_participants (bh_sections g) ! p)"
    "bcsr_incidence_relation g ident = Some h" "bcsr_incidence_role g ident = Some Head"
proof -
  note counts = view_ok_counts [OF assms(1)]
  from assms(3) have p: "p < length (head_participants (bh_sections g))" by (simp add: sits_at_def)
  with assms(4) counts(6) have to: "index_to_usize_validated ident = Some p"
    by (simp add: index_to_usize_validated_def to_usize_def)
  with p show "bcsr_incidence_element g ident = Some (head_participants (bh_sections g) ! p)"
    "bcsr_incidence_role g ident = Some Head"
    by (simp_all add: bcsr_incidence_element_def bcsr_incidence_role_def counts)
  have "locate_owning_bucket (head_offsets (bh_sections g)) p = Some h"
    by (rule locate_owning_bucket_ok [OF view_ok_directions(1) [OF assms(1)] assms(2)])
      (use assms(3) in \<open>simp_all add: sits_at_def\<close>)
  with to p show "bcsr_incidence_relation g ident = Some h"
    by (simp add: bcsr_incidence_relation_def counts)
qed

lemma tail_incidence:
  assumes "view_ok g vertices hyperedges" "unat h < hyperedges"
    and "sits_at (tail_offsets (bh_sections g)) (tail_participants (bh_sections g)) (unat h) v p"
    and "unat ident = length (head_participants (bh_sections g)) + p"
  shows "bcsr_incidence_element g ident = Some (tail_participants (bh_sections g) ! p)"
    "bcsr_incidence_relation g ident = Some h" "bcsr_incidence_role g ident = Some Tail"
proof -
  note counts = view_ok_counts [OF assms(1)]
  from assms(3) have p: "p < length (tail_participants (bh_sections g))" by (simp add: sits_at_def)
  with assms(4) counts(6)
  have to: "index_to_usize_validated ident = Some (length (head_participants (bh_sections g)) + p)"
    by (simp add: index_to_usize_validated_def to_usize_def)
  with p show "bcsr_incidence_element g ident = Some (tail_participants (bh_sections g) ! p)"
    "bcsr_incidence_role g ident = Some Tail"
    by (simp_all add: bcsr_incidence_element_def bcsr_incidence_role_def counts)
  have "locate_owning_bucket (tail_offsets (bh_sections g)) p = Some h"
    by (rule locate_owning_bucket_ok [OF view_ok_directions(2) [OF assms(1)] assms(2)])
      (use assms(3) in \<open>simp_all add: sits_at_def\<close>)
  with to p show "bcsr_incidence_relation g ident = Some h"
    by (simp add: bcsr_incidence_relation_def counts)
qed

lemma sits_at_bucket:
  assumes "direction_ok offsets count values bound" "h < count" "unat (offsets ! h) \<le> p" "p < unat (offsets ! (h + 1))"
  shows "sits_at offsets values h (unat (values ! p)) p"
  using assms(3,4) direction_ok_bounds(2) [OF assms(1,2)] by (simp add: sits_at_def)

section \<open>The incidences of a vertex\<close>

lemma pull_outgoing_hit:
  assumes "direction_ok offsets count values bound" "unat w < count" "v \<in> set (bucket_ids offsets values (unat w))"
    "length values \<le> 2 ^ LENGTH('i)"
  obtains p ident where "pull_outgoing offsets values v (w # ws) = Some (Some (ident :: ('i::len) word), ws)"
    "sits_at offsets values (unat w) v p" "unat ident = p"
proof -
  from locate_in_bucket_hit [OF assms(1-3)] obtain p where
    p: "locate_in_bucket offsets values (unat w) v = Some (Some p)" "sits_at offsets values (unat w) v p" .
  from p(2) assms(4) have "p < 2 ^ LENGTH('i)" by (simp add: sits_at_def)
  moreover have "index_to_usize_validated w = Some (unat w)"
    by (rule word_below [OF assms(2)]) (use direction_ok_bounds(4) [OF assms(1,2)] in simp)
  ultimately show thesis
    using p by (intro that [of "word_of_nat p" p])
      (simp_all add: usize_to_index_validated_def from_usize_def unat_word_of_nat)
qed

lemma pull_incoming_hit:
  assumes "direction_ok offsets count values bound" "unat w < count" "v \<in> set (bucket_ids offsets values (unat w))"
    "base + length values \<le> 2 ^ LENGTH('i)" "base + length values \<le> usize_max"
  obtains p ident where "pull_incoming offsets values base v (w # ws) = Some (Some (ident :: ('i::len) word), ws)"
    "sits_at offsets values (unat w) v p" "unat ident = base + p"
proof -
  from locate_in_bucket_hit [OF assms(1-3)] obtain p where
    p: "locate_in_bucket offsets values (unat w) v = Some (Some p)" "sits_at offsets values (unat w) v p" .
  from p(2) assms(4,5) have "base + p < 2 ^ LENGTH('i)" "base + p \<le> usize_max" by (simp_all add: sits_at_def)
  moreover have "index_to_usize_validated w = Some (unat w)"
    by (rule word_below [OF assms(2)]) (use direction_ok_bounds(4) [OF assms(1,2)] in simp)
  ultimately show thesis
    using p by (intro that [of "word_of_nat (base + p)" p])
      (simp_all add: usize_to_index_validated_def from_usize_def unat_word_of_nat checked_add_def del: of_nat_add)
qed

lemma element_incidences_next_outgoing:
  "pull_outgoing (head_offsets s) (head_participants s) v outs = Some (Some ident, outs') \<Longrightarrow>
     element_incidences_next (element_incidences_new v base outs ns s) =
       Some (Some ident, element_incidences_new v base outs' ns s)"
  by (simp add: element_incidences_next_def element_incidences_new_def)

lemma element_incidences_next_incoming:
  "pull_incoming (tail_offsets s) (tail_participants s) base v ns = Some (r, ns') \<Longrightarrow>
     element_incidences_next (element_incidences_new v base [] ns s) =
       Some (r, element_incidences_new v base [] ns' s)"
  by (simp add: element_incidences_next_def element_incidences_new_def)

lemma element_incidences_tail:
  fixes s :: "('i::len, 'v::len, 'r::len) bcsr_words"
  assumes "direction_ok (tail_offsets s) hyperedges (tail_participants s) bound"
    "base + length (tail_participants s) \<le> 2 ^ LENGTH('i)" "base + length (tail_participants s) \<le> usize_max"
    and "\<And>w. w \<in> set ws \<Longrightarrow> unat w < hyperedges \<and> v \<in> set (bucket_ids (tail_offsets s) (tail_participants s) (unat w))"
  shows "\<exists>ids. yields element_incidences_next (element_incidences_new v base [] ws s) ids \<and>
    list_all2 (\<lambda>ident w. \<exists>p. sits_at (tail_offsets s) (tail_participants s) (unat w) v p \<and> unat ident = base + p) ids ws"
  using assms(4)
proof (induction ws)
  case Nil
  then show ?case by (intro exI [of _ "[]"]) (simp add: element_incidences_next_incoming)
next
  case (Cons w ws)
  then obtain ids where ids: "yields element_incidences_next (element_incidences_new v base [] ws s) ids"
    "list_all2 (\<lambda>ident w. \<exists>p. sits_at (tail_offsets s) (tail_participants s) (unat w) v p \<and> unat ident = base + p) ids ws"
    by auto
  from Cons.prems [of w] have w: "unat w < hyperedges" "v \<in> set (bucket_ids (tail_offsets s) (tail_participants s) (unat w))"
    by auto
  obtain p and ident :: "'i word" where
    "pull_incoming (tail_offsets s) (tail_participants s) base v (w # ws) = Some (Some ident, ws)"
    "sits_at (tail_offsets s) (tail_participants s) (unat w) v p" "unat ident = base + p"
    by (rule pull_incoming_hit [OF assms(1) w assms(2,3)])
  with ids show ?case
    by (intro exI [of _ "ident # ids"]) (auto simp: element_incidences_next_incoming simp del: pull_incoming.simps)
qed

lemma element_incidences_head:
  fixes s :: "('i::len, 'v::len, 'r::len) bcsr_words"
  assumes "direction_ok (head_offsets s) hyperedges (head_participants s) bound"
    "length (head_participants s) \<le> 2 ^ LENGTH('i)"
    and "\<And>w. w \<in> set ws \<Longrightarrow> unat w < hyperedges \<and> v \<in> set (bucket_ids (head_offsets s) (head_participants s) (unat w))"
    and rest: "yields element_incidences_next (element_incidences_new v base [] ns s) rest"
  shows "\<exists>ids. yields element_incidences_next (element_incidences_new v base ws ns s) (ids @ rest) \<and>
    list_all2 (\<lambda>ident w. \<exists>p. sits_at (head_offsets s) (head_participants s) (unat w) v p \<and> unat ident = p) ids ws"
  using assms(3)
proof (induction ws)
  case Nil
  with rest show ?case by (intro exI [of _ "[]"]) simp
next
  case (Cons w ws)
  then obtain ids where ids: "yields element_incidences_next (element_incidences_new v base ws ns s) (ids @ rest)"
    "list_all2 (\<lambda>ident w. \<exists>p. sits_at (head_offsets s) (head_participants s) (unat w) v p \<and> unat ident = p) ids ws"
    by auto
  from Cons.prems [of w] have w: "unat w < hyperedges" "v \<in> set (bucket_ids (head_offsets s) (head_participants s) (unat w))"
    by auto
  obtain p and ident :: "'i word" where
    "pull_outgoing (head_offsets s) (head_participants s) v (w # ws) = Some (Some ident, ws)"
    "sits_at (head_offsets s) (head_participants s) (unat w) v p" "unat ident = p"
    by (rule pull_outgoing_hit [OF assms(1) w assms(2)])
  with ids show ?case
    by (intro exI [of _ "ident # ids"]) (auto simp: element_incidences_next_outgoing simp del: pull_outgoing.simps)
qed

section \<open>Neighbours\<close>

abbreviation neighbors_state ::
    "'r list \<Rightarrow> 'v list \<Rightarrow> 'i list \<Rightarrow> 'v list \<Rightarrow> ('i, 'v, 'r) neighbor_vertices" where
  "neighbors_state relations current offsets participants \<equiv>
     \<lparr>nv_relations = relations, nv_current_bucket = current, nv_bucket_offsets = offsets,
      nv_bucket_participants = participants\<rparr>"

lemma yields_cong: "next_item st = next_item st' \<Longrightarrow> yields next_item st xs = yields next_item st' xs"
  by (cases xs) simp_all

lemma neighbor_next_skip:
  assumes "direction_ok offsets count participants bound" "unat w < count"
  shows "neighbor_vertices_next (neighbors_state (w # ws) [] offsets participants) =
    neighbor_vertices_next (neighbors_state ws (bucket offsets participants (unat w)) offsets participants)"
proof -
  have "index_to_usize_validated w = Some (unat w)"
    by (rule word_below [OF assms(2)]) (use direction_ok_bounds(4) [OF assms] in simp)
  then have "advance_outer (neighbors_state (w # ws) [] offsets participants) =
      Some (True, neighbors_state ws (bucket offsets participants (unat w)) offsets participants)"
    using vertex_bucket_ok [OF assms]
    by (simp add: advance_outer_def vertex_bucket_def bucket_range_ok [OF assms])
  then show ?thesis
    by (subst neighbor_vertices_next.simps) simp
qed

lemma neighbors_yield:
  assumes "direction_ok offsets count participants bound" "\<And>w. w \<in> set ws \<Longrightarrow> unat w < count"
  shows "yields neighbor_vertices_next (neighbors_state ws current offsets participants)
    (current @ concat (map (\<lambda>w. bucket offsets participants (unat w)) ws))"
  using assms(2)
proof (induction ws arbitrary: current)
  case Nil
  show ?case
    by (induction current) (simp_all add: neighbor_vertices_next.simps advance_outer_def)
next
  case (Cons w ws)
  note outer = Cons
  show ?case
  proof (induction current)
    case Nil
    have "yields neighbor_vertices_next
        (neighbors_state ws (bucket offsets participants (unat w)) offsets participants)
        (bucket offsets participants (unat w) @ concat (map (\<lambda>w. bucket offsets participants (unat w)) ws))"
      by (rule outer(1)) (use outer(2) in simp)
    then show ?case
      using yields_cong [OF neighbor_next_skip [OF assms(1), of w ws]] outer(2) by simp
  next
    case (Cons x current)
    then show ?case by (simp add: neighbor_vertices_next.simps [of "neighbors_state (w # ws) (x # current) offsets participants"])
  qed
qed

section \<open>One incidence relation stored twice\<close>

locale bipartite_index =
  fixes valid :: "'g \<Rightarrow> bool"
    and vertices :: "'g \<Rightarrow> nat"
    and hyperedges :: "'g \<Rightarrow> nat"
    and members :: "'g \<Rightarrow> nat \<Rightarrow> nat list"
    and incident :: "'g \<Rightarrow> nat \<Rightarrow> nat list"
  assumes converse: "valid g \<Longrightarrow> h < hyperedges g \<Longrightarrow> v < vertices g \<Longrightarrow>
      v \<in> set (members g h) \<longleftrightarrow> h \<in> set (incident g v)"
    and members_bound: "valid g \<Longrightarrow> h < hyperedges g \<Longrightarrow> v \<in> set (members g h) \<Longrightarrow> v < vertices g"
    and incident_bound: "valid g \<Longrightarrow> v < vertices g \<Longrightarrow> h \<in> set (incident g v) \<Longrightarrow> h < hyperedges g"
    and members_distinct: "valid g \<Longrightarrow> h < hyperedges g \<Longrightarrow> distinct (members g h)"
    and incident_distinct: "valid g \<Longrightarrow> v < vertices g \<Longrightarrow> distinct (incident g v)"
begin

lemma incident_iff: "valid g \<Longrightarrow> v < vertices g \<Longrightarrow> h \<in> set (incident g v) \<longleftrightarrow> h < hyperedges g \<and> v \<in> set (members g h)"
  using converse incident_bound by blast

lemma handshake:
  assumes "valid g"
  shows "(\<Sum>h < hyperedges g. length (members g h)) = (\<Sum>v < vertices g. length (incident g v))"
proof -
  let ?P = "\<lambda>h v. v \<in> set (members g h)"
  have "length (members g h) = (\<Sum>v < vertices g. if ?P h v then 1 else 0)" if "h < hyperedges g" for h
  proof -
    have "set (members g h) = {v. v < vertices g \<and> ?P h v}" using members_bound [OF assms that] by auto
    then show ?thesis
      using distinct_card [OF members_distinct [OF assms that]] by (simp add: sum.If_cases Int_def)
  qed
  moreover have "length (incident g v) = (\<Sum>h < hyperedges g. if ?P h v then 1 else 0)" if "v < vertices g" for v
  proof -
    have "set (incident g v) = {h. h < hyperedges g \<and> ?P h v}" using incident_iff [OF assms that] by auto
    then show ?thesis
      using distinct_card [OF incident_distinct [OF assms that]] by (simp add: sum.If_cases Int_def)
  qed
  ultimately show ?thesis
    using sum.swap [of "\<lambda>h v. if ?P h v then 1 else (0::nat)" "{..<vertices g}" "{..<hyperedges g}"] by simp
qed

end

definition strict_view :: "('i::len, 'v::len, 'r::len) bcsr_view \<Rightarrow> bool" where
  "strict_view g \<longleftrightarrow>
     view_ok g (bcsr_vertex_count g) (bcsr_hyperedge_count g) \<and>
     bcsr_cross_ok (bh_sections g) (bcsr_vertex_count g) (bcsr_hyperedge_count g)"

definition heads_of :: "('i::len, 'v::len, 'r::len) bcsr_view \<Rightarrow> nat \<Rightarrow> nat list" where
  "heads_of g = bucket_ids (head_offsets (bh_sections g)) (head_participants (bh_sections g))"

definition tails_of :: "('i::len, 'v::len, 'r::len) bcsr_view \<Rightarrow> nat \<Rightarrow> nat list" where
  "tails_of g = bucket_ids (tail_offsets (bh_sections g)) (tail_participants (bh_sections g))"

definition outgoing_of :: "('i::len, 'v::len, 'r::len) bcsr_view \<Rightarrow> nat \<Rightarrow> nat list" where
  "outgoing_of g = bucket_ids (vertex_outgoing_offsets (bh_sections g)) (vertex_outgoing_hyperedges (bh_sections g))"

definition incoming_of :: "('i::len, 'v::len, 'r::len) bcsr_view \<Rightarrow> nat \<Rightarrow> nat list" where
  "incoming_of g = bucket_ids (vertex_incoming_offsets (bh_sections g)) (vertex_incoming_hyperedges (bh_sections g))"

lemmas side_defs = heads_of_def tails_of_def outgoing_of_def incoming_of_def

lemma direction_ok_distinct: "direction_ok offsets count values bound \<Longrightarrow> i < count \<Longrightarrow> distinct (bucket_ids offsets values i)"
  by (simp add: direction_ok_def strict_sorted_iff)

interpretation outgoing_side: bipartite_index strict_view bcsr_vertex_count bcsr_hyperedge_count heads_of outgoing_of
proof
  fix g :: "('i::len, 'v::len, 'r::len) bcsr_view" and h v
  assume g: "strict_view g"
  then have ok: "view_ok g (bcsr_vertex_count g) (bcsr_hyperedge_count g)" by (simp add: strict_view_def)
  note d = view_ok_directions [OF ok]
  show "h < bcsr_hyperedge_count g \<Longrightarrow> v < bcsr_vertex_count g \<Longrightarrow> v \<in> set (heads_of g h) \<longleftrightarrow> h \<in> set (outgoing_of g v)"
    using g by (auto simp: strict_view_def bcsr_cross_ok_def same_incidences_def side_defs)
  show "v \<in> set (heads_of g h) \<Longrightarrow> v < bcsr_vertex_count g" unfolding side_defs by (rule direction_ok_ids_below [OF d(1)])
  show "h \<in> set (outgoing_of g v) \<Longrightarrow> h < bcsr_hyperedge_count g" unfolding side_defs by (rule direction_ok_ids_below [OF d(3)])
  show "h < bcsr_hyperedge_count g \<Longrightarrow> distinct (heads_of g h)" unfolding side_defs by (rule direction_ok_distinct [OF d(1)])
  show "v < bcsr_vertex_count g \<Longrightarrow> distinct (outgoing_of g v)" unfolding side_defs by (rule direction_ok_distinct [OF d(3)])
qed

interpretation incoming_side: bipartite_index strict_view bcsr_vertex_count bcsr_hyperedge_count tails_of incoming_of
proof
  fix g :: "('i::len, 'v::len, 'r::len) bcsr_view" and h v
  assume g: "strict_view g"
  then have ok: "view_ok g (bcsr_vertex_count g) (bcsr_hyperedge_count g)" by (simp add: strict_view_def)
  note d = view_ok_directions [OF ok]
  show "h < bcsr_hyperedge_count g \<Longrightarrow> v < bcsr_vertex_count g \<Longrightarrow> v \<in> set (tails_of g h) \<longleftrightarrow> h \<in> set (incoming_of g v)"
    using g by (auto simp: strict_view_def bcsr_cross_ok_def same_incidences_def side_defs)
  show "v \<in> set (tails_of g h) \<Longrightarrow> v < bcsr_vertex_count g" unfolding side_defs by (rule direction_ok_ids_below [OF d(2)])
  show "h \<in> set (incoming_of g v) \<Longrightarrow> h < bcsr_hyperedge_count g" unfolding side_defs by (rule direction_ok_ids_below [OF d(4)])
  show "h < bcsr_hyperedge_count g \<Longrightarrow> distinct (tails_of g h)" unfolding side_defs by (rule direction_ok_distinct [OF d(2)])
  show "v < bcsr_vertex_count g \<Longrightarrow> distinct (incoming_of g v)" unfolding side_defs by (rule direction_ok_distinct [OF d(4)])
qed

section \<open>Accessors of a valid view\<close>

lemma contains_relation_iff:
  "bcsr_contains_relation g h = Some True \<longleftrightarrow> unat h \<le> usize_max \<and> unat h < bcsr_hyperedge_count g"
  by (auto simp: bcsr_contains_relation_def bcsr_hyperedge_count_def index_to_usize_validated_def to_usize_def)

lemma contains_element_iff:
  "bcsr_contains_element g v = Some True \<longleftrightarrow> unat v \<le> usize_max \<and> unat v < bcsr_vertex_count g"
  by (auto simp: bcsr_contains_element_def bcsr_vertex_count_def index_to_usize_validated_def to_usize_def)

lemma strict_view_open:
  assumes "bcsr_open_with s level = Some (Ok g)" "bcsr_addressable s"
  shows "view_ok g (bcsr_vertex_count g) (bcsr_hyperedge_count g)" and "level = StrictLevel \<Longrightarrow> strict_view g"
proof -
  obtain vertices hyperedges where ok: "view_ok g vertices hyperedges" "bh_sections g = s"
    "level = StrictLevel \<longrightarrow> bcsr_cross_ok s vertices hyperedges"
    by (rule bcsr_open_with_OkD [OF assms])
  then have "vertices = bcsr_vertex_count g" "hyperedges = bcsr_hyperedge_count g"
    using view_ok_counts(1,2) [OF ok(1)] by (simp_all add: bcsr_vertex_count_def bcsr_hyperedge_count_def)
  with ok show "view_ok g (bcsr_vertex_count g) (bcsr_hyperedge_count g)" "level = StrictLevel \<Longrightarrow> strict_view g"
    by (simp_all add: strict_view_def)
qed

lemma hyperedge_access:
  assumes "view_ok g vertices hyperedges" "unat h < hyperedges"
  shows "bcsr_source_participants g h = Some (bucket (head_offsets (bh_sections g)) (head_participants (bh_sections g)) (unat h))"
    "bcsr_target_participants g h = Some (bucket (tail_offsets (bh_sections g)) (tail_participants (bh_sections g)) (unat h))"
    "bcsr_relation_incidence_count g h =
       Some (length (bucket (head_offsets (bh_sections g)) (head_participants (bh_sections g)) (unat h)) +
             length (bucket (tail_offsets (bh_sections g)) (tail_participants (bh_sections g)) (unat h)))"
proof -
  note d = view_ok_directions [OF assms(1)] and counts = view_ok_counts [OF assms(1)]
  have to: "index_to_usize_validated h = Some (unat h)" by (rule word_below [OF assms(2)]) (use counts(9) in simp)
  show "bcsr_source_participants g h = Some (bucket (head_offsets (bh_sections g)) (head_participants (bh_sections g)) (unat h))"
    "bcsr_target_participants g h = Some (bucket (tail_offsets (bh_sections g)) (tail_participants (bh_sections g)) (unat h))"
    by (simp_all add: bcsr_source_participants_def bcsr_target_participants_def to
        vertex_bucket_ok [OF d(1) assms(2)] vertex_bucket_ok [OF d(2) assms(2)])
  show "bcsr_relation_incidence_count g h =
       Some (length (bucket (head_offsets (bh_sections g)) (head_participants (bh_sections g)) (unat h)) +
             length (bucket (tail_offsets (bh_sections g)) (tail_participants (bh_sections g)) (unat h)))"
    using bucket_sizes_ok [OF d(1) assms(2) d(2) counts(6)] by (simp add: bcsr_relation_incidence_count_def to)
qed

lemma vertex_access:
  assumes "view_ok g vertices hyperedges" "unat v < vertices"
  shows "bcsr_outgoing_hyperedges g v =
      Some (bucket (vertex_outgoing_offsets (bh_sections g)) (vertex_outgoing_hyperedges (bh_sections g)) (unat v))"
    "bcsr_incoming_hyperedges g v =
      Some (bucket (vertex_incoming_offsets (bh_sections g)) (vertex_incoming_hyperedges (bh_sections g)) (unat v))"
    "bcsr_element_incidence_count g v =
       Some (length (bucket (vertex_outgoing_offsets (bh_sections g)) (vertex_outgoing_hyperedges (bh_sections g)) (unat v)) +
             length (bucket (vertex_incoming_offsets (bh_sections g)) (vertex_incoming_hyperedges (bh_sections g)) (unat v)))"
    "index_to_usize_validated v = Some (unat v)"
proof -
  note d = view_ok_directions [OF assms(1)] and counts = view_ok_counts [OF assms(1)]
  show to: "index_to_usize_validated v = Some (unat v)" by (rule word_below [OF assms(2)]) (use counts(8) in simp)
  show "bcsr_outgoing_hyperedges g v =
      Some (bucket (vertex_outgoing_offsets (bh_sections g)) (vertex_outgoing_hyperedges (bh_sections g)) (unat v))"
    "bcsr_incoming_hyperedges g v =
      Some (bucket (vertex_incoming_offsets (bh_sections g)) (vertex_incoming_hyperedges (bh_sections g)) (unat v))"
    by (simp_all add: bcsr_outgoing_hyperedges_def bcsr_incoming_hyperedges_def to
        vertex_bucket_ok [OF d(3) assms(2)] vertex_bucket_ok [OF d(4) assms(2)])
  show "bcsr_element_incidence_count g v =
       Some (length (bucket (vertex_outgoing_offsets (bh_sections g)) (vertex_outgoing_hyperedges (bh_sections g)) (unat v)) +
             length (bucket (vertex_incoming_offsets (bh_sections g)) (vertex_incoming_hyperedges (bh_sections g)) (unat v)))"
    using bucket_sizes_ok [OF d(3) assms(2) d(4) counts(7)] by (simp add: bcsr_element_incidence_count_def to)
qed

text \<open>The handles of one hyperedge's head block, and of its tail block.\<close>

lemma head_block:
  fixes g :: "('i::len, 'v::len, 'r::len) bcsr_view"
  assumes "view_ok g vertices hyperedges" "unat h < hyperedges" "bcsr_incidence_count g \<le> 2 ^ LENGTH('i)"
    and "b = bucket (head_offsets (bh_sections g)) (head_participants (bh_sections g)) (unat h)"
    and "ids = (map word_of_nat [unat (head_offsets (bh_sections g) ! unat h)..<
      unat (head_offsets (bh_sections g) ! (unat h + 1))] :: 'i word list)"
  shows "map (bcsr_incidence_element g) ids = map Some b" "map (bcsr_incidence_relation g) ids = replicate (length b) (Some h)"
    "map (bcsr_incidence_role g) ids = replicate (length b) (Some Head)"
proof -
  note d = view_ok_directions(1) [OF assms(1)]
  let ?offs = "head_offsets (bh_sections g)" and ?vals = "head_participants (bh_sections g)"
  let ?a = "unat (?offs ! unat h)"
  have len: "length ids = length b" using assms(4,5) length_bucket [OF d assms(2)] by simp
  have at: "bcsr_incidence_element g (ids ! j) = Some (b ! j) \<and> bcsr_incidence_relation g (ids ! j) = Some h \<and>
      bcsr_incidence_role g (ids ! j) = Some Head" if "j < length b" for j
  proof -
    have j: "?a + j < unat (?offs ! (unat h + 1))" using that len assms(5) by simp
    then have sits: "sits_at ?offs ?vals (unat h) (unat (?vals ! (?a + j))) (?a + j)"
      by (intro sits_at_bucket [OF d assms(2)]) auto
    then have "?a + j < 2 ^ LENGTH('i)"
      using assms(3) view_ok_counts(5) [OF assms(1)] by (simp add: sits_at_def bcsr_incidence_count_def)
    then have "unat (ids ! j) = ?a + j" using j assms(5) by (simp add: unat_word_of_nat del: of_nat_add)
    with head_incidence [OF assms(1,2) sits] show ?thesis
      using nth_bucket [OF d assms(2), of j] that assms(4) by simp
  qed
  then show "map (bcsr_incidence_element g) ids = map Some b"
    "map (bcsr_incidence_relation g) ids = replicate (length b) (Some h)"
    "map (bcsr_incidence_role g) ids = replicate (length b) (Some Head)"
    by (auto intro!: nth_equalityI simp: len)
qed

lemma tail_block:
  fixes g :: "('i::len, 'v::len, 'r::len) bcsr_view"
  assumes "view_ok g vertices hyperedges" "unat h < hyperedges" "bcsr_incidence_count g \<le> 2 ^ LENGTH('i)"
    and "b = bucket (tail_offsets (bh_sections g)) (tail_participants (bh_sections g)) (unat h)"
    and "ids = (map word_of_nat
      [length (head_participants (bh_sections g)) + unat (tail_offsets (bh_sections g) ! unat h)..<
       length (head_participants (bh_sections g)) + unat (tail_offsets (bh_sections g) ! (unat h + 1))] :: 'i word list)"
  shows "map (bcsr_incidence_element g) ids = map Some b" "map (bcsr_incidence_relation g) ids = replicate (length b) (Some h)"
    "map (bcsr_incidence_role g) ids = replicate (length b) (Some Tail)"
proof -
  note d = view_ok_directions(2) [OF assms(1)]
  let ?offs = "tail_offsets (bh_sections g)" and ?vals = "tail_participants (bh_sections g)"
  let ?a = "unat (?offs ! unat h)" and ?base = "length (head_participants (bh_sections g))"
  have len: "length ids = length b" using assms(4,5) length_bucket [OF d assms(2)] by simp
  have at: "bcsr_incidence_element g (ids ! j) = Some (b ! j) \<and> bcsr_incidence_relation g (ids ! j) = Some h \<and>
      bcsr_incidence_role g (ids ! j) = Some Tail" if "j < length b" for j
  proof -
    have j: "?a + j < unat (?offs ! (unat h + 1))" using that len assms(5) by simp
    then have sits: "sits_at ?offs ?vals (unat h) (unat (?vals ! (?a + j))) (?a + j)"
      by (intro sits_at_bucket [OF d assms(2)]) auto
    then have "?base + (?a + j) < 2 ^ LENGTH('i)"
      using assms(3) view_ok_counts(5) [OF assms(1)] by (simp add: sits_at_def bcsr_incidence_count_def)
    then have "unat (ids ! j) = ?base + (?a + j)"
      using j assms(5) by (simp add: unat_word_of_nat add.assoc del: of_nat_add)
    with tail_incidence [OF assms(1,2) sits] show ?thesis
      using nth_bucket [OF d assms(2), of j] that assms(4) by simp
  qed
  then show "map (bcsr_incidence_element g) ids = map Some b"
    "map (bcsr_incidence_relation g) ids = replicate (length b) (Some h)"
    "map (bcsr_incidence_role g) ids = replicate (length b) (Some Tail)"
    by (auto intro!: nth_equalityI simp: len)
qed

lemma unat_mem_iff: "unat x \<in> unat ` S \<longleftrightarrow> (x :: 'w::len word) \<in> S"
proof
  assume "unat x \<in> unat ` S"
  then obtain y where "y \<in> S" "unat x = unat y" by blast
  then show "x \<in> S" by (metis word_eq_iff_unsigned)
qed blast

lemma list_all2_answers:
  assumes "list_all2 P xs ys" "\<And>x y. y \<in> set ys \<Longrightarrow> P x y \<Longrightarrow> f x = g y"
  shows "map f xs = map g ys"
  using assms by (induction xs ys rule: list_all2_induct) auto

lemma head_handle:
  assumes "view_ok g vertices hyperedges" "unat w < hyperedges"
    and "\<exists>p. sits_at (head_offsets (bh_sections g)) (head_participants (bh_sections g)) (unat w) (unat v) p \<and> unat x = p"
  shows "bcsr_incidence_element g x = Some v \<and> bcsr_incidence_relation g x = Some w \<and> bcsr_incidence_role g x = Some Head"
proof -
  from assms(3) obtain p where p: "unat x = p"
    "sits_at (head_offsets (bh_sections g)) (head_participants (bh_sections g)) (unat w) (unat v) p" by blast
  then have "head_participants (bh_sections g) ! p = v" unfolding sits_at_def by (metis word_eq_iff_unsigned)
  with head_incidence [OF assms(1,2) p(2,1)] show ?thesis by simp
qed

lemma tail_handle:
  assumes "view_ok g vertices hyperedges" "unat w < hyperedges"
    and "\<exists>p. sits_at (tail_offsets (bh_sections g)) (tail_participants (bh_sections g)) (unat w) (unat v) p \<and>
      unat x = length (head_participants (bh_sections g)) + p"
  shows "bcsr_incidence_element g x = Some v \<and> bcsr_incidence_relation g x = Some w \<and> bcsr_incidence_role g x = Some Tail"
proof -
  from assms(3) obtain p where p: "unat x = length (head_participants (bh_sections g)) + p"
    "sits_at (tail_offsets (bh_sections g)) (tail_participants (bh_sections g)) (unat w) (unat v) p" by blast
  then have "tail_participants (bh_sections g) ! p = v" unfolding sits_at_def by (metis word_eq_iff_unsigned)
  with tail_incidence [OF assms(1,2) p(2,1)] show ?thesis by simp
qed

text \<open>The handles of a vertex: one per outgoing and per incoming hyperedge.\<close>

lemma element_incidences_resolve:
  fixes g :: "('i::len, 'v::len, 'r::len) bcsr_view"
  assumes g: "strict_view g" and v: "unat v < bcsr_vertex_count g" and fit: "bcsr_incidence_count g \<le> 2 ^ LENGTH('i)"
    and outs: "outs = bucket (vertex_outgoing_offsets (bh_sections g)) (vertex_outgoing_hyperedges (bh_sections g)) (unat v)"
    and ins: "ins = bucket (vertex_incoming_offsets (bh_sections g)) (vertex_incoming_hyperedges (bh_sections g)) (unat v)"
  shows "\<exists>ids. yields element_incidences_next
      (element_incidences_new (unat v) (dc_p_outgoing (bh_counts g)) outs ins (bh_sections g)) ids \<and>
    map (bcsr_incidence_relation g) ids = map Some (outs @ ins) \<and>
    map (bcsr_incidence_element g) ids = map (\<lambda>_. Some v) (outs @ ins) \<and>
    map (bcsr_incidence_role g) ids = map (\<lambda>_. Some Head) outs @ map (\<lambda>_. Some Tail) ins"
proof -
  have ok: "view_ok g (bcsr_vertex_count g) (bcsr_hyperedge_count g)" using g by (simp add: strict_view_def)
  note d = view_ok_directions [OF ok] and counts = view_ok_counts [OF ok]
  let ?s = "bh_sections g"
  have total: "length (head_participants ?s) + length (tail_participants ?s) \<le> 2 ^ LENGTH('i)"
    using fit counts(5) by (simp add: bcsr_incidence_count_def)
  have o: "unat w < bcsr_hyperedge_count g \<and> unat v \<in> set (bucket_ids (head_offsets ?s) (head_participants ?s) (unat w))"
    if "w \<in> set outs" for w
    using outgoing_side.incident_iff [OF g v, of "unat w"] that outs by (simp add: side_defs bucket_ids_def)
  have i: "unat w < bcsr_hyperedge_count g \<and> unat v \<in> set (bucket_ids (tail_offsets ?s) (tail_participants ?s) (unat w))"
    if "w \<in> set ins" for w
    using incoming_side.incident_iff [OF g v, of "unat w"] that ins by (simp add: side_defs bucket_ids_def)
  obtain ts where ts: "yields element_incidences_next (element_incidences_new (unat v) (length (head_participants ?s)) [] ins ?s) ts"
    "list_all2 (\<lambda>ident w. \<exists>p. sits_at (tail_offsets ?s) (tail_participants ?s) (unat w) (unat v) p \<and>
       unat ident = length (head_participants ?s) + p) ts ins"
    using element_incidences_tail [OF d(2) total counts(6) i] by blast
  have "length (head_participants ?s) \<le> 2 ^ LENGTH('i)" using total by simp
  from element_incidences_head [OF d(1) this o ts(1)] obtain hs where
    hs: "yields element_incidences_next (element_incidences_new (unat v) (length (head_participants ?s)) outs ins ?s) (hs @ ts)"
    "list_all2 (\<lambda>ident w. \<exists>p. sits_at (head_offsets ?s) (head_participants ?s) (unat w) (unat v) p \<and> unat ident = p) hs outs"
    by blast
  have "map (bcsr_incidence_relation g) hs = map Some outs" "map (bcsr_incidence_element g) hs = map (\<lambda>_. Some v) outs"
    "map (bcsr_incidence_role g) hs = map (\<lambda>_. Some Head) outs"
    by (rule list_all2_answers [OF hs(2)], use head_handle [OF ok] o in blast)+
  moreover have "map (bcsr_incidence_relation g) ts = map Some ins" "map (bcsr_incidence_element g) ts = map (\<lambda>_. Some v) ins"
    "map (bcsr_incidence_role g) ts = map (\<lambda>_. Some Tail) ins"
    by (rule list_all2_answers [OF ts(2)], use tail_handle [OF ok] i in blast)+
  ultimately show ?thesis
    using hs(1) counts(3) by (intro exI [of _ "hs @ ts"]) simp
qed

lemma element_successors_yield:
  assumes "view_ok g vertices hyperedges" "unat v < vertices"
    and "outs = bucket (vertex_outgoing_offsets (bh_sections g)) (vertex_outgoing_hyperedges (bh_sections g)) (unat v)"
  shows "\<exists>it. bcsr_element_successors g v = Some it \<and> yields neighbor_vertices_next it
    (concat (map (\<lambda>w. bucket (tail_offsets (bh_sections g)) (tail_participants (bh_sections g)) (unat w)) outs))"
proof -
  note d = view_ok_directions [OF assms(1)]
  have "unat w < hyperedges" if "w \<in> set outs" for w
    using that direction_ok_ids_below [OF d(3), of "unat w" "unat v"] by (simp add: assms(3) bucket_ids_def)
  from neighbors_yield [OF d(2) this, of outs "[]"] show ?thesis
    by (simp add: bcsr_element_successors_def vertex_access(4) [OF assms(1,2)] vertex_bucket_ok [OF d(3) assms(2)]
        neighbor_vertices_new_def assms(3))
qed

lemma element_predecessors_yield:
  assumes "view_ok g vertices hyperedges" "unat v < vertices"
    and "ins = bucket (vertex_incoming_offsets (bh_sections g)) (vertex_incoming_hyperedges (bh_sections g)) (unat v)"
  shows "\<exists>it. bcsr_element_predecessors g v = Some it \<and> yields neighbor_vertices_next it
    (concat (map (\<lambda>w. bucket (head_offsets (bh_sections g)) (head_participants (bh_sections g)) (unat w)) ins))"
proof -
  note d = view_ok_directions [OF assms(1)]
  have "unat w < hyperedges" if "w \<in> set ins" for w
    using that direction_ok_ids_below [OF d(4), of "unat w" "unat v"] by (simp add: assms(3) bucket_ids_def)
  from neighbors_yield [OF d(1) this, of ins "[]"] show ?thesis
    by (simp add: bcsr_element_predecessors_def vertex_access(4) [OF assms(1,2)] vertex_bucket_ok [OF d(4) assms(2)]
        neighbor_vertices_new_def assms(3))
qed

lemma successors_meaning:
  assumes g: "strict_view g" and v: "unat v < bcsr_vertex_count g"
  shows "\<exists>it succs. bcsr_element_successors g v = Some it \<and> yields neighbor_vertices_next it succs \<and>
    (\<forall>x. x \<in> set succs \<longleftrightarrow> (\<exists>h < bcsr_hyperedge_count g. unat v \<in> set (heads_of g h) \<and> unat x \<in> set (tails_of g h)))"
proof -
  let ?ws = "bucket (vertex_outgoing_offsets (bh_sections g)) (vertex_outgoing_hyperedges (bh_sections g)) (unat v)"
  let ?b = "\<lambda>h. bucket (tail_offsets (bh_sections g)) (tail_participants (bh_sections g)) h"
  have ok: "view_ok g (bcsr_vertex_count g) (bcsr_hyperedge_count g)" using g by (simp add: strict_view_def)
  have iff: "h \<in> unat ` set ?ws \<longleftrightarrow> h < bcsr_hyperedge_count g \<and> unat v \<in> set (heads_of g h)" for h
    using outgoing_side.incident_iff [OF g v, of h] by (simp add: outgoing_of_def bucket_ids_def)
  have mem: "x \<in> set (?b h) \<longleftrightarrow> unat x \<in> set (tails_of g h)" for x h
    by (simp add: tails_of_def bucket_ids_def unat_mem_iff)
  have "x \<in> set (concat (map (\<lambda>w. ?b (unat w)) ?ws)) \<longleftrightarrow> (\<exists>h \<in> unat ` set ?ws. x \<in> set (?b h))" for x
    by auto
  then have "x \<in> set (concat (map (\<lambda>w. ?b (unat w)) ?ws)) \<longleftrightarrow>
      (\<exists>h < bcsr_hyperedge_count g. unat v \<in> set (heads_of g h) \<and> unat x \<in> set (tails_of g h))" for x
    unfolding Bex_def iff mem by blast
  moreover obtain it where it: "bcsr_element_successors g v = Some it"
    "yields neighbor_vertices_next it (concat (map (\<lambda>w. ?b (unat w)) ?ws))"
    using element_successors_yield [OF ok v refl] by blast
  ultimately show ?thesis
    by (intro exI [of _ it] exI [of _ "concat (map (\<lambda>w. ?b (unat w)) ?ws)"] conjI allI it)
qed

lemma predecessors_meaning:
  assumes g: "strict_view g" and v: "unat v < bcsr_vertex_count g"
  shows "\<exists>it preds. bcsr_element_predecessors g v = Some it \<and> yields neighbor_vertices_next it preds \<and>
    (\<forall>x. x \<in> set preds \<longleftrightarrow> (\<exists>h < bcsr_hyperedge_count g. unat v \<in> set (tails_of g h) \<and> unat x \<in> set (heads_of g h)))"
proof -
  let ?ws = "bucket (vertex_incoming_offsets (bh_sections g)) (vertex_incoming_hyperedges (bh_sections g)) (unat v)"
  let ?b = "\<lambda>h. bucket (head_offsets (bh_sections g)) (head_participants (bh_sections g)) h"
  have ok: "view_ok g (bcsr_vertex_count g) (bcsr_hyperedge_count g)" using g by (simp add: strict_view_def)
  have iff: "h \<in> unat ` set ?ws \<longleftrightarrow> h < bcsr_hyperedge_count g \<and> unat v \<in> set (tails_of g h)" for h
    using incoming_side.incident_iff [OF g v, of h] by (simp add: incoming_of_def bucket_ids_def)
  have mem: "x \<in> set (?b h) \<longleftrightarrow> unat x \<in> set (heads_of g h)" for x h
    by (simp add: heads_of_def bucket_ids_def unat_mem_iff)
  have "x \<in> set (concat (map (\<lambda>w. ?b (unat w)) ?ws)) \<longleftrightarrow> (\<exists>h \<in> unat ` set ?ws. x \<in> set (?b h))" for x
    by auto
  then have "x \<in> set (concat (map (\<lambda>w. ?b (unat w)) ?ws)) \<longleftrightarrow>
      (\<exists>h < bcsr_hyperedge_count g. unat v \<in> set (tails_of g h) \<and> unat x \<in> set (heads_of g h))" for x
    unfolding Bex_def iff mem by blast
  moreover obtain it where it: "bcsr_element_predecessors g v = Some it"
    "yields neighbor_vertices_next it (concat (map (\<lambda>w. ?b (unat w)) ?ws))"
    using element_predecessors_yield [OF ok v refl] by blast
  ultimately show ?thesis
    by (intro exI [of _ it] exI [of _ "concat (map (\<lambda>w. ?b (unat w)) ?ws)"] conjI allI it)
qed

section \<open>Properties\<close>



section \<open>Examples\<close>

definition example_hypergraph :: "(16, 16, 16) bcsr_view" where
  "example_hypergraph = \<lparr>bh_counts = bcsr_counts example_sections 3 2, bh_sections = example_sections\<rparr>"

lemma example_hypergraph_opens: "bcsr_open_with example_sections StrictLevel = Some (Ok example_hypergraph)"
proof -
  have "validate_sections example_sections StrictLevel = Some (Ok (bcsr_counts example_sections 3 2))"
    unfolding validate_sections_Ok [OF example_sections_addressable] using example_sections_ok by blast
  then show ?thesis by (simp add: bcsr_open_with_def example_hypergraph_def)
qed

lemma example_hypergraph_facts:
  "bcsr_contains_relation example_hypergraph 1 = Some True" "bcsr_contains_element example_hypergraph 2 = Some True"
  "bcsr_incidence_count example_hypergraph \<le> 2 ^ LENGTH(16)"
  "bcsr_source_participants example_hypergraph 1 = Some [0]" "bcsr_target_participants example_hypergraph 1 = Some [1, 2]"
  "bcsr_outgoing_hyperedges example_hypergraph 2 = Some []" "bcsr_incoming_hyperedges example_hypergraph 2 = Some [0, 1]"
  by (simp_all add: bcsr_contains_relation_def bcsr_contains_element_def bcsr_incidence_count_def
      bcsr_source_participants_def bcsr_target_participants_def bcsr_outgoing_hyperedges_def
      bcsr_incoming_hyperedges_def vertex_bucket_def bucket_range_def index_to_usize_validated_def to_usize_def
      usize_max_def checked_add_def index_or_panic_def slice_or_panic_def example_hypergraph_def
      bcsr_counts_def example_sections_def)



text \<open>
  The check of the incidence total is against the address width, not the incidence width: a view with
  one hyperedge of \<open>n\<close> heads and \<open>n\<close> tails at 16 bits passes the strict validation, and listing the
  incidences of a vertex \<open>v\<close> with \<open>n + v\<close> past 65535 panics at the second one.
\<close>

definition wide_sections :: "nat \<Rightarrow> (16, 16, 16) bcsr_words" where
  "wide_sections n =
     (let members = map word_of_nat [0..<n]; cuts = map word_of_nat [0..<Suc n] in
      \<lparr>head_offsets = [0, word_of_nat n], head_participants = members, tail_offsets = [0, word_of_nat n],
       tail_participants = members, vertex_outgoing_offsets = cuts, vertex_outgoing_hyperedges = replicate n 0,
       vertex_incoming_offsets = cuts, vertex_incoming_hyperedges = replicate n 0\<rparr>)"

lemma wide_members:
  assumes "n < 2 ^ 16"
  shows "bucket_ids [0, word_of_nat n :: u16] (map word_of_nat [0..<n] :: u16 list) 0 = [0..<n]"
    and "direction_ok [0, word_of_nat n :: u16] 1 (map word_of_nat [0..<n] :: u16 list) n"
proof -
  have n: "unat (word_of_nat n :: u16) = n" using assms by (intro unat_word_of_nat) simp
  have u: "unat (word_of_nat i :: u16) = i" if "i < n" for i
    by (rule unat_word_of_nat) (use assms that in simp)
  show ids: "bucket_ids [0, word_of_nat n :: u16] (map word_of_nat [0..<n] :: u16 list) 0 = [0..<n]"
    by (rule nth_equalityI) (simp_all add: bucket_ids_def bucket_def subrange_def n u)
  show "direction_ok [0, word_of_nat n :: u16] 1 (map word_of_nat [0..<n] :: u16 list) n"
    using assms u by (auto simp: direction_ok_def offsets_ok_def n ids fits_usize_narrow usize_max_def)
qed

lemma wide_cuts:
  assumes "n < 2 ^ 16"
  shows "v < n \<Longrightarrow> bucket (map word_of_nat [0..<Suc n] :: u16 list) (replicate n (0 :: u16)) v = [0]"
    and "direction_ok (map word_of_nat [0..<Suc n] :: u16 list) n (replicate n (0 :: u16)) 1"
proof -
  have u: "unat (word_of_nat i :: u16) = i" if "i \<le> n" for i
    by (rule unat_word_of_nat) (use assms that in simp)
  show bucket: "bucket (map word_of_nat [0..<Suc n] :: u16 list) (replicate n (0 :: u16)) v = [0]" if "v < n" for v
    using that u [of v] u [of "Suc v"]
    by (simp add: bucket_def subrange_def nth_append del: upt_Suc)
  have "map unat (map word_of_nat [0..<Suc n] :: u16 list) = [0..<Suc n]"
    by (rule nth_equalityI) (auto simp: u simp del: upt_Suc)
  then show "direction_ok (map word_of_nat [0..<Suc n] :: u16 list) n (replicate n (0 :: u16)) 1"
    using assms u [of n] by (auto simp: direction_ok_def offsets_ok_def bucket bucket_ids_def fits_usize_narrow usize_max_def
        simp del: upt_Suc)
qed

lemma wide_sections_open:
  assumes "0 < n" "n < 2 ^ 16"
  shows "bcsr_open_with (wide_sections n) StrictLevel =
    Some (Ok \<lparr>bh_counts = bcsr_counts (wide_sections n) n 1, bh_sections = wide_sections n\<rparr>)"
proof -
  have "bcsr_addressable (wide_sections n)"
    using assms by (simp add: bcsr_addressable_def wide_sections_def Let_def usize_max_def)
  moreover have "bcsr_layout_ok (wide_sections n) n 1"
    using assms wide_members(2) [OF assms(2)] wide_cuts(2) [OF assms(2)]
    by (simp add: bcsr_layout_ok_def wide_sections_def Let_def usize_max_def del: upt_Suc)
  moreover have "bcsr_cross_ok (wide_sections n) n 1"
    using wide_members(1) [OF assms(2)] wide_cuts(1) [OF assms(2)]
    by (simp add: bcsr_cross_ok_def same_incidences_def wide_sections_def Let_def bucket_ids_def del: upt_Suc)
  ultimately have "validate_sections (wide_sections n) StrictLevel = Some (Ok (bcsr_counts (wide_sections n) n 1))"
    using validate_sections_Ok by blast
  then show ?thesis by (simp add: bcsr_open_with_def)
qed

lemma wide_locate:
  assumes "v < n" "n < 2 ^ 16"
  shows "locate_in_bucket [0, word_of_nat n :: u16] (map word_of_nat [0..<n] :: u16 list) 0 v = Some (Some v)"
proof -
  have "v \<in> set (bucket_ids [0, word_of_nat n :: u16] (map word_of_nat [0..<n] :: u16 list) 0)"
    using assms(1) by (simp add: wide_members(1) [OF assms(2)])
  from locate_in_bucket_hit [OF wide_members(2) [OF assms(2)] _ this] obtain p where
    p: "locate_in_bucket [0, word_of_nat n :: u16] (map word_of_nat [0..<n] :: u16 list) 0 v = Some (Some p)"
      "sits_at [0, word_of_nat n :: u16] (map word_of_nat [0..<n] :: u16 list) 0 v p" by auto
  then have "p < n" and "unat (word_of_nat p :: u16) = v" by (auto simp: sits_at_def)
  with assms(2) have "p = v" by (simp add: unat_word_of_nat)
  with p(1) show ?thesis by simp
qed

lemma incidence_handles_can_overflow:
  assumes "v < n" "n < 2 ^ 16" "2 ^ 16 \<le> n + v"
  shows "\<exists>g it it' ident. bcsr_open_with (wide_sections n) StrictLevel = Some (Ok g) \<and>
     bcsr_contains_element g (word_of_nat v) = Some True \<and> bcsr_element_incidences g (word_of_nat v) = Some it \<and>
     element_incidences_next it = Some (Some ident, it') \<and> element_incidences_next it' = None"
proof -
  let ?s = "wide_sections n" and ?v = "word_of_nat v :: u16"
  define g where "g = (\<lparr>bh_counts = bcsr_counts ?s n 1, bh_sections = ?s\<rparr> :: (16, 16, 16) bcsr_view)"
  have "bcsr_open_with ?s StrictLevel = Some (Ok g)" unfolding g_def by (rule wide_sections_open) (use assms in simp_all)
  moreover have v: "unat ?v = v" using assms by (intro unat_word_of_nat) simp
  then have to: "index_to_usize_validated ?v = Some v"
    using assms by (simp add: index_to_usize_validated_def to_usize_def usize_max_def)
  then have "bcsr_contains_element g ?v = Some True"
    using assms by (simp add: bcsr_contains_element_def g_def bcsr_counts_def)
  moreover have "vertex_bucket (map word_of_nat [0..<Suc n] :: u16 list) (replicate n (0 :: u16)) v = Some [0]"
    by (simp only: vertex_bucket_ok [OF wide_cuts(2) [OF assms(2)] assms(1)] wide_cuts(1) [OF assms(2,1)])
  then have "bcsr_element_incidences g ?v = Some (element_incidences_new v n [0] [0] ?s)"
    by (simp add: bcsr_element_incidences_def to g_def bcsr_counts_def wide_sections_def Let_def del: upt_Suc)
  moreover have loc: "locate_in_bucket (head_offsets ?s) (head_participants ?s) 0 v = Some (Some v)"
    "locate_in_bucket (tail_offsets ?s) (tail_participants ?s) 0 v = Some (Some v)"
    using wide_locate [OF assms(1,2)] by (simp_all add: wide_sections_def Let_def)
  have zero: "index_to_usize_validated (0 :: u16) = Some 0" by (simp add: index_to_usize_validated_def to_usize_def)
  have "element_incidences_next (element_incidences_new v n [0] [0] ?s) = Some (Some ?v, element_incidences_new v n [] [0] ?s)"
    by (rule element_incidences_next_outgoing)
      (use assms in \<open>simp add: loc zero usize_to_index_validated_def from_usize_def\<close>)
  moreover have "pull_incoming (tail_offsets ?s) (tail_participants ?s) n v [0 :: u16] = None"
    using assms by (simp add: loc zero usize_to_index_validated_def from_usize_def checked_add_def usize_max_def)
  then have "element_incidences_next (element_incidences_new v n [] [0] ?s) = None"
    by (simp add: element_incidences_next_def element_incidences_new_def)
  ultimately show ?thesis by blast
qed

end
