(* ===== verification/HyperBuild.thy ===== *)
theory HyperBuild
  imports BcsrTraverse SnapshotFormat
begin

text \<open>
  The append-only hypergraph builders of \<open>crates/oxgraph-hyper-bcsr/src/build.rs\<close> and the freeze into
  the eight canonical arrays. A method taking \<open>&mut self\<close> returns its result with the new builder. The
  relation and incidence widths of a builder are the result types of the methods that need them.
\<close>

section \<open>Errors and records\<close>

datatype hyper_participant_role = Source | Target

text \<open>The three property-layer errors exist only under a cargo feature and are not modelled.\<close>

datatype ('v, 'r, 'i) hyper_build_error =
    InvalidVertex 'v
  | InvalidHyperedge 'r
  | InvalidParticipant 'i
  | ParticipantPositionOutOfBounds 'r nat
  | DuplicateParticipant 'v hyper_participant_role
  | HyperIdOverflow nat
  | InvalidTopology bcsr_error
  | HyperSnapshotPlan plan_error

record 'v hyperedge_record =
  hr_sources :: "'v list"
  hr_targets :: "'v list"

record ('v, 'w) normalized_hyperedge_record =
  nr_sources :: "('v \<times> 'w) list"
  nr_targets :: "('v \<times> 'w) list"

section \<open>Checks on participants\<close>

definition vertex_index_checked ::
    "nat \<Rightarrow> ('v::len) word \<Rightarrow> (('v word, 'r, 'i) hyper_build_error, nat) result" where
  "vertex_index_checked vertex_count vertex = map_err (\<lambda>_. InvalidVertex vertex) (id_to_slot vertex vertex_count)"

definition hyperedge_index_checked ::
    "nat \<Rightarrow> ('r::len) word \<Rightarrow> (('v, 'r word, 'i) hyper_build_error, nat) result" where
  "hyperedge_index_checked hyperedge_count hyperedge =
     map_err (\<lambda>_. InvalidHyperedge hyperedge) (id_to_slot hyperedge hyperedge_count)"

fun ensure_vertices :: "nat \<Rightarrow> ('v::len) word list \<Rightarrow> (('v word, 'r, 'i) hyper_build_error, unit) result" where
  "ensure_vertices vertex_count [] = Ok ()"
| "ensure_vertices vertex_count (vertex # vertices) =
     and_then (vertex_index_checked vertex_count vertex) (\<lambda>_. ensure_vertices vertex_count vertices)"

text \<open>The loop over \<open>sorted.windows(2)\<close>.\<close>

fun duplicate_loop :: "hyper_participant_role \<Rightarrow> 'v list \<Rightarrow> (('v, 'r, 'i) hyper_build_error, unit) result" where
  "duplicate_loop role (first # second # rest) =
     (if first = second then Err (DuplicateParticipant first role) else duplicate_loop role (second # rest))"
| "duplicate_loop role _ = Ok ()"

definition ensure_unique_participants ::
    "('v::len) word list \<Rightarrow> hyper_participant_role \<Rightarrow> (('v word, 'r, 'i) hyper_build_error, unit) result" where
  "ensure_unique_participants participants role = duplicate_loop role (sort participants)"

text \<open>The checks of the two \<open>add_hyperedge\<close> methods, in their order, and the handle they assign.\<close>

definition check_hyperedge ::
    "nat \<Rightarrow> nat \<Rightarrow> ('v::len) word list \<Rightarrow> 'v word list \<Rightarrow> (('v word, ('r::len) word, 'i) hyper_build_error, 'r word) result" where
  "check_hyperedge vertex_count hyperedge_count sources targets =
     and_then (ensure_vertices vertex_count sources) (\<lambda>_.
     and_then (ensure_vertices vertex_count targets) (\<lambda>_.
     and_then (ensure_unique_participants sources Source) (\<lambda>_.
     and_then (ensure_unique_participants targets Target) (\<lambda>_.
       ok_or (HyperIdOverflow hyperedge_count) (from_usize hyperedge_count)))))"

section \<open>The unweighted builder\<close>

record 'v hypergraph_builder =
  hb_vertex_count :: nat
  hb_hyperedges :: "'v hyperedge_record list"

definition hypergraph_builder_new :: "'v hypergraph_builder" where
  "hypergraph_builder_new = \<lparr>hb_vertex_count = 0, hb_hyperedges = []\<rparr>"

definition hb_add_vertex ::
    "('v::len) word hypergraph_builder \<Rightarrow>
       (('v word, 'r, 'i) hyper_build_error, 'v word) result \<times> 'v word hypergraph_builder" where
  "hb_add_vertex b =
     (case from_usize (hb_vertex_count b) of
        None \<Rightarrow> (Err (HyperIdOverflow (hb_vertex_count b)), b)
      | Some ident \<Rightarrow>
          (case checked_add (hb_vertex_count b) 1 of
             None \<Rightarrow> (Err (HyperIdOverflow usize_max), b)
           | Some count \<Rightarrow> (Ok ident, b\<lparr>hb_vertex_count := count\<rparr>)))"

definition hb_add_hyperedge ::
    "('v::len) word hypergraph_builder \<Rightarrow> 'v word list \<Rightarrow> 'v word list \<Rightarrow>
       (('v word, ('r::len) word, 'i) hyper_build_error, 'r word) result \<times> 'v word hypergraph_builder" where
  "hb_add_hyperedge b sources targets =
     (case check_hyperedge (hb_vertex_count b) (length (hb_hyperedges b)) sources targets of
        Inl err \<Rightarrow> (Err err, b)
      | Inr hyperedge \<Rightarrow>
          (Ok hyperedge,
           b\<lparr>hb_hyperedges := hb_hyperedges b @ [\<lparr>hr_sources = sources, hr_targets = targets\<rparr>]\<rparr>))"

definition hb_hyperedge_count :: "'v hypergraph_builder \<Rightarrow> nat" where
  "hb_hyperedge_count b = length (hb_hyperedges b)"

definition hb_normalized_hyperedges ::
    "('v::len) word hypergraph_builder \<Rightarrow> ('v word, unit) normalized_hyperedge_record list" where
  "hb_normalized_hyperedges b =
     map (\<lambda>record.
       \<lparr>nr_sources = sort_key fst (map (\<lambda>vertex. (vertex, ())) (hr_sources record)),
        nr_targets = sort_key fst (map (\<lambda>vertex. (vertex, ())) (hr_targets record))\<rparr>) (hb_hyperedges b)"

section \<open>The weighted builder\<close>

record ('v, 'ew, 'rw, 'iw) weighted_hypergraph_builder =
  whb_vertex_count :: nat
  whb_element_weights :: "'ew list"
  whb_hyperedges :: "('v, 'iw) normalized_hyperedge_record list"
  whb_relation_weights :: "'rw list"

definition weighted_hypergraph_builder_new :: "('v, 'ew, 'rw, 'iw) weighted_hypergraph_builder" where
  "weighted_hypergraph_builder_new =
     \<lparr>whb_vertex_count = 0, whb_element_weights = [], whb_hyperedges = [], whb_relation_weights = []\<rparr>"

definition whb_add_vertex ::
    "(('v::len) word, 'ew, 'rw, 'iw) weighted_hypergraph_builder \<Rightarrow> 'ew \<Rightarrow>
       (('v word, 'r, 'i) hyper_build_error, 'v word) result \<times> ('v word, 'ew, 'rw, 'iw) weighted_hypergraph_builder" where
  "whb_add_vertex b weight =
     (case from_usize (whb_vertex_count b) of
        None \<Rightarrow> (Err (HyperIdOverflow (whb_vertex_count b)), b)
      | Some ident \<Rightarrow>
          (case checked_add (whb_vertex_count b) 1 of
             None \<Rightarrow> (Err (HyperIdOverflow usize_max), b)
           | Some count \<Rightarrow>
               (Ok ident, b\<lparr>whb_vertex_count := count, whb_element_weights := whb_element_weights b @ [weight]\<rparr>)))"

definition whb_add_hyperedge ::
    "(('v::len) word, 'ew, 'rw, 'iw) weighted_hypergraph_builder \<Rightarrow> ('v word \<times> 'iw) list \<Rightarrow> ('v word \<times> 'iw) list \<Rightarrow> 'rw \<Rightarrow>
       (('v word, ('r::len) word, 'i) hyper_build_error, 'r word) result \<times>
       ('v word, 'ew, 'rw, 'iw) weighted_hypergraph_builder" where
  "whb_add_hyperedge b sources targets relation_weight =
     (case check_hyperedge (whb_vertex_count b) (length (whb_hyperedges b)) (map fst sources) (map fst targets) of
        Inl err \<Rightarrow> (Err err, b)
      | Inr hyperedge \<Rightarrow>
          (Ok hyperedge,
           b\<lparr>whb_hyperedges := whb_hyperedges b @ [\<lparr>nr_sources = sources, nr_targets = targets\<rparr>],
             whb_relation_weights := whb_relation_weights b @ [relation_weight]\<rparr>))"

text \<open>The four weight updates: an error leaves the builder, an index out of range would panic.\<close>

definition whb_set_element_weight ::
    "(('v::len) word, 'ew, 'rw, 'iw) weighted_hypergraph_builder \<Rightarrow> 'v word \<Rightarrow> 'ew \<Rightarrow>
       (('v word, 'r, 'i) hyper_build_error, ('v word, 'ew, 'rw, 'iw) weighted_hypergraph_builder) run" where
  "whb_set_element_weight b vertex weight =
     run_then (trying (vertex_index_checked (whb_vertex_count b) vertex)) (\<lambda>index.
     run_then (reading (store_or_panic (whb_element_weights b) index weight)) (\<lambda>weights.
       Some (Ok (b\<lparr>whb_element_weights := weights\<rparr>))))"

definition whb_set_relation_weight ::
    "('v, 'ew, 'rw, 'iw) weighted_hypergraph_builder \<Rightarrow> ('r::len) word \<Rightarrow> 'rw \<Rightarrow>
       (('v, 'r word, 'i) hyper_build_error, ('v, 'ew, 'rw, 'iw) weighted_hypergraph_builder) run" where
  "whb_set_relation_weight b hyperedge weight =
     run_then (trying (hyperedge_index_checked (length (whb_hyperedges b)) hyperedge)) (\<lambda>index.
     run_then (reading (store_or_panic (whb_relation_weights b) index weight)) (\<lambda>weights.
       Some (Ok (b\<lparr>whb_relation_weights := weights\<rparr>))))"

definition set_position :: "('v \<times> 'w) list \<Rightarrow> nat \<Rightarrow> 'w \<Rightarrow> ('v \<times> 'w) list option" where
  "set_position participants position weight =
     (if position < length participants
      then Some (participants[position := (fst (participants ! position), weight)]) else None)"

definition whb_set_source_incidence_weight ::
    "('v, 'ew, 'rw, 'iw) weighted_hypergraph_builder \<Rightarrow> ('r::len) word \<Rightarrow> nat \<Rightarrow> 'iw \<Rightarrow>
       (('v, 'r word, 'i) hyper_build_error, ('v, 'ew, 'rw, 'iw) weighted_hypergraph_builder) run" where
  "whb_set_source_incidence_weight b hyperedge position weight =
     run_then (trying (hyperedge_index_checked (length (whb_hyperedges b)) hyperedge)) (\<lambda>index.
     run_then (reading (index_or_panic (whb_hyperedges b) index)) (\<lambda>record.
     run_then (trying (ok_or (ParticipantPositionOutOfBounds hyperedge position)
       (set_position (nr_sources record) position weight))) (\<lambda>sources.
       Some (Ok (b\<lparr>whb_hyperedges := (whb_hyperedges b)[index := record\<lparr>nr_sources := sources\<rparr>]\<rparr>)))))"

definition whb_set_target_incidence_weight ::
    "('v, 'ew, 'rw, 'iw) weighted_hypergraph_builder \<Rightarrow> ('r::len) word \<Rightarrow> nat \<Rightarrow> 'iw \<Rightarrow>
       (('v, 'r word, 'i) hyper_build_error, ('v, 'ew, 'rw, 'iw) weighted_hypergraph_builder) run" where
  "whb_set_target_incidence_weight b hyperedge position weight =
     run_then (trying (hyperedge_index_checked (length (whb_hyperedges b)) hyperedge)) (\<lambda>index.
     run_then (reading (index_or_panic (whb_hyperedges b) index)) (\<lambda>record.
     run_then (trying (ok_or (ParticipantPositionOutOfBounds hyperedge position)
       (set_position (nr_targets record) position weight))) (\<lambda>targets.
       Some (Ok (b\<lparr>whb_hyperedges := (whb_hyperedges b)[index := record\<lparr>nr_targets := targets\<rparr>]\<rparr>)))))"

definition whb_hyperedge_count :: "('v, 'ew, 'rw, 'iw) weighted_hypergraph_builder \<Rightarrow> nat" where
  "whb_hyperedge_count b = length (whb_hyperedges b)"

definition whb_normalized_hyperedges ::
    "(('v::len) word, 'ew, 'rw, 'iw) weighted_hypergraph_builder \<Rightarrow> ('v word, 'iw) normalized_hyperedge_record list" where
  "whb_normalized_hyperedges b =
     map (\<lambda>record.
       \<lparr>nr_sources = sort_key fst (nr_sources record), nr_targets = sort_key fst (nr_targets record)\<rparr>)
       (whb_hyperedges b)"

section \<open>Building the arrays\<close>

record ('v, 'r, 'i) frozen_hyper_topology =
  fht_vertex_count :: nat
  fht_head_offsets :: "'i list"
  fht_head_participants :: "'v list"
  fht_tail_offsets :: "'i list"
  fht_tail_participants :: "'v list"
  fht_vertex_outgoing_offsets :: "'i list"
  fht_vertex_outgoing_hyperedges :: "'r list"
  fht_vertex_incoming_offsets :: "'i list"
  fht_vertex_incoming_hyperedges :: "'r list"

fun hyper_map_offset_overflow :: "offset_overflow \<Rightarrow> ('v, 'r, 'i) hyper_build_error" where
  "hyper_map_offset_overflow (IndexOverflow value) = HyperIdOverflow value"

text \<open>One pass of \<open>build_topology\<close> over the records, on one side's participants.\<close>

fun block_loop ::
    "('i::len) word list \<Rightarrow> 'v list \<Rightarrow> 'w list \<Rightarrow> ('v \<times> 'w) list list \<Rightarrow>
       (('v, 'r, 'i word) hyper_build_error, 'i word list \<times> 'v list \<times> 'w list) result" where
  "block_loop offsets participants weights [] = Ok (offsets, participants, weights)"
| "block_loop offsets participants weights (side # sides) =
     (let participants = participants @ map fst side; weights = weights @ map snd side in
      and_then (map_err hyper_map_offset_overflow (index_from_usize (length participants))) (\<lambda>offset.
        block_loop (offsets @ [offset]) participants weights sides))"

text \<open>The inner and the outer loop of \<open>build_vertex_relation_index\<close>.\<close>

fun push_loop ::
    "'r list list \<Rightarrow> 'r \<Rightarrow> (('v::len) word \<times> 'w) list \<Rightarrow> (('v word, 'r, 'i) hyper_build_error, 'r list list) run" where
  "push_loop buckets relation_id [] = Some (Ok buckets)"
| "push_loop buckets relation_id ((vertex, weight) # rest) =
     run_then (trying (ok_or (HyperIdOverflow usize_max) (to_usize vertex))) (\<lambda>slot.
     run_then (reading (index_or_panic buckets slot)) (\<lambda>bucket.
       push_loop (buckets[slot := bucket @ [relation_id]]) relation_id rest))"

fun relation_loop ::
    "('r::len) word list list \<Rightarrow> nat \<Rightarrow> (('v::len) word \<times> 'w) list list \<Rightarrow>
       (('v word, 'r word, 'i) hyper_build_error, 'r word list list) run" where
  "relation_loop buckets relation [] = Some (Ok buckets)"
| "relation_loop buckets relation (side # sides) =
     run_then (trying (map_err hyper_map_offset_overflow (index_from_usize relation))) (\<lambda>relation_id.
     run_then (push_loop buckets relation_id side) (\<lambda>buckets.
       relation_loop buckets (relation + 1) sides))"

definition side_of :: "hyper_participant_role \<Rightarrow> ('v, 'w) normalized_hyperedge_record \<Rightarrow> ('v \<times> 'w) list" where
  "side_of role record = (case role of Source \<Rightarrow> nr_sources record | Target \<Rightarrow> nr_targets record)"

definition build_vertex_relation_index ::
    "nat \<Rightarrow> (('v::len) word, 'w) normalized_hyperedge_record list \<Rightarrow> hyper_participant_role \<Rightarrow>
       (('v word, ('r::len) word, ('i::len) word) hyper_build_error, 'i word list \<times> 'r word list) run" where
  "build_vertex_relation_index vertex_count records role =
     run_then (relation_loop (replicate vertex_count []) 0 (map (side_of role) records)) (\<lambda>buckets.
       trying (map_err hyper_map_offset_overflow (build_offset_index buckets)))"

text \<open>The capacity sums of \<open>build_topology\<close>; an overflow panics.\<close>

fun participant_count :: "nat \<Rightarrow> ('v, 'w) normalized_hyperedge_record list \<Rightarrow> nat option" where
  "participant_count so_far [] = Some so_far"
| "participant_count so_far (record # records) =
     Option.bind (checked_add (length (nr_sources record)) (length (nr_targets record))) (\<lambda>size.
     Option.bind (checked_add so_far size) (\<lambda>so_far. participant_count so_far records))"

definition build_topology ::
    "nat \<Rightarrow> (('v::len) word, 'w) normalized_hyperedge_record list \<Rightarrow>
       (('v word, ('r::len) word, ('i::len) word) hyper_build_error,
        ('v word, 'r word, 'i word) frozen_hyper_topology \<times> 'w list) run" where
  "build_topology vertex_count records =
     run_then (reading (participant_count 0 records)) (\<lambda>_.
     run_then (reading (checked_add (length records) 1)) (\<lambda>_.
     run_then (trying (map_err hyper_map_offset_overflow (index_from_usize 0))) (\<lambda>head_zero.
     run_then (trying (map_err hyper_map_offset_overflow (index_from_usize 0))) (\<lambda>tail_zero.
     run_then (trying (block_loop [head_zero] [] [] (map nr_sources records))) (\<lambda>(head_offsets, head_participants, weights).
     run_then (trying (block_loop [tail_zero] [] weights (map nr_targets records))) (\<lambda>(tail_offsets, tail_participants, weights).
     run_then (build_vertex_relation_index vertex_count records Source) (\<lambda>(outgoing_offsets, outgoing_hyperedges).
     run_then (build_vertex_relation_index vertex_count records Target) (\<lambda>(incoming_offsets, incoming_hyperedges).
       Some (Ok (\<lparr>fht_vertex_count = vertex_count, fht_head_offsets = head_offsets,
         fht_head_participants = head_participants, fht_tail_offsets = tail_offsets,
         fht_tail_participants = tail_participants, fht_vertex_outgoing_offsets = outgoing_offsets,
         fht_vertex_outgoing_hyperedges = outgoing_hyperedges, fht_vertex_incoming_offsets = incoming_offsets,
         fht_vertex_incoming_hyperedges = incoming_hyperedges\<rparr>, weights))))))))))"

definition fht_sections :: "('v, 'r, 'i) frozen_hyper_topology \<Rightarrow> ('i, 'v, 'r) bcsr_sections" where
  "fht_sections t =
     \<lparr>head_offsets = fht_head_offsets t, head_participants = fht_head_participants t,
      tail_offsets = fht_tail_offsets t, tail_participants = fht_tail_participants t,
      vertex_outgoing_offsets = fht_vertex_outgoing_offsets t,
      vertex_outgoing_hyperedges = fht_vertex_outgoing_hyperedges t,
      vertex_incoming_offsets = fht_vertex_incoming_offsets t,
      vertex_incoming_hyperedges = fht_vertex_incoming_hyperedges t\<rparr>"

definition fht_as_view :: "('v, 'r, 'i) frozen_hyper_topology \<Rightarrow> ('i, 'v, 'r) bcsr_hypergraph" where
  "fht_as_view t = bcsr_from_validated_sections (fht_sections t)"

definition fht_relation_count :: "('v, 'r, 'i) frozen_hyper_topology \<Rightarrow> nat" where
  "fht_relation_count t = length (fht_head_offsets t) - 1"

definition fht_total_participants :: "('v, 'r, 'i) frozen_hyper_topology \<Rightarrow> nat" where
  "fht_total_participants t = min (length (fht_head_participants t) + length (fht_tail_participants t)) usize_max"

definition validate_frozen_topology ::
    "(('v::len) word, ('r::len) word, ('i::len) word) frozen_hyper_topology \<Rightarrow>
       (('v word, 'r word, 'i word) hyper_build_error, unit) run" where
  "validate_frozen_topology t =
     map_option (map_err InvalidTopology)
       (run_then (bcsr_open_with (fht_sections t) StrictLevel) (\<lambda>view. Some (Ok ())))"

record ('v, 'r, 'i) frozen_hypergraph =
  fh_topology :: "('v, 'r, 'i) frozen_hyper_topology"

record ('v, 'r, 'i, 'ew, 'rw, 'iw) frozen_weighted_hypergraph =
  fwh_topology :: "('v, 'r, 'i) frozen_hyper_topology"
  fwh_element_weights :: "'ew list"
  fwh_relation_weights :: "'rw list"
  fwh_incidence_weights :: "'iw list"

definition hb_freeze ::
    "('v::len) word hypergraph_builder \<Rightarrow>
       (('v word, ('r::len) word, ('i::len) word) hyper_build_error, ('v word, 'r word, 'i word) frozen_hypergraph) run" where
  "hb_freeze b =
     run_then (build_topology (hb_vertex_count b) (hb_normalized_hyperedges b)) (\<lambda>(topology, weights).
     run_then (validate_frozen_topology topology) (\<lambda>_.
       Some (Ok \<lparr>fh_topology = topology\<rparr>)))"

definition whb_freeze ::
    "(('v::len) word, 'ew, 'rw, 'iw) weighted_hypergraph_builder \<Rightarrow>
       (('v word, ('r::len) word, ('i::len) word) hyper_build_error,
        ('v word, 'r word, 'i word, 'ew, 'rw, 'iw) frozen_weighted_hypergraph) run" where
  "whb_freeze b =
     run_then (build_topology (whb_vertex_count b) (whb_normalized_hyperedges b)) (\<lambda>(topology, incidence_weights).
     run_then (validate_frozen_topology topology) (\<lambda>_.
       Some (Ok \<lparr>fwh_topology = topology, fwh_element_weights = whb_element_weights b,
                 fwh_relation_weights = whb_relation_weights b, fwh_incidence_weights = incidence_weights\<rparr>)))"

section \<open>Accessors of a frozen topology\<close>

text \<open>The macro implements these once for both frozen graphs; every other query delegates to the view.\<close>

definition fht_element_count :: "('v, 'r, 'i) frozen_hyper_topology \<Rightarrow> nat" where
  "fht_element_count t = fht_vertex_count t"

definition fht_contains_element :: "(('v::len) word, 'r, 'i) frozen_hyper_topology \<Rightarrow> 'v word \<Rightarrow> bool" where
  "fht_contains_element t element =
     (case to_usize element of Some slot \<Rightarrow> slot < fht_vertex_count t | None \<Rightarrow> False)"

definition fht_contains_relation :: "('v, ('r::len) word, 'i) frozen_hyper_topology \<Rightarrow> 'r word \<Rightarrow> bool" where
  "fht_contains_relation t relation =
     (case to_usize relation of Some slot \<Rightarrow> slot < fht_relation_count t | None \<Rightarrow> False)"

definition fht_contains_incidence :: "('v, 'r, ('i::len) word) frozen_hyper_topology \<Rightarrow> 'i word \<Rightarrow> bool" where
  "fht_contains_incidence t incidence =
     (case to_usize incidence of Some slot \<Rightarrow> slot < fht_total_participants t | None \<Rightarrow> False)"

definition fht_element_index :: "(('v::len) word, 'r, 'i) frozen_hyper_topology \<Rightarrow> 'v word \<Rightarrow> nat" where
  "fht_element_index t element = (case to_usize element of Some slot \<Rightarrow> slot | None \<Rightarrow> usize_max)"

definition fht_relation_index :: "('v, ('r::len) word, 'i) frozen_hyper_topology \<Rightarrow> 'r word \<Rightarrow> nat" where
  "fht_relation_index t relation = (case to_usize relation of Some slot \<Rightarrow> slot | None \<Rightarrow> usize_max)"

definition fht_incidence_index :: "('v, 'r, ('i::len) word) frozen_hyper_topology \<Rightarrow> 'i word \<Rightarrow> nat" where
  "fht_incidence_index t incidence = (case to_usize incidence of Some slot \<Rightarrow> slot | None \<Rightarrow> usize_max)"

definition fht_incidence_role ::
    "('v, 'r, ('i::len) word) frozen_hyper_topology \<Rightarrow> 'i word \<Rightarrow> hyper_participant_role option" where
  "fht_incidence_role t incidence =
     map_option (\<lambda>role. case role of Head \<Rightarrow> Source | Tail \<Rightarrow> Target) (bcsr_incidence_role (fht_as_view t) incidence)"

definition fht_local_element_id :: "(('v::len) word, 'r, 'i) frozen_hyper_topology \<Rightarrow> 'v word \<Rightarrow> 'v word option" where
  "fht_local_element_id t canonical = (if fht_contains_element t canonical then Some canonical else None)"

definition fht_local_relation_id :: "('v, ('r::len) word, 'i) frozen_hyper_topology \<Rightarrow> 'r word \<Rightarrow> 'r word option" where
  "fht_local_relation_id t canonical = (if fht_contains_relation t canonical then Some canonical else None)"

definition fht_local_incidence_id :: "('v, 'r, ('i::len) word) frozen_hyper_topology \<Rightarrow> 'i word \<Rightarrow> 'i word option" where
  "fht_local_incidence_id t canonical = (if fht_contains_incidence t canonical then Some canonical else None)"

definition fwh_element_weight ::
    "(('v::len) word, 'r, 'i, 'ew, 'rw, 'iw) frozen_weighted_hypergraph \<Rightarrow> 'v word \<Rightarrow> 'ew option" where
  "fwh_element_weight g element = index_or_panic (fwh_element_weights g) (slot_or_max element)"

definition fwh_relation_weight ::
    "('v, ('r::len) word, 'i, 'ew, 'rw, 'iw) frozen_weighted_hypergraph \<Rightarrow> 'r word \<Rightarrow> 'rw option" where
  "fwh_relation_weight g relation = index_or_panic (fwh_relation_weights g) (slot_or_max relation)"

definition fwh_incidence_weight ::
    "('v, 'r, ('i::len) word, 'ew, 'rw, 'iw) frozen_weighted_hypergraph \<Rightarrow> 'i word \<Rightarrow> 'iw option" where
  "fwh_incidence_weight g incidence = index_or_panic (fwh_incidence_weights g) (slot_or_max incidence)"

section \<open>Rows of a hyperedge list\<close>

text \<open>
  The vertex-major side of a list of participant sets: the hyperedges that list a vertex, in order.
  Together the two sides are a bipartite index.
\<close>

definition rows_of :: "nat list list \<Rightarrow> nat \<Rightarrow> nat list" where
  "rows_of sides v = filter (\<lambda>h. v \<in> set (sides ! h)) [0..<length sides]"

definition sides_ok :: "nat \<times> nat list list \<Rightarrow> bool" where
  "sides_ok g \<longleftrightarrow> (\<forall>side \<in> set (snd g). distinct side \<and> (\<forall>v \<in> set side. v < fst g))"

interpretation built: bipartite_index sides_ok fst "\<lambda>g. length (snd g)" "\<lambda>g h. snd g ! h" "\<lambda>g. rows_of (snd g)"
proof
  fix g :: "nat \<times> nat list list" and h v :: nat
  assume g: "sides_ok g"
  show "h < length (snd g) \<Longrightarrow> v < fst g \<Longrightarrow> v \<in> set (snd g ! h) \<longleftrightarrow> h \<in> set (rows_of (snd g) v)"
    by (simp add: rows_of_def)
  show "h < length (snd g) \<Longrightarrow> v \<in> set (snd g ! h) \<Longrightarrow> v < fst g"
    using g by (auto simp: sides_ok_def)
  show "h \<in> set (rows_of (snd g) v) \<Longrightarrow> h < length (snd g)" by (simp add: rows_of_def)
  show "h < length (snd g) \<Longrightarrow> distinct (snd g ! h)" using g by (auto simp: sides_ok_def)
  show "distinct (rows_of (snd g) v)" by (simp add: rows_of_def)
qed

lemma length_concat_sum: "length (concat xss) = (\<Sum>i < length xss. length (xss ! i))"
  by (simp add: length_concat sum_list_sum_nth atLeast0LessThan)

text \<open>Both directions hold equally many entries.\<close>

lemma rows_total:
  assumes "sides_ok (n, sides)" "length rows = n" "\<And>v. v < n \<Longrightarrow> length (rows ! v) = length (rows_of sides v)"
  shows "length (concat rows) = length (concat sides)"
proof -
  have "length (concat rows) = (\<Sum>v < n. length (rows_of sides v))"
    using assms(2,3) by (simp add: length_concat_sum)
  then show ?thesis
    using built.handshake [OF assms(1)] by (simp add: length_concat_sum)
qed

lemma rows_of_sorted: "sorted_wrt (<) (rows_of sides v)"
  by (simp add: rows_of_def sorted_wrt_filter)

section \<open>The vertex-major pass\<close>

lemma push_loop_Ok:
  assumes "distinct (map fst side)" "\<And>x. x \<in> set side \<Longrightarrow> unat (fst x) < length buckets" "length buckets \<le> usize_max"
  shows "\<exists>buckets'. (push_loop buckets relation_id side :: (('v::len word, 'r, 'i) hyper_build_error, 'r list list) run) =
      Some (Ok buckets') \<and> length buckets' = length buckets \<and>
    (\<forall>v < length buckets. buckets' ! v =
       buckets ! v @ (if v \<in> set (map (unat \<circ> fst) side) then [relation_id] else []))"
  using assms
proof (induction side arbitrary: buckets)
  case Nil
  then show ?case by simp
next
  case (Cons x side)
  obtain vertex weight where x: "x = (vertex, weight)" by force
  let ?slot = "unat vertex" and ?b = "buckets[unat vertex := buckets ! unat vertex @ [relation_id]]"
  have slot: "?slot < length buckets" using Cons.prems(2) [of x] x by simp
  have "\<exists>buckets'. (push_loop ?b relation_id side :: (('v word, 'r, 'i) hyper_build_error, 'r list list) run) =
        Some (Ok buckets') \<and> length buckets' = length ?b \<and>
      (\<forall>v < length ?b. buckets' ! v = ?b ! v @ (if v \<in> set (map (unat \<circ> fst) side) then [relation_id] else []))"
    by (rule Cons.IH) (use Cons.prems in auto)
  then obtain buckets' where r:
    "(push_loop ?b relation_id side :: (('v word, 'r, 'i) hyper_build_error, 'r list list) run) = Some (Ok buckets')" "length buckets' = length buckets"
    "\<And>v. v < length buckets \<Longrightarrow> buckets' ! v = ?b ! v @ (if v \<in> set (map (unat \<circ> fst) side) then [relation_id] else [])"
    by auto
  have fresh: "?slot \<notin> set (map (unat \<circ> fst) side)"
    using Cons.prems(1) unat_mem_iff [of vertex "fst ` set side"] by (simp add: x image_comp comp_def)
  have "to_usize vertex = Some ?slot" using slot Cons.prems(3) by (simp add: to_usize_def)
  with slot r(1) have "(push_loop buckets relation_id (x # side) ::
      (('v word, 'r, 'i) hyper_build_error, 'r list list) run) = Some (Ok buckets')" by (simp add: x)
  moreover have "buckets' ! v = buckets ! v @ (if v \<in> set (map (unat \<circ> fst) (x # side)) then [relation_id] else [])"
    if "v < length buckets" for v
    using r(3) [OF that] fresh that by (cases "v = ?slot") (simp_all add: x)
  ultimately show ?case using r(2) by blast
qed

lemma relation_loop_Ok:
  assumes "\<And>side. side \<in> set sides \<Longrightarrow> distinct (map fst side) \<and> (\<forall>x \<in> set side. unat (fst x) < length buckets)"
    and "length buckets \<le> usize_max" and "k + length sides \<le> 2 ^ LENGTH('r)"
  shows "\<exists>buckets'. (relation_loop buckets k sides ::
      (('v::len word, ('r::len) word, 'i) hyper_build_error, 'r word list list) run) = Some (Ok buckets') \<and>
    length buckets' = length buckets \<and>
    (\<forall>v < length buckets. buckets' ! v = buckets ! v @
       map word_of_nat (filter (\<lambda>h. v \<in> set (map (unat \<circ> fst) (sides ! (h - k)))) [k..<k + length sides]))"
  using assms
proof (induction sides arbitrary: buckets k)
  case Nil
  then show ?case by simp
next
  case (Cons side sides)
  obtain b1 where b1: "(push_loop buckets (word_of_nat k) side ::
      (('v word, 'r word, 'i) hyper_build_error, 'r word list list) run) = Some (Ok b1)" "length b1 = length buckets"
    "\<And>v. v < length buckets \<Longrightarrow> b1 ! v = buckets ! v @ (if v \<in> set (map (unat \<circ> fst) side) then [word_of_nat k] else [])"
    using push_loop_Ok [of side buckets "word_of_nat k"] Cons.prems by auto
  have ih: "\<exists>b2. (relation_loop b1 (Suc k) sides ::
        (('v word, 'r word, 'i) hyper_build_error, 'r word list list) run) = Some (Ok b2) \<and> length b2 = length b1 \<and>
      (\<forall>v < length b1. b2 ! v = b1 ! v @
         map word_of_nat (filter (\<lambda>h. v \<in> set (map (unat \<circ> fst) (sides ! (h - Suc k)))) [Suc k..<Suc k + length sides]))"
    by (rule Cons.IH) (use Cons.prems b1(2) in auto)
  then obtain b2 where b2: "(relation_loop b1 (Suc k) sides ::
        (('v word, 'r word, 'i) hyper_build_error, 'r word list list) run) = Some (Ok b2)" "length b2 = length b1"
    "\<And>v. v < length b1 \<Longrightarrow> b2 ! v = b1 ! v @
       map word_of_nat (filter (\<lambda>h. v \<in> set (map (unat \<circ> fst) (sides ! (h - Suc k)))) [Suc k..<Suc k + length sides])"
    by blast
  have "index_from_usize k = Ok (word_of_nat k :: 'r word)"
    using Cons.prems(3) by (simp add: index_from_usize_def from_usize_def)
  then have run: "(relation_loop buckets k (side # sides) ::
        (('v word, 'r word, 'i) hyper_build_error, 'r word list list) run) = Some (Ok b2)" using b1(1) b2(1) by simp
  have shift: "filter (\<lambda>h. v \<in> set (map (unat \<circ> fst) (sides ! (h - Suc k)))) [Suc k..<Suc k + length sides] =
      filter (\<lambda>h. v \<in> set (map (unat \<circ> fst) ((side # sides) ! (h - k)))) [Suc k..<Suc k + length sides]" for v
    by (rule filter_cong) (auto simp: nth_Cons' Suc_diff_Suc)
  have "b2 ! v = buckets ! v @ map word_of_nat
      (filter (\<lambda>h. v \<in> set (map (unat \<circ> fst) ((side # sides) ! (h - k)))) [k..<k + length (side # sides)])"
    if "v < length buckets" for v
  proof -
    have "b2 ! v = b1 ! v @ map word_of_nat
        (filter (\<lambda>h. v \<in> set (map (unat \<circ> fst) ((side # sides) ! (h - k)))) [Suc k..<Suc k + length sides])"
      using b2(3) [of v] that by (simp only: b1(2) shift)
    with b1(3) [OF that] show ?thesis by (simp add: upt_conv_Cons del: upt_Suc)
  qed
  with run b1(2) b2(2) show ?case by (intro exI [of _ b2]) simp
qed

section \<open>The built arrays\<close>

definition ids_of :: "(('v::len) word \<times> 'w) list \<Rightarrow> nat list" where
  "ids_of side = map (unat \<circ> fst) side"

definition records_ok :: "nat \<Rightarrow> (('v::len) word, 'w) normalized_hyperedge_record list \<Rightarrow> bool" where
  "records_ok n records \<longleftrightarrow>
     (\<forall>r \<in> set records. \<forall>role. sorted_wrt (<) (ids_of (side_of role r)) \<and> (\<forall>v \<in> set (ids_of (side_of role r)). v < n))"

definition vertex_rows :: "nat \<Rightarrow> (('v::len) word \<times> 'w) list list \<Rightarrow> ('r::len) word list list" where
  "vertex_rows n sides = map (\<lambda>v. map word_of_nat (rows_of (map ids_of sides) v)) [0..<n]"

lemma records_ok_sides:
  assumes "records_ok n records"
  shows "sides_ok (n, map ids_of (map (side_of role) records))"
  using assms by (auto simp: sides_ok_def records_ok_def strict_sorted_iff)

lemma block_loop_eq:
  "block_loop (offsets :: ('i::len) word list) participants weights sides =
     and_then (map_err hyper_map_offset_overflow (offset_index_loop offsets participants (map (map fst) sides)))
       (\<lambda>(o', p'). Ok (o', p', weights @ concat (map (map snd) sides)))"
proof (induction sides arbitrary: offsets participants weights)
  case Nil
  then show ?case by simp
next
  case (Cons side sides)
  then show ?case
    by (cases "index_from_usize (length participants + length side) :: (offset_overflow, 'i word) result")
      (simp_all add: Let_def)
qed

lemma block_loop_build:
  "index_from_usize 0 = Ok zero \<Longrightarrow> block_loop [zero] [] weights sides =
     and_then (map_err hyper_map_offset_overflow (build_offset_index (map (map fst) sides)))
       (\<lambda>(o', p'). Ok (o', p', weights @ concat (map (map snd) sides)))"
  by (simp add: block_loop_eq build_offset_index_def)

lemma build_vertex_relation_index_eq:
  assumes "records_ok n records" "n \<le> usize_max" "length records \<le> 2 ^ LENGTH('r)"
  shows "(build_vertex_relation_index n records role ::
      (('v::len word, ('r::len) word, ('i::len) word) hyper_build_error, 'i word list \<times> 'r word list) run) =
    Some (map_err hyper_map_offset_overflow (build_offset_index (vertex_rows n (map (side_of role) records))))"
proof -
  let ?sides = "map (side_of role) records" and ?b0 = "replicate n [] :: 'r word list list"
  have ok: "distinct (map fst side) \<and> (\<forall>x \<in> set side. unat (fst x) < length ?b0)" if "side \<in> set ?sides" for side
  proof -
    from that assms(1) have s: "sorted_wrt (<) (ids_of side)" "\<forall>v \<in> set (ids_of side). v < n"
      by (auto simp: records_ok_def)
    from s(1) have "distinct (map unat (map fst side))" by (simp add: ids_of_def strict_sorted_iff)
    then have "distinct (map fst side)" unfolding distinct_map by blast
    with s(2) show ?thesis by (auto simp: ids_of_def)
  qed
  have "\<exists>buckets'. (relation_loop ?b0 0 ?sides ::
        (('v word, 'r word, 'i word) hyper_build_error, 'r word list list) run) = Some (Ok buckets') \<and>
      length buckets' = length ?b0 \<and>
      (\<forall>v < length ?b0. buckets' ! v = ?b0 ! v @
         map word_of_nat (filter (\<lambda>h. v \<in> set (map (unat \<circ> fst) (?sides ! (h - 0)))) [0..<0 + length ?sides]))"
    by (rule relation_loop_Ok) (use ok assms in auto)
  then obtain buckets' where b: "(relation_loop ?b0 0 ?sides ::
        (('v word, 'r word, 'i word) hyper_build_error, 'r word list list) run) = Some (Ok buckets')"
    "length buckets' = n"
    "\<And>v. v < n \<Longrightarrow> buckets' ! v = map word_of_nat (filter (\<lambda>h. v \<in> set (map (unat \<circ> fst) (?sides ! h))) [0..<length ?sides])"
    by auto
  have "filter (\<lambda>h. v \<in> set (map (unat \<circ> fst) (?sides ! h))) [0..<length ?sides] = rows_of (map ids_of ?sides) v" for v
    unfolding rows_of_def by (rule filter_cong) (auto simp: ids_of_def)
  then have "buckets' = vertex_rows n ?sides"
    by (intro nth_equalityI) (simp_all add: b(2,3) vertex_rows_def)
  with b(1) show ?thesis by (simp add: build_vertex_relation_index_def)
qed

lemma participant_count_Some:
  "so_far + length (concat (map nr_sources records)) + length (concat (map nr_targets records)) \<le> usize_max \<Longrightarrow>
     participant_count so_far records =
       Some (so_far + length (concat (map nr_sources records)) + length (concat (map nr_targets records)))"
  by (induction records arbitrary: so_far) (simp_all add: checked_add_def)

lemma length_concat_vertex_rows:
  assumes "records_ok n records"
  shows "length (concat (vertex_rows n (map (side_of role) records) :: ('r::len) word list list)) =
    length (concat (map (map fst) (map (side_of role) records)))"
proof -
  have "length (concat (vertex_rows n (map (side_of role) records) :: 'r word list list)) =
      length (concat (map ids_of (map (side_of role) records)))"
    by (rule rows_total [OF records_ok_sides [OF assms]]) (simp_all add: vertex_rows_def)
  then show ?thesis by (simp add: length_concat comp_def ids_of_def)
qed

lemma side_of_simps [simp]: "side_of Source = nr_sources" "side_of Target = nr_targets"
  by (auto simp: side_of_def)

lemma hyper_overflow: "\<exists>value. hyper_map_offset_overflow issue = HyperIdOverflow value"
  by (cases issue) simp

text \<open>The four offset indexes that a built topology holds.\<close>

definition built_from ::
    "nat \<Rightarrow> (('v::len) word, 'w) normalized_hyperedge_record list \<Rightarrow>
       ('v word, ('r::len) word, ('i::len) word) frozen_hyper_topology \<Rightarrow> bool" where
  "built_from n records t \<longleftrightarrow>
     fht_vertex_count t = n \<and>
     build_offset_index (map (map fst) (map nr_sources records)) = Ok (fht_head_offsets t, fht_head_participants t) \<and>
     build_offset_index (map (map fst) (map nr_targets records)) = Ok (fht_tail_offsets t, fht_tail_participants t) \<and>
     build_offset_index (vertex_rows n (map nr_sources records)) =
       Ok (fht_vertex_outgoing_offsets t, fht_vertex_outgoing_hyperedges t) \<and>
     build_offset_index (vertex_rows n (map nr_targets records)) =
       Ok (fht_vertex_incoming_offsets t, fht_vertex_incoming_hyperedges t)"

definition records_small :: "nat \<Rightarrow> ('v, 'w) normalized_hyperedge_record list \<Rightarrow> ('r::len) itself \<Rightarrow> bool" where
  "records_small n records T \<longleftrightarrow>
     n < usize_max \<and> length records < usize_max \<and> length records \<le> 2 ^ LENGTH('r) \<and>
     length (concat (map nr_sources records)) + length (concat (map nr_targets records)) < usize_max"

lemma length_concat_map_map: "length (concat (map (map f) xss)) = length (concat xss)"
  by (simp add: map_concat [symmetric])

lemma build_topology_steps:
  fixes records :: "(('v::len) word, 'w) normalized_hyperedge_record list"
  assumes "records_ok n records" "records_small n records TYPE('r::len)"
  defines "idx \<equiv> \<lambda>buckets. map_err hyper_map_offset_overflow (build_offset_index buckets)"
  shows "(build_topology n records :: (('v word, 'r word, ('i::len) word) hyper_build_error,
        ('v word, 'r word, 'i word) frozen_hyper_topology \<times> 'w list) run) =
    Some (and_then (idx (map (map fst) (map nr_sources records))) (\<lambda>(ho, hp).
      and_then (idx (map (map fst) (map nr_targets records))) (\<lambda>(tlo, tp).
      and_then (map_err hyper_map_offset_overflow (build_offset_index (vertex_rows n (map nr_sources records)))) (\<lambda>(oo, oh).
      and_then (map_err hyper_map_offset_overflow (build_offset_index (vertex_rows n (map nr_targets records)))) (\<lambda>(io, ih).
        Ok (\<lparr>fht_vertex_count = n, fht_head_offsets = ho, fht_head_participants = hp, fht_tail_offsets = tlo,
             fht_tail_participants = tp, fht_vertex_outgoing_offsets = oo, fht_vertex_outgoing_hyperedges = oh,
             fht_vertex_incoming_offsets = io, fht_vertex_incoming_hyperedges = ih\<rparr>,
            concat (map (map snd) (map nr_sources records)) @ concat (map (map snd) (map nr_targets records))))))))"
    (is "?run = Some ?steps")
proof -
  have small: "n \<le> usize_max" "length records \<le> 2 ^ LENGTH('r)" "checked_add (length records) (Suc 0) = Some (Suc (length records))"
    "participant_count 0 records \<noteq> None"
    using assms(2) participant_count_Some [of 0 records] by (auto simp: records_small_def)
  note rel = build_vertex_relation_index_eq [OF assms(1) small(1,2)]
  have zero: "index_from_usize 0 = Ok (0 :: 'i word)" by (simp add: index_from_usize_def from_usize_def)
  note blocks = block_loop_build [OF zero]
  from small(4) obtain total_count where count: "participant_count 0 records = Some total_count" by blast
  show ?thesis
    by (cases "build_offset_index (map (map fst) (map nr_sources records)) :: (offset_overflow, 'i word list \<times> 'v word list) result";
        cases "build_offset_index (map (map fst) (map nr_targets records)) :: (offset_overflow, 'i word list \<times> 'v word list) result";
        cases "build_offset_index (vertex_rows n (map nr_sources records)) :: (offset_overflow, 'i word list \<times> 'r word list) result";
        cases "build_offset_index (vertex_rows n (map nr_targets records)) :: (offset_overflow, 'i word list \<times> 'r word list) result")
      (simp_all add: build_topology_def count small(3) zero blocks rel idx_def split_beta)
qed

lemma build_topology_Ok:
  fixes records :: "(('v::len) word, 'w) normalized_hyperedge_record list"
  assumes "records_ok n records" "records_small n records TYPE('r::len)"
    and "length (concat (map nr_sources records)) < 2 ^ LENGTH('i)" "length (concat (map nr_targets records)) < 2 ^ LENGTH('i)"
  shows "\<exists>t :: ('v word, 'r word, ('i::len) word) frozen_hyper_topology. built_from n records t \<and>
    build_topology n records =
      Some (Ok (t, concat (map (map snd) (map nr_sources records)) @ concat (map (map snd) (map nr_targets records))))"
proof -
  have len: "length (concat (vertex_rows n (map nr_sources records) :: 'r word list list)) < 2 ^ LENGTH('i)"
    "length (concat (vertex_rows n (map nr_targets records) :: 'r word list list)) < 2 ^ LENGTH('i)"
    using length_concat_vertex_rows [OF assms(1), of Source, where 'r = 'r]
      length_concat_vertex_rows [OF assms(1), of Target, where 'r = 'r] assms(3,4)
    by (simp_all only: side_of_simps length_concat_map_map)
  from assms(3,4) have "length (concat (map (map fst) (map nr_sources records))) < 2 ^ LENGTH('i)"
    "length (concat (map (map fst) (map nr_targets records))) < 2 ^ LENGTH('i)"
    by (simp_all only: length_concat_map_map)
  then obtain ho hp tlo tp where h: "build_offset_index (map (map fst) (map nr_sources records)) = Ok (ho :: 'i word list, hp)"
    and t: "build_offset_index (map (map fst) (map nr_targets records)) = Ok (tlo :: 'i word list, tp)"
    unfolding build_offset_index_total by blast
  from len obtain oo oh io ih where o: "build_offset_index (vertex_rows n (map nr_sources records)) = Ok (oo :: 'i word list, oh :: 'r word list)"
    and i: "build_offset_index (vertex_rows n (map nr_targets records)) = Ok (io :: 'i word list, ih :: 'r word list)"
    unfolding build_offset_index_total by blast
  show ?thesis
    unfolding build_topology_steps [OF assms(1,2)] h t o i by (simp add: built_from_def h [simplified] t [simplified] o i)
qed

lemma build_topology_Err:
  fixes records :: "(('v::len) word, 'w) normalized_hyperedge_record list"
  assumes "records_ok n records" "records_small n records TYPE('r::len)"
    and "\<not> (length (concat (map nr_sources records)) < 2 ^ LENGTH('i) \<and> length (concat (map nr_targets records)) < 2 ^ LENGTH('i))"
  shows "\<exists>value. (build_topology n records :: (('v word, 'r word, ('i::len) word) hyper_build_error,
      ('v word, 'r word, 'i word) frozen_hyper_topology \<times> 'w list) run) = Some (Err (HyperIdOverflow value))"
proof -
  let ?h = "build_offset_index (map (map fst) (map nr_sources records)) :: (offset_overflow, 'i word list \<times> 'v word list) result"
  let ?t = "build_offset_index (map (map fst) (map nr_targets records)) :: (offset_overflow, 'i word list \<times> 'v word list) result"
  have "(\<nexists>x. ?h = Ok x) \<or> (\<nexists>x. ?t = Ok x)"
    using assms(3) build_offset_index_total [of "map (map fst) (map nr_sources records)", where 'o = 'i]
      build_offset_index_total [of "map (map fst) (map nr_targets records)", where 'o = 'i]
    unfolding length_concat_map_map by auto
  then consider e where "?h = Err e" | x e where "?h = Ok x" "?t = Err e"
    by (cases ?h; cases ?t) auto
  then show ?thesis
  proof cases
    case 1
    with hyper_overflow [of e] show ?thesis
      unfolding build_topology_steps [OF assms(1,2)] by (auto simp: 1)
  next
    case 2
    with hyper_overflow [of e] show ?thesis
      unfolding build_topology_steps [OF assms(1,2)] by (auto simp: 2 split: prod.splits)
  qed
qed

section \<open>The built arrays pass the strict validation\<close>

lemma built_direction:
  assumes b: "build_offset_index buckets = Ok (offsets, items)"
    and "length buckets < usize_max" "length (concat buckets) \<le> usize_max" "bound \<le> usize_max"
    and ok: "\<And>bucket. bucket \<in> set buckets \<Longrightarrow> sorted_wrt (<) (map unat bucket) \<and> (\<forall>w \<in> set bucket. unat w < bound)"
  shows "direction_ok offsets (length buckets) items bound"
    and "i < length buckets \<Longrightarrow> bucket offsets items i = buckets ! i"
proof -
  show rows: "bucket offsets items i = buckets ! i" if "i < length buckets" for i
    unfolding bucket_def by (rule build_offset_index_bucket [OF b that])
  have "offsets_ok offsets (length buckets) (length items)"
    by (rule build_offset_index_wf [OF b]) (use assms in auto)
  moreover have "unat w < bound" if "w \<in> set items" for w
    using that ok unfolding build_offset_index_Ok(1) [OF b] by auto
  moreover from this have "fits_usize items" using assms(4) by (fastforce simp: fits_usize_def)
  ultimately show "direction_ok offsets (length buckets) items bound"
    using ok by (simp add: direction_ok_def bucket_ids_def rows)
qed

text \<open>One role side of a built topology: both directions are well formed and agree.\<close>

lemma built_side:
  fixes records :: "(('v::len) word, 'w) normalized_hyperedge_record list"
  assumes ok: "records_ok n records" and small: "records_small n records TYPE('r::len)"
    and h: "build_offset_index (map (map fst) (map (side_of role) records)) = Ok (eo :: ('i::len) word list, ev)"
    and v: "build_offset_index (vertex_rows n (map (side_of role) records)) = Ok (vo :: 'i word list, vv :: 'r word list)"
    and total_small: "length (concat (map (side_of role) records)) \<le> usize_max"
  shows "direction_ok eo (length records) ev n" "direction_ok vo n vv (length records)" "length ev = length vv"
    "same_incidences eo ev vo vv n (length records)"
    "\<And>i. i < length records \<Longrightarrow> bucket eo ev i = map fst (side_of role (records ! i))"
proof -
  let ?sides = "map (side_of role) records"
  have n: "n < usize_max" "length records < usize_max" "length records \<le> 2 ^ LENGTH('r)"
    using small by (simp_all add: records_small_def)
  have len: "length (concat (map (map fst) ?sides)) \<le> usize_max"
    using total_small by (simp only: length_concat_map_map)
  have edge_ok: "sorted_wrt (<) (map unat bucket) \<and> (\<forall>w \<in> set bucket. unat w < n)"
    if "bucket \<in> set (map (map fst) ?sides)" for bucket
    using that ok by (fastforce simp: records_ok_def ids_of_def comp_def)
  have row: "map unat (map word_of_nat (rows_of (map ids_of ?sides) v) :: 'r word list) = rows_of (map ids_of ?sides) v" for v
    by (rule nth_equalityI) (use n(3) in \<open>auto simp: rows_of_def unat_word_of_nat dest!: nth_mem\<close>)
  show edges: "direction_ok eo (length records) ev n"
    using built_direction(1) [OF h _ len _ edge_ok] n by simp
  show "\<And>i. i < length records \<Longrightarrow> bucket eo ev i = map fst (side_of role (records ! i))"
    using built_direction(2) [OF h _ len _ edge_ok] n by simp
  have vertex_ok: "sorted_wrt (<) (map unat bucket) \<and> (\<forall>w \<in> set bucket. unat w < length records)"
    if "bucket \<in> set (vertex_rows n ?sides :: 'r word list list)" for bucket
  proof -
    from that obtain v where v: "bucket = map word_of_nat (rows_of (map ids_of ?sides) v)"
      by (auto simp: vertex_rows_def)
    then have eq: "map unat bucket = rows_of (map ids_of ?sides) v" by (simp only: row)
    have "set (map unat bucket) \<subseteq> {..<length records}" unfolding eq by (auto simp: rows_of_def)
    then have "\<forall>w \<in> set bucket. unat w < length records" by auto
    with rows_of_sorted [of "map ids_of ?sides" v] show ?thesis by (simp only: eq simp_thms)
  qed
  have total_rows: "length (concat (vertex_rows n ?sides :: 'r word list list)) = length (concat (map (map fst) ?sides))"
    by (rule length_concat_vertex_rows [OF ok])
  have nrows: "length (vertex_rows n ?sides :: 'r word list list) = n" by (simp add: vertex_rows_def)
  show "direction_ok vo n vv (length records)"
    using built_direction(1) [OF v _ _ _ vertex_ok] n len total_rows nrows by simp
  show "length ev = length vv"
    unfolding build_offset_index_Ok(1) [OF h] build_offset_index_Ok(1) [OF v] total_rows ..
  have "bucket_ids vo vv i = rows_of (map ids_of ?sides) i" if "i < n" for i
    using built_direction(2) [OF v _ _ _ vertex_ok, of i] that n len total_rows nrows row [of i]
    by (simp add: bucket_ids_def vertex_rows_def)
  moreover have "bucket_ids eo ev i = ids_of (side_of role (records ! i))" if "i < length records" for i
    using built_direction(2) [OF h _ len _ edge_ok, of i] n that by (simp add: bucket_ids_def ids_of_def)
  ultimately show "same_incidences eo ev vo vv n (length records)"
    by (simp add: same_incidences_def rows_of_def)
qed

lemma built_strict:
  fixes records :: "(('v::len) word, 'w) normalized_hyperedge_record list"
    and t :: "('v word, ('r::len) word, ('i::len) word) frozen_hyper_topology"
  assumes ok: "records_ok n records" and small: "records_small n records TYPE('r)" and t: "built_from n records t"
  shows "bcsr_layout_ok (fht_sections t) n (length records)" "bcsr_cross_ok (fht_sections t) n (length records)"
    "bcsr_addressable (fht_sections t)"
    "fht_as_view t = \<lparr>bh_counts = bcsr_counts (fht_sections t) n (length records), bh_sections = fht_sections t\<rparr>"
    "length (fht_head_participants t) = length (concat (map nr_sources records))"
    "length (fht_tail_participants t) = length (concat (map nr_targets records))"
proof -
  from t have b: "build_offset_index (map (map fst) (map (side_of Source) records)) = Ok (fht_head_offsets t, fht_head_participants t)"
    "build_offset_index (map (map fst) (map (side_of Target) records)) = Ok (fht_tail_offsets t, fht_tail_participants t)"
    "build_offset_index (vertex_rows n (map (side_of Source) records)) =
       Ok (fht_vertex_outgoing_offsets t, fht_vertex_outgoing_hyperedges t)"
    "build_offset_index (vertex_rows n (map (side_of Target) records)) =
       Ok (fht_vertex_incoming_offsets t, fht_vertex_incoming_hyperedges t)"
    unfolding built_from_def side_of_simps by blast+
  have sum: "length (concat (map nr_sources records)) + length (concat (map nr_targets records)) < usize_max"
    using small by (simp add: records_small_def)
  then have src: "length (concat (map (side_of Source) records)) \<le> usize_max"
    and tgt: "length (concat (map (side_of Target) records)) \<le> usize_max"
    unfolding side_of_simps by linarith+
  note s = built_side [OF ok small b(1,3) src] and d = built_side [OF ok small b(2,4) tgt]
  show lens: "length (fht_head_participants t) = length (concat (map nr_sources records))"
    "length (fht_tail_participants t) = length (concat (map nr_targets records))"
    unfolding build_offset_index_Ok(1) [OF b(1)] build_offset_index_Ok(1) [OF b(2)] side_of_simps
    by (simp_all only: length_concat_map_map)
  show layout: "bcsr_layout_ok (fht_sections t) n (length records)"
    using s(1-3) d(1-3) lens sum by (simp add: bcsr_layout_ok_def fht_sections_def)
  show "bcsr_cross_ok (fht_sections t) n (length records)"
    using s(4) d(4) by (simp add: bcsr_cross_ok_def fht_sections_def)
  show "bcsr_addressable (fht_sections t)"
    using s(3) d(3) lens sum by (simp add: bcsr_addressable_def fht_sections_def)
  from bcsr_layout_ok_lengths [OF layout]
  show "fht_as_view t = \<lparr>bh_counts = bcsr_counts (fht_sections t) n (length records), bh_sections = fht_sections t\<rparr>"
    by (simp add: fht_as_view_def bcsr_from_validated_sections_def bcsr_counts_def Let_def min_def)
qed

lemma built_opens:
  assumes "records_ok n records" "records_small n records TYPE('r)"
    "built_from n records (t :: (('v::len) word, ('r::len) word, ('i::len) word) frozen_hyper_topology)"
  shows "bcsr_open_with (fht_sections t) level = Some (Ok (fht_as_view t))" "validate_frozen_topology t = Some (Ok ())"
proof -
  note b = built_strict [OF assms]
  have opens: "bcsr_open_with (fht_sections t) level = Some (Ok (fht_as_view t))" for level
  proof -
    have "validate_sections (fht_sections t) level = Some (Ok (bcsr_counts (fht_sections t) n (length records)))"
      unfolding validate_sections_Ok [OF b(3)] using b(1,2) by blast
    then show ?thesis by (simp add: bcsr_open_with_def b(4))
  qed
  show "bcsr_open_with (fht_sections t) level = Some (Ok (fht_as_view t))" by (rule opens)
  show "validate_frozen_topology t = Some (Ok ())" by (simp add: validate_frozen_topology_def opens)
qed

lemma built_participants:
  assumes "records_ok n records" "records_small n records TYPE('r)"
    "built_from n records (t :: (('v::len) word, ('r::len) word, ('i::len) word) frozen_hyper_topology)"
    and "unat h < length records"
  shows "bcsr_source_participants (fht_as_view t) h = Some (map fst (nr_sources (records ! unat h)))"
    "bcsr_target_participants (fht_as_view t) h = Some (map fst (nr_targets (records ! unat h)))"
proof -
  note b = built_strict [OF assms(1-3)]
  have view: "view_ok (fht_as_view t) n (length records)" using b(1) by (simp add: view_ok_def b(4))
  note acc = hyperedge_access [OF view assms(4)]
  from assms(3) have idx: "build_offset_index (map (map fst) (map (side_of Source) records)) = Ok (fht_head_offsets t, fht_head_participants t)"
    "build_offset_index (map (map fst) (map (side_of Target) records)) = Ok (fht_tail_offsets t, fht_tail_participants t)"
    unfolding built_from_def side_of_simps by blast+
  have "bucket (fht_head_offsets t) (fht_head_participants t) (unat h) = map (map fst) (map (side_of Source) records) ! unat h"
    "bucket (fht_tail_offsets t) (fht_tail_participants t) (unat h) = map (map fst) (map (side_of Target) records) ! unat h"
    unfolding bucket_def
    by (rule build_offset_index_bucket [OF idx(1)] build_offset_index_bucket [OF idx(2)], use assms(4) in simp)+
  with acc assms(4) show "bcsr_source_participants (fht_as_view t) h = Some (map fst (nr_sources (records ! unat h)))"
    "bcsr_target_participants (fht_as_view t) h = Some (map fst (nr_targets (records ! unat h)))"
    by (simp_all add: b(4) fht_sections_def)
qed

section \<open>Builder runs\<close>

lemma ensure_vertices_Ok:
  "ensure_vertices count vs = Ok () \<longleftrightarrow> (\<forall>v \<in> set vs. unat v < count \<and> unat v \<le> usize_max)"
  by (induction vs) (auto simp: vertex_index_checked_def id_to_slot_Ok_iff to_usize_Some_iff)

lemma duplicate_loop_Ok: "sorted xs \<Longrightarrow> duplicate_loop role xs = Ok () \<longleftrightarrow> distinct (xs :: 'a::linorder list)"
  by (induction role xs rule: duplicate_loop.induct) auto

lemma check_hyperedge_Ok:
  "check_hyperedge count edges sources targets = Ok (h :: ('r::len) word) \<longleftrightarrow>
     (\<forall>v \<in> set sources \<union> set targets. unat v < count \<and> unat v \<le> usize_max) \<and> distinct sources \<and> distinct targets \<and>
     edges < 2 ^ LENGTH('r) \<and> unat h = edges"
  by (auto simp: check_hyperedge_def ensure_vertices_Ok ensure_unique_participants_def duplicate_loop_Ok
      from_usize_Some_iff)

text \<open>What a hyperedge that was accepted satisfies.\<close>

definition hyperedge_ok :: "nat \<Rightarrow> ('v::len) word list \<times> 'v word list \<Rightarrow> bool" where
  "hyperedge_ok count edge \<longleftrightarrow>
     distinct (fst edge) \<and> distinct (snd edge) \<and> (\<forall>v \<in> set (fst edge) \<union> set (snd edge). unat v < count)"

inductive hyper_run ::
    "('r::len) itself \<Rightarrow> ('v::len) word hypergraph_builder \<Rightarrow> ('v word list \<times> 'v word list) list \<Rightarrow> bool"
  for T :: "('r::len) itself" where
  hyper_new: "hyper_run T hypergraph_builder_new []"
| hyper_vertex: "hyper_run T b edges \<Longrightarrow>
    (hb_add_vertex b :: (('v word, 'r word, unit) hyper_build_error, 'v word) result \<times> 'v word hypergraph_builder) = (r, b') \<Longrightarrow>
    hyper_run T b' edges"
| hyper_edge: "hyper_run T b edges \<Longrightarrow>
    (hb_add_hyperedge b sources targets ::
      (('v word, 'r word, unit) hyper_build_error, 'r word) result \<times> 'v word hypergraph_builder) = (Ok h, b') \<Longrightarrow>
    hyper_run T b' (edges @ [(sources, targets)])"
| hyper_rejected: "hyper_run T b edges \<Longrightarrow>
    (hb_add_hyperedge b sources targets ::
      (('v word, 'r word, unit) hyper_build_error, 'r word) result \<times> 'v word hypergraph_builder) = (Err err, b') \<Longrightarrow>
    hyper_run T b' edges"

lemma hb_add_vertex_effect:
  "hb_add_vertex b = (r, b') \<Longrightarrow> hb_vertex_count b \<le> hb_vertex_count b' \<and> hb_hyperedges b' = hb_hyperedges b"
  by (auto simp: hb_add_vertex_def split: option.splits)

lemma hyperedge_ok_mono: "hyperedge_ok n edge \<Longrightarrow> n \<le> m \<Longrightarrow> hyperedge_ok m edge"
  by (auto simp: hyperedge_ok_def intro: less_le_trans)

lemma hyper_run_inv:
  fixes b :: "('v::len) word hypergraph_builder"
  assumes "hyper_run (T :: ('r::len) itself) b edges"
  shows "hb_hyperedges b = map (\<lambda>(s, t). \<lparr>hr_sources = s, hr_targets = t\<rparr>) edges \<and>
    (\<forall>edge \<in> set edges. hyperedge_ok (hb_vertex_count b) edge) \<and> length edges \<le> 2 ^ LENGTH('r)"
  using assms
proof (induction rule: hyper_run.induct)
  case hyper_new
  then show ?case by (simp add: hypergraph_builder_new_def)
next
  case (hyper_vertex b edges r b')
  from hb_add_vertex_effect [OF hyper_vertex.hyps(2)] hyper_vertex.IH show ?case
    by (auto intro: hyperedge_ok_mono)
next
  case (hyper_edge b edges sources targets h b')
  then have "check_hyperedge (hb_vertex_count b) (length (hb_hyperedges b)) sources targets =
      (Ok h :: (('v word, 'r word, unit) hyper_build_error, 'r word) result)"
    and b': "b' = b\<lparr>hb_hyperedges := hb_hyperedges b @ [\<lparr>hr_sources = sources, hr_targets = targets\<rparr>]\<rparr>"
    by (auto simp: hb_add_hyperedge_def split: sum.splits)
  then have "hyperedge_ok (hb_vertex_count b) (sources, targets)" "length (hb_hyperedges b) < 2 ^ LENGTH('r)"
    by (auto simp: check_hyperedge_Ok hyperedge_ok_def)
  with hyper_edge.IH show ?case by (auto simp: b')
next
  case (hyper_rejected b edges sources targets err b')
  then show ?case by (auto simp: hb_add_hyperedge_def split: sum.splits)
qed

text \<open>Sorting the participants of an accepted hyperedge.\<close>

lemma map_fst_sort_key:
  assumes "distinct (map fst (ps :: ('v::linorder \<times> 'w) list))"
  shows "map fst (sort_key fst ps) = sort (map fst ps)"
proof (rule sorted_distinct_set_unique)
  show "distinct (map fst (sort_key fst ps))"
    using assms by (simp add: distinct_map distinct_sort)
qed (use assms in \<open>simp_all add: distinct_sort\<close>)

lemma ids_of_sort_key:
  assumes "distinct (map fst (ps :: (('v::len) word \<times> 'w) list))"
  shows "sorted_wrt (<) (ids_of (sort_key fst ps))" "set (ids_of (sort_key fst ps)) = unat ` fst ` set ps"
proof -
  have "sorted_wrt (<) (map fst (sort_key fst ps))"
    unfolding map_fst_sort_key [OF assms] using assms by (simp add: strict_sorted_iff distinct_sort)
  then have "sorted_wrt (\<lambda>x y. unat (fst x) < unat (fst y)) (sort_key fst ps)"
    by (simp add: sorted_wrt_map word_less_nat_alt)
  then show "sorted_wrt (<) (ids_of (sort_key fst ps))"
    by (simp add: ids_of_def sorted_wrt_map)
qed (auto simp: ids_of_def)

definition norm_record :: "(('v::len) word, 'w) normalized_hyperedge_record \<Rightarrow> ('v word, 'w) normalized_hyperedge_record" where
  "norm_record r = \<lparr>nr_sources = sort_key fst (nr_sources r), nr_targets = sort_key fst (nr_targets r)\<rparr>"

definition unit_record :: "'v hyperedge_record \<Rightarrow> ('v, unit) normalized_hyperedge_record" where
  "unit_record r =
     \<lparr>nr_sources = map (\<lambda>v. (v, ())) (hr_sources r), nr_targets = map (\<lambda>v. (v, ())) (hr_targets r)\<rparr>"

definition record_ok :: "nat \<Rightarrow> (('v::len) word, 'w) normalized_hyperedge_record \<Rightarrow> bool" where
  "record_ok n r \<longleftrightarrow> hyperedge_ok n (map fst (nr_sources r), map fst (nr_targets r))"

lemma normalized_records_ok: "(\<And>r. r \<in> set rs \<Longrightarrow> record_ok n r) \<Longrightarrow> records_ok n (map norm_record rs)"
  unfolding records_ok_def
proof (intro ballI allI)
  fix r role
  assume ok: "\<And>r. r \<in> set rs \<Longrightarrow> record_ok n r" and "r \<in> set (map norm_record rs)"
  then obtain r' where r: "r = norm_record r'" and r': "record_ok n r'" by auto
  from r' have "distinct (map fst (side_of role r'))" "\<forall>v \<in> fst ` set (side_of role r'). unat v < n"
    by (cases role; auto simp: record_ok_def hyperedge_ok_def)+
  moreover have "side_of role r = sort_key fst (side_of role r')"
    by (cases role) (simp_all add: r norm_record_def)
  ultimately show "sorted_wrt (<) (ids_of (side_of role r)) \<and> (\<forall>v \<in> set (ids_of (side_of role r)). v < n)"
    using ids_of_sort_key [of "side_of role r'"] by auto
qed

lemma normalized_lengths:
  "length (concat (map nr_sources (map norm_record rs))) = length (concat (map nr_sources rs))"
  "length (concat (map nr_targets (map norm_record rs))) = length (concat (map nr_targets rs))"
  by (simp_all add: length_concat comp_def norm_record_def)

text \<open>The shared body of the two freezes.\<close>

lemma freeze_records:
  fixes records :: "(('v::len) word, 'w) normalized_hyperedge_record list"
    and k :: "('v word, ('r::len) word, ('i::len) word) frozen_hyper_topology \<Rightarrow> 'w list \<Rightarrow> 'g"
  assumes "records_ok n records" "records_small n records TYPE('r)"
  defines "freeze \<equiv> run_then (build_topology n records) (\<lambda>(t, weights).
    run_then (validate_frozen_topology t) (\<lambda>_. Some (Ok (k t weights))))"
  shows "length (concat (map nr_sources records)) < 2 ^ LENGTH('i) \<Longrightarrow> length (concat (map nr_targets records)) < 2 ^ LENGTH('i) \<Longrightarrow>
      \<exists>t. built_from n records t \<and> freeze = Some (Ok (k t
        (concat (map (map snd) (map nr_sources records)) @ concat (map (map snd) (map nr_targets records)))))"
    and "\<not> (length (concat (map nr_sources records)) < 2 ^ LENGTH('i) \<and> length (concat (map nr_targets records)) < 2 ^ LENGTH('i)) \<Longrightarrow>
      \<exists>value. freeze = Some (Err (HyperIdOverflow value))"
proof -
  assume "length (concat (map nr_sources records)) < 2 ^ LENGTH('i)" "length (concat (map nr_targets records)) < 2 ^ LENGTH('i)"
  from build_topology_Ok [OF assms(1,2) this] obtain t :: "('v word, 'r word, 'i word) frozen_hyper_topology" where
    t: "built_from n records t"
    "build_topology n records = Some (Ok (t, concat (map (map snd) (map nr_sources records)) @
       concat (map (map snd) (map nr_targets records))))"
    by blast
  with built_opens(2) [OF assms(1,2) t(1)]
  show "\<exists>t. built_from n records t \<and> freeze = Some (Ok (k t
        (concat (map (map snd) (map nr_sources records)) @ concat (map (map snd) (map nr_targets records)))))"
    by (intro exI [of _ t]) (simp add: freeze_def)
next
  assume "\<not> (length (concat (map nr_sources records)) < 2 ^ LENGTH('i) \<and> length (concat (map nr_targets records)) < 2 ^ LENGTH('i))"
  from build_topology_Err [OF assms(1,2) this] show "\<exists>value. freeze = Some (Err (HyperIdOverflow value))"
    by (auto simp: freeze_def)
qed

lemma hb_normalized_eq: "hb_normalized_hyperedges b = map norm_record (map unit_record (hb_hyperedges b))"
  by (simp add: hb_normalized_hyperedges_def norm_record_def unit_record_def)

lemma unit_records:
  assumes "hyper_run (T :: ('r::len) itself) b edges"
  shows "r \<in> set (map unit_record (hb_hyperedges b)) \<Longrightarrow> record_ok (hb_vertex_count b) r"
    "length (concat (map nr_sources (map unit_record (hb_hyperedges b)))) = length (concat (map fst edges))"
    "length (concat (map nr_targets (map unit_record (hb_hyperedges b)))) = length (concat (map snd edges))"
    "length (hb_hyperedges b) = length edges" "length edges \<le> 2 ^ LENGTH('r)"
    "i < length edges \<Longrightarrow> map fst (nr_sources (hb_normalized_hyperedges b ! i)) = sort (fst (edges ! i))"
    "i < length edges \<Longrightarrow> map fst (nr_targets (hb_normalized_hyperedges b ! i)) = sort (snd (edges ! i))"
proof -
  note inv = hyper_run_inv [OF assms]
  then have eq: "hb_hyperedges b = map (\<lambda>(s, t). \<lparr>hr_sources = s, hr_targets = t\<rparr>) edges" by blast
  show "r \<in> set (map unit_record (hb_hyperedges b)) \<Longrightarrow> record_ok (hb_vertex_count b) r"
    using inv by (auto simp: eq record_ok_def unit_record_def comp_def hyperedge_ok_def)
  show "length (concat (map nr_sources (map unit_record (hb_hyperedges b)))) = length (concat (map fst edges))"
    "length (concat (map nr_targets (map unit_record (hb_hyperedges b)))) = length (concat (map snd edges))"
    by (simp_all add: eq length_concat comp_def split_beta unit_record_def)
  show "length (hb_hyperedges b) = length edges" "length edges \<le> 2 ^ LENGTH('r)" using inv by (simp_all add: eq)
  assume i: "i < length edges"
  with inv have d: "distinct (fst (edges ! i))" "distinct (snd (edges ! i))" by (auto simp: hyperedge_ok_def)
  from i d show "map fst (nr_sources (hb_normalized_hyperedges b ! i)) = sort (fst (edges ! i))"
    "map fst (nr_targets (hb_normalized_hyperedges b ! i)) = sort (snd (edges ! i))"
    by (simp_all add: hb_normalized_hyperedges_def eq split_beta map_fst_sort_key comp_def)
qed

text \<open>The records of a builder, and the topology of the graph it freezes into.\<close>

lemma hb_normalized_ok:
  "hyper_run (T :: ('r::len) itself) b edges \<Longrightarrow> records_ok (hb_vertex_count b) (hb_normalized_hyperedges b)"
  unfolding hb_normalized_eq by (rule normalized_records_ok) (rule unit_records(1))

lemma hb_freeze_built_from:
  fixes g :: "(('v::len) word, ('r::len) word, ('i::len) word) frozen_hypergraph"
  assumes "records_ok (hb_vertex_count b) (hb_normalized_hyperedges b)"
    and "records_small (hb_vertex_count b) (hb_normalized_hyperedges b) TYPE('r)" and "hb_freeze b = Some (Ok g)"
  shows "built_from (hb_vertex_count b) (hb_normalized_hyperedges b) (fh_topology g)"
proof -
  note freeze = freeze_records [OF assms(1,2),
      of "\<lambda>(t :: ('v word, 'r word, 'i word) frozen_hyper_topology) weights. \<lparr>fh_topology = t\<rparr>", folded hb_freeze_def]
  show ?thesis
  proof (cases "length (concat (map nr_sources (hb_normalized_hyperedges b))) < 2 ^ LENGTH('i) \<and>
      length (concat (map nr_targets (hb_normalized_hyperedges b))) < 2 ^ LENGTH('i)")
    case True
    with freeze(1) assms(3) show ?thesis by auto
  next
    case False
    from freeze(2) [OF this] assms(3) show ?thesis by auto
  qed
qed

text \<open>Freezing the builder of a run.\<close>

lemma hyper_freeze_cases:
  fixes b :: "('v::len) word hypergraph_builder"
  assumes "hyper_run TYPE('r::len) b edges" and "hb_vertex_count b < usize_max" and "length edges < usize_max"
    and "length (concat (map fst edges)) + length (concat (map snd edges)) < usize_max"
  shows "records_ok (hb_vertex_count b) (hb_normalized_hyperedges b)"
    and "records_small (hb_vertex_count b) (hb_normalized_hyperedges b) TYPE('r)"
    and "length (hb_normalized_hyperedges b) = length edges"
    and "length (concat (map fst edges)) < 2 ^ LENGTH('i) \<Longrightarrow> length (concat (map snd edges)) < 2 ^ LENGTH('i) \<Longrightarrow>
      \<exists>t :: ('v word, 'r word, ('i::len) word) frozen_hyper_topology.
        built_from (hb_vertex_count b) (hb_normalized_hyperedges b) t \<and> hb_freeze b = Some (Ok \<lparr>fh_topology = t\<rparr>)"
    and "\<not> (length (concat (map fst edges)) < 2 ^ LENGTH('i) \<and> length (concat (map snd edges)) < 2 ^ LENGTH('i)) \<Longrightarrow>
      \<exists>value. (hb_freeze b :: (('v word, 'r word, ('i::len) word) hyper_build_error,
        ('v word, 'r word, 'i word) frozen_hypergraph) run) = Some (Err (HyperIdOverflow value))"
proof -
  let ?rs = "hb_normalized_hyperedges b" and ?n = "hb_vertex_count b"
  note u = unit_records [OF assms(1)]
  have len: "length (concat (map nr_sources ?rs)) = length (concat (map fst edges))"
    "length (concat (map nr_targets ?rs)) = length (concat (map snd edges))" "length ?rs = length edges"
    unfolding hb_normalized_eq normalized_lengths u(2,3) by (simp_all add: u(4))
  then show "length ?rs = length edges" by simp
  show ok: "records_ok ?n ?rs" unfolding hb_normalized_eq by (rule normalized_records_ok) (rule u(1))
  show small: "records_small ?n ?rs TYPE('r)" using assms(2-4) u(5) by (simp add: records_small_def len)
  note freeze = freeze_records [OF ok small,
      of "\<lambda>(t :: ('v word, 'r word, 'i word) frozen_hyper_topology) weights. \<lparr>fh_topology = t\<rparr>",
      folded hb_freeze_def, unfolded len]
  show "length (concat (map fst edges)) < 2 ^ LENGTH('i) \<Longrightarrow> length (concat (map snd edges)) < 2 ^ LENGTH('i) \<Longrightarrow>
      \<exists>t :: ('v word, 'r word, ('i::len) word) frozen_hyper_topology. built_from ?n ?rs t \<and> hb_freeze b = Some (Ok \<lparr>fh_topology = t\<rparr>)"
    and "\<not> (length (concat (map fst edges)) < 2 ^ LENGTH('i) \<and> length (concat (map snd edges)) < 2 ^ LENGTH('i)) \<Longrightarrow>
      \<exists>value. (hb_freeze b :: (('v word, 'r word, ('i::len) word) hyper_build_error,
        ('v word, 'r word, 'i word) frozen_hypergraph) run) = Some (Err (HyperIdOverflow value))"
    using freeze by blast+
qed

section \<open>Properties\<close>

text \<open>
  C23: freezing a builder never panics and never reports an invalid topology. When the participant
  counts of each side fit the incidence width it gives a graph whose unvalidated view is the one that
  strict validation of its arrays returns, with the vertices and hyperedges added, in which every
  hyperedge lists its accepted sources and targets in ascending order; otherwise it reports an
  overflow.
\<close>

theorem hyper_builder_freeze:
  fixes b :: "('v::len) word hypergraph_builder"
  assumes "hyper_run TYPE('r::len) b edges" and "hb_vertex_count b < usize_max" and "length edges < usize_max"
    and "length (concat (map fst edges)) + length (concat (map snd edges)) < usize_max"
  shows "if length (concat (map fst edges)) < 2 ^ LENGTH('i) \<and> length (concat (map snd edges)) < 2 ^ LENGTH('i)
    then \<exists>g view. hb_freeze b = Some (Ok (g :: ('v word, 'r word, ('i::len) word) frozen_hypergraph)) \<and>
      view = fht_as_view (fh_topology g) \<and>
      bcsr_open_with (fht_sections (fh_topology g)) StrictLevel = Some (Ok view) \<and>
      bcsr_vertex_count view = hb_vertex_count b \<and> bcsr_hyperedge_count view = length edges \<and>
      (\<forall>h. unat h < length edges \<longrightarrow>
         bcsr_source_participants view h = Some (sort (fst (edges ! unat h))) \<and>
         bcsr_target_participants view h = Some (sort (snd (edges ! unat h))))
    else \<exists>value. (hb_freeze b :: (('v word, 'r word, 'i word) hyper_build_error,
      ('v word, 'r word, 'i word) frozen_hypergraph) run) = Some (Err (HyperIdOverflow value))"
proof -
  let ?rs = "hb_normalized_hyperedges b" and ?n = "hb_vertex_count b"
  note u = unit_records [OF assms(1)] and ok = hyper_freeze_cases(1) [OF assms] and small = hyper_freeze_cases(2) [OF assms]
  note count = hyper_freeze_cases(3) [OF assms] and freeze = hyper_freeze_cases(4,5) [OF assms, where 'i = 'i]
  show ?thesis
  proof (cases "length (concat (map fst edges)) < 2 ^ LENGTH('i) \<and> length (concat (map snd edges)) < 2 ^ LENGTH('i)")
    case True
    then obtain t :: "('v word, 'r word, 'i word) frozen_hyper_topology" where
      t: "built_from ?n ?rs t" "hb_freeze b = Some (Ok \<lparr>fh_topology = t\<rparr>)"
      using freeze(1) by blast
    have "bcsr_vertex_count (fht_as_view t) = ?n" "bcsr_hyperedge_count (fht_as_view t) = length edges"
      by (simp_all add: built_strict(4) [OF ok small t(1)] bcsr_vertex_count_def bcsr_hyperedge_count_def bcsr_counts_def count)
    with True t(2) built_opens(1) [OF ok small t(1)] built_participants [OF ok small t(1)] u(6,7) show ?thesis
      by (simp add: count)
  next
    case False
    show ?thesis unfolding if_not_P [OF False] by (rule freeze(2) [OF False])
  qed
qed

text \<open>Three vertices and the hyperedge from \<open>{1, 0}\<close> to \<open>{2}\<close>.\<close>

definition example_hyper_builder :: "16 word hypergraph_builder" where
  "example_hyper_builder = \<lparr>hb_vertex_count = 3, hb_hyperedges = [\<lparr>hr_sources = [1, 0], hr_targets = [2]\<rparr>]\<rparr>"

lemma example_hyper_run: "hyper_run TYPE(16) example_hyper_builder [([1, 0], [2])]"
proof -
  let ?b = "\<lambda>n. \<lparr>hb_vertex_count = n, hb_hyperedges = []\<rparr> :: 16 word hypergraph_builder"
  have step: "hyper_run TYPE(16) (?b (n + 1)) []" if "hyper_run TYPE(16) (?b n) []" "n < 3" for n
    by (rule hyper_vertex [OF that(1), of "Ok (word_of_nat n)"])
      (use that(2) in \<open>simp add: hb_add_vertex_def from_usize_def checked_add_def usize_max_def\<close>)
  have "hyper_run TYPE(16) (?b 0) []" using hyper_new by (simp add: hypergraph_builder_new_def)
  from step [OF this] have "hyper_run TYPE(16) (?b 1) []" by simp
  from step [OF this] have "hyper_run TYPE(16) (?b 2) []" by (simp add: numeral_2_eq_2)
  from step [OF this] have "hyper_run TYPE(16) (?b 3) []" by simp
  then have "hyper_run TYPE(16) example_hyper_builder ([] @ [([1, 0], [2])])"
  proof (rule hyper_edge)
    have "check_hyperedge 3 0 [1, 0 :: 16 word] [2] = (Ok 0 :: ((16 word, 16 word, unit) hyper_build_error, 16 word) result)"
      by (simp add: check_hyperedge_Ok usize_max_def)
    then show "(hb_add_hyperedge (?b 3) [1, 0] [2] ::
        ((16 word, 16 word, unit) hyper_build_error, 16 word) result \<times> 16 word hypergraph_builder) =
        (Ok 0, example_hyper_builder)"
      by (simp add: hb_add_hyperedge_def example_hyper_builder_def)
  qed
  then show ?thesis by simp
qed

theorem hyper_builder_freeze_witness:
  "\<exists>g. hb_freeze example_hyper_builder = Some (Ok (g :: (16 word, 16 word, 16 word) frozen_hypergraph)) \<and>
     bcsr_source_participants (fht_as_view (fh_topology g)) 0 = Some [0, 1] \<and>
     bcsr_target_participants (fht_as_view (fh_topology g)) 0 = Some [2]"
proof -
  have "hb_vertex_count example_hyper_builder < usize_max" by (simp add: example_hyper_builder_def usize_max_def)
  from hyper_builder_freeze [OF example_hyper_run this, where 'i = 16] show ?thesis
    by (auto simp: usize_max_def)
qed

end
