(* ===== verification/HyperSnapshot.thy ===== *)
theory HyperSnapshot
  imports HyperBuild SnapshotTyped
begin

text \<open>
  The snapshot side of a hypergraph: the section kinds of \<open>crates/oxgraph-hyper-bcsr/src/snapshot.rs\<close> and
  \<open>word.rs\<close>, the snapshot-backed view of \<open>internal/snapshot_open.rs\<close> and the topology exports of
  \<open>build.rs\<close>.
\<close>

section \<open>Section kinds\<close>

definition SNAPSHOT_KIND_BCSR_HEAD_OFFSETS_BASE :: u32 where
  "SNAPSHOT_KIND_BCSR_HEAD_OFFSETS_BASE = 0x0020"

definition SNAPSHOT_KIND_BCSR_HEAD_PARTICIPANTS_BASE :: u32 where
  "SNAPSHOT_KIND_BCSR_HEAD_PARTICIPANTS_BASE = 0x0024"

definition SNAPSHOT_KIND_BCSR_TAIL_OFFSETS_BASE :: u32 where
  "SNAPSHOT_KIND_BCSR_TAIL_OFFSETS_BASE = 0x0028"

definition SNAPSHOT_KIND_BCSR_TAIL_PARTICIPANTS_BASE :: u32 where
  "SNAPSHOT_KIND_BCSR_TAIL_PARTICIPANTS_BASE = 0x002C"

definition SNAPSHOT_KIND_BCSR_VERTEX_OUTGOING_OFFSETS_BASE :: u32 where
  "SNAPSHOT_KIND_BCSR_VERTEX_OUTGOING_OFFSETS_BASE = 0x0030"

definition SNAPSHOT_KIND_BCSR_VERTEX_OUTGOING_HYPEREDGES_BASE :: u32 where
  "SNAPSHOT_KIND_BCSR_VERTEX_OUTGOING_HYPEREDGES_BASE = 0x0034"

definition SNAPSHOT_KIND_BCSR_VERTEX_INCOMING_OFFSETS_BASE :: u32 where
  "SNAPSHOT_KIND_BCSR_VERTEX_INCOMING_OFFSETS_BASE = 0x0038"

definition SNAPSHOT_KIND_BCSR_VERTEX_INCOMING_HYPEREDGES_BASE :: u32 where
  "SNAPSHOT_KIND_BCSR_VERTEX_INCOMING_HYPEREDGES_BASE = 0x003C"

definition SNAPSHOT_BCSR_SECTION_VERSION :: u32 where
  "SNAPSHOT_BCSR_SECTION_VERSION = 1"

definition HEAD_OFFSETS_KIND :: "('i::len) itself \<Rightarrow> u32" where
  "HEAD_OFFSETS_KIND t = SNAPSHOT_KIND_BCSR_HEAD_OFFSETS_BASE OR WIDTH_CODE t"

definition HEAD_PARTICIPANTS_KIND :: "('v::len) itself \<Rightarrow> u32" where
  "HEAD_PARTICIPANTS_KIND t = SNAPSHOT_KIND_BCSR_HEAD_PARTICIPANTS_BASE OR WIDTH_CODE t"

definition TAIL_OFFSETS_KIND :: "('i::len) itself \<Rightarrow> u32" where
  "TAIL_OFFSETS_KIND t = SNAPSHOT_KIND_BCSR_TAIL_OFFSETS_BASE OR WIDTH_CODE t"

definition TAIL_PARTICIPANTS_KIND :: "('v::len) itself \<Rightarrow> u32" where
  "TAIL_PARTICIPANTS_KIND t = SNAPSHOT_KIND_BCSR_TAIL_PARTICIPANTS_BASE OR WIDTH_CODE t"

definition VERTEX_OUTGOING_OFFSETS_KIND :: "('i::len) itself \<Rightarrow> u32" where
  "VERTEX_OUTGOING_OFFSETS_KIND t = SNAPSHOT_KIND_BCSR_VERTEX_OUTGOING_OFFSETS_BASE OR WIDTH_CODE t"

definition VERTEX_OUTGOING_HYPEREDGES_KIND :: "('r::len) itself \<Rightarrow> u32" where
  "VERTEX_OUTGOING_HYPEREDGES_KIND t = SNAPSHOT_KIND_BCSR_VERTEX_OUTGOING_HYPEREDGES_BASE OR WIDTH_CODE t"

definition VERTEX_INCOMING_OFFSETS_KIND :: "('i::len) itself \<Rightarrow> u32" where
  "VERTEX_INCOMING_OFFSETS_KIND t = SNAPSHOT_KIND_BCSR_VERTEX_INCOMING_OFFSETS_BASE OR WIDTH_CODE t"

definition VERTEX_INCOMING_HYPEREDGES_KIND :: "('r::len) itself \<Rightarrow> u32" where
  "VERTEX_INCOMING_HYPEREDGES_KIND t = SNAPSHOT_KIND_BCSR_VERTEX_INCOMING_HYPEREDGES_BASE OR WIDTH_CODE t"

definition BCSR_SECTION_VERSION :: "('w::len) itself \<Rightarrow> u32" where
  "BCSR_SECTION_VERSION t = SNAPSHOT_BCSR_SECTION_VERSION"

lemmas bcsr_kind_defs = HEAD_OFFSETS_KIND_def HEAD_PARTICIPANTS_KIND_def TAIL_OFFSETS_KIND_def TAIL_PARTICIPANTS_KIND_def VERTEX_OUTGOING_OFFSETS_KIND_def VERTEX_OUTGOING_HYPEREDGES_KIND_def VERTEX_INCOMING_OFFSETS_KIND_def VERTEX_INCOMING_HYPEREDGES_KIND_def
  SNAPSHOT_KIND_BCSR_HEAD_OFFSETS_BASE_def SNAPSHOT_KIND_BCSR_HEAD_PARTICIPANTS_BASE_def SNAPSHOT_KIND_BCSR_TAIL_OFFSETS_BASE_def SNAPSHOT_KIND_BCSR_TAIL_PARTICIPANTS_BASE_def SNAPSHOT_KIND_BCSR_VERTEX_OUTGOING_OFFSETS_BASE_def SNAPSHOT_KIND_BCSR_VERTEX_OUTGOING_HYPEREDGES_BASE_def SNAPSHOT_KIND_BCSR_VERTEX_INCOMING_OFFSETS_BASE_def SNAPSHOT_KIND_BCSR_VERTEX_INCOMING_HYPEREDGES_BASE_def

section \<open>Binding a view\<close>

text \<open>
  \<open>OffsetsEmpty\<close> and \<open>CountOverflow\<close> are declared by the code and constructed nowhere in it.
\<close>

datatype bcsr_snapshot_error =
    BcsrMissingSection bcsr_section u32
  | BcsrVersionMismatch bcsr_section u32 u32 u32 \<comment> \<open>section, kind, expected, actual\<close>
  | BcsrSectionView bcsr_section section_view_error
  | BcsrOffsetsEmpty bcsr_section
  | BcsrCountOverflow bcsr_section nat
  | BcsrInvalid bcsr_error

fun map_section_bind :: "bcsr_section \<Rightarrow> section_bind_error \<Rightarrow> bcsr_snapshot_error" where
  "map_section_bind sec (Missing kind) = BcsrMissingSection sec kind"
| "map_section_bind sec (VersionMismatch kind expected actual) = BcsrVersionMismatch sec kind expected actual"
| "map_section_bind sec (View _ error) = BcsrSectionView sec error"

definition load_section ::
    "snapshot \<Rightarrow> bcsr_section \<Rightarrow> u32 \<Rightarrow> u32 \<Rightarrow> (bcsr_snapshot_error, ('w::len) word list) run" where
  "load_section s sec kind version = map_option (map_err (map_section_bind sec)) (snapshot_typed_section s kind version)"

definition load_sections ::
    "snapshot \<Rightarrow> (bcsr_snapshot_error, ('i::len, 'v::len, 'r::len) bcsr_words) run" where
  "load_sections s =
     run_then (load_section s HeadOffsets (HEAD_OFFSETS_KIND TYPE('i)) (BCSR_SECTION_VERSION TYPE('i))) (\<lambda>head_offsets.
     run_then (load_section s HeadParticipants (HEAD_PARTICIPANTS_KIND TYPE('v)) (BCSR_SECTION_VERSION TYPE('v))) (\<lambda>head_participants.
     run_then (load_section s TailOffsets (TAIL_OFFSETS_KIND TYPE('i)) (BCSR_SECTION_VERSION TYPE('i))) (\<lambda>tail_offsets.
     run_then (load_section s TailParticipants (TAIL_PARTICIPANTS_KIND TYPE('v)) (BCSR_SECTION_VERSION TYPE('v))) (\<lambda>tail_participants.
     run_then (load_section s VertexOutgoingOffsets (VERTEX_OUTGOING_OFFSETS_KIND TYPE('i)) (BCSR_SECTION_VERSION TYPE('i))) (\<lambda>vertex_outgoing_offsets.
     run_then (load_section s VertexOutgoingHyperedges (VERTEX_OUTGOING_HYPEREDGES_KIND TYPE('r)) (BCSR_SECTION_VERSION TYPE('r))) (\<lambda>vertex_outgoing_hyperedges.
     run_then (load_section s VertexIncomingOffsets (VERTEX_INCOMING_OFFSETS_KIND TYPE('i)) (BCSR_SECTION_VERSION TYPE('i))) (\<lambda>vertex_incoming_offsets.
     run_then (load_section s VertexIncomingHyperedges (VERTEX_INCOMING_HYPEREDGES_KIND TYPE('r)) (BCSR_SECTION_VERSION TYPE('r))) (\<lambda>vertex_incoming_hyperedges.
       Some (Ok \<lparr>head_offsets = head_offsets,
                head_participants = head_participants,
                tail_offsets = tail_offsets,
                tail_participants = tail_participants,
                vertex_outgoing_offsets = vertex_outgoing_offsets,
                vertex_outgoing_hyperedges = vertex_outgoing_hyperedges,
                vertex_incoming_offsets = vertex_incoming_offsets,
                vertex_incoming_hyperedges = vertex_incoming_hyperedges\<rparr>)))))))))"

definition bcsr_from_snapshot_with ::
    "snapshot \<Rightarrow> bcsr_validation \<Rightarrow> (bcsr_snapshot_error, ('i::len, 'v::len, 'r::len) bcsr_view) run" where
  "bcsr_from_snapshot_with s level =
     run_then (load_sections s) (\<lambda>sections.
       map_option (map_err BcsrInvalid) (bcsr_open_with sections level))"

definition bcsr_from_snapshot ::
    "snapshot \<Rightarrow> (bcsr_snapshot_error, ('i::len, 'v::len, 'r::len) bcsr_view) run" where
  "bcsr_from_snapshot s = bcsr_from_snapshot_with s bcsr_validation.LayoutLevel"

section \<open>Exporting a frozen hypergraph\<close>

definition add_topology_sections ::
    "snapshot_writer \<Rightarrow> (('v::len) word, ('r::len) word, ('i::len) word) frozen_hyper_topology \<Rightarrow>
       (('v word, 'r word, 'i word) hyper_build_error, snapshot_writer) result" where
  "add_topology_sections writer t =
     map_err HyperSnapshotPlan (
     and_then (writer_section_widths writer (HEAD_OFFSETS_KIND TYPE('i)) (BCSR_SECTION_VERSION TYPE('i)) (fht_head_offsets t)) (\<lambda>writer.
     and_then (writer_section_widths writer (HEAD_PARTICIPANTS_KIND TYPE('v)) (BCSR_SECTION_VERSION TYPE('v)) (fht_head_participants t)) (\<lambda>writer.
     and_then (writer_section_widths writer (TAIL_OFFSETS_KIND TYPE('i)) (BCSR_SECTION_VERSION TYPE('i)) (fht_tail_offsets t)) (\<lambda>writer.
     and_then (writer_section_widths writer (TAIL_PARTICIPANTS_KIND TYPE('v)) (BCSR_SECTION_VERSION TYPE('v)) (fht_tail_participants t)) (\<lambda>writer.
     and_then (writer_section_widths writer (VERTEX_OUTGOING_OFFSETS_KIND TYPE('i)) (BCSR_SECTION_VERSION TYPE('i)) (fht_vertex_outgoing_offsets t)) (\<lambda>writer.
     and_then (writer_section_widths writer (VERTEX_OUTGOING_HYPEREDGES_KIND TYPE('r)) (BCSR_SECTION_VERSION TYPE('r)) (fht_vertex_outgoing_hyperedges t)) (\<lambda>writer.
     and_then (writer_section_widths writer (VERTEX_INCOMING_OFFSETS_KIND TYPE('i)) (BCSR_SECTION_VERSION TYPE('i)) (fht_vertex_incoming_offsets t)) (\<lambda>writer.
     and_then (writer_section_widths writer (VERTEX_INCOMING_HYPEREDGES_KIND TYPE('r)) (BCSR_SECTION_VERSION TYPE('r)) (fht_vertex_incoming_hyperedges t)) (\<lambda>writer.
       Ok writer)))))))))"

definition hyper_export_topology_snapshot ::
    "(('v::len) word, ('r::len) word, ('i::len) word) frozen_hyper_topology \<Rightarrow>
       (('v word, 'r word, 'i word) hyper_build_error, byte list) run" where
  "hyper_export_topology_snapshot t =
     run_then (trying (map_err HyperSnapshotPlan (writer_new 8 crc32c_append))) (\<lambda>writer.
     run_then (trying (add_topology_sections writer t)) (\<lambda>writer.
       map_option (map_err HyperSnapshotPlan) (writer_finish writer)))"

definition export_bcsr_snapshot ::
    "(('v::len) word, ('r::len) word, ('i::len) word) frozen_hypergraph \<Rightarrow>
       (('v word, 'r word, 'i word) hyper_build_error, byte list) run" where
  "export_bcsr_snapshot g = hyper_export_topology_snapshot (fh_topology g)"

definition export_weighted_bcsr_snapshot ::
    "(('v::len) word, ('r::len) word, ('i::len) word, 'ew, 'rw, 'iw) frozen_weighted_hypergraph \<Rightarrow>
       (('v word, 'r word, 'i word) hyper_build_error, byte list) run" where
  "export_weighted_bcsr_snapshot g = hyper_export_topology_snapshot (fwh_topology g)"

section \<open>The eight sections\<close>

definition hyper_sections :: "('i::len, 'v::len, 'r::len) bcsr_words \<Rightarrow> pending_section list" where
  "hyper_sections s =
     [plain_section (HEAD_OFFSETS_KIND TYPE('i)) SNAPSHOT_BCSR_SECTION_VERSION (slice_to_le (head_offsets s)),
      plain_section (HEAD_PARTICIPANTS_KIND TYPE('v)) SNAPSHOT_BCSR_SECTION_VERSION (slice_to_le (head_participants s)),
      plain_section (TAIL_OFFSETS_KIND TYPE('i)) SNAPSHOT_BCSR_SECTION_VERSION (slice_to_le (tail_offsets s)),
      plain_section (TAIL_PARTICIPANTS_KIND TYPE('v)) SNAPSHOT_BCSR_SECTION_VERSION (slice_to_le (tail_participants s)),
      plain_section (VERTEX_OUTGOING_OFFSETS_KIND TYPE('i)) SNAPSHOT_BCSR_SECTION_VERSION (slice_to_le (vertex_outgoing_offsets s)),
      plain_section (VERTEX_OUTGOING_HYPEREDGES_KIND TYPE('r)) SNAPSHOT_BCSR_SECTION_VERSION (slice_to_le (vertex_outgoing_hyperedges s)),
      plain_section (VERTEX_INCOMING_OFFSETS_KIND TYPE('i)) SNAPSHOT_BCSR_SECTION_VERSION (slice_to_le (vertex_incoming_offsets s)),
      plain_section (VERTEX_INCOMING_HYPEREDGES_KIND TYPE('r)) SNAPSHOT_BCSR_SECTION_VERSION (slice_to_le (vertex_incoming_hyperedges s))]"

definition hyper_size :: "('i::len, 'v::len, 'r::len) bcsr_words \<Rightarrow> nat" where
  "hyper_size s = 288 + payload_total (hyper_sections s)"

lemma bcsr_kinds_ascend:
  assumes "snapshot_width TYPE('i::len)" and "snapshot_width TYPE('v::len)" and "snapshot_width TYPE('r::len)"
  shows "sorted_wrt (<) (map pend_kind (hyper_sections (s :: ('i, 'v, 'r) bcsr_words)))"
  using snapshot_width.width_supported [OF assms(1)] snapshot_width.width_supported [OF assms(2)]
    snapshot_width.width_supported [OF assms(3)]
  by (auto simp: hyper_sections_def bcsr_kind_defs WIDTH_CODE_def)

lemma hyper_export_Ok:
  fixes t :: "(('v::len) word, ('r::len) word, ('i::len) word) frozen_hyper_topology"
  assumes "snapshot_width TYPE('i)" and "snapshot_width TYPE('v)" and "snapshot_width TYPE('r)"
    and fits: "hyper_size (fht_sections t) \<le> usize_max"
  shows "\<exists>w. hyper_export_topology_snapshot t = Some (Ok (finished w)) \<and>
    writer_run crc32c_append (Idle w) (hyper_sections (fht_sections t)) \<and> length (wr_buf w) = hyper_size (fht_sections t)"
proof -
  let ?ps = "hyper_sections (fht_sections t)"
  have len: "length ?ps = 8" by (simp add: hyper_sections_def)
  have "\<exists>w0 w. writer_new (length ?ps) crc32c_append = Ok w0 \<and> write_all w0 ?ps = Ok w \<and>
      writer_finish w = Some (Ok (finished w)) \<and> length (finished w) = hyper_size (fht_sections t) \<and>
      length (wr_buf w) = hyper_size (fht_sections t) \<and> writer_run crc32c_append (Idle w) ?ps"
    by (rule plain_export [OF _ bcsr_kinds_ascend [OF assms(1-3)]])
      (use fits in \<open>simp_all add: hyper_size_def len\<close>, simp add: hyper_sections_def)
  then obtain w0 w where w: "writer_new 8 crc32c_append = Ok w0" "write_all w0 ?ps = Ok w"
    "writer_finish w = Some (Ok (finished w))" "length (wr_buf w) = hyper_size (fht_sections t)"
    "writer_run crc32c_append (Idle w) ?ps" unfolding len by blast
  from w(2) have "add_topology_sections w0 t = Ok w"
    by (simp add: add_topology_sections_def hyper_sections_def widths_are_bytes fht_sections_def BCSR_SECTION_VERSION_def)
  with w show ?thesis by (intro exI [of _ w]) (simp add: hyper_export_topology_snapshot_def)
qed

lemma load_section_reads:
  assumes "snapshot_width TYPE('w::len)" "writer_run crc32c_append (Idle w) ps" "length (wr_buf w) \<le> usize_max"
    "plain_section kind version (slice_to_le (xs :: 'w word list)) \<in> set ps"
  shows "load_section (finished_snapshot w) sec kind version = Some (Ok xs)"
  by (simp add: load_section_def plain_section_reads [OF assms])

lemma load_sections_reads:
  fixes s :: "('i::len, 'v::len, 'r::len) bcsr_words"
  assumes "snapshot_width TYPE('i)" and "snapshot_width TYPE('v)" and "snapshot_width TYPE('r)"
    and run: "writer_run crc32c_append (Idle w) (hyper_sections s)" and small: "length (wr_buf w) \<le> usize_max"
  shows "load_sections (finished_snapshot w) = Some (Ok s)"
proof -
  note i = load_section_reads [OF assms(1) run small] and v = load_section_reads [OF assms(2) run small]
    and r = load_section_reads [OF assms(3) run small]
  have "load_section (finished_snapshot w) HeadOffsets (HEAD_OFFSETS_KIND TYPE('i)) SNAPSHOT_BCSR_SECTION_VERSION = Some (Ok (head_offsets s))"
    by (rule i) (simp add: hyper_sections_def)
  moreover have "load_section (finished_snapshot w) HeadParticipants (HEAD_PARTICIPANTS_KIND TYPE('v)) SNAPSHOT_BCSR_SECTION_VERSION = Some (Ok (head_participants s))"
    by (rule v) (simp add: hyper_sections_def)
  moreover have "load_section (finished_snapshot w) TailOffsets (TAIL_OFFSETS_KIND TYPE('i)) SNAPSHOT_BCSR_SECTION_VERSION = Some (Ok (tail_offsets s))"
    by (rule i) (simp add: hyper_sections_def)
  moreover have "load_section (finished_snapshot w) TailParticipants (TAIL_PARTICIPANTS_KIND TYPE('v)) SNAPSHOT_BCSR_SECTION_VERSION = Some (Ok (tail_participants s))"
    by (rule v) (simp add: hyper_sections_def)
  moreover have "load_section (finished_snapshot w) VertexOutgoingOffsets (VERTEX_OUTGOING_OFFSETS_KIND TYPE('i)) SNAPSHOT_BCSR_SECTION_VERSION = Some (Ok (vertex_outgoing_offsets s))"
    by (rule i) (simp add: hyper_sections_def)
  moreover have "load_section (finished_snapshot w) VertexOutgoingHyperedges (VERTEX_OUTGOING_HYPEREDGES_KIND TYPE('r)) SNAPSHOT_BCSR_SECTION_VERSION = Some (Ok (vertex_outgoing_hyperedges s))"
    by (rule r) (simp add: hyper_sections_def)
  moreover have "load_section (finished_snapshot w) VertexIncomingOffsets (VERTEX_INCOMING_OFFSETS_KIND TYPE('i)) SNAPSHOT_BCSR_SECTION_VERSION = Some (Ok (vertex_incoming_offsets s))"
    by (rule i) (simp add: hyper_sections_def)
  moreover have "load_section (finished_snapshot w) VertexIncomingHyperedges (VERTEX_INCOMING_HYPEREDGES_KIND TYPE('r)) SNAPSHOT_BCSR_SECTION_VERSION = Some (Ok (vertex_incoming_hyperedges s))"
    by (rule r) (simp add: hyper_sections_def)
  ultimately show ?thesis by (simp add: load_sections_def BCSR_SECTION_VERSION_def)
qed

lemma hyper_exported:
  fixes t :: "(('v::len) word, ('r::len) word, ('i::len) word) frozen_hyper_topology"
  assumes "snapshot_width TYPE('i)" and "snapshot_width TYPE('v)" and "snapshot_width TYPE('r)"
    and fits: "hyper_size (fht_sections t) \<le> usize_max"
  shows "\<exists>bytes s. hyper_export_topology_snapshot t = Some (Ok bytes) \<and> length bytes = hyper_size (fht_sections t) \<and>
    snapshot_open_checked bytes crc32c_append = Ok s \<and> snapshot_verify_all s crc32c_append = Some (Ok ()) \<and>
    (\<forall>level. bcsr_from_snapshot_with s level = map_option (map_err BcsrInvalid) (bcsr_open_with (fht_sections t) level))"
proof -
  from hyper_export_Ok [OF assms] obtain w where
    export: "hyper_export_topology_snapshot t = Some (Ok (finished w))"
    and run: "writer_run crc32c_append (Idle w) (hyper_sections (fht_sections t))"
    and len: "length (wr_buf w) = hyper_size (fht_sections t)" by blast
  from crc32c.run_wf [OF run] have wf: "writer_wf crc32c_append w" by simp
  have small: "length (wr_buf w) < 2 ^ 64" "length (wr_buf w) \<le> usize_max"
    using len fits by (simp_all add: usize_max_def)
  have "bcsr_from_snapshot_with (finished_snapshot w) level =
      map_option (map_err BcsrInvalid) (bcsr_open_with (fht_sections t) level)" for level
    by (simp add: bcsr_from_snapshot_with_def load_sections_reads [OF assms(1-3) run small(2)])
  then show ?thesis
    using export len writer_roundtrip(1,2) [OF wf small(1)] length_finished [OF wf] by auto
qed

lemma hyper_size_layout:
  fixes s :: "('i::len, 'v::len, 'r::len) bcsr_words"
  assumes "snapshot_width TYPE('i)" and "snapshot_width TYPE('v)" and "snapshot_width TYPE('r)"
    and layout: "bcsr_layout_ok s n m"
  shows "hyper_size s = 288 + (2 * (m + 1) + 2 * (n + 1)) * word_size TYPE('i) +
    (length (head_participants s) + length (tail_participants s)) * (word_size TYPE('v) + word_size TYPE('r))"
proof -
  note len = bcsr_layout_ok_lengths(1-4) [OF layout]
  have totals: "length (vertex_outgoing_hyperedges s) = length (head_participants s)"
    "length (vertex_incoming_hyperedges s) = length (tail_participants s)"
    using layout by (simp_all add: bcsr_layout_ok_def)
  show ?thesis
    unfolding hyper_size_def hyper_sections_def payload_total_def list.map plain_section_simps sum_list.Cons sum_list.Nil
      snapshot_width.length_slice_to_le [OF assms(1), where T = "TYPE('i)"]
      snapshot_width.length_slice_to_le [OF assms(2), where T = "TYPE('v)"]
      snapshot_width.length_slice_to_le [OF assms(3), where T = "TYPE('r)"] len totals
    by (simp add: algebra_simps)
qed

text \<open>The topology of a graph that a builder froze into.\<close>

lemma hb_frozen_built:
  fixes b :: "('v::len) word hypergraph_builder" and g :: "('v word, ('r::len) word, ('i::len) word) frozen_hypergraph"
  assumes "hyper_run TYPE('r) b edges" and "hb_vertex_count b < usize_max" and "length edges < usize_max"
    and "length (concat (map fst edges)) + length (concat (map snd edges)) < usize_max" and "hb_freeze b = Some (Ok g)"
  defines "rs \<equiv> hb_normalized_hyperedges b"
  shows "records_ok (hb_vertex_count b) rs" "records_small (hb_vertex_count b) rs TYPE('r)"
    "built_from (hb_vertex_count b) rs (fh_topology g)" "length rs = length edges"
    "length (fht_head_participants (fh_topology g)) = length (concat (map fst edges))"
    "length (fht_tail_participants (fh_topology g)) = length (concat (map snd edges))"
proof -
  note u = unit_records [OF assms(1)]
  have len: "length (concat (map nr_sources rs)) = length (concat (map fst edges))"
    "length (concat (map nr_targets rs)) = length (concat (map snd edges))"
    unfolding rs_def hb_normalized_eq normalized_lengths u(2,3) by simp_all
  show n: "length rs = length edges" unfolding rs_def hb_normalized_eq by (simp add: u(4))
  show ok: "records_ok (hb_vertex_count b) rs" unfolding rs_def by (rule hb_normalized_ok [OF assms(1)])
  show small: "records_small (hb_vertex_count b) rs TYPE('r)"
    using assms(2-4) u(5) by (simp add: records_small_def len n)
  show built: "built_from (hb_vertex_count b) rs (fh_topology g)"
    using hb_freeze_built_from [OF ok [unfolded rs_def] small [unfolded rs_def] assms(5)] by (simp add: rs_def)
  show "length (fht_head_participants (fh_topology g)) = length (concat (map fst edges))"
    "length (fht_tail_participants (fh_topology g)) = length (concat (map snd edges))"
    using built_strict(5,6) [OF ok small built] len by simp_all
qed

section \<open>Properties\<close>

text \<open>
  C24: exporting a frozen hypergraph and binding the exported bytes gives back the graph: the bytes
  have the computed size, open and verify, and at either validation level the bound view is the
  graph's own, in which every hyperedge lists its accepted sources and targets in ascending order.
\<close>

theorem hyper_snapshot_roundtrip:
  fixes b :: "('v::len) word hypergraph_builder" and g :: "('v word, ('r::len) word, ('i::len) word) frozen_hypergraph"
  assumes "snapshot_width TYPE('i)" and "snapshot_width TYPE('v)" and "snapshot_width TYPE('r)"
    and "hyper_run TYPE('r) b edges" and "hb_freeze b = Some (Ok g)"
    and "len = 288 + (2 * (length edges + 1) + 2 * (hb_vertex_count b + 1)) * word_size TYPE('i) +
      (length (concat (map fst edges)) + length (concat (map snd edges))) * (word_size TYPE('v) + word_size TYPE('r))"
    and "len \<le> usize_max"
  shows "\<exists>bytes s view. export_bcsr_snapshot g = Some (Ok bytes) \<and> length bytes = len \<and>
    snapshot_open_checked bytes crc32c_append = Ok s \<and> snapshot_verify_all s crc32c_append = Some (Ok ()) \<and>
    bcsr_from_snapshot_with s level = Some (Ok view) \<and> view = fht_as_view (fh_topology g) \<and>
    (\<forall>h. unat h < length edges \<longrightarrow>
       bcsr_source_participants view h = Some (sort (fst (edges ! unat h))) \<and>
       bcsr_target_participants view h = Some (sort (snd (edges ! unat h))))"
proof -
  let ?P = "length (concat (map fst edges)) + length (concat (map snd edges))" and ?n = "hb_vertex_count b"
  have pos: "0 < word_size TYPE('i)" "0 < word_size TYPE('v)"
    by (rule snapshot_width.word_size_pos [OF assms(1)] snapshot_width.word_size_pos [OF assms(2)])+
  have grow: "x \<le> x * y" if "0 < y" for x y :: nat using that by simp
  have "x < u \<and> p < u" if "0 < w" "0 < k" "288 + x * w + p * k \<le> u" for x w p k u :: nat
    using that grow [of w x] grow [of k p] by linarith
  note room = this [OF pos(1) add_pos_nonneg [OF pos(2) le0] assms(7) [unfolded assms(6)]]
  have "2 * (length edges + 1) + 2 * (?n + 1) < usize_max" "?P < usize_max"
    using room by (blast, blast)
  then have "?n < usize_max" "length edges < usize_max" "?P < usize_max" by simp_all
  note b = hb_frozen_built [OF assms(4) this assms(5)]
  note layout = built_strict(1) [OF b(1-3), unfolded b(4)]
  have size: "hyper_size (fht_sections (fh_topology g)) = len"
    unfolding hyper_size_layout [OF assms(1-3) layout] assms(6) by (simp add: fht_sections_def b(5,6))
  from hyper_exported [OF assms(1-3), of "fh_topology g"] assms(7) obtain bytes s where
    "hyper_export_topology_snapshot (fh_topology g) = Some (Ok bytes)" "length bytes = len"
    "snapshot_open_checked bytes crc32c_append = Ok s" "snapshot_verify_all s crc32c_append = Some (Ok ())"
    "bcsr_from_snapshot_with s level = map_option (map_err BcsrInvalid) (bcsr_open_with (fht_sections (fh_topology g)) level)"
    unfolding size by blast
  moreover have "bcsr_source_participants (fht_as_view (fh_topology g)) h = Some (sort (fst (edges ! unat h)))"
    "bcsr_target_participants (fht_as_view (fh_topology g)) h = Some (sort (snd (edges ! unat h)))"
    if "unat h < length edges" for h
    using built_participants [OF b(1-3), of h] that by (simp_all add: b(4) unit_records(6,7) [OF assms(4)])
  ultimately show ?thesis
    by (intro exI [of _ bytes] exI [of _ s] exI [of _ "fht_as_view (fh_topology g)"])
      (simp add: export_bcsr_snapshot_def built_opens(1) [OF b(1-3)])
qed

text \<open>The hyperedge from \<open>{1, 0}\<close> to \<open>{2}\<close>, stored and read back.\<close>

theorem hyper_snapshot_roundtrip_witness:
  "\<exists>(g :: (16 word, 16 word, 16 word) frozen_hypergraph) bytes s view.
     hb_freeze example_hyper_builder = Some (Ok g) \<and> export_bcsr_snapshot g = Some (Ok bytes) \<and> length bytes = 324 \<and>
     snapshot_open_checked bytes crc32c_append = Ok s \<and>
     bcsr_from_snapshot_with s StrictLevel = Some (Ok (view :: (16, 16, 16) bcsr_view)) \<and>
     bcsr_source_participants view 0 = Some [0, 1]"
proof -
  note u = unit_records [OF example_hyper_run]
  have ok: "records_ok 3 (hb_normalized_hyperedges example_hyper_builder)"
    unfolding hb_normalized_eq by (rule normalized_records_ok) (use u(1) in \<open>simp add: example_hyper_builder_def\<close>)
  have len: "length (concat (map nr_sources (hb_normalized_hyperedges example_hyper_builder))) = 2"
    "length (concat (map nr_targets (hb_normalized_hyperedges example_hyper_builder))) = 1"
    unfolding hb_normalized_eq normalized_lengths u(2,3) by simp_all
  have "records_small 3 (hb_normalized_hyperedges example_hyper_builder) TYPE(16)"
    using u(4) unfolding records_small_def len by (simp add: hb_normalized_eq usize_max_def)
  note freeze = freeze_records(1) [OF ok this, of "\<lambda>(t :: (16 word, 16 word, 16 word) frozen_hyper_topology) weights. \<lparr>fh_topology = t\<rparr>"]
  have n: "hb_vertex_count example_hyper_builder = 3" by (simp add: example_hyper_builder_def)
  obtain g :: "(16 word, 16 word, 16 word) frozen_hypergraph" where g: "hb_freeze example_hyper_builder = Some (Ok g)"
    using freeze unfolding hb_freeze_def len n by auto
  have size: "324 = 288 + (2 * (length [([1, 0 :: 16 word], [2 :: 16 word])] + 1) + 2 * (hb_vertex_count example_hyper_builder + 1)) * word_size TYPE(16) +
      (length (concat (map fst [([1, 0 :: 16 word], [2 :: 16 word])])) + length (concat (map snd [([1, 0 :: 16 word], [2 :: 16 word])]))) *
      (word_size TYPE(16) + word_size TYPE(16))"
    by (simp add: example_hyper_builder_def word_size_def)
  from hyper_snapshot_roundtrip [OF example_widths(1) example_widths(1) example_widths(1) example_hyper_run g size, of StrictLevel]
  show ?thesis using g by (auto simp: usize_max_def)
qed

end
