(* ===== verification/HyperWeighted.thy ===== *)
theory HyperWeighted
  imports HyperBuild
begin

text \<open>
  The weighted hypergraph builder of \<open>crates/oxgraph-hyper-bcsr/src/build.rs\<close> refines the unweighted one:
  what a weighted builder does to its vertices and hyperedges is what the other does, and freezing
  carries the weights along in the order of the participants.
\<close>

section \<open>Forgetting the weights\<close>

definition drop_weights :: "('v, 'w) normalized_hyperedge_record \<Rightarrow> ('v, unit) normalized_hyperedge_record" where
  "drop_weights r =
     \<lparr>nr_sources = map (\<lambda>p. (fst p, ())) (nr_sources r), nr_targets = map (\<lambda>p. (fst p, ())) (nr_targets r)\<rparr>"

definition whb_strip :: "('v, 'ew, 'rw, 'iw) weighted_hypergraph_builder \<Rightarrow> 'v hypergraph_builder" where
  "whb_strip b =
     \<lparr>hb_vertex_count = whb_vertex_count b,
      hb_hyperedges = map (\<lambda>r. \<lparr>hr_sources = map fst (nr_sources r), hr_targets = map fst (nr_targets r)\<rparr>) (whb_hyperedges b)\<rparr>"

lemma map_insort_key: "map f (insort_key (\<lambda>x. g (f x)) x xs) = insort_key g (f x) (map f xs)"
  by (induction xs) auto

lemma map_sort_key: "map f (sort_key (\<lambda>x. g (f x)) xs) = sort_key g (map f xs)"
  by (induction xs) (simp_all add: map_insort_key)

lemma norm_strip:
  fixes r :: "(('a::len) word, 'b) normalized_hyperedge_record"
  shows "norm_record (unit_record \<lparr>hr_sources = map fst (nr_sources r), hr_targets = map fst (nr_targets r)\<rparr>) =
    drop_weights (norm_record r)"
proof -
  have "sort_key fst (map (\<lambda>x. (fst x, ())) xs) = map (\<lambda>p. (fst p, ())) (sort_key fst xs)" for xs :: "('a word \<times> 'b) list"
    using map_sort_key [of "\<lambda>p. (fst p, ())" fst xs] by simp
  then show ?thesis by (simp add: norm_record_def unit_record_def drop_weights_def comp_def)
qed

lemma whb_normalized_eq: "whb_normalized_hyperedges b = map norm_record (whb_hyperedges b)"
  by (simp add: whb_normalized_hyperedges_def norm_record_def)

lemma stripped_normalized: "hb_normalized_hyperedges (whb_strip b) = map drop_weights (whb_normalized_hyperedges b)"
  unfolding hb_normalized_eq whb_normalized_eq by (simp add: whb_strip_def norm_strip comp_def)

lemma ids_of_dropped: "ids_of (map (\<lambda>p. (fst p, ())) side) = ids_of side"
  by (simp add: ids_of_def comp_def)

lemma dropped_sides:
  "map fst (nr_sources (drop_weights r)) = map fst (nr_sources r)"
  "map fst (nr_targets (drop_weights r)) = map fst (nr_targets r)"
  "ids_of (nr_sources (drop_weights r)) = ids_of (nr_sources r)"
  "ids_of (nr_targets (drop_weights r)) = ids_of (nr_targets r)"
  "length (nr_sources (drop_weights r)) = length (nr_sources r)"
  "length (nr_targets (drop_weights r)) = length (nr_targets r)"
  by (simp_all add: drop_weights_def ids_of_dropped comp_def)

lemma dropped_records:
  fixes rs :: "(('v::len) word, 'w) normalized_hyperedge_record list"
  shows "records_ok n (map drop_weights rs) \<longleftrightarrow> records_ok n rs"
    "records_small n (map drop_weights rs) T \<longleftrightarrow> records_small n rs T"
proof -
  have "ids_of (side_of role (drop_weights r)) = ids_of (side_of role r)" for role and r :: "('v word, 'w) normalized_hyperedge_record"
    by (cases role) (simp_all add: dropped_sides)
  then show "records_ok n (map drop_weights rs) \<longleftrightarrow> records_ok n rs" by (simp add: records_ok_def)
  show "records_small n (map drop_weights rs) T \<longleftrightarrow> records_small n rs T"
    by (simp add: records_small_def length_concat comp_def dropped_sides)
qed

lemma dropped_rows:
  "vertex_rows n (map nr_sources (map drop_weights rs)) = vertex_rows n (map nr_sources rs)"
  "vertex_rows n (map nr_targets (map drop_weights rs)) = vertex_rows n (map nr_targets rs)"
  by (simp_all add: vertex_rows_def comp_def dropped_sides)

lemma four_steps:
  "Some (and_then a (\<lambda>(x1, x2). and_then b (\<lambda>(x3, x4). and_then c (\<lambda>(x5, x6). and_then d (\<lambda>(x7, x8).
      Ok (F x1 x2 x3 x4 x5 x6 x7 x8, w)))))) =
    run_then (Some (and_then a (\<lambda>(x1, x2). and_then b (\<lambda>(x3, x4). and_then c (\<lambda>(x5, x6). and_then d (\<lambda>(x7, x8).
      Ok (F x1 x2 x3 x4 x5 x6 x7 x8, w'))))))) (\<lambda>(t, _). Some (Ok (t, w)))"
  by (cases a; cases b; cases c; cases d) (simp_all add: split_beta)

text \<open>The arrays do not depend on the weights, which come out in participant order.\<close>

lemma build_topology_strips:
  fixes records :: "(('v::len) word, 'w) normalized_hyperedge_record list"
  assumes "records_ok n records" and "records_small n records TYPE('r::len)"
  shows "(build_topology n records :: (('v word, 'r word, ('i::len) word) hyper_build_error,
        ('v word, 'r word, 'i word) frozen_hyper_topology \<times> 'w list) run) =
    run_then (build_topology n (map drop_weights records)) (\<lambda>(t, _).
      Some (Ok (t, concat (map (map snd) (map nr_sources records)) @ concat (map (map snd) (map nr_targets records)))))"
proof -
  have sides: "map (map fst) (map nr_sources (map drop_weights records)) = map (map fst) (map nr_sources records)"
    "map (map fst) (map nr_targets (map drop_weights records)) = map (map fst) (map nr_targets records)"
    by (simp_all add: dropped_sides)
  note plain = build_topology_steps [of n "map drop_weights records", unfolded dropped_records sides dropped_rows, OF assms]
  show ?thesis
    unfolding build_topology_steps [OF assms] plain
    by (rule four_steps)
qed

text \<open>The incidences of the normalized hyperedges: all sources, then all targets.\<close>

definition whb_incidences :: "(('v::len) word, 'ew, 'rw, 'iw) weighted_hypergraph_builder \<Rightarrow> ('v word \<times> 'iw) list" where
  "whb_incidences b =
     concat (map (\<lambda>r. sort_key fst (nr_sources r)) (whb_hyperedges b)) @
     concat (map (\<lambda>r. sort_key fst (nr_targets r)) (whb_hyperedges b))"

lemma whb_incidences_eq:
  "whb_incidences b = concat (map nr_sources (whb_normalized_hyperedges b)) @ concat (map nr_targets (whb_normalized_hyperedges b))"
  by (simp add: whb_incidences_def whb_normalized_hyperedges_def comp_def)

lemma whb_freeze_strips:
  assumes "records_ok (whb_vertex_count b) (whb_normalized_hyperedges b)"
    and "records_small (whb_vertex_count b) (whb_normalized_hyperedges b) TYPE('r::len)"
  shows "whb_freeze b = run_then (hb_freeze (whb_strip b)) (\<lambda>g. Some (Ok
    \<lparr>fwh_topology = fh_topology (g :: (('v::len) word, 'r word, ('i::len) word) frozen_hypergraph),
     fwh_element_weights = whb_element_weights b, fwh_relation_weights = whb_relation_weights b,
     fwh_incidence_weights = map snd (whb_incidences b)\<rparr>))"
proof -
  have count: "hb_vertex_count (whb_strip b) = whb_vertex_count b" by (simp add: whb_strip_def)
  show ?thesis
    unfolding whb_freeze_def hb_freeze_def build_topology_strips [OF assms] run_then_assoc stripped_normalized count
      whb_incidences_eq
    by (simp add: split_beta run_then_assoc map_concat)
qed

section \<open>Calls of a weighted builder\<close>

inductive whb_run ::
    "('r::len) itself \<Rightarrow> (('v::len) word, 'ew, 'rw, 'iw) weighted_hypergraph_builder \<Rightarrow> bool"
  for T :: "('r::len) itself" where
  whb_new: "whb_run T weighted_hypergraph_builder_new"
| whb_vertex: "whb_run T b \<Longrightarrow>
    (whb_add_vertex b ew :: (('v word, 'r word, unit) hyper_build_error, 'v word) result \<times> _) = (rv, b') \<Longrightarrow>
    whb_run T b'"
| whb_hyperedge: "whb_run T b \<Longrightarrow>
    (whb_add_hyperedge b sources targets rw :: (('v word, 'r word, unit) hyper_build_error, 'r word) result \<times> _) = (rh, b') \<Longrightarrow>
    whb_run T b'"
| whb_element: "whb_run T b \<Longrightarrow>
    (whb_set_element_weight b v ew :: (('v word, 'r word, unit) hyper_build_error, _) run) = Some (Ok b') \<Longrightarrow>
    whb_run T b'"
| whb_relation: "whb_run T b \<Longrightarrow>
    (whb_set_relation_weight b (h :: 'r word) rw :: (('v word, 'r word, unit) hyper_build_error, _) run) = Some (Ok b') \<Longrightarrow>
    whb_run T b'"
| whb_source: "whb_run T b \<Longrightarrow>
    (whb_set_source_incidence_weight b (h :: 'r word) p iw :: (('v word, 'r word, unit) hyper_build_error, _) run) = Some (Ok b') \<Longrightarrow>
    whb_run T b'"
| whb_target: "whb_run T b \<Longrightarrow>
    (whb_set_target_incidence_weight b (h :: 'r word) p iw :: (('v word, 'r word, unit) hyper_build_error, _) run) = Some (Ok b') \<Longrightarrow>
    whb_run T b'"

lemma whb_add_vertex_strip:
  assumes "(whb_add_vertex b w :: (('v word, 'r, 'i) hyper_build_error, ('v::len) word) result \<times> _) = (r, b')"
  shows "(hb_add_vertex (whb_strip b) :: (('v word, 'r, 'i) hyper_build_error, 'v word) result \<times> _) = (r, whb_strip b')"
    and "length (whb_element_weights b) = whb_vertex_count b \<Longrightarrow> length (whb_element_weights b') = whb_vertex_count b'"
    and "whb_hyperedges b' = whb_hyperedges b" "whb_relation_weights b' = whb_relation_weights b"
  using assms
  by (auto simp: whb_add_vertex_def hb_add_vertex_def whb_strip_def checked_add_def split: option.splits if_splits)

lemma whb_add_hyperedge_strip:
  assumes "(whb_add_hyperedge b sources targets w :: (('v word, 'r word, 'i) hyper_build_error, ('r::len) word) result \<times>
      (('v::len) word, 'ew, 'rw, 'iw) weighted_hypergraph_builder) = (r, b')"
  shows "(hb_add_hyperedge (whb_strip b) (map fst sources) (map fst targets) ::
      (('v word, 'r word, 'i) hyper_build_error, 'r word) result \<times> _) = (r, whb_strip b')"
    and "length (whb_relation_weights b) = length (whb_hyperedges b) \<Longrightarrow>
      length (whb_relation_weights b') = length (whb_hyperedges b')"
    and "whb_element_weights b' = whb_element_weights b" "whb_vertex_count b' = whb_vertex_count b"
  using assms by (auto simp: whb_add_hyperedge_def hb_add_hyperedge_def whb_strip_def split: sum.splits)

lemma set_position_fst: "set_position ps p w = Some ps' \<Longrightarrow> map fst ps' = map fst ps"
  by (auto simp: set_position_def map_update split: if_splits) (metis list_update_id length_map nth_map)

text \<open>The four updates, on builders whose weight lists match their contents.\<close>

definition whb_wf :: "('v, 'ew, 'rw, 'iw) weighted_hypergraph_builder \<Rightarrow> bool" where
  "whb_wf b \<longleftrightarrow> length (whb_element_weights b) = whb_vertex_count b \<and>
     length (whb_relation_weights b) = length (whb_hyperedges b)"

lemma whb_set_element_eq:
  assumes "whb_wf b" and "whb_vertex_count b \<le> usize_max"
  shows "whb_set_element_weight b v w =
    Some (if unat v < whb_vertex_count b
          then Ok (b\<lparr>whb_element_weights := (whb_element_weights b)[unat v := w]\<rparr>) else Err (InvalidVertex v))"
  using assms
  by (auto simp: whb_wf_def whb_set_element_weight_def vertex_index_checked_def id_to_slot_def to_usize_def)

lemma whb_set_relation_eq:
  assumes "whb_wf b" and "length (whb_hyperedges b) \<le> usize_max"
  shows "whb_set_relation_weight b h w =
    Some (if unat h < length (whb_hyperedges b)
          then Ok (b\<lparr>whb_relation_weights := (whb_relation_weights b)[unat h := w]\<rparr>) else Err (InvalidHyperedge h))"
  using assms
  by (auto simp: whb_wf_def whb_set_relation_weight_def hyperedge_index_checked_def id_to_slot_def to_usize_def)

definition reweigh :: "('v \<times> 'w) list \<Rightarrow> nat \<Rightarrow> 'w \<Rightarrow> ('v \<times> 'w) list" where
  "reweigh ps p w = ps[p := (fst (ps ! p), w)]"

lemma whb_set_source_eq:
  assumes "length (whb_hyperedges b) \<le> usize_max"
  shows "whb_set_source_incidence_weight b h p w =
    Some (if \<not> unat h < length (whb_hyperedges b) then Err (InvalidHyperedge h)
          else if \<not> p < length (nr_sources (whb_hyperedges b ! unat h)) then Err (ParticipantPositionOutOfBounds h p)
          else Ok (b\<lparr>whb_hyperedges := (whb_hyperedges b)[unat h := (whb_hyperedges b ! unat h)
            \<lparr>nr_sources := reweigh (nr_sources (whb_hyperedges b ! unat h)) p w\<rparr>]\<rparr>))"
  using assms
  by (auto simp: whb_set_source_incidence_weight_def hyperedge_index_checked_def id_to_slot_def to_usize_def
      set_position_def reweigh_def)

lemma whb_set_target_eq:
  assumes "length (whb_hyperedges b) \<le> usize_max"
  shows "whb_set_target_incidence_weight b h p w =
    Some (if \<not> unat h < length (whb_hyperedges b) then Err (InvalidHyperedge h)
          else if \<not> p < length (nr_targets (whb_hyperedges b ! unat h)) then Err (ParticipantPositionOutOfBounds h p)
          else Ok (b\<lparr>whb_hyperedges := (whb_hyperedges b)[unat h := (whb_hyperedges b ! unat h)
            \<lparr>nr_targets := reweigh (nr_targets (whb_hyperedges b ! unat h)) p w\<rparr>]\<rparr>))"
  using assms
  by (auto simp: whb_set_target_incidence_weight_def hyperedge_index_checked_def id_to_slot_def to_usize_def
      set_position_def reweigh_def)

lemma map_strip_update:
  assumes "i < length rs" and "f r = f (rs ! i)"
  shows "map f (rs[i := r]) = map f rs"
  using assms by (metis list_update_id map_update)

lemma whb_set_position_strip:
  "(whb_set_source_incidence_weight b (h :: ('r::len) word) p w :: (('v, 'r word, 'i) hyper_build_error, _) run) = Some (Ok b') \<Longrightarrow>
    whb_strip b' = whb_strip b \<and> whb_element_weights b' = whb_element_weights b \<and>
    whb_relation_weights b' = whb_relation_weights b \<and> whb_vertex_count b' = whb_vertex_count b \<and>
    length (whb_hyperedges b') = length (whb_hyperedges b)"
  "(whb_set_target_incidence_weight b h p w :: (('v, 'r word, 'i) hyper_build_error, _) run) = Some (Ok b') \<Longrightarrow>
    whb_strip b' = whb_strip b \<and> whb_element_weights b' = whb_element_weights b \<and>
    whb_relation_weights b' = whb_relation_weights b \<and> whb_vertex_count b' = whb_vertex_count b \<and>
    length (whb_hyperedges b') = length (whb_hyperedges b)"
  by (auto simp: whb_set_source_incidence_weight_def whb_set_target_incidence_weight_def whb_strip_def
      index_or_panic_def set_position_fst split: if_splits intro!: map_strip_update)

lemma whb_strip_new: "whb_strip weighted_hypergraph_builder_new = hypergraph_builder_new"
  by (simp add: whb_strip_def weighted_hypergraph_builder_new_def hypergraph_builder_new_def)

lemma whb_run_inv:
  assumes "whb_run (T :: ('r::len) itself) b"
  shows "(\<exists>edges. hyper_run T (whb_strip b) edges) \<and> whb_wf b"
  using assms
proof (induction rule: whb_run.induct)
  case whb_new
  then show ?case
    by (intro conjI exI [of _ "[]"])
      (simp_all only: whb_strip_new hyper_new, simp add: whb_wf_def weighted_hypergraph_builder_new_def)
next
  case (whb_vertex b ew rv b')
  note strip = whb_add_vertex_strip [OF whb_vertex.hyps(2)]
  from whb_vertex.IH strip show ?case by (auto simp: whb_wf_def intro: hyper_vertex)
next
  case (whb_hyperedge b sources targets rw rh b')
  note strip = whb_add_hyperedge_strip [OF whb_hyperedge.hyps(2)]
  from whb_hyperedge.IH obtain edges where run: "hyper_run T (whb_strip b) edges" by blast
  have "\<exists>edges. hyper_run T (whb_strip b') edges"
  proof (cases rh)
    case (Inl e)
    from hyper_rejected [OF run strip(1) [unfolded Inl]] show ?thesis by blast
  next
    case (Inr h)
    from hyper_edge [OF run strip(1) [unfolded Inr]] show ?thesis by blast
  qed
  with whb_hyperedge.IH strip(2-4) show ?case by (auto simp: whb_wf_def)
next
  case (whb_element b v ew b')
  then show ?case
    by (auto simp: whb_wf_def whb_set_element_weight_def whb_strip_def dest!: store_or_panic_SomeD)
next
  case (whb_relation b h rw b')
  then show ?case
    by (auto simp: whb_wf_def whb_set_relation_weight_def whb_strip_def dest!: store_or_panic_SomeD)
next
  case (whb_source b h p iw b')
  then show ?case using whb_set_position_strip(1) [OF whb_source.hyps(2)] by (simp add: whb_wf_def)
next
  case (whb_target b h p iw b')
  then show ?case using whb_set_position_strip(2) [OF whb_target.hyps(2)] by (simp add: whb_wf_def)
qed

text \<open>The records of such a builder, and the participants of the graph it freezes into.\<close>

lemma whb_records:
  fixes b :: "(('v::len) word, 'ew, 'rw, 'iw) weighted_hypergraph_builder"
  assumes "hyper_run TYPE('r::len) (whb_strip b) edges" and "whb_vertex_count b < usize_max"
    and "length (whb_hyperedges b) < usize_max" and "length (whb_incidences b) < usize_max"
  shows "records_ok (whb_vertex_count b) (whb_normalized_hyperedges b)"
    "records_small (whb_vertex_count b) (whb_normalized_hyperedges b) TYPE('r)"
proof -
  have "records_ok (hb_vertex_count (whb_strip b)) (hb_normalized_hyperedges (whb_strip b))"
    by (rule hb_normalized_ok [OF assms(1)])
  then show "records_ok (whb_vertex_count b) (whb_normalized_hyperedges b)"
    unfolding stripped_normalized dropped_records by (simp add: whb_strip_def)
  have "length (whb_hyperedges b) \<le> 2 ^ LENGTH('r)"
    using unit_records(4,5) [OF assms(1)] by (simp add: whb_strip_def)
  then show "records_small (whb_vertex_count b) (whb_normalized_hyperedges b) TYPE('r)"
    using assms(2-4) by (simp add: records_small_def whb_incidences_eq) (simp add: whb_normalized_eq)
qed

lemma whb_frozen_participants:
  fixes b :: "(('v::len) word, 'ew, 'rw, 'iw) weighted_hypergraph_builder"
    and g :: "('v word, ('r::len) word, ('i::len) word) frozen_hypergraph"
  assumes "hyper_run TYPE('r) (whb_strip b) edges" and "whb_vertex_count b < usize_max"
    and "length (whb_hyperedges b) < usize_max" and "length (whb_incidences b) < usize_max"
    and "hb_freeze (whb_strip b) = Some (Ok g)"
  shows "fht_head_participants (fh_topology g) @ fht_tail_participants (fh_topology g) = map fst (whb_incidences b)"
proof -
  note rs = whb_records [OF assms(1-4)]
  have ok: "records_ok (hb_vertex_count (whb_strip b)) (hb_normalized_hyperedges (whb_strip b))"
    "records_small (hb_vertex_count (whb_strip b)) (hb_normalized_hyperedges (whb_strip b)) TYPE('r)"
    unfolding stripped_normalized dropped_records using rs by (simp_all add: whb_strip_def)
  have "built_from (hb_vertex_count (whb_strip b)) (hb_normalized_hyperedges (whb_strip b)) (fh_topology g)"
    by (rule hb_freeze_built_from [OF ok assms(5)])
  then have "fht_head_participants (fh_topology g) = concat (map (map fst) (map nr_sources (map drop_weights (whb_normalized_hyperedges b))))"
    "fht_tail_participants (fh_topology g) = concat (map (map fst) (map nr_targets (map drop_weights (whb_normalized_hyperedges b))))"
    unfolding built_from_def stripped_normalized by (blast dest: build_offset_index_Ok(1))+
  then show ?thesis
    unfolding whb_incidences_eq by (simp add: map_concat comp_def dropped_sides)
qed

section \<open>Properties\<close>

text \<open>
  C25: a weighted builder is an unweighted one with weights beside it: whatever calls it went through,
  its vertices and hyperedges are those of an unweighted builder after such calls, it freezes
  exactly like that one, and the frozen incidence weights are those given with the participants, in
  the order in which the frozen graph numbers its incidences. The weight updates never panic, refuse
  exactly the handles and positions that do not exist, and otherwise change that one weight.
\<close>

theorem weighted_hyper_builder_refines:
  fixes b :: "(('v::len) word, 'ew, 'rw, 'iw) weighted_hypergraph_builder"
  assumes "whb_run TYPE('r::len) b" and "whb_vertex_count b < usize_max" and "length (whb_hyperedges b) < usize_max"
    and "length (whb_incidences b) < usize_max"
  shows "(\<exists>edges. hyper_run TYPE('r) (whb_strip b) edges) \<and>
    whb_freeze b = run_then (hb_freeze (whb_strip b)) (\<lambda>g. Some (Ok
      \<lparr>fwh_topology = fh_topology (g :: ('v word, 'r word, ('i::len) word) frozen_hypergraph),
       fwh_element_weights = whb_element_weights b, fwh_relation_weights = whb_relation_weights b,
       fwh_incidence_weights = map snd (whb_incidences b)\<rparr>)) \<and>
    (\<forall>g :: ('v word, 'r word, 'i word) frozen_hypergraph. hb_freeze (whb_strip b) = Some (Ok g) \<longrightarrow>
      fht_head_participants (fh_topology g) @ fht_tail_participants (fh_topology g) = map fst (whb_incidences b)) \<and>
    whb_set_element_weight b v ew =
      Some (if unat v < whb_vertex_count b
            then Ok (b\<lparr>whb_element_weights := (whb_element_weights b)[unat v := ew]\<rparr>) else Err (InvalidVertex v)) \<and>
    whb_set_relation_weight b (h :: 'r word) rw =
      Some (if unat h < length (whb_hyperedges b)
            then Ok (b\<lparr>whb_relation_weights := (whb_relation_weights b)[unat h := rw]\<rparr>) else Err (InvalidHyperedge h)) \<and>
    whb_set_source_incidence_weight b h p iw =
      Some (if \<not> unat h < length (whb_hyperedges b) then Err (InvalidHyperedge h)
            else if \<not> p < length (nr_sources (whb_hyperedges b ! unat h)) then Err (ParticipantPositionOutOfBounds h p)
            else Ok (b\<lparr>whb_hyperedges := (whb_hyperedges b)[unat h := (whb_hyperedges b ! unat h)
              \<lparr>nr_sources := reweigh (nr_sources (whb_hyperedges b ! unat h)) p iw\<rparr>]\<rparr>)) \<and>
    whb_set_target_incidence_weight b h p iw =
      Some (if \<not> unat h < length (whb_hyperedges b) then Err (InvalidHyperedge h)
            else if \<not> p < length (nr_targets (whb_hyperedges b ! unat h)) then Err (ParticipantPositionOutOfBounds h p)
            else Ok (b\<lparr>whb_hyperedges := (whb_hyperedges b)[unat h := (whb_hyperedges b ! unat h)
              \<lparr>nr_targets := reweigh (nr_targets (whb_hyperedges b ! unat h)) p iw\<rparr>]\<rparr>))"
proof -
  from whb_run_inv [OF assms(1)] obtain edges where run: "hyper_run TYPE('r) (whb_strip b) edges" and wf: "whb_wf b"
    by blast
  have le: "whb_vertex_count b \<le> usize_max" "length (whb_hyperedges b) \<le> usize_max" using assms(2,3) by simp_all
  note rs = whb_records [OF run assms(2-4)]
  have "fht_head_participants (fh_topology g) @ fht_tail_participants (fh_topology g) = map fst (whb_incidences b)"
    if "hb_freeze (whb_strip b) = Some (Ok g)" for g :: "('v word, 'r word, 'i word) frozen_hypergraph"
    by (rule whb_frozen_participants [OF run assms(2-4) that])
  with run show ?thesis
    by (intro conjI) (rule exI whb_freeze_strips [OF rs] whb_set_element_eq [OF wf le(1)] whb_set_relation_eq [OF wf le(2)]
      whb_set_source_eq [OF le(2)] whb_set_target_eq [OF le(2)] | blast)+
qed

text \<open>A hyperedge added with its participants out of order, and its weights frozen in participant order.\<close>

definition example_weighted_builder :: "(16 word, nat, nat, nat) weighted_hypergraph_builder" where
  "example_weighted_builder =
     \<lparr>whb_vertex_count = 2, whb_element_weights = [3, 4],
      whb_hyperedges = [\<lparr>nr_sources = [(1, 7), (0, 8)], nr_targets = [(0, 9)]\<rparr>], whb_relation_weights = [5]\<rparr>"

lemma example_weighted_run: "whb_run TYPE(16) example_weighted_builder"
proof -
  let ?b = "\<lambda>n ws. \<lparr>whb_vertex_count = n, whb_element_weights = ws, whb_hyperedges = [],
    whb_relation_weights = []\<rparr> :: (16 word, nat, nat, nat) weighted_hypergraph_builder"
  have step: "whb_run TYPE(16) (?b (n + 1) (ws @ [w]))" if "whb_run TYPE(16) (?b n ws)" "n < 3" for n ws w
    by (rule whb_vertex [OF that(1), of w "Ok (word_of_nat n)"])
      (use that(2) in \<open>simp add: whb_add_vertex_def from_usize_def checked_add_def usize_max_def\<close>)
  have "whb_run TYPE(16) (?b 0 [])"
    using whb_new [of "TYPE(16)"] by (simp add: weighted_hypergraph_builder_new_def)
  from step [OF step [OF this, of 3], of 4] have run: "whb_run TYPE(16) (?b 2 [3, 4])" by (simp add: numeral_2_eq_2)
  show ?thesis
  proof (rule whb_hyperedge [OF run])
    have "check_hyperedge 2 0 [1, 0 :: 16 word] [0] = (Ok 0 :: ((16 word, 16 word, unit) hyper_build_error, 16 word) result)"
      by (simp add: check_hyperedge_Ok usize_max_def)
    then show "(whb_add_hyperedge (?b 2 [3, 4]) [(1, 7), (0, 8)] [(0, 9)] 5 ::
        ((16 word, 16 word, unit) hyper_build_error, 16 word) result \<times> _) = (Ok 0, example_weighted_builder)"
      by (simp add: whb_add_hyperedge_def example_weighted_builder_def)
  qed
qed

theorem weighted_hyper_builder_refines_witness:
  "whb_freeze example_weighted_builder = run_then (hb_freeze (whb_strip example_weighted_builder)) (\<lambda>g. Some (Ok
      \<lparr>fwh_topology = fh_topology (g :: (16 word, 16 word, 16 word) frozen_hypergraph), fwh_element_weights = [3, 4],
       fwh_relation_weights = [5], fwh_incidence_weights = [8, 7, 9]\<rparr>)) \<and>
   (whb_set_source_incidence_weight example_weighted_builder (0 :: 16 word) 2 6 ::
      ((16 word, 16 word, 16 word) hyper_build_error, _) run) = Some (Err (ParticipantPositionOutOfBounds 0 2))"
proof -
  have inc: "whb_incidences example_weighted_builder = [(0, 8), (1, 7), (0, 9)]"
    by (simp add: whb_incidences_def example_weighted_builder_def)
  have small: "whb_vertex_count example_weighted_builder < usize_max" "length (whb_hyperedges example_weighted_builder) < usize_max"
    "length (whb_incidences example_weighted_builder) < usize_max"
    by (simp_all add: inc, simp_all add: example_weighted_builder_def usize_max_def)
  note refines = weighted_hyper_builder_refines [OF example_weighted_run small, where h = 0 and p = 2 and iw = 6
      and v = 0 and ew = 0 and rw = 0]
  show ?thesis
  proof
    show "whb_freeze example_weighted_builder = run_then (hb_freeze (whb_strip example_weighted_builder)) (\<lambda>g. Some (Ok
      \<lparr>fwh_topology = fh_topology (g :: (16 word, 16 word, 16 word) frozen_hypergraph), fwh_element_weights = [3, 4],
       fwh_relation_weights = [5], fwh_incidence_weights = [8, 7, 9]\<rparr>))"
      unfolding refines [THEN conjunct2, THEN conjunct1] inc by (simp add: example_weighted_builder_def)
    show "(whb_set_source_incidence_weight example_weighted_builder (0 :: 16 word) 2 6 ::
        ((16 word, 16 word, 16 word) hyper_build_error, _) run) = Some (Err (ParticipantPositionOutOfBounds 0 2))"
      unfolding refines [THEN conjunct2, THEN conjunct2, THEN conjunct2, THEN conjunct2, THEN conjunct2, THEN conjunct1]
      by (simp add: example_weighted_builder_def)
  qed
qed

end
