(* ===== verification/Tarjan.thy ===== *)
theory Tarjan
  imports Components
begin

text \<open>
  The invariant of Tarjan's algorithm as \<open>crates/oxgraph-algo/src/scc.rs\<close> runs it, with an explicit stack of
  frames: over a finite relation, what the discovery orders, the lowlinks, the element stack, the
  frames and the finished components satisfy between two steps, and that each kind of step keeps it.
\<close>

text \<open>One node's expansion on the work stack; stacks are lists with their top first.\<close>

record 'n frame =
  fr_node :: 'n
  fr_successors :: "'n list"
  fr_position :: nat

section \<open>The invariant\<close>

text \<open>The edges of an element that have been followed: for one on the work stack, those before its position.\<close>

definition followed :: "('n \<times> 'n) set \<Rightarrow> 'n frame list \<Rightarrow> 'n \<Rightarrow> 'n set" where
  "followed E W x =
     {y. (x, y) \<in> E \<and> (\<forall>f \<in> set W. fr_node f = x \<longrightarrow> y \<in> set (take (fr_position f) (fr_successors f)))}"

text \<open>Discovered elements, by their order, which is \<open>usize::MAX\<close> before.\<close>

definition found :: "'n set \<Rightarrow> ('n \<Rightarrow> nat) \<Rightarrow> 'n set" where
  "found M num = {x \<in> M. num x \<noteq> usize_max}"

definition orders_ok :: "('n \<times> 'n) set \<Rightarrow> 'n set \<Rightarrow> ('n \<Rightarrow> nat) \<Rightarrow> 'n list \<Rightarrow> 'n list list \<Rightarrow> nat \<Rightarrow> bool" where
  "orders_ok E M num S C n \<longleftrightarrow>
     finite M \<and> E \<subseteq> M \<times> M \<and> card M \<le> usize_max \<and> n = card (found M num) \<and>
     (\<forall>x \<in> found M num. num x < n) \<and> sorted_wrt (\<lambda>x y. num y < num x) S \<and>
     set S \<union> set (concat C) = found M num \<and> set S \<inter> set (concat C) = {} \<and> distinct (concat C)"

text \<open>Finished components are strongly connected, and no edge leaves a prefix of them.\<close>

definition components_ok :: "('n \<times> 'n) set \<Rightarrow> 'n list list \<Rightarrow> bool" where
  "components_ok E C \<longleftrightarrow>
     (\<forall>c \<in> set C. c \<noteq> [] \<and> (\<forall>x \<in> set c. \<forall>y \<in> set c. (x, y) \<in> E\<^sup>*)) \<and>
     (\<forall>i \<le> length C. E `` set (concat (take i C)) \<subseteq> set (concat (take i C)))"

text \<open>
  The frames lie on the stack in discovery order; each stacked element reaches an open one found no
  later, and is reached from every open one found no later.
\<close>

definition frames_ok :: "('n \<times> 'n) set \<Rightarrow> ('n \<Rightarrow> nat) \<Rightarrow> 'n list \<Rightarrow> 'n frame list \<Rightarrow> bool" where
  "frames_ok E num S W \<longleftrightarrow>
     sorted_wrt (\<lambda>f f'. num (fr_node f') < num (fr_node f)) W \<and> fr_node ` set W \<subseteq> set S \<and>
     (\<forall>f \<in> set W. set (fr_successors f) = E `` {fr_node f}) \<and>
     (\<forall>x \<in> set S. \<exists>f \<in> set W. num (fr_node f) \<le> num x \<and> (x, fr_node f) \<in> E\<^sup>*) \<and>
     (\<forall>f \<in> set W. \<forall>x \<in> set S. num (fr_node f) \<le> num x \<longrightarrow> (fr_node f, x) \<in> E\<^sup>*)"

text \<open>
  The lowlink of an open element is the order of a stacked element it reaches, and a lower bound for
  the followed edges between the stacked elements found since it and before the next open one.
\<close>

definition lows_ok :: "('n \<times> 'n) set \<Rightarrow> ('n \<Rightarrow> nat) \<Rightarrow> ('n \<Rightarrow> nat) \<Rightarrow> 'n list \<Rightarrow> 'n frame list \<Rightarrow> bool" where
  "lows_ok E num low S W \<longleftrightarrow>
     (\<forall>f \<in> set W. low (fr_node f) \<le> num (fr_node f) \<and>
        (\<exists>y \<in> set S. num y = low (fr_node f) \<and> (fr_node f, y) \<in> E\<^sup>*)) \<and>
     (\<forall>f \<in> set W. \<forall>x \<in> set S. \<forall>y \<in> set S. num (fr_node f) \<le> num x \<longrightarrow>
        (\<forall>f' \<in> set W. num (fr_node f') \<le> num x \<longrightarrow> num (fr_node f') \<le> num (fr_node f)) \<longrightarrow>
        y \<in> followed E W x \<longrightarrow> low (fr_node f) \<le> num y)"

text \<open>The pending elements are those an edge was just followed to.\<close>

definition tarjan_inv ::
    "('n \<times> 'n) set \<Rightarrow> 'n set \<Rightarrow> 'n set \<Rightarrow> ('n \<Rightarrow> nat) \<Rightarrow> ('n \<Rightarrow> nat) \<Rightarrow> 'n list \<Rightarrow> 'n list list \<Rightarrow> nat \<Rightarrow> 'n frame list \<Rightarrow> bool" where
  "tarjan_inv E M P num low S C n W \<longleftrightarrow>
     orders_ok E M num S C n \<and> components_ok E C \<and> frames_ok E num S W \<and> lows_ok E num low S W \<and>
     (\<forall>x \<in> found M num. followed E W x \<subseteq> found M num \<union> P)"

lemma orders_ok_found:
  assumes "orders_ok E M num S C n"
  shows "x \<in> set S \<Longrightarrow> x \<in> found M num" "x \<in> found M num \<Longrightarrow> num x < n" "n \<le> usize_max"
proof -
  show "x \<in> set S \<Longrightarrow> x \<in> found M num" "x \<in> found M num \<Longrightarrow> num x < n"
    using assms unfolding orders_ok_def by blast+
  have "card (found M num) \<le> card M" using assms by (intro card_mono) (auto simp: orders_ok_def found_def)
  then show "n \<le> usize_max" using assms by (simp add: orders_ok_def)
qed

lemma distinct_of_descending: "sorted_wrt (\<lambda>x y. num y < (num x :: nat)) xs \<Longrightarrow> distinct xs"
  by (induction xs) auto

lemma stack_inj:
  assumes "orders_ok E M num S C n" and "x \<in> set S" "y \<in> set S" "num x = num y"
  shows "x = y"
proof -
  have "sorted_wrt (\<lambda>x y. num y < num x) S" using assms(1) by (simp add: orders_ok_def)
  with assms(2-4) show ?thesis by (induction S) auto
qed

lemma found_update: "y \<in> M \<Longrightarrow> n \<noteq> usize_max \<Longrightarrow> found M (num(y := n)) = insert y (found M num)"
  by (auto simp: found_def)

section \<open>Discovering an element\<close>

lemma discover_keeps:
  assumes inv: "tarjan_inv E M P num low S C n W" and P: "P \<subseteq> {y}" and y: "y \<in> M" "num y = usize_max"
    and edge: "W \<noteq> [] \<Longrightarrow> (fr_node (hd W), y) \<in> E" and succs: "set ys = E `` {y}"
  shows "n < usize_max" "tarjan_inv E M {} (num(y := n)) (low(y := n)) (y # S) C (n + 1)
    (\<lparr>fr_node = y, fr_successors = ys, fr_position = 0\<rparr> # W)"
proof -
  let ?f = "\<lparr>fr_node = y, fr_successors = ys, fr_position = 0\<rparr>" and ?num = "num(y := n)" and ?low = "low(y := n)"
  from inv have ord: "orders_ok E M num S C n" and comp: "components_ok E C" and fr: "frames_ok E num S W"
    and lo: "lows_ok E num low S W" and ex: "\<And>x. x \<in> found M num \<Longrightarrow> followed E W x \<subseteq> found M num \<union> P"
    by (auto simp: tarjan_inv_def)
  note fnd = orders_ok_found [OF ord]
  have new: "y \<notin> found M num" using y(2) by (simp add: found_def)
  then have "y \<notin> set S" using fnd(1) by blast
  then have nW: "\<And>f. f \<in> set W \<Longrightarrow> fr_node f \<noteq> y" using fr by (auto simp: frames_ok_def)
  have fin: "finite M" using ord by (simp add: orders_ok_def)
  then have ffin: "finite (found M num)" by (rule rev_finite_subset) (auto simp: found_def)
  have "card (insert y (found M num)) \<le> card M" using fin y(1) by (intro card_mono) (auto simp: found_def)
  then show n: "n < usize_max" using ord new ffin by (simp add: orders_ok_def)
  have found: "found M ?num = insert y (found M num)" using found_update [OF y(1)] n by simp
  have old: "?num x = num x" if "x \<in> found M num" for x using that new by auto
  have S: "\<And>x. x \<in> set S \<Longrightarrow> ?num x = num x \<and> num x < n" using fnd(1,2) old by blast
  have W: "\<And>f. f \<in> set W \<Longrightarrow> ?num (fr_node f) = num (fr_node f) \<and> num (fr_node f) < n"
    using S fr unfolding frames_ok_def by blast
  have followed: "followed E (?f # W) x = (if x = y then {} else followed E W x)" for x
    by (auto simp: followed_def)
  have "sorted_wrt (\<lambda>x y. ?num y < ?num x) S"
  proof (rule sorted_wrt_mono_rel)
    show "sorted_wrt (\<lambda>x y. num y < num x) S" using ord by (simp add: orders_ok_def)
  qed (metis S)
  then have sorted: "sorted_wrt (\<lambda>x y. ?num y < ?num x) (y # S)" using S by simp
  have "\<forall>x \<in> insert y (found M num). ?num x < n + 1" using fnd(2) old by (auto simp: less_Suc_eq)
  with sorted have "orders_ok E M ?num (y # S) C (n + 1)"
    using ord new ffin unfolding orders_ok_def found by (simp add: card_insert_if del: fun_upd_apply) blast
  moreover have "frames_ok E ?num (y # S) (?f # W)"
    unfolding frames_ok_def
  proof (intro conjI ballI impI)
    have "sorted_wrt (\<lambda>f f'. ?num (fr_node f') < ?num (fr_node f)) W"
    proof (rule sorted_wrt_mono_rel)
      show "sorted_wrt (\<lambda>f f'. num (fr_node f') < num (fr_node f)) W" using fr by (simp add: frames_ok_def)
    qed (metis W)
    then show "sorted_wrt (\<lambda>f f'. ?num (fr_node f') < ?num (fr_node f)) (?f # W)" using W by simp
    show "fr_node ` set (?f # W) \<subseteq> set (y # S)" using fr by (auto simp: frames_ok_def)
    show "set (fr_successors f) = E `` {fr_node f}" if "f \<in> set (?f # W)" for f
      using that fr succs by (auto simp: frames_ok_def)
    show "\<exists>f \<in> set (?f # W). ?num (fr_node f) \<le> ?num x \<and> (x, fr_node f) \<in> E\<^sup>*" if "x \<in> set (y # S)" for x
    proof (cases "x = y")
      case False
      with that fr obtain f where "f \<in> set W" "num (fr_node f) \<le> num x" "(x, fr_node f) \<in> E\<^sup>*"
        by (auto simp: frames_ok_def)
      with W S False that show ?thesis by auto
    qed simp
    show "(fr_node f, x) \<in> E\<^sup>*" if f: "f \<in> set (?f # W)" and x: "x \<in> set (y # S)" and le: "?num (fr_node f) \<le> ?num x" for f x
    proof (cases "f = ?f")
      case True
      with x le S show ?thesis by (auto simp: not_less [symmetric])
    next
      case False
      with f have f: "f \<in> set W" by simp
      then have ne: "W \<noteq> []" by auto
      show ?thesis
      proof (cases "x = y")
        case True
        have "num (fr_node f) \<le> num (fr_node (hd W))"
          using fr f ne by (cases W) (auto simp: frames_ok_def intro: less_imp_le)
        moreover have "fr_node (hd W) \<in> set S" using fr ne by (auto simp: frames_ok_def)
        ultimately have "(fr_node f, fr_node (hd W)) \<in> E\<^sup>*" using fr f by (auto simp: frames_ok_def)
        with edge [OF ne] True show ?thesis by auto
      next
        case False
        with x le f fr W S show ?thesis by (auto simp: frames_ok_def)
      qed
    qed
  qed
  moreover have "lows_ok E ?num ?low (y # S) (?f # W)"
    unfolding lows_ok_def
  proof (intro conjI ballI impI)
    fix f assume f: "f \<in> set (?f # W)"
    show "?low (fr_node f) \<le> ?num (fr_node f)" using f lo nW by (auto simp: lows_ok_def)
    show "\<exists>z \<in> set (y # S). ?num z = ?low (fr_node f) \<and> (fr_node f, z) \<in> E\<^sup>*"
    proof (cases "f = ?f")
      case False
      with f lo obtain z where "z \<in> set S" "num z = low (fr_node f)" "(fr_node f, z) \<in> E\<^sup>*" by (auto simp: lows_ok_def)
      with S f False nW show ?thesis by (intro bexI [of _ z]) auto
    qed auto
  next
    fix f x z
    assume f: "f \<in> set (?f # W)" and x: "x \<in> set (y # S)" and z: "z \<in> set (y # S)" and le: "?num (fr_node f) \<le> ?num x"
      and last: "\<forall>f' \<in> set (?f # W). ?num (fr_node f') \<le> ?num x \<longrightarrow> ?num (fr_node f') \<le> ?num (fr_node f)"
      and e: "z \<in> followed E (?f # W) x"
    from e have "x \<noteq> y" and e: "z \<in> followed E W x" by (auto simp: followed split: if_splits)
    with x have x: "x \<in> set S" by simp
    have "f \<noteq> ?f" using le S [OF x] \<open>x \<noteq> y\<close> by auto
    with f have f: "f \<in> set W" by simp
    show "?low (fr_node f) \<le> ?num z"
    proof (cases "z = y")
      case True
      with f lo nW W show ?thesis by (fastforce simp: lows_ok_def)
    next
      case False
      with z have z: "z \<in> set S" by simp
      have "\<forall>f' \<in> set W. num (fr_node f') \<le> num x \<longrightarrow> num (fr_node f') \<le> num (fr_node f)"
        using last W S [OF x] \<open>x \<noteq> y\<close> f by auto
      with lo f x z le e W S \<open>x \<noteq> y\<close> have "low (fr_node f) \<le> num z" by (auto simp: lows_ok_def)
      with False nW f show ?thesis by simp
    qed
  qed
  moreover have "followed E (?f # W) x \<subseteq> found M ?num \<union> {}" if "x \<in> found M ?num" for x
    using that ex [of x] P unfolding followed found by (auto split: if_splits)
  ultimately show "tarjan_inv E M {} ?num ?low (y # S) C (n + 1) (?f # W)"
    using comp by (simp add: tarjan_inv_def)
qed

section \<open>Following an edge\<close>

lemma frames_ok_distinct:
  assumes "frames_ok E num S (f # R)" and "f' \<in> set R"
  shows "num (fr_node f') < num (fr_node f)"
  using assms by (simp add: frames_ok_def)

lemma followed_step:
  assumes "frames_ok E num S (f # R)" and pos: "fr_position f < length (fr_successors f)"
  defines "z \<equiv> fr_successors f ! fr_position f"
  shows "followed E (f\<lparr>fr_position := fr_position f + 1\<rparr> # R) x =
    (if x = fr_node f then insert z (followed E (f # R) x) else followed E (f # R) x)"
    and "(fr_node f, z) \<in> E"
proof -
  have "set (fr_successors f) = E `` {fr_node f}" using assms(1) by (simp add: frames_ok_def)
  then show z: "(fr_node f, z) \<in> E" unfolding z_def using nth_mem [OF pos] by blast
  have "\<And>f'. f' \<in> set R \<Longrightarrow> fr_node f' \<noteq> fr_node f" using frames_ok_distinct [OF assms(1)] by fastforce
  moreover have "set (take (fr_position f + 1) (fr_successors f)) = insert z (set (take (fr_position f) (fr_successors f)))"
    unfolding z_def using pos by (simp add: take_Suc_conv_app_nth)
  ultimately show "followed E (f\<lparr>fr_position := fr_position f + 1\<rparr> # R) x =
    (if x = fr_node f then insert z (followed E (f # R) x) else followed E (f # R) x)"
    using z by (auto simp: followed_def)
qed

lemma follow_keeps:
  assumes inv: "tarjan_inv E M {} num low S C n (f # R)" and pos: "fr_position f < length (fr_successors f)"
  defines "z \<equiv> fr_successors f ! fr_position f" and "v \<equiv> fr_node f"
  assumes m: "m \<le> low v" "m = low v \<or> z \<in> set S \<and> m = num z" "z \<in> set S \<Longrightarrow> m \<le> num z"
    and z: "z \<in> found M num \<union> P"
  shows "tarjan_inv E M P num (low(v := m)) S C n (f\<lparr>fr_position := fr_position f + 1\<rparr> # R)"
proof -
  let ?f = "f\<lparr>fr_position := fr_position f + 1\<rparr>" and ?low = "low(v := m)"
  from inv have ord: "orders_ok E M num S C n" and comp: "components_ok E C" and fr: "frames_ok E num S (f # R)"
    and lo: "lows_ok E num low S (f # R)" and ex: "\<And>x. x \<in> found M num \<Longrightarrow> followed E (f # R) x \<subseteq> found M num"
    by (auto simp: tarjan_inv_def)
  note step = followed_step [OF fr pos, folded z_def v_def]
  have le: "\<And>u. ?low u \<le> low u" using m(1) by simp
  have frames: "frames_ok E num S (?f # R)" using fr unfolding frames_ok_def by simp
  moreover have "lows_ok E num ?low S (?f # R)"
    unfolding lows_ok_def
  proof (intro conjI ballI impI)
    fix g assume g: "g \<in> set (?f # R)"
    then have "\<exists>g' \<in> set (f # R). fr_node g = fr_node g'" by auto
    then obtain g' where g': "g' \<in> set (f # R)" "fr_node g = fr_node g'" by blast
    from lo g'(1) have "low (fr_node g') \<le> num (fr_node g')" by (simp only: lows_ok_def)
    with le [of "fr_node g'"] show "?low (fr_node g) \<le> num (fr_node g)" unfolding g'(2) by simp
    show "\<exists>y \<in> set S. num y = ?low (fr_node g) \<and> (fr_node g, y) \<in> E\<^sup>*"
    proof (cases "fr_node g = v \<and> m \<noteq> low v")
      case True
      with m(2) step(2) show ?thesis by (intro bexI [of _ z]) auto
    next
      case False
      from lo g'(1) obtain y where "y \<in> set S" "num y = low (fr_node g')" "(fr_node g', y) \<in> E\<^sup>*"
        unfolding lows_ok_def by blast
      with False show ?thesis unfolding g'(2) by (intro bexI [of _ y]) auto
    qed
  next
    fix g x y
    assume g: "g \<in> set (?f # R)" and x: "x \<in> set S" and y: "y \<in> set S" and gx: "num (fr_node g) \<le> num x"
      and last: "\<forall>f' \<in> set (?f # R). num (fr_node f') \<le> num x \<longrightarrow> num (fr_node f') \<le> num (fr_node g)"
      and e: "y \<in> followed E (?f # R) x"
    from g have "\<exists>g' \<in> set (f # R). fr_node g = fr_node g'" by auto
    then obtain g' where g': "g' \<in> set (f # R)" "fr_node g = fr_node g'" by blast
    show "?low (fr_node g) \<le> num y"
    proof (cases "y \<in> followed E (f # R) x")
      case True
      have "\<forall>f' \<in> set (f # R). num (fr_node f') \<le> num x \<longrightarrow> num (fr_node f') \<le> num (fr_node g')"
        using last g'(2) by auto
      with lo g'(1) x y gx [unfolded g'(2)] True have "low (fr_node g) \<le> num y"
        unfolding lows_ok_def g'(2) by blast
      with le [of "fr_node g"] show ?thesis by (rule order_trans)
    next
      case False
      with e have xv: "x = v" "y = z" unfolding step(1) by (auto split: if_splits)
      have "num v \<le> num (fr_node g)" using last xv(1) by (auto simp: v_def)
      with gx xv(1) have "num (fr_node g) = num v" by simp
      then have "fr_node g = v"
        using stack_inj [OF ord] frames g x xv(1) by (auto simp: frames_ok_def)
      then show ?thesis using m(3) y xv(2) by simp
    qed
  qed
  moreover have "followed E (?f # R) x \<subseteq> found M num \<union> P" if "x \<in> found M num" for x
    using ex [OF that] z unfolding step(1) by auto
  ultimately show ?thesis using ord comp by (simp add: tarjan_inv_def)
qed

section \<open>Finishing an element\<close>

text \<open>The frame on top is the latest, so its element bounds what it reaches on the stack.\<close>

lemma finish_explored:
  assumes inv: "tarjan_inv E M {} num low S C n (f # R)" and pos: "length (fr_successors f) \<le> fr_position f"
    and x: "x \<in> found M num" "\<And>g. g \<in> set R \<Longrightarrow> fr_node g \<noteq> x"
  shows "followed E (f # R) x = E `` {x}"
proof -
  have "set (fr_successors f) = E `` {fr_node f}" using inv by (simp add: tarjan_inv_def frames_ok_def)
  with pos x(2) show ?thesis by (auto simp: followed_def)
qed

lemma top_frame_max:
  assumes "frames_ok E num S (f # R)" and "g \<in> set (f # R)"
  shows "num (fr_node g) \<le> num (fr_node f)"
  using frames_ok_distinct [OF assms(1)] assms(2) by (auto intro: less_imp_le)

lemma finish_inner_keeps:
  assumes inv: "tarjan_inv E M {} num low S C n (f # R)" and pos: "length (fr_successors f) \<le> fr_position f"
    and low: "low (fr_node f) \<noteq> num (fr_node f)"
  shows "R \<noteq> []" "tarjan_inv E M {} num (low(fr_node (hd R) := min (low (fr_node (hd R))) (low (fr_node f)))) S C n R"
proof -
  let ?v = "fr_node f" and ?p = "fr_node (hd R)"
  let ?low = "low(?p := min (low ?p) (low ?v))"
  from inv have ord: "orders_ok E M num S C n" and comp: "components_ok E C" and fr: "frames_ok E num S (f # R)"
    and lo: "lows_ok E num low S (f # R)" and ex: "\<And>x. x \<in> found M num \<Longrightarrow> followed E (f # R) x \<subseteq> found M num"
    by (auto simp: tarjan_inv_def)
  from lo have less: "low ?v < num ?v" using low by (auto simp: lows_ok_def)
  from lo obtain y where y: "y \<in> set S" "num y = low ?v" "(?v, y) \<in> E\<^sup>*" by (auto simp: lows_ok_def)
  text \<open>The element reaches an older open one.\<close>
  from fr y(1) obtain g where g: "g \<in> set (f # R)" "num (fr_node g) \<le> num y" "(y, fr_node g) \<in> E\<^sup>*"
    unfolding frames_ok_def by blast
  with less y(2) have gR: "g \<in> set R" by auto
  then show R: "R \<noteq> []" by auto
  have vg: "(?v, fr_node g) \<in> E\<^sup>*" "num (fr_node g) < num ?v" using y g less by auto
  have hd: "hd R \<in> set R" using R by simp
  have hd_max: "num (fr_node h) \<le> num ?p" if "h \<in> set R" for h
    using fr that by (cases R) (auto simp: frames_ok_def intro: less_imp_le)
  have p: "num ?p < num ?v" using frames_ok_distinct [OF fr hd] .
  have vS: "?v \<in> set S" using fr by (simp add: frames_ok_def)
  have pv: "(?p, ?v) \<in> E\<^sup>*" using fr hd p vS by (auto simp: frames_ok_def)
  have fol: "followed E R x = followed E (f # R) x" for x
  proof -
    have "set (fr_successors f) = E `` {?v}" using fr by (simp add: frames_ok_def)
    with pos show ?thesis by (auto simp: followed_def)
  qed
  have frames: "frames_ok E num S R"
    unfolding frames_ok_def
  proof (intro conjI)
    show "\<forall>x \<in> set S. \<exists>f \<in> set R. num (fr_node f) \<le> num x \<and> (x, fr_node f) \<in> E\<^sup>*"
    proof
      fix x assume "x \<in> set S"
      with fr obtain h where h: "h \<in> set (f # R)" "num (fr_node h) \<le> num x" "(x, fr_node h) \<in> E\<^sup>*"
        unfolding frames_ok_def by blast
      show "\<exists>f \<in> set R. num (fr_node f) \<le> num x \<and> (x, fr_node f) \<in> E\<^sup>*"
      proof (cases "h \<in> set R")
        case False
        with h vg have "num (fr_node g) \<le> num x" "(x, fr_node g) \<in> E\<^sup>*" by auto
        with gR show ?thesis by blast
      qed (use h in blast)
    qed
  qed (use fr in \<open>auto simp: frames_ok_def\<close>)
  moreover have "lows_ok E num ?low S R"
    unfolding lows_ok_def
  proof (intro conjI ballI impI)
    fix h assume h: "h \<in> set R"
    then have "h \<in> set (f # R)" by simp
    with lo obtain z where z: "z \<in> set S" "num z = low (fr_node h)" "(fr_node h, z) \<in> E\<^sup>*" "low (fr_node h) \<le> num (fr_node h)"
      unfolding lows_ok_def by blast
    from z(4) show "?low (fr_node h) \<le> num (fr_node h)"
      by (cases "fr_node h = ?p") (auto simp: min_le_iff_disj)
    show "\<exists>y \<in> set S. num y = ?low (fr_node h) \<and> (fr_node h, y) \<in> E\<^sup>*"
    proof (cases "fr_node h = ?p \<and> low ?v < low ?p")
      case True
      with y pv show ?thesis by (intro bexI [of _ y]) auto
    next
      case False
      with z show ?thesis by (intro bexI [of _ z]) auto
    qed
  next
    fix h x z
    assume h: "h \<in> set R" and x: "x \<in> set S" and z: "z \<in> set S" and hx: "num (fr_node h) \<le> num x"
      and last: "\<forall>f' \<in> set R. num (fr_node f') \<le> num x \<longrightarrow> num (fr_node f') \<le> num (fr_node h)"
      and e: "z \<in> followed E R x"
    have old: "low (fr_node k) \<le> num z" if "k \<in> set (f # R)" "num (fr_node k) \<le> num x"
      "\<forall>f' \<in> set (f # R). num (fr_node f') \<le> num x \<longrightarrow> num (fr_node f') \<le> num (fr_node k)" for k
      using lo that x z e unfolding lows_ok_def fol by blast
    show "?low (fr_node h) \<le> num z"
    proof (cases "num ?v \<le> num x")
      case True
      with p have "num ?p \<le> num x" by simp
      with last hd hd_max [OF h] have "num (fr_node h) = num ?p" by (simp add: order_antisym)
      moreover have "fr_node h \<in> set S" "?p \<in> set S" using fr h hd by (auto simp: frames_ok_def)
      ultimately have "fr_node h = ?p" using stack_inj [OF ord] by blast
      moreover have "low ?v \<le> num z" using old [of f] True top_frame_max [OF fr] by simp
      ultimately show ?thesis by simp
    next
      case False
      with old [of h] h hx last have "low (fr_node h) \<le> num z" by auto
      then show ?thesis by (auto intro: order_trans [OF min.cobounded1])
    qed
  qed
  ultimately show "tarjan_inv E M {} num ?low S C n R"
    using ord comp ex by (simp add: tarjan_inv_def fol)
qed

text \<open>
  A finished element whose lowlink is its own order roots a component: what lies on the stack down
  to it reaches it and is reached from it, and no edge leads from there to the rest of the stack.
\<close>

lemma finish_root_keeps:
  assumes inv: "tarjan_inv E M {} num low S C n (f # R)" and pos: "length (fr_successors f) \<le> fr_position f"
    and low: "low (fr_node f) = num (fr_node f)" and S: "S = A @ fr_node f # B"
  shows "tarjan_inv E M {} num low B (C @ [A @ [fr_node f]]) n R"
    "R \<noteq> [] \<Longrightarrow> low (fr_node (hd R)) \<le> low (fr_node f)"
proof -
  let ?v = "fr_node f" and ?c = "A @ [fr_node f]"
  from inv have ord: "orders_ok E M num S C n" and comp: "components_ok E C" and fr: "frames_ok E num S (f # R)"
    and lo: "lows_ok E num low S (f # R)" and ex: "\<And>x. x \<in> found M num \<Longrightarrow> followed E (f # R) x \<subseteq> found M num"
    by (auto simp: tarjan_inv_def)
  have sorted: "sorted_wrt (\<lambda>x y. num y < num x) (A @ ?v # B)" using ord S by (simp add: orders_ok_def)
  have B: "num x < num ?v" if "x \<in> set B" for x using sorted that by (simp add: sorted_wrt_append)
  have c: "num ?v \<le> num x" if "x \<in> set ?c" for x using sorted that by (auto simp: sorted_wrt_append intro: less_imp_le)
  have parts: "set S = set ?c \<union> set B" using S by auto
  have disjoint: "set ?c \<inter> set B = {}" using B c by fastforce
  have nodes: "\<And>h. h \<in> set R \<Longrightarrow> num (fr_node h) < num ?v" using frames_ok_distinct [OF fr] .
  have R: "fr_node h \<in> set B" if "h \<in> set R" for h
    using fr nodes [OF that] c that parts by (fastforce simp: frames_ok_def)
  have notc: "fr_node h \<noteq> x" if "h \<in> set R" "x \<in> set ?c" for h x
    using R [OF that(1)] that(2) disjoint by (metis IntI empty_iff)
  have fol: "followed E R x = followed E (f # R) x" for x
  proof -
    have "set (fr_successors f) = E `` {?v}" using fr by (simp add: frames_ok_def)
    with pos show ?thesis by (auto simp: followed_def)
  qed
  text \<open>Strongly connected.\<close>
  have to: "(?v, x) \<in> E\<^sup>*" if "x \<in> set ?c" for x
    using fr c [OF that] that parts by (auto simp: frames_ok_def)
  have from_c: "(x, ?v) \<in> E\<^sup>*" if "x \<in> set ?c" for x
  proof -
    from that parts fr obtain h where h: "h \<in> set (f # R)" "(x, fr_node h) \<in> E\<^sup>*"
      unfolding frames_ok_def by blast
    have "(fr_node h, ?v) \<in> E\<^sup>*"
      using fr h(1) top_frame_max [OF fr h(1)] unfolding frames_ok_def by (auto simp: S)
    with h(2) show ?thesis by (rule rtrancl_trans)
  qed
  text \<open>Closed, with the components before it.\<close>
  have closed: "E `` set ?c \<subseteq> set ?c \<union> set (concat C)"
  proof
    fix y assume "y \<in> E `` set ?c"
    then obtain x where x: "x \<in> set ?c" "(x, y) \<in> E" by blast
    then have xf: "x \<in> found M num" using orders_ok_found(1) [OF ord] parts by blast
    have "y \<in> followed E (f # R) x" using finish_explored [OF inv pos xf] notc x by blast
    then have "y \<in> found M num" using ex [OF xf] by blast
    then have "y \<in> set S \<union> set (concat C)" using ord by (simp add: orders_ok_def)
    moreover have False if "y \<in> set B"
    proof -
      have "\<forall>f' \<in> set (f # R). num (fr_node f') \<le> num x \<longrightarrow> num (fr_node f') \<le> num ?v"
        using top_frame_max [OF fr] by blast
      with lo x(1) c [OF x(1)] that parts \<open>y \<in> followed E (f # R) x\<close> have "low ?v \<le> num y"
        unfolding lows_ok_def by (metis UnCI list.set_intros(1))
      with low B [OF that] show False by simp
    qed
    ultimately show "y \<in> set ?c \<union> set (concat C)" using parts by blast
  qed
  have "components_ok E (C @ [?c])"
    unfolding components_ok_def
  proof (intro conjI)
    show "\<forall>c \<in> set (C @ [?c]). c \<noteq> [] \<and> (\<forall>x \<in> set c. \<forall>y \<in> set c. (x, y) \<in> E\<^sup>*)"
      using comp from_c to by (auto simp: components_ok_def intro: rtrancl_trans)
    show "\<forall>i \<le> length (C @ [?c]). E `` set (concat (take i (C @ [?c]))) \<subseteq> set (concat (take i (C @ [?c])))"
    proof (intro allI impI)
      fix i assume i: "i \<le> length (C @ [?c])"
      have old: "E `` set (concat (take j C)) \<subseteq> set (concat (take j C))" if "j \<le> length C" for j
        using comp that unfolding components_ok_def by blast
      show "E `` set (concat (take i (C @ [?c]))) \<subseteq> set (concat (take i (C @ [?c])))"
      proof (cases "i \<le> length C")
        case True
        with old [OF this] show ?thesis by simp
      next
        case False
        with i have "take i (C @ [?c]) = C @ [?c]" by simp
        moreover have "E `` set (concat C) \<subseteq> set (concat C)" using old [of "length C"] by simp
        ultimately show ?thesis using closed by (simp add: Image_Un) blast
      qed
    qed
  qed
  moreover have "orders_ok E M num B (C @ [?c]) n"
  proof -
    have "sorted_wrt (\<lambda>x y. num y < num x) B" using sorted by (simp add: sorted_wrt_append)
    moreover have "distinct ?c"
      by (rule distinct_of_descending [of num]) (use sorted in \<open>auto simp: sorted_wrt_append\<close>)
    ultimately show ?thesis using ord disjoint parts unfolding orders_ok_def by auto
  qed
  moreover have "frames_ok E num B R"
    unfolding frames_ok_def
  proof (intro conjI)
    show "\<forall>x \<in> set B. \<exists>f \<in> set R. num (fr_node f) \<le> num x \<and> (x, fr_node f) \<in> E\<^sup>*"
    proof
      fix x assume x: "x \<in> set B"
      with parts fr obtain h where h: "h \<in> set (f # R)" "num (fr_node h) \<le> num x" "(x, fr_node h) \<in> E\<^sup>*"
        unfolding frames_ok_def by blast
      with B [OF x] have "h \<in> set R" by auto
      with h show "\<exists>f \<in> set R. num (fr_node f) \<le> num x \<and> (x, fr_node f) \<in> E\<^sup>*" by blast
    qed
  qed (use fr R parts in \<open>auto simp: frames_ok_def\<close>)
  moreover have "lows_ok E num low B R"
    unfolding lows_ok_def
  proof (intro conjI ballI impI)
    fix h assume h: "h \<in> set R"
    then have "h \<in> set (f # R)" by simp
    with lo obtain z where z: "z \<in> set S" "num z = low (fr_node h)" "(fr_node h, z) \<in> E\<^sup>*" "low (fr_node h) \<le> num (fr_node h)"
      unfolding lows_ok_def by blast
    then show "low (fr_node h) \<le> num (fr_node h)" by blast
    have "num z < num ?v" using z nodes [OF h] by simp
    then have "z \<in> set B" using z(1) parts c by fastforce
    with z show "\<exists>y \<in> set B. num y = low (fr_node h) \<and> (fr_node h, y) \<in> E\<^sup>*" by blast
  next
    fix h x z
    assume h: "h \<in> set R" and x: "x \<in> set B" and z: "z \<in> set B" and hx: "num (fr_node h) \<le> num x"
      and last: "\<forall>f' \<in> set R. num (fr_node f') \<le> num x \<longrightarrow> num (fr_node f') \<le> num (fr_node h)"
      and e: "z \<in> followed E R x"
    have "\<forall>f' \<in> set (f # R). num (fr_node f') \<le> num x \<longrightarrow> num (fr_node f') \<le> num (fr_node h)"
      using last B [OF x] by auto
    with lo h x z hx e parts show "low (fr_node h) \<le> num z"
      unfolding lows_ok_def fol by (metis UnCI list.set_intros(2))
  qed
  ultimately show "tarjan_inv E M {} num low B (C @ [?c]) n R"
    using ex by (simp add: tarjan_inv_def fol)
  show "low (fr_node (hd R)) \<le> low ?v" if "R \<noteq> []"
  proof -
    have "hd R \<in> set R" using that by simp
    moreover from this lo have "low (fr_node (hd R)) \<le> num (fr_node (hd R))" by (simp add: lows_ok_def)
    ultimately show ?thesis using nodes low by fastforce
  qed
qed

end
