(* ===== verification/Scc.thy ===== *)
theory Scc
  imports Tarjan Toposort
begin

text \<open>
  \<open>strongly_connected_components\<close> of \<open>crates/oxgraph-algo/src/scc.rs\<close>: Tarjan's algorithm over the subgraph
  induced by the requested elements, without recursion. A vector used as a stack is a list with its
  top first.
\<close>

section \<open>The algorithm\<close>

definition UNVISITED :: nat where
  "UNVISITED = usize_max"

record 'n induced_context =
  ic_graph :: "'n topology_view"
  ic_member :: "bool list"
  ic_bound :: nat

record 'n tarjan_scratch =
  ts_order_index :: "nat list"
  ts_lowlink :: "nat list"
  ts_on_stack :: "bool list"
  ts_stack :: "'n list"
  ts_components :: "'n list list"
  ts_counter :: nat

fun member_filter :: "'n induced_context \<Rightarrow> 'n list \<Rightarrow> 'n list option" where
  "member_filter ctx [] = Some []"
| "member_filter ctx (successor # rest) =
     Option.bind (element_index (ic_graph ctx) successor) (\<lambda>target.
     Option.bind (if target < ic_bound ctx then index_or_panic (ic_member ctx) target else Some False) (\<lambda>kept.
       map_option (\<lambda>ys. if kept then successor # ys else ys) (member_filter ctx rest)))"

definition member_successors :: "'n induced_context \<Rightarrow> 'n \<Rightarrow> 'n list option" where
  "member_successors ctx node = Option.bind (element_successors (ic_graph ctx) node) (member_filter ctx)"

definition scc_discover ::
    "'n induced_context \<Rightarrow> 'n \<Rightarrow> 'n tarjan_scratch \<Rightarrow> 'n frame list \<Rightarrow> ('n tarjan_scratch \<times> 'n frame list) option" where
  "scc_discover ctx node scratch work =
     Option.bind (element_index (ic_graph ctx) node) (\<lambda>index.
     Option.bind (store_or_panic (ts_order_index scratch) index (ts_counter scratch)) (\<lambda>order_index.
     Option.bind (store_or_panic (ts_lowlink scratch) index (ts_counter scratch)) (\<lambda>lowlink.
     Option.bind (checked_add (ts_counter scratch) 1) (\<lambda>counter.
     Option.bind (store_or_panic (ts_on_stack scratch) index True) (\<lambda>on_stack.
     Option.bind (member_successors ctx node) (\<lambda>successors.
       Some (scratch\<lparr>ts_order_index := order_index, ts_lowlink := lowlink, ts_counter := counter,
               ts_on_stack := on_stack, ts_stack := node # ts_stack scratch\<rparr>,
             \<lparr>fr_node = node, fr_successors = successors, fr_position = 0\<rparr> # work)))))))"

definition scc_advance ::
    "'n induced_context \<Rightarrow> 'n \<Rightarrow> 'n \<Rightarrow> 'n tarjan_scratch \<Rightarrow> 'n frame list \<Rightarrow> ('n tarjan_scratch \<times> 'n frame list) option" where
  "scc_advance ctx node successor scratch work =
     Option.bind (element_index (ic_graph ctx) successor) (\<lambda>target.
     Option.bind (index_or_panic (ts_order_index scratch) target) (\<lambda>target_order.
       if target_order = UNVISITED then scc_discover ctx successor scratch work
       else
         Option.bind (index_or_panic (ts_on_stack scratch) target) (\<lambda>stacked.
           if stacked then
             Option.bind (element_index (ic_graph ctx) node) (\<lambda>node_index.
             Option.bind (index_or_panic (ts_lowlink scratch) node_index) (\<lambda>node_low.
               Some (if target_order < node_low
                     then scratch\<lparr>ts_lowlink := (ts_lowlink scratch)[node_index := target_order]\<rparr> else scratch, work)))
           else Some (scratch, work))))"

fun pop_loop ::
    "'n induced_context \<Rightarrow> nat \<Rightarrow> bool list \<Rightarrow> 'n list \<Rightarrow> 'n list \<Rightarrow> (bool list \<times> 'n list \<times> 'n list) option" where
  "pop_loop ctx root_index on_stack component [] = Some (on_stack, component, [])"
| "pop_loop ctx root_index on_stack component (popped # stack) =
     Option.bind (element_index (ic_graph ctx) popped) (\<lambda>popped_index.
     Option.bind (store_or_panic on_stack popped_index False) (\<lambda>on_stack.
       if popped_index = root_index then Some (on_stack, component @ [popped], stack)
       else pop_loop ctx root_index on_stack (component @ [popped]) stack))"

definition pop_component :: "'n induced_context \<Rightarrow> nat \<Rightarrow> 'n tarjan_scratch \<Rightarrow> 'n tarjan_scratch option" where
  "pop_component ctx root_index scratch =
     map_option (\<lambda>(on_stack, component, stack).
       scratch\<lparr>ts_on_stack := on_stack, ts_stack := stack, ts_components := ts_components scratch @ [component]\<rparr>)
       (pop_loop ctx root_index (ts_on_stack scratch) [] (ts_stack scratch))"

definition scc_finish ::
    "'n induced_context \<Rightarrow> 'n \<Rightarrow> 'n tarjan_scratch \<Rightarrow> 'n frame list \<Rightarrow> ('n tarjan_scratch \<times> 'n frame list) option" where
  "scc_finish ctx node scratch work =
     Option.bind (element_index (ic_graph ctx) node) (\<lambda>node_index.
     Option.bind (index_or_panic (ts_lowlink scratch) node_index) (\<lambda>node_low.
     Option.bind (index_or_panic (ts_order_index scratch) node_index) (\<lambda>node_order.
     Option.bind (if node_low = node_order then pop_component ctx node_index scratch else Some scratch) (\<lambda>scratch.
       case tl work of
         [] \<Rightarrow> Some (scratch, [])
       | parent # rest \<Rightarrow>
           Option.bind (element_index (ic_graph ctx) (fr_node parent)) (\<lambda>parent_index.
           Option.bind (index_or_panic (ts_lowlink scratch) node_index) (\<lambda>node_low.
           Option.bind (index_or_panic (ts_lowlink scratch) parent_index) (\<lambda>parent_low.
             Some (if node_low < parent_low
                   then scratch\<lparr>ts_lowlink := (ts_lowlink scratch)[parent_index := node_low]\<rparr> else scratch,
                   parent # rest))))))))"

text \<open>One turn of the loop of \<open>visit\<close> with \<open>frame\<close> on top of the work stack.\<close>

definition visit_step ::
    "'n induced_context \<Rightarrow> 'n tarjan_scratch \<Rightarrow> 'n frame \<Rightarrow> 'n frame list \<Rightarrow> ('n tarjan_scratch \<times> 'n frame list) option" where
  "visit_step ctx scratch frame rest =
     (if fr_position frame < length (fr_successors frame)
      then scc_advance ctx (fr_node frame) (fr_successors frame ! fr_position frame) scratch
        (frame\<lparr>fr_position := fr_position frame + 1\<rparr> # rest)
      else scc_finish ctx (fr_node frame) scratch (frame # rest))"

partial_function (option) visit_loop ::
    "'n induced_context \<Rightarrow> 'n tarjan_scratch \<Rightarrow> 'n frame list \<Rightarrow> 'n tarjan_scratch option" where
  "visit_loop ctx scratch work =
     (case work of
        [] \<Rightarrow> Some scratch
      | frame # rest \<Rightarrow> Option.bind (visit_step ctx scratch frame rest) (\<lambda>(scratch, work). visit_loop ctx scratch work))"

definition scc_visit :: "'n induced_context \<Rightarrow> 'n \<Rightarrow> 'n tarjan_scratch \<Rightarrow> 'n tarjan_scratch option" where
  "scc_visit ctx start scratch =
     Option.bind (scc_discover ctx start scratch []) (\<lambda>(scratch, work). visit_loop ctx scratch work)"

fun visit_starts :: "'n induced_context \<Rightarrow> 'n tarjan_scratch \<Rightarrow> 'n list \<Rightarrow> 'n tarjan_scratch option" where
  "visit_starts ctx scratch [] = Some scratch"
| "visit_starts ctx scratch (start # rest) =
     Option.bind (element_index (ic_graph ctx) start) (\<lambda>index.
     Option.bind (index_or_panic (ts_order_index scratch) index) (\<lambda>order.
     Option.bind (if order = UNVISITED then scc_visit ctx start scratch else Some scratch) (\<lambda>scratch.
       visit_starts ctx scratch rest)))"

definition strongly_connected_components :: "'n topology_view \<Rightarrow> 'n list \<Rightarrow> 'n list list option" where
  "strongly_connected_components g elements =
     (let bound = element_bound g in
      Option.bind (collect_members g (replicate bound False) [] elements) (\<lambda>(member, nodes).
        map_option ts_components
          (visit_starts \<lparr>ic_graph = g, ic_member = member, ic_bound = bound\<rparr>
             \<lparr>ts_order_index = replicate bound UNVISITED, ts_lowlink = replicate bound 0,
              ts_on_stack = replicate bound False, ts_stack = [], ts_components = [], ts_counter = 0\<rparr> nodes)))"

section \<open>The arrays as functions\<close>

text \<open>The context of a set of requested, contained elements.\<close>

definition context_ok :: "'n induced_context \<Rightarrow> 'n set \<Rightarrow> bool" where
  "context_ok ctx M \<longleftrightarrow> topology_ok Forward (ic_graph ctx) \<and> (\<forall>x \<in> M. contains_element (ic_graph ctx) x) \<and>
     ic_bound ctx = element_bound (ic_graph ctx) \<and> marked (ic_graph ctx) (ic_member ctx) M"

definition scratch_repr :: "'n induced_context \<Rightarrow> 'n tarjan_scratch \<Rightarrow> ('n \<Rightarrow> nat) \<Rightarrow> ('n \<Rightarrow> nat) \<Rightarrow> bool" where
  "scratch_repr ctx s num low \<longleftrightarrow>
     tabulated (ic_graph ctx) (ts_order_index s) num \<and> tabulated (ic_graph ctx) (ts_lowlink s) low \<and>
     tabulated (ic_graph ctx) (ts_on_stack s) (\<lambda>x. x \<in> set (ts_stack s))"

definition scc_inv :: "'n induced_context \<Rightarrow> 'n set \<Rightarrow> ('n \<Rightarrow> nat) \<Rightarrow> ('n \<Rightarrow> nat) \<Rightarrow> 'n tarjan_scratch \<Rightarrow> 'n frame list \<Rightarrow> bool" where
  "scc_inv ctx M num low s W \<longleftrightarrow>
     scratch_repr ctx s num low \<and>
     tarjan_inv (induced_steps (ic_graph ctx) M) M {} num low (ts_stack s) (ts_components s) (ts_counter s) W"

lemma member_filter_Some:
  assumes ctx: "context_ok ctx M" and "\<forall>y \<in> set ys. contains_element (ic_graph ctx) y"
  shows "member_filter ctx ys = Some (filter (\<lambda>y. y \<in> M) ys)"
  using assms(2)
proof (induction ys)
  case (Cons y ys)
  let ?g = "ic_graph ctx"
  from ctx have ok: "topology_ok Forward ?g" and member: "marked ?g (ic_member ctx) M" and bound: "ic_bound ctx = element_bound ?g"
    by (simp_all add: context_ok_def)
  from Cons.prems have "contains_element ?g y" by simp
  from marked_index [OF ok member this] obtain i where
    "element_index ?g y = Some i" "i < element_bound ?g" "i < length (ic_member ctx)" "ic_member ctx ! i \<longleftrightarrow> y \<in> M" by metis
  then show ?case using Cons by (simp add: bound)
qed simp

lemma member_successors_Some:
  assumes ctx: "context_ok ctx M" and x: "x \<in> M"
  shows "member_successors ctx x = Some (induced_succs (ic_graph ctx) M x)"
    and "set (induced_succs (ic_graph ctx) M x) = induced_steps (ic_graph ctx) M `` {x}"
proof -
  let ?g = "ic_graph ctx"
  from ctx have ok: "topology_ok Forward ?g" and M: "\<forall>x \<in> M. contains_element ?g x" by (simp_all add: context_ok_def)
  note n = expand_neighbors [OF ok M [rule_format, OF x]]
  then show "member_successors ctx x = Some (induced_succs ?g M x)"
    using member_filter_Some [OF ctx, of "neighbors Forward ?g x"]
    by (simp add: member_successors_def induced_succs_def)
  show "set (induced_succs ?g M x) = induced_steps ?g M `` {x}"
    using induced_succs_steps [OF ok x M] by auto
qed

text \<open>Reading and writing the three arrays at a requested element.\<close>

lemma scratch_at:
  assumes ctx: "context_ok ctx M" and repr: "scratch_repr ctx s num low" and x: "x \<in> M"
  obtains i where "element_index (ic_graph ctx) x = Some i"
    and "i < length (ts_order_index s)" "ts_order_index s ! i = num x"
      "\<And>v. tabulated (ic_graph ctx) ((ts_order_index s)[i := v]) (num(x := v))"
    and "i < length (ts_lowlink s)" "ts_lowlink s ! i = low x"
      "\<And>v. tabulated (ic_graph ctx) ((ts_lowlink s)[i := v]) (low(x := v))"
    and "i < length (ts_on_stack s)" "ts_on_stack s ! i \<longleftrightarrow> x \<in> set (ts_stack s)"
      "tabulated (ic_graph ctx) ((ts_on_stack s)[i := True]) (\<lambda>y. y \<in> set (x # ts_stack s))"
proof -
  let ?g = "ic_graph ctx"
  from ctx x have ok: "topology_ok Forward ?g" and c: "contains_element ?g x" by (auto simp: context_ok_def)
  from repr have tabs: "tabulated ?g (ts_order_index s) num" "tabulated ?g (ts_lowlink s) low"
    "tabulated ?g (ts_on_stack s) (\<lambda>x. x \<in> set (ts_stack s))" by (simp_all add: scratch_repr_def)
  from tabulated_index [OF ok tabs(1) c] obtain i where i: "element_index ?g x = Some i"
    "i < length (ts_order_index s)" "ts_order_index s ! i = num x"
    "\<And>v. tabulated ?g ((ts_order_index s)[i := v]) (num(x := v))" by metis
  moreover from tabulated_index [OF ok tabs(2) c] i(1) have "i < length (ts_lowlink s)" "ts_lowlink s ! i = low x"
    "\<And>v. tabulated ?g ((ts_lowlink s)[i := v]) (low(x := v))" by (metis option.inject)+
  moreover from tabulated_index [OF ok tabs(3) c] i(1) have st: "i < length (ts_on_stack s)"
    "ts_on_stack s ! i \<longleftrightarrow> x \<in> set (ts_stack s)"
    "\<And>v. tabulated ?g ((ts_on_stack s)[i := v]) ((\<lambda>x. x \<in> set (ts_stack s))(x := v))" by (metis option.inject)+
  moreover have "tabulated ?g ((ts_on_stack s)[i := True]) (\<lambda>y. y \<in> set (x # ts_stack s))"
    by (rule tabulated_cong [OF st(3)]) auto
  ultimately show thesis using that by blast
qed

section \<open>The steps\<close>

lemma scc_discover_Some:
  assumes ctx: "context_ok ctx M" and repr: "scratch_repr ctx s num low"
    and inv: "tarjan_inv (induced_steps (ic_graph ctx) M) M P num low (ts_stack s) (ts_components s) (ts_counter s) W"
    and P: "P \<subseteq> {y}" and y: "y \<in> M" "num y = usize_max"
    and edge: "W \<noteq> [] \<Longrightarrow> (fr_node (hd W), y) \<in> induced_steps (ic_graph ctx) M"
  shows "\<exists>s' f num' low'. scc_discover ctx y s W = Some (s', f # W) \<and> scc_inv ctx M num' low' s' (f # W) \<and>
    ts_counter s' = Suc (ts_counter s) \<and> ts_stack s' = y # ts_stack s \<and> ts_components s' = ts_components s"
proof -
  let ?g = "ic_graph ctx" and ?n = "ts_counter s"
  note succ = member_successors_Some [OF ctx y(1)]
  note kept = discover_keeps [OF inv P y edge succ(2)]
  from scratch_at [OF ctx repr y(1)] obtain i where i: "element_index ?g y = Some i"
    "i < length (ts_order_index s)" "\<And>v. tabulated ?g ((ts_order_index s)[i := v]) (num(y := v))"
    "i < length (ts_lowlink s)" "\<And>v. tabulated ?g ((ts_lowlink s)[i := v]) (low(y := v))"
    "i < length (ts_on_stack s)" "tabulated ?g ((ts_on_stack s)[i := True]) (\<lambda>z. z \<in> set (y # ts_stack s))" by metis
  let ?s = "s\<lparr>ts_order_index := (ts_order_index s)[i := ?n], ts_lowlink := (ts_lowlink s)[i := ?n], ts_counter := ?n + 1,
      ts_on_stack := (ts_on_stack s)[i := True], ts_stack := y # ts_stack s\<rparr>"
  let ?f = "\<lparr>fr_node = y, fr_successors = induced_succs ?g M y, fr_position = 0\<rparr>"
  have "scc_discover ctx y s W = Some (?s, ?f # W)"
    using i succ(1) kept(1) by (simp add: scc_discover_def checked_add_def)
  moreover have "scc_inv ctx M (num(y := ?n)) (low(y := ?n)) ?s (?f # W)"
    using kept(2) i(3,5,7) by (simp add: scc_inv_def scratch_repr_def)
  ultimately show ?thesis
    by (intro exI [of _ ?s] exI [of _ ?f] exI [of _ "num(y := ?n)"] exI [of _ "low(y := ?n)"]) simp
qed

text \<open>What is left to do: elements to discover, then entries to follow.\<close>

definition work_left :: "'n set \<Rightarrow> 'n tarjan_scratch \<times> 'n frame list \<Rightarrow> nat \<times> nat" where
  "work_left M sW = (card M - ts_counter (fst sW),
     sum_list (map (\<lambda>f. Suc (length (fr_successors f) - fr_position f)) (snd sW)))"

lemma scc_inv_counter:
  assumes "scc_inv ctx M num low s W"
  shows "ts_counter s = card (set (ts_stack s) \<union> set (concat (ts_components s)))"
    and "set (ts_stack s) \<union> set (concat (ts_components s)) = found M num" and "ts_counter s \<le> card M"
proof -
  have ord: "orders_ok (induced_steps (ic_graph ctx) M) M num (ts_stack s) (ts_components s) (ts_counter s)"
    using assms by (simp add: scc_inv_def tarjan_inv_def)
  then show "set (ts_stack s) \<union> set (concat (ts_components s)) = found M num"
    "ts_counter s = card (set (ts_stack s) \<union> set (concat (ts_components s)))" by (simp_all add: orders_ok_def)
  have "card (found M num) \<le> card M" using ord by (intro card_mono) (auto simp: orders_ok_def found_def)
  then show "ts_counter s \<le> card M" using ord by (simp add: orders_ok_def)
qed

lemma pop_loop_Some:
  assumes ok: "topology_ok dir (ic_graph ctx)" and root: "element_index (ic_graph ctx) v = Some i"
    and "tabulated (ic_graph ctx) flags (\<lambda>x. x \<in> set (A @ v # B))" and "distinct (A @ v # B)"
    and "\<forall>x \<in> set (A @ v # B). contains_element (ic_graph ctx) x"
  shows "\<exists>flags'. pop_loop ctx i flags c (A @ v # B) = Some (flags', c @ A @ [v], B) \<and>
    tabulated (ic_graph ctx) flags' (\<lambda>x. x \<in> set B)"
  using assms(3-5)
proof (induction A arbitrary: flags c)
  case Nil
  then have "contains_element (ic_graph ctx) v" by simp
  from tabulated_index [OF ok Nil.prems(1) this] root have
    at: "i < length flags" "tabulated (ic_graph ctx) (flags[i := False]) ((\<lambda>x. x \<in> set (v # B))(v := False))" by force+
  have "tabulated (ic_graph ctx) (flags[i := False]) (\<lambda>x. x \<in> set B)"
    by (rule tabulated_cong [OF at(2)]) (use Nil.prems(2) in auto)
  with at(1) root show ?case by simp
next
  case (Cons x A)
  then have x: "contains_element (ic_graph ctx) x" "contains_element (ic_graph ctx) v" "x \<noteq> v" by auto
  from tabulated_index [OF ok Cons.prems(1) x(1)] obtain j where
    j: "element_index (ic_graph ctx) x = Some j" "j < length flags"
      "tabulated (ic_graph ctx) (flags[j := False]) ((\<lambda>y. y \<in> set ((x # A) @ v # B))(x := False))" by metis
  have "j \<noteq> i" using topology_ok_distinct [OF ok x(1,2)] j(1) root x(3) by auto
  have "tabulated (ic_graph ctx) (flags[j := False]) (\<lambda>y. y \<in> set (A @ v # B))"
    by (rule tabulated_cong [OF j(3)]) (use Cons.prems(2) in auto)
  from Cons.IH [OF this, of "c @ [x]"] Cons.prems(2,3) j(1,2) \<open>j \<noteq> i\<close> show ?case by auto
qed

text \<open>What a step promises: it returns, keeps the invariant, makes progress and forgets no element.\<close>

definition step_ok :: "'n induced_context \<Rightarrow> 'n set \<Rightarrow> 'n tarjan_scratch \<times> 'n frame list \<Rightarrow> ('n tarjan_scratch \<times> 'n frame list) option \<Rightarrow> bool" where
  "step_ok ctx M sW r \<longleftrightarrow>
     (\<exists>s' W' num low. r = Some (s', W') \<and> scc_inv ctx M num low s' W' \<and>
        (work_left M (s', W'), work_left M sW) \<in> less_than <*lex*> less_than \<and>
        set (ts_stack (fst sW)) \<union> set (concat (ts_components (fst sW))) \<subseteq> set (ts_stack s') \<union> set (concat (ts_components s')))"

lemma advance_ok:
  assumes ctx: "context_ok ctx M" and inv: "scc_inv ctx M num low s (f # R)"
    and pos: "fr_position f < length (fr_successors f)"
  shows "step_ok ctx M (s, f # R) (scc_advance ctx (fr_node f) (fr_successors f ! fr_position f) s
    (f\<lparr>fr_position := fr_position f + 1\<rparr> # R))"
proof -
  let ?g = "ic_graph ctx" and ?v = "fr_node f" and ?z = "fr_successors f ! fr_position f"
  let ?E = "induced_steps ?g M" and ?f = "f\<lparr>fr_position := fr_position f + 1\<rparr>"
  from inv have repr: "scratch_repr ctx s num low"
    and tar: "tarjan_inv ?E M {} num low (ts_stack s) (ts_components s) (ts_counter s) (f # R)" by (simp_all add: scc_inv_def)
  from tar have fr: "frames_ok ?E num (ts_stack s) (f # R)" and lo: "lows_ok ?E num low (ts_stack s) (f # R)"
    and ord: "orders_ok ?E M num (ts_stack s) (ts_components s) (ts_counter s)" by (simp_all add: tarjan_inv_def)
  have edge: "(?v, ?z) \<in> ?E" by (rule followed_step(2) [OF fr pos])
  then have M: "?v \<in> M" "?z \<in> M" by (auto simp: induced_steps_def)
  from scratch_at [OF ctx repr M(2)] obtain i where i: "element_index ?g ?z = Some i" "i < length (ts_order_index s)"
    "ts_order_index s ! i = num ?z" "i < length (ts_on_stack s)" "ts_on_stack s ! i \<longleftrightarrow> ?z \<in> set (ts_stack s)" by metis
  note follow = follow_keeps [OF tar pos]
  have later: "(work_left M (s', ?f # R), work_left M (s, f # R)) \<in> less_than <*lex*> less_than"
    if "ts_counter s' = ts_counter s" for s'
    using that pos by (simp add: work_left_def)
  show ?thesis
  proof (cases "num ?z = usize_max")
    case True
    then have "?z \<notin> set (ts_stack s)" using orders_ok_found(1) [OF ord, of ?z] by (auto simp: found_def)
    then have fresh: "tarjan_inv ?E M {?z} num low (ts_stack s) (ts_components s) (ts_counter s) (?f # R)"
      using follow [of "low ?v" "{?z}"] by simp
    have "\<exists>s' k num' low'. scc_discover ctx ?z s (?f # R) = Some (s', k # ?f # R) \<and> scc_inv ctx M num' low' s' (k # ?f # R) \<and>
        ts_counter s' = Suc (ts_counter s) \<and> ts_stack s' = ?z # ts_stack s \<and> ts_components s' = ts_components s"
      by (rule scc_discover_Some [OF ctx repr fresh subset_refl M(2) True]) (use edge in simp)
    then obtain s' k num' low' where s': "scc_discover ctx ?z s (?f # R) = Some (s', k # ?f # R)"
      "scc_inv ctx M num' low' s' (k # ?f # R)" "ts_counter s' = Suc (ts_counter s)" "ts_stack s' = ?z # ts_stack s"
      "ts_components s' = ts_components s" by blast
    have "(work_left M (s', k # ?f # R), work_left M (s, f # R)) \<in> less_than <*lex*> less_than"
    proof -
      have "card M - ts_counter s' < card M - ts_counter s" using scc_inv_counter(3) [OF s'(2)] s'(3) by linarith
      then show ?thesis by (simp add: work_left_def)
    qed
    moreover have "scc_advance ctx ?v ?z s (?f # R) = Some (s', k # ?f # R)"
      using i s'(1) True by (simp add: scc_advance_def UNVISITED_def)
    ultimately show ?thesis using s'(2,4,5) unfolding step_ok_def by (intro exI conjI) (assumption+, auto)
  next
    case False
    then have found: "?z \<in> found M num \<union> {}" using M(2) by (simp add: found_def)
    show ?thesis
    proof (cases "?z \<in> set (ts_stack s)")
      case stacked: True
      let ?m = "min (low ?v) (num ?z)"
      have kept: "tarjan_inv ?E M {} num (low(?v := ?m)) (ts_stack s) (ts_components s) (ts_counter s) (?f # R)"
        by (rule follow [OF _ _ _ found]) (use stacked in \<open>auto simp: min_def\<close>)
      from scratch_at [OF ctx repr M(1)] obtain j where j: "element_index ?g ?v = Some j" "j < length (ts_lowlink s)"
        "ts_lowlink s ! j = low ?v" "\<And>u. tabulated ?g ((ts_lowlink s)[j := u]) (low(?v := u))" by metis
      let ?s = "if num ?z < low ?v then s\<lparr>ts_lowlink := (ts_lowlink s)[j := num ?z]\<rparr> else s"
      have "scc_advance ctx ?v ?z s (?f # R) = Some (?s, ?f # R)"
        using i j(1-3) False stacked by (simp add: scc_advance_def UNVISITED_def)
      moreover have "scc_inv ctx M num (low(?v := ?m)) ?s (?f # R)"
      proof (cases "num ?z < low ?v")
        case True
        with kept repr j(4) show ?thesis by (simp add: scc_inv_def scratch_repr_def min_def)
      next
        case False
        then have "low(?v := ?m) = low" by (simp add: min_def fun_eq_iff)
        with False kept repr show ?thesis by (simp add: scc_inv_def)
      qed
      ultimately show ?thesis
        using later [of ?s] unfolding step_ok_def by (intro exI conjI) (assumption | simp)+
    next
      case False': False
      have kept: "tarjan_inv ?E M {} num low (ts_stack s) (ts_components s) (ts_counter s) (?f # R)"
        using follow [of "low ?v" "{}"] found False' by simp
      have "scc_advance ctx ?v ?z s (?f # R) = Some (s, ?f # R)"
        using i False False' by (simp add: scc_advance_def UNVISITED_def)
      moreover have "scc_inv ctx M num low s (?f # R)" using kept repr by (simp add: scc_inv_def)
      ultimately show ?thesis
        using later [of s] unfolding step_ok_def by (intro exI conjI) (assumption | simp)+
    qed
  qed
qed

lemma finish_ok:
  assumes ctx: "context_ok ctx M" and inv: "scc_inv ctx M num low s (f # R)"
    and pos: "\<not> fr_position f < length (fr_successors f)"
  shows "step_ok ctx M (s, f # R) (scc_finish ctx (fr_node f) s (f # R))"
proof -
  let ?g = "ic_graph ctx" and ?v = "fr_node f" and ?p = "fr_node (hd R)"
  let ?E = "induced_steps ?g M"
  from inv have repr: "scratch_repr ctx s num low"
    and tar: "tarjan_inv ?E M {} num low (ts_stack s) (ts_components s) (ts_counter s) (f # R)" by (simp_all add: scc_inv_def)
  from tar have fr: "frames_ok ?E num (ts_stack s) (f # R)"
    and ord: "orders_ok ?E M num (ts_stack s) (ts_components s) (ts_counter s)" by (simp_all add: tarjan_inv_def)
  from pos have pos: "length (fr_successors f) \<le> fr_position f" by simp
  from ctx have ok: "topology_ok Forward ?g" and cont: "\<forall>x \<in> M. contains_element ?g x" by (simp_all add: context_ok_def)
  have stack: "set (ts_stack s) \<subseteq> M" using orders_ok_found(1) [OF ord] by (auto simp: found_def)
  have v: "?v \<in> set (ts_stack s)" and nodes: "h \<in> set R \<Longrightarrow> fr_node h \<in> M" for h
    using fr stack by (auto simp: frames_ok_def)
  then have "?v \<in> M" using stack by blast
  from scratch_at [OF ctx repr this] obtain i where i: "element_index ?g ?v = Some i" "i < length (ts_order_index s)"
    "ts_order_index s ! i = num ?v" "i < length (ts_lowlink s)" "ts_lowlink s ! i = low ?v" by metis
  have fewer: "(work_left M (s', R), work_left M (s, f # R)) \<in> less_than <*lex*> less_than"
    if "ts_counter s' = ts_counter s" for s' using that by (simp add: work_left_def)
  show ?thesis
  proof (cases "low ?v = num ?v")
    case root: True
    from split_list [OF v] obtain A B where AB: "ts_stack s = A @ ?v # B" by blast
    have "distinct (ts_stack s)" using ord distinct_of_descending by (auto simp: orders_ok_def)
    with pop_loop_Some [OF ok i(1), of "ts_on_stack s" A B "[]"] repr stack cont obtain flags where
      flags: "pop_loop ctx i (ts_on_stack s) [] (ts_stack s) = Some (flags, A @ [?v], B)"
        "tabulated ?g flags (\<lambda>x. x \<in> set B)" by (auto simp: AB scratch_repr_def)
    note kept = finish_root_keeps [OF tar pos root AB]
    let ?s = "s\<lparr>ts_on_stack := flags, ts_stack := B, ts_components := ts_components s @ [A @ [?v]]\<rparr>"
    have inv': "scc_inv ctx M num low ?s R"
      using kept(1) repr flags(2) by (simp add: scc_inv_def scratch_repr_def)
    have "scc_finish ctx ?v s (f # R) = Some (?s, R)"
    proof (cases R)
      case Nil
      with i flags(1) root show ?thesis by (simp add: scc_finish_def pop_component_def)
    next
      case (Cons q R')
      then have "fr_node q \<in> M" using nodes by simp
      from scratch_at [OF ctx repr this] obtain j where "element_index ?g (fr_node q) = Some j" "j < length (ts_lowlink s)"
        "ts_lowlink s ! j = low (fr_node q)" by metis
      with i flags(1) root kept(2) Cons show ?thesis by (simp add: scc_finish_def pop_component_def)
    qed
    with inv' fewer [of ?s] show ?thesis
      unfolding step_ok_def by (intro exI [of _ ?s] exI [of _ R] exI [of _ num] exI [of _ low]) (auto simp: AB)
  next
    case inner: False
    note kept = finish_inner_keeps [OF tar pos inner]
    let ?m = "min (low ?p) (low ?v)"
    have "?p \<in> M" using kept(1) nodes by simp
    from scratch_at [OF ctx repr this] obtain j where j: "element_index ?g ?p = Some j" "j < length (ts_lowlink s)"
      "ts_lowlink s ! j = low ?p" "\<And>u. tabulated ?g ((ts_lowlink s)[j := u]) (low(?p := u))" by metis
    let ?s = "if low ?v < low ?p then s\<lparr>ts_lowlink := (ts_lowlink s)[j := low ?v]\<rparr> else s"
    from kept(1) obtain q R' where R: "R = q # R'" by (cases R) auto
    have "scc_finish ctx ?v s (f # R) = Some (?s, R)"
      using i j(1-3) inner by (simp add: scc_finish_def R)
    moreover have "scc_inv ctx M num (low(?p := ?m)) ?s R"
    proof (cases "low ?v < low ?p")
      case True
      with kept(2) repr j(4) show ?thesis by (simp add: scc_inv_def scratch_repr_def min_def)
    next
      case False
      then have "low(?p := ?m) = low" by (simp add: min_def fun_eq_iff)
      with False kept(2) repr show ?thesis by (simp add: scc_inv_def)
    qed
    ultimately show ?thesis
      using fewer [of ?s] unfolding step_ok_def
      by (intro exI [of _ ?s] exI [of _ R] exI [of _ num] exI [of _ "low(?p := ?m)"]) simp
  qed
qed

section \<open>The loops\<close>

lemma visit_step_ok:
  assumes "context_ok ctx M" and "scc_inv ctx M num low s (f # R)"
  shows "step_ok ctx M (s, f # R) (visit_step ctx s f R)"
  using advance_ok [OF assms] finish_ok [OF assms] by (simp add: visit_step_def)

lemma visit_loop_Some:
  assumes ctx: "context_ok ctx M" and "scc_inv ctx M num low s W"
  shows "\<exists>s' num low. visit_loop ctx s W = Some s' \<and> scc_inv ctx M num low s' [] \<and>
    set (ts_stack s) \<union> set (concat (ts_components s)) \<subseteq> set (concat (ts_components s'))"
  using assms(2)
proof (induction "(s, W)" arbitrary: s W num low rule: wf_induct_rule [OF wf_inv_image [OF wf_lex_prod [OF wf_less_than wf_less_than]], of "work_left M"])
  case (1 s W num low)
  show ?case
  proof (cases W)
    case Nil
    with 1(2) have "ts_stack s = []" by (auto simp: scc_inv_def tarjan_inv_def frames_ok_def)
    with 1(2) Nil show ?thesis by (auto simp: visit_loop.simps)
  next
    case (Cons f R)
    from visit_step_ok [OF ctx, of num low s f R] 1(2) Cons obtain s' W' num' low' where
      step: "visit_step ctx s f R = Some (s', W')" "scc_inv ctx M num' low' s' W'"
        "(work_left M (s', W'), work_left M (s, W)) \<in> less_than <*lex*> less_than"
        "set (ts_stack s) \<union> set (concat (ts_components s)) \<subseteq> set (ts_stack s') \<union> set (concat (ts_components s'))"
      unfolding step_ok_def by auto
    from 1(1) [OF _ step(2)] step(3) obtain t num'' low'' where
      t: "visit_loop ctx s' W' = Some t" "scc_inv ctx M num'' low'' t []"
        "set (ts_stack s') \<union> set (concat (ts_components s')) \<subseteq> set (concat (ts_components t))"
      by (auto simp: inv_image_def)
    have "visit_loop ctx s W = Some t" using step(1) t(1) Cons by (simp add: visit_loop.simps [of ctx s])
    with t(2,3) step(4) show ?thesis by blast
  qed
qed

lemma visit_starts_Some:
  assumes ctx: "context_ok ctx M" and "scc_inv ctx M num low s []" and "set starts \<subseteq> M"
  shows "\<exists>s' num low. visit_starts ctx s starts = Some s' \<and> scc_inv ctx M num low s' [] \<and>
    set (concat (ts_components s)) \<union> set starts \<subseteq> set (concat (ts_components s'))"
  using assms(2,3)
proof (induction starts arbitrary: s num low)
  case Nil
  then show ?case by auto
next
  case (Cons x xs)
  let ?g = "ic_graph ctx"
  from Cons.prems(1) have repr: "scratch_repr ctx s num low"
    and tar: "tarjan_inv (induced_steps ?g M) M {} num low (ts_stack s) (ts_components s) (ts_counter s) []"
    by (simp_all add: scc_inv_def)
  then have empty: "ts_stack s = []" by (auto simp: tarjan_inv_def frames_ok_def)
  from Cons.prems(2) have x: "x \<in> M" by simp
  from scratch_at [OF ctx repr x] obtain i where i: "element_index ?g x = Some i" "i < length (ts_order_index s)"
    "ts_order_index s ! i = num x" by metis
  have "\<exists>t num' low'. (if num x = UNVISITED then scc_visit ctx x s else Some s) = Some t \<and> scc_inv ctx M num' low' t [] \<and>
      set (concat (ts_components s)) \<union> {x} \<subseteq> set (concat (ts_components t))"
  proof (cases "num x = usize_max")
    case True
    from scc_discover_Some [OF ctx repr tar _ x True] obtain s1 f num1 low1 where
      s1: "scc_discover ctx x s [] = Some (s1, [f])" "scc_inv ctx M num1 low1 s1 [f]"
        "ts_stack s1 = x # ts_stack s" "ts_components s1 = ts_components s" by auto
    from visit_loop_Some [OF ctx s1(2)] obtain t num2 low2 where
      "visit_loop ctx s1 [f] = Some t" "scc_inv ctx M num2 low2 t []"
        "set (ts_stack s1) \<union> set (concat (ts_components s1)) \<subseteq> set (concat (ts_components t))" by blast
    moreover from this(1) s1(1) have "scc_visit ctx x s = Some t" by (simp add: scc_visit_def)
    ultimately show ?thesis
      using s1(3,4) True by (intro exI [of _ t] exI [of _ num2] exI [of _ low2]) (simp add: UNVISITED_def)
  next
    case False
    have "set (concat (ts_components s)) = found M num"
      using scc_inv_counter(2) [OF Cons.prems(1)] empty by simp
    with False x have "x \<in> set (concat (ts_components s))" by (simp add: found_def)
    with False Cons.prems(1) show ?thesis by (auto simp: UNVISITED_def)
  qed
  then obtain t num2 low2 where t: "(if num x = UNVISITED then scc_visit ctx x s else Some s) = Some t"
    "scc_inv ctx M num2 low2 t []" "set (concat (ts_components s)) \<union> {x} \<subseteq> set (concat (ts_components t))" by blast
  from Cons.IH [OF t(2)] Cons.prems(2) obtain u num3 low3 where
    u: "visit_starts ctx t xs = Some u" "scc_inv ctx M num3 low3 u []"
      "set (concat (ts_components t)) \<union> set xs \<subseteq> set (concat (ts_components u))" by auto
  have "visit_starts ctx s (x # xs) = Some u" using i t(1) u(1) by simp
  moreover have "set (concat (ts_components s)) \<union> set (x # xs) \<subseteq> set (concat (ts_components u))" using t(3) u(3) by auto
  ultimately show ?case using u(2) by blast
qed

lemma strongly_connected_components_Some:
  assumes ok: "topology_ok Forward g" and M: "\<forall>x \<in> set elements. contains_element g x"
  shows "\<exists>C. strongly_connected_components g elements = Some C \<and> components_ok (induced_steps g (set elements)) C \<and>
    distinct (concat C) \<and> set (concat C) = set elements"
proof -
  let ?M = "set elements" and ?n = "element_bound g" and ?E = "induced_steps g (set elements)"
  from collect_members_Some [OF ok marked_none [OF ok] M, of "[]"] obtain member where
    member: "collect_members g (replicate ?n False) [] elements = Some (member, fresh {} elements)" "marked g member ?M" by auto
  let ?ctx = "\<lparr>ic_graph = g, ic_member = member, ic_bound = ?n\<rparr>"
  let ?s = "\<lparr>ts_order_index = replicate ?n UNVISITED, ts_lowlink = replicate ?n 0, ts_on_stack = replicate ?n False,
    ts_stack = [], ts_components = [], ts_counter = 0\<rparr>"
  have ctx: "context_ok ?ctx ?M" using ok M member(2) by (simp add: context_ok_def)
  have "card ?M \<le> card {x. contains_element g x}"
    using M by (intro card_mono contained_finite(1) [OF ok]) auto
  then have "card ?M \<le> usize_max" using contained_finite(2) [OF ok] topology_ok_bound [OF ok] by linarith
  moreover have "found ?M (\<lambda>_. UNVISITED) = {}" by (simp add: found_def UNVISITED_def)
  ultimately have "tarjan_inv ?E ?M {} (\<lambda>_. UNVISITED) (\<lambda>_. 0) [] [] 0 []"
    by (auto simp: tarjan_inv_def orders_ok_def components_ok_def frames_ok_def lows_ok_def induced_steps_def)
  then have "scc_inv ?ctx ?M (\<lambda>_. UNVISITED) (\<lambda>_. 0) ?s []"
    using tabulated_const [OF ok, of UNVISITED] tabulated_const [OF ok, of "0 :: nat"] tabulated_const [OF ok, of False]
    by (simp add: scc_inv_def scratch_repr_def)
  from visit_starts_Some [OF ctx this, of "fresh {} elements"] obtain s' num low where
    s': "visit_starts ?ctx ?s (fresh {} elements) = Some s'" "scc_inv ?ctx ?M num low s' []"
      "?M \<subseteq> set (concat (ts_components s'))" by (auto simp: set_fresh)
  have "tarjan_inv ?E ?M {} num low (ts_stack s') (ts_components s') (ts_counter s') []"
    using s'(2) by (simp add: scc_inv_def)
  then have "components_ok ?E (ts_components s')" "distinct (concat (ts_components s'))"
    "set (concat (ts_components s')) \<subseteq> found ?M num" by (auto simp: tarjan_inv_def orders_ok_def)
  with s'(3) have "components_ok ?E (ts_components s')" "distinct (concat (ts_components s'))"
    "set (concat (ts_components s')) = ?M" by (auto simp: found_def)
  moreover have "strongly_connected_components g elements = Some (ts_components s')"
    using member(1) s'(1) by (simp add: strongly_connected_components_def)
  ultimately show ?thesis by blast
qed

text \<open>Components that no edge leaves backwards are maximal.\<close>

lemma closed_rtrancl:
  assumes "E `` A \<subseteq> A" and "x \<in> A" and "(x, y) \<in> E\<^sup>*"
  shows "y \<in> A"
  using assms(3,1,2) by (induction rule: rtrancl_induct) auto

lemma components_maximal:
  assumes comp: "components_ok E C" and dist: "distinct (concat C)" and i: "i < length C"
    and x: "x \<in> set (C ! i)" and xy: "(x, y) \<in> E\<^sup>*" "(y, x) \<in> E\<^sup>*"
  shows "y \<in> set (C ! i)"
proof (rule ccontr)
  assume n: "y \<notin> set (C ! i)"
  have closed: "E `` set (concat (take j C)) \<subseteq> set (concat (take j C))" if "j \<le> length C" for j
    using comp that unfolding components_ok_def by blast
  have split: "concat (take (Suc i) C) = concat (take i C) @ C ! i" using i by (simp add: take_Suc_conv_app_nth)
  have "x \<in> set (concat (take (Suc i) C))" unfolding split using x by simp
  from closed_rtrancl [OF closed this xy(1)] i have "y \<in> set (concat (take (Suc i) C))" by simp
  with n have "y \<in> set (concat (take i C))" unfolding split by simp
  from closed_rtrancl [OF closed this xy(2)] i have "x \<in> set (concat (take i C))" by simp
  moreover have "distinct (concat (take (Suc i) C))"
    using dist by (metis append_take_drop_id concat_append distinct_append)
  ultimately show False using x unfolding split by auto
qed

lemma components_ordered:
  assumes comp: "components_ok E C" and dist: "distinct (concat C)" and ij: "i < length C" "j < length C" "i < j"
  shows "E \<inter> set (C ! i) \<times> set (C ! j) = {}"
proof (rule ccontr)
  assume "E \<inter> set (C ! i) \<times> set (C ! j) \<noteq> {}"
  then obtain x y where xy: "(x, y) \<in> E" "x \<in> set (C ! i)" "y \<in> set (C ! j)" by blast
  have "C ! i \<in> set (take (Suc i) C)" using ij(1) by (simp add: take_Suc_conv_app_nth)
  then have "x \<in> set (concat (take (Suc i) C))" using xy(2) by auto
  moreover have "E `` set (concat (take (Suc i) C)) \<subseteq> set (concat (take (Suc i) C))"
    using comp ij(1) unfolding components_ok_def by (meson Suc_leI)
  ultimately have y: "y \<in> set (concat (take (Suc i) C))" using xy(1) by blast
  have "C ! j \<in> set (drop (Suc i) C)" using ij by (metis Suc_leI in_set_conv_nth Cons_nth_drop_Suc drop_drop le_add_diff_inverse2 list.set_intros(1) set_drop_subset_set_drop subsetD)
  then have "y \<in> set (concat (drop (Suc i) C))" using xy(3) by auto
  with y dist show False by (metis append_take_drop_id concat_append distinct_append disjoint_iff)
qed

section \<open>Property\<close>

text \<open>
  C26: over contained elements Tarjan's loop returns, without a panic: each requested element is in
  exactly one component, two are in the same one exactly when the induced subgraph has paths both
  ways between them, and no edge leads from a component to one that is listed later.
\<close>

theorem strongly_connected_components_correct:
  assumes "topology_ok Forward g" and "\<forall>x \<in> set elements. contains_element g x"
  shows "\<exists>components. strongly_connected_components g elements = Some components \<and>
    distinct (concat components) \<and> set (concat components) = set elements \<and>
    (\<forall>c \<in> set components. c \<noteq> []) \<and>
    (\<forall>i < length components. \<forall>x \<in> set (components ! i). \<forall>y \<in> set elements.
       y \<in> set (components ! i) \<longleftrightarrow>
         (x, y) \<in> (induced_steps g (set elements))\<^sup>* \<and> (y, x) \<in> (induced_steps g (set elements))\<^sup>*) \<and>
    (\<forall>i < length components. \<forall>j < length components. i < j \<longrightarrow>
       induced_steps g (set elements) \<inter> set (components ! i) \<times> set (components ! j) = {})"
proof -
  from strongly_connected_components_Some [OF assms] obtain C where
    C: "strongly_connected_components g elements = Some C" "components_ok (induced_steps g (set elements)) C"
      "distinct (concat C)" "set (concat C) = set elements" by blast
  have "induced_steps g (set elements) \<inter> set (C ! i) \<times> set (C ! j) = {}" if ij: "i < length C" "j < length C" "i < j" for i j
    using components_ordered [OF C(2,3) ij] .
  moreover have "y \<in> set (C ! i) \<longleftrightarrow>
      (x, y) \<in> (induced_steps g (set elements))\<^sup>* \<and> (y, x) \<in> (induced_steps g (set elements))\<^sup>*"
    if "i < length C" "x \<in> set (C ! i)" for i x y
  proof
    assume "y \<in> set (C ! i)"
    with C(2) nth_mem [OF that(1)] that(2)
    show "(x, y) \<in> (induced_steps g (set elements))\<^sup>* \<and> (y, x) \<in> (induced_steps g (set elements))\<^sup>*"
      unfolding components_ok_def by blast
  qed (use components_maximal [OF C(2,3) that] in blast)
  moreover have "\<forall>c \<in> set C. c \<noteq> []" using C(2) by (simp add: components_ok_def)
  ultimately show ?thesis using C(1,3,4) by blast
qed

text \<open>The cycle \<open>0 \<rightarrow> 1 \<rightarrow> 0\<close> with an edge out of it.\<close>

definition example_cycle :: "nat topology_view" where
  "example_cycle = \<lparr>element_bound = 3, element_index = (\<lambda>x. Some x), contains_element = (\<lambda>x. x < 3),
     element_successors = (\<lambda>x. Some (if x = 0 then [1] else if x = 1 then [0, 2] else [])),
     element_predecessors = (\<lambda>_. None)\<rparr>"

theorem strongly_connected_components_correct_witness:
  "\<exists>components. strongly_connected_components example_cycle [0, 1, 2] = Some components \<and>
     (\<exists>c \<in> set components. 0 \<in> set c \<and> 1 \<in> set c \<and> 2 \<notin> set c)"
proof -
  let ?E = "induced_steps example_cycle (set [0, 1, 2])"
  have E: "?E = {(0, 1), (1, 0), (1, 2)}"
    by (auto simp: induced_steps_def steps_def example_cycle_def split: if_splits)
  have "topology_ok Forward example_cycle" "\<forall>x \<in> set [0, 1, 2]. contains_element example_cycle x"
    by (auto simp: topology_ok_def example_cycle_def usize_max_def)
  from strongly_connected_components_correct [OF this] obtain C where
    C: "strongly_connected_components example_cycle [0, 1, 2] = Some C" "set (concat C) = {0, 1, 2}"
    and mutual: "\<forall>i < length C. \<forall>x \<in> set (C ! i). \<forall>y \<in> set [0, 1, 2]. y \<in> set (C ! i) \<longleftrightarrow> (x, y) \<in> ?E\<^sup>* \<and> (y, x) \<in> ?E\<^sup>*"
    by auto
  from C(2) obtain i where i: "i < length C" "0 \<in> set (C ! i)" by (metis UN_E in_set_conv_nth insertI1 set_concat)
  have "1 \<in> set (C ! i) \<longleftrightarrow> (0, 1) \<in> ?E\<^sup>* \<and> (1, 0) \<in> ?E\<^sup>*" "2 \<in> set (C ! i) \<longleftrightarrow> (0, 2) \<in> ?E\<^sup>* \<and> (2, 0) \<in> ?E\<^sup>*"
    using mutual i by auto
  moreover have "(0, 1) \<in> ?E\<^sup>*" "(1, 0) \<in> ?E\<^sup>*" unfolding E by auto
  moreover have "(2, 0) \<notin> ?E\<^sup>*" unfolding E by (auto elim: converse_rtranclE)
  ultimately show ?thesis using C(1) i by (metis nth_mem)
qed

end
