(* ===== verification/DbTypes.thy ===== *)
theory DbTypes
  imports Wal "HOL-Library.Finite_Map" "HOL-Library.List_Lexorder" "HOL-Library.Product_Lexorder"
begin

text \<open>
  The value types of the embedded database: \<open>crates/oxgraph-db/src/{id,value,state,error}.rs\<close>, the
  property families of \<open>catalog.rs\<close> and the tags of \<open>wire.rs\<close>.

  An ordered map of the code (\<open>BTreeMap\<close>) is a finite map, walked in the order of its keys by
  \<open>sorted_list_of_fmap\<close>; an ordered set is a finite set. The identifier newtypes are 64-bit words.
\<close>

section \<open>Identifiers\<close>

type_synonym i64 = "64 word"
type_synonym element_id = u64
type_synonym relation_id = u64
type_synonym incidence_id = u64
type_synonym role_id = u64
type_synonym label_id = u64
type_synonym relation_type_id = u64
type_synonym property_key_id = u64
type_synonym projection_id = u64
type_synonym index_id = u64

definition checked_next :: "u64 \<Rightarrow> u64 option" where
  "checked_next i = word_checked_add i 1"

lemma checked_next_Some_iff: "checked_next i = Some j \<longleftrightarrow> unat j = Suc (unat i)"
proof -
  have "unat i + 1 < 2 ^ 64" if "unat j = Suc (unat i)" using unat_bound [of j] that by simp
  then show ?thesis unfolding checked_next_def word_checked_add_Some_iff by auto
qed

lemma checked_next_greater: "checked_next i = Some j \<Longrightarrow> i < j"
  by (simp add: checked_next_Some_iff word_less_nat_alt)

lemma below_checked_next: "checked_next i = Some j \<Longrightarrow> k < j \<longleftrightarrow> k \<le> i"
  by (auto simp: checked_next_Some_iff word_less_nat_alt word_le_nat_alt)

section \<open>Strings\<close>

text \<open>\<open>core::str::from_utf8\<close> accepts exactly the well-formed sequences of the Unicode standard.\<close>

definition utf8_between :: "byte \<Rightarrow> byte \<Rightarrow> byte \<Rightarrow> bool" where
  "utf8_between low high b \<longleftrightarrow> low \<le> b \<and> b \<le> high"

abbreviation utf8_tail :: "byte \<Rightarrow> bool" where
  "utf8_tail \<equiv> utf8_between 0x80 0xBF"

definition utf8_second :: "byte \<Rightarrow> byte \<Rightarrow> bool" where
  "utf8_second b =
     (if b = 0xE0 then utf8_between 0xA0 0xBF
      else if b = 0xED then utf8_between 0x80 0x9F
      else if b = 0xF0 then utf8_between 0x90 0xBF
      else if b = 0xF4 then utf8_between 0x80 0x8F
      else utf8_tail)"

fun utf8_valid :: "byte list \<Rightarrow> bool" where
  "utf8_valid [] \<longleftrightarrow> True"
| "utf8_valid (b # bs) \<longleftrightarrow>
     (if b < 0x80 then utf8_valid bs
      else if utf8_between 0xC2 0xDF b then
        (case bs of c # rest \<Rightarrow> utf8_tail c \<and> utf8_valid rest | _ \<Rightarrow> False)
      else if utf8_between 0xE0 0xEF b then
        (case bs of c # d # rest \<Rightarrow> utf8_second b c \<and> utf8_tail d \<and> utf8_valid rest | _ \<Rightarrow> False)
      else if utf8_between 0xF0 0xF4 b then
        (case bs of c # d # e # rest \<Rightarrow> utf8_second b c \<and> utf8_tail d \<and> utf8_tail e \<and> utf8_valid rest
         | _ \<Rightarrow> False)
      else False)"

text \<open>A \<open>String\<close> or \<open>str\<close> holds such a sequence.\<close>

typedef str = "{bs. utf8_valid bs}"
  morphisms as_bytes Abs_str
  by (rule exI [of _ "[]"]) simp

setup_lifting type_definition_str

lemma utf8_valid_as_bytes [simp]: "utf8_valid (as_bytes s)"
  using as_bytes [of s] by simp

lemma as_bytes_inject_iff [simp]: "as_bytes s = as_bytes t \<longleftrightarrow> s = t"
  by (rule as_bytes_inject)

definition from_utf8 :: "byte list \<Rightarrow> str option" where
  "from_utf8 bs = (if utf8_valid bs then Some (Abs_str bs) else None)"

lemma from_utf8_as_bytes [simp]: "from_utf8 (as_bytes s) = Some s"
  by (simp add: from_utf8_def as_bytes_inverse)

lemma from_utf8_Some_iff: "from_utf8 bs = Some s \<longleftrightarrow> as_bytes s = bs"
  by (auto simp: from_utf8_def as_bytes_inverse Abs_str_inverse)

text \<open>Strings compare by their bytes.\<close>

instantiation str :: linorder
begin

definition less_eq_str :: "str \<Rightarrow> str \<Rightarrow> bool" where "less_eq_str s t \<longleftrightarrow> as_bytes s \<le> as_bytes t"

definition less_str :: "str \<Rightarrow> str \<Rightarrow> bool" where "less_str s t \<longleftrightarrow> as_bytes s < as_bytes t"

instance
  by standard (auto simp: less_eq_str_def less_str_def less_le)

end

section \<open>Property values\<close>

datatype property_type = BooleanType | IntegerType | TextType

datatype property_value = Boolean bool | Integer i64 | Text str

fun value_type :: "property_value \<Rightarrow> property_type" where
  "value_type (Boolean _) = BooleanType"
| "value_type (Integer _) = IntegerType"
| "value_type (Text _) = TextType"

fun as_text :: "property_value \<Rightarrow> str option" where
  "as_text (Text t) = Some t"
| "as_text _ = None"

fun as_int :: "property_value \<Rightarrow> i64 option" where
  "as_int (Integer i) = Some i"
| "as_int _ = None"

text \<open>\<open>usize::try_from\<close> of an \<open>i64\<close> refuses the negative ones.\<close>

fun as_count :: "property_value \<Rightarrow> nat option" where
  "as_count (Integer i) = (if sint i < 0 then None else Some (nat (sint i)))"
| "as_count _ = None"

fun as_bool :: "property_value \<Rightarrow> bool option" where
  "as_bool (Boolean b) = Some b"
| "as_bool _ = None"

lemma sint_eq_iff: "sint (v :: i64) = sint w \<longleftrightarrow> v = w"
  by (auto intro: signed_word_eqI)

text \<open>The derived order: by variant in declaration order, then by payload.\<close>

instantiation property_value :: linorder
begin

fun less_eq_property_value :: "property_value \<Rightarrow> property_value \<Rightarrow> bool" where
  "less_eq_property_value (Boolean a) (Boolean b) \<longleftrightarrow> a \<le> b"
| "less_eq_property_value (Boolean _) _ \<longleftrightarrow> True"
| "less_eq_property_value (Integer a) (Integer b) \<longleftrightarrow> sint a \<le> sint b"
| "less_eq_property_value (Integer _) (Text _) \<longleftrightarrow> True"
| "less_eq_property_value (Text a) (Text b) \<longleftrightarrow> a \<le> b"
| "less_eq_property_value _ _ \<longleftrightarrow> False"

definition less_property_value :: "property_value \<Rightarrow> property_value \<Rightarrow> bool" where
  "less_property_value v w \<longleftrightarrow> v \<le> w \<and> \<not> w \<le> v"

instance
proof
  fix u v w :: property_value
  show "v < w \<longleftrightarrow> v \<le> w \<and> \<not> w \<le> v" by (rule less_property_value_def)
  show "v \<le> v" by (cases v) auto
  show "u \<le> v \<Longrightarrow> v \<le> w \<Longrightarrow> u \<le> w" by (cases u; cases v; cases w) auto
  show "v \<le> w \<Longrightarrow> w \<le> v \<Longrightarrow> v = w" by (cases v; cases w) (auto simp: sint_eq_iff)
  show "v \<le> w \<or> w \<le> v" by (cases v; cases w) auto
qed

end

lemma Boolean_False_least: "Boolean False \<le> v"
  by (cases v) auto

section \<open>Records\<close>

type_synonym label_set = "label_id fset"

record element_record =
  er_id :: element_id
  er_labels :: label_set

record relation_record =
  rr_id :: relation_id
  rr_relation_type :: "relation_type_id option"
  rr_labels :: label_set

record incidence_record =
  ir_id :: incidence_id
  ir_relation :: relation_id
  ir_element :: element_id
  ir_role :: role_id

text \<open>\<open>LabelSet::insert\<close>: the set afterwards and whether the label is new.\<close>

definition label_insert :: "label_set \<Rightarrow> label_id \<Rightarrow> label_set \<times> bool" where
  "label_insert labels l = (if l |\<in>| labels then (labels, False) else (finsert l labels, True))"

lemma fst_label_insert [simp]: "fst (label_insert labels l) = finsert l labels"
  by (auto simp: label_insert_def)

datatype property_family = ElementFamily | RelationFamily | IncidenceFamily

datatype property_subject = Element element_id | Relation relation_id | Incidence incidence_id

fun subject_family :: "property_subject \<Rightarrow> property_family" where
  "subject_family (Element _) = ElementFamily"
| "subject_family (Relation _) = RelationFamily"
| "subject_family (Incidence _) = IncidenceFamily"

text \<open>The derived order ranks the variants as declared.\<close>

instantiation property_subject :: linorder
begin

fun less_eq_property_subject :: "property_subject \<Rightarrow> property_subject \<Rightarrow> bool" where
  "less_eq_property_subject (Element i) (Element j) \<longleftrightarrow> i \<le> j"
| "less_eq_property_subject (Element _) _ \<longleftrightarrow> True"
| "less_eq_property_subject (Relation i) (Relation j) \<longleftrightarrow> i \<le> j"
| "less_eq_property_subject (Relation _) (Incidence _) \<longleftrightarrow> True"
| "less_eq_property_subject (Incidence i) (Incidence j) \<longleftrightarrow> i \<le> j"
| "less_eq_property_subject _ _ \<longleftrightarrow> False"

definition less_property_subject :: "property_subject \<Rightarrow> property_subject \<Rightarrow> bool" where
  "less_property_subject s t \<longleftrightarrow> s \<le> t \<and> \<not> t \<le> s"

instance
proof
  fix r s t :: property_subject
  show "s < t \<longleftrightarrow> s \<le> t \<and> \<not> t \<le> s" by (rule less_property_subject_def)
  show "s \<le> s" by (cases s) auto
  show "r \<le> s \<Longrightarrow> s \<le> t \<Longrightarrow> r \<le> t" by (cases r; cases s; cases t) auto
  show "s \<le> t \<Longrightarrow> t \<le> s \<Longrightarrow> s = t" by (cases s; cases t) auto
  show "s \<le> t \<or> t \<le> s" by (cases s; cases t) auto
qed

end

section \<open>The identifier watermark\<close>

record next_ids =
  ni_element :: element_id
  ni_relation :: relation_id
  ni_incidence :: incidence_id
  ni_role :: role_id
  ni_label :: label_id
  ni_relation_type :: relation_type_id
  ni_property_key :: property_key_id
  ni_projection :: projection_id
  ni_index :: index_id

definition INITIAL :: next_ids where
  "INITIAL = \<lparr>ni_element = 1, ni_relation = 1, ni_incidence = 1, ni_role = 1, ni_label = 1,
     ni_relation_type = 1, ni_property_key = 1, ni_projection = 1, ni_index = 1\<rparr>"

definition elementwise_max :: "next_ids \<Rightarrow> next_ids \<Rightarrow> next_ids" where
  "elementwise_max n m = \<lparr>ni_element = max (ni_element n) (ni_element m), ni_relation = max (ni_relation n) (ni_relation m),
     ni_incidence = max (ni_incidence n) (ni_incidence m), ni_role = max (ni_role n) (ni_role m),
     ni_label = max (ni_label n) (ni_label m), ni_relation_type = max (ni_relation_type n) (ni_relation_type m),
     ni_property_key = max (ni_property_key n) (ni_property_key m),
     ni_projection = max (ni_projection n) (ni_projection m), ni_index = max (ni_index n) (ni_index m)\<rparr>"

text \<open>Every allocator at or above.\<close>

definition watermark_le :: "next_ids \<Rightarrow> next_ids \<Rightarrow> bool" where
  "watermark_le n m \<longleftrightarrow> ni_element n \<le> ni_element m \<and> ni_relation n \<le> ni_relation m \<and>
     ni_incidence n \<le> ni_incidence m \<and> ni_role n \<le> ni_role m \<and> ni_label n \<le> ni_label m \<and>
     ni_relation_type n \<le> ni_relation_type m \<and> ni_property_key n \<le> ni_property_key m \<and>
     ni_projection n \<le> ni_projection m \<and> ni_index n \<le> ni_index m"

lemma watermark_le_refl [simp]: "watermark_le n n"
  by (simp add: watermark_le_def)

lemma watermark_le_trans [trans]: "watermark_le n m \<Longrightarrow> watermark_le m k \<Longrightarrow> watermark_le n k"
  by (simp add: watermark_le_def) (meson order_trans)

lemma elementwise_max_absorb: "watermark_le n m \<Longrightarrow> elementwise_max n m = m"
  by (simp add: watermark_le_def elementwise_max_def max_def)

section \<open>Errors\<close>

datatype id_family =
    ElementIds | RelationIds | IncidenceIds | RoleIds | LabelIds | RelationTypeIds | PropertyKeyIds
  | ProjectionIds | IndexIds

datatype catalog_error =
    UnknownId id_family u64
  | UnknownName string str
  | DuplicateName
  | DuplicateId
  | SchemaConflict str string

datatype txn_error =
    WriterLockHeld
  | IdOverflow id_family
  | TransactionIdOverflow
  | CommitSeqOverflow

datatype query_error =
    QueryEmpty
  | Unsupported string
  | PropertyTypeMismatch property_type property_type \<comment> \<open>expected, actual\<close>
  | WrongPropertyFamily property_family property_family \<comment> \<open>expected, actual\<close>
  | InvalidProjection string
  | Traversal string
  | MissingProperty property_key_id
  | ValueOutOfRange
  | NoEqualityIndex property_key_id

datatype db_error =
    StorageErr storage_error
  | CatalogErr catalog_error
  | TxnErr txn_error
  | QueryErr query_error

abbreviation unknown :: "id_family \<Rightarrow> u64 \<Rightarrow> db_error" where
  "unknown family i \<equiv> CatalogErr (UnknownId family i)"

abbreviation unsupported :: "string \<Rightarrow> db_error" where
  "unsupported message \<equiv> QueryErr (Unsupported message)"

abbreviation log_corrupt :: "u64 \<Rightarrow> string \<Rightarrow> db_error" where
  "log_corrupt lsn reason \<equiv> StorageErr (LogCorrupt lsn reason)"

section \<open>Wire tags\<close>

fun property_family_tag :: "property_family \<Rightarrow> u32" where
  "property_family_tag ElementFamily = 0"
| "property_family_tag RelationFamily = 1"
| "property_family_tag IncidenceFamily = 2"

definition property_family_from_tag :: "u32 \<Rightarrow> property_family option" where
  "property_family_from_tag tag =
     (if tag = 0 then Some ElementFamily else if tag = 1 then Some RelationFamily
      else if tag = 2 then Some IncidenceFamily else None)"

fun property_type_tag :: "property_type \<Rightarrow> u32" where
  "property_type_tag BooleanType = 0"
| "property_type_tag IntegerType = 1"
| "property_type_tag TextType = 2"

definition property_type_from_tag :: "u32 \<Rightarrow> property_type option" where
  "property_type_from_tag tag =
     (if tag = 0 then Some BooleanType else if tag = 1 then Some IntegerType
      else if tag = 2 then Some TextType else None)"

fun encode_subject :: "property_subject \<Rightarrow> u32 \<times> u64" where
  "encode_subject (Element i) = (0, i)"
| "encode_subject (Relation i) = (1, i)"
| "encode_subject (Incidence i) = (2, i)"

definition decode_subject :: "u32 \<Rightarrow> u64 \<Rightarrow> property_subject option" where
  "decode_subject kind i =
     (if kind = 0 then Some (Element i) else if kind = 1 then Some (Relation i)
      else if kind = 2 then Some (Incidence i) else None)"

definition RELATION_TYPE_NONE :: u64 where "RELATION_TYPE_NONE = 0"

definition encode_relation_type :: "relation_type_id option \<Rightarrow> u64" where
  "encode_relation_type v = (case v of None \<Rightarrow> RELATION_TYPE_NONE | Some i \<Rightarrow> i)"

definition decode_relation_type :: "u64 \<Rightarrow> relation_type_id option" where
  "decode_relation_type raw = (if raw = RELATION_TYPE_NONE then None else Some raw)"

text \<open>Two tags in one flags word.\<close>

definition pack_flags :: "u32 \<Rightarrow> u32 \<Rightarrow> u32" where
  "pack_flags low high = (low AND 0xFFFF) OR push_bit 16 (high AND 0xFFFF)"

definition unpack_flags :: "u32 \<Rightarrow> u32 \<times> u32" where
  "unpack_flags flags = (flags AND 0xFFFF, drop_bit 16 flags)"

lemma unpack_pack_flags:
  assumes "low AND 0xFFFF = low" and "high AND 0xFFFF = high"
  shows "unpack_flags (pack_flags low high) = (low, high)"
proof -
  have mask: "(0xFFFF :: u32) = mask 16" by (simp add: mask_eq_exp_minus_1)
  have "pack_flags low high AND 0xFFFF = low"
  proof (rule bit_eqI)
    fix n
    show "bit (pack_flags low high AND 0xFFFF) n \<longleftrightarrow> bit low n"
      using arg_cong [OF assms(1), of "\<lambda>w. bit w n"]
      by (auto simp: pack_flags_def mask bit_simps)
  qed
  moreover have "drop_bit 16 (pack_flags low high) = high"
  proof (rule bit_eqI)
    fix n
    show "bit (drop_bit 16 (pack_flags low high)) n \<longleftrightarrow> bit high n"
      using arg_cong [OF assms(2), of "\<lambda>w. bit w n"]
      by (auto simp: pack_flags_def mask bit_simps)
  qed
  ultimately show ?thesis by (simp add: unpack_flags_def)
qed

lemma family_tag_fits [simp]: "property_family_tag f AND 0xFFFF = property_family_tag f"
  by (cases f) simp_all

lemma type_tag_fits [simp]: "property_type_tag t AND 0xFFFF = property_type_tag t"
  by (cases t) simp_all

lemma subject_tag_fits [simp]: "fst (encode_subject s) AND 0xFFFF = fst (encode_subject s)"
  by (cases s) simp_all

lemma unpack_pack_tags [simp]:
  "unpack_flags (pack_flags (fst (encode_subject s)) (property_type_tag t)) = (fst (encode_subject s), property_type_tag t)"
  "unpack_flags (pack_flags (fst (encode_subject s)) 0) = (fst (encode_subject s), 0)"
  "unpack_flags (pack_flags (property_family_tag f) (property_type_tag t)) = (property_family_tag f, property_type_tag t)"
  by (simp_all add: unpack_pack_flags)

lemma property_family_from_to_tag [simp]: "property_family_from_tag (property_family_tag f) = Some f"
  by (cases f) (simp_all add: property_family_from_tag_def)

lemma property_type_from_to_tag [simp]: "property_type_from_tag (property_type_tag t) = Some t"
  by (cases t) (simp_all add: property_type_from_tag_def)

lemma decode_encode_subject [simp]: "decode_subject (fst (encode_subject s)) (snd (encode_subject s)) = Some s"
  by (cases s) (simp_all add: decode_subject_def)

lemma decode_encode_relation_type [simp]:
  "v \<noteq> Some RELATION_TYPE_NONE \<Longrightarrow> decode_relation_type (encode_relation_type v) = v"
  by (auto simp: decode_relation_type_def encode_relation_type_def split: option.splits)

end
