(* ===== verification/DbCatalog.thy ===== *)
theory DbCatalog
  imports DbTypes
begin

text \<open>
  The catalog of the database, \<open>crates/oxgraph-db/src/catalog.rs\<close>, and the word codec of its projection
  and index definitions, \<open>wire/defs.rs\<close>, that the delta-log and the base file share.
\<close>

section \<open>Definitions\<close>

record role_definition =
  role_def_id :: role_id
  role_def_name :: str

record label_definition =
  label_def_id :: label_id
  label_def_name :: str

record relation_type_definition =
  rt_def_id :: relation_type_id
  rt_def_name :: str

record property_key_definition =
  pk_def_id :: property_key_id
  pk_def_name :: str
  pk_def_family :: property_family
  pk_def_value_type :: property_type

record graph_projection_definition =
  gp_name :: str
  gp_relation_types :: "relation_type_id fset"
  gp_source_role :: role_id
  gp_target_role :: role_id

record hypergraph_projection_definition =
  hp_name :: str
  hp_relation_types :: "relation_type_id fset"
  hp_source_roles :: "role_id fset"
  hp_target_roles :: "role_id fset"

datatype projection_definition =
    GraphProjection graph_projection_definition
  | HypergraphProjection hypergraph_projection_definition

fun projection_name :: "projection_definition \<Rightarrow> str" where
  "projection_name (GraphProjection d) = gp_name d"
| "projection_name (HypergraphProjection d) = hp_name d"

datatype index_definition =
    LabelIndex label_id
  | RelationTypeIndex relation_type_id
  | PropertyEquality property_key_id
  | PropertyRange property_key_id
  | CompositeEquality "property_key_id list"
  | ProjectionIndex projection_id

record index_entry =
  ie_id :: index_id
  ie_name :: str
  ie_definition :: index_definition

record projection_entry =
  pe_id :: projection_id
  pe_definition :: projection_definition

section \<open>The catalog\<close>

record catalog =
  cat_roles :: "(role_id, role_definition) fmap"
  cat_role_names :: "(str, role_id) fmap"
  cat_labels :: "(label_id, label_definition) fmap"
  cat_label_names :: "(str, label_id) fmap"
  cat_relation_types :: "(relation_type_id, relation_type_definition) fmap"
  cat_relation_type_names :: "(str, relation_type_id) fmap"
  cat_property_keys :: "(property_key_id, property_key_definition) fmap"
  cat_property_key_names :: "(str, property_key_id) fmap"
  cat_projections :: "(projection_id, projection_entry) fmap"
  cat_projection_names :: "(str, projection_id) fmap"
  cat_indexes :: "(index_id, index_entry) fmap"
  cat_index_names :: "(str, index_id) fmap"

definition catalog_empty :: catalog where
  "catalog_empty = \<lparr>cat_roles = fmempty, cat_role_names = fmempty, cat_labels = fmempty, cat_label_names = fmempty,
     cat_relation_types = fmempty, cat_relation_type_names = fmempty, cat_property_keys = fmempty,
     cat_property_key_names = fmempty, cat_projections = fmempty, cat_projection_names = fmempty,
     cat_indexes = fmempty, cat_index_names = fmempty\<rparr>"

definition cat_role :: "catalog \<Rightarrow> role_id \<Rightarrow> role_definition option" where
  "cat_role c i = fmlookup (cat_roles c) i"

definition cat_label :: "catalog \<Rightarrow> label_id \<Rightarrow> label_definition option" where
  "cat_label c i = fmlookup (cat_labels c) i"

definition cat_relation_type :: "catalog \<Rightarrow> relation_type_id \<Rightarrow> relation_type_definition option" where
  "cat_relation_type c i = fmlookup (cat_relation_types c) i"

definition cat_property_key :: "catalog \<Rightarrow> property_key_id \<Rightarrow> property_key_definition option" where
  "cat_property_key c i = fmlookup (cat_property_keys c) i"

definition cat_projection :: "catalog \<Rightarrow> projection_id \<Rightarrow> projection_entry option" where
  "cat_projection c i = fmlookup (cat_projections c) i"

definition cat_index :: "catalog \<Rightarrow> index_id \<Rightarrow> index_entry option" where
  "cat_index c i = fmlookup (cat_indexes c) i"

definition cat_role_id :: "catalog \<Rightarrow> str \<Rightarrow> role_id option" where
  "cat_role_id c name = fmlookup (cat_role_names c) name"

definition cat_label_id :: "catalog \<Rightarrow> str \<Rightarrow> label_id option" where
  "cat_label_id c name = fmlookup (cat_label_names c) name"

definition cat_relation_type_id :: "catalog \<Rightarrow> str \<Rightarrow> relation_type_id option" where
  "cat_relation_type_id c name = fmlookup (cat_relation_type_names c) name"

definition cat_property_key_id :: "catalog \<Rightarrow> str \<Rightarrow> property_key_id option" where
  "cat_property_key_id c name = fmlookup (cat_property_key_names c) name"

definition cat_projection_id :: "catalog \<Rightarrow> str \<Rightarrow> projection_id option" where
  "cat_projection_id c name = fmlookup (cat_projection_names c) name"

definition cat_index_id :: "catalog \<Rightarrow> str \<Rightarrow> index_id option" where
  "cat_index_id c name = fmlookup (cat_index_names c) name"

lemmas cat_lookups = cat_role_def cat_label_def cat_relation_type_def cat_property_key_def cat_projection_def
  cat_index_def cat_role_id_def cat_label_id_def cat_relation_type_id_def cat_property_key_id_def
  cat_projection_id_def cat_index_id_def

section \<open>Registration\<close>

definition insert_named :: "(str, u64) fmap \<Rightarrow> str \<Rightarrow> u64 \<Rightarrow> (catalog_error, (str, u64) fmap) result" where
  "insert_named names name i =
     (if fmlookup names name \<noteq> None then Err DuplicateName else Ok (fmupd name i names))"

definition insert_role :: "role_id \<Rightarrow> str \<Rightarrow> catalog \<Rightarrow> (catalog_error, catalog) result" where
  "insert_role i name c =
     and_then (insert_named (cat_role_names c) name i) (\<lambda>names.
       Ok (c\<lparr>cat_role_names := names,
             cat_roles := fmupd i \<lparr>role_def_id = i, role_def_name = name\<rparr> (cat_roles c)\<rparr>))"

definition insert_label :: "label_id \<Rightarrow> str \<Rightarrow> catalog \<Rightarrow> (catalog_error, catalog) result" where
  "insert_label i name c =
     and_then (insert_named (cat_label_names c) name i) (\<lambda>names.
       Ok (c\<lparr>cat_label_names := names,
             cat_labels := fmupd i \<lparr>label_def_id = i, label_def_name = name\<rparr> (cat_labels c)\<rparr>))"

definition insert_relation_type :: "relation_type_id \<Rightarrow> str \<Rightarrow> catalog \<Rightarrow> (catalog_error, catalog) result" where
  "insert_relation_type i name c =
     and_then (insert_named (cat_relation_type_names c) name i) (\<lambda>names.
       Ok (c\<lparr>cat_relation_type_names := names,
             cat_relation_types := fmupd i \<lparr>rt_def_id = i, rt_def_name = name\<rparr> (cat_relation_types c)\<rparr>))"

definition insert_property_key :: "property_key_definition \<Rightarrow> catalog \<Rightarrow> (catalog_error, catalog) result" where
  "insert_property_key d c =
     and_then (insert_named (cat_property_key_names c) (pk_def_name d) (pk_def_id d)) (\<lambda>names.
       Ok (c\<lparr>cat_property_key_names := names, cat_property_keys := fmupd (pk_def_id d) d (cat_property_keys c)\<rparr>))"

definition insert_projection :: "projection_id \<Rightarrow> projection_definition \<Rightarrow> catalog \<Rightarrow> (catalog_error, catalog) result" where
  "insert_projection i d c =
     and_then (insert_named (cat_projection_names c) (projection_name d) i) (\<lambda>names.
       Ok (c\<lparr>cat_projection_names := names,
             cat_projections := fmupd i \<lparr>pe_id = i, pe_definition = d\<rparr> (cat_projections c)\<rparr>))"

definition insert_index ::
    "index_id \<Rightarrow> str \<Rightarrow> index_definition \<Rightarrow> catalog \<Rightarrow> (catalog_error, catalog) result" where
  "insert_index i name d c =
     and_then (insert_named (cat_index_names c) name i) (\<lambda>names.
       Ok (c\<lparr>cat_index_names := names,
             cat_indexes := fmupd i \<lparr>ie_id = i, ie_name = name, ie_definition = d\<rparr> (cat_indexes c)\<rparr>))"

lemmas catalog_inserts = insert_role_def insert_label_def insert_relation_type_def insert_property_key_def
  insert_projection_def insert_index_def

lemma insert_named_Ok_iff [simp]:
  "insert_named names name i = Ok names' \<longleftrightarrow> fmlookup names name = None \<and> names' = fmupd name i names"
  by (auto simp: insert_named_def)

section \<open>Definition bodies\<close>

definition DEF_PROJECTION_GRAPH :: u32 where "DEF_PROJECTION_GRAPH = 0"
definition DEF_PROJECTION_HYPER :: u32 where "DEF_PROJECTION_HYPER = 1"
definition DEF_INDEX_LABEL :: u32 where "DEF_INDEX_LABEL = 0"
definition DEF_INDEX_RELATION_TYPE :: u32 where "DEF_INDEX_RELATION_TYPE = 1"
definition DEF_INDEX_PROPERTY_EQUALITY :: u32 where "DEF_INDEX_PROPERTY_EQUALITY = 2"
definition DEF_INDEX_PROPERTY_RANGE :: u32 where "DEF_INDEX_PROPERTY_RANGE = 3"
definition DEF_INDEX_COMPOSITE_EQUALITY :: u32 where "DEF_INDEX_COMPOSITE_EQUALITY = 4"
definition DEF_INDEX_PROJECTION :: u32 where "DEF_INDEX_PROJECTION = 5"

lemmas def_kinds = DEF_PROJECTION_GRAPH_def DEF_PROJECTION_HYPER_def DEF_INDEX_LABEL_def
  DEF_INDEX_RELATION_TYPE_def DEF_INDEX_PROPERTY_EQUALITY_def DEF_INDEX_PROPERTY_RANGE_def
  DEF_INDEX_COMPOSITE_EQUALITY_def DEF_INDEX_PROJECTION_def

definition push_id_set :: "u64 list \<Rightarrow> u64 list \<Rightarrow> u64 list" where
  "push_id_set words ids = words @ [word_of_nat (length ids)] @ ids"

text \<open>The identifiers and the cursor past them; a \<open>get\<close> out of range is \<open>None\<close>.\<close>

definition read_id_set :: "u64 list \<Rightarrow> nat \<Rightarrow> (string, u64 list \<times> nat) result" where
  "read_id_set words cursor =
     and_then (ok_or ''def missing id-set length'' (index_or_panic words cursor)) (\<lambda>len.
     and_then (ok_or ''def id-set length overflow'' (to_usize len)) (\<lambda>count.
       let cursor = cursor + 1 in
     and_then (ok_or ''def id-set overflow'' (checked_add cursor count)) (\<lambda>stop.
     and_then (ok_or ''def id-set out of bounds'' (slice_or_panic words cursor stop)) (\<lambda>ids.
       Ok (ids, stop)))))"

fun encode_projection_body :: "projection_definition \<Rightarrow> u32 \<times> u64 list" where
  "encode_projection_body (GraphProjection d) =
     (DEF_PROJECTION_GRAPH,
      push_id_set [gp_source_role d, gp_target_role d] (sorted_list_of_fset (gp_relation_types d)))"
| "encode_projection_body (HypergraphProjection d) =
     (DEF_PROJECTION_HYPER,
      push_id_set
        (push_id_set
          (push_id_set [] (sorted_list_of_fset (hp_source_roles d)))
          (sorted_list_of_fset (hp_target_roles d)))
        (sorted_list_of_fset (hp_relation_types d)))"

fun encode_index_body :: "index_definition \<Rightarrow> u32 \<times> u64 list" where
  "encode_index_body (LabelIndex i) = (DEF_INDEX_LABEL, [i])"
| "encode_index_body (RelationTypeIndex i) = (DEF_INDEX_RELATION_TYPE, [i])"
| "encode_index_body (PropertyEquality i) = (DEF_INDEX_PROPERTY_EQUALITY, [i])"
| "encode_index_body (PropertyRange i) = (DEF_INDEX_PROPERTY_RANGE, [i])"
| "encode_index_body (CompositeEquality ids) = (DEF_INDEX_COMPOSITE_EQUALITY, ids)"
| "encode_index_body (ProjectionIndex i) = (DEF_INDEX_PROJECTION, [i])"

definition decode_projection_body :: "u32 \<Rightarrow> str \<Rightarrow> u64 list \<Rightarrow> (string, projection_definition) result" where
  "decode_projection_body kind name words =
     (if kind = DEF_PROJECTION_GRAPH then
        and_then (ok_or ''graph def missing source role'' (index_or_panic words 0)) (\<lambda>source_role.
        and_then (ok_or ''graph def missing target role'' (index_or_panic words 1)) (\<lambda>target_role.
        and_then (read_id_set words 2) (\<lambda>(relation_types, _).
          Ok (GraphProjection \<lparr>gp_name = name, gp_relation_types = fset_of_list relation_types,
            gp_source_role = source_role, gp_target_role = target_role\<rparr>))))
      else if kind = DEF_PROJECTION_HYPER then
        and_then (read_id_set words 0) (\<lambda>(source_roles, cursor).
        and_then (read_id_set words cursor) (\<lambda>(target_roles, cursor).
        and_then (read_id_set words cursor) (\<lambda>(relation_types, _).
          Ok (HypergraphProjection \<lparr>hp_name = name, hp_relation_types = fset_of_list relation_types,
            hp_source_roles = fset_of_list source_roles, hp_target_roles = fset_of_list target_roles\<rparr>))))
      else Err ''unknown projection definition kind'')"

definition decode_index_body :: "u32 \<Rightarrow> u64 list \<Rightarrow> (string, index_definition) result" where
  "decode_index_body kind words =
     (let first = ok_or ''index def missing id'' (index_or_panic words 0) in
      if kind = DEF_INDEX_LABEL then and_then first (\<lambda>i. Ok (LabelIndex i))
      else if kind = DEF_INDEX_RELATION_TYPE then and_then first (\<lambda>i. Ok (RelationTypeIndex i))
      else if kind = DEF_INDEX_PROPERTY_EQUALITY then and_then first (\<lambda>i. Ok (PropertyEquality i))
      else if kind = DEF_INDEX_PROPERTY_RANGE then and_then first (\<lambda>i. Ok (PropertyRange i))
      else if kind = DEF_INDEX_COMPOSITE_EQUALITY then Ok (CompositeEquality words)
      else if kind = DEF_INDEX_PROJECTION then and_then first (\<lambda>i. Ok (ProjectionIndex i))
      else Err ''unknown index definition kind'')"

lemma length_push_id_set [simp]: "length (push_id_set words ids) = Suc (length words + length ids)"
  by (simp add: push_id_set_def)

lemma read_id_set_pushed:
  assumes "length (push_id_set words ids) \<le> usize_max"
  shows "read_id_set (push_id_set words ids @ rest) (length words) = Ok (ids, length (push_id_set words ids))"
proof -
  have count: "to_usize (word_of_nat (length ids) :: u64) = Some (length ids)"
    using assms by (auto simp: to_usize_Some_iff usize_max_def unat_word_of_nat)
  have first: "index_or_panic (push_id_set words ids @ rest) (length words) = Some (word_of_nat (length ids))"
    by (simp add: index_or_panic_def push_id_set_def)
  have ids: "slice_or_panic (push_id_set words ids @ rest) (length words + 1) (length words + 1 + length ids) = Some ids"
    by (simp add: slice_or_panic_def push_id_set_def)
  show ?thesis
    using assms ids by (simp add: read_id_set_def first count checked_add_def)
qed

lemma decode_encode_projection_body:
  assumes "length (snd (encode_projection_body d)) \<le> usize_max"
  shows "decode_projection_body (fst (encode_projection_body d)) (projection_name d) (snd (encode_projection_body d)) = Ok d"
proof (cases d)
  case (GraphProjection g)
  let ?types = "sorted_list_of_fset (gp_relation_types g)"
  have read: "read_id_set (push_id_set [gp_source_role g, gp_target_role g] ?types) 2 =
      Ok (?types, length (push_id_set [gp_source_role g, gp_target_role g] ?types))"
    using read_id_set_pushed [of "[gp_source_role g, gp_target_role g]" ?types "[]"] assms GraphProjection
    by (simp add: numeral_2_eq_2)
  show ?thesis
    unfolding GraphProjection by (simp add: decode_projection_body_def read) (simp add: push_id_set_def)
next
  case (HypergraphProjection h)
  let ?sources = "sorted_list_of_fset (hp_source_roles h)"
    and ?targets = "sorted_list_of_fset (hp_target_roles h)"
    and ?types = "sorted_list_of_fset (hp_relation_types h)"
  let ?one = "push_id_set [] ?sources"
  let ?two = "push_id_set ?one ?targets"
  let ?all = "push_id_set ?two ?types"
  have all: "?all = ?two @ [word_of_nat (length ?types)] @ ?types" "?all = ?one @ [word_of_nat (length ?targets)] @ ?targets @ [word_of_nat (length ?types)] @ ?types"
    by (simp_all add: push_id_set_def)
  have "read_id_set ?all 0 = Ok (?sources, length ?one)"
    unfolding all(2) using read_id_set_pushed [of "[]" ?sources] assms HypergraphProjection by simp
  moreover have "read_id_set ?all (length ?one) = Ok (?targets, length ?two)"
    unfolding all(1) using read_id_set_pushed [of ?one ?targets] assms HypergraphProjection by simp
  moreover have "read_id_set ?all (length ?two) = Ok (?types, length ?all)"
    using read_id_set_pushed [of ?two ?types "[]"] assms HypergraphProjection by simp
  moreover have "DEF_PROJECTION_HYPER \<noteq> DEF_PROJECTION_GRAPH" by (simp add: def_kinds)
  ultimately show ?thesis
    unfolding HypergraphProjection decode_projection_body_def by (simp del: length_push_id_set)
qed

lemma decode_encode_index_body [simp]:
  "decode_index_body (fst (encode_index_body d)) (snd (encode_index_body d)) = Ok d"
  by (cases d) (simp_all add: decode_index_body_def def_kinds)

end
