(* ===== verification/DbIndex.thy ===== *)
theory DbIndex
  imports DbCatalog SliceSearch
begin

text \<open>
  The membership and equality postings of the database, \<open>crates/oxgraph-db/src/index.rs\<close>: the postings of
  one base generation, owned or borrowed from the mapped sections, the deltas an overlay keeps over them,
  and the lookups that merge the two.
\<close>

section \<open>Posting maps\<close>

type_synonym equality_key = "property_key_id \<times> property_value"

text \<open>\<open>map.entry(key).or_default().insert(member)\<close>, and the removal that drops an emptied posting.\<close>

definition insert_posting :: "'k \<Rightarrow> 'm \<Rightarrow> ('k, 'm fset) fmap \<Rightarrow> ('k, 'm fset) fmap" where
  "insert_posting key member m =
     fmupd key (finsert member (case fmlookup m key of Some s \<Rightarrow> s | None \<Rightarrow> {||})) m"

definition remove_posting :: "'k \<Rightarrow> 'm \<Rightarrow> ('k, 'm fset) fmap \<Rightarrow> ('k, 'm fset) fmap" where
  "remove_posting key member m =
     (case fmlookup m key of
        None \<Rightarrow> m
      | Some s \<Rightarrow>
          if member |\<notin>| s then m
          else let s = s |-| {|member|} in if s = {||} then fmdrop key m else fmupd key s m)"

text \<open>The members under a key.\<close>

definition posting_of :: "('k, 'm fset) fmap \<Rightarrow> 'k \<Rightarrow> 'm fset" where
  "posting_of m key = (case fmlookup m key of Some s \<Rightarrow> s | None \<Rightarrow> {||})"

lemma posting_of_empty [simp]: "posting_of fmempty key = {||}"
  by (simp add: posting_of_def)

lemma posting_of_insert [simp]:
  "posting_of (insert_posting key member m) k = (if k = key then finsert member (posting_of m k) else posting_of m k)"
  by (auto simp: posting_of_def insert_posting_def)

lemma posting_of_remove [simp]:
  "posting_of (remove_posting key member m) k = (if k = key then posting_of m k |-| {|member|} else posting_of m k)"
  by (auto simp: posting_of_def remove_posting_def Let_def split: option.splits)

section \<open>The owned postings of a base\<close>

record owned_base_index =
  ob_label_members :: "(label_id, element_id fset) fmap"
  ob_relation_type_members :: "(relation_type_id, relation_id fset) fmap"
  ob_property_equality :: "(equality_key, property_subject fset) fmap"
  ob_element_incidences :: "(element_id, incidence_id fset) fmap"
  ob_relation_incidences :: "(relation_id, incidence_id fset) fmap"

definition owned_empty :: owned_base_index where
  "owned_empty = \<lparr>ob_label_members = fmempty, ob_relation_type_members = fmempty, ob_property_equality = fmempty,
     ob_element_incidences = fmempty, ob_relation_incidences = fmempty\<rparr>"

definition label_postings :: "element_record list \<Rightarrow> (label_id, element_id fset) fmap" where
  "label_postings records =
     fold (\<lambda>r. fold (\<lambda>l. insert_posting l (er_id r)) (sorted_list_of_fset (er_labels r))) records fmempty"

definition relation_type_postings :: "relation_record list \<Rightarrow> (relation_type_id, relation_id fset) fmap" where
  "relation_type_postings records =
     fold (\<lambda>r. case rr_relation_type r of Some t \<Rightarrow> insert_posting t (rr_id r) | None \<Rightarrow> id) records fmempty"

definition equality_postings ::
    "(property_subject \<times> property_key_id \<times> property_value) list \<Rightarrow> (equality_key, property_subject fset) fmap" where
  "equality_postings triples = fold (\<lambda>(subject, key, v). insert_posting (key, v) subject) triples fmempty"

definition element_incidence_postings :: "incidence_record list \<Rightarrow> (element_id, incidence_id fset) fmap" where
  "element_incidence_postings records = fold (\<lambda>r. insert_posting (ir_element r) (ir_id r)) records fmempty"

definition relation_incidence_postings :: "incidence_record list \<Rightarrow> (relation_id, incidence_id fset) fmap" where
  "relation_incidence_postings records = fold (\<lambda>r. insert_posting (ir_relation r) (ir_id r)) records fmempty"

text \<open>The \<open>values()\<close> of an ordered map, and a nested one flattened.\<close>

definition fmap_values :: "('k::linorder, 'v) fmap \<Rightarrow> 'v list" where
  "fmap_values m = map snd (sorted_list_of_fmap m)"

definition flatten_properties :: "('s::linorder, ('k::linorder, 'v) fmap) fmap \<Rightarrow> ('s \<times> 'k \<times> 'v) list" where
  "flatten_properties m =
     concat (map (\<lambda>(subject, keys). map (\<lambda>(key, v). (subject, key, v)) (sorted_list_of_fmap keys)) (sorted_list_of_fmap m))"

definition from_records ::
    "(element_id, element_record) fmap \<Rightarrow> (relation_id, relation_record) fmap \<Rightarrow> (incidence_id, incidence_record) fmap
     \<Rightarrow> (property_subject, (property_key_id, property_value) fmap) fmap \<Rightarrow> owned_base_index" where
  "from_records elements relations incidences properties =
     \<lparr>ob_label_members = label_postings (fmap_values elements),
      ob_relation_type_members = relation_type_postings (fmap_values relations),
      ob_property_equality = equality_postings (flatten_properties properties),
      ob_element_incidences = element_incidence_postings (fmap_values incidences),
      ob_relation_incidences = relation_incidence_postings (fmap_values incidences)\<rparr>"

section \<open>The borrowed postings of a mapped base\<close>

record posting_dir_entry =
  pd_key :: u64
  pd_members_off :: u64
  pd_members_len :: u64

record equality_dir_entry =
  ed_key_id :: u64
  ed_value_tag :: u32
  ed_reserved :: u32
  ed_value_scalar :: u64
  ed_text_off :: u64
  ed_text_len :: u64
  ed_members_off :: u64
  ed_members_len :: u64

record borrowed_base_index =
  bb_label_dir :: "posting_dir_entry list"
  bb_label_pool :: "u64 list"
  bb_relation_type_dir :: "posting_dir_entry list"
  bb_relation_type_pool :: "u64 list"
  bb_equality_dir :: "equality_dir_entry list"
  bb_equality_pool :: "u64 list"
  bb_equality_text :: "byte list"
  bb_element_incidence_dir :: "posting_dir_entry list"
  bb_element_incidence_pool :: "u64 list"
  bb_relation_incidence_dir :: "posting_dir_entry list"
  bb_relation_incidence_pool :: "u64 list"

abbreviation invalid_store :: "string \<Rightarrow> db_error" where
  "invalid_store message \<equiv> StorageErr (InvalidStore message)"

definition equality_entry_key :: "equality_dir_entry \<Rightarrow> byte list \<Rightarrow> (db_error, equality_key) result" where
  "equality_entry_key entry txt =
     and_then (ok_or (invalid_store ''equality index value tag out of range'')
       (property_type_from_tag (ed_value_tag entry))) (\<lambda>ty.
     and_then
       (case ty of
          BooleanType \<Rightarrow> Ok (Boolean (ed_value_scalar entry \<noteq> 0))
        | IntegerType \<Rightarrow> Ok (Integer (ed_value_scalar entry))
        | TextType \<Rightarrow>
            and_then (ok_or (invalid_store ''equality index text offset overflow'') (to_usize (ed_text_off entry))) (\<lambda>start.
            and_then (ok_or (invalid_store ''equality index text length overflow'') (to_usize (ed_text_len entry))) (\<lambda>len.
            and_then (ok_or (invalid_store ''equality index text slice overflow'') (checked_add start len)) (\<lambda>stop.
            and_then (ok_or (invalid_store ''equality index text out of bounds'') (slice_or_panic txt start stop)) (\<lambda>bytes.
            and_then (ok_or (invalid_store ''equality index text is not UTF-8'') (from_utf8 bytes)) (\<lambda>string.
              Ok (Text string))))))) (\<lambda>v.
       Ok (ed_key_id entry, v)))"

definition slice_pool :: "u64 list \<Rightarrow> u64 \<Rightarrow> u64 \<Rightarrow> u64 list option" where
  "slice_pool pool offset len =
     Option.bind (to_usize offset) (\<lambda>start.
     Option.bind (to_usize len) (\<lambda>n.
     Option.bind (checked_add start n) (\<lambda>stop. slice_or_panic pool start stop)))"

definition simple_lookup :: "posting_dir_entry list \<Rightarrow> u64 list \<Rightarrow> u64 \<Rightarrow> u64 list option" where
  "simple_lookup dir pool key =
     (case binary_search_by (\<lambda>entry. cmp (pd_key entry) key) dir of
        Err _ \<Rightarrow> None
      | Ok i \<Rightarrow> Option.bind (index_or_panic dir i) (\<lambda>entry.
          slice_pool pool (pd_members_off entry) (pd_members_len entry)))"

fun validate_simple_dir :: "posting_dir_entry list \<Rightarrow> u64 list \<Rightarrow> string \<Rightarrow> (db_error, unit) result" where
  "validate_simple_dir [] pool label = Ok ()"
| "validate_simple_dir (entry # rest) pool label =
     and_then (ok_or (invalid_store (label @ '' posting run out of bounds''))
       (slice_pool pool (pd_members_off entry) (pd_members_len entry))) (\<lambda>_.
       validate_simple_dir rest pool label)"

definition u32_try_from :: "u64 \<Rightarrow> u32 option" where
  "u32_try_from w = (if unat w < 2 ^ 32 then Some (ucast w) else None)"

text \<open>One chunk of two words.\<close>

definition decode_pair :: "u64 list \<Rightarrow> (db_error, property_subject) result" where
  "decode_pair pair =
     and_then (ok_or (invalid_store ''equality subject kind overflow'') (u32_try_from (pair ! 0))) (\<lambda>kind.
       ok_or (invalid_store ''equality subject kind out of range'') (decode_subject kind (pair ! 1)))"

fun validate_equality_dir :: "equality_dir_entry list \<Rightarrow> u64 list \<Rightarrow> byte list \<Rightarrow> (db_error, unit) result" where
  "validate_equality_dir [] pool txt = Ok ()"
| "validate_equality_dir (entry # rest) pool txt =
     and_then (equality_entry_key entry txt) (\<lambda>_.
     and_then (ok_or (invalid_store ''equality posting run out of bounds'')
       (slice_pool pool (ed_members_off entry) (ed_members_len entry))) (\<lambda>run.
     if length run mod 2 \<noteq> 0 then
       Err (invalid_store ''equality posting subject run is not a whole number of (kind, id) pairs'')
     else
       and_then (collect_results (map decode_pair (chunks_exact 2 run))) (\<lambda>_.
         validate_equality_dir rest pool txt)))"

definition from_sections :: "borrowed_base_index \<Rightarrow> (db_error, borrowed_base_index) result" where
  "from_sections b =
     and_then (validate_simple_dir (bb_label_dir b) (bb_label_pool b) ''label'') (\<lambda>_.
     and_then (validate_simple_dir (bb_relation_type_dir b) (bb_relation_type_pool b) ''relation-type'') (\<lambda>_.
     and_then (validate_simple_dir (bb_element_incidence_dir b) (bb_element_incidence_pool b) ''element-incidence'') (\<lambda>_.
     and_then (validate_simple_dir (bb_relation_incidence_dir b) (bb_relation_incidence_pool b) ''relation-incidence'') (\<lambda>_.
     and_then (validate_equality_dir (bb_equality_dir b) (bb_equality_pool b) (bb_equality_text b)) (\<lambda>_.
       Ok b)))))"

definition decode_subjects :: "borrowed_base_index \<Rightarrow> equality_dir_entry \<Rightarrow> property_subject list" where
  "decode_subjects b entry =
     (let run = (case slice_pool (bb_equality_pool b) (ed_members_off entry) (ed_members_len entry) of
          Some r \<Rightarrow> r | None \<Rightarrow> [])
      in List.map_filter
           (\<lambda>pair. Option.bind (u32_try_from (pair ! 0)) (\<lambda>kind. decode_subject kind (pair ! 1)))
           (chunks_exact 2 run))"

definition partition_point :: "('a \<Rightarrow> bool) \<Rightarrow> 'a list \<Rightarrow> nat" where
  "partition_point pred xs =
     (case binary_search_by (\<lambda>x. if pred x then Less else Greater) xs of Ok i \<Rightarrow> i | Err i \<Rightarrow> i)"

definition key_lower_bound :: "borrowed_base_index \<Rightarrow> property_key_id \<Rightarrow> nat" where
  "key_lower_bound b key = partition_point (\<lambda>entry. ed_key_id entry < key) (bb_equality_dir b)"

fun range_walk ::
    "borrowed_base_index \<Rightarrow> property_key_id \<Rightarrow> property_value \<Rightarrow> property_value \<Rightarrow> equality_dir_entry list
     \<Rightarrow> (equality_key \<times> property_subject list) list" where
  "range_walk b key lo hi [] = []"
| "range_walk b key lo hi (entry # rest) =
     (if ed_key_id entry \<noteq> key then []
      else
        case equality_entry_key entry (bb_equality_text b) of
          Err _ \<Rightarrow> range_walk b key lo hi rest
        | Ok (entry_key, v) \<Rightarrow>
            if v < lo then range_walk b key lo hi rest
            else if v > hi then []
            else ((entry_key, v), decode_subjects b entry) # range_walk b key lo hi rest)"

definition borrowed_range_postings ::
    "borrowed_base_index \<Rightarrow> property_key_id \<Rightarrow> property_value \<Rightarrow> property_value \<Rightarrow> (equality_key \<times> property_subject list) list" where
  "borrowed_range_postings b key lo hi = range_walk b key lo hi (drop (key_lower_bound b key) (bb_equality_dir b))"

fun key_walk ::
    "borrowed_base_index \<Rightarrow> property_key_id \<Rightarrow> equality_dir_entry list \<Rightarrow> (property_value \<times> property_subject list) list" where
  "key_walk b key [] = []"
| "key_walk b key (entry # rest) =
     (if ed_key_id entry \<noteq> key then []
      else
        case equality_entry_key entry (bb_equality_text b) of
          Err _ \<Rightarrow> key_walk b key rest
        | Ok (_, v) \<Rightarrow> (v, decode_subjects b entry) # key_walk b key rest)"

definition borrowed_key_postings ::
    "borrowed_base_index \<Rightarrow> property_key_id \<Rightarrow> (property_value \<times> property_subject list) list" where
  "borrowed_key_postings b key = key_walk b key (drop (key_lower_bound b key) (bb_equality_dir b))"

section \<open>Lookups over either form\<close>

datatype base_index = OwnedIndex owned_base_index | BorrowedIndex borrowed_base_index

datatype posting = OwnedPosting "u64 fset" | BorrowedPosting "u64 list"

fun posting_iter :: "posting \<Rightarrow> u64 list" where
  "posting_iter (OwnedPosting s) = sorted_list_of_fset s"
| "posting_iter (BorrowedPosting run) = run"

fun label_posting :: "base_index \<Rightarrow> label_id \<Rightarrow> posting option" where
  "label_posting (OwnedIndex ow) l = map_option OwnedPosting (fmlookup (ob_label_members ow) l)"
| "label_posting (BorrowedIndex b) l = map_option BorrowedPosting (simple_lookup (bb_label_dir b) (bb_label_pool b) l)"

fun relation_type_posting :: "base_index \<Rightarrow> relation_type_id \<Rightarrow> posting option" where
  "relation_type_posting (OwnedIndex ow) t = map_option OwnedPosting (fmlookup (ob_relation_type_members ow) t)"
| "relation_type_posting (BorrowedIndex b) t =
     map_option BorrowedPosting (simple_lookup (bb_relation_type_dir b) (bb_relation_type_pool b) t)"

fun element_incidence_posting :: "base_index \<Rightarrow> element_id \<Rightarrow> posting option" where
  "element_incidence_posting (OwnedIndex ow) e = map_option OwnedPosting (fmlookup (ob_element_incidences ow) e)"
| "element_incidence_posting (BorrowedIndex b) e =
     map_option BorrowedPosting (simple_lookup (bb_element_incidence_dir b) (bb_element_incidence_pool b) e)"

fun relation_incidence_posting :: "base_index \<Rightarrow> relation_id \<Rightarrow> posting option" where
  "relation_incidence_posting (OwnedIndex ow) r = map_option OwnedPosting (fmlookup (ob_relation_incidences ow) r)"
| "relation_incidence_posting (BorrowedIndex b) r =
     map_option BorrowedPosting (simple_lookup (bb_relation_incidence_dir b) (bb_relation_incidence_pool b) r)"

fun equality_subjects :: "base_index \<Rightarrow> property_key_id \<Rightarrow> property_value \<Rightarrow> property_subject list option" where
  "equality_subjects (OwnedIndex ow) key v =
     map_option sorted_list_of_fset (fmlookup (ob_property_equality ow) (key, v))"
| "equality_subjects (BorrowedIndex b) key v =
     (case binary_search_by (\<lambda>entry.
         case equality_entry_key entry (bb_equality_text b) of
           Err _ \<Rightarrow> Less
         | Ok candidate \<Rightarrow> cmp candidate (key, v)) (bb_equality_dir b) of
        Err _ \<Rightarrow> None
      | Ok i \<Rightarrow> map_option (decode_subjects b) (index_or_panic (bb_equality_dir b) i))"

fun range_postings ::
    "base_index \<Rightarrow> property_key_id \<Rightarrow> property_value \<Rightarrow> property_value \<Rightarrow> (equality_key \<times> property_subject list) list" where
  "range_postings (OwnedIndex ow) key lo hi =
     (if lo > hi then []
      else map (\<lambda>(pair, subjects). (pair, sorted_list_of_fset subjects))
        (filter (\<lambda>(pair, _). (key, lo) \<le> pair \<and> pair \<le> (key, hi)) (sorted_list_of_fmap (ob_property_equality ow))))"
| "range_postings (BorrowedIndex b) key lo hi = (if lo > hi then [] else borrowed_range_postings b key lo hi)"

fun key_postings :: "base_index \<Rightarrow> property_key_id \<Rightarrow> (property_value \<times> property_subject list) list" where
  "key_postings (OwnedIndex ow) key =
     map (\<lambda>((_, v), subjects). (v, sorted_list_of_fset subjects))
       (takeWhile (\<lambda>((entry_key, _), _). entry_key = key)
         (filter (\<lambda>(pair, _). (key, Boolean False) \<le> pair) (sorted_list_of_fmap (ob_property_equality ow))))"
| "key_postings (BorrowedIndex b) key = borrowed_key_postings b key"

section \<open>The deltas of an overlay\<close>

record overlay_index =
  oi_label_added :: "(label_id, element_id fset) fmap"
  oi_label_removed :: "(label_id, element_id fset) fmap"
  oi_relation_type_added :: "(relation_type_id, relation_id fset) fmap"
  oi_relation_type_removed :: "(relation_type_id, relation_id fset) fmap"
  oi_equality_added :: "(equality_key, property_subject fset) fmap"
  oi_equality_removed :: "(equality_key, property_subject fset) fmap"
  oi_element_incidence_added :: "(element_id, incidence_id fset) fmap"
  oi_element_incidence_removed :: "(element_id, incidence_id fset) fmap"
  oi_relation_incidence_added :: "(relation_id, incidence_id fset) fmap"
  oi_relation_incidence_removed :: "(relation_id, incidence_id fset) fmap"

definition overlay_index_new :: overlay_index where
  "overlay_index_new = \<lparr>oi_label_added = fmempty, oi_label_removed = fmempty, oi_relation_type_added = fmempty,
     oi_relation_type_removed = fmempty, oi_equality_added = fmempty, oi_equality_removed = fmempty,
     oi_element_incidence_added = fmempty, oi_element_incidence_removed = fmempty,
     oi_relation_incidence_added = fmempty, oi_relation_incidence_removed = fmempty\<rparr>"

definition add_equality :: "property_subject \<Rightarrow> property_key_id \<Rightarrow> property_value \<Rightarrow> overlay_index \<Rightarrow> overlay_index" where
  "add_equality subject key v ix =
     ix\<lparr>oi_equality_removed := remove_posting (key, v) subject (oi_equality_removed ix),
        oi_equality_added := insert_posting (key, v) subject (oi_equality_added ix)\<rparr>"

definition remove_equality :: "property_subject \<Rightarrow> property_key_id \<Rightarrow> property_value \<Rightarrow> overlay_index \<Rightarrow> overlay_index" where
  "remove_equality subject key v ix =
     ix\<lparr>oi_equality_added := remove_posting (key, v) subject (oi_equality_added ix),
        oi_equality_removed := insert_posting (key, v) subject (oi_equality_removed ix)\<rparr>"

definition on_set_property ::
    "property_subject \<Rightarrow> property_key_id \<Rightarrow> property_value option \<Rightarrow> property_value \<Rightarrow> overlay_index \<Rightarrow> overlay_index" where
  "on_set_property subject key previous new_value ix =
     add_equality subject key new_value
       (case previous of
          Some p \<Rightarrow> if p \<noteq> new_value then remove_equality subject key p ix else ix
        | None \<Rightarrow> ix)"

definition on_remove_property ::
    "property_subject \<Rightarrow> property_key_id \<Rightarrow> property_value option \<Rightarrow> overlay_index \<Rightarrow> overlay_index" where
  "on_remove_property subject key previous ix =
     (case previous of Some p \<Rightarrow> remove_equality subject key p ix | None \<Rightarrow> ix)"

definition on_add_element_label :: "element_id \<Rightarrow> label_id \<Rightarrow> overlay_index \<Rightarrow> overlay_index" where
  "on_add_element_label element l ix =
     ix\<lparr>oi_label_removed := remove_posting l element (oi_label_removed ix),
        oi_label_added := insert_posting l element (oi_label_added ix)\<rparr>"

definition on_create_incidence :: "incidence_id \<Rightarrow> relation_id \<Rightarrow> element_id \<Rightarrow> overlay_index \<Rightarrow> overlay_index" where
  "on_create_incidence incidence relation element ix =
     ix\<lparr>oi_element_incidence_removed := remove_posting element incidence (oi_element_incidence_removed ix),
        oi_element_incidence_added := insert_posting element incidence (oi_element_incidence_added ix),
        oi_relation_incidence_removed := remove_posting relation incidence (oi_relation_incidence_removed ix),
        oi_relation_incidence_added := insert_posting relation incidence (oi_relation_incidence_added ix)\<rparr>"

definition remove_relation_type :: "relation_id \<Rightarrow> relation_type_id \<Rightarrow> overlay_index \<Rightarrow> overlay_index" where
  "remove_relation_type relation t ix =
     ix\<lparr>oi_relation_type_added := remove_posting t relation (oi_relation_type_added ix),
        oi_relation_type_removed := insert_posting t relation (oi_relation_type_removed ix)\<rparr>"

definition on_set_relation_type ::
    "relation_id \<Rightarrow> relation_type_id option \<Rightarrow> relation_type_id \<Rightarrow> overlay_index \<Rightarrow> overlay_index" where
  "on_set_relation_type relation previous new_type ix =
     (let ix = (case previous of
          Some p \<Rightarrow> if p \<noteq> new_type then remove_relation_type relation p ix else ix
        | None \<Rightarrow> ix)
      in ix\<lparr>oi_relation_type_removed := remove_posting new_type relation (oi_relation_type_removed ix),
            oi_relation_type_added := insert_posting new_type relation (oi_relation_type_added ix)\<rparr>)"

definition withdraw_subject_properties ::
    "property_subject \<Rightarrow> (property_key_id, property_value) fmap \<Rightarrow> overlay_index \<Rightarrow> overlay_index" where
  "withdraw_subject_properties subject properties ix =
     fold (\<lambda>(key, v). remove_equality subject key v) (sorted_list_of_fmap properties) ix"

definition withdraw_label :: "element_id \<Rightarrow> label_id \<Rightarrow> overlay_index \<Rightarrow> overlay_index" where
  "withdraw_label element l ix =
     ix\<lparr>oi_label_added := remove_posting l element (oi_label_added ix),
        oi_label_removed := insert_posting l element (oi_label_removed ix)\<rparr>"

definition on_tombstone_element ::
    "element_id \<Rightarrow> label_set \<Rightarrow> (property_key_id, property_value) fmap \<Rightarrow> overlay_index \<Rightarrow> overlay_index" where
  "on_tombstone_element element labels properties ix =
     withdraw_subject_properties (Element element) properties
       (fold (withdraw_label element) (sorted_list_of_fset labels) ix)"

definition on_tombstone_relation ::
    "relation_id \<Rightarrow> relation_type_id option \<Rightarrow> (property_key_id, property_value) fmap \<Rightarrow> overlay_index \<Rightarrow> overlay_index" where
  "on_tombstone_relation relation relation_type properties ix =
     withdraw_subject_properties (Relation relation) properties
       (case relation_type of Some t \<Rightarrow> remove_relation_type relation t ix | None \<Rightarrow> ix)"

definition on_tombstone_incidence ::
    "incidence_id \<Rightarrow> relation_id \<Rightarrow> element_id \<Rightarrow> (property_key_id, property_value) fmap \<Rightarrow> overlay_index \<Rightarrow> overlay_index" where
  "on_tombstone_incidence incidence relation element properties ix =
     withdraw_subject_properties (Incidence incidence) properties
       (ix\<lparr>oi_element_incidence_added := remove_posting element incidence (oi_element_incidence_added ix),
           oi_element_incidence_removed := insert_posting element incidence (oi_element_incidence_removed ix),
           oi_relation_incidence_added := remove_posting relation incidence (oi_relation_incidence_added ix),
           oi_relation_incidence_removed := insert_posting relation incidence (oi_relation_incidence_removed ix)\<rparr>)"

section \<open>Merged lookups\<close>

definition merge_posting :: "posting option \<Rightarrow> u64 fset option \<Rightarrow> u64 fset option \<Rightarrow> u64 list" where
  "merge_posting base added removed =
     (let visible = (case base of Some p \<Rightarrow> fset_of_list (posting_iter p) | None \<Rightarrow> {||});
          visible = (case added of Some s \<Rightarrow> visible |\<union>| s | None \<Rightarrow> visible);
          visible = (case removed of Some s \<Rightarrow> visible |-| s | None \<Rightarrow> visible)
      in sorted_list_of_fset visible)"

definition merge_posting_seq ::
    "property_subject list \<Rightarrow> property_subject fset option \<Rightarrow> property_subject fset option \<Rightarrow> property_subject list" where
  "merge_posting_seq base added removed =
     (let visible = fset_of_list base;
          visible = (case added of Some s \<Rightarrow> visible |\<union>| s | None \<Rightarrow> visible);
          visible = (case removed of Some s \<Rightarrow> visible |-| s | None \<Rightarrow> visible)
      in sorted_list_of_fset visible)"

definition ix_elements_with_label :: "overlay_index \<Rightarrow> base_index \<Rightarrow> label_id \<Rightarrow> element_id list" where
  "ix_elements_with_label ix base l =
     merge_posting (label_posting base l) (fmlookup (oi_label_added ix) l) (fmlookup (oi_label_removed ix) l)"

definition ix_relations_with_type :: "overlay_index \<Rightarrow> base_index \<Rightarrow> relation_type_id \<Rightarrow> relation_id list" where
  "ix_relations_with_type ix base t =
     merge_posting (relation_type_posting base t) (fmlookup (oi_relation_type_added ix) t)
       (fmlookup (oi_relation_type_removed ix) t)"

definition ix_element_incidences :: "overlay_index \<Rightarrow> base_index \<Rightarrow> element_id \<Rightarrow> incidence_id list" where
  "ix_element_incidences ix base e =
     merge_posting (element_incidence_posting base e) (fmlookup (oi_element_incidence_added ix) e)
       (fmlookup (oi_element_incidence_removed ix) e)"

definition ix_relation_incidences :: "overlay_index \<Rightarrow> base_index \<Rightarrow> relation_id \<Rightarrow> incidence_id list" where
  "ix_relation_incidences ix base r =
     merge_posting (relation_incidence_posting base r) (fmlookup (oi_relation_incidence_added ix) r)
       (fmlookup (oi_relation_incidence_removed ix) r)"

text \<open>The base subjects of a posting that the overlay has not removed.\<close>

definition kept_subjects :: "overlay_index \<Rightarrow> equality_key \<Rightarrow> property_subject list \<Rightarrow> property_subject list" where
  "kept_subjects ix pair subjects =
     filter (\<lambda>s. case fmlookup (oi_equality_removed ix) pair of None \<Rightarrow> True | Some gone \<Rightarrow> s |\<notin>| gone) subjects"

definition ix_property_key_subjects ::
    "overlay_index \<Rightarrow> base_index \<Rightarrow> property_key_id \<Rightarrow> (property_subject \<times> property_value) list" where
  "ix_property_key_subjects ix base key =
     (let visible = fold (\<lambda>(v, subjects). fold (\<lambda>s. fmupd s v) (kept_subjects ix (key, v) subjects))
            (key_postings base key) fmempty;
          added = takeWhile (\<lambda>((entry_key, _), _). entry_key = key)
            (filter (\<lambda>(pair, _). (key, Boolean False) \<le> pair) (sorted_list_of_fmap (oi_equality_added ix)));
          visible = fold (\<lambda>((_, v), subjects). fold (\<lambda>s. fmupd s v) (sorted_list_of_fset subjects)) added visible
      in sorted_list_of_fmap visible)"

definition ix_property_equal ::
    "overlay_index \<Rightarrow> base_index \<Rightarrow> property_key_id \<Rightarrow> property_value \<Rightarrow> property_subject list" where
  "ix_property_equal ix base key v =
     merge_posting_seq (case equality_subjects base key v of Some subjects \<Rightarrow> subjects | None \<Rightarrow> [])
       (fmlookup (oi_equality_added ix) (key, v)) (fmlookup (oi_equality_removed ix) (key, v))"

definition ix_property_range ::
    "overlay_index \<Rightarrow> base_index \<Rightarrow> property_key_id \<Rightarrow> property_value \<Rightarrow> property_value \<Rightarrow> property_subject list" where
  "ix_property_range ix base key lo hi =
     (if lo > hi then []
      else
        let visible = fold (\<lambda>(pair, subjects) acc. acc |\<union>| fset_of_list (kept_subjects ix pair subjects))
              (range_postings base key lo hi) {||};
            added = filter (\<lambda>(pair, _). (key, lo) \<le> pair \<and> pair \<le> (key, hi)) (sorted_list_of_fmap (oi_equality_added ix));
            visible = fold (\<lambda>(_, subjects) acc. acc |\<union>| subjects) added visible
        in sorted_list_of_fset visible)"

text \<open>The intersection stops early on an empty accumulator.\<close>

fun intersect_postings :: "property_subject fset \<Rightarrow> property_subject fset list \<Rightarrow> property_subject fset" where
  "intersect_postings acc [] = acc"
| "intersect_postings acc (p # rest) =
     (if acc = {||} then acc else intersect_postings (ffilter (\<lambda>s. s |\<in>| p) acc) rest)"

definition ix_property_composite_equal ::
    "overlay_index \<Rightarrow> base_index \<Rightarrow> (property_key_id \<times> property_value) list \<Rightarrow> property_subject list" where
  "ix_property_composite_equal ix base pairs =
     (let per_key = map (\<lambda>(key, v). fset_of_list (ix_property_equal ix base key v)) pairs in
      case sort_key fcard per_key of
        [] \<Rightarrow> []
      | acc # rest \<Rightarrow> sorted_list_of_fset (intersect_postings acc rest))"

section \<open>What the postings hold\<close>

lemma sorted_list_of_fset_inject [simp]: "sorted_list_of_fset s = sorted_list_of_fset t \<longleftrightarrow> s = t"
  by (metis sorted_list_of_fset_simps(2))

lemma sorted_sorted_list_of_fset [simp]: "sorted (sorted_list_of_fset s)" "distinct (sorted_list_of_fset s)"
  by (simp_all add: sorted_list_of_fset.rep_eq)

lemma set_sorted_list_of_fmap: "(k, v) \<in> set (sorted_list_of_fmap m) \<longleftrightarrow> fmlookup m k = Some v"
  by (auto simp: sorted_list_of_fmap_def fmlookup_dom_iff image_iff)

lemma keys_sorted_list_of_fmap [simp]: "map fst (sorted_list_of_fmap m) = sorted_list_of_fset (fmdom m)"
  by (simp add: sorted_list_of_fmap_def comp_def)

lemma sorted_list_of_fmap_empty [simp]: "sorted_list_of_fmap fmempty = []"
  by (simp add: sorted_list_of_fmap_def sorted_list_of_fset.rep_eq)

lemma in_fmap_values: "v \<in> set (fmap_values m) \<longleftrightarrow> (\<exists>k. fmlookup m k = Some v)"
proof
  assume "v \<in> set (fmap_values m)"
  then obtain p where "p \<in> set (sorted_list_of_fmap m)" "v = snd p" unfolding fmap_values_def by auto
  then show "\<exists>k. fmlookup m k = Some v" by (metis prod.collapse set_sorted_list_of_fmap)
next
  assume "\<exists>k. fmlookup m k = Some v"
  then obtain k where "(k, v) \<in> set (sorted_list_of_fmap m)" by (auto simp: set_sorted_list_of_fmap)
  then show "v \<in> set (fmap_values m)" unfolding fmap_values_def by force
qed

lemma in_flatten_properties:
  "(s, k, v) \<in> set (flatten_properties m) \<longleftrightarrow> (\<exists>keys. fmlookup m s = Some keys \<and> fmlookup keys k = Some v)"
  by (auto simp: flatten_properties_def set_sorted_list_of_fmap [symmetric] case_prod_unfold image_iff) force+

lemma posting_of_fold_insert:
  "x |\<in>| posting_of (fold (\<lambda>a. insert_posting (f a) (g a)) as m) k \<longleftrightarrow>
     x |\<in>| posting_of m k \<or> (\<exists>a \<in> set as. f a = k \<and> g a = x)"
  by (induction as arbitrary: m) auto

lemma fold_fold_pairs: "fold (\<lambda>a. fold (f a) (g a)) as m = fold (\<lambda>(a, b). f a b) (concat (map (\<lambda>a. map (Pair a) (g a)) as)) m"
  by (induction as arbitrary: m) (simp_all add: fold_map comp_def)

lemma fold_case_option:
  "fold (\<lambda>a. case g a of Some t \<Rightarrow> f t a | None \<Rightarrow> id) as m =
     fold (\<lambda>a. f (the (g a)) a) (filter (\<lambda>a. g a \<noteq> None) as) m"
  by (induction as arbitrary: m) (auto split: option.splits)

lemma posting_of_label_postings:
  "e |\<in>| posting_of (label_postings rs) l \<longleftrightarrow> (\<exists>r \<in> set rs. er_id r = e \<and> l |\<in>| er_labels r)"
proof -
  have "label_postings rs = fold (\<lambda>p. insert_posting (snd p) (er_id (fst p)))
      (concat (map (\<lambda>r. map (Pair r) (sorted_list_of_fset (er_labels r))) rs)) fmempty"
    unfolding label_postings_def by (subst fold_fold_pairs) (simp add: case_prod_unfold)
  then show ?thesis by (auto simp: posting_of_fold_insert)
qed

lemma posting_of_relation_type_postings:
  "e |\<in>| posting_of (relation_type_postings rs) t \<longleftrightarrow> (\<exists>r \<in> set rs. rr_id r = e \<and> rr_relation_type r = Some t)"
  unfolding relation_type_postings_def fold_case_option posting_of_fold_insert by auto

lemma posting_of_equality_postings:
  "s |\<in>| posting_of (equality_postings ts) (k, v) \<longleftrightarrow> (s, k, v) \<in> set ts"
proof -
  have "equality_postings ts = fold (\<lambda>t. insert_posting (snd t) (fst t)) ts fmempty"
    unfolding equality_postings_def by (rule fold_cong) auto
  moreover have "(\<exists>t \<in> set ts. snd t = (k, v) \<and> fst t = s) \<longleftrightarrow> (s, k, v) \<in> set ts" by force
  ultimately show ?thesis by (simp add: posting_of_fold_insert)
qed

lemma posting_of_element_incidence_postings:
  "i |\<in>| posting_of (element_incidence_postings rs) e \<longleftrightarrow> (\<exists>r \<in> set rs. ir_id r = i \<and> ir_element r = e)"
  unfolding element_incidence_postings_def posting_of_fold_insert by auto

lemma posting_of_relation_incidence_postings:
  "i |\<in>| posting_of (relation_incidence_postings rs) e \<longleftrightarrow> (\<exists>r \<in> set rs. ir_id r = i \<and> ir_relation r = e)"
  unfolding relation_incidence_postings_def posting_of_fold_insert by auto

lemmas posting_of_builders = posting_of_label_postings posting_of_relation_type_postings
  posting_of_equality_postings posting_of_element_incidence_postings posting_of_relation_incidence_postings

section \<open>What a base index answers\<close>

definition posting_members :: "posting option \<Rightarrow> u64 fset" where
  "posting_members p = (case p of Some q \<Rightarrow> fset_of_list (posting_iter q) | None \<Rightarrow> {||})"

definition subject_members :: "property_subject list option \<Rightarrow> property_subject fset" where
  "subject_members r = (case r of Some subjects \<Rightarrow> fset_of_list subjects | None \<Rightarrow> {||})"

text \<open>A base index, owned or borrowed, answers every lookup as the owned postings do.\<close>

definition answers_as :: "base_index \<Rightarrow> owned_base_index \<Rightarrow> bool" where
  "answers_as base ow \<longleftrightarrow>
     (\<forall>l. posting_members (label_posting base l) = posting_of (ob_label_members ow) l) \<and>
     (\<forall>t. posting_members (relation_type_posting base t) = posting_of (ob_relation_type_members ow) t) \<and>
     (\<forall>e. posting_members (element_incidence_posting base e) = posting_of (ob_element_incidences ow) e) \<and>
     (\<forall>r. posting_members (relation_incidence_posting base r) = posting_of (ob_relation_incidences ow) r) \<and>
     (\<forall>k v. subject_members (equality_subjects base k v) = posting_of (ob_property_equality ow) (k, v)) \<and>
     (\<forall>k lo hi. range_postings base k lo hi = range_postings (OwnedIndex ow) k lo hi) \<and>
     (\<forall>k. key_postings base k = key_postings (OwnedIndex ow) k)"

lemma posting_members_owned [simp]: "posting_members (map_option OwnedPosting (fmlookup m k)) = posting_of m k"
  by (simp add: posting_members_def posting_of_def split: option.splits)

lemma subject_members_owned [simp]:
  "subject_members (map_option sorted_list_of_fset (fmlookup m k)) = posting_of m k"
  by (simp add: subject_members_def posting_of_def split: option.splits)

lemma owned_answers: "answers_as (OwnedIndex ow) ow"
  by (simp add: answers_as_def)

lemma merge_posting_eq:
  "merge_posting base (fmlookup added k) (fmlookup removed k) =
     sorted_list_of_fset ((posting_members base |\<union>| posting_of added k) |-| posting_of removed k)"
  by (simp add: merge_posting_def posting_members_def posting_of_def Let_def split: option.splits)

lemma merge_posting_seq_eq:
  "merge_posting_seq (case r of Some subjects \<Rightarrow> subjects | None \<Rightarrow> []) (fmlookup added k) (fmlookup removed k) =
     sorted_list_of_fset ((subject_members r |\<union>| posting_of added k) |-| posting_of removed k)"
  by (simp add: merge_posting_seq_def subject_members_def posting_of_def Let_def split: option.splits)

text \<open>The members a lookup merges from a base posting and its deltas.\<close>

definition merged :: "('k, 'm fset) fmap \<Rightarrow> ('k, 'm fset) fmap \<Rightarrow> ('k, 'm fset) fmap \<Rightarrow> 'k \<Rightarrow> 'm fset" where
  "merged base added removed k = (posting_of base k |\<union>| posting_of added k) |-| posting_of removed k"

lemma merged_empty [simp]: "merged base fmempty fmempty k = posting_of base k"
  by (auto simp: merged_def)

lemma merged_insert:
  "merged base (insert_posting k x added) (remove_posting k x removed) j =
     (if j = k then finsert x (merged base added removed j) else merged base added removed j)"
  by (auto simp: merged_def)

lemma merged_remove:
  "merged base (remove_posting k x added) (insert_posting k x removed) j =
     (if j = k then merged base added removed j |-| {|x|} else merged base added removed j)"
  by (auto simp: merged_def)

definition apart :: "('k, 'm fset) fmap \<Rightarrow> ('k, 'm fset) fmap \<Rightarrow> bool" where
  "apart added removed \<longleftrightarrow> (\<forall>k. posting_of added k |\<inter>| posting_of removed k = {||})"

lemma apart_empty [simp]: "apart fmempty m"
  by (simp add: apart_def)

lemma apart_insert: "apart added removed \<Longrightarrow> apart (insert_posting k x added) (remove_posting k x removed)"
  by (auto simp: apart_def)

lemma apart_remove: "apart added removed \<Longrightarrow> apart (remove_posting k x added) (insert_posting k x removed)"
  by (auto simp: apart_def)

lemma merged_apart:
  assumes "apart added removed"
  shows "merged base added removed k = (posting_of base k |-| posting_of removed k) |\<union>| posting_of added k"
  using assms by (auto simp: apart_def merged_def)

section \<open>What the merged lookups return\<close>

lemma lookup_members:
  assumes "answers_as base ow"
  shows "ix_elements_with_label ix base l = sorted_list_of_fset (merged (ob_label_members ow) (oi_label_added ix) (oi_label_removed ix) l)"
    and "ix_relations_with_type ix base t =
      sorted_list_of_fset (merged (ob_relation_type_members ow) (oi_relation_type_added ix) (oi_relation_type_removed ix) t)"
    and "ix_element_incidences ix base e =
      sorted_list_of_fset (merged (ob_element_incidences ow) (oi_element_incidence_added ix) (oi_element_incidence_removed ix) e)"
    and "ix_relation_incidences ix base r =
      sorted_list_of_fset (merged (ob_relation_incidences ow) (oi_relation_incidence_added ix) (oi_relation_incidence_removed ix) r)"
    and "ix_property_equal ix base k v =
      sorted_list_of_fset (merged (ob_property_equality ow) (oi_equality_added ix) (oi_equality_removed ix) (k, v))"
  using assms
  by (simp_all add: answers_as_def merged_def ix_elements_with_label_def ix_relations_with_type_def
      ix_element_incidences_def ix_relation_incidences_def ix_property_equal_def merge_posting_eq merge_posting_seq_eq)

lemma between_pairs:
  "(key, lo) \<le> p \<and> p \<le> (key :: u64, hi :: property_value) \<longleftrightarrow> fst p = key \<and> lo \<le> snd p \<and> snd p \<le> hi"
  by (cases p) auto

lemma above_pair: "(key, Boolean False) \<le> p \<longleftrightarrow> key \<le> fst (p :: u64 \<times> property_value)"
  using Boolean_False_least by (cases p) (auto simp: less_le)

lemma takeWhile_key:
  assumes "sorted (map f xs)" and "\<forall>x \<in> set xs. key \<le> f x"
  shows "takeWhile (\<lambda>x. f x = key) xs = filter (\<lambda>x. f x = (key :: 'k::linorder)) xs"
  using assms
proof (induction xs)
  case (Cons x xs)
  show ?case
  proof (cases "f x = key")
    case True
    then show ?thesis using Cons by simp
  next
    case False
    then have "f y \<noteq> key" if "y \<in> set xs" for y using Cons.prems that by fastforce
    then show ?thesis using False by (simp add: filter_False)
  qed
qed simp

lemma sorted_fst_pairs: "sorted ps \<Longrightarrow> sorted (map fst (ps :: ('a::linorder \<times> 'b::linorder) list))"
  by (induction ps) (auto simp: less_eq_prod_def less_le)

lemma key_slice:
  fixes m :: "(equality_key, 'v) fmap"
  shows "takeWhile (\<lambda>((entry_key, _), _). entry_key = key) (filter (\<lambda>(pair, _). (key, Boolean False) \<le> pair) (sorted_list_of_fmap m)) =
     filter (\<lambda>(pair, _). fst pair = key) (sorted_list_of_fmap m)" (is "?left = _")
proof -
  let ?xs = "filter (\<lambda>x. key \<le> fst (fst x)) (sorted_list_of_fmap m)"
  have "sorted (map fst (map fst (sorted_list_of_fmap m)))" by (rule sorted_fst_pairs) simp
  then have "sorted (map (\<lambda>x. fst (fst x)) (sorted_list_of_fmap m))" by (simp only: map_map comp_def)
  then have "sorted (map (\<lambda>x. fst (fst x)) ?xs)" by (rule sorted_filter)
  then have "takeWhile (\<lambda>x. fst (fst x) = key) ?xs = filter (\<lambda>x. fst (fst x) = key) ?xs"
    by (rule takeWhile_key) simp
  moreover have "?left = takeWhile (\<lambda>x. fst (fst x) = key) ?xs"
    by (simp add: above_pair case_prod_unfold)
  moreover have "filter (\<lambda>x. fst (fst x) = key) ?xs = filter (\<lambda>x. fst (fst x) = key) (sorted_list_of_fmap m)"
    by (auto simp: intro!: filter_cong)
  ultimately show ?thesis by (simp add: case_prod_unfold)
qed

lemma in_range_postings:
  "lo \<le> hi \<Longrightarrow> (p, ss) \<in> set (range_postings (OwnedIndex ow) k lo hi) \<longleftrightarrow>
     fst p = k \<and> lo \<le> snd p \<and> snd p \<le> hi \<and> (\<exists>s. fmlookup (ob_property_equality ow) p = Some s \<and> ss = sorted_list_of_fset s)"
  by (auto simp: between_pairs set_sorted_list_of_fmap)

lemma in_key_postings:
  "(v, ss) \<in> set (key_postings (OwnedIndex ow) k) \<longleftrightarrow>
     (\<exists>s. fmlookup (ob_property_equality ow) (k, v) = Some s \<and> ss = sorted_list_of_fset s)"
  unfolding key_postings.simps key_slice by (auto simp: set_sorted_list_of_fmap image_iff)

lemma in_kept_subjects:
  "s \<in> set (kept_subjects ix p ss) \<longleftrightarrow> s \<in> set ss \<and> s |\<notin>| posting_of (oi_equality_removed ix) p"
  by (auto simp: kept_subjects_def posting_of_def split: option.splits)

lemma fold_union_members: "x |\<in>| fold (\<lambda>a acc. acc |\<union>| f a) as z \<longleftrightarrow> x |\<in>| z \<or> (\<exists>a \<in> set as. x |\<in>| f a)"
  by (induction as arbitrary: z) auto

lemma in_property_range:
  assumes "answers_as base ow" and apart: "apart (oi_equality_added ix) (oi_equality_removed ix)" and "lo \<le> hi"
  shows "s \<in> set (ix_property_range ix base k lo hi) \<longleftrightarrow>
     (\<exists>v. lo \<le> v \<and> v \<le> hi \<and> s |\<in>| merged (ob_property_equality ow) (oi_equality_added ix) (oi_equality_removed ix) (k, v))"
proof -
  have range: "range_postings base k lo hi = range_postings (OwnedIndex ow) k lo hi"
    using assms(1) unfolding answers_as_def by blast
  let ?kept = "\<exists>(p, ss) \<in> set (range_postings (OwnedIndex ow) k lo hi). s \<in> set (kept_subjects ix p ss)"
  let ?new = "\<exists>(p, ss) \<in> set (filter (\<lambda>(p, _). (k, lo) \<le> p \<and> p \<le> (k, hi)) (sorted_list_of_fmap (oi_equality_added ix))). s |\<in>| ss"
  have kept: "?kept \<longleftrightarrow> (\<exists>v. lo \<le> v \<and> v \<le> hi \<and>
      s |\<in>| posting_of (ob_property_equality ow) (k, v) |-| posting_of (oi_equality_removed ix) (k, v))" (is "_ \<longleftrightarrow> ?right")
  proof
    assume ?kept
    then obtain p ss where "(p, ss) \<in> set (range_postings (OwnedIndex ow) k lo hi)" "s \<in> set (kept_subjects ix p ss)" by blast
    then show ?right unfolding in_range_postings [OF assms(3)] in_kept_subjects
      by (intro exI [of _ "snd p"]) (auto simp: posting_of_def)
  next
    assume ?right
    then obtain v where v: "lo \<le> v" "v \<le> hi" "s |\<in>| posting_of (ob_property_equality ow) (k, v)"
      "s |\<notin>| posting_of (oi_equality_removed ix) (k, v)" by auto
    then obtain t where t: "fmlookup (ob_property_equality ow) (k, v) = Some t" "s |\<in>| t"
      by (auto simp: posting_of_def split: option.splits)
    have "((k, v), sorted_list_of_fset t) \<in> set (range_postings (OwnedIndex ow) k lo hi)"
      unfolding in_range_postings [OF assms(3)] using v t by simp
    moreover have "s \<in> set (kept_subjects ix (k, v) (sorted_list_of_fset t))"
      unfolding in_kept_subjects using v t by simp
    ultimately show ?kept by blast
  qed
  have new: "?new \<longleftrightarrow> (\<exists>v. lo \<le> v \<and> v \<le> hi \<and> s |\<in>| posting_of (oi_equality_added ix) (k, v))" (is "_ \<longleftrightarrow> ?right")
  proof
    assume ?new
    then obtain p ss where "(p, ss) \<in> set (sorted_list_of_fmap (oi_equality_added ix))" "s |\<in>| ss"
      "fst p = k \<and> lo \<le> snd p \<and> snd p \<le> hi" by (auto simp: between_pairs)
    then show ?right by (intro exI [of _ "snd p"]) (auto simp: posting_of_def set_sorted_list_of_fmap)
  next
    assume ?right
    then obtain v t where v: "lo \<le> v" "v \<le> hi" "((k, v), t) \<in> set (sorted_list_of_fmap (oi_equality_added ix))" "s |\<in>| t"
      by (auto simp: posting_of_def set_sorted_list_of_fmap split: option.splits)
    then show ?new by (intro bexI [of _ "((k, v), t)"]) auto
  qed
  have "s \<in> set (ix_property_range ix base k lo hi) \<longleftrightarrow> ?kept \<or> ?new"
    using assms(3) [THEN leD] unfolding ix_property_range_def range Let_def
    by (simp add: fold_union_members case_prod_unfold fset_of_list_elem del: range_postings.simps)
  then show ?thesis unfolding kept new merged_apart [OF apart] by auto
qed

lemma fold_upd_lookup:
  assumes "\<forall>(s, v) \<in> set ps. R s v" and "\<And>s v w. R s v \<Longrightarrow> R s w \<Longrightarrow> v = w"
  shows "fmlookup (fold (\<lambda>(s, v). fmupd s v) ps m) s =
     (if \<exists>v. (s, v) \<in> set ps then Some (THE v. (s, v) \<in> set ps) else fmlookup m s)"
  using assms
proof (induction ps arbitrary: m)
  case (Cons p ps)
  obtain t w where p: "p = (t, w)" by (cases p)
  have tail: "\<forall>(s, v) \<in> set ps. R s v" using Cons.prems(1) by simp
  have the: "(THE v. (s, v) \<in> set qs) = v" if "(s, v) \<in> set qs" "\<forall>(s, v) \<in> set qs. R s v" for v qs
    using that Cons.prems(2) by (intro the_equality) blast+
  show ?case
  proof (cases "\<exists>v. (s, v) \<in> set ps")
    case True
    then obtain v where v: "(s, v) \<in> set ps" ..
    then have "(THE v. (s, v) \<in> set (p # ps)) = v" "(THE v. (s, v) \<in> set ps) = v"
      using the [of v "p # ps"] the [of v ps] Cons.prems(1) tail by simp_all
    then show ?thesis using Cons.IH [OF tail Cons.prems(2)] v by auto
  next
    case False
    then show ?thesis using Cons.IH [OF tail Cons.prems(2)] p by auto
  qed
qed simp

text \<open>Single-valued pairs collect into a map that holds exactly them.\<close>

lemma fold_upd_functional:
  assumes "\<forall>(s, v) \<in> set ps. R s v" and "\<And>s v w. R s v \<Longrightarrow> R s w \<Longrightarrow> v = w"
  shows "fmlookup (fold (\<lambda>(s, v). fmupd s v) ps fmempty) s = Some v \<longleftrightarrow> (s, v) \<in> set ps"
proof -
  have "(THE v. (s, v) \<in> set ps) = w" if "(s, w) \<in> set ps" for w
    using that assms by (intro the_equality) blast+
  then show ?thesis using fold_upd_lookup [OF assms, where m = fmempty and s = s] by auto
qed

lemma in_concat_pairs: "x \<in> set (concat (map (\<lambda>(a, b). f a b) ps)) \<longleftrightarrow> (\<exists>a b. (a, b) \<in> set ps \<and> x \<in> set (f a b))"
  by force

lemma fold_over_concat: "fold f (concat xss) z = fold (fold f) xss z"
  by (induction xss arbitrary: z) simp_all

lemma in_image_pair: "(s, v) \<in> (\<lambda>s. (s, a)) ` S \<longleftrightarrow> v = a \<and> s \<in> S"
  by auto

lemma in_property_key_subjects:
  assumes "answers_as base ow" and apart: "apart (oi_equality_added ix) (oi_equality_removed ix)"
    and single: "\<And>s v w. s |\<in>| merged (ob_property_equality ow) (oi_equality_added ix) (oi_equality_removed ix) (k, v) \<Longrightarrow>
      s |\<in>| merged (ob_property_equality ow) (oi_equality_added ix) (oi_equality_removed ix) (k, w) \<Longrightarrow> v = w"
  shows "(s, v) \<in> set (ix_property_key_subjects ix base k) \<longleftrightarrow>
     s |\<in>| merged (ob_property_equality ow) (oi_equality_added ix) (oi_equality_removed ix) (k, v)"
proof -
  have keys: "key_postings base k = key_postings (OwnedIndex ow) k" using assms(1) unfolding answers_as_def by blast
  let ?kept = "concat (map (\<lambda>(v, ss). map (\<lambda>s. (s, v)) (kept_subjects ix (k, v) ss)) (key_postings (OwnedIndex ow) k))"
  let ?new = "concat (map (\<lambda>(p, ss). map (\<lambda>s. (s, snd p)) (sorted_list_of_fset ss))
      (filter (\<lambda>(p, _). fst p = k) (sorted_list_of_fmap (oi_equality_added ix))))"
  have kept: "(s, v) \<in> set ?kept \<longleftrightarrow>
      s |\<in>| posting_of (ob_property_equality ow) (k, v) |-| posting_of (oi_equality_removed ix) (k, v)" for s v
    unfolding in_concat_pairs in_key_postings set_map in_image_pair in_kept_subjects
    by (auto simp: posting_of_def split: option.splits)
  have new: "(s, v) \<in> set ?new \<longleftrightarrow> s |\<in>| posting_of (oi_equality_added ix) (k, v)" for s v
    unfolding in_concat_pairs
    by (auto simp: set_sorted_list_of_fmap posting_of_def split: option.splits)
  have all: "(s, v) \<in> set (?kept @ ?new) \<longleftrightarrow>
      s |\<in>| merged (ob_property_equality ow) (oi_equality_added ix) (oi_equality_removed ix) (k, v)" for s v
    unfolding merged_apart [OF apart] set_append Un_iff kept new by auto
  have "fold (\<lambda>((_, v), ss). fold (\<lambda>s. fmupd s v) (sorted_list_of_fset ss))
        (filter (\<lambda>(p, _). fst p = k) (sorted_list_of_fmap (oi_equality_added ix)))
        (fold (\<lambda>(v, ss). fold (\<lambda>s. fmupd s v) (kept_subjects ix (k, v) ss)) (key_postings (OwnedIndex ow) k) fmempty)
      = fold (\<lambda>(s, v). fmupd s v) (?kept @ ?new) fmempty"
    by (simp add: fold_over_concat fold_map comp_def case_prod_unfold del: key_postings.simps)
  moreover have "fmlookup (fold (\<lambda>(s, v). fmupd s v) (?kept @ ?new) fmempty) s = Some v \<longleftrightarrow> (s, v) \<in> set (?kept @ ?new)"
  proof (rule fold_upd_functional [where R = "\<lambda>s v. s |\<in>| merged (ob_property_equality ow) (oi_equality_added ix) (oi_equality_removed ix) (k, v)"])
    show "\<forall>(s, v) \<in> set (?kept @ ?new). s |\<in>| merged (ob_property_equality ow) (oi_equality_added ix) (oi_equality_removed ix) (k, v)"
      using all by blast
  qed (rule single)
  ultimately show ?thesis
    unfolding ix_property_key_subjects_def key_slice keys Let_def set_sorted_list_of_fmap all by simp
qed

lemma keys_property_key_subjects:
  "sorted (map fst (ix_property_key_subjects ix base k))" "distinct (map fst (ix_property_key_subjects ix base k))"
  by (simp_all add: ix_property_key_subjects_def Let_def)

lemma in_intersect_postings: "s |\<in>| intersect_postings acc ps \<longleftrightarrow> s |\<in>| acc \<and> (\<forall>p \<in> set ps. s |\<in>| p)"
  by (induction acc ps rule: intersect_postings.induct) auto

lemma in_property_composite_equal:
  assumes "pairs \<noteq> []"
  shows "s \<in> set (ix_property_composite_equal ix base pairs) \<longleftrightarrow>
     (\<forall>(k, v) \<in> set pairs. s \<in> set (ix_property_equal ix base k v))"
proof -
  let ?per = "map (\<lambda>(k, v). fset_of_list (ix_property_equal ix base k v)) pairs"
  have "set (sort_key fcard ?per) = set ?per" by simp
  moreover from assms have "sort_key fcard ?per \<noteq> []"
    by (metis length_0_conv length_map length_sort)
  ultimately obtain acc rest where "sort_key fcard ?per = acc # rest" "set (acc # rest) = set ?per"
    by (metis list.exhaust)
  then have "s \<in> set (ix_property_composite_equal ix base pairs) \<longleftrightarrow> s |\<in>| acc \<and> (\<forall>p \<in> set rest. s |\<in>| p)"
    by (simp add: ix_property_composite_equal_def in_intersect_postings)
  also have "\<dots> \<longleftrightarrow> (\<forall>p \<in> set ?per. s |\<in>| p)"
    unfolding \<open>set (acc # rest) = set ?per\<close> [symmetric] by simp
  finally have "s \<in> set (ix_property_composite_equal ix base pairs) \<longleftrightarrow> (\<forall>p \<in> set ?per. s |\<in>| p)" .
  then show ?thesis by (auto simp: fset_of_list_elem)
qed

lemma sorted_lookups [simp]:
  "sorted (ix_property_range ix base k lo hi)" "distinct (ix_property_range ix base k lo hi)"
  "sorted (ix_property_composite_equal ix base pairs)" "distinct (ix_property_composite_equal ix base pairs)"
  by (simp_all add: ix_property_range_def ix_property_composite_equal_def Let_def split: list.split)

end
