(* ===== verification/DbOverlay.thy ===== *)
theory DbOverlay
  imports DbIndex
begin

text \<open>
  The delta a write transaction accumulates over one base generation, its replayable log, and the published
  overlay: \<open>crates/oxgraph-db/src/overlay/{mod,log,frozen,write}.rs\<close> and the op kinds of \<open>wire.rs\<close>.
\<close>

section \<open>The base and the overlay\<close>

text \<open>The decoded records of a base generation with its index.\<close>

record base_records =
  br_elements :: "(element_id, element_record) fmap"
  br_relations :: "(relation_id, relation_record) fmap"
  br_incidences :: "(incidence_id, incidence_record) fmap"
  br_properties :: "(property_subject, (property_key_id, property_value) fmap) fmap"
  br_index :: base_index

definition base_empty :: base_records where
  "base_empty = \<lparr>br_elements = fmempty, br_relations = fmempty, br_incidences = fmempty, br_properties = fmempty,
     br_index = OwnedIndex owned_empty\<rparr>"

definition base_element :: "base_records \<Rightarrow> element_id \<Rightarrow> element_record option" where
  "base_element b i = fmlookup (br_elements b) i"

definition base_relation :: "base_records \<Rightarrow> relation_id \<Rightarrow> relation_record option" where
  "base_relation b i = fmlookup (br_relations b) i"

definition base_incidence :: "base_records \<Rightarrow> incidence_id \<Rightarrow> incidence_record option" where
  "base_incidence b i = fmlookup (br_incidences b) i"

definition base_property :: "base_records \<Rightarrow> property_subject \<Rightarrow> property_key_id \<Rightarrow> property_value option" where
  "base_property b s k = Option.bind (fmlookup (br_properties b) s) (\<lambda>keys. fmlookup keys k)"

lemmas base_reads = base_element_def base_relation_def base_incidence_def base_property_def

text \<open>A delta entry is a record that adds or overrides, or a tombstone.\<close>

type_synonym ('k, 'r) delta = "('k, 'r option) fmap"

type_synonym subject_delta = "(property_key_id, property_value option) fmap"

record overlay =
  ov_elements :: "(element_id, element_record) delta"
  ov_relations :: "(relation_id, relation_record) delta"
  ov_incidences :: "(incidence_id, incidence_record) delta"
  ov_properties :: "(property_subject, subject_delta) fmap"
  ov_catalog :: catalog
  ov_next :: next_ids
  ov_index :: overlay_index

definition overlay_empty :: "next_ids \<Rightarrow> catalog \<Rightarrow> overlay" where
  "overlay_empty next c = \<lparr>ov_elements = fmempty, ov_relations = fmempty, ov_incidences = fmempty,
     ov_properties = fmempty, ov_catalog = c, ov_next = next, ov_index = overlay_index_new\<rparr>"

section \<open>The mutation log\<close>

record mutation_log =
  ml_ops :: "mutation_op list"
  ml_blob :: "byte list"

definition log_new :: mutation_log where
  "log_new = \<lparr>ml_ops = [], ml_blob = []\<rparr>"

definition log_intern :: "byte list \<Rightarrow> mutation_log \<Rightarrow> mutation_log \<times> u64 \<times> u64" where
  "log_intern v log = (log\<lparr>ml_blob := ml_blob log @ v\<rparr>, word_of_nat (length (ml_blob log)), word_of_nat (length v))"

definition log_intern_words :: "u64 list \<Rightarrow> mutation_log \<Rightarrow> mutation_log \<times> u64 \<times> u64" where
  "log_intern_words words log =
     (log\<lparr>ml_blob := ml_blob log @ slice_to_le words\<rparr>, word_of_nat (length (ml_blob log)), word_of_nat (8 * length words))"

text \<open>The leading payload words; the others stay zero.\<close>

definition payload_of :: "u64 list \<Rightarrow> u64 list" where
  "payload_of words =
     take MUTATION_OP_PAYLOAD_WORDS words @ replicate (MUTATION_OP_PAYLOAD_WORDS - length words) 0"

definition log_push :: "u32 \<Rightarrow> u32 \<Rightarrow> u64 list \<Rightarrow> mutation_log \<Rightarrow> mutation_log" where
  "log_push kind flags words log =
     log\<lparr>ml_ops := ml_ops log @ [\<lparr>op_kind = kind, op_flags = flags, op_payload = payload_of words\<rparr>]\<rparr>"

definition OP_CREATE_ELEMENT :: u32 where "OP_CREATE_ELEMENT = 1"
definition OP_TOMBSTONE_ELEMENT :: u32 where "OP_TOMBSTONE_ELEMENT = 2"
definition OP_CREATE_RELATION :: u32 where "OP_CREATE_RELATION = 3"
definition OP_TOMBSTONE_RELATION :: u32 where "OP_TOMBSTONE_RELATION = 4"
definition OP_CREATE_INCIDENCE :: u32 where "OP_CREATE_INCIDENCE = 5"
definition OP_TOMBSTONE_INCIDENCE :: u32 where "OP_TOMBSTONE_INCIDENCE = 6"
definition OP_SET_RELATION_TYPE :: u32 where "OP_SET_RELATION_TYPE = 7"
definition OP_ADD_ELEMENT_LABEL :: u32 where "OP_ADD_ELEMENT_LABEL = 8"
definition OP_ADD_RELATION_LABEL :: u32 where "OP_ADD_RELATION_LABEL = 9"
definition OP_SET_PROPERTY :: u32 where "OP_SET_PROPERTY = 10"
definition OP_REMOVE_PROPERTY :: u32 where "OP_REMOVE_PROPERTY = 11"
definition OP_CATALOG_REGISTER_ROLE :: u32 where "OP_CATALOG_REGISTER_ROLE = 12"
definition OP_CATALOG_REGISTER_LABEL :: u32 where "OP_CATALOG_REGISTER_LABEL = 13"
definition OP_CATALOG_REGISTER_RELATION_TYPE :: u32 where "OP_CATALOG_REGISTER_RELATION_TYPE = 14"
definition OP_CATALOG_REGISTER_PROPERTY_KEY :: u32 where "OP_CATALOG_REGISTER_PROPERTY_KEY = 15"
definition OP_CATALOG_REGISTER_PROJECTION :: u32 where "OP_CATALOG_REGISTER_PROJECTION = 16"
definition OP_CATALOG_REGISTER_INDEX :: u32 where "OP_CATALOG_REGISTER_INDEX = 17"
definition OP_NEXT_ID_WATERMARK :: u32 where "OP_NEXT_ID_WATERMARK = 18"

lemmas op_kinds = OP_CREATE_ELEMENT_def OP_TOMBSTONE_ELEMENT_def OP_CREATE_RELATION_def OP_TOMBSTONE_RELATION_def
  OP_CREATE_INCIDENCE_def OP_TOMBSTONE_INCIDENCE_def OP_SET_RELATION_TYPE_def OP_ADD_ELEMENT_LABEL_def
  OP_ADD_RELATION_LABEL_def OP_SET_PROPERTY_def OP_REMOVE_PROPERTY_def OP_CATALOG_REGISTER_ROLE_def
  OP_CATALOG_REGISTER_LABEL_def OP_CATALOG_REGISTER_RELATION_TYPE_def OP_CATALOG_REGISTER_PROPERTY_KEY_def
  OP_CATALOG_REGISTER_PROJECTION_def OP_CATALOG_REGISTER_INDEX_def OP_NEXT_ID_WATERMARK_def

definition watermark_words :: "next_ids \<Rightarrow> u64 list" where
  "watermark_words n = [ni_element n, ni_relation n, ni_incidence n, ni_role n, ni_label n, ni_relation_type n,
     ni_property_key n, ni_projection n, ni_index n]"

definition log_push_watermark :: "next_ids \<Rightarrow> mutation_log \<Rightarrow> mutation_log" where
  "log_push_watermark n log = log_push OP_NEXT_ID_WATERMARK 0 (watermark_words n) log"

definition blob_str :: "byte list \<Rightarrow> u64 \<Rightarrow> u64 \<Rightarrow> u64 \<Rightarrow> (db_error, str) result" where
  "blob_str blob offset len lsn =
     and_then (ok_or (log_corrupt lsn ''blob offset overflow'') (to_usize offset)) (\<lambda>start.
     and_then (ok_or (log_corrupt lsn ''blob length overflow'') (to_usize len)) (\<lambda>n.
     and_then (ok_or (log_corrupt lsn ''blob slice overflow'') (checked_add start n)) (\<lambda>stop.
     and_then (ok_or (log_corrupt lsn ''blob slice out of bounds'') (slice_or_panic blob start stop)) (\<lambda>bytes.
       ok_or (log_corrupt lsn ''blob slice is not UTF-8'') (from_utf8 bytes)))))"

definition decode_def_words :: "byte list \<Rightarrow> u64 \<Rightarrow> u64 \<Rightarrow> u64 \<Rightarrow> (db_error, u64 list) result" where
  "decode_def_words blob offset len lsn =
     and_then (ok_or (log_corrupt lsn ''def offset overflow'') (to_usize offset)) (\<lambda>start.
     and_then (ok_or (log_corrupt lsn ''def length overflow'') (to_usize len)) (\<lambda>n.
     and_then (ok_or (log_corrupt lsn ''def slice overflow'') (checked_add start n)) (\<lambda>stop.
     and_then (ok_or (log_corrupt lsn ''def slice out of bounds'') (slice_or_panic blob start stop)) (\<lambda>bytes.
       if length bytes mod 8 \<noteq> 0 then Err (log_corrupt lsn ''def slice is not whole u64 words'')
       else Ok (map from_le_word (chunks_exact 8 bytes))))))"

section \<open>The write overlay\<close>

record write_overlay = overlay +
  wo_log :: mutation_log

definition write_overlay_new :: "next_ids \<Rightarrow> catalog \<Rightarrow> write_overlay" where
  "write_overlay_new next c = \<lparr>ov_elements = fmempty, ov_relations = fmempty, ov_incidences = fmempty,
     ov_properties = fmempty, ov_catalog = c, ov_next = next, ov_index = overlay_index_new, wo_log = log_new\<rparr>"

definition from_overlay :: "overlay \<Rightarrow> write_overlay" where
  "from_overlay parent = \<lparr>ov_elements = ov_elements parent, ov_relations = ov_relations parent,
     ov_incidences = ov_incidences parent, ov_properties = ov_properties parent, ov_catalog = ov_catalog parent,
     ov_next = ov_next parent, ov_index = ov_index parent, wo_log = log_new\<rparr>"

definition freeze :: "write_overlay \<Rightarrow> overlay" where
  "freeze w = \<lparr>ov_elements = ov_elements w, ov_relations = ov_relations w, ov_incidences = ov_incidences w,
     ov_properties = ov_properties w, ov_catalog = ov_catalog w, ov_next = ov_next w, ov_index = ov_index w\<rparr>"

definition wo_is_empty :: "write_overlay \<Rightarrow> bool" where
  "wo_is_empty w \<longleftrightarrow> ml_ops (wo_log w) = []"

definition take_frame :: "write_overlay \<Rightarrow> (mutation_op list \<times> byte list) \<times> write_overlay" where
  "take_frame w =
     (let log = log_push_watermark (ov_next w) (wo_log w)
      in ((ml_ops log, ml_blob log), w\<lparr>wo_log := log_new\<rparr>))"

subsection \<open>Reads before a mutation\<close>

definition visible_property_in ::
    "(property_subject, subject_delta) fmap \<Rightarrow> base_records \<Rightarrow> property_subject \<Rightarrow> property_key_id \<Rightarrow> property_value option" where
  "visible_property_in properties base s k =
     (case Option.bind (fmlookup properties s) (\<lambda>keys. fmlookup keys k) of
        None \<Rightarrow> base_property base s k
      | Some slot \<Rightarrow> slot)"

definition visible_property_is ::
    "write_overlay \<Rightarrow> base_records \<Rightarrow> property_subject \<Rightarrow> property_key_id \<Rightarrow> property_value \<Rightarrow> bool" where
  "visible_property_is w base s k v \<longleftrightarrow>
     (case Option.bind (fmlookup (ov_properties w) s) (\<lambda>keys. fmlookup keys k) of
        None \<Rightarrow> base_property base s k = Some v
      | Some slot \<Rightarrow> slot = Some v)"

definition visible_element_labels :: "write_overlay \<Rightarrow> base_records \<Rightarrow> element_id \<Rightarrow> label_set" where
  "visible_element_labels w base e =
     (case fmlookup (ov_elements w) e of
        Some (Some r) \<Rightarrow> er_labels r
      | Some None \<Rightarrow> {||}
      | None \<Rightarrow> (case base_element base e of Some r \<Rightarrow> er_labels r | None \<Rightarrow> {||}))"

definition visible_relation_type :: "write_overlay \<Rightarrow> base_records \<Rightarrow> relation_id \<Rightarrow> relation_type_id option" where
  "visible_relation_type w base r =
     (case fmlookup (ov_relations w) r of
        Some (Some rec) \<Rightarrow> rr_relation_type rec
      | Some None \<Rightarrow> None
      | None \<Rightarrow> Option.bind (base_relation base r) rr_relation_type)"

definition visible_incidence :: "write_overlay \<Rightarrow> base_records \<Rightarrow> incidence_id \<Rightarrow> incidence_record option" where
  "visible_incidence w base i =
     (case fmlookup (ov_incidences w) i of
        Some (Some rec) \<Rightarrow> Some rec
      | Some None \<Rightarrow> None
      | None \<Rightarrow> base_incidence base i)"

definition visible_subject_properties_in ::
    "(property_subject, subject_delta) fmap \<Rightarrow> base_records \<Rightarrow> property_subject \<Rightarrow> (property_key_id, property_value) fmap" where
  "visible_subject_properties_in properties base s =
     (let visible = (case fmlookup (br_properties base) s of
          Some keys \<Rightarrow> fold (\<lambda>(k, v). fmupd k v) (sorted_list_of_fmap keys) fmempty
        | None \<Rightarrow> fmempty)
      in case fmlookup properties s of
           None \<Rightarrow> visible
         | Some keys \<Rightarrow>
             fold (\<lambda>(k, entry). case entry of Some v \<Rightarrow> fmupd k v | None \<Rightarrow> fmdrop k) (sorted_list_of_fmap keys) visible)"

subsection \<open>Mutators shared by the live and the replay path\<close>

definition tombstone_subject_properties :: "base_records \<Rightarrow> property_subject \<Rightarrow> write_overlay \<Rightarrow> write_overlay" where
  "tombstone_subject_properties base s w =
     (let properties = fmdrop s (ov_properties w)
      in case fmlookup (br_properties base) s of
           None \<Rightarrow> w\<lparr>ov_properties := properties\<rparr>
         | Some keys \<Rightarrow>
             let entry = (case fmlookup properties s of Some m \<Rightarrow> m | None \<Rightarrow> fmempty);
                 entry = fold (\<lambda>(k, _). fmupd k None) (sorted_list_of_fmap keys) entry
             in w\<lparr>ov_properties := fmupd s entry properties\<rparr>)"

definition tombstone_element_inner :: "base_records \<Rightarrow> element_id \<Rightarrow> write_overlay \<Rightarrow> write_overlay" where
  "tombstone_element_inner base e w =
     (let labels = visible_element_labels w base e;
          properties = visible_subject_properties_in (ov_properties w) base (Element e);
          w = w\<lparr>ov_index := on_tombstone_element e labels properties (ov_index w)\<rparr>;
          w = w\<lparr>ov_elements := fmupd e None (ov_elements w)\<rparr>
      in tombstone_subject_properties base (Element e) w)"

definition tombstone_relation_inner :: "base_records \<Rightarrow> relation_id \<Rightarrow> write_overlay \<Rightarrow> write_overlay" where
  "tombstone_relation_inner base r w =
     (let relation_type = visible_relation_type w base r;
          properties = visible_subject_properties_in (ov_properties w) base (Relation r);
          w = w\<lparr>ov_index := on_tombstone_relation r relation_type properties (ov_index w)\<rparr>;
          w = w\<lparr>ov_relations := fmupd r None (ov_relations w)\<rparr>
      in tombstone_subject_properties base (Relation r) w)"

definition tombstone_incidence_inner :: "base_records \<Rightarrow> incidence_id \<Rightarrow> write_overlay \<Rightarrow> write_overlay" where
  "tombstone_incidence_inner base i w =
     (let rec = visible_incidence w base i;
          properties = visible_subject_properties_in (ov_properties w) base (Incidence i);
          w = (case rec of
              Some r \<Rightarrow> w\<lparr>ov_index := on_tombstone_incidence i (ir_relation r) (ir_element r) properties (ov_index w)\<rparr>
            | None \<Rightarrow> w);
          w = w\<lparr>ov_incidences := fmupd i None (ov_incidences w)\<rparr>
      in tombstone_subject_properties base (Incidence i) w)"

text \<open>The element's record and the label index, when there is a record to receive the label.\<close>

definition add_element_label_inner :: "base_records \<Rightarrow> element_id \<Rightarrow> label_id \<Rightarrow> write_overlay \<Rightarrow> write_overlay" where
  "add_element_label_inner base e l w =
     (let labelled_record = (case fmlookup (ov_elements w) e of
          Some slot \<Rightarrow> slot
        | None \<Rightarrow> base_element base e)
      in case labelled_record of
           Some r \<Rightarrow>
             w\<lparr>ov_elements := fmupd e (Some (r\<lparr>er_labels := fst (label_insert (er_labels r) l)\<rparr>)) (ov_elements w),
               ov_index := on_add_element_label e l (ov_index w)\<rparr>
         | None \<Rightarrow> w)"

definition add_relation_label_inner :: "base_records \<Rightarrow> relation_id \<Rightarrow> label_id \<Rightarrow> write_overlay \<Rightarrow> write_overlay" where
  "add_relation_label_inner base r l w =
     (let labelled_record = (case fmlookup (ov_relations w) r of
          Some slot \<Rightarrow> slot
        | None \<Rightarrow> base_relation base r)
      in case labelled_record of
           Some rec \<Rightarrow>
             w\<lparr>ov_relations := fmupd r (Some (rec\<lparr>rr_labels := fst (label_insert (rr_labels rec) l)\<rparr>)) (ov_relations w)\<rparr>
         | None \<Rightarrow> w)"

definition set_relation_type_inner :: "base_records \<Rightarrow> relation_id \<Rightarrow> relation_type_id \<Rightarrow> write_overlay \<Rightarrow> write_overlay" where
  "set_relation_type_inner base r t w =
     (let previous = visible_relation_type w base r;
          typed_record = (case fmlookup (ov_relations w) r of
            Some slot \<Rightarrow> slot
          | None \<Rightarrow> base_relation base r)
      in case typed_record of
           Some rec \<Rightarrow>
             w\<lparr>ov_relations := fmupd r (Some (rec\<lparr>rr_relation_type := Some t\<rparr>)) (ov_relations w),
               ov_index := on_set_relation_type r previous t (ov_index w)\<rparr>
         | None \<Rightarrow> w)"

definition set_property_inner ::
    "base_records \<Rightarrow> property_subject \<Rightarrow> property_key_id \<Rightarrow> property_value \<Rightarrow> write_overlay \<Rightarrow> write_overlay" where
  "set_property_inner base s k v w =
     (let previous = visible_property_in (ov_properties w) base s k;
          w = w\<lparr>ov_index := on_set_property s k previous v (ov_index w)\<rparr>;
          keys = (case fmlookup (ov_properties w) s of Some m \<Rightarrow> m | None \<Rightarrow> fmempty)
      in w\<lparr>ov_properties := fmupd s (fmupd k (Some v) keys) (ov_properties w)\<rparr>)"

definition remove_property_inner :: "base_records \<Rightarrow> property_subject \<Rightarrow> property_key_id \<Rightarrow> write_overlay \<Rightarrow> write_overlay" where
  "remove_property_inner base s k w =
     (let previous = visible_property_in (ov_properties w) base s k;
          w = w\<lparr>ov_index := on_remove_property s k previous (ov_index w)\<rparr>;
          keys = (case fmlookup (ov_properties w) s of Some m \<Rightarrow> m | None \<Rightarrow> fmempty)
      in w\<lparr>ov_properties := fmupd s (fmupd k None keys) (ov_properties w)\<rparr>)"

lemmas inner_defs = tombstone_element_inner_def tombstone_relation_inner_def tombstone_incidence_inner_def
  add_element_label_inner_def add_relation_label_inner_def set_relation_type_inner_def set_property_inner_def
  remove_property_inner_def

subsection \<open>Live mutators\<close>

definition wo_push :: "u32 \<Rightarrow> u32 \<Rightarrow> u64 list \<Rightarrow> write_overlay \<Rightarrow> write_overlay" where
  "wo_push kind flags words w = w\<lparr>wo_log := log_push kind flags words (wo_log w)\<rparr>"

definition create_element :: "write_overlay \<Rightarrow> (db_error, element_id) result \<times> write_overlay" where
  "create_element w =
     (let i = ni_element (ov_next w) in
      case checked_next i of
        None \<Rightarrow> (Err (TxnErr (IdOverflow ElementIds)), w)
      | Some n \<Rightarrow>
          let w = w\<lparr>ov_next := (ov_next w)\<lparr>ni_element := n\<rparr>\<rparr>;
              w = w\<lparr>ov_elements := fmupd i (Some \<lparr>er_id = i, er_labels = {||}\<rparr>) (ov_elements w)\<rparr>
          in (Ok i, wo_push OP_CREATE_ELEMENT 0 [i] w))"

definition create_relation :: "write_overlay \<Rightarrow> (db_error, relation_id) result \<times> write_overlay" where
  "create_relation w =
     (let i = ni_relation (ov_next w) in
      case checked_next i of
        None \<Rightarrow> (Err (TxnErr (IdOverflow RelationIds)), w)
      | Some n \<Rightarrow>
          let w = w\<lparr>ov_next := (ov_next w)\<lparr>ni_relation := n\<rparr>\<rparr>;
              w = w\<lparr>ov_relations := fmupd i (Some \<lparr>rr_id = i, rr_relation_type = None, rr_labels = {||}\<rparr>) (ov_relations w)\<rparr>
          in (Ok i, wo_push OP_CREATE_RELATION 0 [i] w))"

definition create_incidence ::
    "relation_id \<Rightarrow> element_id \<Rightarrow> role_id \<Rightarrow> write_overlay \<Rightarrow> (db_error, incidence_id) result \<times> write_overlay" where
  "create_incidence r e role w =
     (let i = ni_incidence (ov_next w) in
      case checked_next i of
        None \<Rightarrow> (Err (TxnErr (IdOverflow IncidenceIds)), w)
      | Some n \<Rightarrow>
          let w = w\<lparr>ov_next := (ov_next w)\<lparr>ni_incidence := n\<rparr>\<rparr>;
              w = w\<lparr>ov_incidences :=
                fmupd i (Some \<lparr>ir_id = i, ir_relation = r, ir_element = e, ir_role = role\<rparr>) (ov_incidences w)\<rparr>;
              w = w\<lparr>ov_index := on_create_incidence i r e (ov_index w)\<rparr>
          in (Ok i, wo_push OP_CREATE_INCIDENCE 0 [i, r, e, role] w))"

definition tombstone_element :: "base_records \<Rightarrow> element_id \<Rightarrow> write_overlay \<Rightarrow> write_overlay" where
  "tombstone_element base e w = wo_push OP_TOMBSTONE_ELEMENT 0 [e] (tombstone_element_inner base e w)"

definition tombstone_relation :: "base_records \<Rightarrow> relation_id \<Rightarrow> write_overlay \<Rightarrow> write_overlay" where
  "tombstone_relation base r w = wo_push OP_TOMBSTONE_RELATION 0 [r] (tombstone_relation_inner base r w)"

definition tombstone_incidence :: "base_records \<Rightarrow> incidence_id \<Rightarrow> write_overlay \<Rightarrow> write_overlay" where
  "tombstone_incidence base i w = wo_push OP_TOMBSTONE_INCIDENCE 0 [i] (tombstone_incidence_inner base i w)"

definition add_element_label :: "base_records \<Rightarrow> element_id \<Rightarrow> label_id \<Rightarrow> write_overlay \<Rightarrow> write_overlay" where
  "add_element_label base e l w = wo_push OP_ADD_ELEMENT_LABEL 0 [e, l] (add_element_label_inner base e l w)"

definition add_relation_label :: "base_records \<Rightarrow> relation_id \<Rightarrow> label_id \<Rightarrow> write_overlay \<Rightarrow> write_overlay" where
  "add_relation_label base r l w = wo_push OP_ADD_RELATION_LABEL 0 [r, l] (add_relation_label_inner base r l w)"

definition set_relation_type :: "base_records \<Rightarrow> relation_id \<Rightarrow> relation_type_id \<Rightarrow> write_overlay \<Rightarrow> write_overlay" where
  "set_relation_type base r t w = wo_push OP_SET_RELATION_TYPE 0 [r, t] (set_relation_type_inner base r t w)"

definition set_property ::
    "base_records \<Rightarrow> property_subject \<Rightarrow> property_key_id \<Rightarrow> property_value \<Rightarrow> write_overlay \<Rightarrow> write_overlay" where
  "set_property base s k v w =
     (if visible_property_is w base s k v then w
      else
        let (subject_kind, subject_id) = encode_subject s;
            value_tag = property_type_tag (value_type v);
            (log, scalar, text_off, text_len) = (case v of
                Boolean flag \<Rightarrow> (wo_log w, of_bool flag, 0, 0)
              | Integer number \<Rightarrow> (wo_log w, number, 0, 0)
              | Text string \<Rightarrow>
                  let (log, off, len) = log_intern (as_bytes string) (wo_log w) in (log, 0, off, len));
            w = w\<lparr>wo_log := log\<rparr>;
            w = wo_push OP_SET_PROPERTY (pack_flags subject_kind value_tag) [subject_id, k, scalar, text_off, text_len] w
        in set_property_inner base s k v w)"

definition remove_property :: "base_records \<Rightarrow> property_subject \<Rightarrow> property_key_id \<Rightarrow> write_overlay \<Rightarrow> write_overlay" where
  "remove_property base s k w =
     (let (subject_kind, subject_id) = encode_subject s;
          w = wo_push OP_REMOVE_PROPERTY (pack_flags subject_kind 0) [subject_id, k] w
      in remove_property_inner base s k w)"

definition register_role :: "str \<Rightarrow> write_overlay \<Rightarrow> (db_error, role_id) result \<times> write_overlay" where
  "register_role name w =
     (let i = ni_role (ov_next w) in
      case checked_next i of
        None \<Rightarrow> (Err (TxnErr (IdOverflow RoleIds)), w)
      | Some n \<Rightarrow>
          let w = w\<lparr>ov_next := (ov_next w)\<lparr>ni_role := n\<rparr>\<rparr>;
              (log, off, len) = log_intern (as_bytes name) (wo_log w);
              w = w\<lparr>wo_log := log\<rparr>
          in case insert_role i name (ov_catalog w) of
               Err e \<Rightarrow> (Err (CatalogErr e), w)
             | Ok c \<Rightarrow> (Ok i, wo_push OP_CATALOG_REGISTER_ROLE 0 [i, off, len] (w\<lparr>ov_catalog := c\<rparr>)))"

definition register_label :: "str \<Rightarrow> write_overlay \<Rightarrow> (db_error, label_id) result \<times> write_overlay" where
  "register_label name w =
     (let i = ni_label (ov_next w) in
      case checked_next i of
        None \<Rightarrow> (Err (TxnErr (IdOverflow LabelIds)), w)
      | Some n \<Rightarrow>
          let w = w\<lparr>ov_next := (ov_next w)\<lparr>ni_label := n\<rparr>\<rparr>;
              (log, off, len) = log_intern (as_bytes name) (wo_log w);
              w = w\<lparr>wo_log := log\<rparr>
          in case insert_label i name (ov_catalog w) of
               Err e \<Rightarrow> (Err (CatalogErr e), w)
             | Ok c \<Rightarrow> (Ok i, wo_push OP_CATALOG_REGISTER_LABEL 0 [i, off, len] (w\<lparr>ov_catalog := c\<rparr>)))"

definition register_relation_type :: "str \<Rightarrow> write_overlay \<Rightarrow> (db_error, relation_type_id) result \<times> write_overlay" where
  "register_relation_type name w =
     (let i = ni_relation_type (ov_next w) in
      case checked_next i of
        None \<Rightarrow> (Err (TxnErr (IdOverflow RelationTypeIds)), w)
      | Some n \<Rightarrow>
          let w = w\<lparr>ov_next := (ov_next w)\<lparr>ni_relation_type := n\<rparr>\<rparr>;
              (log, off, len) = log_intern (as_bytes name) (wo_log w);
              w = w\<lparr>wo_log := log\<rparr>
          in case insert_relation_type i name (ov_catalog w) of
               Err e \<Rightarrow> (Err (CatalogErr e), w)
             | Ok c \<Rightarrow> (Ok i, wo_push OP_CATALOG_REGISTER_RELATION_TYPE 0 [i, off, len] (w\<lparr>ov_catalog := c\<rparr>)))"

definition register_property_key ::
    "str \<Rightarrow> property_family \<Rightarrow> property_type \<Rightarrow> write_overlay \<Rightarrow> (db_error, property_key_id) result \<times> write_overlay" where
  "register_property_key name family ty w =
     (let i = ni_property_key (ov_next w) in
      case checked_next i of
        None \<Rightarrow> (Err (TxnErr (IdOverflow PropertyKeyIds)), w)
      | Some n \<Rightarrow>
          let w = w\<lparr>ov_next := (ov_next w)\<lparr>ni_property_key := n\<rparr>\<rparr>;
              (log, off, len) = log_intern (as_bytes name) (wo_log w);
              w = w\<lparr>wo_log := log\<rparr>
          in case insert_property_key
                 \<lparr>pk_def_id = i, pk_def_name = name, pk_def_family = family, pk_def_value_type = ty\<rparr> (ov_catalog w) of
               Err e \<Rightarrow> (Err (CatalogErr e), w)
             | Ok c \<Rightarrow> (Ok i, wo_push OP_CATALOG_REGISTER_PROPERTY_KEY
                 (pack_flags (property_family_tag family) (property_type_tag ty)) [i, off, len] (w\<lparr>ov_catalog := c\<rparr>)))"

definition register_projection :: "projection_definition \<Rightarrow> write_overlay \<Rightarrow> (db_error, projection_id) result \<times> write_overlay" where
  "register_projection d w =
     (let i = ni_projection (ov_next w) in
      case checked_next i of
        None \<Rightarrow> (Err (TxnErr (IdOverflow ProjectionIds)), w)
      | Some n \<Rightarrow>
          let w = w\<lparr>ov_next := (ov_next w)\<lparr>ni_projection := n\<rparr>\<rparr>;
              (log, off, len) = log_intern (as_bytes (projection_name d)) (wo_log w);
              (kind, words) = encode_projection_body d;
              (log, def_off, def_len) = log_intern_words words log;
              w = w\<lparr>wo_log := log\<rparr>
          in case insert_projection i d (ov_catalog w) of
               Err e \<Rightarrow> (Err (CatalogErr e), w)
             | Ok c \<Rightarrow> (Ok i, wo_push OP_CATALOG_REGISTER_PROJECTION kind [i, off, len, def_off, def_len] (w\<lparr>ov_catalog := c\<rparr>)))"

definition register_index ::
    "str \<Rightarrow> index_definition \<Rightarrow> write_overlay \<Rightarrow> (db_error, index_id) result \<times> write_overlay" where
  "register_index name d w =
     (let i = ni_index (ov_next w) in
      case checked_next i of
        None \<Rightarrow> (Err (TxnErr (IdOverflow IndexIds)), w)
      | Some n \<Rightarrow>
          let w = w\<lparr>ov_next := (ov_next w)\<lparr>ni_index := n\<rparr>\<rparr>;
              (log, off, len) = log_intern (as_bytes name) (wo_log w);
              (kind, words) = encode_index_body d;
              (log, def_off, def_len) = log_intern_words words log;
              w = w\<lparr>wo_log := log\<rparr>
          in case insert_index i name d (ov_catalog w) of
               Err e \<Rightarrow> (Err (CatalogErr e), w)
             | Ok c \<Rightarrow> (Ok i, wo_push OP_CATALOG_REGISTER_INDEX kind [i, off, len, def_off, def_len] (w\<lparr>ov_catalog := c\<rparr>)))"

section \<open>Replay\<close>

definition op_word :: "mutation_op \<Rightarrow> nat \<Rightarrow> u64" where
  "op_word op i = (if i < length (op_payload op) then op_payload op ! i else 0)"

text \<open>The last branch is the relation type, the only kind left.\<close>

definition apply_topology_op :: "base_records \<Rightarrow> u32 \<Rightarrow> mutation_op \<Rightarrow> write_overlay \<Rightarrow> write_overlay" where
  "apply_topology_op base kind op w =
     (if kind = OP_CREATE_ELEMENT then
        let i = op_word op 0
        in w\<lparr>ov_elements := fmupd i (Some \<lparr>er_id = i, er_labels = {||}\<rparr>) (ov_elements w)\<rparr>
      else if kind = OP_CREATE_RELATION then
        let i = op_word op 0
        in w\<lparr>ov_relations := fmupd i (Some \<lparr>rr_id = i, rr_relation_type = None, rr_labels = {||}\<rparr>) (ov_relations w)\<rparr>
      else if kind = OP_CREATE_INCIDENCE then
        let i = op_word op 0; r = op_word op 1; e = op_word op 2; role = op_word op 3;
            w = w\<lparr>ov_incidences :=
              fmupd i (Some \<lparr>ir_id = i, ir_relation = r, ir_element = e, ir_role = role\<rparr>) (ov_incidences w)\<rparr>
        in w\<lparr>ov_index := on_create_incidence i r e (ov_index w)\<rparr>
      else if kind = OP_TOMBSTONE_ELEMENT then tombstone_element_inner base (op_word op 0) w
      else if kind = OP_TOMBSTONE_RELATION then tombstone_relation_inner base (op_word op 0) w
      else if kind = OP_TOMBSTONE_INCIDENCE then tombstone_incidence_inner base (op_word op 0) w
      else if kind = OP_ADD_ELEMENT_LABEL then add_element_label_inner base (op_word op 0) (op_word op 1) w
      else if kind = OP_ADD_RELATION_LABEL then add_relation_label_inner base (op_word op 0) (op_word op 1) w
      else set_relation_type_inner base (op_word op 0) (op_word op 1) w)"

definition registered :: "(catalog_error, catalog) result \<Rightarrow> write_overlay \<Rightarrow> (db_error, write_overlay) result" where
  "registered r w = and_then (map_err CatalogErr r) (\<lambda>c. Ok (w\<lparr>ov_catalog := c\<rparr>))"

text \<open>The last branch is the index, the only kind left.\<close>

definition apply_catalog_op ::
    "u32 \<Rightarrow> mutation_op \<Rightarrow> byte list \<Rightarrow> u64 \<Rightarrow> write_overlay \<Rightarrow> (db_error, write_overlay) result" where
  "apply_catalog_op kind op blob lsn w =
     and_then (blob_str blob (op_word op 1) (op_word op 2) lsn) (\<lambda>name.
       if kind = OP_CATALOG_REGISTER_ROLE then registered (insert_role (op_word op 0) name (ov_catalog w)) w
       else if kind = OP_CATALOG_REGISTER_LABEL then registered (insert_label (op_word op 0) name (ov_catalog w)) w
       else if kind = OP_CATALOG_REGISTER_RELATION_TYPE then
         registered (insert_relation_type (op_word op 0) name (ov_catalog w)) w
       else if kind = OP_CATALOG_REGISTER_PROPERTY_KEY then
         let (family_tag, value_tag) = unpack_flags (op_flags op) in
         and_then (ok_or (log_corrupt lsn ''property-key family tag'') (property_family_from_tag family_tag)) (\<lambda>family.
         and_then (ok_or (log_corrupt lsn ''property-key value tag'') (property_type_from_tag value_tag)) (\<lambda>ty.
           registered (insert_property_key
             \<lparr>pk_def_id = op_word op 0, pk_def_name = name, pk_def_family = family, pk_def_value_type = ty\<rparr> (ov_catalog w)) w))
       else if kind = OP_CATALOG_REGISTER_PROJECTION then
         and_then (decode_def_words blob (op_word op 3) (op_word op 4) lsn) (\<lambda>words.
         and_then (map_err (log_corrupt lsn) (decode_projection_body (op_flags op) name words)) (\<lambda>d.
           registered (insert_projection (op_word op 0) d (ov_catalog w)) w))
       else
         and_then (decode_def_words blob (op_word op 3) (op_word op 4) lsn) (\<lambda>words.
         and_then (map_err (log_corrupt lsn) (decode_index_body (op_flags op) words)) (\<lambda>d.
           registered (insert_index (op_word op 0) name d (ov_catalog w)) w)))"

definition apply_set_property ::
    "base_records \<Rightarrow> mutation_op \<Rightarrow> byte list \<Rightarrow> u64 \<Rightarrow> write_overlay \<Rightarrow> (db_error, write_overlay) result" where
  "apply_set_property base op blob lsn w =
     (let (subject_kind, value_tag) = unpack_flags (op_flags op) in
      and_then (ok_or (log_corrupt lsn ''set-property subject kind'') (decode_subject subject_kind (op_word op 0))) (\<lambda>s.
      and_then (ok_or (log_corrupt lsn ''set-property value tag'') (property_type_from_tag value_tag)) (\<lambda>ty.
      and_then
        (case ty of
           BooleanType \<Rightarrow> Ok (Boolean (op_word op 2 \<noteq> 0))
         | IntegerType \<Rightarrow> Ok (Integer (op_word op 2))
         | TextType \<Rightarrow> and_then (blob_str blob (op_word op 3) (op_word op 4) lsn) (\<lambda>t. Ok (Text t))) (\<lambda>v.
        Ok (set_property_inner base s (op_word op 1) v w)))))"

definition apply_replay_op ::
    "base_records \<Rightarrow> mutation_op \<Rightarrow> byte list \<Rightarrow> u64 \<Rightarrow> write_overlay \<Rightarrow> (db_error, write_overlay) result" where
  "apply_replay_op base op blob lsn w =
     (let kind = op_kind op in
      if kind \<in> {OP_CREATE_ELEMENT, OP_CREATE_RELATION, OP_CREATE_INCIDENCE, OP_TOMBSTONE_ELEMENT,
          OP_TOMBSTONE_RELATION, OP_TOMBSTONE_INCIDENCE, OP_ADD_ELEMENT_LABEL, OP_ADD_RELATION_LABEL,
          OP_SET_RELATION_TYPE} then Ok (apply_topology_op base kind op w)
      else if kind = OP_SET_PROPERTY then apply_set_property base op blob lsn w
      else if kind = OP_REMOVE_PROPERTY then
        let (subject_kind, _) = unpack_flags (op_flags op) in
        and_then (ok_or (log_corrupt lsn ''remove-property subject kind'') (decode_subject subject_kind (op_word op 0))) (\<lambda>s.
          Ok (remove_property_inner base s (op_word op 1) w))
      else if kind \<in> {OP_CATALOG_REGISTER_ROLE, OP_CATALOG_REGISTER_LABEL, OP_CATALOG_REGISTER_RELATION_TYPE,
          OP_CATALOG_REGISTER_PROPERTY_KEY, OP_CATALOG_REGISTER_PROJECTION, OP_CATALOG_REGISTER_INDEX} then
        apply_catalog_op kind op blob lsn w
      else if kind = OP_NEXT_ID_WATERMARK then
        Ok (w\<lparr>ov_next := \<lparr>ni_element = op_word op 0, ni_relation = op_word op 1, ni_incidence = op_word op 2,
          ni_role = op_word op 3, ni_label = op_word op 4, ni_relation_type = op_word op 5,
          ni_property_key = op_word op 6, ni_projection = op_word op 7, ni_index = op_word op 8\<rparr>\<rparr>)
      else Err (log_corrupt lsn ''unknown mutation op kind''))"

definition set_next_ids :: "next_ids \<Rightarrow> write_overlay \<Rightarrow> write_overlay" where
  "set_next_ids n w = w\<lparr>ov_next := n\<rparr>"

end
