(* ===== verification/DbState.thy ===== *)
theory DbState
  imports DbOverlay
begin

text \<open>
  The merged read surface, \<open>crates/oxgraph-db/src/overlay/merge.rs\<close>: point reads that see the overlay first,
  the merge iterators over the two ascending streams, the scans that are the default methods of \<open>StateView\<close>
  and the index-backed lookups that override them. A view is a base with an overlay, published or being
  written, over it.
\<close>

section \<open>The merge iterator over records\<close>

datatype 'a step = Done | Yield 'a | Again

text \<open>
  The two peekable streams are the records and the delta entries that are left; \<open>rid\<close> is \<open>record_id\<close>.
\<close>

type_synonym ('k, 'r) merge_iter = "'r list \<times> ('k \<times> 'r option) list"

fun take_base :: "('k, 'r) merge_iter \<Rightarrow> 'r step \<times> ('k, 'r) merge_iter" where
  "take_base ([], ov) = (Done, ([], ov))"
| "take_base (b # bs, ov) = (Yield b, (bs, ov))"

definition take_overlay :: "bool \<Rightarrow> ('k, 'r) merge_iter \<Rightarrow> 'r step \<times> ('k, 'r) merge_iter" where
  "take_overlay mask_base it =
     (let bs = (if mask_base then drop 1 (fst it) else fst it) in
      case snd it of
        [] \<Rightarrow> (Done, (bs, []))
      | (_, entry) # ov \<Rightarrow> ((case entry of Some r \<Rightarrow> Yield r | None \<Rightarrow> Again), (bs, ov)))"

definition peek :: "'a list \<Rightarrow> 'a option" where
  "peek xs = (case xs of [] \<Rightarrow> None | x # _ \<Rightarrow> Some x)"

definition merge_step :: "('r \<Rightarrow> 'k::linorder) \<Rightarrow> ('k, 'r) merge_iter \<Rightarrow> 'r step \<times> ('k, 'r) merge_iter" where
  "merge_step rid it =
     (case (map_option rid (peek (fst it)), map_option fst (peek (snd it))) of
        (None, None) \<Rightarrow> (Done, it)
      | (Some _, None) \<Rightarrow> take_base it
      | (base_id, Some overlay_id) \<Rightarrow>
          (case base_id of
             Some b \<Rightarrow> if b < overlay_id then take_base it else take_overlay (base_id = Some overlay_id) it
           | None \<Rightarrow> take_overlay (base_id = Some overlay_id) it))"

lemma merge_step_Nil [simp]: "merge_step rid ([], []) = (Done, ([], []))"
  by (simp add: merge_step_def peek_def)

lemma merge_step_base [simp]: "merge_step rid (b # bs, []) = (Yield b, (bs, []))"
  by (simp add: merge_step_def peek_def)

lemma merge_step_overlay [simp]:
  "merge_step rid ([], (k, entry) # ov) = ((case entry of Some r \<Rightarrow> Yield r | None \<Rightarrow> Again), ([], ov))"
  by (simp add: merge_step_def peek_def take_overlay_def)

lemma merge_step_both [simp]:
  "merge_step rid (b # bs, (k, entry) # ov) =
     (if rid b < k then (Yield b, (bs, (k, entry) # ov))
      else ((case entry of Some r \<Rightarrow> Yield r | None \<Rightarrow> Again), (if rid b = k then bs else b # bs, ov)))"
  by (simp add: merge_step_def peek_def take_overlay_def)

lemma merge_step_smaller:
  "merge_step rid it = (s, it') \<Longrightarrow> s \<noteq> Done \<Longrightarrow> length (fst it') + length (snd it') < length (fst it) + length (snd it)"
proof -
  assume step: "merge_step rid it = (s, it')" "s \<noteq> Done"
  obtain bs ov where it: "it = (bs, ov)" by (cases it)
  show ?thesis
  proof (cases bs)
    case Nil
    with step it show ?thesis by (cases ov) auto
  next
    case (Cons b rest)
    with step it show ?thesis by (cases ov) (auto split: if_splits)
  qed
qed

text \<open>The loop of \<open>next\<close>, and a walk that calls it until the end.\<close>

function merge_next :: "('r \<Rightarrow> 'k::linorder) \<Rightarrow> ('k, 'r) merge_iter \<Rightarrow> 'r option \<times> ('k, 'r) merge_iter" where
  "merge_next rid it =
     (case merge_step rid it of
        (Done, it') \<Rightarrow> (None, it')
      | (Yield r, it') \<Rightarrow> (Some r, it')
      | (Again, it') \<Rightarrow> merge_next rid it')"
  by pat_completeness auto

termination
  by (relation "measure (\<lambda>(_, it). length (fst it) + length (snd it))") (auto dest: merge_step_smaller [OF sym])

declare merge_next.simps [simp del]

lemma merge_next_smaller:
  "merge_next rid it = (Some r, it') \<Longrightarrow> length (fst it') + length (snd it') < length (fst it) + length (snd it)"
proof (induction rid it rule: merge_next.induct)
  case (1 rid it)
  obtain s it1 where step: "merge_step rid it = (s, it1)" by (cases "merge_step rid it")
  show ?case
  proof (cases s)
    case Done
    with 1(2) step show ?thesis by (simp add: merge_next.simps)
  next
    case (Yield x)
    with 1(2) step have "it' = it1" by (simp add: merge_next.simps)
    with step Yield show ?thesis using merge_step_smaller by blast
  next
    case Again
    with 1(2) step have "merge_next rid it1 = (Some r, it')" by (simp add: merge_next.simps)
    with 1(1) step Again merge_step_smaller [OF step] show ?thesis by fastforce
  qed
qed

function merge_walk :: "('r \<Rightarrow> 'k::linorder) \<Rightarrow> ('k, 'r) merge_iter \<Rightarrow> 'r list" where
  "merge_walk rid it =
     (case merge_next rid it of (None, _) \<Rightarrow> [] | (Some r, it') \<Rightarrow> r # merge_walk rid it')"
  by pat_completeness auto

termination
  by (relation "measure (\<lambda>(_, it). length (fst it) + length (snd it))") (auto dest: merge_next_smaller [OF sym])

declare merge_walk.simps [simp del]

definition merge_iter_new :: "('k::linorder, 'r) fmap \<Rightarrow> ('k, 'r) delta \<Rightarrow> ('k, 'r) merge_iter" where
  "merge_iter_new base ov = (fmap_values base, sorted_list_of_fmap ov)"

section \<open>The merge iterator over properties\<close>

text \<open>Two flattened vectors and a cursor into each.\<close>

record property_merge_iter =
  pm_base :: "(property_subject \<times> property_key_id \<times> property_value) list"
  pm_overlay :: "(property_subject \<times> property_key_id \<times> property_value option) list"
  pm_base_index :: nat
  pm_overlay_index :: nat

type_synonym property_triple = "property_subject \<times> property_key_id \<times> property_value"

definition pm_take_base :: "property_merge_iter \<Rightarrow> property_triple step \<times> property_merge_iter" where
  "pm_take_base it =
     (case index_or_panic (pm_base it) (pm_base_index it) of
        None \<Rightarrow> (Done, it)
      | Some t \<Rightarrow> (Yield t, it\<lparr>pm_base_index := pm_base_index it + 1\<rparr>))"

definition pm_take_overlay :: "bool \<Rightarrow> property_merge_iter \<Rightarrow> property_triple step \<times> property_merge_iter" where
  "pm_take_overlay mask_base it =
     (let it = (if mask_base then it\<lparr>pm_base_index := pm_base_index it + 1\<rparr> else it) in
      case index_or_panic (pm_overlay it) (pm_overlay_index it) of
        None \<Rightarrow> (Done, it)
      | Some (subject, key, entry) \<Rightarrow>
          ((case entry of Some v \<Rightarrow> Yield (subject, key, v) | None \<Rightarrow> Again),
           it\<lparr>pm_overlay_index := pm_overlay_index it + 1\<rparr>))"

definition pm_step :: "property_merge_iter \<Rightarrow> property_triple step \<times> property_merge_iter" where
  "pm_step it =
     (let base_pair = map_option (\<lambda>(s, k, _). (s, k)) (index_or_panic (pm_base it) (pm_base_index it));
          overlay_pair = map_option (\<lambda>(s, k, _). (s, k)) (index_or_panic (pm_overlay it) (pm_overlay_index it))
      in case (base_pair, overlay_pair) of
           (None, None) \<Rightarrow> (Done, it)
         | (Some _, None) \<Rightarrow> pm_take_base it
         | (_, Some overlay) \<Rightarrow>
             (case base_pair of
                Some base \<Rightarrow> if base < overlay then pm_take_base it else pm_take_overlay (base_pair = Some overlay) it
              | None \<Rightarrow> pm_take_overlay (base_pair = Some overlay) it))"

text \<open>What is left of the two vectors, as the streams of the record iterator.\<close>

definition pm_entry :: "property_subject \<times> property_key_id \<times> property_value option \<Rightarrow>
    (property_subject \<times> property_key_id) \<times> property_triple option" where
  "pm_entry t = (case t of (s, k, entry) \<Rightarrow> ((s, k), map_option (\<lambda>v. (s, k, v)) entry))"

definition pm_rest :: "property_merge_iter \<Rightarrow> (property_subject \<times> property_key_id, property_triple) merge_iter" where
  "pm_rest it = (drop (pm_base_index it) (pm_base it), map pm_entry (drop (pm_overlay_index it) (pm_overlay it)))"

definition pm_key :: "property_triple \<Rightarrow> property_subject \<times> property_key_id" where
  "pm_key t = (case t of (s, k, _) \<Rightarrow> (s, k))"

lemma drop_index: "drop i xs = (case index_or_panic xs i of None \<Rightarrow> [] | Some x \<Rightarrow> x # drop (Suc i) xs)"
  by (auto simp: index_or_panic_def Cons_nth_drop_Suc)

lemma pm_step_refines: "merge_step pm_key (pm_rest it) = apsnd pm_rest (pm_step it)"
proof -
  let ?b = "index_or_panic (pm_base it) (pm_base_index it)" and ?o = "index_or_panic (pm_overlay it) (pm_overlay_index it)"
  have rest: "pm_rest it = (case ?b of None \<Rightarrow> [] | Some x \<Rightarrow> x # drop (Suc (pm_base_index it)) (pm_base it),
      case ?o of None \<Rightarrow> [] | Some x \<Rightarrow> pm_entry x # map pm_entry (drop (Suc (pm_overlay_index it)) (pm_overlay it)))"
    unfolding pm_rest_def by (subst (1 2) drop_index) (simp split: option.split)
  show ?thesis
  proof (cases ?b)
    case None
    note b = None
    show ?thesis
    proof (cases ?o)
      case None
      with b show ?thesis using rest by (simp add: pm_step_def)
    next
      case (Some p)
      obtain s k entry where p: "p = (s, k, entry)" by (cases p)
      have "drop (pm_base_index it) (pm_base it) = []" using b by (subst drop_index) simp
      with b Some p show ?thesis unfolding rest
        by (simp add: pm_step_def pm_take_overlay_def pm_entry_def pm_rest_def split: option.split)
    qed
  next
    case (Some t)
    note b = Some
    obtain s k v where t: "t = (s, k, v)" by (cases t)
    show ?thesis
    proof (cases ?o)
      case None
      have "drop (pm_overlay_index it) (pm_overlay it) = []" using None by (subst drop_index) simp
      with b None t show ?thesis unfolding rest by (simp add: pm_step_def pm_take_base_def pm_rest_def)
    next
      case (Some p)
      obtain s' k' entry where p: "p = (s', k', entry)" by (cases p)
      have "drop (pm_overlay_index it) (pm_overlay it) = p # drop (Suc (pm_overlay_index it)) (pm_overlay it)"
        using Some by (subst drop_index) simp
      moreover have "drop (pm_base_index it) (pm_base it) = t # drop (Suc (pm_base_index it)) (pm_base it)"
        using b by (subst drop_index) simp
      ultimately show ?thesis using b Some t p unfolding rest
        by (simp add: pm_step_def pm_take_base_def pm_take_overlay_def pm_rest_def pm_entry_def pm_key_def
            less_le split: option.split del: drop_eq_Nil)
    qed
  qed
qed

definition pm_left :: "property_merge_iter \<Rightarrow> nat" where
  "pm_left it = length (fst (pm_rest it)) + length (snd (pm_rest it))"

lemma pm_step_smaller: "pm_step it = (s, it') \<Longrightarrow> s \<noteq> Done \<Longrightarrow> pm_left it' < pm_left it"
  unfolding pm_left_def by (rule merge_step_smaller [of pm_key _ s]) (simp_all add: pm_step_refines)

function pm_next :: "property_merge_iter \<Rightarrow> property_triple option \<times> property_merge_iter" where
  "pm_next it =
     (case pm_step it of
        (Done, it') \<Rightarrow> (None, it')
      | (Yield t, it') \<Rightarrow> (Some t, it')
      | (Again, it') \<Rightarrow> pm_next it')"
  by pat_completeness auto

termination
  by (relation "measure pm_left") (auto dest: pm_step_smaller [OF sym])

declare pm_next.simps [simp del]

lemma pm_next_smaller: "pm_next it = (Some t, it') \<Longrightarrow> pm_left it' < pm_left it"
proof (induction it rule: pm_next.induct)
  case (1 it)
  obtain s it1 where step: "pm_step it = (s, it1)" by (cases "pm_step it")
  show ?case
  proof (cases s)
    case Done
    with 1(2) step show ?thesis by (simp add: pm_next.simps)
  next
    case (Yield x)
    with 1(2) step have "it' = it1" by (simp add: pm_next.simps)
    with step Yield show ?thesis using pm_step_smaller by blast
  next
    case Again
    with 1(2) step have "pm_next it1 = (Some t, it')" by (simp add: pm_next.simps)
    with 1(1) step Again pm_step_smaller [OF step] show ?thesis by fastforce
  qed
qed

function pm_walk :: "property_merge_iter \<Rightarrow> property_triple list" where
  "pm_walk it = (case pm_next it of (None, _) \<Rightarrow> [] | (Some t, it') \<Rightarrow> t # pm_walk it')"
  by pat_completeness auto

termination
  by (relation "measure pm_left") (auto dest: pm_next_smaller [OF sym])

declare pm_walk.simps [simp del]

text \<open>The overlay's nested map flattens to triples whose entry may be a removal.\<close>

definition property_merge_iter_new ::
    "(property_subject, (property_key_id, property_value) fmap) fmap \<Rightarrow> (property_subject, subject_delta) fmap \<Rightarrow> property_merge_iter" where
  "property_merge_iter_new base ov =
     \<lparr>pm_base = flatten_properties base, pm_overlay = flatten_properties ov, pm_base_index = 0, pm_overlay_index = 0\<rparr>"

section \<open>What a walk yields\<close>

lemma merge_walk_Done: "merge_step rid it = (Done, it') \<Longrightarrow> merge_walk rid it = []"
  by (simp add: merge_walk.simps merge_next.simps)

lemma merge_walk_Yield: "merge_step rid it = (Yield r, it') \<Longrightarrow> merge_walk rid it = r # merge_walk rid it'"
  by (subst merge_walk.simps) (simp add: merge_next.simps)

lemma merge_walk_Again: "merge_step rid it = (Again, it') \<Longrightarrow> merge_walk rid it = merge_walk rid it'"
proof -
  assume "merge_step rid it = (Again, it')"
  then have "merge_next rid it = merge_next rid it'" by (subst merge_next.simps) simp
  then show ?thesis by (subst (1 2) merge_walk.simps) simp
qed

lemma merge_walk_Nil [simp]: "merge_walk rid ([], []) = []"
  by (rule merge_walk_Done) (rule merge_step_Nil)

lemma merge_walk_base [simp]: "merge_walk rid (b # bs, []) = b # merge_walk rid (bs, [])"
  by (rule merge_walk_Yield) simp

lemma merge_walk_overlay [simp]:
  "merge_walk rid ([], (k, entry) # ov) =
     (case entry of Some r \<Rightarrow> r # merge_walk rid ([], ov) | None \<Rightarrow> merge_walk rid ([], ov))"
  by (cases entry) (simp_all add: merge_walk_Yield merge_walk_Again)

lemma merge_walk_both [simp]:
  "merge_walk rid (b # bs, (k, entry) # ov) =
     (if rid b < k then b # merge_walk rid (bs, (k, entry) # ov)
      else
        case entry of
          Some r \<Rightarrow> r # merge_walk rid (if rid b = k then bs else b # bs, ov)
        | None \<Rightarrow> merge_walk rid (if rid b = k then bs else b # bs, ov))"
  by (cases entry) (simp_all add: merge_walk_Yield merge_walk_Again)

lemma in_merge_walk:
  assumes "sorted_wrt (<) (map rid bs)" and "sorted_wrt (<) (map fst ov)"
  shows "r \<in> set (merge_walk rid (bs, ov)) \<longleftrightarrow>
     (\<exists>k. (k, Some r) \<in> set ov) \<or> (r \<in> set bs \<and> rid r \<notin> fst ` set ov)"
  using assms
proof (induction "length bs + length ov" arbitrary: bs ov rule: less_induct)
  case less
  show ?case
  proof (cases ov)
    case Nil
    show ?thesis
    proof (cases bs)
      case (Cons b bs')
      then show ?thesis using less.hyps [of bs' "[]"] less.prems Nil by auto
    qed (simp add: Nil)
  next
    case ov: (Cons p ov')
    obtain k entry where p: "p = (k, entry)" by (cases p)
    have sorted_ov: "sorted_wrt (<) (map fst ov')" using less.prems(2) ov by simp
    show ?thesis
    proof (cases bs)
      case Nil
      then show ?thesis
        using less.hyps [of "[]" ov'] sorted_ov ov p by (auto split: option.splits)
    next
      case (Cons b bs')
      have above: "rid b < rid r" if "r \<in> set bs'" for r using less.prems(1) Cons that by simp
      have sorted_bs: "sorted_wrt (<) (map rid bs')" using less.prems(1) Cons by simp
      have keys: "k < j" if "j \<in> fst ` set ov'" for j using less.prems(2) ov p that by auto
      consider "rid b < k" | "rid b = k" | "k < rid b" by fastforce
      then show ?thesis
      proof cases
        case 1
        then have "rid b \<notin> fst ` set ov" using keys ov p by fastforce
        then show ?thesis using 1 less.hyps [of bs' ov] less.prems(2) sorted_bs Cons ov p by auto
      next
        case 2
        then have "rid r \<noteq> k" if "r \<in> set bs'" for r using above that by fastforce
        then show ?thesis
          using 2 less.hyps [of bs' ov'] sorted_ov sorted_bs Cons ov p by (auto split: option.splits)
      next
        case 3
        then have "rid r \<noteq> k" if "r \<in> set bs" for r using above that Cons by fastforce
        then show ?thesis
          using 3 less.hyps [of bs ov'] sorted_ov less.prems(1) Cons ov p by (auto split: option.splits)
      qed
    qed
  qed
qed

lemma sorted_merge_walk:
  assumes "sorted_wrt (<) (map rid bs)" and "sorted_wrt (<) (map fst ov)"
    and "\<And>k r. (k, Some r) \<in> set ov \<Longrightarrow> rid r = k"
  shows "sorted_wrt (<) (map rid (merge_walk rid (bs, ov)))"
  using assms
proof (induction "length bs + length ov" arbitrary: bs ov rule: less_induct)
  case less
  show ?case
  proof (cases ov)
    case Nil
    show ?thesis
    proof (cases bs)
      case (Cons b bs')
      have "rid b < rid r" if "r \<in> set (merge_walk rid (bs', []))" for r
        using that less.prems Cons in_merge_walk [of rid bs' "[]" r] by auto
      then show ?thesis using less.hyps [of bs' "[]"] less.prems Cons Nil by auto
    qed (simp add: Nil)
  next
    case ov: (Cons p ov')
    obtain k entry where p: "p = (k, entry)" by (cases p)
    have sorted_ov: "sorted_wrt (<) (map fst ov')" and keys: "\<And>j x. (j, x) \<in> set ov' \<Longrightarrow> k < j"
      using less.prems(2) ov p by auto
    have keyed: "\<And>j r. (j, Some r) \<in> set ov' \<Longrightarrow> rid r = j" using less.prems(3) ov by simp
    have entry_key: "rid r = k" if "entry = Some r" for r using less.prems(3) ov p that by simp
    have tail: "sorted_wrt (<) (map rid (merge_walk rid (bs1, ov'))) \<and> (\<forall>r \<in> set (merge_walk rid (bs1, ov')). k < rid r)"
      if "sorted_wrt (<) (map rid bs1)" "\<forall>r \<in> set bs1. k < rid r" "length bs1 \<le> length bs" for bs1
      using less.hyps [of bs1 ov'] in_merge_walk [OF that(1) sorted_ov] that sorted_ov keyed keys ov by force
    show ?thesis
    proof (cases bs)
      case Nil
      then show ?thesis using tail [of "[]"] entry_key ov p by (auto split: option.splits)
    next
      case (Cons b bs')
      have above: "\<And>r. r \<in> set bs' \<Longrightarrow> rid b < rid r" and sorted_bs: "sorted_wrt (<) (map rid bs')"
        using less.prems(1) Cons by auto
      consider "rid b < k" | "rid b = k" | "k < rid b" by fastforce
      then show ?thesis
      proof cases
        case 1
        have "rid b < rid r" if "r \<in> set (merge_walk rid (bs', ov))" for r
          using that in_merge_walk [OF sorted_bs less.prems(2)] above 1 keys less.prems(3) ov p by fastforce
        then show ?thesis using 1 less.hyps [of bs' ov] less.prems sorted_bs Cons ov p by auto
      next
        case 2
        then have "\<forall>r \<in> set bs'. k < rid r" using above by simp
        then show ?thesis
          using 2 tail [of bs'] sorted_bs entry_key Cons ov p by (auto split: option.splits)
      next
        case 3
        then have "\<forall>r \<in> set bs. k < rid r" using above Cons by fastforce
        then show ?thesis
          using 3 tail [of bs] less.prems(1) entry_key Cons ov p by (auto split: option.splits)
      qed
    qed
  qed
qed

lemma pm_next_refines: "merge_next pm_key (pm_rest it) = apsnd pm_rest (pm_next it)"
proof (induction it rule: pm_next.induct)
  case (1 it)
  obtain s it1 where step: "pm_step it = (s, it1)" by (cases "pm_step it")
  then have "merge_step pm_key (pm_rest it) = (s, pm_rest it1)" by (simp add: pm_step_refines)
  then show ?case using 1 [OF step [symmetric]] step
    by (subst merge_next.simps, subst pm_next.simps) (cases s; simp)
qed

lemma pm_walk_refines: "pm_walk it = merge_walk pm_key (pm_rest it)"
proof (induction it rule: pm_walk.induct)
  case (1 it)
  obtain x it1 where step: "pm_next it = (x, it1)" by (cases "pm_next it")
  then have "merge_next pm_key (pm_rest it) = (x, pm_rest it1)" by (simp add: pm_next_refines)
  then show ?case using 1 [OF step [symmetric]] step
    by (subst merge_walk.simps, subst pm_walk.simps) (cases x; simp)
qed

section \<open>Point reads\<close>

definition element_ref :: "base_records \<Rightarrow> 'a overlay_scheme \<Rightarrow> element_id \<Rightarrow> element_record option" where
  "element_ref base ov i =
     (case fmlookup (ov_elements ov) i of
        Some (Some r) \<Rightarrow> Some r
      | Some None \<Rightarrow> None
      | None \<Rightarrow> base_element base i)"

definition relation_ref :: "base_records \<Rightarrow> 'a overlay_scheme \<Rightarrow> relation_id \<Rightarrow> relation_record option" where
  "relation_ref base ov i =
     (case fmlookup (ov_relations ov) i of
        Some (Some r) \<Rightarrow> Some r
      | Some None \<Rightarrow> None
      | None \<Rightarrow> base_relation base i)"

definition incidence_ref :: "base_records \<Rightarrow> 'a overlay_scheme \<Rightarrow> incidence_id \<Rightarrow> incidence_record option" where
  "incidence_ref base ov i =
     (case fmlookup (ov_incidences ov) i of
        Some (Some r) \<Rightarrow> Some r
      | Some None \<Rightarrow> None
      | None \<Rightarrow> base_incidence base i)"

definition property_ref ::
    "base_records \<Rightarrow> 'a overlay_scheme \<Rightarrow> property_subject \<Rightarrow> property_key_id \<Rightarrow> property_value option" where
  "property_ref base ov s k =
     (case Option.bind (fmlookup (ov_properties ov) s) (\<lambda>keys. fmlookup keys k) of
        Some (Some v) \<Rightarrow> Some v
      | Some None \<Rightarrow> None
      | None \<Rightarrow> base_property base s k)"

definition subject_properties ::
    "base_records \<Rightarrow> 'a overlay_scheme \<Rightarrow> property_subject \<Rightarrow> (property_key_id \<times> property_value) list" where
  "subject_properties base ov s =
     (let merged = (case fmlookup (br_properties base) s of Some keys \<Rightarrow> keys | None \<Rightarrow> fmempty);
          entries = (case fmlookup (ov_properties ov) s of Some keys \<Rightarrow> sorted_list_of_fmap keys | None \<Rightarrow> []);
          merged = fold (\<lambda>(k, entry). case entry of Some v \<Rightarrow> fmupd k v | None \<Rightarrow> fmdrop k) entries merged
      in sorted_list_of_fmap merged)"

definition contains_element :: "base_records \<Rightarrow> 'a overlay_scheme \<Rightarrow> element_id \<Rightarrow> bool" where
  "contains_element base ov i \<longleftrightarrow> element_ref base ov i \<noteq> None"

definition contains_relation :: "base_records \<Rightarrow> 'a overlay_scheme \<Rightarrow> relation_id \<Rightarrow> bool" where
  "contains_relation base ov i \<longleftrightarrow> relation_ref base ov i \<noteq> None"

definition contains_incidence :: "base_records \<Rightarrow> 'a overlay_scheme \<Rightarrow> incidence_id \<Rightarrow> bool" where
  "contains_incidence base ov i \<longleftrightarrow> incidence_ref base ov i \<noteq> None"

lemmas contains_defs = contains_element_def contains_relation_def contains_incidence_def

section \<open>Full walks\<close>

definition st_elements :: "base_records \<Rightarrow> 'a overlay_scheme \<Rightarrow> element_record list" where
  "st_elements base ov = merge_walk er_id (merge_iter_new (br_elements base) (ov_elements ov))"

definition st_relations :: "base_records \<Rightarrow> 'a overlay_scheme \<Rightarrow> relation_record list" where
  "st_relations base ov = merge_walk rr_id (merge_iter_new (br_relations base) (ov_relations ov))"

definition st_incidences :: "base_records \<Rightarrow> 'a overlay_scheme \<Rightarrow> incidence_record list" where
  "st_incidences base ov = merge_walk ir_id (merge_iter_new (br_incidences base) (ov_incidences ov))"

definition st_properties :: "base_records \<Rightarrow> 'a overlay_scheme \<Rightarrow> property_triple list" where
  "st_properties base ov = pm_walk (property_merge_iter_new (br_properties base) (ov_properties ov))"

section \<open>Scans over a walk\<close>

text \<open>
  The default methods of \<open>StateView\<close>, over what the required iterator yields.
\<close>

definition scan_element_incidences :: "incidence_record list \<Rightarrow> element_id \<Rightarrow> incidence_record list" where
  "scan_element_incidences incidences e = filter (\<lambda>r. ir_element r = e) incidences"

definition scan_relation_incidences :: "incidence_record list \<Rightarrow> relation_id \<Rightarrow> incidence_record list" where
  "scan_relation_incidences incidences i = filter (\<lambda>r. ir_relation r = i) incidences"

definition scan_elements_with_label :: "element_record list \<Rightarrow> label_id \<Rightarrow> element_id list" where
  "scan_elements_with_label elements l = map er_id (filter (\<lambda>r. l |\<in>| er_labels r) elements)"

definition scan_relations_with_type :: "relation_record list \<Rightarrow> relation_type_id \<Rightarrow> relation_id list" where
  "scan_relations_with_type relations t = map rr_id (filter (\<lambda>r. rr_relation_type r = Some t) relations)"

definition scan_property_equal :: "property_triple list \<Rightarrow> property_key_id \<Rightarrow> property_value \<Rightarrow> property_subject list" where
  "scan_property_equal properties key v = map fst (filter (\<lambda>(_, k, w). k = key \<and> w = v) properties)"

definition scan_property_range ::
    "property_triple list \<Rightarrow> property_key_id \<Rightarrow> property_value \<Rightarrow> property_value \<Rightarrow> property_subject list" where
  "scan_property_range properties key lo hi = map fst (filter (\<lambda>(_, k, w). k = key \<and> lo \<le> w \<and> w \<le> hi) properties)"

definition properties_by_subject ::
    "property_triple list \<Rightarrow> (property_subject, (property_key_id, property_value) fmap) fmap" where
  "properties_by_subject properties =
     fold (\<lambda>(s, k, v) grouped.
       fmupd s (fmupd k v (case fmlookup grouped s of Some keys \<Rightarrow> keys | None \<Rightarrow> fmempty)) grouped) properties fmempty"

definition scan_composite_equal ::
    "property_triple list \<Rightarrow> property_key_id list \<Rightarrow> property_value list \<Rightarrow> property_subject list" where
  "scan_composite_equal properties keys vs =
     List.map_filter (\<lambda>(s, subject_values).
       if list_all (\<lambda>(k, v). fmlookup subject_values k = Some v) (zip keys vs) then Some s else None)
       (sorted_list_of_fmap (properties_by_subject properties))"

lemmas scan_defs = scan_element_incidences_def scan_relation_incidences_def scan_elements_with_label_def
  scan_relations_with_type_def scan_property_equal_def scan_property_range_def

section \<open>Validated lookups\<close>

definition validate_lookup_value :: "catalog \<Rightarrow> property_key_id \<Rightarrow> property_value \<Rightarrow> (db_error, unit) result" where
  "validate_lookup_value c key v =
     and_then (ok_or (unknown PropertyKeyIds key) (cat_property_key c key)) (\<lambda>d.
       if pk_def_value_type d \<noteq> value_type v
       then Err (QueryErr (PropertyTypeMismatch (pk_def_value_type d) (value_type v)))
       else Ok ())"

definition validate_lookup_value_for_family ::
    "catalog \<Rightarrow> property_key_id \<Rightarrow> property_family \<Rightarrow> property_value \<Rightarrow> (db_error, unit) result" where
  "validate_lookup_value_for_family c key family v =
     and_then (ok_or (unknown PropertyKeyIds key) (cat_property_key c key)) (\<lambda>d.
       if pk_def_family d \<noteq> family then Err (QueryErr (WrongPropertyFamily (pk_def_family d) family))
       else if pk_def_value_type d \<noteq> value_type v
       then Err (QueryErr (PropertyTypeMismatch (pk_def_value_type d) (value_type v)))
       else Ok ())"

fun validate_pairs :: "catalog \<Rightarrow> (property_key_id \<times> property_value) list \<Rightarrow> (db_error, unit) result" where
  "validate_pairs c [] = Ok ()"
| "validate_pairs c ((k, v) # rest) = and_then (validate_lookup_value c k v) (\<lambda>_. validate_pairs c rest)"

text \<open>The typed wrappers, over the equality or range lookup of the view.\<close>

definition typed_property_equal ::
    "catalog \<Rightarrow> (property_key_id \<Rightarrow> property_value \<Rightarrow> property_subject list) \<Rightarrow> property_key_id \<Rightarrow> property_value
     \<Rightarrow> (db_error, property_subject list) result" where
  "typed_property_equal c property_equal key v =
     and_then (validate_lookup_value c key v) (\<lambda>_. Ok (property_equal key v))"

definition typed_property_equal_for_family ::
    "catalog \<Rightarrow> (property_key_id \<Rightarrow> property_value \<Rightarrow> property_subject list) \<Rightarrow> property_key_id \<Rightarrow> property_family
     \<Rightarrow> property_value \<Rightarrow> (db_error, property_subject list) result" where
  "typed_property_equal_for_family c property_equal key family v =
     and_then (validate_lookup_value_for_family c key family v) (\<lambda>_. Ok (property_equal key v))"

definition typed_property_range ::
    "catalog \<Rightarrow> (property_key_id \<Rightarrow> property_value \<Rightarrow> property_value \<Rightarrow> property_subject list) \<Rightarrow> property_key_id
     \<Rightarrow> property_value \<Rightarrow> property_value \<Rightarrow> (db_error, property_subject list) result" where
  "typed_property_range c property_range key lo hi =
     and_then (validate_lookup_value c key lo) (\<lambda>_.
     and_then (validate_lookup_value c key hi) (\<lambda>_.
       if lo > hi then Ok [] else Ok (property_range key lo hi)))"

definition default_composite_equal ::
    "catalog \<Rightarrow> property_triple list \<Rightarrow> property_key_id list \<Rightarrow> property_value list \<Rightarrow> (db_error, property_subject list) result" where
  "default_composite_equal c properties keys vs =
     (if length keys \<noteq> length vs then Err (unsupported ''composite equality tuple arity mismatch'')
      else and_then (validate_pairs c (zip keys vs)) (\<lambda>_. Ok (scan_composite_equal properties keys vs)))"

section \<open>Index-backed lookups\<close>

definition st_elements_with_label :: "base_records \<Rightarrow> 'a overlay_scheme \<Rightarrow> label_id \<Rightarrow> element_id list" where
  "st_elements_with_label base ov l = ix_elements_with_label (ov_index ov) (br_index base) l"

definition st_relations_with_type :: "base_records \<Rightarrow> 'a overlay_scheme \<Rightarrow> relation_type_id \<Rightarrow> relation_id list" where
  "st_relations_with_type base ov t = ix_relations_with_type (ov_index ov) (br_index base) t"

definition st_element_incidences :: "base_records \<Rightarrow> 'a overlay_scheme \<Rightarrow> element_id \<Rightarrow> incidence_record list" where
  "st_element_incidences base ov e =
     List.map_filter (incidence_ref base ov) (ix_element_incidences (ov_index ov) (br_index base) e)"

definition st_relation_incidences :: "base_records \<Rightarrow> 'a overlay_scheme \<Rightarrow> relation_id \<Rightarrow> incidence_record list" where
  "st_relation_incidences base ov i =
     List.map_filter (incidence_ref base ov) (ix_relation_incidences (ov_index ov) (br_index base) i)"

definition st_property_equal ::
    "base_records \<Rightarrow> 'a overlay_scheme \<Rightarrow> property_key_id \<Rightarrow> property_value \<Rightarrow> property_subject list" where
  "st_property_equal base ov key v = ix_property_equal (ov_index ov) (br_index base) key v"

definition st_property_range ::
    "base_records \<Rightarrow> 'a overlay_scheme \<Rightarrow> property_key_id \<Rightarrow> property_value \<Rightarrow> property_value \<Rightarrow> property_subject list" where
  "st_property_range base ov key lo hi = ix_property_range (ov_index ov) (br_index base) key lo hi"

definition st_property_key_subjects ::
    "base_records \<Rightarrow> 'a overlay_scheme \<Rightarrow> property_key_id \<Rightarrow> (property_subject \<times> property_value) list" where
  "st_property_key_subjects base ov key = ix_property_key_subjects (ov_index ov) (br_index base) key"

definition st_composite_equal ::
    "base_records \<Rightarrow> 'a overlay_scheme \<Rightarrow> property_key_id list \<Rightarrow> property_value list \<Rightarrow> (db_error, property_subject list) result" where
  "st_composite_equal base ov keys vs =
     (if length keys \<noteq> length vs then Err (unsupported ''composite equality tuple arity mismatch'')
      else and_then (validate_pairs (ov_catalog ov) (zip keys vs)) (\<lambda>_.
        Ok (ix_property_composite_equal (ov_index ov) (br_index base) (zip keys vs))))"

lemmas st_lookup_defs = st_elements_with_label_def st_relations_with_type_def st_element_incidences_def
  st_relation_incidences_def st_property_equal_def st_property_range_def st_property_key_subjects_def

end
