(* ===== verification/DbView.thy ===== *)
theory DbView
  imports DbState
begin

text \<open>
  The graph a view shows, as plain functions from identifiers to records, and what the operations of the
  overlay do to it. The walks list it in order, and the postings an overlay keeps agree with it.
\<close>

section \<open>The graph a view shows\<close>

record graph =
  g_element :: "element_id \<Rightarrow> element_record option"
  g_relation :: "relation_id \<Rightarrow> relation_record option"
  g_incidence :: "incidence_id \<Rightarrow> incidence_record option"
  g_property :: "property_subject \<Rightarrow> property_key_id \<Rightarrow> property_value option"

definition view :: "base_records \<Rightarrow> 'a overlay_scheme \<Rightarrow> graph" where
  "view base ov = \<lparr>g_element = element_ref base ov, g_relation = relation_ref base ov,
     g_incidence = incidence_ref base ov, g_property = property_ref base ov\<rparr>"

lemma view_simps [simp]:
  "g_element (view base ov) = element_ref base ov" "g_relation (view base ov) = relation_ref base ov"
  "g_incidence (view base ov) = incidence_ref base ov" "g_property (view base ov) = property_ref base ov"
  by (simp_all add: view_def)

text \<open>A base map with a delta over it.\<close>

definition overlaid :: "('k, 'r) fmap \<Rightarrow> ('k, 'r) delta \<Rightarrow> 'k \<Rightarrow> 'r option" where
  "overlaid base ov i = (case fmlookup ov i of Some entry \<Rightarrow> entry | None \<Rightarrow> fmlookup base i)"

lemma overlaid_upd [simp]: "overlaid base (fmupd i entry ov) = (overlaid base ov)(i := entry)"
  by (rule ext) (simp add: overlaid_def)

lemma overlaid_empty [simp]: "overlaid base fmempty = fmlookup base"
  by (rule ext) (simp add: overlaid_def)

lemma ref_overlaid:
  "element_ref base ov = overlaid (br_elements base) (ov_elements ov)"
  "relation_ref base ov = overlaid (br_relations base) (ov_relations ov)"
  "incidence_ref base ov = overlaid (br_incidences base) (ov_incidences ov)"
  by (rule ext; simp add: element_ref_def relation_ref_def incidence_ref_def overlaid_def base_reads split: option.split)+

definition overlaid_property ::
    "(property_subject, (property_key_id, property_value) fmap) fmap \<Rightarrow> (property_subject, subject_delta) fmap
     \<Rightarrow> property_subject \<Rightarrow> property_key_id \<Rightarrow> property_value option" where
  "overlaid_property base ov s k =
     (case Option.bind (fmlookup ov s) (\<lambda>keys. fmlookup keys k) of
        Some entry \<Rightarrow> entry
      | None \<Rightarrow> Option.bind (fmlookup base s) (\<lambda>keys. fmlookup keys k))"

lemma property_ref_overlaid: "property_ref base ov = overlaid_property (br_properties base) (ov_properties ov)"
  by (rule ext, rule ext) (simp add: property_ref_def overlaid_property_def base_property_def split: option.split)

lemmas refs_overlaid = ref_overlaid property_ref_overlaid

lemma visible_property_in_ref: "visible_property_in (ov_properties ov) base s k = property_ref base ov s k"
  by (simp add: visible_property_in_def property_ref_def split: option.split)

lemma visible_property_is_ref: "visible_property_is w base s k v \<longleftrightarrow> property_ref base w s k = Some v"
  by (simp add: visible_property_is_def property_ref_def split: option.split)

lemma visible_incidence_ref: "visible_incidence w base i = incidence_ref base w i"
  by (simp add: visible_incidence_def incidence_ref_def)

lemma visible_element_labels_ref:
  "visible_element_labels w base e = (case element_ref base w e of Some r \<Rightarrow> er_labels r | None \<Rightarrow> {||})"
  by (simp add: visible_element_labels_def element_ref_def split: option.split)

lemma visible_relation_type_ref:
  "visible_relation_type w base r = Option.bind (relation_ref base w r) rr_relation_type"
  by (simp add: visible_relation_type_def relation_ref_def split: option.split)

lemmas visible_refs = visible_property_in_ref visible_property_is_ref visible_incidence_ref
  visible_element_labels_ref visible_relation_type_ref

text \<open>A subject's visible properties as one map.\<close>

lemma fold_upd_sorted:
  "fmlookup (fold (\<lambda>(k, v). fmupd k v) (sorted_list_of_fmap m) z) k =
     (case fmlookup m k of Some v \<Rightarrow> Some v | None \<Rightarrow> fmlookup z k)"
proof -
  have "fmlookup (fold (\<lambda>(k, v). fmupd k v) xs z) k =
      (case map_of xs k of Some v \<Rightarrow> Some v | None \<Rightarrow> fmlookup z k)" if "distinct (map fst xs)" for xs
    using that
  proof (induction xs arbitrary: z)
    case (Cons x xs)
    obtain j v where x: "x = (j, v)" by (cases x)
    have "map_of xs j = None" using Cons.prems x by (simp add: map_of_eq_None_iff)
    then show ?case using Cons x by (auto split: option.split)
  qed simp
  moreover have "map_of (sorted_list_of_fmap m) = fmlookup m" by simp
  ultimately show ?thesis by simp
qed

lemma fold_entries_sorted:
  "fmlookup (fold (\<lambda>(k, entry). case entry of Some v \<Rightarrow> fmupd k v | None \<Rightarrow> fmdrop k) (sorted_list_of_fmap m) z) k =
     (case fmlookup m k of Some entry \<Rightarrow> entry | None \<Rightarrow> fmlookup z k)"
proof -
  have "fmlookup (fold (\<lambda>(k, entry). case entry of Some v \<Rightarrow> fmupd k v | None \<Rightarrow> fmdrop k) xs z) k =
      (case map_of xs k of Some entry \<Rightarrow> entry | None \<Rightarrow> fmlookup z k)" if "distinct (map fst xs)" for xs
    using that
  proof (induction xs arbitrary: z)
    case (Cons x xs)
    obtain j entry where x: "x = (j, entry)" by (cases x)
    have "map_of xs j = None" using Cons.prems x by (simp add: map_of_eq_None_iff)
    then show ?case using Cons x by (cases entry) (auto split: option.split)
  qed simp
  moreover have "map_of (sorted_list_of_fmap m) = fmlookup m" by simp
  ultimately show ?thesis by simp
qed

lemma lookup_visible_subject_properties:
  "fmlookup (visible_subject_properties_in (ov_properties ov) base s) k = property_ref base ov s k"
  by (simp add: visible_subject_properties_in_def property_ref_def base_property_def fold_upd_sorted
      fold_entries_sorted split: option.split)

lemma in_subject_properties:
  "(k, v) \<in> set (subject_properties base ov s) \<longleftrightarrow> property_ref base ov s k = Some v"
  by (simp add: subject_properties_def set_sorted_list_of_fmap property_ref_def base_property_def
      fold_entries_sorted split: option.split)

section \<open>The walks list the graph in order\<close>

definition keyed :: "('r \<Rightarrow> 'k) \<Rightarrow> ('k, 'r) fmap \<Rightarrow> bool" where
  "keyed rid m \<longleftrightarrow> (\<forall>i r. fmlookup m i = Some r \<longrightarrow> rid r = i)"

definition keyed_delta :: "('r \<Rightarrow> 'k) \<Rightarrow> ('k, 'r) delta \<Rightarrow> bool" where
  "keyed_delta rid m \<longleftrightarrow> (\<forall>i r. fmlookup m i = Some (Some r) \<longrightarrow> rid r = i)"

lemma keyed_empty [simp]: "keyed rid fmempty" "keyed_delta rid fmempty"
  by (simp_all add: keyed_def keyed_delta_def)

lemma keyed_delta_upd [simp]: "keyed_delta rid m \<Longrightarrow> keyed_delta rid (fmupd i None m)"
  by (simp add: keyed_delta_def)

lemma keyed_delta_upd_Some: "keyed_delta rid m \<Longrightarrow> rid r = i \<Longrightarrow> keyed_delta rid (fmupd i (Some r) m)"
  by (simp add: keyed_delta_def)

lemma overlaid_keyed: "keyed rid base \<Longrightarrow> keyed_delta rid ov \<Longrightarrow> overlaid base ov i = Some r \<Longrightarrow> rid r = i"
  by (auto simp: overlaid_def keyed_def keyed_delta_def split: option.splits)

lemma strict_sorted_fset: "sorted_wrt (<) (sorted_list_of_fset s)"
  by (simp add: sorted_list_of_fset.rep_eq)

lemma keyed_values: "keyed rid base \<Longrightarrow> map rid (fmap_values base) = sorted_list_of_fset (fmdom base)"
proof -
  assume keyed: "keyed rid base"
  have "map rid (fmap_values base) = map fst (sorted_list_of_fmap base)"
    unfolding fmap_values_def map_map
    using keyed by (intro map_cong) (auto simp: keyed_def set_sorted_list_of_fmap)
  then show ?thesis by simp
qed

lemma merge_walk_records:
  assumes "keyed rid base" "keyed_delta rid ov"
  shows "r \<in> set (merge_walk rid (merge_iter_new base ov)) \<longleftrightarrow> overlaid base ov (rid r) = Some r"
    and "sorted_wrt (<) (map rid (merge_walk rid (merge_iter_new base ov)))"
proof -
  have sorted: "sorted_wrt (<) (map rid (fmap_values base))" "sorted_wrt (<) (map fst (sorted_list_of_fmap ov))"
    by (simp_all add: keyed_values [OF assms(1)] strict_sorted_fset)
  have dom: "fst ` set (sorted_list_of_fmap ov) = {i. fmlookup ov i \<noteq> None}"
    by (metis fmdom.rep_eq fset_of_list.rep_eq keys_sorted_list_of_fmap list.set_map dom_def sorted_list_of_fset_simps(1))
  have base: "(\<exists>i. fmlookup base i = Some r) \<longleftrightarrow> fmlookup base (rid r) = Some r"
    using assms(1) unfolding keyed_def by metis
  have ov: "(\<exists>i. fmlookup ov i = Some (Some r)) \<longleftrightarrow> fmlookup ov (rid r) = Some (Some r)"
    using assms(2) unfolding keyed_delta_def by metis
  show "r \<in> set (merge_walk rid (merge_iter_new base ov)) \<longleftrightarrow> overlaid base ov (rid r) = Some r"
    unfolding merge_iter_new_def in_merge_walk [OF sorted] dom set_sorted_list_of_fmap in_fmap_values base ov
    by (simp add: overlaid_def split: option.split)
  show "sorted_wrt (<) (map rid (merge_walk rid (merge_iter_new base ov)))"
    unfolding merge_iter_new_def
    by (rule sorted_merge_walk [OF sorted]) (use assms(2) in \<open>simp add: set_sorted_list_of_fmap keyed_delta_def\<close>)
qed

text \<open>The flattened property maps ascend by subject and key.\<close>

lemma sorted_wrt_concat_blocks:
  assumes "sorted_wrt (<) (map fst bs)" and "\<And>b. b \<in> set bs \<Longrightarrow> sorted_wrt (<) (map fst (snd b))"
  shows "sorted_wrt (<) (concat (map (\<lambda>(s :: 's::linorder, ks). map (\<lambda>(k :: 'k::linorder, v). (s, k)) ks) bs))"
  using assms
proof (induction bs)
  case (Cons b bs)
  obtain s ks where b: "b = (s, ks)" by (cases b)
  have "sorted_wrt (<) (map fst ks)" using Cons.prems(2) [of b] b by simp
  then have "sorted_wrt (<) (map (\<lambda>(k, v). (s, k)) ks)"
    by (simp add: sorted_wrt_map case_prod_unfold less_prod_def)
  moreover have "p < q" if "p \<in> set (map (\<lambda>(k, v). (s, k)) ks)"
    "q \<in> set (concat (map (\<lambda>(s, ks). map (\<lambda>(k, v). (s, k)) ks) bs))" for p q
    using that Cons.prems(1) b by (fastforce simp: less_prod_def)
  moreover have "sorted_wrt (<) (concat (map (\<lambda>(s, ks). map (\<lambda>(k, v). (s, k)) ks) bs))"
    using Cons by simp
  ultimately show ?case using b by (simp add: sorted_wrt_append)
qed simp

lemma flatten_properties_sorted:
  "sorted_wrt (<) (map (\<lambda>(s, k, v). (s, k)) (flatten_properties m))"
proof -
  have "map (\<lambda>(s, k, v). (s, k)) (flatten_properties m) =
      concat (map (\<lambda>(s, ks). map (\<lambda>(k, v). (s, k)) ks) (map (apsnd sorted_list_of_fmap) (sorted_list_of_fmap m)))"
    by (simp add: flatten_properties_def map_concat comp_def case_prod_unfold)
  moreover have "map fst (map (apsnd sorted_list_of_fmap) (sorted_list_of_fmap m)) = sorted_list_of_fset (fmdom m)"
    using keys_sorted_list_of_fmap [of m] by (simp add: comp_def)
  ultimately show ?thesis
    by (simp only:) (rule sorted_wrt_concat_blocks; force simp: strict_sorted_fset)
qed

lemma property_ref_lookup:
  "property_ref base ov s k =
     (case Option.bind (fmlookup (ov_properties ov) s) (\<lambda>keys. fmlookup keys k) of
        Some entry \<Rightarrow> entry
      | None \<Rightarrow> Option.bind (fmlookup (br_properties base) s) (\<lambda>keys. fmlookup keys k))"
  by (simp add: property_ref_def base_property_def split: option.split)

lemma bind_lookup_iff:
  "(\<exists>keys. fmlookup m s = Some keys \<and> fmlookup keys k = Some v) \<longleftrightarrow>
     Option.bind (fmlookup m s) (\<lambda>keys. fmlookup keys k) = Some v"
  by (cases "fmlookup m s") simp_all

lemma st_properties_walk:
  "st_properties base ov =
     merge_walk pm_key (flatten_properties (br_properties base), map pm_entry (flatten_properties (ov_properties ov)))"
  by (simp add: st_properties_def pm_walk_refines pm_rest_def property_merge_iter_new_def)

lemma in_pm_entries:
  "(p, x) \<in> pm_entry ` A \<longleftrightarrow> (\<exists>s k e. (s, k, e) \<in> A \<and> p = (s, k) \<and> map_option (\<lambda>v. (s, k, v)) e = x)"
proof
  assume "(p, x) \<in> pm_entry ` A"
  then obtain t where "t \<in> A" "(p, x) = pm_entry t" by (rule imageE)
  then show "\<exists>s k e. (s, k, e) \<in> A \<and> p = (s, k) \<and> map_option (\<lambda>v. (s, k, v)) e = x"
    by (cases t) (auto simp: pm_entry_def)
next
  assume "\<exists>s k e. (s, k, e) \<in> A \<and> p = (s, k) \<and> map_option (\<lambda>v. (s, k, v)) e = x"
  then obtain s k e where "(s, k, e) \<in> A" "(p, x) = pm_entry (s, k, e)" by (auto simp: pm_entry_def)
  then show "(p, x) \<in> pm_entry ` A" by (rule image_eqI [rotated])
qed

lemma st_properties_records:
  "(s, k, v) \<in> set (st_properties base ov) \<longleftrightarrow> property_ref base ov s k = Some v"
  "sorted_wrt (<) (map pm_key (st_properties base ov))"
proof -
  let ?bs = "flatten_properties (br_properties base)" and ?ov = "map pm_entry (flatten_properties (ov_properties ov))"
  have keys: "map pm_key ?bs = map (\<lambda>(s, k, v). (s, k)) ?bs"
      "map fst ?ov = map (\<lambda>(s, k, v). (s, k)) (flatten_properties (ov_properties ov))"
    by (simp_all add: pm_key_def pm_entry_def case_prod_unfold)
  have sorted: "sorted_wrt (<) (map pm_key ?bs)" "sorted_wrt (<) (map fst ?ov)"
    unfolding keys by (rule flatten_properties_sorted)+
  have entry: "(p, Some (s, k, v)) \<in> set ?ov \<longleftrightarrow> p = (s, k) \<and> (s, k, Some v) \<in> set (flatten_properties (ov_properties ov))"
    for p s k v unfolding set_map in_pm_entries by auto
  have "(s, k) \<in> fst ` set ?ov \<longleftrightarrow> (\<exists>x. ((s, k), x) \<in> set ?ov)" for s k
    by (metis (no_types, lifting) fst_conv image_iff prod.collapse)
  then have "(s, k) \<in> fst ` set ?ov \<longleftrightarrow> (\<exists>entry. (s, k, entry) \<in> set (flatten_properties (ov_properties ov)))" for s k
    unfolding set_map in_pm_entries by auto
  then have dom: "(s, k) \<in> fst ` set ?ov \<longleftrightarrow>
      Option.bind (fmlookup (ov_properties ov) s) (\<lambda>keys. fmlookup keys k) \<noteq> None" for s k
    unfolding in_flatten_properties bind_lookup_iff by auto
  have key: "pm_key (s, k, v) = (s, k)" by (simp add: pm_key_def)
  show "(s, k, v) \<in> set (st_properties base ov) \<longleftrightarrow> property_ref base ov s k = Some v"
    unfolding st_properties_walk in_merge_walk [OF sorted] key dom entry in_flatten_properties bind_lookup_iff
    by (auto simp: property_ref_lookup split: option.splits)
  show "sorted_wrt (<) (map pm_key (st_properties base ov))"
    unfolding st_properties_walk
    by (rule sorted_merge_walk [OF sorted], unfold set_map in_pm_entries) (auto simp: pm_key_def)
qed

text \<open>Triples under one key differ in the subject.\<close>

lemma one_key_ascends:
  assumes "sorted_wrt (<) (map pm_key ts)" and "\<forall>t \<in> set ts. P t \<longrightarrow> fst (snd t) = key"
  shows "sorted_wrt (<) (map fst (filter P ts))"
  using assms
proof (induction ts)
  case (Cons t ts)
  have "fst t < fst u" if "P t" "u \<in> set ts" "P u" for u
  proof -
    have "pm_key t < pm_key u" using Cons.prems(1) that(2) by simp
    moreover have "fst (snd t) = key" "fst (snd u) = key" using Cons.prems(2) that by auto
    ultimately show ?thesis by (cases t; cases u) (auto simp: less_prod_def pm_key_def)
  qed
  then show ?case using Cons by auto
qed simp

text \<open>The triples grouped by their subject.\<close>

lemma properties_by_subject_snoc:
  "properties_by_subject (ts @ [(s, k, v)]) =
     fmupd s (fmupd k v (case fmlookup (properties_by_subject ts) s of Some keys \<Rightarrow> keys | None \<Rightarrow> fmempty))
       (properties_by_subject ts)"
  by (simp add: properties_by_subject_def)

lemma lookup_properties_by_subject:
  assumes "distinct (map pm_key ts)"
  shows "(\<exists>keys. fmlookup (properties_by_subject ts) s = Some keys \<and> fmlookup keys k = Some v) \<longleftrightarrow> (s, k, v) \<in> set ts"
    and "(\<exists>keys. fmlookup (properties_by_subject ts) s = Some keys) \<longleftrightarrow> (\<exists>k v. (s, k, v) \<in> set ts)"
  using assms
proof (induction ts arbitrary: s k v rule: rev_induct)
  case Nil
  { case 1 show ?case by (simp add: properties_by_subject_def) }
  { case 2 show ?case by (simp add: properties_by_subject_def) }
next
  case (snoc t ts)
  obtain s' k' v' where t: "t = (s', k', v')" by (cases t)
  { case 1
    then have fresh: "(s', k', w) \<notin> set ts" for w by (force simp: t pm_key_def)
    show ?case
    proof (cases "s = s'")
      case True
      then show ?thesis
        using snoc.IH(1) [of s k v] snoc.IH(1) [of s' k' v] 1 fresh
        by (auto simp: t properties_by_subject_snoc split: option.splits)
    next
      case False
      then show ?thesis using snoc.IH(1) [of s k v] 1 by (auto simp: t properties_by_subject_snoc)
    qed }
  { case 2
    then show ?case using snoc.IH(2) [of s] by (auto simp: t properties_by_subject_snoc) }
qed

lemma scan_composite_equal_filter:
  "scan_composite_equal ts keys vs =
     map fst (filter (\<lambda>(s, m). list_all (\<lambda>(k, v). fmlookup m k = Some v) (zip keys vs))
       (sorted_list_of_fmap (properties_by_subject ts)))"
proof -
  have "List.map_filter (\<lambda>(s, m). if P m then Some s else None) xs = map fst (filter (\<lambda>(s, m). P m) xs)" for P and xs :: "('s \<times> 'm) list"
    by (induction xs) (auto simp: map_filter_simps)
  then show ?thesis unfolding scan_composite_equal_def .
qed

lemma in_scan_composite_equal:
  assumes "distinct (map pm_key ts)"
  shows "s \<in> set (scan_composite_equal ts keys vs) \<longleftrightarrow>
     (\<exists>k v. (s, k, v) \<in> set ts) \<and> (\<forall>(k, v) \<in> set (zip keys vs). (s, k, v) \<in> set ts)"
proof -
  let ?grouped = "properties_by_subject ts"
  have "s \<in> set (scan_composite_equal ts keys vs) \<longleftrightarrow>
      (\<exists>m. fmlookup ?grouped s = Some m \<and> (\<forall>(k, v) \<in> set (zip keys vs). fmlookup m k = Some v))"
    unfolding scan_composite_equal_filter set_map set_filter
    by (force simp: list_all_iff set_sorted_list_of_fmap [symmetric])
  also have "\<dots> \<longleftrightarrow> (\<exists>m. fmlookup ?grouped s = Some m) \<and>
      (\<forall>(k, v) \<in> set (zip keys vs). \<exists>m. fmlookup ?grouped s = Some m \<and> fmlookup m k = Some v)"
    by (cases "fmlookup ?grouped s") auto
  finally show ?thesis unfolding lookup_properties_by_subject [OF assms] .
qed

lemma scan_composite_equal_ascends: "sorted_wrt (<) (scan_composite_equal ts keys vs)"
proof -
  have "sorted_wrt (<) (map fst (sorted_list_of_fmap (properties_by_subject ts)))"
    unfolding keys_sorted_list_of_fmap by (rule strict_sorted_fset)
  then show ?thesis unfolding scan_composite_equal_filter sorted_wrt_map by (rule sorted_wrt_filter)
qed

section \<open>The contract of a read surface\<close>

text \<open>
  A view walks its records in ascending order of their identifiers, each exactly when its point read finds it.
\<close>

locale state_view =
  fixes valid :: "'st \<Rightarrow> bool"
    and graph_of :: "'st \<Rightarrow> graph"
    and elements :: "'st \<Rightarrow> element_record list"
    and relations :: "'st \<Rightarrow> relation_record list"
    and incidences :: "'st \<Rightarrow> incidence_record list"
    and properties :: "'st \<Rightarrow> property_triple list"
  assumes in_elements: "valid st \<Longrightarrow> r \<in> set (elements st) \<longleftrightarrow> g_element (graph_of st) (er_id r) = Some r"
    and in_relations: "valid st \<Longrightarrow> q \<in> set (relations st) \<longleftrightarrow> g_relation (graph_of st) (rr_id q) = Some q"
    and in_incidences: "valid st \<Longrightarrow> n \<in> set (incidences st) \<longleftrightarrow> g_incidence (graph_of st) (ir_id n) = Some n"
    and in_properties: "valid st \<Longrightarrow> (s, k, v) \<in> set (properties st) \<longleftrightarrow> g_property (graph_of st) s k = Some v"
    and elements_ascend: "valid st \<Longrightarrow> sorted_wrt (<) (map er_id (elements st))"
    and relations_ascend: "valid st \<Longrightarrow> sorted_wrt (<) (map rr_id (relations st))"
    and incidences_ascend: "valid st \<Longrightarrow> sorted_wrt (<) (map ir_id (incidences st))"
    and properties_ascend: "valid st \<Longrightarrow> sorted_wrt (<) (map pm_key (properties st))"
    and element_keyed: "valid st \<Longrightarrow> g_element (graph_of st) i = Some r \<Longrightarrow> er_id r = i"
    and relation_keyed: "valid st \<Longrightarrow> g_relation (graph_of st) i = Some q \<Longrightarrow> rr_id q = i"
    and incidence_keyed: "valid st \<Longrightarrow> g_incidence (graph_of st) i = Some n \<Longrightarrow> ir_id n = i"
begin

lemma in_scan_elements_with_label:
  "valid st \<Longrightarrow> i \<in> set (scan_elements_with_label (elements st) l) \<longleftrightarrow>
     (\<exists>r. g_element (graph_of st) i = Some r \<and> l |\<in>| er_labels r)"
  by (auto simp: scan_elements_with_label_def in_elements image_iff dest: element_keyed)

lemma in_scan_relations_with_type:
  "valid st \<Longrightarrow> i \<in> set (scan_relations_with_type (relations st) t) \<longleftrightarrow>
     (\<exists>r. g_relation (graph_of st) i = Some r \<and> rr_relation_type r = Some t)"
  by (auto simp: scan_relations_with_type_def in_relations image_iff dest: relation_keyed)

lemma in_scan_property_equal:
  "valid st \<Longrightarrow> s \<in> set (scan_property_equal (properties st) k v) \<longleftrightarrow> g_property (graph_of st) s k = Some v"
  by (force simp: scan_property_equal_def in_properties [symmetric])

lemma in_scan_property_range:
  "valid st \<Longrightarrow> s \<in> set (scan_property_range (properties st) k lo hi) \<longleftrightarrow>
     (\<exists>v. g_property (graph_of st) s k = Some v \<and> lo \<le> v \<and> v \<le> hi)"
  by (force simp: scan_property_range_def in_properties [symmetric])

lemma in_scan_element_incidences:
  "valid st \<Longrightarrow> n \<in> set (scan_element_incidences (incidences st) e) \<longleftrightarrow>
     g_incidence (graph_of st) (ir_id n) = Some n \<and> ir_element n = e"
  by (auto simp: scan_element_incidences_def in_incidences)

lemma in_scan_relation_incidences:
  "valid st \<Longrightarrow> n \<in> set (scan_relation_incidences (incidences st) e) \<longleftrightarrow>
     g_incidence (graph_of st) (ir_id n) = Some n \<and> ir_relation n = e"
  by (auto simp: scan_relation_incidences_def in_incidences)

text \<open>A scan keeps the order of the walk.\<close>

lemma scans_ascend:
  assumes "valid st"
  shows "sorted_wrt (<) (scan_elements_with_label (elements st) l)"
    and "sorted_wrt (<) (scan_relations_with_type (relations st) t)"
    and "sorted_wrt (<) (map ir_id (scan_element_incidences (incidences st) e))"
    and "sorted_wrt (<) (map ir_id (scan_relation_incidences (incidences st) q))"
  using elements_ascend [OF assms] relations_ascend [OF assms] incidences_ascend [OF assms]
  by (auto simp: scan_defs sorted_wrt_map intro: sorted_wrt_filter)

lemma property_scans_ascend:
  assumes "valid st"
  shows "sorted_wrt (<) (scan_property_equal (properties st) k v)"
    and "sorted_wrt (<) (scan_property_range (properties st) k lo hi)"
  unfolding scan_defs
  by (rule one_key_ascends [OF properties_ascend [OF assms], of _ k], simp split: prod.split)+

lemma in_scan_composite:
  assumes "valid st" and "length keys = length vs" and "keys \<noteq> []"
  shows "s \<in> set (scan_composite_equal (properties st) keys vs) \<longleftrightarrow>
     (\<forall>(k, v) \<in> set (zip keys vs). g_property (graph_of st) s k = Some v)"
proof -
  have "distinct (map pm_key (properties st))"
    using properties_ascend [OF assms(1)] by (simp add: strict_sorted_iff)
  moreover from assms(2,3) obtain k v where "(k, v) \<in> set (zip keys vs)" by (cases keys; cases vs) auto
  ultimately show ?thesis by (fastforce simp: in_scan_composite_equal in_properties [OF assms(1)])
qed

end

text \<open>
  An indexed view also answers the membership and property lookups from its postings. Its contract names what
  they hold; the client lemmas say each lookup returns what the scan over the full walk returns.
\<close>

locale indexed_view = state_view +
  fixes with_label :: "'a \<Rightarrow> label_id \<Rightarrow> element_id list"
    and with_type :: "'a \<Rightarrow> relation_type_id \<Rightarrow> relation_id list"
    and at_element :: "'a \<Rightarrow> element_id \<Rightarrow> incidence_record list"
    and at_relation :: "'a \<Rightarrow> relation_id \<Rightarrow> incidence_record list"
    and equal_to :: "'a \<Rightarrow> property_key_id \<Rightarrow> property_value \<Rightarrow> property_subject list"
    and in_range :: "'a \<Rightarrow> property_key_id \<Rightarrow> property_value \<Rightarrow> property_value \<Rightarrow> property_subject list"
    and matching :: "'a \<Rightarrow> (property_key_id \<times> property_value) list \<Rightarrow> property_subject list"
  assumes in_with_label: "valid st \<Longrightarrow> i \<in> set (with_label st l) \<longleftrightarrow>
      (\<exists>r. g_element (graph_of st) i = Some r \<and> l |\<in>| er_labels r)"
    and in_with_type: "valid st \<Longrightarrow> i \<in> set (with_type st t) \<longleftrightarrow>
      (\<exists>r. g_relation (graph_of st) i = Some r \<and> rr_relation_type r = Some t)"
    and in_at_element: "valid st \<Longrightarrow> n \<in> set (at_element st e) \<longleftrightarrow>
      g_incidence (graph_of st) (ir_id n) = Some n \<and> ir_element n = e"
    and in_at_relation: "valid st \<Longrightarrow> n \<in> set (at_relation st q) \<longleftrightarrow>
      g_incidence (graph_of st) (ir_id n) = Some n \<and> ir_relation n = q"
    and in_equal_to: "valid st \<Longrightarrow> s \<in> set (equal_to st k v) \<longleftrightarrow> g_property (graph_of st) s k = Some v"
    and in_in_range: "valid st \<Longrightarrow> s \<in> set (in_range st k lo hi) \<longleftrightarrow>
      (\<exists>v. g_property (graph_of st) s k = Some v \<and> lo \<le> v \<and> v \<le> hi)"
    and in_matching: "valid st \<Longrightarrow> pairs \<noteq> [] \<Longrightarrow> s \<in> set (matching st pairs) \<longleftrightarrow>
      (\<forall>(k, v) \<in> set pairs. g_property (graph_of st) s k = Some v)"
    and lookups_ascend: "valid st \<Longrightarrow> sorted_wrt (<) (with_label st l)" "valid st \<Longrightarrow> sorted_wrt (<) (with_type st t)"
      "valid st \<Longrightarrow> sorted_wrt (<) (map ir_id (at_element st e))"
      "valid st \<Longrightarrow> sorted_wrt (<) (map ir_id (at_relation st q))"
      "valid st \<Longrightarrow> sorted_wrt (<) (equal_to st k v)" "valid st \<Longrightarrow> sorted_wrt (<) (in_range st k lo hi)"
      "valid st \<Longrightarrow> sorted_wrt (<) (matching st pairs)"
begin

lemma ascending_eq: "sorted_wrt (<) xs \<Longrightarrow> sorted_wrt (<) ys \<Longrightarrow> set xs = set ys \<Longrightarrow> xs = (ys :: 'x::linorder list)"
  by (rule strict_sorted_equal)

lemma ascending_records_eq:
  fixes f :: "'x \<Rightarrow> 'y::linorder"
  assumes "sorted_wrt (<) (map f xs)" "sorted_wrt (<) (map f ys)" "set xs = set ys"
  shows "xs = ys"
proof -
  have "map f xs = map f ys" using assms by (intro ascending_eq) auto
  moreover have "inj_on f (set xs \<union> set ys)"
    using assms(1,3) by (simp add: strict_sorted_iff distinct_map)
  ultimately show ?thesis by (rule map_inj_on)
qed

lemma lookups_are_scans:
  assumes "valid st"
  shows "with_label st l = scan_elements_with_label (elements st) l"
    and "with_type st t = scan_relations_with_type (relations st) t"
    and "at_element st e = scan_element_incidences (incidences st) e"
    and "at_relation st q = scan_relation_incidences (incidences st) q"
    and "equal_to st k v = scan_property_equal (properties st) k v"
    and "in_range st k lo hi = scan_property_range (properties st) k lo hi"
proof -
  note scans = scans_ascend [OF assms] property_scans_ascend [OF assms] and lookups = lookups_ascend [OF assms]
  show "with_label st l = scan_elements_with_label (elements st) l"
    using assms by (intro ascending_eq scans lookups) (auto simp: in_with_label in_scan_elements_with_label)
  show "with_type st t = scan_relations_with_type (relations st) t"
    using assms by (intro ascending_eq scans lookups) (auto simp: in_with_type in_scan_relations_with_type)
  show "at_element st e = scan_element_incidences (incidences st) e"
    using assms by (intro ascending_records_eq [where f = ir_id] scans lookups) (auto simp: in_at_element in_scan_element_incidences)
  show "at_relation st q = scan_relation_incidences (incidences st) q"
    using assms by (intro ascending_records_eq [where f = ir_id] scans lookups) (auto simp: in_at_relation in_scan_relation_incidences)
  show "equal_to st k v = scan_property_equal (properties st) k v"
    using assms by (intro ascending_eq scans lookups) (auto simp: in_equal_to in_scan_property_equal)
  show "in_range st k lo hi = scan_property_range (properties st) k lo hi"
    using assms by (intro ascending_eq scans lookups) (auto simp: in_in_range in_scan_property_range)
qed

lemma matching_is_scan:
  assumes "valid st" and "length keys = length vs" and "keys \<noteq> []"
  shows "matching st (zip keys vs) = scan_composite_equal (properties st) keys vs"
proof (rule ascending_eq)
  show "sorted_wrt (<) (matching st (zip keys vs))" using assms(1) by (rule lookups_ascend)
  show "sorted_wrt (<) (scan_composite_equal (properties st) keys vs)" by (rule scan_composite_equal_ascends)
  have "zip keys vs \<noteq> []" using assms(2,3) by (cases keys; cases vs) auto
  then show "set (matching st (zip keys vs)) = set (scan_composite_equal (properties st) keys vs)"
    using assms by (auto simp: in_matching in_scan_composite)
qed

end

end
