(* ===== verification/DbAgree.thy ===== *)
theory DbAgree
  imports DbView
begin

text \<open>
  What each operation of the overlay does to the graph it shows, and that the postings it keeps go on
  agreeing with that graph.
\<close>

section \<open>Operations on the graph\<close>

definition g_put_element :: "element_record \<Rightarrow> graph \<Rightarrow> graph" where
  "g_put_element r g = g\<lparr>g_element := (g_element g)(er_id r \<mapsto> r)\<rparr>"

definition g_put_relation :: "relation_record \<Rightarrow> graph \<Rightarrow> graph" where
  "g_put_relation r g = g\<lparr>g_relation := (g_relation g)(rr_id r \<mapsto> r)\<rparr>"

definition g_put_incidence :: "incidence_record \<Rightarrow> graph \<Rightarrow> graph" where
  "g_put_incidence r g = g\<lparr>g_incidence := (g_incidence g)(ir_id r \<mapsto> r)\<rparr>"

definition g_drop_element :: "element_id \<Rightarrow> graph \<Rightarrow> graph" where
  "g_drop_element i g =
     g\<lparr>g_element := (g_element g)(i := None), g_property := (g_property g)(Element i := Map.empty)\<rparr>"

definition g_drop_relation :: "relation_id \<Rightarrow> graph \<Rightarrow> graph" where
  "g_drop_relation i g =
     g\<lparr>g_relation := (g_relation g)(i := None), g_property := (g_property g)(Relation i := Map.empty)\<rparr>"

definition g_drop_incidence :: "incidence_id \<Rightarrow> graph \<Rightarrow> graph" where
  "g_drop_incidence i g =
     g\<lparr>g_incidence := (g_incidence g)(i := None), g_property := (g_property g)(Incidence i := Map.empty)\<rparr>"

definition g_label_element :: "element_id \<Rightarrow> label_id \<Rightarrow> graph \<Rightarrow> graph" where
  "g_label_element i l g =
     (case g_element g i of
        None \<Rightarrow> g
      | Some r \<Rightarrow> g\<lparr>g_element := (g_element g)(i \<mapsto> r\<lparr>er_labels := finsert l (er_labels r)\<rparr>)\<rparr>)"

definition g_label_relation :: "relation_id \<Rightarrow> label_id \<Rightarrow> graph \<Rightarrow> graph" where
  "g_label_relation i l g =
     (case g_relation g i of
        None \<Rightarrow> g
      | Some r \<Rightarrow> g\<lparr>g_relation := (g_relation g)(i \<mapsto> r\<lparr>rr_labels := finsert l (rr_labels r)\<rparr>)\<rparr>)"

definition g_type_relation :: "relation_id \<Rightarrow> relation_type_id \<Rightarrow> graph \<Rightarrow> graph" where
  "g_type_relation i t g =
     (case g_relation g i of
        None \<Rightarrow> g
      | Some r \<Rightarrow> g\<lparr>g_relation := (g_relation g)(i \<mapsto> r\<lparr>rr_relation_type := Some t\<rparr>)\<rparr>)"

definition g_assign :: "property_subject \<Rightarrow> property_key_id \<Rightarrow> property_value option \<Rightarrow> graph \<Rightarrow> graph" where
  "g_assign s k entry g = g\<lparr>g_property := (g_property g)(s := (g_property g s)(k := entry))\<rparr>"

lemmas g_ops = g_put_element_def g_put_relation_def g_put_incidence_def g_drop_element_def g_drop_relation_def
  g_drop_incidence_def g_label_element_def g_label_relation_def g_type_relation_def g_assign_def

section \<open>The overlay's operations refine them\<close>

text \<open>A read sees its own delta only.\<close>

lemma element_ref_other [simp]:
  "element_ref base (ov_relations_update f w) = element_ref base w"
  "element_ref base (ov_incidences_update f' w) = element_ref base w"
  "element_ref base (ov_properties_update p w) = element_ref base w"
  "element_ref base (ov_catalog_update c w) = element_ref base w"
  "element_ref base (ov_next_update n w) = element_ref base w"
  "element_ref base (ov_index_update x w) = element_ref base w"
  by (simp_all add: refs_overlaid)

lemma relation_ref_other [simp]:
  "relation_ref base (ov_elements_update f w) = relation_ref base w"
  "relation_ref base (ov_incidences_update f' w) = relation_ref base w"
  "relation_ref base (ov_properties_update p w) = relation_ref base w"
  "relation_ref base (ov_catalog_update c w) = relation_ref base w"
  "relation_ref base (ov_next_update n w) = relation_ref base w"
  "relation_ref base (ov_index_update x w) = relation_ref base w"
  by (simp_all add: refs_overlaid)

lemma incidence_ref_other [simp]:
  "incidence_ref base (ov_elements_update f w) = incidence_ref base w"
  "incidence_ref base (ov_relations_update f' w) = incidence_ref base w"
  "incidence_ref base (ov_properties_update p w) = incidence_ref base w"
  "incidence_ref base (ov_catalog_update c w) = incidence_ref base w"
  "incidence_ref base (ov_next_update n w) = incidence_ref base w"
  "incidence_ref base (ov_index_update x w) = incidence_ref base w"
  by (simp_all add: refs_overlaid)

lemma property_ref_other [simp]:
  "property_ref base (ov_elements_update f w) = property_ref base w"
  "property_ref base (ov_relations_update f' w) = property_ref base w"
  "property_ref base (ov_incidences_update g w) = property_ref base w"
  "property_ref base (ov_catalog_update c w) = property_ref base w"
  "property_ref base (ov_next_update n w) = property_ref base w"
  "property_ref base (ov_index_update x w) = property_ref base w"
  by (simp_all add: refs_overlaid)

lemma ref_log [simp]:
  "element_ref base (wo_log_update f w) = element_ref base w"
  "relation_ref base (wo_log_update f w) = relation_ref base w"
  "incidence_ref base (wo_log_update f w) = incidence_ref base w"
  "property_ref base (wo_log_update f w) = property_ref base w"
  by (simp_all add: refs_overlaid)

lemma overlaid_property_upd [simp]:
  "overlaid_property base (fmupd s (fmupd k x (case fmlookup ov s of Some m \<Rightarrow> m | None \<Rightarrow> fmempty)) ov) =
     (overlaid_property base ov)(s := (overlaid_property base ov s)(k := x))"
  by (intro ext) (auto simp: overlaid_property_def split: option.splits)

lemma fold_clear_lookup:
  fixes m :: "('k::linorder, 'v) fmap"
  shows
  "fmlookup (fold (\<lambda>(k, _). fmupd k None) (sorted_list_of_fmap m) z) k =
     (if fmlookup m k = None then fmlookup z k else Some None)"
proof -
  have "fmlookup (fold (\<lambda>(k, _). fmupd k None) xs z) k = (if k \<in> fst ` set xs then Some None else fmlookup z k)" for xs :: "('k \<times> 'v) list"
  proof (induction xs arbitrary: z)
    case (Cons x xs)
    then show ?case by (cases x) auto
  qed simp
  moreover have "k \<in> fst ` set (sorted_list_of_fmap m) \<longleftrightarrow> fmlookup m k \<noteq> None"
    by (metis fmdom_notI fmdom_notD fset_of_list.rep_eq keys_sorted_list_of_fmap list.set_map sorted_list_of_fset_simps(1))
  ultimately show ?thesis by simp
qed

lemma property_ref_tombstoned [simp]:
  "overlaid_property (br_properties base) (ov_properties (tombstone_subject_properties base s w)) =
     (overlaid_property (br_properties base) (ov_properties w))(s := Map.empty)"
  by (intro ext) (auto simp: overlaid_property_def tombstone_subject_properties_def fold_clear_lookup Let_def
      split: option.splits)

lemma tombstone_subject_properties_frame [simp]:
  "element_ref base (tombstone_subject_properties base s w) = element_ref base w"
  "relation_ref base (tombstone_subject_properties base s w) = relation_ref base w"
  "incidence_ref base (tombstone_subject_properties base s w) = incidence_ref base w"
  "ov_elements (tombstone_subject_properties base s w) = ov_elements w"
  "ov_relations (tombstone_subject_properties base s w) = ov_relations w"
  "ov_incidences (tombstone_subject_properties base s w) = ov_incidences w"
  "ov_catalog (tombstone_subject_properties base s w) = ov_catalog w"
  "ov_next (tombstone_subject_properties base s w) = ov_next w"
  "ov_index (tombstone_subject_properties base s w) = ov_index w"
  "wo_log (tombstone_subject_properties base s w) = wo_log w"
  by (simp_all add: tombstone_subject_properties_def Let_def split: option.split)

lemma labelled_slot:
  "(case fmlookup (ov_elements w) e of Some slot \<Rightarrow> slot | None \<Rightarrow> base_element base e) = element_ref base w e"
  "(case fmlookup (ov_relations w) i of Some slot \<Rightarrow> slot | None \<Rightarrow> base_relation base i) = relation_ref base w i"
  by (simp_all add: element_ref_def relation_ref_def split: option.split)

lemma view_eqI:
  assumes "element_ref base ov = g_element g" "relation_ref base ov = g_relation g"
    "incidence_ref base ov = g_incidence g" "property_ref base ov = g_property g"
  shows "view base ov = g"
  using assms by (cases g) (simp add: view_def)

lemma view_inner:
  "view base (tombstone_element_inner base e w) = g_drop_element e (view base w)"
  "view base (tombstone_relation_inner base i w) = g_drop_relation i (view base w)"
  "view base (tombstone_incidence_inner base n w) = g_drop_incidence n (view base w)"
  "view base (add_element_label_inner base e l w) = g_label_element e l (view base w)"
  "view base (add_relation_label_inner base i l w) = g_label_relation i l (view base w)"
  "view base (set_relation_type_inner base i t w) = g_type_relation i t (view base w)"
  "view base (set_property_inner base s k v w) = g_assign s k (Some v) (view base w)"
  "view base (remove_property_inner base s k w) = g_assign s k None (view base w)"
  by (rule view_eqI; simp add: inner_defs g_ops Let_def labelled_slot refs_overlaid split: option.split)+

section \<open>Postings\<close>

text \<open>What a graph makes a member of each posting, and what an index over a base holds.\<close>

record postings =
  p_label :: "label_id \<Rightarrow> element_id \<Rightarrow> bool"
  p_type :: "relation_type_id \<Rightarrow> relation_id \<Rightarrow> bool"
  p_equal :: "equality_key \<Rightarrow> property_subject \<Rightarrow> bool"
  p_element :: "element_id \<Rightarrow> incidence_id \<Rightarrow> bool"
  p_relation :: "relation_id \<Rightarrow> incidence_id \<Rightarrow> bool"

definition graph_postings :: "graph \<Rightarrow> postings" where
  "graph_postings g =
     \<lparr>p_label = (\<lambda>l e. \<exists>r. g_element g e = Some r \<and> l |\<in>| er_labels r),
      p_type = (\<lambda>t i. \<exists>r. g_relation g i = Some r \<and> rr_relation_type r = Some t),
      p_equal = (\<lambda>(k, v) s. g_property g s k = Some v),
      p_element = (\<lambda>e n. \<exists>r. g_incidence g n = Some r \<and> ir_element r = e),
      p_relation = (\<lambda>i n. \<exists>r. g_incidence g n = Some r \<and> ir_relation r = i)\<rparr>"

definition base_postings :: "base_records \<Rightarrow> owned_base_index" where
  "base_postings base = from_records (br_elements base) (br_relations base) (br_incidences base) (br_properties base)"

definition index_postings :: "owned_base_index \<Rightarrow> overlay_index \<Rightarrow> postings" where
  "index_postings ow ix =
     \<lparr>p_label = (\<lambda>l e. e |\<in>| merged (ob_label_members ow) (oi_label_added ix) (oi_label_removed ix) l),
      p_type = (\<lambda>t i. i |\<in>| merged (ob_relation_type_members ow) (oi_relation_type_added ix) (oi_relation_type_removed ix) t),
      p_equal = (\<lambda>p s. s |\<in>| merged (ob_property_equality ow) (oi_equality_added ix) (oi_equality_removed ix) p),
      p_element = (\<lambda>e n. n |\<in>| merged (ob_element_incidences ow) (oi_element_incidence_added ix) (oi_element_incidence_removed ix) e),
      p_relation = (\<lambda>i n. n |\<in>| merged (ob_relation_incidences ow) (oi_relation_incidence_added ix) (oi_relation_incidence_removed ix) i)\<rparr>"

definition with_member :: "'k \<Rightarrow> 'm \<Rightarrow> ('k \<Rightarrow> 'm \<Rightarrow> bool) \<Rightarrow> 'k \<Rightarrow> 'm \<Rightarrow> bool" where
  "with_member k m p = (\<lambda>k' m'. (k' = k \<and> m' = m) \<or> p k' m')"

definition without_member :: "'k \<Rightarrow> 'm \<Rightarrow> ('k \<Rightarrow> 'm \<Rightarrow> bool) \<Rightarrow> 'k \<Rightarrow> 'm \<Rightarrow> bool" where
  "without_member k m p = (\<lambda>k' m'. p k' m' \<and> \<not> (k' = k \<and> m' = m))"

lemma merged_with:
  "(\<lambda>j y. y |\<in>| merged base (insert_posting k x added) (remove_posting k x removed) j) =
     with_member k x (\<lambda>j y. y |\<in>| merged base added removed j)"
  by (intro ext) (auto simp: merged_insert with_member_def)

lemma merged_without:
  "(\<lambda>j y. y |\<in>| merged base (remove_posting k x added) (insert_posting k x removed) j) =
     without_member k x (\<lambda>j y. y |\<in>| merged base added removed j)"
  by (intro ext) (auto simp: merged_remove without_member_def)

lemma index_postings_steps:
  "index_postings ow (add_equality s k v ix) =
     (index_postings ow ix)\<lparr>p_equal := with_member (k, v) s (p_equal (index_postings ow ix))\<rparr>"
  "index_postings ow (remove_equality s k v ix) =
     (index_postings ow ix)\<lparr>p_equal := without_member (k, v) s (p_equal (index_postings ow ix))\<rparr>"
  "index_postings ow (on_add_element_label e l ix) =
     (index_postings ow ix)\<lparr>p_label := with_member l e (p_label (index_postings ow ix))\<rparr>"
  "index_postings ow (withdraw_label e l ix) =
     (index_postings ow ix)\<lparr>p_label := without_member l e (p_label (index_postings ow ix))\<rparr>"
  "index_postings ow (remove_relation_type i t ix) =
     (index_postings ow ix)\<lparr>p_type := without_member t i (p_type (index_postings ow ix))\<rparr>"
  "index_postings ow (on_create_incidence n i e ix) =
     (index_postings ow ix)\<lparr>p_element := with_member e n (p_element (index_postings ow ix)),
       p_relation := with_member i n (p_relation (index_postings ow ix))\<rparr>"
  by (simp_all add: index_postings_def add_equality_def remove_equality_def on_add_element_label_def withdraw_label_def
      remove_relation_type_def on_create_incidence_def merged_with merged_without)

lemma index_postings_set_type:
  "index_postings ow (on_set_relation_type i previous t ix) =
     (index_postings ow ix)\<lparr>p_type := with_member t i
       (case previous of Some p \<Rightarrow> if p \<noteq> t then without_member p i (p_type (index_postings ow ix)) else p_type (index_postings ow ix)
        | None \<Rightarrow> p_type (index_postings ow ix))\<rparr>"
  by (simp add: on_set_relation_type_def Let_def index_postings_def remove_relation_type_def merged_with merged_without
      split: option.split)

lemma index_postings_tombstone_incidence_only:
  "index_postings ow (ix\<lparr>oi_element_incidence_added := remove_posting e n (oi_element_incidence_added ix),
       oi_element_incidence_removed := insert_posting e n (oi_element_incidence_removed ix),
       oi_relation_incidence_added := remove_posting i n (oi_relation_incidence_added ix),
       oi_relation_incidence_removed := insert_posting i n (oi_relation_incidence_removed ix)\<rparr>) =
     (index_postings ow ix)\<lparr>p_element := without_member e n (p_element (index_postings ow ix)),
       p_relation := without_member i n (p_relation (index_postings ow ix))\<rparr>"
  by (simp add: index_postings_def merged_without)

text \<open>Withdrawals of many members.\<close>

lemma index_postings_withdraw_properties:
  "index_postings ow (withdraw_subject_properties s properties ix) =
     (index_postings ow ix)\<lparr>p_equal := (\<lambda>(k, v) s'. p_equal (index_postings ow ix) (k, v) s' \<and>
       \<not> (s' = s \<and> fmlookup properties k = Some v))\<rparr>"
proof -
  have "index_postings ow (fold (\<lambda>(k, v). remove_equality s k v) ps ix) =
      (index_postings ow ix)\<lparr>p_equal := (\<lambda>(k, v) s'. p_equal (index_postings ow ix) (k, v) s' \<and>
        \<not> (s' = s \<and> (k, v) \<in> set ps))\<rparr>" for ps
  proof (induction ps arbitrary: ix)
    case (Cons p ps)
    then show ?case by (cases p) (auto simp: index_postings_steps without_member_def intro!: postings.equality ext)
  qed (simp add: case_prod_unfold)
  from this [of "sorted_list_of_fmap properties"] show ?thesis
    by (simp add: withdraw_subject_properties_def set_sorted_list_of_fmap)
qed

lemma index_postings_withdraw_labels:
  "index_postings ow (fold (withdraw_label e) (sorted_list_of_fset labels) ix) =
     (index_postings ow ix)\<lparr>p_label := (\<lambda>l e'. p_label (index_postings ow ix) l e' \<and> \<not> (e' = e \<and> l |\<in>| labels))\<rparr>"
proof -
  have "index_postings ow (fold (withdraw_label e) ls ix) =
      (index_postings ow ix)\<lparr>p_label := (\<lambda>l e'. p_label (index_postings ow ix) l e' \<and> \<not> (e' = e \<and> l \<in> set ls))\<rparr>" for ls
  proof (induction ls arbitrary: ix)
    case (Cons l ls)
    then show ?case by (auto simp: index_postings_steps without_member_def intro!: postings.equality ext)
  qed simp
  then show ?thesis by simp
qed

section \<open>Agreement\<close>

definition base_ok :: "base_records \<Rightarrow> bool" where
  "base_ok base \<longleftrightarrow> keyed er_id (br_elements base) \<and> keyed rr_id (br_relations base) \<and> keyed ir_id (br_incidences base) \<and>
     answers_as (br_index base) (base_postings base)"

definition index_agrees :: "base_records \<Rightarrow> 'a overlay_scheme \<Rightarrow> bool" where
  "index_agrees base ov \<longleftrightarrow> apart (oi_equality_added (ov_index ov)) (oi_equality_removed (ov_index ov)) \<and>
     index_postings (base_postings base) (ov_index ov) = graph_postings (view base ov)"

definition overlay_ok :: "base_records \<Rightarrow> 'a overlay_scheme \<Rightarrow> bool" where
  "overlay_ok base ov \<longleftrightarrow> keyed_delta er_id (ov_elements ov) \<and> keyed_delta rr_id (ov_relations ov) \<and>
     keyed_delta ir_id (ov_incidences ov) \<and> index_agrees base ov"

lemma apart_equality:
  assumes "apart (oi_equality_added ix) (oi_equality_removed ix)"
  shows "apart (oi_equality_added (add_equality s k v ix)) (oi_equality_removed (add_equality s k v ix))"
    and "apart (oi_equality_added (remove_equality s k v ix)) (oi_equality_removed (remove_equality s k v ix))"
  using assms by (simp_all add: add_equality_def remove_equality_def apart_insert apart_remove)

lemma apart_withdraw_properties:
  "apart (oi_equality_added ix) (oi_equality_removed ix) \<Longrightarrow>
     apart (oi_equality_added (withdraw_subject_properties s properties ix)) (oi_equality_removed (withdraw_subject_properties s properties ix))"
proof -
  have "apart (oi_equality_added ix) (oi_equality_removed ix) \<Longrightarrow>
      apart (oi_equality_added (fold (\<lambda>(k, v). remove_equality s k v) ps ix)) (oi_equality_removed (fold (\<lambda>(k, v). remove_equality s k v) ps ix))" for ps
    by (induction ps arbitrary: ix) (auto simp: apart_equality)
  then show "apart (oi_equality_added ix) (oi_equality_removed ix) \<Longrightarrow> ?thesis" by (simp add: withdraw_subject_properties_def)
qed

lemma equality_deltas_withdraw_labels [simp]:
  "oi_equality_added (fold (withdraw_label e) ls ix) = oi_equality_added ix"
  "oi_equality_removed (fold (withdraw_label e) ls ix) = oi_equality_removed ix"
  by (induction ls arbitrary: ix) (simp_all add: withdraw_label_def)

lemma equality_deltas_add_label [simp]:
  "oi_equality_added (on_add_element_label e l ix) = oi_equality_added ix"
  "oi_equality_removed (on_add_element_label e l ix) = oi_equality_removed ix"
  by (simp_all add: on_add_element_label_def)

text \<open>The index after each operation.\<close>

lemma ov_index_inner:
  "ov_index (tombstone_element_inner base e w) =
     on_tombstone_element e (visible_element_labels w base e) (visible_subject_properties_in (ov_properties w) base (Element e)) (ov_index w)"
  "ov_index (tombstone_relation_inner base i w) =
     on_tombstone_relation i (visible_relation_type w base i) (visible_subject_properties_in (ov_properties w) base (Relation i)) (ov_index w)"
  "incidence_ref base w n = Some r \<Longrightarrow> ov_index (tombstone_incidence_inner base n w) =
     on_tombstone_incidence n (ir_relation r) (ir_element r) (visible_subject_properties_in (ov_properties w) base (Incidence n)) (ov_index w)"
  "ov_index (add_element_label_inner base e l w) =
     (if element_ref base w e = None then ov_index w else on_add_element_label e l (ov_index w))"
  "ov_index (add_relation_label_inner base i l w) = ov_index w"
  "ov_index (set_relation_type_inner base i t w) =
     (if relation_ref base w i = None then ov_index w else on_set_relation_type i (visible_relation_type w base i) t (ov_index w))"
  "ov_index (set_property_inner base s k v w) = on_set_property s k (property_ref base w s k) v (ov_index w)"
  "ov_index (remove_property_inner base s k w) = on_remove_property s k (property_ref base w s k) (ov_index w)"
  by (simp_all add: inner_defs Let_def labelled_slot visible_refs split: option.split)

lemmas index_steps = index_postings_steps index_postings_set_type index_postings_tombstone_incidence_only
  index_postings_withdraw_properties index_postings_withdraw_labels

text \<open>The postings of the graph after each operation on it.\<close>

lemma graph_postings_drop_element:
  "graph_postings (g_drop_element e g) =
     (graph_postings g)\<lparr>p_label := (\<lambda>l e'. p_label (graph_postings g) l e' \<and> e' \<noteq> e),
       p_equal := (\<lambda>p s. p_equal (graph_postings g) p s \<and> s \<noteq> Element e)\<rparr>"
  by (auto simp: graph_postings_def g_ops intro!: ext)

lemma graph_postings_drop_relation:
  "graph_postings (g_drop_relation i g) =
     (graph_postings g)\<lparr>p_type := (\<lambda>t i'. p_type (graph_postings g) t i' \<and> i' \<noteq> i),
       p_equal := (\<lambda>p s. p_equal (graph_postings g) p s \<and> s \<noteq> Relation i)\<rparr>"
  by (auto simp: graph_postings_def g_ops intro!: ext)

lemma graph_postings_drop_incidence:
  "graph_postings (g_drop_incidence n g) =
     (graph_postings g)\<lparr>p_element := (\<lambda>e n'. p_element (graph_postings g) e n' \<and> n' \<noteq> n),
       p_relation := (\<lambda>i n'. p_relation (graph_postings g) i n' \<and> n' \<noteq> n),
       p_equal := (\<lambda>p s. p_equal (graph_postings g) p s \<and> s \<noteq> Incidence n)\<rparr>"
  by (auto simp: graph_postings_def g_ops intro!: ext)

lemma index_agrees_tombstone_element:
  assumes "index_agrees base w" shows "index_agrees base (tombstone_element_inner base e w)"
  using assms unfolding index_agrees_def ov_index_inner view_inner on_tombstone_element_def
  by (auto simp: apart_withdraw_properties index_steps graph_postings_drop_element lookup_visible_subject_properties
      visible_element_labels_ref intro!: postings.equality ext)
    (auto simp: graph_postings_def split: option.splits)

lemma index_agrees_tombstone_relation:
  assumes "index_agrees base w" shows "index_agrees base (tombstone_relation_inner base i w)"
proof -
  have type: "oi_equality_added (case t of Some t \<Rightarrow> remove_relation_type i t ix | None \<Rightarrow> ix) = oi_equality_added ix"
    "oi_equality_removed (case t of Some t \<Rightarrow> remove_relation_type i t ix | None \<Rightarrow> ix) = oi_equality_removed ix" for t ix
    by (simp_all add: remove_relation_type_def split: option.split)
  have postings: "index_postings ow (case t of Some t \<Rightarrow> remove_relation_type i t ix | None \<Rightarrow> ix) =
      (index_postings ow ix)\<lparr>p_type := (\<lambda>t' i'. p_type (index_postings ow ix) t' i' \<and> \<not> (i' = i \<and> t = Some t'))\<rparr>" for ow t ix
    by (auto simp: index_steps without_member_def split: option.splits intro!: postings.equality ext)
  show ?thesis
    using assms unfolding index_agrees_def ov_index_inner view_inner on_tombstone_relation_def
    by (auto simp: apart_withdraw_properties type postings index_steps graph_postings_drop_relation
        lookup_visible_subject_properties visible_relation_type_ref intro!: postings.equality ext)
      (auto simp: graph_postings_def split: option.splits)
qed

lemma index_agrees_tombstone_incidence:
  assumes "index_agrees base w" and "incidence_ref base w n = Some r"
  shows "index_agrees base (tombstone_incidence_inner base n w)"
  using assms unfolding index_agrees_def ov_index_inner(3) [OF assms(2)] view_inner on_tombstone_incidence_def
  by (auto simp: apart_withdraw_properties index_steps without_member_def graph_postings_drop_incidence
      lookup_visible_subject_properties intro!: postings.equality ext)
    (auto simp: graph_postings_def split: option.splits)

lemma index_agrees_add_element_label:
  assumes "index_agrees base w" shows "index_agrees base (add_element_label_inner base e l w)"
  using assms unfolding index_agrees_def ov_index_inner view_inner
  by (auto simp: index_steps with_member_def graph_postings_def g_label_element_def
      split: option.splits intro!: postings.equality ext)

lemma index_agrees_add_relation_label:
  assumes "index_agrees base w" shows "index_agrees base (add_relation_label_inner base i l w)"
  using assms unfolding index_agrees_def ov_index_inner view_inner
  by (auto simp: graph_postings_def g_label_relation_def split: option.splits intro!: ext)

lemma index_agrees_set_relation_type:
  assumes "index_agrees base w" shows "index_agrees base (set_relation_type_inner base i t w)"
proof -
  have apart: "apart (oi_equality_added (on_set_relation_type i p t ix)) (oi_equality_removed (on_set_relation_type i p t ix)) \<longleftrightarrow>
      apart (oi_equality_added ix) (oi_equality_removed ix)" for p ix
    by (simp add: on_set_relation_type_def remove_relation_type_def Let_def split: option.split)
  show ?thesis
    using assms unfolding index_agrees_def ov_index_inner view_inner
    by (auto simp: apart index_steps visible_relation_type_ref with_member_def without_member_def graph_postings_def
        g_type_relation_def split: option.splits if_splits intro!: postings.equality ext)
qed

lemma index_agrees_set_property:
  assumes "index_agrees base w" shows "index_agrees base (set_property_inner base s k v w)"
  using assms unfolding index_agrees_def ov_index_inner view_inner on_set_property_def
  by (auto simp: apart_equality index_steps with_member_def without_member_def graph_postings_def g_assign_def
      split: option.splits if_splits intro!: postings.equality ext)

lemma index_agrees_remove_property:
  assumes "index_agrees base w" shows "index_agrees base (remove_property_inner base s k w)"
  using assms unfolding index_agrees_def ov_index_inner view_inner on_remove_property_def
  by (auto simp: apart_equality index_steps with_member_def without_member_def graph_postings_def g_assign_def
      split: option.splits if_splits intro!: postings.equality ext)

end
