(* ===== verification/DbLookup.thy ===== *)
theory DbLookup
  imports DbAgree
begin

text \<open>
  The layered state as a view: its walks and its index-backed lookups keep the contract, so every lookup
  returns what the scan it replaces returns.
\<close>

definition layered_ok :: "base_records \<times> 'a overlay_scheme \<Rightarrow> bool" where
  "layered_ok st \<longleftrightarrow> base_ok (fst st) \<and> overlay_ok (fst st) (snd st)"

abbreviation layered :: "(base_records \<Rightarrow> 'a overlay_scheme \<Rightarrow> 'b) \<Rightarrow> base_records \<times> 'a overlay_scheme \<Rightarrow> 'b" where
  "layered f \<equiv> \<lambda>st. f (fst st) (snd st)"

lemma layered_keyed:
  assumes "base_ok base" "overlay_ok base ov"
  shows "element_ref base ov i = Some r \<Longrightarrow> er_id r = i"
    and "relation_ref base ov j = Some q \<Longrightarrow> rr_id q = j"
    and "incidence_ref base ov m = Some n \<Longrightarrow> ir_id n = m"
  using assms unfolding base_ok_def overlay_ok_def refs_overlaid by (auto dest: overlaid_keyed)

lemma layered_walks:
  assumes "base_ok base" "overlay_ok base ov"
  shows "r \<in> set (st_elements base ov) \<longleftrightarrow> element_ref base ov (er_id r) = Some r"
    and "q \<in> set (st_relations base ov) \<longleftrightarrow> relation_ref base ov (rr_id q) = Some q"
    and "n \<in> set (st_incidences base ov) \<longleftrightarrow> incidence_ref base ov (ir_id n) = Some n"
    and "sorted_wrt (<) (map er_id (st_elements base ov))"
    and "sorted_wrt (<) (map rr_id (st_relations base ov))"
    and "sorted_wrt (<) (map ir_id (st_incidences base ov))"
  using assms unfolding base_ok_def overlay_ok_def refs_overlaid st_elements_def st_relations_def st_incidences_def
  by (simp_all add: merge_walk_records)

lemma agreed_members:
  assumes "index_agrees base ov"
  shows "e |\<in>| merged (ob_label_members (base_postings base)) (oi_label_added (ov_index ov)) (oi_label_removed (ov_index ov)) l \<longleftrightarrow>
      (\<exists>r. element_ref base ov e = Some r \<and> l |\<in>| er_labels r)"
    and "i |\<in>| merged (ob_relation_type_members (base_postings base)) (oi_relation_type_added (ov_index ov)) (oi_relation_type_removed (ov_index ov)) t \<longleftrightarrow>
      (\<exists>r. relation_ref base ov i = Some r \<and> rr_relation_type r = Some t)"
    and "s |\<in>| merged (ob_property_equality (base_postings base)) (oi_equality_added (ov_index ov)) (oi_equality_removed (ov_index ov)) (k, v) \<longleftrightarrow>
      property_ref base ov s k = Some v"
    and "n |\<in>| merged (ob_element_incidences (base_postings base)) (oi_element_incidence_added (ov_index ov)) (oi_element_incidence_removed (ov_index ov)) e \<longleftrightarrow>
      (\<exists>r. incidence_ref base ov n = Some r \<and> ir_element r = e)"
    and "n |\<in>| merged (ob_relation_incidences (base_postings base)) (oi_relation_incidence_added (ov_index ov)) (oi_relation_incidence_removed (ov_index ov)) i \<longleftrightarrow>
      (\<exists>r. incidence_ref base ov n = Some r \<and> ir_relation r = i)"
proof -
  have eq: "index_postings (base_postings base) (ov_index ov) = graph_postings (view base ov)"
    using assms by (simp add: index_agrees_def)
  note member = arg_cong [OF eq]
  show "e |\<in>| merged (ob_label_members (base_postings base)) (oi_label_added (ov_index ov)) (oi_label_removed (ov_index ov)) l \<longleftrightarrow>
      (\<exists>r. element_ref base ov e = Some r \<and> l |\<in>| er_labels r)"
    using member [of "\<lambda>p. p_label p l e"] by (simp add: index_postings_def graph_postings_def)
  show "i |\<in>| merged (ob_relation_type_members (base_postings base)) (oi_relation_type_added (ov_index ov)) (oi_relation_type_removed (ov_index ov)) t \<longleftrightarrow>
      (\<exists>r. relation_ref base ov i = Some r \<and> rr_relation_type r = Some t)"
    using member [of "\<lambda>p. p_type p t i"] by (simp add: index_postings_def graph_postings_def)
  show "s |\<in>| merged (ob_property_equality (base_postings base)) (oi_equality_added (ov_index ov)) (oi_equality_removed (ov_index ov)) (k, v) \<longleftrightarrow>
      property_ref base ov s k = Some v"
    using member [of "\<lambda>p. p_equal p (k, v) s"] by (simp add: index_postings_def graph_postings_def)
  show "n |\<in>| merged (ob_element_incidences (base_postings base)) (oi_element_incidence_added (ov_index ov)) (oi_element_incidence_removed (ov_index ov)) e \<longleftrightarrow>
      (\<exists>r. incidence_ref base ov n = Some r \<and> ir_element r = e)"
    using member [of "\<lambda>p. p_element p e n"] by (simp add: index_postings_def graph_postings_def)
  show "n |\<in>| merged (ob_relation_incidences (base_postings base)) (oi_relation_incidence_added (ov_index ov)) (oi_relation_incidence_removed (ov_index ov)) i \<longleftrightarrow>
      (\<exists>r. incidence_ref base ov n = Some r \<and> ir_relation r = i)"
    using member [of "\<lambda>p. p_relation p i n"] by (simp add: index_postings_def graph_postings_def)
qed

interpretation layered_view: state_view layered_ok "layered view" "layered st_elements" "layered st_relations"
  "layered st_incidences" "layered st_properties"
  by unfold_locales (auto simp: layered_ok_def layered_walks st_properties_records layered_keyed)

lemma in_map_filter: "n \<in> set (List.map_filter f xs) \<longleftrightarrow> (\<exists>x \<in> set xs. f x = Some n)"
  by (induction xs) (auto simp: map_filter_simps split: option.splits)

text \<open>The incidences found through a posting.\<close>

lemma incidences_of_ids:
  assumes "base_ok base" "overlay_ok base ov" and "sorted_wrt (<) ids"
    and "\<And>i. i \<in> set ids \<longleftrightarrow> (\<exists>r. incidence_ref base ov i = Some r \<and> P r)"
  shows "n \<in> set (List.map_filter (incidence_ref base ov) ids) \<longleftrightarrow> incidence_ref base ov (ir_id n) = Some n \<and> P n"
    and "sorted_wrt (<) (map ir_id (List.map_filter (incidence_ref base ov) ids))"
proof -
  note keyed = layered_keyed(3) [OF assms(1,2)]
  have "n \<in> set (List.map_filter (incidence_ref base ov) ids) \<longleftrightarrow> (\<exists>i \<in> set ids. incidence_ref base ov i = Some n)"
    by (rule in_map_filter)
  then show "n \<in> set (List.map_filter (incidence_ref base ov) ids) \<longleftrightarrow> incidence_ref base ov (ir_id n) = Some n \<and> P n"
    using assms(4) keyed by (metis option.inject)
  have "map ir_id (List.map_filter (incidence_ref base ov) xs) = filter (\<lambda>i. incidence_ref base ov i \<noteq> None) xs" for xs
    by (induction xs) (auto simp: map_filter_simps keyed split: option.split)
  then show "sorted_wrt (<) (map ir_id (List.map_filter (incidence_ref base ov) ids))"
    using assms(3) by (simp add: sorted_wrt_filter)
qed

lemma layered_lookups:
  assumes "base_ok base" "overlay_ok base ov"
  shows "i \<in> set (st_elements_with_label base ov l) \<longleftrightarrow> (\<exists>r. element_ref base ov i = Some r \<and> l |\<in>| er_labels r)"
    and "i \<in> set (st_relations_with_type base ov t) \<longleftrightarrow> (\<exists>r. relation_ref base ov i = Some r \<and> rr_relation_type r = Some t)"
    and "s \<in> set (st_property_equal base ov k v) \<longleftrightarrow> property_ref base ov s k = Some v"
    and "s \<in> set (st_property_range base ov k lo hi) \<longleftrightarrow> (\<exists>v. property_ref base ov s k = Some v \<and> lo \<le> v \<and> v \<le> hi)"
    and "(s, v) \<in> set (st_property_key_subjects base ov k) \<longleftrightarrow> property_ref base ov s k = Some v"
    and "pairs \<noteq> [] \<Longrightarrow> s \<in> set (ix_property_composite_equal (ov_index ov) (br_index base) pairs) \<longleftrightarrow>
      (\<forall>(k, v) \<in> set pairs. property_ref base ov s k = Some v)"
proof -
  have answers: "answers_as (br_index base) (base_postings base)" using assms(1) by (simp add: base_ok_def)
  have agrees: "index_agrees base ov" using assms(2) by (simp add: overlay_ok_def)
  then have apart: "apart (oi_equality_added (ov_index ov)) (oi_equality_removed (ov_index ov))" by (simp add: index_agrees_def)
  note members = lookup_members [OF answers] agreed_members [OF agrees]
  show "i \<in> set (st_elements_with_label base ov l) \<longleftrightarrow> (\<exists>r. element_ref base ov i = Some r \<and> l |\<in>| er_labels r)"
    by (simp add: st_lookup_defs members)
  show "i \<in> set (st_relations_with_type base ov t) \<longleftrightarrow> (\<exists>r. relation_ref base ov i = Some r \<and> rr_relation_type r = Some t)"
    by (simp add: st_lookup_defs members)
  show "s \<in> set (st_property_equal base ov k v) \<longleftrightarrow> property_ref base ov s k = Some v"
    by (simp add: st_lookup_defs members)
  show "s \<in> set (st_property_range base ov k lo hi) \<longleftrightarrow> (\<exists>v. property_ref base ov s k = Some v \<and> lo \<le> v \<and> v \<le> hi)"
  proof (cases "lo \<le> hi")
    case True
    then show ?thesis
      unfolding st_lookup_defs in_property_range [OF answers apart True] agreed_members [OF agrees] by blast
  next
    case False
    then show ?thesis by (auto simp: st_lookup_defs ix_property_range_def)
  qed
  show "(s, v) \<in> set (st_property_key_subjects base ov k) \<longleftrightarrow> property_ref base ov s k = Some v"
    unfolding st_lookup_defs
    by (subst in_property_key_subjects [OF answers apart]) (simp_all add: agreed_members [OF agrees])
  assume "pairs \<noteq> []"
  then show "s \<in> set (ix_property_composite_equal (ov_index ov) (br_index base) pairs) \<longleftrightarrow>
      (\<forall>(k, v) \<in> set pairs. property_ref base ov s k = Some v)"
    by (simp add: in_property_composite_equal members)
qed

lemma layered_adjacency:
  assumes "base_ok base" "overlay_ok base ov"
  shows "n \<in> set (st_element_incidences base ov e) \<longleftrightarrow> incidence_ref base ov (ir_id n) = Some n \<and> ir_element n = e"
    and "sorted_wrt (<) (map ir_id (st_element_incidences base ov e))"
    and "n \<in> set (st_relation_incidences base ov i) \<longleftrightarrow> incidence_ref base ov (ir_id n) = Some n \<and> ir_relation n = i"
    and "sorted_wrt (<) (map ir_id (st_relation_incidences base ov i))"
proof -
  have answers: "answers_as (br_index base) (base_postings base)" using assms(1) by (simp add: base_ok_def)
  have agrees: "index_agrees base ov" using assms(2) by (simp add: overlay_ok_def)
  note members = lookup_members [OF answers] agreed_members [OF agrees] strict_sorted_fset
  show "n \<in> set (st_element_incidences base ov e) \<longleftrightarrow> incidence_ref base ov (ir_id n) = Some n \<and> ir_element n = e"
    "sorted_wrt (<) (map ir_id (st_element_incidences base ov e))"
    unfolding st_lookup_defs by (rule incidences_of_ids [OF assms]; simp add: members)+
  show "n \<in> set (st_relation_incidences base ov i) \<longleftrightarrow> incidence_ref base ov (ir_id n) = Some n \<and> ir_relation n = i"
    "sorted_wrt (<) (map ir_id (st_relation_incidences base ov i))"
    unfolding st_lookup_defs by (rule incidences_of_ids [OF assms]; simp add: members)+
qed

text \<open>The lookups ascend.\<close>

lemma layered_lookups_ascend:
  assumes "base_ok base"
  shows "sorted_wrt (<) (st_elements_with_label base ov l)" and "sorted_wrt (<) (st_relations_with_type base ov t)"
    and "sorted_wrt (<) (st_property_equal base ov k v)" and "sorted_wrt (<) (st_property_range base ov k lo hi)"
    and "sorted_wrt (<) (ix_property_composite_equal (ov_index ov) (br_index base) pairs)"
proof -
  have answers: "answers_as (br_index base) (base_postings base)" using assms(1) by (simp add: base_ok_def)
  show "sorted_wrt (<) (st_elements_with_label base ov l)" "sorted_wrt (<) (st_relations_with_type base ov t)"
    "sorted_wrt (<) (st_property_equal base ov k v)"
    by (simp_all add: st_lookup_defs lookup_members [OF answers] strict_sorted_fset)
  show "sorted_wrt (<) (st_property_range base ov k lo hi)"
    "sorted_wrt (<) (ix_property_composite_equal (ov_index ov) (br_index base) pairs)"
    by (simp_all add: st_lookup_defs strict_sorted_iff)
qed

interpretation layered_index: indexed_view layered_ok "layered view" "layered st_elements" "layered st_relations"
  "layered st_incidences" "layered st_properties" "layered st_elements_with_label" "layered st_relations_with_type"
  "layered st_element_incidences" "layered st_relation_incidences" "layered st_property_equal" "layered st_property_range"
  "\<lambda>st. ix_property_composite_equal (ov_index (snd st)) (br_index (fst st))"
  by unfold_locales
    (auto simp: layered_ok_def layered_lookups layered_adjacency layered_lookups_ascend)

end
