(* ===== verification/DbWriter.thy ===== *)
theory DbWriter
  imports DbLookup
begin

text \<open>
  The writer transaction, \<open>crates/oxgraph-db/src/database/writer.rs\<close>, with the typed values of
  \<open>typed.rs\<close>. The transaction's mutable state is its delta; every operation returns its
  outcome with the delta it leaves.
\<close>

section \<open>Operations on the delta\<close>

type_synonym 'a writer = "write_overlay \<Rightarrow> (db_error, 'a) result \<times> write_overlay"

text \<open>\<open>?\<close> on a step, on a check, and the ends of an operation.\<close>

definition then_do :: "'a writer \<Rightarrow> ('a \<Rightarrow> 'b writer) \<Rightarrow> 'b writer" where
  "then_do m f w = (case m w of (Err e, w') \<Rightarrow> (Err e, w') | (Ok a, w') \<Rightarrow> f a w')"

definition checked :: "(write_overlay \<Rightarrow> (db_error, 'a) result) \<Rightarrow> ('a \<Rightarrow> 'b writer) \<Rightarrow> 'b writer" where
  "checked check f w = (case check w of Err e \<Rightarrow> (Err e, w) | Ok a \<Rightarrow> f a w)"

definition yields :: "'a \<Rightarrow> 'a writer" where
  "yields a w = (Ok a, w)"

definition updates :: "(write_overlay \<Rightarrow> write_overlay) \<Rightarrow> unit writer" where
  "updates f w = (Ok (), f w)"

fun each :: "('a \<Rightarrow> unit writer) \<Rightarrow> 'a list \<Rightarrow> unit writer" where
  "each f [] = yields ()"
| "each f (x # xs) = then_do (f x) (\<lambda>_. each f xs)"

section \<open>Requirements\<close>

definition require_element :: "base_records \<Rightarrow> element_id \<Rightarrow> write_overlay \<Rightarrow> (db_error, unit) result" where
  "require_element base i w = (if contains_element base w i then Ok () else Err (unknown ElementIds i))"

definition require_relation :: "base_records \<Rightarrow> relation_id \<Rightarrow> write_overlay \<Rightarrow> (db_error, unit) result" where
  "require_relation base i w = (if contains_relation base w i then Ok () else Err (unknown RelationIds i))"

definition require_incidence :: "base_records \<Rightarrow> incidence_id \<Rightarrow> write_overlay \<Rightarrow> (db_error, unit) result" where
  "require_incidence base i w = (if contains_incidence base w i then Ok () else Err (unknown IncidenceIds i))"

definition require_role :: "role_id \<Rightarrow> write_overlay \<Rightarrow> (db_error, unit) result" where
  "require_role i w = (if cat_role (ov_catalog w) i \<noteq> None then Ok () else Err (unknown RoleIds i))"

definition require_label :: "label_id \<Rightarrow> write_overlay \<Rightarrow> (db_error, unit) result" where
  "require_label i w = (if cat_label (ov_catalog w) i \<noteq> None then Ok () else Err (unknown LabelIds i))"

definition require_relation_type :: "relation_type_id \<Rightarrow> write_overlay \<Rightarrow> (db_error, unit) result" where
  "require_relation_type i w =
     (if cat_relation_type (ov_catalog w) i \<noteq> None then Ok () else Err (unknown RelationTypeIds i))"

definition require_property_key :: "property_key_id \<Rightarrow> write_overlay \<Rightarrow> (db_error, unit) result" where
  "require_property_key i w =
     (if cat_property_key (ov_catalog w) i \<noteq> None then Ok () else Err (unknown PropertyKeyIds i))"

fun require_subject :: "base_records \<Rightarrow> property_subject \<Rightarrow> write_overlay \<Rightarrow> (db_error, unit) result" where
  "require_subject base (Element i) w = require_element base i w"
| "require_subject base (Relation i) w = require_relation base i w"
| "require_subject base (Incidence i) w = require_incidence base i w"

lemmas requires = require_element_def require_relation_def require_incidence_def require_role_def require_label_def
  require_relation_type_def require_property_key_def

fun require_all :: "('a \<Rightarrow> write_overlay \<Rightarrow> (db_error, unit) result) \<Rightarrow> 'a list \<Rightarrow> write_overlay \<Rightarrow> (db_error, unit) result" where
  "require_all f [] w = Ok ()"
| "require_all f (x # xs) w = and_then (f x w) (\<lambda>_. require_all f xs w)"

fun validate_projection_definition :: "projection_definition \<Rightarrow> write_overlay \<Rightarrow> (db_error, unit) result" where
  "validate_projection_definition (GraphProjection d) w =
     and_then (require_role (gp_source_role d) w) (\<lambda>_.
     and_then (require_role (gp_target_role d) w) (\<lambda>_.
       require_all require_relation_type (sorted_list_of_fset (gp_relation_types d)) w))"
| "validate_projection_definition (HypergraphProjection d) w =
     and_then (require_all require_role (sorted_list_of_fset (hp_source_roles d)) w) (\<lambda>_.
     and_then (require_all require_role (sorted_list_of_fset (hp_target_roles d)) w) (\<lambda>_.
       require_all require_relation_type (sorted_list_of_fset (hp_relation_types d)) w))"

fun validate_index_definition :: "index_definition \<Rightarrow> write_overlay \<Rightarrow> (db_error, unit) result" where
  "validate_index_definition (LabelIndex i) w = require_label i w"
| "validate_index_definition (RelationTypeIndex i) w = require_relation_type i w"
| "validate_index_definition (PropertyEquality k) w = require_property_key k w"
| "validate_index_definition (PropertyRange k) w = require_property_key k w"
| "validate_index_definition (CompositeEquality keys) w =
     (if keys = [] then Err (unsupported ''composite equality index requires at least one key'')
      else require_all require_property_key keys w)"
| "validate_index_definition (ProjectionIndex p) w =
     (if cat_projection (ov_catalog w) p \<noteq> None then Ok () else Err (unknown ProjectionIds p))"

section \<open>Mutators\<close>

definition w_define_projection :: "projection_definition \<Rightarrow> projection_id writer" where
  "w_define_projection d = checked (validate_projection_definition d) (\<lambda>_. register_projection d)"

definition w_define_index :: "str \<Rightarrow> index_definition \<Rightarrow> index_id writer" where
  "w_define_index name d = checked (validate_index_definition d) (\<lambda>_. register_index name d)"

definition w_create_incidence :: "base_records \<Rightarrow> relation_id \<Rightarrow> element_id \<Rightarrow> role_id \<Rightarrow> incidence_id writer" where
  "w_create_incidence base relation element role =
     checked (require_relation base relation) (\<lambda>_.
     checked (require_element base element) (\<lambda>_.
     checked (require_role role) (\<lambda>_. create_incidence relation element role)))"

definition w_tombstone_element :: "base_records \<Rightarrow> element_id \<Rightarrow> unit writer" where
  "w_tombstone_element base i =
     checked (require_element base i) (\<lambda>_.
     checked (\<lambda>w. Ok (map ir_id (st_element_incidences base w i))) (\<lambda>incidences.
       updates (\<lambda>w. fold (tombstone_incidence base) incidences (tombstone_element base i w))))"

definition w_tombstone_relation :: "base_records \<Rightarrow> relation_id \<Rightarrow> unit writer" where
  "w_tombstone_relation base i =
     checked (require_relation base i) (\<lambda>_.
     checked (\<lambda>w. Ok (map ir_id (st_relation_incidences base w i))) (\<lambda>incidences.
       updates (\<lambda>w. fold (tombstone_incidence base) incidences (tombstone_relation base i w))))"

definition w_tombstone_incidence :: "base_records \<Rightarrow> incidence_id \<Rightarrow> unit writer" where
  "w_tombstone_incidence base i =
     checked (require_incidence base i) (\<lambda>_. updates (tombstone_incidence base i))"

definition w_add_element_label :: "base_records \<Rightarrow> element_id \<Rightarrow> label_id \<Rightarrow> unit writer" where
  "w_add_element_label base i l =
     checked (require_element base i) (\<lambda>_. checked (require_label l) (\<lambda>_. updates (add_element_label base i l)))"

definition w_add_relation_label :: "base_records \<Rightarrow> relation_id \<Rightarrow> label_id \<Rightarrow> unit writer" where
  "w_add_relation_label base i l =
     checked (require_relation base i) (\<lambda>_. checked (require_label l) (\<lambda>_. updates (add_relation_label base i l)))"

definition w_set_relation_type :: "base_records \<Rightarrow> relation_id \<Rightarrow> relation_type_id \<Rightarrow> unit writer" where
  "w_set_relation_type base i t =
     checked (require_relation base i) (\<lambda>_. checked (require_relation_type t) (\<lambda>_. updates (set_relation_type base i t)))"

definition property_fits :: "property_subject \<Rightarrow> property_key_id \<Rightarrow> property_value \<Rightarrow> write_overlay \<Rightarrow> (db_error, unit) result" where
  "property_fits s key v w =
     and_then (ok_or (unknown PropertyKeyIds key) (cat_property_key (ov_catalog w) key)) (\<lambda>d.
       if pk_def_family d \<noteq> subject_family s
       then Err (QueryErr (WrongPropertyFamily (pk_def_family d) (subject_family s)))
       else if pk_def_value_type d \<noteq> value_type v
       then Err (QueryErr (PropertyTypeMismatch (pk_def_value_type d) (value_type v)))
       else Ok ())"

definition w_set_property :: "base_records \<Rightarrow> property_subject \<Rightarrow> property_key_id \<Rightarrow> property_value \<Rightarrow> unit writer" where
  "w_set_property base s key v =
     checked (require_subject base s) (\<lambda>_. checked (property_fits s key v) (\<lambda>_. updates (set_property base s key v)))"

definition w_remove_property :: "base_records \<Rightarrow> property_subject \<Rightarrow> property_key_id \<Rightarrow> unit writer" where
  "w_remove_property base s key =
     checked (require_subject base s) (\<lambda>_. checked (require_property_key key) (\<lambda>_. updates (remove_property base s key)))"

fun w_add_label :: "base_records \<Rightarrow> property_subject \<Rightarrow> label_id \<Rightarrow> unit writer" where
  "w_add_label base (Element i) l = w_add_element_label base i l"
| "w_add_label base (Relation i) l = w_add_relation_label base i l"
| "w_add_label base (Incidence i) l = (\<lambda>w. (Err (unsupported ''incidences do not carry labels''), w))"

fun w_tombstone :: "base_records \<Rightarrow> property_subject \<Rightarrow> unit writer" where
  "w_tombstone base (Element i) = w_tombstone_element base i"
| "w_tombstone base (Relation i) = w_tombstone_relation base i"
| "w_tombstone base (Incidence i) = w_tombstone_incidence base i"

section \<open>Reconciliation by an equality index\<close>

text \<open>
  The value of \<open>Assignable::into_value\<close> per source type; an unsigned integer above \<open>i64::MAX\<close> is refused.
\<close>

definition value_of_u64 :: "u64 \<Rightarrow> (db_error, property_value) result" where
  "value_of_u64 n = (if unat n < 2 ^ 63 then Ok (Integer n) else Err (QueryErr ValueOutOfRange))"

definition value_of_i64 :: "i64 \<Rightarrow> (db_error, property_value) result" where
  "value_of_i64 n = Ok (Integer n)"

definition value_of_str :: "str \<Rightarrow> (db_error, property_value) result" where
  "value_of_str s = Ok (Text s)"

definition value_of_bool :: "bool \<Rightarrow> (db_error, property_value) result" where
  "value_of_bool b = Ok (Boolean b)"

definition equality_index_key :: "index_id \<Rightarrow> write_overlay \<Rightarrow> (db_error, property_key_id) result" where
  "equality_index_key index w =
     and_then (ok_or (unknown IndexIds index) (cat_index (ov_catalog w) index)) (\<lambda>entry.
       case ie_definition entry of
         PropertyEquality key \<Rightarrow> Ok key
       | _ \<Rightarrow> Err (unsupported ''reconcile requires a property-equality index''))"

fun first_element :: "property_subject list \<Rightarrow> element_id option" where
  "first_element [] = None"
| "first_element (Element i # _) = Some i"
| "first_element (_ # rest) = first_element rest"

fun first_relation :: "property_subject list \<Rightarrow> relation_id option" where
  "first_relation [] = None"
| "first_relation (Relation i # _) = Some i"
| "first_relation (_ # rest) = first_relation rest"

definition w_upsert_element :: "base_records \<Rightarrow> index_id \<Rightarrow> (db_error, property_value) result \<Rightarrow> element_id writer" where
  "w_upsert_element base index assigned =
     checked (\<lambda>_. assigned) (\<lambda>v.
     checked (equality_index_key index) (\<lambda>key.
     checked (\<lambda>w. Ok (first_element (st_property_equal base w key v))) (\<lambda>existing.
       case existing of
         Some i \<Rightarrow> yields i
       | None \<Rightarrow>
           then_do create_element (\<lambda>element.
           then_do (w_set_property base (Element element) key v) (\<lambda>_. yields element)))))"

definition w_upsert_relation ::
    "base_records \<Rightarrow> index_id \<Rightarrow> (db_error, property_value) result \<Rightarrow> relation_type_id \<Rightarrow> (element_id \<times> role_id) list
     \<Rightarrow> relation_id writer" where
  "w_upsert_relation base index assigned relation_type endpoints =
     checked (\<lambda>_. assigned) (\<lambda>v.
     checked (equality_index_key index) (\<lambda>key.
     checked (\<lambda>w. Ok (first_relation (st_property_equal base w key v))) (\<lambda>existing.
       case existing of
         Some i \<Rightarrow> yields i
       | None \<Rightarrow>
           then_do create_relation (\<lambda>relation.
           then_do (w_set_relation_type base relation relation_type) (\<lambda>_.
           then_do (w_set_property base (Relation relation) key v) (\<lambda>_.
           then_do (each (\<lambda>(element, role). then_do (w_create_incidence base relation element role) (\<lambda>_. yields ())) endpoints) (\<lambda>_.
             yields relation)))))))"

definition w_retain :: "base_records \<Rightarrow> index_id \<Rightarrow> (db_error, property_value) result list \<Rightarrow> unit writer" where
  "w_retain base index keep =
     checked (equality_index_key index) (\<lambda>key.
     checked (\<lambda>_. collect_results keep) (\<lambda>keep_values.
     checked (\<lambda>w. Ok (map fst (filter (\<lambda>(_, v). v \<notin> set keep_values) (st_property_key_subjects base w key)))) (\<lambda>stale.
       each (w_tombstone base) stale)))"

end
