(* ===== verification/DbInvariant.thy ===== *)
theory DbInvariant
  imports DbWriter
begin

text \<open>
  The invariant of a writer transaction: the overlay agrees with its index, every identifier in use lies
  below its allocator, and every reference the graph holds is to a record and a definition that exist.
\<close>

section \<open>The catalog\<close>

text \<open>One family of definitions with its table of names.\<close>

definition named_ok :: "('d \<Rightarrow> u64) \<Rightarrow> ('d \<Rightarrow> str) \<Rightarrow> (u64, 'd) fmap \<Rightarrow> (str, u64) fmap \<Rightarrow> u64 \<Rightarrow> bool" where
  "named_ok ident nm defs names next \<longleftrightarrow>
     (\<forall>n i. fmlookup names n = Some i \<longleftrightarrow> (\<exists>d. fmlookup defs i = Some d \<and> nm d = n)) \<and>
     (\<forall>i d. fmlookup defs i = Some d \<longrightarrow> ident d = i \<and> i < next)"

lemma named_ok_insert:
  assumes "named_ok ident nm defs names i" "checked_next i = Some j" "fmlookup names (nm d) = None" "ident d = i"
  shows "named_ok ident nm (fmupd i d defs) (fmupd (nm d) i names) j"
proof -
  have fresh: "fmlookup defs i = None" using assms(1) unfolding named_ok_def by (metis not_None_eq order_less_irrefl)
  have unused: "fmlookup defs k = Some e \<Longrightarrow> nm e \<noteq> nm d" for k e
    using assms(1,3) unfolding named_ok_def by (metis option.distinct(1))
  have less: "k < i \<Longrightarrow> k < j" for k using checked_next_greater [OF assms(2)] by simp
  show ?thesis
    using assms(1,4) fresh unused less checked_next_greater [OF assms(2)] unfolding named_ok_def by auto
qed

lemma named_ok_mono: "named_ok ident nm defs names i \<Longrightarrow> i \<le> j \<Longrightarrow> named_ok ident nm defs names j"
  unfolding named_ok_def by (meson less_le_trans)

definition catalog_ok :: "catalog \<Rightarrow> next_ids \<Rightarrow> bool" where
  "catalog_ok c n \<longleftrightarrow>
     named_ok role_def_id role_def_name (cat_roles c) (cat_role_names c) (ni_role n) \<and>
     named_ok label_def_id label_def_name (cat_labels c) (cat_label_names c) (ni_label n) \<and>
     named_ok rt_def_id rt_def_name (cat_relation_types c) (cat_relation_type_names c) (ni_relation_type n) \<and>
     named_ok pk_def_id pk_def_name (cat_property_keys c) (cat_property_key_names c) (ni_property_key n) \<and>
     named_ok pe_id (\<lambda>e. projection_name (pe_definition e)) (cat_projections c) (cat_projection_names c) (ni_projection n) \<and>
     named_ok ie_id ie_name (cat_indexes c) (cat_index_names c) (ni_index n)"

text \<open>A catalog only grows.\<close>

definition catalog_le :: "catalog \<Rightarrow> catalog \<Rightarrow> bool" where
  "catalog_le c d \<longleftrightarrow>
     fmlookup (cat_roles c) \<subseteq>\<^sub>m fmlookup (cat_roles d) \<and> fmlookup (cat_labels c) \<subseteq>\<^sub>m fmlookup (cat_labels d) \<and>
     fmlookup (cat_relation_types c) \<subseteq>\<^sub>m fmlookup (cat_relation_types d) \<and>
     fmlookup (cat_property_keys c) \<subseteq>\<^sub>m fmlookup (cat_property_keys d) \<and>
     fmlookup (cat_projections c) \<subseteq>\<^sub>m fmlookup (cat_projections d) \<and>
     fmlookup (cat_indexes c) \<subseteq>\<^sub>m fmlookup (cat_indexes d)"

lemma catalog_le_refl [simp]: "catalog_le c c"
  by (simp add: catalog_le_def)

section \<open>References\<close>

text \<open>Every reference of a graph has its target, and every property fits its key.\<close>

fun subject_present :: "graph \<Rightarrow> property_subject \<Rightarrow> bool" where
  "subject_present g (Element i) \<longleftrightarrow> g_element g i \<noteq> None"
| "subject_present g (Relation i) \<longleftrightarrow> g_relation g i \<noteq> None"
| "subject_present g (Incidence i) \<longleftrightarrow> g_incidence g i \<noteq> None"

definition labels_exist :: "catalog \<Rightarrow> label_set \<Rightarrow> bool" where
  "labels_exist c labels \<longleftrightarrow> (\<forall>l. l |\<in>| labels \<longrightarrow> cat_label c l \<noteq> None)"

definition type_exists :: "catalog \<Rightarrow> relation_type_id option \<Rightarrow> bool" where
  "type_exists c t \<longleftrightarrow> (case t of None \<Rightarrow> True | Some i \<Rightarrow> cat_relation_type c i \<noteq> None)"

definition fits_key :: "catalog \<Rightarrow> property_subject \<Rightarrow> property_key_id \<Rightarrow> property_value \<Rightarrow> bool" where
  "fits_key c s k v \<longleftrightarrow>
     (\<exists>d. cat_property_key c k = Some d \<and> pk_def_family d = subject_family s \<and> pk_def_value_type d = value_type v)"

definition graph_ok :: "catalog \<Rightarrow> graph \<Rightarrow> bool" where
  "graph_ok c g \<longleftrightarrow>
     (\<forall>i r. g_element g i = Some r \<longrightarrow> labels_exist c (er_labels r)) \<and>
     (\<forall>i r. g_relation g i = Some r \<longrightarrow> labels_exist c (rr_labels r) \<and> type_exists c (rr_relation_type r)) \<and>
     (\<forall>i r. g_incidence g i = Some r \<longrightarrow>
        g_relation g (ir_relation r) \<noteq> None \<and> g_element g (ir_element r) \<noteq> None \<and> cat_role c (ir_role r) \<noteq> None) \<and>
     (\<forall>s k v. g_property g s k = Some v \<longrightarrow> subject_present g s \<and> fits_key c s k v)"

lemma catalog_le_lookups:
  assumes "catalog_le c d"
  shows "cat_role c i = Some x1 \<Longrightarrow> cat_role d i = Some x1"
    and "cat_label c i = Some x2 \<Longrightarrow> cat_label d i = Some x2"
    and "cat_relation_type c i = Some x3 \<Longrightarrow> cat_relation_type d i = Some x3"
    and "cat_property_key c i = Some x4 \<Longrightarrow> cat_property_key d i = Some x4"
    and "cat_projection c i = Some x5 \<Longrightarrow> cat_projection d i = Some x5"
    and "cat_index c i = Some x6 \<Longrightarrow> cat_index d i = Some x6"
  using assms unfolding catalog_le_def cat_lookups by (auto simp: map_le_def dom_def)

lemma exists_mono:
  assumes "catalog_le c d"
  shows "labels_exist c ls \<Longrightarrow> labels_exist d ls" and "type_exists c t \<Longrightarrow> type_exists d t"
    and "fits_key c s k v \<Longrightarrow> fits_key d s k v" and "cat_role c i \<noteq> None \<Longrightarrow> cat_role d i \<noteq> None"
proof -
  note le = catalog_le_lookups [OF assms]
  show "cat_role c i \<noteq> None \<Longrightarrow> cat_role d i \<noteq> None" by (metis le(1) option.exhaust_sel option.distinct(1))
  show "labels_exist c ls \<Longrightarrow> labels_exist d ls" unfolding labels_exist_def by (metis le(2) option.exhaust_sel option.distinct(1))
  show "type_exists c t \<Longrightarrow> type_exists d t" unfolding type_exists_def using le(3) by (cases t) auto
  show "fits_key c s k v \<Longrightarrow> fits_key d s k v" unfolding fits_key_def by (metis le(4))
qed

lemma graph_ok_mono:
  assumes "graph_ok c g" "catalog_le c d"
  shows "graph_ok d g"
proof -
  note le = exists_mono [OF assms(2)] and ok = assms(1) [unfolded graph_ok_def]
  have "labels_exist d (er_labels r)" if "g_element g i = Some r" for i r
    using ok that le(1) by blast
  moreover have "labels_exist d (rr_labels r) \<and> type_exists d (rr_relation_type r)" if "g_relation g i = Some r" for i r
    using ok that le(1,2) by blast
  moreover have "g_relation g (ir_relation r) \<noteq> None \<and> g_element g (ir_element r) \<noteq> None \<and> cat_role d (ir_role r) \<noteq> None"
    if "g_incidence g i = Some r" for i r
    using ok that le(4) [of "ir_role r"] by blast
  moreover have "subject_present g s \<and> fits_key d s k v" if "g_property g s k = Some v" for s k v
    using ok that le(3) by blast
  ultimately show ?thesis unfolding graph_ok_def by blast
qed

section \<open>Identifiers in use\<close>

definition all_below :: "u64 \<Rightarrow> (u64, 'a) fmap \<Rightarrow> (u64, 'b) fmap \<Rightarrow> bool" where
  "all_below bound base ov \<longleftrightarrow> (\<forall>i. i |\<in>| fmdom base |\<union>| fmdom ov \<longrightarrow> i < bound)"

lemma all_below_upd: "all_below bound base ov \<Longrightarrow> i < bound \<Longrightarrow> all_below bound base (fmupd i x ov)"
  by (auto simp: all_below_def)

lemma all_below_fresh:
  assumes "all_below a base ov" "checked_next a = Some n"
  shows "all_below n base (fmupd a x ov)"
  unfolding all_below_def
proof (intro allI impI)
  fix i assume "i |\<in>| fmdom base |\<union>| fmdom (fmupd a x ov)"
  then have "i = a \<or> i |\<in>| fmdom base |\<union>| fmdom ov" by auto
  then have "i \<le> a" using assms(1) unfolding all_below_def by (metis order_refl order_less_imp_le)
  then show "i < n" using checked_next_greater [OF assms(2)] by (rule le_less_trans)
qed

lemma overlaid_below: "all_below bound base ov \<Longrightarrow> overlaid base ov i \<noteq> None \<Longrightarrow> i < bound"
  by (auto simp: all_below_def overlaid_def fmlookup_dom_iff split: option.splits)

definition ids_below :: "base_records \<Rightarrow> 'a overlay_scheme \<Rightarrow> bool" where
  "ids_below base ov \<longleftrightarrow> all_below (ni_element (ov_next ov)) (br_elements base) (ov_elements ov) \<and>
     all_below (ni_relation (ov_next ov)) (br_relations base) (ov_relations ov) \<and>
     all_below (ni_incidence (ov_next ov)) (br_incidences base) (ov_incidences ov)"

definition state_ok :: "base_records \<Rightarrow> 'a overlay_scheme \<Rightarrow> bool" where
  "state_ok base ov \<longleftrightarrow> overlay_ok base ov \<and> ids_below base ov \<and> catalog_ok (ov_catalog ov) (ov_next ov)"

text \<open>The whole invariant.\<close>

definition writer_ok :: "base_records \<Rightarrow> 'a overlay_scheme \<Rightarrow> bool" where
  "writer_ok base ov \<longleftrightarrow> base_ok base \<and> state_ok base ov \<and> graph_ok (ov_catalog ov) (view base ov)"

lemma refs_below:
  assumes "ids_below base ov"
  shows "element_ref base ov i \<noteq> None \<Longrightarrow> i < ni_element (ov_next ov)"
    and "relation_ref base ov i \<noteq> None \<Longrightarrow> i < ni_relation (ov_next ov)"
    and "incidence_ref base ov i \<noteq> None \<Longrightarrow> i < ni_incidence (ov_next ov)"
  using assms unfolding ids_below_def refs_overlaid by (blast intro: overlaid_below)+

section \<open>The state after each operation\<close>

lemma inner_frame [simp]:
  "ov_catalog (tombstone_element_inner base e w) = ov_catalog w" "ov_next (tombstone_element_inner base e w) = ov_next w"
  "ov_catalog (tombstone_relation_inner base e w) = ov_catalog w" "ov_next (tombstone_relation_inner base e w) = ov_next w"
  "ov_catalog (tombstone_incidence_inner base e w) = ov_catalog w" "ov_next (tombstone_incidence_inner base e w) = ov_next w"
  "ov_catalog (add_element_label_inner base e l w) = ov_catalog w" "ov_next (add_element_label_inner base e l w) = ov_next w"
  "ov_catalog (add_relation_label_inner base e l w) = ov_catalog w" "ov_next (add_relation_label_inner base e l w) = ov_next w"
  "ov_catalog (set_relation_type_inner base e l w) = ov_catalog w" "ov_next (set_relation_type_inner base e l w) = ov_next w"
  "ov_catalog (set_property_inner base s k v w) = ov_catalog w" "ov_next (set_property_inner base s k v w) = ov_next w"
  "ov_catalog (remove_property_inner base s k w) = ov_catalog w" "ov_next (remove_property_inner base s k w) = ov_next w"
  by (simp_all add: inner_defs Let_def split: option.split)

lemma inner_elements [simp]:
  "ov_elements (tombstone_element_inner base e w) = fmupd e None (ov_elements w)"
  "ov_elements (tombstone_relation_inner base e w) = ov_elements w"
  "ov_elements (tombstone_incidence_inner base e w) = ov_elements w"
  "ov_elements (add_element_label_inner base e l w) =
     (case element_ref base w e of Some r \<Rightarrow> fmupd e (Some (r\<lparr>er_labels := finsert l (er_labels r)\<rparr>)) (ov_elements w) | None \<Rightarrow> ov_elements w)"
  "ov_elements (add_relation_label_inner base e l w) = ov_elements w"
  "ov_elements (set_relation_type_inner base e l w) = ov_elements w"
  "ov_elements (set_property_inner base s k v w) = ov_elements w"
  "ov_elements (remove_property_inner base s k w) = ov_elements w"
  by (simp_all add: inner_defs Let_def labelled_slot split: option.split)

lemma inner_relations [simp]:
  "ov_relations (tombstone_element_inner base e w) = ov_relations w"
  "ov_relations (tombstone_relation_inner base e w) = fmupd e None (ov_relations w)"
  "ov_relations (tombstone_incidence_inner base e w) = ov_relations w"
  "ov_relations (add_element_label_inner base e l w) = ov_relations w"
  "ov_relations (add_relation_label_inner base e l w) =
     (case relation_ref base w e of Some r \<Rightarrow> fmupd e (Some (r\<lparr>rr_labels := finsert l (rr_labels r)\<rparr>)) (ov_relations w) | None \<Rightarrow> ov_relations w)"
  "ov_relations (set_relation_type_inner base e l w) =
     (case relation_ref base w e of Some r \<Rightarrow> fmupd e (Some (r\<lparr>rr_relation_type := Some l\<rparr>)) (ov_relations w) | None \<Rightarrow> ov_relations w)"
  "ov_relations (set_property_inner base s k v w) = ov_relations w"
  "ov_relations (remove_property_inner base s k w) = ov_relations w"
  by (simp_all add: inner_defs Let_def labelled_slot split: option.split)

lemma inner_incidences [simp]:
  "ov_incidences (tombstone_element_inner base e w) = ov_incidences w"
  "ov_incidences (tombstone_relation_inner base e w) = ov_incidences w"
  "ov_incidences (tombstone_incidence_inner base e w) = fmupd e None (ov_incidences w)"
  "ov_incidences (add_element_label_inner base e l w) = ov_incidences w"
  "ov_incidences (add_relation_label_inner base e l w) = ov_incidences w"
  "ov_incidences (set_relation_type_inner base e l w) = ov_incidences w"
  "ov_incidences (set_property_inner base s k v w) = ov_incidences w"
  "ov_incidences (remove_property_inner base s k w) = ov_incidences w"
  by (simp_all add: inner_defs Let_def labelled_slot split: option.split)

lemma state_ok_tombstones:
  assumes "state_ok base w"
  shows "element_ref base w e \<noteq> None \<Longrightarrow> state_ok base (tombstone_element_inner base e w)"
    and "relation_ref base w i \<noteq> None \<Longrightarrow> state_ok base (tombstone_relation_inner base i w)"
    and "incidence_ref base w n \<noteq> None \<Longrightarrow> state_ok base (tombstone_incidence_inner base n w)"
proof -
  note parts = assms [unfolded state_ok_def overlay_ok_def]
  have below: "ids_below base w" using parts by simp
  show "state_ok base (tombstone_element_inner base e w)" if "element_ref base w e \<noteq> None"
    using parts refs_below(1) [OF below that]
    by (simp add: state_ok_def overlay_ok_def index_agrees_tombstone_element ids_below_def all_below_upd)
  show "state_ok base (tombstone_relation_inner base i w)" if "relation_ref base w i \<noteq> None"
    using parts refs_below(2) [OF below that]
    by (simp add: state_ok_def overlay_ok_def index_agrees_tombstone_relation ids_below_def all_below_upd)
  show "state_ok base (tombstone_incidence_inner base n w)" if visible: "incidence_ref base w n \<noteq> None"
  proof -
    obtain r where "incidence_ref base w n = Some r" using visible by blast
    then have "index_agrees base (tombstone_incidence_inner base n w)" using parts index_agrees_tombstone_incidence by blast
    then show ?thesis
      using parts refs_below(3) [OF below visible] by (simp add: state_ok_def overlay_ok_def ids_below_def all_below_upd)
  qed
qed

lemma state_ok_updates:
  assumes "base_ok base" "state_ok base w"
  shows "state_ok base (add_element_label_inner base e l w)"
    and "state_ok base (add_relation_label_inner base i l w)"
    and "state_ok base (set_relation_type_inner base i t w)"
    and "state_ok base (set_property_inner base s k v w)"
    and "state_ok base (remove_property_inner base s k w)"
proof -
  note parts = assms(2) [unfolded state_ok_def]
  have ok: "overlay_ok base w" and below: "ids_below base w" and agrees: "index_agrees base w"
    using parts by (simp_all add: overlay_ok_def)
  note keyed = layered_keyed [OF assms(1) ok]
  have element: "er_id r = e \<and> e < ni_element (ov_next w)" if "element_ref base w e = Some r" for r
    using that keyed(1) refs_below(1) [OF below, of e] by simp
  have relation: "rr_id r = i \<and> i < ni_relation (ov_next w)" if "relation_ref base w i = Some r" for r
    using that keyed(2) refs_below(2) [OF below, of i] by simp
  show "state_ok base (add_element_label_inner base e l w)"
    using parts element index_agrees_add_element_label [OF agrees]
    by (auto simp: state_ok_def overlay_ok_def ids_below_def keyed_delta_def all_below_upd split: option.split)
  show "state_ok base (add_relation_label_inner base i l w)"
    using parts relation index_agrees_add_relation_label [OF agrees]
    by (auto simp: state_ok_def overlay_ok_def ids_below_def keyed_delta_def all_below_upd split: option.split)
  show "state_ok base (set_relation_type_inner base i t w)"
    using parts relation index_agrees_set_relation_type [OF agrees]
    by (auto simp: state_ok_def overlay_ok_def ids_below_def keyed_delta_def all_below_upd split: option.split)
  show "state_ok base (set_property_inner base s k v w)"
    using parts index_agrees_set_property [OF agrees]
    by (simp add: state_ok_def overlay_ok_def ids_below_def)
  show "state_ok base (remove_property_inner base s k w)"
    using parts index_agrees_remove_property [OF agrees]
    by (simp add: state_ok_def overlay_ok_def ids_below_def)
qed

text \<open>The log is no part of the invariant.\<close>

lemma log_irrelevant [simp]:
  "view base (wo_log_update f w) = view base w"
  "state_ok base (wo_log_update f w) \<longleftrightarrow> state_ok base w"
  "writer_ok base (wo_log_update f w) \<longleftrightarrow> writer_ok base w"
proof -
  show view: "view base (wo_log_update f w) = view base w" by (simp add: view_def)
  show state: "state_ok base (wo_log_update f w) \<longleftrightarrow> state_ok base w"
    by (simp add: state_ok_def overlay_ok_def index_agrees_def ids_below_def view)
  show "writer_ok base (wo_log_update f w) \<longleftrightarrow> writer_ok base w"
    by (simp add: writer_ok_def view state)
qed

lemma wo_push_irrelevant [simp]:
  "view base (wo_push kind flags words w) = view base w"
  "state_ok base (wo_push kind flags words w) \<longleftrightarrow> state_ok base w"
  "writer_ok base (wo_push kind flags words w) \<longleftrightarrow> writer_ok base w"
  "ov_catalog (wo_push kind flags words w) = ov_catalog w"
  "ov_next (wo_push kind flags words w) = ov_next w"
  "element_ref base (wo_push kind flags words w) = element_ref base w"
  "relation_ref base (wo_push kind flags words w) = relation_ref base w"
  "incidence_ref base (wo_push kind flags words w) = incidence_ref base w"
  "property_ref base (wo_push kind flags words w) = property_ref base w"
  by (simp_all add: wo_push_def)

section \<open>Creation\<close>

text \<open>The identifier handed out is the allocator's, which moves past it.\<close>

lemma create_element_cases:
  assumes "create_element w = (res, w')"
  obtains "res = Err (TxnErr (IdOverflow ElementIds))" "w' = w"
  | n where "res = Ok (ni_element (ov_next w))" "checked_next (ni_element (ov_next w)) = Some n"
    "view base w' = g_put_element \<lparr>er_id = ni_element (ov_next w), er_labels = {||}\<rparr> (view base w)"
    "ov_next w' = (ov_next w)\<lparr>ni_element := n\<rparr>" "ov_catalog w' = ov_catalog w" "ov_index w' = ov_index w"
    "ov_elements w' = fmupd (ni_element (ov_next w)) (Some \<lparr>er_id = ni_element (ov_next w), er_labels = {||}\<rparr>) (ov_elements w)"
    "ov_relations w' = ov_relations w" "ov_incidences w' = ov_incidences w"
  using assms unfolding create_element_def Let_def
  by (cases "checked_next (ni_element (ov_next w))") (auto simp: view_def g_ops wo_push_def refs_overlaid)

lemma create_relation_cases:
  assumes "create_relation w = (res, w')"
  obtains "res = Err (TxnErr (IdOverflow RelationIds))" "w' = w"
  | n where "res = Ok (ni_relation (ov_next w))" "checked_next (ni_relation (ov_next w)) = Some n"
    "view base w' = g_put_relation \<lparr>rr_id = ni_relation (ov_next w), rr_relation_type = None, rr_labels = {||}\<rparr> (view base w)"
    "ov_next w' = (ov_next w)\<lparr>ni_relation := n\<rparr>" "ov_catalog w' = ov_catalog w" "ov_index w' = ov_index w"
    "ov_relations w' = fmupd (ni_relation (ov_next w))
      (Some \<lparr>rr_id = ni_relation (ov_next w), rr_relation_type = None, rr_labels = {||}\<rparr>) (ov_relations w)"
    "ov_elements w' = ov_elements w" "ov_incidences w' = ov_incidences w"
  using assms unfolding create_relation_def Let_def
  by (cases "checked_next (ni_relation (ov_next w))") (auto simp: view_def g_ops wo_push_def refs_overlaid)

lemma create_incidence_cases:
  assumes "create_incidence r e role w = (res, w')"
  obtains "res = Err (TxnErr (IdOverflow IncidenceIds))" "w' = w"
  | n rec where "res = Ok (ni_incidence (ov_next w))" "checked_next (ni_incidence (ov_next w)) = Some n"
    "rec = \<lparr>ir_id = ni_incidence (ov_next w), ir_relation = r, ir_element = e, ir_role = role\<rparr>"
    "view base w' = g_put_incidence rec (view base w)"
    "ov_next w' = (ov_next w)\<lparr>ni_incidence := n\<rparr>" "ov_catalog w' = ov_catalog w"
    "ov_index w' = on_create_incidence (ni_incidence (ov_next w)) r e (ov_index w)"
    "ov_incidences w' = fmupd (ni_incidence (ov_next w)) (Some rec) (ov_incidences w)"
    "ov_elements w' = ov_elements w" "ov_relations w' = ov_relations w"
  using assms unfolding create_incidence_def Let_def
  by (cases "checked_next (ni_incidence (ov_next w))") (auto simp: view_def g_ops wo_push_def refs_overlaid)

lemma index_agrees_fresh_element:
  assumes "index_agrees base w" "element_ref base w i = None" "ov_index w' = ov_index w"
    "view base w' = g_put_element \<lparr>er_id = i, er_labels = {||}\<rparr> (view base w)"
  shows "index_agrees base w'"
  using assms by (auto simp: index_agrees_def graph_postings_def g_put_element_def intro!: ext)

lemma index_agrees_fresh_relation:
  assumes "index_agrees base w" "relation_ref base w i = None" "ov_index w' = ov_index w"
    "view base w' = g_put_relation \<lparr>rr_id = i, rr_relation_type = None, rr_labels = {||}\<rparr> (view base w)"
  shows "index_agrees base w'"
  using assms by (auto simp: index_agrees_def graph_postings_def g_put_relation_def intro!: ext)

lemma index_agrees_fresh_incidence:
  assumes "index_agrees base w" "incidence_ref base w i = None" "ov_index w' = on_create_incidence i r e (ov_index w)"
    "view base w' = g_put_incidence \<lparr>ir_id = i, ir_relation = r, ir_element = e, ir_role = role\<rparr> (view base w)"
  shows "index_agrees base w'"
proof -
  have "apart (oi_equality_added (ov_index w')) (oi_equality_removed (ov_index w'))"
    using assms(1,3) by (simp add: index_agrees_def on_create_incidence_def)
  then show ?thesis
    using assms by (auto simp: index_agrees_def index_steps with_member_def graph_postings_def g_put_incidence_def
        intro!: postings.equality ext)
qed

lemma fresh_refs:
  assumes "ids_below base ov"
  shows "element_ref base ov (ni_element (ov_next ov)) = None"
    and "relation_ref base ov (ni_relation (ov_next ov)) = None"
    and "incidence_ref base ov (ni_incidence (ov_next ov)) = None"
  using refs_below [OF assms] by (meson order_less_irrefl)+

lemma graph_ok_put:
  assumes "graph_ok c g"
  shows "labels_exist c (er_labels r) \<Longrightarrow> graph_ok c (g_put_element r g)"
    and "labels_exist c (rr_labels q) \<Longrightarrow> type_exists c (rr_relation_type q) \<Longrightarrow> graph_ok c (g_put_relation q g)"
    and "g_relation g (ir_relation n) \<noteq> None \<Longrightarrow> g_element g (ir_element n) \<noteq> None \<Longrightarrow> cat_role c (ir_role n) \<noteq> None \<Longrightarrow>
      graph_ok c (g_put_incidence n g)"
proof -
  have "subject_present (g_put_element r g) s \<and> subject_present (g_put_relation q g) s \<and> subject_present (g_put_incidence n g) s"
    if "subject_present g s" for s
    using that by (cases s) (auto simp: g_ops)
  then show "labels_exist c (er_labels r) \<Longrightarrow> graph_ok c (g_put_element r g)"
    and "labels_exist c (rr_labels q) \<Longrightarrow> type_exists c (rr_relation_type q) \<Longrightarrow> graph_ok c (g_put_relation q g)"
    and "g_relation g (ir_relation n) \<noteq> None \<Longrightarrow> g_element g (ir_element n) \<noteq> None \<Longrightarrow> cat_role c (ir_role n) \<noteq> None \<Longrightarrow>
      graph_ok c (g_put_incidence n g)"
    using assms by (auto simp: graph_ok_def g_ops split: if_splits)
qed

lemma labels_exist_empty [simp]: "labels_exist c {||}" "type_exists c None"
  by (simp_all add: labels_exist_def type_exists_def)

text \<open>A move of an allocator keeps what lies below it.\<close>

lemma writer_ok_create_element:
  assumes "writer_ok base w" "create_element w = (res, w')"
  shows "writer_ok base w'"
  using assms(2)
proof (cases rule: create_element_cases [where base = base])
  case (2 n)
  have ok: "overlay_ok base w" "ids_below base w" "catalog_ok (ov_catalog w) (ov_next w)"
    using assms(1) by (simp_all add: writer_ok_def state_ok_def)
  have "index_agrees base w'"
    by (rule index_agrees_fresh_element [OF _ fresh_refs(1) [OF ok(2)] 2(6) 2(3)]) (use ok in \<open>simp add: overlay_ok_def\<close>)
  then have "overlay_ok base w'" using ok(1) 2 by (simp add: overlay_ok_def keyed_delta_upd_Some)
  moreover have "ids_below base w'"
    using ok(2) 2 unfolding ids_below_def by (simp add: all_below_fresh)
  moreover have "catalog_ok (ov_catalog w') (ov_next w')" using ok(3) 2 by (simp add: catalog_ok_def)
  moreover have "graph_ok (ov_catalog w') (view base w')"
    using assms(1) 2 by (simp add: writer_ok_def graph_ok_put)
  ultimately show ?thesis using assms(1) by (simp add: writer_ok_def state_ok_def)
qed (use assms(1) in simp)

lemma writer_ok_create_relation:
  assumes "writer_ok base w" "create_relation w = (res, w')"
  shows "writer_ok base w'"
  using assms(2)
proof (cases rule: create_relation_cases [where base = base])
  case (2 n)
  have ok: "overlay_ok base w" "ids_below base w" "catalog_ok (ov_catalog w) (ov_next w)"
    using assms(1) by (simp_all add: writer_ok_def state_ok_def)
  have "index_agrees base w'"
    by (rule index_agrees_fresh_relation [OF _ fresh_refs(2) [OF ok(2)] 2(6) 2(3)]) (use ok in \<open>simp add: overlay_ok_def\<close>)
  then have "overlay_ok base w'" using ok(1) 2 by (simp add: overlay_ok_def keyed_delta_upd_Some)
  moreover have "ids_below base w'"
    using ok(2) 2 unfolding ids_below_def by (simp add: all_below_fresh)
  moreover have "catalog_ok (ov_catalog w') (ov_next w')" using ok(3) 2 by (simp add: catalog_ok_def)
  moreover have "graph_ok (ov_catalog w') (view base w')"
    using assms(1) 2 by (simp add: writer_ok_def graph_ok_put)
  ultimately show ?thesis using assms(1) by (simp add: writer_ok_def state_ok_def)
qed (use assms(1) in simp)

lemma writer_ok_create_incidence:
  assumes "writer_ok base w" "create_incidence r e role w = (res, w')"
    and "relation_ref base w r \<noteq> None" "element_ref base w e \<noteq> None" "cat_role (ov_catalog w) role \<noteq> None"
  shows "writer_ok base w'"
  using assms(2)
proof (cases rule: create_incidence_cases [where base = base])
  case (2 n rec)
  have ok: "overlay_ok base w" "ids_below base w" "catalog_ok (ov_catalog w) (ov_next w)"
    using assms(1) by (simp_all add: writer_ok_def state_ok_def)
  have "index_agrees base w'"
    by (rule index_agrees_fresh_incidence [OF _ fresh_refs(3) [OF ok(2)] 2(7) 2(4) [unfolded 2(3)]])
      (use ok in \<open>simp add: overlay_ok_def\<close>)
  then have "overlay_ok base w'" using ok(1) 2 by (simp add: overlay_ok_def keyed_delta_upd_Some)
  moreover have "ids_below base w'"
    using ok(2) 2 unfolding ids_below_def by (simp add: all_below_fresh)
  moreover have "catalog_ok (ov_catalog w') (ov_next w')" using ok(3) 2 by (simp add: catalog_ok_def)
  moreover have "graph_ok (ov_catalog w') (view base w')"
    using assms 2 by (simp add: writer_ok_def graph_ok_put)
  ultimately show ?thesis using assms(1) by (simp add: writer_ok_def state_ok_def)
qed (use assms(1) in simp)

section \<open>Cascades\<close>

text \<open>A set of incidences removed, and a record removed with the incidences on it.\<close>

definition g_drop_incidences :: "incidence_id set \<Rightarrow> graph \<Rightarrow> graph" where
  "g_drop_incidences S g =
     g\<lparr>g_incidence := (\<lambda>i. if i \<in> S then None else g_incidence g i),
       g_property := (\<lambda>s. case s of Incidence i \<Rightarrow> (if i \<in> S then Map.empty else g_property g s) | _ \<Rightarrow> g_property g s)\<rparr>"

definition g_remove_element :: "element_id \<Rightarrow> graph \<Rightarrow> graph" where
  "g_remove_element e g =
     g_drop_incidences {i. \<exists>r. g_incidence g i = Some r \<and> ir_element r = e} (g_drop_element e g)"

definition g_remove_relation :: "relation_id \<Rightarrow> graph \<Rightarrow> graph" where
  "g_remove_relation q g =
     g_drop_incidences {i. \<exists>r. g_incidence g i = Some r \<and> ir_relation r = q} (g_drop_relation q g)"

lemma fold_g_drop_incidence: "fold g_drop_incidence ids g = g_drop_incidences (set ids) g"
proof (induction ids arbitrary: g)
  case Nil
  show ?case by (auto simp: g_drop_incidences_def intro!: graph.equality ext split: property_subject.split)
next
  case (Cons i ids)
  have "g_drop_incidences (set ids) (g_drop_incidence i g) = g_drop_incidences (set (i # ids)) g"
    by (auto simp: g_drop_incidences_def g_drop_incidence_def intro!: graph.equality ext split: property_subject.split)
  then show ?case by (simp add: Cons)
qed

lemma tombstone_effects [simp]:
  "view base (tombstone_element base e w) = g_drop_element e (view base w)"
  "view base (tombstone_relation base q w) = g_drop_relation q (view base w)"
  "view base (tombstone_incidence base i w) = g_drop_incidence i (view base w)"
  "ov_catalog (tombstone_element base e w) = ov_catalog w" "ov_next (tombstone_element base e w) = ov_next w"
  "ov_catalog (tombstone_relation base q w) = ov_catalog w" "ov_next (tombstone_relation base q w) = ov_next w"
  "ov_catalog (tombstone_incidence base i w) = ov_catalog w" "ov_next (tombstone_incidence base i w) = ov_next w"
  by (simp_all add: tombstone_element_def tombstone_relation_def tombstone_incidence_def view_inner)

lemma incidence_ref_after [simp]:
  "incidence_ref base (tombstone_element base e w) = incidence_ref base w"
  "incidence_ref base (tombstone_relation base q w) = incidence_ref base w"
  "incidence_ref base (tombstone_incidence base i w) = (incidence_ref base w)(i := None)"
  by (simp_all add: tombstone_element_def tombstone_relation_def tombstone_incidence_def refs_overlaid wo_push_def)

lemma tombstone_incidences:
  assumes "state_ok base w" "distinct ids" "\<forall>i \<in> set ids. incidence_ref base w i \<noteq> None"
  shows "state_ok base (fold (tombstone_incidence base) ids w)"
    and "view base (fold (tombstone_incidence base) ids w) = g_drop_incidences (set ids) (view base w)"
    and "ov_catalog (fold (tombstone_incidence base) ids w) = ov_catalog w"
    and "ov_next (fold (tombstone_incidence base) ids w) = ov_next w"
proof -
  show "state_ok base (fold (tombstone_incidence base) ids w)" using assms
  proof (induction ids arbitrary: w)
    case (Cons i ids)
    then have "state_ok base (tombstone_incidence base i w)"
      by (simp add: tombstone_incidence_def state_ok_tombstones)
    moreover have "\<forall>j \<in> set ids. incidence_ref base (tombstone_incidence base i w) j \<noteq> None" using Cons.prems by auto
    ultimately show ?case using Cons by simp
  qed simp
  have "view base (fold (tombstone_incidence base) ids w) = fold g_drop_incidence ids (view base w)"
    by (induction ids arbitrary: w) simp_all
  then show "view base (fold (tombstone_incidence base) ids w) = g_drop_incidences (set ids) (view base w)"
    by (simp add: fold_g_drop_incidence)
  show "ov_catalog (fold (tombstone_incidence base) ids w) = ov_catalog w"
    "ov_next (fold (tombstone_incidence base) ids w) = ov_next w"
    by (induction ids arbitrary: w) simp_all
qed

lemma graph_ok_remove:
  assumes "graph_ok c g"
  shows "graph_ok c (g_remove_element e g)" and "graph_ok c (g_remove_relation q g)"
    and "graph_ok c (g_drop_incidence i g)"
proof -
  note ok = assms [unfolded graph_ok_def]
  have present: "subject_present g s" "fits_key c s k v" if "g_property g s k = Some v" for s k v
    using ok that by blast+
  have refs: "g_relation g (ir_relation r) \<noteq> None" "g_element g (ir_element r) \<noteq> None" "cat_role c (ir_role r) \<noteq> None"
    if "g_incidence g i = Some r" for i r using ok that by blast+
  show "graph_ok c (g_remove_element e g)"
    unfolding graph_ok_def
  proof (intro conjI allI impI)
    fix s k v assume held: "g_property (g_remove_element e g) s k = Some v"
    then have "g_property g s k = Some v"
      by (cases s) (auto simp: g_remove_element_def g_drop_incidences_def g_drop_element_def split: if_splits)
    then show "fits_key c s k v" by (rule present)
    show "subject_present (g_remove_element e g) s"
      using held present(1) [of s k v]
      by (cases s) (auto simp: g_remove_element_def g_drop_incidences_def g_drop_element_def split: if_splits)
  qed (use ok refs in \<open>auto simp: g_remove_element_def g_drop_incidences_def g_drop_element_def split: if_splits\<close>)
  show "graph_ok c (g_remove_relation q g)"
    unfolding graph_ok_def
  proof (intro conjI allI impI)
    fix s k v assume held: "g_property (g_remove_relation q g) s k = Some v"
    then have "g_property g s k = Some v"
      by (cases s) (auto simp: g_remove_relation_def g_drop_incidences_def g_drop_relation_def split: if_splits)
    then show "fits_key c s k v" by (rule present)
    show "subject_present (g_remove_relation q g) s"
      using held present(1) [of s k v]
      by (cases s) (auto simp: g_remove_relation_def g_drop_incidences_def g_drop_relation_def split: if_splits)
  qed (use ok refs in \<open>auto simp: g_remove_relation_def g_drop_incidences_def g_drop_relation_def split: if_splits\<close>)
  show "graph_ok c (g_drop_incidence i g)"
    unfolding graph_ok_def
  proof (intro conjI allI impI)
    fix s k v assume held: "g_property (g_drop_incidence i g) s k = Some v"
    then have "g_property g s k = Some v" by (cases s) (auto simp: g_drop_incidence_def split: if_splits)
    then show "fits_key c s k v" by (rule present)
    show "subject_present (g_drop_incidence i g) s"
      using held present(1) [of s k v] by (cases s) (auto simp: g_drop_incidence_def split: if_splits)
  qed (use ok refs in \<open>auto simp: g_drop_incidence_def split: if_splits\<close>)
qed

end
