(* ===== verification/DbTransaction.thy ===== *)
theory DbTransaction
  imports DbInvariant
begin

text \<open>
  What a writer transaction can do to the database: its operations as one relation on the delta, the
  invariant along it, and what each operation does to the graph.
\<close>

section \<open>Registration\<close>

lemma named_ok_fresh: "named_ok ident nm defs names i \<Longrightarrow> fmlookup defs i = None"
  unfolding named_ok_def by (metis not_None_eq order_less_irrefl)

lemma catalog_insert_grows:
  assumes "catalog_ok c n"
  shows "insert_role (ni_role n) name c = Ok c' \<Longrightarrow> checked_next (ni_role n) = Some j \<Longrightarrow>
      catalog_ok c' (n\<lparr>ni_role := j\<rparr>) \<and> catalog_le c c'"
    and "insert_label (ni_label n) name c = Ok c' \<Longrightarrow> checked_next (ni_label n) = Some j \<Longrightarrow>
      catalog_ok c' (n\<lparr>ni_label := j\<rparr>) \<and> catalog_le c c'"
    and "insert_relation_type (ni_relation_type n) name c = Ok c' \<Longrightarrow> checked_next (ni_relation_type n) = Some j \<Longrightarrow>
      catalog_ok c' (n\<lparr>ni_relation_type := j\<rparr>) \<and> catalog_le c c'"
    and "insert_property_key kd c = Ok c' \<Longrightarrow> pk_def_id kd = ni_property_key n \<Longrightarrow> checked_next (ni_property_key n) = Some j \<Longrightarrow>
      catalog_ok c' (n\<lparr>ni_property_key := j\<rparr>) \<and> catalog_le c c'"
    and "insert_projection (ni_projection n) pd c = Ok c' \<Longrightarrow> checked_next (ni_projection n) = Some j \<Longrightarrow>
      catalog_ok c' (n\<lparr>ni_projection := j\<rparr>) \<and> catalog_le c c'"
    and "insert_index (ni_index n) name xd c = Ok c' \<Longrightarrow> checked_next (ni_index n) = Some j \<Longrightarrow>
      catalog_ok c' (n\<lparr>ni_index := j\<rparr>) \<and> catalog_le c c'"
proof -
  note ok = assms [unfolded catalog_ok_def]
  have grows: "fmlookup m \<subseteq>\<^sub>m fmlookup (fmupd i d m)" if "fmlookup m i = None" for i d and m :: "('k, 'd) fmap"
    using that by (auto simp: map_le_def dom_def)
  have named: "named_ok ident nm (fmupd i d defs) (fmupd name i names) j \<and> fmlookup defs \<subseteq>\<^sub>m fmlookup (fmupd i d defs)"
    if "named_ok ident nm defs names i" "checked_next i = Some j" "fmlookup names name = None" "ident d = i" "nm d = name"
    for ident :: "'d \<Rightarrow> u64" and nm defs names i j d name
    using named_ok_insert [OF that(1,2) _ that(4)] named_ok_fresh [OF that(1)] that(3,5) grows by simp
  show "insert_role (ni_role n) name c = Ok c' \<Longrightarrow> checked_next (ni_role n) = Some j \<Longrightarrow>
      catalog_ok c' (n\<lparr>ni_role := j\<rparr>) \<and> catalog_le c c'"
    using ok by (auto simp: catalog_inserts catalog_ok_def catalog_le_def named)
  show "insert_label (ni_label n) name c = Ok c' \<Longrightarrow> checked_next (ni_label n) = Some j \<Longrightarrow>
      catalog_ok c' (n\<lparr>ni_label := j\<rparr>) \<and> catalog_le c c'"
    using ok by (auto simp: catalog_inserts catalog_ok_def catalog_le_def named)
  show "insert_relation_type (ni_relation_type n) name c = Ok c' \<Longrightarrow> checked_next (ni_relation_type n) = Some j \<Longrightarrow>
      catalog_ok c' (n\<lparr>ni_relation_type := j\<rparr>) \<and> catalog_le c c'"
    using ok by (auto simp: catalog_inserts catalog_ok_def catalog_le_def named)
  show "insert_property_key kd c = Ok c' \<Longrightarrow> pk_def_id kd = ni_property_key n \<Longrightarrow> checked_next (ni_property_key n) = Some j \<Longrightarrow>
      catalog_ok c' (n\<lparr>ni_property_key := j\<rparr>) \<and> catalog_le c c'"
    using ok by (auto simp: catalog_inserts catalog_ok_def catalog_le_def named)
  show "insert_projection (ni_projection n) pd c = Ok c' \<Longrightarrow> checked_next (ni_projection n) = Some j \<Longrightarrow>
      catalog_ok c' (n\<lparr>ni_projection := j\<rparr>) \<and> catalog_le c c'"
    using ok by (auto simp: catalog_inserts catalog_ok_def catalog_le_def named)
  show "insert_index (ni_index n) name xd c = Ok c' \<Longrightarrow> checked_next (ni_index n) = Some j \<Longrightarrow>
      catalog_ok c' (n\<lparr>ni_index := j\<rparr>) \<and> catalog_le c c'"
    using ok by (auto simp: catalog_inserts catalog_ok_def catalog_le_def named)
qed

text \<open>A registration that fails keeps the catalog, and its identifier is not handed out again.\<close>

lemma catalog_ok_next_mono:
  assumes "catalog_ok c n"
  shows "ni_role n \<le> j \<Longrightarrow> catalog_ok c (n\<lparr>ni_role := j\<rparr>)" and "ni_label n \<le> j \<Longrightarrow> catalog_ok c (n\<lparr>ni_label := j\<rparr>)"
    and "ni_relation_type n \<le> j \<Longrightarrow> catalog_ok c (n\<lparr>ni_relation_type := j\<rparr>)"
    and "ni_property_key n \<le> j \<Longrightarrow> catalog_ok c (n\<lparr>ni_property_key := j\<rparr>)"
    and "ni_projection n \<le> j \<Longrightarrow> catalog_ok c (n\<lparr>ni_projection := j\<rparr>)"
    and "ni_index n \<le> j \<Longrightarrow> catalog_ok c (n\<lparr>ni_index := j\<rparr>)"
  using assms unfolding catalog_ok_def by (auto intro: named_ok_mono)

text \<open>What a registration may change: the catalog, which grows, the allocators, which rise, and the log.\<close>

definition registers :: "write_overlay \<Rightarrow> write_overlay \<Rightarrow> bool" where
  "registers w w' \<longleftrightarrow>
     ov_elements w' = ov_elements w \<and> ov_relations w' = ov_relations w \<and> ov_incidences w' = ov_incidences w \<and>
     ov_properties w' = ov_properties w \<and> ov_index w' = ov_index w \<and>
     ni_element (ov_next w') = ni_element (ov_next w) \<and> ni_relation (ov_next w') = ni_relation (ov_next w) \<and>
     ni_incidence (ov_next w') = ni_incidence (ov_next w) \<and> watermark_le (ov_next w) (ov_next w') \<and>
     catalog_le (ov_catalog w) (ov_catalog w') \<and> catalog_ok (ov_catalog w') (ov_next w')"

lemma registers_view: "registers w w' \<Longrightarrow> view base w' = view base w"
  by (simp add: registers_def view_def refs_overlaid)

lemma writer_ok_registers: "writer_ok base w \<Longrightarrow> registers w w' \<Longrightarrow> writer_ok base w'"
  using registers_view [of w w' base]
  by (auto simp: writer_ok_def state_ok_def overlay_ok_def index_agrees_def ids_below_def registers_def intro: graph_ok_mono)

lemma registrations:
  assumes ok: "catalog_ok (ov_catalog w) (ov_next w)"
  shows "registers w (snd (register_role name w))" and "registers w (snd (register_label name w))"
    and "registers w (snd (register_relation_type name w))" and "registers w (snd (register_property_key name family ty w))"
    and "registers w (snd (register_projection pd w))" and "registers w (snd (register_index name xd w))"
proof -
  note grows = catalog_insert_grows [OF ok] and kept = catalog_ok_next_mono [OF ok]
  have rises: "i \<le> j" if "checked_next i = Some j" for i j using checked_next_greater [OF that] by simp
  note defs = registers_def watermark_le_def wo_push_def log_intern_def log_intern_words_def rises
  show "registers w (snd (register_role name w))"
    using grows(1) kept(1) ok by (auto simp: register_role_def defs Let_def split: option.split sum.split)
  show "registers w (snd (register_label name w))"
    using grows(2) kept(2) ok by (auto simp: register_label_def defs Let_def split: option.split sum.split)
  show "registers w (snd (register_relation_type name w))"
    using grows(3) kept(3) ok by (auto simp: register_relation_type_def defs Let_def split: option.split sum.split)
  show "registers w (snd (register_property_key name family ty w))"
    using grows(4) kept(4) ok by (auto simp: register_property_key_def defs Let_def split: option.split sum.split)
  show "registers w (snd (register_projection pd w))"
    using grows(5) kept(5) ok
    by (auto simp: register_projection_def defs Let_def case_prod_unfold split: option.split sum.split)
  show "registers w (snd (register_index name xd w))"
    using grows(6) kept(6) ok
    by (auto simp: register_index_def defs Let_def case_prod_unfold split: option.split sum.split)
qed

section \<open>Specifications of writer operations\<close>

text \<open>
  From a delta with the precondition, an operation that returns leaves its result and delta with the
  postcondition, and one that fails leaves its delta with the error condition.
\<close>

definition spec ::
    "(write_overlay \<Rightarrow> bool) \<Rightarrow> 'a writer \<Rightarrow> ('a \<Rightarrow> write_overlay \<Rightarrow> bool) \<Rightarrow> (write_overlay \<Rightarrow> bool) \<Rightarrow> bool" where
  "spec P m Q E \<longleftrightarrow> (\<forall>w a. P w \<longrightarrow> fst (m w) = Ok a \<longrightarrow> Q a (snd (m w))) \<and>
     (\<forall>w e. P w \<longrightarrow> fst (m w) = Err e \<longrightarrow> E (snd (m w)))"

lemma specI:
  "(\<And>w a. P w \<Longrightarrow> fst (m w) = Ok a \<Longrightarrow> Q a (snd (m w))) \<Longrightarrow> (\<And>w e. P w \<Longrightarrow> fst (m w) = Err e \<Longrightarrow> E (snd (m w))) \<Longrightarrow>
     spec P m Q E"
  by (simp add: spec_def)

lemma specD: "spec P m Q E \<Longrightarrow> P w \<Longrightarrow> fst (m w) = Ok a \<Longrightarrow> Q a (snd (m w))"
  "spec P m Q E \<Longrightarrow> P w \<Longrightarrow> fst (m w) = Err e \<Longrightarrow> E (snd (m w))"
  by (simp_all add: spec_def)

lemma spec_then_do: "spec P m R E \<Longrightarrow> (\<And>a. spec (R a) (f a) Q E) \<Longrightarrow> spec P (then_do m f) Q E"
proof (rule specI)
  fix w b assume "P w" "spec P m R E" "\<And>a. spec (R a) (f a) Q E" "fst (then_do m f w) = Ok b"
  then show "Q b (snd (then_do m f w))"
    by (cases "fst (m w)") (auto simp: then_do_def case_prod_unfold dest: specD)
next
  fix w e assume "P w" "spec P m R E" "\<And>a. spec (R a) (f a) Q E" "fst (then_do m f w) = Err e"
  then show "E (snd (then_do m f w))"
    by (cases "fst (m w)") (auto simp: then_do_def case_prod_unfold dest: specD)
qed

lemma spec_checked:
  "(\<And>a. spec (\<lambda>w. P w \<and> check w = Ok a) (f a) Q E) \<Longrightarrow> (\<And>w. P w \<Longrightarrow> E w) \<Longrightarrow> spec P (checked check f) Q E"
  unfolding checked_def by (rule specI) (auto split: sum.splits dest: specD)

lemma spec_yields: "(\<And>w. P w \<Longrightarrow> Q a w) \<Longrightarrow> spec P (yields a) Q E"
  by (simp add: spec_def yields_def)

lemma spec_updates: "(\<And>w. P w \<Longrightarrow> Q () (f w)) \<Longrightarrow> spec P (updates f) Q E"
  by (simp add: spec_def updates_def)

lemma spec_each: "(\<And>x. x \<in> set xs \<Longrightarrow> spec P (f x) (\<lambda>_. P) E) \<Longrightarrow> spec P (each f xs) (\<lambda>_. P) E"
  by (induction xs) (auto intro: spec_yields spec_then_do)

lemma spec_weaken:
  "spec P m Q E \<Longrightarrow> (\<And>w. P' w \<Longrightarrow> P w) \<Longrightarrow> (\<And>a w. Q a w \<Longrightarrow> Q' a w) \<Longrightarrow> (\<And>w. E w \<Longrightarrow> E' w) \<Longrightarrow> spec P' m Q' E'"
  unfolding spec_def by blast

text \<open>Every outcome keeps the invariant.\<close>

definition keeps_ok :: "base_records \<Rightarrow> 'a writer \<Rightarrow> bool" where
  "keeps_ok base m \<longleftrightarrow> spec (writer_ok base) m (\<lambda>_. writer_ok base) (writer_ok base)"

lemma keeps_ok_iff: "keeps_ok base m \<longleftrightarrow> (\<forall>w. writer_ok base w \<longrightarrow> writer_ok base (snd (m w)))"
  unfolding keeps_ok_def spec_def by (metis sum.exhaust)

lemma keeps_ok_then_do: "keeps_ok base m \<Longrightarrow> (\<And>a. keeps_ok base (f a)) \<Longrightarrow> keeps_ok base (then_do m f)"
  unfolding keeps_ok_def by (rule spec_then_do)

lemma keeps_ok_checked: "(\<And>a. keeps_ok base (f a)) \<Longrightarrow> keeps_ok base (checked check f)"
  unfolding keeps_ok_def by (rule spec_checked) (auto intro: spec_weaken)

lemma keeps_ok_yields [simp]: "keeps_ok base (yields a)"
  by (simp add: keeps_ok_def spec_yields)

lemma keeps_ok_each: "(\<And>x. x \<in> set xs \<Longrightarrow> keeps_ok base (f x)) \<Longrightarrow> keeps_ok base (each f xs)"
  unfolding keeps_ok_def by (rule spec_each)

lemmas keeps_ok_rules = keeps_ok_then_do keeps_ok_checked keeps_ok_yields keeps_ok_each

lemma keeps_ok_registrations:
  "keeps_ok base (register_role name)" "keeps_ok base (register_label name)" "keeps_ok base (register_relation_type name)"
  "keeps_ok base (register_property_key name family ty)" "keeps_ok base (w_define_projection pd)"
  "keeps_ok base (w_define_index name xd)"
proof -
  have catalog: "catalog_ok (ov_catalog w) (ov_next w)" if "writer_ok base w" for w :: write_overlay
    using that by (simp add: writer_ok_def state_ok_def)
  note step = writer_ok_registers registrations [OF catalog]
  show "keeps_ok base (register_role name)" "keeps_ok base (register_label name)" "keeps_ok base (register_relation_type name)"
    "keeps_ok base (register_property_key name family ty)"
    unfolding keeps_ok_iff by (blast intro: step)+
  have "keeps_ok base (register_projection pd)" "keeps_ok base (register_index name xd)"
    unfolding keeps_ok_iff by (blast intro: step)+
  then show "keeps_ok base (w_define_projection pd)" "keeps_ok base (w_define_index name xd)"
    by (simp_all add: w_define_projection_def w_define_index_def keeps_ok_checked)
qed

lemma keeps_ok_creates: "keeps_ok base create_element" "keeps_ok base create_relation"
  unfolding keeps_ok_iff
  by (metis prod.collapse writer_ok_create_element) (metis prod.collapse writer_ok_create_relation)

section \<open>What each operation does\<close>

lemma writer_okD:
  assumes "writer_ok base w"
  shows "base_ok base" "state_ok base w" "overlay_ok base w" "graph_ok (ov_catalog w) (view base w)"
  using assms by (simp_all add: writer_ok_def state_ok_def)

lemma contains_iff: "contains_element base w i \<longleftrightarrow> g_element (view base w) i \<noteq> None"
  "contains_relation base w i \<longleftrightarrow> g_relation (view base w) i \<noteq> None"
  "contains_incidence base w i \<longleftrightarrow> g_incidence (view base w) i \<noteq> None"
  by (simp_all add: contains_defs)

lemma require_Ok_iff [simp]:
  "require_element base i w = Ok u \<longleftrightarrow> element_ref base w i \<noteq> None"
  "require_relation base i w = Ok u \<longleftrightarrow> relation_ref base w i \<noteq> None"
  "require_incidence base i w = Ok u \<longleftrightarrow> incidence_ref base w i \<noteq> None"
  "require_role i w = Ok u \<longleftrightarrow> cat_role (ov_catalog w) i \<noteq> None"
  "require_label i w = Ok u \<longleftrightarrow> cat_label (ov_catalog w) i \<noteq> None"
  "require_relation_type i w = Ok u \<longleftrightarrow> cat_relation_type (ov_catalog w) i \<noteq> None"
  "require_property_key i w = Ok u \<longleftrightarrow> cat_property_key (ov_catalog w) i \<noteq> None"
  by (simp_all add: requires contains_defs)

lemma require_subject_Ok_iff [simp]: "require_subject base s w = Ok u \<longleftrightarrow> subject_present (view base w) s"
  by (cases s) simp_all

lemma property_fits_Ok_iff [simp]: "property_fits s k v w = Ok u \<longleftrightarrow> fits_key (ov_catalog w) s k v"
  by (cases "cat_property_key (ov_catalog w) k") (auto simp: property_fits_def fits_key_def)

text \<open>The ids a cascade collects.\<close>

lemma cascade_ids:
  assumes "base_ok base" "overlay_ok base w"
  shows "set (map ir_id (st_element_incidences base w e)) = {i. \<exists>r. incidence_ref base w i = Some r \<and> ir_element r = e}"
    and "set (map ir_id (st_relation_incidences base w q)) = {i. \<exists>r. incidence_ref base w i = Some r \<and> ir_relation r = q}"
    and "distinct (map ir_id (st_element_incidences base w e))" "distinct (map ir_id (st_relation_incidences base w q))"
proof -
  note adjacency = layered_adjacency [OF assms] and keyed = layered_keyed(3) [OF assms]
  have "set (st_element_incidences base w e) = {n. incidence_ref base w (ir_id n) = Some n \<and> ir_element n = e}"
    "set (st_relation_incidences base w q) = {n. incidence_ref base w (ir_id n) = Some n \<and> ir_relation n = q}"
    using adjacency(1,3) by blast+
  then show "set (map ir_id (st_element_incidences base w e)) = {i. \<exists>r. incidence_ref base w i = Some r \<and> ir_element r = e}"
    "set (map ir_id (st_relation_incidences base w q)) = {i. \<exists>r. incidence_ref base w i = Some r \<and> ir_relation r = q}"
    using keyed by (auto simp: image_iff) (metis keyed)+
  show "distinct (map ir_id (st_element_incidences base w e))" "distinct (map ir_id (st_relation_incidences base w q))"
    using adjacency(2,4) by (simp_all add: strict_sorted_iff)
qed

lemma checked_simps: "checked check f w = (case check w of Err e \<Rightarrow> (Err e, w) | Ok a \<Rightarrow> f a w)"
  by (simp add: checked_def)

text \<open>Each guarded mutation either refuses and changes nothing, or does its work on the graph.\<close>

lemma tombstone_element_outcome:
  assumes "writer_ok base w"
  shows "(element_ref base w e = None \<and> w_tombstone_element base e w = (Err (unknown ElementIds e), w)) \<or>
    (element_ref base w e \<noteq> None \<and> fst (w_tombstone_element base e w) = Ok () \<and>
     view base (snd (w_tombstone_element base e w)) = g_remove_element e (view base w) \<and>
     ov_catalog (snd (w_tombstone_element base e w)) = ov_catalog w \<and> ov_next (snd (w_tombstone_element base e w)) = ov_next w \<and>
     state_ok base (snd (w_tombstone_element base e w)))"
proof (cases "element_ref base w e")
  case None
  then show ?thesis by (simp add: w_tombstone_element_def checked_simps requires contains_defs)
next
  case (Some r)
  let ?ids = "map ir_id (st_element_incidences base w e)"
  note ids = cascade_ids [OF writer_okD(1) [OF assms] writer_okD(3) [OF assms]]
  have "state_ok base (tombstone_element base e w)"
    unfolding tombstone_element_def using Some writer_okD(2) [OF assms] by (simp add: state_ok_tombstones)
  moreover have "\<forall>i \<in> set ?ids. incidence_ref base (tombstone_element base e w) i \<noteq> None" unfolding ids(1) by auto
  ultimately show ?thesis
    using tombstone_incidences [OF _ ids(3), where base = base and w = "tombstone_element base e w"] Some
    by (auto simp: w_tombstone_element_def checked_simps updates_def requires contains_defs g_remove_element_def ids(1) simp del: set_map)
qed

lemma tombstone_relation_outcome:
  assumes "writer_ok base w"
  shows "(relation_ref base w q = None \<and> w_tombstone_relation base q w = (Err (unknown RelationIds q), w)) \<or>
    (relation_ref base w q \<noteq> None \<and> fst (w_tombstone_relation base q w) = Ok () \<and>
     view base (snd (w_tombstone_relation base q w)) = g_remove_relation q (view base w) \<and>
     ov_catalog (snd (w_tombstone_relation base q w)) = ov_catalog w \<and> ov_next (snd (w_tombstone_relation base q w)) = ov_next w \<and>
     state_ok base (snd (w_tombstone_relation base q w)))"
proof (cases "relation_ref base w q")
  case None
  then show ?thesis by (simp add: w_tombstone_relation_def checked_simps requires contains_defs)
next
  case (Some r)
  let ?ids = "map ir_id (st_relation_incidences base w q)"
  note ids = cascade_ids [OF writer_okD(1) [OF assms] writer_okD(3) [OF assms]]
  have "state_ok base (tombstone_relation base q w)"
    unfolding tombstone_relation_def using Some writer_okD(2) [OF assms] by (simp add: state_ok_tombstones)
  moreover have "\<forall>i \<in> set ?ids. incidence_ref base (tombstone_relation base q w) i \<noteq> None" unfolding ids(2) by auto
  ultimately show ?thesis
    using tombstone_incidences [OF _ ids(4), where base = base and w = "tombstone_relation base q w"] Some
    by (auto simp: w_tombstone_relation_def checked_simps updates_def requires contains_defs g_remove_relation_def ids(2) simp del: set_map)
qed

lemma tombstone_incidence_outcome:
  assumes "writer_ok base w"
  shows "(incidence_ref base w i = None \<and> w_tombstone_incidence base i w = (Err (unknown IncidenceIds i), w)) \<or>
    (incidence_ref base w i \<noteq> None \<and> fst (w_tombstone_incidence base i w) = Ok () \<and>
     view base (snd (w_tombstone_incidence base i w)) = g_drop_incidence i (view base w) \<and>
     ov_catalog (snd (w_tombstone_incidence base i w)) = ov_catalog w \<and> ov_next (snd (w_tombstone_incidence base i w)) = ov_next w \<and>
     state_ok base (snd (w_tombstone_incidence base i w)))"
  using writer_okD(2) [OF assms]
  by (cases "incidence_ref base w i")
    (simp_all add: w_tombstone_incidence_def checked_simps updates_def requires contains_defs tombstone_incidence_def
      view_inner state_ok_tombstones)

lemma keeps_ok_tombstones:
  "keeps_ok base (w_tombstone_element base e)" "keeps_ok base (w_tombstone_relation base q)"
  "keeps_ok base (w_tombstone_incidence base i)"
proof -
  show "keeps_ok base (w_tombstone_element base e)"
    unfolding keeps_ok_iff
  proof (intro allI impI)
    fix w :: write_overlay assume ok: "writer_ok base w"
    then show "writer_ok base (snd (w_tombstone_element base e w))"
      using tombstone_element_outcome [OF ok, of e] graph_ok_remove(1) [OF writer_okD(4) [OF ok]]
      by (auto simp: writer_ok_def)
  qed
  show "keeps_ok base (w_tombstone_relation base q)"
    unfolding keeps_ok_iff
  proof (intro allI impI)
    fix w :: write_overlay assume ok: "writer_ok base w"
    then show "writer_ok base (snd (w_tombstone_relation base q w))"
      using tombstone_relation_outcome [OF ok, of q] graph_ok_remove(2) [OF writer_okD(4) [OF ok]]
      by (auto simp: writer_ok_def)
  qed
  show "keeps_ok base (w_tombstone_incidence base i)"
    unfolding keeps_ok_iff
  proof (intro allI impI)
    fix w :: write_overlay assume ok: "writer_ok base w"
    then show "writer_ok base (snd (w_tombstone_incidence base i w))"
      using tombstone_incidence_outcome [OF ok, of i] graph_ok_remove(3) [OF writer_okD(4) [OF ok]]
      by (auto simp: writer_ok_def)
  qed
qed

lemma set_property_effects:
  "view base (set_property base s k v w) = g_assign s k (Some v) (view base w)"
  "ov_catalog (set_property base s k v w) = ov_catalog w" "ov_next (set_property base s k v w) = ov_next w"
  "base_ok base \<Longrightarrow> state_ok base w \<Longrightarrow> state_ok base (set_property base s k v w)"
proof -
  have triv: "g_assign s k (Some v) (view base w) = view base w" if "property_ref base w s k = Some v"
    using that by (simp add: g_assign_def fun_upd_idem)
  show "view base (set_property base s k v w) = g_assign s k (Some v) (view base w)"
    "ov_catalog (set_property base s k v w) = ov_catalog w" "ov_next (set_property base s k v w) = ov_next w"
    "base_ok base \<Longrightarrow> state_ok base w \<Longrightarrow> state_ok base (set_property base s k v w)"
    by (auto simp: set_property_def visible_property_is_ref triv view_inner state_ok_updates Let_def case_prod_unfold)
qed

lemma remove_property_effects:
  "view base (remove_property base s k w) = g_assign s k None (view base w)"
  "ov_catalog (remove_property base s k w) = ov_catalog w"
  "base_ok base \<Longrightarrow> state_ok base w \<Longrightarrow> state_ok base (remove_property base s k w)"
  by (simp_all add: remove_property_def view_inner state_ok_updates Let_def case_prod_unfold)

lemma label_effects:
  "view base (add_element_label base e l w) = g_label_element e l (view base w)"
  "view base (add_relation_label base q l w) = g_label_relation q l (view base w)"
  "view base (set_relation_type base q t w) = g_type_relation q t (view base w)"
  "ov_catalog (add_element_label base e l w) = ov_catalog w" "ov_catalog (add_relation_label base q l w) = ov_catalog w"
  "ov_catalog (set_relation_type base q t w) = ov_catalog w"
  "base_ok base \<Longrightarrow> state_ok base w \<Longrightarrow> state_ok base (add_element_label base e l w)"
  "base_ok base \<Longrightarrow> state_ok base w \<Longrightarrow> state_ok base (add_relation_label base q l w)"
  "base_ok base \<Longrightarrow> state_ok base w \<Longrightarrow> state_ok base (set_relation_type base q t w)"
  by (simp_all add: add_element_label_def add_relation_label_def set_relation_type_def view_inner state_ok_updates)

lemma graph_ok_assign:
  assumes "graph_ok c g"
  shows "subject_present g s \<Longrightarrow> fits_key c s k v \<Longrightarrow> graph_ok c (g_assign s k (Some v) g)"
    and "graph_ok c (g_assign s k None g)"
proof -
  have "subject_present (g_assign s k x g) t \<longleftrightarrow> subject_present g t" for x t
    by (cases t) (simp_all add: g_assign_def)
  then show "subject_present g s \<Longrightarrow> fits_key c s k v \<Longrightarrow> graph_ok c (g_assign s k (Some v) g)"
    "graph_ok c (g_assign s k None g)"
    using assms by (auto simp: graph_ok_def g_assign_def split: if_splits)
qed

lemma graph_ok_label:
  assumes "graph_ok c g"
  shows "cat_label c l \<noteq> None \<Longrightarrow> graph_ok c (g_label_element e l g)"
    and "cat_label c l \<noteq> None \<Longrightarrow> graph_ok c (g_label_relation q l g)"
    and "cat_relation_type c t \<noteq> None \<Longrightarrow> graph_ok c (g_type_relation q t g)"
proof -
  have insert: "labels_exist c (finsert l ls)" if "labels_exist c ls" "cat_label c l \<noteq> None" for ls
    using that by (auto simp: labels_exist_def)
  have present: "subject_present (g_label_element e l g) s \<longleftrightarrow> subject_present g s"
    "subject_present (g_label_relation q l g) s \<longleftrightarrow> subject_present g s"
    "subject_present (g_type_relation q t g) s \<longleftrightarrow> subject_present g s" for s
    by (cases s; auto simp: g_label_element_def g_label_relation_def g_type_relation_def split: option.split)+
  note ok = assms [unfolded graph_ok_def]
  show "graph_ok c (g_label_element e l g)" if "cat_label c l \<noteq> None"
    using ok that insert by (auto simp: graph_ok_def present) (auto simp: g_label_element_def split: option.splits if_splits)
  show "graph_ok c (g_label_relation q l g)" if "cat_label c l \<noteq> None"
    using ok that insert by (auto simp: graph_ok_def present) (auto simp: g_label_relation_def split: option.splits if_splits)
  show "graph_ok c (g_type_relation q t g)" if "cat_relation_type c t \<noteq> None"
  proof -
    have "type_exists c (Some t)" using that by (simp add: type_exists_def)
    then show ?thesis
      using ok by (auto simp: graph_ok_def present) (auto simp: g_type_relation_def split: option.splits if_splits)
  qed
qed

lemma keeps_ok_updates:
  assumes "\<And>w. writer_ok base w \<Longrightarrow> check w = Ok a \<Longrightarrow> writer_ok base (f w)"
  shows "spec (\<lambda>w. writer_ok base w \<and> check w = Ok a) (updates f) (\<lambda>_. writer_ok base) (writer_ok base)"
  using assms by (auto intro: spec_updates)

lemma keeps_ok_mutations:
  "keeps_ok base (w_add_element_label base e l)" "keeps_ok base (w_add_relation_label base q l)"
  "keeps_ok base (w_set_relation_type base q t)" "keeps_ok base (w_set_property base s k v)"
  "keeps_ok base (w_remove_property base s k)" "keeps_ok base (w_create_incidence base q e role)"
proof -
  note ok = writer_okD
  show "keeps_ok base (w_add_element_label base e l)"
    unfolding keeps_ok_def w_add_element_label_def
    by (intro spec_checked spec_updates)
      (auto simp: writer_ok_def label_effects graph_ok_label)
  show "keeps_ok base (w_add_relation_label base q l)"
    unfolding keeps_ok_def w_add_relation_label_def
    by (intro spec_checked spec_updates)
      (auto simp: writer_ok_def label_effects graph_ok_label)
  show "keeps_ok base (w_set_relation_type base q t)"
    unfolding keeps_ok_def w_set_relation_type_def
    by (intro spec_checked spec_updates)
      (auto simp: writer_ok_def label_effects graph_ok_label)
  show "keeps_ok base (w_set_property base s k v)"
    unfolding keeps_ok_def w_set_property_def
    by (intro spec_checked spec_updates)
      (auto simp: writer_ok_def set_property_effects graph_ok_assign)
  show "keeps_ok base (w_remove_property base s k)"
    unfolding keeps_ok_def w_remove_property_def
    by (intro spec_checked spec_updates)
      (auto simp: writer_ok_def remove_property_effects graph_ok_assign)
  show "keeps_ok base (w_create_incidence base q e role)"
    unfolding keeps_ok_iff
  proof (intro allI impI)
    fix w :: write_overlay assume "writer_ok base w"
    then show "writer_ok base (snd (w_create_incidence base q e role w))"
      using writer_ok_create_incidence [of base w q e role "fst (create_incidence q e role w)" "snd (create_incidence q e role w)"]
      by (auto simp: w_create_incidence_def checked_simps split: sum.split)
  qed
qed

lemma keeps_ok_add_label: "keeps_ok base (w_add_label base s l)"
  by (cases s) (simp_all add: keeps_ok_mutations keeps_ok_iff [of base "\<lambda>w. (Err e, w)" for e])

lemma keeps_ok_tombstone: "keeps_ok base (w_tombstone base s)"
  by (cases s) (simp_all add: keeps_ok_tombstones)

lemma keeps_ok_reconcile:
  "keeps_ok base (w_upsert_element base index assigned)"
  "keeps_ok base (w_upsert_relation base index assigned t endpoints)"
  "keeps_ok base (w_retain base index keep)"
proof -
  show "keeps_ok base (w_upsert_element base index assigned)"
    unfolding w_upsert_element_def
    by (intro keeps_ok_checked) (auto split: option.split intro!: keeps_ok_then_do keeps_ok_creates keeps_ok_mutations)
  show "keeps_ok base (w_upsert_relation base index assigned t endpoints)"
    unfolding w_upsert_relation_def
    by (intro keeps_ok_checked)
      (auto split: option.split intro!: keeps_ok_then_do keeps_ok_each keeps_ok_creates keeps_ok_mutations)
  show "keeps_ok base (w_retain base index keep)"
    unfolding w_retain_def
    by (intro keeps_ok_checked keeps_ok_each keeps_ok_tombstone)
qed

section \<open>Transactions\<close>

text \<open>One public operation of the writer, successful or not.\<close>

inductive writer_step :: "base_records \<Rightarrow> write_overlay \<Rightarrow> write_overlay \<Rightarrow> bool" for base where
  role: "register_role name w = (r, w') \<Longrightarrow> writer_step base w w'"
| label: "register_label name w = (r, w') \<Longrightarrow> writer_step base w w'"
| relation_type: "register_relation_type name w = (r, w') \<Longrightarrow> writer_step base w w'"
| property_key: "register_property_key name family ty w = (r, w') \<Longrightarrow> writer_step base w w'"
| projection: "w_define_projection pd w = (r, w') \<Longrightarrow> writer_step base w w'"
| index: "w_define_index name xd w = (r, w') \<Longrightarrow> writer_step base w w'"
| element: "create_element w = (r, w') \<Longrightarrow> writer_step base w w'"
| relation: "create_relation w = (r, w') \<Longrightarrow> writer_step base w w'"
| incidence: "w_create_incidence base q e role w = (r, w') \<Longrightarrow> writer_step base w w'"
| tombstone: "w_tombstone base s w = (r, w') \<Longrightarrow> writer_step base w w'"
| add_label: "w_add_label base s l w = (r, w') \<Longrightarrow> writer_step base w w'"
| set_type: "w_set_relation_type base q t w = (r, w') \<Longrightarrow> writer_step base w w'"
| set: "w_set_property base s k v w = (r, w') \<Longrightarrow> writer_step base w w'"
| unset: "w_remove_property base s k w = (r, w') \<Longrightarrow> writer_step base w w'"
| upsert_element: "w_upsert_element base ix a w = (r, w') \<Longrightarrow> writer_step base w w'"
| upsert_relation: "w_upsert_relation base ix a t endpoints w = (r, w') \<Longrightarrow> writer_step base w w'"
| retain: "w_retain base ix keep w = (r, w') \<Longrightarrow> writer_step base w w'"

lemma keeps_okD: "keeps_ok base m \<Longrightarrow> writer_ok base w \<Longrightarrow> m w = (r, w') \<Longrightarrow> writer_ok base w'"
  unfolding keeps_ok_iff by (metis snd_conv)

lemma writer_step_keeps: "writer_step base w w' \<Longrightarrow> writer_ok base w \<Longrightarrow> writer_ok base w'"
proof (induction rule: writer_step.induct)
qed (auto dest: keeps_okD [rotated 2] intro: keeps_ok_registrations keeps_ok_creates keeps_ok_mutations keeps_ok_tombstone
    keeps_ok_add_label keeps_ok_reconcile)

end
