(* ===== verification/DbReplay.thy ===== *)
theory DbReplay
  imports DbTransaction
begin

text \<open>
  Replay of a transaction's log. Every operation of the writer appends to the log the ops that, applied by
  the replay path, redo on the stored delta what the live path did.
\<close>

section \<open>Relations every operation keeps\<close>

text \<open>A reflexive, transitive relation on deltas that the primitive mutators keep is kept by the whole writer.\<close>

locale writer_relation =
  fixes base :: base_records and R :: "write_overlay \<Rightarrow> write_overlay \<Rightarrow> bool"
  assumes reflexive: "R w w"
    and transitive: "R w1 w2 \<Longrightarrow> R w2 w3 \<Longrightarrow> R w1 w3"
    and roles: "R w (snd (register_role name w))"
    and labels: "R w (snd (register_label name w))"
    and relation_types: "R w (snd (register_relation_type name w))"
    and property_keys: "R w (snd (register_property_key name family ty w))"
    and projections: "R w (snd (register_projection pd w))"
    and indexes: "R w (snd (register_index name xd w))"
    and elements: "R w (snd (create_element w))"
    and relations: "R w (snd (create_relation w))"
    and incidences: "R w (snd (create_incidence q e role w))"
    and tombstoned_elements: "R w (tombstone_element base e w)"
    and tombstoned_relations: "R w (tombstone_relation base q w)"
    and tombstoned_incidences: "R w (tombstone_incidence base n w)"
    and element_labels: "R w (add_element_label base e l w)"
    and relation_labels: "R w (add_relation_label base q l w)"
    and types: "R w (set_relation_type base q t w)"
    and assigned: "R w (set_property base s k v w)"
    and removed: "R w (remove_property base s k w)"
begin

definition keeps :: "'a writer \<Rightarrow> bool" where
  "keeps m \<longleftrightarrow> (\<forall>w. R w (snd (m w)))"

lemma keeps_then_do: "keeps m \<Longrightarrow> (\<And>a. keeps (f a)) \<Longrightarrow> keeps (then_do m f)"
proof (unfold keeps_def, intro allI)
  fix w assume m: "\<forall>w. R w (snd (m w))" and f: "\<And>a. \<forall>w. R w (snd (f a w))"
  show "R w (snd (then_do m f w))"
  proof (cases "fst (m w)")
    case (Inl e)
    then show ?thesis using m by (simp add: then_do_def case_prod_unfold)
  next
    case (Inr a)
    then have "snd (then_do m f w) = snd (f a (snd (m w)))" by (simp add: then_do_def case_prod_unfold)
    moreover have "R (snd (m w)) (snd (f a (snd (m w))))" using f by blast
    ultimately show ?thesis using m transitive by metis
  qed
qed

lemma keeps_checked: "(\<And>a. keeps (f a)) \<Longrightarrow> keeps (checked check f)"
  unfolding keeps_def checked_def using reflexive by (auto split: sum.split)

lemma keeps_yields: "keeps (yields a)"
  by (simp add: keeps_def yields_def reflexive)

lemma keeps_updates: "(\<And>w. R w (f w)) \<Longrightarrow> keeps (updates f)"
  by (simp add: keeps_def updates_def)

lemma keeps_each: "(\<And>x. keeps (f x)) \<Longrightarrow> keeps (each f xs)"
  by (induction xs) (auto intro: keeps_yields keeps_then_do)

lemma fold_tombstones: "R w (fold (tombstone_incidence base) ids w)"
  by (induction ids arbitrary: w) (auto intro: reflexive transitive tombstoned_incidences)

lemma keeps_primitives:
  "keeps (register_role name)" "keeps (register_label name)" "keeps (register_relation_type name)"
  "keeps (register_property_key name family ty)" "keeps (register_projection pd)" "keeps (register_index name xd)"
  "keeps create_element" "keeps create_relation" "keeps (create_incidence q e role)"
  by (simp_all add: keeps_def roles labels relation_types property_keys projections indexes elements relations incidences)

lemma keeps_operations:
  "keeps (w_define_projection pd)" "keeps (w_define_index name xd)" "keeps (w_create_incidence base q e role)"
  "keeps (w_tombstone base s)" "keeps (w_add_label base s l)" "keeps (w_set_relation_type base q t)"
  "keeps (w_set_property base s k v)" "keeps (w_remove_property base s k)"
proof -
  show "keeps (w_define_projection pd)" "keeps (w_define_index name xd)" "keeps (w_create_incidence base q e role)"
    unfolding w_define_projection_def w_define_index_def w_create_incidence_def
    by (intro keeps_checked keeps_primitives)+
  show "keeps (w_tombstone base s)"
    by (cases s)
      (auto simp: w_tombstone_element_def w_tombstone_relation_def w_tombstone_incidence_def
        intro!: keeps_checked keeps_updates tombstoned_incidences
        transitive [OF tombstoned_elements fold_tombstones] transitive [OF tombstoned_relations fold_tombstones])
  show "keeps (w_add_label base s l)"
  proof (cases s)
    case (Incidence i)
    then show ?thesis by (simp add: keeps_def reflexive)
  qed (auto simp: w_add_element_label_def w_add_relation_label_def
      intro!: keeps_checked keeps_updates element_labels relation_labels)
  show "keeps (w_set_relation_type base q t)" "keeps (w_set_property base s k v)" "keeps (w_remove_property base s k)"
    unfolding w_set_relation_type_def w_set_property_def w_remove_property_def
    by (intro keeps_checked keeps_updates types assigned removed)+
qed

lemma keeps_reconcile:
  "keeps (w_upsert_element base ix a)" "keeps (w_upsert_relation base ix a t endpoints)" "keeps (w_retain base ix keep)"
proof -
  show "keeps (w_upsert_element base ix a)"
    unfolding w_upsert_element_def
    by (intro keeps_checked) (auto split: option.split intro!: keeps_then_do keeps_yields keeps_primitives keeps_operations)
  show "keeps (w_upsert_relation base ix a t endpoints)"
    unfolding w_upsert_relation_def
    by (intro keeps_checked)
      (auto split: option.split intro!: keeps_then_do keeps_each keeps_yields keeps_primitives keeps_operations)
  show "keeps (w_retain base ix keep)"
    unfolding w_retain_def by (intro keeps_checked keeps_each keeps_operations)
qed

lemma keepsD: "keeps m \<Longrightarrow> m w = (r, w') \<Longrightarrow> R w w'"
  unfolding keeps_def by (metis snd_conv)

lemma step: "writer_step base w w' \<Longrightarrow> R w w'"
proof (induction rule: writer_step.induct)
qed (auto dest: keepsD [rotated] intro: keeps_primitives keeps_operations keeps_reconcile)

lemma steps: "(writer_step base)\<^sup>*\<^sup>* w w' \<Longrightarrow> R w w'"
  by (induction rule: rtranclp_induct) (auto intro: reflexive transitive step)

end

text \<open>The allocators only rise.\<close>

definition risen :: "write_overlay \<Rightarrow> write_overlay \<Rightarrow> bool" where
  "risen w w' \<longleftrightarrow> watermark_le (ov_next w) (ov_next w')"

lemma risen_registers:
  "risen w (snd (register_role name w))" "risen w (snd (register_label name w))"
  "risen w (snd (register_relation_type name w))" "risen w (snd (register_property_key name family ty w))"
  "risen w (snd (register_projection pd w))" "risen w (snd (register_index name xd w))"
proof -
  have rises: "i \<le> j" if "checked_next i = Some j" for i j using checked_next_greater [OF that] by simp
  note defs = risen_def watermark_le_def log_intern_def log_intern_words_def rises Let_def
  show "risen w (snd (register_role name w))" by (auto simp: register_role_def defs split: option.split sum.split)
  show "risen w (snd (register_label name w))" by (auto simp: register_label_def defs split: option.split sum.split)
  show "risen w (snd (register_relation_type name w))"
    by (auto simp: register_relation_type_def defs split: option.split sum.split)
  show "risen w (snd (register_property_key name family ty w))"
    by (auto simp: register_property_key_def defs split: option.split sum.split)
  show "risen w (snd (register_projection pd w))"
    by (auto simp: register_projection_def defs case_prod_unfold split: option.split sum.split)
  show "risen w (snd (register_index name xd w))"
    by (auto simp: register_index_def defs case_prod_unfold split: option.split sum.split)
qed

lemma risen_creates:
  "risen w (snd (create_element w))" "risen w (snd (create_relation w))" "risen w (snd (create_incidence q e role w))"
proof -
  have rises: "i \<le> j" if "checked_next i = Some j" for i j using checked_next_greater [OF that] by simp
  show "risen w (snd (create_element w))" "risen w (snd (create_relation w))" "risen w (snd (create_incidence q e role w))"
    by (auto simp: create_element_def create_relation_def create_incidence_def risen_def watermark_le_def Let_def rises
        split: option.split)
qed

interpretation rising: writer_relation base risen for base
proof
  show "risen w (tombstone_element base e w)" "risen w (tombstone_relation base q w)"
    "risen w (tombstone_incidence base n w)" "risen w (add_element_label base e l w)"
    "risen w (add_relation_label base q l w)" "risen w (set_relation_type base q t w)"
    "risen w (set_property base s k v w)" "risen w (remove_property base s k w)" for w e q n l t s k v
    by (simp_all add: risen_def add_element_label_def add_relation_label_def set_relation_type_def remove_property_def
        set_property_effects Let_def case_prod_unfold)
qed (auto simp: risen_registers risen_creates, auto simp: risen_def intro: watermark_le_trans)

section \<open>What the log redoes\<close>

fun apply_ops :: "base_records \<Rightarrow> byte list \<Rightarrow> u64 \<Rightarrow> mutation_op list \<Rightarrow> write_overlay \<Rightarrow> (db_error, write_overlay) result" where
  "apply_ops base blob lsn [] w = Ok w"
| "apply_ops base blob lsn (op # ops) w =
     and_then (apply_replay_op base op blob lsn w) (apply_ops base blob lsn ops)"

lemma apply_ops_append:
  "apply_ops base blob lsn (xs @ ys) w = and_then (apply_ops base blob lsn xs w) (apply_ops base blob lsn ys)"
proof (induction xs arbitrary: w)
  case (Cons op xs)
  then show ?case by (cases "apply_replay_op base op blob lsn w") simp_all
qed simp

text \<open>A delta as the replay holds it: no log, and the allocators it started from.\<close>

definition strip :: "next_ids \<Rightarrow> write_overlay \<Rightarrow> write_overlay" where
  "strip n w = w\<lparr>ov_next := n, wo_log := log_new\<rparr>"

definition logged :: "base_records \<Rightarrow> write_overlay \<Rightarrow> write_overlay \<Rightarrow> bool" where
  "logged base w w' \<longleftrightarrow>
     (\<exists>ops bytes. ml_ops (wo_log w') = ml_ops (wo_log w) @ ops \<and> ml_blob (wo_log w') = ml_blob (wo_log w) @ bytes \<and>
       (\<forall>rest n lsn. length (ml_blob (wo_log w') @ rest) < 2 ^ 64 \<longrightarrow>
         apply_ops base (ml_blob (wo_log w') @ rest) lsn ops (strip n w) = Ok (strip n w')))"

lemma logged_refl: "logged base w w"
  unfolding logged_def by (intro exI [of _ "[]"]) simp

lemma logged_trans:
  assumes "logged base w1 w2" "logged base w2 w3"
  shows "logged base w1 w3"
proof -
  obtain ops1 bytes1 where one: "ml_ops (wo_log w2) = ml_ops (wo_log w1) @ ops1"
    "ml_blob (wo_log w2) = ml_blob (wo_log w1) @ bytes1"
    "\<And>rest n lsn. length (ml_blob (wo_log w2) @ rest) < 2 ^ 64 \<Longrightarrow>
       apply_ops base (ml_blob (wo_log w2) @ rest) lsn ops1 (strip n w1) = Ok (strip n w2)"
    using assms(1) unfolding logged_def by blast
  obtain ops2 bytes2 where two: "ml_ops (wo_log w3) = ml_ops (wo_log w2) @ ops2"
    "ml_blob (wo_log w3) = ml_blob (wo_log w2) @ bytes2"
    "\<And>rest n lsn. length (ml_blob (wo_log w3) @ rest) < 2 ^ 64 \<Longrightarrow>
       apply_ops base (ml_blob (wo_log w3) @ rest) lsn ops2 (strip n w2) = Ok (strip n w3)"
    using assms(2) unfolding logged_def by blast
  have "apply_ops base (ml_blob (wo_log w3) @ rest) lsn (ops1 @ ops2) (strip n w1) = Ok (strip n w3)"
    if "length (ml_blob (wo_log w3) @ rest) < 2 ^ 64" for rest n lsn
    using one(3) [of "bytes2 @ rest" lsn n] two(3) [OF that, of lsn n] that by (simp add: apply_ops_append two(2))
  then show ?thesis
    unfolding logged_def using one two by (intro exI [of _ "ops1 @ ops2"] exI [of _ "bytes1 @ bytes2"]) simp
qed

text \<open>One op pushed.\<close>

lemma logged_push:
  assumes "ml_ops (wo_log w') = ml_ops (wo_log w) @ [op]" "ml_blob (wo_log w') = ml_blob (wo_log w) @ bytes"
    and "\<And>rest n lsn. length (ml_blob (wo_log w') @ rest) < 2 ^ 64 \<Longrightarrow>
      apply_replay_op base op (ml_blob (wo_log w') @ rest) lsn (strip n w) = Ok (strip n w')"
  shows "logged base w w'"
  unfolding logged_def using assms by (intro exI [of _ "[op]"] exI [of _ bytes]) simp

lemma logged_silent: "wo_log w' = wo_log w \<Longrightarrow> (\<And>n. strip n w' = strip n w) \<Longrightarrow> logged base w w'"
  unfolding logged_def by (intro exI [of _ "[]"]) simp

lemma op_word_payload: "op_word \<lparr>op_kind = kind, op_flags = flags, op_payload = payload_of words\<rparr> i =
    (if i < 9 \<and> i < length words then words ! i else 0)"
  by (auto simp: op_word_def payload_of_def MUTATION_OP_PAYLOAD_WORDS_def nth_append min_def)

text \<open>The operations shared by the two paths neither read nor write the allocators and the log.\<close>

lemma inner_strip:
  "tombstone_element_inner base e (strip n w) = strip n (tombstone_element_inner base e w)"
  "tombstone_relation_inner base q (strip n w) = strip n (tombstone_relation_inner base q w)"
  "tombstone_incidence_inner base i (strip n w) = strip n (tombstone_incidence_inner base i w)"
  "add_element_label_inner base e l (strip n w) = strip n (add_element_label_inner base e l w)"
  "add_relation_label_inner base q l (strip n w) = strip n (add_relation_label_inner base q l w)"
  "set_relation_type_inner base q t (strip n w) = strip n (set_relation_type_inner base q t w)"
  "set_property_inner base s k v (strip n w) = strip n (set_property_inner base s k v w)"
  "remove_property_inner base s k (strip n w) = strip n (remove_property_inner base s k w)"
  by (simp_all add: inner_defs strip_def tombstone_subject_properties_def visible_element_labels_def
      visible_relation_type_def visible_incidence_def Let_def split: option.split)

text \<open>The op kinds are distinct numbers, so each reaches its own branch.\<close>

abbreviation op_of :: "u32 \<Rightarrow> u32 \<Rightarrow> u64 list \<Rightarrow> mutation_op" where
  "op_of kind flags words \<equiv> \<lparr>op_kind = kind, op_flags = flags, op_payload = payload_of words\<rparr>"

lemma replay_topology:
  "apply_replay_op base (op_of OP_CREATE_ELEMENT 0 [e]) blob lsn w =
     Ok (w\<lparr>ov_elements := fmupd e (Some \<lparr>er_id = e, er_labels = {||}\<rparr>) (ov_elements w)\<rparr>)"
  "apply_replay_op base (op_of OP_CREATE_RELATION 0 [q]) blob lsn w =
     Ok (w\<lparr>ov_relations := fmupd q (Some \<lparr>rr_id = q, rr_relation_type = None, rr_labels = {||}\<rparr>) (ov_relations w)\<rparr>)"
  "apply_replay_op base (op_of OP_CREATE_INCIDENCE 0 [i, q, e, role]) blob lsn w =
     Ok (w\<lparr>ov_incidences := fmupd i (Some \<lparr>ir_id = i, ir_relation = q, ir_element = e, ir_role = role\<rparr>) (ov_incidences w),
       ov_index := on_create_incidence i q e (ov_index w)\<rparr>)"
  "apply_replay_op base (op_of OP_TOMBSTONE_ELEMENT 0 [e]) blob lsn w = Ok (tombstone_element_inner base e w)"
  "apply_replay_op base (op_of OP_TOMBSTONE_RELATION 0 [q]) blob lsn w = Ok (tombstone_relation_inner base q w)"
  "apply_replay_op base (op_of OP_TOMBSTONE_INCIDENCE 0 [i]) blob lsn w = Ok (tombstone_incidence_inner base i w)"
  "apply_replay_op base (op_of OP_ADD_ELEMENT_LABEL 0 [e, l]) blob lsn w = Ok (add_element_label_inner base e l w)"
  "apply_replay_op base (op_of OP_ADD_RELATION_LABEL 0 [q, l]) blob lsn w = Ok (add_relation_label_inner base q l w)"
  "apply_replay_op base (op_of OP_SET_RELATION_TYPE 0 [q, t]) blob lsn w = Ok (set_relation_type_inner base q t w)"
  unfolding apply_replay_op_def Let_def
  by (simp_all add: op_kinds apply_topology_op_def op_word_payload Let_def)

lemma wo_log_inner [simp]:
  "wo_log (tombstone_element_inner base e w) = wo_log w" "wo_log (tombstone_relation_inner base q w) = wo_log w"
  "wo_log (tombstone_incidence_inner base i w) = wo_log w" "wo_log (add_element_label_inner base e l w) = wo_log w"
  "wo_log (add_relation_label_inner base q l w) = wo_log w" "wo_log (set_relation_type_inner base q t w) = wo_log w"
  "wo_log (set_property_inner base s k v w) = wo_log w" "wo_log (remove_property_inner base s k w) = wo_log w"
  by (simp_all add: inner_defs Let_def split: option.split)

lemma wo_push_fields [simp]:
  "ml_ops (wo_log (wo_push kind flags words w)) = ml_ops (wo_log w) @ [op_of kind flags words]"
  "ml_blob (wo_log (wo_push kind flags words w)) = ml_blob (wo_log w)"
  "strip n (wo_push kind flags words w) = strip n w"
  by (simp_all add: wo_push_def log_push_def strip_def)

lemma logged_topology:
  "logged base w (tombstone_element base e w)" "logged base w (tombstone_relation base q w)"
  "logged base w (tombstone_incidence base i w)" "logged base w (add_element_label base e l w)"
  "logged base w (add_relation_label base q l w)" "logged base w (set_relation_type base q t w)"
  unfolding tombstone_element_def tombstone_relation_def tombstone_incidence_def add_element_label_def
    add_relation_label_def set_relation_type_def
  by (rule logged_push [where bytes = "[]"], simp, simp, simp only: wo_push_fields replay_topology inner_strip)+

lemma strip_fields [simp]:
  "ov_elements (strip n w) = ov_elements w" "ov_relations (strip n w) = ov_relations w"
  "ov_incidences (strip n w) = ov_incidences w" "ov_properties (strip n w) = ov_properties w"
  "ov_index (strip n w) = ov_index w" "ov_catalog (strip n w) = ov_catalog w" "ov_next (strip n w) = n"
  "wo_log (strip n w) = log_new"
  by (simp_all add: strip_def)

lemma logged_creates:
  "logged base w (snd (create_element w))" "logged base w (snd (create_relation w))"
  "logged base w (snd (create_incidence q e role w))"
proof -
  show "logged base w (snd (create_element w))"
  proof (cases "checked_next (ni_element (ov_next w))")
    case (Some n)
    show ?thesis unfolding create_element_def Let_def Some option.case snd_conv
      by (rule logged_push [where bytes = "[]"], simp, simp, simp only: wo_push_fields replay_topology) (simp add: strip_def)
  qed (simp add: create_element_def logged_refl)
  show "logged base w (snd (create_relation w))"
  proof (cases "checked_next (ni_relation (ov_next w))")
    case (Some n)
    show ?thesis unfolding create_relation_def Let_def Some option.case snd_conv
      by (rule logged_push [where bytes = "[]"], simp, simp, simp only: wo_push_fields replay_topology) (simp add: strip_def)
  qed (simp add: create_relation_def logged_refl)
  show "logged base w (snd (create_incidence q e role w))"
  proof (cases "checked_next (ni_incidence (ov_next w))")
    case (Some n)
    show ?thesis unfolding create_incidence_def Let_def Some option.case snd_conv
      by (rule logged_push [where bytes = "[]"], simp, simp, simp only: wo_push_fields replay_topology) (simp add: strip_def)
  qed (simp add: create_incidence_def logged_refl)
qed

end
