(* ===== verification/DbRedo.thy ===== *)
theory DbRedo
  imports DbReplay
begin

text \<open>
  The ops that carry bytes, property values and registrations, read back from the frame's blob, and the
  conclusion for a whole transaction: its frame, replayed on the parent overlay, gives the overlay it commits.
\<close>

section \<open>Bytes of the blob\<close>

lemma blob_bounds:
  assumes "length (pre @ mid @ rest) < 2 ^ 64" and "n = length (mid :: byte list)"
  shows "to_usize (word_of_nat (length pre) :: u64) = Some (length pre)"
    and "to_usize (word_of_nat n :: u64) = Some n"
    and "checked_add (length pre) n = Some (length pre + n)"
    and "slice_or_panic (pre @ mid @ rest) (length pre) (length pre + n) = Some mid"
  using assms by (simp_all add: to_usize_Some_iff unat_word_of_nat usize_max_def)

lemma blob_str_interned:
  assumes "length (pre @ as_bytes s @ rest) < 2 ^ 64"
  shows "blob_str (pre @ as_bytes s @ rest) (word_of_nat (length pre)) (word_of_nat (length (as_bytes s))) lsn = Ok s"
  unfolding blob_str_def by (simp only: blob_bounds [OF assms refl] ok_or.simps and_then.simps from_utf8_as_bytes)

lemma chunks_of_words: "map from_le_word (chunks_exact 8 (slice_to_le (ws :: u64 list))) = ws"
proof (induction ws)
  case (Cons w ws)
  have "length (to_le_word w) = 8" using width64.length_to_le_word [of w] by (simp add: word_size_def)
  then have "chunks_exact 8 (slice_to_le (w # ws)) = to_le_word w # chunks_exact 8 (slice_to_le ws)"
    by (simp add: slice_to_le_def chunks_exact_Cons)
  then show ?case by (simp add: Cons width64.from_to_le_word)
qed (simp add: slice_to_le_def)

lemma length_words: "length (slice_to_le (ws :: u64 list)) = 8 * length ws"
  using width64.length_slice_to_le [of ws] by (simp add: word_size_def)

lemma decode_def_words_interned:
  assumes "length (pre @ slice_to_le (ws :: u64 list) @ rest) < 2 ^ 64"
  shows "decode_def_words (pre @ slice_to_le ws @ rest) (word_of_nat (length pre)) (word_of_nat (8 * length ws)) lsn = Ok ws"
proof -
  note bounds = blob_bounds [OF assms length_words [symmetric]]
  show ?thesis
    unfolding decode_def_words_def by (simp only: bounds ok_or.simps and_then.simps length_words chunks_of_words) simp
qed

section \<open>Property ops\<close>

lemma replay_set_property:
  "apply_replay_op base (op_of OP_SET_PROPERTY flags words) blob lsn w = apply_set_property base (op_of OP_SET_PROPERTY flags words) blob lsn w"
  unfolding apply_replay_op_def Let_def by (simp add: op_kinds)

lemma replay_remove_property:
  "apply_replay_op base (op_of OP_REMOVE_PROPERTY (pack_flags (fst (encode_subject s)) 0) [snd (encode_subject s), k]) blob lsn w =
     Ok (remove_property_inner base s k w)"
  unfolding apply_replay_op_def Let_def by (simp add: op_kinds op_word_payload)

lemma logged_remove_property: "logged base w (remove_property base s k w)"
  unfolding remove_property_def Let_def case_prod_unfold
  by (rule logged_push [where bytes = "[]"], simp, simp, simp only: inner_strip [symmetric] wo_push_fields replay_remove_property)

text \<open>A set-property op carries the value's tag and, for text, where its bytes lie.\<close>

lemma apply_set_property_op:
  assumes "ty = BooleanType \<Longrightarrow> v = Boolean (scalar \<noteq> 0)" and "ty = IntegerType \<Longrightarrow> v = Integer scalar"
    and "ty = TextType \<Longrightarrow> \<exists>t. v = Text t \<and> blob_str blob off len lsn = Ok t"
  shows "apply_set_property base (op_of OP_SET_PROPERTY (pack_flags (fst (encode_subject s)) (property_type_tag ty))
      [snd (encode_subject s), k, scalar, off, len]) blob lsn w = Ok (set_property_inner base s k v w)"
proof -
  have words: "op_word (op_of kind flags [a, b, c, d, e]) 0 = a" "op_word (op_of kind flags [a, b, c, d, e]) 1 = b"
    "op_word (op_of kind flags [a, b, c, d, e]) 2 = c" "op_word (op_of kind flags [a, b, c, d, e]) 3 = d"
    "op_word (op_of kind flags [a, b, c, d, e]) 4 = e" for kind flags a b c d e
    by (simp_all add: op_word_payload)
  show ?thesis
    unfolding apply_set_property_def
    by (simp only: Let_def mutation_op.simps unpack_pack_tags case_prod_conv words decode_encode_subject
        property_type_from_to_tag ok_or.simps and_then.simps)
      (use assms in \<open>cases ty; auto\<close>)
qed

lemma logged_set_property_push:
  assumes "ml_ops l = ml_ops (wo_log w)" "ml_blob l = ml_blob (wo_log w) @ bytes"
    and "\<And>rest n lsn. length (ml_blob l @ rest) < 2 ^ 64 \<Longrightarrow>
      apply_set_property base (op_of OP_SET_PROPERTY flags words) (ml_blob l @ rest) lsn (strip n w) =
        Ok (set_property_inner base s k v (strip n w))"
  shows "logged base w (set_property_inner base s k v (wo_push OP_SET_PROPERTY flags words (w\<lparr>wo_log := l\<rparr>)))"
proof (rule logged_push [where op = "op_of OP_SET_PROPERTY flags words" and bytes = bytes])
  let ?w' = "set_property_inner base s k v (wo_push OP_SET_PROPERTY flags words (w\<lparr>wo_log := l\<rparr>))"
  show "ml_ops (wo_log ?w') = ml_ops (wo_log w) @ [op_of OP_SET_PROPERTY flags words]"
    "ml_blob (wo_log ?w') = ml_blob (wo_log w) @ bytes"
    using assms(1,2) by simp_all
  fix rest n lsn assume "length (ml_blob (wo_log ?w') @ rest) < 2 ^ 64"
  then have "length (ml_blob l @ rest) < 2 ^ 64" by simp
  moreover have "ml_blob (wo_log ?w') = ml_blob l" "strip n ?w' = set_property_inner base s k v (strip n w)"
    by (simp, simp add: inner_strip [symmetric]) (simp add: strip_def)
  ultimately show "apply_replay_op base (op_of OP_SET_PROPERTY flags words) (ml_blob (wo_log ?w') @ rest) lsn (strip n w) = Ok (strip n ?w')"
    using assms(3) by (simp only: replay_set_property)
qed

lemma logged_set_property: "logged base w (set_property base s k v w)"
proof (cases "visible_property_is w base s k v")
  case True
  then show ?thesis by (simp add: set_property_def logged_refl)
next
  case False
  note unfold = set_property_def Let_def case_prod_unfold if_not_P [OF False]
  show ?thesis
  proof (cases v)
    case (Boolean b)
    have "logged base w (set_property_inner base s k v (wo_push OP_SET_PROPERTY
        (pack_flags (fst (encode_subject s)) (property_type_tag (value_type v))) [snd (encode_subject s), k, of_bool b, 0, 0]
        (w\<lparr>wo_log := wo_log w\<rparr>)))"
      by (rule logged_set_property_push [where bytes = "[]"]) (simp_all only: append_Nil2, rule apply_set_property_op, simp_all add: Boolean)
    then show ?thesis unfolding unfold by (simp add: Boolean)
  next
    case (Integer i)
    have "logged base w (set_property_inner base s k v (wo_push OP_SET_PROPERTY
        (pack_flags (fst (encode_subject s)) (property_type_tag (value_type v))) [snd (encode_subject s), k, i, 0, 0]
        (w\<lparr>wo_log := wo_log w\<rparr>)))"
      by (rule logged_set_property_push [where bytes = "[]"]) (simp_all only: append_Nil2, rule apply_set_property_op, simp_all add: Integer)
    then show ?thesis unfolding unfold by (simp add: Integer)
  next
    case (Text t)
    let ?l = "(wo_log w)\<lparr>ml_blob := ml_blob (wo_log w) @ as_bytes t\<rparr>"
    have "logged base w (set_property_inner base s k v (wo_push OP_SET_PROPERTY
        (pack_flags (fst (encode_subject s)) (property_type_tag (value_type v)))
        [snd (encode_subject s), k, 0, word_of_nat (length (ml_blob (wo_log w))), word_of_nat (length (as_bytes t))]
        (w\<lparr>wo_log := ?l\<rparr>)))"
    proof (rule logged_set_property_push [where bytes = "as_bytes t"])
      fix rest n lsn assume "length (ml_blob ?l @ rest) < 2 ^ 64"
      then have "length (ml_blob (wo_log w) @ as_bytes t @ rest) < 2 ^ 64" by simp
      from blob_str_interned [OF this]
      show "apply_set_property base (op_of OP_SET_PROPERTY (pack_flags (fst (encode_subject s)) (property_type_tag (value_type v)))
          [snd (encode_subject s), k, 0, word_of_nat (length (ml_blob (wo_log w))), word_of_nat (length (as_bytes t))])
          (ml_blob ?l @ rest) lsn (strip n w) = Ok (set_property_inner base s k v (strip n w))"
        by (intro apply_set_property_op) (simp_all add: Text)
    qed simp_all
    then show ?thesis unfolding unfold by (simp add: Text log_intern_def)
  qed
qed

section \<open>Registration ops\<close>

lemma replay_catalog:
  "kind \<in> {OP_CATALOG_REGISTER_ROLE, OP_CATALOG_REGISTER_LABEL, OP_CATALOG_REGISTER_RELATION_TYPE,
     OP_CATALOG_REGISTER_PROPERTY_KEY, OP_CATALOG_REGISTER_PROJECTION, OP_CATALOG_REGISTER_INDEX} \<Longrightarrow>
     apply_replay_op base (op_of kind flags words) blob lsn w = apply_catalog_op kind (op_of kind flags words) blob lsn w"
  unfolding apply_replay_op_def Let_def by (auto simp: op_kinds)

lemma words3: "op_word (op_of kind flags (a # b # c # ws)) 0 = a" "op_word (op_of kind flags (a # b # c # ws)) 1 = b"
  "op_word (op_of kind flags (a # b # c # ws)) 2 = c"
  by (simp_all add: op_word_payload)

lemma words5: "op_word (op_of kind flags [a, b, c, d, e]) 3 = d" "op_word (op_of kind flags [a, b, c, d, e]) 4 = e"
  by (simp_all add: op_word_payload)

text \<open>The name read back, then the branch of each kind.\<close>

lemma catalog_op_name:
  assumes "length (pre @ as_bytes name @ rest) < 2 ^ 64"
  shows "apply_catalog_op OP_CATALOG_REGISTER_ROLE (op_of kind flags [i, word_of_nat (length pre), word_of_nat (length (as_bytes name))])
      (pre @ as_bytes name @ rest) lsn w = registered (insert_role i name (ov_catalog w)) w"
    and "apply_catalog_op OP_CATALOG_REGISTER_LABEL (op_of kind flags [i, word_of_nat (length pre), word_of_nat (length (as_bytes name))])
      (pre @ as_bytes name @ rest) lsn w = registered (insert_label i name (ov_catalog w)) w"
    and "apply_catalog_op OP_CATALOG_REGISTER_RELATION_TYPE (op_of kind flags [i, word_of_nat (length pre), word_of_nat (length (as_bytes name))])
      (pre @ as_bytes name @ rest) lsn w = registered (insert_relation_type i name (ov_catalog w)) w"
    and "apply_catalog_op OP_CATALOG_REGISTER_PROPERTY_KEY
      (op_of kind (pack_flags (property_family_tag family) (property_type_tag ty)) [i, word_of_nat (length pre), word_of_nat (length (as_bytes name))])
      (pre @ as_bytes name @ rest) lsn w =
        registered (insert_property_key \<lparr>pk_def_id = i, pk_def_name = name, pk_def_family = family, pk_def_value_type = ty\<rparr> (ov_catalog w)) w"
proof -
  note unfolds = apply_catalog_op_def words3 blob_str_interned [OF assms] and_then.simps
  show "apply_catalog_op OP_CATALOG_REGISTER_ROLE (op_of kind flags [i, word_of_nat (length pre), word_of_nat (length (as_bytes name))])
      (pre @ as_bytes name @ rest) lsn w = registered (insert_role i name (ov_catalog w)) w"
    unfolding unfolds by (simp add: op_kinds)
  show "apply_catalog_op OP_CATALOG_REGISTER_LABEL (op_of kind flags [i, word_of_nat (length pre), word_of_nat (length (as_bytes name))])
      (pre @ as_bytes name @ rest) lsn w = registered (insert_label i name (ov_catalog w)) w"
    unfolding unfolds by (simp add: op_kinds)
  show "apply_catalog_op OP_CATALOG_REGISTER_RELATION_TYPE (op_of kind flags [i, word_of_nat (length pre), word_of_nat (length (as_bytes name))])
      (pre @ as_bytes name @ rest) lsn w = registered (insert_relation_type i name (ov_catalog w)) w"
    unfolding unfolds by (simp add: op_kinds)
  show "apply_catalog_op OP_CATALOG_REGISTER_PROPERTY_KEY
      (op_of kind (pack_flags (property_family_tag family) (property_type_tag ty)) [i, word_of_nat (length pre), word_of_nat (length (as_bytes name))])
      (pre @ as_bytes name @ rest) lsn w =
        registered (insert_property_key \<lparr>pk_def_id = i, pk_def_name = name, pk_def_family = family, pk_def_value_type = ty\<rparr> (ov_catalog w)) w"
    unfolding unfolds mutation_op.simps unpack_pack_tags Let_def case_prod_conv property_family_from_to_tag
      property_type_from_to_tag ok_or.simps by (simp add: op_kinds)
qed

lemma catalog_op_body:
  assumes "length (pre @ as_bytes name @ slice_to_le ws @ rest) < 2 ^ 64"
  shows "encode_projection_body d = (flags, ws) \<Longrightarrow> projection_name d = name \<Longrightarrow>
      apply_catalog_op OP_CATALOG_REGISTER_PROJECTION (op_of kind flags [i, word_of_nat (length pre), word_of_nat (length (as_bytes name)),
        word_of_nat (length (pre @ as_bytes name)), word_of_nat (8 * length ws)]) (pre @ as_bytes name @ slice_to_le ws @ rest) lsn w =
        registered (insert_projection i d (ov_catalog w)) w"
    and "encode_index_body x = (flags, ws) \<Longrightarrow>
      apply_catalog_op OP_CATALOG_REGISTER_INDEX (op_of kind flags [i, word_of_nat (length pre), word_of_nat (length (as_bytes name)),
        word_of_nat (length (pre @ as_bytes name)), word_of_nat (8 * length ws)]) (pre @ as_bytes name @ slice_to_le ws @ rest) lsn w =
        registered (insert_index i name x (ov_catalog w)) w"
proof -
  have len: "length ((pre @ as_bytes name) @ slice_to_le ws @ rest) < 2 ^ 64" using assms by simp
  have defs: "decode_def_words (pre @ as_bytes name @ slice_to_le ws @ rest) (word_of_nat (length (pre @ as_bytes name)))
      (word_of_nat (8 * length ws)) lsn = Ok ws"
    using decode_def_words_interned [OF len] by simp
  have short: "length ws \<le> usize_max" using assms by (simp add: length_words usize_max_def)
  note unfolds = apply_catalog_op_def words3 words5 blob_str_interned [OF assms] and_then.simps defs mutation_op.simps
  show "encode_projection_body d = (flags, ws) \<Longrightarrow> projection_name d = name \<Longrightarrow>
      apply_catalog_op OP_CATALOG_REGISTER_PROJECTION (op_of kind flags [i, word_of_nat (length pre), word_of_nat (length (as_bytes name)),
        word_of_nat (length (pre @ as_bytes name)), word_of_nat (8 * length ws)]) (pre @ as_bytes name @ slice_to_le ws @ rest) lsn w =
        registered (insert_projection i d (ov_catalog w)) w"
    unfolding unfolds using decode_encode_projection_body [of d] short by (simp add: op_kinds)
  show "encode_index_body x = (flags, ws) \<Longrightarrow>
      apply_catalog_op OP_CATALOG_REGISTER_INDEX (op_of kind flags [i, word_of_nat (length pre), word_of_nat (length (as_bytes name)),
        word_of_nat (length (pre @ as_bytes name)), word_of_nat (8 * length ws)]) (pre @ as_bytes name @ slice_to_le ws @ rest) lsn w =
        registered (insert_index i name x (ov_catalog w)) w"
    unfolding unfolds using decode_encode_index_body [of x] by (simp add: op_kinds)
qed

text \<open>A registration that fails after its name was interned leaves bytes no op refers to.\<close>

lemma logged_interned:
  assumes "ml_ops l = ml_ops (wo_log w)" "ml_blob l = ml_blob (wo_log w) @ bytes"
  shows "logged base w (w\<lparr>ov_next := nx, wo_log := l\<rparr>)"
  unfolding logged_def using assms by (intro exI [of _ "[]"] exI [of _ bytes]) (simp add: strip_def)

lemma logged_registered:
  assumes "kind \<in> {OP_CATALOG_REGISTER_ROLE, OP_CATALOG_REGISTER_LABEL, OP_CATALOG_REGISTER_RELATION_TYPE,
      OP_CATALOG_REGISTER_PROPERTY_KEY, OP_CATALOG_REGISTER_PROJECTION, OP_CATALOG_REGISTER_INDEX}"
    and "ml_ops l = ml_ops (wo_log w)" "ml_blob l = ml_blob (wo_log w) @ bytes"
    and "\<And>rest n lsn. length (ml_blob l @ rest) < 2 ^ 64 \<Longrightarrow>
      apply_catalog_op kind (op_of kind flags words) (ml_blob l @ rest) lsn (strip n w) = registered (Ok c) (strip n w)"
  shows "logged base w (wo_push kind flags words (w\<lparr>ov_next := nx, wo_log := l, ov_catalog := c\<rparr>))"
proof (rule logged_push [where op = "op_of kind flags words" and bytes = bytes])
  let ?w' = "wo_push kind flags words (w\<lparr>ov_next := nx, wo_log := l, ov_catalog := c\<rparr>)"
  show "ml_ops (wo_log ?w') = ml_ops (wo_log w) @ [op_of kind flags words]" "ml_blob (wo_log ?w') = ml_blob (wo_log w) @ bytes"
    using assms(2,3) by simp_all
  fix rest n lsn assume "length (ml_blob (wo_log ?w') @ rest) < 2 ^ 64"
  moreover have "registered (Ok c) (strip n w) = Ok (strip n ?w')" by (simp add: registered_def, (simp add: strip_def)?)
  ultimately show "apply_replay_op base (op_of kind flags words) (ml_blob (wo_log ?w') @ rest) lsn (strip n w) = Ok (strip n ?w')"
    using assms(4) by (simp only: replay_catalog [OF assms(1)]) simp
qed

lemma log_intern_fields:
  "ml_ops (fst (log_intern bytes l)) = ml_ops l" "ml_blob (fst (log_intern bytes l)) = ml_blob l @ bytes"
  "snd (log_intern bytes l) = (word_of_nat (length (ml_blob l)), word_of_nat (length bytes))"
  "ml_ops (fst (log_intern_words ws l)) = ml_ops l" "ml_blob (fst (log_intern_words ws l)) = ml_blob l @ slice_to_le ws"
  "snd (log_intern_words ws l) = (word_of_nat (length (ml_blob l)), word_of_nat (8 * length ws))"
  by (simp_all add: log_intern_def log_intern_words_def)

lemma logged_named:
  "logged base w (snd (register_role name w))" "logged base w (snd (register_label name w))"
  "logged base w (snd (register_relation_type name w))" "logged base w (snd (register_property_key name family ty w))"
proof -
  note unfolds = Let_def case_prod_unfold log_intern_fields fst_conv snd_conv
  note ops = logged_interned [where bytes = "as_bytes name"] logged_registered [where bytes = "as_bytes name"]
  show "logged base w (snd (register_role name w))"
    unfolding register_role_def unfolds
    by (cases "checked_next (ni_role (ov_next w))"; cases "insert_role (ni_role (ov_next w)) name (ov_catalog w)")
      (auto simp: logged_refl log_intern_fields catalog_op_name intro!: ops)
  show "logged base w (snd (register_label name w))"
    unfolding register_label_def unfolds
    by (cases "checked_next (ni_label (ov_next w))"; cases "insert_label (ni_label (ov_next w)) name (ov_catalog w)")
      (auto simp: logged_refl log_intern_fields catalog_op_name intro!: ops)
  show "logged base w (snd (register_relation_type name w))"
    unfolding register_relation_type_def unfolds
    by (cases "checked_next (ni_relation_type (ov_next w))"; cases "insert_relation_type (ni_relation_type (ov_next w)) name (ov_catalog w)")
      (auto simp: logged_refl log_intern_fields catalog_op_name intro!: ops)
  show "logged base w (snd (register_property_key name family ty w))"
    unfolding register_property_key_def unfolds
    by (cases "checked_next (ni_property_key (ov_next w))";
        cases "insert_property_key \<lparr>pk_def_id = ni_property_key (ov_next w), pk_def_name = name, pk_def_family = family, pk_def_value_type = ty\<rparr> (ov_catalog w)")
      (auto simp: logged_refl log_intern_fields catalog_op_name intro!: ops)
qed

lemma logged_bodies:
  "logged base w (snd (register_projection d w))" "logged base w (snd (register_index name x w))"
proof -
  note unfolds = Let_def case_prod_unfold log_intern_fields fst_conv snd_conv
  have body: "logged base w (wo_push OP_CATALOG_REGISTER_PROJECTION (fst (encode_projection_body d))
      [i, word_of_nat (length (ml_blob (wo_log w))), word_of_nat (length (as_bytes (projection_name d))),
       word_of_nat (length (ml_blob (wo_log w) @ as_bytes (projection_name d))), word_of_nat (8 * length (snd (encode_projection_body d)))]
      (w\<lparr>ov_next := nx, wo_log := fst (log_intern_words (snd (encode_projection_body d)) (fst (log_intern (as_bytes (projection_name d)) (wo_log w)))),
        ov_catalog := c\<rparr>))" if "insert_projection i d (ov_catalog w) = Ok c" for i c nx
    by (rule logged_registered [where bytes = "as_bytes (projection_name d) @ slice_to_le (snd (encode_projection_body d))"])
      (simp_all add: log_intern_fields catalog_op_body(1) [of _ "projection_name d" "snd (encode_projection_body d)", simplified] that)
  have body_index: "logged base w (wo_push OP_CATALOG_REGISTER_INDEX (fst (encode_index_body x))
      [i, word_of_nat (length (ml_blob (wo_log w))), word_of_nat (length (as_bytes name)),
       word_of_nat (length (ml_blob (wo_log w) @ as_bytes name)), word_of_nat (8 * length (snd (encode_index_body x)))]
      (w\<lparr>ov_next := nx, wo_log := fst (log_intern_words (snd (encode_index_body x)) (fst (log_intern (as_bytes name) (wo_log w)))),
        ov_catalog := c\<rparr>))" if "insert_index i name x (ov_catalog w) = Ok c" for i c nx
    by (rule logged_registered [where bytes = "as_bytes name @ slice_to_le (snd (encode_index_body x))"])
      (simp_all add: log_intern_fields catalog_op_body(2) [of _ name "snd (encode_index_body x)", simplified] that)
  show "logged base w (snd (register_projection d w))"
    unfolding register_projection_def unfolds
    by (cases "checked_next (ni_projection (ov_next w))"; cases "insert_projection (ni_projection (ov_next w)) d (ov_catalog w)")
      (auto simp: logged_refl log_intern_fields intro: body [simplified]
        intro!: logged_interned [where bytes = "as_bytes (projection_name d) @ slice_to_le (snd (encode_projection_body d))"])
  show "logged base w (snd (register_index name x w))"
    unfolding register_index_def unfolds
    by (cases "checked_next (ni_index (ov_next w))"; cases "insert_index (ni_index (ov_next w)) name x (ov_catalog w)")
      (auto simp: logged_refl log_intern_fields intro: body_index [simplified]
        intro!: logged_interned [where bytes = "as_bytes name @ slice_to_le (snd (encode_index_body x))"])
qed

section \<open>A whole transaction\<close>

interpretation redoing: writer_relation base "logged base" for base
  by unfold_locales
    (simp_all add: logged_refl logged_named logged_bodies logged_creates logged_topology logged_set_property
      logged_remove_property, rule logged_trans)

lemma strip_from_overlay: "strip (ov_next p) (from_overlay p) = from_overlay p"
  by (simp add: strip_def from_overlay_def)

lemma from_overlay_freeze: "from_overlay (freeze w) = w\<lparr>wo_log := log_new\<rparr>"
  by (cases w) (simp add: from_overlay_def freeze_def)

lemma replay_watermark:
  "apply_replay_op base (op_of OP_NEXT_ID_WATERMARK 0 (watermark_words n)) blob lsn w = Ok (w\<lparr>ov_next := n\<rparr>)"
  unfolding apply_replay_op_def Let_def by (simp add: op_kinds op_word_payload watermark_words_def)

text \<open>
  Replaying the frame a transaction takes, on the overlay the transaction began from, gives the overlay it
  publishes.
\<close>

lemma frame_redoes:
  assumes "(writer_step base)\<^sup>*\<^sup>* (from_overlay p) w" and "length (snd (fst (take_frame w))) < 2 ^ 64"
  shows "apply_ops base (snd (fst (take_frame w))) lsn (fst (fst (take_frame w))) (from_overlay p) = Ok (from_overlay (freeze w))"
proof -
  have "logged base (from_overlay p) w" using assms(1) by (rule redoing.steps)
  then obtain ops bytes where ops: "ml_ops (wo_log w) = ops" "ml_blob (wo_log w) = bytes"
    and redo: "\<And>rest n lsn. length (bytes @ rest) < 2 ^ 64 \<Longrightarrow>
      apply_ops base (bytes @ rest) lsn ops (strip n (from_overlay p)) = Ok (strip n w)"
    unfolding logged_def by (auto simp: from_overlay_def log_new_def)
  have frame: "take_frame w = ((ops @ [op_of OP_NEXT_ID_WATERMARK 0 (watermark_words (ov_next w))], bytes), w\<lparr>wo_log := log_new\<rparr>)"
    by (simp add: take_frame_def log_push_watermark_def log_push_def ops)
  have "apply_ops base bytes lsn ops (from_overlay p) = Ok (strip (ov_next p) w)"
    using redo [of "[]" lsn "ov_next p"] assms(2) by (simp add: frame strip_from_overlay)
  then show ?thesis
    by (simp add: frame apply_ops_append replay_watermark from_overlay_freeze, (simp add: strip_def)?)
qed

section \<open>The shape of the ops\<close>

definition well_shaped :: "write_overlay \<Rightarrow> bool" where
  "well_shaped w \<longleftrightarrow> (\<forall>op \<in> set (ml_ops (wo_log w)). op_shape op)"

definition shape_kept :: "write_overlay \<Rightarrow> write_overlay \<Rightarrow> bool" where
  "shape_kept w w' \<longleftrightarrow> (well_shaped w \<longrightarrow> well_shaped w')"

lemma op_shape_payload: "op_shape (op_of kind flags words)"
  by (simp add: op_shape_def payload_of_def MUTATION_OP_PAYLOAD_WORDS_def)

lemma shape_kept_push: "shape_kept w (wo_push kind flags words w') \<longleftrightarrow> shape_kept w w'"
  using op_shape_payload by (auto simp: shape_kept_def well_shaped_def)

lemma shape_kept_log: "ml_ops (wo_log w') = ml_ops (wo_log w) \<Longrightarrow> shape_kept w w'"
  by (simp add: shape_kept_def well_shaped_def)

interpretation shaping: writer_relation base shape_kept for base
proof
  show "shape_kept w w" for w by (simp add: shape_kept_def)
  show "shape_kept w1 w2 \<Longrightarrow> shape_kept w2 w3 \<Longrightarrow> shape_kept w1 w3" for w1 w2 w3 by (simp add: shape_kept_def)
  note unfolds = Let_def case_prod_unfold log_intern_fields
  show "shape_kept w (snd (register_role name w))" "shape_kept w (snd (register_label name w))"
    "shape_kept w (snd (register_relation_type name w))" "shape_kept w (snd (register_property_key name family ty w))"
    "shape_kept w (snd (register_projection pd w))" "shape_kept w (snd (register_index name xd w))" for w name family ty pd xd
    by (auto simp: register_role_def register_label_def register_relation_type_def register_property_key_def
        register_projection_def register_index_def unfolds shape_kept_push split: option.split sum.split intro!: shape_kept_log)
  show "shape_kept w (snd (create_element w))" "shape_kept w (snd (create_relation w))"
    "shape_kept w (snd (create_incidence q e role w))" for w q e role
    by (auto simp: create_element_def create_relation_def create_incidence_def unfolds shape_kept_push
        split: option.split intro!: shape_kept_log)
  show "shape_kept w (tombstone_element base e w)" "shape_kept w (tombstone_relation base q w)"
    "shape_kept w (tombstone_incidence base n w)" "shape_kept w (add_element_label base e l w)"
    "shape_kept w (add_relation_label base q l w)" "shape_kept w (set_relation_type base q t w)" for w e q n l t
    by (auto simp: tombstone_element_def tombstone_relation_def tombstone_incidence_def add_element_label_def
        add_relation_label_def set_relation_type_def shape_kept_push intro!: shape_kept_log)
  show "shape_kept w (remove_property base s k w)" for w s k
    using op_shape_payload by (auto simp: remove_property_def unfolds shape_kept_def well_shaped_def)
  show "shape_kept w (set_property base s k v w)" for w s k v
  proof -
    have "shape_kept w (set_property_inner base s k v (wo_push kind flags words (w\<lparr>wo_log := l\<rparr>)))"
      if "ml_ops l = ml_ops (wo_log w)" for kind flags words l
      using op_shape_payload that by (auto simp: shape_kept_def well_shaped_def)
    note pushed = this
    show ?thesis
    proof (cases "visible_property_is w base s k v")
      case True
      then show ?thesis by (simp add: set_property_def shape_kept_log)
    next
      case False
      have "fst (case v of Boolean flag \<Rightarrow> (wo_log w, of_bool flag, 0, 0) | Integer number \<Rightarrow> (wo_log w, number, 0, 0)
          | Text string \<Rightarrow> (fst (log_intern (as_bytes string) (wo_log w)), 0, snd (log_intern (as_bytes string) (wo_log w))))
          = l \<Longrightarrow> ml_ops l = ml_ops (wo_log w)" for l
        by (cases v) (auto simp: log_intern_fields)
      then show ?thesis unfolding set_property_def unfolds if_not_P [OF False]
        by (intro pushed) (auto split: property_value.split simp: log_intern_fields)
    qed
  qed
qed

lemma frame_shaped:
  assumes "(writer_step base)\<^sup>*\<^sup>* (from_overlay p) w"
  shows "\<forall>op \<in> set (fst (fst (take_frame w))). op_shape op"
proof -
  have "shape_kept (from_overlay p) w" using assms by (rule shaping.steps)
  then have "well_shaped w" by (simp add: shape_kept_def well_shaped_def from_overlay_def log_new_def)
  then show ?thesis
    using op_shape_payload by (auto simp: take_frame_def log_push_watermark_def log_push_def well_shaped_def Let_def)
qed

end
