(* ===== verification/DbStore.thy ===== *)
theory DbStore
  imports DbRedo
begin

text \<open>
  The database over one base generation: opening it by replaying its delta-log, beginning a write
  transaction and committing it (\<open>crates/oxgraph-db/src/database/{open,mod,writer}.rs\<close>). The decoded base file
  and the superblock are data of the generation; the outcomes of the file calls are arguments.
\<close>

section \<open>The database\<close>

record generation =
  gn_number :: u64
  gn_base :: base_records
  gn_catalog :: catalog
  gn_next :: next_ids
  gn_commit_seq :: u64
  gn_txn :: u64

text \<open>The published snapshot, the last transaction id of the session, and the delta-log file.\<close>

record database =
  db_overlay :: overlay
  db_lsn :: u64
  db_txn :: u64
  db_log :: "byte list"

definition storage_run :: "(storage_error, 'a) run \<Rightarrow> (db_error, 'a) run" where
  "storage_run r = map_option (map_err StorageErr) r"

section \<open>Opening\<close>

fun replay_frames ::
    "base_records \<Rightarrow> commit_frame list \<Rightarrow> write_overlay \<times> next_ids \<times> u64 \<times> u64
     \<Rightarrow> (db_error, write_overlay \<times> next_ids \<times> u64 \<times> u64) result" where
  "replay_frames base [] st = Ok st"
| "replay_frames base (f # fs) (w, recovered, seq, txn) =
     and_then (apply_ops base (cf_blob f) (cf_lsn f) (cf_ops f) w) (\<lambda>w.
       replay_frames base fs (w, elementwise_max recovered (ov_next w), cf_lsn f, max txn (cf_txn_id f)))"

definition open_start :: "generation \<Rightarrow> write_overlay \<times> next_ids \<times> u64 \<times> u64" where
  "open_start gn = (write_overlay_new (gn_next gn) (gn_catalog gn), gn_next gn, gn_commit_seq gn, gn_txn gn)"

text \<open>\<open>truncated\<close> is the outcome of cutting a torn tail off the log.\<close>

definition open_db ::
    "(u32 \<Rightarrow> byte list \<Rightarrow> u32) \<Rightarrow> generation \<Rightarrow> (storage_error, unit) result \<Rightarrow> byte list \<Rightarrow> (db_error, database) run" where
  "open_db crc gn truncated log =
     run_then (storage_run (replay crc (gn_number gn) log)) (\<lambda>out.
     run_then (storage_run (Some (if ro_valid_len out < length log then truncated else Ok ()))) (\<lambda>_.
     run_then (Some (replay_frames (gn_base gn) (ro_frames out) (open_start gn))) (\<lambda>(w, recovered, seq, txn).
       Some (Ok \<lparr>db_overlay = freeze (set_next_ids recovered w), db_lsn = seq, db_txn = txn,
         db_log = (if ro_valid_len out < length log then take (ro_valid_len out) log else log)\<rparr>))))"

section \<open>Writing\<close>

definition begin_write :: "(db_error, unit) result \<Rightarrow> database \<Rightarrow> (db_error, u64 \<times> write_overlay) result \<times> database" where
  "begin_write lock db =
     (case lock of
        Err e \<Rightarrow> (Err e, db)
      | Ok _ \<Rightarrow>
          (case checked_next (db_txn db) of
             None \<Rightarrow> (Err (TxnErr TransactionIdOverflow), db)
           | Some t \<Rightarrow> (Ok (t, from_overlay (db_overlay db)), db\<lparr>db_txn := t\<rparr>)))"

text \<open>
  The commit up to the auto-checkpoint. \<open>opened\<close> is the outcome of opening the log for append and \<open>io\<close> those
  of the append.
\<close>

definition commit ::
    "(u32 \<Rightarrow> byte list \<Rightarrow> u32) \<Rightarrow> generation \<Rightarrow> (storage_error, unit) result \<Rightarrow> append_io \<Rightarrow> u64 \<Rightarrow> write_overlay \<Rightarrow> database
     \<Rightarrow> ((db_error, u64) result \<times> database) option" where
  "commit crc gn opened io t delta db =
     (if wo_is_empty delta then Some (Ok (db_lsn db), db)
      else
        case checked_next (db_lsn db) of
          None \<Rightarrow> Some (Err (TxnErr CommitSeqOverflow), db)
        | Some lsn \<Rightarrow>
            let ((ops, blob), delta) = take_frame delta in
            case encode_commit crc lsn t (gn_number gn) ops blob of
              None \<Rightarrow> None
            | Some (Err e) \<Rightarrow> Some (Err (StorageErr e), db)
            | Some (Ok frame) \<Rightarrow>
                (case opened of
                   Err e \<Rightarrow> Some (Err (StorageErr e), db)
                 | Ok _ \<Rightarrow>
                     (case append_commit io (db_log db) frame of
                        (log, Err e) \<Rightarrow> Some (Err (StorageErr e), db\<lparr>db_log := log\<rparr>)
                      | (log, Ok _) \<Rightarrow>
                          Some (Ok lsn, db\<lparr>db_log := log, db_overlay := freeze delta, db_lsn := lsn, db_txn := t\<rparr>))))"

section \<open>Sessions\<close>

text \<open>
  One write call: a transaction that is dropped, or one that is committed, with whatever outcome, as long as a
  failed append is rolled back.
\<close>

inductive db_step :: "(u32 \<Rightarrow> byte list \<Rightarrow> u32) \<Rightarrow> generation \<Rightarrow> database \<Rightarrow> database \<Rightarrow> bool" for crc gn where
  dropped: "begin_write lock db = (r, db') \<Longrightarrow> db_step crc gn db db'"
| committed: "begin_write lock db = (Ok (t, delta0), db1) \<Longrightarrow> (writer_step (gn_base gn))\<^sup>*\<^sup>* delta0 delta \<Longrightarrow>
    commit crc gn opened io t delta db1 = Some (r, db') \<Longrightarrow> io_truncate io \<Longrightarrow> db_step crc gn db db'"

text \<open>The database a generation starts with: an empty log.\<close>

definition fresh_db :: "generation \<Rightarrow> database" where
  "fresh_db gn = \<lparr>db_overlay = overlay_empty (gn_next gn) (gn_catalog gn), db_lsn = gn_commit_seq gn, db_txn = gn_txn gn, db_log = []\<rparr>"

section \<open>Durability\<close>

text \<open>The log holds commits whose replay gives the published overlay.\<close>

definition durable :: "(u32 \<Rightarrow> byte list \<Rightarrow> u32) \<Rightarrow> generation \<Rightarrow> database \<Rightarrow> commit_frame list \<Rightarrow> byte list list \<Rightarrow> u64 \<Rightarrow> bool" where
  "durable crc gn db fs records txn \<longleftrightarrow>
     commits_ok (gn_number gn) fs \<and> encodes crc fs records \<and> db_log db = concat records \<and>
     (\<forall>f \<in> set fs. cf_lsn f \<le> db_lsn db) \<and> txn \<le> db_txn db \<and>
     replay_frames (gn_base gn) fs (open_start gn) = Ok (from_overlay (db_overlay db), ov_next (db_overlay db), db_lsn db, txn)"

lemma replay_frames_append:
  "replay_frames base (fs @ gs) st = and_then (replay_frames base fs st) (replay_frames base gs)"
proof (induction base fs st rule: replay_frames.induct)
  case (2 base f fs w recovered seq txn)
  then show ?case by (cases "apply_ops base (cf_blob f) (cf_lsn f) (cf_ops f) w") simp_all
qed simp

lemma write_overlay_new_eq: "write_overlay_new n c = from_overlay (overlay_empty n c)"
  by (simp add: write_overlay_new_def from_overlay_def overlay_empty_def)

lemma durable_fresh: "durable crc gn (fresh_db gn) [] [] (gn_txn gn)"
  by (simp add: durable_def fresh_db_def commits_ok_def open_start_def write_overlay_new_eq) (simp add: overlay_empty_def)

lemma ov_next_from_overlay [simp]: "ov_next (from_overlay p) = ov_next p" "ov_next (freeze w) = ov_next w"
  by (simp_all add: from_overlay_def freeze_def)

text \<open>A committed transaction appends its frame and extends the replay by it.\<close>

lemma durable_commit:
  assumes "durable crc gn db fs records txn" and "checked_next (db_lsn db) = Some lsn"
    and "(writer_step (gn_base gn))\<^sup>*\<^sup>* (from_overlay (db_overlay db)) delta"
    and "encode_commit crc lsn t (gn_number gn) (fst (fst (take_frame delta))) (snd (fst (take_frame delta))) = Some (Ok frame)"
    and "txn \<le> t"
  shows "\<exists>f. durable crc gn (db\<lparr>db_log := db_log db @ frame, db_overlay := freeze delta, db_lsn := lsn, db_txn := t\<rparr>)
      (fs @ [f]) (records @ [frame]) (max txn t) \<and> frame_shape f \<and> cf_base_generation f = gn_number gn \<and> encode_frame crc f = Some (Ok frame)"
proof -
  let ?f = "\<lparr>cf_lsn = lsn, cf_txn_id = t, cf_base_generation = gn_number gn,
      cf_ops = fst (fst (take_frame delta)), cf_blob = snd (fst (take_frame delta))\<rparr>"
  note old = assms(1) [unfolded durable_def]
  have shape: "frame_shape ?f" using frame_shaped [OF assms(3)] by (simp add: frame_shape_def)
  have enc: "encode_frame crc ?f = Some (Ok frame)" using assms(4) by (simp add: encode_frame_def)
  then have "frame_len ?f < 2 ^ 32" using encode_frame_Ok_iff [OF shape] by blast
  then have "length (snd (fst (take_frame delta))) < 2 ^ 64" by (simp add: frame_len_def)
  from frame_redoes [OF assms(3) this]
  have redo: "apply_ops (gn_base gn) (cf_blob ?f) lsn (cf_ops ?f) (from_overlay (db_overlay db)) = Ok (from_overlay (freeze delta))"
    by simp
  have "risen (from_overlay (db_overlay db)) delta" using assms(3) by (rule rising.steps)
  then have up: "watermark_le (ov_next (db_overlay db)) (ov_next delta)" by (simp add: risen_def)
  have above: "db_lsn db < lsn" using assms(2) by (rule checked_next_greater)
  have "replay_frames (gn_base gn) (fs @ [?f]) (open_start gn) =
      Ok (from_overlay (freeze delta), ov_next (freeze delta), lsn, max txn t)"
    using old redo elementwise_max_absorb [OF up] by (simp add: replay_frames_append)
  moreover have "commits_ok (gn_number gn) (fs @ [?f])"
    using old shape above by (auto simp: commits_ok_def sorted_wrt_append intro: le_less_trans)
  moreover have "\<forall>f \<in> set (fs @ [?f]). cf_lsn f \<le> lsn"
    using old above by auto
  ultimately show ?thesis
    using old enc shape assms(5) by (intro exI [of _ ?f]) (simp add: durable_def)
qed

end
