(* ===== verification/DbRecover.thy ===== *)
theory DbRecover
  imports DbStore
begin

text \<open>
  Sessions of write calls over one generation: what they keep of the database, what reopening its delta-log
  gives back, also after a crash inside an append, and which ids they hand out.
\<close>

section \<open>One call\<close>

lemma begin_write_cases:
  assumes "begin_write lock db = (r, db')"
  obtains (failed) e where "r = Err e" "db' = db"
  | (begun) t where "r = Ok (t, from_overlay (db_overlay db))" "db' = db\<lparr>db_txn := t\<rparr>" "db_txn db < t"
proof (cases lock)
  case (Inl e)
  show ?thesis by (rule failed [of e]) (use assms Inl in \<open>simp_all add: begin_write_def\<close>)
next
  case (Inr u)
  show ?thesis
  proof (cases "checked_next (db_txn db)")
    case None
    show ?thesis by (rule failed [of "TxnErr TransactionIdOverflow"]) (use assms Inr None in \<open>simp_all add: begin_write_def\<close>)
  next
    case (Some t)
    show ?thesis
      by (rule begun [of t]) (use assms Inr Some checked_next_greater [OF Some] in \<open>simp_all add: begin_write_def\<close>)
  qed
qed

lemma freeze_take_frame [simp]: "freeze (snd (take_frame w)) = freeze w"
  by (simp add: take_frame_def freeze_def Let_def)

lemma append_commit_cases:
  assumes "append_commit io file frame = (file', r)"
  obtains (failed) e k where "r = Err e" "file' = (if io_truncate io then file else file @ take k frame)"
  | (appended) "r = Ok ()" "file' = file @ frame"
proof (cases "io_seek io")
  case False
  with assms that(1) [of _ 0] show ?thesis by (auto simp: append_commit_def)
next
  case True
  show ?thesis
  proof (cases "io_write_fails io")
    case None
    with True assms that(1) [of _ "length frame"] that(2) show ?thesis
      by (auto simp: append_commit_def rollback_to_def Let_def split: if_splits)
  next
    case (Some k)
    with True assms that(1) [of _ k] show ?thesis
      by (auto simp: append_commit_def rollback_to_def Let_def split: if_splits)
  qed
qed

text \<open>A commit publishes its transaction or, when a failed append is rolled back, leaves the database as it was.\<close>

lemma commit_cases:
  assumes "commit crc gn opened io t delta db = Some (r, db')" and "io_truncate io"
  obtains (kept) "db' = db"
  | (published) lsn frame where "r = Ok lsn" "checked_next (db_lsn db) = Some lsn"
      "encode_commit crc lsn t (gn_number gn) (fst (fst (take_frame delta))) (snd (fst (take_frame delta))) = Some (Ok frame)"
      "db' = db\<lparr>db_log := db_log db @ frame, db_overlay := freeze delta, db_lsn := lsn, db_txn := t\<rparr>"
proof (cases "wo_is_empty delta")
  case True
  with assms kept show ?thesis by (simp add: commit_def)
next
  case nonempty: False
  show ?thesis
  proof (cases "checked_next (db_lsn db)")
    case None
    with assms nonempty kept show ?thesis by (simp add: commit_def)
  next
    case (Some lsn)
    let ?encoded = "encode_commit crc lsn t (gn_number gn) (fst (fst (take_frame delta))) (snd (fst (take_frame delta)))"
    note run = assms(1) [unfolded commit_def Let_def case_prod_unfold] nonempty Some
    from run obtain enc where enc: "?encoded = Some enc" by (cases ?encoded) auto
    show ?thesis
    proof (cases enc)
      case (Inl e)
      with run enc kept show ?thesis by auto
    next
      case (Inr frame)
      show ?thesis
      proof (cases opened)
        case (Inl e)
        with run enc Inr kept show ?thesis by auto
      next
        case (Inr u)
        obtain log' res where app: "append_commit io (db_log db) frame = (log', res)" by force
        from app show ?thesis
        proof (cases rule: append_commit_cases)
          case (failed e k)
          with run enc Inr \<open>enc = Ok frame\<close> app kept assms(2) show ?thesis by auto
        next
          case appended
          with run enc Inr \<open>enc = Ok frame\<close> app published [of lsn frame] Some show ?thesis by auto
        qed
      qed
    qed
  qed
qed

section \<open>Recovery\<close>

definition recoverable :: "(u32 \<Rightarrow> byte list \<Rightarrow> u32) \<Rightarrow> generation \<Rightarrow> database \<Rightarrow> bool" where
  "recoverable crc gn db \<longleftrightarrow> (\<exists>fs records txn. durable crc gn db fs records txn)"

lemma durable_txn: "durable crc gn db fs records txn \<Longrightarrow> db_txn db \<le> t \<Longrightarrow> durable crc gn (db\<lparr>db_txn := t\<rparr>) fs records txn"
  by (auto simp: durable_def)

lemma recoverable_step:
  assumes "db_step crc gn db db'" and "recoverable crc gn db"
  shows "recoverable crc gn db'"
  using assms
proof cases
  case (dropped lock r)
  from dropped(1) show ?thesis
  proof (cases rule: begin_write_cases)
    case (begun t)
    with assms(2) durable_txn show ?thesis unfolding recoverable_def by (metis less_imp_le)
  qed (use assms(2) in simp)
next
  case (committed lock t delta0 db1 delta opened io r)
  from committed(1) have begun: "delta0 = from_overlay (db_overlay db)" "db1 = db\<lparr>db_txn := t\<rparr>" "db_txn db < t"
    by (cases rule: begin_write_cases; simp)+
  from assms(2) obtain fs records txn where old: "durable crc gn db fs records txn" unfolding recoverable_def by blast
  then have "txn \<le> db_txn db" by (simp add: durable_def)
  with begun(3) have txn: "txn \<le> t" by simp
  have durable: "durable crc gn db1 fs records txn" using durable_txn [OF old] begun by simp
  from committed(3,4) show ?thesis
  proof (cases rule: commit_cases)
    case kept
    with durable show ?thesis unfolding recoverable_def by blast
  next
    case (published lsn frame)
    have steps: "(writer_step (gn_base gn))\<^sup>*\<^sup>* (from_overlay (db_overlay db1)) delta"
      using committed(2) by (simp add: begun)
    from durable_commit [OF durable published(2) steps published(3) txn] published(4)
    show ?thesis unfolding recoverable_def by blast
  qed
qed

lemma recoverable_session: "(db_step crc gn)\<^sup>*\<^sup>* (fresh_db gn) db \<Longrightarrow> recoverable crc gn db"
proof (induction rule: rtranclp_induct)
  case base
  then show ?case using durable_fresh unfolding recoverable_def by blast
qed (rule recoverable_step)

text \<open>Opening a log of durable commits, with or without a torn record behind them.\<close>

lemma open_durable:
  assumes "durable crc gn db fs records txn"
    and "tail = [] \<or> parse_one_record crc (gn_number gn) tail (cursor_after fs) = Some Stop"
  shows "open_db crc gn (Ok ()) (db_log db @ tail) = Some (Ok (db\<lparr>db_txn := txn\<rparr>))"
proof -
  note old = assms(1) [unfolded durable_def]
  from replay_stops [where crc = crc and generation = "gn_number gn" and fs = fs and records = records and tail = tail] old assms(2)
  have replay: "replay crc (gn_number gn) (db_log db @ tail) = Some (Ok (replayed fs records))" by simp
  have "freeze (set_next_ids (ov_next p) (from_overlay p)) = p" for p
    by (cases p) (simp add: set_next_ids_def from_overlay_def freeze_def)
  then show ?thesis
    using old unfolding open_db_def replay by (cases db) (auto simp: storage_run_def replayed_def)
qed

section \<open>The invariant\<close>

lemma published_irrelevant [simp]:
  "view base (freeze w) = view base w" "writer_ok base (freeze w) \<longleftrightarrow> writer_ok base w"
  "view base (from_overlay p) = view base p" "writer_ok base (from_overlay p) \<longleftrightarrow> writer_ok base p"
proof -
  have frozen: "view base (freeze w) = view base w" for w
    by (simp add: view_def refs_overlaid freeze_def)
  have begun: "view base (from_overlay p) = view base p" for p
    by (simp add: view_def refs_overlaid from_overlay_def)
  show "view base (freeze w) = view base w" by (rule frozen)
  show "view base (from_overlay p) = view base p" by (rule begun)
  show "writer_ok base (freeze w) \<longleftrightarrow> writer_ok base w"
    by (simp add: writer_ok_def state_ok_def overlay_ok_def index_agrees_def ids_below_def frozen) (simp add: freeze_def)
  show "writer_ok base (from_overlay p) \<longleftrightarrow> writer_ok base p"
    by (simp add: writer_ok_def state_ok_def overlay_ok_def index_agrees_def ids_below_def begun) (simp add: from_overlay_def)
qed

lemma writer_steps_keep: "(writer_step base)\<^sup>*\<^sup>* w w' \<Longrightarrow> writer_ok base w \<Longrightarrow> writer_ok base w'"
  by (induction rule: rtranclp_induct) (auto intro: writer_step_keeps)

text \<open>What a call does to the published overlay.\<close>

lemma db_step_publishes:
  assumes "db_step crc gn db db'"
  obtains (same) "db_overlay db' = db_overlay db"
  | (new) delta where "(writer_step (gn_base gn))\<^sup>*\<^sup>* (from_overlay (db_overlay db)) delta" "db_overlay db' = freeze delta"
  using assms
proof cases
  case (dropped lock r)
  from dropped(1) show ?thesis
    by (cases rule: begin_write_cases) (auto intro: same)
next
  case (committed lock t delta0 db1 delta opened io r)
  from committed(1) have begun: "delta0 = from_overlay (db_overlay db)" "db1 = db\<lparr>db_txn := t\<rparr>"
    by (cases rule: begin_write_cases; simp)+
  from committed(3,4) show ?thesis
  proof (cases rule: commit_cases)
    case kept
    then show ?thesis using begun by (auto intro: same)
  next
    case (published lsn frame)
    then show ?thesis using new [of delta] committed(2) begun by simp
  qed
qed

lemma session_keeps:
  assumes "(db_step crc gn)\<^sup>*\<^sup>* db db'" and "writer_ok (gn_base gn) (db_overlay db)"
  shows "writer_ok (gn_base gn) (db_overlay db')"
  using assms
proof (induction rule: rtranclp_induct)
  case (step db1 db2)
  from step.hyps(2) show ?case
  proof (cases rule: db_step_publishes)
    case (new delta)
    then show ?thesis using writer_steps_keep [OF new(1)] step by simp
  qed (use step in simp)
qed simp

lemma session_rises:
  assumes "(db_step crc gn)\<^sup>*\<^sup>* db db'"
  shows "watermark_le (ov_next (db_overlay db)) (ov_next (db_overlay db'))"
  using assms
proof (induction rule: rtranclp_induct)
  case base
  then show ?case by (simp add: watermark_le_def)
next
  case (step db1 db2)
  from step.hyps(2) show ?case
  proof (cases rule: db_step_publishes)
    case (new delta)
    from rising.steps [OF new(1)] have "watermark_le (ov_next (db_overlay db1)) (ov_next (db_overlay db2))"
      by (simp add: risen_def new(2))
    with step.IH show ?thesis by (rule watermark_le_trans)
  qed (use step in simp)
qed

text \<open>The empty database.\<close>

lemma writer_ok_empty: "writer_ok base_empty (overlay_empty INITIAL catalog_empty)"
proof -
  have none: "fmlookup fmempty = (\<lambda>_. None)" "overlaid_property fmempty fmempty = (\<lambda>_ _. None)"
    by (auto simp: overlaid_property_def intro!: ext)
  have empty: "view base_empty (overlay_empty n c) =
      \<lparr>g_element = (\<lambda>_. None), g_relation = (\<lambda>_. None), g_incidence = (\<lambda>_. None), g_property = (\<lambda>_ _. None)\<rparr>" for n c
    by (simp add: view_def refs_overlaid overlay_empty_def base_empty_def none)
  have no_entries: "sorted_list_of_fmap fmempty = []"
    using set_sorted_list_of_fmap by (metis fmempty_lookup list.set_intros(1) neq_Nil_conv option.distinct(1) surj_pair)
  have postings: "base_postings base_empty = owned_empty"
    by (simp add: base_postings_def base_empty_def from_records_def owned_empty_def label_postings_def relation_type_postings_def
        equality_postings_def element_incidence_postings_def relation_incidence_postings_def fmap_values_def
        flatten_properties_def no_entries)
  have "base_ok base_empty"
    by (simp add: base_ok_def postings) (simp add: base_empty_def keyed_def owned_answers)
  moreover have "index_agrees base_empty (overlay_empty INITIAL catalog_empty)"
    by (simp add: index_agrees_def empty postings)
      (simp add: overlay_empty_def overlay_index_new_def apart_def index_postings_def graph_postings_def merged_def owned_empty_def
        fun_eq_iff)
  moreover have "catalog_ok catalog_empty INITIAL"
    by (simp add: catalog_ok_def catalog_empty_def named_ok_def)
  ultimately show ?thesis
    by (simp add: writer_ok_def state_ok_def overlay_ok_def ids_below_def empty graph_ok_def)
      (simp add: overlay_empty_def base_empty_def keyed_delta_def all_below_def)
qed

end
