(* ===== verification/DbGuarantees.thy ===== *)
theory DbGuarantees
  imports DbRecover
begin

text \<open>
  What the database promises to its callers: the invariant of every published state, lookups that answer as
  the scans do, mutations that refuse or do their work, identifiers that are never handed out twice, and a log
  from which the published state comes back. A small session is the example the statements are applied to.
\<close>

section \<open>An example session\<close>

definition example_generation :: generation where
  "example_generation = \<lparr>gn_number = 9, gn_base = base_empty, gn_catalog = catalog_empty, gn_next = INITIAL,
     gn_commit_seq = 0, gn_txn = 0\<rparr>"

definition example_start :: write_overlay where
  "example_start = from_overlay (overlay_empty INITIAL catalog_empty)"

definition example_delta :: write_overlay where
  "example_delta = snd (create_relation (snd (create_element example_start)))"

lemma example_steps: "(writer_step base)\<^sup>*\<^sup>* example_start example_delta"
proof -
  have "writer_step base example_start (snd (create_element example_start))"
    by (rule writer_step.element [of _ "fst (create_element example_start)"]) simp
  moreover have "writer_step base (snd (create_element example_start)) example_delta"
    unfolding example_delta_def
    by (rule writer_step.relation [of _ "fst (create_relation (snd (create_element example_start)))"]) simp
  ultimately show ?thesis by simp
qed

lemma example_ok: "writer_ok base_empty example_start" "writer_ok base_empty example_delta"
proof -
  show start: "writer_ok base_empty example_start" unfolding example_start_def by (simp add: writer_ok_empty)
  show "writer_ok base_empty example_delta" using example_steps start by (rule writer_steps_keep)
qed

lemma next_initial: "checked_next 1 = Some 2" "checked_next 0 = Some 1"
  by (simp_all add: checked_next_Some_iff)

lemma example_log:
  "ml_ops (wo_log example_delta) = [op_of OP_CREATE_ELEMENT 0 [1], op_of OP_CREATE_RELATION 0 [1]]"
  "ml_blob (wo_log example_delta) = []"
  by (simp_all add: example_delta_def example_start_def create_element_def create_relation_def next_initial [simplified]
      from_overlay_def overlay_empty_def INITIAL_def log_new_def)

definition example_io :: append_io where
  "example_io = \<lparr>io_seek = True, io_write_fails = None, io_sync = True, io_truncate = True\<rparr>"

abbreviation example_begun :: database where
  "example_begun \<equiv> fresh_db example_generation\<lparr>db_txn := 1\<rparr>"

lemma example_begin_write:
  "begin_write (Ok ()) (fresh_db example_generation) = (Ok (1, example_start), example_begun)"
  by (simp add: begin_write_def fresh_db_def example_generation_def example_start_def next_initial)

lemma example_commit:
  obtains db where "commit crc example_generation (Ok ()) example_io 1 example_delta example_begun = Some (Ok 1, db)"
    "db_overlay db = freeze example_delta"
proof -
  let ?f = "\<lparr>cf_lsn = 1, cf_txn_id = 1, cf_base_generation = 9, cf_ops = fst (fst (take_frame example_delta)),
      cf_blob = snd (fst (take_frame example_delta))\<rparr>"
  have "frame_shape ?f"
    using frame_shaped [OF example_steps [unfolded example_start_def]] by (simp add: frame_shape_def)
  moreover have "frame_len ?f < 2 ^ 32"
    by (simp add: frame_len_def take_frame_def Let_def log_push_watermark_def log_push_def example_log wal_sizes)
  ultimately have "encode_frame crc ?f = Some (Ok (frame_bytes crc ?f))" by (rule encode_commit_frame)
  then have enc: "encode_commit crc 1 1 9 (fst (fst (take_frame example_delta))) (snd (fst (take_frame example_delta))) =
      Some (Ok (frame_bytes crc ?f))"
    by (simp add: encode_frame_def)
  have app: "append_commit example_io [] frame = (frame, Ok ())" for frame
    by (simp add: append_commit_def example_io_def)
  have "commit crc example_generation (Ok ()) example_io 1 example_delta example_begun =
      Some (Ok 1, example_begun\<lparr>db_log := frame_bytes crc ?f, db_overlay := freeze example_delta, db_lsn := 1, db_txn := 1\<rparr>)"
    unfolding commit_def Let_def case_prod_unfold
    by (simp add: wo_is_empty_def example_log fresh_db_def next_initial app enc example_generation_def)
  then show ?thesis by (rule that) simp
qed

lemma example_session:
  obtains db where "(db_step crc example_generation)\<^sup>*\<^sup>* (fresh_db example_generation) db"
    "db_overlay db = freeze example_delta"
proof -
  from example_commit [of crc] obtain db
    where commit: "commit crc example_generation (Ok ()) example_io 1 example_delta example_begun = Some (Ok 1, db)"
      "db_overlay db = freeze example_delta" .
  have "db_step crc example_generation (fresh_db example_generation) db"
    by (rule db_step.committed [OF example_begin_write example_steps commit(1)]) (simp add: example_io_def)
  then show ?thesis using commit(2) by (intro that [of db]) simp_all
qed

section \<open>Reopening\<close>



text \<open>
  C28: a commit is atomic against a crash: wherever, after the old log, a crash during or after the append cuts
  the file, opening what is left gives the state published before the transaction or the one it publishes, with
  the log of that state. The transaction may have been any sequence of the writer's operations.
\<close>

theorem commit_crash_atomic:
  assumes "(db_step crc gn)\<^sup>*\<^sup>* (fresh_db gn) db"
    and "begin_write lock db = (Ok (t, delta0), db1)" and "(writer_step (gn_base gn))\<^sup>*\<^sup>* delta0 delta"
    and "commit crc gn (Ok ()) io t delta db1 = Some (Ok lsn, db2)" and "io_truncate io"
    and "length (db_log db) \<le> len"
  shows "\<exists>db'. open_db crc gn (Ok ()) (take len (db_log db2)) = Some (Ok db') \<and>
    ((db_overlay db' = db_overlay db \<and> db_lsn db' = db_lsn db \<and> db_log db' = db_log db) \<or>
     (db_overlay db' = db_overlay db2 \<and> db_lsn db' = db_lsn db2 \<and> db_log db' = db_log db2))"
proof -
  from recoverable_session [OF assms(1)] obtain fs records txn where old: "durable crc gn db fs records txn"
    unfolding recoverable_def by blast
  from assms(2) have begun: "delta0 = from_overlay (db_overlay db)" "db1 = db\<lparr>db_txn := t\<rparr>" "db_txn db < t"
    by (cases rule: begin_write_cases; simp)+
  from old have "txn \<le> db_txn db" by (simp add: durable_def)
  with begun(3) have txn: "txn \<le> t" by simp
  have durable: "durable crc gn db1 fs records txn" using durable_txn [OF old] begun by simp
  from assms(4,5) show ?thesis
  proof (cases rule: commit_cases)
    case kept
    then show ?thesis using open_durable [OF durable, of "[]"] begun(2) assms(6) by auto
  next
    case (published lsn' frame)
    have steps: "(writer_step (gn_base gn))\<^sup>*\<^sup>* (from_overlay (db_overlay db1)) delta"
      using assms(3) begun by simp
    from durable_commit [OF durable published(2) steps published(3) txn] published(4)
    obtain f where new: "durable crc gn db2 (fs @ [f]) (records @ [frame]) (max txn t)"
      and f: "frame_shape f" "cf_base_generation f = gn_number gn" "encode_frame crc f = Some (Ok frame)" by auto
    show ?thesis
    proof (cases "length (db_log db) + length frame \<le> len")
      case True
      then have "take len (db_log db2) = db_log db2" using published(4) begun by simp
      then show ?thesis using open_durable [OF new, of "[]"] by auto
    next
      case False
      let ?torn = "take (len - length (db_log db)) frame"
      from f(1,3) have small: "frame_len f < 2 ^ 32" and bytes: "frame = frame_bytes crc f"
        by (simp_all add: encode_frame_Ok_iff)
      have "?torn @ drop (len - length (db_log db)) frame = frame_bytes crc f"
        "drop (len - length (db_log db)) frame \<noteq> []"
        using False assms(6) by (simp_all add: bytes)
      from parse_torn [OF f(1) small this] f(2) have
        "?torn = [] \<or> parse_one_record crc (gn_number gn) ?torn (cursor_after fs) = Some Stop" by simp
      from open_durable [OF durable this] have
        "open_db crc gn (Ok ()) (db_log db @ ?torn) = Some (Ok (db1\<lparr>db_txn := txn\<rparr>))" using begun(2) by simp
      moreover have "take len (db_log db2) = db_log db @ ?torn"
        using published(4) begun(2) assms(6) by simp
      ultimately show ?thesis using begun(2) by simp
    qed
  qed
qed

theorem commit_crash_atomic_witness:
  "\<exists>db2 db'. commit crc32c_append example_generation (Ok ()) example_io 1 example_delta example_begun = Some (Ok 1, db2) \<and>
     open_db crc32c_append example_generation (Ok ()) (take 70 (db_log db2)) = Some (Ok db') \<and>
     db_overlay db' \<in> {overlay_empty INITIAL catalog_empty, freeze example_delta}"
proof -
  obtain db2 where db2: "commit crc32c_append example_generation (Ok ()) example_io 1 example_delta example_begun = Some (Ok 1, db2)"
    "db_overlay db2 = freeze example_delta" by (rule example_commit)
  have "length (db_log (fresh_db example_generation)) \<le> 70" "io_truncate example_io"
    "db_overlay (fresh_db example_generation) = overlay_empty INITIAL catalog_empty"
    by (simp_all add: fresh_db_def example_io_def example_generation_def)
  with commit_crash_atomic [OF rtranclp.rtrancl_refl example_begin_write _ db2(1)] example_steps db2 show ?thesis
    by (metis insertCI)
qed

section \<open>The invariant and the lookups\<close>

text \<open>
  C29: every published state of a session keeps the invariant its generation starts with: records carry the ids
  they are stored under, the postings agree with the graph, incidences join visible relations and elements
  under existing roles, labels and types exist, properties belong to visible subjects and fit the family and
  type of their key, names are unique, and every id in use lies below its allocator.
\<close>

theorem session_invariant:
  assumes "writer_ok (gn_base gn) (db_overlay (fresh_db gn))" and "(db_step crc gn)\<^sup>*\<^sup>* (fresh_db gn) db"
  shows "writer_ok (gn_base gn) (db_overlay db)"
  using assms(2,1) by (rule session_keeps)

theorem session_invariant_witness:
  "\<exists>db. (db_step crc32c_append example_generation)\<^sup>*\<^sup>* (fresh_db example_generation) db \<and>
     db_overlay db = freeze example_delta \<and> writer_ok base_empty (db_overlay db)"
proof -
  obtain db where db: "(db_step crc32c_append example_generation)\<^sup>*\<^sup>* (fresh_db example_generation) db"
    "db_overlay db = freeze example_delta" by (rule example_session)
  have "writer_ok (gn_base example_generation) (db_overlay (fresh_db example_generation))"
    by (simp add: fresh_db_def example_generation_def writer_ok_empty)
  from session_invariant [OF this db(1)] db show ?thesis by (auto simp: example_generation_def)
qed

lemma writer_ok_layered: "writer_ok base w \<Longrightarrow> layered_ok (base, w)"
  by (simp add: layered_ok_def writer_ok_def state_ok_def)



text \<open>With no keys the two disagree: the index answers with no subject, the scan with every one that has a property.\<close>

lemma composite_no_keys:
  "st_composite_equal base ov [] [] = Ok []"
  "default_composite_equal c properties [] [] = Ok (map fst (sorted_list_of_fmap (properties_by_subject properties)))"
proof -
  have "List.map_filter (\<lambda>(s, _). Some s) xs = map fst xs" 
    for xs :: "(property_subject \<times> (property_key_id, property_value) fmap) list"
    by (induction xs) (auto simp: map_filter_simps)
  then show "st_composite_equal base ov [] [] = Ok []"
    "default_composite_equal c properties [] [] = Ok (map fst (sorted_list_of_fmap (properties_by_subject properties)))"
    by (simp_all add: st_composite_equal_def default_composite_equal_def ix_property_composite_equal_def scan_composite_equal_def
        case_prod_unfold)
qed

text \<open>
  C31: the merge iterators of a state whose records are stored under their ids yield, in ascending order and each
  once, exactly the records and properties that the point reads show: overlay records over base records,
  without the tombstoned ones.
\<close>

theorem merged_walks_list_state:
  assumes "base_ok base" and "overlay_ok base ov"
  shows "set (st_elements base ov) = {r. element_ref base ov (er_id r) = Some r} \<and>
    set (st_relations base ov) = {r. relation_ref base ov (rr_id r) = Some r} \<and>
    set (st_incidences base ov) = {r. incidence_ref base ov (ir_id r) = Some r} \<and>
    set (st_properties base ov) = {(s, k, v). property_ref base ov s k = Some v} \<and>
    sorted_wrt (<) (map er_id (st_elements base ov)) \<and> sorted_wrt (<) (map rr_id (st_relations base ov)) \<and>
    sorted_wrt (<) (map ir_id (st_incidences base ov)) \<and> sorted_wrt (<) (map pm_key (st_properties base ov))"
  using layered_walks [OF assms] st_properties_records by fast

theorem merged_walks_list_state_witness:
  "set (st_elements base_empty example_delta) = {r. element_ref base_empty example_delta (er_id r) = Some r} \<and>
   element_ref base_empty example_delta 1 = Some \<lparr>er_id = 1, er_labels = {||}\<rparr>"
proof -
  have "base_ok base_empty" "overlay_ok base_empty example_delta"
    using example_ok(2) by (simp_all add: writer_ok_def state_ok_def)
  moreover have "element_ref base_empty example_delta 1 = Some \<lparr>er_id = 1, er_labels = {||}\<rparr>"
    by (simp add: example_delta_def example_start_def create_element_def create_relation_def next_initial [simplified]
        from_overlay_def overlay_empty_def INITIAL_def wo_push_def element_ref_def)
  ultimately show ?thesis using merged_walks_list_state by blast
qed

section \<open>Mutations\<close>

text \<open>
  C32: on a delta with the invariant, a tombstone of a subject that is not visible is refused as unknown and
  changes nothing; a tombstone of an element or a relation removes it with its properties and every incidence
  on it with theirs, and nothing else; one of an incidence removes it with its properties.
\<close>

theorem tombstones_cascade:
  assumes "writer_ok base w"
  shows "(case g_element (view base w) e of
        None \<Rightarrow> w_tombstone base (Element e) w = (Err (unknown ElementIds e), w)
      | Some _ \<Rightarrow> \<exists>w'. w_tombstone base (Element e) w = (Ok (), w') \<and> view base w' = g_remove_element e (view base w)) \<and>
    (case g_relation (view base w) q of
        None \<Rightarrow> w_tombstone base (Relation q) w = (Err (unknown RelationIds q), w)
      | Some _ \<Rightarrow> \<exists>w'. w_tombstone base (Relation q) w = (Ok (), w') \<and> view base w' = g_remove_relation q (view base w)) \<and>
    (case g_incidence (view base w) i of
        None \<Rightarrow> w_tombstone base (Incidence i) w = (Err (unknown IncidenceIds i), w)
      | Some _ \<Rightarrow> \<exists>w'. w_tombstone base (Incidence i) w = (Ok (), w') \<and> view base w' = g_drop_incidence i (view base w))"
  using tombstone_element_outcome [OF assms, of e] tombstone_relation_outcome [OF assms, of q]
    tombstone_incidence_outcome [OF assms, of i]
  by (auto simp: prod_eq_iff split: option.split)

theorem tombstones_cascade_witness:
  "\<exists>w'. w_tombstone base_empty (Element 1) example_delta = (Ok (), w') \<and>
     view base_empty w' = g_remove_element 1 (view base_empty example_delta)"
proof -
  have "g_element (view base_empty example_delta) 1 = Some \<lparr>er_id = 1, er_labels = {||}\<rparr>"
    by (simp add: example_delta_def example_start_def create_element_def create_relation_def next_initial [simplified]
        from_overlay_def overlay_empty_def INITIAL_def wo_push_def element_ref_def)
  then show ?thesis using tombstones_cascade [OF example_ok(2), of 1] by simp
qed

text \<open>
  C33: the writer's guarded updates decide exactly the documented requirements: setting a property needs a visible
  subject and a known key whose family and type fit, removing one a visible subject and a known key, labelling
  and typing a visible subject and a known label or type. When they hold the graph changes in exactly that
  place; otherwise it stays as it was.
\<close>

theorem guarded_updates:
  "(fst (w_set_property base s k v w) = Ok () \<longleftrightarrow> subject_present (view base w) s \<and> fits_key (ov_catalog w) s k v) \<and>
   view base (snd (w_set_property base s k v w)) =
     (if fst (w_set_property base s k v w) = Ok () then g_assign s k (Some v) (view base w) else view base w) \<and>
   (fst (w_remove_property base s k w) = Ok () \<longleftrightarrow> subject_present (view base w) s \<and> cat_property_key (ov_catalog w) k \<noteq> None) \<and>
   view base (snd (w_remove_property base s k w)) =
     (if fst (w_remove_property base s k w) = Ok () then g_assign s k None (view base w) else view base w) \<and>
   (fst (w_add_label base (Element e) l w) = Ok () \<longleftrightarrow> element_ref base w e \<noteq> None \<and> cat_label (ov_catalog w) l \<noteq> None) \<and>
   view base (snd (w_add_label base (Element e) l w)) =
     (if fst (w_add_label base (Element e) l w) = Ok () then g_label_element e l (view base w) else view base w) \<and>
   (fst (w_add_label base (Relation q) l w) = Ok () \<longleftrightarrow> relation_ref base w q \<noteq> None \<and> cat_label (ov_catalog w) l \<noteq> None) \<and>
   view base (snd (w_add_label base (Relation q) l w)) =
     (if fst (w_add_label base (Relation q) l w) = Ok () then g_label_relation q l (view base w) else view base w) \<and>
   (fst (w_set_relation_type base q t w) = Ok () \<longleftrightarrow> relation_ref base w q \<noteq> None \<and> cat_relation_type (ov_catalog w) t \<noteq> None) \<and>
   view base (snd (w_set_relation_type base q t w)) =
     (if fst (w_set_relation_type base q t w) = Ok () then g_type_relation q t (view base w) else view base w)"
proof -
  have ok: "(case require_subject base s w of Err e \<Rightarrow> P e | Ok u \<Rightarrow> R u) =
      (if subject_present (view base w) s then R () else P (projl (require_subject base s w)))" for P R :: "_ \<Rightarrow> 'x"
    using require_subject_Ok_iff [of base s w "()"] by (cases "require_subject base s w") (auto simp del: require_subject_Ok_iff)
  have fits: "(case property_fits s k v w of Err e \<Rightarrow> P e | Ok u \<Rightarrow> R u) =
      (if fits_key (ov_catalog w) s k v then R () else P (projl (property_fits s k v w)))" for P R :: "_ \<Rightarrow> 'x"
    using property_fits_Ok_iff [of s k v w "()"] by (cases "property_fits s k v w") (auto simp del: property_fits_Ok_iff)
  show ?thesis
    by (simp add: w_set_property_def w_remove_property_def w_add_element_label_def w_add_relation_label_def
        w_set_relation_type_def checked_def ok fits requires contains_defs updates_def set_property_effects
        remove_property_effects label_effects)
qed



end
