(* ===== verification/DbReconcile.thy ===== *)
theory DbReconcile
  imports DbGuarantees
begin

text \<open>
  Reconciliation through a property-equality index: finding or creating an element by its key value, and
  retaining only the subjects whose value is kept (\<open>upsert_element\<close> and \<open>retain\<close> of \<open>database/writer.rs\<close>).
\<close>

section \<open>Finding or creating\<close>

lemma first_element_None: "first_element xs = None \<longleftrightarrow> (\<forall>i. Element i \<notin> set xs)"
  by (induction xs rule: first_element.induct) auto

lemma first_element_least:
  "sorted_wrt (<) xs \<Longrightarrow> first_element xs = Some e \<Longrightarrow> Element e \<in> set xs \<and> (\<forall>i. Element i \<in> set xs \<longrightarrow> e \<le> i)"
  by (induction xs rule: first_element.induct) (auto dest!: less_imp_le bspec)

lemma found_subjects:
  assumes "writer_ok base w"
  shows "s \<in> set (st_property_equal base w k v) \<longleftrightarrow> property_ref base w s k = Some v"
    and "sorted_wrt (<) (st_property_equal base w k v)"
    and "(s, v) \<in> set (st_property_key_subjects base w k) \<longleftrightarrow> property_ref base w s k = Some v"
  using layered_lookups(3,5) layered_lookups_ascend(3) writer_okD(1,3) [OF assms] by blast+

lemma first_element_found:
  assumes "writer_ok base w"
  shows "first_element (st_property_equal base w k v) = None \<longleftrightarrow> (\<forall>i. property_ref base w (Element i) k \<noteq> Some v)"
    and "first_element (st_property_equal base w k v) = Some e \<Longrightarrow>
      property_ref base w (Element e) k = Some v \<and> (\<forall>i. property_ref base w (Element i) k = Some v \<longrightarrow> e \<le> i)"
  using first_element_least [OF found_subjects(2) [OF assms]]
  by (simp_all add: first_element_None found_subjects(1) [OF assms])

lemma upsert_element_found:
  assumes "writer_ok base w" "equality_index_key ix w = Ok key" "property_ref base w (Element i) key = Some v"
  shows "\<exists>e. w_upsert_element base ix (Ok v) w = (Ok e, w) \<and> property_ref base w (Element e) key = Some v \<and>
    (\<forall>i. property_ref base w (Element i) key = Some v \<longrightarrow> e \<le> i)"
proof -
  obtain e where e: "first_element (st_property_equal base w key v) = Some e"
    using first_element_found(1) [OF assms(1)] assms(3) by (metis option.exhaust)
  then have "w_upsert_element base ix (Ok v) w = (Ok e, w)"
    by (simp add: w_upsert_element_def checked_def assms(2) yields_def)
  with first_element_found(2) [OF assms(1) e] show ?thesis by blast
qed

lemma upsert_element_created:
  assumes "writer_ok base w" "equality_index_key ix w = Ok key" "\<And>i. property_ref base w (Element i) key \<noteq> Some v"
  shows "w_upsert_element base ix (Ok v) w =
    (case create_element w of
       (Err e, w') \<Rightarrow> (Err e, w')
     | (Ok e, w') \<Rightarrow> (case w_set_property base (Element e) key v w' of (Err x, w'') \<Rightarrow> (Err x, w'') | (Ok _, w'') \<Rightarrow> (Ok e, w'')))"
proof -
  have "first_element (st_property_equal base w key v) = None" using first_element_found(1) [OF assms(1)] assms(3) by blast
  then show ?thesis
    by (simp add: w_upsert_element_def checked_def assms(2) then_do_def yields_def split: prod.split sum.split)
qed

lemma distinct_map_filter: "distinct (map f xs) \<Longrightarrow> distinct (map f (filter P xs))"
  by (induction xs) auto

section \<open>Tombstoning a subject\<close>

text \<open>Subjects of its own family are left alone.\<close>

lemma subject_present_incidences [simp]:
  "subject_present (g_drop_incidences S g) (Element e) = subject_present g (Element e)"
  "subject_present (g_drop_incidences S g) (Relation q) = subject_present g (Relation q)"
  by (simp_all add: g_drop_incidences_def)

lemma tombstone_subject:
  assumes "writer_ok base w" and "subject_present (view base w) s"
  obtains w' where "w_tombstone base s w = (Ok (), w')" "writer_ok base w'" "ov_catalog w' = ov_catalog w"
    "\<not> subject_present (view base w') s" "\<And>k. property_ref base w' s k = None"
    "\<And>t. subject_family t = subject_family s \<Longrightarrow> t \<noteq> s \<Longrightarrow>
      subject_present (view base w') t = subject_present (view base w) t \<and> property_ref base w' t = property_ref base w t"
proof -
  let ?w' = "snd (w_tombstone base s w)"
  have ok: "writer_ok base ?w'" using keeps_ok_tombstone [of base s] assms(1) by (simp add: keeps_ok_iff)
  have outcome: "fst (w_tombstone base s w) = Ok ()" "ov_catalog ?w' = ov_catalog w"
    "view base ?w' = (case s of Element e \<Rightarrow> g_remove_element e (view base w) | Relation q \<Rightarrow> g_remove_relation q (view base w)
      | Incidence i \<Rightarrow> g_drop_incidence i (view base w))"
  proof -
    have "fst (w_tombstone base s w) = Ok () \<and> ov_catalog ?w' = ov_catalog w \<and>
      view base ?w' = (case s of Element e \<Rightarrow> g_remove_element e (view base w) | Relation q \<Rightarrow> g_remove_relation q (view base w)
        | Incidence i \<Rightarrow> g_drop_incidence i (view base w))"
    proof (cases s)
      case (Element e)
      then have "element_ref base w e \<noteq> None" using assms(2) by simp
      with tombstone_element_outcome [OF assms(1), of e] Element show ?thesis by (metis property_subject.case(1) w_tombstone.simps(1))
    next
      case (Relation q)
      then have "relation_ref base w q \<noteq> None" using assms(2) by simp
      with tombstone_relation_outcome [OF assms(1), of q] Relation show ?thesis by (metis property_subject.case(2) w_tombstone.simps(2))
    next
      case (Incidence i)
      then have "incidence_ref base w i \<noteq> None" using assms(2) by simp
      with tombstone_incidence_outcome [OF assms(1), of i] Incidence show ?thesis by (metis property_subject.case(3) w_tombstone.simps(3))
    qed
    then show "fst (w_tombstone base s w) = Ok ()" "ov_catalog ?w' = ov_catalog w"
      "view base ?w' = (case s of Element e \<Rightarrow> g_remove_element e (view base w) | Relation q \<Rightarrow> g_remove_relation q (view base w)
        | Incidence i \<Rightarrow> g_drop_incidence i (view base w))" by blast+
  qed
  have props: "property_ref base ?w' t = g_property (view base ?w') t" for t by simp
  show ?thesis
  proof (rule that [of ?w'])
    show "w_tombstone base s w = (Ok (), ?w')" using outcome(1) by (metis prod.collapse)
    show "writer_ok base ?w'" by (rule ok)
    show "ov_catalog ?w' = ov_catalog w" by (rule outcome(2))
    show "\<not> subject_present (view base ?w') s" unfolding outcome(3)
      by (cases s) (simp_all add: g_remove_element_def g_remove_relation_def g_drop_element_def g_drop_relation_def g_drop_incidence_def
          g_drop_incidences_def)
    show "property_ref base ?w' s k = None" for k unfolding props outcome(3)
      by (cases s) (simp_all add: g_remove_element_def g_remove_relation_def g_drop_element_def g_drop_relation_def g_drop_incidence_def
          g_drop_incidences_def)
    show "subject_present (view base ?w') t = subject_present (view base w) t \<and> property_ref base ?w' t = property_ref base w t"
      if "subject_family t = subject_family s" "t \<noteq> s" for t
      using that unfolding props outcome(3)
      by (cases s; cases t) (simp_all add: g_remove_element_def g_remove_relation_def g_drop_element_def g_drop_relation_def
          g_drop_incidence_def g_drop_incidences_def)
  qed
qed

text \<open>The family of subjects that can carry a key.\<close>

definition key_family :: "catalog \<Rightarrow> property_key_id \<Rightarrow> property_family" where
  "key_family c k = (case cat_property_key c k of Some d \<Rightarrow> pk_def_family d | None \<Rightarrow> ElementFamily)"

lemma key_family:
  assumes "graph_ok c g" "g_property g s k = Some v"
  shows "subject_present g s \<and> subject_family s = key_family c k"
proof -
  have "subject_present g s" "fits_key c s k v" using assms unfolding graph_ok_def by blast+
  then show ?thesis by (auto simp: fits_key_def key_family_def)
qed

text \<open>Tombstoning several subjects of one family.\<close>

lemma tombstone_subjects:
  assumes "writer_ok base w" and "distinct ss" and "\<forall>s \<in> set ss. subject_present (view base w) s \<and> subject_family s = fam"
  shows "\<exists>w'. each (w_tombstone base) ss w = (Ok (), w') \<and> writer_ok base w' \<and> ov_catalog w' = ov_catalog w \<and>
    (\<forall>s \<in> set ss. \<not> subject_present (view base w') s \<and> (\<forall>k. property_ref base w' s k = None)) \<and>
    (\<forall>t. subject_family t = fam \<longrightarrow> t \<notin> set ss \<longrightarrow>
      subject_present (view base w') t = subject_present (view base w) t \<and> property_ref base w' t = property_ref base w t)"
  using assms
proof (induction ss arbitrary: w)
  case Nil
  then show ?case by (auto simp: yields_def)
next
  case (Cons s ss)
  have s: "subject_present (view base w) s" "subject_family s = fam" "s \<notin> set ss" using Cons.prems by auto
  obtain w1 where w1: "w_tombstone base s w = (Ok (), w1)" "writer_ok base w1" and kept: "ov_catalog w1 = ov_catalog w" and gone:
    "\<not> subject_present (view base w1) s" "\<And>k. property_ref base w1 s k = None"
    and others: "\<And>t. subject_family t = fam \<Longrightarrow> t \<noteq> s \<Longrightarrow>
      subject_present (view base w1) t = subject_present (view base w) t \<and> property_ref base w1 t = property_ref base w t"
    using s(2) by (rule_tac tombstone_subject [OF Cons.prems(1) s(1)]) blast
  have "\<forall>t \<in> set ss. subject_present (view base w1) t \<and> subject_family t = fam"
    using Cons.prems(3) others s(3) by (metis list.set_intros(2))
  from Cons.IH [OF w1(2) _ this] Cons.prems(2) obtain w' where w': "each (w_tombstone base) ss w1 = (Ok (), w')" "writer_ok base w'" and same: "ov_catalog w' = ov_catalog w1" and rest:
    "\<forall>t \<in> set ss. \<not> subject_present (view base w') t \<and> (\<forall>k. property_ref base w' t k = None)"
    "\<forall>t. subject_family t = fam \<longrightarrow> t \<notin> set ss \<longrightarrow>
      subject_present (view base w') t = subject_present (view base w1) t \<and> property_ref base w' t = property_ref base w1 t"
    by auto
  have "each (w_tombstone base) (s # ss) w = (Ok (), w')" using w1(1) w'(1) by (simp add: then_do_def)
  moreover have "\<forall>t \<in> set (s # ss). \<not> subject_present (view base w') t \<and> (\<forall>k. property_ref base w' t k = None)"
    using rest gone s(2,3) by auto
  moreover have "subject_present (view base w') t = subject_present (view base w) t \<and> property_ref base w' t = property_ref base w t"
    if "subject_family t = fam" "t \<notin> set (s # ss)" for t
    using that rest(2) others by auto
  ultimately show ?case using w'(2) kept same by auto
qed

section \<open>The promises\<close>

definition example_keyed :: write_overlay where
  "example_keyed =
     snd (w_define_index (Abs_str [0x6E]) (PropertyEquality 1)
       (snd (register_property_key (Abs_str [0x6E]) ElementFamily IntegerType example_delta)))"

lemma example_keyed_ok: "writer_ok base_empty example_keyed"
proof -
  have "(writer_step base_empty)\<^sup>*\<^sup>* example_delta
      (snd (register_property_key (Abs_str [0x6E]) ElementFamily IntegerType example_delta))"
    by (intro r_into_rtranclp writer_step.property_key [OF prod.collapse [symmetric]])
  also have "(writer_step base_empty)\<^sup>*\<^sup>* \<dots> example_keyed"
    unfolding example_keyed_def by (intro r_into_rtranclp writer_step.index [OF prod.collapse [symmetric]])
  finally show ?thesis using example_ok(2) by (rule writer_steps_keep)
qed

lemma example_keyed_fields:
  "cat_property_key (ov_catalog example_keyed) 1 =
     Some \<lparr>pk_def_id = 1, pk_def_name = Abs_str [0x6E], pk_def_family = ElementFamily, pk_def_value_type = IntegerType\<rparr>"
  "equality_index_key 1 example_keyed = Ok 1" "ni_element (ov_next example_keyed) = 2" "ov_properties example_keyed = fmempty"
  by (simp_all add: equality_index_key_def example_keyed_def w_define_index_def checked_def register_property_key_def register_index_def
      require_property_key_def next_initial [simplified] example_delta_def example_start_def create_element_def create_relation_def
      from_overlay_def overlay_empty_def INITIAL_def wo_push_def catalog_empty_def catalog_inserts cat_lookups Let_def case_prod_unfold
      insert_named_def)

text \<open>Nothing carries the value and the ids are not exhausted.\<close>

lemma upsert_element_assigns:
  assumes "writer_ok base w" "equality_index_key ix w = Ok key" and absent: "\<And>i. property_ref base w (Element i) key \<noteq> Some v"
    and created: "create_element w = (Ok e, w1)" and new: "e = ni_element (ov_next w)" "ov_catalog w1 = ov_catalog w"
      "view base w1 = g_put_element \<lparr>er_id = e, er_labels = {||}\<rparr> (view base w)"
  shows "if fits_key (ov_catalog w) (Element e) key v
    then \<exists>w'. w_upsert_element base ix (Ok v) w = (Ok e, w') \<and> element_ref base w e = None \<and>
      view base w' = g_assign (Element e) key (Some v) (view base w1) \<and> w_upsert_element base ix (Ok v) w' = (Ok e, w')
    else \<exists>err w'. w_upsert_element base ix (Ok v) w = (Err err, w')"
proof -
  note run = upsert_element_created [OF assms(1,2) absent] created
  obtain x w' where assigned: "w_set_property base (Element e) key v w1 = (x, w')" by (cases "w_set_property base (Element e) key v w1")
  have present: "subject_present (view base w1) (Element e)" unfolding new(3) by (simp add: g_put_element_def)
  show ?thesis
  proof (cases "fits_key (ov_catalog w) (Element e) key v")
    case True
    then have "property_fits (Element e) key v w1 = Ok ()" "require_subject base (Element e) w1 = Ok ()"
      using present by (simp_all add: new(2) del: require_subject.simps)
    then have "w_set_property base (Element e) key v w1 = (Ok (), set_property base (Element e) key v w1)"
      by (simp add: w_set_property_def checked_def updates_def del: require_subject.simps require_subject_Ok_iff property_fits_Ok_iff)
    with assigned have w': "x = Ok ()" "w' = set_property base (Element e) key v w1" by simp_all
    then have upserted: "w_upsert_element base ix (Ok v) w = (Ok e, w')" using run assigned by simp
    have view: "view base w' = g_assign (Element e) key (Some v) (view base w1)" by (simp add: w' set_property_effects)
    have ok: "writer_ok base w'"
      using keeps_ok_reconcile(1) [of base ix "Ok v"] assms(1) upserted unfolding keeps_ok_iff by (metis snd_conv)
    have key: "equality_index_key ix w' = Ok key"
      using assms(2) by (simp add: equality_index_key_def w' set_property_effects new(2))
    have has: "property_ref base w' (Element i) key = Some v \<longleftrightarrow> i = e" for i
    proof -
      have "property_ref base w' (Element i) key = g_property (view base w') (Element i) key" by simp
      then show ?thesis unfolding view new(3) using absent by (auto simp: g_assign_def g_put_element_def)
    qed
    have "w_upsert_element base ix (Ok v) w' = (Ok e, w')"
      using upsert_element_found [OF ok key, of e v] has by metis
    moreover have "element_ref base w e = None"
      using fresh_refs(1) [of base w] assms(1) by (simp add: writer_ok_def state_ok_def new(1))
    ultimately show ?thesis using True upserted view by simp
  next
    case unfit: False
    then have "x \<noteq> Ok ()"
      using assigned new(2) by (auto simp: w_set_property_def checked_def updates_def split: sum.splits)
    then obtain err where "x = Err err" by (cases x) auto
    then show ?thesis using unfit run assigned by simp
  qed
qed

text \<open>
  C35: upserting an element by a value of an equality index finds the least element that carries the value and
  changes nothing; when none does it creates exactly one element and gives it the value, or fails because the ids
  are exhausted or the key does not take the value; and after a success the same upsert finds that element again.
\<close>

theorem upsert_element_decides:
  assumes "writer_ok base w" and "equality_index_key ix w = Ok key"
  shows "if \<exists>i. property_ref base w (Element i) key = Some v
    then \<exists>e. w_upsert_element base ix (Ok v) w = (Ok e, w) \<and> property_ref base w (Element e) key = Some v \<and>
        (\<forall>i. property_ref base w (Element i) key = Some v \<longrightarrow> e \<le> i)
    else case w_upsert_element base ix (Ok v) w of
        (Ok e, w') \<Rightarrow> element_ref base w e = None \<and>
          view base w' = g_assign (Element e) key (Some v) (g_put_element \<lparr>er_id = e, er_labels = {||}\<rparr> (view base w)) \<and>
          w_upsert_element base ix (Ok v) w' = (Ok e, w')
      | (Err _, w') \<Rightarrow> checked_next (ni_element (ov_next w)) = None \<or>
          \<not> fits_key (ov_catalog w) (Element (ni_element (ov_next w))) key v"
proof (cases "\<exists>i. property_ref base w (Element i) key = Some v")
  case True
  then show ?thesis using upsert_element_found [OF assms] by auto
next
  case False
  then have absent: "\<And>i. property_ref base w (Element i) key \<noteq> Some v" by blast
  obtain r w1 where created: "create_element w = (r, w1)" by (cases "create_element w")
  then show ?thesis
  proof (cases rule: create_element_cases [where base = base])
    case 1
    then have "checked_next (ni_element (ov_next w)) = None"
      using created by (cases "checked_next (ni_element (ov_next w))") (auto simp: create_element_def Let_def)
    then show ?thesis using False upsert_element_created [OF assms absent] created 1 by simp
  next
    case (2 n)
    have "create_element w = (Ok (ni_element (ov_next w)), w1)" using created 2(1) by simp
    from upsert_element_assigns [OF assms absent this refl 2(5,3)] False show ?thesis
      by (auto simp: 2(3) split: if_splits)
  qed
qed

theorem upsert_element_decides_witness:
  "\<exists>e w'. w_upsert_element base_empty 1 (Ok (Integer 7)) example_keyed = (Ok e, w') \<and>
     property_ref base_empty w' (Element e) 1 = Some (Integer 7) \<and>
     w_upsert_element base_empty 1 (Ok (Integer 7)) w' = (Ok e, w')"
proof -
  have absent: "\<not> (\<exists>i. property_ref base_empty example_keyed (Element i) 1 = Some (Integer 7))"
    by (simp add: property_ref_def example_keyed_fields base_property_def base_empty_def)
  have "checked_next 2 = Some 3" by (simp add: checked_next_Some_iff)
  then have possible: "checked_next (ni_element (ov_next example_keyed)) \<noteq> None"
    "fits_key (ov_catalog example_keyed) (Element (ni_element (ov_next example_keyed))) 1 (Integer 7)"
    by (simp_all add: example_keyed_fields fits_key_def)
  obtain r w' where run: "w_upsert_element base_empty 1 (Ok (Integer 7)) example_keyed = (r, w')" by force
  from upsert_element_decides [OF example_keyed_ok example_keyed_fields(2), of "Integer 7", unfolded if_not_P [OF absent] run]
  obtain e where e: "r = Ok e" "w_upsert_element base_empty 1 (Ok (Integer 7)) w' = (Ok e, w')"
    "view base_empty w' = g_assign (Element e) 1 (Some (Integer 7)) (g_put_element \<lparr>er_id = e, er_labels = {||}\<rparr> (view base_empty example_keyed))"
    using possible by (cases r) auto
  from arg_cong [OF e(3), of "\<lambda>g. g_property g (Element e) 1"]
  have "property_ref base_empty w' (Element e) 1 = Some (Integer 7)" by (simp add: g_assign_def)
  with run e show ?thesis by blast
qed


definition example_valued :: write_overlay where
  "example_valued = snd (w_set_property base_empty (Element 1) 1 (Integer 7) example_keyed)"

lemma example_valued_facts:
  "writer_ok base_empty example_valued" "equality_index_key 1 example_valued = Ok 1"
  "property_ref base_empty example_valued (Element 1) 1 = Some (Integer 7)"
proof -
  show "writer_ok base_empty example_valued"
    unfolding example_valued_def using keeps_ok_mutations(4) example_keyed_ok by (simp add: keeps_ok_iff)
  have "element_ref base_empty example_keyed 1 = Some \<lparr>er_id = 1, er_labels = {||}\<rparr>"
    by (simp add: example_keyed_def w_define_index_def checked_def register_property_key_def register_index_def
        require_property_key_def next_initial [simplified] example_delta_def example_start_def create_element_def create_relation_def
        from_overlay_def overlay_empty_def INITIAL_def wo_push_def catalog_empty_def catalog_inserts cat_lookups Let_def case_prod_unfold
        insert_named_def element_ref_def)
  then have run: "example_valued = set_property base_empty (Element 1) 1 (Integer 7) example_keyed"
    by (simp add: example_valued_def w_set_property_def checked_def requires contains_defs property_fits_def example_keyed_fields
        updates_def)
  show "equality_index_key 1 example_valued = Ok 1"
    using example_keyed_fields(2) by (simp add: run equality_index_key_def set_property_effects)
  have "g_property (view base_empty example_valued) (Element 1) 1 = Some (Integer 7)"
    unfolding run set_property_effects by (simp add: g_assign_def)
  then show "property_ref base_empty example_valued (Element 1) 1 = Some (Integer 7)" by simp
qed


end
