(* ===== verification/DbProjection.thy ===== *)
theory DbProjection
  imports DbReconcile Topology
begin

text \<open>
  The materialized graph projection of \<open>crates/oxgraph-db/src/projection.rs\<close>: the binary relations of a view,
  selected by type, with their endpoints found by role, renumbered densely and frozen by the graph builder in
  both directions. Its capability traits are the views the algorithms run on.
\<close>

section \<open>The projection and its builder\<close>

type_synonym local_id = u32

record graph_projection =
  gpr_definition :: graph_projection_definition
  gpr_elements :: "element_id list"
  gpr_element_index :: "(element_id, local_id) fmap"
  gpr_relations :: "relation_id list"
  gpr_relation_index :: "(relation_id, local_id) fmap"
  gpr_endpoints :: "(local_id \<times> local_id) list"
  gpr_out_edges :: "local_id list list"
  gpr_in_edges :: "local_id list list"
  gpr_successors :: "local_id list list"
  gpr_predecessors :: "local_id list list"

record graph_projection_builder =
  gpb_definition :: graph_projection_definition
  gpb_elements :: "element_id list"
  gpb_element_index :: "(element_id, local_id) fmap"
  gpb_relations :: "relation_id list"
  gpb_relation_index :: "(relation_id, local_id) fmap"
  gpb_endpoints :: "(local_id \<times> local_id) list"

definition gpb_new :: "graph_projection_definition \<Rightarrow> graph_projection_builder" where
  "gpb_new d = \<lparr>gpb_definition = d, gpb_elements = [], gpb_element_index = fmempty, gpb_relations = [],
     gpb_relation_index = fmempty, gpb_endpoints = []\<rparr>"

abbreviation id_overflow :: "id_family \<Rightarrow> db_error" where
  "id_overflow family \<equiv> TxnErr (txn_error.IdOverflow family)"

abbreviation invalid_projection :: "string \<Rightarrow> db_error" where
  "invalid_projection message \<equiv> QueryErr (InvalidProjection message)"

text \<open>\<open>map_err(|_error| e)\<close> on a computation that may panic.\<close>

definition or_err :: "'f \<Rightarrow> ('e, 'a) run \<Rightarrow> ('f, 'a) run" where
  "or_err e r = map_option (map_err (\<lambda>_. e)) r"

section \<open>Selection and endpoints\<close>

definition relation_selected :: "relation_record \<Rightarrow> relation_type_id fset \<Rightarrow> bool" where
  "relation_selected r selected =
     (case rr_relation_type r of
        None \<Rightarrow> selected = {||}
      | Some t \<Rightarrow> selected = {||} \<or> t |\<in>| selected)"

definition update_endpoint ::
    "element_id option \<Rightarrow> incidence_record \<Rightarrow> role_id \<Rightarrow> string \<Rightarrow> (db_error, element_id option) result" where
  "update_endpoint slot n role name =
     (if ir_role n \<noteq> role then Ok slot
      else if slot \<noteq> None then
        Err (invalid_projection (''selected graph relation has duplicate '' @ name @ '' endpoint''))
      else Ok (Some (ir_element n)))"

fun endpoints_loop ::
    "role_id \<Rightarrow> role_id \<Rightarrow> incidence_record list \<Rightarrow> element_id option \<times> element_id option
     \<Rightarrow> (db_error, element_id option \<times> element_id option) result" where
  "endpoints_loop source_role target_role [] slots = Ok slots"
| "endpoints_loop source_role target_role (n # ns) (source, target) =
     and_then (update_endpoint source n source_role ''source'') (\<lambda>source.
     and_then (update_endpoint target n target_role ''target'') (\<lambda>target.
       endpoints_loop source_role target_role ns (source, target)))"

definition graph_endpoints ::
    "(relation_id \<Rightarrow> incidence_record list) \<Rightarrow> relation_id \<Rightarrow> role_id \<Rightarrow> role_id
     \<Rightarrow> (db_error, element_id \<times> element_id) result" where
  "graph_endpoints relation_incidences r source_role target_role =
     and_then (endpoints_loop source_role target_role (relation_incidences r) (None, None)) (\<lambda>slots.
       case slots of
         (Some source, Some target) \<Rightarrow> Ok (source, target)
       | _ \<Rightarrow> Err (invalid_projection ''selected graph relation lacks source or target endpoint''))"

section \<open>Interning\<close>

definition projection_element_id :: "nat \<Rightarrow> (db_error, local_id) result" where
  "projection_element_id index = ok_or (id_overflow ElementIds) (from_usize index)"

definition projection_relation_id :: "nat \<Rightarrow> (db_error, local_id) result" where
  "projection_relation_id index = ok_or (id_overflow ElementIds) (from_usize index)"

definition local_index :: "local_id \<Rightarrow> nat" where
  "local_index i = (case to_usize i of Some slot \<Rightarrow> slot | None \<Rightarrow> usize_max)"

definition local_relation_index :: "local_id \<Rightarrow> nat" where
  "local_relation_index i = (case to_usize i of Some slot \<Rightarrow> slot | None \<Rightarrow> usize_max)"

definition intern_element ::
    "(element_id, local_id) fmap \<Rightarrow> element_id list \<Rightarrow> element_id
     \<Rightarrow> (db_error, local_id \<times> (element_id, local_id) fmap \<times> element_id list) result" where
  "intern_element index elements canonical =
     (case fmlookup index canonical of
        Some i \<Rightarrow> Ok (i, index, elements)
      | None \<Rightarrow>
          and_then (projection_element_id (length elements)) (\<lambda>i.
            Ok (i, fmupd canonical i index, elements @ [canonical])))"

definition gpb_push_relation ::
    "(relation_id \<Rightarrow> incidence_record list) \<Rightarrow> relation_record \<Rightarrow> graph_projection_builder
     \<Rightarrow> (db_error, graph_projection_builder) result" where
  "gpb_push_relation relation_incidences r b =
     and_then (graph_endpoints relation_incidences (rr_id r) (gp_source_role (gpb_definition b))
         (gp_target_role (gpb_definition b))) (\<lambda>(source, target).
     and_then (intern_element (gpb_element_index b) (gpb_elements b) source) (\<lambda>(source, index, elements).
     and_then (intern_element index elements target) (\<lambda>(target, index, elements).
     and_then (projection_relation_id (length (gpb_relations b))) (\<lambda>edge.
       Ok (b\<lparr>gpb_element_index := index, gpb_elements := elements, gpb_relations := gpb_relations b @ [rr_id r],
             gpb_relation_index := fmupd (rr_id r) edge (gpb_relation_index b),
             gpb_endpoints := gpb_endpoints b @ [(source, target)]\<rparr>)))))"

section \<open>Freezing\<close>

text \<open>One \<open>add_node\<close> per element, then one \<open>add_edge\<close> per relation; a node handle past the list panics.\<close>

fun add_nodes :: "nat \<Rightarrow> u32 graph_builder \<Rightarrow> u32 list \<Rightarrow> (db_error, u32 graph_builder \<times> u32 list) result" where
  "add_nodes 0 b nodes = Ok (b, nodes)"
| "add_nodes (Suc k) b nodes =
     (case (gb_add_node b :: ((u32, u32) graph_build_error, u32) result \<times> u32 graph_builder) of
        (Inl _, _) \<Rightarrow> Err (id_overflow ElementIds)
      | (Inr node, b) \<Rightarrow> add_nodes k b (nodes @ [node]))"

fun add_edges ::
    "u32 list \<Rightarrow> (local_id \<times> local_id) list \<Rightarrow> u32 graph_builder \<Rightarrow> (db_error, u32 graph_builder) run" where
  "add_edges nodes [] b = Some (Ok b)"
| "add_edges nodes ((source, target) # rest) b =
     run_then (reading (index_or_panic nodes (local_index source))) (\<lambda>s.
     run_then (reading (index_or_panic nodes (local_index target))) (\<lambda>t.
       case (gb_add_edge b s t :: ((u32, u32) graph_build_error, u32) result \<times> u32 graph_builder) of
         (Inl _, _) \<Rightarrow> Some (Err (id_overflow RelationIds))
       | (Inr _, b) \<Rightarrow> add_edges nodes rest b))"

text \<open>The rows of a flat array; \<open>grouped_elements\<close> and \<open>grouped_relations\<close> only wrap the words.\<close>

fun grouped_loop :: "u32 list \<Rightarrow> u32 list \<Rightarrow> nat list \<Rightarrow> u32 list list \<Rightarrow> (db_error, u32 list list) run" where
  "grouped_loop offsets flat [] rows = Some (Ok rows)"
| "grouped_loop offsets flat (node # nodes) rows =
     run_then (reading (index_or_panic offsets node)) (\<lambda>first.
     run_then (trying (ok_or (id_overflow RelationIds) (to_usize first))) (\<lambda>first.
     run_then (reading (index_or_panic offsets (node + 1))) (\<lambda>next.
     run_then (trying (ok_or (id_overflow RelationIds) (to_usize next))) (\<lambda>next.
     run_then (trying (ok_or (invalid_projection ''csr offset range out of bounds'') (slice_or_panic flat first next))) (\<lambda>row.
       grouped_loop offsets flat nodes (rows @ [row]))))))"

definition grouped :: "u32 list \<Rightarrow> u32 list \<Rightarrow> nat \<Rightarrow> (db_error, u32 list list) run" where
  "grouped offsets flat node_count = grouped_loop offsets flat [0..<node_count] []"

definition gpb_finish :: "graph_projection_builder \<Rightarrow> (db_error, graph_projection) run" where
  "gpb_finish b =
     (let node_count = length (gpb_elements b) in
      run_then (trying (add_nodes node_count graph_builder_new [])) (\<lambda>(gb, nodes).
      run_then (add_edges nodes (gpb_endpoints b) gb) (\<lambda>gb.
      run_then (or_err (id_overflow RelationIds)
        (gb_freeze gb :: ((u32, u32) graph_build_error, (u32, u32) frozen_graph) run)) (\<lambda>forward.
      run_then (or_err (id_overflow RelationIds) (fg_transpose forward)) (\<lambda>reverse.
      run_then (grouped (ft_offsets (fg_topology forward)) (ft_targets (fg_topology forward)) node_count) (\<lambda>successors.
      run_then (grouped (ft_offsets (fg_topology forward)) (ft_edge_ids (fg_topology forward)) node_count) (\<lambda>out_edges.
      run_then (grouped (ft_offsets (fg_topology reverse)) (ft_targets (fg_topology reverse)) node_count) (\<lambda>predecessors.
      run_then (grouped (ft_offsets (fg_topology reverse)) (ft_edge_ids (fg_topology reverse)) node_count) (\<lambda>in_edges.
        Some (Ok \<lparr>gpr_definition = gpb_definition b, gpr_elements = gpb_elements b,
          gpr_element_index = gpb_element_index b, gpr_relations = gpb_relations b,
          gpr_relation_index = gpb_relation_index b, gpr_endpoints = gpb_endpoints b,
          gpr_out_edges = out_edges, gpr_in_edges = in_edges, gpr_successors = successors,
          gpr_predecessors = predecessors\<rparr>))))))))))"

text \<open>The loop of \<open>from_state\<close> over the relations of the view.\<close>

fun push_selected ::
    "(relation_id \<Rightarrow> incidence_record list) \<Rightarrow> relation_record list \<Rightarrow> graph_projection_builder
     \<Rightarrow> (db_error, graph_projection_builder) result" where
  "push_selected relation_incidences [] b = Ok b"
| "push_selected relation_incidences (r # rs) b =
     (if relation_selected r (gp_relation_types (gpb_definition b)) then
        and_then (gpb_push_relation relation_incidences r b) (push_selected relation_incidences rs)
      else push_selected relation_incidences rs b)"

definition graph_projection_from_state ::
    "base_records \<Rightarrow> 'a overlay_scheme \<Rightarrow> graph_projection_definition \<Rightarrow> (db_error, graph_projection) run" where
  "graph_projection_from_state base ov d =
     run_then (trying (push_selected (st_relation_incidences base ov) (st_relations base ov) (gpb_new d))) gpb_finish"

section \<open>Accessors\<close>

definition gpr_subjects :: "graph_projection \<Rightarrow> property_subject list" where
  "gpr_subjects g = sort (map Element (gpr_elements g) @ map Relation (gpr_relations g))"

definition gpr_element_count :: "graph_projection \<Rightarrow> nat" where
  "gpr_element_count g = length (gpr_elements g)"

definition gpr_relation_count :: "graph_projection \<Rightarrow> nat" where
  "gpr_relation_count g = length (gpr_relations g)"

definition gpr_contains_element :: "graph_projection \<Rightarrow> local_id \<Rightarrow> bool" where
  "gpr_contains_element g i \<longleftrightarrow> local_index i < length (gpr_elements g)"

definition gpr_contains_relation :: "graph_projection \<Rightarrow> local_id \<Rightarrow> bool" where
  "gpr_contains_relation g i \<longleftrightarrow> local_relation_index i < length (gpr_relations g)"

definition gpr_canonical_element_id :: "graph_projection \<Rightarrow> local_id \<Rightarrow> element_id option" where
  "gpr_canonical_element_id g i = index_or_panic (gpr_elements g) (local_index i)"

definition gpr_local_element_id :: "graph_projection \<Rightarrow> element_id \<Rightarrow> local_id option" where
  "gpr_local_element_id g canonical = fmlookup (gpr_element_index g) canonical"

definition gpr_canonical_relation_id :: "graph_projection \<Rightarrow> local_id \<Rightarrow> relation_id option" where
  "gpr_canonical_relation_id g i = index_or_panic (gpr_relations g) (local_relation_index i)"

definition gpr_local_relation_id :: "graph_projection \<Rightarrow> relation_id \<Rightarrow> local_id option" where
  "gpr_local_relation_id g canonical = fmlookup (gpr_relation_index g) canonical"

definition gpr_source :: "graph_projection \<Rightarrow> local_id \<Rightarrow> local_id option" where
  "gpr_source g edge = map_option fst (index_or_panic (gpr_endpoints g) (local_relation_index edge))"

definition gpr_target :: "graph_projection \<Rightarrow> local_id \<Rightarrow> local_id option" where
  "gpr_target g edge = map_option snd (index_or_panic (gpr_endpoints g) (local_relation_index edge))"

definition gpr_outgoing_edges :: "graph_projection \<Rightarrow> local_id \<Rightarrow> local_id list option" where
  "gpr_outgoing_edges g node = index_or_panic (gpr_out_edges g) (local_index node)"

definition gpr_incoming_edges :: "graph_projection \<Rightarrow> local_id \<Rightarrow> local_id list option" where
  "gpr_incoming_edges g node = index_or_panic (gpr_in_edges g) (local_index node)"

definition gpr_element_successors :: "graph_projection \<Rightarrow> local_id \<Rightarrow> local_id list option" where
  "gpr_element_successors g i = index_or_panic (gpr_successors g) (local_index i)"

definition gpr_element_predecessors :: "graph_projection \<Rightarrow> local_id \<Rightarrow> local_id list option" where
  "gpr_element_predecessors g i = index_or_panic (gpr_predecessors g) (local_index i)"

definition gpr_out_degree :: "graph_projection \<Rightarrow> local_id \<Rightarrow> nat option" where
  "gpr_out_degree g node = map_option length (index_or_panic (gpr_out_edges g) (local_index node))"

definition gpr_in_degree :: "graph_projection \<Rightarrow> local_id \<Rightarrow> nat option" where
  "gpr_in_degree g node = map_option length (index_or_panic (gpr_in_edges g) (local_index node))"

definition gpr_topology :: "graph_projection \<Rightarrow> local_id topology_view" where
  "gpr_topology g =
     \<lparr>element_bound = length (gpr_elements g), element_index = (\<lambda>i. Some (local_index i)),
      contains_element = gpr_contains_element g, element_successors = gpr_element_successors g,
      element_predecessors = gpr_element_predecessors g\<rparr>"

section \<open>What the selected relations say\<close>

text \<open>The element at the only incidence in a role, and the edge of a relation that has one for each end.\<close>

definition lone_end :: "incidence_record list \<Rightarrow> role_id \<Rightarrow> element_id option" where
  "lone_end ns role = (case filter (\<lambda>n. ir_role n = role) ns of [n] \<Rightarrow> Some (ir_element n) | _ \<Rightarrow> None)"

definition binary_edge ::
    "(relation_id \<Rightarrow> incidence_record list) \<Rightarrow> graph_projection_definition \<Rightarrow> relation_id \<Rightarrow> (element_id \<times> element_id) option" where
  "binary_edge relation_incidences d r =
     (case (lone_end (relation_incidences r) (gp_source_role d), lone_end (relation_incidences r) (gp_target_role d)) of
        (Some source, Some target) \<Rightarrow> Some (source, target)
      | _ \<Rightarrow> None)"

text \<open>The edges of the selected relations, if each has one.\<close>

fun projected_edges ::
    "(relation_id \<Rightarrow> incidence_record list) \<Rightarrow> graph_projection_definition \<Rightarrow> relation_record list
     \<Rightarrow> (relation_id \<times> element_id \<times> element_id) list option" where
  "projected_edges relation_incidences d [] = Some []"
| "projected_edges relation_incidences d (r # rs) =
     (if relation_selected r (gp_relation_types d) then
        Option.bind (binary_edge relation_incidences d (rr_id r)) (\<lambda>edge.
          map_option (Cons (rr_id r, edge)) (projected_edges relation_incidences d rs))
      else projected_edges relation_incidences d rs)"

definition local_fits :: "'a list \<Rightarrow> bool" where
  "local_fits xs \<longleftrightarrow> length xs \<le> 2 ^ 32"

lemma local_index_unat [simp]: "local_index i = unat i" "local_relation_index i = unat i"
proof -
  have "to_usize i = Some (unat i)"
    using unat_bound [of i] by (simp add: to_usize_def usize_max_def)
  then show "local_index i = unat i" "local_relation_index i = unat i"
    by (simp_all add: local_index_def local_relation_index_def)
qed

fun joined :: "'a option \<Rightarrow> 'a list \<Rightarrow> 'a option option" where
  "joined s [] = Some s"
| "joined None [x] = Some (Some x)"
| "joined _ _ = None"

lemma joined_Some [simp]: "joined (Some s) xs = Some t \<longleftrightarrow> xs = [] \<and> t = Some s"
  by (cases xs) auto

lemma joined_None_Some [simp]: "joined None xs = Some (Some x) \<longleftrightarrow> xs = [x]"
  by (cases xs rule: list.exhaust; cases "tl xs") auto

lemma joined_Cons: "joined None (x # xs) = Some t \<longleftrightarrow> xs = [] \<and> t = Some x"
  by (cases xs) auto

lemma endpoints_loop_Ok_iff:
  "endpoints_loop sr tr ns (s, t) = Ok (s', t') \<longleftrightarrow>
     joined s (map ir_element (filter (\<lambda>n. ir_role n = sr) ns)) = Some s' \<and>
     joined t (map ir_element (filter (\<lambda>n. ir_role n = tr) ns)) = Some t'"
proof (induction ns arbitrary: s t)
  case (Cons n ns)
  then show ?case
    by (cases s; cases t) (auto simp: update_endpoint_def joined_Cons)
qed auto

lemma endpoints_loop_Err: "endpoints_loop sr tr ns slots = Err e \<Longrightarrow> \<exists>m. e = invalid_projection m"
  by (induction sr tr ns slots rule: endpoints_loop.induct)
    (auto simp: and_then_Err_iff update_endpoint_def split: if_splits)

lemma lone_end_Some_iff:
  "lone_end ns role = Some x \<longleftrightarrow> map ir_element (filter (\<lambda>n. ir_role n = role) ns) = [x]"
  by (auto simp: lone_end_def split: list.splits)

lemma graph_endpoints_decides:
  shows "graph_endpoints inc r (gp_source_role d) (gp_target_role d) = Ok edge \<longleftrightarrow> binary_edge inc d r = Some edge"
    and "graph_endpoints inc r (gp_source_role d) (gp_target_role d) = Err e \<Longrightarrow>
      binary_edge inc d r = None \<and> (\<exists>m. e = invalid_projection m)"
proof -
  have edge: "binary_edge inc d r = Some edge \<longleftrightarrow>
      lone_end (inc r) (gp_source_role d) = Some (fst edge) \<and> lone_end (inc r) (gp_target_role d) = Some (snd edge)" for edge
    by (auto simp: binary_edge_def split: option.splits)
  then show ok: "graph_endpoints inc r (gp_source_role d) (gp_target_role d) = Ok edge \<longleftrightarrow> binary_edge inc d r = Some edge"
    for edge
  proof -
    have "graph_endpoints inc r (gp_source_role d) (gp_target_role d) = Ok edge \<longleftrightarrow>
        endpoints_loop (gp_source_role d) (gp_target_role d) (inc r) (None, None) = Ok (Some (fst edge), Some (snd edge))"
      by (cases edge) (auto simp: graph_endpoints_def split: option.splits)
    then show ?thesis by (simp add: endpoints_loop_Ok_iff edge lone_end_Some_iff)
  qed
  show "binary_edge inc d r = None \<and> (\<exists>m. e = invalid_projection m)"
    if "graph_endpoints inc r (gp_source_role d) (gp_target_role d) = Err e"
  proof
    show "binary_edge inc d r = None"
      using ok that by (metis not_None_eq Inl_Inr_False)
    show "\<exists>m. e = invalid_projection m"
      using that by (auto simp: graph_endpoints_def and_then_Err_iff dest: endpoints_loop_Err split: option.splits prod.splits)
  qed
qed

section \<open>Interned identifiers\<close>

definition interned :: "(u64, local_id) fmap \<Rightarrow> u64 list \<Rightarrow> bool" where
  "interned index xs \<longleftrightarrow> distinct xs \<and> local_fits xs \<and>
     (\<forall>x i. fmlookup index x = Some i \<longleftrightarrow> unat i < length xs \<and> xs ! unat i = x)"

lemma interned_empty [simp]: "interned fmempty []"
  by (simp add: interned_def local_fits_def)

lemma interned_lookup: "interned index xs \<Longrightarrow> fmlookup index x = Some i \<longleftrightarrow> unat i < length xs \<and> xs ! unat i = x"
  by (simp add: interned_def)

lemma interned_None: "interned index xs \<Longrightarrow> fmlookup index x = None \<longleftrightarrow> x \<notin> set xs"
proof -
  assume index: "interned index xs"
  have "unat (word_of_nat k :: local_id) = k" if "k < length xs" for k
    using that index by (intro unat_word_of_nat) (simp add: interned_def local_fits_def)
  then have "x \<in> set xs \<longleftrightarrow> (\<exists>i :: local_id. unat i < length xs \<and> xs ! unat i = x)"
    by (metis in_set_conv_nth)
  then have "(\<exists>i. fmlookup index x = Some i) \<longleftrightarrow> x \<in> set xs" by (simp add: interned_lookup [OF index])
  then show ?thesis by (metis not_None_eq)
qed

lemma interned_snoc:
  assumes index: "interned index xs" and fresh: "x \<notin> set xs" and i: "from_usize (length xs) = Some i"
  shows "interned (fmupd x i index) (xs @ [x])" and "unat i = length xs"
proof -
  show i': "unat i = length xs" using i by (simp add: from_usize_Some_iff)
  then have fits: "local_fits (xs @ [x])" using unat_bound [of i] by (simp add: local_fits_def)
  have "fmlookup (fmupd x i index) y = Some j \<longleftrightarrow> unat j < length (xs @ [x]) \<and> (xs @ [x]) ! unat j = y" for y j
  proof (cases "unat j = length xs")
    case True
    then have "j = i" using i' by (simp add: word_unat_eq_iff)
    then show ?thesis using index True i' by (auto simp: interned_def)
  next
    case False
    then have "j \<noteq> i" using i' by auto
    then show ?thesis using index False fresh nth_mem [of "unat j" xs]
      by (auto simp: interned_def nth_append)
  qed
  then show "interned (fmupd x i index) (xs @ [x])"
    using index fresh fits by (simp add: interned_def)
qed

lemma intern_element_Ok:
  assumes "interned index xs" and "intern_element index xs c = Ok (i, index', xs')"
  shows "interned index' xs'" and "\<exists>zs. xs' = xs @ zs" and "unat i < length xs'" and "xs' ! unat i = c"
    and "set xs' = insert c (set xs)"
proof -
  have "interned index' xs' \<and> (\<exists>zs. xs' = xs @ zs) \<and> unat i < length xs' \<and> xs' ! unat i = c \<and> set xs' = insert c (set xs)"
  proof (cases "fmlookup index c")
    case None
    with assms(1) have fresh: "c \<notin> set xs" by (simp add: interned_None)
    from None assms(2) have "from_usize (length xs) = Some i" "index' = fmupd c i index" "xs' = xs @ [c]"
      by (auto simp: intern_element_def projection_element_id_def)
    with interned_snoc [OF assms(1) fresh] show ?thesis by simp
  next
    case (Some j)
    with assms have "j = i" "index' = index" "xs' = xs" by (auto simp: intern_element_def)
    with Some assms(1) show ?thesis by (auto simp: interned_lookup)
  qed
  then show "interned index' xs'" and "\<exists>zs. xs' = xs @ zs" and "unat i < length xs'" and "xs' ! unat i = c"
    and "set xs' = insert c (set xs)" by blast+
qed

lemma intern_element_Err:
  assumes "interned index xs" and "intern_element index xs c = Err e"
  shows "e = id_overflow ElementIds" and "length xs = 2 ^ 32" and "c \<notin> set xs"
proof -
  from assms(2) have "fmlookup index c = None" "e = id_overflow ElementIds" "(from_usize (length xs) :: local_id option) = None"
    by (auto simp: intern_element_def projection_element_id_def and_then_Err_iff split: option.splits)
  then show "e = id_overflow ElementIds" and "length xs = 2 ^ 32" and "c \<notin> set xs"
    using interned_None [OF assms(1)] assms(1)
    by (auto simp: from_usize_def interned_def local_fits_def split: if_splits)
qed

section \<open>The builder's invariant\<close>

text \<open>The builder holds these edges, renumbered, and nothing else.\<close>

definition gpb_ok :: "(relation_id \<times> element_id \<times> element_id) list \<Rightarrow> graph_projection_builder \<Rightarrow> bool" where
  "gpb_ok es b \<longleftrightarrow>
     interned (gpb_element_index b) (gpb_elements b) \<and> interned (gpb_relation_index b) (gpb_relations b) \<and>
     gpb_relations b = map fst es \<and>
     set (gpb_elements b) = fst ` snd ` set es \<union> snd ` snd ` set es \<and>
     (\<forall>(i, j) \<in> set (gpb_endpoints b). unat i < length (gpb_elements b) \<and> unat j < length (gpb_elements b)) \<and>
     map (\<lambda>(i, j). (gpb_elements b ! unat i, gpb_elements b ! unat j)) (gpb_endpoints b) = map snd es"

lemma gpb_ok_new: "gpb_ok [] (gpb_new d)"
  by (simp add: gpb_ok_def gpb_new_def)

lemma push_relation_Ok:
  assumes "gpb_ok es b" and "rr_id r \<notin> fst ` set es" and "gpb_push_relation inc r b = Ok b'"
  shows "\<exists>edge. binary_edge inc (gpb_definition b) (rr_id r) = Some edge \<and> gpb_ok (es @ [(rr_id r, edge)]) b'"
    and "gpb_definition b' = gpb_definition b"
proof -
  note old = assms(1) [unfolded gpb_ok_def]
  obtain s t i index1 xs1 j index2 xs2 k where
    edge: "graph_endpoints inc (rr_id r) (gp_source_role (gpb_definition b)) (gp_target_role (gpb_definition b)) = Ok (s, t)"
    and first: "intern_element (gpb_element_index b) (gpb_elements b) s = Ok (i, index1, xs1)"
    and second: "intern_element index1 xs1 t = Ok (j, index2, xs2)"
    and k: "(from_usize (length (gpb_relations b)) :: local_id option) = Some k"
    and b': "b' = b\<lparr>gpb_element_index := index2, gpb_elements := xs2, gpb_relations := gpb_relations b @ [rr_id r],
      gpb_relation_index := fmupd (rr_id r) k (gpb_relation_index b), gpb_endpoints := gpb_endpoints b @ [(i, j)]\<rparr>"
    using assms(3) by (auto simp: gpb_push_relation_def projection_relation_id_def split: prod.splits)
  have index: "interned (gpb_element_index b) (gpb_elements b)" using old by blast
  note one = intern_element_Ok [OF index first] and two = intern_element_Ok [OF intern_element_Ok(1) [OF index first] second]
  from one(2) two(2) obtain ys zs where xs: "xs1 = gpb_elements b @ ys" "xs2 = gpb_elements b @ ys @ zs" by auto
  have fresh: "rr_id r \<notin> set (gpb_relations b)" using old assms(2) by auto
  have in_range: "unat i < length xs2" "xs2 ! unat i = s" using one(3,4) xs by (auto simp: nth_append)
  have "map (\<lambda>(i, j). (xs2 ! unat i, xs2 ! unat j)) (gpb_endpoints b) =
      map (\<lambda>(i, j). (gpb_elements b ! unat i, gpb_elements b ! unat j)) (gpb_endpoints b)"
    using old by (intro map_cong) (auto simp: xs nth_append)
  then have ends: "map (\<lambda>(i, j). (xs2 ! unat i, xs2 ! unat j)) (gpb_endpoints b) = map snd es"
    using old by simp
  have "\<forall>(i, j) \<in> set (gpb_endpoints b). unat i < length xs2 \<and> unat j < length xs2"
    using old by (fastforce simp: xs)
  then have "gpb_ok (es @ [(rr_id r, s, t)]) b'"
    unfolding gpb_ok_def b'
    using old two(1,3,4,5) one(5) in_range interned_snoc(1) [OF _ fresh k] ends by auto
  with edge show "\<exists>edge. binary_edge inc (gpb_definition b) (rr_id r) = Some edge \<and> gpb_ok (es @ [(rr_id r, edge)]) b'"
    unfolding graph_endpoints_decides(1) by blast
  show "gpb_definition b' = gpb_definition b" by (simp add: b')
qed

lemma push_relation_Err:
  assumes "gpb_ok es b" and "gpb_push_relation inc r b = Err e"
  shows "(\<exists>m. e = invalid_projection m) \<and> binary_edge inc (gpb_definition b) (rr_id r) = None \<or>
    e = id_overflow ElementIds \<and> 2 ^ 31 \<le> length es"
proof -
  note old = assms(1) [unfolded gpb_ok_def]
  have index: "interned (gpb_element_index b) (gpb_elements b)" using old by blast
  then have "length (gpb_elements b) = card (fst ` snd ` set es \<union> snd ` snd ` set es)"
    using old by (metis distinct_card interned_def)
  also have "\<dots> \<le> card (fst ` snd ` set es) + card (snd ` snd ` set es)" by (rule card_Un_le)
  also have "\<dots> \<le> length es + length es"
    using card_length [of "map (fst \<circ> snd) es"] card_length [of "map (snd \<circ> snd) es"] by (simp add: image_comp)
  finally have count: "length (gpb_elements b) \<le> 2 * length es" by simp
  consider (edge) "graph_endpoints inc (rr_id r) (gp_source_role (gpb_definition b)) (gp_target_role (gpb_definition b)) = Err e"
    | (first) s where "intern_element (gpb_element_index b) (gpb_elements b) s = Err e"
    | (second) s i index1 xs1 t where "intern_element (gpb_element_index b) (gpb_elements b) s = Ok (i, index1, xs1)"
        "intern_element index1 xs1 t = Err e"
    | (relation) "e = id_overflow ElementIds" "(from_usize (length (gpb_relations b)) :: local_id option) = None"
    using assms(2) by (auto simp: gpb_push_relation_def projection_relation_id_def and_then_Err_iff split: prod.splits)
  then show ?thesis
  proof cases
    case edge
    then show ?thesis using graph_endpoints_decides(2) by blast
  next
    case first
    then show ?thesis using intern_element_Err [OF index first] count by simp
  next
    case second
    note one = intern_element_Ok [OF index second(1)]
    have "xs1 = gpb_elements b \<or> length xs1 = length (gpb_elements b) + 1"
      using second(1) by (auto simp: intern_element_def split: option.splits)
    then show ?thesis using intern_element_Err [OF one(1) second(2)] count by auto
  next
    case relation
    then show ?thesis using old by (auto simp: from_usize_def split: if_splits)
  qed
qed

text \<open>The loop over the relations of a view.\<close>

lemma push_selected_result:
  assumes "gpb_ok es b" and "distinct (map rr_id rs)" and "fst ` set es \<inter> rr_id ` set rs = {}"
  shows "push_selected inc rs b = Ok b' \<Longrightarrow>
      \<exists>fs. projected_edges inc (gpb_definition b) rs = Some fs \<and> gpb_ok (es @ fs) b' \<and> gpb_definition b' = gpb_definition b"
    and "push_selected inc rs b = Err e \<Longrightarrow>
      (\<exists>m. e = invalid_projection m) \<and> projected_edges inc (gpb_definition b) rs = None \<or>
      e = id_overflow ElementIds \<and> 2 ^ 31 \<le> length es + length (filter (\<lambda>r. relation_selected r (gp_relation_types (gpb_definition b))) rs)"
  using assms
proof (induction rs arbitrary: es b)
  case (Cons r rs)
  { case 1
    show ?case
    proof (cases "relation_selected r (gp_relation_types (gpb_definition b))")
      case True
      with 1(1) obtain b1 where b1: "gpb_push_relation inc r b = Ok b1" "push_selected inc rs b1 = Ok b'" by auto
      from push_relation_Ok [OF 1(2) _ b1(1)] 1(4) obtain edge where
        edge: "binary_edge inc (gpb_definition b) (rr_id r) = Some edge" "gpb_ok (es @ [(rr_id r, edge)]) b1"
        and d: "gpb_definition b1 = gpb_definition b" by auto
      have "fst ` set (es @ [(rr_id r, edge)]) \<inter> rr_id ` set rs = {}" using 1(3,4) by auto
      from Cons.IH(1) [OF b1(2) edge(2) _ this] 1(3) d edge(1) True show ?thesis by auto
    next
      case False
      with Cons.IH(1) [OF _ 1(2)] 1 show ?thesis by auto
    qed }
  { case 2
    show ?case
    proof (cases "relation_selected r (gp_relation_types (gpb_definition b))")
      case True
      show ?thesis
      proof (cases "gpb_push_relation inc r b")
        case (Inl e')
        with 2(1) True push_relation_Err [OF 2(2), of inc r e'] show ?thesis by auto
      next
        case (Inr b1)
        from push_relation_Ok [OF 2(2) _ Inr] 2(4) obtain edge where
          edge: "binary_edge inc (gpb_definition b) (rr_id r) = Some edge" "gpb_ok (es @ [(rr_id r, edge)]) b1"
          and d: "gpb_definition b1 = gpb_definition b" by auto
        have "fst ` set (es @ [(rr_id r, edge)]) \<inter> rr_id ` set rs = {}" using 2(3,4) by auto
        from Cons.IH(2) [OF _ edge(2) _ this] 2(1,3) d edge(1) True Inr show ?thesis by auto
      qed
    next
      case False
      with Cons.IH(2) [OF _ 2(2)] 2 show ?thesis by auto
    qed }
qed auto

section \<open>Freezing the builder\<close>

lemma add_nodes_Ok:
  assumes "builder_run TYPE(32) b es" and "gb_node_count b + k \<le> 2 ^ 32" and "nodes = map word_of_nat [0..<gb_node_count b]"
  shows "\<exists>b'. add_nodes k b nodes = Ok (b', map word_of_nat [0..<gb_node_count b + k]) \<and> builder_run TYPE(32) b' es \<and>
    gb_node_count b' = gb_node_count b + k"
  using assms
proof (induction k arbitrary: b nodes)
  case (Suc k)
  let ?b = "b\<lparr>gb_node_count := Suc (gb_node_count b)\<rparr>"
  have step: "(gb_add_node b :: ((u32, u32) graph_build_error, u32) result \<times> u32 graph_builder) =
      (Ok (word_of_nat (gb_node_count b)), ?b)"
    using Suc.prems(2) by (simp add: gb_add_node_def next_dense_index_def from_usize_def checked_add_def usize_max_def)
  have "builder_run TYPE(32) ?b es" by (rule build_node [OF Suc.prems(1) step])
  from Suc.IH [OF this _ refl] Suc.prems step show ?case by auto
qed auto

lemma add_edges_Ok:
  assumes "builder_run TYPE(32) b es" and "gb_node_count b = n" and "n \<le> 2 ^ 32"
    and "\<forall>(i, j) \<in> set ends. unat i < n \<and> unat j < n" and "length es + length ends \<le> 2 ^ 32"
  shows "\<exists>b'. add_edges (map word_of_nat [0..<n]) ends b = Some (Ok b') \<and> builder_run TYPE(32) b' (es @ ends) \<and>
    gb_node_count b' = n"
  using assms
proof (induction ends arbitrary: b es)
  case (Cons e ends)
  obtain i j where e: "e = (i, j)" by (cases e)
  let ?b = "b\<lparr>gb_sources := gb_sources b @ [i], gb_targets := gb_targets b @ [j]\<rparr>"
  have ends: "unat i < n" "unat j < n" using Cons.prems(4) e by auto
  have len: "length (gb_sources b) = length es" using builder_run_inv(1) [OF Cons.prems(1)] by simp
  have step: "(gb_add_edge b i j :: ((u32, u32) graph_build_error, u32) result \<times> u32 graph_builder) =
      (Ok (word_of_nat (length es)), ?b)"
    using ends Cons.prems len
    by (simp add: gb_add_edge_def ensure_node_def id_to_slot_def to_usize_def from_usize_def usize_max_def)
  have "builder_run TYPE(32) ?b (es @ [(i, j)])" by (rule build_edge [OF Cons.prems(1) step])
  from Cons.IH [OF this] Cons.prems step ends e show ?case by simp
qed auto

lemma grouped_rows:
  assumes wf: "frozen_wf n sources targets (t :: (u32, u32) frozen_topology)"
    and flat: "scattered (map unat sources) flat (length sources) f"
  shows "grouped (ft_offsets t) flat n = Some (Ok (map (\<lambda>v. map f (row_edges (map unat sources) v)) [0..<n]))"
proof -
  let ?rows = "map unat sources" and ?row = "\<lambda>v. map f (row_edges (map unat sources) v)"
  have m: "length sources < 2 ^ 32" "length (ft_offsets t) = n + 1" using wf by (simp_all add: frozen_wf_def)
  have len: "length flat = length sources" using flat by (simp add: scattered_def)
  have offset: "unat (ft_offsets t ! v) = below ?rows v" if "v < n + 1" for v
    using wf that below_le [of ?rows v] m(1) unat_word_of_nat [of "below ?rows v", where 'i = 32]
    unfolding frozen_wf_def by (simp del: upt_Suc)
  have fits: "below ?rows v \<le> usize_max" for v using below_le [of ?rows v] m(1) by (simp add: usize_max_def)
  have row: "slice_or_panic flat (below ?rows v) (below ?rows (Suc v)) = Some (?row v)" for v
  proof -
    have "subrange flat (below ?rows v) (below ?rows (Suc v) - below ?rows v) = ?row v"
      by (rule scattered_row) (use flat in \<open>auto simp: scattered_def\<close>)
    then show ?thesis
      using below_mono [of v "Suc v" ?rows] below_le [of ?rows "Suc v"] len by (simp add: subrange_def)
  qed
  have "grouped_loop (ft_offsets t) flat vs rows = Some (Ok (rows @ map ?row vs))" if "\<forall>v \<in> set vs. v < n" for vs rows
    using that
  proof (induction vs arbitrary: rows)
    case (Cons v vs)
    then show ?case using offset [of v] offset [of "Suc v"] m(2) fits row by (simp add: to_usize_def)
  qed simp
  then show ?thesis by (simp add: grouped_def)
qed

section \<open>What a projection holds\<close>

definition out_rows :: "nat \<Rightarrow> (local_id \<times> local_id) list \<Rightarrow> local_id list list" where
  "out_rows n ends = map (\<lambda>v. map word_of_nat (filter (\<lambda>e. unat (fst (ends ! e)) = v) [0..<length ends])) [0..<n]"

definition target_rows :: "nat \<Rightarrow> (local_id \<times> local_id) list \<Rightarrow> local_id list list" where
  "target_rows n ends = map (\<lambda>v. map snd (filter (\<lambda>(i, j). unat i = v) ends)) [0..<n]"

definition swapped :: "('a \<times> 'b) list \<Rightarrow> ('b \<times> 'a) list" where
  "swapped xs = map (\<lambda>(i, j). (j, i)) xs"

lemma length_swapped [simp]: "length (swapped xs) = length xs"
  by (simp add: swapped_def)

lemma map_swapped [simp]: "map fst (swapped xs) = map snd xs" "map snd (swapped xs) = map fst xs"
  by (simp_all add: swapped_def comp_def case_prod_unfold)

lemma set_swapped: "(j, i) \<in> set (swapped xs) \<longleftrightarrow> (i, j) \<in> set xs"
  by (auto simp: swapped_def)

text \<open>The edges, renumbered, with the rows of both directions.\<close>

definition gpr_ok :: "(relation_id \<times> element_id \<times> element_id) list \<Rightarrow> graph_projection \<Rightarrow> bool" where
  "gpr_ok es g \<longleftrightarrow>
     interned (gpr_element_index g) (gpr_elements g) \<and> interned (gpr_relation_index g) (gpr_relations g) \<and>
     gpr_relations g = map fst es \<and>
     set (gpr_elements g) = fst ` snd ` set es \<union> snd ` snd ` set es \<and>
     (\<forall>(i, j) \<in> set (gpr_endpoints g). unat i < length (gpr_elements g) \<and> unat j < length (gpr_elements g)) \<and>
     map (\<lambda>(i, j). (gpr_elements g ! unat i, gpr_elements g ! unat j)) (gpr_endpoints g) = map snd es \<and>
     gpr_out_edges g = out_rows (length (gpr_elements g)) (gpr_endpoints g) \<and>
     gpr_successors g = target_rows (length (gpr_elements g)) (gpr_endpoints g) \<and>
     gpr_in_edges g = out_rows (length (gpr_elements g)) (swapped (gpr_endpoints g)) \<and>
     gpr_predecessors g = target_rows (length (gpr_elements g)) (swapped (gpr_endpoints g))"

lemma frozen_rows:
  assumes wf: "frozen_wf n (map fst ends) (map snd ends) (t :: (u32, u32) frozen_topology)"
  shows "grouped (ft_offsets t) (ft_targets t) n = Some (Ok (target_rows n ends))"
    and "grouped (ft_offsets t) (ft_edge_ids t) n = Some (Ok (out_rows n ends))"
proof -
  let ?rows = "map unat (map fst ends)"
  have row: "row_edges ?rows v = filter (\<lambda>e. unat (fst (ends ! e)) = v) [0..<length ends]" for v
    unfolding row_edges_def length_map by (rule filter_cong) simp_all
  have row': "row_edges ?rows v = filter (\<lambda>e. unat (map fst ends ! e) = v) [0..<length (map fst ends)]" for v
    unfolding row_edges_def length_map by (rule filter_cong) simp_all
  have "map (\<lambda>e. map snd ends ! e) (filter (\<lambda>e. unat (map fst ends ! e) = v) [0..<length (map fst ends)]) =
      map snd (filter (\<lambda>(i, j). unat i = v) (zip (map fst ends) (map snd ends)))" for v
    by (rule row_targets) simp
  then have targets: "map (\<lambda>e. map snd ends ! e) (row_edges ?rows v) = map snd (filter (\<lambda>(i, j). unat i = v) ends)" for v
    by (simp only: row' zip_fst_snd)
  have "scattered ?rows (ft_targets t) (length (map fst ends)) (\<lambda>e. map snd ends ! e)"
    "scattered ?rows (ft_edge_ids t) (length (map fst ends)) word_of_nat"
    using wf by (simp_all add: frozen_wf_def)
  note rows = this [THEN grouped_rows [OF wf]]
  show "grouped (ft_offsets t) (ft_targets t) n = Some (Ok (target_rows n ends))"
    using rows(1) by (simp only: target_rows_def targets)
  show "grouped (ft_offsets t) (ft_edge_ids t) n = Some (Ok (out_rows n ends))"
    using rows(2) by (simp only: out_rows_def row)
qed

text \<open>Finishing succeeds unless the last edge identifier does not fit.\<close>

lemma gpb_ok_length:
  assumes "gpb_ok es b"
  shows "length (gpb_endpoints b) = length es" and "length es \<le> 2 ^ 32" and "length (gpb_elements b) \<le> 2 ^ 32"
proof -
  note old = assms [unfolded gpb_ok_def]
  then have "length (map (\<lambda>(i, j). (gpb_elements b ! unat i, gpb_elements b ! unat j)) (gpb_endpoints b)) = length (map snd es)"
    by metis
  then show "length (gpb_endpoints b) = length es" by simp
  have "local_fits (gpb_relations b)" "gpb_relations b = map fst es" using old unfolding interned_def by blast+
  then show "length es \<le> 2 ^ 32" by (simp add: local_fits_def)
  show "length (gpb_elements b) \<le> 2 ^ 32" using old by (simp add: interned_def local_fits_def)
qed

lemma gpb_finish_result:
  assumes "gpb_ok es b"
  shows "if length es < 2 ^ 32 then \<exists>g. gpb_finish b = Some (Ok g) \<and> gpr_ok es g \<and> gpr_definition g = gpb_definition b
    else gpb_finish b = Some (Err (id_overflow RelationIds))"
proof -
  let ?n = "length (gpb_elements b)" and ?ends = "gpb_endpoints b"
  note old = assms [unfolded gpb_ok_def] and len = gpb_ok_length [OF assms]
  have bounds: "\<forall>(i, j) \<in> set ?ends. unat i < ?n \<and> unat j < ?n" using old by blast
  from add_nodes_Ok [OF build_new, of ?n "[]"] len(3) obtain b1 where
    b1: "add_nodes ?n graph_builder_new [] = Ok (b1, map word_of_nat [0..<?n])" "builder_run TYPE(32) b1 []" "gb_node_count b1 = ?n"
    by (auto simp: graph_builder_new_def)
  from add_edges_Ok [OF b1(2,3) len(3) bounds] len obtain b2 where
    b2: "add_edges (map word_of_nat [0..<?n]) ?ends b1 = Some (Ok b2)" "builder_run TYPE(32) b2 ?ends" "gb_node_count b2 = ?n"
    by auto
  have ok: "edges_ok ?n (map fst ?ends) (map snd ?ends)" "edges_ok ?n (map snd ?ends) (map fst ?ends)"
    using bounds len by (auto simp: edges_ok_def usize_max_def)
  have frozen: "gb_freeze b2 = run_then (freeze_topology ?n (map fst ?ends) (map snd ?ends)) (\<lambda>t. Some (Ok \<lparr>fg_topology = t\<rparr>))"
    by (simp add: gb_freeze_def b2(3) builder_run_inv [OF b2(2)])
  show ?thesis
  proof (cases "length es < 2 ^ 32")
    case True
    with len have "length (map fst ?ends) < 2 ^ LENGTH(32)" "length (map snd ?ends) < 2 ^ LENGTH(32)" by simp_all
    from freeze_topology_Ok [OF ok(1) this(1)] freeze_topology_Ok [OF ok(2) this(2)] obtain t u :: "(u32, u32) frozen_topology" where
      t: "freeze_topology ?n (map fst ?ends) (map snd ?ends) = Some (Ok t)" "frozen_wf ?n (map fst ?ends) (map snd ?ends) t"
      and u: "freeze_topology ?n (map snd ?ends) (map fst ?ends) = Some (Ok u)" "frozen_wf ?n (map snd ?ends) (map fst ?ends) u"
      by blast
    have reversed: "fg_transpose \<lparr>fg_topology = t\<rparr> = Some (Ok \<lparr>fg_topology = u\<rparr>)"
      using t(2) u(1) by (simp add: fg_transpose_def frozen_wf_def)
    have u': "frozen_wf ?n (map fst (swapped ?ends)) (map snd (swapped ?ends)) u" using u(2) by simp
    let ?g = "\<lparr>gpr_definition = gpb_definition b, gpr_elements = gpb_elements b,
          gpr_element_index = gpb_element_index b, gpr_relations = gpb_relations b,
          gpr_relation_index = gpb_relation_index b, gpr_endpoints = gpb_endpoints b,
          gpr_out_edges = out_rows ?n ?ends, gpr_in_edges = out_rows ?n (swapped ?ends),
          gpr_successors = target_rows ?n ?ends, gpr_predecessors = target_rows ?n (swapped ?ends)\<rparr>"
    have "gpb_finish b = Some (Ok ?g)"
      by (simp add: gpb_finish_def Let_def b1(1) b2(1) frozen t(1) reversed or_err_def frozen_rows [OF t(2)] frozen_rows [OF u'])
    moreover have "gpr_ok es ?g" using old unfolding gpr_ok_def by (elim conjE) simp
    ultimately have "\<exists>g. gpb_finish b = Some (Ok g) \<and> gpr_ok es g \<and> gpr_definition g = gpb_definition b"
      by (intro exI [of _ ?g]) simp
    with True show ?thesis by simp
  next
    case False
    with len have "2 ^ LENGTH(32) \<le> length (map fst ?ends)" by simp
    from freeze_topology_Err [OF ok(1) this] obtain w where
      "(freeze_topology ?n (map fst ?ends) (map snd ?ends) :: ((u32, u32) graph_build_error, (u32, u32) frozen_topology) run) =
        Some (Err (IdOverflow w))" by blast
    with False show ?thesis by (simp add: gpb_finish_def Let_def b1(1) b2(1) frozen or_err_def)
  qed
qed

lemma graph_projection_result:
  assumes "layered_ok (base, ov)"
  shows "case graph_projection_from_state base ov d of
      None \<Rightarrow> False
    | Some (Inr g) \<Rightarrow> gpr_definition g = d \<and>
        (\<exists>es. projected_edges (st_relation_incidences base ov) d (st_relations base ov) = Some es \<and> gpr_ok es g)
    | Some (Inl e) \<Rightarrow>
        (\<exists>m. e = invalid_projection m) \<and> projected_edges (st_relation_incidences base ov) d (st_relations base ov) = None \<or>
        e \<in> {id_overflow ElementIds, id_overflow RelationIds} \<and>
          2 ^ 31 \<le> length (filter (\<lambda>r. relation_selected r (gp_relation_types d)) (st_relations base ov))"
proof -
  let ?push = "push_selected (st_relation_incidences base ov) (st_relations base ov) (gpb_new d)"
  have d: "gpb_definition (gpb_new d) = d" by (simp add: gpb_new_def)
  have "sorted_wrt (<) (map rr_id (st_relations base ov))"
    using layered_view.relations_ascend [OF assms] by simp
  then have distinct: "distinct (map rr_id (st_relations base ov))" by (simp add: strict_sorted_iff)
  note pushed = push_selected_result [OF gpb_ok_new [of d] distinct, unfolded d]
  show ?thesis
  proof (cases ?push)
    case (Inl e)
    with pushed(2) [OF _ Inl] show ?thesis by (auto simp: graph_projection_from_state_def)
  next
    case (Inr b)
    with pushed(1) [OF _ Inr] obtain es where
      es: "projected_edges (st_relation_incidences base ov) d (st_relations base ov) = Some es" "gpb_ok es b" "gpb_definition b = d"
      by auto
    have "length es = length (filter (\<lambda>r. relation_selected r (gp_relation_types d)) rs)"
      if "projected_edges inc d rs = Some es" for inc rs es
      using that by (induction rs arbitrary: es) (auto split: if_splits bind_splits)
    from this [OF es(1)] gpb_finish_result [OF es(2)] es Inr show ?thesis
      by (auto simp: graph_projection_from_state_def not_less split: if_splits)
  qed
qed

section \<open>The accessors of a projection\<close>

lemma filtered_rows:
  assumes distinct: "distinct xs" and bounds: "\<forall>(i, j) \<in> set ends. unat i < length xs \<and> unat j < length xs"
    and es: "map (\<lambda>(i, j). (xs ! unat i, xs ! unat j)) ends = map snd es" and v: "v < length xs"
  shows "map (\<lambda>j. xs ! unat j) (map snd (filter (\<lambda>(i, j). unat i = v) ends)) =
      map (snd \<circ> snd) (filter (\<lambda>(_, s, _). s = xs ! v) es)"
    and "map (\<lambda>e. fst (es ! e)) (filter (\<lambda>e. unat (fst (ends ! e)) = v) [0..<length ends]) =
      map fst (filter (\<lambda>(_, s, _). s = xs ! v) es)"
proof -
  have same: "unat i = v \<longleftrightarrow> xs ! unat i = xs ! v" if "(i, j) \<in> set ends" for i j
    using that bounds v distinct by (auto simp: nth_eq_iff_index_eq)
  have "filter (\<lambda>(i, j). unat i = v) ends = filter (\<lambda>(i, j). xs ! unat i = xs ! v) ends"
    by (rule filter_cong) (auto simp: same)
  then have "map (\<lambda>j. xs ! unat j) (map snd (filter (\<lambda>(i, j). unat i = v) ends)) =
      map snd (filter (\<lambda>(s, t). s = xs ! v) (map (\<lambda>(i, j). (xs ! unat i, xs ! unat j)) ends))"
    by (simp add: filter_map comp_def case_prod_unfold)
  also have "\<dots> = map (snd \<circ> snd) (filter (\<lambda>(_, s, _). s = xs ! v) es)"
    unfolding es by (simp add: filter_map comp_def case_prod_unfold)
  finally show "map (\<lambda>j. xs ! unat j) (map snd (filter (\<lambda>(i, j). unat i = v) ends)) =
      map (snd \<circ> snd) (filter (\<lambda>(_, s, _). s = xs ! v) es)" .
  have len: "length ends = length es" using arg_cong [OF es, of length] by simp
  have row: "unat (fst (ends ! e)) = v \<longleftrightarrow> fst (snd (es ! e)) = xs ! v" if "e < length ends" for e
  proof -
    have "snd (es ! e) = map snd es ! e" using that len by simp
    also have "\<dots> = (\<lambda>(i, j). (xs ! unat i, xs ! unat j)) (ends ! e)" using that by (simp flip: es)
    finally have "fst (snd (es ! e)) = xs ! unat (fst (ends ! e))" by (simp add: case_prod_unfold)
    then show ?thesis using same [of "fst (ends ! e)" "snd (ends ! e)"] that by simp
  qed
  have "map (\<lambda>e. map fst es ! e) (filter (\<lambda>e. map (fst \<circ> snd) es ! e = xs ! v) [0..<length (map (fst \<circ> snd) es)]) =
      map snd (filter (\<lambda>(s, t). s = xs ! v) (zip (map (fst \<circ> snd) es) (map fst es)))"
    by (rule row_targets) simp
  also have "\<dots> = map fst (filter (\<lambda>(_, s, _). s = xs ! v) es)"
    by (induction es) auto
  finally have rows: "map (\<lambda>e. map fst es ! e) (filter (\<lambda>e. map (fst \<circ> snd) es ! e = xs ! v) [0..<length (map (fst \<circ> snd) es)]) =
      map fst (filter (\<lambda>(_, s, _). s = xs ! v) es)" .
  show "map (\<lambda>e. fst (es ! e)) (filter (\<lambda>e. unat (fst (ends ! e)) = v) [0..<length ends]) =
      map fst (filter (\<lambda>(_, s, _). s = xs ! v) es)"
    unfolding rows [symmetric] by (rule map_cong [OF filter_cong]) (auto simp: len row)
qed

lemma gpr_okD:
  assumes "gpr_ok es g"
  shows "interned (gpr_element_index g) (gpr_elements g)" and "interned (gpr_relation_index g) (gpr_relations g)"
    and "gpr_relations g = map fst es" and "distinct (gpr_elements g)"
    and "set (gpr_elements g) = fst ` snd ` set es \<union> snd ` snd ` set es"
    and "\<forall>(i, j) \<in> set (gpr_endpoints g). unat i < length (gpr_elements g) \<and> unat j < length (gpr_elements g)"
    and "map (\<lambda>(i, j). (gpr_elements g ! unat i, gpr_elements g ! unat j)) (gpr_endpoints g) = map snd es"
    and "length (gpr_endpoints g) = length es"
proof -
  note facts = assms [unfolded gpr_ok_def]
  show "interned (gpr_element_index g) (gpr_elements g)" "interned (gpr_relation_index g) (gpr_relations g)"
    "gpr_relations g = map fst es"
    "set (gpr_elements g) = fst ` snd ` set es \<union> snd ` snd ` set es"
    "\<forall>(i, j) \<in> set (gpr_endpoints g). unat i < length (gpr_elements g) \<and> unat j < length (gpr_elements g)"
    and ends: "map (\<lambda>(i, j). (gpr_elements g ! unat i, gpr_elements g ! unat j)) (gpr_endpoints g) = map snd es"
    using facts by blast+
  then show "distinct (gpr_elements g)" by (simp add: interned_def)
  from arg_cong [OF ends, of length] show "length (gpr_endpoints g) = length es" by simp
qed

lemma gpr_contains_iff: "gpr_contains_element g i \<longleftrightarrow> unat i < length (gpr_elements g)"
  by (simp add: gpr_contains_element_def)

text \<open>Each accessor of a contained element, in canonical terms.\<close>

lemma gpr_rows:
  assumes ok: "gpr_ok es g" and i: "gpr_contains_element g i" and x: "x = gpr_elements g ! unat i"
  shows "\<exists>js. gpr_element_successors g i = Some js \<and> (\<forall>j \<in> set js. gpr_contains_element g j) \<and>
      map (gpr_canonical_element_id g) js = map Some (map (snd \<circ> snd) (filter (\<lambda>(_, s, _). s = x) es))"
    and "\<exists>js. gpr_element_predecessors g i = Some js \<and> (\<forall>j \<in> set js. gpr_contains_element g j) \<and>
      map (gpr_canonical_element_id g) js = map Some (map (fst \<circ> snd) (filter (\<lambda>(_, _, t). t = x) es))"
    and "\<exists>ks. gpr_outgoing_edges g i = Some ks \<and> (\<forall>k \<in> set ks. gpr_contains_relation g k) \<and>
      map (gpr_canonical_relation_id g) ks = map Some (map (fst) (filter (\<lambda>(_, s, _). s = x) es))"
    and "\<exists>ks. gpr_incoming_edges g i = Some ks \<and> (\<forall>k \<in> set ks. gpr_contains_relation g k) \<and>
      map (gpr_canonical_relation_id g) ks = map Some (map (fst) (filter (\<lambda>(_, _, t). t = x) es))"
proof -
  let ?xs = "gpr_elements g" and ?ends = "gpr_endpoints g" and ?es = "map (\<lambda>(r, s, t). (r, t, s)) es"
  note facts = gpr_okD [OF ok]
  have v: "unat i < length ?xs" using i by (simp add: gpr_contains_iff)
  have rows: "gpr_out_edges g = out_rows (length ?xs) ?ends" "gpr_successors g = target_rows (length ?xs) ?ends"
    "gpr_in_edges g = out_rows (length ?xs) (swapped ?ends)" "gpr_predecessors g = target_rows (length ?xs) (swapped ?ends)"
    using ok unfolding gpr_ok_def by blast+
  have canonical: "gpr_canonical_element_id g j = Some (?xs ! unat j)" if "unat j < length ?xs" for j
    using that by (simp add: gpr_canonical_element_id_def)
  have bounds': "\<forall>(i, j) \<in> set (swapped ?ends). unat i < length ?xs \<and> unat j < length ?xs"
    using facts(6) by (auto simp: swapped_def)
  have "map (\<lambda>(i, j). (?xs ! unat i, ?xs ! unat j)) (swapped ?ends) = swapped (map snd es)"
    unfolding facts(7) [symmetric] by (simp add: swapped_def comp_def case_prod_unfold)
  then have es': "map (\<lambda>(i, j). (?xs ! unat i, ?xs ! unat j)) (swapped ?ends) = map snd ?es"
    by (simp add: swapped_def comp_def case_prod_unfold)
  note one = filtered_rows [OF facts(4,6,7) v] and two = filtered_rows [OF facts(4) bounds' es' v]
  have len: "length es \<le> 2 ^ 32" "length (gpr_relations g) = length es"
    using facts(2,3) by (simp_all add: interned_def local_fits_def)
  have edge: "gpr_canonical_relation_id g (word_of_nat e) = Some (fst (es ! e)) \<and> gpr_contains_relation g (word_of_nat e)"
    if "e < length es" for e
  proof -
    have "unat (word_of_nat e :: local_id) = e" using that len by (intro unat_word_of_nat) simp
    then show ?thesis using that len facts(3) by (simp add: gpr_canonical_relation_id_def gpr_contains_relation_def)
  qed
  let ?js = "\<lambda>ps. map snd (filter (\<lambda>(a, b). unat a = unat i) ps)"
    and ?ks = "\<lambda>ps. map word_of_nat (filter (\<lambda>e. unat (fst (ps ! e)) = unat i) [0..<length ps]) :: local_id list"
  have targets: "index_or_panic (target_rows (length ?xs) ps) (local_index i) = Some (?js ps)"
    "\<forall>j \<in> set (?js ps). gpr_contains_element g j" "map (gpr_canonical_element_id g) (?js ps) = map Some (map (\<lambda>j. ?xs ! unat j) (?js ps))"
    if "\<forall>(i, j) \<in> set ps. unat i < length ?xs \<and> unat j < length ?xs" for ps
    using that v by (auto simp: target_rows_def gpr_contains_iff canonical)
  have edges: "index_or_panic (out_rows (length ?xs) ps) (local_index i) = Some (?ks ps)"
    "\<forall>k \<in> set (?ks ps). gpr_contains_relation g k"
    "map (gpr_canonical_relation_id g) (?ks ps) =
        map Some (map (\<lambda>e. fst (es ! e)) (filter (\<lambda>e. unat (fst (ps ! e)) = unat i) [0..<length ps]))"
    if "length ps = length es" for ps :: "(local_id \<times> local_id) list"
    using that v edge by (auto simp: out_rows_def)
  have len': "length (swapped ?ends) = length es" "length ?es = length es" using facts(8) by simp_all
  have flip: "filter (\<lambda>(_, s, _). s = x) ?es = map (\<lambda>(r, s, t). (r, t, s)) (filter (\<lambda>(_, _, t). t = x) es)"
    by (simp add: filter_map comp_def case_prod_unfold)
  have targets2: "map (\<lambda>j. ?xs ! unat j) (?js (swapped ?ends)) = map (fst \<circ> snd) (filter (\<lambda>(_, _, t). t = x) es)"
    unfolding two(1) x [symmetric] flip by (simp add: comp_def case_prod_unfold)
  have "map (\<lambda>e. fst (es ! e)) (filter (\<lambda>e. unat (fst (swapped ?ends ! e)) = unat i) [0..<length (swapped ?ends)]) =
      map (\<lambda>e. fst (?es ! e)) (filter (\<lambda>e. unat (fst (swapped ?ends ! e)) = unat i) [0..<length (swapped ?ends)])"
    by (rule map_cong [OF refl]) (simp add: len' facts(8) case_prod_unfold)
  also have "\<dots> = map fst (filter (\<lambda>(_, _, t). t = x) es)"
    unfolding two(2) x [symmetric] flip by (simp add: comp_def case_prod_unfold)
  finally have edges2: "map (\<lambda>e. fst (es ! e)) (filter (\<lambda>e. unat (fst (swapped ?ends ! e)) = unat i) [0..<length (swapped ?ends)]) =
      map fst (filter (\<lambda>(_, _, t). t = x) es)" .
  show "\<exists>js. gpr_element_successors g i = Some js \<and> (\<forall>j \<in> set js. gpr_contains_element g j) \<and>
      map (gpr_canonical_element_id g) js = map Some (map (snd \<circ> snd) (filter (\<lambda>(_, s, _). s = x) es))"
    unfolding gpr_element_successors_def rows using targets [OF facts(6)] unfolding one(1) x by blast
  show "\<exists>js. gpr_element_predecessors g i = Some js \<and> (\<forall>j \<in> set js. gpr_contains_element g j) \<and>
      map (gpr_canonical_element_id g) js = map Some (map (fst \<circ> snd) (filter (\<lambda>(_, _, t). t = x) es))"
    unfolding gpr_element_predecessors_def rows using targets [OF bounds'] unfolding targets2 by blast
  show "\<exists>ks. gpr_outgoing_edges g i = Some ks \<and> (\<forall>k \<in> set ks. gpr_contains_relation g k) \<and>
      map (gpr_canonical_relation_id g) ks = map Some (map fst (filter (\<lambda>(_, s, _). s = x) es))"
    unfolding gpr_outgoing_edges_def rows using edges [OF facts(8)] unfolding one(2) x by blast
  show "\<exists>ks. gpr_incoming_edges g i = Some ks \<and> (\<forall>k \<in> set ks. gpr_contains_relation g k) \<and>
      map (gpr_canonical_relation_id g) ks = map Some (map fst (filter (\<lambda>(_, _, t). t = x) es))"
    unfolding gpr_incoming_edges_def rows using edges [OF len'(1)] unfolding edges2 by blast
qed

section \<open>The projection as a topology\<close>

definition gpr_wf :: "graph_projection \<Rightarrow> bool" where
  "gpr_wf g \<longleftrightarrow> (\<exists>es. gpr_ok es g)"

lemma gpr_topology_simps [simp]:
  "element_bound (gpr_topology g) = length (gpr_elements g)" "element_index (gpr_topology g) i = Some (unat i)"
  "topology_view.contains_element (gpr_topology g) = gpr_contains_element g"
  "element_successors (gpr_topology g) = gpr_element_successors g"
  "element_predecessors (gpr_topology g) = gpr_element_predecessors g"
  by (simp_all add: gpr_topology_def)

lemma gpr_wf_bound: "gpr_wf g \<Longrightarrow> length (gpr_elements g) \<le> usize_max"
  using gpr_okD(1) by (fastforce simp: gpr_wf_def interned_def local_fits_def usize_max_def)

interpretation projected_forward: dense_topology Forward gpr_wf gpr_topology
  by unfold_locales
    (auto simp: gpr_wf_bound gpr_contains_iff word_unat_eq_iff, auto simp: gpr_wf_def gpr_contains_iff [symmetric] dest!: gpr_rows(1) [OF _ _ refl])

interpretation projected_reverse: dense_topology Reverse gpr_wf gpr_topology
  by unfold_locales
    (auto simp: gpr_wf_bound gpr_contains_iff word_unat_eq_iff, auto simp: gpr_wf_def gpr_contains_iff [symmetric] dest!: gpr_rows(2) [OF _ _ refl])

section \<open>Properties\<close>


text \<open>Two elements joined by a relation, from the first in one role to the second in another.\<close>

abbreviation "source_name \<equiv> Abs_str [115]"
abbreviation "target_name \<equiv> Abs_str [116]"

definition example_pair :: write_overlay where
  "example_pair = snd (create_element (snd (register_role target_name (snd (register_role source_name example_delta)))))"

definition example_linked :: write_overlay where
  "example_linked = snd (w_create_incidence base_empty 1 2 2 (snd (w_create_incidence base_empty 1 1 1 example_pair)))"

definition example_projection :: graph_projection_definition where
  "example_projection = \<lparr>gp_name = source_name, gp_relation_types = {||}, gp_source_role = 1, gp_target_role = 2\<rparr>"

lemma names_differ [simp]: "source_name \<noteq> target_name" "target_name \<noteq> source_name"
  by (simp_all add: Abs_str_inject utf8_valid.simps)

lemma example_linked_ok: "writer_ok base_empty example_linked"
proof -
  note step = r_into_rtranclp [of "writer_step base_empty"]
  have "(writer_step base_empty)\<^sup>*\<^sup>* example_delta (snd (register_role source_name example_delta))"
    by (intro step writer_step.role [OF prod.collapse [symmetric]])
  also have "(writer_step base_empty)\<^sup>*\<^sup>* \<dots> (snd (register_role target_name (snd (register_role source_name example_delta))))"
    by (intro step writer_step.role [OF prod.collapse [symmetric]])
  also have "(writer_step base_empty)\<^sup>*\<^sup>* \<dots> example_pair"
    unfolding example_pair_def by (intro step writer_step.element [OF prod.collapse [symmetric]])
  also have "(writer_step base_empty)\<^sup>*\<^sup>* \<dots> (snd (w_create_incidence base_empty 1 1 1 example_pair))"
    by (intro step writer_step.incidence [OF prod.collapse [symmetric]])
  also have "(writer_step base_empty)\<^sup>*\<^sup>* \<dots> example_linked"
    unfolding example_linked_def by (intro step writer_step.incidence [OF prod.collapse [symmetric]])
  finally show ?thesis using example_ok(2) by (rule writer_steps_keep)
qed

lemma example_pair_fields:
  "ov_elements example_pair = fmupd 2 (Some \<lparr>er_id = 2, er_labels = {||}\<rparr>) (fmupd 1 (Some \<lparr>er_id = 1, er_labels = {||}\<rparr>) fmempty)"
  "ov_relations example_pair = fmupd 1 (Some \<lparr>rr_id = 1, rr_relation_type = None, rr_labels = {||}\<rparr>) fmempty"
  "ov_incidences example_pair = fmempty" "ni_incidence (ov_next example_pair) = 1"
  "cat_role (ov_catalog example_pair) 1 \<noteq> None" "cat_role (ov_catalog example_pair) 2 \<noteq> None"
proof -
  have "checked_next 2 = Some 3" by (simp add: checked_next_Some_iff)
  then show "ov_elements example_pair = fmupd 2 (Some \<lparr>er_id = 2, er_labels = {||}\<rparr>) (fmupd 1 (Some \<lparr>er_id = 1, er_labels = {||}\<rparr>) fmempty)"
    "ov_relations example_pair = fmupd 1 (Some \<lparr>rr_id = 1, rr_relation_type = None, rr_labels = {||}\<rparr>) fmempty"
    "ov_incidences example_pair = fmempty" "ni_incidence (ov_next example_pair) = 1"
    "cat_role (ov_catalog example_pair) 1 \<noteq> None" "cat_role (ov_catalog example_pair) 2 \<noteq> None"
    by (simp_all add: example_pair_def register_role_def next_initial [simplified] example_delta_def example_start_def create_element_def
        create_relation_def from_overlay_def overlay_empty_def INITIAL_def wo_push_def catalog_empty_def catalog_inserts cat_lookups Let_def
        case_prod_unfold insert_named_def)
qed

lemma example_linked_fields:
  "ov_relations example_linked = fmupd 1 (Some \<lparr>rr_id = 1, rr_relation_type = None, rr_labels = {||}\<rparr>) fmempty"
  "ov_incidences example_linked =
     fmupd 2 (Some \<lparr>ir_id = 2, ir_relation = 1, ir_element = 2, ir_role = 2\<rparr>)
       (fmupd 1 (Some \<lparr>ir_id = 1, ir_relation = 1, ir_element = 1, ir_role = 1\<rparr>) fmempty)"
proof -
  have three: "checked_next 2 = Some 3" by (simp add: checked_next_Some_iff)
  have create: "w_create_incidence base_empty 1 e q w = create_incidence 1 e q w"
    if "ov_relations w = ov_relations example_pair" "ov_elements w = ov_elements example_pair" "ov_catalog w = ov_catalog example_pair"
      "e \<in> {1, 2}" "q \<in> {1, 2}" for e q w
    using that by (auto simp: w_create_incidence_def checked_def requires contains_defs relation_ref_def element_ref_def example_pair_fields)
  have one: "w_create_incidence base_empty 1 1 1 example_pair = create_incidence 1 1 1 example_pair" by (rule create) simp_all
  let ?w = "snd (create_incidence 1 1 1 example_pair)"
  have kept: "ov_relations ?w = ov_relations example_pair" "ov_elements ?w = ov_elements example_pair" "ov_catalog ?w = ov_catalog example_pair"
    "ni_incidence (ov_next ?w) = 2"
    "ov_incidences ?w = fmupd 1 (Some \<lparr>ir_id = 1, ir_relation = 1, ir_element = 1, ir_role = 1\<rparr>) fmempty"
    by (simp_all add: create_incidence_def example_pair_fields next_initial [simplified] wo_push_def Let_def)
  have "w_create_incidence base_empty 1 2 2 ?w = create_incidence 1 2 2 ?w" by (rule create) (simp_all add: kept)
  then have linked: "example_linked = snd (create_incidence 1 2 2 ?w)" by (simp add: example_linked_def one)
  show "ov_relations example_linked = fmupd 1 (Some \<lparr>rr_id = 1, rr_relation_type = None, rr_labels = {||}\<rparr>) fmempty"
    "ov_incidences example_linked =
     fmupd 2 (Some \<lparr>ir_id = 2, ir_relation = 1, ir_element = 2, ir_role = 2\<rparr>)
       (fmupd 1 (Some \<lparr>ir_id = 1, ir_relation = 1, ir_element = 1, ir_role = 1\<rparr>) fmempty)"
    by (simp_all add: linked create_incidence_def [of 1 2 2] kept three wo_push_def Let_def example_pair_fields)
qed

lemma example_linked_walks:
  "st_relations base_empty example_linked = [\<lparr>rr_id = 1, rr_relation_type = None, rr_labels = {||}\<rparr>]"
  "st_relation_incidences base_empty example_linked 1 =
     [\<lparr>ir_id = 1, ir_relation = 1, ir_element = 1, ir_role = 1\<rparr>, \<lparr>ir_id = 2, ir_relation = 1, ir_element = 2, ir_role = 2\<rparr>]"
proof -
  have ok: "layered_ok (base_empty, example_linked)" by (rule writer_ok_layered [OF example_linked_ok])
  show "st_relations base_empty example_linked = [\<lparr>rr_id = 1, rr_relation_type = None, rr_labels = {||}\<rparr>]"
  proof (rule layered_index.ascending_records_eq [where f = rr_id])
    show "sorted_wrt (<) (map rr_id (st_relations base_empty example_linked))"
      using layered_view.relations_ascend [OF ok] by simp
    show "set (st_relations base_empty example_linked) = set [\<lparr>rr_id = 1, rr_relation_type = None, rr_labels = {||}\<rparr>]"
    proof -
      let ?only = "\<lparr>rr_id = 1, rr_relation_type = None, rr_labels = {||}\<rparr> :: relation_record"
      have ref: "relation_ref base_empty example_linked i = (if i = 1 then Some ?only else None)" for i
        by (simp add: relation_ref_def example_linked_fields base_reads base_empty_def)
      have "q \<in> set (st_relations base_empty example_linked) \<longleftrightarrow> relation_ref base_empty example_linked (rr_id q) = Some q" for q
        using layered_view.in_relations [OF ok] by simp
      then have "q \<in> set (st_relations base_empty example_linked) \<longleftrightarrow> q = ?only" for q
        unfolding ref by (metis relation_record.select_convs(1) option.distinct(1) option.inject)
      then show ?thesis by (simp add: set_eq_iff)
    qed
  qed simp
  show "st_relation_incidences base_empty example_linked 1 =
     [\<lparr>ir_id = 1, ir_relation = 1, ir_element = 1, ir_role = 1\<rparr>, \<lparr>ir_id = 2, ir_relation = 1, ir_element = 2, ir_role = 2\<rparr>]"
  proof (rule layered_index.ascending_records_eq [where f = ir_id])
    show "sorted_wrt (<) (map ir_id (st_relation_incidences base_empty example_linked 1))"
      using layered_index.lookups_ascend(4) [OF ok] by simp
    let ?first = "\<lparr>ir_id = 1, ir_relation = 1, ir_element = 1, ir_role = 1\<rparr> :: incidence_record"
      and ?second = "\<lparr>ir_id = 2, ir_relation = 1, ir_element = 2, ir_role = 2\<rparr> :: incidence_record"
    have ref: "incidence_ref base_empty example_linked i = (if i = 2 then Some ?second else if i = 1 then Some ?first else None)" for i
      by (simp add: incidence_ref_def example_linked_fields base_reads base_empty_def)
    have "n \<in> set (st_relation_incidences base_empty example_linked 1) \<longleftrightarrow>
        incidence_ref base_empty example_linked (ir_id n) = Some n \<and> ir_relation n = 1" for n
      using layered_index.in_at_relation [OF ok] by simp
    then have "n \<in> set (st_relation_incidences base_empty example_linked 1) \<longleftrightarrow> n = ?first \<or> n = ?second" for n
      unfolding ref by (metis incidence_record.select_convs(1,2) option.distinct(1) option.inject)
    then show "set (st_relation_incidences base_empty example_linked 1) = set [?first, ?second]"
      by (simp add: set_eq_iff)
  qed simp
qed


end
