(* ===== verification/DbWalk.thy ===== *)
theory DbWalk
  imports DbProjection Bounded
begin

text \<open>
  The bounded walk over a materialized graph projection, \<open>crates/oxgraph-db/src/traversal.rs\<close>: the bounded
  search of the algorithm crate run on the projection, and the edges among what it discovers.
\<close>

section \<open>Walks\<close>

datatype nav_direction = Outgoing | Incoming | Both

record walk =
  wk_max_depth :: nat
  wk_direction :: nav_direction
  wk_limit :: nat
  wk_include_start :: bool

definition walk_default :: walk where
  "walk_default = \<lparr>wk_max_depth = 1, wk_direction = Outgoing, wk_limit = usize_max, wk_include_start = False\<rparr>"

record traversed_node =
  tn_element :: element_id
  tn_depth :: nat

record traversed_edge =
  te_relation :: relation_id
  te_source :: element_id
  te_target :: element_id

record subgraph =
  sg_nodes :: "traversed_node list"
  sg_edges :: "traversed_edge list"

definition subgraph_default :: subgraph where
  "subgraph_default = \<lparr>sg_nodes = [], sg_edges = []\<rparr>"

text \<open>The derived order of an edge compares its fields in the order of their declaration.\<close>

definition te_rank :: "traversed_edge \<Rightarrow> relation_id \<times> element_id \<times> element_id" where
  "te_rank e = (te_relation e, te_source e, te_target e)"

text \<open>The edges of one element and of all found ones; indexing a projection panics out of range.\<close>

fun internal_edges_of ::
    "graph_projection \<Rightarrow> (element_id, local_id) fmap \<Rightarrow> local_id list \<Rightarrow> relation_id fset \<times> traversed_edge list
     \<Rightarrow> (relation_id fset \<times> traversed_edge list) option" where
  "internal_edges_of g found [] st = Some st"
| "internal_edges_of g found (edge # rest) (seen, edges) =
     Option.bind (Option.bind (gpr_source g edge) (gpr_canonical_element_id g)) (\<lambda>source.
     Option.bind (Option.bind (gpr_target g edge) (gpr_canonical_element_id g)) (\<lambda>target.
       if fmlookup found target = None then internal_edges_of g found rest (seen, edges)
       else
         Option.bind (gpr_canonical_relation_id g edge) (\<lambda>relation.
           if relation |\<in>| seen then internal_edges_of g found rest (seen, edges)
           else internal_edges_of g found rest
             (finsert relation seen, edges @ [\<lparr>te_relation = relation, te_source = source, te_target = target\<rparr>]))))"

fun internal_edges ::
    "graph_projection \<Rightarrow> (element_id, local_id) fmap \<Rightarrow> local_id list \<Rightarrow> relation_id fset \<times> traversed_edge list
     \<Rightarrow> (relation_id fset \<times> traversed_edge list) option" where
  "internal_edges g found [] st = Some st"
| "internal_edges g found (local # rest) st =
     Option.bind (gpr_outgoing_edges g local) (\<lambda>edges.
     Option.bind (internal_edges_of g found edges st) (internal_edges g found rest))"

definition collect_internal_edges :: "graph_projection \<Rightarrow> (element_id, local_id) fmap \<Rightarrow> traversed_edge list option" where
  "collect_internal_edges g found =
     map_option (\<lambda>(_, edges). sort_key te_rank edges)
       (internal_edges g found (map snd (sorted_list_of_fmap found)) ({||}, []))"

text \<open>
  What the visitor has gathered: the nodes and the found elements, or \<open>None\<close> once it has panicked, which
  ends the search.
\<close>

type_synonym gathered = "(traversed_node list \<times> (element_id, local_id) fmap) option"

definition gather :: "graph_projection \<Rightarrow> (local_id, gathered) bfs_visitor" where
  "gather g v element depth =
     (case v of
        None \<Rightarrow> (True, None)
      | Some (nodes, found) \<Rightarrow>
          (case gpr_canonical_element_id g element of
             None \<Rightarrow> (True, None)
           | Some canonical \<Rightarrow>
               (False, Some (nodes @ [\<lparr>tn_element = canonical,
                    tn_depth = (case to_usize depth of Some d \<Rightarrow> d | None \<Rightarrow> usize_max)\<rparr>],
                  fmupd canonical element found))))"

fun walk_mode :: "nav_direction \<Rightarrow> expansion" where
  "walk_mode Outgoing = Successors"
| "walk_mode Incoming = Predecessors"
| "walk_mode Both = BothWays"

definition walk_graph_projection ::
    "graph_projection \<Rightarrow> element_id list \<Rightarrow> walk \<Rightarrow> (db_error, subgraph) run" where
  "walk_graph_projection g seeds w =
     (if seeds = [] \<or> wk_limit w = 0 then Some (Ok subgraph_default)
      else
        run_then (trying (collect_results (map (\<lambda>seed. ok_or (unknown ElementIds seed) (gpr_local_element_id g seed)) seeds))) (\<lambda>local_seeds.
        let bounds = \<lparr>max_depth = Some (case from_usize (wk_max_depth w) of Some d \<Rightarrow> d | None \<Rightarrow> - 1),
              result_limit = wk_limit w, include_seeds = wk_include_start w\<rparr>;
            bound = length (gpr_elements g);
            scratch = epoch_scratch_new (replicate bound 0) (replicate bound 0) in
        run_then (reading (those (map (\<lambda>i. map_option (\<lambda>canonical. (canonical, i)) (gpr_canonical_element_id g i)) local_seeds))) (\<lambda>pairs.
          case breadth_first_search_bounded (walk_mode (wk_direction w)) (gpr_topology g) local_seeds bounds scratch (gather g)
            (Some ([], fold (\<lambda>(canonical, i). fmupd canonical i) pairs fmempty)) of
            None \<Rightarrow> None
          | Some (_, None, _) \<Rightarrow> None
          | Some (_, Some (nodes, found), r) \<Rightarrow>
              run_then (Some (map_err (\<lambda>_. QueryErr (Traversal ''bounded traversal failed'')) r)) (\<lambda>_.
              run_then (reading (collect_internal_edges g found)) (\<lambda>edges.
                Some (Ok \<lparr>sg_nodes = nodes, sg_edges = edges\<rparr>))))))"

section \<open>The edges among discovered elements\<close>

definition edge_of :: "relation_id \<times> element_id \<times> element_id \<Rightarrow> traversed_edge" where
  "edge_of e = \<lparr>te_relation = fst e, te_source = fst (snd e), te_target = snd (snd e)\<rparr>"

lemma edge_of_simps [simp]:
  "te_relation (edge_of e) = fst e" "te_source (edge_of e) = fst (snd e)" "te_target (edge_of e) = snd (snd e)"
  by (simp_all add: edge_of_def)

lemma edge_of_inject [simp]: "edge_of d = edge_of e \<longleftrightarrow> d = e"
  by (cases d; cases e) (auto simp: edge_of_def)

lemma gpr_edge:
  assumes ok: "gpr_ok es g" and k: "gpr_contains_relation g k"
  shows "unat k < length es" and "Option.bind (gpr_source g k) (gpr_canonical_element_id g) = Some (fst (snd (es ! unat k)))"
    and "Option.bind (gpr_target g k) (gpr_canonical_element_id g) = Some (snd (snd (es ! unat k)))"
    and "gpr_canonical_relation_id g k = Some (fst (es ! unat k))"
proof -
  note facts = gpr_okD [OF ok]
  show len: "unat k < length es" using k facts(3) by (simp add: gpr_contains_relation_def)
  then have "snd (es ! unat k) = map snd es ! unat k" by simp
  also have "\<dots> = (\<lambda>(i, j). (gpr_elements g ! unat i, gpr_elements g ! unat j)) (gpr_endpoints g ! unat k)"
    using len facts(8) by (simp flip: facts(7))
  finally have ends: "fst (snd (es ! unat k)) = gpr_elements g ! unat (fst (gpr_endpoints g ! unat k))"
    "snd (snd (es ! unat k)) = gpr_elements g ! unat (snd (gpr_endpoints g ! unat k))"
    by (simp_all add: case_prod_unfold)
  have "gpr_endpoints g ! unat k \<in> set (gpr_endpoints g)" using len facts(8) by simp
  then have "unat (fst (gpr_endpoints g ! unat k)) < length (gpr_elements g)" "unat (snd (gpr_endpoints g ! unat k)) < length (gpr_elements g)"
    using facts(6) by auto
  then show "Option.bind (gpr_source g k) (gpr_canonical_element_id g) = Some (fst (snd (es ! unat k)))"
    "Option.bind (gpr_target g k) (gpr_canonical_element_id g) = Some (snd (snd (es ! unat k)))"
    using len facts(8) ends by (simp_all add: gpr_source_def gpr_target_def gpr_canonical_element_id_def)
  show "gpr_canonical_relation_id g k = Some (fst (es ! unat k))"
    using len facts(3) by (simp add: gpr_canonical_relation_id_def)
qed

lemma internal_edges_of_eq:
  assumes ok: "gpr_ok es g" and "\<forall>k \<in> set ks. gpr_contains_relation g k"
    and "distinct (map (\<lambda>k. fst (es ! unat k)) ks)" and "\<forall>k \<in> set ks. fst (es ! unat k) |\<notin>| seen"
  shows "\<exists>seen'. internal_edges_of g found ks (seen, edges) =
      Some (seen', edges @ map edge_of (filter (\<lambda>(_, _, t). t |\<in>| fmdom found) (map (\<lambda>k. es ! unat k) ks))) \<and>
    fset seen' \<subseteq> fset seen \<union> (\<lambda>k. fst (es ! unat k)) ` set ks"
  using assms(2-4)
proof (induction ks arbitrary: seen edges)
  case (Cons k ks)
  obtain r s t where e: "es ! unat k = (r, s, t)" by (cases "es ! unat k")
  have k: "gpr_contains_relation g k" using Cons.prems(1) by simp
  note edge = gpr_edge(2-4) [OF ok k, unfolded e fst_conv snd_conv]
  have missing: "fmlookup found t = None \<longleftrightarrow> t |\<notin>| fmdom found" by (metis fmdom_notD fmdom_notI)
  show ?case
  proof (cases "t |\<in>| fmdom found")
    case True
    have "\<forall>k \<in> set ks. fst (es ! unat k) |\<notin>| finsert r seen" using Cons.prems e by (auto simp: image_iff)
    from Cons.IH [OF _ _ this, of "edges @ [edge_of (r, s, t)]"] Cons.prems True e edge missing show ?thesis
      by (force simp: edge_of_def)
  next
    case False
    from Cons.IH [of seen edges] Cons.prems False e edge missing show ?thesis by force
  qed
qed auto

lemma edges_of_row:
  assumes ok: "gpr_ok es g" and i: "gpr_contains_element g i" and x: "x = gpr_elements g ! unat i"
  obtains ks where "gpr_outgoing_edges g i = Some ks" "\<forall>k \<in> set ks. gpr_contains_relation g k"
    "map (\<lambda>k. fst (es ! unat k)) ks = map fst (filter (\<lambda>(_, s, _). s = x) es)"
    "map (\<lambda>k. es ! unat k) ks = filter (\<lambda>(_, s, _). s = x) es"
proof -
  from gpr_rows(3) [OF ok i x] obtain ks where ks: "gpr_outgoing_edges g i = Some ks" "\<forall>k \<in> set ks. gpr_contains_relation g k"
    "map (gpr_canonical_relation_id g) ks = map Some (map fst (filter (\<lambda>(_, s, _). s = x) es))" by blast
  have "map Some (map (\<lambda>k. fst (es ! unat k)) ks) = map (gpr_canonical_relation_id g) ks"
    unfolding map_map using gpr_edge(4) [OF ok] ks(2) by (intro map_cong) auto
  then have names: "map (\<lambda>k. fst (es ! unat k)) ks = map fst (filter (\<lambda>(_, s, _). s = x) es)"
    unfolding ks(3) by (metis inj_Some map_injective)
  have "inj_on fst (set es)"
    using gpr_okD(2,3) [OF ok] by (simp add: interned_def distinct_map)
  moreover have "set (map (\<lambda>k. es ! unat k) ks) \<union> set (filter (\<lambda>(_, s, _). s = x) es) \<subseteq> set es"
    using gpr_edge(1) [OF ok] ks(2) by auto
  ultimately have inj: "inj_on fst (set (map (\<lambda>k. es ! unat k) ks) \<union> set (filter (\<lambda>(_, s, _). s = x) es))"
    by (rule inj_on_subset)
  have "map fst (map (\<lambda>k. es ! unat k) ks) = map fst (filter (\<lambda>(_, s, _). s = x) es)"
    using names by (simp add: comp_def)
  from map_inj_on [OF this inj] show thesis by (rule that [OF ks(1,2) names])
qed

lemma internal_edges_eq:
  assumes ok: "gpr_ok es g" and "\<forall>i \<in> set is. gpr_contains_element g i" and "distinct is"
    and "\<forall>i \<in> set is. \<forall>e \<in> set es. fst (snd e) = gpr_elements g ! unat i \<longrightarrow> fst e |\<notin>| seen"
  shows "\<exists>seen' rows. internal_edges g found is (seen, edges) = Some (seen', edges @ map edge_of rows) \<and>
    distinct rows \<and> set rows = {(r, s, t) \<in> set es. s \<in> (\<lambda>i. gpr_elements g ! unat i) ` set is \<and> t |\<in>| fmdom found}"
  using assms(2-4)
proof (induction "is" arbitrary: seen edges)
  case (Cons i "is")
  let ?x = "gpr_elements g ! unat i"
  let ?row = "filter (\<lambda>(_, _, t). t |\<in>| fmdom found) (filter (\<lambda>(_, s, _). s = ?x) es)"
  have i: "gpr_contains_element g i" using Cons.prems(1) by simp
  note facts = gpr_okD [OF ok]
  have names: "distinct (map fst es)" using facts(2,3) by (simp add: interned_def)
  obtain ks where ks: "gpr_outgoing_edges g i = Some ks" "\<forall>k \<in> set ks. gpr_contains_relation g k"
    "map (\<lambda>k. fst (es ! unat k)) ks = map fst (filter (\<lambda>(_, s, _). s = ?x) es)"
    "map (\<lambda>k. es ! unat k) ks = filter (\<lambda>(_, s, _). s = ?x) es"
    by (rule edges_of_row [OF ok i refl])
  have "distinct (map (\<lambda>k. fst (es ! unat k)) ks)" unfolding ks(3) using names by (simp add: distinct_map_filter)
  moreover have "\<forall>k \<in> set ks. fst (es ! unat k) |\<notin>| seen"
  proof
    fix k assume "k \<in> set ks"
    then have "es ! unat k \<in> set (filter (\<lambda>(_, s, _). s = ?x) es)" by (simp flip: ks(4))
    with Cons.prems(3) show "fst (es ! unat k) |\<notin>| seen" by auto
  qed
  ultimately obtain seen1 where one: "internal_edges_of g found ks (seen, edges) = Some (seen1, edges @ map edge_of ?row)"
    "fset seen1 \<subseteq> fset seen \<union> (\<lambda>k. fst (es ! unat k)) ` set ks"
    using internal_edges_of_eq [OF ok ks(2), of seen found edges] unfolding ks(4) by blast
  have names1: "(\<lambda>k. fst (es ! unat k)) ` set ks = fst ` {e \<in> set es. fst (snd e) = ?x}"
    using arg_cong [OF ks(3), of set] by (auto simp: case_prod_unfold)
  have apart: "gpr_elements g ! unat j \<noteq> ?x" if "j \<in> set is" for j
  proof
    assume "gpr_elements g ! unat j = ?x"
    moreover have "unat j < length (gpr_elements g)" "unat i < length (gpr_elements g)"
      using that Cons.prems(1) by (simp_all add: gpr_contains_iff)
    ultimately have "unat j = unat i" using facts(4) by (simp add: nth_eq_iff_index_eq)
    then have "j = i" by (simp add: word_unat_eq_iff)
    with that Cons.prems(2) show False by simp
  qed
  have "\<forall>j \<in> set is. \<forall>e \<in> set es. fst (snd e) = gpr_elements g ! unat j \<longrightarrow> fst e |\<notin>| seen1"
  proof (intro ballI impI notI)
    fix j e assume j: "j \<in> set is" and e: "e \<in> set es" "fst (snd e) = gpr_elements g ! unat j" "fst e |\<in>| seen1"
    from Cons.prems(3) j e(1,2) have "fst e |\<notin>| seen" by simp
    with one(2) e(3) names1 obtain d where "d \<in> set es" "fst (snd d) = ?x" "fst d = fst e" by auto
    then have "d = e" using names e(1) by (auto simp: distinct_map dest: inj_onD)
    with \<open>fst (snd d) = ?x\<close> e(2) apart [OF j] show False by simp
  qed
  from Cons.IH [OF _ _ this, of "edges @ map edge_of ?row"] Cons.prems(1,2) obtain seen' rows where
    rest: "internal_edges g found is (seen1, edges @ map edge_of ?row) = Some (seen', (edges @ map edge_of ?row) @ map edge_of rows)"
    "distinct rows" "set rows = {(r, s, t) \<in> set es. s \<in> (\<lambda>i. gpr_elements g ! unat i) ` set is \<and> t |\<in>| fmdom found}"
    by auto
  have "set ?row \<inter> set rows = {}" unfolding rest(3) by (auto dest!: apart)
  then have "distinct (?row @ rows)" using names rest(2) by (simp add: distinct_map)
  moreover have "set (?row @ rows) = {(r, s, t) \<in> set es. s \<in> (\<lambda>i. gpr_elements g ! unat i) ` set (i # is) \<and> t |\<in>| fmdom found}"
    using rest(3) by auto
  ultimately show ?case
    using ks(1) one(1) rest(1) by (intro exI [of _ seen'] exI [of _ "?row @ rows"]) simp
qed auto

text \<open>Discovered elements under their canonical identifiers.\<close>

definition found_ok :: "graph_projection \<Rightarrow> (element_id, local_id) fmap \<Rightarrow> bool" where
  "found_ok g found \<longleftrightarrow> (\<forall>x i. fmlookup found x = Some i \<longrightarrow> gpr_contains_element g i \<and> gpr_elements g ! unat i = x)"

lemma found_ok_upd:
  "found_ok g found \<Longrightarrow> gpr_contains_element g i \<Longrightarrow> found_ok g (fmupd (gpr_elements g ! unat i) i found)"
  by (simp add: found_ok_def)

lemma collect_internal_edges_eq:
  assumes ok: "gpr_ok es g" and found: "found_ok g found"
  shows "\<exists>edges. collect_internal_edges g found = Some edges \<and> sorted_wrt (<) (map te_relation edges) \<and>
    set edges = edge_of ` {(r, s, t) \<in> set es. s |\<in>| fmdom found \<and> t |\<in>| fmdom found}"
proof -
  let ?is = "map snd (sorted_list_of_fmap found)"
  have entry: "gpr_contains_element g i \<and> gpr_elements g ! unat i = x" if "(x, i) \<in> set (sorted_list_of_fmap found)" for x i
    using that found by (simp add: set_sorted_list_of_fmap found_ok_def)
  then have back_map: "map (\<lambda>i. gpr_elements g ! unat i) ?is = map fst (sorted_list_of_fmap found)"
    unfolding map_map comp_def by (intro map_cong) (auto dest!: entry)
  then have "distinct (map (\<lambda>i. gpr_elements g ! unat i) ?is)" by (simp add: strict_sorted_iff [THEN iffD1, THEN conjunct2] keys_sorted_list_of_fmap)
  then have distinct: "distinct ?is" by (rule conjunct1 [OF iffD1 [OF distinct_map]])
  have contained: "\<forall>i \<in> set ?is. gpr_contains_element g i" using entry by auto
  have "(\<lambda>i. gpr_elements g ! unat i) ` set ?is = set (map fst (sorted_list_of_fmap found))"
    by (simp only: set_map [symmetric] back_map)
  also have "\<dots> = fset (fmdom found)" by (simp add: keys_sorted_list_of_fmap)
  finally have sources: "(\<lambda>i. gpr_elements g ! unat i) ` set ?is = fset (fmdom found)" .
  from internal_edges_eq [OF ok contained distinct, of "{||}" found "[]"] obtain seen rows where
    rows: "internal_edges g found ?is ({||}, []) = Some (seen, map edge_of rows)" "distinct rows"
      "set rows = {(r, s, t) \<in> set es. s |\<in>| fmdom found \<and> t |\<in>| fmdom found}"
    unfolding sources by auto
  let ?edges = "sort_key te_rank (map edge_of rows)"
  have "inj_on fst (set es)" using gpr_okD(2,3) [OF ok] by (simp add: interned_def distinct_map)
  then have "inj_on fst (set rows)" by (rule inj_on_subset) (auto simp: rows(3))
  then have "distinct (map te_relation (map edge_of rows))" using rows(2) by (simp add: distinct_map comp_def)
  then have "distinct (map te_relation ?edges)" by (auto simp: distinct_map intro: inj_on_imageI inj_onI)
  moreover have "sorted (map te_rank ?edges)" by simp
  then have "sorted (map te_relation ?edges)"
    unfolding sorted_map by (rule sorted_wrt_mono_rel [rotated]) (auto simp: te_rank_def less_eq_prod_def)
  ultimately have "sorted_wrt (<) (map te_relation ?edges)" by (simp add: strict_sorted_iff)
  moreover have "set ?edges = edge_of ` {(r, s, t) \<in> set es. s |\<in>| fmdom found \<and> t |\<in>| fmdom found}"
    by (simp add: rows(3))
  moreover have "collect_internal_edges g found = Some ?edges" by (simp add: collect_internal_edges_def rows(1))
  ultimately show ?thesis by blast
qed

section \<open>Distances carry over\<close>

lemma within_image:
  assumes inj: "inj_on h C" and E: "E \<subseteq> C \<times> C" and S: "S \<subseteq> C"
    and E': "E' = (\<lambda>(x, y). (h x, h y)) ` E"
  shows "within E' (h ` S) d z \<longleftrightarrow> (\<exists>x \<in> C. z = h x \<and> within E S d x)"
proof (induction d arbitrary: z)
  case 0
  then show ?case using S by auto
next
  case (Suc d)
  have "within E' (h ` S) (Suc d) z \<longleftrightarrow> (\<exists>x \<in> C. within E S d x \<and> (h x, z) \<in> E')"
    by (simp only: within_Suc Suc.IH) blast
  also have "\<dots> \<longleftrightarrow> (\<exists>x \<in> C. \<exists>y \<in> C. within E S d x \<and> (x, y) \<in> E \<and> z = h y)"
  proof
    assume "\<exists>x \<in> C. within E S d x \<and> (h x, z) \<in> E'"
    then obtain x a b where x: "x \<in> C" "within E S d x" "(a, b) \<in> E" "h x = h a" "z = h b" unfolding E' by auto
    moreover from x(3) E have "a \<in> C" "b \<in> C" by auto
    ultimately show "\<exists>x \<in> C. \<exists>y \<in> C. within E S d x \<and> (x, y) \<in> E \<and> z = h y" using inj by (metis inj_onD)
  next
    assume "\<exists>x \<in> C. \<exists>y \<in> C. within E S d x \<and> (x, y) \<in> E \<and> z = h y"
    then show "\<exists>x \<in> C. within E S d x \<and> (h x, z) \<in> E'" unfolding E' by force
  qed
  also have "\<dots> \<longleftrightarrow> (\<exists>y \<in> C. z = h y \<and> within E S (Suc d) y)"
    unfolding within_Suc using E by blast
  finally show ?case .
qed

lemma at_distance_image:
  assumes inj: "inj_on h C" and E: "E \<subseteq> C \<times> C" and S: "S \<subseteq> C" and E': "E' = (\<lambda>(x, y). (h x, h y)) ` E"
  shows "at_distance E' (h ` S) d z \<longleftrightarrow> (\<exists>x \<in> C. z = h x \<and> at_distance E S d x)"
proof -
  note image = within_image [OF assms]
  have same: "within E' (h ` S) k (h x) \<longleftrightarrow> within E S k x" if "x \<in> C" for x k
    using that inj by (auto simp: image dest: inj_onD)
  show ?thesis
  proof
    assume at: "at_distance E' (h ` S) d z"
    then obtain x where x: "x \<in> C" "z = h x" by (auto simp: at_distance_def image)
    with at same [OF x(1)] show "\<exists>x \<in> C. z = h x \<and> at_distance E S d x" by (auto simp: at_distance_def)
  next
    assume "\<exists>x \<in> C. z = h x \<and> at_distance E S d x"
    then show "at_distance E' (h ` S) d z" by (auto simp: at_distance_def same)
  qed
qed

section \<open>The search on a projection\<close>

fun walk_steps :: "nav_direction \<Rightarrow> (relation_id \<times> element_id \<times> element_id) list \<Rightarrow> (element_id \<times> element_id) set" where
  "walk_steps Outgoing es = snd ` set es"
| "walk_steps Incoming es = (snd ` set es)\<inverse>"
| "walk_steps Both es = snd ` set es \<union> (snd ` set es)\<inverse>"

abbreviation canonical_of :: "graph_projection \<Rightarrow> local_id \<Rightarrow> element_id" where
  "canonical_of g i \<equiv> gpr_elements g ! unat i"

lemma canonical_of_inj:
  assumes "gpr_ok es g"
  shows "inj_on (canonical_of g) {i. gpr_contains_element g i}"
proof (rule inj_onI)
  fix i j assume "i \<in> {i. gpr_contains_element g i}" "j \<in> {i. gpr_contains_element g i}" "canonical_of g i = canonical_of g j"
  then have "unat i = unat j" using gpr_okD(4) [OF assms] by (simp add: gpr_contains_iff nth_eq_iff_index_eq)
  then show "i = j" by (simp add: word_unat_eq_iff)
qed

lemma gpr_mode_ok: "gpr_ok es g \<Longrightarrow> mode_ok (walk_mode dir) (gpr_topology g)"
  using projected_forward.ok [of g] projected_reverse.ok [of g] by (cases dir) (auto simp: gpr_wf_def)

text \<open>An endpoint has a local identifier.\<close>

lemma endpoint_local:
  assumes ok: "gpr_ok es g" and "x \<in> fst ` snd ` set es \<union> snd ` snd ` set es"
  obtains i where "gpr_contains_element g i" "canonical_of g i = x"
proof -
  from assms gpr_okD(5) [OF ok] have "x \<in> set (gpr_elements g)" by simp
  then obtain n where n: "n < length (gpr_elements g)" "gpr_elements g ! n = x" by (auto simp: in_set_conv_nth)
  have "n < 2 ^ 32" using n(1) gpr_okD(1) [OF ok] by (simp add: interned_def local_fits_def)
  then have "unat (word_of_nat n :: local_id) = n" by (intro unat_word_of_nat) simp
  with n that [of "word_of_nat n"] show thesis by (simp add: gpr_contains_iff)
qed

lemma row_members:
  assumes "gpr_ok es g" "gpr_contains_element g i"
  shows "\<exists>js. gpr_element_successors g i = Some js \<and> (\<forall>j. j \<in> set js \<longleftrightarrow> gpr_contains_element g j \<and>
      (canonical_of g i, canonical_of g j) \<in> snd ` set es)"
    and "\<exists>js. gpr_element_predecessors g i = Some js \<and> (\<forall>j. j \<in> set js \<longleftrightarrow> gpr_contains_element g j \<and>
      (canonical_of g i, canonical_of g j) \<in> (snd ` set es)\<inverse>)"
proof -
  have known: "gpr_canonical_element_id g j = Some (canonical_of g j)" if "gpr_contains_element g j" for j
    using that by (simp add: gpr_canonical_element_id_def gpr_contains_iff)
  have member: "j \<in> set js \<longleftrightarrow> gpr_contains_element g j \<and> canonical_of g j \<in> set zs"
    if "\<forall>j \<in> set js. gpr_contains_element g j" "map (gpr_canonical_element_id g) js = map Some zs" for j js zs
  proof -
    have "map Some (map (canonical_of g) js) = map (gpr_canonical_element_id g) js"
      unfolding map_map using that(1) by (intro map_cong) (auto simp: known)
    then have "zs = map (canonical_of g) js" unfolding that(2) by (metis inj_Some map_injective)
    then show ?thesis using that(1) canonical_of_inj [OF assms(1)] by (auto dest: inj_onD)
  qed
  from gpr_rows(1) [OF assms refl] obtain js where js: "gpr_element_successors g i = Some js" "\<forall>j \<in> set js. gpr_contains_element g j"
    "map (gpr_canonical_element_id g) js = map Some (map (snd \<circ> snd) (filter (\<lambda>(_, s, _). s = canonical_of g i) es))" by blast
  show "\<exists>js. gpr_element_successors g i = Some js \<and> (\<forall>j. j \<in> set js \<longleftrightarrow> gpr_contains_element g j \<and>
      (canonical_of g i, canonical_of g j) \<in> snd ` set es)"
    using js(1) member [OF js(2,3)] by (intro exI [of _ js]) force
  from gpr_rows(2) [OF assms refl] obtain js where js: "gpr_element_predecessors g i = Some js" "\<forall>j \<in> set js. gpr_contains_element g j"
    "map (gpr_canonical_element_id g) js = map Some (map (fst \<circ> snd) (filter (\<lambda>(_, _, t). t = canonical_of g i) es))" by blast
  show "\<exists>js. gpr_element_predecessors g i = Some js \<and> (\<forall>j. j \<in> set js \<longleftrightarrow> gpr_contains_element g j \<and>
      (canonical_of g i, canonical_of g j) \<in> (snd ` set es)\<inverse>)"
    using js(1) member [OF js(2,3)] by (intro exI [of _ js]) force
qed

lemma mode_steps_canonical:
  assumes ok: "gpr_ok es g"
  shows "walk_steps dir es = (\<lambda>(i, j). (canonical_of g i, canonical_of g j)) ` mode_steps (walk_mode dir) (gpr_topology g)"
proof -
  let ?img = "\<lambda>E. (\<lambda>(i, j). (canonical_of g i, canonical_of g j)) ` E"
  have forward: "(i, j) \<in> steps Forward (gpr_topology g) \<longleftrightarrow> gpr_contains_element g i \<and> gpr_contains_element g j \<and>
      (canonical_of g i, canonical_of g j) \<in> snd ` set es" for i j
    using row_members(1) [OF ok, of i] by (auto simp: steps_def)
  have reverse: "(i, j) \<in> steps Reverse (gpr_topology g) \<longleftrightarrow> gpr_contains_element g i \<and> gpr_contains_element g j \<and>
      (canonical_of g i, canonical_of g j) \<in> (snd ` set es)\<inverse>" for i j
    using row_members(2) [OF ok, of i] by (auto simp: steps_def)
  have img: "?img E = A" if E: "\<And>i j. (i, j) \<in> E \<longleftrightarrow> gpr_contains_element g i \<and> gpr_contains_element g j \<and>
      (canonical_of g i, canonical_of g j) \<in> A" and A: "\<And>x y. (x, y) \<in> A \<Longrightarrow> {x, y} \<subseteq> fst ` snd ` set es \<union> snd ` snd ` set es" for E A
  proof (rule set_eqI, clarify)
    fix x y
    show "(x, y) \<in> ?img E \<longleftrightarrow> (x, y) \<in> A"
    proof
      assume xy: "(x, y) \<in> A"
      from A [OF xy] obtain i j where "gpr_contains_element g i" "canonical_of g i = x" "gpr_contains_element g j" "canonical_of g j = y"
        using endpoint_local [OF ok] by (metis insert_subset)
      with xy E [of i j] show "(x, y) \<in> ?img E" by force
    qed (use E in auto)
  qed
  have "?img (steps Forward (gpr_topology g)) = snd ` set es" by (rule img) (force simp: forward)+
  moreover have "?img (steps Reverse (gpr_topology g)) = (snd ` set es)\<inverse>" by (rule img) (force simp: reverse)+
  ultimately show ?thesis by (cases dir) (simp_all add: image_Un)
qed

text \<open>What the visitor gathers from contained elements.\<close>

definition node_of :: "graph_projection \<Rightarrow> local_id \<times> nat \<Rightarrow> traversed_node" where
  "node_of g p = \<lparr>tn_element = canonical_of g (fst p), tn_depth = snd p\<rparr>"

definition keep_all :: "graph_projection \<Rightarrow> (local_id \<times> nat) list \<Rightarrow> (element_id, local_id) fmap \<Rightarrow> (element_id, local_id) fmap" where
  "keep_all g ps found = fold (\<lambda>p. fmupd (canonical_of g (fst p)) (fst p)) ps found"

lemma keep_all_simps [simp]:
  "keep_all g [] found = found" "keep_all g (p # ps) found = keep_all g ps (fmupd (canonical_of g (fst p)) (fst p) found)"
  by (simp_all add: keep_all_def)

lemma keep_all_ok:
  "found_ok g found \<Longrightarrow> \<forall>p \<in> set ps. gpr_contains_element g (fst p) \<Longrightarrow> found_ok g (keep_all g ps found)"
  by (induction ps arbitrary: found) (simp_all add: found_ok_upd)

lemma keep_all_dom: "fset (fmdom (keep_all g ps found)) = fset (fmdom found) \<union> (\<lambda>p. canonical_of g (fst p)) ` set ps"
  by (induction ps arbitrary: found) auto

lemma feed_gather:
  assumes "\<forall>p \<in> set ps. gpr_contains_element g (fst p) \<and> snd p < 2 ^ 32" and "emitted < limit"
  shows "fst (snd (feed (gather g) limit (Some (nodes, found)) emitted (map (\<lambda>(i, d). (i, word_of_nat d)) ps))) =
    Some (nodes @ map (node_of g) (take (limit - emitted) ps), keep_all g (take (limit - emitted) ps) found)"
  using assms
proof (induction ps arbitrary: nodes found emitted)
  case (Cons p ps)
  obtain i d where p: "p = (i, d)" by (cases p)
  have "gpr_canonical_element_id g i = Some (canonical_of g i)"
    using Cons.prems(1) by (simp add: p gpr_canonical_element_id_def gpr_contains_iff)
  moreover have "to_usize (word_of_nat d :: u32) = Some d"
    using Cons.prems(1) unat_word_of_nat [of d, where 'i = 32] by (simp add: p to_usize_def usize_max_def)
  ultimately have visit: "gather g (Some (nodes, found)) i (word_of_nat d) =
      (False, Some (nodes @ [node_of g p], fmupd (canonical_of g i) i found))"
    by (simp add: gather_def node_of_def p)
  show ?case
  proof (cases "limit \<le> emitted + 1")
    case True
    then have "limit - emitted = 1" using Cons.prems(2) by simp
    with True visit show ?thesis by (simp add: p)
  next
    case False
    then have "limit - emitted = Suc (limit - (emitted + 1))" by simp
    with False visit Cons.IH [of "emitted + 1" "nodes @ [node_of g p]" "fmupd (canonical_of g i) i found"] Cons.prems(1) show ?thesis
      by (simp add: p)
  qed
qed simp

lemma collect_results_Err_first:
  "collect_results (map (\<lambda>x. ok_or (f x) (h x)) xs) = Err e \<Longrightarrow> \<exists>x \<in> set xs. h x = None \<and> e = f x"
  by (induction xs) (auto simp: and_then_Err_iff)

lemma collect_results_Ok_all:
  "collect_results (map (\<lambda>x. ok_or (f x) (h x)) xs) = Ok ys \<Longrightarrow> map h xs = map Some ys"
  by (induction xs arbitrary: ys) auto

definition walk_bounds :: "walk \<Rightarrow> bfs_bounds" where
  "walk_bounds w = \<lparr>max_depth = Some (case from_usize (wk_max_depth w) of Some d \<Rightarrow> d | None \<Rightarrow> - 1),
     result_limit = wk_limit w, include_seeds = wk_include_start w\<rparr>"

lemma walk_depth:
  assumes "Suc d < 2 ^ 32"
  shows "(case max_depth (walk_bounds w) of Some limit \<Rightarrow> d \<le> unat limit | None \<Rightarrow> True) \<longleftrightarrow> d \<le> wk_max_depth w"
proof (cases "wk_max_depth w < 2 ^ 32")
  case True
  then show ?thesis using unat_word_of_nat [of "wk_max_depth w", where 'i = 32]
    by (simp add: walk_bounds_def from_usize_def)
next
  case False
  moreover have "(- 1 :: u32) = 0xFFFFFFFF" by simp
  then have "unat (- 1 :: u32) = 2 ^ 32 - 1" by (simp only:) simp
  ultimately show ?thesis using assms by (simp add: walk_bounds_def from_usize_def)
qed

text \<open>The layers of the local search in canonical terms.\<close>

lemma walk_layers:
  fixes w :: walk
  assumes ok: "gpr_ok es g" and small: "length (gpr_elements g) < 2 ^ 32" and L: "\<forall>i \<in> set L. gpr_contains_element g i"
  defines "R \<equiv> bounded_layers (walk_mode (wk_direction w)) (gpr_topology g) (walk_bounds w) L"
  shows "\<forall>p \<in> set R. gpr_contains_element g (fst p) \<and> snd p < 2 ^ 32"
    and "distinct (map (\<lambda>(i, d). canonical_of g i) R)" and "sorted (map snd R)"
    and "(x, d) \<in> (\<lambda>(i, d). (canonical_of g i, d)) ` set R \<longleftrightarrow>
      at_distance (walk_steps (wk_direction w) es) (canonical_of g ` set L) d x \<and> d \<le> wk_max_depth w"
proof -
  let ?C = "{i. gpr_contains_element g i}" and ?E = "mode_steps (walk_mode (wk_direction w)) (gpr_topology g)"
  have L': "\<forall>i \<in> set L. topology_view.contains_element (gpr_topology g) i" using L by simp
  have bound: "element_bound (gpr_topology g) < 2 ^ 32" using small by simp
  note mode = gpr_mode_ok [OF ok, of "wk_direction w"]
  note facts = bounded_layers_correct [OF mode L' bound]
  have E: "?E \<subseteq> ?C \<times> ?C"
  proof
    fix p assume "p \<in> ?E"
    moreover have "(i, j) \<in> ?E \<Longrightarrow> gpr_contains_element g i" for i j
      by (cases "wk_direction w") (auto simp: steps_def)
    ultimately show "p \<in> ?C \<times> ?C"
      using mode_targets [OF mode] by (cases p) (metis (no_types, lifting) gpr_topology_simps(3) mem_Collect_eq mem_Sigma_iff)
  qed
  have S: "set L \<subseteq> ?C" using L by auto
  have in_C: "gpr_contains_element g i" if "at_distance ?E (set L) d i" for i d
  proof (cases d)
    case 0
    with that S show ?thesis by (auto simp: at_distance_def)
  next
    case (Suc k)
    with that E show ?thesis by (auto simp: at_distance_def within_Suc)
  qed
  have member: "(i, d) \<in> set R \<longleftrightarrow> at_distance ?E (set L) d i \<and> d \<le> wk_max_depth w" for i d
    unfolding R_def facts(3) using walk_depth facts(4) by blast
  show contained: "\<forall>p \<in> set R. gpr_contains_element g (fst p) \<and> snd p < 2 ^ 32"
    using member in_C facts(4) by fastforce
  have "inj_on (canonical_of g) (fst ` set R)"
    by (rule inj_on_subset [OF canonical_of_inj [OF ok]]) (use contained in auto)
  moreover have "distinct (map fst R)" unfolding R_def by (rule facts(1))
  ultimately have "distinct (map (canonical_of g) (map fst R))" by (simp only: distinct_map set_map)
  then show "distinct (map (\<lambda>(i, d). canonical_of g i) R)" by (simp add: comp_def case_prod_unfold)
  show "sorted (map snd R)" unfolding R_def by (rule facts(2))
  have reached: "at_distance (walk_steps (wk_direction w) es) (canonical_of g ` set L) d x \<longleftrightarrow>
      (\<exists>i \<in> ?C. x = canonical_of g i \<and> at_distance ?E (set L) d i)"
    by (rule at_distance_image [OF canonical_of_inj [OF ok] E S mode_steps_canonical [OF ok]])
  show "(x, d) \<in> (\<lambda>(i, d). (canonical_of g i, d)) ` set R \<longleftrightarrow>
      at_distance (walk_steps (wk_direction w) es) (canonical_of g ` set L) d x \<and> d \<le> wk_max_depth w"
  proof -
    have "(x, d) \<in> (\<lambda>(i, d). (canonical_of g i, d)) ` set R \<longleftrightarrow> (\<exists>i. x = canonical_of g i \<and> (i, d) \<in> set R)" by force
    also have "\<dots> \<longleftrightarrow> (\<exists>i \<in> ?C. x = canonical_of g i \<and> at_distance ?E (set L) d i) \<and> d \<le> wk_max_depth w"
      unfolding member using in_C by blast
    finally show ?thesis using reached by simp
  qed
qed

lemma walk_search:
  fixes w :: walk
  assumes ok: "gpr_ok es g" and small: "length (gpr_elements g) < 2 ^ 32" and L: "\<forall>i \<in> set L. gpr_contains_element g i"
    and limit: "0 < wk_limit w" and found: "found_ok g found"
  defines "R \<equiv> bounded_layers (walk_mode (wk_direction w)) (gpr_topology g) (walk_bounds w) L"
  defines "shown \<equiv> take (wk_limit w) (filter (\<lambda>(i, d). wk_include_start w \<or> 0 < d) R)"
  shows "\<exists>scratch. breadth_first_search_bounded (walk_mode (wk_direction w)) (gpr_topology g) L (walk_bounds w)
      (epoch_scratch_new (replicate (length (gpr_elements g)) 0) (replicate (length (gpr_elements g)) 0)) (gather g) (Some ([], found)) =
      Some (scratch, Some (map (node_of g) shown, keep_all g shown found), Ok ())"
    and "found_ok g (keep_all g shown found)"
proof -
  let ?n = "length (gpr_elements g)" and ?kept = "filter (\<lambda>(i, d). wk_include_start w \<or> 0 < d) R"
  have known: "\<forall>p \<in> set R. gpr_contains_element g (fst p) \<and> snd p < 2 ^ 32"
    unfolding R_def by (rule walk_layers(1) [OF ok small L])
  then have kept: "\<forall>p \<in> set ?kept. gpr_contains_element g (fst p) \<and> snd p < 2 ^ 32" by auto
  have "scratch_wf (epoch_scratch_new (replicate ?n 0) (replicate ?n (0 :: local_id)))"
    by (simp add: scratch_wf_def epoch_scratch_new_def)
  from bounded_search_runs [OF gpr_mode_ok [OF ok, of "wk_direction w"] _ _ this, where seeds = L and bounds = "walk_bounds w"
      and visit = "gather g" and v = "Some ([], found)"] L small
  obtain scratch where "breadth_first_search_bounded (walk_mode (wk_direction w)) (gpr_topology g) L (walk_bounds w)
      (epoch_scratch_new (replicate ?n 0) (replicate ?n 0)) (gather g) (Some ([], found)) =
      Some (scratch, fst (snd (feed (gather g) (wk_limit w) (Some ([], found)) 0 (map (\<lambda>(i, d). (i, word_of_nat d)) ?kept))), Ok ())"
    unfolding R_def by (auto simp: epoch_scratch_new_def walk_bounds_def)
  then show "\<exists>scratch. breadth_first_search_bounded (walk_mode (wk_direction w)) (gpr_topology g) L (walk_bounds w)
      (epoch_scratch_new (replicate ?n 0) (replicate ?n 0)) (gather g) (Some ([], found)) =
      Some (scratch, Some (map (node_of g) shown, keep_all g shown found), Ok ())"
    unfolding feed_gather [OF kept limit] by (auto simp: shown_def)
  have "\<forall>p \<in> set shown. gpr_contains_element g (fst p)"
    using kept unfolding shown_def by (blast dest: in_set_takeD)
  then show "found_ok g (keep_all g shown found)" by (rule keep_all_ok [OF found])
qed

lemma walk_result:
  assumes ok: "gpr_ok es g" and small: "length (gpr_elements g) < 2 ^ 32" and go: "seeds \<noteq> []" "0 < wk_limit w"
    and locals: "collect_results (map (\<lambda>seed. ok_or (unknown ElementIds seed) (gpr_local_element_id g seed)) seeds) = Ok L"
  shows "\<exists>sub R. walk_graph_projection g seeds w = Some (Ok sub) \<and> distinct (map fst R) \<and> sorted (map snd R) \<and>
    (\<forall>x k. (x, k) \<in> set R \<longleftrightarrow> at_distance (walk_steps (wk_direction w) es) (set seeds) k x \<and> k \<le> wk_max_depth w) \<and>
    map (\<lambda>n. (tn_element n, tn_depth n)) (sg_nodes sub) = take (wk_limit w) (filter (\<lambda>(_, k). wk_include_start w \<or> 0 < k) R) \<and>
    sorted_wrt (<) (map te_relation (sg_edges sub)) \<and>
    set (sg_edges sub) = edge_of ` {(r, s, t) \<in> set es. {s, t} \<subseteq> set seeds \<union> tn_element ` set (sg_nodes sub)}"
proof -
  note facts = gpr_okD [OF ok]
  have L: "map (gpr_local_element_id g) seeds = map Some L" by (rule collect_results_Ok_all [OF locals])
  have local: "gpr_contains_element g i \<and> canonical_of g i = x" if "gpr_local_element_id g x = Some i" for x i
    using that by (simp add: gpr_local_element_id_def interned_lookup [OF facts(1)] gpr_contains_iff)
  have contained: "\<forall>i \<in> set L. gpr_contains_element g i"
  proof
    fix i assume "i \<in> set L"
    then have "Some i \<in> set (map (gpr_local_element_id g) seeds)" by (simp add: L)
    then obtain x where "gpr_local_element_id g x = Some i" by (auto dest: sym)
    then show "gpr_contains_element g i" using local by blast
  qed
  have seeds: "map (canonical_of g) L = seeds"
  proof -
    have "map (\<lambda>x. canonical_of g (the (gpr_local_element_id g x))) seeds = map (canonical_of g) (map the (map (gpr_local_element_id g) seeds))"
      by simp
    also have "\<dots> = map (canonical_of g) L" unfolding L by simp
    finally have "map (canonical_of g) L = map (\<lambda>x. canonical_of g (the (gpr_local_element_id g x))) seeds" ..
    also have "\<dots> = seeds"
    proof (rule map_idI)
      fix x assume "x \<in> set seeds"
      then have "gpr_local_element_id g x \<in> set (map Some L)" by (simp flip: L)
      then show "canonical_of g (the (gpr_local_element_id g x)) = x" using local by auto
    qed
    finally show ?thesis .
  qed
  let ?found = "keep_all g (map (\<lambda>i. (i, 0)) L) fmempty"
  have pairs: "those (map (\<lambda>i. map_option (\<lambda>canonical. (canonical, i)) (gpr_canonical_element_id g i)) L) = Some (map (\<lambda>i. (canonical_of g i, i)) L)"
    using contained by (intro those_map_Some) (simp add: gpr_canonical_element_id_def gpr_contains_iff)
  have start: "fold (\<lambda>(canonical, i). fmupd canonical i) (map (\<lambda>i. (canonical_of g i, i)) L) fmempty = ?found"
    by (simp add: keep_all_def fold_map comp_def)
  have found: "found_ok g ?found" using contained by (intro keep_all_ok) (auto simp: found_ok_def)
  let ?R = "bounded_layers (walk_mode (wk_direction w)) (gpr_topology g) (walk_bounds w) L"
  let ?shown = "take (wk_limit w) (filter (\<lambda>(i, d). wk_include_start w \<or> 0 < d) ?R)"
  note layers = walk_layers [OF ok small contained, where w = w]
  from walk_search [OF ok small contained go(2) found] obtain scratch where
    search: "breadth_first_search_bounded (walk_mode (wk_direction w)) (gpr_topology g) L (walk_bounds w)
      (epoch_scratch_new (replicate (length (gpr_elements g)) 0) (replicate (length (gpr_elements g)) 0)) (gather g) (Some ([], ?found)) =
      Some (scratch, Some (map (node_of g) ?shown, keep_all g ?shown ?found), Ok ())"
    and shown: "found_ok g (keep_all g ?shown ?found)" by blast
  from collect_internal_edges_eq [OF ok shown] obtain edges where
    edges: "collect_internal_edges g (keep_all g ?shown ?found) = Some edges" "sorted_wrt (<) (map te_relation edges)"
      "set edges = edge_of ` {(r, s, t) \<in> set es. s |\<in>| fmdom (keep_all g ?shown ?found) \<and> t |\<in>| fmdom (keep_all g ?shown ?found)}"
    by blast
  let ?sub = "\<lparr>sg_nodes = map (node_of g) ?shown, sg_edges = edges\<rparr>" and ?canon = "map (\<lambda>(i, d). (canonical_of g i, d)) ?R"
  have "walk_graph_projection g seeds w = Some (Ok ?sub)"
    using go by (simp add: walk_graph_projection_def locals pairs start Let_def walk_bounds_def [symmetric] search edges(1))
  moreover have "map (\<lambda>n. (tn_element n, tn_depth n)) (sg_nodes ?sub) =
      take (wk_limit w) (filter (\<lambda>(_, k). wk_include_start w \<or> 0 < k) ?canon)"
    by (simp add: node_of_def take_map filter_map comp_def case_prod_unfold)
  moreover have "distinct (map fst ?canon)" "sorted (map snd ?canon)"
    using layers(2,3) by (simp_all add: comp_def case_prod_unfold)
  moreover have "(x, k) \<in> set ?canon \<longleftrightarrow> at_distance (walk_steps (wk_direction w) es) (set seeds) k x \<and> k \<le> wk_max_depth w" for x k
    using layers(4) [of x k] unfolding set_map [symmetric] seeds .
  moreover have "x |\<in>| fmdom (keep_all g ?shown ?found) \<longleftrightarrow> x \<in> set seeds \<union> tn_element ` set (sg_nodes ?sub)" for x
    unfolding keep_all_dom by (auto simp: node_of_def image_iff simp flip: seeds)
  then have "set edges = edge_of ` {(r, s, t) \<in> set es. {s, t} \<subseteq> set seeds \<union> tn_element ` set (sg_nodes ?sub)}"
    unfolding edges(3) by simp
  ultimately show ?thesis using edges(2) by (intro exI [of _ ?sub] exI [of _ ?canon]) simp
qed

section \<open>The property\<close>


lemma example_projected:
  obtains g where "graph_projection_from_state base_empty example_linked example_projection = Some (Ok g)"
    "projected_edges (st_relation_incidences base_empty example_linked) example_projection (st_relations base_empty example_linked) =
      Some [(1, 1, 2)]" "gpr_ok [(1, 1, 2)] g" "length (gpr_elements g) < 2 ^ 32"
proof -
  have edges: "projected_edges (st_relation_incidences base_empty example_linked) example_projection (st_relations base_empty example_linked) =
      Some [(1, 1, 2)]"
    by (simp add: example_linked_walks relation_selected_def binary_edge_def lone_end_def example_projection_def)
  have few: "\<not> 2 ^ 31 \<le> length (filter P (st_relations base_empty example_linked))" for P
    by (simp add: example_linked_walks)
  note result = graph_projection_result [OF writer_ok_layered [OF example_linked_ok], of example_projection, unfolded edges]
  then obtain g where g: "graph_projection_from_state base_empty example_linked example_projection = Some (Ok g)"
    using few by (cases "graph_projection_from_state base_empty example_linked example_projection") (auto split: sum.splits)
  with result have ok: "gpr_ok [(1, 1, 2)] g" by auto
  have "length (gpr_elements g) = card (set (gpr_elements g))" using gpr_okD(4) [OF ok] by (simp add: distinct_card)
  also have "\<dots> < 2 ^ 32" unfolding gpr_okD(5) [OF ok] by simp
  finally show thesis using that g edges ok by blast
qed


end
