(* ===== verification/DbHyper.thy ===== *)
theory DbHyper
  imports DbProjection HyperBuild Layers
begin

text \<open>
  The materialized directed hypergraph projection of \<open>crates/oxgraph-db/src/projection.rs\<close>: the selected
  relations with all their incidences, renumbered densely, the participants of the source and target roles, and
  the vertex-major adjacency that the hypergraph builder freezes.
\<close>

section \<open>The projection and its builder\<close>

record hypergraph_projection =
  hpr_definition :: hypergraph_projection_definition
  hpr_elements :: "element_id list"
  hpr_element_index :: "(element_id, local_id) fmap"
  hpr_relations :: "relation_id list"
  hpr_relation_index :: "(relation_id, local_id) fmap"
  hpr_incidences :: "incidence_record list"
  hpr_incidence_index :: "(incidence_id, local_id) fmap"
  hpr_relation_incidences :: "local_id list list"
  hpr_element_incidences :: "local_id list list"
  hpr_source_incidences :: "local_id list list"
  hpr_target_incidences :: "local_id list list"
  hpr_source_vertices :: "local_id list list"
  hpr_target_vertices :: "local_id list list"
  hpr_outgoing_hyperedges :: "local_id list list"
  hpr_incoming_hyperedges :: "local_id list list"
  hpr_successors :: "local_id list list"
  hpr_predecessors :: "local_id list list"

record hypergraph_projection_builder =
  hpb_definition :: hypergraph_projection_definition
  hpb_elements :: "element_id list"
  hpb_element_index :: "(element_id, local_id) fmap"
  hpb_relations :: "relation_id list"
  hpb_relation_index :: "(relation_id, local_id) fmap"
  hpb_incidences :: "incidence_record list"
  hpb_incidence_index :: "(incidence_id, local_id) fmap"
  hpb_relation_incidences :: "local_id list list"
  hpb_source_incidences :: "local_id list list"
  hpb_target_incidences :: "local_id list list"
  hpb_source_vertices :: "local_id list list"
  hpb_target_vertices :: "local_id list list"

definition hpb_new :: "hypergraph_projection_definition \<Rightarrow> hypergraph_projection_builder" where
  "hpb_new d = \<lparr>hpb_definition = d, hpb_elements = [], hpb_element_index = fmempty, hpb_relations = [],
     hpb_relation_index = fmempty, hpb_incidences = [], hpb_incidence_index = fmempty, hpb_relation_incidences = [],
     hpb_source_incidences = [], hpb_target_incidences = [], hpb_source_vertices = [], hpb_target_vertices = []\<rparr>"

section \<open>Pushing a relation\<close>

definition projection_incidence_id :: "nat \<Rightarrow> (db_error, local_id) result" where
  "projection_incidence_id index = ok_or (id_overflow ElementIds) (from_usize index)"

definition local_incidence_index :: "local_id \<Rightarrow> nat" where
  "local_incidence_index i = (case to_usize i of Some slot \<Rightarrow> slot | None \<Rightarrow> usize_max)"

definition hpb_push_incidence ::
    "incidence_record \<Rightarrow> hypergraph_projection_builder \<Rightarrow> (db_error, local_id \<times> hypergraph_projection_builder) result" where
  "hpb_push_incidence n b =
     (case fmlookup (hpb_incidence_index b) (ir_id n) of
        Some i \<Rightarrow> Ok (i, b)
      | None \<Rightarrow>
          and_then (projection_incidence_id (length (hpb_incidences b))) (\<lambda>i.
            Ok (i, b\<lparr>hpb_incidences := hpb_incidences b @ [n],
                    hpb_incidence_index := fmupd (ir_id n) i (hpb_incidence_index b)\<rparr>)))"

text \<open>The five lists of one relation: incidences, source and target incidences, source and target vertices.\<close>

record relation_lists =
  rl_relation :: "local_id list"
  rl_source_ids :: "local_id list"
  rl_target_ids :: "local_id list"
  rl_sources :: "local_id list"
  rl_targets :: "local_id list"

definition file_incidence ::
    "hypergraph_projection_definition \<Rightarrow> incidence_record \<Rightarrow> local_id \<Rightarrow> local_id \<Rightarrow> relation_lists \<Rightarrow> relation_lists" where
  "file_incidence d n i vertex rl =
     (let rl = rl\<lparr>rl_relation := rl_relation rl @ [i]\<rparr>;
          rl = (if ir_role n |\<in>| hp_source_roles d
                then rl\<lparr>rl_source_ids := rl_source_ids rl @ [i], rl_sources := rl_sources rl @ [vertex]\<rparr> else rl)
      in if ir_role n |\<in>| hp_target_roles d
         then rl\<lparr>rl_target_ids := rl_target_ids rl @ [i], rl_targets := rl_targets rl @ [vertex]\<rparr> else rl)"

fun push_incidences ::
    "incidence_record list \<Rightarrow> relation_lists \<Rightarrow> hypergraph_projection_builder
     \<Rightarrow> (db_error, relation_lists \<times> hypergraph_projection_builder) result" where
  "push_incidences [] rl b = Ok (rl, b)"
| "push_incidences (n # ns) rl b =
     and_then (hpb_push_incidence n b) (\<lambda>(i, b).
     and_then (intern_element (hpb_element_index b) (hpb_elements b) (ir_element n)) (\<lambda>(vertex, index, elements).
       push_incidences ns (file_incidence (hpb_definition b) n i vertex rl)
         (b\<lparr>hpb_element_index := index, hpb_elements := elements\<rparr>)))"

definition no_lists :: relation_lists where
  "no_lists = \<lparr>rl_relation = [], rl_source_ids = [], rl_target_ids = [], rl_sources = [], rl_targets = []\<rparr>"

definition hpb_push_relation ::
    "(relation_id \<Rightarrow> incidence_record list) \<Rightarrow> relation_record \<Rightarrow> hypergraph_projection_builder
     \<Rightarrow> (db_error, hypergraph_projection_builder) result" where
  "hpb_push_relation relation_incidences r b =
     and_then (projection_relation_id (length (hpb_relations b))) (\<lambda>hyperedge.
       let b = b\<lparr>hpb_relations := hpb_relations b @ [rr_id r],
                 hpb_relation_index := fmupd (rr_id r) hyperedge (hpb_relation_index b)\<rparr> in
     and_then (push_incidences (relation_incidences (rr_id r)) no_lists b) (\<lambda>(rl, b).
       if rl_sources rl = [] \<or> rl_targets rl = [] then
         Err (invalid_projection ''selected hyperedge lacks source or target participants'')
       else Ok (b\<lparr>hpb_relation_incidences := hpb_relation_incidences b @ [rl_relation rl],
                  hpb_source_incidences := hpb_source_incidences b @ [rl_source_ids rl],
                  hpb_target_incidences := hpb_target_incidences b @ [rl_target_ids rl],
                  hpb_source_vertices := hpb_source_vertices b @ [rl_sources rl],
                  hpb_target_vertices := hpb_target_vertices b @ [rl_targets rl]\<rparr>)))"

section \<open>Vertex-major arrays\<close>

text \<open>The loop of \<open>build_element_incidences\<close>.\<close>

fun element_rows_loop ::
    "(element_id, local_id) fmap \<Rightarrow> nat \<Rightarrow> local_id list list \<Rightarrow> incidence_record list \<Rightarrow> (db_error, local_id list list) run" where
  "element_rows_loop index k rows [] = Some (Ok rows)"
| "element_rows_loop index k rows (n # ns) =
     run_then (trying (projection_incidence_id k)) (\<lambda>i.
     run_then (trying (ok_or (invalid_projection ''incidence element not projected'') (fmlookup index (ir_element n)))) (\<lambda>element.
     run_then (reading (index_or_panic rows (local_index element))) (\<lambda>row.
       element_rows_loop index (k + 1) (rows[local_index element := row @ [i]]) ns)))"

definition build_element_incidences ::
    "nat \<Rightarrow> incidence_record list \<Rightarrow> (element_id, local_id) fmap \<Rightarrow> (db_error, local_id list list) run" where
  "build_element_incidences element_count incidences index =
     element_rows_loop index 0 (replicate element_count []) incidences"

fun add_vertices ::
    "nat \<Rightarrow> u32 hypergraph_builder \<Rightarrow> u32 list \<Rightarrow> (db_error, u32 hypergraph_builder \<times> u32 list) result" where
  "add_vertices 0 b vertices = Ok (b, vertices)"
| "add_vertices (Suc k) b vertices =
     (case (hb_add_vertex b :: ((u32, u32, u32) hyper_build_error, u32) result \<times> u32 hypergraph_builder) of
        (Inl _, _) \<Rightarrow> Err (id_overflow ElementIds)
      | (Inr v, b) \<Rightarrow> add_vertices k b (vertices @ [v]))"

text \<open>First occurrences in order, as handles; an index past the handles panics.\<close>

definition unique_vertices :: "u32 list \<Rightarrow> local_id list \<Rightarrow> u32 list option" where
  "unique_vertices vertices locals = those (map (\<lambda>i. index_or_panic vertices (local_index i)) (fresh {} locals))"

fun add_hyperedges ::
    "u32 list \<Rightarrow> (local_id list \<times> local_id list) list \<Rightarrow> u32 hypergraph_builder \<Rightarrow> (db_error, u32 hypergraph_builder) run" where
  "add_hyperedges vertices [] b = Some (Ok b)"
| "add_hyperedges vertices ((sources, targets) # rest) b =
     run_then (reading (unique_vertices vertices sources)) (\<lambda>s.
     run_then (reading (unique_vertices vertices targets)) (\<lambda>t.
       case (hb_add_hyperedge b s t :: ((u32, u32, u32) hyper_build_error, u32) result \<times> u32 hypergraph_builder) of
         (Inl _, _) \<Rightarrow> Some (Err (invalid_projection ''hyperedge participants are not directed-unique''))
       | (Inr _, b) \<Rightarrow> add_hyperedges vertices rest b))"

text \<open>Collecting an iterator, and a set of words in ascending order.\<close>

partial_function (option) collect_iter :: "('s \<Rightarrow> ('a option \<times> 's) option) \<Rightarrow> 's \<Rightarrow> 'a list option" where
  "collect_iter next_item st =
     Option.bind (next_item st) (\<lambda>(item, st).
       case item of
         None \<Rightarrow> Some []
       | Some x \<Rightarrow> Option.bind (collect_iter next_item st) (\<lambda>xs. Some (x # xs)))"

definition unique_sorted :: "local_id list \<Rightarrow> local_id list" where
  "unique_sorted xs = sorted_list_of_fset (fset_of_list xs)"

text \<open>The four rows of one vertex of the frozen hypergraph.\<close>

fun vertex_rows_loop ::
    "(u32, u32, u32) frozen_hypergraph \<Rightarrow> u32 list \<Rightarrow> local_id list list \<Rightarrow> local_id list list \<Rightarrow> local_id list list \<Rightarrow> local_id list list
     \<Rightarrow> (local_id list list \<times> local_id list list \<times> local_id list list \<times> local_id list list) option" where
  "vertex_rows_loop frozen [] outgoing incoming successors predecessors = Some (outgoing, incoming, successors, predecessors)"
| "vertex_rows_loop frozen (v # vs) outgoing incoming successors predecessors =
     (let view = fht_as_view (fh_topology frozen) in
      Option.bind (bcsr_outgoing_hyperedges view v) (\<lambda>outs.
      Option.bind (bcsr_incoming_hyperedges view v) (\<lambda>ins.
      Option.bind (Option.bind (bcsr_element_successors view v) (collect_iter neighbor_vertices_next)) (\<lambda>succs.
      Option.bind (Option.bind (bcsr_element_predecessors view v) (collect_iter neighbor_vertices_next)) (\<lambda>preds.
        vertex_rows_loop frozen vs (outgoing @ [outs]) (incoming @ [ins])
          (successors @ [unique_sorted succs]) (predecessors @ [unique_sorted preds]))))))"

definition build_directed_vertex_arrays ::
    "nat \<Rightarrow> local_id list list \<Rightarrow> local_id list list
     \<Rightarrow> (db_error, local_id list list \<times> local_id list list \<times> local_id list list \<times> local_id list list) run" where
  "build_directed_vertex_arrays element_count source_vertices target_vertices =
     run_then (trying (add_vertices element_count hypergraph_builder_new [])) (\<lambda>(b, vertices).
     run_then (add_hyperedges vertices (zip source_vertices target_vertices) b) (\<lambda>b.
     run_then (or_err (id_overflow IncidenceIds)
       (hb_freeze b :: ((u32, u32, u32) hyper_build_error, (u32, u32, u32) frozen_hypergraph) run)) (\<lambda>frozen.
       reading (vertex_rows_loop frozen vertices [] [] [] []))))"

definition hpb_finish :: "hypergraph_projection_builder \<Rightarrow> (db_error, hypergraph_projection) run" where
  "hpb_finish b =
     run_then (build_element_incidences (length (hpb_elements b)) (hpb_incidences b) (hpb_element_index b)) (\<lambda>element_incidences.
     run_then (build_directed_vertex_arrays (length (hpb_elements b)) (hpb_source_vertices b) (hpb_target_vertices b))
       (\<lambda>(outgoing, incoming, successors, predecessors).
       Some (Ok \<lparr>hpr_definition = hpb_definition b, hpr_elements = hpb_elements b,
         hpr_element_index = hpb_element_index b, hpr_relations = hpb_relations b,
         hpr_relation_index = hpb_relation_index b, hpr_incidences = hpb_incidences b,
         hpr_incidence_index = hpb_incidence_index b, hpr_relation_incidences = hpb_relation_incidences b,
         hpr_element_incidences = element_incidences, hpr_source_incidences = hpb_source_incidences b,
         hpr_target_incidences = hpb_target_incidences b, hpr_source_vertices = hpb_source_vertices b,
         hpr_target_vertices = hpb_target_vertices b, hpr_outgoing_hyperedges = outgoing,
         hpr_incoming_hyperedges = incoming, hpr_successors = successors, hpr_predecessors = predecessors\<rparr>)))"

fun push_selected_hyperedges ::
    "(relation_id \<Rightarrow> incidence_record list) \<Rightarrow> relation_record list \<Rightarrow> hypergraph_projection_builder
     \<Rightarrow> (db_error, hypergraph_projection_builder) result" where
  "push_selected_hyperedges relation_incidences [] b = Ok b"
| "push_selected_hyperedges relation_incidences (r # rs) b =
     (if relation_selected r (hp_relation_types (hpb_definition b)) then
        and_then (hpb_push_relation relation_incidences r b) (push_selected_hyperedges relation_incidences rs)
      else push_selected_hyperedges relation_incidences rs b)"

definition hypergraph_projection_from_state ::
    "base_records \<Rightarrow> 'a overlay_scheme \<Rightarrow> hypergraph_projection_definition \<Rightarrow> (db_error, hypergraph_projection) run" where
  "hypergraph_projection_from_state base ov d =
     (if hp_source_roles d = {||} \<or> hp_target_roles d = {||} then
        Some (Err (invalid_projection ''hypergraph projection requires non-empty source and target roles''))
      else
        run_then (trying (push_selected_hyperedges (st_relation_incidences base ov) (st_relations base ov) (hpb_new d))) hpb_finish)"

section \<open>Reading a projection\<close>

definition hyp_subjects :: "hypergraph_projection \<Rightarrow> property_subject list" where
  "hyp_subjects h = sort (map Element (hpr_elements h) @ map Relation (hpr_relations h) @ map (Incidence \<circ> ir_id) (hpr_incidences h))"

definition hyp_element_count :: "hypergraph_projection \<Rightarrow> nat" where
  "hyp_element_count h = length (hpr_elements h)"

definition hyp_relation_count :: "hypergraph_projection \<Rightarrow> nat" where
  "hyp_relation_count h = length (hpr_relations h)"

definition hyp_incidence_count :: "hypergraph_projection \<Rightarrow> nat" where
  "hyp_incidence_count h = length (hpr_incidences h)"

definition hyp_contains_element :: "hypergraph_projection \<Rightarrow> local_id \<Rightarrow> bool" where
  "hyp_contains_element h i \<longleftrightarrow> local_index i < length (hpr_elements h)"

definition hyp_contains_relation :: "hypergraph_projection \<Rightarrow> local_id \<Rightarrow> bool" where
  "hyp_contains_relation h i \<longleftrightarrow> local_relation_index i < length (hpr_relations h)"

definition hyp_contains_incidence :: "hypergraph_projection \<Rightarrow> local_id \<Rightarrow> bool" where
  "hyp_contains_incidence h i \<longleftrightarrow> local_incidence_index i < length (hpr_incidences h)"

definition hyp_canonical_element_id :: "hypergraph_projection \<Rightarrow> local_id \<Rightarrow> element_id option" where
  "hyp_canonical_element_id h i = index_or_panic (hpr_elements h) (local_index i)"

definition hyp_local_element_id :: "hypergraph_projection \<Rightarrow> element_id \<Rightarrow> local_id option" where
  "hyp_local_element_id h x = fmlookup (hpr_element_index h) x"

definition hyp_canonical_relation_id :: "hypergraph_projection \<Rightarrow> local_id \<Rightarrow> relation_id option" where
  "hyp_canonical_relation_id h i = index_or_panic (hpr_relations h) (local_relation_index i)"

definition hyp_local_relation_id :: "hypergraph_projection \<Rightarrow> relation_id \<Rightarrow> local_id option" where
  "hyp_local_relation_id h r = fmlookup (hpr_relation_index h) r"

definition hyp_canonical_incidence_id :: "hypergraph_projection \<Rightarrow> local_id \<Rightarrow> incidence_id option" where
  "hyp_canonical_incidence_id h i = map_option ir_id (index_or_panic (hpr_incidences h) (local_incidence_index i))"

definition hyp_local_incidence_id :: "hypergraph_projection \<Rightarrow> incidence_id \<Rightarrow> local_id option" where
  "hyp_local_incidence_id h n = fmlookup (hpr_incidence_index h) n"

definition hyp_relation_incidences :: "hypergraph_projection \<Rightarrow> local_id \<Rightarrow> local_id list option" where
  "hyp_relation_incidences h i = index_or_panic (hpr_relation_incidences h) (local_relation_index i)"

definition hyp_element_incidences :: "hypergraph_projection \<Rightarrow> local_id \<Rightarrow> local_id list option" where
  "hyp_element_incidences h i = index_or_panic (hpr_element_incidences h) (local_index i)"

text \<open>Indexing the identifier maps panics on a missing key.\<close>

definition hyp_incidence_element :: "hypergraph_projection \<Rightarrow> local_id \<Rightarrow> local_id option" where
  "hyp_incidence_element h i =
     Option.bind (index_or_panic (hpr_incidences h) (local_incidence_index i)) (\<lambda>n. fmlookup (hpr_element_index h) (ir_element n))"

definition hyp_incidence_relation :: "hypergraph_projection \<Rightarrow> local_id \<Rightarrow> local_id option" where
  "hyp_incidence_relation h i =
     Option.bind (index_or_panic (hpr_incidences h) (local_incidence_index i)) (\<lambda>n. fmlookup (hpr_relation_index h) (ir_relation n))"

definition hyp_incidence_role :: "hypergraph_projection \<Rightarrow> local_id \<Rightarrow> role_id option" where
  "hyp_incidence_role h i = map_option ir_role (index_or_panic (hpr_incidences h) (local_incidence_index i))"

definition hyp_relation_incidence_count :: "hypergraph_projection \<Rightarrow> local_id \<Rightarrow> nat option" where
  "hyp_relation_incidence_count h i = map_option length (index_or_panic (hpr_relation_incidences h) (local_relation_index i))"

definition hyp_element_incidence_count :: "hypergraph_projection \<Rightarrow> local_id \<Rightarrow> nat option" where
  "hyp_element_incidence_count h i = map_option length (index_or_panic (hpr_element_incidences h) (local_index i))"

text \<open>The two mapping iterators: what is left of the slice is their state.\<close>

definition hyp_hyperedge_participants :: "hypergraph_projection \<Rightarrow> local_id \<Rightarrow> local_id list option" where
  "hyp_hyperedge_participants h i = index_or_panic (hpr_relation_incidences h) (local_relation_index i)"

fun hyp_participants_next :: "hypergraph_projection \<Rightarrow> local_id list \<Rightarrow> (local_id option \<times> local_id list) option" where
  "hyp_participants_next h [] = Some (None, [])"
| "hyp_participants_next h (i # rest) = map_option (\<lambda>x. (Some x, rest)) (hyp_incidence_element h i)"

definition hyp_incident_hyperedges :: "hypergraph_projection \<Rightarrow> local_id \<Rightarrow> local_id list option" where
  "hyp_incident_hyperedges h i = index_or_panic (hpr_element_incidences h) (local_index i)"

fun hyp_incident_next :: "hypergraph_projection \<Rightarrow> local_id list \<Rightarrow> (local_id option \<times> local_id list) option" where
  "hyp_incident_next h [] = Some (None, [])"
| "hyp_incident_next h (i # rest) = map_option (\<lambda>x. (Some x, rest)) (hyp_incidence_relation h i)"

definition hyp_source_participants :: "hypergraph_projection \<Rightarrow> local_id \<Rightarrow> local_id list option" where
  "hyp_source_participants h i = index_or_panic (hpr_source_vertices h) (local_relation_index i)"

definition hyp_target_participants :: "hypergraph_projection \<Rightarrow> local_id \<Rightarrow> local_id list option" where
  "hyp_target_participants h i = index_or_panic (hpr_target_vertices h) (local_relation_index i)"

definition hyp_source_incidences :: "hypergraph_projection \<Rightarrow> local_id \<Rightarrow> local_id list option" where
  "hyp_source_incidences h i = index_or_panic (hpr_source_incidences h) (local_relation_index i)"

definition hyp_target_incidences :: "hypergraph_projection \<Rightarrow> local_id \<Rightarrow> local_id list option" where
  "hyp_target_incidences h i = index_or_panic (hpr_target_incidences h) (local_relation_index i)"

definition hyp_outgoing_hyperedges :: "hypergraph_projection \<Rightarrow> local_id \<Rightarrow> local_id list option" where
  "hyp_outgoing_hyperedges h i = index_or_panic (hpr_outgoing_hyperedges h) (local_index i)"

definition hyp_incoming_hyperedges :: "hypergraph_projection \<Rightarrow> local_id \<Rightarrow> local_id list option" where
  "hyp_incoming_hyperedges h i = index_or_panic (hpr_incoming_hyperedges h) (local_index i)"

definition hyp_element_successors :: "hypergraph_projection \<Rightarrow> local_id \<Rightarrow> local_id list option" where
  "hyp_element_successors h i = index_or_panic (hpr_successors h) (local_index i)"

definition hyp_element_predecessors :: "hypergraph_projection \<Rightarrow> local_id \<Rightarrow> local_id list option" where
  "hyp_element_predecessors h i = index_or_panic (hpr_predecessors h) (local_index i)"

section \<open>What the selected relations say\<close>

definition two_sided :: "hypergraph_projection_definition \<Rightarrow> incidence_record list \<Rightarrow> bool" where
  "two_sided d ns \<longleftrightarrow> (\<exists>n \<in> set ns. ir_role n |\<in>| hp_source_roles d) \<and> (\<exists>n \<in> set ns. ir_role n |\<in>| hp_target_roles d)"

definition source_part :: "hypergraph_projection_definition \<Rightarrow> incidence_record list \<Rightarrow> incidence_record list" where
  "source_part d ns = filter (\<lambda>n. ir_role n |\<in>| hp_source_roles d) ns"

definition target_part :: "hypergraph_projection_definition \<Rightarrow> incidence_record list \<Rightarrow> incidence_record list" where
  "target_part d ns = filter (\<lambda>n. ir_role n |\<in>| hp_target_roles d) ns"

lemma two_sided_parts: "two_sided d ns \<longleftrightarrow> source_part d ns \<noteq> [] \<and> target_part d ns \<noteq> []"
  by (auto simp: two_sided_def source_part_def target_part_def filter_empty_conv)

text \<open>The selected relations with their incidences.\<close>

definition projected_hyperedges ::
    "(relation_id \<Rightarrow> incidence_record list) \<Rightarrow> hypergraph_projection_definition \<Rightarrow> relation_record list
     \<Rightarrow> (relation_id \<times> incidence_record list) list" where
  "projected_hyperedges relation_incidences d rs =
     map (\<lambda>r. (rr_id r, relation_incidences (rr_id r))) (filter (\<lambda>r. relation_selected r (hp_relation_types d)) rs)"

section \<open>Lists of local identifiers\<close>

text \<open>The local identifiers of a list of items of a pool.\<close>

definition denotes :: "'a list \<Rightarrow> local_id list \<Rightarrow> 'a list \<Rightarrow> bool" where
  "denotes pool is xs \<longleftrightarrow> (\<forall>i \<in> set is. unat i < length pool) \<and> map (\<lambda>i. pool ! unat i) is = xs"

lemma denotes_Nil [simp]: "denotes pool [] xs \<longleftrightarrow> xs = []"
  by (auto simp: denotes_def)

lemma denotes_grow: "denotes pool is xs \<Longrightarrow> denotes (pool @ more_items) is xs"
  by (auto simp: denotes_def nth_append)

lemma denotes_snoc: "denotes pool is xs \<Longrightarrow> unat i < length pool \<Longrightarrow> pool ! unat i = x \<Longrightarrow> denotes pool (is @ [i]) (xs @ [x])"
  by (auto simp: denotes_def)

lemma denotes_Nil_iff: "denotes pool is xs \<Longrightarrow> is = [] \<longleftrightarrow> xs = []"
  by (auto simp: denotes_def)

lemma denotes_map: "denotes pool is xs \<Longrightarrow> denotes (map f pool) is (map f xs)"
  by (auto simp: denotes_def)

lemma rows_grow: "list_all2 (denotes pool) rows xss \<Longrightarrow> list_all2 (denotes (pool @ more_items)) rows xss"
  by (erule list_all2_mono) (rule denotes_grow)

lemma local_incidence_index_unat [simp]: "local_incidence_index i = unat i"
  using local_index_unat(1) [of i] unfolding local_incidence_index_def local_index_def .

section \<open>The builder's invariant\<close>

text \<open>The interned incidences and their elements, and the five lists of a relation.\<close>

definition hpb_core :: "incidence_record list \<Rightarrow> hypergraph_projection_builder \<Rightarrow> bool" where
  "hpb_core ns b \<longleftrightarrow>
     interned (hpb_element_index b) (hpb_elements b) \<and> interned (hpb_incidence_index b) (map ir_id ns) \<and>
     hpb_incidences b = ns \<and> set (hpb_elements b) = ir_element ` set ns"

definition lists_ok ::
    "hypergraph_projection_definition \<Rightarrow> incidence_record list \<Rightarrow> element_id list \<Rightarrow> incidence_record list \<Rightarrow> relation_lists \<Rightarrow> bool" where
  "lists_ok d pool elements ns rl \<longleftrightarrow>
     denotes pool (rl_relation rl) ns \<and>
     denotes pool (rl_source_ids rl) (source_part d ns) \<and> denotes pool (rl_target_ids rl) (target_part d ns) \<and>
     denotes elements (rl_sources rl) (map ir_element (source_part d ns)) \<and>
     denotes elements (rl_targets rl) (map ir_element (target_part d ns))"

lemma lists_ok_none: "lists_ok d pool elements [] no_lists"
  by (simp add: lists_ok_def no_lists_def source_part_def target_part_def)

lemma lists_ok_file:
  assumes "lists_ok d pool elements ns rl" and "unat i < length pool" and "pool ! unat i = n"
    and "unat v < length elements" and "elements ! unat v = ir_element n"
  shows "lists_ok d pool elements (ns @ [n]) (file_incidence d n i v rl)"
proof -
  note snoc = denotes_snoc [OF _ assms(2,3)] denotes_snoc [OF _ assms(4,5)]
  show ?thesis using assms(1) by (auto simp: lists_ok_def file_incidence_def source_part_def target_part_def intro: snoc)
qed

lemma lists_ok_grow: "lists_ok d pool elements ns rl \<Longrightarrow> lists_ok d (pool @ more_items) (elements @ more_elements) ns rl"
  by (simp add: lists_ok_def denotes_grow)

text \<open>The fields that pushing incidences keeps.\<close>

definition hpb_rows where
  "hpb_rows b = (hpb_definition b, hpb_relations b, hpb_relation_index b, hpb_relation_incidences b,
     hpb_source_incidences b, hpb_target_incidences b, hpb_source_vertices b, hpb_target_vertices b)"

lemma hpb_push_incidence_Ok:
  assumes "hpb_core ms b" and "ir_id n \<notin> set (map ir_id ms)" and "hpb_push_incidence n b = Ok (i, b')"
  shows "unat i = length ms" and "interned (hpb_incidence_index b') (map ir_id (ms @ [n]))"
    and "hpb_incidences b' = ms @ [n]" and "hpb_rows b' = hpb_rows b"
    and "hpb_elements b' = hpb_elements b" and "hpb_element_index b' = hpb_element_index b"
proof -
  from assms(1) have index: "interned (hpb_incidence_index b) (map ir_id ms)" and ms: "hpb_incidences b = ms"
    by (simp_all add: hpb_core_def)
  have "fmlookup (hpb_incidence_index b) (ir_id n) = None" using interned_None [OF index] assms(2) by simp
  with assms(3) ms have i: "(from_usize (length ms) :: local_id option) = Some i"
    and b': "b' = b\<lparr>hpb_incidences := ms @ [n], hpb_incidence_index := fmupd (ir_id n) i (hpb_incidence_index b)\<rparr>"
    by (auto simp: hpb_push_incidence_def projection_incidence_id_def)
  then have i': "(from_usize (length (map ir_id ms)) :: local_id option) = Some i" by simp
  from interned_snoc [OF index assms(2) i'] show "unat i = length ms"
    and "interned (hpb_incidence_index b') (map ir_id (ms @ [n]))" by (simp_all add: b')
  show "hpb_incidences b' = ms @ [n]" "hpb_rows b' = hpb_rows b"
    "hpb_elements b' = hpb_elements b" "hpb_element_index b' = hpb_element_index b"
    by (simp_all add: b' hpb_rows_def)
qed

lemma hpb_push_incidence_Err:
  assumes "hpb_core ms b" and "hpb_push_incidence n b = Err e"
  shows "e = id_overflow ElementIds" and "length ms = 2 ^ 32"
proof -
  from assms(1) have index: "interned (hpb_incidence_index b) (map ir_id ms)" and ms: "hpb_incidences b = ms"
    by (simp_all add: hpb_core_def)
  from assms(2) ms have "e = id_overflow ElementIds \<and> (from_usize (length ms) :: local_id option) = None"
    by (auto simp: hpb_push_incidence_def projection_incidence_id_def and_then_Err_iff split: option.splits)
  then show "e = id_overflow ElementIds" and "length ms = 2 ^ 32"
    using index by (auto simp: from_usize_def interned_def local_fits_def split: if_splits)
qed

lemma hpb_core_elements: "hpb_core ms b \<Longrightarrow> length (hpb_elements b) \<le> length ms"
proof -
  assume "hpb_core ms b"
  then have "distinct (hpb_elements b)" "set (hpb_elements b) = ir_element ` set ms" by (simp_all add: hpb_core_def interned_def)
  then have "length (hpb_elements b) = card (ir_element ` set ms)" by (metis distinct_card)
  also have "\<dots> \<le> length ms" using card_length [of "map ir_element ms"] by simp
  finally show ?thesis .
qed

section \<open>Pushing the selected relations\<close>

text \<open>One incidence of a relation: the step of the loop over its incidences.\<close>

lemma push_step_Ok:
  assumes core: "hpb_core ms b" and lists: "lists_ok d ms (hpb_elements b) ns rl" and new: "ir_id n \<notin> set (map ir_id ms)"
    and one: "hpb_push_incidence n b = Ok (i, b1)"
    and two: "intern_element (hpb_element_index b1) (hpb_elements b1) (ir_element n) = Ok (v, index, elements)"
  defines "b2 \<equiv> b1\<lparr>hpb_element_index := index, hpb_elements := elements\<rparr>"
  shows "hpb_core (ms @ [n]) b2" and "lists_ok d (ms @ [n]) (hpb_elements b2) (ns @ [n]) (file_incidence d n i v rl)"
    and "\<exists>zs. hpb_elements b2 = hpb_elements b @ zs" and "hpb_rows b2 = hpb_rows b"
proof -
  note one = hpb_push_incidence_Ok [OF core new one]
  have index: "interned (hpb_element_index b1) (hpb_elements b1)" and elements: "set (hpb_elements b) = ir_element ` set ms"
    using core by (simp_all add: hpb_core_def one(5,6))
  note two = intern_element_Ok [OF index two]
  show "hpb_core (ms @ [n]) b2" using one(2,3) two(1,5) elements by (simp add: hpb_core_def b2_def one(5))
  from two(2) obtain zs where zs: "elements = hpb_elements b @ zs" by (auto simp: one(5))
  then show "\<exists>zs. hpb_elements b2 = hpb_elements b @ zs" by (simp add: b2_def)
  show "hpb_rows b2 = hpb_rows b" using one(4) by (simp add: b2_def hpb_rows_def)
  have "lists_ok d (ms @ [n]) elements ns rl" using lists_ok_grow [OF lists, of "[n]" zs] by (simp add: zs)
  then show "lists_ok d (ms @ [n]) (hpb_elements b2) (ns @ [n]) (file_incidence d n i v rl)"
    by (simp add: b2_def lists_ok_file one(1) two(3,4))
qed

lemma push_incidences_Ok:
  assumes "hpb_core ms b" and "lists_ok (hpb_definition b) ms (hpb_elements b) js rl"
    and "distinct (map ir_id (ms @ ns))" and "push_incidences ns rl b = Ok (rl', b')"
  shows "hpb_core (ms @ ns) b' \<and> lists_ok (hpb_definition b) (ms @ ns) (hpb_elements b') (js @ ns) rl' \<and>
    (\<exists>zs. hpb_elements b' = hpb_elements b @ zs) \<and> hpb_rows b' = hpb_rows b"
  using assms
proof (induction ns arbitrary: ms b js rl)
  case (Cons n ns)
  from Cons.prems(4) obtain i b1 v index elements where
    pushed: "hpb_push_incidence n b = Ok (i, b1)" "intern_element (hpb_element_index b1) (hpb_elements b1) (ir_element n) = Ok (v, index, elements)"
    and rest: "push_incidences ns (file_incidence (hpb_definition b1) n i v rl) (b1\<lparr>hpb_element_index := index, hpb_elements := elements\<rparr>) = Ok (rl', b')"
    by (auto split: prod.splits)
  have new: "ir_id n \<notin> set (map ir_id ms)" using Cons.prems(3) by auto
  note step = push_step_Ok [OF Cons.prems(1,2) new pushed]
  let ?b = "b1\<lparr>hpb_element_index := index, hpb_elements := elements\<rparr>"
  have d: "hpb_definition ?b = hpb_definition b" "hpb_definition b1 = hpb_definition b"
    using step(4) hpb_push_incidence_Ok(4) [OF Cons.prems(1) new pushed(1)] by (simp_all add: hpb_rows_def)
  have "distinct (map ir_id ((ms @ [n]) @ ns))" using Cons.prems(3) by simp
  from Cons.IH [OF step(1) _ this, unfolded d, OF step(2)] rest step(3,4) d show ?case by auto
qed simp

lemma push_incidences_Err:
  assumes "hpb_core ms b" and "distinct (map ir_id (ms @ ns))" and "push_incidences ns rl b = Err e"
  shows "e = id_overflow ElementIds \<and> 2 ^ 32 \<le> length (ms @ ns)"
  using assms
proof (induction ns arbitrary: ms b rl)
  case (Cons n ns)
  have new: "ir_id n \<notin> set (map ir_id ms)" using Cons.prems(2) by auto
  show ?case
  proof (cases "hpb_push_incidence n b")
    case (Inl e')
    with Cons.prems(3) hpb_push_incidence_Err [OF Cons.prems(1) Inl] show ?thesis by auto
  next
    case (Inr r)
    obtain i b1 where r: "r = (i, b1)" by (cases r)
    note one = hpb_push_incidence_Ok [OF Cons.prems(1) new Inr [unfolded r]]
    have index: "interned (hpb_element_index b1) (hpb_elements b1)" using Cons.prems(1) by (simp add: hpb_core_def one)
    show ?thesis
    proof (cases "intern_element (hpb_element_index b1) (hpb_elements b1) (ir_element n)")
      case (Inl e')
      with Cons.prems(3) Inr r intern_element_Err [OF index Inl] hpb_core_elements [OF Cons.prems(1)] one(5) show ?thesis by auto
    next
      case second: (Inr r')
      obtain v index elements where r': "r' = (v, index, elements)" by (cases r')
      note step = push_step_Ok(1) [OF Cons.prems(1) lists_ok_none new Inr [unfolded r] second [unfolded r']]
      have "distinct (map ir_id ((ms @ [n]) @ ns))" using Cons.prems(2) by simp
      from Cons.IH [OF step this] Cons.prems(3) Inr r second r' show ?thesis by auto
    qed
  qed
qed simp

text \<open>The builder holds these relations with their incidences, renumbered, and nothing else.\<close>

definition hpb_ok :: "(relation_id \<times> incidence_record list) list \<Rightarrow> hypergraph_projection_builder \<Rightarrow> bool" where
  "hpb_ok hs b \<longleftrightarrow>
     hpb_core (concat (map snd hs)) b \<and>
     interned (hpb_relation_index b) (map fst hs) \<and> hpb_relations b = map fst hs \<and>
     (\<forall>h \<in> set hs. two_sided (hpb_definition b) (snd h)) \<and>
     list_all2 (denotes (concat (map snd hs))) (hpb_relation_incidences b) (map snd hs) \<and>
     list_all2 (denotes (concat (map snd hs))) (hpb_source_incidences b) (map (source_part (hpb_definition b) \<circ> snd) hs) \<and>
     list_all2 (denotes (concat (map snd hs))) (hpb_target_incidences b) (map (target_part (hpb_definition b) \<circ> snd) hs) \<and>
     list_all2 (denotes (hpb_elements b)) (hpb_source_vertices b) (map (map ir_element \<circ> source_part (hpb_definition b) \<circ> snd) hs) \<and>
     list_all2 (denotes (hpb_elements b)) (hpb_target_vertices b) (map (map ir_element \<circ> target_part (hpb_definition b) \<circ> snd) hs)"

lemma hpb_ok_new: "hpb_ok [] (hpb_new d)"
  by (simp add: hpb_ok_def hpb_new_def hpb_core_def)

lemma length_le_concat: "(\<And>h. h \<in> set hs \<Longrightarrow> snd h \<noteq> []) \<Longrightarrow> length hs \<le> length (concat (map snd hs))"
proof (induction hs)
  case (Cons h hs)
  then have "snd h \<noteq> []" "length hs \<le> length (concat (map snd hs))" by auto
  then show ?case by (cases "snd h") auto
qed simp

lemma two_sided_nonempty: "two_sided d ns \<Longrightarrow> ns \<noteq> []"
  by (auto simp: two_sided_def)

lemma hpb_push_relation_Ok:
  assumes ok: "hpb_ok hs b" and new: "rr_id r \<notin> fst ` set hs"
    and distinct: "distinct (map ir_id (concat (map snd hs) @ inc (rr_id r)))"
    and pushed: "hpb_push_relation inc r b = Ok b'"
  shows "hpb_ok (hs @ [(rr_id r, inc (rr_id r))]) b'" and "hpb_definition b' = hpb_definition b"
    and "two_sided (hpb_definition b) (inc (rr_id r))"
proof -
  let ?ns = "inc (rr_id r)" and ?ms = "concat (map snd hs)" and ?d = "hpb_definition b"
  note old = ok [unfolded hpb_ok_def]
  obtain k rl b2 where k: "(from_usize (length (hpb_relations b)) :: local_id option) = Some k"
    and run: "push_incidences ?ns no_lists (b\<lparr>hpb_relations := hpb_relations b @ [rr_id r],
        hpb_relation_index := fmupd (rr_id r) k (hpb_relation_index b)\<rparr>) = Ok (rl, b2)"
    and sides: "rl_sources rl \<noteq> []" "rl_targets rl \<noteq> []"
    and b': "b' = b2\<lparr>hpb_relation_incidences := hpb_relation_incidences b2 @ [rl_relation rl],
                  hpb_source_incidences := hpb_source_incidences b2 @ [rl_source_ids rl],
                  hpb_target_incidences := hpb_target_incidences b2 @ [rl_target_ids rl],
                  hpb_source_vertices := hpb_source_vertices b2 @ [rl_sources rl],
                  hpb_target_vertices := hpb_target_vertices b2 @ [rl_targets rl]\<rparr>"
    using pushed by (auto simp: hpb_push_relation_def projection_relation_id_def Let_def split: prod.splits if_splits)
  let ?b1 = "b\<lparr>hpb_relations := hpb_relations b @ [rr_id r], hpb_relation_index := fmupd (rr_id r) k (hpb_relation_index b)\<rparr>"
  have core: "hpb_core ?ms ?b1" using old by (simp add: hpb_core_def)
  from push_incidences_Ok [OF core lists_ok_none distinct run] obtain zs where
    core2: "hpb_core (?ms @ ?ns) b2" and lists: "lists_ok ?d (?ms @ ?ns) (hpb_elements b2) ?ns rl"
    and zs: "hpb_elements b2 = hpb_elements b @ zs" and rows: "hpb_rows b2 = hpb_rows ?b1" by auto
  have keep: "hpb_definition b2 = ?d" "hpb_relations b2 = map fst hs @ [rr_id r]" "hpb_relation_index b2 = fmupd (rr_id r) k (hpb_relation_index b)"
    "hpb_relation_incidences b2 = hpb_relation_incidences b" "hpb_source_incidences b2 = hpb_source_incidences b"
    "hpb_target_incidences b2 = hpb_target_incidences b" "hpb_source_vertices b2 = hpb_source_vertices b"
    "hpb_target_vertices b2 = hpb_target_vertices b"
    using rows old by (simp_all add: hpb_rows_def)
  then show "hpb_definition b' = hpb_definition b" by (simp add: b')
  show two: "two_sided ?d ?ns"
    using lists sides by (auto simp: two_sided_parts lists_ok_def dest: denotes_Nil_iff)
  have index: "interned (fmupd (rr_id r) k (hpb_relation_index b)) (map fst hs @ [rr_id r])"
    using interned_snoc(1) [of "hpb_relation_index b" "map fst hs" "rr_id r" k] old new k by simp
  have grown: "list_all2 (denotes (?ms @ ?ns)) (hpb_relation_incidences b) (map snd hs)"
    "list_all2 (denotes (?ms @ ?ns)) (hpb_source_incidences b) (map (source_part ?d \<circ> snd) hs)"
    "list_all2 (denotes (?ms @ ?ns)) (hpb_target_incidences b) (map (target_part ?d \<circ> snd) hs)"
    "list_all2 (denotes (hpb_elements b2)) (hpb_source_vertices b) (map (map ir_element \<circ> source_part ?d \<circ> snd) hs)"
    "list_all2 (denotes (hpb_elements b2)) (hpb_target_vertices b) (map (map ir_element \<circ> target_part ?d \<circ> snd) hs)"
    unfolding zs using old by (blast intro: rows_grow)+
  have core': "hpb_core (?ms @ ?ns) b'" using core2 by (simp add: hpb_core_def b')
  show "hpb_ok (hs @ [(rr_id r, ?ns)]) b'"
    unfolding hpb_ok_def
    using core' index old grown lists two by (simp add: b' keep lists_ok_def list_all2_appendI)
qed

lemma hpb_push_relation_Err:
  assumes ok: "hpb_ok hs b" and distinct: "distinct (map ir_id (concat (map snd hs) @ inc (rr_id r)))"
    and err: "hpb_push_relation inc r b = Err e"
  shows "(\<exists>m. e = invalid_projection m) \<and> \<not> two_sided (hpb_definition b) (inc (rr_id r)) \<or>
    e = id_overflow ElementIds \<and> 2 ^ 32 \<le> length (concat (map snd hs) @ inc (rr_id r))"
proof -
  let ?ns = "inc (rr_id r)" and ?ms = "concat (map snd hs)" and ?d = "hpb_definition b"
  let ?b1 = "\<lambda>k. b\<lparr>hpb_relations := hpb_relations b @ [rr_id r], hpb_relation_index := fmupd (rr_id r) k (hpb_relation_index b)\<rparr>"
  note old = ok [unfolded hpb_ok_def]
  have core: "hpb_core ?ms (?b1 k)" for k using old by (simp add: hpb_core_def)
  have few: "length (hpb_relations b) \<le> length ?ms"
    using length_le_concat [of hs] old two_sided_nonempty by fastforce
  consider (relation) "e = id_overflow ElementIds" "(from_usize (length (hpb_relations b)) :: local_id option) = None"
    | (incidence) k where "push_incidences ?ns no_lists (?b1 k) = Err e"
    | (lacks) k rl b2 where "push_incidences ?ns no_lists (?b1 k) = Ok (rl, b2)" "rl_sources rl = [] \<or> rl_targets rl = []" "\<exists>m. e = invalid_projection m"
    using err by (auto simp: hpb_push_relation_def projection_relation_id_def Let_def and_then_Err_iff split: prod.splits if_splits)
  then show ?thesis
  proof cases
    case relation
    then show ?thesis using few by (auto simp: from_usize_def split: if_splits)
  next
    case incidence
    from push_incidences_Err [OF core distinct this] show ?thesis by simp
  next
    case lacks
    from push_incidences_Ok [OF core lists_ok_none distinct lacks(1)] have "lists_ok ?d (?ms @ ?ns) (hpb_elements b2) ?ns rl" by simp
    then have "\<not> two_sided ?d ?ns" using lacks(2) by (auto simp: two_sided_parts lists_ok_def dest: denotes_Nil_iff)
    with lacks(3) show ?thesis by simp
  qed
qed

text \<open>The loop over the relations of a view.\<close>

lemma push_selected_hyperedges_result:
  assumes "hpb_ok hs b" and "distinct (map rr_id rs)" and "fst ` set hs \<inter> rr_id ` set rs = {}"
    and "distinct (map ir_id (concat (map snd (hs @ projected_hyperedges inc (hpb_definition b) rs))))"
  shows "push_selected_hyperedges inc rs b = Ok b' \<Longrightarrow>
      hpb_ok (hs @ projected_hyperedges inc (hpb_definition b) rs) b' \<and> hpb_definition b' = hpb_definition b"
    and "push_selected_hyperedges inc rs b = Err e \<Longrightarrow>
      (\<exists>m. e = invalid_projection m) \<and> (\<exists>h \<in> set (projected_hyperedges inc (hpb_definition b) rs). \<not> two_sided (hpb_definition b) (snd h)) \<or>
      e = id_overflow ElementIds \<and> 2 ^ 32 \<le> length (concat (map snd (hs @ projected_hyperedges inc (hpb_definition b) rs)))"
  using assms
proof (induction rs arbitrary: hs b)
  case (Cons r rs)
  let ?h = "(rr_id r, inc (rr_id r))"
  have unselected: "projected_hyperedges inc d (r # rs) = projected_hyperedges inc d rs" if "\<not> relation_selected r (hp_relation_types d)" for d
    using that by (simp add: projected_hyperedges_def)
  have selected: "projected_hyperedges inc d (r # rs) = ?h # projected_hyperedges inc d rs" if "relation_selected r (hp_relation_types d)" for d
    using that by (simp add: projected_hyperedges_def)
  have prefix: "distinct (map ir_id (concat (map snd hs) @ inc (rr_id r)))"
    if "distinct (map ir_id (concat (map snd (hs @ projected_hyperedges inc d (r # rs)))))" "relation_selected r (hp_relation_types d)" for hs d
  proof -
    have "concat (map snd (hs @ projected_hyperedges inc d (r # rs))) =
        (concat (map snd hs) @ inc (rr_id r)) @ concat (map snd (projected_hyperedges inc d rs))"
      by (simp add: selected [OF that(2)])
    with that(1) show ?thesis by (simp only: map_append distinct_append)
  qed
  { case 1
    show ?case
    proof (cases "relation_selected r (hp_relation_types (hpb_definition b))")
      case True
      with 1(1) obtain b1 where b1: "hpb_push_relation inc r b = Ok b1" "push_selected_hyperedges inc rs b1 = Ok b'" by auto
      have "rr_id r \<notin> fst ` set hs" "distinct (map ir_id (concat (map snd hs) @ inc (rr_id r)))"
        using 1(4) prefix [OF 1(5) True] by auto
      note step = hpb_push_relation_Ok [OF 1(2) this b1(1)]
      have "fst ` set (hs @ [?h]) \<inter> rr_id ` set rs = {}" using 1(3,4) by auto
      from Cons.IH(1) [OF b1(2) step(1) _ this] 1(3,5) step(2) show ?thesis by (simp add: selected [OF True])
    next
      case False
      with Cons.IH(1) [OF _ 1(2)] 1 show ?thesis by (simp add: unselected [OF False])
    qed }
  { case 2
    show ?case
    proof (cases "relation_selected r (hp_relation_types (hpb_definition b))")
      case True
      have distinct: "rr_id r \<notin> fst ` set hs" "distinct (map ir_id (concat (map snd hs) @ inc (rr_id r)))"
        using 2(4) prefix [OF 2(5) True] by auto
      show ?thesis
      proof (cases "hpb_push_relation inc r b")
        case (Inl e')
        with 2(1) True hpb_push_relation_Err [OF 2(2) distinct(2) Inl] show ?thesis
          by (auto simp: selected [OF True])
      next
        case (Inr b1)
        note step = hpb_push_relation_Ok [OF 2(2) distinct Inr]
        have "fst ` set (hs @ [?h]) \<inter> rr_id ` set rs = {}" using 2(3,4) by auto
        from Cons.IH(2) [OF _ step(1) _ this] 2(1,3,5) step(2) True Inr show ?thesis by (auto simp: selected [OF True])
      qed
    next
      case False
      with Cons.IH(2) [OF _ 2(2)] 2 show ?thesis by (simp add: unselected [OF False])
    qed }
qed (simp_all add: projected_hyperedges_def)

section \<open>Element-major incidences\<close>

fun positions :: "('a \<Rightarrow> bool) \<Rightarrow> nat \<Rightarrow> 'a list \<Rightarrow> local_id list" where
  "positions P k [] = []"
| "positions P k (x # xs) = (if P x then [word_of_nat k] else []) @ positions P (k + 1) xs"

lemma positions_denotes: "length pre + length xs \<le> 2 ^ 32 \<Longrightarrow> denotes (pre @ xs) (positions P (length pre) xs) (filter P xs)"
proof (induction xs arbitrary: pre)
  case (Cons x xs)
  have "unat (word_of_nat (length pre) :: local_id) = length pre" using Cons.prems by (intro unat_word_of_nat) simp
  moreover have "denotes ((pre @ [x]) @ xs) (positions P (length (pre @ [x])) xs) (filter P xs)"
    by (rule Cons.IH) (use Cons.prems in simp)
  ultimately show ?case by (auto simp: denotes_def)
qed simp

lemma element_rows_loop_eq:
  assumes index: "interned index elements" and "length rows = length elements" and "\<forall>n \<in> set ns. ir_element n \<in> set elements"
    and "k + length ns \<le> 2 ^ 32"
  shows "element_rows_loop index k rows ns =
    Some (Ok (map (\<lambda>v. rows ! v @ positions (\<lambda>n. ir_element n = elements ! v) k ns) [0..<length elements]))"
  using assms(2-4)
proof (induction ns arbitrary: k rows)
  case Nil
  then have "map ((!) rows) [0..<length elements] = rows" using map_nth [of rows] by simp
  then show ?case by simp
next
  case (Cons n ns)
  from Cons.prems(2) interned_None [OF index] obtain i where i: "fmlookup index (ir_element n) = Some i" by fastforce
  then have v: "unat i < length elements" "elements ! unat i = ir_element n" by (simp_all add: interned_lookup [OF index])
  have "distinct elements" using index by (simp add: interned_def)
  then have same: "ir_element n = elements ! w \<longleftrightarrow> unat i = w" if "w < length elements" for w
    using that v by (metis nth_eq_iff_index_eq)
  let ?rows = "rows[unat i := rows ! unat i @ [word_of_nat k]]"
  have "element_rows_loop index k rows (n # ns) = element_rows_loop index (k + 1) ?rows ns"
    using Cons.prems i v by (simp add: projection_incidence_id_def from_usize_def)
  also have "\<dots> = Some (Ok (map (\<lambda>v. ?rows ! v @ positions (\<lambda>n. ir_element n = elements ! v) (k + 1) ns) [0..<length elements]))"
    by (rule Cons.IH) (use Cons.prems in simp_all)
  also have "\<dots> = Some (Ok (map (\<lambda>v. rows ! v @ positions (\<lambda>n. ir_element n = elements ! v) k (n # ns)) [0..<length elements]))"
    using v(1) Cons.prems(1) same by (auto simp: nth_list_update)
  finally show ?case .
qed

section \<open>Vertex-major arrays\<close>

lemma hb_add_vertex_fits:
  "hb_vertex_count b < 2 ^ 32 \<Longrightarrow>
     (hb_add_vertex b :: ((u32, 'r, 'i) hyper_build_error, u32) result \<times> u32 hypergraph_builder) =
      (Ok (word_of_nat (hb_vertex_count b)), b\<lparr>hb_vertex_count := Suc (hb_vertex_count b)\<rparr>)"
  by (simp add: hb_add_vertex_def from_usize_def checked_add_def usize_max_def)

lemma hb_add_hyperedge_fits:
  assumes "length (hb_hyperedges b) < 2 ^ 32" and "hb_vertex_count b \<le> 2 ^ 32" and "distinct s" and "distinct t"
    and "\<forall>i \<in> set s \<union> set t. unat i < hb_vertex_count b"
  shows "(hb_add_hyperedge b s t :: ((u32, u32, 'i) hyper_build_error, u32) result \<times> u32 hypergraph_builder) =
      (Ok (word_of_nat (length (hb_hyperedges b))), b\<lparr>hb_hyperedges := hb_hyperedges b @ [\<lparr>hr_sources = s, hr_targets = t\<rparr>]\<rparr>)"
proof -
  have "unat i \<le> usize_max" for i :: u32 using unat_bound [of i] by (simp add: usize_max_def)
  then have "check_hyperedge (hb_vertex_count b) (length (hb_hyperedges b)) s t =
      (Ok (word_of_nat (length (hb_hyperedges b))) :: ((u32, u32, 'i) hyper_build_error, u32) result)"
    using assms unat_word_of_nat [of "length (hb_hyperedges b)", where 'i = 32] by (simp add: check_hyperedge_Ok)
  then show ?thesis by (simp add: hb_add_hyperedge_def)
qed

lemma add_vertices_Ok:
  assumes "hyper_run TYPE(32) b es" and "hb_vertex_count b + k \<le> 2 ^ 32" and "vertices = map word_of_nat [0..<hb_vertex_count b]"
  shows "\<exists>b'. add_vertices k b vertices = Ok (b', map word_of_nat [0..<hb_vertex_count b + k]) \<and> hyper_run TYPE(32) b' es \<and>
    hb_vertex_count b' = hb_vertex_count b + k"
  using assms
proof (induction k arbitrary: b vertices)
  case (Suc k)
  let ?b = "b\<lparr>hb_vertex_count := Suc (hb_vertex_count b)\<rparr>"
  have fits: "hb_vertex_count b < 2 ^ 32" using Suc.prems(2) by simp
  have "hyper_run TYPE(32) ?b es" by (rule hyper_vertex [OF Suc.prems(1) hb_add_vertex_fits [OF fits]])
  from Suc.IH [OF this _ refl] Suc.prems(2,3) show ?case by (simp add: hb_add_vertex_fits [OF fits])
qed auto

definition deduplicated :: "local_id list \<times> local_id list \<Rightarrow> local_id list \<times> local_id list" where
  "deduplicated p = (fresh {} (fst p), fresh {} (snd p))"

lemma unique_vertices_eq:
  assumes "\<forall>i \<in> set is. unat i < n"
  shows "unique_vertices (map word_of_nat [0..<n]) is = Some (fresh {} is)"
proof -
  have "those (map (\<lambda>i. index_or_panic (map word_of_nat [0..<n]) (local_index i)) xs) = Some xs" if "\<forall>i \<in> set xs. unat i < n" for xs :: "u32 list"
    using that by (induction xs) auto
  then show ?thesis unfolding unique_vertices_def using assms by (simp add: set_fresh)
qed

lemma add_hyperedges_Ok:
  assumes "hyper_run TYPE(32) b es" and "hb_vertex_count b = n" and "n \<le> 2 ^ 32"
    and "\<forall>(s, t) \<in> set ps. (\<forall>i \<in> set s. unat i < n) \<and> (\<forall>i \<in> set t. unat i < n)" and "length es + length ps \<le> 2 ^ 32"
  shows "\<exists>b'. add_hyperedges (map word_of_nat [0..<n]) ps b = Some (Ok b') \<and> hyper_run TYPE(32) b' (es @ map deduplicated ps) \<and>
    hb_vertex_count b' = n"
  using assms
proof (induction ps arbitrary: b es)
  case (Cons p ps)
  obtain s t where p: "p = (s, t)" by (cases p)
  let ?b = "b\<lparr>hb_hyperedges := hb_hyperedges b @ [\<lparr>hr_sources = fresh {} s, hr_targets = fresh {} t\<rparr>]\<rparr>"
  have bounds: "\<forall>i \<in> set s. unat i < n" "\<forall>i \<in> set t. unat i < n" using Cons.prems(4) p by auto
  have len: "length (hb_hyperedges b) = length es" using hyper_run_inv [OF Cons.prems(1)] by simp
  have fits: "length (hb_hyperedges b) < 2 ^ 32" "hb_vertex_count b \<le> 2 ^ 32" "distinct (fresh {} s)" "distinct (fresh {} t)"
    "\<forall>i \<in> set (fresh {} s) \<union> set (fresh {} t). unat i < hb_vertex_count b"
    using Cons.prems(2,3,5) bounds len by (auto simp: set_fresh distinct_fresh)
  note step = hb_add_hyperedge_fits [OF fits]
  have "hyper_run TYPE(32) ?b (es @ [(fresh {} s, fresh {} t)])" by (rule hyper_edge [OF Cons.prems(1) step])
  from Cons.IH [OF this] Cons.prems(2-5) bounds p show ?case
    by (simp add: unique_vertices_eq deduplicated_def step)
qed auto

lemma collect_iter_yields: "yields next_item st xs \<Longrightarrow> collect_iter next_item st = Some xs"
  by (induction xs arbitrary: st) (subst collect_iter.simps, auto)+

lemma unique_sorted_eq: "unique_sorted xs = sorted_list_of_set (set xs)"
  by (simp add: unique_sorted_def sorted_list_of_fset.rep_eq fset_of_list.rep_eq)

text \<open>The hyperedges at a vertex of a strict view, and its neighbors.\<close>

lemma strict_rows:
  fixes g :: "(32, 32, 32) bcsr_view"
  assumes g: "strict_view g" and v: "unat v < bcsr_vertex_count g"
  shows "bcsr_outgoing_hyperedges g v = Some (map word_of_nat (filter (\<lambda>h. unat v \<in> set (heads_of g h)) [0..<bcsr_hyperedge_count g]))"
    and "bcsr_incoming_hyperedges g v = Some (map word_of_nat (filter (\<lambda>h. unat v \<in> set (tails_of g h)) [0..<bcsr_hyperedge_count g]))"
    and "\<exists>succs. Option.bind (bcsr_element_successors g v) (collect_iter neighbor_vertices_next) = Some succs \<and>
      set succs = {x. \<exists>h < bcsr_hyperedge_count g. unat v \<in> set (heads_of g h) \<and> unat x \<in> set (tails_of g h)}"
    and "\<exists>preds. Option.bind (bcsr_element_predecessors g v) (collect_iter neighbor_vertices_next) = Some preds \<and>
      set preds = {x. \<exists>h < bcsr_hyperedge_count g. unat v \<in> set (tails_of g h) \<and> unat x \<in> set (heads_of g h)}"
proof -
  have ok: "view_ok g (bcsr_vertex_count g) (bcsr_hyperedge_count g)" using g by (simp add: strict_view_def)
  note acc = vertex_access [OF ok v] and d = view_ok_directions [OF ok]
  have row: "map word_of_nat xs = ys" if "sorted_wrt (<) (map unat ys)" "sorted_wrt (<) xs" "set xs = unat ` set ys"
    for xs and ys :: "u32 list"
  proof -
    have "xs = map unat ys" by (rule sorted_distinct_set_unique) (use that in \<open>auto simp: strict_sorted_iff\<close>)
    then show ?thesis by (simp add: comp_def)
  qed
  have below: "sorted_wrt (<) (filter P [0..<k])" for P and k :: nat by (simp add: sorted_wrt_filter)
  show "bcsr_outgoing_hyperedges g v = Some (map word_of_nat (filter (\<lambda>h. unat v \<in> set (heads_of g h)) [0..<bcsr_hyperedge_count g]))"
    unfolding acc(1) option.inject
  proof (rule row [symmetric, OF _ below])
    show "sorted_wrt (<) (map unat (bucket (vertex_outgoing_offsets (bh_sections g)) (vertex_outgoing_hyperedges (bh_sections g)) (unat v)))"
      using d(3) v by (simp add: direction_ok_def bucket_ids_def)
  qed (use outgoing_side.incident_iff [OF g v] in \<open>auto simp: outgoing_of_def bucket_ids_def\<close>)
  show "bcsr_incoming_hyperedges g v = Some (map word_of_nat (filter (\<lambda>h. unat v \<in> set (tails_of g h)) [0..<bcsr_hyperedge_count g]))"
    unfolding acc(2) option.inject
  proof (rule row [symmetric, OF _ below])
    show "sorted_wrt (<) (map unat (bucket (vertex_incoming_offsets (bh_sections g)) (vertex_incoming_hyperedges (bh_sections g)) (unat v)))"
      using d(4) v by (simp add: direction_ok_def bucket_ids_def)
  qed (use incoming_side.incident_iff [OF g v] in \<open>auto simp: incoming_of_def bucket_ids_def\<close>)
  show "\<exists>succs. Option.bind (bcsr_element_successors g v) (collect_iter neighbor_vertices_next) = Some succs \<and>
      set succs = {x. \<exists>h < bcsr_hyperedge_count g. unat v \<in> set (heads_of g h) \<and> unat x \<in> set (tails_of g h)}"
  proof -
    obtain it succs where it: "bcsr_element_successors g v = Some it" "yields neighbor_vertices_next it succs"
      "\<forall>x. x \<in> set succs \<longleftrightarrow> (\<exists>h < bcsr_hyperedge_count g. unat v \<in> set (heads_of g h) \<and> unat x \<in> set (tails_of g h))"
      using successors_meaning [OF g v] by blast
    then show ?thesis using collect_iter_yields [OF it(2)] by (intro exI [of _ succs]) (simp add: set_eq_iff)
  qed
  show "\<exists>preds. Option.bind (bcsr_element_predecessors g v) (collect_iter neighbor_vertices_next) = Some preds \<and>
      set preds = {x. \<exists>h < bcsr_hyperedge_count g. unat v \<in> set (tails_of g h) \<and> unat x \<in> set (heads_of g h)}"
  proof -
    obtain it preds where it: "bcsr_element_predecessors g v = Some it" "yields neighbor_vertices_next it preds"
      "\<forall>x. x \<in> set preds \<longleftrightarrow> (\<exists>h < bcsr_hyperedge_count g. unat v \<in> set (tails_of g h) \<and> unat x \<in> set (heads_of g h))"
      using predecessors_meaning [OF g v] by blast
    then show ?thesis using collect_iter_yields [OF it(2)] by (intro exI [of _ preds]) (simp add: set_eq_iff)
  qed
qed

lemma vertex_rows_loop_eq:
  assumes "g = fht_as_view (fh_topology frozen)"
    and "\<And>v. v \<in> set vs \<Longrightarrow> bcsr_outgoing_hyperedges g v = Some (out v) \<and> bcsr_incoming_hyperedges g v = Some (inn v)"
    and "\<And>v. v \<in> set vs \<Longrightarrow> \<exists>xs. Option.bind (bcsr_element_successors g v) (collect_iter neighbor_vertices_next) = Some xs \<and> set xs = after v"
    and "\<And>v. v \<in> set vs \<Longrightarrow> \<exists>xs. Option.bind (bcsr_element_predecessors g v) (collect_iter neighbor_vertices_next) = Some xs \<and> set xs = before v"
  shows "vertex_rows_loop frozen vs os is ss ps =
    Some (os @ map out vs, is @ map inn vs, ss @ map (\<lambda>v. sorted_list_of_set (after v)) vs, ps @ map (\<lambda>v. sorted_list_of_set (before v)) vs)"
  using assms(2-4)
proof (induction vs arbitrary: os "is" ss ps)
  case (Cons v vs)
  from Cons.prems(1) [of v] have rows: "bcsr_outgoing_hyperedges g v = Some (out v)" "bcsr_incoming_hyperedges g v = Some (inn v)"
    by simp_all
  from Cons.prems(2) [of v] Cons.prems(3) [of v] obtain xs ys one two where
    lists: "bcsr_element_successors g v = Some one" "collect_iter neighbor_vertices_next one = Some xs" "set xs = after v"
      "bcsr_element_predecessors g v = Some two" "collect_iter neighbor_vertices_next two = Some ys" "set ys = before v"
    by (auto simp: bind_eq_Some_conv)
  have "vertex_rows_loop frozen (v # vs) os is ss ps =
      vertex_rows_loop frozen vs (os @ [out v]) (is @ [inn v]) (ss @ [sorted_list_of_set (after v)]) (ps @ [sorted_list_of_set (before v)])"
    by (simp add: assms(1) [symmetric] Let_def rows lists unique_sorted_eq)
  then show ?case using Cons by simp
qed simp

text \<open>The view of a built topology: its head and tail lists are the participants of its records.\<close>

lemma built_view:
  fixes t :: "(u32, u32, u32) frozen_hyper_topology"
  assumes ok: "records_ok n records" and small: "records_small n records TYPE(32)" and t: "built_from n records t"
  shows "strict_view (fht_as_view t)" and "bcsr_vertex_count (fht_as_view t) = n"
    and "bcsr_hyperedge_count (fht_as_view t) = length records"
    and "h < length records \<Longrightarrow> heads_of (fht_as_view t) h = map unat (map fst (nr_sources (records ! h)))"
    and "h < length records \<Longrightarrow> tails_of (fht_as_view t) h = map unat (map fst (nr_targets (records ! h)))"
proof -
  note b = built_strict [OF assms]
  show count: "bcsr_vertex_count (fht_as_view t) = n" "bcsr_hyperedge_count (fht_as_view t) = length records"
    by (simp_all add: b(4) bcsr_vertex_count_def bcsr_hyperedge_count_def bcsr_counts_def)
  have view: "view_ok (fht_as_view t) n (length records)" using b(1) by (simp add: view_ok_def b(4))
  then show "strict_view (fht_as_view t)" unfolding strict_view_def count using b(2) by (simp add: b(4))
  assume h: "h < length records"
  then have h': "unat (word_of_nat h :: u32) = h" using small by (intro unat_word_of_nat) (simp add: records_small_def)
  have below: "unat (word_of_nat h :: u32) < length records" using h by (simp only: h')
  note same = hyperedge_access [OF view below] built_participants [OF assms below]
  show "heads_of (fht_as_view t) h = map unat (map fst (nr_sources (records ! h)))"
    "tails_of (fht_as_view t) h = map unat (map fst (nr_targets (records ! h)))"
    using same by (simp_all add: h' heads_of_def tails_of_def bucket_ids_def)
qed

text \<open>The rows at an item, and what the rows join it to.\<close>

definition rows_at :: "'a list list \<Rightarrow> 'a \<Rightarrow> nat list" where
  "rows_at xss x = filter (\<lambda>h. x \<in> set (xss ! h)) [0..<length xss]"

definition joined_by :: "'a list list \<Rightarrow> 'a list list \<Rightarrow> 'a \<Rightarrow> 'a set" where
  "joined_by ss ts x = {y. \<exists>h < length ss. x \<in> set (ss ! h) \<and> y \<in> set (ts ! h)}"

lemma length_fresh: "length (fresh V xs) \<le> length xs"
  by (induction xs arbitrary: V) (auto intro: le_SucI)

lemma length_concat_fresh: "length (concat (map (fresh {}) xss)) \<le> length (concat xss)"
  by (induction xss) (auto intro!: add_mono length_fresh)

lemma build_directed_vertex_arrays_result:
  assumes n: "n \<le> 2 ^ 32" and same: "length ss = length ts" "length ss \<le> 2 ^ 32"
    and bounds: "\<forall>xs \<in> set ss \<union> set ts. \<forall>i \<in> set xs. unat i < n"
    and few: "length (concat ss) \<le> 2 ^ 32" "length (concat ts) \<le> 2 ^ 32"
  defines "vs \<equiv> map word_of_nat [0..<n]"
  shows "build_directed_vertex_arrays n ss ts =
    (if length (concat (map (fresh {}) ss)) < 2 ^ 32 \<and> length (concat (map (fresh {}) ts)) < 2 ^ 32
     then Some (Ok (map (\<lambda>v. map word_of_nat (rows_at ss v)) vs, map (\<lambda>v. map word_of_nat (rows_at ts v)) vs,
       map (\<lambda>v. sorted_list_of_set (joined_by ss ts v)) vs, map (\<lambda>v. sorted_list_of_set (joined_by ts ss v)) vs))
     else Some (Err (id_overflow IncidenceIds)))"
proof -
  let ?edges = "map deduplicated (zip ss ts)"
  from add_vertices_Ok [OF hyper_new, of n "[]"] n obtain b1 where
    b1: "add_vertices n hypergraph_builder_new [] = Ok (b1, vs)" "hyper_run TYPE(32) b1 []" "hb_vertex_count b1 = n"
    by (auto simp: hypergraph_builder_new_def vs_def)
  have pairs: "\<forall>(s, t) \<in> set (zip ss ts). (\<forall>i \<in> set s. unat i < n) \<and> (\<forall>i \<in> set t. unat i < n)"
    using bounds by (fastforce dest: set_zip_leftD set_zip_rightD)
  from add_hyperedges_Ok [OF b1(2,3) n pairs] same obtain b2 where
    b2: "add_hyperedges vs (zip ss ts) b1 = Some (Ok b2)" "hyper_run TYPE(32) b2 ?edges" "hb_vertex_count b2 = n"
    by (auto simp: vs_def)
  have sides: "map fst ?edges = map (fresh {}) ss" "map snd ?edges = map (fresh {}) ts"
    using same by (simp_all add: deduplicated_def comp_def map_fst_zip map_snd_zip
      flip: map_map [of "fresh {}" fst, unfolded comp_def] map_map [of "fresh {}" snd, unfolded comp_def])
  have small: "hb_vertex_count b2 < usize_max" "length ?edges < usize_max"
    "length (concat (map fst ?edges)) + length (concat (map snd ?edges)) < usize_max"
    using n same few length_concat_fresh [of ss] length_concat_fresh [of ts] b2(3)
    unfolding sides by (simp_all add: usize_max_def)
  note freeze = hyper_freeze_cases(4,5) [OF b2(2) small, where 'i = 32, unfolded sides]
    and records = hyper_freeze_cases(1-3) [OF b2(2) small] and u = unit_records(6,7) [OF b2(2)]
  show ?thesis
  proof (cases "length (concat (map (fresh {}) ss)) < 2 ^ 32 \<and> length (concat (map (fresh {}) ts)) < 2 ^ 32")
    case True
    with freeze(1) obtain t :: "(u32, u32, u32) frozen_hyper_topology" where
      t: "built_from n (hb_normalized_hyperedges b2) t" "hb_freeze b2 = Some (Ok \<lparr>fh_topology = t\<rparr>)" by (auto simp: b2(3))
    note view = built_view [OF records(1,2) [unfolded b2(3)] t(1)]
    have count: "bcsr_hyperedge_count (fht_as_view t) = length ss" using view(3) records(3) same by simp
    have sides': "set (heads_of (fht_as_view t) h) = unat ` set (ss ! h)" "set (tails_of (fht_as_view t) h) = unat ` set (ts ! h)"
      if "h < length ss" for h
      using that view(4,5) [of h] records(3) same u [of h] by (simp_all add: deduplicated_def set_fresh)
    have members: "unat (x :: u32) \<in> unat ` X \<longleftrightarrow> x \<in> X" for x X by (rule unat_mem_iff)
    have heads: "unat v \<in> set (heads_of (fht_as_view t) h) \<longleftrightarrow> v \<in> set (ss ! h)"
      "unat v \<in> set (tails_of (fht_as_view t) h) \<longleftrightarrow> v \<in> set (ts ! h)" if "h < length ss" for v :: u32 and h
      by (simp_all only: sides' [OF that] members)
    have rows: "filter (\<lambda>h. unat v \<in> set (heads_of (fht_as_view t) h)) [0..<length ss] = rows_at ss v"
      "filter (\<lambda>h. unat v \<in> set (tails_of (fht_as_view t) h)) [0..<length ss] = rows_at ts v" for v :: u32
      unfolding rows_at_def by (rule filter_cong; simp add: heads same)+
    have sets: "{x. \<exists>h < length ss. unat v \<in> set (heads_of (fht_as_view t) h) \<and> unat (x :: u32) \<in> set (tails_of (fht_as_view t) h)} = joined_by ss ts v"
      "{x. \<exists>h < length ss. unat v \<in> set (tails_of (fht_as_view t) h) \<and> unat (x :: u32) \<in> set (heads_of (fht_as_view t) h)} = joined_by ts ss v" for v :: u32
      unfolding joined_by_def using heads same by auto
    have below: "unat v < bcsr_vertex_count (fht_as_view t)" if "v \<in> set vs" for v
    proof -
      from that obtain k where "v = word_of_nat k" "k < n" by (auto simp: vs_def)
      then show ?thesis using n unat_word_of_nat [of k, where 'i = 32] by (simp add: view(2))
    qed
    have "vertex_rows_loop \<lparr>fh_topology = t\<rparr> vs [] [] [] [] =
      Some ([] @ map (\<lambda>v. map word_of_nat (rows_at ss v)) vs, [] @ map (\<lambda>v. map word_of_nat (rows_at ts v)) vs,
        [] @ map (\<lambda>v. sorted_list_of_set (joined_by ss ts v)) vs, [] @ map (\<lambda>v. sorted_list_of_set (joined_by ts ss v)) vs)"
      by (rule vertex_rows_loop_eq [of "fht_as_view t"])
        (simp_all add: strict_rows [OF view(1) below, unfolded count rows sets])
    then show ?thesis using True by (simp add: build_directed_vertex_arrays_def b1(1) b2(1) t(2) or_err_def)
  next
    case False
    with freeze(2) obtain w where
      "(hb_freeze b2 :: ((u32, u32, u32) hyper_build_error, (u32, u32, u32) frozen_hypergraph) run) = Some (Err (HyperIdOverflow w))" by auto
    with False show ?thesis by (auto simp: build_directed_vertex_arrays_def b1(1) b2(1) or_err_def)
  qed
qed

section \<open>Finishing the builder\<close>

definition hpr_ok :: "(relation_id \<times> incidence_record list) list \<Rightarrow> hypergraph_projection \<Rightarrow> bool" where
  "hpr_ok hs g \<longleftrightarrow>
     interned (hpr_element_index g) (hpr_elements g) \<and> interned (hpr_relation_index g) (hpr_relations g) \<and>
     interned (hpr_incidence_index g) (map ir_id (hpr_incidences g)) \<and>
     hpr_relations g = map fst hs \<and> hpr_incidences g = concat (map snd hs) \<and>
     set (hpr_elements g) = ir_element ` set (hpr_incidences g) \<and>
     (\<forall>p \<in> set hs. two_sided (hpr_definition g) (snd p)) \<and>
     list_all2 (denotes (hpr_incidences g)) (hpr_relation_incidences g) (map snd hs) \<and>
     list_all2 (denotes (hpr_incidences g)) (hpr_source_incidences g) (map (source_part (hpr_definition g) \<circ> snd) hs) \<and>
     list_all2 (denotes (hpr_incidences g)) (hpr_target_incidences g) (map (target_part (hpr_definition g) \<circ> snd) hs) \<and>
     list_all2 (denotes (hpr_elements g)) (hpr_source_vertices g) (map (map ir_element \<circ> source_part (hpr_definition g) \<circ> snd) hs) \<and>
     list_all2 (denotes (hpr_elements g)) (hpr_target_vertices g) (map (map ir_element \<circ> target_part (hpr_definition g) \<circ> snd) hs) \<and>
     hpr_element_incidences g = map (\<lambda>v. positions (\<lambda>n. ir_element n = hpr_elements g ! v) 0 (hpr_incidences g)) [0..<length (hpr_elements g)] \<and>
     hpr_outgoing_hyperedges g = map (\<lambda>v. map word_of_nat (rows_at (hpr_source_vertices g) (word_of_nat v))) [0..<length (hpr_elements g)] \<and>
     hpr_incoming_hyperedges g = map (\<lambda>v. map word_of_nat (rows_at (hpr_target_vertices g) (word_of_nat v))) [0..<length (hpr_elements g)] \<and>
     hpr_successors g = map (\<lambda>v. sorted_list_of_set (joined_by (hpr_source_vertices g) (hpr_target_vertices g) (word_of_nat v))) [0..<length (hpr_elements g)] \<and>
     hpr_predecessors g = map (\<lambda>v. sorted_list_of_set (joined_by (hpr_target_vertices g) (hpr_source_vertices g) (word_of_nat v))) [0..<length (hpr_elements g)]"

lemma rows_bounded: "list_all2 (denotes pool) rows xss \<Longrightarrow> xs \<in> set rows \<Longrightarrow> i \<in> set xs \<Longrightarrow> unat i < length pool"
  by (induction rows xss rule: list_all2_induct) (auto simp: denotes_def)

lemma rows_shorter:
  assumes "list_all2 (denotes pool) rows (map (f \<circ> snd) hs)" and "\<And>ns. length (f ns) \<le> length ns"
  shows "length (concat rows) \<le> length (concat (map snd hs))" and "length rows = length hs"
proof -
  show "length rows = length hs" using list_all2_lengthD [OF assms(1)] by simp
  show "length (concat rows) \<le> length (concat (map snd hs))"
    using assms(1)
  proof (induction hs arbitrary: rows)
    case (Cons h hs)
    then obtain row rows' where rows: "rows = row # rows'" "denotes pool row (f (snd h))" "list_all2 (denotes pool) rows' (map (f \<circ> snd) hs)"
      by (auto simp: list_all2_Cons2 comp_def)
    have "length row = length (f (snd h))" using rows(2) unfolding denotes_def by (metis length_map)
    then have "length row \<le> length (snd h)" using assms(2) [of "snd h"] by simp
    with Cons.IH [OF rows(3)] rows(1) show ?case by simp
  qed simp
qed

lemma hpb_finish_result:
  assumes ok: "hpb_ok hs b"
  shows "case hpb_finish b of
      None \<Rightarrow> False
    | Some (Inl e) \<Rightarrow> e = id_overflow IncidenceIds \<and> 2 ^ 32 \<le> length (concat (map snd hs))
    | Some (Inr g) \<Rightarrow> hpr_ok hs g \<and> hpr_definition g = hpb_definition b"
proof -
  let ?n = "length (hpb_elements b)" and ?ss = "hpb_source_vertices b" and ?ts = "hpb_target_vertices b" and ?ms = "concat (map snd hs)"
  note old = ok [unfolded hpb_ok_def hpb_core_def]
  have index: "interned (hpb_element_index b) (hpb_elements b)" "interned (hpb_incidence_index b) (map ir_id ?ms)"
    "interned (hpb_relation_index b) (map fst hs)" and ms: "hpb_incidences b = ?ms"
    and elements: "set (hpb_elements b) = ir_element ` set ?ms"
    and rows: "list_all2 (denotes (hpb_elements b)) ?ss (map (map ir_element \<circ> source_part (hpb_definition b) \<circ> snd) hs)"
      "list_all2 (denotes (hpb_elements b)) ?ts (map (map ir_element \<circ> target_part (hpb_definition b) \<circ> snd) hs)"
    using old by blast+
  have fits: "?n \<le> 2 ^ 32" "length ?ms \<le> 2 ^ 32" "length hs \<le> 2 ^ 32"
    using index by (simp_all add: interned_def local_fits_def)
  have part: "length ((map ir_element \<circ> source_part (hpb_definition b)) ns) \<le> length ns"
    "length ((map ir_element \<circ> target_part (hpb_definition b)) ns) \<le> length ns" for ns
    by (simp_all add: source_part_def target_part_def)
  note short = rows_shorter [OF rows(1) [folded comp_assoc] part(1)] rows_shorter [OF rows(2) [folded comp_assoc] part(2)]
  have bounds: "\<forall>xs \<in> set ?ss \<union> set ?ts. \<forall>i \<in> set xs. unat i < ?n"
    using rows_bounded [OF rows(1)] rows_bounded [OF rows(2)] by blast
  have arrays: "build_directed_vertex_arrays ?n ?ss ?ts =
    (if length (concat (map (fresh {}) ?ss)) < 2 ^ 32 \<and> length (concat (map (fresh {}) ?ts)) < 2 ^ 32
     then Some (Ok (map (\<lambda>v. map word_of_nat (rows_at ?ss (word_of_nat v))) [0..<?n], map (\<lambda>v. map word_of_nat (rows_at ?ts (word_of_nat v))) [0..<?n],
       map (\<lambda>v. sorted_list_of_set (joined_by ?ss ?ts (word_of_nat v))) [0..<?n], map (\<lambda>v. sorted_list_of_set (joined_by ?ts ?ss (word_of_nat v))) [0..<?n]))
     else Some (Err (id_overflow IncidenceIds)))"
    using build_directed_vertex_arrays_result [OF fits(1) _ _ bounds] short fits by (simp add: comp_def)
  have incidences: "build_element_incidences ?n ?ms (hpb_element_index b) =
      Some (Ok (map (\<lambda>v. positions (\<lambda>n. ir_element n = hpb_elements b ! v) 0 ?ms) [0..<?n]))"
    using element_rows_loop_eq [OF index(1), of "replicate ?n []" ?ms 0] fits elements
    by (simp add: build_element_incidences_def cong: map_cong)
  show ?thesis
  proof (cases "length (concat (map (fresh {}) ?ss)) < 2 ^ 32 \<and> length (concat (map (fresh {}) ?ts)) < 2 ^ 32")
    case True
    let ?g = "\<lparr>hpr_definition = hpb_definition b, hpr_elements = hpb_elements b, hpr_element_index = hpb_element_index b,
        hpr_relations = hpb_relations b, hpr_relation_index = hpb_relation_index b, hpr_incidences = ?ms,
        hpr_incidence_index = hpb_incidence_index b, hpr_relation_incidences = hpb_relation_incidences b,
        hpr_element_incidences = map (\<lambda>v. positions (\<lambda>n. ir_element n = hpb_elements b ! v) 0 ?ms) [0..<?n],
        hpr_source_incidences = hpb_source_incidences b, hpr_target_incidences = hpb_target_incidences b,
        hpr_source_vertices = ?ss, hpr_target_vertices = ?ts,
        hpr_outgoing_hyperedges = map (\<lambda>v. map word_of_nat (rows_at ?ss (word_of_nat v))) [0..<?n],
        hpr_incoming_hyperedges = map (\<lambda>v. map word_of_nat (rows_at ?ts (word_of_nat v))) [0..<?n],
        hpr_successors = map (\<lambda>v. sorted_list_of_set (joined_by ?ss ?ts (word_of_nat v))) [0..<?n],
        hpr_predecessors = map (\<lambda>v. sorted_list_of_set (joined_by ?ts ?ss (word_of_nat v))) [0..<?n]\<rparr>"
    from True have "hpb_finish b = Some (Ok ?g)" by (simp add: hpb_finish_def incidences arrays ms)
    moreover have "hpr_ok hs ?g" using old unfolding hpr_ok_def by (elim conjE) simp
    ultimately show ?thesis by simp
  next
    case False
    then show ?thesis
      using short fits length_concat_fresh [of ?ss] length_concat_fresh [of ?ts]
      by (auto simp: hpb_finish_def incidences arrays ms)
  qed
qed

lemma hypergraph_projection_result:
  fixes d :: hypergraph_projection_definition
  assumes "layered_ok (base, ov)"
  defines "hs \<equiv> projected_hyperedges (st_relation_incidences base ov) d (st_relations base ov)"
  shows "case hypergraph_projection_from_state base ov d of
      None \<Rightarrow> False
    | Some (Inr g) \<Rightarrow> hpr_definition g = d \<and> hpr_ok hs g
    | Some (Inl e) \<Rightarrow>
        (\<exists>m. e = invalid_projection m) \<and>
          (hp_source_roles d = {||} \<or> hp_target_roles d = {||} \<or> (\<exists>p \<in> set hs. \<not> two_sided d (snd p))) \<or>
        e \<in> {id_overflow ElementIds, id_overflow IncidenceIds} \<and> 2 ^ 32 \<le> length (concat (map snd hs))"
proof -
  let ?inc = "st_relation_incidences base ov" and ?rs = "st_relations base ov"
  have d: "hpb_definition (hpb_new d) = d" by (simp add: hpb_new_def)
  have "sorted_wrt (<) (map rr_id ?rs)" using layered_view.relations_ascend [OF assms(1)] by simp
  then have distinct: "distinct (map rr_id ?rs)" by (simp add: strict_sorted_iff)
  have at: "n \<in> set (?inc r) \<longleftrightarrow> incidence_ref base ov (ir_id n) = Some n \<and> ir_relation n = r" for n r
    using layered_index.in_at_relation [OF assms(1)] by simp
  have each: "distinct (map ir_id (?inc r))" for r
    using layered_index.lookups_ascend(4) [OF assms(1), of r] by (simp add: strict_sorted_iff)
  have ids: "distinct (map ir_id (concat (map snd (projected_hyperedges ?inc d rs))))" if "distinct (map rr_id rs)" for rs
    using that
  proof (induction rs)
    case (Cons r rs)
    have "n \<notin> ir_id ` set (concat (map snd (projected_hyperedges ?inc d rs)))" if "n \<in> ir_id ` set (?inc (rr_id r))" for n
      using that Cons.prems by (auto simp: projected_hyperedges_def at image_iff)
    with Cons each [of "rr_id r"] show ?case by (auto simp: projected_hyperedges_def)
  qed (simp add: projected_hyperedges_def)
  note pushed = push_selected_hyperedges_result [OF hpb_ok_new [of d] distinct, of ?inc, unfolded d, folded hs_def]
  have pre: "fst ` set [] \<inter> rr_id ` set ?rs = {}" "distinct (map ir_id (concat (map snd ([] @ hs))))"
    using ids [OF distinct] by (simp_all add: hs_def)
  show ?thesis
  proof (cases "hp_source_roles d = {||} \<or> hp_target_roles d = {||}")
    case True
    then show ?thesis by (auto simp: hypergraph_projection_from_state_def)
  next
    case roles: False
    show ?thesis
    proof (cases "push_selected_hyperedges ?inc ?rs (hpb_new d)")
      case (Inl e)
      with pushed(2) [OF _ _ Inl] pre roles show ?thesis by (auto simp: hypergraph_projection_from_state_def)
    next
      case (Inr b)
      with pushed(1) [OF _ _ Inr] pre have b: "hpb_ok hs b" "hpb_definition b = d" by auto
      from hpb_finish_result [OF b(1)] Inr roles b(2) show ?thesis
        by (auto simp: hypergraph_projection_from_state_def split: option.splits sum.splits)
    qed
  qed
qed

section \<open>The accessors of a projection\<close>

text \<open>A row of local identifiers read back through a naming.\<close>

definition reads :: "(local_id \<Rightarrow> 'c option) \<Rightarrow> local_id list option \<Rightarrow> 'c list \<Rightarrow> bool" where
  "reads name row xs \<longleftrightarrow> map_option (map name) row = Some (map Some xs)"

lemma readsI: "row = Some is \<Longrightarrow> denotes pool is xs \<Longrightarrow> (\<And>i. unat i < length pool \<Longrightarrow> name i = Some (f (pool ! unat i))) \<Longrightarrow>
    ys = map f xs \<Longrightarrow> reads name row ys"
  by (auto simp: reads_def denotes_def)

lemma row_reads:
  assumes "list_all2 (denotes pool) rows (map g hs)" and "unat k < length hs"
    and "\<And>i. unat i < length pool \<Longrightarrow> name i = Some (f (pool ! unat i))"
  shows "reads name (index_or_panic rows (unat k)) (map f (g (hs ! unat k)))"
proof -
  have "unat k < length rows" using list_all2_lengthD [OF assms(1)] assms(2) by simp
  moreover have "denotes pool (rows ! unat k) (g (hs ! unat k))"
    using list_all2_nthD2 [OF assms(1), of "unat k"] assms(2) by simp
  ultimately show ?thesis by (intro readsI [of _ "rows ! unat k" pool _ name f] assms(3)) simp_all
qed

lemma hpr_okD:
  assumes "hpr_ok hs g"
  shows "interned (hpr_element_index g) (hpr_elements g)" and "interned (hpr_relation_index g) (map fst hs)"
    and "interned (hpr_incidence_index g) (map ir_id (hpr_incidences g))"
    and "hpr_relations g = map fst hs" and "hpr_incidences g = concat (map snd hs)"
    and "set (hpr_elements g) = ir_element ` set (hpr_incidences g)" and "distinct (hpr_elements g)"
    and "length (hpr_elements g) \<le> 2 ^ 32" and "length hs \<le> 2 ^ 32" and "length (hpr_incidences g) \<le> 2 ^ 32"
    and "length (hpr_source_vertices g) = length hs" and "length (hpr_target_vertices g) = length hs"
proof -
  note facts = assms [unfolded hpr_ok_def]
  show index: "interned (hpr_element_index g) (hpr_elements g)" "interned (hpr_incidence_index g) (map ir_id (hpr_incidences g))"
    and relations: "hpr_relations g = map fst hs"
    and "hpr_incidences g = concat (map snd hs)" "set (hpr_elements g) = ir_element ` set (hpr_incidences g)"
    using facts by blast+
  show third: "interned (hpr_relation_index g) (map fst hs)" using facts relations by metis
  show "distinct (hpr_elements g)" "length (hpr_elements g) \<le> 2 ^ 32" "length hs \<le> 2 ^ 32" "length (hpr_incidences g) \<le> 2 ^ 32"
    using index third by (simp_all add: interned_def local_fits_def)
  have "list_all2 (denotes (hpr_elements g)) (hpr_source_vertices g) (map (map ir_element \<circ> source_part (hpr_definition g) \<circ> snd) hs)"
    "list_all2 (denotes (hpr_elements g)) (hpr_target_vertices g) (map (map ir_element \<circ> target_part (hpr_definition g) \<circ> snd) hs)"
    using facts by blast+
  from this [THEN list_all2_lengthD] show "length (hpr_source_vertices g) = length hs" "length (hpr_target_vertices g) = length hs"
    by simp_all
qed

text \<open>The names of contained identifiers.\<close>

lemma hyp_names:
  assumes "hpr_ok hs g"
  shows "unat i < length (hpr_elements g) \<Longrightarrow> hyp_canonical_element_id g i = Some (hpr_elements g ! unat i)"
    and "unat i < length hs \<Longrightarrow> hyp_canonical_relation_id g i = Some (fst (hs ! unat i))"
    and "unat i < length (hpr_incidences g) \<Longrightarrow> hyp_canonical_incidence_id g i = Some (ir_id (hpr_incidences g ! unat i))"
    and "unat i < length (hpr_incidences g) \<Longrightarrow> hyp_incidence_role g i = Some (ir_role (hpr_incidences g ! unat i))"
    and "unat i < length (hpr_incidences g) \<Longrightarrow> \<exists>v. hyp_incidence_element g i = Some v \<and>
      hyp_canonical_element_id g v = Some (ir_element (hpr_incidences g ! unat i))"
proof -
  note facts = hpr_okD [OF assms]
  show name: "unat i < length (hpr_elements g) \<Longrightarrow> hyp_canonical_element_id g i = Some (hpr_elements g ! unat i)" for i
    by (simp add: hyp_canonical_element_id_def)
  show "unat i < length hs \<Longrightarrow> hyp_canonical_relation_id g i = Some (fst (hs ! unat i))"
    "unat i < length (hpr_incidences g) \<Longrightarrow> hyp_canonical_incidence_id g i = Some (ir_id (hpr_incidences g ! unat i))"
    "unat i < length (hpr_incidences g) \<Longrightarrow> hyp_incidence_role g i = Some (ir_role (hpr_incidences g ! unat i))"
    by (simp_all add: hyp_canonical_relation_id_def hyp_canonical_incidence_id_def hyp_incidence_role_def facts(4))
  assume i: "unat i < length (hpr_incidences g)"
  then have "ir_element (hpr_incidences g ! unat i) \<in> set (hpr_elements g)" by (simp add: facts(6))
  then obtain v where v: "fmlookup (hpr_element_index g) (ir_element (hpr_incidences g ! unat i)) = Some v"
    using interned_None [OF facts(1)] by fastforce
  then show "\<exists>v. hyp_incidence_element g i = Some v \<and> hyp_canonical_element_id g v = Some (ir_element (hpr_incidences g ! unat i))"
    using i by (auto simp: hyp_incidence_element_def name interned_lookup [OF facts(1)])
qed

text \<open>The mapping iterators.\<close>

lemma hyp_participants_yield: "yields (hyp_participants_next g) is xs \<longleftrightarrow> map (hyp_incidence_element g) is = map Some xs"
  by (induction xs arbitrary: "is"; case_tac "is") auto

lemma hyp_incident_yield: "yields (hyp_incident_next g) is xs \<longleftrightarrow> map (hyp_incidence_relation g) is = map Some xs"
  by (induction xs arbitrary: "is"; case_tac "is") auto

lemma picks_all:
  assumes "\<And>i. i \<in> set is \<Longrightarrow> \<exists>v. f i = Some v \<and> name v = Some (g i)"
  shows "\<exists>xs. map f is = map Some xs \<and> map name xs = map Some (map g is)"
  using assms
proof (induction "is")
  case (Cons i "is")
  then obtain xs where "map f is = map Some xs" "map name xs = map Some (map g is)" by auto
  moreover obtain v where "f i = Some v" "name v = Some (g i)" using Cons.prems [of i] by auto
  ultimately show ?case by (intro exI [of _ "v # xs"]) simp
qed simp

text \<open>What a projected relation lists.\<close>

lemma hyp_relation_rows:
  assumes ok: "hpr_ok hs g" and k: "unat k < length hs"
  defines "d \<equiv> hpr_definition g" and "ns \<equiv> snd (hs ! unat k)"
  shows "reads (hyp_canonical_incidence_id g) (hyp_relation_incidences g k) (map ir_id ns)"
    and "reads (hyp_canonical_incidence_id g) (hyp_source_incidences g k) (map ir_id (source_part d ns))"
    and "reads (hyp_canonical_incidence_id g) (hyp_target_incidences g k) (map ir_id (target_part d ns))"
    and "reads (hyp_canonical_element_id g) (hyp_source_participants g k) (map ir_element (source_part d ns))"
    and "reads (hyp_canonical_element_id g) (hyp_target_participants g k) (map ir_element (target_part d ns))"
    and "\<exists>st xs. hyp_hyperedge_participants g k = Some st \<and> yields (hyp_participants_next g) st xs \<and>
      map (hyp_canonical_element_id g) xs = map Some (map ir_element ns)"
    and "hyp_relation_incidence_count g k = Some (length ns)"
proof -
  note names = hyp_names [OF ok]
  have rows: "list_all2 (denotes (hpr_incidences g)) (hpr_relation_incidences g) (map snd hs)"
    "list_all2 (denotes (hpr_incidences g)) (hpr_source_incidences g) (map (source_part d \<circ> snd) hs)"
    "list_all2 (denotes (hpr_incidences g)) (hpr_target_incidences g) (map (target_part d \<circ> snd) hs)"
    "list_all2 (denotes (hpr_elements g)) (hpr_source_vertices g) (map (map ir_element \<circ> source_part d \<circ> snd) hs)"
    "list_all2 (denotes (hpr_elements g)) (hpr_target_vertices g) (map (map ir_element \<circ> target_part d \<circ> snd) hs)"
    using ok unfolding hpr_ok_def d_def by blast+
  show "reads (hyp_canonical_incidence_id g) (hyp_relation_incidences g k) (map ir_id ns)"
    "reads (hyp_canonical_incidence_id g) (hyp_source_incidences g k) (map ir_id (source_part d ns))"
    "reads (hyp_canonical_incidence_id g) (hyp_target_incidences g k) (map ir_id (target_part d ns))"
    using rows(1-3) [THEN row_reads [where name = "hyp_canonical_incidence_id g" and f = ir_id], OF k names(3)]
    by (simp_all add: hyp_relation_incidences_def hyp_source_incidences_def hyp_target_incidences_def ns_def)
  show "reads (hyp_canonical_element_id g) (hyp_source_participants g k) (map ir_element (source_part d ns))"
    "reads (hyp_canonical_element_id g) (hyp_target_participants g k) (map ir_element (target_part d ns))"
    using rows(4,5) [THEN row_reads [where name = "hyp_canonical_element_id g" and f = "\<lambda>x. x"], OF k names(1)]
    by (simp_all add: hyp_source_participants_def hyp_target_participants_def ns_def)
  let ?row = "hpr_relation_incidences g ! unat k"
  have len: "unat k < length (hpr_relation_incidences g)" using list_all2_lengthD [OF rows(1)] k by simp
  have row: "denotes (hpr_incidences g) ?row ns" using list_all2_nthD2 [OF rows(1), of "unat k"] k by (simp add: ns_def)
  show "hyp_relation_incidence_count g k = Some (length ns)"
    using len row by (auto simp: hyp_relation_incidence_count_def denotes_def)
  from picks_all [of ?row "hyp_incidence_element g" "hyp_canonical_element_id g" "\<lambda>i. ir_element (hpr_incidences g ! unat i)"] names(5) row
  obtain xs where xs: "map (hyp_incidence_element g) ?row = map Some xs"
    "map (hyp_canonical_element_id g) xs = map Some (map (\<lambda>i. ir_element (hpr_incidences g ! unat i)) ?row)"
    by (auto simp: denotes_def)
  have "map (\<lambda>i. ir_element (hpr_incidences g ! unat i)) ?row = map ir_element ns"
    using row by (auto simp: denotes_def)
  with xs len show "\<exists>st xs. hyp_hyperedge_participants g k = Some st \<and> yields (hyp_participants_next g) st xs \<and>
      map (hyp_canonical_element_id g) xs = map Some (map ir_element ns)"
    by (intro exI [of _ ?row] exI [of _ xs]) (simp add: hyp_hyperedge_participants_def hyp_participants_yield)
qed

text \<open>What a projected element is in.\<close>

lemma denotes_mem:
  assumes "denotes pool is xs" and "distinct pool" and "unat i < length pool"
  shows "i \<in> set is \<longleftrightarrow> pool ! unat i \<in> set xs"
proof -
  have "i = j" if "j \<in> set is" "pool ! unat i = pool ! unat j" for j
    using that assms by (auto simp: denotes_def nth_eq_iff_index_eq word_unat_eq_iff)
  then show ?thesis using assms(1) by (auto simp: denotes_def)
qed

lemma rows_mem:
  assumes "list_all2 (denotes pool) rows (map g hs)" and "distinct pool" and "unat i < length pool" and "h < length hs"
  shows "i \<in> set (rows ! h) \<longleftrightarrow> pool ! unat i \<in> set (g (hs ! h))"
  using list_all2_nthD2 [OF assms(1), of h] assms(2-4) by (simp add: denotes_mem)

lemma filter_upt_nth: "map (\<lambda>h. f (xs ! h)) (filter (\<lambda>h. P (xs ! h)) [0..<length xs]) = map f (filter P xs)"
proof -
  have "filter P xs = filter P (map ((!) xs) [0..<length xs])" by (simp only: map_nth)
  then show ?thesis by (simp add: filter_map comp_def)
qed

lemma rows_at_reads:
  assumes ok: "hpr_ok hs g" and rows: "list_all2 (denotes (hpr_elements g)) rows (map f hs)" and i: "unat i < length (hpr_elements g)"
  shows "map (hyp_canonical_relation_id g) (map word_of_nat (rows_at rows i)) =
    map Some (map fst (filter (\<lambda>p. hpr_elements g ! unat i \<in> set (f p)) hs))"
proof -
  note facts = hpr_okD [OF ok]
  have len: "length rows = length hs" using list_all2_lengthD [OF rows] by simp
  have at: "rows_at rows i = filter (\<lambda>h. hpr_elements g ! unat i \<in> set (f (hs ! h))) [0..<length hs]"
    unfolding rows_at_def len by (rule filter_cong) (use rows_mem [OF rows facts(7) i] in simp_all)
  have name: "hyp_canonical_relation_id g (word_of_nat h) = Some (fst (hs ! h))" if "h < length hs" for h
  proof -
    have "unat (word_of_nat h :: local_id) = h" using that facts(9) by (intro unat_word_of_nat) simp
    then show ?thesis using hyp_names(2) [OF ok, of "word_of_nat h"] that by simp
  qed
  have "map (hyp_canonical_relation_id g) (map word_of_nat (rows_at rows i)) = map (\<lambda>h. Some (fst (hs ! h))) (rows_at rows i)"
    unfolding map_map comp_def by (rule map_cong [OF refl]) (simp add: at name)
  also have "\<dots> = map Some (map fst (filter (\<lambda>p. hpr_elements g ! unat i \<in> set (f p)) hs))"
    unfolding at filter_upt_nth [of "\<lambda>p. Some (fst p)" hs "\<lambda>p. hpr_elements g ! unat i \<in> set (f p)"] by simp
  finally show ?thesis .
qed

lemma joined_by_reads:
  assumes ok: "hpr_ok hs g" and rows: "list_all2 (denotes (hpr_elements g)) ss (map f hs)" "list_all2 (denotes (hpr_elements g)) ts (map f' hs)"
    and i: "unat i < length (hpr_elements g)"
  shows "hyp_canonical_element_id g ` joined_by ss ts i =
    Some ` {y. \<exists>p \<in> set hs. hpr_elements g ! unat i \<in> set (f p) \<and> y \<in> set (f' p)}"
proof -
  note facts = hpr_okD [OF ok] and name = hyp_names(1) [OF ok]
  have len: "length ss = length hs" "length ts = length hs" using rows [THEN list_all2_lengthD] by simp_all
  have below: "unat j < length (hpr_elements g)" if "h < length hs" "j \<in> set (ts ! h)" for h j
    using rows_bounded [OF rows(2), of "ts ! h" j] that len by simp
  show ?thesis
  proof (intro set_eqI iffI)
    fix y assume "y \<in> hyp_canonical_element_id g ` joined_by ss ts i"
    then obtain j h where j: "y = hyp_canonical_element_id g j" "h < length hs" "i \<in> set (ss ! h)" "j \<in> set (ts ! h)"
      by (auto simp: joined_by_def len)
    have "hpr_elements g ! unat i \<in> set (f (hs ! h))" using rows_mem [OF rows(1) facts(7) i j(2)] j(3) by simp
    moreover have "hpr_elements g ! unat j \<in> set (f' (hs ! h))"
      using rows_mem [OF rows(2) facts(7) below [OF j(2,4)] j(2)] j(4) by simp
    ultimately show "y \<in> Some ` {y. \<exists>p \<in> set hs. hpr_elements g ! unat i \<in> set (f p) \<and> y \<in> set (f' p)}"
      using name [OF below [OF j(2,4)]] j(1,2) by (auto intro!: bexI [of _ "hs ! h"])
  next
    fix y assume "y \<in> Some ` {y. \<exists>p \<in> set hs. hpr_elements g ! unat i \<in> set (f p) \<and> y \<in> set (f' p)}"
    then obtain z p where p: "y = Some z" "p \<in> set hs" "hpr_elements g ! unat i \<in> set (f p)" "z \<in> set (f' p)" by blast
    from p(2) obtain h where "h < length hs" "hs ! h = p" by (auto simp: in_set_conv_nth)
    with p have z: "y = Some z" "h < length hs" "hpr_elements g ! unat i \<in> set (f (hs ! h))" "z \<in> set (f' (hs ! h))" by simp_all
    have "denotes (hpr_elements g) (ts ! h) (f' (hs ! h))" using list_all2_nthD2 [OF rows(2), of h] z(2) by simp
    then have "set (f' (hs ! h)) = (\<lambda>j. hpr_elements g ! unat j) ` set (ts ! h)" unfolding denotes_def by (metis list.set_map)
    then obtain j where j: "j \<in> set (ts ! h)" "z = hpr_elements g ! unat j" using z(4) by blast
    moreover have "i \<in> set (ss ! h)" using rows_mem [OF rows(1) facts(7) i z(2)] z(3) by simp
    ultimately show "y \<in> hyp_canonical_element_id g ` joined_by ss ts i"
      using name [OF below [OF z(2) j(1)]] z(1,2) by (auto simp: joined_by_def len intro!: image_eqI [of _ _ j])
  qed
qed

lemma hyp_element_rows:
  assumes ok: "hpr_ok hs g" and i: "unat i < length (hpr_elements g)"
  defines "d \<equiv> hpr_definition g" and "x \<equiv> hpr_elements g ! unat i"
  shows "reads (hyp_canonical_incidence_id g) (hyp_element_incidences g i) (map ir_id (filter (\<lambda>n. ir_element n = x) (concat (map snd hs))))"
    and "reads (hyp_canonical_relation_id g) (hyp_outgoing_hyperedges g i) (map fst (filter (\<lambda>p. x \<in> ir_element ` set (source_part d (snd p))) hs))"
    and "reads (hyp_canonical_relation_id g) (hyp_incoming_hyperedges g i) (map fst (filter (\<lambda>p. x \<in> ir_element ` set (target_part d (snd p))) hs))"
    and "\<exists>js. hyp_element_successors g i = Some js \<and> sorted_wrt (<) js \<and> hyp_canonical_element_id g ` set js =
      Some ` {y. \<exists>p \<in> set hs. x \<in> ir_element ` set (source_part d (snd p)) \<and> y \<in> ir_element ` set (target_part d (snd p))}"
    and "\<exists>js. hyp_element_predecessors g i = Some js \<and> sorted_wrt (<) js \<and> hyp_canonical_element_id g ` set js =
      Some ` {y. \<exists>p \<in> set hs. x \<in> ir_element ` set (target_part d (snd p)) \<and> y \<in> ir_element ` set (source_part d (snd p))}"
proof -
  note facts = hpr_okD [OF ok]
  have back_i: "word_of_nat (unat i) = i" by simp
  have rows: "list_all2 (denotes (hpr_elements g)) (hpr_source_vertices g) (map (\<lambda>p. map ir_element (source_part d (snd p))) hs)"
    "list_all2 (denotes (hpr_elements g)) (hpr_target_vertices g) (map (\<lambda>p. map ir_element (target_part d (snd p))) hs)"
    using ok unfolding hpr_ok_def d_def comp_def by blast+
  have arrays: "hpr_element_incidences g = map (\<lambda>v. positions (\<lambda>n. ir_element n = hpr_elements g ! v) 0 (hpr_incidences g)) [0..<length (hpr_elements g)]"
    "hpr_outgoing_hyperedges g = map (\<lambda>v. map word_of_nat (rows_at (hpr_source_vertices g) (word_of_nat v))) [0..<length (hpr_elements g)]"
    "hpr_incoming_hyperedges g = map (\<lambda>v. map word_of_nat (rows_at (hpr_target_vertices g) (word_of_nat v))) [0..<length (hpr_elements g)]"
    "hpr_successors g = map (\<lambda>v. sorted_list_of_set (joined_by (hpr_source_vertices g) (hpr_target_vertices g) (word_of_nat v))) [0..<length (hpr_elements g)]"
    "hpr_predecessors g = map (\<lambda>v. sorted_list_of_set (joined_by (hpr_target_vertices g) (hpr_source_vertices g) (word_of_nat v))) [0..<length (hpr_elements g)]"
    using ok unfolding hpr_ok_def by blast+
  have "denotes ([] @ hpr_incidences g) (positions (\<lambda>n. ir_element n = x) (length ([] :: incidence_record list)) (hpr_incidences g))
      (filter (\<lambda>n. ir_element n = x) (hpr_incidences g))"
    by (rule positions_denotes) (use facts(10) in simp)
  then show "reads (hyp_canonical_incidence_id g) (hyp_element_incidences g i) (map ir_id (filter (\<lambda>n. ir_element n = x) (concat (map snd hs))))"
    using i hyp_names(3) [OF ok] unfolding facts(5) [symmetric]
    by (intro readsI [where pool = "hpr_incidences g" and f = ir_id]) (simp_all add: hyp_element_incidences_def arrays x_def)
  show "reads (hyp_canonical_relation_id g) (hyp_outgoing_hyperedges g i) (map fst (filter (\<lambda>p. x \<in> ir_element ` set (source_part d (snd p))) hs))"
    "reads (hyp_canonical_relation_id g) (hyp_incoming_hyperedges g i) (map fst (filter (\<lambda>p. x \<in> ir_element ` set (target_part d (snd p))) hs))"
    using rows_at_reads [OF ok rows(1) i] rows_at_reads [OF ok rows(2) i] i
    by (simp_all add: reads_def hyp_outgoing_hyperedges_def hyp_incoming_hyperedges_def arrays x_def)
  have sets: "finite (X :: local_id set)" for X by simp
  show "\<exists>js. hyp_element_successors g i = Some js \<and> sorted_wrt (<) js \<and> hyp_canonical_element_id g ` set js =
      Some ` {y. \<exists>p \<in> set hs. x \<in> ir_element ` set (source_part d (snd p)) \<and> y \<in> ir_element ` set (target_part d (snd p))}"
    "\<exists>js. hyp_element_predecessors g i = Some js \<and> sorted_wrt (<) js \<and> hyp_canonical_element_id g ` set js =
      Some ` {y. \<exists>p \<in> set hs. x \<in> ir_element ` set (target_part d (snd p)) \<and> y \<in> ir_element ` set (source_part d (snd p))}"
    using joined_by_reads [OF ok rows(1,2) i] joined_by_reads [OF ok rows(2,1) i] i
    by (simp_all add: hyp_element_successors_def hyp_element_predecessors_def arrays x_def)
qed

lemma hyp_incident_rows:
  assumes ok: "hpr_ok hs g" and i: "unat i < length (hpr_elements g)" and own: "\<forall>p \<in> set hs. \<forall>n \<in> set (snd p). ir_relation n = fst p"
  shows "\<exists>st ks. hyp_incident_hyperedges g i = Some st \<and> yields (hyp_incident_next g) st ks \<and>
    map (hyp_canonical_relation_id g) ks =
      map Some (map ir_relation (filter (\<lambda>n. ir_element n = hpr_elements g ! unat i) (concat (map snd hs))))"
proof -
  note facts = hpr_okD [OF ok]
  let ?ns = "filter (\<lambda>n. ir_element n = hpr_elements g ! unat i) (hpr_incidences g)"
    and ?is = "positions (\<lambda>n. ir_element n = hpr_elements g ! unat i) 0 (hpr_incidences g)"
  have row: "denotes (hpr_incidences g) ?is ?ns"
    using positions_denotes [of "[] :: incidence_record list" "hpr_incidences g"] facts(10) by simp
  have state: "hyp_incident_hyperedges g i = Some ?is"
    using ok i unfolding hpr_ok_def by (simp add: hyp_incident_hyperedges_def)
  have "\<exists>k. hyp_incidence_relation g j = Some k \<and> hyp_canonical_relation_id g k = Some (ir_relation (hpr_incidences g ! unat j))"
    if "j \<in> set ?is" for j
  proof -
    have j: "unat j < length (hpr_incidences g)" using row that by (auto simp: denotes_def)
    then have "hpr_incidences g ! unat j \<in> set (concat (map snd hs))" by (metis facts(5) nth_mem)
    then have "ir_relation (hpr_incidences g ! unat j) \<in> set (map fst hs)" using own by auto
    then obtain k where k: "fmlookup (hpr_relation_index g) (ir_relation (hpr_incidences g ! unat j)) = Some k"
      using interned_None [OF facts(2)] by fastforce
    then show ?thesis using j by (auto simp: hyp_incidence_relation_def interned_lookup [OF facts(2)] hyp_names(2) [OF ok])
  qed
  from picks_all [where f = "hyp_incidence_relation g", OF this] obtain ks where ks: "map (hyp_incidence_relation g) ?is = map Some ks"
    "map (hyp_canonical_relation_id g) ks = map Some (map (\<lambda>j. ir_relation (hpr_incidences g ! unat j)) ?is)" by blast
  have "map (\<lambda>j. ir_relation (hpr_incidences g ! unat j)) ?is = map ir_relation ?ns"
    using row unfolding denotes_def by (metis (no_types, lifting) map_map comp_apply map_cong)
  then show ?thesis using ks state by (intro exI [of _ ?is] exI [of _ ks]) (simp add: hyp_incident_yield facts(5))
qed

section \<open>Properties\<close>

text \<open>What the accessors answer for the relation of a hyperedge and for one of the elements, in canonical terms.\<close>

definition hyperedge_reads :: "hypergraph_projection \<Rightarrow> hypergraph_projection_definition \<Rightarrow> local_id \<Rightarrow> incidence_record list \<Rightarrow> bool" where
  "hyperedge_reads g d k ns \<longleftrightarrow>
     reads (hyp_canonical_incidence_id g) (hyp_relation_incidences g k) (map ir_id ns) \<and>
     reads (hyp_canonical_incidence_id g) (hyp_source_incidences g k) (map ir_id (source_part d ns)) \<and>
     reads (hyp_canonical_incidence_id g) (hyp_target_incidences g k) (map ir_id (target_part d ns)) \<and>
     reads (hyp_canonical_element_id g) (hyp_source_participants g k) (map ir_element (source_part d ns)) \<and>
     reads (hyp_canonical_element_id g) (hyp_target_participants g k) (map ir_element (target_part d ns)) \<and>
     (\<exists>st xs. hyp_hyperedge_participants g k = Some st \<and> yields (hyp_participants_next g) st xs \<and>
        map (hyp_canonical_element_id g) xs = map Some (map ir_element ns))"

definition vertex_reads ::
    "hypergraph_projection \<Rightarrow> hypergraph_projection_definition \<Rightarrow> (relation_id \<times> incidence_record list) list \<Rightarrow> local_id \<Rightarrow> element_id \<Rightarrow> bool" where
  "vertex_reads g d hs i x \<longleftrightarrow>
     reads (hyp_canonical_incidence_id g) (hyp_element_incidences g i) (map ir_id (filter (\<lambda>n. ir_element n = x) (concat (map snd hs)))) \<and>
     reads (hyp_canonical_relation_id g) (hyp_outgoing_hyperedges g i)
       (map fst (filter (\<lambda>p. x \<in> ir_element ` set (source_part d (snd p))) hs)) \<and>
     reads (hyp_canonical_relation_id g) (hyp_incoming_hyperedges g i)
       (map fst (filter (\<lambda>p. x \<in> ir_element ` set (target_part d (snd p))) hs)) \<and>
     (\<exists>st ks. hyp_incident_hyperedges g i = Some st \<and> yields (hyp_incident_next g) st ks \<and>
        map (hyp_canonical_relation_id g) ks = map Some (map ir_relation (filter (\<lambda>n. ir_element n = x) (concat (map snd hs))))) \<and>
     (\<exists>js. hyp_element_successors g i = Some js \<and> sorted_wrt (<) js \<and> hyp_canonical_element_id g ` set js =
        Some ` {y. \<exists>p \<in> set hs. x \<in> ir_element ` set (source_part d (snd p)) \<and> y \<in> ir_element ` set (target_part d (snd p))}) \<and>
     (\<exists>js. hyp_element_predecessors g i = Some js \<and> sorted_wrt (<) js \<and> hyp_canonical_element_id g ` set js =
        Some ` {y. \<exists>p \<in> set hs. x \<in> ir_element ` set (target_part d (snd p)) \<and> y \<in> ir_element ` set (source_part d (snd p))})"

lemma hyp_local_relation: "hpr_ok hs g \<Longrightarrow> (r, ns) \<in> set hs \<Longrightarrow>
  \<exists>k. hyp_local_relation_id g r = Some k \<and> unat k < length hs \<and> hs ! unat k = (r, ns)"
proof -
  assume ok: "hpr_ok hs g" and h: "(r, ns) \<in> set hs"
  note facts = hpr_okD [OF ok]
  have "r \<in> set (map fst hs)" using h by (force simp: image_iff)
  then obtain k where k: "fmlookup (hpr_relation_index g) r = Some k" using interned_None [OF facts(2)] by fastforce
  then have at: "unat k < length hs" "fst (hs ! unat k) = r" by (auto simp: interned_lookup [OF facts(2)])
  have "distinct (map fst hs)" using facts(2) by (simp add: interned_def)
  then have "hs ! unat k = (r, ns)" using h at by (metis eq_key_imp_eq_value nth_mem prod.collapse)
  with k at(1) show ?thesis by (simp add: hyp_local_relation_id_def)
qed


definition example_hyper_projection :: hypergraph_projection_definition where
  "example_hyper_projection = \<lparr>hp_name = source_name, hp_relation_types = {||}, hp_source_roles = {|1|}, hp_target_roles = {|2|}\<rparr>"


end
