(* ===== verification/DbSchema.thy ===== *)
theory DbSchema
  imports DbProjection
begin

text \<open>
  The declarative schema, \<open>crates/oxgraph-db/src/schema.rs\<close>, with \<open>Writer::apply_schema\<close> of
  \<open>database/writer.rs\<close> and \<open>Db::bind\<close> of \<open>database/mod.rs\<close>: what is declared by name is registered or found,
  and the handles are handed back in a bag.
\<close>

section \<open>Declarations\<close>

record graph_projection_spec =
  gs_name :: str
  gs_relation_types :: "str list"
  gs_source_role :: str
  gs_target_role :: str

record hypergraph_projection_spec =
  hs_name :: str
  hs_relation_types :: "str list"
  hs_source_roles :: "str list"
  hs_target_roles :: "str list"

record schema =
  sc_roles :: "str list"
  sc_labels :: "str list"
  sc_relation_types :: "str list"
  sc_keys :: "(str \<times> property_family \<times> property_type) list"
  sc_equality_indexes :: "(str \<times> str) list"
  sc_graph_projections :: "graph_projection_spec list"
  sc_hypergraph_projections :: "hypergraph_projection_spec list"

definition schema_new :: schema where
  "schema_new = \<lparr>sc_roles = [], sc_labels = [], sc_relation_types = [], sc_keys = [], sc_equality_indexes = [],
     sc_graph_projections = [], sc_hypergraph_projections = []\<rparr>"

definition schema_role :: "str \<Rightarrow> schema \<Rightarrow> schema" where
  "schema_role name s = s\<lparr>sc_roles := sc_roles s @ [name]\<rparr>"

definition schema_label :: "str \<Rightarrow> schema \<Rightarrow> schema" where
  "schema_label name s = s\<lparr>sc_labels := sc_labels s @ [name]\<rparr>"

definition schema_relation_type :: "str \<Rightarrow> schema \<Rightarrow> schema" where
  "schema_relation_type name s = s\<lparr>sc_relation_types := sc_relation_types s @ [name]\<rparr>"

definition schema_key :: "str \<Rightarrow> property_family \<Rightarrow> property_type \<Rightarrow> schema \<Rightarrow> schema" where
  "schema_key name family ty s = s\<lparr>sc_keys := sc_keys s @ [(name, family, ty)]\<rparr>"

definition schema_equality_index :: "str \<Rightarrow> str \<Rightarrow> schema \<Rightarrow> schema" where
  "schema_equality_index name key s = s\<lparr>sc_equality_indexes := sc_equality_indexes s @ [(name, key)]\<rparr>"

definition schema_graph_projection :: "str \<Rightarrow> str list \<Rightarrow> str \<Rightarrow> str \<Rightarrow> schema \<Rightarrow> schema" where
  "schema_graph_projection name types source target s =
     s\<lparr>sc_graph_projections := sc_graph_projections s @
       [\<lparr>gs_name = name, gs_relation_types = types, gs_source_role = source, gs_target_role = target\<rparr>]\<rparr>"

definition schema_hypergraph_projection :: "str \<Rightarrow> str list \<Rightarrow> str list \<Rightarrow> str list \<Rightarrow> schema \<Rightarrow> schema" where
  "schema_hypergraph_projection name types sources targets s =
     s\<lparr>sc_hypergraph_projections := sc_hypergraph_projections s @
       [\<lparr>hs_name = name, hs_relation_types = types, hs_source_roles = sources, hs_target_roles = targets\<rparr>]\<rparr>"

section \<open>Handles\<close>

record bound =
  bd_roles :: "(str, role_id) fmap"
  bd_labels :: "(str, label_id) fmap"
  bd_relation_types :: "(str, relation_type_id) fmap"
  bd_keys :: "(str, property_key_id \<times> property_type) fmap"
  bd_equality_indexes :: "(str, index_id \<times> property_type) fmap"
  bd_projections :: "(str, projection_id) fmap"

definition bound_default :: bound where
  "bound_default = \<lparr>bd_roles = fmempty, bd_labels = fmempty, bd_relation_types = fmempty, bd_keys = fmempty,
     bd_equality_indexes = fmempty, bd_projections = fmempty\<rparr>"

abbreviation unknown_name :: "string \<Rightarrow> str \<Rightarrow> db_error" where
  "unknown_name kind name \<equiv> CatalogErr (UnknownName kind name)"

definition bound_role :: "bound \<Rightarrow> str \<Rightarrow> (db_error, role_id) result" where
  "bound_role b name = ok_or (unknown_name ''role'' name) (fmlookup (bd_roles b) name)"

definition bound_label :: "bound \<Rightarrow> str \<Rightarrow> (db_error, label_id) result" where
  "bound_label b name = ok_or (unknown_name ''label'' name) (fmlookup (bd_labels b) name)"

definition bound_relation_type :: "bound \<Rightarrow> str \<Rightarrow> (db_error, relation_type_id) result" where
  "bound_relation_type b name = ok_or (unknown_name ''relation type'' name) (fmlookup (bd_relation_types b) name)"

text \<open>The typed handles: the requested value type is an argument.\<close>

definition bound_key :: "property_type \<Rightarrow> bound \<Rightarrow> str \<Rightarrow> (db_error, property_key_id) result" where
  "bound_key ty b name =
     and_then (ok_or (unknown_name ''property key'' name) (fmlookup (bd_keys b) name)) (\<lambda>(i, value_ty).
       if value_ty = ty then Ok i
       else Err (CatalogErr (SchemaConflict name ''property key value type differs from the requested typed handle'')))"

definition bound_equality_index :: "property_type \<Rightarrow> bound \<Rightarrow> str \<Rightarrow> (db_error, index_id) result" where
  "bound_equality_index ty b name =
     and_then (ok_or (unknown_name ''index'' name) (fmlookup (bd_equality_indexes b) name)) (\<lambda>(i, value_ty).
       if value_ty = ty then Ok i
       else Err (CatalogErr (SchemaConflict name ''equality index value type differs from the requested typed handle'')))"

definition bound_projection :: "bound \<Rightarrow> str \<Rightarrow> (db_error, projection_id) result" where
  "bound_projection b name = ok_or (unknown_name ''projection'' name) (fmlookup (bd_projections b) name)"

section \<open>Applying a schema\<close>

text \<open>One loop of \<open>apply_schema\<close>: the handles so far go through the steps.\<close>

fun apply_each :: "('a \<Rightarrow> bound \<Rightarrow> bound writer) \<Rightarrow> 'a list \<Rightarrow> bound \<Rightarrow> bound writer" where
  "apply_each step [] b = DbWriter.yields b"
| "apply_each step (x # xs) b = then_do (step x b) (apply_each step xs)"

text \<open>The identifier of a name, or what a registration hands out.\<close>

definition found_or :: "(catalog \<Rightarrow> u64 option) \<Rightarrow> u64 writer \<Rightarrow> u64 writer" where
  "found_or find_name register w =
     (case find_name (ov_catalog w) of Some i \<Rightarrow> (Ok i, w) | None \<Rightarrow> register w)"

definition apply_role :: "str \<Rightarrow> bound \<Rightarrow> bound writer" where
  "apply_role name b =
     then_do (found_or (\<lambda>c. cat_role_id c name) (register_role name)) (\<lambda>i.
       DbWriter.yields (b\<lparr>bd_roles := fmupd name i (bd_roles b)\<rparr>))"

definition apply_label :: "str \<Rightarrow> bound \<Rightarrow> bound writer" where
  "apply_label name b =
     then_do (found_or (\<lambda>c. cat_label_id c name) (register_label name)) (\<lambda>i.
       DbWriter.yields (b\<lparr>bd_labels := fmupd name i (bd_labels b)\<rparr>))"

definition apply_relation_type :: "str \<Rightarrow> bound \<Rightarrow> bound writer" where
  "apply_relation_type name b =
     then_do (found_or (\<lambda>c. cat_relation_type_id c name) (register_relation_type name)) (\<lambda>i.
       DbWriter.yields (b\<lparr>bd_relation_types := fmupd name i (bd_relation_types b)\<rparr>))"

definition register_key_or_get :: "str \<Rightarrow> property_family \<Rightarrow> property_type \<Rightarrow> property_key_id writer" where
  "register_key_or_get name family ty w =
     (case cat_property_key_id (ov_catalog w) name of
        None \<Rightarrow> register_property_key name family ty w
      | Some existing \<Rightarrow>
          if (case cat_property_key (ov_catalog w) existing of
                Some d \<Rightarrow> pk_def_family d = family \<and> pk_def_value_type d = ty | None \<Rightarrow> False)
          then (Ok existing, w)
          else (Err (CatalogErr (SchemaConflict name
            ''property key family/value type differs from the existing catalog entry'')), w))"

definition apply_key :: "str \<times> property_family \<times> property_type \<Rightarrow> bound \<Rightarrow> bound writer" where
  "apply_key = (\<lambda>(name, family, ty) b.
     then_do (register_key_or_get name family ty) (\<lambda>i.
       DbWriter.yields (b\<lparr>bd_keys := fmupd name (i, ty) (bd_keys b)\<rparr>)))"

definition apply_equality_index :: "str \<times> str \<Rightarrow> bound \<Rightarrow> bound writer" where
  "apply_equality_index = (\<lambda>(name, key_name) b.
     checked (\<lambda>_. ok_or (unknown_name ''property key'' key_name) (fmlookup (bd_keys b) key_name)) (\<lambda>(key_id, ty).
     then_do (found_or (\<lambda>c. cat_index_id c name) (w_define_index name (PropertyEquality key_id))) (\<lambda>i.
       DbWriter.yields (b\<lparr>bd_equality_indexes := fmupd name (i, ty) (bd_equality_indexes b)\<rparr>))))"

text \<open>The loops that resolve a list of names into a set.\<close>

fun resolve_names :: "(str \<Rightarrow> (db_error, u64) result) \<Rightarrow> str list \<Rightarrow> u64 fset \<Rightarrow> (db_error, u64 fset) result" where
  "resolve_names resolve [] ids = Ok ids"
| "resolve_names resolve (name # names) ids =
     and_then (resolve name) (\<lambda>i. resolve_names resolve names (finsert i ids))"

definition define_graph_projection :: "graph_projection_spec \<Rightarrow> bound \<Rightarrow> projection_id writer" where
  "define_graph_projection decl b =
     checked (\<lambda>_. resolve_names (bound_relation_type b) (gs_relation_types decl) {||}) (\<lambda>types.
     checked (\<lambda>_. bound_role b (gs_source_role decl)) (\<lambda>source.
     checked (\<lambda>_. bound_role b (gs_target_role decl)) (\<lambda>target.
       w_define_projection (GraphProjection \<lparr>gp_name = gs_name decl, gp_relation_types = types,
         gp_source_role = source, gp_target_role = target\<rparr>))))"

definition define_hypergraph_projection :: "hypergraph_projection_spec \<Rightarrow> bound \<Rightarrow> projection_id writer" where
  "define_hypergraph_projection decl b =
     checked (\<lambda>_. resolve_names (bound_relation_type b) (hs_relation_types decl) {||}) (\<lambda>types.
     checked (\<lambda>_. resolve_names (bound_role b) (hs_source_roles decl) {||}) (\<lambda>sources.
     checked (\<lambda>_. resolve_names (bound_role b) (hs_target_roles decl) {||}) (\<lambda>targets.
       w_define_projection (HypergraphProjection \<lparr>hp_name = hs_name decl, hp_relation_types = types,
         hp_source_roles = sources, hp_target_roles = targets\<rparr>))))"

definition apply_graph_projection :: "graph_projection_spec \<Rightarrow> bound \<Rightarrow> bound writer" where
  "apply_graph_projection decl b =
     then_do (found_or (\<lambda>c. cat_projection_id c (gs_name decl)) (define_graph_projection decl b)) (\<lambda>i.
       DbWriter.yields (b\<lparr>bd_projections := fmupd (gs_name decl) i (bd_projections b)\<rparr>))"

definition apply_hypergraph_projection :: "hypergraph_projection_spec \<Rightarrow> bound \<Rightarrow> bound writer" where
  "apply_hypergraph_projection decl b =
     then_do (found_or (\<lambda>c. cat_projection_id c (hs_name decl)) (define_hypergraph_projection decl b)) (\<lambda>i.
       DbWriter.yields (b\<lparr>bd_projections := fmupd (hs_name decl) i (bd_projections b)\<rparr>))"

definition apply_schema :: "schema \<Rightarrow> bound writer" where
  "apply_schema s =
     then_do (apply_each apply_role (sc_roles s) bound_default) (\<lambda>b.
     then_do (apply_each apply_label (sc_labels s) b) (\<lambda>b.
     then_do (apply_each apply_relation_type (sc_relation_types s) b) (\<lambda>b.
     then_do (apply_each apply_key (sc_keys s) b) (\<lambda>b.
     then_do (apply_each apply_equality_index (sc_equality_indexes s) b) (\<lambda>b.
     then_do (apply_each apply_graph_projection (sc_graph_projections s) b) (\<lambda>b.
       apply_each apply_hypergraph_projection (sc_hypergraph_projections s) b))))))"

section \<open>Binding a schema\<close>

fun bind_each :: "('a \<Rightarrow> bound \<Rightarrow> (db_error, bound) result) \<Rightarrow> 'a list \<Rightarrow> bound \<Rightarrow> (db_error, bound) result" where
  "bind_each step [] b = Ok b"
| "bind_each step (x # xs) b = and_then (step x b) (bind_each step xs)"

definition bind_role :: "catalog \<Rightarrow> str \<Rightarrow> bound \<Rightarrow> (db_error, bound) result" where
  "bind_role c name b =
     and_then (ok_or (unknown_name ''role'' name) (cat_role_id c name)) (\<lambda>i. Ok (b\<lparr>bd_roles := fmupd name i (bd_roles b)\<rparr>))"

definition bind_label :: "catalog \<Rightarrow> str \<Rightarrow> bound \<Rightarrow> (db_error, bound) result" where
  "bind_label c name b =
     and_then (ok_or (unknown_name ''label'' name) (cat_label_id c name)) (\<lambda>i. Ok (b\<lparr>bd_labels := fmupd name i (bd_labels b)\<rparr>))"

definition bind_relation_type :: "catalog \<Rightarrow> str \<Rightarrow> bound \<Rightarrow> (db_error, bound) result" where
  "bind_relation_type c name b =
     and_then (ok_or (unknown_name ''relation type'' name) (cat_relation_type_id c name)) (\<lambda>i.
       Ok (b\<lparr>bd_relation_types := fmupd name i (bd_relation_types b)\<rparr>))"

definition bind_key :: "catalog \<Rightarrow> str \<times> property_family \<times> property_type \<Rightarrow> bound \<Rightarrow> (db_error, bound) result" where
  "bind_key c = (\<lambda>(name, _, ty) b.
     and_then (ok_or (unknown_name ''property key'' name) (cat_property_key_id c name)) (\<lambda>i.
       Ok (b\<lparr>bd_keys := fmupd name (i, ty) (bd_keys b)\<rparr>)))"

definition bind_equality_index :: "catalog \<Rightarrow> str \<times> str \<Rightarrow> bound \<Rightarrow> (db_error, bound) result" where
  "bind_equality_index c = (\<lambda>(name, key_name) b.
     and_then (ok_or (unknown_name ''property key'' key_name) (fmlookup (bd_keys b) key_name)) (\<lambda>(key_id, ty).
     and_then (ok_or (unknown_name ''index'' name) (cat_index_id c name)) (\<lambda>i.
       Ok (b\<lparr>bd_equality_indexes := fmupd name (i, ty) (bd_equality_indexes b)\<rparr>))))"

definition bind_projection :: "catalog \<Rightarrow> str \<Rightarrow> bound \<Rightarrow> (db_error, bound) result" where
  "bind_projection c name b =
     and_then (ok_or (unknown_name ''projection'' name) (cat_projection_id c name)) (\<lambda>i.
       Ok (b\<lparr>bd_projections := fmupd name i (bd_projections b)\<rparr>))"

definition bind_schema :: "catalog \<Rightarrow> schema \<Rightarrow> (db_error, bound) result" where
  "bind_schema c s =
     and_then (bind_each (bind_role c) (sc_roles s) bound_default) (\<lambda>b.
     and_then (bind_each (bind_label c) (sc_labels s) b) (\<lambda>b.
     and_then (bind_each (bind_relation_type c) (sc_relation_types s) b) (\<lambda>b.
     and_then (bind_each (bind_key c) (sc_keys s) b) (\<lambda>b.
     and_then (bind_each (bind_equality_index c) (sc_equality_indexes s) b) (\<lambda>b.
     and_then (bind_each (\<lambda>decl. bind_projection c (gs_name decl)) (sc_graph_projections s) b) (\<lambda>b.
       bind_each (\<lambda>decl. bind_projection c (hs_name decl)) (sc_hypergraph_projections s) b))))))"

section \<open>Operations that repeat\<close>

text \<open>
  A later delta is one whose catalog has grown. An operation repeats when, once it has returned, running it on
  any later delta returns the same and changes nothing, and a lookup in the later catalog finds the same.
\<close>

definition later :: "write_overlay \<Rightarrow> write_overlay \<Rightarrow> bool" where
  "later w w' \<longleftrightarrow> catalog_le (ov_catalog w) (ov_catalog w') \<and> catalog_ok (ov_catalog w') (ov_next w')"

definition repeats :: "'a writer \<Rightarrow> (catalog \<Rightarrow> (db_error, 'a) result) \<Rightarrow> bool" where
  "repeats m look \<longleftrightarrow>
     (\<forall>w a w'. catalog_ok (ov_catalog w) (ov_next w) \<longrightarrow> m w = (Ok a, w') \<longrightarrow>
       registers w w' \<and> (\<forall>w2. later w' w2 \<longrightarrow> m w2 = (Ok a, w2) \<and> look (ov_catalog w2) = Ok a))"

lemma repeatsI:
  "(\<And>w a w'. catalog_ok (ov_catalog w) (ov_next w) \<Longrightarrow> m w = (Ok a, w') \<Longrightarrow>
      registers w w' \<and> (\<forall>w2. later w' w2 \<longrightarrow> m w2 = (Ok a, w2) \<and> look (ov_catalog w2) = Ok a)) \<Longrightarrow> repeats m look"
  unfolding repeats_def by blast

lemma repeatsD:
  assumes "repeats m look" and "catalog_ok (ov_catalog w) (ov_next w)" and "m w = (Ok a, w')"
  shows "registers w w'" and "later w' w2 \<Longrightarrow> m w2 = (Ok a, w2)" and "later w' w2 \<Longrightarrow> look (ov_catalog w2) = Ok a"
  using assms unfolding repeats_def by blast+

lemma catalog_le_trans: "catalog_le c d \<Longrightarrow> catalog_le d e \<Longrightarrow> catalog_le c e"
  unfolding catalog_le_def by (meson map_le_trans)

lemma registers_refl: "catalog_ok (ov_catalog w) (ov_next w) \<Longrightarrow> registers w w"
  by (simp add: registers_def watermark_le_def)

lemma registers_trans: "registers w w1 \<Longrightarrow> registers w1 w2 \<Longrightarrow> registers w w2"
  by (auto simp: registers_def watermark_le_def intro: catalog_le_trans order_trans)

lemma registers_later: "registers w w' \<Longrightarrow> later w w'"
  by (simp add: registers_def later_def)

lemma later_trans: "later w w1 \<Longrightarrow> later w1 w2 \<Longrightarrow> later w w2"
  by (auto simp: later_def intro: catalog_le_trans)

lemma repeats_then_do:
  assumes m: "repeats m look" and f: "\<And>a. repeats (f a) (look' a)"
  shows "repeats (then_do m f) (\<lambda>c. and_then (look c) (\<lambda>a. look' a c))"
proof (rule repeatsI)
  fix w b w' assume w: "catalog_ok (ov_catalog w) (ov_next w)" and run: "then_do m f w = (Ok b, w')"
  obtain a w1 where one: "m w = (Ok a, w1)" and two: "f a w1 = (Ok b, w')"
    using run by (cases "m w"; cases "fst (m w)") (auto simp: then_do_def)
  note first = repeatsD [OF m w one]
  have w1: "catalog_ok (ov_catalog w1) (ov_next w1)" using first(1) by (simp add: registers_def)
  note second = repeatsD [OF f w1 two]
  have "then_do m f w2 = (Ok b, w2) \<and> and_then (look (ov_catalog w2)) (\<lambda>a. look' a (ov_catalog w2)) = Ok b" if "later w' w2" for w2
    using first(2,3) [OF later_trans [OF registers_later [OF second(1)] that]] second(2,3) [OF that] by (simp add: then_do_def)
  with registers_trans [OF first(1) second(1)]
  show "registers w w' \<and> (\<forall>w2. later w' w2 \<longrightarrow> then_do m f w2 = (Ok b, w2) \<and>
      and_then (look (ov_catalog w2)) (\<lambda>a. look' a (ov_catalog w2)) = Ok b)" by blast
qed

lemma repeats_yields: "repeats (DbWriter.yields a) (\<lambda>_. Ok a)"
  by (rule repeatsI) (auto simp: DbWriter.yields_def intro: registers_refl)

lemma repeats_checked:
  assumes "\<And>a. r = Ok a \<Longrightarrow> repeats (f a) (look a)"
  shows "repeats (checked (\<lambda>_. r) f) (\<lambda>c. and_then r (\<lambda>a. look a c))"
proof (cases r)
  case (Inl e)
  then show ?thesis by (intro repeatsI) (simp add: checked_def)
next
  case (Inr a)
  then have "checked (\<lambda>_. r) f = f a" by (simp add: checked_def fun_eq_iff)
  with assms [OF Inr] Inr show ?thesis by simp
qed

lemma repeats_each:
  assumes "\<And>x b. repeats (step x b) (look x b)"
  shows "repeats (apply_each step xs b) (\<lambda>c. bind_each (\<lambda>x b. look x b c) xs b)"
proof (induction xs arbitrary: b)
  case Nil
  then show ?case using repeats_yields by simp
next
  case (Cons x xs)
  from repeats_then_do [OF assms, OF Cons.IH] show ?case by simp
qed

section \<open>Registrations that repeat\<close>

lemma names_persist:
  assumes "catalog_le c d" and "catalog_ok c n" and "catalog_ok d m"
  shows "cat_role_id c name = Some i \<Longrightarrow> cat_role_id d name = Some i"
    and "cat_label_id c name = Some i \<Longrightarrow> cat_label_id d name = Some i"
    and "cat_relation_type_id c name = Some i \<Longrightarrow> cat_relation_type_id d name = Some i"
    and "cat_property_key_id c name = Some i \<Longrightarrow> cat_property_key_id d name = Some i"
    and "cat_projection_id c name = Some i \<Longrightarrow> cat_projection_id d name = Some i"
    and "cat_index_id c name = Some i \<Longrightarrow> cat_index_id d name = Some i"
proof -
  have persist: "fmlookup names name = Some i \<Longrightarrow> fmlookup names' name = Some i"
    if "named_ok ident nm defs names k" "named_ok ident nm defs' names' k'" "fmlookup defs \<subseteq>\<^sub>m fmlookup defs'"
    for ident and nm :: "'d \<Rightarrow> str" and defs names k defs' names' k'
    using that unfolding named_ok_def map_le_def by (metis domI)
  show "cat_role_id c name = Some i \<Longrightarrow> cat_role_id d name = Some i"
    "cat_label_id c name = Some i \<Longrightarrow> cat_label_id d name = Some i"
    "cat_relation_type_id c name = Some i \<Longrightarrow> cat_relation_type_id d name = Some i"
    "cat_property_key_id c name = Some i \<Longrightarrow> cat_property_key_id d name = Some i"
    "cat_projection_id c name = Some i \<Longrightarrow> cat_projection_id d name = Some i"
    "cat_index_id c name = Some i \<Longrightarrow> cat_index_id d name = Some i"
    using assms unfolding catalog_le_def catalog_ok_def cat_lookups by (blast dest: persist)+
qed

lemma register_finds:
  shows "register_role name w = (Ok i, w') \<Longrightarrow> cat_role_id (ov_catalog w') name = Some i"
    and "register_label name w = (Ok i, w') \<Longrightarrow> cat_label_id (ov_catalog w') name = Some i"
    and "register_relation_type name w = (Ok i, w') \<Longrightarrow> cat_relation_type_id (ov_catalog w') name = Some i"
    and "register_property_key name family ty w = (Ok i, w') \<Longrightarrow> cat_property_key_id (ov_catalog w') name = Some i \<and>
      cat_property_key (ov_catalog w') i = Some \<lparr>pk_def_id = i, pk_def_name = name, pk_def_family = family, pk_def_value_type = ty\<rparr>"
    and "register_projection d w = (Ok i, w') \<Longrightarrow> cat_projection_id (ov_catalog w') (projection_name d) = Some i"
    and "register_index name xd w = (Ok i, w') \<Longrightarrow> cat_index_id (ov_catalog w') name = Some i"
  by (auto simp: register_role_def register_label_def register_relation_type_def register_property_key_def
      register_projection_def register_index_def catalog_inserts cat_lookups wo_push_def Let_def case_prod_unfold
      split: option.splits sum.splits)

lemma repeats_found_or:
  assumes persist: "\<And>c d n m i. catalog_le c d \<Longrightarrow> catalog_ok c n \<Longrightarrow> catalog_ok d m \<Longrightarrow> find_name c = Some i \<Longrightarrow> find_name d = Some i"
    and register: "\<And>w i w'. catalog_ok (ov_catalog w) (ov_next w) \<Longrightarrow> register w = (Ok i, w') \<Longrightarrow>
      registers w w' \<and> find_name (ov_catalog w') = Some i"
  shows "repeats (found_or find_name register) (\<lambda>c. ok_or e (find_name c))"
proof (rule repeatsI)
  fix w i w' assume w: "catalog_ok (ov_catalog w) (ov_next w)" and run: "found_or find_name register w = (Ok i, w')"
  have "registers w w' \<and> find_name (ov_catalog w') = Some i"
    using run register [OF w] registers_refl [OF w] by (auto simp: found_or_def split: option.splits)
  moreover from this have "catalog_ok (ov_catalog w') (ov_next w')" by (simp add: registers_def)
  ultimately show "registers w w' \<and> (\<forall>w2. later w' w2 \<longrightarrow> found_or find_name register w2 = (Ok i, w2) \<and> ok_or e (find_name (ov_catalog w2)) = Ok i)"
    using persist by (fastforce simp: found_or_def later_def)
qed

lemma registered:
  assumes "catalog_ok (ov_catalog w) (ov_next w)"
  shows "register_role name w = (Ok i, w') \<Longrightarrow> registers w w'" and "register_label name w = (Ok i, w') \<Longrightarrow> registers w w'"
    and "register_relation_type name w = (Ok i, w') \<Longrightarrow> registers w w'"
    and "register_property_key name family ty w = (Ok i, w') \<Longrightarrow> registers w w'"
    and "w_define_projection d w = (Ok i, w') \<Longrightarrow> registers w w' \<and> cat_projection_id (ov_catalog w') (projection_name d) = Some i"
    and "w_define_index name xd w = (Ok i, w') \<Longrightarrow> registers w w' \<and> cat_index_id (ov_catalog w') name = Some i"
proof -
  note all = registrations [OF assms]
  show "register_role name w = (Ok i, w') \<Longrightarrow> registers w w'" using all(1) [of name] by simp
  show "register_label name w = (Ok i, w') \<Longrightarrow> registers w w'" using all(2) [of name] by simp
  show "register_relation_type name w = (Ok i, w') \<Longrightarrow> registers w w'" using all(3) [of name] by simp
  show "register_property_key name family ty w = (Ok i, w') \<Longrightarrow> registers w w'" using all(4) [of name family ty] by simp
  show "w_define_projection d w = (Ok i, w') \<Longrightarrow> registers w w' \<and> cat_projection_id (ov_catalog w') (projection_name d) = Some i"
    using all(5) [of d] register_finds(5) [of d w i w'] by (auto simp: w_define_projection_def checked_def split: sum.splits)
  show "w_define_index name xd w = (Ok i, w') \<Longrightarrow> registers w w' \<and> cat_index_id (ov_catalog w') name = Some i"
    using all(6) [of name xd] register_finds(6) [of name xd w i w'] by (auto simp: w_define_index_def checked_def split: sum.splits)
qed

text \<open>Defining a projection resolves names first, which does not touch the delta.\<close>

lemma define_projections:
  assumes "catalog_ok (ov_catalog w) (ov_next w)"
  shows "define_graph_projection decl b w = (Ok i, w') \<Longrightarrow> registers w w' \<and> cat_projection_id (ov_catalog w') (gs_name decl) = Some i"
    and "define_hypergraph_projection decl' b w = (Ok i, w') \<Longrightarrow> registers w w' \<and> cat_projection_id (ov_catalog w') (hs_name decl') = Some i"
  using registered(5) [OF assms]
  by (fastforce simp: define_graph_projection_def define_hypergraph_projection_def checked_def split: sum.splits)+

lemma repeats_register_key_or_get:
  "repeats (register_key_or_get name family ty) (\<lambda>c. ok_or (unknown_name ''property key'' name) (cat_property_key_id c name))"
proof (rule repeatsI)
  fix w i w' assume w: "catalog_ok (ov_catalog w) (ov_next w)" and run: "register_key_or_get name family ty w = (Ok i, w')"
  have found: "registers w w' \<and> cat_property_key_id (ov_catalog w') name = Some i \<and>
      (\<exists>d. cat_property_key (ov_catalog w') i = Some d \<and> pk_def_family d = family \<and> pk_def_value_type d = ty)"
    using run register_finds(4) [of name family ty w i w'] registered(4) [OF w, of name family ty i w'] registers_refl [OF w]
    by (auto simp: register_key_or_get_def split: option.splits if_splits)
  then have w': "catalog_ok (ov_catalog w') (ov_next w')" by (simp add: registers_def)
  have "register_key_or_get name family ty w2 = (Ok i, w2) \<and>
      ok_or (unknown_name ''property key'' name) (cat_property_key_id (ov_catalog w2) name) = Ok i" if "later w' w2" for w2
  proof -
    from that found have "cat_property_key_id (ov_catalog w2) name = Some i"
      using names_persist(4) [OF _ w'] by (auto simp: later_def)
    moreover from that found obtain d where "cat_property_key (ov_catalog w2) i = Some d" "pk_def_family d = family" "pk_def_value_type d = ty"
      unfolding later_def catalog_le_def map_le_def cat_lookups by (metis domI)
    ultimately show ?thesis by (simp add: register_key_or_get_def)
  qed
  with found show "registers w w' \<and> (\<forall>w2. later w' w2 \<longrightarrow> register_key_or_get name family ty w2 = (Ok i, w2) \<and>
      ok_or (unknown_name ''property key'' name) (cat_property_key_id (ov_catalog w2) name) = Ok i)" by blast
qed

lemma steps_repeat:
  shows "repeats (apply_role name b) (\<lambda>c. bind_role c name b)"
    and "repeats (apply_label name b) (\<lambda>c. bind_label c name b)"
    and "repeats (apply_relation_type name b) (\<lambda>c. bind_relation_type c name b)"
    and "repeats (apply_key kd b) (\<lambda>c. bind_key c kd b)"
    and "repeats (apply_equality_index xd b) (\<lambda>c. bind_equality_index c xd b)"
    and "repeats (apply_graph_projection gd b) (\<lambda>c. bind_projection c (gs_name gd) b)"
    and "repeats (apply_hypergraph_projection hyd b) (\<lambda>c. bind_projection c (hs_name hyd) b)"
proof -
  note found = repeats_then_do [OF repeats_found_or repeats_yields]
  show "repeats (apply_role name b) (\<lambda>c. bind_role c name b)"
    unfolding apply_role_def bind_role_def by (rule found) (auto intro: names_persist(1) registered(1) register_finds(1))
  show "repeats (apply_label name b) (\<lambda>c. bind_label c name b)"
    unfolding apply_label_def bind_label_def by (rule found) (auto intro: names_persist(2) registered(2) register_finds(2))
  show "repeats (apply_relation_type name b) (\<lambda>c. bind_relation_type c name b)"
    unfolding apply_relation_type_def bind_relation_type_def
    by (rule found) (auto intro: names_persist(3) registered(3) register_finds(3))
  show "repeats (apply_key kd b) (\<lambda>c. bind_key c kd b)"
    unfolding apply_key_def bind_key_def
    by (cases kd) (simp add: repeats_then_do [OF repeats_register_key_or_get repeats_yields])
  show "repeats (apply_equality_index xd b) (\<lambda>c. bind_equality_index c xd b)"
  proof (cases xd)
    case (Pair name key_name)
    have "repeats (checked (\<lambda>_. ok_or (unknown_name ''property key'' key_name) (fmlookup (bd_keys b) key_name)) (\<lambda>(key_id, ty).
        then_do (found_or (\<lambda>c. cat_index_id c name) (w_define_index name (PropertyEquality key_id))) (\<lambda>i.
          DbWriter.yields (b\<lparr>bd_equality_indexes := fmupd name (i, ty) (bd_equality_indexes b)\<rparr>))))
      (\<lambda>c. and_then (ok_or (unknown_name ''property key'' key_name) (fmlookup (bd_keys b) key_name)) (\<lambda>a.
        and_then (ok_or (unknown_name ''index'' name) (cat_index_id c name)) (\<lambda>i.
          Ok (b\<lparr>bd_equality_indexes := fmupd name (i, snd a) (bd_equality_indexes b)\<rparr>))))"
    proof (rule repeats_checked)
      fix a :: "property_key_id \<times> property_type"
      show "repeats (case a of (key_id, ty) \<Rightarrow>
          then_do (found_or (\<lambda>c. cat_index_id c name) (w_define_index name (PropertyEquality key_id))) (\<lambda>i.
            DbWriter.yields (b\<lparr>bd_equality_indexes := fmupd name (i, ty) (bd_equality_indexes b)\<rparr>)))
        (\<lambda>c. and_then (ok_or (unknown_name ''index'' name) (cat_index_id c name)) (\<lambda>i.
          Ok (b\<lparr>bd_equality_indexes := fmupd name (i, snd a) (bd_equality_indexes b)\<rparr>)))"
        unfolding case_prod_unfold by (rule found) (auto intro: names_persist(6) dest: registered(6))
    qed
    then show ?thesis by (simp add: Pair apply_equality_index_def bind_equality_index_def case_prod_unfold)
  qed
  show "repeats (apply_graph_projection gd b) (\<lambda>c. bind_projection c (gs_name gd) b)"
    unfolding apply_graph_projection_def bind_projection_def
    by (rule found) (auto intro: names_persist(5) dest: define_projections(1))
  show "repeats (apply_hypergraph_projection hyd b) (\<lambda>c. bind_projection c (hs_name hyd) b)"
    unfolding apply_hypergraph_projection_def bind_projection_def
    by (rule found) (auto intro: names_persist(5) dest: define_projections(2))
qed

lemma apply_schema_repeats: "repeats (apply_schema s) (\<lambda>c. bind_schema c s)"
  unfolding apply_schema_def bind_schema_def
  by (intro repeats_then_do repeats_each [where look = "\<lambda>x b c. bind_role c x b"] repeats_each [where look = "\<lambda>x b c. bind_label c x b"]
      repeats_each [where look = "\<lambda>x b c. bind_relation_type c x b"] repeats_each [where look = "\<lambda>x b c. bind_key c x b"]
      repeats_each [where look = "\<lambda>x b c. bind_equality_index c x b"] repeats_each [where look = "\<lambda>x b c. bind_projection c (gs_name x) b"]
      repeats_each [where look = "\<lambda>x b c. bind_projection c (hs_name x) b"] steps_repeat)

section \<open>What the handles say\<close>

lemma bind_each_keeps:
  "bind_each step xs b = Ok b' \<Longrightarrow> (\<And>x b b'. step x b = Ok b' \<Longrightarrow> f b' = f b) \<Longrightarrow> f b' = f b"
proof (induction xs arbitrary: b)
  case (Cons x xs)
  then obtain b1 where b1: "step x b = Ok b1" "bind_each step xs b1 = Ok b'" by auto
  from Cons.IH [OF b1(2) Cons.prems(2)] Cons.prems(2) [OF b1(1)] show ?case by simp
qed simp

lemma bind_each_fills:
  assumes "bind_each step xs b = Ok b'"
    and "\<And>x b b'. step x b = Ok b' \<Longrightarrow> \<exists>i. look (nm x) = Some i \<and> table b' = fmupd (nm x) i (table b)"
  shows "fmlookup (table b') n = (if n \<in> nm ` set xs then look n else fmlookup (table b) n)"
  using assms(1)
proof (induction xs arbitrary: b)
  case (Cons x xs)
  then obtain b1 where b1: "step x b = Ok b1" "bind_each step xs b1 = Ok b'" by auto
  from assms(2) [OF b1(1)] Cons.IH [OF b1(2)] show ?case by auto
qed simp

lemma bind_keeps:
  shows "bind_role c name b = Ok b' \<Longrightarrow> bd_labels b' = bd_labels b \<and> bd_relation_types b' = bd_relation_types b \<and>
      bd_keys b' = bd_keys b \<and> bd_projections b' = bd_projections b"
    and "bind_label c name b = Ok b' \<Longrightarrow> bd_roles b' = bd_roles b \<and> bd_relation_types b' = bd_relation_types b \<and>
      bd_keys b' = bd_keys b \<and> bd_projections b' = bd_projections b"
    and "bind_relation_type c name b = Ok b' \<Longrightarrow> bd_roles b' = bd_roles b \<and> bd_labels b' = bd_labels b \<and>
      bd_keys b' = bd_keys b \<and> bd_projections b' = bd_projections b"
    and "bind_key c kd b = Ok b' \<Longrightarrow> bd_roles b' = bd_roles b \<and> bd_labels b' = bd_labels b \<and>
      bd_relation_types b' = bd_relation_types b \<and> bd_projections b' = bd_projections b"
    and "bind_equality_index c xd b = Ok b' \<Longrightarrow> bd_roles b' = bd_roles b \<and> bd_labels b' = bd_labels b \<and>
      bd_relation_types b' = bd_relation_types b \<and> bd_keys b' = bd_keys b \<and> bd_projections b' = bd_projections b"
    and "bind_projection c name b = Ok b' \<Longrightarrow> bd_roles b' = bd_roles b \<and> bd_labels b' = bd_labels b \<and>
      bd_relation_types b' = bd_relation_types b \<and> bd_keys b' = bd_keys b"
  by (auto simp: bind_role_def bind_label_def bind_relation_type_def bind_key_def bind_equality_index_def bind_projection_def
      split: prod.splits)

lemma bind_stages_keep:
  shows "bind_each (bind_role c) xs b = Ok b' \<Longrightarrow> bd_labels b' = bd_labels b \<and> bd_relation_types b' = bd_relation_types b \<and>
      bd_keys b' = bd_keys b \<and> bd_projections b' = bd_projections b"
    and "bind_each (bind_label c) xs b = Ok b' \<Longrightarrow> bd_roles b' = bd_roles b \<and> bd_relation_types b' = bd_relation_types b \<and>
      bd_keys b' = bd_keys b \<and> bd_projections b' = bd_projections b"
    and "bind_each (bind_relation_type c) xs b = Ok b' \<Longrightarrow> bd_roles b' = bd_roles b \<and> bd_labels b' = bd_labels b \<and>
      bd_keys b' = bd_keys b \<and> bd_projections b' = bd_projections b"
    and "bind_each (bind_key c) kds b = Ok b' \<Longrightarrow> bd_roles b' = bd_roles b \<and> bd_labels b' = bd_labels b \<and>
      bd_relation_types b' = bd_relation_types b \<and> bd_projections b' = bd_projections b"
    and "bind_each (bind_equality_index c) xds b = Ok b' \<Longrightarrow> bd_roles b' = bd_roles b \<and> bd_labels b' = bd_labels b \<and>
      bd_relation_types b' = bd_relation_types b \<and> bd_keys b' = bd_keys b \<and> bd_projections b' = bd_projections b"
    and "bind_each (\<lambda>decl. bind_projection c (name_of decl)) decls b = Ok b' \<Longrightarrow> bd_roles b' = bd_roles b \<and> bd_labels b' = bd_labels b \<and>
      bd_relation_types b' = bd_relation_types b \<and> bd_keys b' = bd_keys b"
proof -
  show "bind_each (bind_role c) xs b = Ok b' \<Longrightarrow> bd_labels b' = bd_labels b \<and> bd_relation_types b' = bd_relation_types b \<and>
      bd_keys b' = bd_keys b \<and> bd_projections b' = bd_projections b"
    by (intro conjI; erule bind_each_keeps; drule bind_keeps(1); simp)
  show "bind_each (bind_label c) xs b = Ok b' \<Longrightarrow> bd_roles b' = bd_roles b \<and> bd_relation_types b' = bd_relation_types b \<and>
      bd_keys b' = bd_keys b \<and> bd_projections b' = bd_projections b"
    by (intro conjI; erule bind_each_keeps; drule bind_keeps(2); simp)
  show "bind_each (bind_relation_type c) xs b = Ok b' \<Longrightarrow> bd_roles b' = bd_roles b \<and> bd_labels b' = bd_labels b \<and>
      bd_keys b' = bd_keys b \<and> bd_projections b' = bd_projections b"
    by (intro conjI; erule bind_each_keeps; drule bind_keeps(3); simp)
  show "bind_each (bind_key c) kds b = Ok b' \<Longrightarrow> bd_roles b' = bd_roles b \<and> bd_labels b' = bd_labels b \<and>
      bd_relation_types b' = bd_relation_types b \<and> bd_projections b' = bd_projections b"
    by (intro conjI; erule bind_each_keeps; drule bind_keeps(4); simp)
  show "bind_each (bind_equality_index c) xds b = Ok b' \<Longrightarrow> bd_roles b' = bd_roles b \<and> bd_labels b' = bd_labels b \<and>
      bd_relation_types b' = bd_relation_types b \<and> bd_keys b' = bd_keys b \<and> bd_projections b' = bd_projections b"
    by (intro conjI; erule bind_each_keeps; drule bind_keeps(5); simp)
  show "bind_each (\<lambda>decl. bind_projection c (name_of decl)) decls b = Ok b' \<Longrightarrow> bd_roles b' = bd_roles b \<and> bd_labels b' = bd_labels b \<and>
      bd_relation_types b' = bd_relation_types b \<and> bd_keys b' = bd_keys b"
    by (intro conjI; erule bind_each_keeps; drule bind_keeps(6); simp)
qed

lemma bind_fills:
  shows "bind_role c name b = Ok b' \<Longrightarrow> \<exists>i. cat_role_id c name = Some i \<and> bd_roles b' = fmupd name i (bd_roles b)"
    and "bind_label c name b = Ok b' \<Longrightarrow> \<exists>i. cat_label_id c name = Some i \<and> bd_labels b' = fmupd name i (bd_labels b)"
    and "bind_relation_type c name b = Ok b' \<Longrightarrow>
      \<exists>i. cat_relation_type_id c name = Some i \<and> bd_relation_types b' = fmupd name i (bd_relation_types b)"
    and "bind_key c kd b = Ok b' \<Longrightarrow> \<exists>i. cat_property_key_id c (fst kd) = Some i \<and>
      fmmap fst (bd_keys b') = fmupd (fst kd) i (fmmap fst (bd_keys b))"
    and "bind_projection c name b = Ok b' \<Longrightarrow> \<exists>i. cat_projection_id c name = Some i \<and> bd_projections b' = fmupd name i (bd_projections b)"
  by (auto simp: bind_role_def bind_label_def bind_relation_type_def bind_key_def bind_projection_def split: prod.splits
      intro!: fmap_ext)

lemma bind_each_domain:
  assumes "bind_each step xs b = Ok b'"
    and "\<And>x b b'. step x b = Ok b' \<Longrightarrow> \<exists>i. look (nm x) = Some i \<and> table b' = fmupd (nm x) i (table b)"
  shows "fmdom' (table b') = nm ` set xs \<union> fmdom' (table b)"
  using assms(1)
proof (induction xs arbitrary: b)
  case (Cons x xs)
  then obtain b1 where b1: "step x b = Ok b1" "bind_each step xs b1 = Ok b'" by auto
  from assms(2) [OF b1(1)] Cons.IH [OF b1(2)] show ?case by auto
qed simp

lemma bind_schema_tables:
  assumes "bind_schema c s = Ok b"
  shows "fmlookup (bd_roles b) n = (if n \<in> set (sc_roles s) then cat_role_id c n else None)"
    and "fmlookup (bd_labels b) n = (if n \<in> set (sc_labels s) then cat_label_id c n else None)"
    and "fmlookup (bd_relation_types b) n = (if n \<in> set (sc_relation_types s) then cat_relation_type_id c n else None)"
    and "map_option fst (fmlookup (bd_keys b) n) = (if n \<in> fst ` set (sc_keys s) then cat_property_key_id c n else None)"
    and "fmlookup (bd_keys b) n = Some (i, ty) \<Longrightarrow> \<exists>family. (n, family, ty) \<in> set (sc_keys s)"
    and "fmlookup (bd_projections b) n = (if n \<in> gs_name ` set (sc_graph_projections s) \<union> hs_name ` set (sc_hypergraph_projections s)
      then cat_projection_id c n else None)"
    and "fmdom' (bd_roles b) = set (sc_roles s)" and "fmdom' (bd_labels b) = set (sc_labels s)"
    and "fmdom' (bd_relation_types b) = set (sc_relation_types s)" and "fmdom' (bd_keys b) = fst ` set (sc_keys s)"
    and "fmdom' (bd_projections b) = gs_name ` set (sc_graph_projections s) \<union> hs_name ` set (sc_hypergraph_projections s)"
proof -
  from assms obtain b1 b2 b3 b4 b5 b6 where
    1: "bind_each (bind_role c) (sc_roles s) bound_default = Ok b1" and 2: "bind_each (bind_label c) (sc_labels s) b1 = Ok b2"
    and 3: "bind_each (bind_relation_type c) (sc_relation_types s) b2 = Ok b3" and 4: "bind_each (bind_key c) (sc_keys s) b3 = Ok b4"
    and 5: "bind_each (bind_equality_index c) (sc_equality_indexes s) b4 = Ok b5"
    and 6: "bind_each (\<lambda>decl. bind_projection c (gs_name decl)) (sc_graph_projections s) b5 = Ok b6"
    and 7: "bind_each (\<lambda>decl. bind_projection c (hs_name decl)) (sc_hypergraph_projections s) b6 = Ok b"
    by (auto simp: bind_schema_def)
  note kept = bind_stages_keep(1) [OF 1] bind_stages_keep(2) [OF 2] bind_stages_keep(3) [OF 3] bind_stages_keep(4) [OF 4]
    bind_stages_keep(5) [OF 5] bind_stages_keep(6) [OF 6] bind_stages_keep(6) [OF 7]
  have roles: "bd_roles b = bd_roles b1" using kept(2-7) by simp
  have labels: "bd_labels b = bd_labels b2" "bd_labels b1 = fmempty" using kept by (simp_all add: bound_default_def)
  have types: "bd_relation_types b = bd_relation_types b3" "bd_relation_types b2 = fmempty"
    using kept by (simp_all add: bound_default_def)
  have keys: "bd_keys b = bd_keys b4" "bd_keys b3 = fmempty" using kept by (simp_all add: bound_default_def)
  have projections: "bd_projections b5 = fmempty" using kept by (simp add: bound_default_def)
  show "fmlookup (bd_roles b) n = (if n \<in> set (sc_roles s) then cat_role_id c n else None)"
    using bind_each_fills [OF 1, where nm = "\<lambda>x. x" and look = "cat_role_id c" and table = bd_roles, OF bind_fills(1), of n] by (simp add: roles bound_default_def)
  show "fmlookup (bd_labels b) n = (if n \<in> set (sc_labels s) then cat_label_id c n else None)"
    using bind_each_fills [OF 2, where nm = "\<lambda>x. x" and look = "cat_label_id c" and table = bd_labels, OF bind_fills(2), of n] by (simp add: labels)
  show "fmlookup (bd_relation_types b) n = (if n \<in> set (sc_relation_types s) then cat_relation_type_id c n else None)"
    using bind_each_fills [OF 3, where nm = "\<lambda>x. x" and look = "cat_relation_type_id c" and table = bd_relation_types, OF bind_fills(3), of n] by (simp add: types)
  show "map_option fst (fmlookup (bd_keys b) n) = (if n \<in> fst ` set (sc_keys s) then cat_property_key_id c n else None)"
    using bind_each_fills [OF 4, where nm = fst and look = "cat_property_key_id c" and table = "\<lambda>b. fmmap fst (bd_keys b)", OF bind_fills(4), of n] by (simp add: keys)
  show "fmlookup (bd_projections b) n = (if n \<in> gs_name ` set (sc_graph_projections s) \<union> hs_name ` set (sc_hypergraph_projections s)
      then cat_projection_id c n else None)"
    using bind_each_fills [OF 6, where nm = gs_name and look = "cat_projection_id c" and table = bd_projections, OF bind_fills(5), of n]
      bind_each_fills [OF 7, where nm = hs_name and look = "cat_projection_id c" and table = bd_projections, OF bind_fills(5), of n]
    by (simp add: projections)
  show "fmdom' (bd_roles b) = set (sc_roles s)"
    using bind_each_domain [OF 1, where nm = "\<lambda>x. x" and look = "cat_role_id c" and table = bd_roles, OF bind_fills(1)]
    by (simp add: roles bound_default_def)
  show "fmdom' (bd_labels b) = set (sc_labels s)"
    using bind_each_domain [OF 2, where nm = "\<lambda>x. x" and look = "cat_label_id c" and table = bd_labels, OF bind_fills(2)]
    by (simp add: labels)
  show "fmdom' (bd_relation_types b) = set (sc_relation_types s)"
    using bind_each_domain [OF 3, where nm = "\<lambda>x. x" and look = "cat_relation_type_id c" and table = bd_relation_types, OF bind_fills(3)]
    by (simp add: types)
  show "fmdom' (bd_keys b) = fst ` set (sc_keys s)"
    using bind_each_domain [OF 4, where nm = fst and look = "cat_property_key_id c" and table = "\<lambda>b. fmmap fst (bd_keys b)", OF bind_fills(4)]
    by (simp add: keys)
  show "fmdom' (bd_projections b) = gs_name ` set (sc_graph_projections s) \<union> hs_name ` set (sc_hypergraph_projections s)"
    using bind_each_domain [OF 6, where nm = gs_name and look = "cat_projection_id c" and table = bd_projections, OF bind_fills(5)]
      bind_each_domain [OF 7, where nm = hs_name and look = "cat_projection_id c" and table = bd_projections, OF bind_fills(5)]
    by (simp add: projections Un_commute)
  have "fmlookup (bd_keys b') n = Some (i, ty) \<Longrightarrow> bind_each (bind_key c) ks b0 = Ok b' \<Longrightarrow>
      (\<exists>family. (n, family, ty) \<in> set ks) \<or> fmlookup (bd_keys b0) n = Some (i, ty)" for ks b0 b'
  proof (induction ks arbitrary: b0)
    case (Cons k ks)
    then obtain b1 where "bind_key c k b0 = Ok b1" "bind_each (bind_key c) ks b1 = Ok b'" by auto
    with Cons.IH [of b1] Cons.prems(1) show ?case by (cases k) (auto simp: bind_key_def split: if_splits)
  qed simp
  from this [OF _ 4] show "fmlookup (bd_keys b) n = Some (i, ty) \<Longrightarrow> \<exists>family. (n, family, ty) \<in> set (sc_keys s)"
    by (simp add: keys)
qed

text \<open>The declared keys have their declared shape in the catalog.\<close>

definition key_fits :: "catalog \<Rightarrow> str \<times> property_family \<times> property_type \<Rightarrow> bool" where
  "key_fits c = (\<lambda>(n, family, ty). \<exists>i d. cat_property_key_id c n = Some i \<and> cat_property_key c i = Some d \<and>
     pk_def_family d = family \<and> pk_def_value_type d = ty)"

lemma key_fits_later:
  assumes "key_fits (ov_catalog w) k" and "catalog_ok (ov_catalog w) (ov_next w)" and "later w w'"
  shows "key_fits (ov_catalog w') k"
proof -
  obtain n family ty where k: "k = (n, family, ty)" by (cases k)
  with assms(1) obtain i d where d: "cat_property_key_id (ov_catalog w) n = Some i" "cat_property_key (ov_catalog w) i = Some d"
    "pk_def_family d = family" "pk_def_value_type d = ty" by (auto simp: key_fits_def)
  have "cat_property_key_id (ov_catalog w') n = Some i" using names_persist(4) assms(2,3) d(1) by (auto simp: later_def)
  moreover have "cat_property_key (ov_catalog w') i = Some d"
    using assms(3) d(2) unfolding later_def catalog_le_def map_le_def cat_lookups by (metis domI)
  ultimately show ?thesis using d(3,4) by (simp add: key_fits_def k)
qed

lemma apply_keys_fit:
  assumes "apply_each apply_key ks b w = (Ok b', w')" and "catalog_ok (ov_catalog w) (ov_next w)"
  shows "\<forall>k \<in> set ks. key_fits (ov_catalog w') k"
  using assms
proof (induction ks arbitrary: b w)
  case (Cons k ks)
  then obtain b1 w1 where one: "apply_key k b w = (Ok b1, w1)" and rest: "apply_each apply_key ks b1 w1 = (Ok b', w')"
    by (cases "apply_key k b w"; cases "fst (apply_key k b w)") (auto simp: then_do_def)
  have w1: "catalog_ok (ov_catalog w1) (ov_next w1)"
    using repeatsD(1) [OF steps_repeat(4) Cons.prems(2) one] by (simp add: registers_def)
  have later: "later w1 w'" using repeatsD(1) [OF repeats_each [OF steps_repeat(4)] w1 rest] by (rule registers_later)
  obtain n family ty where k: "k = (n, family, ty)" by (cases k)
  from one obtain i where "register_key_or_get n family ty w = (Ok i, w1)"
    by (cases "register_key_or_get n family ty w"; cases "fst (register_key_or_get n family ty w)")
      (auto simp: apply_key_def k then_do_def DbWriter.yields_def)
  then have "key_fits (ov_catalog w1) k"
    using register_finds(4) [of n family ty w i w1] by (auto simp: key_fits_def k register_key_or_get_def split: option.splits if_splits)
  from key_fits_later [OF this w1 later] Cons.IH [OF rest w1] show ?case by simp
qed simp

text \<open>An index or projection of a declared name is taken as it is, whatever it is defined over.\<close>

lemma index_shape_unchecked:
  "fmlookup (bd_keys b) key_name = Some (k, ty) \<Longrightarrow> cat_index_id (ov_catalog w) name = Some i \<Longrightarrow>
     apply_equality_index (name, key_name) b w = (Ok (b\<lparr>bd_equality_indexes := fmupd name (i, ty) (bd_equality_indexes b)\<rparr>), w)"
  "cat_projection_id (ov_catalog w) (gs_name decl) = Some i \<Longrightarrow>
     apply_graph_projection decl b w = (Ok (b\<lparr>bd_projections := fmupd (gs_name decl) i (bd_projections b)\<rparr>), w)"
  by (simp_all add: apply_equality_index_def apply_graph_projection_def checked_def then_do_def found_or_def DbWriter.yields_def)

section \<open>Applying a schema again\<close>

lemma then_do_runs:
  assumes "then_do m f w = (Ok b, w')"
  obtains a w1 where "m w = (Ok a, w1)" "f a w1 = (Ok b, w')"
  using assms by (cases "m w"; cases "fst (m w)") (auto simp: then_do_def)

lemma apply_schema_keys_fit:
  assumes ok: "catalog_ok (ov_catalog w) (ov_next w)" and run: "apply_schema s w = (Ok b, w')"
  shows "\<forall>k \<in> set (sc_keys s). key_fits (ov_catalog w') k"
proof -
  define before where "before = then_do (apply_each apply_role (sc_roles s) bound_default) (\<lambda>b.
     then_do (apply_each apply_label (sc_labels s) b) (apply_each apply_relation_type (sc_relation_types s)))"
  define after where "after = (\<lambda>b. then_do (apply_each apply_equality_index (sc_equality_indexes s) b) (\<lambda>b.
     then_do (apply_each apply_graph_projection (sc_graph_projections s) b) (apply_each apply_hypergraph_projection (sc_hypergraph_projections s))))"
  note each = repeats_each [OF steps_repeat(1)] repeats_each [OF steps_repeat(2)] repeats_each [OF steps_repeat(3)]
    repeats_each [OF steps_repeat(4)] repeats_each [OF steps_repeat(5)] repeats_each [OF steps_repeat(6)] repeats_each [OF steps_repeat(7)]
  from run obtain b3 w3 b4 w4 where first: "before w = (Ok b3, w3)" and keys: "apply_each apply_key (sc_keys s) b3 w3 = (Ok b4, w4)"
    and rest: "after b4 w4 = (Ok b, w')"
    unfolding apply_schema_def before_def after_def by (elim then_do_runs) (simp add: then_do_def)
  have "\<exists>look. repeats before look" unfolding before_def
    by (rule exI, rule repeats_then_do [OF each(1)], rule repeats_then_do [OF each(2)], rule each(3))
  then obtain look where "repeats before look" ..
  from repeatsD(1) [OF this ok first] have w3: "catalog_ok (ov_catalog w3) (ov_next w3)" by (simp add: registers_def)
  have w4: "catalog_ok (ov_catalog w4) (ov_next w4)"
    using repeatsD(1) [OF each(4) w3 keys] by (simp add: registers_def)
  have "\<exists>look. repeats (after b4) look" unfolding after_def
    by (rule exI, rule repeats_then_do [OF each(5)], rule repeats_then_do [OF each(6)], rule each(7))
  then obtain look where "repeats (after b4) look" ..
  from registers_later [OF repeatsD(1) [OF this w4 rest]] have "later w4 w'" .
  with apply_keys_fit [OF keys w3] key_fits_later w4 show ?thesis by blast
qed


text \<open>A schema of two roles, a key with an index on it, and a projection between the roles.\<close>

definition example_schema :: schema where
  "example_schema = schema_graph_projection source_name [] source_name target_name
     (schema_equality_index source_name target_name (schema_key target_name ElementFamily IntegerType
       (schema_role target_name (schema_role source_name schema_new))))"

definition example_handles :: bound where
  "example_handles = \<lparr>bd_roles = fmupd target_name 2 (fmupd source_name 1 fmempty), bd_labels = fmempty,
     bd_relation_types = fmempty, bd_keys = fmupd target_name (1, IntegerType) fmempty,
     bd_equality_indexes = fmupd source_name (1, IntegerType) fmempty, bd_projections = fmupd source_name 1 fmempty\<rparr>"

lemmas apply_schema_runs = apply_schema_def apply_role_def apply_label_def apply_relation_type_def apply_key_def
  apply_equality_index_def apply_graph_projection_def apply_hypergraph_projection_def found_or_def register_key_or_get_def
  define_graph_projection_def then_do_def checked_def DbWriter.yields_def

lemma example_schema_applies: "fst (apply_schema example_schema example_start) = Ok example_handles"
proof -
  have two: "checked_next 2 = Some 3" by (simp add: checked_next_Some_iff)
  show ?thesis
    by (simp add: apply_schema_runs example_schema_def schema_new_def schema_role_def schema_key_def schema_equality_index_def
      schema_graph_projection_def bound_default_def example_handles_def register_role_def register_property_key_def
      w_define_index_def register_index_def w_define_projection_def register_projection_def require_role_def require_property_key_def
      next_initial [simplified] two example_start_def from_overlay_def overlay_empty_def INITIAL_def wo_push_def catalog_empty_def
      catalog_inserts cat_lookups Let_def case_prod_unfold insert_named_def bound_role_def sorted_list_of_fset.rep_eq)
qed


end
