(* ===== verification/Spec2Isabelle.thy ===== *)
theory Spec2Isabelle
  imports Keys Toposort Bounded Components Superblock HyperSnapshot HyperWeighted Scc DbWalk DbHyper DbSchema
begin

text \<open>
  A verification of oxgraph, a graph library and embedded graph database in Rust.

  \<^bold>\<open>The program.\<close> oxgraph stores graphs as flat arrays inside checksummed byte containers and runs
  algorithms over borrowed views of them. \<open>oxgraph-layout-util\<close> holds the machine-integer widths, the
  CRC-32C, the composite keys, the offset-array builders and their read-time checks;
  \<open>oxgraph-snapshot\<close> the container of sections; \<open>oxgraph-csr\<close> the compressed rows of a directed graph
  (borrowed views, owned builders, snapshot binding) and \<open>oxgraph-csc\<close> the same layout read as
  incoming edges; \<open>oxgraph-hyper-bcsr\<close> the bidirectional layout of directed hypergraphs (validation,
  traversal, builders); \<open>oxgraph-algo\<close> the traversals over the traits of \<open>oxgraph-topology\<close>; \<open>oxgraph-db\<close> an
  embedded database with an append-only commit log over immutable base snapshots.

  \<^bold>\<open>Conventions\<close> (theory Prelude). The target has a 64-bit \<open>usize\<close>: a \<open>usize\<close> is a natural number and
  checked operations compare with \<open>usize_max\<close>. Machine integers of a fixed width are words. A
  \<open>Result\<close> is a sum whose left side is the error; a computation that can panic returns an option
  whose \<open>None\<close> is the panic, so a theorem that gives \<open>Some\<close> also shows that nothing panics. Loops that
  need an argument to end are partial functions into the option type, with \<open>None\<close> also for not
  ending; the properties show that they return. Allocation failure, \<open>Display\<close> implementations and
  capacity hints are not modelled.

  \<^bold>\<open>Theories and what they show.\<close>

  \<^item> Layout: \<open>LayoutIndex\<close>, \<open>LayoutWord\<close>, \<open>SnapshotWidth\<close> of \<open>layout-util/src/lib.rs\<close>; the locale
    \<open>snapshot_width\<close> gives the codec laws for 16, 32 and 64 bits.
  \<^item> Crc: the table-driven CRC-32C of \<open>lib.rs\<close> against the bit-serial division, and its detection of
    one-byte errors; the locale \<open>checksum32\<close> is the contract of an injected checksum.
  \<^item> Keys: \<open>keys.rs\<close>; composite keys are injective.
  \<^item> Integrity and BuildIndex: \<open>integrity.rs\<close> and \<open>build.rs\<close>; the offset check accepts exactly the
    monotone offset arrays, the builder produces them and cuts the values into the input buckets.
  \<^item> SliceSearch: the standard library's binary search over slices.
  \<^item> SnapshotFormat, SnapshotRead, SnapshotWrite: \<open>oxgraph-snapshot/src/container.rs\<close> and \<open>error.rs\<close>;
    opening accepts exactly the well-formed containers, lookup equals a scan, every writer run reads
    back, plans and writers agree, and one-byte corruption is caught.
  \<^item> Csr, CsrBuild, CsrSnapshot: \<open>oxgraph-csr/src/lib.rs\<close>, \<open>build.rs\<close> and \<open>oxgraph-csc/src/lib.rs\<close>;
    validation accepts exactly the well-formed views, the accessors agree on them, freezing groups
    the edges by source in insertion order, and export followed by binding gives back the view.
  \<^item> SnapshotTyped: sections of machine words, as both graph exporters write and read them.
  \<^item> Bcsr, BcsrTraverse, HyperBuild, HyperWeighted, HyperSnapshot: \<open>oxgraph-hyper-bcsr/src/\<close>.
    Opening decides the layout invariant, and at the strict level that the head and tail lists agree
    with the outgoing and incoming lists; the iterators over handles and neighbours, as state
    machines, end and list what the incidence relation says; the locale \<open>bipartite_index\<close> states the
    agreement of two directions once, for both sides of a view and for the built index. Freezing a
    builder gives a view that strict validation accepts, export and binding give it back, and the
    weighted builder refines the unweighted one.
  \<^item> Topology: the traits of \<open>oxgraph-topology/src/lib.rs\<close> that the algorithms bind to, as a record of
    functions; the locale \<open>dense_topology\<close> is their documented contract, interpreted for CSR views,
    frozen graphs and graph projections.
  \<^item> Layers: the specification of breadth-first search by hop distance.
  \<^item> Bfs, Bounded, Induced, Toposort, Components, Tarjan, Scc: \<open>oxgraph-algo/src/bfs/\<close>, \<open>sssp.rs\<close>,
    \<open>toposort.rs\<close>, \<open>longest_path_dag.rs\<close>, \<open>components.rs\<close>, \<open>scc.rs\<close> (Tarjan holds the invariant of its walk). The locale \<open>bfs_storage\<close> states what the search asks of a storage policy;
    the five policies of \<open>core.rs\<close> interpret it, and all of them yield the reachable elements by
    distance. The bounded search, the shortest path lengths, the topological order, the longest
    path and the weakly and strongly connected components are shown correct against the induced subgraph, loops and machine arithmetic included.
  \<^item> Wal, Superblock: \<open>oxgraph-db/src/wal.rs\<close> with the records of \<open>wire.rs\<close>; replay inverts encoding,
    recovers the commits before a torn record, returns on every byte string and never reports
    commits that a one-byte error made up; appending and publishing are atomic under every outcome
    of the file calls. The checksum crate is a parameter.
  \<^item> DbTypes, DbCatalog, DbIndex, DbOverlay: the data of the database, \<open>oxgraph-db/src/id.rs\<close>, \<open>value.rs\<close>,
    \<open>state.rs\<close>, \<open>error.rs\<close>, \<open>catalog.rs\<close>, \<open>wire/defs.rs\<close>, \<open>index.rs\<close> and \<open>overlay/\<close>: a base is the records of
    a base file with their postings, an overlay the delta over it, and a write overlay also keeps the log of
    its operations. Ordered maps and sets are finite maps and sets listed in ascending order.
  \<^item> DbState, DbView, DbAgree, DbLookup: the merged reads of \<open>overlay/merge.rs\<close>. The locale \<open>state_view\<close> is the
    contract of the walks and \<open>indexed_view\<close> that of the lookups by posting; an overlay over a base interprets
    both, since every operation keeps its postings in agreement with the graph it shows. So the merge
    iterators list that graph in order and the index-backed lookups return what the scans return.
  \<^item> DbWriter, DbInvariant, DbTransaction: the writer of \<open>database/writer.rs\<close> as functions from the delta to an
    outcome and a delta, the invariant of a writable state, and the step relation of the writer's operations.
  \<^item> DbReplay, DbRedo, DbStore, DbRecover: what replaying a transaction's log does, and the database of
    \<open>database/open.rs\<close> and \<open>mod.rs\<close> over one base generation. The locale \<open>writer_relation\<close> lifts a relation from
    the primitive operations to whole transactions; allocators that rise, logs that redo and ops of the right
    shape interpret it. A session is a sequence of write calls under any outcome of the file calls.
  \<^item> DbGuarantees, DbReconcile: what this gives a caller: reopening restores the published state, also after a
    crash inside an append; the invariant, the lookups and the walks of published states; tombstones that
    cascade, updates that refuse or do their work, ids that are never reused; upserts and retain.
  \<^item> DbProjection, DbWalk: \<open>oxgraph-db/src/projection.rs\<close> and \<open>traversal.rs\<close>. A graph projection is refused exactly
    when a selected relation is not binary, and otherwise shows the selected edges, as a topology that interprets
    \<open>dense_topology\<close> in both directions; so a walk is the bounded search over it, by distance, with the edges
    among the found elements.
  \<^item> DbHyper: the hypergraph projection of \<open>projection.rs\<close>, renumbered, with its sides split by role and its
    vertex-major arrays read back from a frozen hypergraph of HyperBuild.
  \<^item> DbSchema: \<open>oxgraph-db/src/schema.rs\<close> with \<open>Writer::apply_schema\<close> and \<open>Db::bind\<close>. Each step of applying a
    schema repeats: run again on any later catalog it returns the same and changes nothing, and a lookup finds it.

  \<^bold>\<open>Not modelled.\<close> PageRank (floating point); the property columns (Arrow arrays of a third-party
  package) and the exports that need them; of the database the base file's encoding and its freeze, checkpoints,
  the fingerprint of a schema (a hash of the standard hasher), the queries and the read handles; the memory
  map, the PostgreSQL bindings and the facade (input, output and glue).
\<close>

end
